(* ===== verification/Prelude.thy ===== *)
theory Prelude
  imports Main "HOL-Library.Word"
begin

text \<open>
  Shared material of the development: the machine types of the Rust code, the
  result type of fallible functions with its \<open>?\<close> operator, the little- and
  big-endian byte encodings of \<^verbatim>\<open>u16\<close>/\<^verbatim>\<open>u32\<close>/\<^verbatim>\<open>u64\<close>
  (\<^verbatim>\<open>to_le_bytes\<close>, \<^verbatim>\<open>from_le_bytes\<close>, ...), copying into a slice
  (\<^verbatim>\<open>copy_from_slice\<close>), the \<^verbatim>\<open>iter().position\<close> scan over a fixed
  array, the locale of codecs with a round trip, and the lemmas on lists and words the
  components share.
\<close>

unbundle bit_operations_syntax

section \<open>Machine types and results\<close>

type_synonym u8 = "8 word"
type_synonym u16 = "16 word"
type_synonym u32 = "32 word"
type_synonym u64 = "64 word"

text \<open>\<^verbatim>\<open>Result<T, E>\<close> is the sum \<open>'e + 'a\<close>: \<open>Err\<close> is the left injection.\<close>

abbreviation Ok :: "'a \<Rightarrow> 'e + 'a" where "Ok \<equiv> Inr"
abbreviation Err :: "'e \<Rightarrow> 'e + 'a" where "Err \<equiv> Inl"

text \<open>The \<^verbatim>\<open>?\<close> operator: stop at the first error.\<close>

fun and_then :: "'e + 'a \<Rightarrow> ('a \<Rightarrow> 'e + 'b) \<Rightarrow> 'e + 'b" where
  "and_then (Inl e) f = Inl e"
| "and_then (Inr x) f = f x"

text \<open>\<^verbatim>\<open>Option::ok_or\<close>.\<close>

fun ok_or :: "'a option \<Rightarrow> 'e \<Rightarrow> 'e + 'a" where
  "ok_or None e = Inl e"
| "ok_or (Some x) e = Inr x"

text \<open>The facts that unfold one component's operations are collected by name.\<close>

named_theorems tier_simps \<open>security tiers as numbers\<close>
named_theorems codec_simps \<open>byte encodings\<close>
named_theorems slice_simps \<open>reading back what copy_into wrote\<close>

section \<open>Byte encodings of machine integers\<close>

primrec le_bytes :: "nat \<Rightarrow> 'a::len word \<Rightarrow> u8 list" where
  "le_bytes 0 w = []"
| "le_bytes (Suc n) w = ucast w # le_bytes n (drop_bit 8 w)"

primrec of_le_bytes :: "u8 list \<Rightarrow> 'a::len word" where
  "of_le_bytes [] = 0"
| "of_le_bytes (b # bs) = ucast b OR push_bit 8 (of_le_bytes bs)"

definition be_bytes :: "nat \<Rightarrow> 'a::len word \<Rightarrow> u8 list" where
  "be_bytes n w = rev (le_bytes n w)"

definition of_be_bytes :: "u8 list \<Rightarrow> 'a::len word" where
  "of_be_bytes bs = of_le_bytes (rev bs)"

section \<open>Slices and scans\<close>

text \<open>\<^verbatim>\<open>out[off..off + src.len()].copy_from_slice(src)\<close>; callers check the bounds.\<close>

definition copy_into :: "nat \<Rightarrow> 'a list \<Rightarrow> 'a list \<Rightarrow> 'a list" where
  "copy_into off src out = take off out @ src @ drop (off + length src) out"

text \<open>\<^verbatim>\<open>&data[off..off + len]\<close>; callers check the bounds.\<close>

definition slice :: "nat \<Rightarrow> nat \<Rightarrow> 'a list \<Rightarrow> 'a list" where
  "slice off n xs = take n (drop off xs)"

text \<open>\<^verbatim>\<open>iter().position(p)\<close>: the index of the first element with \<open>p\<close>.\<close>

fun position :: "('a \<Rightarrow> bool) \<Rightarrow> 'a list \<Rightarrow> nat option" where
  "position p [] = None"
| "position p (x # xs) = (if p x then Some 0 else map_option Suc (position p xs))"

section \<open>Lemmas: results\<close>

lemma and_then_Inr [simp]: "(and_then r f = Inr y) = (\<exists>x. r = Inr x \<and> f x = Inr y)"
  by (cases r) auto

lemma and_then_Inl: "(and_then r f = Inl e) = (r = Inl e \<or> (\<exists>x. r = Inr x \<and> f x = Inl e))"
  by (cases r) auto

lemma ok_or_Inr [simp]: "(ok_or m e = Inr x) = (m = Some x)"
  by (cases m) auto

lemma ok_or_Inl [simp]: "(ok_or m e = Inl e') = (m = None \<and> e = e')"
  by (cases m) auto

section \<open>Lemmas: byte encodings\<close>

lemma length_le_bytes [simp]: "length (le_bytes n w) = n"
  by (induction n arbitrary: w) auto

lemma length_be_bytes [simp]: "length (be_bytes n w) = n"
  by (simp add: be_bytes_def)

lemma of_le_le_bytes: "of_le_bytes (le_bytes n w) = take_bit (8 * n) (w :: 'a::len word)"
proof (induction n arbitrary: w)
  case 0
  then show ?case by simp
next
  case (Suc n)
  show ?case
    by (rule bit_word_eqI) (auto simp: Suc bit_simps)
qed

lemma le_bytes_inverse [simp]:
  "8 * n = LENGTH('a) \<Longrightarrow> of_le_bytes (le_bytes n w) = (w :: 'a::len word)"
  by (simp add: of_le_le_bytes)

lemma be_bytes_inverse [simp]:
  "8 * n = LENGTH('a) \<Longrightarrow> of_be_bytes (be_bytes n w) = (w :: 'a::len word)"
  by (simp add: of_be_bytes_def be_bytes_def)

lemma le_bytes_of_le:
  "8 * length bs \<le> LENGTH('a) \<Longrightarrow> le_bytes (length bs) (of_le_bytes bs :: 'a::len word) = bs"
proof (induction bs)
  case Nil
  then show ?case by simp
next
  case (Cons b bs)
  let ?w = "of_le_bytes bs :: 'a word"
  have lo: "ucast (ucast b OR push_bit 8 ?w :: 'a word) = b"
    using Cons.prems by (intro bit_word_eqI) (auto simp: bit_simps)
  have hi: "le_bytes (length bs) (drop_bit 8 (ucast b OR push_bit 8 ?w :: 'a word))
      = le_bytes (length bs) ?w"
  proof -
    have eq: "take_bit (8 * length bs) (drop_bit 8 (ucast b OR push_bit 8 ?w :: 'a word))
        = take_bit (8 * length bs) ?w"
      using Cons.prems by (intro bit_word_eqI) (auto simp: bit_simps dest: bit_imp_le_length)
    have "le_bytes n x = le_bytes n (take_bit (8 * n) x)" for n and x :: "'a word"
    proof (induction n arbitrary: x)
      case 0
      then show ?case by simp
    next
      case (Suc n)
      have "ucast x = (ucast (take_bit (8 * Suc n) x) :: u8)"
        by (intro bit_word_eqI) (auto simp: bit_simps)
      moreover have "take_bit (8 * n) (drop_bit 8 x)
          = take_bit (8 * n) (drop_bit 8 (take_bit (8 * Suc n) x))"
        by (intro bit_word_eqI) (auto simp: bit_simps)
      ultimately show ?case
        using Suc [of "drop_bit 8 x"] Suc [of "drop_bit 8 (take_bit (8 * Suc n) x)"]
        by simp
    qed
    with eq show ?thesis by metis
  qed
  from Cons lo hi show ?case by simp
qed

lemma be_bytes_of_be:
  assumes "length bs = n" and "8 * n \<le> LENGTH('a)"
  shows "be_bytes n (of_be_bytes bs :: 'a::len word) = bs"
  using assms le_bytes_of_le [of "rev bs", where 'a = 'a]
  by (simp add: be_bytes_def of_be_bytes_def)

lemma unat_and_mask_less: "unat (w AND mask n) < 2 ^ n" for w :: "'a::len word"
proof -
  have "unat (take_bit n w) = take_bit n (unat w)" by (simp add: unsigned_take_bit_eq)
  also have "\<dots> < 2 ^ n" by (rule take_bit_nat_less_exp)
  finally show ?thesis by (simp only: take_bit_eq_mask)
qed

section \<open>Lemmas: slices and scans\<close>

lemma length_copy_into [simp]:
  "off + length src \<le> length out \<Longrightarrow> length (copy_into off src out) = length out"
  by (simp add: copy_into_def)

lemma length_slice [simp]: "off + n \<le> length xs \<Longrightarrow> length (slice off n xs) = n"
  by (simp add: slice_def)

lemma slice_exact: "length pre = off \<Longrightarrow> length xs = n \<Longrightarrow> slice off n (pre @ xs @ post) = xs"
  by (auto simp: slice_def)

lemma slice_copy_into_same [simp]:
  "off + length src \<le> length out \<Longrightarrow> n = length src \<Longrightarrow> slice off n (copy_into off src out) = src"
  by (simp add: slice_def copy_into_def)

lemma slice_copy_into_below [slice_simps]:
  "o2 + length src \<le> length out \<Longrightarrow> o1 + n \<le> o2 \<Longrightarrow>
     slice o1 n (copy_into o2 src out) = slice o1 n out"
  by (simp add: slice_def copy_into_def take_drop min_def)

lemma slice_copy_into_above [slice_simps]:
  "o2 + length src \<le> length out \<Longrightarrow> o2 + length src \<le> o1 \<Longrightarrow>
     slice o1 n (copy_into o2 src out) = slice o1 n out"
  by (simp add: slice_def copy_into_def)

lemma slice_prefix: "off + n \<le> length xs \<Longrightarrow> slice off n (xs @ ys) = slice off n xs"
  by (simp add: slice_def)

lemma slice_take: "off + n \<le> m \<Longrightarrow> slice off n (take m xs) = slice off n xs"
  by (simp add: slice_def drop_take min_def)

lemma length_concat_same: "\<forall>x \<in> set xs. length x = n \<Longrightarrow> length (concat xs) = length xs * n"
  by (induction xs) auto

lemma slice_concat_blocks:
  assumes "\<forall>x \<in> set xs. length x = n" and "k < length xs"
  shows "slice (length pre + k * n) n (pre @ concat xs @ post) = xs ! k"
proof -
  have "concat xs = concat (take k xs) @ xs ! k @ concat (drop (Suc k) xs)"
    using id_take_nth_drop [OF assms(2)] by (metis concat.simps(2) concat_append)
  moreover have "length (concat (take k xs)) = k * n"
    using length_concat_same [of "take k xs" n] assms by (auto dest: in_set_takeD)
  ultimately show ?thesis using assms by (simp add: slice_def)
qed

lemma nth_eq_slice: "i < length xs \<Longrightarrow> xs ! i = hd (slice i 1 xs)"
  by (simp add: slice_def hd_drop_conv_nth)

lemma nth_slice_1: "slice i 1 xs = [x] \<Longrightarrow> xs ! i = x"
  by (cases "i < length xs") (auto simp: nth_eq_slice slice_def)

lemma slice_slice: "k + n \<le> m \<Longrightarrow> slice k n (slice base m xs) = slice (base + k) n xs"
  by (simp add: slice_def drop_take min_def add.commute)

lemma nth_slice: "base + m \<le> length xs \<Longrightarrow> k < m \<Longrightarrow> slice base m xs ! k = xs ! (base + k)"
  by (simp add: slice_def)

lemma slice_within: "slice (length pre + k) n (pre @ xs @ post) = slice k n (xs @ post)"
  by (simp add: slice_def)

lemma slice_skip: "length a \<le> k \<Longrightarrow> slice k n (a @ b) = slice (k - length a) n b"
  by (simp add: slice_def)

lemma slice_head: "slice 0 n (a @ b) = a" if "length a = n"
  using that by (simp add: slice_def)

text \<open>Writing piece after piece.\<close>

lemma copy_into_append:
  "off + length a + length b \<le> length buf \<Longrightarrow>
     copy_into (off + length a) b (copy_into off a buf) = copy_into off (a @ b) buf"
  by (simp add: copy_into_def ac_simps)

lemma copy_into_append_at:
  "k = off + length a \<Longrightarrow> k + length b \<le> length buf \<Longrightarrow> copy_into k b (copy_into off a buf) = copy_into off (a @ b) buf"
  by (simp add: copy_into_append)

lemma copy_into_mid: "length a = k \<Longrightarrow> length b = length c \<Longrightarrow> copy_into k c (a @ b @ rest) = a @ c @ rest"
  by (simp add: copy_into_def)

text \<open>Filling an array from the front.\<close>

lemma foldl_update_upt:
  "n \<le> length cs \<Longrightarrow> foldl (\<lambda>cs i. cs[i := g i]) cs [0..<n] = map g [0..<n] @ drop n cs"
proof (induction n)
  case (Suc n)
  then have "drop n cs = cs ! n # drop (Suc n) cs" by (simp add: Cons_nth_drop_Suc)
  with Suc show ?case by (simp add: list_update_append)
qed simp

lemma nth_copy_into:
  "off + length src \<le> length out \<Longrightarrow> i < length out \<Longrightarrow>
     copy_into off src out ! i
       = (if off \<le> i \<and> i < off + length src then src ! (i - off) else out ! i)"
  by (auto simp: copy_into_def nth_append)

lemma list_update_copy_into: "i < length xs \<Longrightarrow> xs[i := x] = copy_into i [x] xs"
  by (simp add: copy_into_def upd_conv_take_nth_drop)

lemma position_SomeD:
  "position p xs = Some i \<Longrightarrow> i < length xs \<and> p (xs ! i) \<and> (\<forall>j < i. \<not> p (xs ! j))"
proof (induction xs arbitrary: i)
  case Nil
  then show ?case by simp
next
  case (Cons x xs)
  then show ?case
    by (cases "p x"; cases i) (auto simp: less_Suc_eq_0_disj nth_Cons split: nat.splits)
qed

lemma position_None_iff: "position p xs = None \<longleftrightarrow> (\<forall>x \<in> set xs. \<not> p x)"
  by (induction xs) auto

lemma position_Some_iff:
  "position p xs = Some i \<longleftrightarrow> i < length xs \<and> p (xs ! i) \<and> (\<forall>j < i. \<not> p (xs ! j))"
proof
  assume "i < length xs \<and> p (xs ! i) \<and> (\<forall>j < i. \<not> p (xs ! j))"
  moreover from this have "position p xs \<noteq> None"
    by (auto simp: position_None_iff)
  then obtain k where "position p xs = Some k" by blast
  ultimately show "position p xs = Some i"
    using position_SomeD [of p xs k] by (metis linorder_neqE_nat)
qed (rule position_SomeD)

lemma find_eq_position: "List.find p xs = map_option ((!) xs) (position p xs)"
  by (induction xs) (auto simp: option.map_comp comp_def)

lemma length_filter_update:
  "i < length xs \<Longrightarrow>
     length (filter p (xs[i := y])) + (if p (xs ! i) then 1 else 0)
       = length (filter p xs) + (if p y then 1 else 0)"
proof (induction xs arbitrary: i)
  case Nil
  then show ?case by simp
next
  case (Cons x xs)
  then show ?case
  proof (cases i)
    case 0
    then show ?thesis by simp
  next
    case (Suc j)
    with Cons.prems have "j < length xs" by simp
    from Cons.IH [OF this] Suc show ?thesis by simp
  qed
qed

section \<open>Codecs with a round trip\<close>

text \<open>
  A component that stores a value as bytes promises that decoding what it encoded gives
  the value back. Everything a client needs of a stored value follows from that law.
\<close>

locale byte_codec =
  fixes enc :: "'a \<Rightarrow> u8 list"
    and dec :: "u8 list \<Rightarrow> 'a option"
    and wf :: "'a \<Rightarrow> bool"
  assumes dec_enc: "wf x \<Longrightarrow> dec (enc x) = Some x"
begin

lemma enc_inj: "wf x \<Longrightarrow> wf y \<Longrightarrow> enc x = enc y \<Longrightarrow> x = y"
  by (metis dec_enc option.inject)

lemma enc_inj_on: "inj_on enc {x. wf x}"
  by (rule inj_onI) (auto intro: enc_inj)

end

end
