(* ===== verification/Byte_Queue.thy ===== *)
theory Byte_Queue
  imports Prelude
begin

text \<open>
  The contract of a bounded byte stream: what was put comes out once, in order, and no more
  than the capacity is held. A client may run any interleaving of puts and gets; the locale
  proves the conservation law for every such run from the one-step laws. The pipe's ring buffer
  provides the interface.
\<close>

datatype queue_op = Put "u8 list" | Get nat

text \<open>
  A run of operations, with the bytes accepted and the bytes delivered so far. \<open>put\<close> gives
  the number of bytes it took, \<open>get\<close> the bytes it delivered.
\<close>

fun queue_run ::
  "('q \<Rightarrow> u8 list \<Rightarrow> 'q \<times> nat) \<Rightarrow> ('q \<Rightarrow> nat \<Rightarrow> 'q \<times> u8 list) \<Rightarrow> 'q \<Rightarrow> queue_op list
     \<Rightarrow> 'q \<times> u8 list \<times> u8 list" where
  "queue_run put get q [] = (q, [], [])"
| "queue_run put get q (Put xs # ops) =
     (let (q', n) = put q xs;
          (q'', ins, outs) = queue_run put get q' ops
      in (q'', take n xs @ ins, outs))"
| "queue_run put get q (Get n # ops) =
     (let (q', ys) = get q n;
          (q'', ins, outs) = queue_run put get q' ops
      in (q'', ins, ys @ outs))"

locale byte_queue =
  fixes contents :: "'q \<Rightarrow> u8 list"
    and inv :: "'q \<Rightarrow> bool"
    and capacity :: nat
    and put :: "'q \<Rightarrow> u8 list \<Rightarrow> 'q \<times> nat"
    and get :: "'q \<Rightarrow> nat \<Rightarrow> 'q \<times> u8 list"
  assumes bounded: "inv q \<Longrightarrow> length (contents q) \<le> capacity"
    and put_count: "inv q \<Longrightarrow> snd (put q xs) = min (length xs) (capacity - length (contents q))"
    and put_contents: "inv q \<Longrightarrow> contents (fst (put q xs)) = contents q @ take (snd (put q xs)) xs"
    and put_inv: "inv q \<Longrightarrow> inv (fst (put q xs))"
    and get_bytes: "inv q \<Longrightarrow> snd (get q n) = take n (contents q)"
    and get_contents: "inv q \<Longrightarrow> contents (fst (get q n)) = drop n (contents q)"
    and get_inv: "inv q \<Longrightarrow> inv (fst (get q n))"
begin

lemma run_conserves:
  assumes "inv q" and "queue_run put get q ops = (q', ins, outs)"
  shows "contents q @ ins = outs @ contents q' \<and> inv q'"
  using assms
proof (induction ops arbitrary: q q' ins outs)
  case Nil
  then show ?case by simp
next
  case (Cons op ops)
  show ?case
  proof (cases op)
    case (Put xs)
    obtain r n where p: "put q xs = (r, n)" by (cases "put q xs")
    with Cons.prems Put obtain ins' where
      r: "queue_run put get r ops = (q', ins', outs)" and ins: "ins = take n xs @ ins'"
      by (auto split: prod.splits)
    from Cons.prems(1) p have "inv r" and "contents r = contents q @ take n xs"
      using put_inv [of q xs] put_contents [of q xs] by auto
    with Cons.IH [OF _ r] ins show ?thesis by simp
  next
    case (Get n)
    obtain r ys where g: "get q n = (r, ys)" by (cases "get q n")
    with Cons.prems Get obtain outs' where
      r: "queue_run put get r ops = (q', ins, outs')" and outs: "outs = ys @ outs'"
      by (auto split: prod.splits)
    from Cons.prems(1) g have "inv r" and "contents r = drop n (contents q)"
      and ys: "ys = take n (contents q)"
      using get_inv [of q n] get_contents [of q n] get_bytes [of q n] by auto
    with Cons.IH [OF _ r] outs have "drop n (contents q) @ ins = outs' @ contents q' \<and> inv q'"
      by simp
    then have "take n (contents q) @ drop n (contents q) @ ins = outs @ contents q' \<and> inv q'"
      unfolding outs ys by simp
    then show ?thesis by (metis append.assoc append_take_drop_id)
  qed
qed

end

end
