(* ===== verification/Pipe.thy ===== *)
theory Pipe
  imports Byte_Queue
begin

text \<open>
  Kernel pipes: \<^verbatim>\<open>src/kernel-core/src/ipc/pipe.rs\<close>. A pipe is a 4096-byte ring buffer
  with reference counts of its two ends; the kernel has a table of 32. The theory shows that the
  ring buffer is a bounded first-in first-out byte queue, that a pipe operation blocks exactly when
  the scheduler's wake-up test is false, and the life cycle of a slot.
\<close>

section \<open>Definitions\<close>

definition PIPE_BUF_SIZE :: nat where "PIPE_BUF_SIZE = 4096"
definition MAX_PIPES :: nat where "MAX_PIPES = 32"

record pipe =
  pipe_buf :: "u8 list"
  read_pos :: nat
  write_pos :: nat
  pipe_count :: nat
  readers :: u32
  writers :: u32
  active :: bool

definition pipe_empty :: pipe where
  "pipe_empty = \<lparr>pipe_buf = replicate PIPE_BUF_SIZE 0, read_pos = 0, write_pos = 0, pipe_count = 0,
     readers = 0, writers = 0, active = False\<rparr>"

definition available :: "pipe \<Rightarrow> nat" where
  "available p = pipe_count p"

definition free_space :: "pipe \<Rightarrow> nat" where
  "free_space p = PIPE_BUF_SIZE - pipe_count p"

text \<open>The copy loop of \<^verbatim>\<open>Pipe::read\<close>: \<open>n\<close> bytes from the ring.\<close>

fun read_loop :: "nat \<Rightarrow> pipe \<Rightarrow> pipe \<times> u8 list" where
  "read_loop 0 p = (p, [])"
| "read_loop (Suc n) p =
     (let b = pipe_buf p ! read_pos p;
          (p', bs) = read_loop n (p\<lparr>read_pos := (read_pos p + 1) mod PIPE_BUF_SIZE\<rparr>)
      in (p', b # bs))"

text \<open>The destination slice has \<open>len\<close> bytes; the result is what was written to it.\<close>

definition ring_read :: "pipe \<Rightarrow> nat \<Rightarrow> pipe \<times> u8 list" where
  "ring_read p len =
     (let n = min len (pipe_count p);
          (p', bs) = read_loop n p
      in (p'\<lparr>pipe_count := pipe_count p' - n\<rparr>, bs))"

fun write_loop :: "u8 list \<Rightarrow> pipe \<Rightarrow> pipe" where
  "write_loop [] p = p"
| "write_loop (b # bs) p =
     write_loop bs (p\<lparr>pipe_buf := (pipe_buf p)[write_pos p := b],
                      write_pos := (write_pos p + 1) mod PIPE_BUF_SIZE\<rparr>)"

definition ring_write :: "pipe \<Rightarrow> u8 list \<Rightarrow> pipe \<times> nat" where
  "ring_write p src =
     (let n = min (length src) (free_space p);
          p' = write_loop (take n src) p
      in (p'\<lparr>pipe_count := pipe_count p' + n\<rparr>, n))"

type_synonym pipes = "pipe list"

definition pipes_boot :: pipes where
  "pipes_boot = replicate MAX_PIPES pipe_empty"

definition create_pipe :: "pipes \<Rightarrow> pipes \<times> nat option" where
  "create_pipe ps =
     (case position (\<lambda>p. \<not> active p) ps of
        Some i \<Rightarrow> (ps[i := pipe_empty\<lparr>readers := 1, writers := 1, active := True\<rparr>], Some i)
      | None \<Rightarrow> (ps, None))"

text \<open>\<open>None\<close> means that the caller has to block; \<open>Some []\<close> is end of file.\<close>

definition pipe_read :: "pipes \<Rightarrow> nat \<Rightarrow> nat \<Rightarrow> pipes \<times> u8 list option" where
  "pipe_read ps i len =
     (if i \<ge> MAX_PIPES \<or> \<not> active (ps ! i) then (ps, Some [])
      else if pipe_count (ps ! i) > 0
           then (let (p, bs) = ring_read (ps ! i) len in (ps[i := p], Some bs))
      else if writers (ps ! i) = 0 then (ps, Some [])
      else (ps, None))"

definition pipe_write :: "pipes \<Rightarrow> nat \<Rightarrow> u8 list \<Rightarrow> pipes \<times> nat option" where
  "pipe_write ps i src =
     (if i \<ge> MAX_PIPES \<or> \<not> active (ps ! i) then (ps, Some 0)
      else if readers (ps ! i) = 0 then (ps, Some 0)
      else if free_space (ps ! i) > 0
           then (let (p, n) = ring_write (ps ! i) src in (ps[i := p], Some n))
      else (ps, None))"

definition dup_read_end :: "pipes \<Rightarrow> nat \<Rightarrow> pipes" where
  "dup_read_end ps i =
     (if i < MAX_PIPES \<and> active (ps ! i)
      then ps[i := (ps ! i)\<lparr>readers := readers (ps ! i) + 1\<rparr>] else ps)"

definition dup_write_end :: "pipes \<Rightarrow> nat \<Rightarrow> pipes" where
  "dup_write_end ps i =
     (if i < MAX_PIPES \<and> active (ps ! i)
      then ps[i := (ps ! i)\<lparr>writers := writers (ps ! i) + 1\<rparr>] else ps)"

definition saturating_dec :: "u32 \<Rightarrow> u32" where
  "saturating_dec n = (if n = 0 then 0 else n - 1)"

definition close_read_end :: "pipes \<Rightarrow> nat \<Rightarrow> pipes" where
  "close_read_end ps i =
     (if i < MAX_PIPES \<and> active (ps ! i)
      then (let p = (ps ! i)\<lparr>readers := saturating_dec (readers (ps ! i))\<rparr>
            in ps[i := if readers p = 0 \<and> writers p = 0 then p\<lparr>active := False\<rparr> else p])
      else ps)"

definition close_write_end :: "pipes \<Rightarrow> nat \<Rightarrow> pipes" where
  "close_write_end ps i =
     (if i < MAX_PIPES \<and> active (ps ! i)
      then (let p = (ps ! i)\<lparr>writers := saturating_dec (writers (ps ! i))\<rparr>
            in ps[i := if readers p = 0 \<and> writers p = 0 then p\<lparr>active := False\<rparr> else p])
      else ps)"

definition has_data :: "pipes \<Rightarrow> nat \<Rightarrow> bool" where
  "has_data ps i =
     (if i < MAX_PIPES \<and> active (ps ! i)
      then pipe_count (ps ! i) > 0 \<or> writers (ps ! i) = 0 else True)"

definition has_space :: "pipes \<Rightarrow> nat \<Rightarrow> bool" where
  "has_space ps i =
     (if i < MAX_PIPES \<and> active (ps ! i)
      then free_space (ps ! i) > 0 \<or> readers (ps ! i) = 0 else True)"

section \<open>The ring buffer as a queue\<close>

text \<open>The bytes in the ring, oldest first, and the invariant of the two positions.\<close>

definition ring_contents :: "pipe \<Rightarrow> u8 list" where
  "ring_contents p = map (\<lambda>i. pipe_buf p ! ((read_pos p + i) mod PIPE_BUF_SIZE)) [0..<pipe_count p]"

definition ring_inv :: "pipe \<Rightarrow> bool" where
  "ring_inv p \<longleftrightarrow> length (pipe_buf p) = PIPE_BUF_SIZE \<and> read_pos p < PIPE_BUF_SIZE
     \<and> pipe_count p \<le> PIPE_BUF_SIZE
     \<and> write_pos p = (read_pos p + pipe_count p) mod PIPE_BUF_SIZE"

lemma PIPE_BUF_SIZE_pos [simp]: "0 < PIPE_BUF_SIZE"
  by (simp add: PIPE_BUF_SIZE_def)

lemma length_ring_contents [simp]: "length (ring_contents p) = pipe_count p"
  by (simp add: ring_contents_def)

lemma read_loop_eq:
  "read_loop n p = (p\<lparr>read_pos := (if n = 0 then read_pos p else (read_pos p + n) mod PIPE_BUF_SIZE)\<rparr>,
     map (\<lambda>i. pipe_buf p ! (if i = 0 then read_pos p else (read_pos p + i) mod PIPE_BUF_SIZE)) [0..<n])"
proof (induction n arbitrary: p)
  case 0
  then show ?case by simp
next
  case (Suc n)
  have "map (\<lambda>i. f i) [0..<Suc n] = f 0 # map (\<lambda>i. f (Suc i)) [0..<n]" for f :: "nat \<Rightarrow> u8"
    by (simp add: upt_conv_Cons map_Suc_upt [symmetric] del: upt_Suc)
  then show ?case
    by (simp add: Suc mod_Suc_eq mod_add_left_eq add.commute del: upt_Suc) (simp add: mod_simps)
qed

lemma ring_read_eq:
  assumes "ring_inv p"
  shows "ring_read p len = (p\<lparr>read_pos := (read_pos p + min len (pipe_count p)) mod PIPE_BUF_SIZE,
      pipe_count := pipe_count p - min len (pipe_count p)\<rparr>, take len (ring_contents p))"
proof -
  let ?n = "min len (pipe_count p)"
  have "map (\<lambda>i. pipe_buf p ! (if i = 0 then read_pos p else (read_pos p + i) mod PIPE_BUF_SIZE)) [0..<?n]
      = take len (ring_contents p)"
    using assms by (auto simp: ring_contents_def ring_inv_def take_map min_def)
  moreover have "(if ?n = 0 then read_pos p else (read_pos p + ?n) mod PIPE_BUF_SIZE)
      = (read_pos p + ?n) mod PIPE_BUF_SIZE"
    using assms by (simp add: ring_inv_def)
  ultimately show ?thesis
    by (simp add: ring_read_def read_loop_eq Let_def split del: if_split)
qed

lemma ring_read_inv:
  assumes "ring_inv p"
  shows "ring_inv (fst (ring_read p len))"
proof -
  let ?n = "min len (pipe_count p)"
  have "((read_pos p + ?n) mod PIPE_BUF_SIZE + (pipe_count p - ?n)) mod PIPE_BUF_SIZE
      = (read_pos p + ?n + (pipe_count p - ?n)) mod PIPE_BUF_SIZE"
    by (rule mod_add_left_eq)
  also have "read_pos p + ?n + (pipe_count p - ?n) = read_pos p + pipe_count p" by simp
  finally have "((read_pos p + ?n) mod PIPE_BUF_SIZE + (pipe_count p - ?n)) mod PIPE_BUF_SIZE
      = write_pos p"
    using assms by (simp add: ring_inv_def)
  moreover have "pipe_count p - ?n \<le> PIPE_BUF_SIZE"
    using assms by (auto simp: ring_inv_def)
  ultimately show ?thesis
    using assms unfolding ring_read_eq [OF assms] by (simp add: ring_inv_def)
qed

lemma ring_read_contents:
  assumes "ring_inv p"
  shows "ring_contents (fst (ring_read p len)) = drop len (ring_contents p)"
proof -
  let ?n = "min len (pipe_count p)"
  have "((read_pos p + ?n) mod PIPE_BUF_SIZE + i) mod PIPE_BUF_SIZE
      = (read_pos p + (?n + i)) mod PIPE_BUF_SIZE" for i
    by (simp add: mod_simps add.assoc)
  moreover have "[?n..<pipe_count p] = map ((+) ?n) [0..<pipe_count p - ?n]"
    by (rule nth_equalityI) auto
  ultimately show ?thesis
    using assms by (auto simp: ring_read_eq ring_contents_def drop_map drop_upt min_def)
qed

text \<open>Writing one byte at the end of the ring.\<close>

lemma ring_push:
  fixes p :: pipe and b :: u8
  assumes "ring_inv p" and "pipe_count p < PIPE_BUF_SIZE"
  defines "p' \<equiv> p\<lparr>pipe_buf := (pipe_buf p)[write_pos p := b],
      write_pos := (write_pos p + 1) mod PIPE_BUF_SIZE, pipe_count := pipe_count p + 1\<rparr>"
  shows "ring_inv p'" and "ring_contents p' = ring_contents p @ [b]"
proof -
  show "ring_inv p'"
    using assms by (simp add: ring_inv_def mod_simps)
  have ne: "(read_pos p + i) mod PIPE_BUF_SIZE \<noteq> write_pos p" if "i < pipe_count p" for i
  proof
    assume "(read_pos p + i) mod PIPE_BUF_SIZE = write_pos p"
    then have "(read_pos p + i) mod PIPE_BUF_SIZE = (read_pos p + pipe_count p) mod PIPE_BUF_SIZE"
      using assms(1) by (simp add: ring_inv_def)
    then have "PIPE_BUF_SIZE dvd pipe_count p - i"
      using that by (metis add_diff_cancel_left mod_eq_dvd_iff_nat nat_add_left_cancel_le less_imp_le_nat)
    then show False using that assms(2) by (auto dest: dvd_imp_le)
  qed
  have "write_pos p < PIPE_BUF_SIZE" using assms(1) by (simp add: ring_inv_def)
  moreover have "map (\<lambda>i. (pipe_buf p)[write_pos p := b] ! ((read_pos p + i) mod PIPE_BUF_SIZE))
      [0..<pipe_count p] = ring_contents p"
    unfolding ring_contents_def
  proof (intro map_cong refl)
    fix i
    assume "i \<in> set [0..<pipe_count p]"
    then have "write_pos p \<noteq> (read_pos p + i) mod PIPE_BUF_SIZE" using ne [of i] by auto
    then show "(pipe_buf p)[write_pos p := b] ! ((read_pos p + i) mod PIPE_BUF_SIZE)
        = pipe_buf p ! ((read_pos p + i) mod PIPE_BUF_SIZE)"
      by (rule nth_list_update_neq)
  qed
  moreover have "(read_pos p + pipe_count p) mod PIPE_BUF_SIZE = write_pos p"
    and "length (pipe_buf p) = PIPE_BUF_SIZE"
    using assms(1) by (simp_all add: ring_inv_def)
  ultimately show "ring_contents p' = ring_contents p @ [b]"
    unfolding p'_def ring_contents_def [of "p\<lparr>pipe_buf := _, write_pos := _, pipe_count := _\<rparr>"] by simp
qed

lemma write_loop_frame [simp]:
  "pipe_count (write_loop bs p) = pipe_count p" "read_pos (write_loop bs p) = read_pos p"
  "readers (write_loop bs p) = readers p" "writers (write_loop bs p) = writers p"
  "active (write_loop bs p) = active p"
  by (induction bs p rule: write_loop.induct) simp_all

lemma write_loop_count_upd:
  "write_loop bs (p\<lparr>pipe_count := c\<rparr>) = (write_loop bs p)\<lparr>pipe_count := c\<rparr>"
proof (induction bs arbitrary: p)
  case (Cons b bs)
  let ?q = "p\<lparr>pipe_buf := (pipe_buf p)[write_pos p := b], write_pos := (write_pos p + 1) mod PIPE_BUF_SIZE\<rparr>"
  have "write_loop (b # bs) (p\<lparr>pipe_count := c\<rparr>) = write_loop bs (?q\<lparr>pipe_count := c\<rparr>)"
    by (cases p) simp
  then show ?case unfolding Cons.IH by simp
qed simp

lemma ring_write_loop:
  assumes "ring_inv p" and "pipe_count p + length bs \<le> PIPE_BUF_SIZE"
  shows "ring_inv ((write_loop bs p)\<lparr>pipe_count := pipe_count p + length bs\<rparr>)
    \<and> ring_contents ((write_loop bs p)\<lparr>pipe_count := pipe_count p + length bs\<rparr>) = ring_contents p @ bs"
  using assms
proof (induction bs arbitrary: p)
  case Nil
  then show ?case by simp
next
  case (Cons b bs)
  define p' where "p' = p\<lparr>pipe_buf := (pipe_buf p)[write_pos p := b],
      write_pos := (write_pos p + 1) mod PIPE_BUF_SIZE, pipe_count := pipe_count p + 1\<rparr>"
  from ring_push [of p b] Cons.prems have i: "ring_inv p'" and c: "ring_contents p' = ring_contents p @ [b]"
    by (simp_all add: p'_def)
  have "p' = p\<lparr>pipe_buf := (pipe_buf p)[write_pos p := b],
      write_pos := (write_pos p + 1) mod PIPE_BUF_SIZE\<rparr>\<lparr>pipe_count := pipe_count p + 1\<rparr>"
    by (simp add: p'_def)
  then have "write_loop bs p' = (write_loop (b # bs) p)\<lparr>pipe_count := pipe_count p + 1\<rparr>"
    by (simp only: write_loop_count_upd write_loop.simps)
  moreover have "pipe_count p' = pipe_count p + 1" by (simp add: p'_def)
  ultimately show ?case
    using Cons.IH [OF i] Cons.prems c by simp
qed

interpretation ring: byte_queue ring_contents ring_inv PIPE_BUF_SIZE ring_write ring_read
proof
  fix q xs n
  assume inv: "ring_inv q"
  then show "length (ring_contents q) \<le> PIPE_BUF_SIZE" by (simp add: ring_inv_def)
  show cnt: "snd (ring_write q xs) = min (length xs) (PIPE_BUF_SIZE - length (ring_contents q))"
    by (simp add: ring_write_def free_space_def Let_def)
  let ?k = "min (length xs) (PIPE_BUF_SIZE - pipe_count q)"
  have "ring_inv ((write_loop (take ?k xs) q)\<lparr>pipe_count := pipe_count q + ?k\<rparr>)
      \<and> ring_contents ((write_loop (take ?k xs) q)\<lparr>pipe_count := pipe_count q + ?k\<rparr>)
          = ring_contents q @ take ?k xs"
  proof -
    have l: "length (take ?k xs) = ?k" by simp
    have "pipe_count q + ?k \<le> PIPE_BUF_SIZE" using inv by (auto simp: ring_inv_def)
    with ring_write_loop [OF inv, of "take ?k xs"] show ?thesis unfolding l by blast
  qed
  then show "ring_contents (fst (ring_write q xs)) = ring_contents q @ take (snd (ring_write q xs)) xs"
    and "ring_inv (fst (ring_write q xs))"
    by (simp_all add: ring_write_def free_space_def Let_def)
  show "snd (ring_read q n) = take n (ring_contents q)" using inv by (simp add: ring_read_eq)
  show "ring_contents (fst (ring_read q n)) = drop n (ring_contents q)"
    using inv by (rule ring_read_contents)
  show "ring_inv (fst (ring_read q n))" using inv by (rule ring_read_inv)
qed

section \<open>The pipe table\<close>

definition pipes_wf :: "pipes \<Rightarrow> bool" where
  "pipes_wf ps \<longleftrightarrow> length ps = MAX_PIPES \<and> (\<forall>p \<in> set ps. ring_inv p)"

datatype pipe_op = P_Create | P_Read nat nat | P_Write nat "u8 list"
  | P_Dup_Read nat | P_Dup_Write nat | P_Close_Read nat | P_Close_Write nat

fun pipe_exec :: "pipe_op \<Rightarrow> pipes \<Rightarrow> pipes" where
  "pipe_exec P_Create ps = fst (create_pipe ps)"
| "pipe_exec (P_Read i n) ps = fst (pipe_read ps i n)"
| "pipe_exec (P_Write i xs) ps = fst (pipe_write ps i xs)"
| "pipe_exec (P_Dup_Read i) ps = dup_read_end ps i"
| "pipe_exec (P_Dup_Write i) ps = dup_write_end ps i"
| "pipe_exec (P_Close_Read i) ps = close_read_end ps i"
| "pipe_exec (P_Close_Write i) ps = close_write_end ps i"

text \<open>What one operation accepts from, and delivers to, the users of pipe \<open>k\<close>.\<close>

fun accepted :: "nat \<Rightarrow> pipe_op \<Rightarrow> pipes \<Rightarrow> u8 list" where
  "accepted k (P_Write i xs) ps =
     (if i = k then take (case snd (pipe_write ps i xs) of Some n \<Rightarrow> n | None \<Rightarrow> 0) xs else [])"
| "accepted k _ ps = []"

fun delivered :: "nat \<Rightarrow> pipe_op \<Rightarrow> pipes \<Rightarrow> u8 list" where
  "delivered k (P_Read i n) ps =
     (if i = k then (case snd (pipe_read ps i n) of Some bs \<Rightarrow> bs | None \<Rightarrow> []) else [])"
| "delivered k _ ps = []"

fun pipes_run :: "nat \<Rightarrow> pipe_op list \<Rightarrow> pipes \<Rightarrow> pipes \<times> u8 list \<times> u8 list" where
  "pipes_run k [] ps = (ps, [], [])"
| "pipes_run k (op # ops) ps =
     (let (ps', ins, outs) = pipes_run k ops (pipe_exec op ps)
      in (ps', accepted k op ps @ ins, delivered k op ps @ outs))"

lemma ring_inv_cong:
  "pipe_buf q = pipe_buf p \<Longrightarrow> read_pos q = read_pos p \<Longrightarrow> write_pos q = write_pos p
     \<Longrightarrow> pipe_count q = pipe_count p \<Longrightarrow> ring_inv q = ring_inv p \<and> ring_contents q = ring_contents p"
  by (simp add: ring_inv_def ring_contents_def)

lemma pipes_wf_nth: "pipes_wf ps \<Longrightarrow> i < MAX_PIPES \<Longrightarrow> ring_inv (ps ! i)"
  by (simp add: pipes_wf_def)

lemma pipes_wf_update: "pipes_wf ps \<Longrightarrow> ring_inv p \<Longrightarrow> pipes_wf (ps[i := p])"
  using set_update_subset_insert [of ps i p] by (auto simp: pipes_wf_def)

lemma ring_inv_refcounts [simp]:
  "ring_inv (p\<lparr>readers := r\<rparr>) = ring_inv p" "ring_inv (p\<lparr>writers := w\<rparr>) = ring_inv p"
  "ring_inv (p\<lparr>active := a\<rparr>) = ring_inv p"
  "ring_contents (p\<lparr>readers := r\<rparr>) = ring_contents p"
  "ring_contents (p\<lparr>writers := w\<rparr>) = ring_contents p"
  "ring_contents (p\<lparr>active := a\<rparr>) = ring_contents p"
  by (simp_all add: ring_inv_def ring_contents_def)

lemma pipe_empty_ring: "ring_inv pipe_empty" "ring_contents pipe_empty = []"
  by (simp_all add: pipe_empty_def ring_inv_def ring_contents_def)

lemma pipes_wf_boot: "pipes_wf pipes_boot"
  by (simp add: pipes_wf_def pipes_boot_def pipe_empty_ring)

lemma pipes_wf_exec: "pipes_wf ps \<Longrightarrow> pipes_wf (pipe_exec op ps)"
  by (cases op)
    (auto simp: create_pipe_def pipe_read_def pipe_write_def dup_read_end_def dup_write_end_def
        close_read_end_def close_write_end_def Let_def pipe_empty_ring case_prod_beta
        intro!: pipes_wf_update ring.get_inv ring.put_inv pipes_wf_nth split: option.splits)

lemma pipe_exec_contents:
  assumes wf: "pipes_wf ps" and k: "k < MAX_PIPES" and op: "op \<noteq> P_Create"
  shows "ring_contents (ps ! k) @ accepted k op ps
    = delivered k op ps @ ring_contents (pipe_exec op ps ! k)"
proof -
  have len: "length ps = MAX_PIPES" using wf by (simp add: pipes_wf_def)
  note inv = pipes_wf_nth [OF wf k]
  show ?thesis
  proof (cases op)
    case (P_Read i n)
    with k len show ?thesis
      by (auto simp: pipe_read_def case_prod_beta nth_list_update
          ring.get_bytes [OF inv] ring.get_contents [OF inv])
  next
    case (P_Write i xs)
    with k len show ?thesis
      by (auto simp: pipe_write_def case_prod_beta nth_list_update ring.put_contents [OF inv])
  qed (use k len op in \<open>auto simp: dup_read_end_def dup_write_end_def close_read_end_def
        close_write_end_def Let_def nth_list_update\<close>)
qed

text \<open>
  (C37) Pipes are first-in first-out and lose nothing: over any interleaving of reads, writes,
  duplications and closes on all pipes (pipe creation apart), what pipe \<open>k\<close> held at the start
  followed by the bytes its writes accepted is what its reads delivered followed by what it holds
  at the end.
\<close>

theorem pipe_fifo:
  assumes "pipes_wf ps" and "k < MAX_PIPES" and "P_Create \<notin> set ops"
    and "pipes_run k ops ps = (ps', ins, outs)"
  shows "ring_contents (ps ! k) @ ins = outs @ ring_contents (ps' ! k) \<and> pipes_wf ps'"
  using assms
proof (induction ops arbitrary: ps ins outs)
  case Nil
  then show ?case by simp
next
  case (Cons op ops)
  obtain ins' outs' where r: "pipes_run k ops (pipe_exec op ps) = (ps', ins', outs')"
    and io: "ins = accepted k op ps @ ins'" "outs = delivered k op ps @ outs'"
    using Cons.prems(4) by (auto split: prod.splits)
  from Cons.prems have "op \<noteq> P_Create" and n: "P_Create \<notin> set ops" by auto
  with Cons.prems have s: "ring_contents (ps ! k) @ accepted k op ps
      = delivered k op ps @ ring_contents (pipe_exec op ps ! k)"
    by (intro pipe_exec_contents) auto
  from Cons.IH [OF pipes_wf_exec [OF Cons.prems(1)] Cons.prems(2) n r]
  have "ring_contents (pipe_exec op ps ! k) @ ins' = outs' @ ring_contents (ps' ! k) \<and> pipes_wf ps'" .
  with s show ?case unfolding io by (metis append.assoc)
qed

theorem pipe_fifo_witness:
  "pipes_wf (fst (create_pipe pipes_boot)) \<and> 0 < MAX_PIPES
   \<and> (case pipes_run 0 [P_Write 0 [1, 2, 3], P_Close_Write 0, P_Read 0 2] (fst (create_pipe pipes_boot)) of
        (ps', ins, outs) \<Rightarrow> ring_contents (fst (create_pipe pipes_boot) ! 0) @ ins
            = outs @ ring_contents (ps' ! 0) \<and> pipes_wf ps')"
proof -
  have wf: "pipes_wf (fst (create_pipe pipes_boot))"
    using pipes_wf_exec [OF pipes_wf_boot, of P_Create] by simp
  have k: "0 < MAX_PIPES" by (simp add: MAX_PIPES_def)
  obtain ps' ins outs where
    r: "pipes_run 0 [P_Write 0 [1, 2, 3], P_Close_Write 0, P_Read 0 2] (fst (create_pipe pipes_boot))
      = (ps', ins, outs)" by (metis prod_cases3)
  have "P_Create \<notin> set [P_Write 0 [1, 2, 3], P_Close_Write 0, P_Read 0 2]" by simp
  from pipe_fifo [OF wf k this r] wf k show ?thesis unfolding r by simp
qed

text \<open>
  A pipe operation asks its caller to block exactly when the test that the scheduler uses to
  wake the task up is false, and then it has changed nothing: no task blocks on a condition that
  already holds, and a woken task does not block again on the same state.
\<close>

theorem pipe_block_iff_not_wakeable:
  "(snd (pipe_read ps i n) = None) = (\<not> has_data ps i)
   \<and> (snd (pipe_write ps i xs) = None) = (\<not> has_space ps i)
   \<and> (\<not> has_data ps i \<longrightarrow> fst (pipe_read ps i n) = ps)
   \<and> (\<not> has_space ps i \<longrightarrow> fst (pipe_write ps i xs) = ps)"
  by (auto simp: pipe_read_def pipe_write_def has_data_def has_space_def case_prod_beta)

theorem pipe_block_iff_not_wakeable_witness:
  "\<not> has_data (fst (create_pipe [pipe_empty])) 0
   \<and> fst (pipe_read (fst (create_pipe [pipe_empty])) 0 8) = fst (create_pipe [pipe_empty])"
proof -
  have "\<not> has_data (fst (create_pipe [pipe_empty])) 0"
    by (simp add: has_data_def create_pipe_def pipe_empty_def MAX_PIPES_def)
  then show ?thesis
    using pipe_block_iff_not_wakeable [of "fst (create_pipe [pipe_empty])" 0 8] by blast
qed

lemma create_pipe_cases:
  obtains (full) "create_pipe ps = (ps, None)" "\<forall>p \<in> set ps. active p"
    | (slot) i where "create_pipe ps
        = (ps[i := pipe_empty\<lparr>readers := 1, writers := 1, active := True\<rparr>], Some i)"
        "i < length ps" "\<not> active (ps ! i)"
  by (cases "position (\<lambda>p. \<not> active p) ps")
    (auto simp: create_pipe_def position_None_iff dest: position_SomeD)

text \<open>
  \<^verbatim>\<open>create_pipe\<close> fails exactly when all slots are in use; otherwise it takes a slot that was
  not active, leaves every other pipe alone, and the new pipe is empty with one reader and one
  writer: a first read blocks, and nothing of the slot's previous user is visible.
\<close>

theorem create_pipe_fresh:
  assumes "pipes_wf ps"
  shows "(snd (create_pipe ps) = None) = (\<forall>i < MAX_PIPES. active (ps ! i))
    \<and> (\<forall>i. snd (create_pipe ps) = Some i \<longrightarrow>
        i < MAX_PIPES \<and> \<not> active (ps ! i)
        \<and> (\<forall>j. j \<noteq> i \<longrightarrow> fst (create_pipe ps) ! j = ps ! j)
        \<and> active (fst (create_pipe ps) ! i) \<and> ring_contents (fst (create_pipe ps) ! i) = []
        \<and> (\<forall>n. pipe_read (fst (create_pipe ps)) i n = (fst (create_pipe ps), None)))"
proof -
  have len: "length ps = MAX_PIPES" using assms by (simp add: pipes_wf_def)
  show ?thesis
  proof (cases rule: create_pipe_cases [of ps])
    case full
    then show ?thesis using len by simp
  next
    case (slot i)
    have "pipe_count pipe_empty = 0" by (simp add: pipe_empty_def)
    then have "pipe_read (fst (create_pipe ps)) i n = (fst (create_pipe ps), None)" for n
      using slot len by (simp add: pipe_read_def)
    then show ?thesis using slot len by (auto simp: pipe_empty_ring)
  qed
qed

theorem create_pipe_fresh_witness:
  "pipes_wf pipes_boot \<and> snd (create_pipe pipes_boot) \<noteq> None"
proof -
  have "\<not> active (pipes_boot ! 0)" and "0 < MAX_PIPES"
    by (simp_all add: pipes_boot_def pipe_empty_def MAX_PIPES_def)
  then show ?thesis using create_pipe_fresh [OF pipes_wf_boot] pipes_wf_boot by blast
qed

text \<open>
  A slot is released exactly by closing its last end.
\<close>

lemma close_read_end_active:
  assumes "i < MAX_PIPES" and "length ps = MAX_PIPES" and "active (ps ! i)"
  shows "active (close_read_end ps i ! i)
    = (\<not> (readers (ps ! i) \<le> 1 \<and> writers (ps ! i) = 0))"
proof -
  have "saturating_dec r = 0 \<longleftrightarrow> r \<le> 1" for r :: u32
    by (auto simp: saturating_dec_def) (metis word_le_less_eq  word_less_1)+
  then show ?thesis using assms by (simp add: close_read_end_def Let_def)
qed

end
