(* ===== verification/Frames.thy ===== *)
theory Frames
  imports Prelude
begin

text \<open>
  Physical memory types (\<^verbatim>\<open>src/kernel-core/src/memory/types.rs\<close>) and the bitmap frame allocator
  (\<^verbatim>\<open>src/kernel-core/src/memory/frames.rs\<close>). The bitmap is related to the set of allocated frame
  numbers; the locale \<open>frame_provider\<close> states what a client of a frame allocator relies on, and
  the bitmap allocator is shown to provide it.
\<close>

section \<open>Physical memory types\<close>

text \<open>
  \<^verbatim>\<open>PhysicalAddress\<close> and \<^verbatim>\<open>Bytes\<close> wrap a \<^verbatim>\<open>usize\<close> (64 bits on both
  targets); \<^verbatim>\<open>FrameNumber\<close> and \<^verbatim>\<open>Frame\<close> wrap a frame index. Release builds do
  not check overflow, so the word operations wrap.
\<close>

type_synonym physical_address = u64
type_synonym frame_number = nat

definition align_up_to_page :: "u64 \<Rightarrow> u64" where
  "align_up_to_page a = (a + 4095) AND NOT 4095"

definition align_down_to_page :: "physical_address \<Rightarrow> physical_address" where
  "align_down_to_page a = a AND NOT 4095"

definition is_page_aligned :: "physical_address \<Rightarrow> bool" where
  "is_page_aligned a = (a AND 0xFFF = 0)"

definition frame_to_address :: "frame_number \<Rightarrow> physical_address" where
  "frame_to_address n = of_nat n * 4096"

definition frame_from_address :: "physical_address \<Rightarrow> frame_number" where
  "frame_from_address a = unat a div 4096"

definition as_frames :: "u64 \<Rightarrow> u64" where
  "as_frames n = (n + 4095) div 4096"

lemma mask12: "(4095 :: u64) = mask 12" "(0xFFF :: u64) = mask 12"
  by (simp_all add: mask_eq_exp_minus_1)

lemma and_not_mask_unat: "unat (a AND NOT (mask n :: 'a::len word)) = unat a div 2 ^ n * 2 ^ n"
proof -
  have "a AND NOT (mask n) = push_bit n (drop_bit n a)"
    by (rule bit_word_eqI) (auto simp: bit_simps)
  also have "unat \<dots> = unat a div 2 ^ n * 2 ^ n"
  proof -
    have "unat a div 2 ^ n * 2 ^ n \<le> unat a" by simp
    also have "unat a < 2 ^ LENGTH('a)" by simp
    finally have "unat a div 2 ^ n * 2 ^ n < 2 ^ LENGTH('a)" .
    then show ?thesis
      by (simp only: unsigned_push_bit_eq unsigned_drop_bit_eq)
        (simp add: push_bit_eq_mult drop_bit_eq_div take_bit_nat_eq_self)
  qed
  finally show ?thesis .
qed

lemma unat_align_down_to_page: "unat (align_down_to_page a) = unat a div 4096 * 4096"
  unfolding align_down_to_page_def mask12(1) by (subst and_not_mask_unat) simp

lemma is_page_aligned_iff: "is_page_aligned a = (4096 dvd unat a)"
proof -
  have "a AND mask 12 = 0 \<longleftrightarrow> unat (take_bit 12 a) = 0"
    by (simp only: take_bit_eq_mask unat_eq_0)
  then show ?thesis
    unfolding is_page_aligned_def mask12(2)
    by (simp only: unsigned_take_bit_eq) (simp add: take_bit_eq_mod dvd_eq_mod_eq_0)
qed

lemma align_up_to_page_bounds:
  assumes "unat a \<le> 2 ^ 64 - 4096"
  shows "is_page_aligned (align_up_to_page a)" and "unat a \<le> unat (align_up_to_page a)"
    and "unat (align_up_to_page a) < unat a + 4096"
proof -
  have s: "unat (a + 4095) = unat a + 4095"
    using assms by (subst unat_add_lem [THEN iffD1]) simp_all
  have u: "unat (align_up_to_page a) = (unat a + 4095) div 4096 * 4096"
    unfolding align_up_to_page_def s [symmetric] mask12(1) by (subst and_not_mask_unat) simp
  show "is_page_aligned (align_up_to_page a)" by (simp add: is_page_aligned_iff u)
  show "unat a \<le> unat (align_up_to_page a)" "unat (align_up_to_page a) < unat a + 4096"
    unfolding u using div_mult_mod_eq [of "unat a + 4095" 4096] mod_less_divisor [of 4096 "unat a + 4095"]
    by linarith+
qed

lemma frame_address_roundtrip:
  assumes "n < 2 ^ 52"
  shows "frame_from_address (frame_to_address n) = n" and "is_page_aligned (frame_to_address n)"
proof -
  have "unat (of_nat n * 4096 :: u64) = n * 4096"
    using assms by (simp add: unat_word_ariths unat_of_nat take_bit_nat_eq_self)
  then show "frame_from_address (frame_to_address n) = n" "is_page_aligned (frame_to_address n)"
    by (simp_all add: frame_from_address_def frame_to_address_def is_page_aligned_iff)
qed

section \<open>The bitmap frame allocator\<close>

definition FRAME_SIZE :: nat where "FRAME_SIZE = 4096"
definition MAX_FRAMES :: nat where "MAX_FRAMES = 1024"

record frame_allocator =
  bitmap :: "u64 list"
  total_frames :: nat
  free_frames :: u64
  fa_base :: physical_address

text \<open>\<^verbatim>\<open>FrameAllocator::new\<close> and \<^verbatim>\<open>init_in_place\<close>.\<close>

definition fa_new :: "physical_address \<Rightarrow> u64 \<Rightarrow> frame_allocator" where
  "fa_new base size_bytes =
     (let n = unat size_bytes div FRAME_SIZE
      in \<lparr>bitmap = replicate (MAX_FRAMES div 64) 0, total_frames = n, free_frames = of_nat n,
          fa_base = base\<rparr>)"

text \<open>\<^verbatim>\<open>u64::trailing_zeros\<close>; 64 for zero.\<close>

definition trailing_zeros :: "u64 \<Rightarrow> nat" where
  "trailing_zeros w = (case position (bit w) [0..<64] of Some i \<Rightarrow> i | None \<Rightarrow> 64)"

text \<open>\<^verbatim>\<open>1u64 << k\<close>.\<close>

definition one_bit :: "nat \<Rightarrow> u64" where
  "one_bit k = push_bit k 1"

text \<open>The loop of \<^verbatim>\<open>allocate_frame\<close>: the word and the bit of the frame to take.\<close>

fun find_free_bit :: "nat \<Rightarrow> nat \<Rightarrow> u64 list \<Rightarrow> (nat \<times> nat) option" where
  "find_free_bit n word_idx [] = None"
| "find_free_bit n word_idx (w # ws) =
     (if w = - 1 then find_free_bit n (Suc word_idx) ws
      else let bit_pos = trailing_zeros (NOT w)
           in if word_idx * 64 + bit_pos \<ge> n then find_free_bit n (Suc word_idx) ws
              else Some (word_idx, bit_pos))"

definition allocate_frame :: "frame_allocator \<Rightarrow> frame_allocator \<times> frame_number option" where
  "allocate_frame a =
     (case find_free_bit (total_frames a) 0 (bitmap a) of
        Some (word_idx, bit_pos) \<Rightarrow>
          (a\<lparr>bitmap := (bitmap a)[word_idx := bitmap a ! word_idx OR one_bit bit_pos],
             free_frames := free_frames a - 1\<rparr>, Some (word_idx * 64 + bit_pos))
      | None \<Rightarrow> (a, None))"

definition is_allocated :: "frame_allocator \<Rightarrow> frame_number \<Rightarrow> bool" where
  "is_allocated a n =
     (let word_idx = n div 64; bit_idx = n mod 64
      in if word_idx \<ge> length (bitmap a) then False
         else drop_bit bit_idx (bitmap a ! word_idx) AND 1 = 1)"

definition mark_allocated :: "frame_allocator \<Rightarrow> frame_number \<Rightarrow> frame_allocator \<times> bool" where
  "mark_allocated a n =
     (let word_idx = n div 64; bit_idx = n mod 64
      in if word_idx \<ge> length (bitmap a) then (a, False)
         else let m = one_bit bit_idx;
                  was_free = (bitmap a ! word_idx AND m = 0)
              in (a\<lparr>bitmap := (bitmap a)[word_idx := bitmap a ! word_idx OR m]\<rparr>, was_free))"

definition mark_free :: "frame_allocator \<Rightarrow> frame_number \<Rightarrow> frame_allocator \<times> bool" where
  "mark_free a n =
     (let word_idx = n div 64; bit_idx = n mod 64
      in if word_idx \<ge> length (bitmap a) then (a, False)
         else let m = one_bit bit_idx;
                  was_allocated = (bitmap a ! word_idx AND m \<noteq> 0)
              in (a\<lparr>bitmap := (bitmap a)[word_idx := bitmap a ! word_idx AND NOT m]\<rparr>, was_allocated))"

text \<open>
  The scan of \<^verbatim>\<open>allocate_frames\<close> over frames \<open>frame_num, frame_num + 1, ...\<close>, of which
  \<open>left\<close> remain, with the start and the length of the current run.
\<close>

fun find_run :: "frame_allocator \<Rightarrow> nat \<Rightarrow> nat option \<Rightarrow> nat \<Rightarrow> nat \<Rightarrow> nat \<Rightarrow> frame_number option"
where
  "find_run a count start_frame contiguous frame_num 0 = None"
| "find_run a count start_frame contiguous frame_num (Suc left) =
     (if is_allocated a frame_num then find_run a count None 0 (Suc frame_num) left
      else let start = (case start_frame of None \<Rightarrow> frame_num | Some s \<Rightarrow> s)
           in if contiguous + 1 = count then Some start
              else find_run a count (Some start) (contiguous + 1) (Suc frame_num) left)"

fun mark_all :: "frame_allocator \<Rightarrow> frame_number list \<Rightarrow> frame_allocator" where
  "mark_all a [] = a"
| "mark_all a (n # ns) = mark_all (fst (mark_allocated a n)) ns"

definition allocate_frames :: "frame_allocator \<Rightarrow> nat \<Rightarrow> frame_allocator \<times> frame_number option" where
  "allocate_frames a count =
     (if count = 0 then (a, None)
      else if count = 1 then allocate_frame a
      else case find_run a count None 0 0 (total_frames a) of
             Some start \<Rightarrow>
               (let a' = mark_all a (map (\<lambda>i. start + i) [0..<count])
                in (a'\<lparr>free_frames := free_frames a' - of_nat count\<rparr>, Some start))
           | None \<Rightarrow> (a, None))"

definition deallocate_frame :: "frame_allocator \<Rightarrow> frame_number \<Rightarrow> frame_allocator" where
  "deallocate_frame a n =
     (if n \<ge> total_frames a then a
      else let (a', was_allocated) = mark_free a n
           in if was_allocated then a'\<lparr>free_frames := free_frames a' + 1\<rparr> else a')"

definition mark_frame_allocated :: "frame_allocator \<Rightarrow> frame_number \<Rightarrow> frame_allocator" where
  "mark_frame_allocated a n =
     (let (a', was_free) = mark_allocated a n
      in if was_free then a'\<lparr>free_frames := free_frames a' - 1\<rparr> else a')"

definition get_bitmap_word :: "frame_allocator \<Rightarrow> nat \<Rightarrow> u64" where
  "get_bitmap_word a i = (if i < length (bitmap a) then bitmap a ! i else 0)"

definition set_bitmap_word :: "frame_allocator \<Rightarrow> nat \<Rightarrow> u64 \<Rightarrow> frame_allocator" where
  "set_bitmap_word a i v = (if i < length (bitmap a) then a\<lparr>bitmap := (bitmap a)[i := v]\<rparr> else a)"

section \<open>The bitmap as a set of frames\<close>

definition allocated :: "frame_allocator \<Rightarrow> nat set" where
  "allocated a = {n. is_allocated a n}"

definition fa_inv :: "frame_allocator \<Rightarrow> bool" where
  "fa_inv a \<longleftrightarrow> length (bitmap a) = MAX_FRAMES div 64 \<and> total_frames a \<le> MAX_FRAMES
     \<and> allocated a \<subseteq> {..<total_frames a}
     \<and> free_frames a = of_nat (total_frames a - card (allocated a))"

lemma is_allocated_bit:
  "is_allocated a n \<longleftrightarrow> n div 64 < length (bitmap a) \<and> bit (bitmap a ! (n div 64)) (n mod 64)"
proof -
  have "drop_bit k w AND 1 = 1 \<longleftrightarrow> bit w k" for k and w :: u64
    by (simp add: and_one_eq bit_iff_odd_drop_bit odd_iff_mod_2_eq_one)
  then show ?thesis by (simp add: is_allocated_def Let_def)
qed

lemma bit_one_bit [simp]: "bit (one_bit k) i \<longleftrightarrow> i = k \<and> k < 64"
  by (auto simp: one_bit_def bit_push_bit_iff bit_1_iff simp del: push_bit_of_1 dest: bit_imp_le_length)

lemma and_one_bit: "(w AND one_bit k = 0) = (\<not> bit w k)" if "k < 64"
proof
  assume "w AND one_bit k = 0"
  then have "\<not> bit (w AND one_bit k) k" by simp
  then show "\<not> bit w k" using that by (simp add: bit_and_iff)
next
  assume "\<not> bit w k"
  then show "w AND one_bit k = 0"
    by (intro bit_word_eqI) (auto simp: bit_and_iff)
qed

lemma allocated_upd_word:
  assumes "n div 64 < length (bitmap a)"
  shows "allocated (a\<lparr>bitmap := (bitmap a)[n div 64 := bitmap a ! (n div 64) OR one_bit (n mod 64)]\<rparr>)
      = insert n (allocated a)"
    and "allocated (a\<lparr>bitmap := (bitmap a)[n div 64 := bitmap a ! (n div 64) AND NOT (one_bit (n mod 64))]\<rparr>)
      = allocated a - {n}"
proof -
  have eq: "m div 64 = n div 64 \<Longrightarrow> m mod 64 = n mod 64 \<Longrightarrow> m = n" for m :: nat
    by (metis div_mult_mod_eq)
  show "allocated (a\<lparr>bitmap := (bitmap a)[n div 64 := bitmap a ! (n div 64) OR one_bit (n mod 64)]\<rparr>)
      = insert n (allocated a)"
    using assms by (auto simp: allocated_def is_allocated_bit nth_list_update bit_simps eq)
  show "allocated (a\<lparr>bitmap := (bitmap a)[n div 64 := bitmap a ! (n div 64) AND NOT (one_bit (n mod 64))]\<rparr>)
      = allocated a - {n}"
    using assms by (auto simp: allocated_def is_allocated_bit nth_list_update bit_simps eq)
qed

lemma mark_allocated_effect:
  "allocated (fst (mark_allocated a n))
     = (if n div 64 < length (bitmap a) then insert n (allocated a) else allocated a)"
  "snd (mark_allocated a n) \<longleftrightarrow> n div 64 < length (bitmap a) \<and> n \<notin> allocated a"
  "total_frames (fst (mark_allocated a n)) = total_frames a"
  "free_frames (fst (mark_allocated a n)) = free_frames a"
  "length (bitmap (fst (mark_allocated a n))) = length (bitmap a)"
  by (simp_all add: mark_allocated_def Let_def allocated_upd_word and_one_bit)
    (auto simp: allocated_def is_allocated_bit)

lemma mark_free_effect:
  "allocated (fst (mark_free a n))
     = (if n div 64 < length (bitmap a) then allocated a - {n} else allocated a)"
  "snd (mark_free a n) \<longleftrightarrow> n \<in> allocated a"
  "total_frames (fst (mark_free a n)) = total_frames a"
  "free_frames (fst (mark_free a n)) = free_frames a"
  "length (bitmap (fst (mark_free a n))) = length (bitmap a)"
  by (simp_all add: mark_free_def Let_def allocated_upd_word and_one_bit)
    (auto simp: allocated_def is_allocated_bit)

lemma allocated_frame_upd [simp]:
  "allocated (a\<lparr>free_frames := f\<rparr>) = allocated a" "is_allocated (a\<lparr>free_frames := f\<rparr>) n = is_allocated a n"
  by (simp_all add: allocated_def is_allocated_def)

lemma mark_all_effect:
  assumes "\<forall>n \<in> set ns. n div 64 < length (bitmap a)"
  shows "allocated (mark_all a ns) = allocated a \<union> set ns"
    and "total_frames (mark_all a ns) = total_frames a" and "free_frames (mark_all a ns) = free_frames a"
    and "length (bitmap (mark_all a ns)) = length (bitmap a)"
  using assms by (induction a ns rule: mark_all.induct) (auto simp: mark_allocated_effect)

section \<open>The searches\<close>

lemma trailing_zeros_not:
  assumes "w \<noteq> - 1"
  shows "trailing_zeros (NOT w) < 64" and "\<not> bit w (trailing_zeros (NOT w))"
    and "\<forall>c < trailing_zeros (NOT w). bit w c"
proof -
  have "position (bit (NOT w)) [0..<64] \<noteq> None"
  proof
    assume "position (bit (NOT w)) [0..<64] = None"
    then have "bit w c" if "c < 64" for c
      using that by (auto simp: position_None_iff bit_not_iff)
    then have "w = - 1" by (intro bit_word_eqI) simp
    with assms show False by simp
  qed
  then obtain b where b: "position (bit (NOT w)) [0..<64] = Some b" by blast
  then have "trailing_zeros (NOT w) = b" by (simp add: trailing_zeros_def)
  moreover have "b < 64" "bit (NOT w) b" "\<forall>j < b. \<not> bit (NOT w) j"
    using position_SomeD [OF b] by auto
  ultimately show "trailing_zeros (NOT w) < 64" "\<not> bit w (trailing_zeros (NOT w))"
    "\<forall>c < trailing_zeros (NOT w). bit w c"
    by (auto simp: bit_not_iff)
qed

text \<open>Frame \<open>m\<close> in a bitmap whose first word has index \<open>i\<close>.\<close>

definition frame_bit :: "nat \<Rightarrow> u64 list \<Rightarrow> nat \<Rightarrow> bool" where
  "frame_bit i ws m = bit (ws ! (m div 64 - i)) (m mod 64)"

lemma frame_bit_Cons:
  "frame_bit i (w # ws) m
     = (if m div 64 \<le> i then bit w (m mod 64) else frame_bit (Suc i) ws m)"
proof (cases "m div 64 \<le> i")
  case False
  then have "m div 64 - i = Suc (m div 64 - Suc i)" by simp
  with False show ?thesis by (simp only: frame_bit_def nth_Cons_Suc if_False)
qed (simp add: frame_bit_def)

lemma find_free_bit_None:
  "find_free_bit n i ws = None \<Longrightarrow> i * 64 \<le> m \<Longrightarrow> m < n \<Longrightarrow> m < (i + length ws) * 64
     \<Longrightarrow> frame_bit i ws m"
proof (induction ws arbitrary: i)
  case Nil
  then show ?case by simp
next
  case (Cons w ws)
  have rest: "find_free_bit n (Suc i) ws = None"
    using Cons.prems(1) by (simp add: Let_def split: if_splits)
  show ?case
  proof (cases "m div 64 \<le> i")
    case True
    with Cons.prems(2) have m: "m div 64 = i" by simp
    have "bit w (m mod 64)"
    proof (cases "w = - 1")
      case False
      then have "n \<le> i * 64 + trailing_zeros (NOT w)"
        using Cons.prems(1) by (simp add: Let_def split: if_splits)
      then have "m mod 64 < trailing_zeros (NOT w)"
        using Cons.prems(3) m div_mult_mod_eq [of m 64] by simp
      then show ?thesis using trailing_zeros_not(3) [OF False] by blast
    qed simp
    then show ?thesis using True by (simp add: frame_bit_Cons)
  next
    case False
    then have "Suc i * 64 \<le> m" using mult_le_mono1 [of "Suc i" "m div 64" 64] div_times_less_eq_dividend [of m 64] by linarith
    moreover have "m < (Suc i + length ws) * 64" using Cons.prems(4) by simp
    ultimately have "frame_bit (Suc i) ws m"
      using Cons.IH [OF rest] Cons.prems(3) by blast
    then show ?thesis using False by (simp add: frame_bit_Cons)
  qed
qed

lemma find_free_bit_Some:
  "find_free_bit n i ws = Some (j, b) \<Longrightarrow>
     i \<le> j \<and> j < i + length ws \<and> b < 64 \<and> j * 64 + b < n \<and> \<not> bit (ws ! (j - i)) b"
proof (induction ws arbitrary: i)
  case Nil
  then show ?case by simp
next
  case (Cons w ws)
  show ?case
  proof (cases "w = - 1 \<or> n \<le> i * 64 + trailing_zeros (NOT w)")
    case True
    then have r: "find_free_bit n (Suc i) ws = Some (j, b)"
      using Cons.prems by (auto simp: Let_def split: if_splits)
    from Cons.IH [OF r] have
      ih: "Suc i \<le> j \<and> j < Suc i + length ws \<and> b < 64 \<and> j * 64 + b < n \<and> \<not> bit (ws ! (j - Suc i)) b" .
    then have "j - i = Suc (j - Suc i)" by linarith
    with ih show ?thesis by simp
  next
    case False
    then show ?thesis
      using Cons.prems trailing_zeros_not [of w] by (auto simp: Let_def)
  qed
qed

lemma is_allocated_frame_bit:
  "is_allocated a m \<longleftrightarrow> m div 64 < length (bitmap a) \<and> frame_bit 0 (bitmap a) m"
  by (simp add: is_allocated_bit frame_bit_def)

lemma allocate_frame_cases:
  obtains (none) "allocate_frame a = (a, None)"
      "\<forall>m < total_frames a. m < length (bitmap a) * 64 \<longrightarrow> m \<in> allocated a"
    | (frame) n a' where "allocate_frame a = (a', Some n)" "n < total_frames a" "n div 64 < length (bitmap a)"
      "n \<notin> allocated a" "allocated a' = insert n (allocated a)" "free_frames a' = free_frames a - 1"
      "total_frames a' = total_frames a" "length (bitmap a') = length (bitmap a)" "fa_base a' = fa_base a"
proof (cases "find_free_bit (total_frames a) 0 (bitmap a)")
  case None
  have "m \<in> allocated a" if "m < total_frames a" "m < length (bitmap a) * 64" for m
    using find_free_bit_None [OF None, of m] that
    by (auto simp: allocated_def is_allocated_frame_bit)
  with None show ?thesis using none by (simp add: allocate_frame_def)
next
  case (Some wb)
  obtain j b where wb: "wb = (j, b)" by (cases wb)
  have s: "j < length (bitmap a)" "b < 64" "j * 64 + b < total_frames a" "\<not> bit (bitmap a ! j) b"
    using find_free_bit_Some [of "total_frames a" 0 "bitmap a" j b] Some wb by auto
  have d: "(j * 64 + b) div 64 = j" "(j * 64 + b) mod 64 = b" using s(2) by simp_all
  have "allocated (a\<lparr>bitmap := (bitmap a)[j := bitmap a ! j OR one_bit b]\<rparr>) = insert (j * 64 + b) (allocated a)"
    using allocated_upd_word(1) [of "j * 64 + b" a] s(1) unfolding d by blast
  moreover have "j * 64 + b \<notin> allocated a"
    using s d by (simp add: allocated_def is_allocated_bit)
  ultimately show ?thesis
    using frame [of _ "j * 64 + b"] Some wb s d by (simp add: allocate_frame_def)
qed

lemma find_run_Some:
  assumes "find_run a count start contiguous m left = Some s"
    and "case start of None \<Rightarrow> contiguous = 0 | Some t \<Rightarrow> t + contiguous = m"
    and "\<forall>x. m - contiguous \<le> x \<and> x < m \<longrightarrow> \<not> is_allocated a x"
    and "contiguous < count" and "contiguous \<le> m"
  shows "s + count \<le> m + left \<and> (\<forall>x. s \<le> x \<and> x < s + count \<longrightarrow> \<not> is_allocated a x)"
  using assms
proof (induction left arbitrary: start contiguous m)
  case 0
  then show ?case by simp
next
  case (Suc left)
  show ?case
  proof (cases "is_allocated a m")
    case True
    with Suc.IH [of None 0 "Suc m"] Suc.prems show ?thesis by simp
  next
    case False
    define st where "st = (case start of None \<Rightarrow> m | Some t \<Rightarrow> t)"
    have st: "st + contiguous = m" using Suc.prems(2) by (auto simp: st_def split: option.splits)
    have free: "\<forall>x. Suc m - (contiguous + 1) \<le> x \<and> x < Suc m \<longrightarrow> \<not> is_allocated a x"
      using Suc.prems(3) False by (auto simp: less_Suc_eq)
    show ?thesis
    proof (cases "contiguous + 1 = count")
      case True
      with False Suc.prems(1) have "s = st" by (simp add: st_def)
      with st True free show ?thesis by auto
    next
      case ne: False
      with False Suc.prems(1) have "find_run a count (Some st) (contiguous + 1) (Suc m) left = Some s"
        by (simp add: st_def)
      from Suc.IH [OF this _ free] st ne Suc.prems(4) show ?thesis by simp
    qed
  qed
qed

lemma find_run_None:
  assumes "find_run a count start contiguous m left = None"
    and "\<forall>x. s \<le> x \<and> x < s + count \<longrightarrow> \<not> is_allocated a x"
    and "s + count \<le> m + left" and "m \<le> s + contiguous" and "contiguous < count"
  shows False
  using assms
proof (induction left arbitrary: start contiguous m)
  case 0
  then show ?case by simp
next
  case (Suc left)
  show ?case
  proof (cases "is_allocated a m")
    case True
    moreover have "m < s + count" using Suc.prems(4,5) by linarith
    ultimately have "m < s" using Suc.prems(2) by (meson not_le)
    with True Suc.IH [of None 0 "Suc m"] Suc.prems show ?thesis by simp
  next
    case False
    then have ne: "contiguous + 1 \<noteq> count"
      using Suc.prems(1) by (auto simp: Let_def)
    with False Suc.prems(1) obtain st where
      "find_run a count (Some st) (contiguous + 1) (Suc m) left = None" by (auto simp: Let_def)
    from Suc.IH [OF this Suc.prems(2)] Suc.prems ne show ?thesis by simp
  qed
qed

section \<open>The contract of a frame allocator\<close>

text \<open>
  A client that gives back \<open>n\<close> frames from \<open>s\<close> on, and a client that takes blocks one after
  the other, with the list of the blocks it got.
\<close>

fun dealloc_run :: "('a \<Rightarrow> nat \<Rightarrow> 'a) \<Rightarrow> 'a \<Rightarrow> nat \<Rightarrow> nat \<Rightarrow> 'a" where
  "dealloc_run dealloc a s 0 = a"
| "dealloc_run dealloc a s (Suc n) = dealloc_run dealloc (dealloc a s) (Suc s) n"

fun alloc_seq :: "('a \<Rightarrow> nat \<Rightarrow> 'a \<times> nat option) \<Rightarrow> 'a \<Rightarrow> nat list \<Rightarrow> (nat \<times> nat) list" where
  "alloc_seq alloc a [] = []"
| "alloc_seq alloc a (n # ns) =
     (case alloc a n of
        (a', Some s) \<Rightarrow> (s, n) # alloc_seq alloc a' ns
      | (a', None) \<Rightarrow> alloc_seq alloc a' ns)"

text \<open>
  What a memory pool needs of the frames below it: a request for \<open>n\<close> frames gives \<open>n\<close>
  consecutive frames that nobody holds and takes exactly those, or fails and changes nothing; a
  frame that is given back is free again.
\<close>

locale frame_provider =
  fixes held :: "'a \<Rightarrow> nat set"
    and inv :: "'a \<Rightarrow> bool"
    and limit :: "'a \<Rightarrow> nat"
    and alloc :: "'a \<Rightarrow> nat \<Rightarrow> 'a \<times> nat option"
    and dealloc :: "'a \<Rightarrow> nat \<Rightarrow> 'a"
  assumes alloc_Some: "inv a \<Longrightarrow> alloc a n = (a', Some s) \<Longrightarrow>
      0 < n \<and> s + n \<le> limit a \<and> {s..<s + n} \<inter> held a = {}
      \<and> held a' = held a \<union> {s..<s + n} \<and> inv a' \<and> limit a' = limit a"
    and alloc_None: "inv a \<Longrightarrow> alloc a n = (a', None) \<Longrightarrow> a' = a"
    and alloc_complete: "inv a \<Longrightarrow> 0 < n \<Longrightarrow> s + n \<le> limit a \<Longrightarrow> {s..<s + n} \<inter> held a = {}
      \<Longrightarrow> snd (alloc a n) \<noteq> None"
    and dealloc_held: "inv a \<Longrightarrow> held (dealloc a s) = held a - {s}"
    and dealloc_inv: "inv a \<Longrightarrow> inv (dealloc a s) \<and> limit (dealloc a s) = limit a"
begin

lemma alloc_keeps: "inv a \<Longrightarrow> inv (fst (alloc a n)) \<and> limit (fst (alloc a n)) = limit a"
  by (metis alloc_None alloc_Some option.exhaust prod.collapse)

lemma dealloc_run_held:
  "inv a \<Longrightarrow> held (dealloc_run dealloc a s n) = held a - {s..<s + n} \<and> inv (dealloc_run dealloc a s n)
     \<and> limit (dealloc_run dealloc a s n) = limit a"
proof (induction n arbitrary: a s)
  case (Suc n)
  have "{s..<s + Suc n} = insert s {Suc s..<Suc s + n}" by auto
  with Suc show ?case by (auto simp: dealloc_held dealloc_inv)
qed simp

text \<open>Giving back a block that was just taken restores the set of held frames.\<close>

lemma alloc_dealloc_run:
  assumes "inv a" and "alloc a n = (a', Some s)"
  shows "held (dealloc_run dealloc a' s n) = held a"
proof -
  from alloc_Some [OF assms] have "held a' = held a \<union> {s..<s + n}" "{s..<s + n} \<inter> held a = {}" "inv a'"
    by simp_all
  then show ?thesis using dealloc_run_held [of a' s n] by auto
qed

text \<open>
  The blocks are pairwise disjoint, and none meets what was held before.
\<close>

lemma alloc_seq_disjoint:
  assumes "inv a"
  shows "(\<forall>(s, n) \<in> set (alloc_seq alloc a ns). {s..<s + n} \<inter> held a = {} \<and> s + n \<le> limit a)
    \<and> pairwise disjnt (set (map (\<lambda>(s, n). {s..<s + n}) (alloc_seq alloc a ns)))
    \<and> distinct (alloc_seq alloc a ns)"
  using assms
proof (induction ns arbitrary: a)
  case Nil
  then show ?case by simp
next
  case (Cons n ns)
  obtain a' r where al: "alloc a n = (a', r)" by (cases "alloc a n")
  show ?case
  proof (cases r)
    case None
    with al alloc_None [OF Cons.prems, of n a'] have "alloc a n = (a, None)" by simp
    with Cons show ?thesis by simp
  next
    case (Some s)
    note A = alloc_Some [OF Cons.prems al [unfolded Some]]
    have ih: "(\<forall>(t, k) \<in> set (alloc_seq alloc a' ns). {t..<t + k} \<inter> (held a \<union> {s..<s + n}) = {} \<and> t + k \<le> limit a)"
      and pw: "pairwise disjnt (set (map (\<lambda>(s, n). {s..<s + n}) (alloc_seq alloc a' ns)))"
      and d: "distinct (alloc_seq alloc a' ns)"
      using Cons.IH [of a'] A by auto
    have "(s, n) \<notin> set (alloc_seq alloc a' ns)" using ih A by fastforce
    moreover have "disjnt {s..<s + n} B" "disjnt B {s..<s + n}"
      if "B \<in> set (map (\<lambda>(s, n). {s..<s + n}) (alloc_seq alloc a' ns))" for B
      using that ih by (fastforce simp: disjnt_def)+
    ultimately show ?thesis
      using A ih pw d al Some by (auto simp: pairwise_insert)
  qed
qed

end

section \<open>The bitmap allocator provides the contract\<close>

lemma fa_inv_finite: "fa_inv a \<Longrightarrow> finite (allocated a)"
  unfolding fa_inv_def using finite_subset by blast

lemma fa_inv_new:
  assumes "unat bytes \<le> 4096 * 1024"
  shows "fa_inv (fa_new base bytes)" and "allocated (fa_new base bytes) = {}"
proof -
  show e: "allocated (fa_new base bytes) = {}"
    by (auto simp: allocated_def is_allocated_bit fa_new_def Let_def)
  have "unat bytes div 4096 \<le> 1024" using div_le_mono [OF assms, of 4096] by simp
  then show "fa_inv (fa_new base bytes)"
    by (simp add: fa_inv_def e) (simp add: fa_new_def Let_def FRAME_SIZE_def MAX_FRAMES_def)
qed

lemma fa_inv_take:
  assumes "fa_inv a" and "allocated a' = allocated a \<union> F" and "F \<subseteq> {..<total_frames a}"
    and "F \<inter> allocated a = {}" and "free_frames a' = free_frames a - of_nat (card F)"
    and "total_frames a' = total_frames a" and "length (bitmap a') = length (bitmap a)"
  shows "fa_inv a'"
proof -
  have fin: "finite (allocated a)" "finite F"
    using assms(1,3) fa_inv_finite finite_subset by blast+
  have "card (allocated a) + card F = card (allocated a')"
    using assms(2,4) fin by (simp add: card_Un_disjoint Int_commute)
  moreover have sub: "allocated a' \<subseteq> {..<total_frames a}" using assms by (auto simp: fa_inv_def)
  then have "card (allocated a') \<le> total_frames a"
    using card_mono [of "{..<total_frames a}"] by fastforce
  ultimately have "total_frames a - card (allocated a) = (total_frames a - card (allocated a')) + card F"
    by simp
  then have "free_frames a' = of_nat (total_frames a - card (allocated a'))"
    using assms(1,5) by (simp add: fa_inv_def)
  with sub assms show ?thesis by (simp add: fa_inv_def)
qed

lemma allocate_frames_Some:
  assumes inv: "fa_inv a" and al: "allocate_frames a n = (a', Some s)"
  shows "0 < n" and "s + n \<le> total_frames a" and "{s..<s + n} \<inter> allocated a = {}"
    and "allocated a' = allocated a \<union> {s..<s + n}" and "fa_inv a'" and "total_frames a' = total_frames a"
proof -
  have "0 < n \<and> s + n \<le> total_frames a \<and> {s..<s + n} \<inter> allocated a = {}
      \<and> allocated a' = allocated a \<union> {s..<s + n} \<and> free_frames a' = free_frames a - of_nat n
      \<and> total_frames a' = total_frames a \<and> length (bitmap a') = length (bitmap a)"
  proof (cases "n = 1")
    case True
    with al show ?thesis
      by (cases a rule: allocate_frame_cases) (auto simp: allocate_frames_def)
  next
    case False
    with al have n: "0 < n" and r: "find_run a n None 0 0 (total_frames a) = Some s"
      and a': "a' = (mark_all a (map (\<lambda>i. s + i) [0..<n]))\<lparr>free_frames :=
        free_frames (mark_all a (map (\<lambda>i. s + i) [0..<n])) - of_nat n\<rparr>"
      by (auto simp: allocate_frames_def Let_def split: if_splits option.splits)
    have s: "s + n \<le> total_frames a" "\<forall>x. s \<le> x \<and> x < s + n \<longrightarrow> \<not> is_allocated a x"
      using find_run_Some [OF r] n by simp_all
    have "\<forall>k \<in> set (map (\<lambda>i. s + i) [0..<n]). k div 64 < length (bitmap a)"
      using s(1) inv by (auto simp: fa_inv_def MAX_FRAMES_def)
    note m = mark_all_effect [OF this]
    have "set (map (\<lambda>i. s + i) [0..<n]) = {s..<s + n}"
      by auto
    with m n s show ?thesis unfolding a' by (auto simp: allocated_def)
  qed
  note R = this
  then show "0 < n" "s + n \<le> total_frames a" "{s..<s + n} \<inter> allocated a = {}"
    "allocated a' = allocated a \<union> {s..<s + n}" "total_frames a' = total_frames a" by blast+
  have "{s..<s + n} \<subseteq> {..<total_frames a}" using R by auto
  with R show "fa_inv a'" using fa_inv_take [OF inv, of a' "{s..<s + n}"] by simp
qed

lemma deallocate_frame_effect:
  assumes "fa_inv a"
  shows "allocated (deallocate_frame a s) = allocated a - {s}"
    and "fa_inv (deallocate_frame a s)" and "total_frames (deallocate_frame a s) = total_frames a"
proof -
  have len: "length (bitmap a) = 16" and tot: "total_frames a \<le> 1024"
    and sub: "allocated a \<subseteq> {..<total_frames a}" and fr: "free_frames a = of_nat (total_frames a - card (allocated a))"
    using assms by (simp_all add: fa_inv_def MAX_FRAMES_def)
  note M = mark_free_effect [of a s]
  show e: "allocated (deallocate_frame a s) = allocated a - {s}"
    using M sub len tot by (auto simp: deallocate_frame_def case_prod_beta Let_def)
  show t: "total_frames (deallocate_frame a s) = total_frames a"
    using M by (simp add: deallocate_frame_def case_prod_beta Let_def)
  have l: "length (bitmap (deallocate_frame a s)) = length (bitmap a)"
    using M by (simp add: deallocate_frame_def case_prod_beta Let_def)
  have c: "card (allocated a) \<le> total_frames a"
    using card_mono [OF _ sub] by simp
  have "free_frames (deallocate_frame a s) = of_nat (total_frames a - card (allocated a - {s}))"
  proof (cases "s \<in> allocated a")
    case True
    then have "card (allocated a) = Suc (card (allocated a - {s}))"
      using fa_inv_finite [OF assms] by (metis card_Suc_Diff1)
    with c have "total_frames a - card (allocated a - {s}) = Suc (total_frames a - card (allocated a))"
      by simp
    with True sub M fr show ?thesis
      by (auto simp: deallocate_frame_def case_prod_beta Let_def)
  next
    case False
    with M fr show ?thesis
      by (auto simp: deallocate_frame_def case_prod_beta Let_def)
  qed
  then show "fa_inv (deallocate_frame a s)"
    using e t l assms by (auto simp: fa_inv_def)
qed

interpretation bitmap_frames: frame_provider allocated fa_inv total_frames allocate_frames deallocate_frame
proof
  fix a a' :: frame_allocator and n s :: nat
  assume inv: "fa_inv a"
  {
    assume "allocate_frames a n = (a', Some s)"
    from allocate_frames_Some [OF inv this]
    show "0 < n \<and> s + n \<le> total_frames a \<and> {s..<s + n} \<inter> allocated a = {}
      \<and> allocated a' = allocated a \<union> {s..<s + n} \<and> fa_inv a' \<and> total_frames a' = total_frames a"
      by blast
  }
  {
    assume "allocate_frames a n = (a', None)"
    then show "a' = a"
      by (cases a rule: allocate_frame_cases) (auto simp: allocate_frames_def Let_def split: if_splits option.splits)
  }
  {
    assume n: "0 < n" "s + n \<le> total_frames a" and f: "{s..<s + n} \<inter> allocated a = {}"
    then have free: "\<forall>x. s \<le> x \<and> x < s + n \<longrightarrow> \<not> is_allocated a x" by (auto simp: allocated_def)
    show "snd (allocate_frames a n) \<noteq> None"
    proof (cases "n = 1")
      case True
      have "s \<notin> allocated a" "s < length (bitmap a) * 64" "s < total_frames a"
        using free True n inv by (auto simp: allocated_def fa_inv_def MAX_FRAMES_def)
      then show ?thesis using True
        by (cases a rule: allocate_frame_cases) (auto simp: allocate_frames_def)
    next
      case False
      have "find_run a n None 0 0 (total_frames a) \<noteq> None"
        using find_run_None [of a n None 0 0 "total_frames a" s] free n by auto
      with False n show ?thesis by (auto simp: allocate_frames_def Let_def)
    qed
  }
  show "allocated (deallocate_frame a s) = allocated a - {s}"
    and "fa_inv (deallocate_frame a s) \<and> total_frames (deallocate_frame a s) = total_frames a"
    using deallocate_frame_effect [OF inv] by simp_all
qed

text \<open>
  (C38) The frame allocator never hands out a frame twice: from a fresh allocator over at most 4 MB,
  the blocks of frames given by any sequence of requests are pairwise disjoint and lie below the
  number of managed frames.
\<close>

theorem frames_never_shared:
  assumes "unat bytes \<le> 4096 * 1024"
  shows "pairwise disjnt (set (map (\<lambda>(s, n). {s..<s + n}) (alloc_seq allocate_frames (fa_new base bytes) ns)))
    \<and> distinct (alloc_seq allocate_frames (fa_new base bytes) ns)
    \<and> (\<forall>(s, n) \<in> set (alloc_seq allocate_frames (fa_new base bytes) ns). s + n \<le> unat bytes div 4096)"
proof -
  have "total_frames (fa_new base bytes) = unat bytes div 4096"
    by (simp add: fa_new_def Let_def FRAME_SIZE_def)
  then show ?thesis
    using bitmap_frames.alloc_seq_disjoint [OF fa_inv_new(1) [OF assms], of base ns] by auto
qed

theorem frames_never_shared_witness:
  "unat (16384 :: u64) \<le> 4096 * 1024
   \<and> alloc_seq allocate_frames (fa_new 0 16384) [1, 2, 1, 1] = [(0, 1), (1, 2), (3, 1)]
   \<and> distinct (alloc_seq allocate_frames (fa_new 0 16384) [1, 2, 1, 1])"
proof -
  have b: "unat (16384 :: u64) \<le> 4096 * 1024" by simp
  have "alloc_seq allocate_frames (fa_new 0 16384) [1, 2, 1, 1] = [(0, 1), (1, 2), (3, 1)]"
    by code_simp
  with frames_never_shared [OF b, of 0 "[1, 2, 1, 1]"] b show ?thesis by blast
qed

text \<open>
  A request for frames fails only when there is no room: the allocator finds a run of
  \<open>n\<close> free frames whenever one exists (and then takes exactly it), and leaves its state alone
  when it fails.
\<close>

theorem allocate_frames_complete:
  assumes "fa_inv a" and "0 < n"
  shows "(snd (allocate_frames a n) = None)
      = (\<nexists>s. s + n \<le> total_frames a \<and> {s..<s + n} \<inter> allocated a = {})
    \<and> (snd (allocate_frames a n) = None \<longrightarrow> fst (allocate_frames a n) = a)
    \<and> (\<forall>s. snd (allocate_frames a n) = Some s \<longrightarrow>
        allocated (fst (allocate_frames a n)) = allocated a \<union> {s..<s + n}
        \<and> free_frames (fst (allocate_frames a n))
            = of_nat (total_frames a - card (allocated a \<union> {s..<s + n})))"
proof (cases "allocate_frames a n")
  case (Pair a' r)
  show ?thesis
  proof (cases r)
    case None
    with Pair have n: "allocate_frames a n = (a', None)" by simp
    have "\<nexists>s. s + n \<le> total_frames a \<and> {s..<s + n} \<inter> allocated a = {}"
      using bitmap_frames.alloc_complete [OF assms] n by (metis snd_conv)
    with bitmap_frames.alloc_None [OF assms(1) n] n show ?thesis by simp
  next
    case (Some s)
    with Pair have "allocate_frames a n = (a', Some s)" by simp
    moreover from allocate_frames_Some [OF assms(1) this]
    have "free_frames a' = of_nat (total_frames a - card (allocated a \<union> {s..<s + n}))"
      by (simp add: fa_inv_def)
    ultimately show ?thesis using allocate_frames_Some [OF assms(1), of n a' s] by auto
  qed
qed

theorem allocate_frames_complete_witness:
  "fa_inv (fa_new 0 8192) \<and> (0 :: nat) < 3 \<and> allocate_frames (fa_new 0 8192) 3 = (fa_new 0 8192, None)"
proof -
  have i: "fa_inv (fa_new 0 8192)" by (rule fa_inv_new(1)) simp
  have "total_frames (fa_new 0 8192) = 2" by (simp add: fa_new_def Let_def FRAME_SIZE_def)
  then have "\<nexists>s. s + 3 \<le> total_frames (fa_new 0 8192) \<and> {s..<s + 3} \<inter> allocated (fa_new 0 8192) = {}"
    by simp
  with allocate_frames_complete [OF i, of 3] i show ?thesis by (metis prod.collapse zero_less_numeral)
qed

end
