(* ===== verification/Tiers.thy ===== *)
theory Tiers
  imports Prelude
begin

text \<open>
  Security tiers and pool identifiers: \<^verbatim>\<open>SecurityTier\<close> and \<^verbatim>\<open>PoolId\<close> of
  \<^verbatim>\<open>src/kernel-core/src/memory/pools.rs\<close>. Every access decision of the kernel rests
  on \<open>can_access\<close>; the theory shows that it is the total order of the tiers.
\<close>

section \<open>Definitions\<close>

datatype security_tier = Public | Internal | Sensitive | Secret

text \<open>The enum is \<^verbatim>\<open>repr(u8)\<close>: \<^verbatim>\<open>self as u8\<close>.\<close>

fun tier_value :: "security_tier \<Rightarrow> u8" where
  "tier_value Public = 0"
| "tier_value Internal = 1"
| "tier_value Sensitive = 2"
| "tier_value Secret = 3"

definition tier_from_value :: "u8 \<Rightarrow> security_tier option" where
  "tier_from_value v =
     (if v = 0 then Some Public else if v = 1 then Some Internal
      else if v = 2 then Some Sensitive else if v = 3 then Some Secret else None)"

definition can_access :: "security_tier \<Rightarrow> security_tier \<Rightarrow> bool" where
  "can_access self target \<longleftrightarrow> tier_value target \<le> tier_value self"

fun tier_name :: "security_tier \<Rightarrow> string" where
  "tier_name Public = ''Public''"
| "tier_name Internal = ''Internal''"
| "tier_name Sensitive = ''Sensitive''"
| "tier_name Secret = ''Secret''"

datatype pool_id = PoolId u64

fun pool_from_tier :: "security_tier \<Rightarrow> pool_id" where
  "pool_from_tier t = PoolId (ucast (tier_value t))"

fun pool_tier :: "pool_id \<Rightarrow> security_tier" where
  "pool_tier (PoolId n) =
     (if n = 0 then Public else if n = 1 then Internal
      else if n = 2 then Sensitive else if n = 3 then Secret else Public)"

section \<open>The order of the tiers\<close>

text \<open>The derived \<^verbatim>\<open>Ord\<close> compares the discriminants, so the tiers are linearly ordered.\<close>

lemma tier_value_inj [simp]: "tier_value a = tier_value b \<longleftrightarrow> a = b"
  by (cases a; cases b) simp_all

instantiation security_tier :: linorder
begin

definition less_eq_security_tier :: "security_tier \<Rightarrow> security_tier \<Rightarrow> bool" where
  "a \<le> b \<longleftrightarrow> tier_value a \<le> tier_value b"

definition less_security_tier :: "security_tier \<Rightarrow> security_tier \<Rightarrow> bool" where
  "a < b \<longleftrightarrow> tier_value a < tier_value b"

instance
  by standard (auto simp: less_eq_security_tier_def less_security_tier_def dest: order.antisym)

end

lemma can_access_iff_le: "can_access s t \<longleftrightarrow> t \<le> s"
  by (simp add: can_access_def less_eq_security_tier_def)

lemma can_access_refl [simp]: "can_access t t"
  by (simp add: can_access_iff_le)

lemma can_access_trans: "can_access a b \<Longrightarrow> can_access b c \<Longrightarrow> can_access a c"
  by (auto simp: can_access_iff_le)

lemma can_access_antisym: "can_access a b \<Longrightarrow> can_access b a \<Longrightarrow> a = b"
  by (auto simp: can_access_iff_le)

lemma public_least [simp]: "Public \<le> t"
  by (cases t) (simp_all add: less_eq_security_tier_def)

lemma secret_greatest [simp]: "t \<le> Secret"
  by (cases t) (simp_all add: less_eq_security_tier_def)

lemma le_public_iff [simp]: "t \<le> Public \<longleftrightarrow> t = Public"
  by (metis order.antisym public_least)

lemma tier_from_value_value [simp]: "tier_from_value (tier_value t) = Some t"
  by (cases t) (simp_all add: tier_from_value_def)

lemma tier_value_from_value: "tier_from_value v = Some t \<Longrightarrow> tier_value t = v"
  by (auto simp: tier_from_value_def split: if_splits)

lemma tier_from_value_None_iff: "tier_from_value v = None \<longleftrightarrow> 3 < v"
proof -
  have "v = 0 \<or> v = 1 \<or> v = 2 \<or> v = 3 \<longleftrightarrow> \<not> 3 < v"
    by unat_arith
  then show ?thesis by (auto simp: tier_from_value_def)
qed

lemma pool_tier_from_tier [simp]: "pool_tier (pool_from_tier t) = t"
  by (cases t) simp_all

interpretation tier_codec: byte_codec "\<lambda>t. [tier_value t]"
  "\<lambda>bs. case bs of [v] \<Rightarrow> tier_from_value v | _ \<Rightarrow> None" "\<lambda>_. True"
  by unfold_locales simp

end
