(* ===== verification/Pools.thy ===== *)
theory Pools
  imports Frames Tiers
begin

text \<open>
  The four security-tiered memory pools: \<^verbatim>\<open>MemoryPool\<close> and \<^verbatim>\<open>PoolAllocator\<close> of
  \<^verbatim>\<open>src/kernel-core/src/memory/pools.rs\<close>. A block given by a pool lies inside the pool's
  address range and is at least as large as requested, whatever the requested size; the pools'
  ranges are disjoint. The theory also shows that giving memory back to one of the kernel's pools
  has no effect on its frames.
\<close>

section \<open>Definitions\<close>

record memory_pool =
  mp_tier :: security_tier
  mp_id :: pool_id
  mp_base :: physical_address
  mp_size :: u64
  mp_used :: u64
  mp_allocator :: frame_allocator

text \<open>\<^verbatim>\<open>MemoryPool::new\<close> and \<^verbatim>\<open>init_in_place\<close>.\<close>

definition mp_new :: "security_tier \<Rightarrow> physical_address \<Rightarrow> u64 \<Rightarrow> memory_pool" where
  "mp_new t base sz = \<lparr>mp_tier = t, mp_id = pool_from_tier t, mp_base = base, mp_size = sz,
     mp_used = 0, mp_allocator = fa_new base sz\<rparr>"

definition frames_of :: "u64 \<Rightarrow> nat" where
  "frames_of n = unat (n div 4096) + (if n mod 4096 \<noteq> 0 then 1 else 0)"

definition mp_allocate :: "memory_pool \<Rightarrow> u64 \<Rightarrow> u64 \<Rightarrow> memory_pool \<times> physical_address option" where
  "mp_allocate p sz alignment =
     (let aligned_size = (sz + alignment - 1) AND NOT (alignment - 1);
          frames_needed = frames_of aligned_size
      in case allocate_frames (mp_allocator p) frames_needed of
           (_, None) \<Rightarrow> (p, None)
         | (fa, Some start_frame) \<Rightarrow>
             (p\<lparr>mp_allocator := fa, mp_used := mp_used p + aligned_size\<rparr>,
              Some (mp_base p + of_nat start_frame * 4096)))"

definition mp_deallocate :: "memory_pool \<Rightarrow> physical_address \<Rightarrow> u64 \<Rightarrow> memory_pool" where
  "mp_deallocate p addr sz =
     p\<lparr>mp_allocator := dealloc_run deallocate_frame (mp_allocator p) (frame_from_address addr) (frames_of sz),
       mp_used := mp_used p - sz\<rparr>"

record pool_stats =
  ps_tier :: security_tier
  ps_total_bytes :: u64
  ps_used_bytes :: u64
  ps_free_frames :: u64

definition mp_stats :: "memory_pool \<Rightarrow> pool_stats" where
  "mp_stats p = \<lparr>ps_tier = mp_tier p, ps_total_bytes = mp_size p, ps_used_bytes = mp_used p,
     ps_free_frames = free_frames (mp_allocator p)\<rparr>"

definition frame_count :: "memory_pool \<Rightarrow> nat" where
  "frame_count p = total_frames (mp_allocator p)"

definition is_frame_allocated :: "memory_pool \<Rightarrow> nat \<Rightarrow> bool" where
  "is_frame_allocated p i = is_allocated (mp_allocator p) i"

text \<open>Raw frame contents: memory is a function from addresses to bytes.\<close>

definition frame_addr :: "memory_pool \<Rightarrow> nat \<Rightarrow> physical_address" where
  "frame_addr p i = mp_base p + of_nat i * 4096"

definition get_frame_data :: "(u64 \<Rightarrow> u8) \<Rightarrow> memory_pool \<Rightarrow> nat \<Rightarrow> u8 list" where
  "get_frame_data mem p i = map (\<lambda>k. mem (frame_addr p i + of_nat k)) [0..<4096]"

definition restore_frame ::
  "(u64 \<Rightarrow> u8) \<Rightarrow> memory_pool \<Rightarrow> nat \<Rightarrow> u8 list \<Rightarrow> (u64 \<Rightarrow> u8) \<times> memory_pool" where
  "restore_frame mem p i data =
     (if length data \<noteq> 4096 \<or> i \<ge> frame_count p then (mem, p)
      else ((\<lambda>a. if unat (a - frame_addr p i) < 4096 then data ! unat (a - frame_addr p i) else mem a),
            p\<lparr>mp_allocator := mark_frame_allocated (mp_allocator p) i\<rparr>))"

definition allocated_frames :: "memory_pool \<Rightarrow> u64" where
  "allocated_frames p = of_nat (total_frames (mp_allocator p)) - free_frames (mp_allocator p)"

section \<open>The pool allocator\<close>

record pool_allocator =
  pa_public :: memory_pool
  pa_internal :: memory_pool
  pa_sensitive :: memory_pool
  pa_secret :: memory_pool

definition PUBLIC_BASE :: u64 where "PUBLIC_BASE = 0x42000000"
definition PUBLIC_SIZE :: u64 where "PUBLIC_SIZE = 4 * 1024"
definition INTERNAL_BASE :: u64 where "INTERNAL_BASE = PUBLIC_BASE + PUBLIC_SIZE"
definition INTERNAL_SIZE :: u64 where "INTERNAL_SIZE = 4 * 1024"
definition SENSITIVE_BASE :: u64 where "SENSITIVE_BASE = INTERNAL_BASE + INTERNAL_SIZE"
definition SENSITIVE_SIZE :: u64 where "SENSITIVE_SIZE = 8 * 1024"
definition SECRET_BASE :: u64 where "SECRET_BASE = SENSITIVE_BASE + SENSITIVE_SIZE"
definition SECRET_SIZE :: u64 where "SECRET_SIZE = 16 * 1024"

lemmas pool_layout = PUBLIC_BASE_def PUBLIC_SIZE_def INTERNAL_BASE_def INTERNAL_SIZE_def
  SENSITIVE_BASE_def SENSITIVE_SIZE_def SECRET_BASE_def SECRET_SIZE_def

definition pa_new :: pool_allocator where
  "pa_new = \<lparr>pa_public = mp_new Public PUBLIC_BASE PUBLIC_SIZE,
     pa_internal = mp_new Internal INTERNAL_BASE INTERNAL_SIZE,
     pa_sensitive = mp_new Sensitive SENSITIVE_BASE SENSITIVE_SIZE,
     pa_secret = mp_new Secret SECRET_BASE SECRET_SIZE\<rparr>"

fun get_pool :: "pool_allocator \<Rightarrow> security_tier \<Rightarrow> memory_pool" where
  "get_pool pa Public = pa_public pa"
| "get_pool pa Internal = pa_internal pa"
| "get_pool pa Sensitive = pa_sensitive pa"
| "get_pool pa Secret = pa_secret pa"

fun pa_allocate :: "pool_allocator \<Rightarrow> security_tier \<Rightarrow> u64 \<Rightarrow> pool_allocator \<times> physical_address option"
where
  "pa_allocate pa Public sz =
     (let (p, r) = mp_allocate (pa_public pa) sz 4096 in (pa\<lparr>pa_public := p\<rparr>, r))"
| "pa_allocate pa Internal sz =
     (let (p, r) = mp_allocate (pa_internal pa) sz 4096 in (pa\<lparr>pa_internal := p\<rparr>, r))"
| "pa_allocate pa Sensitive sz =
     (let (p, r) = mp_allocate (pa_sensitive pa) sz 4096 in (pa\<lparr>pa_sensitive := p\<rparr>, r))"
| "pa_allocate pa Secret sz =
     (let (p, r) = mp_allocate (pa_secret pa) sz 4096 in (pa\<lparr>pa_secret := p\<rparr>, r))"

section \<open>Pools and their address ranges\<close>

text \<open>
  The frames of a pool cover \<open>[base, base + size)\<close>, which does not wrap and does not contain
  address 0.
\<close>

definition mp_inv :: "memory_pool \<Rightarrow> bool" where
  "mp_inv p \<longleftrightarrow> fa_inv (mp_allocator p) \<and> 0 < unat (mp_base p)
     \<and> total_frames (mp_allocator p) = unat (mp_size p) div 4096
     \<and> unat (mp_base p) + unat (mp_size p) < 2 ^ 64"

text \<open>The addresses of frame run \<open>[s, s + n)\<close> of a pool.\<close>

definition run_addrs :: "memory_pool \<Rightarrow> nat \<Rightarrow> nat \<Rightarrow> nat set" where
  "run_addrs p s n = {unat (mp_base p) + s * 4096..<unat (mp_base p) + (s + n) * 4096}"

definition pool_range :: "memory_pool \<Rightarrow> nat set" where
  "pool_range p = {unat (mp_base p)..<unat (mp_base p) + unat (mp_size p)}"

lemma page_count: "(x + 4095) div 4096 = x div 4096 + (if x mod 4096 \<noteq> 0 then 1 else 0 :: nat)"
proof -
  define q r where "q = x div 4096" and "r = x mod 4096"
  have x: "x = q * 4096 + r" and r: "r < 4096" by (simp_all add: q_def r_def)
  have "(x + 4095) div 4096 = q + (if r \<noteq> 0 then 1 else 0)"
    unfolding x using r by (intro div_nat_eqI) auto
  then show ?thesis by (simp only: q_def r_def)
qed

lemma frames_of_eq: "frames_of n = (unat n + 4095) div 4096"
proof -
  have "unat (n div 4096) = unat n div 4096" "unat (n mod 4096) = unat n mod 4096"
    by (simp_all add: unat_div unat_mod)
  moreover have "(n mod 4096 \<noteq> 0) = (unat (n mod 4096) \<noteq> 0)" by (simp add: unat_eq_0)
  ultimately have "frames_of n = unat n div 4096 + (if unat n mod 4096 \<noteq> 0 then 1 else 0)"
    by (simp add: frames_of_def)
  also have "\<dots> = (unat n + 4095) div 4096"
    by (rule page_count [symmetric])
  finally show ?thesis .
qed

text \<open>
  Rounding a request up to pages: the frames cover the request, or the sum wrapped and no frame is
  asked for.
\<close>

lemma aligned_size_frames:
  fixes sz :: u64
  defines "al \<equiv> (sz + 4096 - 1) AND NOT (4096 - 1)"
  shows "frames_of al = 0 \<or> unat sz \<le> frames_of al * 4096"
proof -
  have al: "al = align_up_to_page sz" by (simp add: al_def align_up_to_page_def add.commute)
  show ?thesis
  proof (cases "unat sz \<le> 2 ^ 64 - 4096")
    case True
    note B = align_up_to_page_bounds [OF True]
    then have "unat al = frames_of al * 4096"
      unfolding frames_of_eq al is_page_aligned_iff by (auto elim!: dvdE)
    with B al show ?thesis by auto
  next
    case False
    have lt: "unat sz < 2 ^ 64" using unsigned_less [of sz, where 'a = nat] by simp
    have "unat (sz + 4095) = unat sz + 4095 - 2 ^ 64"
      using False lt by (simp add: unat_word_ariths mod_if)
    then have "unat (sz + 4095) < 4096" using lt by simp
    then have "unat al = 0"
      unfolding al align_up_to_page_def mask12(1) by (subst and_not_mask_unat) simp
    then show ?thesis by (simp add: frames_of_eq)
  qed
qed

lemma mp_allocate_cases:
  fixes p :: memory_pool
  assumes inv: "mp_inv p"
  obtains (none) "mp_allocate p sz 4096 = (p, None)"
    | (block) s n p' addr where "mp_allocate p sz 4096 = (p', Some addr)"
      "allocated (mp_allocator p') = allocated (mp_allocator p) \<union> {s..<s + n}"
      "{s..<s + n} \<inter> allocated (mp_allocator p) = {}" "0 < n" "s + n \<le> total_frames (mp_allocator p)"
      "unat addr = unat (mp_base p) + s * 4096" "unat sz \<le> n * 4096" "mp_inv p'"
      "mp_base p' = mp_base p" "mp_size p' = mp_size p" "mp_tier p' = mp_tier p"
proof -
  define al where "al = (sz + 4096 - 1) AND NOT (4096 - 1)"
  define n where "n = frames_of al"
  obtain fa r where fa: "allocate_frames (mp_allocator p) n = (fa, r)" by (cases "allocate_frames (mp_allocator p) n")
  show thesis
  proof (cases r)
    case None
    with fa have "mp_allocate p sz 4096 = (p, None)"
      unfolding mp_allocate_def al_def [symmetric] Let_def n_def [symmetric] by simp
    then show thesis by (rule none)
  next
    case (Some s)
    define p' where "p' = p\<lparr>mp_allocator := fa, mp_used := mp_used p + al\<rparr>"
    have e: "mp_allocate p sz 4096 = (p', Some (mp_base p + of_nat s * 4096))"
      using fa Some unfolding mp_allocate_def al_def [symmetric] Let_def n_def [symmetric] p'_def by simp
    have finv: "fa_inv (mp_allocator p)" using inv by (simp add: mp_inv_def)
    note A = allocate_frames_Some [OF finv, of n fa s, unfolded fa Some, OF refl]
    have big: "s * 4096 + n * 4096 \<le> unat (mp_size p)"
    proof -
      have "s + n \<le> unat (mp_size p) div 4096" using A(2) inv by (simp add: mp_inv_def)
      then have "(s + n) * 4096 \<le> unat (mp_size p) div 4096 * 4096" by simp
      also have "\<dots> \<le> unat (mp_size p)" by simp
      finally show ?thesis by simp
    qed
    have lt: "unat (mp_base p) + s * 4096 < 2 ^ 64" using big inv A(1) by (simp add: mp_inv_def)
    then have s: "unat (of_nat s * 4096 :: u64) = s * 4096"
      by (simp add: unat_word_ariths unat_of_nat take_bit_nat_eq_self)
    have "unat (mp_base p + of_nat s * 4096) = unat (mp_base p) + s * 4096"
      using lt s by (subst unat_add_lem [THEN iffD1]) simp_all
    moreover have "unat sz \<le> n * 4096"
      using aligned_size_frames [of sz] A(1) unfolding al_def [symmetric] n_def [symmetric] by simp
    moreover have "mp_inv p'" using inv A(5,6) by (simp add: mp_inv_def p'_def)
    ultimately show thesis
      using block [OF e, of s n] A by (simp add: p'_def)
  qed
qed

text \<open>
  A block given by a pool is inside the pool and as large as asked for, for every requested
  size, the sizes whose rounding wraps around included: an allocation of \<open>sz\<close> bytes that succeeds
  gives an address whose next \<open>sz\<close> bytes lie in the pool's range, and no address of the block
  belongs to a frame that was already allocated.
\<close>

theorem pool_block_inside:
  assumes "mp_inv p" and "mp_allocate p sz 4096 = (p', Some addr)"
  shows "{unat addr..<unat addr + unat sz} \<subseteq> pool_range p
    \<and> is_page_aligned (addr - mp_base p)
    \<and> (\<forall>f \<in> allocated (mp_allocator p).
        {unat addr..<unat addr + unat sz} \<inter> run_addrs p f 1 = {})
    \<and> mp_inv p'"
  using assms(1)
proof (cases rule: mp_allocate_cases [where sz = sz])
  case none
  with assms(2) show ?thesis by simp
next
  case (block s n q a)
  with assms(2) have b: "unat addr = unat (mp_base p) + s * 4096" and q: "q = p'" by auto
  have "(s + n) * 4096 \<le> unat (mp_size p) div 4096 * 4096"
    using block(5) assms(1) by (simp add: mp_inv_def)
  also have "\<dots> \<le> unat (mp_size p)" by simp
  finally have fin: "(s + n) * 4096 \<le> unat (mp_size p)" .
  have "unat (addr - mp_base p) = s * 4096"
    using b by (simp add: unat_sub_if')
  then have "is_page_aligned (addr - mp_base p)" by (simp add: is_page_aligned_iff)
  moreover have "{unat addr..<unat addr + unat sz} \<inter> run_addrs p f 1 = {}"
    if "f \<in> allocated (mp_allocator p)" for f
  proof -
    from that block(3) have "f \<notin> {s..<s + n}" by blast
    then have "f < s \<or> s + n \<le> f" by auto
    then have "(f + 1) * 4096 \<le> s * 4096 \<or> (s + n) * 4096 \<le> f * 4096"
      by (metis Suc_eq_plus1 Suc_leI mult_le_mono1)
    then show ?thesis using b block(7) by (auto simp: run_addrs_def)
  qed
  ultimately show ?thesis
    using b block(7,8) fin q by (auto simp: pool_range_def)
qed

theorem pool_block_inside_witness:
  "mp_inv (mp_new Sensitive SENSITIVE_BASE SENSITIVE_SIZE)
   \<and> snd (mp_allocate (mp_new Sensitive SENSITIVE_BASE SENSITIVE_SIZE) 5000 4096) = Some 0x42002000
   \<and> {0x42002000..<0x42002000 + 5000} \<subseteq> pool_range (mp_new Sensitive SENSITIVE_BASE SENSITIVE_SIZE)"
proof -
  let ?p = "mp_new Sensitive SENSITIVE_BASE SENSITIVE_SIZE"
  have i: "mp_inv ?p"
    by (simp add: mp_inv_def mp_new_def pool_layout fa_inv_new) (simp add: fa_new_def Let_def FRAME_SIZE_def)
  have r: "snd (mp_allocate ?p 5000 4096) = Some 0x42002000" by code_simp
  then obtain p' where "mp_allocate ?p 5000 4096 = (p', Some 0x42002000)" by (metis prod.collapse)
  from pool_block_inside [OF i this] i r show ?thesis by simp
qed

section \<open>The four pools\<close>

definition pa_inv :: "pool_allocator \<Rightarrow> bool" where
  "pa_inv pa \<longleftrightarrow> (\<forall>t. mp_inv (get_pool pa t) \<and> mp_base (get_pool pa t) = mp_base (get_pool pa_new t)
     \<and> mp_size (get_pool pa t) = mp_size (get_pool pa_new t) \<and> mp_tier (get_pool pa t) = t)"

lemma pa_inv_new: "pa_inv pa_new"
proof -
  have "mp_inv (get_pool pa_new t)" for t
    by (cases t; simp add: pa_new_def mp_new_def mp_inv_def pool_layout fa_inv_new)
      (simp_all add: fa_new_def Let_def FRAME_SIZE_def)
  moreover have "mp_tier (get_pool pa_new t) = t" for t
    by (cases t) (simp_all add: pa_new_def mp_new_def)
  ultimately show ?thesis by (simp add: pa_inv_def)
qed

lemma pa_inv_pool_range: "pa_inv pa \<Longrightarrow> pool_range (get_pool pa t) = pool_range (get_pool pa_new t)"
  by (simp add: pa_inv_def pool_range_def)

text \<open>The address ranges of different tiers do not meet.\<close>

lemma pool_ranges_disjoint:
  "t \<noteq> t' \<Longrightarrow> pool_range (get_pool pa_new t) \<inter> pool_range (get_pool pa_new t') = {}"
  by (cases t; cases t') (auto simp: pa_new_def pool_range_def mp_new_def pool_layout)

lemma pa_allocate_eq:
  "snd (pa_allocate pa t sz) = snd (mp_allocate (get_pool pa t) sz 4096)"
  "get_pool (fst (pa_allocate pa t sz)) t'
     = (if t' = t then fst (mp_allocate (get_pool pa t) sz 4096) else get_pool pa t')"
  by (cases t; cases t'; simp add: case_prod_beta Let_def)+

lemma pa_inv_allocate:
  assumes "pa_inv pa"
  shows "pa_inv (fst (pa_allocate pa t sz))"
proof -
  have "mp_inv (get_pool pa t)" using assms by (simp add: pa_inv_def)
  then show ?thesis
  proof (cases rule: mp_allocate_cases [where sz = sz])
    case none
    then show ?thesis using assms by (simp add: pa_inv_def pa_allocate_eq)
  next
    case (block s n p' addr)
    then show ?thesis using assms by (simp add: pa_inv_def pa_allocate_eq)
  qed
qed

lemma dealloc_run_beyond:
  "total_frames fa \<le> s \<Longrightarrow> dealloc_run deallocate_frame fa s n = fa"
  by (induction n arbitrary: s) (simp_all add: deallocate_frame_def)

text \<open>
  Memory given back to a kernel pool is not reusable. \<^verbatim>\<open>MemoryPool::deallocate\<close> looks up the
  frame of the absolute address, while the pool's frames are numbered from the pool's base: for
  every tier, every address of the pool and every size, the frame allocator is left unchanged, so
  the frames stay allocated and only the usage counter goes down.
\<close>

theorem pool_deallocate_frees_nothing:
  assumes "pa_inv pa" and "unat addr \<in> pool_range (get_pool pa t)"
  shows "mp_allocator (mp_deallocate (get_pool pa t) addr sz) = mp_allocator (get_pool pa t)
    \<and> mp_used (mp_deallocate (get_pool pa t) addr sz) = mp_used (get_pool pa t) - sz"
proof -
  have "unat addr \<in> pool_range (get_pool pa_new t)"
    using assms by (simp add: pa_inv_pool_range)
  then have "0x42000000 \<le> unat addr"
    by (cases t) (simp_all add: pa_new_def pool_range_def mp_new_def pool_layout)
  then have "0x42000000 div 4096 \<le> unat addr div 4096" by (rule div_le_mono)
  moreover have "total_frames (mp_allocator (get_pool pa t)) \<le> MAX_FRAMES"
    using assms(1) unfolding pa_inv_def mp_inv_def fa_inv_def by blast
  ultimately have "total_frames (mp_allocator (get_pool pa t)) \<le> frame_from_address addr"
    by (simp add: frame_from_address_def MAX_FRAMES_def)
  then show ?thesis by (simp add: mp_deallocate_def dealloc_run_beyond)
qed

theorem pool_deallocate_frees_nothing_witness:
  "let pa = fst (pa_allocate pa_new Public 4096);
       p = mp_deallocate (get_pool pa Public) 0x42000000 4096
   in pa_inv pa \<and> snd (pa_allocate pa_new Public 4096) = Some 0x42000000
      \<and> mp_used p = 0 \<and> snd (mp_allocate p 4096 4096) = None"
proof -
  let ?pa = "fst (pa_allocate pa_new Public 4096)"
  have i: "pa_inv ?pa" by (rule pa_inv_allocate [OF pa_inv_new])
  have m: "unat (0x42000000 :: u64) \<in> pool_range (get_pool ?pa Public)"
    unfolding pa_inv_pool_range [OF i] by (simp add: pa_new_def pool_range_def mp_new_def pool_layout)
  have e1: "snd (pa_allocate pa_new Public 4096) = Some 0x42000000" by code_simp
  have e2: "mp_used (get_pool ?pa Public) - 4096 = 0" by code_simp
  have e3: "snd (mp_allocate (get_pool ?pa Public) 4096 4096) = None" by code_simp
  have "snd (mp_allocate q 4096 4096) = snd (mp_allocate q' 4096 4096)"
    if "mp_allocator q = mp_allocator q'" "mp_base q = mp_base q'" for q q'
    using that by (simp add: mp_allocate_def Let_def split: prod.split option.split)
  moreover have "mp_base (mp_deallocate q a sz) = mp_base q" for q a sz
    by (simp add: mp_deallocate_def)
  ultimately show ?thesis
    using pool_deallocate_frees_nothing [OF i m, of 4096] i e1 e2 e3 unfolding Let_def by metis
qed

text \<open>What is restored into a frame is what is read back from it.\<close>

lemma get_restore_frame:
  assumes "length data = 4096" and "i < frame_count p"
  shows "get_frame_data (fst (restore_frame mem p i data)) p i = data"
proof -
  have "unat (of_nat k :: u64) = k" if "k < 4096" for k
    using that by (simp add: unat_of_nat take_bit_nat_eq_self)
  then show ?thesis
    using assms by (auto simp: restore_frame_def get_frame_data_def intro!: nth_equalityI)
qed

end
