(* ===== verification/Slot_Table.thy ===== *)
theory Slot_Table
  imports Prelude
begin

text \<open>
  Most of the kernel's tables (capability tables, the allocation table, the user registry,
  descriptor tables) are fixed arrays of slots: a slot is live or free, a live slot has a key, a
  lookup scans for the live slot with that key, an insert writes the first free slot. The locale
  \<open>slot_table\<close> states what such an array needs, and proves once how lookups change under
  writes; each table interprets it on its own slots.
\<close>

definition slot_lookup :: "('s \<Rightarrow> bool) \<Rightarrow> ('s \<Rightarrow> 'k) \<Rightarrow> 's list \<Rightarrow> 'k \<Rightarrow> 's option" where
  "slot_lookup live key xs k = List.find (\<lambda>s. live s \<and> key s = k) xs"

definition slot_uniq :: "('s \<Rightarrow> bool) \<Rightarrow> ('s \<Rightarrow> 'k) \<Rightarrow> 's list \<Rightarrow> bool" where
  "slot_uniq live key xs \<longleftrightarrow>
     (\<forall>i < length xs. \<forall>j < length xs.
        live (xs ! i) \<and> live (xs ! j) \<and> key (xs ! i) = key (xs ! j) \<longrightarrow> i = j)"

definition live_count :: "('s \<Rightarrow> bool) \<Rightarrow> 's list \<Rightarrow> nat" where
  "live_count live xs = length (filter live xs)"

lemma live_count_Nil [simp]: "live_count live [] = 0"
  by (simp add: live_count_def)

lemma live_count_Cons [simp]:
  "live_count live (x # xs) = (if live x then 1 else 0) + live_count live xs"
  by (simp add: live_count_def)

locale slot_table =
  fixes live :: "'s \<Rightarrow> bool"
    and key :: "'s \<Rightarrow> 'k"
    and free :: 's
  assumes free_not_live: "\<not> live free"
begin

lemma lookup_Some_iff:
  assumes "slot_uniq live key xs"
  shows "slot_lookup live key xs k = Some s \<longleftrightarrow> s \<in> set xs \<and> live s \<and> key s = k"
proof
  assume "slot_lookup live key xs k = Some s"
  then show "s \<in> set xs \<and> live s \<and> key s = k"
    by (auto simp: slot_lookup_def find_Some_iff)
next
  assume s: "s \<in> set xs \<and> live s \<and> key s = k"
  then have "slot_lookup live key xs k \<noteq> None"
    by (auto simp: slot_lookup_def find_None_iff)
  then obtain s' where s': "slot_lookup live key xs k = Some s'" by blast
  then have "s' \<in> set xs \<and> live s' \<and> key s' = k"
    by (auto simp: slot_lookup_def find_Some_iff)
  with s assms have "s' = s"
    unfolding slot_uniq_def by (metis in_set_conv_nth)
  with s' show "slot_lookup live key xs k = Some s" by simp
qed

lemma lookup_None_iff:
  "slot_lookup live key xs k = None \<longleftrightarrow> (\<forall>s \<in> set xs. live s \<longrightarrow> key s \<noteq> k)"
  by (auto simp: slot_lookup_def find_None_iff)

lemma lookup_SomeD:
  "slot_lookup live key xs k = Some s \<Longrightarrow> s \<in> set xs \<and> live s \<and> key s = k"
  by (auto simp: slot_lookup_def find_Some_iff)

lemma lookup_position:
  "slot_lookup live key xs k = map_option ((!) xs) (position (\<lambda>s. live s \<and> key s = k) xs)"
  by (simp add: slot_lookup_def find_eq_position)

lemma uniq_put:
  assumes "slot_uniq live key xs" and "i < length xs"
    and "\<And>j. j < length xs \<Longrightarrow> j \<noteq> i \<Longrightarrow> live (xs ! j) \<Longrightarrow> key (xs ! j) \<noteq> key v"
  shows "slot_uniq live key (xs[i := v])"
  using assms unfolding slot_uniq_def by (auto simp: nth_list_update) metis+

lemma uniq_clear:
  "slot_uniq live key xs \<Longrightarrow> \<not> live v \<Longrightarrow> slot_uniq live key (xs[i := v])"
  unfolding slot_uniq_def
  by (cases "i < length xs") (auto simp: nth_list_update list_update_beyond split: if_splits)

lemma lookup_put:
  assumes u: "slot_uniq live key xs" and i: "i < length xs" and v: "live v"
    and others: "\<And>j. j < length xs \<Longrightarrow> j \<noteq> i \<Longrightarrow> live (xs ! j) \<Longrightarrow> key (xs ! j) \<noteq> key v"
    and old: "live (xs ! i) \<Longrightarrow> key (xs ! i) = key v"
  shows "slot_lookup live key (xs[i := v]) k
    = (if k = key v then Some v else slot_lookup live key xs k)"
proof -
  have u': "slot_uniq live key (xs[i := v])"
    using u i others by (rule uniq_put)
  have "slot_lookup live key (xs[i := v]) k = Some s \<longleftrightarrow>
      (if k = key v then Some v else slot_lookup live key xs k) = Some s" for s
  proof (cases "k = key v")
    case True
    have "s \<in> set (xs[i := v]) \<and> live s \<and> key s = k \<longleftrightarrow> s = v"
    proof
      assume "s \<in> set (xs[i := v]) \<and> live s \<and> key s = k"
      then obtain j where "j < length xs" "xs[i := v] ! j = s" "live s" "key s = key v"
        using True by (auto simp: in_set_conv_nth)
      then show "s = v"
        using others [of j] by (cases "j = i") auto
    qed (use i v True in \<open>auto simp: set_update_memI\<close>)
    then show ?thesis by (auto simp: lookup_Some_iff [OF u'] True)
  next
    case False
    have "s \<in> set (xs[i := v]) \<and> live s \<and> key s = k \<longleftrightarrow> s \<in> set xs \<and> live s \<and> key s = k"
    proof
      assume "s \<in> set (xs[i := v]) \<and> live s \<and> key s = k"
      then show "s \<in> set xs \<and> live s \<and> key s = k"
        using False set_update_subset_insert [of xs i v] by auto
    next
      assume s: "s \<in> set xs \<and> live s \<and> key s = k"
      then obtain j where j: "j < length xs" "xs ! j = s" by (auto simp: in_set_conv_nth)
      with s old False have "j \<noteq> i" by auto
      with s j show "s \<in> set (xs[i := v]) \<and> live s \<and> key s = k"
        by (auto simp: in_set_conv_nth intro!: exI [of _ j])
    qed
    then show ?thesis using False by (simp add: lookup_Some_iff [OF u'] lookup_Some_iff [OF u])
  qed
  then show ?thesis by (metis option.exhaust)
qed

lemma lookup_clear:
  assumes u: "slot_uniq live key xs" and i: "i < length xs" and l: "live (xs ! i)"
    and v: "\<not> live v"
  shows "slot_lookup live key (xs[i := v]) k
    = (if k = key (xs ! i) then None else slot_lookup live key xs k)"
proof -
  have u': "slot_uniq live key (xs[i := v])"
    using u v by (rule uniq_clear)
  have "s \<in> set (xs[i := v]) \<and> live s \<and> key s = k \<longleftrightarrow>
      s \<in> set xs \<and> live s \<and> key s = k \<and> k \<noteq> key (xs ! i)" for s
  proof
    assume "s \<in> set (xs[i := v]) \<and> live s \<and> key s = k"
    then obtain j where "j < length xs" "xs[i := v] ! j = s" "live s" "key s = k"
      by (auto simp: in_set_conv_nth)
    then show "s \<in> set xs \<and> live s \<and> key s = k \<and> k \<noteq> key (xs ! i)"
      using u v l i unfolding slot_uniq_def by (cases "j = i") auto
  next
    assume s: "s \<in> set xs \<and> live s \<and> key s = k \<and> k \<noteq> key (xs ! i)"
    then obtain j where j: "j < length xs" "xs ! j = s" by (auto simp: in_set_conv_nth)
    with s have "j \<noteq> i" by auto
    with s j show "s \<in> set (xs[i := v]) \<and> live s \<and> key s = k"
      by (auto simp: in_set_conv_nth intro!: exI [of _ j])
  qed
  then have "slot_lookup live key (xs[i := v]) k = Some s \<longleftrightarrow>
      (if k = key (xs ! i) then None else slot_lookup live key xs k) = Some s" for s
    by (auto simp: lookup_Some_iff [OF u'] lookup_Some_iff [OF u])
  then show ?thesis by (metis option.exhaust)
qed

lemma live_count_put_free:
  "i < length xs \<Longrightarrow> \<not> live (xs ! i) \<Longrightarrow> live v \<Longrightarrow>
     live_count live (xs[i := v]) = Suc (live_count live xs)"
  using length_filter_update [of i xs live v] by (simp add: live_count_def)

lemma live_count_put_live:
  "i < length xs \<Longrightarrow> live (xs ! i) \<Longrightarrow> live v \<Longrightarrow>
     live_count live (xs[i := v]) = live_count live xs"
  using length_filter_update [of i xs live v] by (simp add: live_count_def)

lemma live_count_clear:
  "i < length xs \<Longrightarrow> live (xs ! i) \<Longrightarrow> \<not> live v \<Longrightarrow>
     Suc (live_count live (xs[i := v])) = live_count live xs"
  using length_filter_update [of i xs live v] by (simp add: live_count_def)

lemma live_count_le: "live_count live xs \<le> length xs"
  by (simp add: live_count_def)

lemma all_live_iff_full: "position (\<lambda>s. \<not> live s) xs = None \<longleftrightarrow> live_count live xs = length xs"
  unfolding position_None_iff live_count_def
  by (metis (mono_tags, lifting) filter_True length_filter_less less_irrefl)

lemma lookup_replicate_free [simp]: "slot_lookup live key (replicate n free) k = None"
  using free_not_live by (auto simp: lookup_None_iff)

lemma uniq_replicate_free [simp]: "slot_uniq live key (replicate n free)"
  using free_not_live by (auto simp: slot_uniq_def)

lemma live_count_replicate_free [simp]: "live_count live (replicate n free) = 0"
  using free_not_live by (simp add: live_count_def)

end

end
