(* ===== verification/Secure_Alloc.thy ===== *)
theory Secure_Alloc
  imports Pools Slot_Table
begin

text \<open>
  Tier-checked allocation: \<^verbatim>\<open>src/kernel-core/src/memory/secure_alloc.rs\<close>. A table of 64 records
  remembers who owns which block. The theory shows that a task only ever obtains memory of a tier
  it may access, from that tier's address range, and that the blocks recorded in the table never
  overlap.
\<close>

section \<open>Definitions\<close>

definition MAX_ALLOCATIONS :: nat where "MAX_ALLOCATIONS = 64"

record allocation_record =
  ar_addr :: u64
  ar_size :: u64
  ar_tier :: u8
  ar_owner :: u8
  ar_flags :: u8

definition ar_empty :: allocation_record where
  "ar_empty = \<lparr>ar_addr = 0, ar_size = 0, ar_tier = 0, ar_owner = 0, ar_flags = 0\<rparr>"

definition is_free :: "allocation_record \<Rightarrow> bool" where
  "is_free r = (ar_addr r = 0)"

record allocation_table =
  at_records :: "allocation_record list"
  at_count :: u64

definition at_new :: allocation_table where
  "at_new = \<lparr>at_records = replicate MAX_ALLOCATIONS ar_empty, at_count = 0\<rparr>"

definition find_free_slot :: "allocation_table \<Rightarrow> nat option" where
  "find_free_slot t = position is_free (at_records t)"

definition find_by_addr :: "allocation_table \<Rightarrow> u64 \<Rightarrow> nat option" where
  "find_by_addr t a = position (\<lambda>r. ar_addr r = a \<and> \<not> is_free r) (at_records t)"

definition at_record ::
  "allocation_table \<Rightarrow> u64 \<Rightarrow> u64 \<Rightarrow> u8 \<Rightarrow> u8 \<Rightarrow> allocation_table \<times> bool" where
  "at_record t addr sz tr owner =
     (case find_free_slot t of
        Some slot \<Rightarrow>
          (t\<lparr>at_records := (at_records t)[slot :=
               \<lparr>ar_addr = addr, ar_size = sz, ar_tier = tr, ar_owner = owner, ar_flags = 0\<rparr>],
             at_count := at_count t + 1\<rparr>, True)
      | None \<Rightarrow> (t, False))"

definition at_remove :: "allocation_table \<Rightarrow> u64 \<Rightarrow> allocation_table \<times> allocation_record option" where
  "at_remove t addr =
     (case find_by_addr t addr of
        Some slot \<Rightarrow>
          (t\<lparr>at_records := (at_records t)[slot := ar_empty], at_count := at_count t - 1\<rparr>,
           Some (at_records t ! slot))
      | None \<Rightarrow> (t, None))"

definition at_get :: "allocation_table \<Rightarrow> u64 \<Rightarrow> allocation_record option" where
  "at_get t addr = map_option ((!) (at_records t)) (find_by_addr t addr)"

text \<open>\<^verbatim>\<open>get_active_records\<close>, which \<^verbatim>\<open>iter_allocations\<close> walks.\<close>

definition get_active_records :: "allocation_table \<Rightarrow> (nat \<times> allocation_record) list" where
  "get_active_records t = filter (\<lambda>(_, r). \<not> is_free r) (enumerate 0 (at_records t))"

datatype alloc_result = Alloc_Success u64 | PermissionDenied | OutOfMemory | TableFull | InvalidTier
datatype free_result = Free_Success | NotFound | NotOwner

definition secure_alloc ::
  "pool_allocator \<Rightarrow> allocation_table \<Rightarrow> u8 \<Rightarrow> u64 \<Rightarrow> u8 \<Rightarrow> u8
     \<Rightarrow> pool_allocator \<times> allocation_table \<times> alloc_result" where
  "secure_alloc pa tbl tr sz task_tier task_id =
     (if tr > task_tier then (pa, tbl, PermissionDenied)
      else case tier_from_value tr of
             None \<Rightarrow> (pa, tbl, InvalidTier)
           | Some st \<Rightarrow>
               (case pa_allocate pa st sz of
                  (pa', Some addr) \<Rightarrow>
                    (case at_record tbl addr sz tr task_id of
                       (tbl', True) \<Rightarrow> (pa', tbl', Alloc_Success addr)
                     | (tbl', False) \<Rightarrow> (pa', tbl', TableFull))
                | (pa', None) \<Rightarrow> (pa', tbl, OutOfMemory)))"

definition secure_free :: "allocation_table \<Rightarrow> u64 \<Rightarrow> u8 \<Rightarrow> allocation_table \<times> free_result" where
  "secure_free tbl addr task_id =
     (case at_get tbl addr of
        Some r \<Rightarrow> (if ar_owner r \<noteq> task_id \<and> task_id \<noteq> 0 then (tbl, NotOwner)
                  else (fst (at_remove tbl addr), Free_Success))
      | None \<Rightarrow> (tbl, NotFound))"

text \<open>\<^verbatim>\<open>can_access\<close>, \<^verbatim>\<open>get_tier\<close>, \<^verbatim>\<open>tier_name\<close> of this module.\<close>

definition addr_can_access :: "allocation_table \<Rightarrow> u64 \<Rightarrow> u8 \<Rightarrow> bool" where
  "addr_can_access tbl addr task_tier =
     (case at_get tbl addr of Some r \<Rightarrow> ar_tier r \<le> task_tier | None \<Rightarrow> False)"

definition get_tier :: "allocation_table \<Rightarrow> u64 \<Rightarrow> u8 option" where
  "get_tier tbl addr = map_option ar_tier (at_get tbl addr)"

definition tier_value_name :: "u8 \<Rightarrow> string" where
  "tier_value_name v =
     (if v = 0 then ''Public'' else if v = 1 then ''Internal'' else if v = 2 then ''Sensitive''
      else if v = 3 then ''Secret'' else ''Unknown'')"

section \<open>The table as a slot table\<close>

abbreviation ar_live :: "allocation_record \<Rightarrow> bool" where
  "ar_live r \<equiv> \<not> is_free r"

interpretation alloc_slots: slot_table ar_live ar_addr ar_empty
  by unfold_locales (simp add: is_free_def ar_empty_def)

lemma at_get_slot: "at_get t a = slot_lookup ar_live ar_addr (at_records t) a"
proof -
  have "(\<lambda>r. ar_addr r = a \<and> ar_live r) = (\<lambda>r. ar_live r \<and> ar_addr r = a)" by auto
  then show ?thesis by (simp add: at_get_def find_by_addr_def alloc_slots.lookup_position)
qed

text \<open>
  The blocks of the table: the addresses of a record's block. The invariant ties the table to the
  pools: every live record's block consists of allocated frames of the pool of its tier, and no
  two records' blocks meet.
\<close>

definition block_of :: "allocation_record \<Rightarrow> nat set" where
  "block_of r = {unat (ar_addr r)..<unat (ar_addr r) + unat (ar_size r)}"

definition owned :: "pool_allocator \<Rightarrow> allocation_record \<Rightarrow> bool" where
  "owned pa r \<longleftrightarrow> (\<exists>t s n. ar_tier r = tier_value t \<and> unat (ar_size r) \<le> n * 4096 \<and> 0 < n
     \<and> unat (ar_addr r) = unat (mp_base (get_pool pa t)) + s * 4096
     \<and> s + n \<le> total_frames (mp_allocator (get_pool pa t))
     \<and> {s..<s + n} \<subseteq> allocated (mp_allocator (get_pool pa t)))"

definition sa_inv :: "pool_allocator \<Rightarrow> allocation_table \<Rightarrow> bool" where
  "sa_inv pa t \<longleftrightarrow> pa_inv pa \<and> length (at_records t) = MAX_ALLOCATIONS
     \<and> slot_uniq ar_live ar_addr (at_records t)
     \<and> at_count t = of_nat (live_count ar_live (at_records t))
     \<and> (\<forall>r \<in> set (at_records t). ar_live r \<longrightarrow> owned pa r)
     \<and> (\<forall>r \<in> set (at_records t). \<forall>q \<in> set (at_records t).
          ar_live r \<and> ar_live q \<and> r \<noteq> q \<longrightarrow> block_of r \<inter> block_of q = {})"

lemma sa_inv_new: "sa_inv pa_new at_new"
  by (simp add: sa_inv_def pa_inv_new at_new_def) (simp add: is_free_def ar_empty_def)

lemma owned_mono:
  assumes "owned pa r"
    and "\<And>t. mp_base (get_pool pa' t) = mp_base (get_pool pa t)"
    and "\<And>t. total_frames (mp_allocator (get_pool pa' t)) = total_frames (mp_allocator (get_pool pa t))"
    and "\<And>t. allocated (mp_allocator (get_pool pa t)) \<subseteq> allocated (mp_allocator (get_pool pa' t))"
  shows "owned pa' r"
  using assms(1) unfolding owned_def assms(2,3) using assms(4) by blast

text \<open>Frames that lie in a pool have their addresses in the pool's range.\<close>

lemma run_in_range:
  assumes "pa_inv pa" and "s + n \<le> total_frames (mp_allocator (get_pool pa t))"
  shows "{unat (mp_base (get_pool pa t)) + s * 4096..<unat (mp_base (get_pool pa t)) + (s + n) * 4096}
    \<subseteq> pool_range (get_pool pa_new t)"
proof -
  have "mp_inv (get_pool pa t)" using assms(1) by (simp add: pa_inv_def)
  with assms(2) have "(s + n) * 4096 \<le> unat (mp_size (get_pool pa t)) div 4096 * 4096"
    by (simp add: mp_inv_def)
  also have "\<dots> \<le> unat (mp_size (get_pool pa t))" by simp
  finally have "{unat (mp_base (get_pool pa t)) + s * 4096..<unat (mp_base (get_pool pa t)) + (s + n) * 4096}
      \<subseteq> pool_range (get_pool pa t)" by (auto simp: pool_range_def)
  then show ?thesis unfolding pa_inv_pool_range [OF assms(1)] .
qed

lemma owned_in_range:
  assumes "pa_inv pa" and "owned pa r"
  obtains t where "ar_tier r = tier_value t" "block_of r \<subseteq> pool_range (get_pool pa_new t)"
    "unat (ar_addr r) \<in> pool_range (get_pool pa_new t)"
proof -
  from assms(2) obtain t s n where o: "ar_tier r = tier_value t" "unat (ar_size r) \<le> n * 4096" "0 < n"
    "unat (ar_addr r) = unat (mp_base (get_pool pa t)) + s * 4096"
    "s + n \<le> total_frames (mp_allocator (get_pool pa t))" unfolding owned_def by blast
  from run_in_range [OF assms(1) o(5)]
  have R: "{unat (ar_addr r)..<unat (ar_addr r) + n * 4096} \<subseteq> pool_range (get_pool pa_new t)"
    by (simp add: o(4) add_mult_distrib add.assoc)
  moreover have "block_of r \<subseteq> {unat (ar_addr r)..<unat (ar_addr r) + n * 4096}"
    using o(2) by (auto simp: block_of_def)
  moreover have "unat (ar_addr r) \<in> {unat (ar_addr r)..<unat (ar_addr r) + n * 4096}"
    using o(3) by simp
  ultimately show thesis using that [OF o(1)] by blast
qed

lemma runs_disjoint:
  assumes "{s..<s + n} \<inter> {s'..<s' + n'} = ({} :: nat set)" and "0 < n" and "0 < n'"
    and "u \<le> n * 4096" and "u' \<le> n' * 4096"
  shows "{b + s * 4096..<b + s * 4096 + u} \<inter> {b + s' * 4096..<b + s' * 4096 + u'} = {}"
    and "b + s * 4096 \<noteq> b + s' * 4096"
proof -
  have "s + n \<le> s' \<or> s' + n' \<le> s"
  proof (rule ccontr)
    assume "\<not> (s + n \<le> s' \<or> s' + n' \<le> s)"
    then have "max s s' \<in> {s..<s + n} \<inter> {s'..<s' + n'}" using assms(2,3) by auto
    with assms(1) show False by blast
  qed
  then have "(s + n) * 4096 \<le> s' * 4096 \<or> (s' + n') * 4096 \<le> s * 4096"
    by (metis mult_le_mono1)
  then show "{b + s * 4096..<b + s * 4096 + u} \<inter> {b + s' * 4096..<b + s' * 4096 + u'} = {}"
    "b + s * 4096 \<noteq> b + s' * 4096"
    using assms(2-5) by auto
qed

lemma pa_allocate_Some:
  fixes tid :: u8
  assumes inv: "pa_inv pa" and al: "pa_allocate pa t sz = (pa', Some addr)"
  defines "r \<equiv> \<lparr>ar_addr = addr, ar_size = sz, ar_tier = tier_value t, ar_owner = tid, ar_flags = 0\<rparr>"
  shows "owned pa q \<Longrightarrow> owned pa' q" and "owned pa' r" and "addr \<noteq> 0"
    and "owned pa q \<Longrightarrow> ar_addr q \<noteq> addr \<and> block_of q \<inter> block_of r = {}"
proof -
  let ?p = "get_pool pa t"
  have pinv: "mp_inv ?p" using inv by (simp add: pa_inv_def)
  have m: "snd (mp_allocate ?p sz 4096) = Some addr" and g: "\<And>t'. get_pool pa' t' = (if t' = t then fst (mp_allocate ?p sz 4096) else get_pool pa t')"
    using al pa_allocate_eq [of pa t sz] by (metis fst_conv snd_conv)+
  from pinv obtain s n p' where b: "mp_allocate ?p sz 4096 = (p', Some addr)"
      "allocated (mp_allocator p') = allocated (mp_allocator ?p) \<union> {s..<s + n}"
      "{s..<s + n} \<inter> allocated (mp_allocator ?p) = {}" "0 < n" "s + n \<le> total_frames (mp_allocator ?p)"
      "unat addr = unat (mp_base ?p) + s * 4096" "unat sz \<le> n * 4096" "mp_inv p'"
      "mp_base p' = mp_base ?p" "mp_size p' = mp_size ?p"
    by (rule mp_allocate_cases [where sz = sz]) (use m in auto)
  have tot: "total_frames (mp_allocator p') = total_frames (mp_allocator ?p)"
    using pinv b(8,10) by (simp add: mp_inv_def)
  show mono: "owned pa q \<Longrightarrow> owned pa' q" for q
    by (erule owned_mono) (auto simp: g b(1,2,9) tot)
  show "owned pa' r"
    unfolding owned_def by (intro exI [of _ t] exI [of _ s] exI [of _ n]) (auto simp: g b r_def tot)
  have "0 < unat addr" using b(6) pinv by (simp add: mp_inv_def)
  then show "addr \<noteq> 0" by auto
  assume q: "owned pa q"
  then obtain t' s' n' where o: "ar_tier q = tier_value t'" "unat (ar_size q) \<le> n' * 4096" "0 < n'"
    "unat (ar_addr q) = unat (mp_base (get_pool pa t')) + s' * 4096"
    "{s'..<s' + n'} \<subseteq> allocated (mp_allocator (get_pool pa t'))" unfolding owned_def by blast
  show "ar_addr q \<noteq> addr \<and> block_of q \<inter> block_of r = {}"
  proof (cases "t' = t")
    case True
    then have "{s'..<s' + n'} \<inter> {s..<s + n} = {}" using o(5) b(3) by blast
    from runs_disjoint [OF this o(3) b(4) o(2) b(7), of "unat (mp_base ?p)"] True o(4) b(6)
    show ?thesis by (auto simp: block_of_def r_def)
  next
    case False
    obtain t1 where 1: "ar_tier q = tier_value t1" "block_of q \<subseteq> pool_range (get_pool pa_new t1)"
      "unat (ar_addr q) \<in> pool_range (get_pool pa_new t1)" using owned_in_range [OF inv q] .
    have pinv': "pa_inv pa'" using pa_inv_allocate [OF inv, of t sz] al by simp
    obtain t2 where 2: "ar_tier r = tier_value t2" "block_of r \<subseteq> pool_range (get_pool pa_new t2)"
      "unat (ar_addr r) \<in> pool_range (get_pool pa_new t2)"
      using owned_in_range [OF pinv' \<open>owned pa' r\<close>] .
    from 1(1) 2(1) o(1) False have "t1 \<noteq> t2" by (simp add: r_def)
    from pool_ranges_disjoint [OF this] 1 2 show ?thesis by (auto simp: r_def)
  qed
qed

lemma pa_allocate_None:
  assumes "pa_inv pa" and "pa_allocate pa t sz = (pa', None)"
  shows "owned pa q \<Longrightarrow> owned pa' q"
proof -
  have "mp_inv (get_pool pa t)" using assms(1) by (simp add: pa_inv_def)
  then have "fst (mp_allocate (get_pool pa t) sz 4096) = get_pool pa t"
    using assms(2) pa_allocate_eq(1) [of pa t sz] by (cases rule: mp_allocate_cases [where sz = sz]) auto
  then have "get_pool pa' t' = get_pool pa t'" for t'
    using assms(2) pa_allocate_eq(2) [of pa t sz t'] by auto
  then show "owned pa q \<Longrightarrow> owned pa' q" by (simp add: owned_def)
qed

section \<open>Allocation and release keep the table consistent\<close>

lemma sa_inv_put:
  assumes inv: "sa_inv pa tbl" and pinv: "pa_inv pa'"
    and mono: "\<And>q. owned pa q \<Longrightarrow> owned pa' q" and r: "owned pa' r" "ar_live r"
    and i: "i < length (at_records tbl)" "is_free (at_records tbl ! i)"
    and new: "\<And>q. owned pa q \<Longrightarrow> ar_addr q \<noteq> ar_addr r \<and> block_of q \<inter> block_of r = {}"
  shows "sa_inv pa' (tbl\<lparr>at_records := (at_records tbl)[i := r], at_count := at_count tbl + 1\<rparr>)"
proof -
  let ?rs = "at_records tbl"
  have own: "\<forall>q \<in> set ?rs. ar_live q \<longrightarrow> owned pa q" and u: "slot_uniq ar_live ar_addr ?rs"
    and c: "at_count tbl = of_nat (live_count ar_live ?rs)" and l: "length ?rs = MAX_ALLOCATIONS"
    and d: "\<forall>x \<in> set ?rs. \<forall>q \<in> set ?rs. ar_live x \<and> ar_live q \<and> x \<noteq> q \<longrightarrow> block_of x \<inter> block_of q = {}"
    using inv by (simp_all add: sa_inv_def)
  have sub: "set (?rs[i := r]) \<subseteq> insert r (set ?rs)" by (rule set_update_subset_insert)
  have "slot_uniq ar_live ar_addr (?rs[i := r])"
    by (rule alloc_slots.uniq_put [OF u i(1)]) (use own new in \<open>metis nth_mem\<close>)
  moreover have "live_count ar_live (?rs[i := r]) = Suc (live_count ar_live ?rs)"
    using i r by (intro alloc_slots.live_count_put_free) simp_all
  moreover have "\<forall>q \<in> set (?rs[i := r]). ar_live q \<longrightarrow> owned pa' q"
    using sub own mono r by blast
  moreover have "block_of x \<inter> block_of q = {}"
    if "x \<in> set (?rs[i := r])" "q \<in> set (?rs[i := r])" "ar_live x" "ar_live q" "x \<noteq> q" for x q
    using that sub d own new by (metis Int_commute in_mono insert_iff)
  ultimately show ?thesis
    using pinv c l by (simp add: sa_inv_def)
qed

lemma sa_inv_pools:
  "sa_inv pa tbl \<Longrightarrow> pa_inv pa' \<Longrightarrow> (\<And>q. owned pa q \<Longrightarrow> owned pa' q) \<Longrightarrow> sa_inv pa' tbl"
  by (simp add: sa_inv_def)

lemma secure_alloc_cases:
  assumes inv: "sa_inv pa tbl"
  obtains (refused) res where "secure_alloc pa tbl tr sz tt tid = (pa, tbl, res)"
        "res = (if tt < tr then PermissionDenied else InvalidTier)" "tt < tr \<or> 3 < tr"
    | (oom) pa' t where "secure_alloc pa tbl tr sz tt tid = (pa', tbl, OutOfMemory)" "tr \<le> tt"
        "tr = tier_value t" "pa_allocate pa t sz = (pa', None)" "sa_inv pa' tbl"
    | (full) pa' t addr where "secure_alloc pa tbl tr sz tt tid = (pa', tbl, TableFull)" "tr \<le> tt"
        "tr = tier_value t" "pa_allocate pa t sz = (pa', Some addr)" "\<forall>r \<in> set (at_records tbl). ar_live r"
        "sa_inv pa' tbl"
    | (success) pa' i r t where "secure_alloc pa tbl tr sz tt tid
          = (pa', tbl\<lparr>at_records := (at_records tbl)[i := r], at_count := at_count tbl + 1\<rparr>, Alloc_Success (ar_addr r))"
        "tr \<le> tt" "tr = tier_value t" "i < length (at_records tbl)" "is_free (at_records tbl ! i)"
        "ar_live r" "owned pa' r" "pa_inv pa'"
        "\<forall>q. owned pa q \<longrightarrow> owned pa' q \<and> ar_addr q \<noteq> ar_addr r \<and> block_of q \<inter> block_of r = {}"
        "ar_size r = sz" "ar_tier r = tr" "ar_owner r = tid"
proof (cases "tt < tr \<or> tier_from_value tr = None")
  case True
  then have "secure_alloc pa tbl tr sz tt tid = (pa, tbl, if tt < tr then PermissionDenied else InvalidTier)"
    by (auto simp: secure_alloc_def)
  then show thesis using True refused by (auto simp: tier_from_value_None_iff)
next
  case False
  then obtain t where t: "tier_from_value tr = Some t" and le: "tr \<le> tt" by auto
  have tr: "tr = tier_value t" using tier_value_from_value [OF t] by simp
  have pinv: "pa_inv pa" using inv by (simp add: sa_inv_def)
  obtain pa' x where al: "pa_allocate pa t sz = (pa', x)" by (cases "pa_allocate pa t sz")
  have pinv': "pa_inv pa'" using pa_inv_allocate [OF pinv, of t sz] al by simp
  show thesis
  proof (cases x)
    case None
    have "sa_inv pa' tbl"
      by (rule sa_inv_pools [OF inv pinv']) (rule pa_allocate_None [OF pinv al [unfolded None]])
    with None show thesis using oom [of pa' t] le t tr al by (simp add: secure_alloc_def)
  next
    case (Some addr)
    note A = pa_allocate_Some [OF pinv al [unfolded Some]]
    show thesis
    proof (cases "find_free_slot tbl")
      case None
      have "sa_inv pa' tbl" by (rule sa_inv_pools [OF inv pinv']) (rule A(1))
      moreover have "at_record tbl addr sz tr tid = (tbl, False)" using None by (simp add: at_record_def)
      moreover have "\<forall>r \<in> set (at_records tbl). ar_live r"
        using None by (simp add: find_free_slot_def position_None_iff)
      ultimately show thesis
        using Some full [of pa' t addr] le t tr al by (simp add: secure_alloc_def)
    next
      case slot: (Some i)
      then have "i < length (at_records tbl)" "is_free (at_records tbl ! i)"
        using position_SomeD by (fastforce simp: find_free_slot_def)+
      then show thesis
        using success [of pa' i "\<lparr>ar_addr = addr, ar_size = sz, ar_tier = tr, ar_owner = tid, ar_flags = 0\<rparr>" t]
          slot Some le t tr al A pinv'
        by (simp add: secure_alloc_def at_record_def is_free_def)
    qed
  qed
qed

lemma sa_inv_secure_alloc:
  assumes "sa_inv pa tbl"
  shows "sa_inv (fst (secure_alloc pa tbl tr sz tt tid)) (fst (snd (secure_alloc pa tbl tr sz tt tid)))"
  using assms
proof (cases rule: secure_alloc_cases [where tr = tr and sz = sz and tt = tt and tid = tid])
  case (success pa' i r t)
  then show ?thesis using sa_inv_put [OF assms, of pa' r i] by simp
qed (use assms in simp_all)

lemma at_remove_effect:
  assumes inv: "sa_inv pa tbl" and g: "at_get tbl a = Some r"
  shows "sa_inv pa (fst (at_remove tbl a))" and "snd (at_remove tbl a) = Some r"
    and "at_get (fst (at_remove tbl a)) b = (if b = a then None else at_get tbl b)"
proof -
  let ?rs = "at_records tbl"
  from g obtain i where i: "find_by_addr tbl a = Some i" "?rs ! i = r"
    by (auto simp: at_get_def)
  then have s: "i < length ?rs" "ar_live (?rs ! i)" "ar_addr (?rs ! i) = a"
    using position_SomeD by (fastforce simp: find_by_addr_def)+
  have f: "\<not> ar_live ar_empty" by (simp add: is_free_def ar_empty_def)
  have u: "slot_uniq ar_live ar_addr ?rs" using inv by (simp add: sa_inv_def)
  have sub: "set (?rs[i := ar_empty]) \<subseteq> insert ar_empty (set ?rs)" by (rule set_update_subset_insert)
  have "Suc (live_count ar_live (?rs[i := ar_empty])) = live_count ar_live ?rs"
    using s f by (intro alloc_slots.live_count_clear) simp_all
  then have cnt: "at_count tbl - 1 = of_nat (live_count ar_live (?rs[i := ar_empty]))"
    using inv by (simp add: sa_inv_def flip: \<open>Suc _ = _\<close>)
  have "\<forall>q \<in> set (?rs[i := ar_empty]). ar_live q \<longrightarrow> owned pa q"
    and "\<forall>x \<in> set (?rs[i := ar_empty]). \<forall>q \<in> set (?rs[i := ar_empty]).
        ar_live x \<and> ar_live q \<and> x \<noteq> q \<longrightarrow> block_of x \<inter> block_of q = {}"
    using inv sub f unfolding sa_inv_def by blast+
  then show "sa_inv pa (fst (at_remove tbl a))"
    using inv i cnt alloc_slots.uniq_clear [OF u f] by (simp add: sa_inv_def at_remove_def)
  show "snd (at_remove tbl a) = Some r" using i by (simp add: at_remove_def)
  show "at_get (fst (at_remove tbl a)) b = (if b = a then None else at_get tbl b)"
    using alloc_slots.lookup_clear [OF u s(1,2) f, of b] i s(3) by (simp add: at_get_slot at_remove_def)
qed

section \<open>Properties\<close>

text \<open>
  (C32) No task obtains memory above its tier. When \<^verbatim>\<open>secure_alloc\<close> succeeds, the requested tier is at
  most the task's tier, the block lies in the address range of that tier's pool (which is disjoint
  from the ranges of all other tiers), and it overlaps no block recorded in the table; the record
  makes exactly the tasks of that tier or above able to access the block, and only its owner or the
  kernel can free it. A request above the task's tier is refused and changes nothing.
\<close>

theorem secure_alloc_enforces_tier:
  assumes inv: "sa_inv pa tbl"
    and al: "secure_alloc pa tbl tr sz tt tid = (pa', tbl', res)"
  shows "(tt < tr \<longrightarrow> (pa', tbl', res) = (pa, tbl, PermissionDenied))
    \<and> (\<forall>addr. res = Alloc_Success addr \<longrightarrow> tr \<le> tt \<and>
        (\<exists>t. tr = tier_value t
          \<and> {unat addr..<unat addr + unat sz} \<subseteq> pool_range (get_pool pa_new t)
          \<and> (\<forall>t'. t' \<noteq> t \<longrightarrow> {unat addr..<unat addr + unat sz} \<inter> pool_range (get_pool pa_new t') = {}))
        \<and> (\<forall>r \<in> set (at_records tbl). ar_live r \<longrightarrow> {unat addr..<unat addr + unat sz} \<inter> block_of r = {})
        \<and> (\<forall>x. addr_can_access tbl' addr x = (tr \<le> x))
        \<and> (\<forall>q. snd (secure_free tbl' addr q) = (if q = tid \<or> q = 0 then Free_Success else NotOwner)))
    \<and> sa_inv pa' tbl'"
  using inv
proof (cases rule: secure_alloc_cases [where tr = tr and sz = sz and tt = tt and tid = tid])
  case (success pb i r t)
  have u: "slot_uniq ar_live ar_addr (at_records tbl)"
    and own: "\<forall>q \<in> set (at_records tbl). ar_live q \<longrightarrow> owned pa q" using inv by (simp_all add: sa_inv_def)
  have eq: "pa' = pb" "res = Alloc_Success (ar_addr r)"
    "tbl' = tbl\<lparr>at_records := (at_records tbl)[i := r], at_count := at_count tbl + 1\<rparr>"
    using al success(1) by simp_all
  have blk: "{unat (ar_addr r)..<unat (ar_addr r) + unat sz} = block_of r"
    using success(10) by (simp add: block_of_def)
  have "slot_lookup ar_live ar_addr ((at_records tbl)[i := r]) (ar_addr r) = Some r"
    using alloc_slots.lookup_put [OF u success(4,6), of "ar_addr r"] success(5,9) own by (metis nth_mem)
  then have g: "at_get tbl' (ar_addr r) = Some r" by (simp add: at_get_slot eq)
  obtain t2 where t2: "ar_tier r = tier_value t2" "block_of r \<subseteq> pool_range (get_pool pa_new t2)"
    using owned_in_range [OF success(8,7)] .
  then have "t2 = t" using success(3,11) by simp
  with t2 have "block_of r \<subseteq> pool_range (get_pool pa_new t)" by simp
  moreover from this have "t' \<noteq> t \<Longrightarrow> block_of r \<inter> pool_range (get_pool pa_new t') = {}" for t'
    using pool_ranges_disjoint [of t t'] by blast
  moreover have "\<forall>q \<in> set (at_records tbl). ar_live q \<longrightarrow> block_of r \<inter> block_of q = {}"
    using own success(9) by blast
  moreover have "sa_inv pa' tbl'"
    using sa_inv_secure_alloc [OF inv, of tr sz tt tid] al by simp
  ultimately show ?thesis
    using success(2,3,11,12) g eq(2) unfolding blk
    by (auto simp: blk addr_can_access_def secure_free_def)
qed (use al inv in \<open>auto split: if_splits\<close>)

theorem secure_alloc_enforces_tier_witness:
  "sa_inv pa_new at_new
   \<and> snd (snd (secure_alloc pa_new at_new 2 100 2 7)) = Alloc_Success 0x42002000
   \<and> addr_can_access (fst (snd (secure_alloc pa_new at_new 2 100 2 7))) 0x42002000 2
   \<and> \<not> addr_can_access (fst (snd (secure_alloc pa_new at_new 2 100 2 7))) 0x42002000 1
   \<and> snd (secure_free (fst (snd (secure_alloc pa_new at_new 2 100 2 7))) 0x42002000 9) = NotOwner"
proof -
  have r: "snd (snd (secure_alloc pa_new at_new 2 100 2 7)) = Alloc_Success 0x42002000" by code_simp
  obtain pa' tbl' where e: "secure_alloc pa_new at_new 2 100 2 7 = (pa', tbl', Alloc_Success 0x42002000)"
    using r by (metis prod.collapse)
  from secure_alloc_enforces_tier [OF sa_inv_new e]
  have "\<forall>x. addr_can_access tbl' 0x42002000 x = (2 \<le> x)"
    and "\<forall>q. snd (secure_free tbl' 0x42002000 q) = (if q = 7 \<or> q = 0 then Free_Success else NotOwner)"
    by simp_all
  then show ?thesis using sa_inv_new r e by (simp add: word_le_nat_alt)
qed

text \<open>
  \<^verbatim>\<open>secure_free\<close> is refused to everyone but the owner and task 0, and when it succeeds the address
  is no longer accessible to anyone, while every other allocation is as before; the consistency of
  the table with the pools is kept.
\<close>

theorem secure_free_correct:
  assumes "sa_inv pa tbl"
  shows "(snd (secure_free tbl addr q) = NotFound) = (at_get tbl addr = None)
    \<and> (snd (secure_free tbl addr q) = Free_Success)
        = (\<exists>r. at_get tbl addr = Some r \<and> (ar_owner r = q \<or> q = 0))
    \<and> (snd (secure_free tbl addr q) \<noteq> Free_Success \<longrightarrow> fst (secure_free tbl addr q) = tbl)
    \<and> (snd (secure_free tbl addr q) = Free_Success \<longrightarrow>
        (\<forall>x. \<not> addr_can_access (fst (secure_free tbl addr q)) addr x)
        \<and> (\<forall>b. b \<noteq> addr \<longrightarrow> at_get (fst (secure_free tbl addr q)) b = at_get tbl b))
    \<and> sa_inv pa (fst (secure_free tbl addr q))"
proof (cases "at_get tbl addr")
  case None
  then show ?thesis using assms by (simp add: secure_free_def)
next
  case (Some r)
  note R = at_remove_effect [OF assms Some]
  then have "at_get (fst (at_remove tbl addr)) addr = None" by simp
  with R Some assms show ?thesis by (auto simp: secure_free_def addr_can_access_def)
qed

theorem secure_free_correct_witness:
  "let tbl = fst (snd (secure_alloc pa_new at_new 0 100 3 7))
   in sa_inv (fst (secure_alloc pa_new at_new 0 100 3 7)) tbl
      \<and> snd (secure_free tbl 0x42000000 7) = Free_Success
      \<and> \<not> addr_can_access (fst (secure_free tbl 0x42000000 7)) 0x42000000 3"
proof -
  let ?tbl = "fst (snd (secure_alloc pa_new at_new 0 100 3 7))"
  have i: "sa_inv (fst (secure_alloc pa_new at_new 0 100 3 7)) ?tbl"
    by (rule sa_inv_secure_alloc [OF sa_inv_new])
  have r: "snd (secure_free ?tbl 0x42000000 7) = Free_Success" by code_simp
  show ?thesis unfolding Let_def
    using secure_free_correct [OF i, of "0x42000000" 7] i r by blast
qed

end
