(* ===== verification/Suid.thy ===== *)
theory Suid
  imports Prelude
begin

text \<open>
  Semantic unique identifiers: \<^verbatim>\<open>src/kernel-core/src/semantic/suid.rs\<close>. An identifier
  is two 64-bit halves; the top byte of \<^verbatim>\<open>high\<close> carries a version nibble and a type
  nibble that tell how the identifier was made. The theory shows the byte round trip, and that
  identifiers made in different ways never collide.
\<close>

section \<open>Definitions\<close>

record suid =
  high :: u64
  low :: u64

definition suid_new :: "u64 \<Rightarrow> u64 \<Rightarrow> suid" where
  "suid_new h l = \<lparr>high = h, low = l\<rparr>"

definition VERSION_1 :: u8 where "VERSION_1 = 1"
definition TYPE_CONTENT :: u8 where "TYPE_CONTENT = 0"
definition TYPE_RANDOM :: u8 where "TYPE_RANDOM = 1"
definition TYPE_DERIVED :: u8 where "TYPE_DERIVED = 2"
definition TYPE_SYSTEM :: u8 where "TYPE_SYSTEM = 15"

definition suid_NULL :: suid where "suid_NULL = suid_new 0 0"

text \<open>The two masking lines every generator ends with.\<close>

definition stamp :: "u64 \<Rightarrow> u8 \<Rightarrow> u64" where
  "stamp h ty =
     (let h1 = (h AND 0x0FFFFFFFFFFFFFFF) OR push_bit 60 (ucast VERSION_1)
      in (h1 AND 0xF0FFFFFFFFFFFFFF) OR push_bit 56 (ucast ty))"

text \<open>The argument is a \<^verbatim>\<open>[u8; 32]\<close>.\<close>

definition from_content_hash :: "u8 list \<Rightarrow> suid" where
  "from_content_hash hash =
     \<lparr>high = stamp (of_be_bytes (slice 0 8 hash)) TYPE_CONTENT,
      low = of_be_bytes (slice 8 8 hash)\<rparr>"

definition suid_random :: "u64 \<Rightarrow> suid" where
  "suid_random seed =
     (let a = 6364136223846793005;
          c = 1442695040888963407;
          r1 = seed * a + c;
          r2 = r1 * a + c
      in \<lparr>high = stamp r1 TYPE_RANDOM, low = r2\<rparr>)"

definition suid_derive :: "suid \<Rightarrow> u64 \<Rightarrow> suid" where
  "suid_derive parent relationship =
     (let mixed_high = high parent XOR relationship;
          mixed_low = low parent XOR word_rotl 32 relationship;
          h = mixed_high * 0x9E3779B97F4A7C15;
          l = mixed_low * 0xBF58476D1CE4E5B9
      in \<lparr>high = stamp (h XOR word_rotr 17 l) TYPE_DERIVED, low = l\<rparr>)"

definition suid_system :: "u64 \<Rightarrow> suid" where
  "suid_system i =
     \<lparr>high = push_bit 60 (ucast VERSION_1) OR push_bit 56 (ucast TYPE_SYSTEM), low = i\<rparr>"

definition is_null :: "suid \<Rightarrow> bool" where
  "is_null s \<longleftrightarrow> high s = 0 \<and> low s = 0"

definition version :: "suid \<Rightarrow> u8" where
  "version s = ucast (drop_bit 60 (high s) AND 0xF)"

definition suid_type :: "suid \<Rightarrow> u8" where
  "suid_type s = ucast (drop_bit 56 (high s) AND 0xF)"

definition suid_to_bytes :: "suid \<Rightarrow> u8 list" where
  "suid_to_bytes s = be_bytes 8 (high s) @ be_bytes 8 (low s)"

text \<open>The argument is a \<^verbatim>\<open>[u8; 16]\<close>.\<close>

definition suid_from_bytes :: "u8 list \<Rightarrow> suid" where
  "suid_from_bytes bs = \<lparr>high = of_be_bytes (slice 0 8 bs), low = of_be_bytes (slice 8 8 bs)\<rparr>"

definition ROOT :: suid where "ROOT = suid_system 0"
definition KERNEL_CONFIG :: suid where "KERNEL_CONFIG = suid_system 1"
definition SECURITY_POLICY :: suid where "SECURITY_POLICY = suid_system 2"
definition PROCESS_TABLE :: suid where "PROCESS_TABLE = suid_system 3"
definition MEMORY_MAP :: suid where "MEMORY_MAP = suid_system 4"

record suid_generator =
  gen_counter :: u64
  gen_seed :: u64

definition suid_generator_new :: "u64 \<Rightarrow> suid_generator" where
  "suid_generator_new initial_seed = \<lparr>gen_counter = 0, gen_seed = initial_seed\<rparr>"

definition next_random :: "suid_generator \<Rightarrow> suid_generator \<times> suid" where
  "next_random g =
     (let s = gen_seed g * 6364136223846793005 + 1
      in (g\<lparr>gen_seed := s\<rparr>, suid_random s))"

text \<open>\<^verbatim>\<open>self.counter += 1\<close> wraps in the release profile the kernel is built with.\<close>

definition next_system :: "suid_generator \<Rightarrow> suid_generator \<times> suid" where
  "next_system g =
     (let c = gen_counter g + 1
      in (g\<lparr>gen_counter := c\<rparr>, suid_system c))"

section \<open>Bytes\<close>

lemma length_suid_to_bytes [simp]: "length (suid_to_bytes s) = 16"
  by (simp add: suid_to_bytes_def)

lemma suid_from_to_bytes [simp]: "suid_from_bytes (suid_to_bytes s) = s"
  by (simp add: suid_from_bytes_def suid_to_bytes_def slice_def)

lemma suid_to_from_bytes: "length bs = 16 \<Longrightarrow> suid_to_bytes (suid_from_bytes bs) = bs"
  by (simp add: suid_from_bytes_def suid_to_bytes_def be_bytes_of_be slice_def)

interpretation suid_codec: byte_codec suid_to_bytes "\<lambda>bs. Some (suid_from_bytes bs)" "\<lambda>_. True"
  by unfold_locales simp

section \<open>Version and type nibbles\<close>

lemma stamp_version: "drop_bit 60 (stamp h ty) = 1" if "ty \<le> 15"
proof -
  have "drop_bit 4 (ty :: u8) = 0"
  proof -
    from that have "unat ty \<le> 15" by unat_arith
    then show ?thesis by (simp add: drop_bit_eq_div word_unat_eq_iff unat_div)
  qed
  moreover have "drop_bit 60 (push_bit 56 (ucast ty :: u64)) = ucast (drop_bit 4 ty)"
    by (intro bit_word_eqI) (auto simp: bit_simps ac_simps dest: bit_imp_le_length)
  ultimately show ?thesis
    by (simp add: stamp_def VERSION_1_def drop_bit_and drop_bit_or push_bit_eq_mult)
qed

lemma stamp_type: "drop_bit 56 (stamp h ty) AND 15 = ucast (ty AND 15)"
proof -
  have "drop_bit 56 (push_bit 56 (ucast ty :: u64)) = ucast ty"
    by (intro bit_word_eqI) (auto simp: bit_simps dest: bit_imp_le_length)
  moreover have "ucast (ty AND 15) = (ucast ty AND 15 :: u64)"
    by (simp add: unsigned_and_eq)
  ultimately show ?thesis
    by (simp add: stamp_def VERSION_1_def drop_bit_and drop_bit_or push_bit_eq_mult
        bit.conj_disj_distrib2 and.assoc)
qed

lemma version_stamp: "ty \<le> 15 \<Longrightarrow> version \<lparr>high = stamp h ty, low = l\<rparr> = VERSION_1"
  by (simp add: version_def stamp_version VERSION_1_def)

lemma suid_type_stamp: "suid_type \<lparr>high = stamp h ty, low = l\<rparr> = ty AND 15"
proof -
  have "ucast (ucast (ty AND 15) :: u64) = ty AND 15"
    by (intro bit_word_eqI) (auto simp: bit_simps dest: bit_imp_le_length)
  then show ?thesis by (simp add: suid_type_def stamp_type)
qed

lemma suid_type_values:
  "suid_type (from_content_hash h) = TYPE_CONTENT"
  "suid_type (suid_random s) = TYPE_RANDOM"
  "suid_type (suid_derive p r) = TYPE_DERIVED"
  "suid_type (suid_system i) = TYPE_SYSTEM"
  by (simp_all add: from_content_hash_def suid_random_def suid_derive_def suid_type_stamp Let_def
      TYPE_CONTENT_def TYPE_RANDOM_def TYPE_DERIVED_def)
    (simp add: suid_system_def suid_type_def VERSION_1_def TYPE_SYSTEM_def push_bit_eq_mult)

lemma version_values:
  "version (from_content_hash h) = VERSION_1"
  "version (suid_random s) = VERSION_1"
  "version (suid_derive p r) = VERSION_1"
  "version (suid_system i) = VERSION_1"
  by (simp_all add: from_content_hash_def suid_random_def suid_derive_def version_stamp Let_def
      TYPE_CONTENT_def TYPE_RANDOM_def TYPE_DERIVED_def)
    (simp add: suid_system_def version_def VERSION_1_def TYPE_SYSTEM_def push_bit_eq_mult)

lemma version_null: "version suid_NULL = 0"
  by (simp add: version_def suid_NULL_def suid_new_def)

lemma is_null_iff: "is_null s \<longleftrightarrow> s = suid_NULL"
  by (cases s) (simp add: is_null_def suid_NULL_def suid_new_def)

lemma generated_not_null:
  "\<not> is_null (from_content_hash h)" "\<not> is_null (suid_random s)"
  "\<not> is_null (suid_derive p r)" "\<not> is_null (suid_system i)"
  using version_values version_null by (auto simp: is_null_iff VERSION_1_def) (metis zero_neq_one)+

lemma suid_system_inj: "suid_system i = suid_system j \<longleftrightarrow> i = j"
  by (auto simp: suid_system_def)

section \<open>Properties\<close>

text \<open>
  Identifiers survive storage: writing an identifier as 16 bytes and reading it back gives it
  back, and every 16 bytes are the encoding of the identifier read from them.
\<close>

theorem suid_bytes_round_trip:
  "suid_from_bytes (suid_to_bytes s) = s
   \<and> (length bs = 16 \<longrightarrow> suid_to_bytes (suid_from_bytes bs) = bs)"
  using suid_to_from_bytes by simp

theorem suid_bytes_round_trip_witness:
  "length (replicate 16 (0xAB :: u8)) = 16
   \<and> suid_to_bytes (suid_from_bytes (replicate 16 0xAB)) = replicate 16 0xAB"
  using suid_bytes_round_trip [of suid_NULL "replicate 16 0xAB"] by simp

text \<open>
  (C40) Identifiers made in different ways never collide: content-addressed, random, derived and
  system identifiers are pairwise different whatever they are made from, none is the null
  identifier, and system identifiers are different for different numbers.
\<close>

theorem suid_kinds_disjoint:
  "from_content_hash h \<noteq> suid_random s \<and> from_content_hash h \<noteq> suid_derive p r
   \<and> from_content_hash h \<noteq> suid_system i \<and> suid_random s \<noteq> suid_derive p r
   \<and> suid_random s \<noteq> suid_system i \<and> suid_derive p r \<noteq> suid_system i
   \<and> \<not> is_null (from_content_hash h) \<and> \<not> is_null (suid_random s)
   \<and> \<not> is_null (suid_derive p r) \<and> \<not> is_null (suid_system i)
   \<and> (suid_system i = suid_system j) = (i = j)"
proof -
  have t: "suid_type a \<noteq> suid_type b \<Longrightarrow> a \<noteq> b" for a b by auto
  have d: "TYPE_CONTENT \<noteq> TYPE_RANDOM" "TYPE_CONTENT \<noteq> TYPE_DERIVED" "TYPE_CONTENT \<noteq> TYPE_SYSTEM"
    "TYPE_RANDOM \<noteq> TYPE_DERIVED" "TYPE_RANDOM \<noteq> TYPE_SYSTEM" "TYPE_DERIVED \<noteq> TYPE_SYSTEM"
    by (simp_all add: TYPE_CONTENT_def TYPE_RANDOM_def TYPE_DERIVED_def TYPE_SYSTEM_def)
  show ?thesis
    using d generated_not_null suid_system_inj suid_type_values
    by (metis t)
qed

end
