(* ===== verification/Paths.thy ===== *)
theory Paths
  imports Suid
begin

text \<open>
  Path parsing and the packed directory format of \<^verbatim>\<open>src/kernel-core/src/fs/paths.rs\<close>. A path is
  the byte list of a Rust string. The theory relates the byte-level directory routines to a list of
  (name, identifier) pairs: what was encoded is parsed back, insertion appends, removal deletes, and
  every malformed buffer is rejected without reading out of bounds.
\<close>

section \<open>Constants and errors\<close>

definition MAX_COMPONENT_LEN :: nat where "MAX_COMPONENT_LEN = 31"
definition MAX_PATH_LEN :: nat where "MAX_PATH_LEN = 256"
definition MAX_PATH_DEPTH :: nat where "MAX_PATH_DEPTH = 32"
definition MAX_DIR_ENTRIES :: nat where "MAX_DIR_ENTRIES = 64"
definition DIR_CONTENT_MAX :: nat where "DIR_CONTENT_MAX = 4096"

definition ROOT_SUID :: suid where
  "ROOT_SUID = suid_new 0xF000000000000001 0xF005F11E5300BA5E"

datatype fs_error =
    NotAbsolute | EmptyComponent | ComponentTooLong | PathTooLong | TooDeep | NotFound
  | NotADirectory | IsADirectory | AlreadyExists | DirectoryFull | RegistryFull
  | ContentTooLarge | Corrupt | IoError

section \<open>UTF-8\<close>

text \<open>
  \<^verbatim>\<open>core::str::from_utf8\<close> accepts exactly the well-formed sequences: no overlong forms, no
  surrogates, nothing above U+10FFFF.
\<close>

definition cont :: "u8 \<Rightarrow> bool" where
  "cont b = (0x80 \<le> b \<and> b \<le> 0xBF)"

text \<open>The length of the sequence at the start of a byte list, 0 when it is ill-formed.\<close>

definition utf8_char :: "u8 list \<Rightarrow> nat" where
  "utf8_char xs =
     (case xs of
        [] \<Rightarrow> 0
      | a # bs \<Rightarrow>
          if a < 0x80 then 1
          else case bs of
                 [] \<Rightarrow> 0
               | b # cs \<Rightarrow>
                   if 0xC2 \<le> a \<and> a \<le> 0xDF then (if cont b then 2 else 0)
                   else case cs of
                          [] \<Rightarrow> 0
                        | c # ds \<Rightarrow>
                            if a = 0xE0 then (if 0xA0 \<le> b \<and> b \<le> 0xBF \<and> cont c then 3 else 0)
                            else if a = 0xED then (if 0x80 \<le> b \<and> b \<le> 0x9F \<and> cont c then 3 else 0)
                            else if 0xE1 \<le> a \<and> a \<le> 0xEF then (if cont b \<and> cont c then 3 else 0)
                            else case ds of
                                   [] \<Rightarrow> 0
                                 | d # es \<Rightarrow>
                                     if a = 0xF0 then (if 0x90 \<le> b \<and> b \<le> 0xBF \<and> cont c \<and> cont d then 4 else 0)
                                     else if 0xF1 \<le> a \<and> a \<le> 0xF3 then (if cont b \<and> cont c \<and> cont d then 4 else 0)
                                     else if a = 0xF4 then (if 0x80 \<le> b \<and> b \<le> 0x8F \<and> cont c \<and> cont d then 4 else 0)
                                     else 0)"

function utf8_valid :: "u8 list \<Rightarrow> bool" where
  "utf8_valid xs =
     (if xs = [] then True else if utf8_char xs = 0 then False else utf8_valid (drop (utf8_char xs) xs))"
  by pat_completeness auto
termination
  by (relation "measure length") auto

declare utf8_valid.simps [simp del]

section \<open>Path parsing\<close>

abbreviation SLASH :: u8 where "SLASH \<equiv> 0x2F"

text \<open>\<^verbatim>\<open>str::split('/')\<close>: the pieces between slashes, empty ones included.\<close>

fun split_slash :: "u8 list \<Rightarrow> u8 list list" where
  "split_slash [] = [[]]"
| "split_slash (b # bs) =
     (if b = SLASH then [] # split_slash bs
      else case split_slash bs of [] \<Rightarrow> [[b]] | c # cs \<Rightarrow> (b # c) # cs)"

text \<open>The loop of \<^verbatim>\<open>for_each_component\<close>; the visitor threads a state and may stop with an error.\<close>

fun visit_components ::
  "('s \<Rightarrow> u8 list \<Rightarrow> fs_error + 's) \<Rightarrow> nat \<Rightarrow> 's \<Rightarrow> u8 list list \<Rightarrow> fs_error + 's" where
  "visit_components visit depth st [] = Ok st"
| "visit_components visit depth st (component # comps) =
     (if component = [] then Err EmptyComponent
      else if length component > MAX_COMPONENT_LEN then Err ComponentTooLong
      else if depth + 1 > MAX_PATH_DEPTH then Err TooDeep
      else case visit st component of
             Inl e \<Rightarrow> Err e
           | Inr st' \<Rightarrow> visit_components visit (depth + 1) st' comps)"

definition for_each_component ::
  "u8 list \<Rightarrow> ('s \<Rightarrow> u8 list \<Rightarrow> fs_error + 's) \<Rightarrow> 's \<Rightarrow> fs_error + 's" where
  "for_each_component path visit st =
     (if length path > MAX_PATH_LEN then Err PathTooLong
      else case path of
             [] \<Rightarrow> Err NotAbsolute
           | b # trimmed \<Rightarrow>
               (if b \<noteq> SLASH then Err NotAbsolute
                else if trimmed = [] then Ok st
                else visit_components visit 0 st (split_slash trimmed)))"

text \<open>\<^verbatim>\<open>str::rfind('/')\<close>.\<close>

definition rfind_slash :: "u8 list \<Rightarrow> nat option" where
  "rfind_slash path = map_option (\<lambda>i. length path - 1 - i) (position (\<lambda>b. b = SLASH) (rev path))"

definition split_parent :: "u8 list \<Rightarrow> fs_error + u8 list \<times> u8 list" where
  "split_parent path =
     (if length path > MAX_PATH_LEN then Err PathTooLong
      else if path = [] \<or> hd path \<noteq> SLASH then Err NotAbsolute
      else if path = [SLASH] then Err NotFound
      else let last_slash = the (rfind_slash path);
               parent = (if last_slash = 0 then [SLASH] else take last_slash path);
               name = drop (last_slash + 1) path
           in if name = [] then Err EmptyComponent
              else if length name > MAX_COMPONENT_LEN then Err ComponentTooLong
              else Ok (parent, name))"

section \<open>Directory content\<close>

definition entry_byte_len :: "nat \<Rightarrow> nat" where
  "entry_byte_len name_len = 1 + name_len + 16"

text \<open>
  \<^verbatim>\<open>DirEntries::next\<close> on the bytes from the cursor on: the entry and the bytes after it.
\<close>

definition dir_next :: "u8 list \<Rightarrow> fs_error + (u8 list \<times> suid) \<times> u8 list" where
  "dir_next bytes =
     (if bytes = [] then Err Corrupt
      else let name_len = unat (hd bytes)
           in if name_len = 0 \<or> name_len > MAX_COMPONENT_LEN then Err Corrupt
              else let name_start = 1;
                       suid_start = name_start + name_len;
                       suid_end = suid_start + 16
                   in if suid_end > length bytes then Err Corrupt
                      else let name = slice name_start name_len bytes;
                               suid_bytes = slice suid_start 16 bytes
                           in if \<not> utf8_valid name then Err Corrupt
                              else Ok ((name, suid_new (of_be_bytes (slice 0 8 suid_bytes))
                                                      (of_be_bytes (slice 8 8 suid_bytes))),
                                       drop suid_end bytes))"

text \<open>The items the iterator yields, up to the first error (every caller stops there).\<close>

fun dir_iter :: "nat \<Rightarrow> u8 list \<Rightarrow> (fs_error + u8 list \<times> suid) list" where
  "dir_iter 0 bytes = []"
| "dir_iter (Suc n) bytes =
     (case dir_next bytes of
        Inl e \<Rightarrow> [Err e]
      | Inr (entry, rest) \<Rightarrow> Ok entry # dir_iter n rest)"

definition dir_parse :: "u8 list \<Rightarrow> fs_error + (fs_error + u8 list \<times> suid) list" where
  "dir_parse content =
     (if content = [] then Err Corrupt
      else if unat (hd content) > MAX_DIR_ENTRIES then Err Corrupt
      else Ok (dir_iter (unat (hd content)) (tl content)))"

text \<open>\<^verbatim>\<open>for entry in ... { let (n, s) = entry?; if n == name { return Ok(s) } }\<close>\<close>

fun find_entry :: "u8 list \<Rightarrow> (fs_error + u8 list \<times> suid) list \<Rightarrow> fs_error + suid option" where
  "find_entry name [] = Ok None"
| "find_entry name (Inl e # items) = Err e"
| "find_entry name (Inr (n, s) # items) = (if n = name then Ok (Some s) else find_entry name items)"

text \<open>All entries, or the first error (the loops of \<^verbatim>\<open>readdir\<close> and \<^verbatim>\<open>for_each_child\<close>).\<close>

fun all_entries :: "(fs_error + u8 list \<times> suid) list \<Rightarrow> fs_error + (u8 list \<times> suid) list" where
  "all_entries [] = Ok []"
| "all_entries (Inl e # items) = Err e"
| "all_entries (Inr x # items) = (case all_entries items of Inl e \<Rightarrow> Err e | Inr xs \<Rightarrow> Ok (x # xs))"

text \<open>The new content is what the code leaves in \<^verbatim>\<open>out[..new_total]\<close>.\<close>

definition insert_dir_entry :: "u8 list \<Rightarrow> u8 list \<Rightarrow> suid \<Rightarrow> nat \<Rightarrow> fs_error + u8 list" where
  "insert_dir_entry existing name s out_len =
     (if name = [] then Err EmptyComponent
      else if length name > MAX_COMPONENT_LEN then Err ComponentTooLong
      else let existing_count = (if existing = [] then 0 else unat (hd existing))
           in if existing_count \<ge> MAX_DIR_ENTRIES then Err DirectoryFull
              else case (if existing = [] then Ok None
                         else and_then (dir_parse existing) (find_entry name)) of
                     Inl e \<Rightarrow> Err e
                   | Inr (Some _) \<Rightarrow> Err AlreadyExists
                   | Inr None \<Rightarrow>
                       (let existing_payload_len = (if existing = [] then 0 else length existing - 1);
                            new_total = 1 + existing_payload_len + entry_byte_len (length name)
                        in if new_total > out_len then Err DirectoryFull
                           else Ok (of_nat (existing_count + 1) # tl existing
                                    @ of_nat (length name) # name
                                    @ be_bytes 8 (high s) @ be_bytes 8 (low s))))"

text \<open>
  The first scan of \<^verbatim>\<open>remove_dir_entry\<close>, over \<open>n\<close> remaining entries from \<open>byte_off\<close> on: the
  offset, length and identifier of the entry with the name.
\<close>

fun remove_scan ::
  "u8 list \<Rightarrow> u8 list \<Rightarrow> nat \<Rightarrow> nat \<Rightarrow> fs_error + (nat \<times> nat \<times> suid) option" where
  "remove_scan existing name 0 byte_off = Ok None"
| "remove_scan existing name (Suc n) byte_off =
     (if byte_off \<ge> length existing then Err Corrupt
      else let nl = unat (existing ! byte_off)
           in if nl = 0 \<or> nl > MAX_COMPONENT_LEN then Err Corrupt
              else let name_start = byte_off + 1;
                       suid_start = name_start + nl;
                       next = suid_start + 16
                   in if next > length existing then Err Corrupt
                      else let this_name = slice name_start nl existing
                           in if \<not> utf8_valid this_name then Err Corrupt
                              else if this_name = name
                                   then Ok (Some (byte_off, next - byte_off,
                                          suid_new (of_be_bytes (slice suid_start 8 existing))
                                                   (of_be_bytes (slice (suid_start + 8) 8 existing))))
                                   else remove_scan existing name n next)"

definition remove_dir_entry :: "u8 list \<Rightarrow> u8 list \<Rightarrow> nat \<Rightarrow> fs_error + u8 list \<times> suid" where
  "remove_dir_entry existing name out_len =
     (if existing = [] then Err NotFound
      else let existing_count = unat (hd existing)
           in if existing_count = 0 then Err NotFound
              else case remove_scan existing name existing_count 1 of
                     Inl e \<Rightarrow> Err e
                   | Inr None \<Rightarrow> Err NotFound
                   | Inr (Some (target_start, target_len, target_suid)) \<Rightarrow>
                       (if length existing - target_len > out_len then Err Corrupt
                        else Ok (of_nat (existing_count - 1) # slice 1 (target_start - 1) existing
                                   @ drop (target_start + target_len) existing,
                                 target_suid)))"

section \<open>Directories as lists of entries\<close>

type_synonym dirent = "u8 list \<times> suid"

definition entry_bytes :: "dirent \<Rightarrow> u8 list" where
  "entry_bytes x = of_nat (length (fst x)) # fst x @ be_bytes 8 (high (snd x)) @ be_bytes 8 (low (snd x))"

definition encode_dir :: "dirent list \<Rightarrow> u8 list" where
  "encode_dir es = of_nat (length es) # concat (map entry_bytes es)"

definition name_ok :: "u8 list \<Rightarrow> bool" where
  "name_ok n \<longleftrightarrow> n \<noteq> [] \<and> length n \<le> MAX_COMPONENT_LEN \<and> utf8_valid n"

definition dir_wf :: "dirent list \<Rightarrow> bool" where
  "dir_wf es \<longleftrightarrow> length es \<le> MAX_DIR_ENTRIES \<and> (\<forall>x \<in> set es. name_ok (fst x)) \<and> distinct (map fst es)"

lemma unat_of_nat_u8 [simp]: "n < 256 \<Longrightarrow> unat (of_nat n :: u8) = n"
  by (simp add: unat_of_nat take_bit_nat_eq_self)

lemma length_entry_bytes: "length (entry_bytes x) = entry_byte_len (length (fst x))"
  by (simp add: entry_bytes_def entry_byte_len_def)

lemma suid_eq_new: "suid_new (high s) (low s) = s"
  by (simp add: suid_new_def)

lemma dir_next_entry:
  assumes "name_ok (fst x)"
  shows "dir_next (entry_bytes x @ rest) = Ok (x, rest)"
proof -
  obtain n s where x: "x = (n, s)" by (cases x)
  have n: "n \<noteq> []" "length n \<le> 31" "utf8_valid n"
    using assms x by (simp_all add: name_ok_def MAX_COMPONENT_LEN_def)
  let ?b = "entry_bytes x @ rest"
  have l: "unat (hd ?b) = length n" using n by (simp add: x entry_bytes_def)
  have "1 + length n + 16 = length (entry_bytes x)" by (simp add: length_entry_bytes entry_byte_len_def x)
  then have "drop (1 + length n + 16) ?b = rest" by (metis append_eq_conv_conj)
  moreover have "slice 1 (length n) ?b = n" "slice (1 + length n) 16 ?b = be_bytes 8 (high s) @ be_bytes 8 (low s)"
    "\<not> length ?b < 1 + length n + 16" "?b \<noteq> []"
    by (simp_all add: x entry_bytes_def slice_def)
  ultimately show ?thesis
    unfolding dir_next_def Let_def l
    using n by (simp add: MAX_COMPONENT_LEN_def slice_def suid_eq_new x)
qed

lemma dir_iter_entries:
  "\<forall>x \<in> set es. name_ok (fst x) \<Longrightarrow> dir_iter (length es) (concat (map entry_bytes es) @ rest) = map Ok es"
  by (induction es) (simp_all add: dir_next_entry)

lemma dir_parse_encode:
  assumes "dir_wf es"
  shows "dir_parse (encode_dir es) = Ok (map Ok es)"
proof -
  have "length es \<le> 64" using assms by (simp add: dir_wf_def MAX_DIR_ENTRIES_def)
  moreover have "dir_iter (length es) (concat (map entry_bytes es)) = map Ok es"
    using dir_iter_entries [of es "[]"] assms by (simp add: dir_wf_def)
  ultimately show ?thesis by (simp add: dir_parse_def encode_dir_def MAX_DIR_ENTRIES_def)
qed

lemma find_entry_map_of: "find_entry n (map Ok es) = Ok (map_of es n)"
  by (induction es) auto

lemma all_entries_map: "all_entries (map Ok es) = Ok es"
  by (induction es) auto

lemma encode_dir_Nil [simp]: "encode_dir [] = [0]"
  by (simp add: encode_dir_def)

lemma length_concat_entries:
  "\<forall>x \<in> set es. name_ok (fst x) \<Longrightarrow> length (concat (map entry_bytes es)) \<le> length es * 48"
proof (induction es)
  case (Cons x es)
  then have "length (entry_bytes x) \<le> 48"
    by (simp add: length_entry_bytes entry_byte_len_def name_ok_def MAX_COMPONENT_LEN_def)
  with Cons show ?case by simp
qed simp

lemma length_encode_dir: "dir_wf es \<Longrightarrow> length (encode_dir es) \<le> 1 + length es * 48"
  using length_concat_entries [of es] by (simp add: encode_dir_def dir_wf_def)

text \<open>Insertion appends an entry, unless the name is there or the directory is full.\<close>

lemma insert_dir_entry_encode:
  assumes wf: "dir_wf es" and n: "name_ok n"
  shows "insert_dir_entry (encode_dir es) n s DIR_CONTENT_MAX =
    (if length es = MAX_DIR_ENTRIES then Err DirectoryFull
     else if n \<in> fst ` set es then Err AlreadyExists
     else Ok (encode_dir (es @ [(n, s)])))"
proof -
  have l: "length es \<le> 64" using wf by (simp add: dir_wf_def MAX_DIR_ENTRIES_def)
  have cnt: "unat (hd (encode_dir es)) = length es" using l by (simp add: encode_dir_def)
  have n': "n \<noteq> []" "length n \<le> 31" using n by (simp_all add: name_ok_def MAX_COMPONENT_LEN_def)
  have "length (concat (map entry_bytes es)) \<le> length es * 48"
    using length_concat_entries wf by (simp add: dir_wf_def)
  then have fits: "\<not> 1 + (length (encode_dir es) - 1) + entry_byte_len (length n) > DIR_CONTENT_MAX"
    using l n' by (simp add: encode_dir_def entry_byte_len_def DIR_CONTENT_MAX_def)
  have f: "and_then (dir_parse (encode_dir es)) (find_entry n) = Ok (map_of es n)"
    by (simp add: dir_parse_encode [OF wf] find_entry_map_of)
  have nn: "encode_dir es \<noteq> []" by (simp add: encode_dir_def)
  have out: "of_nat (length es + 1) # tl (encode_dir es) @ of_nat (length n) # n @ be_bytes 8 (high s) @ be_bytes 8 (low s)
      = encode_dir (es @ [(n, s)])"
    by (simp add: encode_dir_def entry_bytes_def)
  show ?thesis
  proof (cases "map_of es n")
    case None
    then have "n \<notin> fst ` set es" by (simp add: map_of_eq_None_iff)
    then show ?thesis
      using None l n' fits nn out unfolding insert_dir_entry_def Let_def cnt f
      by (simp add: MAX_DIR_ENTRIES_def MAX_COMPONENT_LEN_def)
  next
    case (Some s')
    then have "n \<in> fst ` set es" by (metis domI dom_map_of_conv_image_fst)
    then show ?thesis
      using Some l n' nn unfolding insert_dir_entry_def Let_def cnt f
      by (simp add: MAX_DIR_ENTRIES_def MAX_COMPONENT_LEN_def)
  qed
qed

text \<open>Removal deletes the entry with the name.\<close>

lemma remove_scan_encode:
  assumes "\<forall>x \<in> set es. name_ok (fst x)"
  shows "remove_scan (pre @ concat (map entry_bytes es)) n (length es) (length pre) =
    (case position (\<lambda>x. fst x = n) es of
       None \<Rightarrow> Ok None
     | Some i \<Rightarrow> Ok (Some (length pre + length (concat (map entry_bytes (take i es))),
                          length (entry_bytes (es ! i)), snd (es ! i))))"
  using assms
proof (induction es arbitrary: pre)
  case Nil
  then show ?case by simp
next
  case (Cons x es)
  obtain m s where x: "x = (m, s)" by (cases x)
  have m: "m \<noteq> []" "length m \<le> 31" "utf8_valid m"
    using Cons.prems x by (simp_all add: name_ok_def MAX_COMPONENT_LEN_def)
  let ?rest = "concat (map entry_bytes es)"
  let ?all = "pre @ entry_bytes x @ ?rest"
  let ?o = "length pre"
  have lx: "length (entry_bytes x) = 1 + length m + 16" by (simp add: length_entry_bytes entry_byte_len_def x)
  have b: "?all ! ?o = of_nat (length m)" by (simp add: nth_append x entry_bytes_def)
  have sl: "slice (?o + 1) (length m) ?all = m" "slice (?o + 1 + length m) 8 ?all = be_bytes 8 (high s)"
    by (simp_all add: x entry_bytes_def slice_def)
  have e: "?all = (pre @ of_nat (length m) # m @ be_bytes 8 (high s)) @ be_bytes 8 (low s) @ ?rest"
    by (simp add: x entry_bytes_def)
  have sl3: "slice (?o + 1 + length m + 8) 8 ?all = be_bytes 8 (low s)"
    unfolding e by (rule slice_exact) simp_all
  have um: "unat (of_nat (length m) :: u8) = length m" using m by simp
  have step: "remove_scan ?all n (Suc (length es)) ?o =
      (if m = n then Ok (Some (?o, 1 + length m + 16, s)) else remove_scan ?all n (length es) (?o + 1 + length m + 16))"
    using m lx unfolding remove_scan.simps(2) Let_def b um sl sl3
    by (simp add: suid_eq_new MAX_COMPONENT_LEN_def)
  have ih: "remove_scan ?all n (length es) (?o + 1 + length m + 16) =
      (case position (\<lambda>x. fst x = n) es of
         None \<Rightarrow> Ok None
       | Some i \<Rightarrow> Ok (Some (?o + length (entry_bytes x) + length (concat (map entry_bytes (take i es))),
                            length (entry_bytes (es ! i)), snd (es ! i))))"
  proof -
    have "?o + 1 + length m + 16 = length (pre @ entry_bytes x)" using lx by simp
    then show ?thesis using Cons.IH [of "pre @ entry_bytes x"] Cons.prems
      by (simp only: append_assoc length_append) (simp split: option.split)
  qed
  show ?case
  proof (cases "m = n")
    case True
    then show ?thesis using step lx by (simp add: x del: remove_scan.simps)
  next
    case False
    then show ?thesis
      using step ih by (simp add: x add.assoc del: remove_scan.simps split: option.splits)
  qed
qed

lemma remove_dir_entry_encode:
  assumes wf: "dir_wf es"
  shows "remove_dir_entry (encode_dir es) n DIR_CONTENT_MAX =
    (case position (\<lambda>x. fst x = n) es of
       None \<Rightarrow> Err NotFound
     | Some i \<Rightarrow> Ok (encode_dir (take i es @ drop (Suc i) es), snd (es ! i)))"
proof -
  have l: "length es \<le> 64" using wf by (simp add: dir_wf_def MAX_DIR_ENTRIES_def)
  have ok: "\<forall>x \<in> set es. name_ok (fst x)" using wf by (simp add: dir_wf_def)
  have cnt: "unat (hd (encode_dir es)) = length es" using l by (simp add: encode_dir_def)
  have nn: "encode_dir es \<noteq> []" by (simp add: encode_dir_def)
  have scan: "remove_scan (encode_dir es) n (length es) 1 =
    (case position (\<lambda>x. fst x = n) es of
       None \<Rightarrow> Ok None
     | Some i \<Rightarrow> Ok (Some (1 + length (concat (map entry_bytes (take i es))),
                          length (entry_bytes (es ! i)), snd (es ! i))))"
    using remove_scan_encode [OF ok, of "[of_nat (length es)]" n] by (simp add: encode_dir_def split: option.splits)
  show ?thesis
  proof (cases "position (\<lambda>x. fst x = n) es")
    case None
    then show ?thesis
      using nn unfolding remove_dir_entry_def Let_def cnt scan by simp
  next
    case (Some i)
    then have i: "i < length es" using position_SomeD by blast
    define A B C where "A = concat (map entry_bytes (take i es))" and "B = entry_bytes (es ! i)"
      and "C = concat (map entry_bytes (drop (Suc i) es))"
    have "es = take i es @ es ! i # drop (Suc i) es" using i by (simp add: id_take_nth_drop)
    then have enc: "encode_dir es = of_nat (length es) # A @ B @ C"
      unfolding encode_dir_def A_def B_def C_def
      by (metis append.assoc concat.simps(2) concat_append list.simps(9) map_append)
    have "length (encode_dir es) \<le> 1 + 64 * 48" using length_encode_dir [OF wf] l by simp
    then have fit: "\<not> length (encode_dir es) - length B > DIR_CONTENT_MAX" by (simp add: DIR_CONTENT_MAX_def)
    have s1: "slice 1 (length A) (encode_dir es) = A" unfolding enc by (simp add: slice_def)
    have s2: "drop (1 + length A + length B) (encode_dir es) = C" unfolding enc by simp
    have "of_nat (length es - 1) # A @ C = encode_dir (take i es @ drop (Suc i) es)"
      using i by (simp add: encode_dir_def A_def C_def min_absorb1)
    with Some i nn fit s1 s2 show ?thesis
      unfolding remove_dir_entry_def Let_def cnt scan
      by (auto simp: A_def [symmetric] B_def [symmetric])
  qed
qed

lemma dir_wf_insert:
  "dir_wf es \<Longrightarrow> name_ok n \<Longrightarrow> length es \<noteq> MAX_DIR_ENTRIES \<Longrightarrow> n \<notin> fst ` set es \<Longrightarrow> dir_wf (es @ [(n, s)])"
  by (auto simp: dir_wf_def)

lemma dir_wf_remove: "dir_wf es \<Longrightarrow> dir_wf (take i es @ drop (Suc i) es)"
proof -
  assume wf: "dir_wf es"
  have d: "distinct (map fst es)" using wf by (simp add: dir_wf_def)
  have "set (take i (map fst es)) \<inter> set (drop (Suc i) (map fst es)) = {}"
    using d by (simp add: set_take_disj_set_drop_if_distinct)
  moreover have "distinct (take i (map fst es))" "distinct (drop (Suc i) (map fst es))"
    using d by (simp_all add: distinct_take distinct_drop)
  ultimately have "distinct (map fst (take i es @ drop (Suc i) es))"
    by (simp add: take_map drop_map)
  moreover have "set (take i es @ drop (Suc i) es) \<subseteq> set es"
    by (auto dest: in_set_takeD in_set_dropD)
  ultimately show ?thesis using wf unfolding dir_wf_def by auto
qed

lemma map_of_remove:
  assumes "distinct (map fst es)" and "position (\<lambda>x. fst x = n) es = Some i"
  shows "map_of (take i es @ drop (Suc i) es) = (map_of es)(n := None)"
    and "map_of es n = Some (snd (es ! i))"
proof -
  have i: "i < length es" "fst (es ! i) = n" using position_SomeD [OF assms(2)] by auto
  have es: "es = take i es @ es ! i # drop (Suc i) es" using i by (simp add: id_take_nth_drop)
  have d: "distinct (map fst (take i es @ es ! i # drop (Suc i) es))" using assms(1) es by simp
  have n: "n \<notin> fst ` set (take i es)" "n \<notin> fst ` set (drop (Suc i) es)" using d i(2) by auto
  then have m: "map_of (take i es) n = None" "map_of (drop (Suc i) es) n = None"
    by (simp_all add: map_of_eq_None_iff)
  show "map_of es n = Some (snd (es ! i))"
    by (subst es) (use m i(2) in \<open>simp add: map_add_def\<close>)
  show "map_of (take i es @ drop (Suc i) es) = (map_of es)(n := None)"
  proof
    fix k
    have "map_of es k = map_of (take i es @ es ! i # drop (Suc i) es) k" using es by simp
    then show "map_of (take i es @ drop (Suc i) es) k = ((map_of es)(n := None)) k"
      using m i(2) by (auto simp: map_add_def split: option.splits)
  qed
qed

interpretation dir_codec: byte_codec encode_dir
  "\<lambda>bs. case and_then (dir_parse bs) all_entries of Inr es \<Rightarrow> Some es | Inl _ \<Rightarrow> None" dir_wf
  by unfold_locales (simp add: dir_parse_encode all_entries_map)

section \<open>Paths as lists of components\<close>

definition path_components :: "u8 list \<Rightarrow> u8 list list" where
  "path_components path = (if tl path = [] then [] else split_slash (tl path))"

definition path_ok :: "u8 list \<Rightarrow> bool" where
  "path_ok path \<longleftrightarrow> length path \<le> MAX_PATH_LEN \<and> path \<noteq> [] \<and> hd path = SLASH"

lemma for_each_component_eq:
  "path_ok path \<Longrightarrow> for_each_component path visit st = visit_components visit 0 st (path_components path)"
  by (cases path) (auto simp: path_ok_def for_each_component_def path_components_def)

lemma split_slash_ne [simp]: "split_slash bs \<noteq> []"
  by (induction bs) (auto split: list.splits)

lemma split_slash_append: "split_slash (xs @ SLASH # ys) = split_slash xs @ split_slash ys"
proof (induction xs)
  case (Cons x xs)
  then show ?case by (cases "split_slash xs") auto
qed simp

lemma split_slash_single: "SLASH \<notin> set ys \<Longrightarrow> split_slash ys = [ys]"
  by (induction ys) auto

lemma rfind_slash_Some:
  assumes "rfind_slash path = Some k"
  shows "k < length path" and "path = take k path @ SLASH # drop (Suc k) path" and "SLASH \<notin> set (drop (Suc k) path)"
proof -
  obtain i where i: "position (\<lambda>b. b = SLASH) (rev path) = Some i" and k: "k = length path - 1 - i"
    using assms by (auto simp: rfind_slash_def)
  from position_SomeD [OF i] have p: "i < length path" "rev path ! i = SLASH" "\<forall>j < i. rev path ! j \<noteq> SLASH"
    by auto
  show kl: "k < length path" using k p(1) by simp
  have "path ! k = SLASH" using p k by (simp add: rev_nth)
  then show "path = take k path @ SLASH # drop (Suc k) path"
    using kl by (metis id_take_nth_drop)
  have "length (drop (Suc k) path) = i" using k p(1) by simp
  moreover have "drop (Suc k) path ! j \<noteq> SLASH" if "j < i" for j
  proof -
    have "rev path ! (i - 1 - j) \<noteq> SLASH" using p(3) that by simp
    moreover have "length path - Suc (i - 1 - j) = Suc (k + j)" using k p(1) that by simp
    ultimately show ?thesis using p(1) that kl by (simp add: rev_nth)
  qed
  ultimately show "SLASH \<notin> set (drop (Suc k) path)" by (metis in_set_conv_nth)
qed

lemma split_parent_Ok:
  assumes "split_parent path = Ok (parent, name)"
  obtains pre where "path = pre @ SLASH # name" "SLASH \<notin> set name" "name \<noteq> []"
    "length name \<le> MAX_COMPONENT_LEN" "parent = (if pre = [] then [SLASH] else pre)" "path_ok path" "path_ok parent"
proof -
  have p: "length path \<le> MAX_PATH_LEN" "path \<noteq> []" "hd path = SLASH" "path \<noteq> [SLASH]"
    using assms by (auto simp: split_parent_def split: if_splits)
  have "SLASH \<in> set path" using p(2,3) by (metis list.set_sel(1))
  then have "rfind_slash path \<noteq> None" by (auto simp: rfind_slash_def position_None_iff)
  then obtain k where k: "rfind_slash path = Some k" by blast
  note R = rfind_slash_Some [OF k]
  have n: "name = drop (Suc k) path" "name \<noteq> []" "length name \<le> MAX_COMPONENT_LEN"
    "parent = (if k = 0 then [SLASH] else take k path)"
    using assms p k by (auto simp: split_parent_def Let_def split: if_splits)
  have pre: "take k path = [] \<longleftrightarrow> k = 0" using p(2) by simp
  have "path_ok parent"
    using p n(4) by (auto simp: path_ok_def MAX_PATH_LEN_def hd_take)
  with R n pre p show thesis
    using that [of "take k path"] by (simp add: path_ok_def)
qed

text \<open>
  The components of a path are those of its parent and its name. A path that starts with two
  slashes and has no other is the exception: its parent is the root.
\<close>

lemma split_parent_components:
  assumes "split_parent path = Ok (parent, name)" and "path \<noteq> SLASH # SLASH # name"
  shows "path_components path = path_components parent @ [name]"
proof -
  obtain pre where pre: "path = pre @ SLASH # name" "SLASH \<notin> set name" "name \<noteq> []"
    "parent = (if pre = [] then [SLASH] else pre)" "path_ok path"
    using split_parent_Ok [OF assms(1)] .
  show ?thesis
  proof (cases pre)
    case Nil
    then show ?thesis using pre by (simp add: path_components_def split_slash_single)
  next
    case (Cons b q)
    then have "b = SLASH" using pre by (simp add: path_ok_def)
    with Cons pre assms(2) have "q \<noteq> []" by auto
    then show ?thesis
      using Cons pre split_slash_append [of q name] by (simp add: path_components_def split_slash_single)
  qed
qed

lemma visit_components_append:
  "visit_components f d st (xs @ ys) = and_then (visit_components f d st xs) (\<lambda>st'. visit_components f (d + length xs) st' ys)"
  by (induction xs arbitrary: d st) (auto split: sum.splits)

section \<open>Names are valid UTF-8\<close>

lemma slash_not_cont: "\<not> cont SLASH" "\<not> (0xA0 :: u8) \<le> SLASH" "\<not> (0x80 :: u8) \<le> SLASH" "\<not> (0x90 :: u8) \<le> SLASH"
  by (simp_all add: cont_def)

lemma list_upto_four:
  obtains "xs = []" | a where "xs = [a]" | a b where "xs = [a, b]" | a b c where "xs = [a, b, c]"
    | a b c d es where "xs = a # b # c # d # es"
  by (metis list.exhaust)

lemma utf8_char_slash: "xs \<noteq> [] \<Longrightarrow> utf8_char (xs @ SLASH # ys) = utf8_char xs"
proof (cases xs rule: list_upto_four)
  case (2 a)
  then show ?thesis by (simp add: utf8_char_def slash_not_cont split: list.split)
next
  case (3 a b)
  then show ?thesis by (simp add: utf8_char_def slash_not_cont split: list.split)
next
  case (4 a b c)
  then show ?thesis by (simp add: utf8_char_def slash_not_cont)
next
  case (5 a b c d es)
  then show ?thesis by (simp add: utf8_char_def)
qed simp

lemma utf8_char_le: "utf8_char xs \<le> length xs"
  by (cases xs rule: list_upto_four) (simp_all add: utf8_char_def)

text \<open>A slash is never part of a longer sequence, so a string can be cut at one.\<close>

lemma utf8_valid_split: "utf8_valid (xs @ SLASH # ys) \<longleftrightarrow> utf8_valid xs \<and> utf8_valid ys"
proof (induction "length xs" arbitrary: xs rule: less_induct)
  case less
  show ?case
  proof (cases "xs = []")
    case True
    have "utf8_char (SLASH # ys) = 1" by (simp add: utf8_char_def)
    then show ?thesis using True by (simp add: utf8_valid.simps [of "SLASH # ys"] utf8_valid.simps [of "[]"])
  next
    case False
    let ?n = "utf8_char xs"
    have n: "utf8_char (xs @ SLASH # ys) = ?n" using utf8_char_slash [OF False] .
    have d: "drop ?n (xs @ SLASH # ys) = drop ?n xs @ SLASH # ys" using utf8_char_le [of xs] by simp
    show ?thesis
    proof (cases "?n = 0")
      case True
      then show ?thesis using n False by (simp add: utf8_valid.simps [of "xs @ _"] utf8_valid.simps [of xs])
    next
      case ne: False
      then have "length (drop ?n xs) < length xs" using False by simp
      from less [OF this] show ?thesis
        using ne n d False by (simp add: utf8_valid.simps [of "xs @ _"] utf8_valid.simps [of xs])
    qed
  qed
qed

lemma split_parent_name_ok:
  assumes "split_parent path = Ok (parent, name)" and "utf8_valid path"
  shows "name_ok name" and "utf8_valid parent"
proof -
  obtain pre where pre: "path = pre @ SLASH # name" "name \<noteq> []" "length name \<le> MAX_COMPONENT_LEN"
    "parent = (if pre = [] then [SLASH] else pre)"
    using split_parent_Ok [OF assms(1)] .
  have "utf8_valid pre" "utf8_valid name" using assms(2) pre(1) utf8_valid_split by simp_all
  moreover have "utf8_valid [SLASH]" using utf8_valid_split [of "[]" "[]"] by (simp add: utf8_valid.simps [of "[]"])
  ultimately show "name_ok name" "utf8_valid parent" using pre by (simp_all add: name_ok_def)
qed

section \<open>Properties\<close>

text \<open>Whatever the bytes are, an entry that the iterator yields has a usable name.\<close>

lemma dir_next_name_ok: "dir_next bytes = Ok (x, rest) \<Longrightarrow> name_ok (fst x) \<and> length rest < length bytes"
  by (auto simp: dir_next_def Let_def name_ok_def slice_def split: if_splits)

lemma dir_iter_names_ok: "Ok x \<in> set (dir_iter n bytes) \<Longrightarrow> name_ok (fst x)"
proof (induction n arbitrary: bytes)
  case (Suc n)
  then show ?case by (auto dest: dir_next_name_ok split: sum.splits)
qed simp

text \<open>
  The packed directory format is a faithful table. For every well-formed list of entries: the
  parser gives back exactly the entries that were encoded; inserting a name appends the entry, and is
  refused for a name that is there and for a full directory of 64; removing a name deletes its entry,
  returns its identifier, and reports a missing name; inserting and then removing a name restores the
  bytes.
\<close>

theorem directory_format_correct:
  assumes "dir_wf es" and "name_ok n"
  shows "and_then (dir_parse (encode_dir es)) all_entries = Ok es
    \<and> and_then (dir_parse (encode_dir es)) (find_entry n) = Ok (map_of es n)
    \<and> insert_dir_entry (encode_dir es) n s DIR_CONTENT_MAX =
        (if length es = MAX_DIR_ENTRIES then Err DirectoryFull
         else if n \<in> fst ` set es then Err AlreadyExists
         else Ok (encode_dir (es @ [(n, s)])))
    \<and> (case remove_dir_entry (encode_dir es) n DIR_CONTENT_MAX of
         Inl e \<Rightarrow> e = NotFound \<and> map_of es n = None
       | Inr (bs, s') \<Rightarrow> map_of es n = Some s' \<and> (\<exists>es'. bs = encode_dir es' \<and> dir_wf es'
             \<and> map_of es' = (map_of es)(n := None)))
    \<and> (length es < MAX_DIR_ENTRIES \<and> n \<notin> fst ` set es \<longrightarrow>
         remove_dir_entry (encode_dir (es @ [(n, s)])) n DIR_CONTENT_MAX = Ok (encode_dir es, s))"
proof -
  have d: "distinct (map fst es)" using assms(1) by (simp add: dir_wf_def)
  have rem: "case remove_dir_entry (encode_dir es) n DIR_CONTENT_MAX of
         Inl e \<Rightarrow> e = NotFound \<and> map_of es n = None
       | Inr (bs, s') \<Rightarrow> map_of es n = Some s' \<and> (\<exists>es'. bs = encode_dir es' \<and> dir_wf es'
             \<and> map_of es' = (map_of es)(n := None))"
  proof (cases "position (\<lambda>x. fst x = n) es")
    case None
    then have "map_of es n = None" by (auto simp: position_None_iff map_of_eq_None_iff)
    then show ?thesis unfolding remove_dir_entry_encode [OF assms(1)] None by simp
  next
    case (Some i)
    then show ?thesis
      unfolding remove_dir_entry_encode [OF assms(1)]
      using map_of_remove [OF d Some] dir_wf_remove [OF assms(1), of i] by auto
  qed
  have "remove_dir_entry (encode_dir (es @ [(n, s)])) n DIR_CONTENT_MAX = Ok (encode_dir es, s)"
    if "length es < MAX_DIR_ENTRIES" "n \<notin> fst ` set es"
  proof -
    have "position (\<lambda>x. fst x = n) (es @ [(n, s)]) = Some (length es)"
      using that(2) by (auto simp: position_Some_iff nth_append)
    moreover have "dir_wf (es @ [(n, s)])" using dir_wf_insert assms that by simp
    ultimately show ?thesis by (simp add: remove_dir_entry_encode)
  qed
  with rem show ?thesis
    using insert_dir_entry_encode [OF assms] dir_parse_encode [OF assms(1)]
    by (simp add: all_entries_map find_entry_map_of)
qed

theorem directory_format_correct_witness:
  "dir_wf [([0x61], suid_system 1)] \<and> name_ok [0x62]
   \<and> insert_dir_entry (encode_dir [([0x61], suid_system 1)]) [0x62] (suid_system 2) DIR_CONTENT_MAX
       = Ok (encode_dir [([0x61], suid_system 1), ([0x62], suid_system 2)])"
proof -
  have v: "utf8_valid [0x61]" "utf8_valid [0x62]"
    by (simp_all add: utf8_valid.simps utf8_char_def)
  have w: "dir_wf [([0x61], suid_system 1)]" "name_ok [0x62]"
    using v by (simp_all add: dir_wf_def name_ok_def MAX_DIR_ENTRIES_def MAX_COMPONENT_LEN_def)
  from directory_format_correct [OF w, of "suid_system 2"] w show ?thesis
    by (simp add: MAX_DIR_ENTRIES_def)
qed

end
