(* ===== verification/Sem_Caps.thy ===== *)
theory Sem_Caps
  imports Suid Slot_Table
begin

text \<open>
  Capabilities on semantic objects: \<^verbatim>\<open>src/kernel-core/src/semantic/capability.rs\<close>.
  A capability set is a byte of flags, a capability is a set for one object with an expiry time,
  and a process holds a table of 64 of them. The theory shows that the byte operations are the set
  operations, that delegation never amplifies rights, that the table's operations keep its
  invariant, and what each of them does to later checks.
\<close>

section \<open>Definitions: capability sets\<close>

datatype capability_type =
  Read | Write | Execute | Delete | Link | ChangeTier | Delegate | Owner

fun cap_index :: "capability_type \<Rightarrow> nat" where
  "cap_index Read = 0"
| "cap_index Write = 1"
| "cap_index Execute = 2"
| "cap_index Delete = 3"
| "cap_index Link = 4"
| "cap_index ChangeTier = 5"
| "cap_index Delegate = 6"
| "cap_index Owner = 7"

definition cap_from_u8 :: "u8 \<Rightarrow> capability_type option" where
  "cap_from_u8 v =
     (if v = 0 then Some Read else if v = 1 then Some Write else if v = 2 then Some Execute
      else if v = 3 then Some Delete else if v = 4 then Some Link
      else if v = 5 then Some ChangeTier else if v = 6 then Some Delegate
      else if v = 7 then Some Owner else None)"

definition cap_mask :: "capability_type \<Rightarrow> u8" where
  "cap_mask c = push_bit (cap_index c) 1"

record capability_set =
  cs_bits :: u8

definition cs_empty :: capability_set where
  "cs_empty = \<lparr>cs_bits = 0\<rparr>"

definition cs_all :: capability_set where
  "cs_all = \<lparr>cs_bits = 0xFF\<rparr>"

definition cs_read_only :: capability_set where
  "cs_read_only = \<lparr>cs_bits = push_bit (cap_index Read) 1\<rparr>"

definition cs_read_write :: capability_set where
  "cs_read_write = \<lparr>cs_bits = push_bit (cap_index Read) 1 OR push_bit (cap_index Write) 1\<rparr>"

definition cs_from_cap :: "capability_type \<Rightarrow> capability_set" where
  "cs_from_cap c = \<lparr>cs_bits = push_bit (cap_index c) 1\<rparr>"

definition cs_has :: "capability_set \<Rightarrow> capability_type \<Rightarrow> bool" where
  "cs_has s c \<longleftrightarrow> cs_bits s AND cap_mask c \<noteq> 0"

definition cs_grant :: "capability_set \<Rightarrow> capability_type \<Rightarrow> capability_set" where
  "cs_grant s c = s\<lparr>cs_bits := cs_bits s OR cap_mask c\<rparr>"

definition cs_revoke :: "capability_set \<Rightarrow> capability_type \<Rightarrow> capability_set" where
  "cs_revoke s c = s\<lparr>cs_bits := cs_bits s AND NOT (cap_mask c)\<rparr>"

definition cs_union :: "capability_set \<Rightarrow> capability_set \<Rightarrow> capability_set" where
  "cs_union s t = \<lparr>cs_bits = cs_bits s OR cs_bits t\<rparr>"

definition cs_intersect :: "capability_set \<Rightarrow> capability_set \<Rightarrow> capability_set" where
  "cs_intersect s t = \<lparr>cs_bits = cs_bits s AND cs_bits t\<rparr>"

definition cs_contains_all :: "capability_set \<Rightarrow> capability_set \<Rightarrow> bool" where
  "cs_contains_all s t \<longleftrightarrow> cs_bits s AND cs_bits t = cs_bits t"

definition cs_is_empty :: "capability_set \<Rightarrow> bool" where
  "cs_is_empty s \<longleftrightarrow> cs_bits s = 0"

section \<open>Definitions: capabilities\<close>

record capability =
  cap_target :: suid
  cap_caps :: capability_set
  cap_expires_at :: u64
  cap_delegatable :: bool

definition cap_new :: "suid \<Rightarrow> capability_set \<Rightarrow> capability" where
  "cap_new t caps =
     \<lparr>cap_target = t, cap_caps = caps, cap_expires_at = 0, cap_delegatable = False\<rparr>"

definition cap_with_expiry :: "suid \<Rightarrow> capability_set \<Rightarrow> u64 \<Rightarrow> capability" where
  "cap_with_expiry t caps e =
     \<lparr>cap_target = t, cap_caps = caps, cap_expires_at = e, cap_delegatable = False\<rparr>"

definition cap_allows :: "capability \<Rightarrow> capability_type \<Rightarrow> bool" where
  "cap_allows c r \<longleftrightarrow> cs_has (cap_caps c) r"

definition cap_is_expired :: "capability \<Rightarrow> u64 \<Rightarrow> bool" where
  "cap_is_expired c now \<longleftrightarrow> cap_expires_at c \<noteq> 0 \<and> now > cap_expires_at c"

definition cap_delegate :: "capability \<Rightarrow> capability_set \<Rightarrow> capability option" where
  "cap_delegate c new_caps =
     (if \<not> cap_delegatable c \<or> \<not> cs_has (cap_caps c) Delegate then None
      else Some \<lparr>cap_target = cap_target c,
                 cap_caps = cs_intersect (cap_caps c) new_caps,
                 cap_expires_at = cap_expires_at c,
                 cap_delegatable = False\<rparr>)"

section \<open>Definitions: the capability table\<close>

definition MAX_CAPS :: nat where "MAX_CAPS = 64"

record capability_table =
  ct_entries :: "capability option list"
  ct_count :: nat

text \<open>A slot is live when it is \<^verbatim>\<open>Some\<close>; its key is the object it is for.\<close>

fun cap_live :: "capability option \<Rightarrow> bool" where
  "cap_live None = False"
| "cap_live (Some c) = True"

fun cap_key :: "capability option \<Rightarrow> suid" where
  "cap_key None = suid_NULL"
| "cap_key (Some c) = cap_target c"

definition ct_new :: capability_table where
  "ct_new = \<lparr>ct_entries = replicate MAX_CAPS None, ct_count = 0\<rparr>"

text \<open>
  An entry for the same object is merged: its flags become the union, its expiry and its
  delegatable bit stay. Otherwise the first empty slot takes the capability.
\<close>

definition ct_insert :: "capability_table \<Rightarrow> capability \<Rightarrow> capability_table \<times> bool" where
  "ct_insert t cap =
     (case position (\<lambda>e. cap_live e \<and> cap_key e = cap_target cap) (ct_entries t) of
        Some i \<Rightarrow>
          (let existing = the (ct_entries t ! i);
               merged = existing\<lparr>cap_caps := cs_union (cap_caps existing) (cap_caps cap)\<rparr>
           in (t\<lparr>ct_entries := (ct_entries t)[i := Some merged]\<rparr>, True))
      | None \<Rightarrow>
          (case position (\<lambda>e. \<not> cap_live e) (ct_entries t) of
             Some i \<Rightarrow>
               (t\<lparr>ct_entries := (ct_entries t)[i := Some cap], ct_count := ct_count t + 1\<rparr>, True)
           | None \<Rightarrow> (t, False)))"

definition ct_lookup :: "capability_table \<Rightarrow> suid \<Rightarrow> capability option" where
  "ct_lookup t target =
     map_option the (slot_lookup cap_live cap_key (ct_entries t) target)"

definition ct_check :: "capability_table \<Rightarrow> suid \<Rightarrow> capability_type \<Rightarrow> u64 \<Rightarrow> bool" where
  "ct_check t target required now =
     (case ct_lookup t target of
        Some cap \<Rightarrow> \<not> cap_is_expired cap now \<and> cap_allows cap required
      | None \<Rightarrow> False)"

definition ct_remove :: "capability_table \<Rightarrow> suid \<Rightarrow> capability_table \<times> bool" where
  "ct_remove t target =
     (case position (\<lambda>e. cap_live e \<and> cap_key e = target) (ct_entries t) of
        Some i \<Rightarrow>
          (t\<lparr>ct_entries := (ct_entries t)[i := None], ct_count := ct_count t - 1\<rparr>, True)
      | None \<Rightarrow> (t, False))"

text \<open>One pass over the slots, with one decrement per slot it empties.\<close>

fun cleanup_entries ::
  "u64 \<Rightarrow> capability option list \<Rightarrow> nat \<Rightarrow> capability option list \<times> nat" where
  "cleanup_entries now [] n = ([], n)"
| "cleanup_entries now (e # es) n =
     (case e of
        Some cap \<Rightarrow>
          if cap_is_expired cap now
          then (let (es', n') = cleanup_entries now es (n - 1) in (None # es', n'))
          else (let (es', n') = cleanup_entries now es n in (e # es', n'))
      | None \<Rightarrow> (let (es', n') = cleanup_entries now es n in (e # es', n')))"

definition ct_cleanup_expired :: "capability_table \<Rightarrow> u64 \<Rightarrow> capability_table" where
  "ct_cleanup_expired t now =
     (let (es, n) = cleanup_entries now (ct_entries t) (ct_count t)
      in t\<lparr>ct_entries := es, ct_count := n\<rparr>)"

definition ct_len :: "capability_table \<Rightarrow> nat" where
  "ct_len t = ct_count t"

definition ct_is_empty :: "capability_table \<Rightarrow> bool" where
  "ct_is_empty t \<longleftrightarrow> ct_count t = 0"

text \<open>The table's invariant: 64 slots, one entry per object, and a count that is right.\<close>

definition ct_wf :: "capability_table \<Rightarrow> bool" where
  "ct_wf t \<longleftrightarrow> length (ct_entries t) = MAX_CAPS
     \<and> slot_uniq cap_live cap_key (ct_entries t)
     \<and> ct_count t = live_count cap_live (ct_entries t)"

section \<open>Capability sets are sets\<close>

lemma cap_index_lt [simp]: "cap_index c < 8"
  by (cases c) simp_all

lemma cap_index_inj [simp]: "cap_index c = cap_index d \<longleftrightarrow> c = d"
  by (cases c; cases d) simp_all

lemma cap_index_surj: "n < 8 \<Longrightarrow> \<exists>c. cap_index c = n"
proof -
  assume "n < 8"
  then have "n \<in> {0, 1, 2, 3, 4, 5, 6, 7}" by auto
  then show ?thesis
    by (auto intro: exI [of _ Read] exI [of _ Write] exI [of _ Execute] exI [of _ Delete]
        exI [of _ Link] exI [of _ ChangeTier] exI [of _ Delegate] exI [of _ Owner])
qed

lemma cap_from_u8_index: "cap_from_u8 (of_nat (cap_index c)) = Some c"
  by (cases c) (simp_all add: cap_from_u8_def)

lemma cs_has_bit: "cs_has s c \<longleftrightarrow> bit (cs_bits s) (cap_index c)"
proof
  assume "cs_has s c"
  then obtain n where "bit (cs_bits s AND cap_mask c) n"
    unfolding cs_has_def by (metis bit_eqI bit_0_eq bot_apply bot_bool_def)
  then show "bit (cs_bits s) (cap_index c)"
    by (auto simp: cap_mask_def bit_simps)
next
  assume "bit (cs_bits s) (cap_index c)"
  then have "bit (cs_bits s AND cap_mask c) (cap_index c)"
    by (simp add: cap_mask_def bit_simps)
  then show "cs_has s c"
    unfolding cs_has_def by (metis bit_0_eq bot_apply bot_bool_def)
qed

lemma cs_has_grant [simp]: "cs_has (cs_grant s c) d \<longleftrightarrow> c = d \<or> cs_has s d"
  by (auto simp: cs_has_bit cs_grant_def cap_mask_def bit_simps)

lemma cs_has_revoke [simp]: "cs_has (cs_revoke s c) d \<longleftrightarrow> c \<noteq> d \<and> cs_has s d"
  by (auto simp: cs_has_bit cs_revoke_def cap_mask_def bit_simps)

lemma cs_has_union [simp]: "cs_has (cs_union s t) c \<longleftrightarrow> cs_has s c \<or> cs_has t c"
  by (auto simp: cs_has_bit cs_union_def bit_simps)

lemma cs_has_intersect [simp]: "cs_has (cs_intersect s t) c \<longleftrightarrow> cs_has s c \<and> cs_has t c"
  by (auto simp: cs_has_bit cs_intersect_def bit_simps)

lemma cs_has_empty [simp]: "\<not> cs_has cs_empty c"
  by (simp add: cs_has_bit cs_empty_def)

lemma cs_has_from_cap [simp]: "cs_has (cs_from_cap c) d \<longleftrightarrow> c = d"
  by (auto simp: cs_has_bit cs_from_cap_def bit_simps)

lemma cs_has_all [simp]: "cs_has cs_all c"
  by (cases c) (simp_all add: cs_has_def cs_all_def cap_mask_def)

lemma cs_eqI: "(\<And>c. cs_has s c \<longleftrightarrow> cs_has t c) \<Longrightarrow> s = (t :: capability_set)"
proof -
  assume *: "\<And>c. cs_has s c \<longleftrightarrow> cs_has t c"
  have "cs_bits s = cs_bits t"
  proof (rule bit_word_eqI)
    fix n assume "n < LENGTH(8)"
    then obtain c where "cap_index c = n" using cap_index_surj [of n] by auto
    with * [of c] show "bit (cs_bits s) n = bit (cs_bits t) n"
      by (simp add: cs_has_bit)
  qed
  then show "s = t" by (cases s; cases t) simp
qed

lemma cs_contains_all_iff: "cs_contains_all s t \<longleftrightarrow> (\<forall>c. cs_has t c \<longrightarrow> cs_has s c)"
proof
  assume "cs_contains_all s t"
  then show "\<forall>c. cs_has t c \<longrightarrow> cs_has s c"
    by (metis bit_and_iff cs_contains_all_def cs_has_bit)
next
  assume "\<forall>c. cs_has t c \<longrightarrow> cs_has s c"
  then have "cs_intersect s t = t" by (intro cs_eqI) auto
  then show "cs_contains_all s t"
    by (metis capability_set.select_convs(1) cs_contains_all_def cs_intersect_def)
qed

lemma cs_is_empty_iff: "cs_is_empty s \<longleftrightarrow> (\<forall>c. \<not> cs_has s c)"
proof -
  have "cs_is_empty s \<longleftrightarrow> s = cs_empty"
    by (cases s) (simp add: cs_is_empty_def cs_empty_def)
  also have "\<dots> \<longleftrightarrow> (\<forall>c. \<not> cs_has s c)"
    by (auto intro: cs_eqI)
  finally show ?thesis .
qed

section \<open>The table\<close>

interpretation cap_slots: slot_table cap_live cap_key "None :: capability option"
  by unfold_locales simp

lemmas ct_slot_facts = cap_slots.lookup_put cap_slots.lookup_clear cap_slots.uniq_put
  cap_slots.uniq_clear cap_slots.live_count_put_free cap_slots.live_count_put_live

lemma ct_wf_new: "ct_wf ct_new"
  by (simp add: ct_wf_def ct_new_def)

lemma ct_lookup_new [simp]: "ct_lookup ct_new k = None"
  by (simp add: ct_lookup_def ct_new_def)

text \<open>What the two scans of \<open>ct_insert\<close> find, as facts on the slots.\<close>

lemma cap_live_iff: "cap_live e \<longleftrightarrow> (\<exists>c. e = Some c)"
  by (cases e) auto

lemma not_cap_live_iff [simp]: "\<not> cap_live e \<longleftrightarrow> e = None"
  by (cases e) auto

lemma ct_insert_cases:
  fixes t :: capability_table
  obtains (merge) i old where "i < length (ct_entries t)" "ct_entries t ! i = Some old"
      "cap_target old = cap_target cap"
      "ct_insert t cap = (t\<lparr>ct_entries := (ct_entries t)[i := Some (old\<lparr>cap_caps :=
         cs_union (cap_caps old) (cap_caps cap)\<rparr>)]\<rparr>, True)"
  | (fresh) i where "i < length (ct_entries t)" "ct_entries t ! i = None"
      "\<forall>e \<in> set (ct_entries t). cap_live e \<longrightarrow> cap_key e \<noteq> cap_target cap"
      "ct_insert t cap
         = (t\<lparr>ct_entries := (ct_entries t)[i := Some cap], ct_count := ct_count t + 1\<rparr>, True)"
  | (full) "\<forall>e \<in> set (ct_entries t). cap_live e"
      "\<forall>e \<in> set (ct_entries t). cap_live e \<longrightarrow> cap_key e \<noteq> cap_target cap"
      "ct_insert t cap = (t, False)"
proof (cases "position (\<lambda>e. cap_live e \<and> cap_key e = cap_target cap) (ct_entries t)")
  case (Some i)
  from position_SomeD [OF this] obtain old
    where "i < length (ct_entries t)" "ct_entries t ! i = Some old" "cap_target old = cap_target cap"
    by (auto simp: cap_live_iff)
  with Some show ?thesis by (intro merge) (simp_all add: ct_insert_def)
next
  case None
  then have none: "\<forall>e \<in> set (ct_entries t). cap_live e \<longrightarrow> cap_key e \<noteq> cap_target cap"
    by (auto simp: position_None_iff)
  show ?thesis
  proof (cases "position (\<lambda>e. \<not> cap_live e) (ct_entries t)")
    case (Some i)
    from position_SomeD [OF this] have "i < length (ct_entries t)" "ct_entries t ! i = None"
      by auto
    with Some None none show ?thesis by (intro fresh) (simp_all add: ct_insert_def)
  next
    case None': None
    with None have "ct_insert t cap = (t, False)" by (simp add: ct_insert_def)
    with None' none show ?thesis
      by (intro full) (auto simp: position_None_iff)
  qed
qed

lemma ct_merge_slots:
  assumes "ct_wf t" "i < length (ct_entries t)" "ct_entries t ! i = Some old"
    and "cap_target c = cap_target old"
  shows "slot_uniq cap_live cap_key ((ct_entries t)[i := Some c])"
    and "slot_lookup cap_live cap_key ((ct_entries t)[i := Some c]) k
      = (if k = cap_target c then Some (Some c)
         else slot_lookup cap_live cap_key (ct_entries t) k)"
proof -
  have u: "slot_uniq cap_live cap_key (ct_entries t)" using assms(1) by (simp add: ct_wf_def)
  have others: "\<And>j. j < length (ct_entries t) \<Longrightarrow> j \<noteq> i \<Longrightarrow> cap_live (ct_entries t ! j) \<Longrightarrow>
      cap_key (ct_entries t ! j) \<noteq> cap_key (Some c)"
    using u assms(2-4) unfolding slot_uniq_def by fastforce
  show "slot_uniq cap_live cap_key ((ct_entries t)[i := Some c])"
    by (rule cap_slots.uniq_put [OF u assms(2)]) (rule others)
  show "slot_lookup cap_live cap_key ((ct_entries t)[i := Some c]) k
      = (if k = cap_target c then Some (Some c)
         else slot_lookup cap_live cap_key (ct_entries t) k)"
    using cap_slots.lookup_put [OF u assms(2) _ others] assms(3,4) by simp
qed

lemma ct_fresh_slots:
  assumes "ct_wf t" "i < length (ct_entries t)" "ct_entries t ! i = None"
    and "\<forall>e \<in> set (ct_entries t). cap_live e \<longrightarrow> cap_key e \<noteq> cap_target c"
  shows "slot_uniq cap_live cap_key ((ct_entries t)[i := Some c])"
    and "slot_lookup cap_live cap_key ((ct_entries t)[i := Some c]) k
      = (if k = cap_target c then Some (Some c)
         else slot_lookup cap_live cap_key (ct_entries t) k)"
proof -
  have u: "slot_uniq cap_live cap_key (ct_entries t)" using assms(1) by (simp add: ct_wf_def)
  have others: "\<And>j. j < length (ct_entries t) \<Longrightarrow> j \<noteq> i \<Longrightarrow> cap_live (ct_entries t ! j) \<Longrightarrow>
      cap_key (ct_entries t ! j) \<noteq> cap_key (Some c)"
    using assms(4) by auto
  show "slot_uniq cap_live cap_key ((ct_entries t)[i := Some c])"
    by (rule cap_slots.uniq_put [OF u assms(2)]) (rule others)
  show "slot_lookup cap_live cap_key ((ct_entries t)[i := Some c]) k
      = (if k = cap_target c then Some (Some c)
         else slot_lookup cap_live cap_key (ct_entries t) k)"
    using cap_slots.lookup_put [OF u assms(2) _ others] assms(3) by simp
qed

lemma ct_wf_insert: "ct_wf t \<Longrightarrow> ct_wf (fst (ct_insert t cap))"
  by (cases rule: ct_insert_cases [where t = t and cap = cap])
    (auto simp: ct_wf_def ct_merge_slots ct_fresh_slots cap_slots.live_count_put_live
      cap_slots.live_count_put_free intro: ct_merge_slots(1) ct_fresh_slots(1))

lemma ct_lookup_insert:
  assumes "ct_wf t" and "snd (ct_insert t cap)"
  shows "ct_lookup (fst (ct_insert t cap)) k =
    (if k \<noteq> cap_target cap then ct_lookup t k
     else case ct_lookup t k of
            None \<Rightarrow> Some cap
          | Some old \<Rightarrow> Some (old\<lparr>cap_caps := cs_union (cap_caps old) (cap_caps cap)\<rparr>))"
proof (cases rule: ct_insert_cases [where t = t and cap = cap])
  case (merge i old)
  have "slot_uniq cap_live cap_key (ct_entries t)" using assms(1) by (simp add: ct_wf_def)
  with merge have "slot_lookup cap_live cap_key (ct_entries t) (cap_target cap) = Some (Some old)"
    by (auto simp: cap_slots.lookup_Some_iff in_set_conv_nth)
  with merge assms(1) show ?thesis
    by (auto simp: ct_lookup_def ct_merge_slots(2))
next
  case (fresh i)
  then have "slot_lookup cap_live cap_key (ct_entries t) (cap_target cap) = None"
    by (simp add: cap_slots.lookup_None_iff)
  with fresh assms(1) show ?thesis
    by (auto simp: ct_lookup_def ct_fresh_slots(2))
next
  case full
  with assms(2) show ?thesis by simp
qed

lemma ct_insert_fails_iff:
  assumes "ct_wf t"
  shows "\<not> snd (ct_insert t cap) \<longleftrightarrow> ct_count t = MAX_CAPS \<and> ct_lookup t (cap_target cap) = None"
proof -
  have full: "ct_count t = MAX_CAPS \<longleftrightarrow> (\<forall>e \<in> set (ct_entries t). cap_live e)"
    using assms cap_slots.all_live_iff_full [of "ct_entries t"]
    by (auto simp: ct_wf_def position_None_iff)
  have none: "ct_lookup t (cap_target cap) = None \<longleftrightarrow>
      (\<forall>e \<in> set (ct_entries t). cap_live e \<longrightarrow> cap_key e \<noteq> cap_target cap)"
    by (simp add: ct_lookup_def cap_slots.lookup_None_iff)
  show ?thesis
  proof (cases rule: ct_insert_cases [where t = t and cap = cap])
    case (merge i old)
    then have "Some old \<in> set (ct_entries t)" by (auto simp: in_set_conv_nth)
    with merge none show ?thesis by auto
  next
    case (fresh i)
    then have "None \<in> set (ct_entries t)" by (auto simp: in_set_conv_nth)
    with fresh full show ?thesis by auto
  next
    case full': full
    with full none show ?thesis by simp
  qed
qed

lemma ct_remove_cases:
  fixes t :: capability_table
  obtains (found) i old where "i < length (ct_entries t)" "ct_entries t ! i = Some old"
      "cap_target old = k"
      "ct_remove t k = (t\<lparr>ct_entries := (ct_entries t)[i := None], ct_count := ct_count t - 1\<rparr>, True)"
  | (absent) "\<forall>e \<in> set (ct_entries t). cap_live e \<longrightarrow> cap_key e \<noteq> k" "ct_remove t k = (t, False)"
proof (cases "position (\<lambda>e. cap_live e \<and> cap_key e = k) (ct_entries t)")
  case (Some i)
  from position_SomeD [OF this] obtain old
    where "i < length (ct_entries t)" "ct_entries t ! i = Some old" "cap_target old = k"
    by (auto simp: cap_live_iff)
  with Some show ?thesis by (intro found) (simp_all add: ct_remove_def)
next
  case None
  then have "ct_remove t k = (t, False)" by (simp add: ct_remove_def)
  with None show ?thesis by (intro absent) (auto simp: position_None_iff)
qed

lemma ct_wf_remove: "ct_wf t \<Longrightarrow> ct_wf (fst (ct_remove t k))"
proof (cases rule: ct_remove_cases [where t = t and k = k])
  case (found i old)
  assume "ct_wf t"
  moreover from found have "Suc (live_count cap_live ((ct_entries t)[i := None]))
      = live_count cap_live (ct_entries t)"
    by (intro cap_slots.live_count_clear) auto
  ultimately show ?thesis
    using found by (auto simp: ct_wf_def intro: cap_slots.uniq_clear)
qed simp

lemma ct_lookup_remove:
  assumes "ct_wf t"
  shows "ct_lookup (fst (ct_remove t k)) k' = (if k' = k then None else ct_lookup t k')"
proof (cases rule: ct_remove_cases [where t = t and k = k])
  case (found i old)
  have "slot_uniq cap_live cap_key (ct_entries t)" using assms by (simp add: ct_wf_def)
  from cap_slots.lookup_clear [OF this, of i None k'] found show ?thesis
    by (simp add: ct_lookup_def)
next
  case absent
  then show ?thesis by (auto simp: ct_lookup_def cap_slots.lookup_None_iff)
qed

subsection \<open>Expiry\<close>

fun expire_slot :: "u64 \<Rightarrow> capability option \<Rightarrow> capability option" where
  "expire_slot now None = None"
| "expire_slot now (Some c) = (if cap_is_expired c now then None else Some c)"

lemma expire_slot_Some_iff:
  "expire_slot now e = Some c \<longleftrightarrow> e = Some c \<and> \<not> cap_is_expired c now"
  by (cases e) auto

lemma expire_slot_live:
  "cap_live (expire_slot now e) \<Longrightarrow> expire_slot now e = e"
  by (auto simp: cap_live_iff expire_slot_Some_iff)

lemma live_count_expire:
  "live_count cap_live (map (expire_slot now) es) \<le> live_count cap_live es"
proof (induction es)
  case (Cons e es)
  then show ?case using expire_slot_live [of now e] by auto
qed simp

lemma cleanup_entries_eq:
  "live_count cap_live es \<le> n \<Longrightarrow>
     cleanup_entries now es n
       = (map (expire_slot now) es,
          n - (live_count cap_live es - live_count cap_live (map (expire_slot now) es)))"
proof (induction es arbitrary: n)
  case Nil
  then show ?case by simp
next
  case (Cons e es)
  note le = live_count_expire [of now es]
  show ?case
  proof (cases e)
    case None
    with Cons show ?thesis by simp
  next
    case (Some c)
    show ?thesis
    proof (cases "cap_is_expired c now")
      case True
      with Some Cons.prems Cons.IH [of "n - 1"] le show ?thesis
        by (simp add: Suc_diff_le)
    next
      case False
      with Some Cons.prems Cons.IH [of n] le show ?thesis by simp
    qed
  qed
qed

lemma ct_cleanup_eq:
  assumes "ct_wf t"
  shows "ct_cleanup_expired t now =
    t\<lparr>ct_entries := map (expire_slot now) (ct_entries t),
      ct_count := live_count cap_live (map (expire_slot now) (ct_entries t))\<rparr>"
  using assms live_count_expire [of now "ct_entries t"]
  by (simp add: ct_cleanup_expired_def cleanup_entries_eq ct_wf_def)

lemma ct_wf_cleanup: "ct_wf t \<Longrightarrow> ct_wf (ct_cleanup_expired t now)"
proof -
  assume wf: "ct_wf t"
  have "slot_uniq cap_live cap_key (map (expire_slot now) (ct_entries t))"
    using wf unfolding ct_wf_def slot_uniq_def
    by (simp add: expire_slot_live) (metis expire_slot_live)
  with wf show ?thesis by (simp add: ct_cleanup_eq ct_wf_def)
qed

lemma ct_lookup_cleanup:
  assumes "ct_wf t"
  shows "ct_lookup (ct_cleanup_expired t now) k =
    (case ct_lookup t k of None \<Rightarrow> None | Some c \<Rightarrow> if cap_is_expired c now then None else Some c)"
proof -
  have u: "slot_uniq cap_live cap_key (ct_entries t)" using assms by (simp add: ct_wf_def)
  have u': "slot_uniq cap_live cap_key (map (expire_slot now) (ct_entries t))"
    using ct_wf_cleanup [OF assms, of now] by (simp add: ct_wf_def ct_cleanup_eq [OF assms])
  let ?l = "slot_lookup cap_live cap_key (ct_entries t) k"
  let ?l' = "slot_lookup cap_live cap_key (map (expire_slot now) (ct_entries t)) k"
  have iff: "?l' = Some (Some c) \<longleftrightarrow> ?l = Some (Some c) \<and> \<not> cap_is_expired c now" for c
    unfolding cap_slots.lookup_Some_iff [OF u] cap_slots.lookup_Some_iff [OF u']
    by (auto simp: image_iff eq_commute [of "Some _" "expire_slot _ _"] expire_slot_Some_iff)
  have live: "slot_lookup cap_live cap_key es k = Some s \<Longrightarrow> \<exists>c. s = Some c" for es s
    by (auto dest: cap_slots.lookup_SomeD simp: cap_live_iff)
  have "?l' = (case ?l of None \<Rightarrow> None | Some s \<Rightarrow> if cap_is_expired (the s) now then None else ?l)"
  proof (cases ?l')
    case None
    then show ?thesis using iff live [of "ct_entries t"] by (fastforce split: option.split)
  next
    case (Some s)
    then obtain c where "s = Some c" using live by blast
    with Some iff [of c] show ?thesis by auto
  qed
  then show ?thesis
    by (auto simp: ct_lookup_def ct_cleanup_eq [OF assms] split: option.splits)
qed

section \<open>Properties\<close>

text \<open>
  (C35) Delegation never amplifies authority: a delegated capability is for the same object, allows an
  operation only if both the original and the requested set allow it, expires no later than the
  original, and cannot be delegated further; delegation is possible only from a capability that is
  delegatable and holds the delegate right.
\<close>

theorem delegation_never_amplifies:
  assumes "cap_delegate c new_caps = Some d"
  shows "cap_target d = cap_target c
    \<and> (\<forall>r. cap_allows d r = (cap_allows c r \<and> cs_has new_caps r))
    \<and> (\<forall>now. cap_is_expired d now = cap_is_expired c now)
    \<and> (\<forall>caps. cap_delegate d caps = None)
    \<and> cap_delegatable c \<and> cap_allows c Delegate"
  using assms
  by (auto simp: cap_delegate_def cap_allows_def cap_is_expired_def split: if_splits)

theorem delegation_never_amplifies_witness:
  "let c = (cap_new (suid_system 1) cs_all)\<lparr>cap_delegatable := True\<rparr>
   in cap_delegate c (cs_from_cap Read) \<noteq> None
      \<and> \<not> cap_allows (the (cap_delegate c (cs_from_cap Read))) Write"
proof -
  let ?c = "(cap_new (suid_system 1) cs_all)\<lparr>cap_delegatable := True\<rparr>"
  obtain d where d: "cap_delegate ?c (cs_from_cap Read) = Some d"
    by (simp add: cap_delegate_def cap_new_def)
  from delegation_never_amplifies [OF d] d show ?thesis by simp
qed

text \<open>
  The access check of the capability table is exact. In every well-formed table: a newly inserted
  capability for an object without entry is the one the check consults for that object, and no other
  object is affected; a removal revokes everything for that object and nothing else; purging expired
  entries never changes the outcome of a check made at the purge time or later.
\<close>

theorem capability_check_exact:
  assumes wf: "ct_wf t" and new: "ct_lookup t (cap_target cap) = None" and ok: "snd (ct_insert t cap)"
    and later: "now \<le> now'"
  shows "ct_check (fst (ct_insert t cap)) k r now'
      = (if k = cap_target cap then \<not> cap_is_expired cap now' \<and> cap_allows cap r else ct_check t k r now')
    \<and> ct_check (fst (ct_remove t q)) k r now' = (k \<noteq> q \<and> ct_check t k r now')
    \<and> ct_check (ct_cleanup_expired t now) k r now' = ct_check t k r now'
    \<and> ct_wf (fst (ct_insert t cap)) \<and> ct_wf (fst (ct_remove t q)) \<and> ct_wf (ct_cleanup_expired t now)"
proof -
  have "cap_is_expired c now \<Longrightarrow> cap_is_expired c now'" for c
    using later by (auto simp: cap_is_expired_def)
  then have "ct_check (ct_cleanup_expired t now) k r now' = ct_check t k r now'"
    by (auto simp: ct_check_def ct_lookup_cleanup [OF wf] split: option.splits)
  moreover have "ct_check (fst (ct_insert t cap)) k r now'
      = (if k = cap_target cap then \<not> cap_is_expired cap now' \<and> cap_allows cap r else ct_check t k r now')"
    using new by (simp add: ct_check_def ct_lookup_insert [OF wf ok])
  moreover have "ct_check (fst (ct_remove t q)) k r now' = (k \<noteq> q \<and> ct_check t k r now')"
    by (simp add: ct_check_def ct_lookup_remove [OF wf])
  ultimately show ?thesis using wf ct_wf_insert ct_wf_remove ct_wf_cleanup by blast
qed

theorem capability_check_exact_witness:
  "ct_wf ct_new \<and> snd (ct_insert ct_new (cap_with_expiry (suid_system 1) cs_read_only 5))
   \<and> ct_check (fst (ct_insert ct_new (cap_with_expiry (suid_system 1) cs_read_only 5))) (suid_system 1) Read 5
   \<and> \<not> ct_check (fst (ct_insert ct_new (cap_with_expiry (suid_system 1) cs_read_only 5))) (suid_system 1) Write 5"
proof -
  let ?c = "cap_with_expiry (suid_system 1) cs_read_only 5"
  have ok: "snd (ct_insert ct_new ?c)"
    using ct_insert_fails_iff [OF ct_wf_new, of ?c] by (simp add: ct_new_def MAX_CAPS_def)
  have n: "ct_lookup ct_new (cap_target ?c) = None" by simp
  have "cap_allows ?c Read" "\<not> cap_allows ?c Write" "\<not> cap_is_expired ?c 5" "cap_target ?c = suid_system 1"
    by (simp_all add: cap_allows_def cap_with_expiry_def cs_has_def cs_read_only_def cap_mask_def cap_is_expired_def)
  with capability_check_exact [OF ct_wf_new n ok order_refl, of "suid_system 1" _ 5] ok ct_wf_new
  show ?thesis by simp
qed

text \<open>
  Merging drops the expiry of the new grant. When a table already has a never-expiring entry for
  an object, a capability for it that was granted with an expiry is merged into that entry, and its
  rights are then honoured at every later time.
\<close>

theorem merged_grant_never_expires:
  assumes "ct_wf t" and "ct_lookup t k = Some old" and "cap_expires_at old = 0" and "cs_has caps r"
  shows "ct_check (fst (ct_insert t (cap_with_expiry k caps e))) k r now"
proof -
  have t: "cap_target (cap_with_expiry k caps e) = k" by (simp add: cap_with_expiry_def)
  have ok: "snd (ct_insert t (cap_with_expiry k caps e))"
    using ct_insert_fails_iff [OF assms(1), of "cap_with_expiry k caps e"] assms(2) t by auto
  have "cap_caps (cap_with_expiry k caps e) = caps" by (simp add: cap_with_expiry_def)
  then show ?thesis
    using assms(2-4) t
    by (simp add: ct_check_def ct_lookup_insert [OF assms(1) ok] cap_is_expired_def cap_allows_def)
qed

theorem merged_grant_never_expires_witness:
  "let t = fst (ct_insert ct_new (cap_new (suid_system 1) cs_read_only))
   in ct_wf t \<and> ct_lookup t (suid_system 1) = Some (cap_new (suid_system 1) cs_read_only)
      \<and> ct_check (fst (ct_insert t (cap_with_expiry (suid_system 1) cs_all 5))) (suid_system 1) Delete 1000"
proof -
  let ?c = "cap_new (suid_system 1) cs_read_only"
  let ?t = "fst (ct_insert ct_new ?c)"
  have ok: "snd (ct_insert ct_new ?c)"
    using ct_insert_fails_iff [OF ct_wf_new, of ?c] by (simp add: ct_new_def MAX_CAPS_def)
  have w: "ct_wf ?t" by (rule ct_wf_insert [OF ct_wf_new])
  have l: "ct_lookup ?t (suid_system 1) = Some ?c"
    using ct_lookup_insert [OF ct_wf_new ok, of "suid_system 1"] by (simp add: cap_new_def)
  have "cap_expires_at ?c = 0" by (simp add: cap_new_def)
  from merged_grant_never_expires [OF w l this cs_has_all] w l show ?thesis by simp
qed

end
