(* ===== verification/Heap.thy ===== *)
theory Heap
  imports Prelude
begin

text \<open>
  The kernel heap: \<^verbatim>\<open>src/kernel-core/src/memory/heap.rs\<close>, a first-fit free list over
  a 16 MiB arena. The list threaded through the arena by \<^verbatim>\<open>FreeBlock.next\<close> is the list
  of its blocks \<open>(address, size)\<close> in link order; the \<^verbatim>\<open>UsedBlock\<close> header that sits
  before a returned pointer is the entry of \<open>hp_used\<close> at that pointer. Addresses and sizes
  are natural numbers, with the wrap-around of \<^verbatim>\<open>usize\<close> written out for every sum that depends on
  a requested size. Addresses do not wrap: the arena is a static array of the kernel, and its end is more than
  a page below the end of the address space. The theory shows that the heap's invariant is kept, that an allocation
  is aligned, lies in free memory and is taken out of it, and that freeing gives its block back.
\<close>

section \<open>Definitions\<close>

definition HEAP_SIZE :: nat where "HEAP_SIZE = 16 * 1024 * 1024"
definition MIN_BLOCK_SIZE :: nat where "MIN_BLOCK_SIZE = 32"
definition HEADER_SIZE :: nat where "HEADER_SIZE = 16"

record heap =
  hp_init :: bool
  hp_free :: "(nat \<times> nat) list"
  hp_used :: "nat \<rightharpoonup> nat \<times> nat"

text \<open>The statics before \<^verbatim>\<open>init\<close>.\<close>

definition heap_boot :: heap where
  "heap_boot = \<lparr>hp_init = False, hp_free = [], hp_used = Map.empty\<rparr>"

definition heap_init :: "nat \<Rightarrow> heap \<Rightarrow> heap" where
  "heap_init arena h = h\<lparr>hp_init := True, hp_free := [(arena, HEAP_SIZE)]\<rparr>"

text \<open>\<^verbatim>\<open>(used_bytes, free_bytes, free_block_count)\<close>.\<close>

definition heap_stats :: "heap \<Rightarrow> nat \<times> nat \<times> nat" where
  "heap_stats h =
     (if \<not> hp_init h then (0, 0, 0)
      else (let free_bytes = sum_list (map snd (hp_free h))
            in (HEAP_SIZE - free_bytes, free_bytes, length (hp_free h))))"

text \<open>\<^verbatim>\<open>usize\<close> addition in the release profile.\<close>

definition add_usize :: "nat \<Rightarrow> nat \<Rightarrow> nat" where
  "add_usize a b = (a + b) mod 2 ^ 64"

definition sub_usize :: "nat \<Rightarrow> nat \<Rightarrow> nat" where
  "sub_usize a b = (a + 2 ^ 64 - b) mod 2 ^ 64"

definition is_power_of_two :: "nat \<Rightarrow> bool" where
  "is_power_of_two n \<longleftrightarrow> n \<noteq> 0 \<and> n AND (n - 1) = 0"

text \<open>\<^verbatim>\<open>x & !(a - 1)\<close> for a power of two \<open>a\<close>.\<close>

definition align_down :: "nat \<Rightarrow> nat \<Rightarrow> nat" where
  "align_down x a = x div a * a"

definition total_needed :: "nat \<Rightarrow> nat" where
  "total_needed n =
     (let payload = (if n < HEADER_SIZE then HEADER_SIZE else n);
          payload = align_down (add_usize payload (HEADER_SIZE - 1)) HEADER_SIZE
      in add_usize HEADER_SIZE payload)"

text \<open>
  The search loop. A hit gives the payload address, the alignment offset, the bytes the
  allocation takes and the new free list.
\<close>

fun first_fit :: "nat \<Rightarrow> nat \<Rightarrow> (nat \<times> nat) list \<Rightarrow> (nat \<times> nat \<times> nat \<times> (nat \<times> nat) list) option"
where
  "first_fit tn align [] = None"
| "first_fit tn align ((block_addr, block_size) # rest) =
     (let payload_addr = align_down (block_addr + HEADER_SIZE + align - 1) align;
          aligned_offset = payload_addr - (block_addr + HEADER_SIZE);
          needed_with_align = add_usize tn aligned_offset
      in if block_size \<ge> needed_with_align
         then (let remaining = block_size - needed_with_align
               in Some (payload_addr, aligned_offset, needed_with_align,
                        if remaining \<ge> MIN_BLOCK_SIZE
                        then (block_addr + needed_with_align, remaining) # rest
                        else rest))
         else map_option (\<lambda>(p, off, n, fl). (p, off, n, (block_addr, block_size) # fl))
                (first_fit tn align rest))"

text \<open>The pointer is \<open>0\<close> when the allocation fails.\<close>

definition heap_allocate :: "heap \<Rightarrow> nat \<Rightarrow> nat \<Rightarrow> heap \<times> nat" where
  "heap_allocate h n align =
     (if \<not> hp_init h then (h, 0)
      else if n = 0 \<or> align = 0 \<or> \<not> is_power_of_two align \<or> align > 4096 then (h, 0)
      else case first_fit (total_needed n) align (hp_free h) of
             Some (payload_addr, aligned_offset, needed_with_align, fl) \<Rightarrow>
               (h\<lparr>hp_free := fl,
                  hp_used := (hp_used h)(payload_addr \<mapsto>
                    (sub_usize needed_with_align aligned_offset, aligned_offset))\<rparr>, payload_addr)
           | None \<Rightarrow> (h, 0))"

text \<open>
  Insertion in address order, then the two coalescing steps; \<open>before\<close> are the blocks the
  first loop walks over.
\<close>

definition free_insert :: "nat \<Rightarrow> nat \<Rightarrow> (nat \<times> nat) list \<Rightarrow> (nat \<times> nat) list" where
  "free_insert block_base total_size fl =
     (let lower = takeWhile (\<lambda>b. fst b < block_base) fl;
          cur = dropWhile (\<lambda>b. fst b < block_base) fl;
          (size1, rest) =
            (case cur of
               [] \<Rightarrow> (total_size, [])
             | (next, next_size) # after \<Rightarrow>
                 if block_base + total_size = next then (total_size + next_size, after)
                 else (total_size, cur))
      in if lower \<noteq> [] \<and> fst (last lower) + snd (last lower) = block_base
         then butlast lower @ (fst (last lower), snd (last lower) + size1) # rest
         else lower @ (block_base, size1) # rest)"

text \<open>
  A pointer that carries no header (one \<open>heap_allocate\<close> did not return) makes the code
  read foreign memory: the model has no result there.
\<close>

definition heap_deallocate :: "heap \<Rightarrow> nat \<Rightarrow> heap option" where
  "heap_deallocate h ptr =
     (if ptr = 0 \<or> \<not> hp_init h then Some h
      else case hp_used h ptr of
             None \<Rightarrow> None
           | Some (block_size, aligned_offset) \<Rightarrow>
               Some (h\<lparr>hp_free := free_insert (ptr - HEADER_SIZE - aligned_offset)
                          (block_size + aligned_offset) (hp_free h),
                       hp_used := (hp_used h)(ptr := None)\<rparr>))"

section \<open>Free memory as a set of addresses\<close>

definition covered :: "(nat \<times> nat) list \<Rightarrow> nat set" where
  "covered fl = (\<Union>(a, s) \<in> set fl. {a..<a + s})"

text \<open>Sorted by address, no two blocks touch, all inside the arena.\<close>

fun free_ok :: "nat \<Rightarrow> nat \<Rightarrow> (nat \<times> nat) list \<Rightarrow> bool" where
  "free_ok lo hi [] \<longleftrightarrow> True"
| "free_ok lo hi ((a, s) # fl) \<longleftrightarrow> lo \<le> a \<and> 16 \<le> s \<and> a + s \<le> hi \<and> free_ok (a + s + 1) hi fl"

text \<open>The bytes a used block takes, header and alignment gap included.\<close>

definition extent :: "nat \<Rightarrow> nat \<times> nat \<Rightarrow> nat set" where
  "extent p hdr = {p - 16 - snd hdr..<p - 16 + fst hdr}"

definition heap_inv :: "nat \<Rightarrow> heap \<Rightarrow> bool" where
  "heap_inv arena h \<longleftrightarrow>
     free_ok arena (arena + HEAP_SIZE) (hp_free h)
     \<and> (\<forall>p sz off. hp_used h p = Some (sz, off) \<longrightarrow>
          arena + 16 + off \<le> p \<and> 16 \<le> sz \<and> p - 16 + sz \<le> arena + HEAP_SIZE
          \<and> extent p (sz, off) \<inter> covered (hp_free h) = {})
     \<and> (\<forall>p q hp hq. hp_used h p = Some hp \<longrightarrow> hp_used h q = Some hq \<longrightarrow> p \<noteq> q \<longrightarrow>
          extent p hp \<inter> extent q hq = {})"

lemma covered_Nil [simp]: "covered [] = {}"
  by (simp add: covered_def)

lemma covered_Cons [simp]: "covered ((a, s) # fl) = {a..<a + s} \<union> covered fl"
  by (simp add: covered_def)

lemma covered_append [simp]: "covered (xs @ ys) = covered xs \<union> covered ys"
  by (simp add: covered_def)

lemma free_ok_mono: "free_ok lo hi fl \<Longrightarrow> lo' \<le> lo \<Longrightarrow> free_ok lo' hi fl"
  by (induction fl rule: free_ok.induct [of _ lo hi]) auto

lemma free_ok_mem: "free_ok lo hi fl \<Longrightarrow> (a, s) \<in> set fl \<Longrightarrow> lo \<le> a \<and> 16 \<le> s \<and> a + s \<le> hi"
  by (induction lo hi fl rule: free_ok.induct) auto

lemma free_ok_covered: "free_ok lo hi fl \<Longrightarrow> covered fl \<subseteq> {lo..<hi}"
  by (induction lo hi fl rule: free_ok.induct) auto

lemma free_ok_append:
  "free_ok lo hi (xs @ (a, s) # ys) \<longleftrightarrow>
     free_ok lo hi xs \<and> (\<forall>(b, t) \<in> set xs. b + t < a) \<and> lo \<le> a \<and> 16 \<le> s \<and> a + s \<le> hi
     \<and> free_ok (a + s + 1) hi ys"
  by (induction xs arbitrary: lo) auto

section \<open>Allocation\<close>

lemma align_down_ge: "0 < a \<Longrightarrow> x \<le> align_down (x + a - 1) a"
proof -
  assume "0 < a"
  have "x + a - 1 = (x + a - 1) div a * a + (x + a - 1) mod a" by simp
  moreover have "(x + a - 1) mod a < a" using \<open>0 < a\<close> by (rule mod_less_divisor)
  ultimately show ?thesis using \<open>0 < a\<close> unfolding align_down_def by linarith
qed

lemma align_down_less: "0 < a \<Longrightarrow> align_down (x + a - 1) a < x + a"
  unfolding align_down_def using div_times_less_eq_dividend [of "x + a - 1" a] by linarith

lemma align_down_dvd [simp]: "a dvd align_down x a"
  by (simp add: align_down_def)

text \<open>What a hit of the search means for the set of free addresses.\<close>

lemma first_fit_Some:
  assumes "free_ok lo hi fl" and "0 < align" and "first_fit tn align fl = Some (p, off, need, fl')" and "tn + align \<le> 2 ^ 64"
  shows "\<exists>a s. (a, s) \<in> set fl \<and> p = a + 16 + off \<and> align dvd p \<and> need = tn + off \<and> need \<le> s \<and> off < align
    \<and> free_ok lo hi fl' \<and> covered fl' = covered fl - {a..<a + (if s - need \<ge> 32 then need else s)}"
  using assms
proof (induction lo hi fl arbitrary: p off need fl' rule: free_ok.induct)
  case (1 lo hi)
  then show ?case by simp
next
  case (2 lo hi a s fl)
  let ?p = "align_down (a + 16 + align - 1) align"
  let ?off = "?p - (a + 16)"
  have ge: "a + 16 \<le> ?p" using 2(3) align_down_ge [of align "a + 16"] by simp
  have lt: "?off < align" using 2(3) align_down_less [of align "a + 16"] by simp
  have nw: "add_usize tn ?off = tn + ?off" using lt 2(5) by (simp add: add_usize_def)
  have ff: "first_fit tn align ((a, s) # fl) =
      (if s \<ge> tn + ?off
       then Some (?p, ?off, tn + ?off, if s - (tn + ?off) \<ge> 32 then (a + (tn + ?off), s - (tn + ?off)) # fl else fl)
       else map_option (\<lambda>(p, off, n, fl). (p, off, n, (a, s) # fl)) (first_fit tn align fl))"
    unfolding first_fit.simps Let_def HEADER_SIZE_def MIN_BLOCK_SIZE_def nw by (rule refl)
  have rest: "covered fl \<subseteq> {a + s + 1..<hi}" using 2(2) free_ok_covered by auto
  show ?case
  proof (cases "s \<ge> tn + ?off")
    case True
    with 2(4) [unfolded ff] have eq: "p = ?p" "off = ?off" "need = tn + ?off"
      "fl' = (if s - need \<ge> 32 then (a + need, s - need) # fl else fl)"
      by auto
    have ok: "free_ok lo hi fl'"
      using 2(2) True eq by (auto simp: eq intro: free_ok_mono)
    have cov: "covered fl' = covered ((a, s) # fl) - {a..<a + (if s - need \<ge> 32 then need else s)}"
      using rest True by (auto simp: eq)
    have "(a, s) \<in> set ((a, s) # fl) \<and> p = a + 16 + off \<and> align dvd p \<and> need = tn + off \<and> need \<le> s \<and> off < align"
      using True ge lt by (simp add: eq)
    with ok cov show ?thesis by blast
  next
    case False
    with 2(4) [unfolded ff] obtain fl0 where r: "first_fit tn align fl = Some (p, off, need, fl0)"
      and fl': "fl' = (a, s) # fl0"
      by auto
    from 2(1) [OF _ 2(3) r 2(5)] 2(2) obtain b t where b: "(b, t) \<in> set fl" "p = b + 16 + off"
      "align dvd p" "need = tn + off" "need \<le> t" "off < align" "free_ok (a + s + 1) hi fl0"
      "covered fl0 = covered fl - {b..<b + (if t - need \<ge> 32 then need else t)}"
      by auto
    have "a + s + 1 \<le> b" using 2(2) b(1) free_ok_mem by auto
    then have "covered fl' = covered ((a, s) # fl) - {b..<b + (if t - need \<ge> 32 then need else t)}"
      unfolding fl' covered_Cons b(8) by auto
    moreover have "free_ok lo hi fl'" using 2(2) b(7) fl' by simp
    moreover have "(b, t) \<in> set ((a, s) # fl)" using b(1) by simp
    ultimately show ?thesis using b(2-6) by blast
  qed
qed

text \<open>
  Requests below \<open>2 ^ 64 - 4126\<close> bytes do not wrap, with any alignment up to a page: the block holds the request.
\<close>

lemma total_needed_no_wrap:
  assumes "n < 2 ^ 64 - 4126"
  shows "n + 16 \<le> total_needed n" and "32 \<le> total_needed n" and "total_needed n + 4096 \<le> 2 ^ 64"
proof -
  define m where "m = (if n < 16 then 16 else n)"
  define y where "y = (m + 15) div 16 * 16"
  have y: "m \<le> y" "y \<le> m + 15"
    using div_mult_mod_eq [of "m + 15" 16] mod_less_divisor [of 16 "m + 15"] unfolding y_def by linarith+
  have m: "n \<le> m" "16 \<le> m" "m + 4126 < 2 ^ 64" using assms by (auto simp: m_def)
  then have "(m + 15) mod 2 ^ 64 = m + 15" and "(16 + y) mod 2 ^ 64 = 16 + y"
    using y by (intro mod_less; linarith)+
  then have "total_needed n = 16 + y"
    unfolding total_needed_def add_usize_def HEADER_SIZE_def Let_def align_down_def m_def [symmetric]
    by (simp add: y_def)
  with y m show "n + 16 \<le> total_needed n" and "32 \<le> total_needed n" and "total_needed n + 4096 \<le> 2 ^ 64" by auto
qed

lemma sub_add_usize: "a + b < 2 ^ 64 \<Longrightarrow> sub_usize (a + b) b = a"
  by (simp add: sub_usize_def)

lemma heap_allocate_cases:
  assumes "heap_allocate h n align = (h', p)" and "p \<noteq> 0"
  obtains off need fl where "hp_init h" "n \<noteq> 0" "0 < align" "align \<le> 4096" "is_power_of_two align"
    "first_fit (total_needed n) align (hp_free h) = Some (p, off, need, fl)"
    "h' = h\<lparr>hp_free := fl, hp_used := (hp_used h)(p \<mapsto> (sub_usize need off, off))\<rparr>"
  using assms by (auto simp: heap_allocate_def split: if_splits option.splits)

text \<open>
  The effect of a successful allocation: the block is cut out of free memory and belongs to
  no other allocation.
\<close>

lemma heap_allocate_extent:
  assumes "heap_inv arena h" and "heap_allocate h n align = (h', p)" and "p \<noteq> 0"
    and "n < 2 ^ 64 - 4126"
  obtains off need taken where "hp_used h' = (hp_used h)(p \<mapsto> (need - off, off))"
    "align dvd p" "need = total_needed n + off" "arena + 16 + off \<le> p" "p - 16 - off + taken \<le> arena + HEAP_SIZE"
    "need \<le> taken" "taken < need + 32"
    "{p - 16 - off..<p - 16 - off + taken} \<subseteq> covered (hp_free h)"
    "covered (hp_free h') = covered (hp_free h) - {p - 16 - off..<p - 16 - off + taken}"
    "free_ok arena (arena + HEAP_SIZE) (hp_free h')"
proof -
  from assms(2,3) obtain off need fl where h': "0 < align"
    "first_fit (total_needed n) align (hp_free h) = Some (p, off, need, fl)"
    "h' = h\<lparr>hp_free := fl, hp_used := (hp_used h)(p \<mapsto> (sub_usize need off, off))\<rparr>" "align \<le> 4096"
    by (rule heap_allocate_cases) blast
  have ok: "free_ok arena (arena + HEAP_SIZE) (hp_free h)" using assms(1) by (simp add: heap_inv_def)
  have nw: "total_needed n + align \<le> 2 ^ 64" using total_needed_no_wrap(3) [OF assms(4)] h'(4) by linarith
  from first_fit_Some [OF ok h'(1,2) nw] obtain a s where a: "(a, s) \<in> set (hp_free h)"
    "p = a + 16 + off" "align dvd p" "need = total_needed n + off" "need \<le> s"
    "free_ok arena (arena + HEAP_SIZE) fl"
    "covered fl = covered (hp_free h) - {a..<a + (if s - need \<ge> 32 then need else s)}" "off < align"
    by blast
  have "sub_usize need off = need - off" using a(4,8) nw sub_add_usize [of "total_needed n" off] by simp
  then have h: "h' = h\<lparr>hp_free := fl, hp_used := (hp_used h)(p \<mapsto> (need - off, off))\<rparr>" using h'(3) by simp
  define taken where "taken = (if s - need \<ge> 32 then need else s)"
  have pa: "p - 16 - off = a" using a(2) by simp
  show ?thesis
  proof (rule that [of need off taken], unfold pa)
    show "hp_used h' = (hp_used h)(p \<mapsto> (need - off, off))" using h by simp
    show "align dvd p" "need = total_needed n + off" by fact+
    show "arena + 16 + off \<le> p" using a(2) free_ok_mem [OF ok a(1)] by simp
    show "a + taken \<le> arena + HEAP_SIZE"
      using a(5) free_ok_mem [OF ok a(1)] by (simp add: taken_def)
    show "need \<le> taken" "taken < need + 32" using a(5) by (auto simp: taken_def)
    have "{a..<a + s} \<subseteq> covered (hp_free h)" using a(1) unfolding covered_def by blast
    then show "{a..<a + taken} \<subseteq> covered (hp_free h)" using a(5) by (auto simp: taken_def)
    show "covered (hp_free h') = covered (hp_free h) - {a..<a + taken}"
      using h a(7) by (simp add: taken_def)
    show "free_ok arena (arena + HEAP_SIZE) (hp_free h')" using h a(6) by simp
  qed
qed

lemma heap_inv_used:
  "heap_inv arena h \<Longrightarrow> hp_used h p = Some (sz, off) \<Longrightarrow>
     arena + 16 + off \<le> p \<and> 16 \<le> sz \<and> p - 16 + sz \<le> arena + HEAP_SIZE
     \<and> extent p (sz, off) \<inter> covered (hp_free h) = {}"
  by (simp add: heap_inv_def)

lemma heap_inv_disjoint:
  "heap_inv arena h \<Longrightarrow> hp_used h p = Some hp \<Longrightarrow> hp_used h q = Some hq \<Longrightarrow> p \<noteq> q \<Longrightarrow>
     extent p hp \<inter> extent q hq = {}"
  unfolding heap_inv_def by blast

lemma heap_allocate_null:
  "heap_allocate h n align = (h', 0) \<Longrightarrow> heap_inv arena h \<Longrightarrow> n < 2 ^ 64 - 4126 \<Longrightarrow> h' = h"
proof -
  assume a: "heap_allocate h n align = (h', 0)" and inv: "heap_inv arena h" and n: "n < 2 ^ 64 - 4126"
  have "p \<noteq> 0" if "0 < align" "first_fit (total_needed n) align (hp_free h) = Some (p, off, need, fl)" "align \<le> 4096"
    for p off need fl
  proof -
    have "total_needed n + align \<le> 2 ^ 64" using total_needed_no_wrap(3) [OF n] that(3) by linarith
    then show ?thesis using inv first_fit_Some [OF _ that(1,2)] by (force simp: heap_inv_def)
  qed
  with a show "h' = h"
    by (fastforce simp: heap_allocate_def split: if_splits option.splits)
qed

lemma heap_inv_allocate:
  assumes inv: "heap_inv arena h" and al: "heap_allocate h n align = (h', p)"
    and n: "n < 2 ^ 64 - 4126"
  shows "heap_inv arena h'"
proof (cases "p = 0")
  case True
  with al inv n show ?thesis using heap_allocate_null by blast
next
  case False
  from heap_allocate_extent [OF inv al False n] obtain off need taken where e:
    "hp_used h' = (hp_used h)(p \<mapsto> (need - off, off))" "need = total_needed n + off"
    "arena + 16 + off \<le> p" "p - 16 - off + taken \<le> arena + HEAP_SIZE" "need \<le> taken"
    "{p - 16 - off..<p - 16 - off + taken} \<subseteq> covered (hp_free h)"
    "covered (hp_free h') = covered (hp_free h) - {p - 16 - off..<p - 16 - off + taken}"
    "free_ok arena (arena + HEAP_SIZE) (hp_free h')"
    by metis
  have sub: "extent p (need - off, off) \<subseteq> {p - 16 - off..<p - 16 - off + taken}"
    using e(2,3,5) by (auto simp: extent_def)
  have new: "arena + 16 + off \<le> p \<and> 16 \<le> need - off \<and> p - 16 + (need - off) \<le> arena + HEAP_SIZE
      \<and> extent p (need - off, off) \<inter> covered (hp_free h') = {}"
    using e(2-5,7) sub total_needed_no_wrap(2) [OF n] by auto
  have old: "extent q hq \<inter> extent p (need - off, off) = {}" if "hp_used h q = Some hq" for q hq
    using heap_inv_used [OF inv, of q] that sub e(6) by (cases hq) blast
  show ?thesis
    unfolding heap_inv_def e(1)
  proof (intro conjI allI impI, goal_cases)
    case 1
    show ?case by fact
  next
    case (6 q r hq hr)
    then show ?case
      using heap_inv_disjoint [OF inv, of q hq r hr] old [of q hq] old [of r hr]
      by (cases "q = p"; cases "r = p") (auto simp: Int_commute)
  qed (use new heap_inv_used [OF inv] e(7) in \<open>auto split: if_splits\<close>)
qed

section \<open>Freeing\<close>

lemma free_ok_split:
  assumes "free_ok lo hi fl" and "{b..<b + n} \<inter> covered fl = {}" and "0 < n"
  defines "xs \<equiv> takeWhile (\<lambda>x. fst x < b) fl" and "ys \<equiv> dropWhile (\<lambda>x. fst x < b) fl"
  shows "fl = xs @ ys" and "\<forall>(a, s) \<in> set xs. a + s \<le> b" and "\<forall>(a, s) \<in> set ys. b + n \<le> a"
proof -
  show fl: "fl = xs @ ys" by (simp add: xs_def ys_def)
  have disj: "a + s \<le> b \<or> b + n \<le> a" if "(a, s) \<in> set fl" for a s
  proof -
    have "{a..<a + s} \<subseteq> covered fl" using that by (auto simp: covered_def)
    with assms(2) have "b \<notin> {a..<a + s}" and "a \<notin> {b..<b + n}"
      using \<open>0 < n\<close> free_ok_mem [OF assms(1) that] by force+
    then show ?thesis by auto
  qed
  show "\<forall>(a, s) \<in> set xs. a + s \<le> b"
  proof safe
    fix a s assume "(a, s) \<in> set xs"
    then have "a < b" "(a, s) \<in> set fl"
      unfolding xs_def by (auto dest: set_takeWhileD)
    with disj show "a + s \<le> b" by fastforce
  qed
  show "\<forall>(a, s) \<in> set ys. b + n \<le> a"
  proof safe
    fix a s assume as: "(a, s) \<in> set ys"
    have "b \<le> a"
    proof (cases ys)
      case (Cons y ys')
      then have hd: "b \<le> fst y" unfolding ys_def by (metis dropWhile_eq_Cons_conv not_le)
      have "free_ok lo hi (xs @ (fst y, snd y) # ys')" using assms(1) fl Cons by simp
      then have "free_ok (fst y + snd y + 1) hi ys'" unfolding free_ok_append by blast
      then show ?thesis using hd as Cons free_ok_mem by fastforce
    qed (use as in simp)
    with disj [of a s] as fl free_ok_mem [OF assms(1), of a s] show "b + n \<le> a" by force
  qed
qed

lemma free_ok_appendD: "free_ok lo hi (xs @ ys) \<Longrightarrow> free_ok lo hi xs \<and> free_ok lo hi ys"
  by (induction lo hi xs rule: free_ok.induct) (auto intro: free_ok_mono)

text \<open>The first coalescing step, with the block that follows.\<close>

lemma coalesce_next:
  assumes "free_ok lo hi ys" and "\<forall>(a, s) \<in> set ys. b + n \<le> a" and "b + n \<le> hi" and "16 \<le> n"
    and "(size1, rest) = (case ys of [] \<Rightarrow> (n, [])
           | (c, t) # after \<Rightarrow> if b + n = c then (n + t, after) else (n, ys))"
  shows "free_ok (b + size1 + 1) hi rest" and "b + size1 \<le> hi" and "16 \<le> size1"
    and "{b..<b + size1} \<union> covered rest = {b..<b + n} \<union> covered ys"
proof -
  have "free_ok (b + size1 + 1) hi rest \<and> b + size1 \<le> hi \<and> 16 \<le> size1
      \<and> {b..<b + size1} \<union> covered rest = {b..<b + n} \<union> covered ys"
  proof (cases ys)
    case Nil
    with assms show ?thesis by simp
  next
    case (Cons y after)
    obtain c t where y: "y = (c, t)" by (cases y)
    show ?thesis
    proof (cases "b + n = c")
      case True
      with assms Cons y have r: "size1 = n + t" "rest = after" by simp_all
      have "{b..<b + (n + t)} = {b..<b + n} \<union> {c..<c + t}" using True by auto
      with assms(1,4) Cons y True r show ?thesis by (auto simp: add.assoc [symmetric])
    next
      case False
      with assms Cons y have "size1 = n" "rest = ys" "b + n < c" by auto
      with assms Cons y show ?thesis by auto
    qed
  qed
  then show "free_ok (b + size1 + 1) hi rest" and "b + size1 \<le> hi" and "16 \<le> size1"
    and "{b..<b + size1} \<union> covered rest = {b..<b + n} \<union> covered ys"
    by blast+
qed

lemma free_insert_correct:
  assumes ok: "free_ok lo hi fl" and disj: "{b..<b + n} \<inter> covered fl = {}"
    and "16 \<le> n" and "lo \<le> b" and "b + n \<le> hi"
  shows "free_ok lo hi (free_insert b n fl)"
    and "covered (free_insert b n fl) = covered fl \<union> {b..<b + n}"
proof -
  define xs where "xs = takeWhile (\<lambda>x. fst x < b) fl"
  define ys where "ys = dropWhile (\<lambda>x. fst x < b) fl"
  note sp = free_ok_split [OF ok disj, folded xs_def ys_def]
  have "0 < n" using \<open>16 \<le> n\<close> by simp
  note fl = sp(1) [OF this] and xs = sp(2) [OF this] and ys = sp(3) [OF this]
  have "free_ok lo hi (xs @ ys)" using ok fl by (rule subst [rotated])
  then have okx: "free_ok lo hi xs" and oky: "free_ok lo hi ys"
    using free_ok_appendD by blast+
  obtain size1 rest where r: "(size1, rest) = (case ys of [] \<Rightarrow> (n, [])
           | (c, t) # after \<Rightarrow> if b + n = c then (n + t, after) else (n, ys))"
    by (metis surj_pair)
  note right = coalesce_next [OF oky ys \<open>b + n \<le> hi\<close> \<open>16 \<le> n\<close> r]
  have ins: "free_insert b n fl =
      (if xs \<noteq> [] \<and> fst (last xs) + snd (last xs) = b
       then butlast xs @ (fst (last xs), snd (last xs) + size1) # rest
       else xs @ (b, size1) # rest)"
    unfolding free_insert_def xs_def [symmetric] ys_def [symmetric] Let_def r [symmetric] by simp
  have "free_ok lo hi (free_insert b n fl) \<and> covered (free_insert b n fl) = covered fl \<union> {b..<b + n}"
  proof (cases xs rule: rev_cases)
    case Nil
    with right ins fl \<open>lo \<le> b\<close> show ?thesis by auto
  next
    case (snoc us y)
    obtain a s where y: "y = (a, s)" by (cases y)
    have us: "\<forall>(c, t) \<in> set us. c + t < a" "lo \<le> a" "16 \<le> s" "free_ok lo hi us"
      using okx unfolding snoc y free_ok_append by blast+
    have as: "a + s \<le> b" using xs snoc y by simp
    show ?thesis
    proof (cases "a + s = b")
      case True
      then have i: "free_insert b n fl = us @ (a, s + size1) # rest" using ins snoc y by simp
      have "a + (s + size1) = b + size1" using True by simp
      then have "free_ok lo hi (us @ (a, s + size1) # rest)"
        unfolding free_ok_append using us right by (auto simp: add.assoc [symmetric])
      moreover have "{a..<a + (s + size1)} = {a..<a + s} \<union> {b..<b + size1}" using True by auto
      ultimately show ?thesis unfolding i using right(4) fl snoc y by auto
    next
      case False
      then have i: "free_insert b n fl = xs @ (b, size1) # rest" using ins snoc y by simp
      have "\<forall>(c, t) \<in> set xs. c + t < b" using us(1,3) as False snoc y by fastforce
      then have "free_ok lo hi (xs @ (b, size1) # rest)"
        unfolding free_ok_append using okx right \<open>lo \<le> b\<close> by simp
      then show ?thesis unfolding i using right(4) fl by auto
    qed
  qed
  then show "free_ok lo hi (free_insert b n fl)"
    and "covered (free_insert b n fl) = covered fl \<union> {b..<b + n}" by blast+
qed

lemma heap_deallocate_effect:
  assumes inv: "heap_inv arena h" and u: "hp_used h p = Some hdr" and "p \<noteq> 0" and "hp_init h"
  obtains h' where "heap_deallocate h p = Some h'" "hp_used h' = (hp_used h)(p := None)"
    "covered (hp_free h') = covered (hp_free h) \<union> extent p hdr" "heap_inv arena h'"
proof -
  obtain sz off where hdr: "hdr = (sz, off)" by (cases hdr)
  have p: "arena + 16 + off \<le> p" "16 \<le> sz" "p - 16 + sz \<le> arena + HEAP_SIZE"
    "extent p hdr \<inter> covered (hp_free h) = {}"
    using heap_inv_used [OF inv, of p sz off] u hdr by auto
  define b where "b = p - 16 - off"
  have ext: "extent p hdr = {b..<b + (sz + off)}"
    using p(1) by (auto simp: extent_def hdr b_def)
  have ok: "free_ok arena (arena + HEAP_SIZE) (hp_free h)" using inv by (simp add: heap_inv_def)
  note fi = free_insert_correct [OF ok, of b "sz + off"]
  have fi_ok: "free_ok arena (arena + HEAP_SIZE) (free_insert b (sz + off) (hp_free h))"
    and fi_cov: "covered (free_insert b (sz + off) (hp_free h)) = covered (hp_free h) \<union> extent p hdr"
    using fi p ext b_def by auto
  define h' where "h' = h\<lparr>hp_free := free_insert b (sz + off) (hp_free h),
    hp_used := (hp_used h)(p := None)\<rparr>"
  have "heap_deallocate h p = Some h'"
    using assms(3,4) u hdr by (simp add: heap_deallocate_def h'_def b_def HEADER_SIZE_def)
  moreover have "heap_inv arena h'"
  proof -
    have "arena + 16 + off' \<le> q \<and> 16 \<le> sz' \<and> q - 16 + sz' \<le> arena + HEAP_SIZE
        \<and> extent q (sz', off') \<inter> (covered (hp_free h) \<union> extent p hdr) = {}"
      if "q \<noteq> p" "hp_used h q = Some (sz', off')" for q sz' off'
      using heap_inv_used [OF inv that(2)] heap_inv_disjoint [OF inv that(2) u that(1)]
      by blast
    moreover have "extent q hq \<inter> extent r hr = {}"
      if "hp_used h q = Some hq" "hp_used h r = Some hr" "q \<noteq> r" for q r hq hr
      using heap_inv_disjoint [OF inv that] .
    ultimately show ?thesis
      unfolding heap_inv_def h'_def by (simp add: fi_ok fi_cov)
  qed
  ultimately show ?thesis
    using that [of h'] fi_cov by (simp add: h'_def)
qed

lemma heap_inv_init: "heap_inv arena (heap_init arena heap_boot)"
  by (simp add: heap_inv_def heap_init_def heap_boot_def HEAP_SIZE_def)

section \<open>The contract of a heap of owned blocks\<close>

text \<open>
  What a client that owns heap blocks relies on: a pointer it obtains is not owned by anyone else,
  a failed request changes nothing, and a block it owns can be given back.
\<close>

locale block_heap =
  fixes inv :: "'h \<Rightarrow> bool"
    and live :: "'h \<Rightarrow> nat set"
    and limit :: nat
    and alloc :: "'h \<Rightarrow> nat \<Rightarrow> 'h \<times> nat"
    and free :: "'h \<Rightarrow> nat \<Rightarrow> 'h option"
  assumes alloc_block: "inv h \<Longrightarrow> n \<le> limit \<Longrightarrow> alloc h n = (h', p) \<Longrightarrow> p \<noteq> 0 \<Longrightarrow>
      inv h' \<and> p \<notin> live h \<and> live h' = insert p (live h)"
    and alloc_fail: "inv h \<Longrightarrow> n \<le> limit \<Longrightarrow> alloc h n = (h', 0) \<Longrightarrow> h' = h"
    and free_block: "inv h \<Longrightarrow> p \<in> live h \<Longrightarrow>
      p \<noteq> 0 \<and> (\<exists>h'. free h p = Some h' \<and> inv h' \<and> live h' = live h - {p})"
begin

lemma alloc_free:
  assumes "inv h" and "n \<le> limit" and "alloc h n = (h', p)" and "p \<noteq> 0"
  obtains h'' where "free h' p = Some h''" "inv h''" "live h'' = live h"
  using alloc_block [OF assms] free_block [of h' p] by auto

end

lemma heap_live_nonnull: "heap_inv arena h \<Longrightarrow> hp_used h p \<noteq> None \<Longrightarrow> p \<noteq> 0"
  using heap_inv_used [of arena h p] by fastforce

lemma heap_allocate_fresh:
  assumes inv: "heap_inv arena h" and al: "heap_allocate h n align = (h', p)" and p: "p \<noteq> 0"
    and n: "n < 2 ^ 64 - 4126"
  shows "hp_used h p = None"
proof (rule ccontr)
  assume "hp_used h p \<noteq> None"
  then obtain sz off where u: "hp_used h p = Some (sz, off)" by fastforce
  obtain off' need taken where e: "need = total_needed n + off'" "arena + 16 + off' \<le> p" "need \<le> taken"
    "{p - 16 - off'..<p - 16 - off' + taken} \<subseteq> covered (hp_free h)"
    using heap_allocate_extent [OF inv al p n] .
  have "p - 16 \<in> {p - 16 - off'..<p - 16 - off' + taken}"
    using e(1-3) total_needed_no_wrap(2) [OF n] by auto
  moreover have "p - 16 \<in> extent p (sz, off)"
    using heap_inv_used [OF inv u] by (auto simp: extent_def)
  ultimately show False using e(4) heap_inv_used [OF inv u] by blast
qed

interpretation kernel_heap: block_heap "\<lambda>h. heap_inv arena h \<and> hp_init h" "\<lambda>h. dom (hp_used h)"
  "2 ^ 34" "\<lambda>h n. heap_allocate h n 8" heap_deallocate
  for arena
proof
  fix h h' :: heap and n p :: nat
  assume inv: "heap_inv arena h \<and> hp_init h" and "n \<le> 2 ^ 34"
  then have n: "n < 2 ^ 64 - 4126" by simp
  {
    assume al: "heap_allocate h n 8 = (h', p)" and p: "p \<noteq> 0"
    have "hp_init h'" using inv al by (auto simp: heap_allocate_def split: if_splits option.splits)
    moreover have "dom (hp_used h') = insert p (dom (hp_used h))"
      using heap_allocate_extent [OF _ al p n] inv by (metis dom_fun_upd option.distinct(1))
    ultimately show "(heap_inv arena h' \<and> hp_init h') \<and> p \<notin> dom (hp_used h)
        \<and> dom (hp_used h') = insert p (dom (hp_used h))"
      using inv heap_inv_allocate [OF _ al n] heap_allocate_fresh [OF _ al p n] by (auto simp: domIff)
  }
  {
    assume "heap_allocate h n 8 = (h', 0)"
    then show "h' = h" using heap_allocate_null inv n by blast
  }
next
  fix h :: heap and p :: nat
  assume inv: "heap_inv arena h \<and> hp_init h" and p: "p \<in> dom (hp_used h)"
  then have p0: "p \<noteq> 0" using heap_live_nonnull by blast
  obtain hdr where hdr: "hp_used h p = Some hdr" using p by blast
  obtain h' where h': "heap_deallocate h p = Some h'" "hp_used h' = (hp_used h)(p := None)" "heap_inv arena h'"
    using heap_deallocate_effect [OF _ hdr p0] inv by metis
  moreover have "hp_init h'" using h'(1) inv by (auto simp: heap_deallocate_def split: if_splits option.splits)
  ultimately show "p \<noteq> 0 \<and> (\<exists>h'. heap_deallocate h p = Some h' \<and> (heap_inv arena h' \<and> hp_init h')
      \<and> dom (hp_used h') = dom (hp_used h) - {p})"
    using p0 by simp
qed

section \<open>Properties\<close>

text \<open>
  (C20) The kernel heap never hands out overlapping memory. For every request size below
  \<open>2^64 - 4126\<close>, a non-null pointer is aligned as requested, the \<open>n\<close> bytes from it lie inside
  the arena, outside the free memory and outside the block of every other allocation; and the
  invariant of the heap (sorted, coalesced free list; disjoint blocks) is kept.
\<close>

theorem heap_allocate_safe:
  assumes inv: "heap_inv arena h" and al: "heap_allocate h n align = (h', p)" and p: "p \<noteq> 0"
    and n: "n < 2 ^ 64 - 4126"
  shows "align dvd p \<and> {p..<p + n} \<subseteq> {arena..<arena + HEAP_SIZE}
    \<and> {p..<p + n} \<inter> covered (hp_free h') = {}
    \<and> (\<forall>q hdr. q \<noteq> p \<longrightarrow> hp_used h' q = Some hdr \<longrightarrow> {p..<p + n} \<inter> extent q hdr = {})
    \<and> hp_used h p = None \<and> heap_inv arena h'"
proof -
  obtain off need taken where e: "hp_used h' = (hp_used h)(p \<mapsto> (need - off, off))"
    "align dvd p" "need = total_needed n + off" "arena + 16 + off \<le> p" "p - 16 - off + taken \<le> arena + HEAP_SIZE"
    "need \<le> taken" "covered (hp_free h') = covered (hp_free h) - {p - 16 - off..<p - 16 - off + taken}"
    using heap_allocate_extent [OF inv al p n] .
  have inv': "heap_inv arena h'" by (rule heap_inv_allocate [OF inv al n])
  have t: "n + 16 \<le> total_needed n" by (rule total_needed_no_wrap(1) [OF n])
  have sub: "{p..<p + n} \<subseteq> {p - 16 - off..<p - 16 - off + taken}" using e(3,4,6) t by auto
  have ext: "{p..<p + n} \<subseteq> extent p (need - off, off)" using e(3,4) t by (auto simp: extent_def)
  have "{p..<p + n} \<inter> extent q hdr = {}" if "q \<noteq> p" "hp_used h' q = Some hdr" for q hdr
  proof -
    have "hp_used h' p = Some (need - off, off)" using e(1) by simp
    from heap_inv_disjoint [OF inv' this that(2)] that(1) ext show ?thesis by blast
  qed
  moreover have "{p..<p + n} \<subseteq> {arena..<arena + HEAP_SIZE}" using sub e(4,5) by auto
  ultimately show ?thesis
    using e(2,7) sub inv' heap_allocate_fresh [OF inv al p n] by blast
qed

theorem heap_allocate_safe_witness:
  "heap_inv 4096 (heap_init 4096 heap_boot)
   \<and> snd (heap_allocate (heap_init 4096 heap_boot) 100 64) = 4160 \<and> (64 :: nat) dvd 4160"
proof -
  have r: "snd (heap_allocate (heap_init 4096 heap_boot) 100 64) = 4160"
    by (simp add: heap_allocate_def heap_init_def heap_boot_def is_power_of_two_def total_needed_def
        Let_def add_usize_def sub_usize_def align_down_def HEADER_SIZE_def HEAP_SIZE_def MIN_BLOCK_SIZE_def)
  then obtain h' where "heap_allocate (heap_init 4096 heap_boot) 100 64 = (h', 4160)"
    by (metis prod.collapse)
  from heap_allocate_safe [OF heap_inv_init this] heap_inv_init r show ?thesis by simp
qed

text \<open>
  Freeing a live allocation succeeds, makes exactly its block free again (merged with its
  neighbours, so the free list stays sorted and coalesced) and leaves every other allocation alone.
\<close>

theorem heap_deallocate_correct:
  assumes inv: "heap_inv arena h" and i: "hp_init h" and u: "hp_used h p = Some hdr"
  shows "\<exists>h'. heap_deallocate h p = Some h' \<and> heap_inv arena h'
    \<and> covered (hp_free h') = covered (hp_free h) \<union> extent p hdr
    \<and> hp_used h' = (hp_used h)(p := None)"
proof -
  have "p \<noteq> 0" using heap_live_nonnull [OF inv, of p] u by simp
  then show ?thesis using heap_deallocate_effect [OF inv u _ i] by metis
qed

theorem heap_deallocate_correct_witness:
  "let h = fst (heap_allocate (heap_init 4096 heap_boot) 100 64)
   in heap_inv 4096 h \<and> hp_used h 4160 = Some (128, 48)
      \<and> (\<exists>h'. heap_deallocate h 4160 = Some h' \<and> heap_inv 4096 h')"
proof -
  let ?h = "fst (heap_allocate (heap_init 4096 heap_boot) 100 64)"
  have a: "hp_used ?h 4160 = Some (128, 48)" "hp_init ?h"
    by (simp_all add: heap_allocate_def heap_init_def heap_boot_def is_power_of_two_def total_needed_def
        Let_def add_usize_def sub_usize_def align_down_def HEADER_SIZE_def HEAP_SIZE_def MIN_BLOCK_SIZE_def)
  have i: "heap_inv 4096 ?h"
    by (rule heap_inv_allocate [OF heap_inv_init prod.collapse [symmetric]]) simp
  from heap_deallocate_correct [OF i a(2,1)] a i show ?thesis unfolding Let_def by blast
qed

text \<open>
  The size computation wraps: a request for \<open>2^64 - 16\<close> bytes on a fresh heap is granted. The
  pointer returned is the first payload address of the arena, and that address is still part of the
  free memory, so the next allocation is given the same memory.
\<close>

theorem heap_allocate_wraps:
  assumes "8 dvd arena"
  shows "snd (heap_allocate (heap_init arena heap_boot) (2 ^ 64 - 16) 8) = arena + 16
    \<and> arena + 16 \<in> covered (hp_free (fst (heap_allocate (heap_init arena heap_boot) (2 ^ 64 - 16) 8)))
    \<and> snd (heap_allocate (fst (heap_allocate (heap_init arena heap_boot) (2 ^ 64 - 16) 8)) 64 8) = arena + 16"
proof -
  obtain k where k: "arena = 8 * k" using assms by blast
  have "align_down (arena + 16 + 8 - 1) 8 = arena + 16"
    unfolding k align_down_def by simp
  then have ad: "align_down (23 + arena) 8 = arena + 16" "align_down (arena + 23) 8 = arena + 16"
    by (simp_all add: add.commute)
  have t: "total_needed (2 ^ 64 - 16) = 0"
    by (simp add: total_needed_def Let_def add_usize_def sub_usize_def align_down_def HEADER_SIZE_def)
  have t2: "total_needed 64 = 80"
    by (simp add: total_needed_def Let_def add_usize_def sub_usize_def align_down_def HEADER_SIZE_def)
  have "heap_allocate (heap_init arena heap_boot) (2 ^ 64 - 16) 8
      = ((heap_init arena heap_boot)\<lparr>hp_used := [arena + 16 \<mapsto> (0, 0)]\<rparr>, arena + 16)"
    unfolding heap_allocate_def t
    by (simp add: heap_init_def heap_boot_def is_power_of_two_def ad Let_def add_usize_def sub_usize_def HEADER_SIZE_def
        HEAP_SIZE_def MIN_BLOCK_SIZE_def)
  then show ?thesis
    unfolding heap_allocate_def [of _ 64 8] t2
    by (simp add: heap_init_def heap_boot_def is_power_of_two_def ad Let_def add_usize_def sub_usize_def HEADER_SIZE_def
        HEAP_SIZE_def MIN_BLOCK_SIZE_def)
qed

theorem heap_allocate_wraps_witness:
  "(8 :: nat) dvd 4096
   \<and> snd (heap_allocate (heap_init 4096 heap_boot) (2 ^ 64 - 16) 8) = 4096 + 16"
proof -
  have "(8 :: nat) dvd 4096" by simp
  with heap_allocate_wraps [OF this] show ?thesis by blast
qed

text \<open>
  The slop of an unsplit block is lost. When the rest of a block is too small to split off, the
  allocation takes the whole block but its header records only the part it needed: after the
  allocation is freed, the rest has left the free memory for good.
\<close>

theorem heap_free_loses_slop:
  "let h = heap_init 4096 heap_boot;
       (h1, p) = heap_allocate h (HEAP_SIZE - 32) 8
   in p \<noteq> 0 \<and> (\<exists>h2. heap_deallocate h1 p = Some h2 \<and> hp_used h2 = hp_used h
        \<and> heap_stats h = (0, HEAP_SIZE, 1) \<and> heap_stats h2 = (16, HEAP_SIZE - 16, 1))"
  by (simp add: heap_allocate_def heap_init_def heap_boot_def is_power_of_two_def total_needed_def
      Let_def add_usize_def sub_usize_def align_down_def HEADER_SIZE_def HEAP_SIZE_def MIN_BLOCK_SIZE_def
      heap_deallocate_def free_insert_def heap_stats_def)

end
