(* ===== verification/Objects.thy ===== *)
theory Objects
  imports Suid Tiers Sem_Caps Heap
begin

text \<open>
  Semantic objects: \<^verbatim>\<open>src/kernel-core/src/semantic/object.rs\<close>. An object has an identifier, a
  tier, a content and up to 16 links. Content above 256 bytes lives in a block of the kernel heap
  that the object owns: the model threads the heap through the operations that allocate or drop a
  block, and keeps the bytes of the block with its owner (no other value points to it). The theory
  shows that content is stored and read back unchanged at every size up to the limit, that a
  dropped content gives its block back, and that the link array behaves as a bounded list.
\<close>

section \<open>Content\<close>

definition MAX_LINKS :: nat where "MAX_LINKS = 16"
definition MAX_CONTENT_SIZE :: nat where "MAX_CONTENT_SIZE = 2 * 1024 * 1024"
definition MAX_FILE_CONTENT :: nat where "MAX_FILE_CONTENT = MAX_CONTENT_SIZE"

datatype content_type = Binary | Text | Vector_Type | Structured | Reference

fun content_type_value :: "content_type \<Rightarrow> u8" where
  "content_type_value Binary = 0"
| "content_type_value Text = 1"
| "content_type_value Vector_Type = 2"
| "content_type_value Structured = 3"
| "content_type_value Reference = 4"

text \<open>
  \<open>Inline data len\<close>; \<open>Allocated ptr len capacity bytes\<close> with the bytes of the owned block;
  \<open>Vector_Content dimensions data_ptr\<close>.
\<close>

datatype object_content =
    Inline "u8 list" nat
  | Allocated nat nat nat "u8 list"
  | Vector_Content u16 nat
  | Empty

text \<open>
  \<^verbatim>\<open>Drop\<close>: an owned block goes back to the heap. \<^verbatim>\<open>heap::deallocate\<close> on a pointer
  that the heap did not hand out has no defined result (\<open>None\<close>).
\<close>

fun content_drop :: "heap \<Rightarrow> object_content \<Rightarrow> heap option" where
  "content_drop h (Allocated p len capacity bs) =
     (if p \<noteq> 0 \<and> capacity \<noteq> 0 then heap_deallocate h p else Some h)"
| "content_drop h _ = Some h"

definition from_inline :: "u8 list \<Rightarrow> object_content option" where
  "from_inline data =
     (if length data > 256 then None
      else Some (Inline (copy_into 0 data (replicate 256 0)) (length data)))"

definition content_from_bytes :: "heap \<Rightarrow> u8 list \<Rightarrow> heap \<times> object_content option" where
  "content_from_bytes h data =
     (if length data \<le> 256 then (h, from_inline data)
      else if length data > MAX_FILE_CONTENT then (h, None)
      else let cap = length data;
               (h', p) = heap_allocate h cap 8
           in if p = 0 then (h', None) else (h', Some (Allocated p cap cap data)))"

fun as_bytes :: "object_content \<Rightarrow> u8 list option" where
  "as_bytes (Inline data len) = Some (take len data)"
| "as_bytes (Allocated p len capacity bs) = Some (take len bs)"
| "as_bytes _ = None"

fun content_len :: "object_content \<Rightarrow> nat" where
  "content_len (Inline data len) = len"
| "content_len (Allocated p len capacity bs) = len"
| "content_len (Vector_Content dimensions p) = unat dimensions * 4"
| "content_len Empty = 0"

definition content_is_empty :: "object_content \<Rightarrow> bool" where
  "content_is_empty c = (content_len c = 0)"

section \<open>Links and flags\<close>

datatype relation_type = Contains | References | DerivedFrom | SimilarTo | Supersedes | Custom_Relation

record object_link =
  link_target :: suid
  link_relationship :: relation_type

record object_flags =
  of_bits :: u32

definition OF_NONE :: object_flags where "OF_NONE = \<lparr>of_bits = 0\<rparr>"
definition OF_ENCRYPTED :: object_flags where "OF_ENCRYPTED = \<lparr>of_bits = push_bit 0 1\<rparr>"
definition OF_IMMUTABLE :: object_flags where "OF_IMMUTABLE = \<lparr>of_bits = push_bit 1 1\<rparr>"
definition OF_SYSTEM :: object_flags where "OF_SYSTEM = \<lparr>of_bits = push_bit 2 1\<rparr>"
definition OF_DELETED :: object_flags where "OF_DELETED = \<lparr>of_bits = push_bit 3 1\<rparr>"
definition OF_VOUCHED_EXEC :: object_flags where "OF_VOUCHED_EXEC = \<lparr>of_bits = push_bit 4 1\<rparr>"

definition is_encrypted :: "object_flags \<Rightarrow> bool" where
  "is_encrypted f = (of_bits f AND of_bits OF_ENCRYPTED \<noteq> 0)"
definition is_immutable :: "object_flags \<Rightarrow> bool" where
  "is_immutable f = (of_bits f AND of_bits OF_IMMUTABLE \<noteq> 0)"
definition is_system :: "object_flags \<Rightarrow> bool" where
  "is_system f = (of_bits f AND of_bits OF_SYSTEM \<noteq> 0)"
definition is_deleted :: "object_flags \<Rightarrow> bool" where
  "is_deleted f = (of_bits f AND of_bits OF_DELETED \<noteq> 0)"
definition is_vouched_exec :: "object_flags \<Rightarrow> bool" where
  "is_vouched_exec f = (of_bits f AND of_bits OF_VOUCHED_EXEC \<noteq> 0)"

definition of_set :: "object_flags \<Rightarrow> object_flags \<Rightarrow> object_flags" where
  "of_set f g = f\<lparr>of_bits := of_bits f OR of_bits g\<rparr>"
definition of_clear :: "object_flags \<Rightarrow> object_flags \<Rightarrow> object_flags" where
  "of_clear f g = f\<lparr>of_bits := of_bits f AND NOT (of_bits g)\<rparr>"
definition of_as_u32 :: "object_flags \<Rightarrow> u32" where
  "of_as_u32 f = of_bits f"

section \<open>Objects\<close>

record semantic_object =
  ob_suid :: suid
  ob_tier :: security_tier
  ob_content_type :: content_type
  ob_flags :: object_flags
  ob_created_at :: u64
  ob_modified_at :: u64
  ob_owner :: u8
  ob_capabilities :: capability_set
  ob_content :: object_content
  ob_links :: "object_link option list"
  ob_link_count :: u8

definition ob_new :: "suid \<Rightarrow> security_tier \<Rightarrow> u8 \<Rightarrow> semantic_object" where
  "ob_new s t owner =
     \<lparr>ob_suid = s, ob_tier = t, ob_content_type = Binary, ob_flags = OF_NONE, ob_created_at = 0,
      ob_modified_at = 0, ob_owner = owner, ob_capabilities = cs_empty, ob_content = Empty,
      ob_links = replicate MAX_LINKS None, ob_link_count = 0\<rparr>"

definition ob_with_content :: "suid \<Rightarrow> security_tier \<Rightarrow> u8 \<Rightarrow> u8 list \<Rightarrow> semantic_object option" where
  "ob_with_content s t owner content =
     map_option (\<lambda>c. (ob_new s t owner)\<lparr>ob_content := c\<rparr>) (from_inline content)"

definition add_link :: "semantic_object \<Rightarrow> suid \<Rightarrow> relation_type \<Rightarrow> semantic_object \<times> bool" where
  "add_link ob target relationship =
     (if unat (ob_link_count ob) \<ge> MAX_LINKS then (ob, False)
      else (ob\<lparr>ob_links := (ob_links ob)[unat (ob_link_count ob) :=
                 Some \<lparr>link_target = target, link_relationship = relationship\<rparr>],
               ob_link_count := ob_link_count ob + 1\<rparr>, True))"

text \<open>The inner loop of \<^verbatim>\<open>remove_link\<close>: \<^verbatim>\<open>links[j] = links[j + 1]\<close> for \<open>j\<close> up to \<open>last - 1\<close>.\<close>

fun shift_links :: "nat \<Rightarrow> nat \<Rightarrow> 'a list \<Rightarrow> 'a list" where
  "shift_links j 0 xs = xs"
| "shift_links j (Suc n) xs = shift_links (Suc j) n (xs[j := xs ! Suc j])"

definition remove_link :: "semantic_object \<Rightarrow> suid \<Rightarrow> semantic_object \<times> bool" where
  "remove_link ob target =
     (let n = unat (ob_link_count ob)
      in case position (\<lambda>l. case l of Some x \<Rightarrow> link_target x = target | None \<Rightarrow> False) (take n (ob_links ob)) of
           Some i \<Rightarrow>
             (ob\<lparr>ob_links := (shift_links i (n - 1 - i) (ob_links ob))[n - 1 := None],
                 ob_link_count := ob_link_count ob - 1\<rparr>, True)
         | None \<Rightarrow> (ob, False))"

definition get_links :: "semantic_object \<Rightarrow> object_link option list" where
  "get_links ob = take (unat (ob_link_count ob)) (ob_links ob)"

definition ob_can_access :: "semantic_object \<Rightarrow> security_tier \<Rightarrow> bool" where
  "ob_can_access ob task_tier = can_access task_tier (ob_tier ob)"

section \<open>Content is stored and read back\<close>

text \<open>What a content of a live object satisfies: its length fits its buffer.\<close>

fun content_wf :: "object_content \<Rightarrow> bool" where
  "content_wf (Inline data len) = (length data = 256 \<and> len \<le> 256)"
| "content_wf (Allocated p len capacity bs) =
     (p \<noteq> 0 \<and> len \<le> capacity \<and> length bs = capacity \<and> 256 < capacity \<and> capacity \<le> MAX_FILE_CONTENT)"
| "content_wf _ = True"

text \<open>The heap blocks a content owns.\<close>

fun owned_blocks :: "object_content \<Rightarrow> nat set" where
  "owned_blocks (Allocated p len capacity bs) = {p}"
| "owned_blocks _ = {}"

lemma from_inline_bytes:
  "from_inline data = Some c \<Longrightarrow> as_bytes c = Some data \<and> content_wf c \<and> owned_blocks c = {}"
  by (auto simp: from_inline_def copy_into_def split: if_splits)

lemma from_inline_None_iff: "from_inline data = None \<longleftrightarrow> 256 < length data"
  by (simp add: from_inline_def)

lemma content_from_bytes_Some:
  assumes "content_from_bytes h data = (h', Some c)"
  shows "as_bytes c = Some data" and "content_wf c" and "content_len c = length data"
proof -
  have "as_bytes c = Some data \<and> content_wf c \<and> content_len c = length data"
  proof (cases "length data \<le> 256")
    case True
    with assms show ?thesis
      by (auto simp: content_from_bytes_def from_inline_def copy_into_def)
  next
    case False
    with assms show ?thesis
      by (auto simp: content_from_bytes_def Let_def case_prod_beta split: if_splits)
  qed
  then show "as_bytes c = Some data" "content_wf c" "content_len c = length data" by simp_all
qed

lemma content_from_bytes_heap:
  assumes inv: "heap_inv arena h \<and> hp_init h" and r: "content_from_bytes h data = (h', c)"
  shows "heap_inv arena h' \<and> hp_init h'"
    and "dom (hp_used h') = dom (hp_used h) \<union> (case c of Some x \<Rightarrow> owned_blocks x | None \<Rightarrow> {})"
    and "(case c of Some x \<Rightarrow> owned_blocks x | None \<Rightarrow> {}) \<inter> dom (hp_used h) = {}"
    and "c = None \<Longrightarrow> h' = h"
proof -
  have "(heap_inv arena h' \<and> hp_init h')
      \<and> dom (hp_used h') = dom (hp_used h) \<union> (case c of Some x \<Rightarrow> owned_blocks x | None \<Rightarrow> {})
      \<and> (case c of Some x \<Rightarrow> owned_blocks x | None \<Rightarrow> {}) \<inter> dom (hp_used h) = {} \<and> (c = None \<longrightarrow> h' = h)"
  proof (cases "length data \<le> 256 \<or> length data > MAX_FILE_CONTENT")
    case True
    with r inv show ?thesis
      by (auto simp: content_from_bytes_def from_inline_def split: if_splits)
  next
    case False
    obtain h1 p where al: "heap_allocate h (length data) 8 = (h1, p)"
      by (cases "heap_allocate h (length data) 8")
    have n: "length data \<le> 2 ^ 34" using False by (simp add: MAX_FILE_CONTENT_def MAX_CONTENT_SIZE_def)
    have r': "(h', c) = (if p = 0 then (h1, None) else (h1, Some (Allocated p (length data) (length data) data)))"
      using r False al by (simp add: content_from_bytes_def Let_def)
    show ?thesis
    proof (cases "p = 0")
      case True
      then show ?thesis using r' kernel_heap.alloc_fail [OF inv n] al inv by auto
    next
      case False
      then show ?thesis using r' kernel_heap.alloc_block [OF inv n al False] by auto
    qed
  qed
  then show "heap_inv arena h' \<and> hp_init h'"
    "dom (hp_used h') = dom (hp_used h) \<union> (case c of Some x \<Rightarrow> owned_blocks x | None \<Rightarrow> {})"
    "(case c of Some x \<Rightarrow> owned_blocks x | None \<Rightarrow> {}) \<inter> dom (hp_used h) = {}" "c = None \<Longrightarrow> h' = h"
    by blast+
qed

lemma content_drop_heap:
  assumes inv: "heap_inv arena h \<and> hp_init h" and o: "owned_blocks c \<subseteq> dom (hp_used h)" and "content_wf c"
  obtains h' where "content_drop h c = Some h'" "heap_inv arena h' \<and> hp_init h'"
    "dom (hp_used h') = dom (hp_used h) - owned_blocks c"
proof (cases c)
  case (Allocated p len capacity bs)
  then have p: "p \<in> dom (hp_used h)" and c: "capacity \<noteq> 0" using o assms(3) by auto
  from kernel_heap.free_block [OF inv p] obtain h' where
    "p \<noteq> 0" "heap_deallocate h p = Some h'" "heap_inv arena h' \<and> hp_init h'"
    "dom (hp_used h') = dom (hp_used h) - {p}" by blast
  then show ?thesis using that [of h'] Allocated c by simp
qed (use inv that in auto)

text \<open>
  Content round trip. Whenever \<^verbatim>\<open>from_bytes\<close> succeeds the content reads back as exactly the
  bytes given, at every size, inline or heap-backed; it fails only for more than 2 MiB or when the
  heap cannot serve the request, and then the heap is unchanged. A heap-backed content owns a block
  that was not in use, and dropping the content gives that block back.
\<close>

theorem content_round_trip:
  assumes inv: "heap_inv arena h \<and> hp_init h" and r: "content_from_bytes h data = (h', c)"
  shows "(\<forall>x. c = Some x \<longrightarrow> as_bytes x = Some data \<and> content_len x = length data
        \<and> owned_blocks x \<inter> dom (hp_used h) = {}
        \<and> (\<exists>h''. content_drop h' x = Some h'' \<and> dom (hp_used h'') = dom (hp_used h)))
    \<and> (c = None \<longrightarrow> h' = h \<and> (length data > MAX_FILE_CONTENT \<or> snd (heap_allocate h (length data) 8) = 0))"
proof (cases c)
  case None
  note H = content_from_bytes_heap [OF inv r]
  have "length data > MAX_FILE_CONTENT \<or> snd (heap_allocate h (length data) 8) = 0"
    using r None by (auto simp: content_from_bytes_def Let_def from_inline_def case_prod_beta split: if_splits)
  with None H(4) show ?thesis by simp
next
  case (Some x)
  note H = content_from_bytes_heap [OF inv r]
  note S = content_from_bytes_Some [OF r [unfolded Some]]
  have "owned_blocks x \<subseteq> dom (hp_used h')" using H(2) Some by simp
  from content_drop_heap [OF H(1) this S(2)] obtain h'' where
    "content_drop h' x = Some h''" "dom (hp_used h'') = dom (hp_used h') - owned_blocks x" .
  moreover have "dom (hp_used h') - owned_blocks x = dom (hp_used h)" using H(2,3) Some by auto
  ultimately show ?thesis using S H(3) Some by auto
qed

theorem content_round_trip_witness:
  "(heap_inv 4096 (heap_init 4096 heap_boot) \<and> hp_init (heap_init 4096 heap_boot))
   \<and> (case snd (content_from_bytes (heap_init 4096 heap_boot) (replicate 300 7)) of
        Some x \<Rightarrow> as_bytes x = Some (replicate 300 7) \<and> owned_blocks x = {4112}
      | None \<Rightarrow> False)"
proof -
  let ?h = "heap_init 4096 heap_boot" and ?d = "replicate 300 (7 :: u8)"
  have i: "heap_inv 4096 ?h \<and> hp_init ?h" using heap_inv_init by (simp add: heap_init_def)
  have r: "snd (content_from_bytes ?h ?d) = Some (Allocated 4112 300 300 ?d)"
    by (simp add: content_from_bytes_def MAX_FILE_CONTENT_def MAX_CONTENT_SIZE_def heap_allocate_def
        heap_init_def heap_boot_def is_power_of_two_def total_needed_def Let_def add_usize_def sub_usize_def
        align_down_def HEADER_SIZE_def HEAP_SIZE_def MIN_BLOCK_SIZE_def)
  then obtain h' where "content_from_bytes ?h ?d = (h', Some (Allocated 4112 300 300 ?d))"
    by (metis prod.collapse)
  from content_round_trip [OF i this] i r show ?thesis by simp
qed

section \<open>The link array as a list\<close>

definition ob_wf :: "semantic_object \<Rightarrow> bool" where
  "ob_wf ob \<longleftrightarrow> length (ob_links ob) = MAX_LINKS \<and> unat (ob_link_count ob) \<le> MAX_LINKS
     \<and> None \<notin> set (get_links ob) \<and> set (drop (unat (ob_link_count ob)) (ob_links ob)) \<subseteq> {None}
     \<and> content_wf (ob_content ob)"

definition link_list :: "semantic_object \<Rightarrow> object_link list" where
  "link_list ob = map the (get_links ob)"

text \<open>Deleting the first link to a target.\<close>

fun remove_first :: "('a \<Rightarrow> bool) \<Rightarrow> 'a list \<Rightarrow> 'a list" where
  "remove_first p [] = []"
| "remove_first p (x # xs) = (if p x then xs else x # remove_first p xs)"

lemma ob_wf_new: "ob_wf (ob_new s t owner)" "link_list (ob_new s t owner) = []"
  by (auto simp: ob_wf_def ob_new_def get_links_def link_list_def)

lemma shift_links_eq:
  "j + n < length xs \<Longrightarrow> shift_links j n xs = take j xs @ take n (drop (Suc j) xs) @ drop (j + n) xs"
proof (induction n arbitrary: j xs)
  case 0
  then show ?case by simp
next
  case (Suc n)
  let ?ys = "xs[j := xs ! Suc j]"
  have "shift_links j (Suc n) xs = take (Suc j) ?ys @ take n (drop (Suc (Suc j)) ?ys) @ drop (Suc j + n) ?ys"
    using Suc by simp
  also have "take (Suc j) ?ys = take j xs @ [xs ! Suc j]"
    using Suc.prems by (simp add: take_Suc_conv_app_nth)
  finally have "shift_links j (Suc n) xs
      = take j xs @ (xs ! Suc j # take n (drop (Suc (Suc j)) xs)) @ drop (j + Suc n) xs" by simp
  also have "xs ! Suc j # take n (drop (Suc (Suc j)) xs) = take (Suc n) (drop (Suc j) xs)"
    using Suc.prems by (simp add: Cons_nth_drop_Suc [symmetric])
  finally show ?case .
qed

lemma remove_first_position:
  "position p xs = Some i \<Longrightarrow> remove_first p xs = take i xs @ drop (Suc i) xs"
  "position p xs = None \<Longrightarrow> remove_first p xs = xs"
  by (induction xs arbitrary: i) (auto split: if_splits)

lemma position_map: "position p (map f xs) = position (p \<circ> f) xs"
  by (induction xs) auto

lemma map_Some_the: "None \<notin> set xs \<Longrightarrow> map Some (map the xs) = xs"
  by (induction xs) auto

lemma get_links_list: "ob_wf ob \<Longrightarrow> get_links ob = map Some (link_list ob)"
  using map_Some_the [of "get_links ob"] by (simp add: ob_wf_def link_list_def del: map_map)

lemma length_link_list: "ob_wf ob \<Longrightarrow> length (link_list ob) = unat (ob_link_count ob)"
  by (simp add: ob_wf_def link_list_def get_links_def)

lemma add_link_effect:
  assumes wf: "ob_wf ob"
  shows "length (link_list ob) < MAX_LINKS \<Longrightarrow> snd (add_link ob t r) \<and> ob_wf (fst (add_link ob t r))
      \<and> link_list (fst (add_link ob t r)) = link_list ob @ [\<lparr>link_target = t, link_relationship = r\<rparr>]"
    and "\<not> length (link_list ob) < MAX_LINKS \<Longrightarrow> add_link ob t r = (ob, False)"
proof -
  let ?n = "unat (ob_link_count ob)" and ?l = "\<lparr>link_target = t, link_relationship = r\<rparr>"
  assume "length (link_list ob) < MAX_LINKS"
  then have n: "?n < MAX_LINKS" using length_link_list [OF wf] by simp
  have l: "length (ob_links ob) = MAX_LINKS" using wf by (simp add: ob_wf_def)
  have s: "unat (ob_link_count ob + 1) = Suc ?n"
    using n by (subst unat_add_lem [THEN iffD1]) (simp_all add: MAX_LINKS_def)
  have g: "get_links (fst (add_link ob t r)) = get_links ob @ [Some ?l]"
    using n l by (simp add: add_link_def get_links_def s take_Suc_conv_app_nth)
  moreover have "drop (Suc ?n) ((ob_links ob)[?n := Some ?l]) = drop (Suc ?n) (ob_links ob)" by simp
  moreover have "set (drop (Suc ?n) (ob_links ob)) \<subseteq> set (drop ?n (ob_links ob))"
    by (rule set_drop_subset_set_drop) simp
  ultimately show "snd (add_link ob t r) \<and> ob_wf (fst (add_link ob t r))
      \<and> link_list (fst (add_link ob t r)) = link_list ob @ [?l]"
    using wf n s unfolding ob_wf_def link_list_def by (auto simp: add_link_def)
next
  assume "\<not> length (link_list ob) < MAX_LINKS"
  then show "add_link ob t r = (ob, False)" using length_link_list [OF wf] by (simp add: add_link_def)
qed

lemma remove_link_effect:
  assumes wf: "ob_wf ob"
  shows "link_list (fst (remove_link ob t)) = remove_first (\<lambda>l. link_target l = t) (link_list ob)"
    and "snd (remove_link ob t) \<longleftrightarrow> (\<exists>l \<in> set (link_list ob). link_target l = t)"
    and "ob_wf (fst (remove_link ob t))"
proof -
  let ?n = "unat (ob_link_count ob)" and ?xs = "ob_links ob"
  let ?p = "\<lambda>l. link_target l = t" and ?L = "link_list ob"
  have pos: "position (\<lambda>l. case l of Some x \<Rightarrow> link_target x = t | None \<Rightarrow> False) (take ?n ?xs) = position ?p ?L"
    using get_links_list [OF wf] by (simp add: get_links_def position_map comp_def)
  have "link_list (fst (remove_link ob t)) = remove_first ?p ?L
      \<and> (snd (remove_link ob t) \<longleftrightarrow> (\<exists>l \<in> set ?L. ?p l)) \<and> ob_wf (fst (remove_link ob t))"
  proof (cases "position ?p ?L")
    case None
    then have "remove_link ob t = (ob, False)" by (simp add: remove_link_def Let_def pos)
    moreover have "\<not> (\<exists>l \<in> set ?L. ?p l)" using None by (simp add: position_None_iff)
    ultimately show ?thesis using wf remove_first_position(2) [OF None] by simp
  next
    case (Some i)
    have i: "i < ?n" and ex: "\<exists>l \<in> set ?L. ?p l"
      using position_SomeD [OF Some] length_link_list [OF wf] by auto
    have l: "length ?xs = MAX_LINKS" "?n \<le> MAX_LINKS" using wf by (simp_all add: ob_wf_def)
    have c: "unat (ob_link_count ob - 1) = ?n - 1" using i by (simp add: unat_sub_if' word_le_nat_alt)
    define ys where "ys = (shift_links i (?n - 1 - i) ?xs)[?n - 1 := None]"
    have sh: "shift_links i (?n - 1 - i) ?xs = (take i ?xs @ take (?n - 1 - i) (drop (Suc i) ?xs)) @ drop (?n - 1) ?xs"
      using shift_links_eq [of i "?n - 1 - i" ?xs] i l by simp
    have len: "length (take i ?xs @ take (?n - 1 - i) (drop (Suc i) ?xs)) = ?n - 1" using i l by auto
    have "drop (?n - 1) ?xs = ?xs ! (?n - 1) # drop ?n ?xs"
      using i l by (metis Cons_nth_drop_Suc Suc_diff_1 diff_less less_le_trans not_less_zero zero_less_iff_neq_zero zero_less_one)
    then have ys: "ys = (take i ?xs @ take (?n - 1 - i) (drop (Suc i) ?xs)) @ None # drop ?n ?xs"
      unfolding ys_def sh by (simp only: list_update_append len) simp
    have tk: "take (?n - 1) ys = take i (take ?n ?xs) @ drop (Suc i) (take ?n ?xs)"
    proof -
      have "take (?n - 1) ys = take i ?xs @ take (?n - 1 - i) (drop (Suc i) ?xs)"
        unfolding ys using len by (metis append_eq_conv_conj)
      moreover have "take i (take ?n ?xs) = take i ?xs" using i by (simp add: min_absorb1)
      moreover have "drop (Suc i) (take ?n ?xs) = take (?n - 1 - i) (drop (Suc i) ?xs)"
        by (simp add: drop_take)
      ultimately show ?thesis by simp
    qed
    have dr: "drop (?n - 1) ys = None # drop ?n ?xs"
      unfolding ys using len by simp
    have r: "remove_link ob t = (ob\<lparr>ob_links := ys, ob_link_count := ob_link_count ob - 1\<rparr>, True)"
      using Some by (simp add: remove_link_def Let_def pos ys_def)
    have g: "get_links (fst (remove_link ob t)) = map Some (take i ?L @ drop (Suc i) ?L)"
    proof -
      have "get_links (fst (remove_link ob t)) = take (?n - 1) ys" by (simp add: r get_links_def c)
      also note tk
      also have "take ?n ?xs = map Some ?L" using get_links_list [OF wf] by (simp add: get_links_def)
      finally show ?thesis by (simp add: take_map drop_map)
    qed
    have "length ys = MAX_LINKS" using l i unfolding ys_def sh by simp
    then have "ob_wf (fst (remove_link ob t))"
      using wf g dr c i l unfolding ob_wf_def by (auto simp: r)
    moreover have "link_list (fst (remove_link ob t)) = take i ?L @ drop (Suc i) ?L"
      unfolding link_list_def [of "fst (remove_link ob t)"] g by (simp add: comp_def)
    ultimately show ?thesis
      using ex r remove_first_position(1) [OF Some] by simp
  qed
  then show "link_list (fst (remove_link ob t)) = remove_first ?p ?L"
    "snd (remove_link ob t) \<longleftrightarrow> (\<exists>l \<in> set ?L. ?p l)" "ob_wf (fst (remove_link ob t))" by blast+
qed

text \<open>
  The fixed array of links is a bounded list: \<^verbatim>\<open>add_link\<close> appends while fewer than 16 links
  are there and otherwise refuses without effect, \<^verbatim>\<open>remove_link\<close> deletes the first link to the
  target, keeping the order of the others, and reports whether there was one; the unused slots stay
  empty.
\<close>

theorem links_refine_list:
  assumes "ob_wf ob"
  shows "(if length (link_list ob) < MAX_LINKS
      then snd (add_link ob t r) \<and> link_list (fst (add_link ob t r))
             = link_list ob @ [\<lparr>link_target = t, link_relationship = r\<rparr>]
      else add_link ob t r = (ob, False))
    \<and> link_list (fst (remove_link ob t)) = remove_first (\<lambda>l. link_target l = t) (link_list ob)
    \<and> snd (remove_link ob t) = (\<exists>l \<in> set (link_list ob). link_target l = t)
    \<and> ob_wf (fst (add_link ob t r)) \<and> ob_wf (fst (remove_link ob t))"
  using assms add_link_effect [OF assms, of t r] remove_link_effect [OF assms, of t]
  by (cases "length (link_list ob) < MAX_LINKS") auto

theorem links_refine_list_witness:
  "ob_wf (ob_new (suid_system 1) Public 0)
   \<and> link_list (fst (add_link (ob_new (suid_system 1) Public 0) (suid_system 2) Contains))
       = [\<lparr>link_target = suid_system 2, link_relationship = Contains\<rparr>]"
proof -
  have w: "ob_wf (ob_new (suid_system 1) Public 0)" by (rule ob_wf_new)
  show ?thesis
    using links_refine_list [OF w, of "suid_system 2" Contains] w ob_wf_new(2) [of "suid_system 1" Public 0]
    by (simp add: MAX_LINKS_def split: if_splits)
qed

end
