(* ===== verification/Crc32.thy ===== *)
theory Crc32
  imports Prelude
begin

text \<open>
  The CRC-32 of \<^verbatim>\<open>src/kernel-core/src/semantic/journal.rs\<close>, computed through a table of 256 words
  that the compiler builds. The theory shows that the table-driven update is the bit-by-bit
  reflected CRC, and that the checksum detects every change confined to one byte.
\<close>

section \<open>Definitions\<close>

text \<open>One step of the inner loop of \<^verbatim>\<open>crc_table\<close>.\<close>

definition crc_step :: "u32 \<Rightarrow> u32" where
  "crc_step c = (if c AND 1 \<noteq> 0 then 0xEDB88320 XOR drop_bit 1 c else drop_bit 1 c)"

definition crc_table :: "u32 list" where
  "crc_table = map (\<lambda>i. (crc_step ^^ 8) (of_nat i)) [0..<256]"

definition crc_new :: u32 where
  "crc_new = 0xFFFFFFFF"

definition crc_byte :: "u32 \<Rightarrow> u8 \<Rightarrow> u32" where
  "crc_byte c b = crc_table ! unat ((c XOR ucast b) AND 0xFF) XOR drop_bit 8 c"

definition crc_update :: "u32 \<Rightarrow> u8 list \<Rightarrow> u32" where
  "crc_update c data = foldl crc_byte c data"

definition crc_finish :: "u32 \<Rightarrow> u32" where
  "crc_finish c = NOT c"

definition crc32 :: "u8 list \<Rightarrow> u32" where
  "crc32 data = crc_finish (crc_update crc_new data)"

section \<open>The bit-by-bit reference\<close>

definition crc_bits_byte :: "u32 \<Rightarrow> u8 \<Rightarrow> u32" where
  "crc_bits_byte c b = (crc_step ^^ 8) (c XOR ucast b)"

definition crc32_reference :: "u8 list \<Rightarrow> u32" where
  "crc32_reference data = NOT (foldl crc_bits_byte 0xFFFFFFFF data)"

lemma and_one_iff: "(c AND 1 \<noteq> 0) = bit c 0" for c :: u32
  by (simp add: and_one_eq bit_0 odd_iff_mod_2_eq_one)

lemma crc_step_linear: "crc_step (a XOR b) = crc_step a XOR crc_step b"
proof -
  have "drop_bit 1 (a XOR b) = drop_bit 1 a XOR drop_bit 1 b"
    by (rule bit_word_eqI) (simp add: bit_simps)
  then show ?thesis
    unfolding crc_step_def and_one_iff
    by (auto simp: bit_xor_iff ac_simps)
qed

lemma crc_steps_linear: "(crc_step ^^ n) (a XOR b) = (crc_step ^^ n) a XOR (crc_step ^^ n) b"
  by (induction n) (simp_all add: crc_step_linear)

text \<open>While the low bits are zero, a step is a shift.\<close>

lemma crc_steps_shift: "take_bit n a = 0 \<Longrightarrow> (crc_step ^^ n) a = drop_bit n a"
proof (induction n)
  case 0
  then show ?case by simp
next
  case (Suc n)
  have low: "\<not> bit a i" if "i < Suc n" for i
    using Suc.prems that by (metis bit_take_bit_iff bit_0_eq bot_apply bot_bool_def)
  then have "take_bit n a = 0" by (intro bit_word_eqI) (auto simp: bit_simps)
  with Suc.IH have "(crc_step ^^ n) a = drop_bit n a" by simp
  moreover have "\<not> bit (drop_bit n a) 0" using low [of n] by (simp add: bit_drop_bit_eq)
  moreover have "(crc_step ^^ Suc n) a = crc_step ((crc_step ^^ n) a)" by simp
  ultimately show ?case
    unfolding crc_step_def [of "(crc_step ^^ n) a"] and_one_iff by (simp add: drop_bit_drop_bit)
qed

lemma crc_byte_bits: "crc_byte c b = crc_bits_byte c b"
proof -
  define x where "x = c XOR ucast b"
  have split: "x = (x AND 0xFF) XOR (x AND NOT 0xFF)"
    by (rule bit_word_eqI) (auto simp: bit_simps)
  have "take_bit 8 (x AND NOT 0xFF) = 0"
  proof -
    have "take_bit 8 (x AND NOT (mask 8)) = 0"
      by (rule bit_word_eqI) (auto simp: bit_simps)
    then show ?thesis by (simp add: mask_eq_exp_minus_1)
  qed
  then have hi: "(crc_step ^^ 8) (x AND NOT 0xFF) = drop_bit 8 (x AND NOT 0xFF)"
    by (rule crc_steps_shift)
  have "drop_bit 8 (x AND NOT (mask 8)) = drop_bit 8 c"
    by (rule bit_word_eqI) (auto simp: x_def bit_simps dest: bit_imp_le_length)
  then have hi2: "drop_bit 8 (x AND NOT 0xFF) = drop_bit 8 c" by (simp add: mask_eq_exp_minus_1)
  have lt: "unat (x AND 0xFF) < 256"
    using unat_and_mask_less [of x 8] by (simp add: mask_eq_exp_minus_1)
  have tab: "crc_table ! unat (x AND 0xFF) = (crc_step ^^ 8) (x AND 0xFF)"
    using lt by (simp add: crc_table_def)
  have "crc_bits_byte c b = (crc_step ^^ 8) ((x AND 0xFF) XOR (x AND NOT 0xFF))"
    unfolding crc_bits_byte_def x_def [symmetric] using split by simp
  then show ?thesis
    unfolding crc_byte_def x_def [symmetric] tab crc_steps_linear hi hi2 by simp
qed

text \<open>
  The table-driven checksum of the journal is the bit-by-bit CRC-32 with the reflected
  polynomial \<open>0xEDB88320\<close>, for every input.
\<close>

theorem crc32_table_correct: "crc32 data = crc32_reference data"
proof -
  have "crc_byte = crc_bits_byte" by (intro ext crc_byte_bits)
  then show ?thesis
    by (simp add: crc32_def crc32_reference_def crc_update_def crc_finish_def crc_new_def)
qed

section \<open>Error detection\<close>

lemma xor_right_cancel: "a XOR b = c XOR b \<longleftrightarrow> a = c" for a b c :: u32
proof
  assume "a XOR b = c XOR b"
  then have "(a XOR b) XOR b = (c XOR b) XOR b" by simp
  then show "a = c" by (simp add: xor.assoc)
qed simp

lemma xor_left_cancel: "b XOR a = b XOR c \<longleftrightarrow> a = c" for a b c :: u32
  using xor_right_cancel by (simp add: xor.commute [of b])

lemma crc_step_inj: "inj crc_step"
proof (rule injI)
  fix a b :: u32
  assume eq: "crc_step a = crc_step b"
  have top: "bit (crc_step c) 31 = bit c 0" for c
    unfolding crc_step_def and_one_iff
    by (auto simp: bit_xor_iff bit_drop_bit_eq dest: bit_imp_le_length)
  from eq have b0: "bit a 0 = bit b 0" using top by metis
  with eq have d: "drop_bit 1 a = drop_bit 1 b"
    unfolding crc_step_def and_one_iff by (simp add: xor_left_cancel split: if_splits)
  show "a = b"
  proof (rule bit_word_eqI)
    fix n
    show "bit a n = bit b n"
    proof (cases n)
      case (Suc m)
      have "bit (drop_bit 1 a) m = bit (drop_bit 1 b) m" using d by simp
      with Suc show ?thesis by (simp add: bit_drop_bit_eq)
    qed (use b0 in simp)
  qed
qed

lemma crc_steps_inj: "(crc_step ^^ n) a = (crc_step ^^ n) b \<longleftrightarrow> a = b"
  by (induction n arbitrary: a b) (auto dest: injD [OF crc_step_inj])

lemma crc_byte_inj_state: "crc_byte c b = crc_byte d b \<longleftrightarrow> c = d"
  by (simp add: crc_byte_bits crc_bits_byte_def crc_steps_inj xor_right_cancel)

lemma crc_byte_inj_byte: "crc_byte c a = crc_byte c b \<longleftrightarrow> a = b"
proof -
  have "ucast (ucast x :: u32) = x" for x :: u8
    by (intro bit_word_eqI) (auto simp: bit_simps dest: bit_imp_le_length)
  then have "(ucast a :: u32) = ucast b \<longleftrightarrow> a = b" by metis
  then show ?thesis by (simp add: crc_byte_bits crc_bits_byte_def crc_steps_inj xor_left_cancel)
qed

lemma crc_update_inj_state: "crc_update c data = crc_update d data \<longleftrightarrow> c = d"
  unfolding crc_update_def by (induction data arbitrary: c d) (simp_all add: crc_byte_inj_state)

text \<open>
  Every corruption confined to one byte is detected: two messages that differ in exactly one
  byte have different checksums, wherever the byte is and however long the messages are.
\<close>

theorem crc32_detects_byte_error:
  "crc32 (xs @ a # ys) = crc32 (xs @ b # ys) \<longleftrightarrow> a = b"
proof -
  have "NOT (x :: u32) = NOT y \<longleftrightarrow> x = y" for x y by (metis bit.double_compl)
  then show ?thesis
    using crc_update_inj_state [of _ ys]
    by (simp add: crc32_def crc_finish_def crc_update_def crc_byte_inj_byte)
qed

end
