(* ===== verification/Journal.thy ===== *)
theory Journal
  imports Objects Crc32
begin

text \<open>
  The write-through journal of the object store: \<^verbatim>\<open>src/kernel-core/src/semantic/journal.rs\<close>, its
  on-disk formats, the append of records, and the hooks that the registry calls before a change
  becomes visible (mount and replay are in the theory \<open>Replay\<close>, after the registry they write to).
  The block device is a parameter: a state with a read and a write function.
\<close>

section \<open>Block devices\<close>

text \<open>
  \<^verbatim>\<open>BlockDevice::read_blocks\<close> fills a buffer of \<open>n\<close> bytes from a block number on, or fails;
  \<^verbatim>\<open>write_blocks\<close> writes a buffer and reports success. A failed write may have changed the device.
\<close>

record 'd block_device =
  bd_state :: 'd
  bd_read :: "'d \<Rightarrow> u64 \<Rightarrow> nat \<Rightarrow> u8 list option"
  bd_write :: "'d \<Rightarrow> u64 \<Rightarrow> u8 list \<Rightarrow> 'd \<times> bool"

definition dev_read :: "'d block_device \<Rightarrow> u64 \<Rightarrow> nat \<Rightarrow> u8 list option" where
  "dev_read dev lba n = bd_read dev (bd_state dev) lba n"

definition dev_write :: "'d block_device \<Rightarrow> u64 \<Rightarrow> u8 list \<Rightarrow> 'd block_device \<times> bool" where
  "dev_write dev lba buf =
     (let (s, ok) = bd_write dev (bd_state dev) lba buf in (dev\<lparr>bd_state := s\<rparr>, ok))"

section \<open>Formats\<close>

definition REC_MAGIC :: "u8 list" where "REC_MAGIC = [0x53, 0x46, 0x52, 0x4F]"
definition SB_MAGIC :: "u8 list" where "SB_MAGIC = [0x53, 0x46, 0x53, 0x42]"
definition FORMAT_VERSION :: u16 where "FORMAT_VERSION = 1"
definition OP_UPSERT :: u8 where "OP_UPSERT = 1"
definition OP_TOMBSTONE :: u8 where "OP_TOMBSTONE = 2"
definition OP_COMMIT :: u8 where "OP_COMMIT = 3"
definition FLAG_COMMITTED :: u8 where "FLAG_COMMITTED = 1"
definition HEADER_LEN :: nat where "HEADER_LEN = 64"
definition LINK_LEN :: nat where "LINK_LEN = 17"
definition SECTOR :: nat where "SECTOR = 512"

datatype commit_policy = WriteThrough | GroupCommit u64

record 'd journal =
  jr_dev :: "'d block_device"
  jr_log_start :: u64
  jr_log_sectors :: u64
  jr_head :: u64
  jr_next_seq :: u64
  jr_policy :: commit_policy
  jr_replaying :: bool
  jr_enabled :: bool

section \<open>Superblock\<close>

record superblock =
  sb_generation :: u64
  sb_log_start :: u64
  sb_log_sectors :: u64
  sb_high_water :: u64
  sb_clean_shutdown :: bool

definition encode_superblock :: "superblock \<Rightarrow> u8 list" where
  "encode_superblock sb =
     (let out = replicate SECTOR 0;
          out = copy_into 0 SB_MAGIC out;
          out = copy_into 4 (le_bytes 2 FORMAT_VERSION) out;
          out = out[6 := if sb_clean_shutdown sb then 1 else 0];
          out = copy_into 8 (le_bytes 8 (sb_generation sb)) out;
          out = copy_into 16 (le_bytes 8 (sb_log_start sb)) out;
          out = copy_into 24 (le_bytes 8 (sb_log_sectors sb)) out;
          out = copy_into 32 (le_bytes 8 (sb_high_water sb)) out
      in copy_into 40 (le_bytes 4 (crc32 (slice 0 40 out))) out)"

definition decode_superblock :: "u8 list \<Rightarrow> superblock option" where
  "decode_superblock buf =
     (if slice 0 4 buf \<noteq> SB_MAGIC then None
      else if of_le_bytes (slice 4 2 buf) \<noteq> FORMAT_VERSION then None
      else if crc32 (slice 0 40 buf) \<noteq> of_le_bytes (slice 40 4 buf) then None
      else Some \<lparr>sb_generation = of_le_bytes (slice 8 8 buf),
                 sb_log_start = of_le_bytes (slice 16 8 buf),
                 sb_log_sectors = of_le_bytes (slice 24 8 buf),
                 sb_high_water = of_le_bytes (slice 32 8 buf),
                 sb_clean_shutdown = (buf ! 6 \<noteq> 0)\<rparr>)"

section \<open>Records\<close>

definition record_header_len :: "nat \<Rightarrow> nat" where
  "record_header_len link_count = HEADER_LEN + link_count * LINK_LEN"

fun relation_to_u8 :: "relation_type \<Rightarrow> u8" where
  "relation_to_u8 Contains = 0"
| "relation_to_u8 References = 1"
| "relation_to_u8 DerivedFrom = 2"
| "relation_to_u8 SimilarTo = 3"
| "relation_to_u8 Supersedes = 4"
| "relation_to_u8 Custom_Relation = 255"

definition relation_from_u8 :: "u8 \<Rightarrow> relation_type" where
  "relation_from_u8 v =
     (if v = 1 then References else if v = 2 then DerivedFrom else if v = 3 then SimilarTo
      else if v = 4 then Supersedes else if v = 255 then Custom_Relation else Contains)"

definition content_type_to_u8 :: "content_type \<Rightarrow> u8" where
  "content_type_to_u8 c = content_type_value c"

definition content_type_from_u8 :: "u8 \<Rightarrow> content_type" where
  "content_type_from_u8 v =
     (if v = 1 then Text else if v = 2 then Vector_Type else if v = 3 then Structured
      else if v = 4 then Reference else Binary)"

fun tier_to_u8 :: "security_tier \<Rightarrow> u8" where
  "tier_to_u8 Public = 0"
| "tier_to_u8 Internal = 1"
| "tier_to_u8 Sensitive = 2"
| "tier_to_u8 Secret = 3"

definition tier_from_u8 :: "u8 \<Rightarrow> security_tier" where
  "tier_from_u8 v =
     (if v = 1 then Internal else if v = 2 then Sensitive else if v = 3 then Secret else Public)"

definition record_len :: "nat \<Rightarrow> nat \<Rightarrow> nat" where
  "record_len link_count clen = record_header_len link_count + clen + 4"

text \<open>The 64-byte header that \<^verbatim>\<open>append_record\<close> builds.\<close>

definition record_header :: "semantic_object option \<Rightarrow> suid \<Rightarrow> u64 \<Rightarrow> nat \<Rightarrow> nat \<Rightarrow> u8 list" where
  "record_header ob s seq clen link_count =
     (let h = replicate HEADER_LEN 0;
          h = copy_into 0 REC_MAGIC h;
          h = copy_into 4 (le_bytes 2 FORMAT_VERSION) h;
          h = h[6 := case ob of Some _ \<Rightarrow> OP_UPSERT | None \<Rightarrow> OP_TOMBSTONE];
          h = h[7 := FLAG_COMMITTED];
          h = copy_into 8 (le_bytes 8 seq) h;
          h = copy_into 16 (suid_to_bytes s) h;
          h = (case ob of
                 Some x \<Rightarrow>
                   copy_into 44 (le_bytes 8 (ob_modified_at x))
                     (copy_into 36 (le_bytes 8 (ob_created_at x))
                       (h[32 := tier_to_u8 (ob_tier x), 33 := ob_owner x,
                          34 := content_type_to_u8 (ob_content_type x), 35 := 0]))
               | None \<Rightarrow> h);
          h = copy_into 52 (le_bytes 4 (of_nat clen :: u32)) h
      in copy_into 56 (le_bytes 4 (of_nat link_count :: u32)) h)"

definition link_bytes :: "object_link \<Rightarrow> u8 list" where
  "link_bytes l = suid_to_bytes (link_target l) @ [relation_to_u8 (link_relationship l)]"

fun write_links :: "nat \<Rightarrow> object_link option list \<Rightarrow> u8 list \<Rightarrow> u8 list" where
  "write_links i [] buf = buf"
| "write_links i (slot # slots) buf =
     write_links (Suc i) slots
       (case slot of Some l \<Rightarrow> copy_into (i * LINK_LEN) (link_bytes l) buf | None \<Rightarrow> buf)"

text \<open>
  The streaming loop \<^verbatim>\<open>feed!\<close>: copy into the sector buffer, write the sector when it is full.
  The state is the device, the buffer, its fill and the next block; \<open>None\<close> after a failed write.
\<close>

function feed ::
  "'d block_device \<Rightarrow> u8 list \<times> nat \<times> u64 \<Rightarrow> u8 list \<Rightarrow> 'd block_device \<times> (u8 list \<times> nat \<times> u64) option"
where
  "feed dev (sec, fill, lba) data =
     (if data = [] \<or> fill \<ge> SECTOR then (dev, Some (sec, fill, lba))
      else let k = min (SECTOR - fill) (length data);
               sec' = copy_into fill (take k data) sec
           in if fill + k = SECTOR
              then (case dev_write dev lba sec' of
                      (dev', True) \<Rightarrow> feed dev' (sec', 0, lba + 1) (drop k data)
                    | (dev', False) \<Rightarrow> (dev', None))
              else feed dev (sec', fill + k, lba) (drop k data))"
  by pat_completeness auto
termination
  by (relation "measure (\<lambda>(dev, st, data). length data)") auto

text \<open>Feed several pieces one after the other, then flush a partial last sector.\<close>

fun feed_all ::
  "'d block_device \<Rightarrow> u8 list \<times> nat \<times> u64 \<Rightarrow> u8 list list \<Rightarrow> 'd block_device \<times> u64 option" where
  "feed_all dev (sec, fill, lba) [] =
     (if fill > 0
      then (case dev_write dev lba (take fill sec @ replicate (SECTOR - fill) 0) of
              (dev', True) \<Rightarrow> (dev', Some (lba + 1))
            | (dev', False) \<Rightarrow> (dev', None))
      else (dev, Some lba))"
| "feed_all dev (sec, fill, lba) (p # ps) =
     (case feed dev (sec, fill, lba) p of
        (dev', Some st) \<Rightarrow> feed_all dev' st ps
      | (dev', None) \<Rightarrow> (dev', None))"

text \<open>
  \<^verbatim>\<open>append_record\<close>: the object (with its content or the overriding one) or a tombstone. The result
  is the number of sectors written, or \<open>None\<close>.
\<close>

definition record_parts ::
  "semantic_object option \<Rightarrow> suid option \<Rightarrow> u64 \<Rightarrow> u8 list option \<Rightarrow> u8 list \<times> u8 list \<times> u8 list" where
  "record_parts ob tombstone seq content_override =
     (let (s, link_count, content) =
            (case ob of
               Some x \<Rightarrow> (ob_suid x, unat (ob_link_count x),
                          case content_override of
                            Some b \<Rightarrow> b
                          | None \<Rightarrow> (case as_bytes (ob_content x) of Some b \<Rightarrow> b | None \<Rightarrow> []))
             | None \<Rightarrow> (case tombstone of Some s \<Rightarrow> s | None \<Rightarrow> suid_from_bytes (replicate 16 0), 0, []));
          links_buf = (case ob of
                         Some x \<Rightarrow> write_links 0 (get_links x) (replicate (MAX_LINKS * LINK_LEN) 0)
                       | None \<Rightarrow> replicate (MAX_LINKS * LINK_LEN) 0)
      in (record_header ob s seq (length content) link_count,
          take (link_count * LINK_LEN) links_buf, content))"

definition append_record ::
  "'d journal \<Rightarrow> semantic_object option \<Rightarrow> suid option \<Rightarrow> u64 \<Rightarrow> u8 list option
     \<Rightarrow> 'd block_device \<times> u64 option" where
  "append_record j ob tombstone seq content_override =
     (let (header, links_bytes, content) = record_parts ob tombstone seq content_override;
          crc_val = crc_finish (crc_update (crc_update (crc_update crc_new header) links_bytes) content)
      in case feed_all (jr_dev j) (replicate SECTOR 0, 0, jr_head j)
                [header, links_bytes, content, le_bytes 4 crc_val] of
           (dev, Some lba) \<Rightarrow> (dev, Some (lba - jr_head j))
         | (dev, None) \<Rightarrow> (dev, None))"

section \<open>Hooks\<close>

text \<open>
  The common body of the three hooks: a no-op success until the journal is mounted and while it
  replays; otherwise append and advance.
\<close>

definition journal_hook ::
  "'d journal option \<Rightarrow> ('d journal \<Rightarrow> u64 \<Rightarrow> 'd block_device \<times> u64 option) \<Rightarrow> 'd journal option \<times> bool" where
  "journal_hook guard app =
     (case guard of
        Some j \<Rightarrow>
          (if jr_enabled j \<and> \<not> jr_replaying j
           then (case app j (jr_next_seq j) of
                   (dev, Some sectors) \<Rightarrow>
                     (Some (j\<lparr>jr_dev := dev, jr_head := jr_head j + sectors,
                              jr_next_seq := jr_next_seq j + 1\<rparr>), True)
                 | (dev, None) \<Rightarrow> (Some (j\<lparr>jr_dev := dev\<rparr>), False))
           else (guard, True))
      | None \<Rightarrow> (guard, True))"

definition on_insert :: "'d journal option \<Rightarrow> semantic_object \<Rightarrow> 'd journal option \<times> bool" where
  "on_insert guard ob = journal_hook guard (\<lambda>j seq. append_record j (Some ob) None seq None)"

definition on_remove :: "'d journal option \<Rightarrow> suid \<Rightarrow> 'd journal option \<times> bool" where
  "on_remove guard s = journal_hook guard (\<lambda>j seq. append_record j None (Some s) seq None)"

definition on_update :: "'d journal option \<Rightarrow> semantic_object \<Rightarrow> u8 list \<Rightarrow> 'd journal option \<times> bool" where
  "on_update guard ob new_content =
     journal_hook guard (\<lambda>j seq. append_record j (Some ob) None seq (Some new_content))"

definition is_mounted :: "'d journal option \<Rightarrow> bool" where
  "is_mounted guard = (case guard of Some j \<Rightarrow> jr_enabled j | None \<Rightarrow> False)"

section \<open>The superblock round trip\<close>

lemma length_encode_superblock [simp]: "length (encode_superblock sb) = 512"
  by (simp add: encode_superblock_def Let_def SECTOR_def SB_MAGIC_def)

lemma decode_encode_superblock: "decode_superblock (encode_superblock sb) = Some sb"
proof -
  define b0 where "b0 = copy_into 4 (le_bytes 2 FORMAT_VERSION) (copy_into 0 SB_MAGIC (replicate SECTOR 0))"
  define b1 where "b1 = copy_into 6 [if sb_clean_shutdown sb then 1 else 0 :: u8] b0"
  define b2 where "b2 = copy_into 32 (le_bytes 8 (sb_high_water sb))
    (copy_into 24 (le_bytes 8 (sb_log_sectors sb))
      (copy_into 16 (le_bytes 8 (sb_log_start sb)) (copy_into 8 (le_bytes 8 (sb_generation sb)) b1)))"
  have l0: "length b0 = 512" by (simp add: b0_def SECTOR_def SB_MAGIC_def)
  have l1: "length b1 = 512" by (simp add: b1_def l0)
  have l2: "length b2 = 512" by (simp add: b2_def l1)
  have e: "encode_superblock sb = copy_into 40 (le_bytes 4 (crc32 (slice 0 40 b2))) b2"
    unfolding encode_superblock_def Let_def b2_def b1_def
    using l0 by (simp add: b0_def list_update_copy_into)
  have c: "slice 0 40 (encode_superblock sb) = slice 0 40 b2"
    unfolding e using l2 by (simp add: slice_simps)
  have "slice 0 4 (encode_superblock sb) = SB_MAGIC" "slice 4 2 (encode_superblock sb) = le_bytes 2 FORMAT_VERSION"
    unfolding e b2_def b1_def using l2 l1 l0
    by (simp_all add: slice_simps b2_def b1_def) (simp_all add: b0_def slice_simps SECTOR_def SB_MAGIC_def)
  moreover have "slice 40 4 (encode_superblock sb) = le_bytes 4 (crc32 (slice 0 40 b2))"
    unfolding e using l2 by simp
  moreover have "slice 8 8 (encode_superblock sb) = le_bytes 8 (sb_generation sb)"
    "slice 16 8 (encode_superblock sb) = le_bytes 8 (sb_log_start sb)"
    "slice 24 8 (encode_superblock sb) = le_bytes 8 (sb_log_sectors sb)"
    "slice 32 8 (encode_superblock sb) = le_bytes 8 (sb_high_water sb)"
    unfolding e using l2 l1 by (simp_all add: slice_simps b2_def)
  moreover have "encode_superblock sb ! 6 = (if sb_clean_shutdown sb then 1 else 0)"
  proof -
    have "slice 6 1 (encode_superblock sb) = [if sb_clean_shutdown sb then 1 else 0]"
      unfolding e using l2 l1 l0 by (simp add: slice_simps b2_def b1_def)
    then show ?thesis by (simp add: nth_eq_slice)
  qed
  ultimately show ?thesis
    unfolding decode_superblock_def c by simp
qed

interpretation superblock_codec: byte_codec encode_superblock decode_superblock "\<lambda>_. True"
  by unfold_locales (simp add: decode_encode_superblock)

section \<open>Streaming writes whole sectors\<close>

text \<open>
  The reference for the streaming loop: cut the bytes into sectors, padding the last one with
  zeros, and write them one after the other until one fails.
\<close>

function sectors_of :: "u8 list \<Rightarrow> u8 list list" where
  "sectors_of xs =
     (if xs = [] then []
      else (take SECTOR xs @ replicate (SECTOR - length xs) 0) # sectors_of (drop SECTOR xs))"
  by pat_completeness auto
termination
  by (relation "measure length") (auto simp: SECTOR_def)

declare sectors_of.simps [simp del]

fun write_seq :: "'d block_device \<Rightarrow> u64 \<Rightarrow> u8 list list \<Rightarrow> 'd block_device \<times> u64 option" where
  "write_seq dev lba [] = (dev, Some lba)"
| "write_seq dev lba (s # ss) =
     (case dev_write dev lba s of
        (dev', True) \<Rightarrow> write_seq dev' (lba + 1) ss
      | (dev', False) \<Rightarrow> (dev', None))"

declare feed.simps [simp del]

lemma sectors_of_Nil [simp]: "sectors_of [] = []"
  by (simp add: sectors_of.simps)

lemma sectors_of_full: "length s = SECTOR \<Longrightarrow> sectors_of (s @ xs) = s # sectors_of xs"
  by (subst sectors_of.simps) (auto simp: SECTOR_def)

lemma sectors_of_partial:
  "0 < length s \<Longrightarrow> length s \<le> SECTOR \<Longrightarrow> sectors_of s = [s @ replicate (SECTOR - length s) 0]"
  by (subst sectors_of.simps) (auto simp: SECTOR_def)

lemma take_copy_into:
  "off + length src \<le> length out \<Longrightarrow> take (off + length src) (copy_into off src out) = take off out @ src"
  by (simp add: copy_into_def)

lemma feed_write_seq:
  fixes dev :: "'d block_device"
  assumes rest: "\<And>(dev :: 'd block_device) sec fill lba. length sec = SECTOR \<Longrightarrow> fill < SECTOR \<Longrightarrow>
      feed_all dev (sec, fill, lba) ps = write_seq dev lba (sectors_of (take fill sec @ concat ps))"
    and "length sec = SECTOR" and "fill < SECTOR"
  shows "feed_all dev (sec, fill, lba) (data # ps)
    = write_seq dev lba (sectors_of (take fill sec @ data @ concat ps))"
  using assms(2,3)
proof (induction dev "(sec, fill, lba)" data arbitrary: sec fill lba rule: feed.induct)
  case (1 dev sec fill lba data)
  show ?case
  proof (cases "data = []")
    case True
    then have "feed dev (sec, fill, lba) data = (dev, Some (sec, fill, lba))"
      by (simp add: feed.simps)
    with True rest [OF "1.prems"] show ?thesis by simp
  next
    case False
    define k where "k = min (SECTOR - fill) (length data)"
    define sec' where "sec' = copy_into fill (take k data) sec"
    have k: "0 < k" "k \<le> length data" "fill + k \<le> SECTOR"
      using False "1.prems" by (auto simp: k_def)
    have lk: "length (take k data) = k" using k by simp
    have l': "length sec' = SECTOR"
      using "1.prems"(1) k lk by (simp add: sec'_def)
    have tk: "take (fill + k) sec' = take fill sec @ take k data"
      using take_copy_into [of fill "take k data" sec] lk "1.prems"(1) k(3) by (simp add: sec'_def)
    have str: "take fill sec @ data @ concat ps = take (fill + k) sec' @ drop k data @ concat ps"
      unfolding tk by (metis append.assoc append_take_drop_id)
    have cond: "\<not> (data = [] \<or> SECTOR \<le> fill)" using False "1.prems" by simp
    show ?thesis
    proof (cases "fill + k = SECTOR")
      case True
      then have s': "take (fill + k) sec' = sec'" using l' by simp
      obtain dev' ok where w: "dev_write dev lba sec' = (dev', ok)" by (cases "dev_write dev lba sec'")
      have f: "feed dev (sec, fill, lba) data
          = (if ok then feed dev' (sec', 0, lba + 1) (drop k data) else (dev', None))"
        using cond True w by (subst feed.simps) (simp add: Let_def k_def [symmetric] sec'_def [symmetric])
      show ?thesis
      proof (cases ok)
        case ok: True
        have "feed_all dev' (sec', 0, lba + 1) (drop k data # ps)
            = write_seq dev' (lba + 1) (sectors_of (take 0 sec' @ drop k data @ concat ps))"
          using "1.hyps"(1) [OF cond k_def sec'_def True] w ok l' by (auto simp: SECTOR_def)
        then show ?thesis
          unfolding str s' sectors_of_full [OF l'] using f w ok by simp
      next
        case nok: False
        then show ?thesis
          unfolding str s' sectors_of_full [OF l'] using f w by simp
      qed
    next
      case False
      then have "drop k data = []" "fill + k < SECTOR" using k by (auto simp: k_def)
      moreover have "feed dev (sec, fill, lba) data = feed dev (sec', fill + k, lba) (drop k data)"
        using cond False by (subst feed.simps) (simp add: Let_def k_def [symmetric] sec'_def [symmetric])
      ultimately have "feed dev (sec, fill, lba) data = (dev, Some (sec', fill + k, lba))"
        by (simp add: feed.simps)
      then show ?thesis
        unfolding str \<open>drop k data = []\<close> using rest [OF l' \<open>fill + k < SECTOR\<close>] by simp
    qed
  qed
qed

lemma feed_all_write_seq:
  "length sec = SECTOR \<Longrightarrow> fill < SECTOR \<Longrightarrow>
     feed_all dev (sec, fill, lba) ps = write_seq dev lba (sectors_of (take fill sec @ concat ps))"
proof (induction ps arbitrary: dev sec fill lba)
  case Nil
  show ?case
  proof (cases "fill = 0")
    case False
    then have "sectors_of (take fill sec) = [take fill sec @ replicate (SECTOR - fill) 0]"
      using Nil by (subst sectors_of_partial) auto
    then show ?thesis using False by (auto split: prod.splits bool.splits)
  qed simp
next
  case (Cons p ps)
  show ?case
    using feed_write_seq [OF Cons.IH Cons.prems] by simp
qed

text \<open>The bytes of a record on disk.\<close>

definition record_image :: "semantic_object option \<Rightarrow> suid option \<Rightarrow> u64 \<Rightarrow> u8 list option \<Rightarrow> u8 list" where
  "record_image ob tombstone seq content_override =
     (let (header, links_bytes, content) = record_parts ob tombstone seq content_override
      in header @ links_bytes @ content @ le_bytes 4 (crc32 (header @ links_bytes @ content)))"

lemma append_record_eq:
  "append_record j ob tombstone seq ov =
     (case write_seq (jr_dev j) (jr_head j) (sectors_of (record_image ob tombstone seq ov)) of
        (dev, Some lba) \<Rightarrow> (dev, Some (lba - jr_head j)) | (dev, None) \<Rightarrow> (dev, None))"
proof -
  obtain header links content where p: "record_parts ob tombstone seq ov = (header, links, content)"
    by (metis prod_cases3)
  have "crc_finish (crc_update (crc_update (crc_update crc_new header) links) content)
      = crc32 (header @ links @ content)"
    by (simp add: crc32_def crc_update_def)
  then show ?thesis
    unfolding append_record_def record_image_def p
    by (simp add: Let_def feed_all_write_seq SECTOR_def del: feed_all.simps)
qed

end
