(* ===== verification/Registry.thy ===== *)
theory Registry
  imports Journal Slot_Table
begin

text \<open>
  The object registry: \<^verbatim>\<open>src/kernel-core/src/semantic/registry.rs\<close>, a chained hash table from
  identifiers to objects whose changes go through the journal's hooks first. The theory shows that
  the table implements a finite map: every chain walk ends, a lookup finds exactly what was
  inserted, and a change that the journal refuses leaves the map as it was.
\<close>

section \<open>Definitions\<close>

definition MAX_OBJECTS :: nat where "MAX_OBJECTS = 1024"
definition NUM_BUCKETS :: nat where "NUM_BUCKETS = 256"

record registry_entry =
  re_suid :: suid
  re_object :: semantic_object
  re_next :: "nat option"

record registry =
  rg_buckets :: "nat option list"
  rg_entries :: "registry_entry option list"
  rg_free_head :: "nat option"
  rg_count :: nat

definition reg_new :: registry where
  "reg_new = \<lparr>rg_buckets = replicate NUM_BUCKETS None, rg_entries = replicate MAX_OBJECTS None,
     rg_free_head = Some 0, rg_count = 0\<rparr>"

text \<open>\<^verbatim>\<open>init\<close> clears all entries but the last, and no bucket.\<close>

definition reg_init :: "registry \<Rightarrow> registry" where
  "reg_init r = r\<lparr>rg_entries := replicate (MAX_OBJECTS - 1) None @ drop (MAX_OBJECTS - 1) (rg_entries r),
     rg_free_head := Some 0, rg_count := 0\<rparr>"

definition reg_hash :: "suid \<Rightarrow> nat" where
  "reg_hash s = unat ((high s XOR low s) AND (of_nat NUM_BUCKETS - 1))"

definition alloc_entry :: "registry \<Rightarrow> nat option" where
  "alloc_entry r = position (\<lambda>e. e = None) (rg_entries r)"

text \<open>
  The chain walk that \<^verbatim>\<open>get\<close>, \<^verbatim>\<open>get_mut\<close> and \<^verbatim>\<open>remove\<close> share: the index of the entry
  found with the index before it, or the end of the chain. \<open>Stuck\<close> stands for a walk that
  leaves the array or has not ended after \<open>fuel\<close> steps.
\<close>

datatype walk_result = Found "nat option" nat | Missing | Stuck

fun chain_walk ::
  "nat \<Rightarrow> registry_entry option list \<Rightarrow> suid \<Rightarrow> nat option \<Rightarrow> nat option \<Rightarrow> walk_result" where
  "chain_walk fuel es s prev None = Missing"
| "chain_walk 0 es s prev (Some i) = Stuck"
| "chain_walk (Suc fuel) es s prev (Some i) =
     (if i \<ge> length es then Stuck
      else case es ! i of
             Some e \<Rightarrow> (if re_suid e = s then Found prev i
                        else chain_walk fuel es s (Some i) (re_next e))
           | None \<Rightarrow> Missing)"

definition reg_find :: "registry \<Rightarrow> suid \<Rightarrow> walk_result" where
  "reg_find r s = chain_walk (Suc MAX_OBJECTS) (rg_entries r) s None (rg_buckets r ! reg_hash s)"

definition reg_get :: "registry \<Rightarrow> suid \<Rightarrow> semantic_object option" where
  "reg_get r s =
     (case reg_find r s of
        Found _ i \<Rightarrow> map_option re_object (rg_entries r ! i)
      | _ \<Rightarrow> None)"

text \<open>\<^verbatim>\<open>get_mut\<close> with the change the caller makes through the reference.\<close>

definition reg_update :: "registry \<Rightarrow> suid \<Rightarrow> (semantic_object \<Rightarrow> semantic_object) \<Rightarrow> registry" where
  "reg_update r s f =
     (case reg_find r s of
        Found _ i \<Rightarrow> r\<lparr>rg_entries := (rg_entries r)[i :=
            map_option (\<lambda>e. e\<lparr>re_object := f (re_object e)\<rparr>) (rg_entries r ! i)]\<rparr>
      | _ \<Rightarrow> r)"

definition reg_insert ::
  "'d journal option \<Rightarrow> registry \<Rightarrow> semantic_object \<Rightarrow> 'd journal option \<times> registry \<times> bool" where
  "reg_insert jr r ob =
     (let s = ob_suid ob
      in if reg_get r s \<noteq> None then (jr, r, False)
         else case alloc_entry r of
                None \<Rightarrow> (jr, r, False)
              | Some i \<Rightarrow>
                  (let b = reg_hash s
                   in case on_insert jr ob of
                        (jr', False) \<Rightarrow> (jr', r, False)
                      | (jr', True) \<Rightarrow>
                          (jr', r\<lparr>rg_entries := (rg_entries r)[i :=
                                    Some \<lparr>re_suid = s, re_object = ob, re_next = rg_buckets r ! b\<rparr>],
                                  rg_buckets := (rg_buckets r)[b := Some i],
                                  rg_count := rg_count r + 1\<rparr>, True)))"

definition reg_remove ::
  "'d journal option \<Rightarrow> registry \<Rightarrow> suid \<Rightarrow> 'd journal option \<times> registry \<times> semantic_object option" where
  "reg_remove jr r s =
     (case reg_find r s of
        Found prev i \<Rightarrow>
          (case rg_entries r ! i of
             None \<Rightarrow> (jr, r, None)
           | Some e \<Rightarrow>
               (case on_remove jr s of
                  (jr', False) \<Rightarrow> (jr', r, None)
                | (jr', True) \<Rightarrow>
                    (let r1 = (case prev of
                                 Some p \<Rightarrow> r\<lparr>rg_entries := (rg_entries r)[p :=
                                     map_option (\<lambda>pe. pe\<lparr>re_next := re_next e\<rparr>) (rg_entries r ! p)]\<rparr>
                               | None \<Rightarrow> r\<lparr>rg_buckets := (rg_buckets r)[reg_hash s := re_next e]\<rparr>)
                     in (jr', r1\<lparr>rg_entries := (rg_entries r1)[i := None], rg_count := rg_count r1 - 1\<rparr>,
                         map_option re_object (rg_entries r1 ! i)))))
      | _ \<Rightarrow> (jr, r, None))"

definition reg_contains :: "registry \<Rightarrow> suid \<Rightarrow> bool" where
  "reg_contains r s = (reg_get r s \<noteq> None)"

definition reg_len :: "registry \<Rightarrow> nat" where
  "reg_len r = rg_count r"

definition reg_is_empty :: "registry \<Rightarrow> bool" where
  "reg_is_empty r = (rg_count r = 0)"

definition reg_iter :: "registry \<Rightarrow> semantic_object list" where
  "reg_iter r = List.map_filter (map_option re_object) (rg_entries r)"

definition find_by_tier :: "registry \<Rightarrow> security_tier \<Rightarrow> semantic_object list" where
  "find_by_tier r t = filter (\<lambda>ob. ob_tier ob = t) (reg_iter r)"

definition find_linked_to :: "registry \<Rightarrow> suid \<Rightarrow> semantic_object list" where
  "find_linked_to r target =
     filter (\<lambda>ob. \<exists>l \<in> set (get_links ob). (case l of Some x \<Rightarrow> link_target x = target | None \<Rightarrow> False))
       (reg_iter r)"

section \<open>Chains\<close>

text \<open>\<open>linked es cur is\<close>: following the chain from \<open>cur\<close> visits exactly the entries \<open>is\<close>.\<close>

fun linked :: "registry_entry option list \<Rightarrow> nat option \<Rightarrow> nat list \<Rightarrow> bool" where
  "linked es cur [] = (cur = None)"
| "linked es cur (i # is) =
     (cur = Some i \<and> i < length es
      \<and> (case es ! i of Some e \<Rightarrow> linked es (re_next e) is | None \<Rightarrow> False))"

fun entry_live :: "registry_entry option \<Rightarrow> bool" where
  "entry_live None = False"
| "entry_live (Some e) = True"

fun entry_key :: "registry_entry option \<Rightarrow> suid" where
  "entry_key None = suid_NULL"
| "entry_key (Some e) = re_suid e"

interpretation reg_slots: slot_table entry_live entry_key None
  by unfold_locales simp

text \<open>The indices of the live entries that hash to bucket \<open>b\<close>.\<close>

definition bucket_set :: "registry_entry option list \<Rightarrow> nat \<Rightarrow> nat set" where
  "bucket_set es b = {i. i < length es \<and> entry_live (es ! i) \<and> reg_hash (entry_key (es ! i)) = b}"

definition chains_ok :: "nat option list \<Rightarrow> registry_entry option list \<Rightarrow> (nat \<Rightarrow> nat list) \<Rightarrow> bool" where
  "chains_ok bs es ch \<longleftrightarrow>
     (\<forall>b < NUM_BUCKETS. linked es (bs ! b) (ch b) \<and> distinct (ch b) \<and> set (ch b) = bucket_set es b)"

definition reg_inv :: "registry \<Rightarrow> bool" where
  "reg_inv r \<longleftrightarrow> length (rg_buckets r) = NUM_BUCKETS \<and> length (rg_entries r) = MAX_OBJECTS
     \<and> (\<exists>ch. chains_ok (rg_buckets r) (rg_entries r) ch)
     \<and> slot_uniq entry_live entry_key (rg_entries r)
     \<and> rg_count r = live_count entry_live (rg_entries r)
     \<and> (\<forall>e. Some e \<in> set (rg_entries r) \<longrightarrow> re_suid e = ob_suid (re_object e))"

text \<open>The finite map that a registry stands for.\<close>

definition reg_map :: "registry \<Rightarrow> suid \<Rightarrow> semantic_object option" where
  "reg_map r s = map_option (re_object \<circ> the) (slot_lookup entry_live entry_key (rg_entries r) s)"

lemma reg_hash_less: "reg_hash s < NUM_BUCKETS"
  using unat_and_mask_less [of "high s XOR low s" 8]
  by (simp add: reg_hash_def NUM_BUCKETS_def mask_eq_exp_minus_1)

lemma linked_update_other:
  "i \<notin> set is \<Longrightarrow> linked (es[i := x]) cur is = linked es cur is"
  by (induction "is" arbitrary: cur) (auto split: option.splits)

lemma linked_in_range: "linked es cur is \<Longrightarrow> set is \<subseteq> {..<length es} \<and> (\<forall>i \<in> set is. entry_live (es ! i))"
  by (induction "is" arbitrary: cur) (auto split: option.splits)

text \<open>A walk along a chain finds the first entry with the key, or the end.\<close>

lemma chain_walk_linked:
  assumes "linked es cur is" and "length is < fuel"
  shows "chain_walk fuel es s prev cur =
    (case position (\<lambda>i. entry_key (es ! i) = s) is of
       None \<Rightarrow> Missing
     | Some k \<Rightarrow> Found (if k = 0 then prev else Some (is ! (k - 1))) (is ! k))"
  using assms
proof (induction "is" arbitrary: fuel cur prev)
  case Nil
  then show ?case by simp
next
  case (Cons i "is")
  then obtain f e where f: "fuel = Suc f" and e: "es ! i = Some e" and c: "cur = Some i" "i < length es"
    and l: "linked es (re_next e) is"
    by (cases fuel) (auto split: option.splits)
  have ih: "chain_walk f es s (Some i) (re_next e) =
    (case position (\<lambda>i. entry_key (es ! i) = s) is of
       None \<Rightarrow> Missing
     | Some k \<Rightarrow> Found (if k = 0 then Some i else Some (is ! (k - 1))) (is ! k))"
    using Cons.IH [OF l, of f "Some i"] Cons.prems f by simp
  then show ?case
    using f e c by (auto simp: nth_Cons split: option.splits nat.splits)
qed

lemma reg_map_entry:
  assumes "slot_uniq entry_live entry_key (rg_entries r)" and "i < length (rg_entries r)"
    and "rg_entries r ! i = Some e" and "re_suid e = s"
  shows "reg_map r s = Some (re_object e)"
proof -
  have "Some e \<in> set (rg_entries r)" using assms(2,3) by (metis nth_mem)
  then have "slot_lookup entry_live entry_key (rg_entries r) s = Some (Some e)"
    using reg_slots.lookup_Some_iff [OF assms(1)] assms(4) by simp
  then show ?thesis by (simp add: reg_map_def)
qed

lemma reg_find_cases:
  assumes inv: "reg_inv r" and ch: "chains_ok (rg_buckets r) (rg_entries r) ch"
  obtains (found) k e where "k < length (ch (reg_hash s))"
      "reg_find r s = Found (if k = 0 then None else Some (ch (reg_hash s) ! (k - 1))) (ch (reg_hash s) ! k)"
      "ch (reg_hash s) ! k < MAX_OBJECTS" "rg_entries r ! (ch (reg_hash s) ! k) = Some e" "re_suid e = s"
      "reg_map r s = Some (re_object e)"
    | (missing) "reg_find r s = Missing" "reg_map r s = None"
      "\<forall>x \<in> set (rg_entries r). entry_live x \<longrightarrow> entry_key x \<noteq> s"
proof -
  let ?b = "reg_hash s" and ?es = "rg_entries r"
  have c: "linked ?es (rg_buckets r ! ?b) (ch ?b)" "distinct (ch ?b)"
    and cs: "set (ch ?b) = bucket_set ?es ?b"
    using ch reg_hash_less [of s] unfolding chains_ok_def by blast+
  have len: "length ?es = MAX_OBJECTS" and uq: "slot_uniq entry_live entry_key ?es"
    using inv by (simp_all add: reg_inv_def)
  have c3: "set (ch ?b) = {i. i < MAX_OBJECTS \<and> entry_live (?es ! i) \<and> reg_hash (entry_key (?es ! i)) = ?b}"
    using cs len by (simp add: bucket_set_def)
  have "length (ch ?b) = card (set (ch ?b))" using c(2) by (simp add: distinct_card)
  also have "\<dots> \<le> card {..<MAX_OBJECTS}" using c3 by (intro card_mono) auto
  finally have "length (ch ?b) < Suc MAX_OBJECTS" by simp
  note walk = chain_walk_linked [OF c(1) this, of s None]
  show thesis
  proof (cases "position (\<lambda>i. entry_key (?es ! i) = s) (ch ?b)")
    case None
    have no: "entry_key x \<noteq> s" if "x \<in> set ?es" "entry_live x" for x
    proof
      assume k: "entry_key x = s"
      from that(1) obtain i where "i < length ?es" "?es ! i = x" unfolding in_set_conv_nth by blast
      then have "i \<in> set (ch ?b)" using c3 len that(2) k by simp
      with None k \<open>?es ! i = x\<close> show False by (auto simp: position_None_iff)
    qed
    then have "reg_map r s = None" by (simp add: reg_map_def reg_slots.lookup_None_iff)
    with None no walk show thesis using missing by (simp add: reg_find_def)
  next
    case (Some k)
    have k: "k < length (ch ?b)" "entry_key (?es ! (ch ?b ! k)) = s"
      using position_SomeD [OF Some] by auto
    then have m: "ch ?b ! k \<in> set (ch ?b)" by simp
    then have i: "ch ?b ! k < MAX_OBJECTS" "entry_live (?es ! (ch ?b ! k))" using c3 by auto
    then obtain e where e: "?es ! (ch ?b ! k) = Some e" by (cases "?es ! (ch ?b ! k)") auto
    then have "re_suid e = s" using k(2) by simp
    with e i len uq have "reg_map r s = Some (re_object e)" by (intro reg_map_entry) auto
    with Some walk k i e \<open>re_suid e = s\<close> show thesis
      using found [of k e] by (simp add: reg_find_def split: if_splits)
  qed
qed

lemma reg_get_map: "reg_inv r \<Longrightarrow> reg_get r s = reg_map r s"
proof -
  assume inv: "reg_inv r"
  then obtain ch where "chains_ok (rg_buckets r) (rg_entries r) ch" by (auto simp: reg_inv_def)
  with inv show ?thesis
    by (cases rule: reg_find_cases [where s = s]) (simp_all add: reg_get_def)
qed

lemma reg_find_ends: "reg_inv r \<Longrightarrow> reg_find r s \<noteq> Stuck"
proof -
  assume inv: "reg_inv r"
  then obtain ch where "chains_ok (rg_buckets r) (rg_entries r) ch" by (auto simp: reg_inv_def)
  with inv show ?thesis
    by (cases rule: reg_find_cases [where s = s]) simp_all
qed

lemma reg_inv_new: "reg_inv reg_new" "reg_map reg_new = Map.empty"
proof -
  have "chains_ok (rg_buckets reg_new) (rg_entries reg_new) (\<lambda>_. [])"
    by (auto simp: chains_ok_def bucket_set_def reg_new_def)
  then show "reg_inv reg_new" by (auto simp: reg_inv_def reg_new_def)
  show "reg_map reg_new = Map.empty" by (rule ext) (simp add: reg_map_def reg_new_def)
qed

text \<open>The count of the registry is the number of objects it holds.\<close>

lemma slot_uniq_distinct: "slot_uniq live key xs \<Longrightarrow> distinct (map key (filter live xs))"
proof (induction xs)
  case (Cons x xs)
  have u: "slot_uniq live key xs"
    unfolding slot_uniq_def
  proof (intro allI impI)
    fix i j assume "i < length xs" "j < length xs" "live (xs ! i) \<and> live (xs ! j) \<and> key (xs ! i) = key (xs ! j)"
    then have "Suc i = Suc j" using Cons.prems unfolding slot_uniq_def by (metis Suc_less_eq length_Cons nth_Cons_Suc)
    then show "i = j" by simp
  qed
  have "key y \<noteq> key x" if "live x" "y \<in> set xs" "live y" for y
  proof
    assume k: "key y = key x"
    obtain i where "i < length xs" "y = xs ! i" using \<open>y \<in> set xs\<close> by (metis in_set_conv_nth)
    then have "Suc i = 0" using Cons.prems that(1,3) k unfolding slot_uniq_def
      by (metis Suc_less_eq length_Cons nth_Cons_0 nth_Cons_Suc zero_less_Suc)
    then show False by simp
  qed
  then have "key x \<notin> key ` set (filter live xs)" if "live x" using that by fastforce
  then show ?case using Cons.IH [OF u] by simp
qed simp

lemma dom_reg_map: "dom (reg_map r) = set (map entry_key (filter entry_live (rg_entries r)))"
proof -
  have "reg_map r s \<noteq> None \<longleftrightarrow> s \<in> set (map entry_key (filter entry_live (rg_entries r)))" for s
    using reg_slots.lookup_None_iff [of "rg_entries r" s] by (auto simp: reg_map_def)
  then show ?thesis by blast
qed

lemma reg_map_finite: "finite (dom (reg_map r))"
  unfolding dom_reg_map by simp

lemma reg_count_card:
  assumes "reg_inv r"
  shows "rg_count r = card (dom (reg_map r))"
proof -
  have u: "slot_uniq entry_live entry_key (rg_entries r)" using assms by (simp add: reg_inv_def)
  have "rg_count r = length (map entry_key (filter entry_live (rg_entries r)))" using assms by (simp add: reg_inv_def live_count_def)
  then show ?thesis unfolding dom_reg_map using distinct_card [OF slot_uniq_distinct [OF u]] by simp
qed

section \<open>Insertion\<close>

lemma bucket_set_update:
  assumes "i < length es"
  shows "bucket_set (es[i := x]) b = (bucket_set es b - {i})
    \<union> (if entry_live x \<and> reg_hash (entry_key x) = b then {i} else {})"
  using assms by (auto simp: bucket_set_def nth_list_update split: if_splits)

lemma chains_ok_insert:
  assumes ch: "chains_ok bs es ch" and i: "i < length es" "es ! i = None" and bs: "length bs = NUM_BUCKETS"
    and b: "reg_hash (re_suid e) = b" "re_next e = bs ! b"
  shows "chains_ok (bs[b := Some i]) (es[i := Some e]) (ch(b := i # ch b))"
  unfolding chains_ok_def
proof (intro allI impI)
  fix d
  assume d: "d < NUM_BUCKETS"
  have c: "linked es (bs ! d) (ch d)" "distinct (ch d)" "set (ch d) = bucket_set es d"
    using ch d unfolding chains_ok_def by blast+
  have nb: "i \<notin> bucket_set es d" for d using i(2) by (simp add: bucket_set_def)
  then have ni: "i \<notin> set (ch d)" using c by simp
  have l: "linked (es[i := Some e]) (bs ! d) (ch d)"
    using c(1) linked_update_other [OF ni] by simp
  have bl: "b < NUM_BUCKETS" using b(1) reg_hash_less by blast
  have st: "bucket_set (es[i := Some e]) d = bucket_set es d \<union> (if d = b then {i} else {})"
    using bucket_set_update [OF i(1), of "Some e" d] nb b(1) by simp
  show "linked (es[i := Some e]) (bs[b := Some i] ! d) ((ch(b := i # ch b)) d)
    \<and> distinct ((ch(b := i # ch b)) d) \<and> set ((ch(b := i # ch b)) d) = bucket_set (es[i := Some e]) d"
    unfolding st using l c ni i(1) bs bl b(2) by (cases "d = b") simp_all
qed

lemma alloc_entry_cases:
  assumes "reg_inv r"
  obtains (slot) i where "alloc_entry r = Some i" "i < MAX_OBJECTS" "rg_entries r ! i = None"
    | (full) "alloc_entry r = None" "rg_count r = MAX_OBJECTS"
proof (cases "alloc_entry r")
  case None
  then have "position (\<lambda>e. \<not> entry_live e) (rg_entries r) = None"
    unfolding alloc_entry_def position_None_iff by (metis entry_live.elims(3))
  then have "rg_count r = MAX_OBJECTS"
    using assms reg_slots.all_live_iff_full [of "rg_entries r"] by (simp add: reg_inv_def)
  with None show ?thesis by (rule full)
next
  case (Some i)
  then show ?thesis
    using slot position_SomeD [of "\<lambda>e. e = None" "rg_entries r" i] assms
    by (simp add: alloc_entry_def reg_inv_def)
qed

lemma reg_insert_effect:
  assumes inv: "reg_inv r" and r: "reg_insert jr r ob = (jr', r', ok)"
  shows "reg_inv r'"
    and "ok \<Longrightarrow> reg_map r (ob_suid ob) = None \<and> reg_map r' = (reg_map r)(ob_suid ob \<mapsto> ob)
        \<and> rg_count r' = rg_count r + 1 \<and> on_insert jr ob = (jr', True)"
    and "\<not> ok \<Longrightarrow> r' = r \<and> (reg_map r (ob_suid ob) \<noteq> None \<or> rg_count r = MAX_OBJECTS
        \<or> on_insert jr ob = (jr', False))"
proof -
  let ?s = "ob_suid ob" and ?es = "rg_entries r"
  let ?b = "reg_hash ?s"
  have "reg_inv r' \<and> (ok \<longrightarrow> reg_map r ?s = None \<and> reg_map r' = (reg_map r)(?s \<mapsto> ob)
        \<and> rg_count r' = rg_count r + 1 \<and> on_insert jr ob = (jr', True))
      \<and> (\<not> ok \<longrightarrow> r' = r \<and> (reg_map r ?s \<noteq> None \<or> rg_count r = MAX_OBJECTS \<or> on_insert jr ob = (jr', False)))"
  proof (cases "reg_map r ?s")
    case Some
    then have "reg_get r ?s \<noteq> None" using reg_get_map [OF inv] by simp
    with r inv Some show ?thesis by (auto simp: reg_insert_def Let_def)
  next
    case None
    then have g: "reg_get r ?s = None" using reg_get_map [OF inv] by simp
    from inv show ?thesis
    proof (cases rule: alloc_entry_cases)
      case full
      with g r inv show ?thesis by (auto simp: reg_insert_def Let_def)
    next
      case (slot i)
      obtain j ok' where h: "on_insert jr ob = (j, ok')" by (cases "on_insert jr ob")
      define e where "e = \<lparr>re_suid = ?s, re_object = ob, re_next = rg_buckets r ! ?b\<rparr>"
      have r': "(jr', r', ok) = (if ok' then (j, r\<lparr>rg_entries := ?es[i := Some e],
            rg_buckets := (rg_buckets r)[?b := Some i], rg_count := rg_count r + 1\<rparr>, True) else (j, r, False))"
        using r g slot h by (cases ok') (simp_all add: reg_insert_def Let_def e_def)
      show ?thesis
      proof (cases ok')
        case False
        with r' h inv show ?thesis by simp
      next
        case True
        have len: "length ?es = MAX_OBJECTS" "length (rg_buckets r) = NUM_BUCKETS"
          and uq: "slot_uniq entry_live entry_key ?es" using inv by (simp_all add: reg_inv_def)
        obtain ch where ch: "chains_ok (rg_buckets r) ?es ch" using inv by (auto simp: reg_inv_def)
        have i: "i < length ?es" using slot len by simp
        have no: "\<forall>x \<in> set ?es. entry_live x \<longrightarrow> entry_key x \<noteq> ?s"
          using None reg_slots.lookup_None_iff [of ?es ?s] by (simp add: reg_map_def)
        have oth: "entry_key (?es ! k) \<noteq> entry_key (Some e)" if "k < length ?es" "k \<noteq> i" "entry_live (?es ! k)" for k
          using no that by (simp add: e_def)
        have "chains_ok ((rg_buckets r)[?b := Some i]) (?es[i := Some e]) (ch(?b := i # ch ?b))"
          by (rule chains_ok_insert [OF ch i slot(3) len(2)]) (simp_all add: e_def)
        moreover have "slot_uniq entry_live entry_key (?es[i := Some e])"
          by (rule reg_slots.uniq_put [OF uq i]) (use oth in blast)
        moreover have "live_count entry_live (?es[i := Some e]) = Suc (live_count entry_live ?es)"
          using i slot(3) by (intro reg_slots.live_count_put_free) simp_all
        moreover have "\<forall>x. Some x \<in> set (?es[i := Some e]) \<longrightarrow> re_suid x = ob_suid (re_object x)"
          using inv set_update_subset_insert [of ?es i "Some e"] by (auto simp: reg_inv_def e_def)
        moreover have "slot_lookup entry_live entry_key (?es[i := Some e]) k
            = (if k = ?s then Some (Some e) else slot_lookup entry_live entry_key ?es k)" for k
          using reg_slots.lookup_put [OF uq i, of "Some e" k] oth slot(3) by (simp add: e_def)
        ultimately show ?thesis
          using r' True None inv h len by (auto simp: reg_inv_def reg_map_def fun_eq_iff e_def)
      qed
    qed
  qed
  then show "reg_inv r'"
    "ok \<Longrightarrow> reg_map r ?s = None \<and> reg_map r' = (reg_map r)(?s \<mapsto> ob) \<and> rg_count r' = rg_count r + 1
        \<and> on_insert jr ob = (jr', True)"
    "\<not> ok \<Longrightarrow> r' = r \<and> (reg_map r ?s \<noteq> None \<or> rg_count r = MAX_OBJECTS \<or> on_insert jr ob = (jr', False))"
    by blast+
qed

section \<open>Removal and update\<close>

definition set_next :: "nat option \<Rightarrow> registry_entry option \<Rightarrow> registry_entry option" where
  "set_next n x = map_option (\<lambda>pe. pe\<lparr>re_next := n\<rparr>) x"

lemma set_next_simps [simp]:
  "entry_live (set_next n x) = entry_live x" "entry_key (set_next n x) = entry_key x"
  by (cases x; simp add: set_next_def)+

text \<open>Unlinking the entry at position \<open>Suc m\<close> of a chain.\<close>

lemma linked_unlink:
  assumes "linked es cur is" and "distinct is" and "Suc m < length is" and "es ! (is ! Suc m) = Some e"
  shows "linked ((es[is ! m := set_next (re_next e) (es ! (is ! m))])[is ! Suc m := None]) cur
    (take (Suc m) is @ drop (Suc (Suc m)) is)"
  using assms
proof (induction m arbitrary: cur "is")
  case 0
  then obtain i j rest where iss: "is = i # j # rest" by (cases "is"; cases "tl is") auto
  with 0 obtain ei where i: "cur = Some i" "i < length es" "es ! i = Some ei" "j < length es"
    "linked es (re_next e) rest" "i \<noteq> j" "i \<notin> set rest" "j \<notin> set rest"
    by (auto split: option.splits)
  then show ?case
    using linked_update_other [OF i(8)] linked_update_other [OF i(7)] by (simp add: iss set_next_def)
next
  case (Suc m)
  then obtain i is' where iss: "is = i # is'" by (cases "is") auto
  with Suc.prems obtain ei where i: "cur = Some i" "i < length es" "es ! i = Some ei"
    "linked es (re_next ei) is'" "i \<notin> set is'" "distinct is'" "Suc m < length is'"
    by (auto split: option.splits)
  have ne: "is' ! m \<noteq> i" "is' ! Suc m \<noteq> i" using i(5,7) by (metis Suc_lessD nth_mem)+
  have "es ! (is' ! Suc m) = Some e" using Suc.prems(4) iss by simp
  from Suc.IH [OF i(4,6,7) this] show ?case
    using i ne by (simp add: iss)
qed

lemma chains_ok_remove:
  assumes ch: "chains_ok bs es ch" and bs: "length bs = NUM_BUCKETS" and b: "b < NUM_BUCKETS"
    and k: "k < length (ch b)" and e: "es ! (ch b ! k) = Some e"
  defines "es1 \<equiv> if k = 0 then es else es[ch b ! (k - 1) := set_next (re_next e) (es ! (ch b ! (k - 1)))]"
  shows "chains_ok (if k = 0 then bs[b := re_next e] else bs) (es1[ch b ! k := None])
    (ch(b := take k (ch b) @ drop (Suc k) (ch b)))"
  unfolding chains_ok_def
proof (intro allI impI)
  fix d
  assume d: "d < NUM_BUCKETS"
  let ?i = "ch b ! k"
  have c: "linked es (bs ! d) (ch d)" "distinct (ch d)" "set (ch d) = bucket_set es d"
    using ch d unfolding chains_ok_def by blast+
  have cb: "linked es (bs ! b) (ch b)" "distinct (ch b)" "set (ch b) = bucket_set es b"
    using ch b unfolding chains_ok_def by blast+
  have mem: "?i \<in> bucket_set es b" "k \<noteq> 0 \<Longrightarrow> ch b ! (k - 1) \<in> bucket_set es b"
    using k cb(3) by (metis nth_mem, metis nth_mem less_imp_diff_less)
  have i: "?i < length es" using mem by (simp add: bucket_set_def)
  have b1: "bucket_set es1 x = bucket_set es x" for x
    using mem by (auto simp: es1_def bucket_set_def nth_list_update split: if_splits)
  have l1: "length es1 = length es" by (simp add: es1_def)
  have st: "bucket_set (es1[?i := None]) d = bucket_set es d - {?i}"
    using bucket_set_update [of ?i es1 None d] i l1 b1 by simp
  show "linked (es1[?i := None]) ((if k = 0 then bs[b := re_next e] else bs) ! d)
      ((ch(b := take k (ch b) @ drop (Suc k) (ch b))) d)
    \<and> distinct ((ch(b := take k (ch b) @ drop (Suc k) (ch b))) d)
    \<and> set ((ch(b := take k (ch b) @ drop (Suc k) (ch b))) d) = bucket_set (es1[?i := None]) d"
  proof (cases "d = b")
    case False
    then have "?i \<notin> bucket_set es d" "k \<noteq> 0 \<Longrightarrow> ch b ! (k - 1) \<notin> bucket_set es d"
      using mem by (auto simp: bucket_set_def)
    then have "?i \<notin> set (ch d)" "k \<noteq> 0 \<Longrightarrow> ch b ! (k - 1) \<notin> set (ch d)" using c(3) by simp_all
    then have "linked (es1[?i := None]) (bs ! d) (ch d)"
      using c(1) by (simp add: es1_def linked_update_other)
    moreover have "(if k = 0 then bs[b := re_next e] else bs) ! d = bs ! d" using False by simp
    moreover have "(ch(b := take k (ch b) @ drop (Suc k) (ch b))) d = ch d" using False by simp
    moreover have "set (ch d) = bucket_set (es1[?i := None]) d"
      using c(3) st \<open>?i \<notin> bucket_set es d\<close> by simp
    ultimately show ?thesis using c(2) by metis
  next
    case True
    have split: "ch b = take k (ch b) @ ?i # drop (Suc k) (ch b)"
      using k by (simp add: id_take_nth_drop)
    have dist: "distinct (take k (ch b) @ ?i # drop (Suc k) (ch b))" using cb(2) split by simp
    have "set (take k (ch b) @ drop (Suc k) (ch b)) = set (ch b) - {?i}"
      using dist by (subst (3) split) auto
    moreover have "distinct (take k (ch b) @ drop (Suc k) (ch b))" using dist by simp
    moreover have "linked (es1[?i := None]) ((if k = 0 then bs[b := re_next e] else bs) ! b)
        (take k (ch b) @ drop (Suc k) (ch b))"
    proof (cases k)
      case 0
      then obtain rest where r: "ch b = ?i # rest" using k by (cases "ch b") auto
      then have "linked es (re_next e) rest" "?i \<notin> set rest"
        using cb(1,2) e by (metis (no_types, lifting) linked.simps(2) option.simps(5), metis distinct.simps(2))
      then show ?thesis
        using 0 bs b r by (simp add: es1_def linked_update_other) (metis drop0 drop_Suc_Cons linked_update_other)
    next
      case (Suc m)
      then show ?thesis
        using linked_unlink [OF cb(1,2), of m e] k e by (simp add: es1_def)
    qed
    ultimately show ?thesis using True st cb(3) by simp
  qed
qed

lemma entry_put_same_key:
  assumes uq: "slot_uniq entry_live entry_key es" and i: "i < length es" "entry_live (es ! i)"
    and v: "entry_live v" "entry_key v = entry_key (es ! i)"
  shows "slot_uniq entry_live entry_key (es[i := v])"
    and "live_count entry_live (es[i := v]) = live_count entry_live es"
    and "slot_lookup entry_live entry_key (es[i := v]) k
      = (if k = entry_key (es ! i) then Some v else slot_lookup entry_live entry_key es k)"
proof -
  have oth: "entry_key (es ! j) \<noteq> entry_key v" if "j < length es" "j \<noteq> i" "entry_live (es ! j)" for j
    using uq i v that unfolding slot_uniq_def by metis
  show "slot_uniq entry_live entry_key (es[i := v])"
    by (rule reg_slots.uniq_put [OF uq i(1)]) (use oth in blast)
  show "live_count entry_live (es[i := v]) = live_count entry_live es"
    using i v by (intro reg_slots.live_count_put_live) simp_all
  show "slot_lookup entry_live entry_key (es[i := v]) k
      = (if k = entry_key (es ! i) then Some v else slot_lookup entry_live entry_key es k)"
    using reg_slots.lookup_put [OF uq i(1) v(1), of k] oth v(2) by simp
qed

text \<open>Changing the chain pointer of one live entry changes nothing that a lookup sees.\<close>

definition relink :: "nat option \<Rightarrow> nat option \<Rightarrow> registry_entry option list \<Rightarrow> registry_entry option list" where
  "relink prev n es = (case prev of None \<Rightarrow> es | Some p \<Rightarrow> es[p := set_next n (es ! p)])"

lemma relink_keeps:
  assumes uq: "slot_uniq entry_live entry_key es"
    and p: "case prev of None \<Rightarrow> True | Some p \<Rightarrow> p < length es \<and> entry_live (es ! p)"
  shows "length (relink prev n es) = length es"
    and "slot_uniq entry_live entry_key (relink prev n es)"
    and "live_count entry_live (relink prev n es) = live_count entry_live es"
    and "map_option (re_object \<circ> the) (slot_lookup entry_live entry_key (relink prev n es) q)
      = map_option (re_object \<circ> the) (slot_lookup entry_live entry_key es q)"
    and "Some y \<in> set (relink prev n es) \<Longrightarrow> \<exists>z. Some z \<in> set es \<and> re_suid y = re_suid z \<and> re_object y = re_object z"
proof -
  show "length (relink prev n es) = length es" by (simp add: relink_def split: option.split)
  show "slot_uniq entry_live entry_key (relink prev n es)"
    "live_count entry_live (relink prev n es) = live_count entry_live es"
    using uq p entry_put_same_key [OF uq, of _ "set_next n (es ! _)"]
    by (auto simp: relink_def split: option.split)
  show "map_option (re_object \<circ> the) (slot_lookup entry_live entry_key (relink prev n es) q)
      = map_option (re_object \<circ> the) (slot_lookup entry_live entry_key es q)"
  proof (cases prev)
    case (Some i)
    then obtain pe where pe: "es ! i = Some pe" and i: "i < length es" using p by (cases "es ! i") auto
    then have "Some pe \<in> set es" by (metis nth_mem)
    then have "slot_lookup entry_live entry_key es (re_suid pe) = Some (Some pe)"
      by (simp add: reg_slots.lookup_Some_iff [OF uq])
    then show ?thesis
      using Some pe entry_put_same_key(3) [OF uq i, of "set_next n (es ! i)" q]
      by (simp add: relink_def set_next_def)
  qed (simp add: relink_def)
  assume y: "Some y \<in> set (relink prev n es)"
  show "\<exists>z. Some z \<in> set es \<and> re_suid y = re_suid z \<and> re_object y = re_object z"
  proof (cases prev)
    case (Some i)
    then obtain pe where pe: "es ! i = Some pe" and i: "i < length es" using p by (cases "es ! i") auto
    then have m: "Some pe \<in> set es" by (metis nth_mem)
    have "Some y \<in> insert (set_next n (es ! i)) (set es)"
      using y Some set_update_subset_insert [of es i] by (auto simp: relink_def)
    then show ?thesis using m pe by (auto simp: set_next_def)
  qed (use y in \<open>auto simp: relink_def\<close>)
qed

lemma reg_remove_found:
  assumes inv: "reg_inv r" and ch: "chains_ok (rg_buckets r) (rg_entries r) ch"
    and k: "k < length (ch (reg_hash s))" and e: "rg_entries r ! (ch (reg_hash s) ! k) = Some e" "re_suid e = s"
  defines "i \<equiv> ch (reg_hash s) ! k"
    and "prev \<equiv> if k = 0 then None else Some (ch (reg_hash s) ! (k - 1))"
  defines "es1 \<equiv> relink prev (re_next e) (rg_entries r)"
    and "bs1 \<equiv> if k = 0 then (rg_buckets r)[reg_hash s := re_next e] else rg_buckets r"
  defines "r' \<equiv> r\<lparr>rg_buckets := bs1, rg_entries := es1[i := None], rg_count := rg_count r - 1\<rparr>"
  shows "reg_inv r'" and "reg_map r' = (reg_map r)(s := None)" and "rg_count r = rg_count r' + 1"
    and "es1 ! i = Some e"
proof -
  let ?es = "rg_entries r" and ?b = "reg_hash s"
  have len: "length ?es = MAX_OBJECTS" "length (rg_buckets r) = NUM_BUCKETS"
    and uq: "slot_uniq entry_live entry_key ?es" and cnt: "rg_count r = live_count entry_live ?es"
    using inv by (simp_all add: reg_inv_def)
  have c: "distinct (ch ?b)" "set (ch ?b) = bucket_set ?es ?b"
    using ch reg_hash_less [of s] unfolding chains_ok_def by blast+
  have mem: "i \<in> bucket_set ?es ?b" unfolding c(2) [symmetric] i_def using k by (rule nth_mem)
  have pr: "case prev of None \<Rightarrow> True | Some p \<Rightarrow> p < length ?es \<and> entry_live (?es ! p) \<and> p \<noteq> i"
  proof (cases "k = 0")
    case False
    then have "ch ?b ! (k - 1) \<in> bucket_set ?es ?b" using k c(2) by (metis nth_mem less_imp_diff_less)
    moreover have "ch ?b ! (k - 1) \<noteq> i" using c(1) k False by (simp add: i_def nth_eq_iff_index_eq)
    ultimately show ?thesis using False by (simp add: prev_def bucket_set_def)
  qed (simp add: prev_def)
  have pr': "case prev of None \<Rightarrow> True | Some p \<Rightarrow> p < length ?es \<and> entry_live (?es ! p)"
    using pr by (simp split: option.splits)
  note R = relink_keeps [OF uq pr', where n = "re_next e", folded es1_def]
  show i1: "es1 ! i = Some e" using e(1) pr by (auto simp: es1_def relink_def i_def split: option.splits)
  have il: "i < length es1" "entry_live (es1 ! i)" "entry_key (es1 ! i) = s"
    using mem i1 R(1) e(2) by (auto simp: bucket_set_def)
  have "chains_ok bs1 (es1[i := None]) (ch(?b := take k (ch ?b) @ drop (Suc k) (ch ?b)))"
    using chains_ok_remove [OF ch len(2) reg_hash_less k e(1)]
    by (cases "k = 0") (simp_all add: bs1_def es1_def prev_def relink_def i_def)
  moreover have "slot_uniq entry_live entry_key (es1[i := None])"
    by (rule reg_slots.uniq_clear [OF R(2)]) simp
  moreover have lc: "Suc (live_count entry_live (es1[i := None])) = live_count entry_live ?es"
    using reg_slots.live_count_clear [OF il(1,2), of None] R(3) by simp
  moreover have "\<forall>y. Some y \<in> set (es1[i := None]) \<longrightarrow> re_suid y = ob_suid (re_object y)"
  proof (intro allI impI)
    fix y
    assume "Some y \<in> set (es1[i := None])"
    then have "Some y \<in> set es1" using set_update_subset_insert [of es1 i None] by auto
    from R(5) [OF this] inv show "re_suid y = ob_suid (re_object y)" by (auto simp: reg_inv_def)
  qed
  moreover have "length bs1 = NUM_BUCKETS" using len by (simp add: bs1_def)
  ultimately show "reg_inv r'" using R(1) len cnt by (auto simp: reg_inv_def r'_def)
  show "reg_map r' = (reg_map r)(s := None)"
    using reg_slots.lookup_clear [OF R(2) il(1,2), of None] il(3) R(4)
    by (auto simp: reg_map_def r'_def fun_eq_iff)
  show "rg_count r = rg_count r' + 1" using lc cnt by (simp add: r'_def)
qed

lemma reg_remove_effect:
  assumes inv: "reg_inv r" and r: "reg_remove jr r s = (jr', r', x)"
  shows "reg_inv r'"
    and "x \<noteq> None \<Longrightarrow> x = reg_map r s \<and> reg_map r' = (reg_map r)(s := None)
        \<and> rg_count r = rg_count r' + 1 \<and> on_remove jr s = (jr', True)"
    and "x = None \<Longrightarrow> r' = r \<and> (reg_map r s = None \<and> jr' = jr \<or> on_remove jr s = (jr', False))"
proof -
  obtain ch where ch: "chains_ok (rg_buckets r) (rg_entries r) ch" using inv by (auto simp: reg_inv_def)
  have "reg_inv r' \<and> (x \<noteq> None \<longrightarrow> x = reg_map r s \<and> reg_map r' = (reg_map r)(s := None)
        \<and> rg_count r = rg_count r' + 1 \<and> on_remove jr s = (jr', True))
      \<and> (x = None \<longrightarrow> r' = r \<and> (reg_map r s = None \<and> jr' = jr \<or> on_remove jr s = (jr', False)))"
    using inv ch
  proof (cases rule: reg_find_cases [where s = s])
    case missing
    with r inv show ?thesis by (simp add: reg_remove_def)
  next
    case (found k e)
    obtain j ok where h: "on_remove jr s = (j, ok)" by (cases "on_remove jr s")
    note F = reg_remove_found [OF inv ch found(1,4,5)]
    show ?thesis
    proof (cases ok)
      case False
      with r found(2,4) h inv show ?thesis by (simp add: reg_remove_def)
    next
      case True
      with r found(2,4) h F show ?thesis
        by (cases "k = 0") (auto simp: reg_remove_def Let_def relink_def set_next_def found(6))
    qed
  qed
  then show "reg_inv r'"
    "x \<noteq> None \<Longrightarrow> x = reg_map r s \<and> reg_map r' = (reg_map r)(s := None)
        \<and> rg_count r = rg_count r' + 1 \<and> on_remove jr s = (jr', True)"
    "x = None \<Longrightarrow> r' = r \<and> (reg_map r s = None \<and> jr' = jr \<or> on_remove jr s = (jr', False))" by blast+
qed

lemma linked_same_next:
  assumes "i < length es" and "es ! i = Some e" and "re_next e' = re_next e"
  shows "linked (es[i := Some e']) cur is = linked es cur is"
  using assms
proof (induction "is" arbitrary: cur)
  case (Cons j "is")
  then show ?case by (cases "j = i") (auto split: option.splits)
qed simp

lemma reg_update_effect:
  assumes inv: "reg_inv r" and f: "\<And>ob. ob_suid (f ob) = ob_suid ob"
  shows "reg_inv (reg_update r s f)"
    and "reg_map (reg_update r s f) = (case reg_map r s of None \<Rightarrow> reg_map r | Some ob \<Rightarrow> (reg_map r)(s \<mapsto> f ob))"
    and "rg_count (reg_update r s f) = rg_count r"
proof -
  obtain ch where ch: "chains_ok (rg_buckets r) (rg_entries r) ch" using inv by (auto simp: reg_inv_def)
  have "reg_inv (reg_update r s f)
    \<and> reg_map (reg_update r s f) = (case reg_map r s of None \<Rightarrow> reg_map r | Some ob \<Rightarrow> (reg_map r)(s \<mapsto> f ob))
    \<and> rg_count (reg_update r s f) = rg_count r"
    using inv ch
  proof (cases rule: reg_find_cases [where s = s])
    case missing
    with inv show ?thesis by (simp add: reg_update_def)
  next
    case (found k e)
    let ?i = "ch (reg_hash s) ! k" and ?es = "rg_entries r"
    define e' where "e' = e\<lparr>re_object := f (re_object e)\<rparr>"
    have len: "length ?es = MAX_OBJECTS" and uq: "slot_uniq entry_live entry_key ?es"
      using inv by (simp_all add: reg_inv_def)
    have i: "?i < length ?es" using found(3) len by simp
    have u: "reg_update r s f = r\<lparr>rg_entries := ?es[?i := Some e']\<rparr>"
      using found(2,4) by (simp add: reg_update_def e'_def)
    have live: "entry_live (?es ! ?i)" "entry_key (Some e') = entry_key (?es ! ?i)"
      using found(4) by (simp_all add: e'_def)
    note P = entry_put_same_key [OF uq i live(1), of "Some e'", OF _ live(2)]
    have "bucket_set (?es[?i := Some e']) b = bucket_set ?es b" for b
      using live i by (auto simp: bucket_set_def nth_list_update)
    moreover have "linked (?es[?i := Some e']) cur is = linked ?es cur is" for cur "is"
      by (rule linked_same_next [OF i found(4)]) (simp add: e'_def)
    ultimately have "chains_ok (rg_buckets r) (?es[?i := Some e']) ch" using ch by (simp add: chains_ok_def)
    moreover have "Some e \<in> set ?es" using i found(4) by (metis nth_mem)
    then have "re_suid e' = ob_suid (re_object e')" using inv f by (auto simp: reg_inv_def e'_def)
    then have "\<forall>y. Some y \<in> set (?es[?i := Some e']) \<longrightarrow> re_suid y = ob_suid (re_object y)"
      using inv set_update_subset_insert [of ?es ?i "Some e'"] by (auto simp: reg_inv_def)
    ultimately have "reg_inv (reg_update r s f)"
      using inv P by (auto simp: reg_inv_def u)
    moreover have "reg_map (reg_update r s f) = (reg_map r)(s \<mapsto> f (re_object e))"
      using P(3) found(4,5) by (auto simp: reg_map_def u e'_def fun_eq_iff)
    ultimately show ?thesis using found(6) by (simp add: u)
  qed
  then show "reg_inv (reg_update r s f)"
    "reg_map (reg_update r s f) = (case reg_map r s of None \<Rightarrow> reg_map r | Some ob \<Rightarrow> (reg_map r)(s \<mapsto> f ob))"
    "rg_count (reg_update r s f) = rg_count r" by blast+
qed

section \<open>The contract of an object store\<close>

text \<open>
  What the namespace and the journal's replay rely on: a store stands for a map from identifiers to
  objects, and its operations are the operations on the map. \<open>'w\<close> is the state of the journal
  that every change goes through.
\<close>

locale object_store =
  fixes inv :: "'r \<Rightarrow> bool"
    and contents :: "'r \<Rightarrow> suid \<Rightarrow> semantic_object option"
    and lookup :: "'r \<Rightarrow> suid \<Rightarrow> semantic_object option"
    and insert_op :: "'w \<Rightarrow> 'r \<Rightarrow> semantic_object \<Rightarrow> 'w \<times> 'r \<times> bool"
    and remove_op :: "'w \<Rightarrow> 'r \<Rightarrow> suid \<Rightarrow> 'w \<times> 'r \<times> semantic_object option"
    and update_op :: "'r \<Rightarrow> suid \<Rightarrow> (semantic_object \<Rightarrow> semantic_object) \<Rightarrow> 'r"
  assumes lookup_contents: "inv r \<Longrightarrow> lookup r s = contents r s"
    and insert_ok: "inv r \<Longrightarrow> insert_op w r ob = (w', r', True) \<Longrightarrow>
      inv r' \<and> contents r (ob_suid ob) = None \<and> contents r' = (contents r)(ob_suid ob \<mapsto> ob)"
    and insert_fail: "inv r \<Longrightarrow> insert_op w r ob = (w', r', False) \<Longrightarrow> r' = r"
    and remove_ok: "inv r \<Longrightarrow> remove_op w r s = (w', r', Some ob) \<Longrightarrow>
      inv r' \<and> contents r s = Some ob \<and> contents r' = (contents r)(s := None)"
    and remove_fail: "inv r \<Longrightarrow> remove_op w r s = (w', r', None) \<Longrightarrow> r' = r"
    and update_ok: "inv r \<Longrightarrow> (\<And>ob. ob_suid (f ob) = ob_suid ob) \<Longrightarrow>
      inv (update_op r s f) \<and> contents (update_op r s f)
        = (case contents r s of None \<Rightarrow> contents r | Some ob \<Rightarrow> (contents r)(s \<mapsto> f ob))"
begin

lemma insert_lookup:
  assumes "inv r" and "insert_op w r ob = (w', r', True)"
  shows "lookup r' s = (if s = ob_suid ob then Some ob else lookup r s)"
  using insert_ok [OF assms] lookup_contents assms(1) by simp

lemma insert_twice_fails:
  assumes "inv r" and "insert_op w r ob = (w', r', True)" and "ob_suid ob2 = ob_suid ob"
    and "insert_op w2 r' ob2 = (w3, r'', ok)"
  shows "\<not> ok"
  using insert_ok [OF assms(1,2)] insert_ok [of r' w2 ob2 w3 r''] assms(3,4) by (cases ok) auto

lemma insert_remove:
  assumes "inv r" and "insert_op w r ob = (w', r', True)" and "remove_op w2 r' (ob_suid ob) = (w3, r'', Some ob2)"
  shows "ob2 = ob \<and> contents r'' = contents r"
  using insert_ok [OF assms(1,2)] remove_ok [OF _ assms(3)] by (auto simp: fun_eq_iff)

lemma remove_lookup:
  assumes "inv r" and "remove_op w r s = (w', r', Some ob)"
  shows "lookup r' q = (if q = s then None else lookup r q)"
  using remove_ok [OF assms] lookup_contents assms(1) by simp

end

interpretation reg_store: object_store reg_inv reg_map reg_get reg_insert reg_remove reg_update
proof
  fix r r' :: registry and s :: suid and w w' :: "'d journal option" and ob :: semantic_object
    and f :: "semantic_object \<Rightarrow> semantic_object"
  assume inv: "reg_inv r"
  then show "reg_get r s = reg_map r s" by (rule reg_get_map)
  show "reg_insert w r ob = (w', r', True) \<Longrightarrow>
      reg_inv r' \<and> reg_map r (ob_suid ob) = None \<and> reg_map r' = (reg_map r)(ob_suid ob \<mapsto> ob)"
    using reg_insert_effect [OF inv] by blast
  show "reg_insert w r ob = (w', r', False) \<Longrightarrow> r' = r" using reg_insert_effect [OF inv] by blast
  show "reg_remove w r s = (w', r', Some ob) \<Longrightarrow>
      reg_inv r' \<and> reg_map r s = Some ob \<and> reg_map r' = (reg_map r)(s := None)"
    using reg_remove_effect [OF inv] by (metis option.distinct(1))
  show "reg_remove w r s = (w', r', None) \<Longrightarrow> r' = r" using reg_remove_effect [OF inv] by blast
  show "(\<And>ob. ob_suid (f ob) = ob_suid ob) \<Longrightarrow>
      reg_inv (reg_update r s f) \<and> reg_map (reg_update r s f)
        = (case reg_map r s of None \<Rightarrow> reg_map r | Some ob \<Rightarrow> (reg_map r)(s \<mapsto> f ob))"
    using reg_update_effect [OF inv] by blast
qed

section \<open>Properties\<close>

text \<open>
  (C19) The registry is a map. In every well-formed registry a lookup ends (the chain walk neither
  leaves the array nor runs in a circle) and gives the map's value; an insertion either adds exactly
  the object, after the journal has accepted it, or leaves the registry unchanged, and it fails only
  for a known identifier, a full table or a journal error; well-formedness is kept.
\<close>

theorem registry_insert_refines:
  assumes "reg_inv r" and "reg_insert jr r ob = (jr', r', ok)"
  shows "reg_find r s \<noteq> Stuck \<and> reg_get r s = reg_map r s \<and> reg_inv r'
    \<and> (ok \<longrightarrow> reg_get r (ob_suid ob) = None \<and> on_insert jr ob = (jr', True)
         \<and> reg_get r' = (reg_get r)(ob_suid ob \<mapsto> ob) \<and> reg_len r' = reg_len r + 1)
    \<and> (\<not> ok \<longrightarrow> r' = r \<and> (reg_get r (ob_suid ob) \<noteq> None \<or> reg_len r = MAX_OBJECTS
         \<or> on_insert jr ob = (jr', False)))"
proof -
  have inv': "reg_inv r'" by (rule reg_insert_effect(1) [OF assms])
  have g: "reg_get r = reg_map r" "reg_get r' = reg_map r'"
    using reg_get_map [OF assms(1)] reg_get_map [OF inv'] by (simp_all add: fun_eq_iff)
  show ?thesis
    using reg_insert_effect [OF assms] reg_find_ends [OF assms(1)] inv' unfolding g reg_len_def by blast
qed

theorem registry_insert_refines_witness:
  "reg_inv reg_new
   \<and> (let (jr', r', ok) = reg_insert (None :: unit journal option) reg_new (ob_new (suid_system 7) Secret 3)
      in ok \<and> reg_get r' (suid_system 7) = Some (ob_new (suid_system 7) Secret 3)
         \<and> reg_get r' (suid_system 8) = None)"
proof -
  let ?ob = "ob_new (suid_system 7) Secret 3"
  obtain jr' r' ok where r: "reg_insert (None :: unit journal option) reg_new ?ob = (jr', r', ok)"
    by (metis prod_cases3)
  have s: "ob_suid ?ob = suid_system 7" by (simp add: ob_new_def)
  have g: "reg_get reg_new q = None" for q
    using reg_get_map [OF reg_inv_new(1)] reg_inv_new(2) by simp
  note P = registry_insert_refines [OF reg_inv_new(1) r]
  have "reg_len reg_new \<noteq> MAX_OBJECTS" by (simp add: reg_len_def reg_new_def MAX_OBJECTS_def)
  moreover have "on_insert (None :: unit journal option) ?ob = (None, True)"
    by (simp add: on_insert_def journal_hook_def)
  ultimately have "ok" using P g by auto
  with P g s r reg_inv_new(1) show ?thesis by (simp add: suid_system_inj)
qed

text \<open>
  Removal returns the object and deletes exactly its identifier from the map, after the journal
  has accepted the tombstone; when it returns nothing, the registry is unchanged, and either the
  identifier was unknown or the journal failed. Removing what was just inserted restores the map.
\<close>

theorem registry_remove_refines:
  assumes "reg_inv r" and "reg_remove jr r s = (jr', r', x)"
  shows "reg_inv r'
    \<and> (x \<noteq> None \<longrightarrow> x = reg_get r s \<and> on_remove jr s = (jr', True)
         \<and> reg_get r' = (reg_get r)(s := None) \<and> reg_len r = reg_len r' + 1)
    \<and> (x = None \<longrightarrow> r' = r \<and> (reg_get r s = None \<or> on_remove jr s = (jr', False)))"
proof -
  have inv': "reg_inv r'" by (rule reg_remove_effect(1) [OF assms])
  have g: "reg_get r = reg_map r" "reg_get r' = reg_map r'"
    using reg_get_map [OF assms(1)] reg_get_map [OF inv'] by (simp_all add: fun_eq_iff)
  show ?thesis using reg_remove_effect [OF assms] inv' unfolding g reg_len_def by blast
qed

theorem registry_remove_refines_witness:
  "let r = fst (snd (reg_insert (None :: unit journal option) reg_new (ob_new (suid_system 7) Secret 3)));
       (jr', r', x) = reg_remove (None :: unit journal option) r (suid_system 7)
   in reg_inv r \<and> x = reg_get r (suid_system 7) \<and> reg_get r' (suid_system 7) = None"
proof -
  let ?r = "fst (snd (reg_insert (None :: unit journal option) reg_new (ob_new (suid_system 7) Secret 3)))"
  have i: "reg_inv ?r"
    using reg_insert_effect(1) [OF reg_inv_new(1)] by (metis prod.collapse)
  obtain jr' r' x where r: "reg_remove (None :: unit journal option) ?r (suid_system 7) = (jr', r', x)"
    by (metis prod_cases3)
  have "on_remove (None :: unit journal option) (suid_system 7) = (None, True)"
    by (simp add: on_remove_def journal_hook_def)
  with registry_remove_refines [OF i r] i r show ?thesis by (cases x) auto
qed

end
