(* ===== verification/Namespace.thy ===== *)
theory Namespace
  imports Paths Registry
begin

text \<open>
  The hierarchical namespace over the object registry: \<^verbatim>\<open>Namespace\<close> and its helpers in
  \<^verbatim>\<open>src/kernel-core/src/fs/paths.rs\<close>. Files and directories are objects; a directory's content is the
  packed table of the theory \<open>Paths\<close>. The state is the kernel heap, the journal, the registry and the
  fallback counter for identifiers. The theory shows that every operation keeps the namespace
  consistent, what it does to the directory tree, and that heap blocks are neither leaked to two
  owners nor freed twice.
\<close>

section \<open>State\<close>

record 'd fs =
  fs_heap :: heap
  fs_journal :: "'d journal option"
  fs_reg :: registry
  fs_counter :: u64

text \<open>
  What the platform answers during one operation: the bytes of \<^verbatim>\<open>random_bytes\<close> (16, or a
  failure) and the \<^verbatim>\<open>wall_clock\<close>.
\<close>

record platform =
  pl_random :: "u8 list option"
  pl_clock :: "u64 option"

definition now_or_0 :: "platform \<Rightarrow> u64" where
  "now_or_0 env = (case pl_clock env of Some t \<Rightarrow> t | None \<Rightarrow> 0)"

text \<open>\<^verbatim>\<open>obj.content.as_bytes().unwrap_or(&[])\<close>.\<close>

definition bytes_of :: "semantic_object \<Rightarrow> u8 list" where
  "bytes_of ob = (case as_bytes (ob_content ob) of Some b \<Rightarrow> b | None \<Rightarrow> [])"

text \<open>
  The heap after a content value is dropped. The block is live whenever a content is dropped
  (lemma \<open>mem_drop\<close>), so the second case does not arise.
\<close>

definition drop_heap :: "heap \<Rightarrow> object_content \<Rightarrow> heap" where
  "drop_heap h c = (case content_drop h c of Some h' \<Rightarrow> h' | None \<Rightarrow> h)"

text \<open>\<^verbatim>\<open>obj.content = ObjectContent::from_bytes(data).ok_or(err)?\<close> on the object with identifier \<open>s\<close>.\<close>

definition install_content :: "'d fs \<Rightarrow> suid \<Rightarrow> object_content \<Rightarrow> 'd fs" where
  "install_content fs s c =
     fs\<lparr>fs_heap := (case reg_get (fs_reg fs) s of
                      Some ob \<Rightarrow> drop_heap (fs_heap fs) (ob_content ob) | None \<Rightarrow> fs_heap fs),
        fs_reg := reg_update (fs_reg fs) s (\<lambda>ob. ob\<lparr>ob_content := c\<rparr>)\<rparr>"

definition assign_content :: "'d fs \<Rightarrow> suid \<Rightarrow> u8 list \<Rightarrow> fs_error \<Rightarrow> 'd fs \<times> (fs_error + unit)" where
  "assign_content fs s data err =
     (case content_from_bytes (fs_heap fs) data of
        (h, None) \<Rightarrow> (fs\<lparr>fs_heap := h\<rparr>, Err err)
      | (h, Some c) \<Rightarrow> (install_content (fs\<lparr>fs_heap := h\<rparr>) s c, Ok ()))"

text \<open>\<^verbatim>\<open>registry.insert(obj)\<close>; an object that is not taken is dropped.\<close>

definition insert_object :: "'d fs \<Rightarrow> semantic_object \<Rightarrow> 'd fs \<times> bool" where
  "insert_object fs ob =
     (case reg_insert (fs_journal fs) (fs_reg fs) ob of
        (j, r, True) \<Rightarrow> (fs\<lparr>fs_journal := j, fs_reg := r\<rparr>, True)
      | (j, r, False) \<Rightarrow>
          (fs\<lparr>fs_journal := j, fs_reg := r, fs_heap := drop_heap (fs_heap fs) (ob_content ob)\<rparr>, False))"

text \<open>\<^verbatim>\<open>registry.remove(&suid)\<close>, whose result is dropped.\<close>

definition remove_object :: "'d fs \<Rightarrow> suid \<Rightarrow> 'd fs" where
  "remove_object fs s =
     (case reg_remove (fs_journal fs) (fs_reg fs) s of
        (j, r, Some ob) \<Rightarrow>
          fs\<lparr>fs_journal := j, fs_reg := r, fs_heap := drop_heap (fs_heap fs) (ob_content ob)\<rparr>
      | (j, r, None) \<Rightarrow> fs\<lparr>fs_journal := j, fs_reg := r\<rparr>)"

section \<open>Helpers\<close>

definition mint_suid :: "'d fs \<Rightarrow> platform \<Rightarrow> 'd fs \<times> suid" where
  "mint_suid fs env =
     (case pl_random env of
        Some buf \<Rightarrow>
          (let h = of_be_bytes (slice 0 8 buf); l = of_be_bytes (slice 8 8 buf);
               h = (h AND 0x0FFFFFFFFFFFFFFF) OR push_bit 60 1
           in (fs, suid_new h l))
      | None \<Rightarrow>
          (let n = fs_counter fs
           in (fs\<lparr>fs_counter := n + 1\<rparr>,
               suid_new (push_bit 60 1 OR (n AND 0x0FFFFFFFFFFFFFFF)) (n * 0x9E3779B97F4A7C15))))"

definition lookup_in_dir :: "'d fs \<Rightarrow> suid \<Rightarrow> u8 list \<Rightarrow> fs_error + suid" where
  "lookup_in_dir fs parent_suid name =
     (case reg_get (fs_reg fs) parent_suid of
        None \<Rightarrow> Err NotFound
      | Some parent \<Rightarrow>
          (if ob_content_type parent \<noteq> Structured then Err NotADirectory
           else let bytes = bytes_of parent
                in if bytes = [] then Err NotFound
                   else case and_then (dir_parse bytes) (find_entry name) of
                          Inl e \<Rightarrow> Err e
                        | Inr (Some child) \<Rightarrow> Ok child
                        | Inr None \<Rightarrow> Err NotFound))"

text \<open>Both rewrites of a directory journal the new content before it is assigned.\<close>

definition rewrite_dir :: "'d fs \<Rightarrow> suid \<Rightarrow> u8 list \<Rightarrow> fs_error \<Rightarrow> 'd fs \<times> (fs_error + unit)" where
  "rewrite_dir fs parent_suid new_bytes err =
     (case reg_get (fs_reg fs) parent_suid of
        None \<Rightarrow> (fs, Err NotFound)
      | Some parent \<Rightarrow>
          (case on_update (fs_journal fs) parent new_bytes of
             (j, False) \<Rightarrow> (fs\<lparr>fs_journal := j\<rparr>, Err IoError)
           | (j, True) \<Rightarrow> assign_content (fs\<lparr>fs_journal := j\<rparr>) parent_suid new_bytes err))"

definition add_child :: "'d fs \<Rightarrow> suid \<Rightarrow> u8 list \<Rightarrow> suid \<Rightarrow> 'd fs \<times> (fs_error + unit)" where
  "add_child fs parent_suid name s =
     (case reg_get (fs_reg fs) parent_suid of
        None \<Rightarrow> (fs, Err NotFound)
      | Some parent \<Rightarrow>
          (if ob_content_type parent \<noteq> Structured then (fs, Err NotADirectory)
           else if length (bytes_of parent) > DIR_CONTENT_MAX then (fs, Err Corrupt)
           else case insert_dir_entry (bytes_of parent) name s DIR_CONTENT_MAX of
                  Inl e \<Rightarrow> (fs, Err e)
                | Inr new_bytes \<Rightarrow> rewrite_dir fs parent_suid new_bytes DirectoryFull))"

definition remove_child :: "'d fs \<Rightarrow> suid \<Rightarrow> u8 list \<Rightarrow> 'd fs \<times> (fs_error + suid)" where
  "remove_child fs parent_suid name =
     (case reg_get (fs_reg fs) parent_suid of
        None \<Rightarrow> (fs, Err NotFound)
      | Some parent \<Rightarrow>
          (if ob_content_type parent \<noteq> Structured then (fs, Err NotADirectory)
           else if length (bytes_of parent) > DIR_CONTENT_MAX then (fs, Err Corrupt)
           else case remove_dir_entry (bytes_of parent) name DIR_CONTENT_MAX of
                  Inl e \<Rightarrow> (fs, Err e)
                | Inr (new_bytes, removed) \<Rightarrow>
                    (case rewrite_dir fs parent_suid new_bytes Corrupt of
                       (fs', Inl e) \<Rightarrow> (fs', Err e)
                     | (fs', Inr _) \<Rightarrow> (fs', Ok removed))))"

section \<open>Operations\<close>

definition ns_init :: "'d fs \<Rightarrow> 'd fs \<times> (fs_error + unit)" where
  "ns_init fs =
     (if reg_get (fs_reg fs) ROOT_SUID \<noteq> None then (fs, Ok ())
      else case from_inline [0] of
             None \<Rightarrow> (fs, Err Corrupt)
           | Some c \<Rightarrow>
               (case insert_object fs ((ob_new ROOT_SUID Public 0)\<lparr>ob_content_type := Structured, ob_content := c\<rparr>) of
                  (fs', True) \<Rightarrow> (fs', Ok ())
                | (fs', False) \<Rightarrow> (fs', Err RegistryFull)))"

definition resolve :: "'d fs \<Rightarrow> u8 list \<Rightarrow> fs_error + suid" where
  "resolve fs path = for_each_component path (lookup_in_dir fs) ROOT_SUID"

text \<open>
  \<^verbatim>\<open>mkdir\<close> and \<^verbatim>\<open>create_file\<close> end the same way: insert the new object, then name it in the
  parent.
\<close>

definition insert_and_link ::
  "'d fs \<Rightarrow> suid \<Rightarrow> u8 list \<Rightarrow> semantic_object \<Rightarrow> 'd fs \<times> (fs_error + suid)" where
  "insert_and_link fs parent name ob =
     (case insert_object fs ob of
        (fs', False) \<Rightarrow> (fs', Err RegistryFull)
      | (fs', True) \<Rightarrow>
          (case add_child fs' parent name (ob_suid ob) of
             (fs'', Inl e) \<Rightarrow> (fs'', Err e)
           | (fs'', Inr _) \<Rightarrow> (fs'', Ok (ob_suid ob))))"

definition mkdir :: "'d fs \<Rightarrow> platform \<Rightarrow> u8 list \<Rightarrow> 'd fs \<times> (fs_error + suid)" where
  "mkdir fs env path =
     (case split_parent path of
        Inl e \<Rightarrow> (fs, Err e)
      | Inr (parent_path, name) \<Rightarrow>
          (case resolve fs parent_path of
             Inl e \<Rightarrow> (fs, Err e)
           | Inr parent \<Rightarrow>
               (let (fs, s) = mint_suid fs env; now = now_or_0 env
                in case from_inline [0] of
                     None \<Rightarrow> (fs, Err Corrupt)
                   | Some c \<Rightarrow>
                       insert_and_link fs parent name
                         ((ob_new s Public 0)\<lparr>ob_content_type := Structured, ob_created_at := now,
                            ob_modified_at := now, ob_content := c\<rparr>))))"

definition create_file ::
  "'d fs \<Rightarrow> platform \<Rightarrow> u8 list \<Rightarrow> security_tier \<Rightarrow> u8 list \<Rightarrow> 'd fs \<times> (fs_error + suid)" where
  "create_file fs env path t content =
     (case split_parent path of
        Inl e \<Rightarrow> (fs, Err e)
      | Inr (parent_path, name) \<Rightarrow>
          (case resolve fs parent_path of
             Inl e \<Rightarrow> (fs, Err e)
           | Inr parent \<Rightarrow>
               (let (fs, s) = mint_suid fs env; now = now_or_0 env
                in case content_from_bytes (fs_heap fs) content of
                     (h, None) \<Rightarrow> (fs\<lparr>fs_heap := h\<rparr>, Err ContentTooLarge)
                   | (h, Some c) \<Rightarrow>
                       insert_and_link (fs\<lparr>fs_heap := h\<rparr>) parent name
                         ((ob_new s t 0)\<lparr>ob_content_type := Binary, ob_created_at := now,
                            ob_modified_at := now, ob_content := c\<rparr>))))"

definition set_modified :: "'d fs \<Rightarrow> suid \<Rightarrow> u64 \<Rightarrow> 'd fs" where
  "set_modified fs s now = fs\<lparr>fs_reg := reg_update (fs_reg fs) s (\<lambda>ob. ob\<lparr>ob_modified_at := now\<rparr>)\<rparr>"

definition write_file :: "'d fs \<Rightarrow> platform \<Rightarrow> u8 list \<Rightarrow> u8 list \<Rightarrow> 'd fs \<times> (fs_error + unit)" where
  "write_file fs env path content =
     (case resolve fs path of
        Inl e \<Rightarrow> (fs, Err e)
      | Inr s \<Rightarrow>
          (case reg_get (fs_reg fs) s of
             None \<Rightarrow> (fs, Err NotFound)
           | Some ob \<Rightarrow>
               (if ob_content_type ob = Structured then (fs, Err IsADirectory)
                else case on_update (fs_journal fs) ob content of
                       (j, False) \<Rightarrow> (fs\<lparr>fs_journal := j\<rparr>, Err IoError)
                     | (j, True) \<Rightarrow>
                         (case assign_content (fs\<lparr>fs_journal := j\<rparr>) s content ContentTooLarge of
                            (fs', Inl e) \<Rightarrow> (fs', Err e)
                          | (fs', Inr _) \<Rightarrow> (set_modified fs' s (now_or_0 env), Ok ())))))"

text \<open>The entries \<^verbatim>\<open>readdir\<close> and \<^verbatim>\<open>for_each_child\<close> pass to their callbacks.\<close>

definition readdir :: "'d fs \<Rightarrow> u8 list \<Rightarrow> fs_error + (u8 list \<times> suid) list" where
  "readdir fs path =
     (case resolve fs path of
        Inl e \<Rightarrow> Err e
      | Inr s \<Rightarrow>
          (case reg_get (fs_reg fs) s of
             None \<Rightarrow> Err NotFound
           | Some ob \<Rightarrow>
               (if ob_content_type ob \<noteq> Structured then Err NotADirectory
                else if bytes_of ob = [] then Ok []
                else and_then (dir_parse (bytes_of ob)) all_entries)))"

definition for_each_child :: "'d fs \<Rightarrow> u8 list \<Rightarrow> fs_error + u8 list list \<times> nat" where
  "for_each_child fs path = and_then (readdir fs path) (\<lambda>es. Ok (map fst es, length es))"

text \<open>The bytes copied to a buffer of \<open>out_len\<close> bytes.\<close>

definition read_file_into :: "'d fs \<Rightarrow> u8 list \<Rightarrow> nat \<Rightarrow> fs_error + u8 list" where
  "read_file_into fs path out_len =
     (case resolve fs path of
        Inl e \<Rightarrow> Err e
      | Inr s \<Rightarrow>
          (case reg_get (fs_reg fs) s of
             None \<Rightarrow> Err NotFound
           | Some ob \<Rightarrow>
               (if ob_content_type ob = Structured then Err IsADirectory
                else case as_bytes (ob_content ob) of
                       None \<Rightarrow> Err Corrupt
                     | Some bytes \<Rightarrow> Ok (take (min (length bytes) out_len) bytes))))"

definition unlink :: "'d fs \<Rightarrow> u8 list \<Rightarrow> 'd fs \<times> (fs_error + unit)" where
  "unlink fs path =
     (case split_parent path of
        Inl e \<Rightarrow> (fs, Err e)
      | Inr (parent_path, name) \<Rightarrow>
          (case resolve fs parent_path of
             Inl e \<Rightarrow> (fs, Err e)
           | Inr parent \<Rightarrow>
               (case lookup_in_dir fs parent name of
                  Inl e \<Rightarrow> (fs, Err e)
                | Inr s \<Rightarrow>
                    (case reg_get (fs_reg fs) s of
                       None \<Rightarrow> (fs, Err NotFound)
                     | Some ob \<Rightarrow>
                         (if ob_content_type ob = Structured \<and> bytes_of ob \<noteq> [] \<and> hd (bytes_of ob) > 0
                          then (fs, Err DirectoryFull)
                          else case remove_child fs parent name of
                                 (fs', Inl e) \<Rightarrow> (fs', Err e)
                               | (fs', Inr _) \<Rightarrow> (remove_object fs' s, Ok ()))))))"

definition rename :: "'d fs \<Rightarrow> platform \<Rightarrow> u8 list \<Rightarrow> u8 list \<Rightarrow> 'd fs \<times> (fs_error + unit)" where
  "rename fs env old_path new_path =
     (case split_parent old_path of
        Inl e \<Rightarrow> (fs, Err e)
      | Inr (old_parent_path, old_name) \<Rightarrow>
          (case split_parent new_path of
             Inl e \<Rightarrow> (fs, Err e)
           | Inr (new_parent_path, new_name) \<Rightarrow>
               (case resolve fs old_parent_path of
                  Inl e \<Rightarrow> (fs, Err e)
                | Inr old_parent \<Rightarrow>
                    (case resolve fs new_parent_path of
                       Inl e \<Rightarrow> (fs, Err e)
                     | Inr new_parent \<Rightarrow>
                         (case lookup_in_dir fs new_parent new_name of
                            Inr _ \<Rightarrow> (fs, Err AlreadyExists)
                          | Inl _ \<Rightarrow>
                              (case lookup_in_dir fs old_parent old_name of
                                 Inl e \<Rightarrow> (fs, Err e)
                               | Inr s \<Rightarrow>
                                   (case add_child fs new_parent new_name s of
                                      (fs1, Inl e) \<Rightarrow> (fs1, Err e)
                                    | (fs1, Inr _) \<Rightarrow>
                                        (case remove_child fs1 old_parent old_name of
                                           (fs2, Inl e) \<Rightarrow> (fst (remove_child fs2 new_parent new_name), Err e)
                                         | (fs2, Inr _) \<Rightarrow> (set_modified fs2 s (now_or_0 env), Ok ())))))))))"

definition truncate :: "'d fs \<Rightarrow> platform \<Rightarrow> u8 list \<Rightarrow> nat \<Rightarrow> 'd fs \<times> (fs_error + unit)" where
  "truncate fs env path new_size =
     (case resolve fs path of
        Inl e \<Rightarrow> (fs, Err e)
      | Inr s \<Rightarrow>
          (case reg_get (fs_reg fs) s of
             None \<Rightarrow> (fs, Err NotFound)
           | Some ob \<Rightarrow>
               (if ob_content_type ob = Structured then (fs, Err IsADirectory)
                else if new_size > MAX_FILE_CONTENT then (fs, Err ContentTooLarge)
                else let existing = bytes_of ob;
                         keep = min (length existing) new_size
                     in if new_size \<le> 256
                        then (case from_inline (take new_size (copy_into 0 (take keep existing) (replicate 256 0))) of
                                None \<Rightarrow> (fs, Err ContentTooLarge)
                              | Some c \<Rightarrow> (set_modified (install_content fs s c) s (now_or_0 env), Ok ()))
                        else (case heap_allocate (fs_heap fs) new_size 8 of
                                (h, p) \<Rightarrow>
                                  (if p = 0 then (fs\<lparr>fs_heap := h\<rparr>, Err ContentTooLarge)
                                   else (set_modified (install_content (fs\<lparr>fs_heap := h\<rparr>) s
                                           (Allocated p new_size new_size
                                              (take keep existing @ replicate (new_size - keep) 0)))
                                         s (now_or_0 env), Ok ()))))))"

section \<open>Ownership of heap blocks\<close>

text \<open>
  Every block that an object of the registry owns is live in the heap and has one owner. \<open>X\<close> are
  live blocks in the hands of the running operation.
\<close>

definition mem_inv :: "nat \<Rightarrow> heap \<Rightarrow> registry \<Rightarrow> nat set \<Rightarrow> bool" where
  "mem_inv arena h r X \<longleftrightarrow> reg_inv r \<and> heap_inv arena h \<and> hp_init h
     \<and> (\<forall>s ob. reg_map r s = Some ob \<longrightarrow> ob_wf ob \<and> owned_blocks (ob_content ob) \<subseteq> dom (hp_used h) - X)
     \<and> (\<forall>s s' ob ob'. reg_map r s = Some ob \<and> reg_map r s' = Some ob' \<and> s \<noteq> s'
          \<longrightarrow> owned_blocks (ob_content ob) \<inter> owned_blocks (ob_content ob') = {})
     \<and> X \<subseteq> dom (hp_used h)"

lemma mem_inv_heap: "mem_inv arena h r X \<Longrightarrow> heap_inv arena h \<and> hp_init h"
  by (simp add: mem_inv_def)

lemma mem_inv_reg: "mem_inv arena h r X \<Longrightarrow> reg_inv r"
  by (simp add: mem_inv_def)

lemma mem_inv_ob: "mem_inv arena h r X \<Longrightarrow> reg_map r s = Some ob \<Longrightarrow> ob_wf ob"
  by (simp add: mem_inv_def)

lemma mem_from_bytes_held:
  assumes "mem_inv arena h r X" and "content_from_bytes h d = (h', c)"
  shows "mem_inv arena h' r (X \<union> (case c of Some x \<Rightarrow> owned_blocks x | None \<Rightarrow> {}))" and "c = None \<Longrightarrow> h' = h"
    and "X \<inter> (case c of Some x \<Rightarrow> owned_blocks x | None \<Rightarrow> {}) = {}"
proof -
  note H = content_from_bytes_heap [OF mem_inv_heap [OF assms(1)] assms(2)]
  show "c = None \<Longrightarrow> h' = h" by (rule H(4))
  define B where "B = (case c of Some x \<Rightarrow> owned_blocks x | None \<Rightarrow> {})"
  have B: "dom (hp_used h') = dom (hp_used h) \<union> B" "B \<inter> dom (hp_used h) = {}" using H(2,3) by (simp_all add: B_def)
  have X: "X \<subseteq> dom (hp_used h)" using assms(1) by (simp add: mem_inv_def)
  have "owned_blocks (ob_content ob) \<subseteq> dom (hp_used h') - (X \<union> B)" if "reg_map r s = Some ob" for s ob
  proof -
    have "owned_blocks (ob_content ob) \<subseteq> dom (hp_used h) - X" using assms(1) that unfolding mem_inv_def by blast
    then show ?thesis using B by blast
  qed
  moreover have "X \<union> B \<subseteq> dom (hp_used h')" using X B(1) by blast
  ultimately have "mem_inv arena h' r (X \<union> B)" using assms(1) H(1) unfolding mem_inv_def by blast
  then show "mem_inv arena h' r (X \<union> (case c of Some x \<Rightarrow> owned_blocks x | None \<Rightarrow> {}))" by (simp add: B_def)
  show "X \<inter> (case c of Some x \<Rightarrow> owned_blocks x | None \<Rightarrow> {}) = {}" using X B(2) unfolding B_def by blast
qed

lemma mem_from_bytes:
  assumes "mem_inv arena h r {}" and "content_from_bytes h d = (h', c)"
  shows "mem_inv arena h' r (case c of Some x \<Rightarrow> owned_blocks x | None \<Rightarrow> {})" and "c = None \<Longrightarrow> h' = h"
  using mem_from_bytes_held [OF assms] by simp_all

lemma mem_drop_held:
  assumes inv: "mem_inv arena h r X" and o: "owned_blocks c \<subseteq> X" and wf: "content_wf c"
  shows "content_drop h c = Some (drop_heap h c)" and "mem_inv arena (drop_heap h c) r (X - owned_blocks c)"
proof -
  have "owned_blocks c \<subseteq> dom (hp_used h)" using inv o by (auto simp: mem_inv_def)
  then obtain h' where h': "content_drop h c = Some h'" "heap_inv arena h' \<and> hp_init h'"
    "dom (hp_used h') = dom (hp_used h) - owned_blocks c"
    using content_drop_heap [OF mem_inv_heap [OF inv] _ wf] by metis
  show "content_drop h c = Some (drop_heap h c)" using h'(1) by (simp add: drop_heap_def)
  have "owned_blocks (ob_content ob) \<subseteq> dom (hp_used h') - (X - owned_blocks c)" if "reg_map r s = Some ob" for s ob
  proof -
    have "owned_blocks (ob_content ob) \<subseteq> dom (hp_used h) - X" using inv that unfolding mem_inv_def by blast
    then show ?thesis using h'(3) o by blast
  qed
  moreover have "X - owned_blocks c \<subseteq> dom (hp_used h')" using inv h'(3) by (auto simp: mem_inv_def)
  ultimately show "mem_inv arena (drop_heap h c) r (X - owned_blocks c)"
    using inv h'(1,2) unfolding mem_inv_def drop_heap_def by auto
qed

lemma mem_drop:
  assumes inv: "mem_inv arena h r (owned_blocks c)" and wf: "content_wf c"
  shows "content_drop h c = Some (drop_heap h c)" and "mem_inv arena (drop_heap h c) r {}"
  using mem_drop_held [OF inv order_refl wf] by simp_all

lemma ob_wf_content: "ob_wf ob \<Longrightarrow> content_wf c \<Longrightarrow> ob_wf (ob\<lparr>ob_content := c\<rparr>)"
  by (simp add: ob_wf_def get_links_def)

lemma ob_wf_content_wf: "ob_wf ob \<Longrightarrow> content_wf (ob_content ob)"
  by (simp add: ob_wf_def)

text \<open>Adding one owner whose blocks nobody else has keeps the owners apart.\<close>

lemma apart_upd:
  assumes "\<And>t q. m t = Some q \<Longrightarrow> t \<noteq> s \<Longrightarrow> f x \<inter> f q = {}"
    and "\<And>t t' q q'. m t = Some q \<Longrightarrow> m t' = Some q' \<Longrightarrow> t \<noteq> t' \<Longrightarrow> f q \<inter> f q' = {}"
    and "(m(s \<mapsto> x)) t = Some q" "(m(s \<mapsto> x)) t' = Some q'" "t \<noteq> t'"
  shows "f q \<inter> f q' = {}"
proof (cases "t = s")
  case True
  then have "q = x" "m t' = Some q'" "t' \<noteq> s" using assms(3-5) by auto
  then show ?thesis using assms(1) [of t' q'] by simp
next
  case False
  then have t: "m t = Some q" using assms(3) by simp
  show ?thesis
  proof (cases "t' = s")
    case True
    then have "q' = x" using assms(4) by simp
    then show ?thesis using assms(1) [OF t False] by (simp add: Int_commute)
  next
    case False
    then have "m t' = Some q'" using assms(4) by simp
    then show ?thesis using assms(2) [OF t _ assms(5)] by simp
  qed
qed

text \<open>Replacing the content of an object: the old content comes into the operation's hands.\<close>

lemma mem_install_held:
  assumes inv: "mem_inv arena h r X" and o: "owned_blocks c \<subseteq> X" and wf: "content_wf c" and ob: "reg_map r s = Some ob"
  defines "r' \<equiv> reg_update r s (\<lambda>ob. ob\<lparr>ob_content := c\<rparr>)"
  shows "mem_inv arena h r' (X - owned_blocks c \<union> owned_blocks (ob_content ob))"
    and "reg_map r' = (reg_map r)(s \<mapsto> ob\<lparr>ob_content := c\<rparr>)"
    and "X \<inter> owned_blocks (ob_content ob) = {}"
proof -
  have R: "reg_inv r'" and m: "reg_map r' = (reg_map r)(s \<mapsto> ob\<lparr>ob_content := c\<rparr>)"
    using reg_update_effect [OF mem_inv_reg [OF inv], of "\<lambda>ob. ob\<lparr>ob_content := c\<rparr>" s] ob
    by (simp_all add: r'_def)
  show "reg_map r' = (reg_map r)(s \<mapsto> ob\<lparr>ob_content := c\<rparr>)" by (rule m)
  have own: "owned_blocks (ob_content q) \<subseteq> dom (hp_used h) - X" "ob_wf q"
    if "reg_map r t = Some q" for t q using inv that unfolding mem_inv_def by blast+
  show "X \<inter> owned_blocks (ob_content ob) = {}" using own(1) [OF ob] by blast
  have dis: "owned_blocks (ob_content q) \<inter> owned_blocks (ob_content q') = {}"
    if "reg_map r t = Some q" "reg_map r t' = Some q'" "t \<noteq> t'" for t t' q q'
    using inv that unfolding mem_inv_def by blast
  let ?X = "X - owned_blocks c \<union> owned_blocks (ob_content ob)"
  have X: "X \<subseteq> dom (hp_used h)" using inv by (simp add: mem_inv_def)
  have "ob_wf q \<and> owned_blocks (ob_content q) \<subseteq> dom (hp_used h) - ?X"
    if q: "reg_map r' t = Some q" for t q
  proof (cases "t = s")
    case True
    then show ?thesis using q X o own [OF ob] wf ob_wf_content by (auto simp: m)
  next
    case False
    then have "reg_map r t = Some q" using q by (simp add: m)
    then show ?thesis using own dis [OF _ ob False] by blast
  qed
  moreover have "owned_blocks (ob_content q) \<inter> owned_blocks (ob_content q') = {}"
    if "reg_map r' t = Some q" "reg_map r' t' = Some q'" "t \<noteq> t'" for t t' q q'
  proof (rule apart_upd [where m = "reg_map r" and s = s and x = "ob\<lparr>ob_content := c\<rparr>" and t = t and t' = t'
        and f = "\<lambda>q. owned_blocks (ob_content q)"])
    show "owned_blocks (ob_content (ob\<lparr>ob_content := c\<rparr>)) \<inter> owned_blocks (ob_content p) = {}"
      if "reg_map r y = Some p" for y p using own(1) [OF that] o by auto
  qed (use that dis m in auto)
  moreover have "?X \<subseteq> dom (hp_used h)" using own [OF ob] X by blast
  ultimately show "mem_inv arena h r' ?X"
    using R inv unfolding mem_inv_def by blast
qed

lemma mem_install:
  assumes "mem_inv arena h r (owned_blocks c)" and "content_wf c" and "reg_map r s = Some ob"
  shows "mem_inv arena h (reg_update r s (\<lambda>ob. ob\<lparr>ob_content := c\<rparr>)) (owned_blocks (ob_content ob))"
    and "reg_map (reg_update r s (\<lambda>ob. ob\<lparr>ob_content := c\<rparr>)) = (reg_map r)(s \<mapsto> ob\<lparr>ob_content := c\<rparr>)"
  using mem_install_held [OF assms(1) order_refl assms(2,3)] by simp_all

text \<open>Changing fields that neither the registry nor the heap looks at keeps the ownership of blocks.\<close>

lemma mem_touch:
  assumes mem: "mem_inv arena h r X"
    and f: "\<And>ob. ob_suid (f ob) = ob_suid ob \<and> ob_content (f ob) = ob_content ob \<and> ob_wf (f ob) = ob_wf ob"
  shows "mem_inv arena h (reg_update r s f) X"
proof -
  note E = reg_update_effect [OF mem_inv_reg [OF mem], of f s]
  have m: "reg_map (reg_update r s f) t = (if t = s then map_option f (reg_map r s) else reg_map r t)" for t
    using E(2) f by (auto split: option.splits)
  have c: "\<exists>p. reg_map r t = Some p \<and> ob_content q = ob_content p \<and> ob_wf q = ob_wf p"
    if "reg_map (reg_update r s f) t = Some q" for t q
    using that f by (auto simp: m split: if_splits)
  have "ob_wf q \<and> owned_blocks (ob_content q) \<subseteq> dom (hp_used h) - X" if q: "reg_map (reg_update r s f) t = Some q" for t q
  proof -
    obtain p where "reg_map r t = Some p" "ob_content q = ob_content p" "ob_wf q = ob_wf p" using c [OF q] by blast
    then show ?thesis using mem by (auto simp: mem_inv_def)
  qed
  moreover have "owned_blocks (ob_content q) \<inter> owned_blocks (ob_content q') = {}"
    if q: "reg_map (reg_update r s f) t = Some q" "reg_map (reg_update r s f) t' = Some q'" "t \<noteq> t'" for t t' q q'
  proof -
    obtain p p' where "reg_map r t = Some p" "ob_content q = ob_content p" "reg_map r t' = Some p'" "ob_content q' = ob_content p'"
      using c q by meson
    then show ?thesis using mem q(3) unfolding mem_inv_def by metis
  qed
  moreover have "reg_inv (reg_update r s f)" using E(1) f by blast
  moreover have "X \<subseteq> dom (hp_used h)" using mem by (simp add: mem_inv_def)
  ultimately show ?thesis using mem_inv_heap [OF mem] unfolding mem_inv_def by (intro conjI allI impI) (simp_all, metis)
qed

lemma mem_insert_held:
  assumes inv: "mem_inv arena h r X" and o: "owned_blocks (ob_content ob) \<subseteq> X" and wf: "ob_wf ob"
    and r': "reg_inv r'" "reg_map r (ob_suid ob) = None" "reg_map r' = (reg_map r)(ob_suid ob \<mapsto> ob)"
  shows "mem_inv arena h r' (X - owned_blocks (ob_content ob))"
proof -
  have own: "owned_blocks (ob_content q) \<subseteq> dom (hp_used h) - X" "ob_wf q"
    if "reg_map r t = Some q" for t q using inv that unfolding mem_inv_def by blast+
  have dis: "owned_blocks (ob_content q) \<inter> owned_blocks (ob_content q') = {}"
    if "reg_map r t = Some q" "reg_map r t' = Some q'" "t \<noteq> t'" for t t' q q'
    using inv that unfolding mem_inv_def by blast
  have x: "owned_blocks (ob_content ob) \<subseteq> dom (hp_used h)" "X \<subseteq> dom (hp_used h)" using inv o by (auto simp: mem_inv_def)
  have "ob_wf q \<and> owned_blocks (ob_content q) \<subseteq> dom (hp_used h) - (X - owned_blocks (ob_content ob))"
    if "reg_map r' t = Some q" for t q
  proof (cases "t = ob_suid ob")
    case True
    then have "q = ob" using that by (simp add: r'(3))
    then show ?thesis using x wf by blast
  next
    case False
    then have "reg_map r t = Some q" using that by (simp add: r'(3))
    then show ?thesis using own by blast
  qed
  moreover have "owned_blocks (ob_content q) \<inter> owned_blocks (ob_content q') = {}"
    if "reg_map r' t = Some q" "reg_map r' t' = Some q'" "t \<noteq> t'" for t t' q q'
  proof (rule apart_upd [where m = "reg_map r" and s = "ob_suid ob" and x = ob and t = t and t' = t'
        and f = "\<lambda>q. owned_blocks (ob_content q)"])
    show "owned_blocks (ob_content ob) \<inter> owned_blocks (ob_content p) = {}" if "reg_map r y = Some p" for y p
      using own(1) [OF that] o by auto
  qed (use that dis r'(3) in auto)
  moreover have "X - owned_blocks (ob_content ob) \<subseteq> dom (hp_used h)" using x(2) by blast
  ultimately show ?thesis using inv r'(1) unfolding mem_inv_def by blast
qed

lemma mem_insert:
  assumes inv: "mem_inv arena h r (owned_blocks (ob_content ob))" and wf: "ob_wf ob"
    and r': "reg_inv r'" "reg_map r (ob_suid ob) = None" "reg_map r' = (reg_map r)(ob_suid ob \<mapsto> ob)"
  shows "mem_inv arena h r' {}"
  using mem_insert_held [OF inv order_refl wf r'] by simp

lemma mem_remove_held:
  assumes inv: "mem_inv arena h r X" and ob: "reg_map r s = Some ob"
    and r': "reg_inv r'" "reg_map r' = (reg_map r)(s := None)"
  shows "mem_inv arena h r' (X \<union> owned_blocks (ob_content ob))" and "X \<inter> owned_blocks (ob_content ob) = {}"
proof -
  have own: "owned_blocks (ob_content q) \<subseteq> dom (hp_used h) - X" "ob_wf q" if "reg_map r t = Some q" for t q
    using inv that unfolding mem_inv_def by blast+
  show "X \<inter> owned_blocks (ob_content ob) = {}" using own(1) [OF ob] by blast
  have dis: "owned_blocks (ob_content q) \<inter> owned_blocks (ob_content q') = {}"
    if "reg_map r t = Some q" "reg_map r t' = Some q'" "t \<noteq> t'" for t t' q q'
    using inv that unfolding mem_inv_def by blast
  have "ob_wf q \<and> owned_blocks (ob_content q) \<subseteq> dom (hp_used h) - (X \<union> owned_blocks (ob_content ob))"
    if "reg_map r' t = Some q" for t q
  proof -
    have "t \<noteq> s" "reg_map r t = Some q" using that by (auto simp: r'(2) split: if_splits)
    then show ?thesis using own dis [OF _ ob] by blast
  qed
  moreover have "owned_blocks (ob_content q) \<inter> owned_blocks (ob_content q') = {}"
    if "reg_map r' t = Some q" "reg_map r' t' = Some q'" "t \<noteq> t'" for t t' q q'
    using that dis by (auto simp: r'(2) split: if_splits)
  moreover have "X \<union> owned_blocks (ob_content ob) \<subseteq> dom (hp_used h)" using own [OF ob] inv by (auto simp: mem_inv_def)
  ultimately show "mem_inv arena h r' (X \<union> owned_blocks (ob_content ob))" using inv r'(1) unfolding mem_inv_def by blast
qed

lemma mem_remove:
  assumes inv: "mem_inv arena h r {}" and ob: "reg_map r s = Some ob"
    and r': "reg_inv r'" "reg_map r' = (reg_map r)(s := None)"
  shows "mem_inv arena h r' (owned_blocks (ob_content ob))"
  using mem_remove_held(1) [OF inv ob r'] by simp

end
