(* ===== verification/Replay_Correct.thy ===== *)
theory Replay_Correct
  imports Replay
begin

text \<open>
  What the hooks of the journal write, a mount reads back. The theory follows a record from
  \<^verbatim>\<open>append_record\<close> through the sectors of the device to the object the replay puts into the registry,
  and then the whole log by induction.
\<close>

section \<open>The fields of a record header\<close>

definition rec_op :: "semantic_object option \<Rightarrow> u8" where
  "rec_op ob = (case ob of Some _ \<Rightarrow> OP_UPSERT | None \<Rightarrow> OP_TOMBSTONE)"

lemma length_record_header [simp]: "length (record_header ob s seq clen lc) = 64"
  by (simp add: record_header_def Let_def HEADER_LEN_def REC_MAGIC_def split: option.split)

definition hdr0 :: "semantic_object option \<Rightarrow> suid \<Rightarrow> u64 \<Rightarrow> u8 list" where
  "hdr0 ob s seq = copy_into 16 (suid_to_bytes s) (copy_into 8 (le_bytes 8 seq)
     (copy_into 7 [FLAG_COMMITTED] (copy_into 6 [rec_op ob]
       (copy_into 4 (le_bytes 2 FORMAT_VERSION) (copy_into 0 REC_MAGIC (replicate 64 0))))))"

definition hdr1 :: "semantic_object \<Rightarrow> u8 list \<Rightarrow> u8 list" where
  "hdr1 x h = copy_into 44 (le_bytes 8 (ob_modified_at x)) (copy_into 36 (le_bytes 8 (ob_created_at x))
     (copy_into 35 [0] (copy_into 34 [content_type_to_u8 (ob_content_type x)]
       (copy_into 33 [ob_owner x] (copy_into 32 [tier_to_u8 (ob_tier x)] h)))))"

lemma length_hdr0 [simp]: "length (hdr0 ob s seq) = 64"
  by (simp add: hdr0_def REC_MAGIC_def)

lemma length_hdr1 [simp]: "length h = 64 \<Longrightarrow> length (hdr1 x h) = 64"
  by (simp add: hdr1_def)

lemma record_header_eq:
  "record_header ob s seq clen lc =
     copy_into 56 (le_bytes 4 (of_nat lc :: u32)) (copy_into 52 (le_bytes 4 (of_nat clen :: u32))
       (case ob of Some x \<Rightarrow> hdr1 x (hdr0 ob s seq) | None \<Rightarrow> hdr0 ob s seq))"
  by (cases ob) (simp_all add: record_header_def Let_def hdr0_def hdr1_def rec_op_def HEADER_LEN_def REC_MAGIC_def
      list_update_copy_into)

lemma hdr0_fields:
  "slice 0 4 (hdr0 ob s seq) = REC_MAGIC" "slice 6 1 (hdr0 ob s seq) = [rec_op ob]"
  "slice 8 8 (hdr0 ob s seq) = le_bytes 8 seq" "slice 16 16 (hdr0 ob s seq) = suid_to_bytes s"
  by (simp_all add: hdr0_def slice_simps REC_MAGIC_def)

lemma hdr1_fields:
  assumes "length h = 64"
  shows "off + n \<le> 32 \<Longrightarrow> slice off n (hdr1 x h) = slice off n h"
    and "slice 32 1 (hdr1 x h) = [tier_to_u8 (ob_tier x)]" "slice 33 1 (hdr1 x h) = [ob_owner x]"
    and "slice 34 1 (hdr1 x h) = [content_type_to_u8 (ob_content_type x)]"
    and "slice 36 8 (hdr1 x h) = le_bytes 8 (ob_created_at x)" "slice 44 8 (hdr1 x h) = le_bytes 8 (ob_modified_at x)"
  using assms by (simp_all add: hdr1_def slice_simps)

lemma header_below:
  "off + n \<le> 52 \<Longrightarrow> slice off n (record_header ob s seq clen lc)
     = slice off n (case ob of Some x \<Rightarrow> hdr1 x (hdr0 ob s seq) | None \<Rightarrow> hdr0 ob s seq)"
  unfolding record_header_eq by (cases ob) (simp_all add: slice_simps)

lemma header_fields:
  "slice 0 4 (record_header ob s seq clen lc) = REC_MAGIC" "slice 6 1 (record_header ob s seq clen lc) = [rec_op ob]"
  "slice 8 8 (record_header ob s seq clen lc) = le_bytes 8 seq" "slice 16 16 (record_header ob s seq clen lc) = suid_to_bytes s"
  "slice 52 4 (record_header ob s seq clen lc) = le_bytes 4 (of_nat clen :: u32)"
  "slice 56 4 (record_header ob s seq clen lc) = le_bytes 4 (of_nat lc :: u32)"
proof -
  show "slice 52 4 (record_header ob s seq clen lc) = le_bytes 4 (of_nat clen :: u32)"
    "slice 56 4 (record_header ob s seq clen lc) = le_bytes 4 (of_nat lc :: u32)"
    unfolding record_header_eq by (cases ob; simp add: slice_simps)+
qed (simp_all add: header_below hdr0_fields hdr1_fields del: One_nat_def split: option.split)

lemma header_fields_upsert:
  "slice 32 1 (record_header (Some x) s seq clen lc) = [tier_to_u8 (ob_tier x)]"
  "slice 33 1 (record_header (Some x) s seq clen lc) = [ob_owner x]"
  "slice 34 1 (record_header (Some x) s seq clen lc) = [content_type_to_u8 (ob_content_type x)]"
  "slice 36 8 (record_header (Some x) s seq clen lc) = le_bytes 8 (ob_created_at x)"
  "slice 44 8 (record_header (Some x) s seq clen lc) = le_bytes 8 (ob_modified_at x)"
  by (simp_all add: header_below hdr1_fields del: One_nat_def)

section \<open>The links of a record\<close>

lemma length_link_bytes [simp]: "length (link_bytes l) = 17"
  by (simp add: link_bytes_def)

lemma write_links_prefix:
  "None \<notin> set ls \<Longrightarrow> (i + length ls) * 17 \<le> length buf \<Longrightarrow>
     take ((i + length ls) * 17) (write_links i ls buf) = take (i * 17) buf @ concat (map (\<lambda>l. link_bytes (the l)) ls)"
proof (induction ls arbitrary: i buf)
  case (Cons l ls)
  then obtain x where l: "l = Some x" by (cases l) auto
  let ?b = "copy_into (i * 17) (link_bytes x) buf"
  have "(Suc i + length ls) * 17 \<le> length ?b" using Cons.prems by simp
  from Cons.IH [OF _ this] Cons.prems
  have "take ((Suc i + length ls) * 17) (write_links (Suc i) ls ?b) = take (Suc i * 17) ?b @ concat (map (\<lambda>l. link_bytes (the l)) ls)"
    by simp
  moreover have "take (Suc i * 17) ?b = take (i * 17) buf @ link_bytes x"
    using take_copy_into [of "i * 17" "link_bytes x" buf] Cons.prems by (simp add: add.commute)
  ultimately show ?case using l by (simp add: LINK_LEN_def)
qed simp

text \<open>The bytes of a record that come before its CRC, for a well-formed object.\<close>

definition upsert_body :: "semantic_object \<Rightarrow> u64 \<Rightarrow> u8 list \<Rightarrow> u8 list" where
  "upsert_body ob seq content =
     record_header (Some ob) (ob_suid ob) seq (length content) (length (link_list ob))
     @ concat (map link_bytes (link_list ob)) @ content"

definition tomb_body :: "suid \<Rightarrow> u64 \<Rightarrow> u8 list" where
  "tomb_body s seq = record_header None s seq 0 0"

lemma link_list_facts:
  assumes "ob_wf ob"
  shows "length (link_list ob) = unat (ob_link_count ob)" and "length (link_list ob) \<le> 16" and "None \<notin> set (get_links ob)"
    and "get_links ob = map Some (link_list ob)"
proof -
  have g: "length (get_links ob) = unat (ob_link_count ob)" "unat (ob_link_count ob) \<le> 16" "None \<notin> set (get_links ob)"
    using assms by (auto simp: ob_wf_def get_links_def MAX_LINKS_def)
  then show "length (link_list ob) = unat (ob_link_count ob)" "length (link_list ob) \<le> 16" "None \<notin> set (get_links ob)"
    by (simp_all add: link_list_def)
  show "get_links ob = map Some (link_list ob)"
    unfolding link_list_def map_map
  proof (rule map_idI [symmetric])
    show "(Some \<circ> the) x = x" if "x \<in> set (get_links ob)" for x using that g(3) by (metis comp_apply option.collapse)
  qed
qed

lemma record_image_upsert:
  assumes "ob_wf ob"
  shows "record_image (Some ob) t seq ov =
    (let b = upsert_body ob seq (case ov of Some b \<Rightarrow> b | None \<Rightarrow> bytes_of ob) in b @ le_bytes 4 (crc32 b))"
proof -
  note L = link_list_facts [OF assms]
  have "take (length (link_list ob) * LINK_LEN) (write_links 0 (get_links ob) buf) = concat (map link_bytes (link_list ob))"
    if "length buf = MAX_LINKS * LINK_LEN" for buf
    using write_links_prefix [of "get_links ob" 0 buf] L(2,3) that
    unfolding LINK_LEN_def MAX_LINKS_def by (simp add: link_list_def o_def)
  note tk = this [of "replicate (MAX_LINKS * LINK_LEN) 0", OF length_replicate]
  have "record_parts (Some ob) t seq ov =
      (record_header (Some ob) (ob_suid ob) seq (length c) (length (link_list ob)), concat (map link_bytes (link_list ob)), c)"
    if "c = (case ov of Some b \<Rightarrow> b | None \<Rightarrow> bytes_of ob)" for c
    using that L(1) tk by (cases ov) (simp_all add: record_parts_def bytes_of_def)
  then show ?thesis by (simp add: record_image_def Let_def upsert_body_def)
qed

lemma record_image_tomb: "record_image None (Some s) seq ov = tomb_body s seq @ le_bytes 4 (crc32 (tomb_body s seq))"
  by (simp add: record_image_def record_parts_def Let_def tomb_body_def)

section \<open>Reading the record back\<close>

lemma relation_round_trip: "relation_from_u8 (relation_to_u8 r) = r"
  by (cases r) (simp_all add: relation_from_u8_def)

lemma content_type_round_trip: "content_type_from_u8 (content_type_to_u8 c) = c"
  by (cases c) (simp_all add: content_type_from_u8_def content_type_to_u8_def)

lemma tier_u8_round_trip: "tier_from_u8 (tier_to_u8 t) = t"
  by (cases t) (simp_all add: tier_from_u8_def)

text \<open>The fields of an object that links do not touch.\<close>

definition ob_meta :: "semantic_object \<Rightarrow> suid \<times> security_tier \<times> content_type \<times> u64 \<times> u64 \<times> u8 \<times> object_content" where
  "ob_meta ob = (ob_suid ob, ob_tier ob, ob_content_type ob, ob_created_at ob, ob_modified_at ob, ob_owner ob, ob_content ob)"

lemma add_link_meta [simp]: "ob_meta (fst (add_link ob t r)) = ob_meta ob"
  by (simp add: add_link_def ob_meta_def)

lemma link_bytes_read:
  assumes "slice off 17 buf = link_bytes l" and "off + 17 \<le> length buf"
  shows "suid_from_bytes (slice off 16 buf) = link_target l" and "relation_from_u8 (buf ! (off + 16)) = link_relationship l"
proof -
  have s: "slice off 16 buf = take 16 (slice off 17 buf)" by (simp add: slice_def)
  show "suid_from_bytes (slice off 16 buf) = link_target l" unfolding s assms(1) by (simp add: link_bytes_def)
  have "buf ! (off + 16) = slice off 17 buf ! 16" using assms(2) by (simp add: slice_def)
  then show "relation_from_u8 (buf ! (off + 16)) = link_relationship l"
    unfolding assms(1) by (simp add: link_bytes_def nth_append relation_round_trip)
qed

lemma replay_links_effect:
  assumes "ob_wf ob" and "length (link_list ob) + length ls \<le> 16"
    and "\<And>k. k < length ls \<Longrightarrow> slice (64 + (i + k) * 17) 17 buf = link_bytes (ls ! k)" and "64 + (i + length ls) * 17 \<le> length buf"
  shows "ob_wf (replay_links buf i (length ls) ob) \<and> link_list (replay_links buf i (length ls) ob) = link_list ob @ ls
    \<and> ob_meta (replay_links buf i (length ls) ob) = ob_meta ob"
  using assms
proof (induction ls arbitrary: i ob)
  case (Cons l ls)
  let ?off = "64 + i * 17"
  let ?ob = "fst (add_link ob (link_target l) (link_relationship l))"
  have b: "slice ?off 17 buf = link_bytes l" "?off + 17 \<le> length buf" using Cons.prems(3) [of 0] Cons.prems(4) by simp_all
  note r = link_bytes_read [OF b]
  have e: "replay_links buf i (length (l # ls)) ob = replay_links buf (Suc i) (length ls) ?ob"
    using r by (simp add: HEADER_LEN_def LINK_LEN_def Let_def)
  have a: "ob_wf ?ob" "link_list ?ob = link_list ob @ [l]"
    using add_link_effect(1) [OF Cons.prems(1), of "link_target l" "link_relationship l"] Cons.prems(2)
    by (simp_all add: MAX_LINKS_def)
  have "slice (64 + (Suc i + k) * 17) 17 buf = link_bytes (ls ! k)" if "k < length ls" for k
    using Cons.prems(3) [of "Suc k"] that by (simp add: add.assoc)
  from Cons.IH [OF a(1) _ this] a(2) Cons.prems(2,4) show ?case unfolding e by simp
qed simp

text \<open>
  The buffer of a record: its bytes, its CRC and padding. The first 64 bytes are the header, so the
  first sector shows every header field.
\<close>

section \<open>What an UPSERT record restores\<close>

text \<open>The object \<open>q\<close> is the persisted part of \<open>ob\<close>: everything but flags and capabilities, which belong to a session.\<close>

definition persists :: "semantic_object \<Rightarrow> semantic_object \<Rightarrow> bool" where
  "persists ob q \<longleftrightarrow> ob_suid q = ob_suid ob \<and> ob_tier q = ob_tier ob \<and> ob_content_type q = ob_content_type ob
     \<and> ob_created_at q = ob_created_at ob \<and> ob_modified_at q = ob_modified_at ob \<and> ob_owner q = ob_owner ob
     \<and> link_list q = link_list ob"

text \<open>The first sector of a buffer that starts with a header.\<close>

lemma sector_fields:
  assumes h: "h = record_header ob s seq clen lc" and sec: "sec = take 512 (h @ rest)"
  shows "off + n \<le> 64 \<Longrightarrow> slice off n sec = slice off n h" and "slice 0 4 sec = REC_MAGIC" and "sec ! 6 = rec_op ob"
    and "of_le_bytes (slice 8 8 sec) = seq" and "suid_from_bytes (slice 16 16 sec) = s"
    and "of_le_bytes (slice 52 4 sec) = (of_nat clen :: u32)" and "of_le_bytes (slice 56 4 sec) = (of_nat lc :: u32)"
proof -
  show f: "slice off n sec = slice off n h" if "off + n \<le> 64" for off n
    using that by (simp add: sec slice_take slice_prefix h)
  show "slice 0 4 sec = REC_MAGIC" "of_le_bytes (slice 8 8 sec) = seq" "suid_from_bytes (slice 16 16 sec) = s"
    "of_le_bytes (slice 52 4 sec) = (of_nat clen :: u32)" "of_le_bytes (slice 56 4 sec) = (of_nat lc :: u32)"
    by (simp_all add: f h header_fields)
  show "sec ! 6 = rec_op ob" by (rule nth_slice_1) (simp add: f h header_fields del: One_nat_def)
qed

lemma replay_object_upsert:
  assumes wf: "ob_wf ob" and buf: "buf = upsert_body ob seq content @ post"
  defines "q \<equiv> replay_object (take 512 buf) buf (length (link_list ob))"
  shows "ob_wf q" and "persists ob q" and "ob_content q = Empty"
    and "slice (record_header_len (length (link_list ob))) (length content) buf = content"
proof -
  let ?sec = "take 512 buf" and ?ls = "link_list ob"
  define h where "h = record_header (Some ob) (ob_suid ob) seq (length content) (length ?ls)"
  have b: "buf = h @ concat (map link_bytes ?ls) @ content @ post" by (simp add: buf upsert_body_def h_def)
  note F = sector_fields [OF h_def, of ?sec "concat (map link_bytes ?ls) @ content @ post", OF arg_cong [OF b]]
  have lh: "length h = 64" by (simp add: h_def)
  have lc: "length (concat (map link_bytes ?ls)) = length ?ls * 17"
    using length_concat_same [of "map link_bytes ?ls" 17] by simp
  show "slice (record_header_len (length ?ls)) (length content) buf = content"
    using lh lc by (simp add: b slice_def record_header_len_def HEADER_LEN_def LINK_LEN_def)
  define x where "x = (ob_new (suid_from_bytes (slice 16 16 ?sec)) (tier_from_u8 (?sec ! 32)) (?sec ! 33))
          \<lparr>ob_content_type := content_type_from_u8 (?sec ! 34),
           ob_created_at := of_le_bytes (slice 36 8 ?sec),
           ob_modified_at := of_le_bytes (slice 44 8 ?sec)\<rparr>"
  have q: "q = replay_links buf 0 (length ?ls) x" by (simp add: q_def replay_object_def x_def)
  have n: "?sec ! 32 = tier_to_u8 (ob_tier ob)" "?sec ! 33 = ob_owner ob" "?sec ! 34 = content_type_to_u8 (ob_content_type ob)"
    by (rule nth_slice_1, simp add: F(1) h_def header_fields_upsert del: One_nat_def)+
  have x: "ob_meta x = (ob_suid ob, ob_tier ob, ob_content_type ob, ob_created_at ob, ob_modified_at ob, ob_owner ob, Empty)"
    using F(1,5) n by (simp add: x_def ob_meta_def ob_new_def tier_u8_round_trip content_type_round_trip h_def header_fields_upsert)
  have w: "ob_wf x" "link_list x = []"
    using ob_wf_new [of "suid_from_bytes (slice 16 16 ?sec)" "tier_from_u8 (?sec ! 32)" "?sec ! 33"]
    by (simp_all add: x_def ob_wf_def link_list_def get_links_def)
  have "slice (64 + (0 + k) * 17) 17 buf = link_bytes (?ls ! k)" if "k < length ?ls" for k
    using slice_concat_blocks [of "map link_bytes ?ls" 17 k h "content @ post"] that lh by (simp add: b)
  moreover have "64 + (0 + length ?ls) * 17 \<le> length buf" using lh lc by (simp add: b)
  ultimately have E: "ob_wf q" "link_list q = ?ls" "ob_meta q = ob_meta x"
    using replay_links_effect [OF w(1), of ?ls 0 buf] link_list_facts(2) [OF wf] w(2) unfolding q by auto
  show "ob_wf q" by (rule E(1))
  show "persists ob q" "ob_content q = Empty" using E(2,3) x by (simp_all add: persists_def ob_meta_def)
qed

section \<open>Applying records\<close>

text \<open>While the journal replays, or is not mounted, the hooks do nothing and succeed.\<close>

definition quiet :: "'d journal option \<Rightarrow> bool" where
  "quiet guard = (case guard of None \<Rightarrow> True | Some j \<Rightarrow> \<not> jr_enabled j \<or> jr_replaying j)"

lemma quiet_hooks:
  "quiet g \<Longrightarrow> on_insert g ob = (g, True)" "quiet g \<Longrightarrow> on_remove g s = (g, True)"
  by (auto simp: quiet_def on_insert_def on_remove_def journal_hook_def split: option.splits)

lemma remove_object_quiet:
  assumes mem: "mem_inv arena (fs_heap fs) (fs_reg fs) X" and q: "quiet (fs_journal fs)"
  shows "mem_inv arena (fs_heap (remove_object fs s)) (fs_reg (remove_object fs s)) X"
    and "reg_map (fs_reg (remove_object fs s)) = (reg_map (fs_reg fs))(s := None)"
    and "fs_journal (remove_object fs s) = fs_journal fs"
proof -
  obtain j r x where i: "reg_remove (fs_journal fs) (fs_reg fs) s = (j, r, x)" by (metis prod_cases3)
  note E = reg_remove_effect [OF mem_inv_reg [OF mem] i]
  have "mem_inv arena (fs_heap (remove_object fs s)) (fs_reg (remove_object fs s)) X
      \<and> reg_map (fs_reg (remove_object fs s)) = (reg_map (fs_reg fs))(s := None) \<and> fs_journal (remove_object fs s) = fs_journal fs"
  proof (cases x)
    case None
    then have "r = fs_reg fs" "reg_map (fs_reg fs) s = None" "j = fs_journal fs" using E(3) quiet_hooks(2) [OF q] by auto
    then show ?thesis using mem i None by (auto simp: remove_object_def fun_upd_idem)
  next
    case (Some ob)
    have m: "reg_map (fs_reg fs) s = Some ob" "reg_map r = (reg_map (fs_reg fs))(s := None)" "j = fs_journal fs"
      using E(2) Some quiet_hooks(2) [OF q] by auto
    note R = mem_remove_held [OF mem m(1) E(1) m(2)]
    have w: "content_wf (ob_content ob)" using mem_inv_ob [OF mem m(1)] by (rule ob_wf_content_wf)
    have "mem_inv arena (drop_heap (fs_heap fs) (ob_content ob)) r (X \<union> owned_blocks (ob_content ob) - owned_blocks (ob_content ob))"
      by (rule mem_drop_held(2) [OF R(1) _ w]) simp
    moreover have "X \<union> owned_blocks (ob_content ob) - owned_blocks (ob_content ob) = X" using R(2) by blast
    ultimately show ?thesis using m i Some by (simp add: remove_object_def)
  qed
  then show "mem_inv arena (fs_heap (remove_object fs s)) (fs_reg (remove_object fs s)) X"
    "reg_map (fs_reg (remove_object fs s)) = (reg_map (fs_reg fs))(s := None)"
    "fs_journal (remove_object fs s) = fs_journal fs" by simp_all
qed

lemma insert_object_quiet:
  assumes mem: "mem_inv arena (fs_heap fs) (fs_reg fs) X" and o: "owned_blocks (ob_content ob) \<subseteq> X" and q: "quiet (fs_journal fs)"
    and ob: "ob_wf ob" "reg_map (fs_reg fs) (ob_suid ob) = None" and room: "card (dom (reg_map (fs_reg fs))) < MAX_OBJECTS"
  defines "fs' \<equiv> fst (insert_object fs ob)"
  shows "mem_inv arena (fs_heap fs') (fs_reg fs') (X - owned_blocks (ob_content ob))"
    and "reg_map (fs_reg fs') = (reg_map (fs_reg fs))(ob_suid ob \<mapsto> ob)" and "fs_journal fs' = fs_journal fs"
proof -
  obtain j r ok where i: "reg_insert (fs_journal fs) (fs_reg fs) ob = (j, r, ok)" by (metis prod_cases3)
  note E = reg_insert_effect [OF mem_inv_reg [OF mem] i]
  have "rg_count (fs_reg fs) < MAX_OBJECTS" using room reg_count_card [OF mem_inv_reg [OF mem]] by simp
  then have ok: "ok" using E(3) ob(2) quiet_hooks(1) [OF q] by auto
  have m: "reg_map r = (reg_map (fs_reg fs))(ob_suid ob \<mapsto> ob)" "j = fs_journal fs" using E(2) ok quiet_hooks(1) [OF q] by auto
  have f: "fs' = fs\<lparr>fs_journal := j, fs_reg := r\<rparr>" using i ok by (simp add: fs'_def insert_object_def)
  show "mem_inv arena (fs_heap fs') (fs_reg fs') (X - owned_blocks (ob_content ob))"
    using mem_insert_held [OF mem o ob(1) E(1) ob(2) m(1)] by (simp add: f)
  show "reg_map (fs_reg fs') = (reg_map (fs_reg fs))(ob_suid ob \<mapsto> ob)" "fs_journal fs' = fs_journal fs"
    using m by (simp_all add: f)
qed

text \<open>When the heap \<open>h\<close> cannot take the bytes of a content.\<close>

definition content_refused :: "heap \<Rightarrow> u8 list \<Rightarrow> bool" where
  "content_refused h b \<longleftrightarrow> 256 < length b \<and> (MAX_FILE_CONTENT < length b \<or> snd (heap_allocate h (length b) 8) = 0)"

lemma content_from_bytes_refused: "content_from_bytes h b = (h', None) \<Longrightarrow> content_refused h b"
  by (auto simp: content_from_bytes_def content_refused_def from_inline_def Let_def split: if_splits prod.splits)

lemma apply_upsert_effect:
  fixes content :: "u8 list"
  assumes mem: "mem_inv arena (fs_heap fs) (fs_reg fs) X" and q: "quiet (fs_journal fs)" and ob: "ob_wf ob"
    and room: "card (dom (reg_map (fs_reg fs)) - {ob_suid ob}) < MAX_OBJECTS"
  defines "fs' \<equiv> apply_upsert fs ob content"
  shows "mem_inv arena (fs_heap fs') (fs_reg fs') X" and "fs_journal fs' = fs_journal fs"
    and "\<exists>c. reg_map (fs_reg fs') = (reg_map (fs_reg fs))(ob_suid ob \<mapsto> ob\<lparr>ob_content := c\<rparr>)
           \<and> (bytes_of (ob\<lparr>ob_content := c\<rparr>) = content \<or> content_refused (fs_heap fs) content \<and> c = Empty)"
proof -
  define hc where "hc = (if content = [] then (fs_heap fs, Empty)
     else case content_from_bytes (fs_heap fs) content of (h, Some c) \<Rightarrow> (h, c) | (h, None) \<Rightarrow> (h, Empty))"
  obtain h c where hc: "hc = (h, c)" by (cases hc)
  have H: "mem_inv arena h (fs_reg fs) (X \<union> owned_blocks c) \<and> X \<inter> owned_blocks c = {} \<and> content_wf c
      \<and> (bytes_of (ob\<lparr>ob_content := c\<rparr>) = content \<or> content_refused (fs_heap fs) content \<and> c = Empty)"
  proof (cases "content = []")
    case True
    then show ?thesis using hc mem by (auto simp: hc_def bytes_of_def)
  next
    case False
    obtain h1 c1 where b: "content_from_bytes (fs_heap fs) content = (h1, c1)" by (metis prod.exhaust)
    note M = mem_from_bytes_held [OF mem b]
    show ?thesis
    proof (cases c1)
      case None
      then have "content_refused (fs_heap fs) content" using b content_from_bytes_refused by simp
      then show ?thesis using hc False b None M mem by (simp add: hc_def)
    next
      case (Some x)
      then show ?thesis using hc False b M content_from_bytes_Some [of "fs_heap fs" content h1 x] by (simp add: hc_def bytes_of_def)
    qed
  qed
  define fs1 where "fs1 = fs\<lparr>fs_heap := h\<rparr>"
  define fs2 where "fs2 = remove_object fs1 (ob_suid ob)"
  have m1: "mem_inv arena (fs_heap fs1) (fs_reg fs1) (X \<union> owned_blocks c)" "quiet (fs_journal fs1)" using H q by (simp_all add: fs1_def)
  note R = remove_object_quiet [OF m1, of "ob_suid ob"]
  have ob': "ob_wf (ob\<lparr>ob_content := c\<rparr>)" using ob_wf_content [OF ob] H by blast
  have d: "dom (reg_map (fs_reg fs2)) = dom (reg_map (fs_reg fs)) - {ob_suid ob}" using R(2) by (auto simp: fs2_def fs1_def)
  have "fs' = fst (insert_object fs2 (ob\<lparr>ob_content := c\<rparr>))"
    using hc by (simp add: fs'_def apply_upsert_def hc_def [symmetric] fs1_def fs2_def)
  moreover note insert_object_quiet [of arena fs2 "X \<union> owned_blocks c" "ob\<lparr>ob_content := c\<rparr>"]
  moreover have "X \<union> owned_blocks c - owned_blocks c = X" using H by blast
  ultimately have I: "mem_inv arena (fs_heap fs') (fs_reg fs') X" "fs_journal fs' = fs_journal fs"
    "reg_map (fs_reg fs') = (reg_map (fs_reg fs2))(ob_suid ob \<mapsto> ob\<lparr>ob_content := c\<rparr>)"
    using R ob' room d m1(2) by (simp_all add: fs2_def fs1_def)
  show "mem_inv arena (fs_heap fs') (fs_reg fs') X" "fs_journal fs' = fs_journal fs" by (rule I)+
  have "reg_map (fs_reg fs') = (reg_map (fs_reg fs))(ob_suid ob \<mapsto> ob\<lparr>ob_content := c\<rparr>)"
    using I(3) R(2) by (simp add: fs2_def fs1_def)
  then show "\<exists>c. reg_map (fs_reg fs') = (reg_map (fs_reg fs))(ob_suid ob \<mapsto> ob\<lparr>ob_content := c\<rparr>)
           \<and> (bytes_of (ob\<lparr>ob_content := c\<rparr>) = content \<or> content_refused (fs_heap fs) content \<and> c = Empty)" using H by blast
qed

section \<open>The record buffer\<close>

lemma mem_buf_alloc:
  assumes mem: "mem_inv arena h r X" and n: "n \<le> 2 ^ 34" and al: "heap_allocate h n 8 = (h', p)" and p: "p \<noteq> 0"
  shows "mem_inv arena h' r (insert p X)" and "p \<notin> X"
proof -
  have A: "heap_inv arena h' \<and> hp_init h'" "p \<notin> dom (hp_used h)" "dom (hp_used h') = insert p (dom (hp_used h))"
    using kernel_heap.alloc_block [OF mem_inv_heap [OF mem] n al p] by blast+
  have own: "owned_blocks (ob_content q) \<subseteq> dom (hp_used h) - X" "ob_wf q" if "reg_map r t = Some q" for t q
    using mem that unfolding mem_inv_def by blast+
  have X: "X \<subseteq> dom (hp_used h)" using mem by (simp add: mem_inv_def)
  then show "p \<notin> X" using A(2) by blast
  have "owned_blocks (ob_content q) \<subseteq> dom (hp_used h') - insert p X" if "reg_map r t = Some q" for t q
    using own(1) [OF that] A(2,3) by blast
  then show "mem_inv arena h' r (insert p X)" using mem A X own(2) unfolding mem_inv_def by (metis insert_mono)
qed

lemma mem_buf_free:
  assumes mem: "mem_inv arena h r (insert p X)" and "p \<notin> X"
  shows "mem_inv arena (free_buf h p) r X"
proof -
  have "p \<in> dom (hp_used h)" using mem by (simp add: mem_inv_def)
  from kernel_heap.free_block [OF mem_inv_heap [OF mem] this] obtain h' where
    h': "heap_deallocate h p = Some h'" "heap_inv arena h' \<and> hp_init h'" "dom (hp_used h') = dom (hp_used h) - {p}" by blast
  have own: "owned_blocks (ob_content q) \<subseteq> dom (hp_used h) - insert p X" "ob_wf q" if "reg_map r t = Some q" for t q
    using mem that unfolding mem_inv_def by blast+
  have "owned_blocks (ob_content q) \<subseteq> dom (hp_used h') - X" if "reg_map r t = Some q" for t q
    using own(1) [OF that] h'(3) by blast
  moreover have "X \<subseteq> dom (hp_used h')" using mem assms(2) h'(3) by (auto simp: mem_inv_def)
  ultimately show ?thesis using mem h'(1,2) own(2) unfolding mem_inv_def free_buf_def by simp
qed

section \<open>Sectors on a device\<close>

text \<open>
  A device with working sectors: \<open>disk\<close> gives the content of every sector of a device state, reads
  return it, and a write that reports success changes exactly its sector. Failed writes may do
  anything.
\<close>

definition sector_device :: "('d \<Rightarrow> u64 \<Rightarrow> u8 list) \<Rightarrow> 'd block_device \<Rightarrow> bool" where
  "sector_device disk dev \<longleftrightarrow> (\<forall>d lba. length (disk d lba) = 512)
     \<and> (\<forall>d lba n. bd_read dev d lba (n * 512) = Some (concat (map (\<lambda>i. disk d (lba + of_nat i)) [0..<n])))
     \<and> (\<forall>d lba buf d'. length buf = 512 \<and> bd_write dev d lba buf = (d', True) \<longrightarrow> disk d' = (disk d)(lba := buf))"

definition holds :: "(u64 \<Rightarrow> u8 list) \<Rightarrow> u64 \<Rightarrow> u8 list list \<Rightarrow> bool" where
  "holds f lba secs \<longleftrightarrow> (\<forall>k < length secs. f (lba + of_nat k) = secs ! k)"

lemma holds_Nil [simp]: "holds f lba []"
  by (simp add: holds_def)

lemma holds_Cons: "holds f lba (s # ss) \<longleftrightarrow> f lba = s \<and> holds f (lba + 1) ss"
proof -
  have "(\<forall>k < length (s # ss). f (lba + of_nat k) = (s # ss) ! k)
      \<longleftrightarrow> f lba = s \<and> (\<forall>k < length ss. f (lba + of_nat (Suc k)) = ss ! k)"
    by (simp add: All_less_Suc2)
  then show ?thesis by (simp add: holds_def ac_simps)
qed

lemma holds_append: "holds f lba (xs @ ys) \<longleftrightarrow> holds f lba xs \<and> holds f (lba + of_nat (length xs)) ys"
  by (induction xs arbitrary: lba) (simp_all add: holds_Cons ac_simps)

lemma device_read:
  assumes "sector_device disk dev" and "holds (disk (bd_state dev)) lba secs"
  shows "dev_read dev lba (length secs * 512) = Some (concat secs)"
proof -
  have "map (\<lambda>i. disk (bd_state dev) (lba + of_nat i)) [0..<length secs] = secs"
    using assms(2) by (intro nth_equalityI) (simp_all add: holds_def)
  then show ?thesis using assms(1) by (simp add: dev_read_def sector_device_def)
qed

lemma device_read_first:
  assumes "sector_device disk dev"
  shows "dev_read dev lba SECTOR = Some (disk (bd_state dev) lba)"
  using device_read [OF assms, of lba "[disk (bd_state dev) lba]"] by (simp add: holds_Cons SECTOR_def)

lemma sectors_of_facts:
  "(\<forall>s \<in> set (sectors_of xs). length s = 512) \<and> length (sectors_of xs) = (length xs + 511) div 512
   \<and> (\<exists>k. concat (sectors_of xs) = xs @ replicate k 0)"
proof (induction xs rule: sectors_of.induct)
  case (1 xs)
  show ?case
  proof (cases "xs = []")
    case False
    note IH = "1.IH" [OF False]
    have e: "sectors_of xs = (take 512 xs @ replicate (512 - length xs) 0) # sectors_of (drop 512 xs)"
      using False by (subst sectors_of.simps) (simp add: SECTOR_def)
    have l: "Suc ((length xs - 512 + 511) div 512) = (length xs + 511) div 512"
    proof (cases "length xs \<le> 512")
      case True
      then have "(length xs + 511) div 512 = 1" using False by (intro div_nat_eqI) (auto simp: Suc_le_eq)
      then show ?thesis using True by simp
    next
      case gt: False
      then have "length xs + 511 = (length xs - 512 + 511) + 512" by simp
      then show ?thesis by (simp only: div_add_self2)
    qed
    have c: "\<exists>k. concat (sectors_of xs) = xs @ replicate k 0"
    proof (cases "length xs \<le> 512")
      case True
      then show ?thesis using e by auto
    next
      case gt: False
      then obtain k where "concat (sectors_of (drop 512 xs)) = drop 512 xs @ replicate k 0" using IH by (auto simp: SECTOR_def)
      then have "concat (sectors_of xs) = xs @ replicate k 0" using e gt by (simp add: append_take_drop_id flip: append_assoc)
      then show ?thesis by blast
    qed
    have "\<forall>s \<in> set (sectors_of xs). length s = 512" using e IH by (auto simp: SECTOR_def)
    moreover have "length (sectors_of xs) = (length xs + 511) div 512" using e IH l by (simp add: SECTOR_def)
    ultimately show ?thesis using c by blast
  qed simp
qed

lemma sectors_of_first:
  assumes "xs \<noteq> []"
  shows "hd (sectors_of xs) = take 512 (concat (sectors_of xs))" and "sectors_of xs \<noteq> []"
proof -
  have f: "\<forall>s \<in> set (sectors_of xs). length s = 512" using sectors_of_facts by blast
  show ne: "sectors_of xs \<noteq> []" using assms by (subst sectors_of.simps) simp
  then obtain s ss where e: "sectors_of xs = s # ss" by (cases "sectors_of xs") auto
  then have "length s = 512" using f by simp
  then show "hd (sectors_of xs) = take 512 (concat (sectors_of xs))" by (simp add: e)
qed

section \<open>One record\<close>

datatype log_op = LUpsert semantic_object "u8 list" | LTomb suid

fun op_body :: "log_op \<Rightarrow> u64 \<Rightarrow> u8 list" where
  "op_body (LUpsert ob b) seq = upsert_body ob seq b"
| "op_body (LTomb s) seq = tomb_body s seq"

fun op_ok :: "log_op \<Rightarrow> bool" where
  "op_ok (LUpsert ob b) = (ob_wf ob \<and> length b < 2 ^ 32)"
| "op_ok (LTomb s) = True"

definition op_image :: "log_op \<Rightarrow> u64 \<Rightarrow> u8 list" where
  "op_image op seq = op_body op seq @ le_bytes 4 (crc32 (op_body op seq))"

text \<open>The objects a log stands for, each with its bytes.\<close>

fun op_apply :: "log_op \<Rightarrow> (suid \<rightharpoonup> semantic_object \<times> u8 list) \<Rightarrow> suid \<rightharpoonup> semantic_object \<times> u8 list" where
  "op_apply (LUpsert ob b) m = m(ob_suid ob \<mapsto> (ob, b))"
| "op_apply (LTomb s) m = m(s := None)"

fun op_links :: "log_op \<Rightarrow> nat" where
  "op_links (LUpsert ob b) = length (link_list ob)"
| "op_links (LTomb s) = 0"

fun op_clen :: "log_op \<Rightarrow> nat" where
  "op_clen (LUpsert ob b) = length b"
| "op_clen (LTomb s) = 0"

lemma op_body_header:
  "\<exists>rest. op_body op seq = record_header (case op of LUpsert ob b \<Rightarrow> Some ob | LTomb s \<Rightarrow> None)
      (case op of LUpsert ob b \<Rightarrow> ob_suid ob | LTomb s \<Rightarrow> s) seq (op_clen op) (op_links op) @ rest"
  by (cases op) (auto simp: upsert_body_def tomb_body_def)

lemma length_op_body: "length (op_body op seq) = record_header_len (op_links op) + op_clen op"
proof -
  have "length (concat (map link_bytes ls)) = length ls * 17" for ls
    using length_concat_same [of "map link_bytes ls" 17] by simp
  then show ?thesis
    by (cases op) (simp_all add: upsert_body_def tomb_body_def record_header_len_def HEADER_LEN_def LINK_LEN_def)
qed

lemma op_bounds: "op_ok op \<Longrightarrow> op_links op \<le> 16 \<and> op_clen op < 2 ^ 32"
  by (cases op) (auto dest: link_list_facts(2))

text \<open>
  How the registry matches the objects of a log: the identifiers, the metadata and links, and the bytes. Only the
  contents in the set \<open>R\<close> may have been lost.
\<close>

fun restored :: "(semantic_object \<times> u8 list) set \<Rightarrow> (semantic_object \<times> u8 list) option \<Rightarrow> semantic_object option \<Rightarrow> bool" where
  "restored R None x = (x = None)"
| "restored R (Some (ob, b)) x =
     (\<exists>q. x = Some q \<and> persists ob q \<and> (bytes_of q = b \<or> (ob, b) \<in> R \<and> bytes_of q = []))"

definition restores :: "(semantic_object \<times> u8 list) set \<Rightarrow> (suid \<rightharpoonup> semantic_object \<times> u8 list) \<Rightarrow> registry \<Rightarrow> bool" where
  "restores R m r \<longleftrightarrow> (\<forall>s. restored R (m s) (reg_map r s))"

lemma restored_None_iff: "restored R x y \<Longrightarrow> x = None \<longleftrightarrow> y = None"
  by (cases x) auto

lemma restored_mono: "restored R x y \<Longrightarrow> R \<subseteq> R' \<Longrightarrow> restored R' x y"
  by (cases x) (simp, fastforce)

lemma restores_mono: "restores R m r \<Longrightarrow> R \<subseteq> R' \<Longrightarrow> restores R' m r"
  unfolding restores_def using restored_mono by blast

lemma restores_dom:
  assumes "restores R m r"
  shows "dom (reg_map r) = dom m"
proof -
  have "reg_map r s = None \<longleftrightarrow> m s = None" for s
    using restored_None_iff [of R "m s" "reg_map r s"] assms by (simp add: restores_def)
  then show ?thesis by (simp add: dom_def)
qed

lemma restores_upsert:
  assumes "restores R m r" and "reg_map r' = (reg_map r)(ob_suid ob \<mapsto> q)" and "persists ob q"
    and "bytes_of q = b \<or> (ob, b) \<in> R \<and> bytes_of q = []"
  shows "restores R (m(ob_suid ob \<mapsto> (ob, b))) r'"
  using assms by (simp add: restores_def)

lemma restores_tomb: "restores R m r \<Longrightarrow> reg_map r' = (reg_map r)(s := None) \<Longrightarrow> restores R (m(s := None)) r'"
  by (simp add: restores_def)

text \<open>The content that is lost when a record is applied on the heap \<open>h\<close>.\<close>

definition lost_content :: "heap \<Rightarrow> log_op \<Rightarrow> (semantic_object \<times> u8 list) set" where
  "lost_content h op = {(ob, b). op = LUpsert ob b \<and> content_refused h b}"

text \<open>What the scan needs of a state between two records.\<close>

definition replay_ok ::
  "nat \<Rightarrow> nat set \<Rightarrow> (semantic_object \<times> u8 list) set \<Rightarrow> (suid \<rightharpoonup> semantic_object \<times> u8 list) \<Rightarrow> 'd fs \<Rightarrow> bool" where
  "replay_ok arena X R m fs \<longleftrightarrow> mem_inv arena (fs_heap fs) (fs_reg fs) X \<and> quiet (fs_journal fs) \<and> restores R m (fs_reg fs)"

lemma replay_room:
  assumes "replay_ok arena X R m fs" and "card (dom (m(s \<mapsto> x))) \<le> MAX_OBJECTS"
  shows "card (dom (reg_map (fs_reg fs)) - {s}) < MAX_OBJECTS"
proof -
  let ?D = "dom (reg_map (fs_reg fs))"
  have "?D = dom m" using restores_dom [of R m "fs_reg fs"] assms(1) by (simp add: replay_ok_def)
  then have "dom (m(s \<mapsto> x)) = insert s (?D - {s})" by auto
  moreover have "card (insert s (?D - {s})) = Suc (card (?D - {s}))"
    using reg_map_finite by (intro card_insert_disjoint) auto
  ultimately show ?thesis using assms(2) by simp
qed

lemma replay_record_op:
  assumes st: "replay_ok arena X R m (rp_fs st)" and op: "op_ok op" and room: "card (dom (op_apply op m)) \<le> MAX_OBJECTS"
    and buf: "buf = op_body op seq @ post"
  shows "\<exists>fs'. replay_record (take 512 buf) buf (op_links op) (op_clen op) st
      = (True, st\<lparr>rp_fs := fs', rp_next_seq := bump_seq seq (rp_next_seq st), rp_applied := rp_applied st + 1\<rparr>)
    \<and> replay_ok arena X (R \<union> lost_content (fs_heap (rp_fs st)) op) (op_apply op m) fs'"
proof -
  have mem: "mem_inv arena (fs_heap (rp_fs st)) (fs_reg (rp_fs st)) X" and q: "quiet (fs_journal (rp_fs st))"
    and r: "restores R m (fs_reg (rp_fs st))" using st by (simp_all add: replay_ok_def)
  show ?thesis
  proof (cases op)
    case (LUpsert ob b)
    have wf: "ob_wf ob" using op LUpsert by simp
    have bu: "buf = upsert_body ob seq b @ post" using buf LUpsert by simp
    define x where "x = replay_object (take 512 buf) buf (length (link_list ob))"
    note R = replay_object_upsert [OF wf bu, folded x_def]
    have s: "ob_suid x = ob_suid ob" using R(2) by (simp add: persists_def)
    have "card (dom (reg_map (fs_reg (rp_fs st))) - {ob_suid x}) < MAX_OBJECTS"
      using replay_room [OF st, of "ob_suid ob" "(ob, b)"] room LUpsert s by simp
    note A = apply_upsert_effect [OF mem q R(1) this, of b]
    obtain c where c: "reg_map (fs_reg (apply_upsert (rp_fs st) x b)) = (reg_map (fs_reg (rp_fs st)))(ob_suid ob \<mapsto> x\<lparr>ob_content := c\<rparr>)"
      "bytes_of (x\<lparr>ob_content := c\<rparr>) = b \<or> content_refused (fs_heap (rp_fs st)) b \<and> c = Empty" using A(3) s by auto
    have p: "persists ob (x\<lparr>ob_content := c\<rparr>)" using R(2) by (simp add: persists_def link_list_def get_links_def)
    let ?R = "R \<union> lost_content (fs_heap (rp_fs st)) op"
    have bo: "bytes_of (x\<lparr>ob_content := c\<rparr>) = b \<or> (ob, b) \<in> ?R \<and> bytes_of (x\<lparr>ob_content := c\<rparr>) = []"
      using c(2) LUpsert by (auto simp: bytes_of_def lost_content_def)
    have "replay_ok arena X ?R (op_apply op m) (apply_upsert (rp_fs st) x b)"
      using A(1,2) q restores_upsert [OF restores_mono [OF r] c(1) p bo] LUpsert by (simp add: replay_ok_def)
    moreover have "buf = record_header (Some ob) (ob_suid ob) seq (length b) (length (link_list ob))
        @ (concat (map link_bytes (link_list ob)) @ b @ post)" using bu by (simp add: upsert_body_def)
    note F = sector_fields [OF refl arg_cong [where f = "take 512", OF this]]
    have "take 512 buf ! 6 = OP_UPSERT" "of_le_bytes (slice 8 8 (take 512 buf)) = seq" using F(3,4) by (simp_all add: rec_op_def)
    ultimately show ?thesis using LUpsert R(4) by (intro exI [of _ "apply_upsert (rp_fs st) x b"]) (simp add: replay_record_def x_def Let_def)
  next
    case (LTomb s)
    note A = remove_object_quiet [OF mem q, of s]
    have "replay_ok arena X (R \<union> lost_content (fs_heap (rp_fs st)) op) (op_apply op m) (remove_object (rp_fs st) s)"
      using A q restores_tomb [OF r A(2)] LTomb by (simp add: replay_ok_def lost_content_def)
    moreover have "buf = record_header None s seq 0 0 @ post" using buf LTomb by (simp add: tomb_body_def)
    note F = sector_fields [OF refl arg_cong [where f = "take 512", OF this]]
    have "take 512 buf ! 6 = OP_TOMBSTONE" "of_le_bytes (slice 8 8 (take 512 buf)) = seq" "suid_from_bytes (slice 16 16 (take 512 buf)) = s"
      using F(3,4,5) by (simp_all add: rec_op_def)
    ultimately show ?thesis
      by (intro exI [of _ "remove_object (rp_fs st) s"]) (simp add: replay_record_def Let_def OP_TOMBSTONE_def OP_UPSERT_def)
  qed
qed

text \<open>One turn of the scan on a complete record: it is applied, unless there is no memory for its buffer.\<close>

lemma replay_step_op:
  assumes dev: "sector_device disk dev" and st: "replay_ok arena {} R m (rp_fs st)" and op: "op_ok op"
    and room: "card (dom (op_apply op m)) \<le> MAX_OBJECTS"
    and h: "holds (disk (bd_state dev)) (rp_head st) (sectors_of (op_image op seq))"
    and fit: "unat (rp_head st) + length (sectors_of (op_image op seq)) \<le> unat log_end"
  obtains (refused) "snd (heap_allocate (fs_heap (rp_fs st)) (length (sectors_of (op_image op seq)) * SECTOR) 8) = 0" "replay_step dev log_end st = (False, st)"
    | (applied) fs' where
        "replay_ok arena {} (R \<union> lost_content (fst (heap_allocate (fs_heap (rp_fs st)) (length (sectors_of (op_image op seq)) * SECTOR) 8)) op) (op_apply op m) fs'"
        "replay_step dev log_end st = (True, st\<lparr>rp_fs := fs', rp_head := rp_head st + of_nat (length (sectors_of (op_image op seq))),
           rp_next_seq := bump_seq seq (rp_next_seq st), rp_applied := rp_applied st + 1\<rparr>)"
proof -
  let ?b = "op_body op seq" and ?im = "op_image op seq"
  let ?secs = "sectors_of ?im"
  let ?n = "length ?secs" and ?buf = "concat ?secs"
  have "0 < length ?im" by (simp add: op_image_def)
  then have ne: "?im \<noteq> []" by auto
  obtain k where k: "?buf = ?im @ replicate k 0" using sectors_of_facts by blast
  have bb: "?buf = ?b @ (le_bytes 4 (crc32 ?b) @ replicate k 0)" using k by (simp add: op_image_def)
  have len: "record_len (op_links op) (op_clen op) = length ?im"
    by (simp add: op_image_def record_len_def length_op_body)
  have n: "?n = (length ?im + 512 - 1) div 512" using sectors_of_facts [of ?im] by simp
  have n0: "?n \<noteq> 0" using sectors_of_first(2) [OF ne] by simp
  have small: "?n * 512 \<le> 2 ^ 34"
  proof -
    have "?n * 512 \<le> length ?im + 511" using n div_times_less_eq_dividend [of "length ?im + 511" 512] by simp
    also have "\<dots> \<le> 2 ^ 34" using op_bounds [OF op] by (simp add: op_image_def length_op_body record_header_len_def HEADER_LEN_def LINK_LEN_def)
    finally show ?thesis .
  qed
  have sec: "dev_read dev (rp_head st) SECTOR = Some (take 512 ?buf)"
  proof -
    have "disk (bd_state dev) (rp_head st) = hd ?secs" using h sectors_of_first(2) [OF ne] by (cases ?secs) (simp_all add: holds_Cons)
    then show ?thesis using device_read_first [OF dev] sectors_of_first(1) [OF ne] by simp
  qed
  have rd: "dev_read dev (rp_head st) (?n * SECTOR) = Some ?buf" using device_read [OF dev h] by (simp add: SECTOR_def)
  obtain rest where "?b = record_header (case op of LUpsert ob b \<Rightarrow> Some ob | LTomb s \<Rightarrow> None)
      (case op of LUpsert ob b \<Rightarrow> ob_suid ob | LTomb s \<Rightarrow> s) seq (op_clen op) (op_links op) @ rest" using op_body_header by blast
  then have "?buf = record_header (case op of LUpsert ob b \<Rightarrow> Some ob | LTomb s \<Rightarrow> None)
      (case op of LUpsert ob b \<Rightarrow> ob_suid ob | LTomb s \<Rightarrow> s) seq (op_clen op) (op_links op)
      @ (rest @ le_bytes 4 (crc32 ?b) @ replicate k 0)" using bb by simp
  note F = sector_fields [OF refl arg_cong [where f = "take 512", OF this]]
  have cl: "unat (of_le_bytes (slice 52 4 (take 512 ?buf)) :: u32) = op_clen op"
    using F(6) op_bounds [OF op] by (simp add: unat_of_nat take_bit_nat_eq_self)
  have lc: "unat (of_le_bytes (slice 56 4 (take 512 ?buf)) :: u32) = op_links op"
    using F(7) op_bounds [OF op] by (simp add: unat_of_nat take_bit_nat_eq_self)
  have head: "\<not> rp_head st \<ge> log_end" unfolding word_le_nat_alt using fit n0 by linarith
  have fits: "\<not> rp_head st + of_nat ?n > log_end"
  proof -
    have "unat (rp_head st) + ?n < 2 ^ 64" using fit unsigned_less [of log_end, where 'a = nat] by simp
    then have "unat (rp_head st + of_nat ?n) = unat (rp_head st) + ?n" by (simp add: unat_word_ariths unat_of_nat take_bit_nat_eq_self)
    then show ?thesis using fit by (simp add: word_less_nat_alt)
  qed
  have crc: "record_header_len (op_links op) + op_clen op + 4 \<le> length ?buf"
    "crc32 (take (record_header_len (op_links op) + op_clen op) ?buf)
       = of_le_bytes (slice (record_header_len (op_links op) + op_clen op) 4 ?buf)"
    unfolding bb length_op_body [symmetric, of op seq] by (simp_all add: slice_def)
  obtain h' p where al: "heap_allocate (fs_heap (rp_fs st)) (?n * SECTOR) 8 = (h', p)" by (metis prod.exhaust)
  define st1 where "st1 = st\<lparr>rp_fs := (rp_fs st)\<lparr>fs_heap := h'\<rparr>\<rparr>"
  have ns: "(record_len (op_links op) (op_clen op) + SECTOR - 1) div SECTOR = ?n" using len n by (simp add: SECTOR_def)
  obtain go st2 where rr: "replay_record (take 512 ?buf) ?buf (op_links op) (op_clen op) st1 = (go, st2)" by (metis prod.exhaust)
  have step: "replay_step dev log_end st = (if p = 0 then (False, st1)
      else (go, if go then st2\<lparr>rp_fs := (rp_fs st2)\<lparr>fs_heap := free_buf (fs_heap (rp_fs st2)) p\<rparr>, rp_head := rp_head st + of_nat ?n\<rparr>
                else st2\<lparr>rp_fs := (rp_fs st2)\<lparr>fs_heap := free_buf (fs_heap (rp_fs st2)) p\<rparr>\<rparr>))"
    using head sec F(2) cl lc op_bounds [OF op] ns n0 fits al rd crc rr
    by (cases go) (simp_all add: replay_step_def MAX_LINKS_def SECTOR_def [symmetric] Let_def st1_def)
  have mem: "mem_inv arena (fs_heap (rp_fs st)) (fs_reg (rp_fs st)) {}" and q: "quiet (fs_journal (rp_fs st))"
    and rs: "restores R m (fs_reg (rp_fs st))" using st by (simp_all add: replay_ok_def)
  have sm: "?n * SECTOR \<le> 2 ^ 34" using small by (simp add: SECTOR_def)
  show ?thesis
  proof (cases "p = 0")
    case True
    then have "h' = fs_heap (rp_fs st)" using kernel_heap.alloc_fail [OF mem_inv_heap [OF mem] sm] al by simp
    then have "replay_step dev log_end st = (False, st)" using step True by (simp add: st1_def)
    then show ?thesis using that(1) al True by simp
  next
    case False
    have "replay_ok arena {p} R m (rp_fs st1)"
      using mem_buf_alloc(1) [OF mem sm al False] q rs by (simp add: replay_ok_def st1_def)
    from replay_record_op [OF this op room bb] obtain fs2 where
      r: "replay_record (take 512 ?buf) ?buf (op_links op) (op_clen op) st1
        = (True, st1\<lparr>rp_fs := fs2, rp_next_seq := bump_seq seq (rp_next_seq st1), rp_applied := rp_applied st1 + 1\<rparr>)"
      and ok: "replay_ok arena {p} (R \<union> lost_content h' op) (op_apply op m) fs2" by (auto simp: st1_def)
    let ?fs = "fs2\<lparr>fs_heap := free_buf (fs_heap fs2) p\<rparr>"
    have "mem_inv arena (free_buf (fs_heap fs2) p) (fs_reg fs2) {}" by (rule mem_buf_free) (use ok in \<open>simp_all add: replay_ok_def\<close>)
    then have "replay_ok arena {} (R \<union> lost_content h' op) (op_apply op m) ?fs" using ok by (simp add: replay_ok_def)
    moreover have "go" "st2 = st\<lparr>rp_fs := fs2, rp_next_seq := bump_seq seq (rp_next_seq st), rp_applied := rp_applied st + 1\<rparr>"
      using r rr by (simp_all add: st1_def)
    ultimately show ?thesis using that(2) [of ?fs] step False al by simp
  qed
qed

section \<open>The whole log\<close>

definition log_secs :: "(log_op \<times> u64) list \<Rightarrow> u8 list list" where
  "log_secs recs = concat (map (\<lambda>(op, seq). sectors_of (op_image op seq)) recs)"

definition log_state :: "log_op list \<Rightarrow> (suid \<rightharpoonup> semantic_object \<times> u8 list) \<Rightarrow> suid \<rightharpoonup> semantic_object \<times> u8 list" where
  "log_state ops m = fold op_apply ops m"

lemma log_secs_simps [simp]:
  "log_secs [] = []" "log_secs ((op, seq) # recs) = sectors_of (op_image op seq) @ log_secs recs"
  "log_secs (xs @ ys) = log_secs xs @ log_secs ys"
  by (simp_all add: log_secs_def)

lemma log_state_simps [simp]: "log_state [] m = m" "log_state (op # ops) m = log_state ops (op_apply op m)"
  by (simp_all add: log_state_def)

text \<open>The scan stops at the end of the log or at a sector of zeros.\<close>

definition clean_tail :: "(u64 \<Rightarrow> u8 list) \<Rightarrow> u64 \<Rightarrow> u64 \<Rightarrow> bool" where
  "clean_tail f h log_end \<longleftrightarrow> (unat h < unat log_end \<longrightarrow> set (f h) \<subseteq> {0})"

lemma replay_step_tail:
  assumes "sector_device disk dev" and "clean_tail (disk (bd_state dev)) (rp_head st) log_end"
  shows "replay_step dev log_end st = (False, st)"
proof (cases "rp_head st \<ge> log_end")
  case False
  define sec where "sec = disk (bd_state dev) (rp_head st)"
  have z: "set sec \<subseteq> {0}" using False assms(2) by (simp add: clean_tail_def word_le_nat_alt sec_def)
  have r: "dev_read dev (rp_head st) SECTOR = Some sec" using device_read_first [OF assms(1)] by (simp add: sec_def)
  have "set (slice 0 4 sec) \<subseteq> {0}" using z by (auto simp: slice_def dest: in_set_takeD)
  moreover have "0x53 \<in> set REC_MAGIC" by (simp add: REC_MAGIC_def)
  ultimately have "slice 0 4 sec \<noteq> REC_MAGIC" by auto
  then show ?thesis using False r z by (auto simp: replay_step_def)
qed (simp add: replay_step_def)

text \<open>The state after \<open>k\<close> turns of the scan, and the contents that are lost when the records are applied one after the other.\<close>

definition scan_state :: "'d block_device \<Rightarrow> u64 \<Rightarrow> nat \<Rightarrow> 'd replay \<Rightarrow> 'd replay" where
  "scan_state dev log_end k st = ((\<lambda>st. snd (replay_step dev log_end st)) ^^ k) st"

definition record_heap :: "'d replay \<Rightarrow> log_op \<times> u64 \<Rightarrow> heap \<times> nat" where
  "record_heap st rec = heap_allocate (fs_heap (rp_fs st)) (length (sectors_of (op_image (fst rec) (snd rec))) * SECTOR) 8"

definition lost :: "'d block_device \<Rightarrow> u64 \<Rightarrow> 'd replay \<Rightarrow> (log_op \<times> u64) list \<Rightarrow> (semantic_object \<times> u8 list) set" where
  "lost dev log_end st recs = (\<Union>i < length recs. lost_content (fst (record_heap (scan_state dev log_end i st) (recs ! i))) (fst (recs ! i)))"

lemma lost_Nil [simp]: "lost dev log_end st [] = {}"
  by (simp add: lost_def)

lemma lost_Cons:
  "replay_step dev log_end st = (True, st') \<Longrightarrow>
   lost dev log_end st (rec # recs) = lost_content (fst (record_heap st rec)) (fst rec) \<union> lost dev log_end st' recs"
  by (simp add: lost_def scan_state_def lessThan_Suc_eq_insert_0 funpow_Suc_right image_image del: funpow.simps(2))

lemma replay_log:
  assumes dev: "sector_device disk dev" and "replay_ok arena {} R m (rp_fs st)" and "\<forall>(op, seq) \<in> set recs. op_ok op"
    and "\<And>k. k \<le> length recs \<Longrightarrow> card (dom (log_state (map fst (take k recs)) m)) \<le> MAX_OBJECTS"
    and "holds (disk (bd_state dev)) (rp_head st) (log_secs recs)"
    and "unat (rp_head st) + length (log_secs recs) \<le> unat log_end"
    and "clean_tail (disk (bd_state dev)) (rp_head st + of_nat (length (log_secs recs))) log_end"
  shows "\<exists>k st'. k \<le> length recs \<and> replay_loop dev log_end st = Some st'
    \<and> replay_ok arena {} (R \<union> lost dev log_end st (take k recs)) (log_state (map fst (take k recs)) m) (rp_fs st')
    \<and> rp_applied st' = rp_applied st + k \<and> rp_torn st' = rp_torn st
    \<and> (k < length recs \<longrightarrow>
         snd (record_heap st' (recs ! k)) = 0)"
  using assms(2-)
proof (induction recs arbitrary: m st R)
  case Nil
  have "replay_loop dev log_end st = Some st"
    using replay_step_tail [OF dev, of st log_end] Nil.prems(6) by (subst replay_loop.simps) simp
  then show ?case using Nil.prems(1) by (intro exI [of _ 0] exI [of _ st]) simp
next
  case (Cons rec recs)
  obtain op seq where rec: "rec = (op, seq)" by (cases rec)
  let ?n = "length (sectors_of (op_image op seq))"
  have op: "op_ok op" using Cons.prems(2) rec by simp
  have room: "card (dom (op_apply op m)) \<le> MAX_OBJECTS" using Cons.prems(3) [of 1] rec by simp
  have h: "holds (disk (bd_state dev)) (rp_head st) (sectors_of (op_image op seq))"
    and hr: "holds (disk (bd_state dev)) (rp_head st + of_nat ?n) (log_secs recs)"
    using Cons.prems(4) rec by (simp_all add: holds_append)
  have fit: "unat (rp_head st) + ?n \<le> unat log_end" using Cons.prems(5) rec by simp
  from dev Cons.prems(1) op room h fit show ?case
  proof (cases rule: replay_step_op)
    case refused
    then have "replay_loop dev log_end st = Some st" by (subst replay_loop.simps) simp
    then show ?thesis using Cons.prems(1) refused(1) rec by (intro exI [of _ 0] exI [of _ st]) (simp add: record_heap_def)
  next
    case (applied fs')
    define st1 where "st1 = st\<lparr>rp_fs := fs', rp_head := rp_head st + of_nat ?n,
           rp_next_seq := bump_seq seq (rp_next_seq st), rp_applied := rp_applied st + 1\<rparr>"
    have s: "replay_step dev log_end st = (True, st1)" using applied(2) by (simp add: st1_def)
    then have l: "replay_loop dev log_end st = replay_loop dev log_end st1" by (subst replay_loop.simps) simp
    let ?R = "R \<union> lost_content (fst (record_heap st rec)) op"
    have u: "unat (rp_head st + of_nat ?n) = unat (rp_head st) + ?n"
      using fit unsigned_less [of log_end, where 'a = nat] by (simp add: unat_word_ariths unat_of_nat take_bit_nat_eq_self)
    have r: "\<And>k. k \<le> length recs \<Longrightarrow> card (dom (log_state (map fst (take k recs)) (op_apply op m))) \<le> MAX_OBJECTS"
      using Cons.prems(3) [of "Suc k" for k] rec by simp
    have "\<exists>k st'. k \<le> length recs \<and> replay_loop dev log_end st1 = Some st'
      \<and> replay_ok arena {} (?R \<union> lost dev log_end st1 (take k recs)) (log_state (map fst (take k recs)) (op_apply op m)) (rp_fs st')
      \<and> rp_applied st' = rp_applied st1 + k \<and> rp_torn st' = rp_torn st1
      \<and> (k < length recs \<longrightarrow>
           snd (record_heap st' (recs ! k)) = 0)"
    proof (rule Cons.IH)
      show "replay_ok arena {} ?R (op_apply op m) (rp_fs st1)" using applied(1) rec by (simp add: st1_def record_heap_def)
      show "\<forall>(op, seq) \<in> set recs. op_ok op" using Cons.prems(2) by simp
      show "card (dom (log_state (map fst (take k recs)) (op_apply op m))) \<le> MAX_OBJECTS" if "k \<le> length recs" for k by (rule r [OF that])
      show "holds (disk (bd_state dev)) (rp_head st1) (log_secs recs)" using hr by (simp add: st1_def)
      show "unat (rp_head st1) + length (log_secs recs) \<le> unat log_end" using Cons.prems(5) rec u by (simp add: st1_def)
      show "clean_tail (disk (bd_state dev)) (rp_head st1 + of_nat (length (log_secs recs))) log_end"
        using Cons.prems(6) rec by (simp add: st1_def ac_simps)
    qed
    then obtain k st' where "k \<le> length recs" "replay_loop dev log_end st1 = Some st'"
      "replay_ok arena {} (?R \<union> lost dev log_end st1 (take k recs)) (log_state (map fst (take k recs)) (op_apply op m)) (rp_fs st')"
      "rp_applied st' = rp_applied st1 + k" "rp_torn st' = rp_torn st1"
      "k < length recs \<longrightarrow> snd (record_heap st' (recs ! k)) = 0"
      by blast
    then show ?thesis using l rec lost_Cons [OF s, of rec "take k recs"]
      by (intro exI [of _ "Suc k"] exI [of _ st']) (simp add: st1_def Un_assoc)
  qed
qed

end
