(* ===== verification/Durability.thy ===== *)
theory Durability
  imports Replay_Correct
begin

text \<open>
  The journal from format to remount: records appended by the hooks lie on the device one after the
  other, and mounting that device restores the state they describe.
\<close>

section \<open>Writing sectors\<close>

definition same_device :: "'d block_device \<Rightarrow> 'd block_device \<Rightarrow> bool" where
  "same_device dev dev' \<longleftrightarrow> bd_read dev' = bd_read dev \<and> bd_write dev' = bd_write dev"

lemma sector_device_same: "sector_device disk dev \<Longrightarrow> same_device dev dev' \<Longrightarrow> sector_device disk dev'"
  by (simp add: sector_device_def same_device_def)

lemma dev_write_effect:
  assumes "dev_write dev lba buf = (dev', ok)"
  shows "same_device dev dev'"
    and "sector_device disk dev \<Longrightarrow> length buf = 512 \<Longrightarrow> ok \<Longrightarrow> disk (bd_state dev') = (disk (bd_state dev))(lba := buf)"
proof -
  obtain d where d: "bd_write dev (bd_state dev) lba buf = (d, ok)" "dev' = dev\<lparr>bd_state := d\<rparr>"
    using assms by (auto simp: dev_write_def Let_def split: prod.splits)
  then show "same_device dev dev'" by (simp add: same_device_def)
  assume "sector_device disk dev" "length buf = 512" ok
  then show "disk (bd_state dev') = (disk (bd_state dev))(lba := buf)" using d by (simp add: sector_device_def)
qed

text \<open>The sectors a write of \<open>n\<close> blocks at \<open>lba\<close> touches.\<close>

definition span :: "u64 \<Rightarrow> nat \<Rightarrow> u64 set" where
  "span lba n = {x. unat lba \<le> unat x \<and> unat x < unat lba + n}"

lemma span_Suc:
  assumes "unat lba + Suc n \<le> 2 ^ 64"
  shows "span lba (Suc n) = insert lba (span (lba + 1) n)" and "lba \<notin> span (lba + 1) n \<or> n = 0"
    and "n \<noteq> 0 \<Longrightarrow> unat (lba + 1) = unat lba + 1"
proof -
  have u: "unat (lba + 1) = unat lba + 1" if "n \<noteq> 0"
    using assms that by (simp add: unat_word_ariths)
  then show "n \<noteq> 0 \<Longrightarrow> unat (lba + 1) = unat lba + 1" by simp
  show "lba \<notin> span (lba + 1) n \<or> n = 0" using u by (auto simp: span_def)
  have one: "unat lba \<le> unat x \<and> unat x < Suc (unat lba) \<longleftrightarrow> x = lba" for x
  proof
    assume "unat lba \<le> unat x \<and> unat x < Suc (unat lba)"
    then have "unat x = unat lba" by linarith
    then show "x = lba" by (simp only: word_unat_eq_iff)
  qed simp
  show "span lba (Suc n) = insert lba (span (lba + 1) n)"
  proof (cases "n = 0")
    case True
    have "span lba (Suc 0) = {x. x = lba}" by (simp only: span_def add_Suc_right add_0_right one)
    moreover have "span (lba + 1) 0 = {}" unfolding span_def by fastforce
    ultimately show ?thesis using True by simp
  next
    case False
    have "unat lba \<le> unat x \<and> unat x < unat lba + Suc n \<longleftrightarrow> x = lba \<or> unat (lba + 1) \<le> unat x \<and> unat x < unat (lba + 1) + n" for x
      using one [of x] unfolding u [OF False] by linarith
    then show ?thesis unfolding span_def by blast
  qed
qed

lemma write_seq_effect:
  assumes "sector_device disk dev" and "write_seq dev lba ss = (dev', Some lba')" and "\<forall>s \<in> set ss. length s = 512"
    and "unat lba + length ss \<le> 2 ^ 64"
  shows "same_device dev dev' \<and> lba' = lba + of_nat (length ss) \<and> holds (disk (bd_state dev')) lba ss
    \<and> (\<forall>x. x \<notin> span lba (length ss) \<longrightarrow> disk (bd_state dev') x = disk (bd_state dev) x)"
  using assms
proof (induction ss arbitrary: dev lba)
  case Nil
  then show ?case by (simp add: same_device_def)
next
  case (Cons s ss)
  obtain dev1 ok where w: "dev_write dev lba s = (dev1, ok)" by (metis prod.exhaust)
  have ok: "ok" "write_seq dev1 (lba + 1) ss = (dev', Some lba')" using Cons.prems(2) w by (cases ok; simp)+
  note W = dev_write_effect [OF w]
  have d1: "disk (bd_state dev1) = (disk (bd_state dev))(lba := s)" using W(2) [of disk] Cons.prems(1,3) ok(1) by simp
  note S = span_Suc [of lba "length ss"]
  have fit: "unat lba + Suc (length ss) \<le> 2 ^ 64" using Cons.prems(4) by simp
  have f1: "unat (lba + 1) + length ss \<le> 2 ^ 64"
    using S(3) [OF fit] fit by (cases "ss = []") (auto intro: order_trans [OF less_imp_le [OF unsigned_less]])
  have IH: "same_device dev1 dev'" "lba' = lba + 1 + of_nat (length ss)" "holds (disk (bd_state dev')) (lba + 1) ss"
    "\<forall>x. x \<notin> span (lba + 1) (length ss) \<longrightarrow> disk (bd_state dev') x = disk (bd_state dev1) x"
    using Cons.IH [OF sector_device_same [OF Cons.prems(1) W(1)] ok(2) _ f1] Cons.prems(3) by simp_all
  have "lba \<notin> span (lba + 1) (length ss)" using S(2) [OF fit] by (cases "ss = []") (auto simp: span_def)
  then have "disk (bd_state dev') lba = s" using IH(4) d1 by simp
  moreover have "disk (bd_state dev') x = disk (bd_state dev) x" if "x \<notin> span lba (length (s # ss))" for x
    using that S(1) [OF fit] IH(4) d1 by simp
  ultimately show ?case using IH(1,2,3) W(1) by (simp add: holds_Cons same_device_def)
qed

section \<open>The hooks append records\<close>

text \<open>A change of the store as its hook journals it.\<close>

fun journal_op :: "'d journal option \<Rightarrow> log_op \<Rightarrow> 'd journal option \<times> bool" where
  "journal_op g (LUpsert ob b) = on_update g ob b"
| "journal_op g (LTomb s) = on_remove g s"

lemma on_insert_eq_update: "on_insert g ob = on_update g ob (bytes_of ob)"
  by (simp add: on_insert_def on_update_def append_record_def record_parts_def bytes_of_def)

lemma journal_op_append:
  assumes "op_ok op" and "jr_enabled j" and "\<not> jr_replaying j"
  shows "journal_op (Some j) op =
    (case write_seq (jr_dev j) (jr_head j) (sectors_of (op_image op (jr_next_seq j))) of
       (dev, Some lba) \<Rightarrow> (Some (j\<lparr>jr_dev := dev, jr_head := jr_head j + (lba - jr_head j), jr_next_seq := jr_next_seq j + 1\<rparr>), True)
     | (dev, None) \<Rightarrow> (Some (j\<lparr>jr_dev := dev\<rparr>), False))"
proof (cases op)
  case (LUpsert ob b)
  have "record_image (Some ob) None seq (Some b) = op_image op seq" for seq
    using assms(1) LUpsert by (simp add: record_image_upsert op_image_def Let_def)
  then show ?thesis using LUpsert assms(2,3)
    by (simp add: on_update_def journal_hook_def append_record_eq split: prod.split option.split)
next
  case (LTomb s)
  have "record_image None (Some s) seq None = op_image op seq" for seq
    using LTomb by (simp add: record_image_tomb op_image_def)
  then show ?thesis using LTomb assms(2,3)
    by (simp add: on_remove_def journal_hook_def append_record_eq split: prod.split option.split)
qed

fun write_log :: "'d journal \<Rightarrow> log_op list \<Rightarrow> 'd journal option" where
  "write_log j [] = Some j"
| "write_log j (op # ops) =
     (case journal_op (Some j) op of (Some j', True) \<Rightarrow> write_log j' ops | _ \<Rightarrow> None)"

fun number :: "u64 \<Rightarrow> log_op list \<Rightarrow> (log_op \<times> u64) list" where
  "number seq [] = []"
| "number seq (op # ops) = (op, seq) # number (seq + 1) ops"

lemma number_facts [simp]: "length (number seq ops) = length ops" "map fst (number seq ops) = ops"
  by (induction ops arbitrary: seq) simp_all

lemma number_nth: "k < length ops \<Longrightarrow> number seq ops ! k = (ops ! k, seq + of_nat k)"
  by (induction ops arbitrary: seq k) (auto simp: nth_Cons ac_simps split: nat.split)

lemma write_log_effect:
  assumes "sector_device disk (jr_dev j)" and "write_log j ops = Some j'" and "\<forall>op \<in> set ops. op_ok op"
    and "jr_enabled j" and "\<not> jr_replaying j" and "unat (jr_head j) + length (log_secs (number (jr_next_seq j) ops)) \<le> 2 ^ 64"
  shows "same_device (jr_dev j) (jr_dev j') \<and> holds (disk (bd_state (jr_dev j'))) (jr_head j) (log_secs (number (jr_next_seq j) ops))
    \<and> (\<forall>x. x \<notin> span (jr_head j) (length (log_secs (number (jr_next_seq j) ops)))
         \<longrightarrow> disk (bd_state (jr_dev j')) x = disk (bd_state (jr_dev j)) x)"
  using assms
proof (induction ops arbitrary: j)
  case Nil
  then show ?case by (simp add: same_device_def)
next
  case (Cons op ops)
  let ?ss = "sectors_of (op_image op (jr_next_seq j))" and ?rest = "log_secs (number (jr_next_seq j + 1) ops)"
  obtain dev1 lb where w: "write_seq (jr_dev j) (jr_head j) ?ss = (dev1, lb)" by (metis prod.exhaust)
  have J: "journal_op (Some j) op = (case lb of Some lba \<Rightarrow>
       (Some (j\<lparr>jr_dev := dev1, jr_head := jr_head j + (lba - jr_head j), jr_next_seq := jr_next_seq j + 1\<rparr>), True)
     | None \<Rightarrow> (Some (j\<lparr>jr_dev := dev1\<rparr>), False))"
    using journal_op_append [OF _ Cons.prems(4,5), of op] Cons.prems(3) w by (cases lb) simp_all
  then obtain lba where lb: "lb = Some lba" using Cons.prems(2) by (cases lb) auto
  have len: "\<forall>s \<in> set ?ss. length s = 512" using sectors_of_facts by blast
  have fit: "unat (jr_head j) + length ?ss + length ?rest \<le> 2 ^ 64" using Cons.prems(6) by simp
  have W: "same_device (jr_dev j) dev1" "lba = jr_head j + of_nat (length ?ss)" "holds (disk (bd_state dev1)) (jr_head j) ?ss"
    "\<forall>x. x \<notin> span (jr_head j) (length ?ss) \<longrightarrow> disk (bd_state dev1) x = disk (bd_state (jr_dev j)) x"
    using write_seq_effect [OF Cons.prems(1) _ len] w lb fit by simp_all
  define j1 where "j1 = j\<lparr>jr_dev := dev1, jr_head := lba, jr_next_seq := jr_next_seq j + 1\<rparr>"
  have wl: "write_log j1 ops = Some j'" using Cons.prems(2) J lb by (simp add: j1_def)
  show ?case
  proof (cases "ops = []")
    case True
    then have "j' = j1" using wl by simp
    then show ?thesis using W True by (simp add: j1_def)
  next
    case False
    have "?rest \<noteq> []"
    proof (cases ops)
      case (Cons a list)
      have "0 < length (op_image a (jr_next_seq j + 1))" by (simp add: op_image_def)
      then show ?thesis using sectors_of_first(2) [of "op_image a (jr_next_seq j + 1)"] Cons by auto
    qed (use False in simp)
    then have "unat (jr_head j) + length ?ss < 2 ^ 64" using fit by (cases ?rest) simp_all
    then have u: "unat lba = unat (jr_head j) + length ?ss" using W(2) by (simp add: unat_word_ariths unat_of_nat take_bit_nat_eq_self)
    have IH: "same_device dev1 (jr_dev j')" "holds (disk (bd_state (jr_dev j'))) lba ?rest"
      "\<forall>x. x \<notin> span lba (length ?rest) \<longrightarrow> disk (bd_state (jr_dev j')) x = disk (bd_state dev1) x"
      using Cons.IH [of j1] sector_device_same [OF Cons.prems(1) W(1)] wl Cons.prems(3-5) fit u by (simp_all add: j1_def)
    have sub: "disk (bd_state (jr_dev j')) x = disk (bd_state dev1) x" if "x \<in> span (jr_head j) (length ?ss)" for x
      using IH(3) that u by (auto simp: span_def)
    have "holds (disk (bd_state (jr_dev j'))) (jr_head j) ?ss"
      unfolding holds_def
    proof (intro allI impI)
      fix k assume k: "k < length ?ss"
      then have "unat (jr_head j + of_nat k) = unat (jr_head j) + k"
        using \<open>unat (jr_head j) + length ?ss < 2 ^ 64\<close> by (simp add: unat_word_ariths unat_of_nat take_bit_nat_eq_self)
      then have "jr_head j + of_nat k \<in> span (jr_head j) (length ?ss)" using k by (simp add: span_def)
      then show "disk (bd_state (jr_dev j')) (jr_head j + of_nat k) = ?ss ! k" using sub W(3) k by (simp add: holds_def)
    qed
    moreover have "disk (bd_state (jr_dev j')) x = disk (bd_state (jr_dev j)) x"
      if "x \<notin> span (jr_head j) (length ?ss + length ?rest)" for x
    proof -
      have "x \<notin> span lba (length ?rest)" "x \<notin> span (jr_head j) (length ?ss)" using that u by (auto simp: span_def)
      then show ?thesis using IH(3) W(4) by simp
    qed
    ultimately show ?thesis using IH(1,2) W(1,2) by (simp add: holds_append same_device_def)
  qed
qed

section \<open>Format, write, remount\<close>

lemma format_effect:
  assumes dev: "sector_device disk dev" and f: "format_disk dev sb_lba n fs = (dev1, fs1, Formatted)"
  defines "sb \<equiv> \<lparr>sb_generation = 1, sb_log_start = sb_lba + 2, sb_log_sectors = n, sb_high_water = 0, sb_clean_shutdown = False\<rparr>"
  shows "same_device dev dev1" and "disk (bd_state dev1) = (disk (bd_state dev))(sb_lba := encode_superblock sb, sb_lba + 1 := encode_superblock sb)"
    and "fs_journal fs1 = Some (open_journal dev1 (sb_lba + 2) n (sb_lba + 2) 1 False)"
proof -
  let ?sec = "encode_superblock sb"
  obtain da oka where a: "dev_write dev sb_lba ?sec = (da, oka)" by (metis prod.exhaust)
  obtain db okb where b: "dev_write da (sb_lba + 1) ?sec = (db, okb)" by (metis prod.exhaust)
  have e: "oka" "okb" "dev1 = db" "fs_journal fs1 = Some (open_journal dev1 (sb_lba + 2) n (sb_lba + 2) 1 False)"
    using f a b by (cases oka; cases okb; auto simp: format_disk_def sb_def [symmetric] Let_def)+
  note A = dev_write_effect [OF a] and B = dev_write_effect [OF b]
  show "same_device dev dev1" using A(1) B(1) e(3) by (simp add: same_device_def)
  show "disk (bd_state dev1) = (disk (bd_state dev))(sb_lba := ?sec, sb_lba + 1 := ?sec)"
    using A(2) [of disk] B(2) [of disk] dev sector_device_same [OF dev A(1)] e by simp
  show "fs_journal fs1 = Some (open_journal dev1 (sb_lba + 2) n (sb_lba + 2) 1 False)" by (rule e(4))
qed

lemma probe_both:
  assumes "sector_device disk dev" and "disk (bd_state dev) sb_lba = encode_superblock sb" "disk (bd_state dev) (sb_lba + 1) = encode_superblock sb"
  shows "probe_superblocks dev sb_lba = Some (Some sb)"
  using assms by (simp add: probe_superblocks_def probe_slot_def device_read_first decode_encode_superblock)

lemma mount_Formatted:
  "mount dev sb_lba n fs = Some (dev1, fs1, Formatted) \<Longrightarrow> format_disk dev sb_lba n fs = (dev1, fs1, Formatted)"
  by (auto simp: mount_def Let_def split: option.splits)

text \<open>The state in which \<open>mount\<close> starts the scan of a log.\<close>

definition scan_start :: "'d block_device \<Rightarrow> u64 \<Rightarrow> u64 \<Rightarrow> u64 \<Rightarrow> 'd fs \<Rightarrow> 'd replay" where
  "scan_start dev log_start log_len next_seq fs =
     \<lparr>rp_fs = fs\<lparr>fs_journal := Some (open_journal dev log_start log_len log_start next_seq True)\<rparr>,
      rp_head = log_start, rp_next_seq = next_seq, rp_applied = 0, rp_torn = False\<rparr>"

lemma mount_replays:
  assumes "probe_superblocks dev sb_lba = Some (Some sb)"
    and "replay_loop dev (sb_log_start sb + sb_log_sectors sb)
       (scan_start dev (sb_log_start sb) (sb_log_sectors sb) (sb_high_water sb + 1) fs) = Some st"
  shows "\<exists>dev2 jr. mount dev sb_lba n fs = Some (dev2, (rp_fs st)\<lparr>fs_journal := jr\<rparr>, Mounted (rp_applied st) (rp_torn st))"
  unfolding mount_def Let_def assms(1) assms(2) [unfolded scan_start_def] option.case by blast

text \<open>The addresses of the superblocks and of the log.\<close>

lemma log_addresses:
  fixes sb_lba n :: u64
  assumes "unat sb_lba + 2 + unat n < 2 ^ 64"
  shows "unat (sb_lba + 1) = unat sb_lba + 1" and "unat (sb_lba + 2) = unat sb_lba + 2" and "unat (sb_lba + 2 + n) = unat sb_lba + 2 + unat n"
  using assms by (simp_all add: unat_word_ariths)

text \<open>What follows the log on the device is still blank.\<close>

lemma clean_after_log:
  fixes sb_lba n :: u64
  assumes fit: "unat sb_lba + 2 + unat n < 2 ^ 64" "L \<le> unat n"
    and log: "\<forall>x. x \<notin> span (sb_lba + 2) L \<longrightarrow> d2 x = d1 x"
    and sbs: "\<forall>x. x \<noteq> sb_lba \<longrightarrow> x \<noteq> sb_lba + 1 \<longrightarrow> d1 x = d0 x"
    and blank: "\<forall>x. unat sb_lba + 2 \<le> unat x \<and> unat x < unat sb_lba + 2 + unat n \<longrightarrow> set (d0 x) \<subseteq> {0}"
  shows "clean_tail d2 (sb_lba + 2 + of_nat L) (sb_lba + 2 + n)"
  unfolding clean_tail_def
proof
  let ?x = "sb_lba + 2 + of_nat L"
  assume lt: "unat ?x < unat (sb_lba + 2 + n)"
  note U = log_addresses [OF fit(1)]
  have x: "unat ?x = unat (sb_lba + 2) + L" using fit U(2) by (simp add: unat_word_ariths unat_of_nat take_bit_nat_eq_self)
  have "?x \<notin> span (sb_lba + 2) L" using x by (simp add: span_def)
  moreover have "unat ?x \<noteq> unat sb_lba" "unat ?x \<noteq> unat (sb_lba + 1)" using x U(1,2) by linarith+
  then have "?x \<noteq> sb_lba" "?x \<noteq> sb_lba + 1" by metis+
  ultimately have "d2 ?x = d0 ?x" using log sbs by simp
  then show "set (d2 ?x) \<subseteq> {0}" using blank x lt U by simp
qed

text \<open>What is on a device that was formatted and then written to by the hooks.\<close>

lemma journal_on_disk:
  fixes sb_lba n :: u64
  assumes dev: "sector_device disk dev" and fmt: "mount dev sb_lba n fs0 = Some (dev1, fs1, Formatted)"
    and jr: "fs_journal fs1 = Some j" and wl: "write_log j ops = Some j'" and ok: "\<forall>op \<in> set ops. op_ok op"
    and fit: "unat sb_lba + 2 + unat n < 2 ^ 64" "length (log_secs (number 1 ops)) \<le> unat n"
  shows "sector_device disk (jr_dev j')" "holds (disk (bd_state (jr_dev j'))) (sb_lba + 2) (log_secs (number 1 ops))"
    "probe_superblocks (jr_dev j') sb_lba
       = Some (Some \<lparr>sb_generation = 1, sb_log_start = sb_lba + 2, sb_log_sectors = n, sb_high_water = 0, sb_clean_shutdown = False\<rparr>)"
    "\<forall>x. unat sb_lba + 2 \<le> unat x \<and> unat x < unat sb_lba + 2 + unat n \<longrightarrow> set (disk (bd_state dev) x) \<subseteq> {0} \<Longrightarrow>
     clean_tail (disk (bd_state (jr_dev j'))) (sb_lba + 2 + of_nat (length (log_secs (number 1 ops)))) (sb_lba + 2 + n)"
proof -
  let ?recs = "number 1 ops" and ?start = "sb_lba + 2"
  let ?L = "length (log_secs ?recs)"
  define sb where "sb = \<lparr>sb_generation = 1, sb_log_start = ?start, sb_log_sectors = n, sb_high_water = 0, sb_clean_shutdown = False\<rparr>"
  note F = format_effect [OF dev mount_Formatted [OF fmt], folded sb_def]
  have j: "j = open_journal dev1 ?start n ?start 1 False" using F(3) jr by simp
  have dev1: "sector_device disk dev1" using sector_device_same [OF dev F(1)] .
  note U = log_addresses [OF fit(1)]
  have W: "same_device dev1 (jr_dev j')" "holds (disk (bd_state (jr_dev j'))) ?start (log_secs ?recs)"
    "\<forall>x. x \<notin> span ?start ?L \<longrightarrow> disk (bd_state (jr_dev j')) x = disk (bd_state dev1) x"
    using write_log_effect [of disk j ops j'] dev1 wl ok fit U(2) by (simp_all add: j open_journal_def)
  show D: "sector_device disk (jr_dev j')" using sector_device_same [OF dev1 W(1)] .
  show "holds (disk (bd_state (jr_dev j'))) ?start (log_secs ?recs)" by (rule W(2))
  have o: "sb_lba \<notin> span ?start ?L" "sb_lba + 1 \<notin> span ?start ?L" using U by (simp_all add: span_def)
  show "probe_superblocks (jr_dev j') sb_lba = Some (Some \<lparr>sb_generation = 1, sb_log_start = ?start, sb_log_sectors = n, sb_high_water = 0, sb_clean_shutdown = False\<rparr>)"
    unfolding sb_def [symmetric] by (rule probe_both [OF D]) (use W(3) o F(2) in auto)
  show "clean_tail (disk (bd_state (jr_dev j'))) (?start + of_nat ?L) (?start + n)"
    if "\<forall>x. unat sb_lba + 2 \<le> unat x \<and> unat x < unat sb_lba + 2 + unat n \<longrightarrow> set (disk (bd_state dev) x) \<subseteq> {0}"
    by (rule clean_after_log [OF fit W(3) _ that]) (simp add: F(2))
qed

text \<open>
  (C2) Durability. Format a blank device, let the hooks journal any sequence of object changes that fits the log area, all
  reported as written, and mount the device again, on any registry that the log is to be applied to, where
  at no point more than 1024 objects exist. The mount terminates, finds no torn record, and the registry then holds
  exactly the objects that the changes, or a first part of them, produce, each with its metadata and links. It stops early only
  at a record for whose buffer the heap has no room. Each object has its bytes, unless the heap
  that the scan has reached at its record, with the record's buffer allocated, refuses them: they are more than 256, and
  either more than the limit for contents or the heap has no block of that size; such an object is empty.
\<close>

theorem journal_durable:
  assumes dev: "sector_device disk dev" and fmt: "mount dev sb_lba n fs0 = Some (dev1, fs1, Formatted)"
    and jr: "fs_journal fs1 = Some j" and wl: "write_log j ops = Some j'" and ok: "\<forall>op \<in> set ops. op_ok op"
    and fit: "unat sb_lba + 2 + unat n < 2 ^ 64" "length (log_secs (number 1 ops)) \<le> unat n"
    and blank: "\<forall>x. unat sb_lba + 2 \<le> unat x \<and> unat x < unat sb_lba + 2 + unat n \<longrightarrow> set (disk (bd_state dev) x) \<subseteq> {0}"
    and fs: "mem_inv arena (fs_heap fs) (fs_reg fs) {}" "restores {} m (fs_reg fs)"
    and room: "\<forall>k \<le> length ops. card (dom (log_state (take k ops) m)) \<le> MAX_OBJECTS"
  shows "\<exists>dev2 fs' k. mount (jr_dev j') sb_lba n' fs = Some (dev2, fs', Mounted k False) \<and> k \<le> length ops
    \<and> restores (lost (jr_dev j') (sb_lba + 2 + n) (scan_start (jr_dev j') (sb_lba + 2) n 1 fs) (take k (number 1 ops)))
        (log_state (take k ops) m) (fs_reg fs')
    \<and> mem_inv arena (fs_heap fs') (fs_reg fs') {}
    \<and> (k < length ops \<longrightarrow>
         snd (heap_allocate (fs_heap fs') (length (sectors_of (op_image (ops ! k) (1 + of_nat k))) * SECTOR) 8) = 0)"
proof -
  let ?recs = "number 1 ops" and ?start = "sb_lba + 2" and ?dev = "jr_dev j'"
  let ?lim = "?start + n"
  note D = journal_on_disk [OF dev fmt jr wl ok fit]
  note U = log_addresses [OF fit(1)]
  define st where "st = scan_start ?dev ?start n 1 fs"
  have st: "rp_head st = ?start" "rp_applied st = 0" "rp_torn st = False" "replay_ok arena {} {} m (rp_fs st)"
    using fs by (simp_all add: st_def scan_start_def replay_ok_def quiet_def open_journal_def)
  have "\<forall>(op, seq) \<in> set ?recs. op_ok op"
    using ok number_facts(2) [of 1 ops] by (metis (no_types, lifting) case_prodI2 fst_conv image_eqI image_set)
  moreover have "card (dom (log_state (map fst (take k ?recs)) m)) \<le> MAX_OBJECTS" if "k \<le> length ?recs" for k
    using room that by (simp add: take_map [symmetric])
  ultimately have R: "\<exists>k st'. k \<le> length ?recs \<and> replay_loop ?dev ?lim st = Some st'
    \<and> replay_ok arena {} ({} \<union> lost ?dev ?lim st (take k ?recs)) (log_state (map fst (take k ?recs)) m) (rp_fs st')
    \<and> rp_applied st' = rp_applied st + k \<and> rp_torn st' = rp_torn st \<and> (k < length ?recs \<longrightarrow> snd (record_heap st' (?recs ! k)) = 0)"
    using D(2) D(4) [OF blank] fit(2) U st by (intro replay_log [OF D(1)]) simp_all
  then obtain k st' where k: "k \<le> length ops" "replay_loop ?dev ?lim st = Some st'"
    "replay_ok arena {} (lost ?dev ?lim st (take k ?recs)) (log_state (take k ops) m) (rp_fs st')" "rp_applied st' = k" "\<not> rp_torn st'"
    "k < length ops \<longrightarrow> snd (heap_allocate (fs_heap (rp_fs st')) (length (sectors_of (op_image (ops ! k) (1 + of_nat k))) * SECTOR) 8) = 0"
    by (auto simp: take_map [symmetric] number_nth st record_heap_def)
  obtain dev2 jr2 where "mount ?dev sb_lba n' fs = Some (dev2, (rp_fs st')\<lparr>fs_journal := jr2\<rparr>, Mounted (rp_applied st') (rp_torn st'))"
    using mount_replays [OF D(3), of fs st' n'] k(2) by (auto simp: st_def)
  then show ?thesis using k unfolding st_def
    by (intro exI [of _ dev2] exI [of _ "(rp_fs st')\<lparr>fs_journal := jr2\<rparr>"] exI [of _ k]) (simp add: replay_ok_def)
qed

section \<open>A device of sectors in memory\<close>

definition ram_disk :: "(u64 \<Rightarrow> u8 list) \<Rightarrow> u64 \<Rightarrow> u8 list" where
  "ram_disk d lba = take 512 (d lba @ replicate 512 0)"

definition ram_dev :: "(u64 \<Rightarrow> u8 list) block_device" where
  "ram_dev = \<lparr>bd_state = (\<lambda>_. []),
     bd_read = (\<lambda>d lba n. Some (concat (map (\<lambda>i. ram_disk d (lba + of_nat i)) [0..<n div 512]))),
     bd_write = (\<lambda>d lba buf. (d(lba := buf), True))\<rparr>"

lemma ram_dev_sectors: "sector_device ram_disk ram_dev"
proof -
  have "ram_disk (d(lba := buf)) = (ram_disk d)(lba := buf)" if "length buf = 512" for d lba buf
    using that by (auto simp only: ram_disk_def fun_eq_iff fun_upd_apply take_append) simp
  moreover have "length (ram_disk d lba) = 512" for d lba by (simp only: ram_disk_def length_take length_append length_replicate)
  ultimately show ?thesis by (simp add: sector_device_def ram_dev_def)
qed

lemma ram_write_ok:
  "bd_write dev = bd_write ram_dev \<Longrightarrow> \<exists>dev' lba'. write_seq dev lba ss = (dev', Some lba') \<and> bd_write dev' = bd_write ram_dev"
proof (induction ss arbitrary: dev lba)
  case (Cons s ss)
  let ?d = "dev\<lparr>bd_state := (bd_state dev)(lba := s)\<rparr>"
  have "dev_write dev lba s = (?d, True)" using Cons.prems by (simp add: dev_write_def ram_dev_def)
  then show ?case using Cons.IH [of ?d "lba + 1"] Cons.prems by simp
qed simp

lemma ram_write_log:
  "bd_write (jr_dev j) = bd_write ram_dev \<Longrightarrow> \<forall>op \<in> set ops. op_ok op \<Longrightarrow> jr_enabled j \<Longrightarrow> \<not> jr_replaying j \<Longrightarrow> \<exists>j'. write_log j ops = Some j'"
proof (induction ops arbitrary: j)
  case (Cons op ops)
  obtain dev lba where w: "write_seq (jr_dev j) (jr_head j) (sectors_of (op_image op (jr_next_seq j))) = (dev, Some lba)"
    "bd_write dev = bd_write ram_dev" using ram_write_ok [OF Cons.prems(1)] by blast
  let ?j = "j\<lparr>jr_dev := dev, jr_head := lba, jr_next_seq := jr_next_seq j + 1\<rparr>"
  have "journal_op (Some j) op = (Some ?j, True)" using journal_op_append [of op j] Cons.prems w by simp
  then show ?case using Cons.IH [of ?j] Cons.prems w(2) by simp
qed simp

lemma ram_blank: "probe_superblocks ram_dev 0 = Some None"
proof -
  have z: "set (ram_disk (\<lambda>_. []) lba) \<subseteq> {0}" for lba by (auto simp: ram_disk_def dest: in_set_takeD)
  have "decode_superblock (ram_disk (\<lambda>_. []) lba) = None" for lba
  proof -
    have "set (slice 0 4 (ram_disk (\<lambda>_. []) lba)) \<subseteq> {0}" using z by (auto simp: slice_def dest: in_set_takeD)
    moreover have "0x53 \<in> set SB_MAGIC" by (simp add: SB_MAGIC_def)
    ultimately have "slice 0 4 (ram_disk (\<lambda>_. []) lba) \<noteq> SB_MAGIC" by auto
    then show ?thesis by (simp add: decode_superblock_def)
  qed
  moreover have "dev_read ram_dev lba SECTOR = Some (ram_disk (\<lambda>_. []) lba)" for lba
    using device_read_first [OF ram_dev_sectors] by (simp add: ram_dev_def)
  ultimately show ?thesis by (simp add: probe_superblocks_def probe_slot_def)
qed

lemma ram_format:
  obtains dev1 fs1 where "mount ram_dev 0 8 fs = Some (dev1, fs1, Formatted)"
    "fs_journal fs1 = Some (open_journal dev1 2 8 2 1 False)" "bd_write dev1 = bd_write ram_dev"
proof -
  have m: "mount ram_dev 0 8 fs = Some (format_disk ram_dev 0 8 fs)" by (simp add: mount_def ram_blank)
  obtain dev1 fs1 where f: "format_disk ram_dev 0 8 fs = (dev1, fs1, Formatted)"
    by (simp add: format_disk_def dev_write_def ram_dev_def Let_def)
  note F = format_effect [OF ram_dev_sectors f]
  show ?thesis using that [of dev1 fs1] m f F(1,3) by (simp add: same_device_def)
qed

text \<open>A formatted device on which an object of three bytes was journalled and then removed.\<close>

definition ram_fs :: "(u64 \<Rightarrow> u8 list) fs" where
  "ram_fs = \<lparr>fs_heap = heap_init 4096 heap_boot, fs_journal = None, fs_reg = reg_new, fs_counter = 1\<rparr>"

definition ram_ops :: "log_op list" where
  "ram_ops = [LUpsert (ob_new (suid_system 7) Secret 0) [1, 2, 3], LTomb (suid_system 7)]"

lemma ram_journal:
  obtains dev1 fs1 j' where "mount ram_dev 0 8 ram_fs = Some (dev1, fs1, Formatted)" "fs_journal fs1 = Some (open_journal dev1 2 8 2 1 False)"
    "write_log (open_journal dev1 2 8 2 1 False) ram_ops = Some j'"
proof -
  obtain dev1 and fs1 :: "(u64 \<Rightarrow> u8 list) fs" where f: "mount ram_dev 0 8 ram_fs = Some (dev1, fs1, Formatted)"
    "fs_journal fs1 = Some (open_journal dev1 2 8 2 1 False)" "bd_write dev1 = bd_write ram_dev" by (rule ram_format)
  show ?thesis using that [OF f(1,2)] ram_write_log [of "open_journal dev1 2 8 2 1 False" ram_ops] f(3) ob_wf_new(1)
    by (auto simp: open_journal_def ram_ops_def)
qed

lemma ram_facts:
  "\<forall>op \<in> set ram_ops. op_ok op" "unat (0 :: u64) + 2 + unat (8 :: u64) < 2 ^ 64" "length (log_secs (number 1 ram_ops)) \<le> unat (8 :: u64)"
  "\<forall>x. unat (0 :: u64) + 2 \<le> unat x \<and> unat x < unat (0 :: u64) + 2 + unat (8 :: u64) \<longrightarrow> set (ram_disk (bd_state ram_dev) x) \<subseteq> {0}"
proof -
  show "\<forall>op \<in> set ram_ops. op_ok op" using ob_wf_new(1) by (simp add: ram_ops_def)
  show "length (log_secs (number 1 ram_ops)) \<le> unat (8 :: u64)"
    using sectors_of_facts ob_wf_new(2) [of "suid_system 7" Secret 0]
    by (simp add: ram_ops_def op_image_def length_op_body record_header_len_def HEADER_LEN_def LINK_LEN_def del: op_body.simps)
  show "\<forall>x. unat (0 :: u64) + 2 \<le> unat x \<and> unat x < unat (0 :: u64) + 2 + unat (8 :: u64) \<longrightarrow> set (ram_disk (bd_state ram_dev) x) \<subseteq> {0}"
    by (auto simp: ram_disk_def ram_dev_def dest: in_set_takeD)
qed simp

theorem journal_durable_witness:
  "\<exists>dev1 fs1 j' dev2 fs' k. mount ram_dev 0 8 ram_fs = Some (dev1, fs1, Formatted)
     \<and> write_log (the (fs_journal fs1)) ram_ops = Some j'
     \<and> mount (jr_dev j') 0 8 ram_fs = Some (dev2, fs', Mounted k False) \<and> k \<le> 2"
proof -
  obtain dev1 fs1 j' where f: "mount ram_dev 0 8 ram_fs = Some (dev1, fs1, Formatted)" "fs_journal fs1 = Some (open_journal dev1 2 8 2 1 False)"
    "write_log (open_journal dev1 2 8 2 1 False) ram_ops = Some j'" by (rule ram_journal)
  have mem: "mem_inv 4096 (fs_heap ram_fs) (fs_reg ram_fs) {}"
    using heap_inv_init reg_inv_new by (simp add: mem_inv_def ram_fs_def) (simp add: heap_init_def)
  have rs: "restores {} Map.empty (fs_reg ram_fs)" using reg_inv_new(2) by (simp add: restores_def ram_fs_def)
  have room: "\<forall>k \<le> length ram_ops. card (dom (log_state (take k ram_ops) Map.empty)) \<le> MAX_OBJECTS"
  proof (intro allI impI)
    fix k assume "k \<le> length ram_ops"
    then consider "k = 0" | "k = 1" | "k = 2" by (auto simp: ram_ops_def le_Suc_eq numeral_eq_Suc)
    then show "card (dom (log_state (take k ram_ops) Map.empty)) \<le> MAX_OBJECTS" by cases (simp_all add: MAX_OBJECTS_def ob_new_def ram_ops_def)
  qed
  have "length ram_ops = 2" by (simp add: ram_ops_def)
  with journal_durable [OF ram_dev_sectors f ram_facts mem rs room, of 8] f show ?thesis by fastforce
qed

section \<open>Termination\<close>

text \<open>A turn of the scan that goes on has moved the head on, by less than \<open>2 ^ 24\<close> sectors.\<close>

lemma replay_step_True:
  assumes "replay_step dev log_end st = (True, st')"
  shows "\<exists>lc (cl :: u32) n. rp_head st < log_end \<and> rp_head st' = rp_head st + of_nat n
    \<and> n = (record_len lc (unat cl) + SECTOR - 1) div SECTOR \<and> n \<noteq> 0 \<and> lc \<le> MAX_LINKS \<and> rp_head st + of_nat n \<le> log_end"
proof -
  obtain sec where sec: "dev_read dev (rp_head st) SECTOR = Some sec"
    using assms by (auto simp: replay_step_def split: if_splits option.splits)
  let ?lc = "unat (of_le_bytes (slice 56 4 sec) :: u32)" and ?cl = "of_le_bytes (slice 52 4 sec) :: u32"
  from assms have "rp_head st < log_end \<and> rp_head st' = rp_head st + of_nat ((record_len ?lc (unat ?cl) + SECTOR - 1) div SECTOR)
    \<and> (record_len ?lc (unat ?cl) + SECTOR - 1) div SECTOR \<noteq> 0 \<and> ?lc \<le> MAX_LINKS
    \<and> rp_head st + of_nat ((record_len ?lc (unat ?cl) + SECTOR - 1) div SECTOR) \<le> log_end"
    unfolding replay_step_def sec Let_def option.case
    by (simp only: split: if_splits prod.splits option.splits bool.splits) (auto simp: not_less not_le)
  then show ?thesis by blast
qed

lemma replay_step_moves:
  assumes "replay_step dev log_end st = (True, st')" and "unat log_end + 2 ^ 24 < 2 ^ 64"
  shows "unat (rp_head st) < unat (rp_head st') \<and> unat (rp_head st') \<le> unat log_end"
proof -
  obtain n lc cl where s: "rp_head st < log_end" "rp_head st' = rp_head st + of_nat n"
    "n = (record_len lc (unat (cl :: u32)) + SECTOR - 1) div SECTOR" "n \<noteq> 0" "lc \<le> MAX_LINKS" "rp_head st + of_nat n \<le> log_end"
    using replay_step_True [OF assms(1)] by blast
  have "unat cl < 2 ^ 32" using unsigned_less [of cl, where 'a = nat] by simp
  then have "record_len lc (unat cl) + SECTOR - 1 < 2 ^ 33"
    using s(5) by (simp add: record_len_def record_header_len_def HEADER_LEN_def LINK_LEN_def SECTOR_def MAX_LINKS_def)
  then have n: "n < 2 ^ 24" unfolding s(3) by (simp add: SECTOR_def less_mult_imp_div_less)
  have "unat (of_nat n :: u64) = n" using n by (simp add: unat_of_nat take_bit_nat_eq_self)
  moreover have "unat (rp_head st) < unat log_end" using s(1) by (simp add: word_less_nat_alt)
  ultimately have "unat (rp_head st') = unat (rp_head st) + n" using n assms(2) unfolding s(2) by (simp add: unat_word_ariths)
  then show ?thesis using s(4,6) by (simp add: s(2) word_le_nat_alt)
qed

lemma replay_loop_returns:
  assumes "unat log_end + 2 ^ 24 < 2 ^ 64"
  shows "\<exists>st'. replay_loop dev log_end st = Some st'"
proof (induction "unat log_end - unat (rp_head st)" arbitrary: st rule: less_induct)
  case less
  obtain go st1 where s: "replay_step dev log_end st = (go, st1)" by (metis prod.exhaust)
  show ?case
  proof (cases go)
    case True
    with s have "unat (rp_head st) < unat (rp_head st1) \<and> unat (rp_head st1) \<le> unat log_end"
      using replay_step_moves [of dev log_end st st1] assms by simp
    then have "unat log_end - unat (rp_head st1) < unat log_end - unat (rp_head st)" by linarith
    from less.hyps [OF this] show ?thesis using s True by (subst replay_loop.simps) simp
  next
    case False
    then show ?thesis using s by (subst replay_loop.simps) simp
  qed
qed

text \<open>
  (C28) Mounting terminates on every device, whatever its sectors hold and whichever reads fail: the
  scan of the log gets past at least one sector with every record it accepts. The only condition is
  that the log area the superblock announces ends more than 2^24 sectors below 2^64, so that
  addresses of sectors do not wrap.
\<close>

theorem mount_terminates:
  assumes "\<forall>sb. probe_superblocks dev sb_lba = Some (Some sb) \<longrightarrow>
    unat (sb_log_start sb) + unat (sb_log_sectors sb) + 2 ^ 24 < 2 ^ 64"
  shows "\<exists>dev' fs' outcome. mount dev sb_lba n fs = Some (dev', fs', outcome)"
proof (cases "probe_superblocks dev sb_lba")
  case None
  then show ?thesis by (simp add: mount_def)
next
  case (Some r)
  show ?thesis
  proof (cases r)
    case None
    with Some show ?thesis by (simp add: mount_def) (metis prod.exhaust)
  next
    case (Some sb)
    with \<open>probe_superblocks dev sb_lba = Some r\<close> assms
    have p: "probe_superblocks dev sb_lba = Some (Some sb)" and b: "unat (sb_log_start sb) + unat (sb_log_sectors sb) + 2 ^ 24 < 2 ^ 64" by simp_all
    then have "unat (sb_log_start sb + sb_log_sectors sb) + 2 ^ 24 < 2 ^ 64" by (simp add: unat_word_ariths)
    from replay_loop_returns [OF this] mount_replays [OF p] show ?thesis by blast
  qed
qed

text \<open>The formatted device with two records, so that the scan of the log runs.\<close>

theorem mount_terminates_witness:
  "\<exists>dev1 fs1 j' sb dev' fs' outcome. mount ram_dev 0 8 ram_fs = Some (dev1, fs1, Formatted)
     \<and> write_log (the (fs_journal fs1)) ram_ops = Some j'
     \<and> probe_superblocks (jr_dev j') 0 = Some (Some sb) \<and> sb_log_start sb = 2 \<and> sb_log_sectors sb = 8
     \<and> mount (jr_dev j') 0 8 ram_fs = Some (dev', fs', outcome)"
proof -
  obtain dev1 fs1 j' where f: "mount ram_dev 0 8 ram_fs = Some (dev1, fs1, Formatted)" "fs_journal fs1 = Some (open_journal dev1 2 8 2 1 False)"
    "write_log (open_journal dev1 2 8 2 1 False) ram_ops = Some j'" by (rule ram_journal)
  note D = journal_on_disk(3) [OF ram_dev_sectors f ram_facts(1-3)]
  have "\<forall>sb. probe_superblocks (jr_dev j') 0 = Some (Some sb) \<longrightarrow>
    unat (sb_log_start sb) + unat (sb_log_sectors sb) + 2 ^ 24 < 2 ^ 64" using D by simp
  from mount_terminates [OF this, of 8 ram_fs] f D show ?thesis by fastforce
qed

end
