(* ===== verification/Namespace_View.thy ===== *)
theory Namespace_View
  imports Namespace
begin

text \<open>
  The namespace as a graph: an abstract view of the registry in which an object is a directory (a
  map from names to identifiers) or a file (its bytes), what each operation of the theory
  \<open>Namespace\<close> does to that view, and the invariant all of them keep.
\<close>

section \<open>The abstract view and the invariant\<close>

datatype node = DirN "u8 list \<rightharpoonup> suid" | FileN "u8 list option"

abbreviation objs :: "'d fs \<Rightarrow> suid \<rightharpoonup> semantic_object" where
  "objs fs \<equiv> reg_map (fs_reg fs)"

definition dir_view :: "semantic_object \<Rightarrow> (u8 list \<times> suid) list" where
  "dir_view ob = (case and_then (dir_parse (bytes_of ob)) all_entries of Inr es \<Rightarrow> es | Inl _ \<Rightarrow> [])"

definition node_of :: "semantic_object \<Rightarrow> node" where
  "node_of ob = (if ob_content_type ob = Structured then DirN (map_of (dir_view ob))
                 else FileN (as_bytes (ob_content ob)))"

definition view :: "'d fs \<Rightarrow> suid \<rightharpoonup> node" where
  "view fs s = map_option node_of (objs fs s)"

text \<open>A directory holds a well-formed table: at most 64 entries with distinct, valid names.\<close>

definition dir_ok :: "semantic_object \<Rightarrow> bool" where
  "dir_ok ob \<longleftrightarrow> (ob_content_type ob = Structured \<longrightarrow> (\<exists>es. dir_wf es \<and> bytes_of ob = encode_dir es))"

definition fs_inv :: "nat \<Rightarrow> 'd fs \<Rightarrow> bool" where
  "fs_inv arena fs \<longleftrightarrow> mem_inv arena (fs_heap fs) (fs_reg fs) {} \<and> (\<forall>s ob. objs fs s = Some ob \<longrightarrow> dir_ok ob)"

lemma fs_inv_mem: "fs_inv arena fs \<Longrightarrow> mem_inv arena (fs_heap fs) (fs_reg fs) {}"
  by (simp add: fs_inv_def)

lemma fs_inv_dir_ok: "fs_inv arena fs \<Longrightarrow> objs fs s = Some ob \<Longrightarrow> dir_ok ob"
  by (simp add: fs_inv_def)

lemma fs_get: "fs_inv arena fs \<Longrightarrow> reg_get (fs_reg fs) s = objs fs s"
  by (simp add: fs_inv_def mem_inv_def reg_get_map)

lemma fs_inv_journal [simp]:
  "fs_inv arena (fs\<lparr>fs_journal := j\<rparr>) = fs_inv arena fs" "view (fs\<lparr>fs_journal := j\<rparr>) = view fs"
  by (simp_all add: fs_inv_def view_def fun_eq_iff)

lemma fs_inv_counter [simp]:
  "fs_inv arena (fs\<lparr>fs_counter := n\<rparr>) = fs_inv arena fs" "view (fs\<lparr>fs_counter := n\<rparr>) = view fs"
  by (simp_all add: fs_inv_def view_def fun_eq_iff)

lemma node_of_dir:
  assumes "ob_content_type ob = Structured" and "dir_wf es" and "bytes_of ob = encode_dir es"
  shows "node_of ob = DirN (map_of es)"
  using assms by (simp add: node_of_def dir_view_def dir_parse_encode all_entries_map)

lemma dir_length: "dir_wf es \<Longrightarrow> length (encode_dir es) \<le> DIR_CONTENT_MAX"
  using length_encode_dir [of es] by (simp add: dir_wf_def MAX_DIR_ENTRIES_def DIR_CONTENT_MAX_def)

lemma encode_dir_ne [simp]: "encode_dir es \<noteq> []"
  by (simp add: encode_dir_def)

text \<open>The cases of an object that an operation looks up.\<close>

lemma node_cases:
  assumes inv: "fs_inv arena fs"
  obtains (none) "objs fs s = None" "view fs s = None"
    | (plain) ob where "objs fs s = Some ob" "ob_content_type ob \<noteq> Structured" "view fs s = Some (FileN (as_bytes (ob_content ob)))"
    | (dir) ob es where "objs fs s = Some ob" "ob_content_type ob = Structured" "dir_wf es" "bytes_of ob = encode_dir es"
        "view fs s = Some (DirN (map_of es))"
proof (cases "objs fs s")
  case None
  then show ?thesis using none by (simp add: view_def)
next
  case (Some ob)
  show ?thesis
  proof (cases "ob_content_type ob = Structured")
    case True
    then obtain es where "dir_wf es" "bytes_of ob = encode_dir es"
      using fs_inv_dir_ok [OF inv Some] by (auto simp: dir_ok_def)
    then show ?thesis using dir Some True by (simp add: view_def node_of_dir)
  next
    case False
    then show ?thesis using plain Some by (simp add: view_def node_of_def)
  qed
qed

section \<open>Looking up\<close>

fun view_lookup :: "(suid \<rightharpoonup> node) \<Rightarrow> suid \<Rightarrow> u8 list \<Rightarrow> fs_error + suid" where
  "view_lookup v p n =
     (case v p of
        None \<Rightarrow> Err NotFound
      | Some (FileN _) \<Rightarrow> Err NotADirectory
      | Some (DirN d) \<Rightarrow> (case d n of None \<Rightarrow> Err NotFound | Some c \<Rightarrow> Ok c))"

declare view_lookup.simps [simp del]

lemma lookup_in_dir_view:
  assumes "fs_inv arena fs"
  shows "lookup_in_dir fs p n = view_lookup (view fs) p n"
  using assms
proof (cases rule: node_cases [where s = p])
  case (dir ob es)
  then have "and_then (dir_parse (bytes_of ob)) (find_entry n) = Ok (map_of es n)"
    by (simp add: dir_parse_encode find_entry_map_of)
  then show ?thesis using dir fs_get [OF assms]
    by (auto simp: lookup_in_dir_def view_lookup.simps split: option.splits)
qed (simp_all add: lookup_in_dir_def view_lookup.simps fs_get [OF assms])

definition view_resolve :: "(suid \<rightharpoonup> node) \<Rightarrow> u8 list \<Rightarrow> fs_error + suid" where
  "view_resolve v path = for_each_component path (view_lookup v) ROOT_SUID"

lemma resolve_view:
  assumes "fs_inv arena fs"
  shows "resolve fs path = view_resolve (view fs) path"
proof -
  have "lookup_in_dir fs = view_lookup (view fs)" by (intro ext) (rule lookup_in_dir_view [OF assms])
  then show ?thesis by (simp add: resolve_def view_resolve_def)
qed

text \<open>A lookup that succeeds keeps its answer when entries and objects are only added.\<close>

definition view_le :: "(suid \<rightharpoonup> node) \<Rightarrow> (suid \<rightharpoonup> node) \<Rightarrow> bool" where
  "view_le v w \<longleftrightarrow> (\<forall>p n c. view_lookup v p n = Ok c \<longrightarrow> view_lookup w p n = Ok c)"

lemma visit_mono:
  assumes "\<And>st c st'. f st c = Ok st' \<Longrightarrow> g st c = Ok st'"
  shows "visit_components f d st cs = Ok r \<Longrightarrow> visit_components g d st cs = Ok r"
  using assms by (induction cs arbitrary: d st) (auto split: if_splits sum.splits)

lemma view_resolve_mono:
  assumes "view_le v w" and "view_resolve v path = Ok s"
  shows "view_resolve w path = Ok s"
proof -
  have "visit_components (view_lookup v) d st cs = Ok r \<Longrightarrow> visit_components (view_lookup w) d st cs = Ok r" for d st cs r
    by (rule visit_mono [of "view_lookup v"]) (use assms(1) in \<open>auto simp: view_le_def\<close>)
  then show ?thesis using assms(2)
    by (auto simp: view_resolve_def for_each_component_def split: if_splits list.splits)
qed

lemma view_le_fresh: "v s = None \<Longrightarrow> view_le v (v(s \<mapsto> x))"
  by (auto simp: view_le_def view_lookup.simps)

lemma view_le_entry: "v p = Some (DirN d) \<Longrightarrow> d n = None \<Longrightarrow> view_le v (v(p \<mapsto> DirN (d(n \<mapsto> s))))"
  by (auto simp: view_le_def view_lookup.simps split: option.splits node.splits)

lemma view_le_file: "v s = Some (FileN x) \<Longrightarrow> view_le v (v(s \<mapsto> FileN y))"
  by (auto simp: view_le_def view_lookup.simps split: option.splits node.splits)

lemma view_le_trans: "view_le u v \<Longrightarrow> view_le v w \<Longrightarrow> view_le u w"
  by (auto simp: view_le_def)

section \<open>Effects of the helpers\<close>

lemma view_upd: "objs fs' = (objs fs)(s := x) \<Longrightarrow> view fs' = (view fs)(s := map_option node_of x)"
  by (auto simp: view_def fun_eq_iff)

lemma view_same: "objs fs' = objs fs \<Longrightarrow> view fs' = view fs"
  by (simp add: view_def fun_eq_iff)

lemma fs_inv_upd:
  assumes "fs_inv arena fs" and "mem_inv arena (fs_heap fs') (fs_reg fs') {}"
    and "objs fs' = (objs fs)(s := x)" and "\<And>ob. x = Some ob \<Longrightarrow> dir_ok ob"
  shows "fs_inv arena fs'"
  using assms by (auto simp: fs_inv_def)

lemma install_content_effect:
  assumes mem: "mem_inv arena (fs_heap fs) (fs_reg fs) (owned_blocks c)" and wf: "content_wf c"
    and ob: "objs fs s = Some ob"
  shows "mem_inv arena (fs_heap (install_content fs s c)) (fs_reg (install_content fs s c)) {}"
    and "objs (install_content fs s c) = (objs fs)(s \<mapsto> ob\<lparr>ob_content := c\<rparr>)"
proof -
  note I = mem_install [OF mem wf ob]
  have "reg_get (fs_reg fs) s = Some ob" using ob reg_get_map [OF mem_inv_reg [OF mem]] by simp
  then have e: "install_content fs s c = fs\<lparr>fs_heap := drop_heap (fs_heap fs) (ob_content ob),
      fs_reg := reg_update (fs_reg fs) s (\<lambda>ob. ob\<lparr>ob_content := c\<rparr>)\<rparr>"
    by (simp add: install_content_def)
  have "content_wf (ob_content ob)" using mem_inv_ob [OF mem ob] by (rule ob_wf_content_wf)
  from mem_drop(2) [OF I(1) this] show "mem_inv arena (fs_heap (install_content fs s c)) (fs_reg (install_content fs s c)) {}"
    by (simp add: e)
  show "objs (install_content fs s c) = (objs fs)(s \<mapsto> ob\<lparr>ob_content := c\<rparr>)" using I(2) by (simp add: e)
qed

lemma bytes_of_content: "as_bytes c = Some d \<Longrightarrow> bytes_of (ob\<lparr>ob_content := c\<rparr>) = d"
  by (simp add: bytes_of_def)

lemma assign_content_cases:
  assumes inv: "fs_inv arena fs" and ob: "objs fs s = Some ob"
    and dir: "ob_content_type ob = Structured \<longrightarrow> (\<exists>es. dir_wf es \<and> d = encode_dir es)"
  obtains (failed) "assign_content fs s d err = (fs, Err err)" "length d > 256"
    | (updated) fs' c where "assign_content fs s d err = (fs', Ok ())" "fs_inv arena fs'" "as_bytes c = Some d"
        "objs fs' = (objs fs)(s \<mapsto> ob\<lparr>ob_content := c\<rparr>)" "fs_journal fs' = fs_journal fs"
proof -
  obtain h c where r: "content_from_bytes (fs_heap fs) d = (h, c)" by (metis prod.exhaust)
  note M = mem_from_bytes [OF fs_inv_mem [OF inv] r]
  show ?thesis
  proof (cases c)
    case None
    moreover have "length d > 256" using r None
      by (auto simp: content_from_bytes_def from_inline_def split: if_splits)
    ultimately show ?thesis using failed r M(2) by (simp add: assign_content_def)
  next
    case (Some x)
    then have c: "as_bytes x = Some d" "content_wf x"
      using content_from_bytes_Some [of "fs_heap fs" d h x] r by simp_all
    define fs1 where "fs1 = fs\<lparr>fs_heap := h\<rparr>"
    have o: "objs fs1 s = Some ob" "objs fs1 = objs fs" using ob by (simp_all add: fs1_def)
    have "mem_inv arena (fs_heap fs1) (fs_reg fs1) (owned_blocks x)" using M(1) Some by (simp add: fs1_def)
    note E = install_content_effect [OF this c(2) o(1)]
    have "fs_inv arena (install_content fs1 s x)"
    proof (rule fs_inv_upd [OF inv E(1)])
      show "objs (install_content fs1 s x) = (objs fs)(s \<mapsto> ob\<lparr>ob_content := x\<rparr>)" using E(2) o(2) by simp
      show "dir_ok q" if "Some (ob\<lparr>ob_content := x\<rparr>) = Some q" for q
        using that dir c(1) by (auto simp: dir_ok_def bytes_of_def)
    qed
    then show ?thesis using updated r Some c(1) E(2) o(2)
      by (simp add: assign_content_def fs1_def install_content_def)
  qed
qed

lemma node_of_content:
  "as_bytes c = Some d \<Longrightarrow> node_of (ob\<lparr>ob_content := c\<rparr>) =
    (if ob_content_type ob = Structured
     then DirN (map_of (case and_then (dir_parse d) all_entries of Inr es \<Rightarrow> es | Inl _ \<Rightarrow> [])) else FileN (Some d))"
  by (simp add: node_of_def dir_view_def bytes_of_def)

lemma node_of_new_dir:
  "as_bytes c = Some (encode_dir es) \<Longrightarrow> dir_wf es \<Longrightarrow> ob_content_type ob = Structured
    \<Longrightarrow> node_of (ob\<lparr>ob_content := c\<rparr>) = DirN (map_of es)"
  by (rule node_of_dir) (simp_all add: bytes_of_def)

text \<open>Rewriting a directory: an error leaves every object as it is.\<close>

lemma rewrite_dir_cases:
  assumes inv: "fs_inv arena fs" and ob: "objs fs p = Some ob" "ob_content_type ob = Structured" and wf: "dir_wf es"
  obtains (failed) fs' e where "rewrite_dir fs p (encode_dir es) err = (fs', Err e)" "fs_inv arena fs'" "view fs' = view fs"
    | (updated) fs' where "rewrite_dir fs p (encode_dir es) err = (fs', Ok ())" "fs_inv arena fs'"
        "view fs' = (view fs)(p \<mapsto> DirN (map_of es))"
proof -
  let ?d = "encode_dir es"
  obtain j ok where u: "on_update (fs_journal fs) ob ?d = (j, ok)" by (metis prod.exhaust)
  show ?thesis
  proof (cases ok)
    case False
    then show ?thesis using failed [of "fs\<lparr>fs_journal := j\<rparr>" IoError] u ob inv
      by (simp add: rewrite_dir_def fs_get [OF inv])
  next
    case True
    define fs1 where "fs1 = fs\<lparr>fs_journal := j\<rparr>"
    have i: "fs_inv arena fs1" "objs fs1 p = Some ob" "view fs1 = view fs" "objs fs1 = objs fs" using inv ob by (simp_all add: fs1_def)
    have r: "rewrite_dir fs p ?d err = assign_content fs1 p ?d err"
      using u True ob by (simp add: rewrite_dir_def fs_get [OF inv] fs1_def)
    have "ob_content_type ob = Structured \<longrightarrow> (\<exists>es'. dir_wf es' \<and> ?d = encode_dir es')" using wf by blast
    with i(1,2) show ?thesis
    proof (cases rule: assign_content_cases [where s = p and d = ?d and err = err])
      case (updated fs' c)
      have "view fs' = (view fs1)(p \<mapsto> node_of (ob\<lparr>ob_content := c\<rparr>))"
        using view_upd [OF updated(4)] by simp
      then show ?thesis using that(2) [of fs'] updated r i(3) node_of_new_dir [OF updated(3) wf ob(2)] by simp
    qed (use failed [of fs1] r i in auto)
  qed
qed

lemma map_of_snoc: "n \<notin> fst ` set es \<Longrightarrow> map_of (es @ [(n, s)]) = (map_of es)(n \<mapsto> s)"
  by (induction es) (auto simp: fun_eq_iff)

lemma add_child_cases:
  assumes inv: "fs_inv arena fs" and n: "name_ok n"
  obtains (failed) fs' e where "add_child fs p n s = (fs', Err e)" "fs_inv arena fs'" "view fs' = view fs"
    | (updated) fs' d where "add_child fs p n s = (fs', Ok ())" "fs_inv arena fs'" "view fs p = Some (DirN d)" "d n = None"
        "view fs' = (view fs)(p \<mapsto> DirN (d(n \<mapsto> s)))"
  using inv
proof (cases rule: node_cases [where s = p])
  case (dir ob es)
  note I = insert_dir_entry_encode [OF dir(3) n, of s]
  show ?thesis
  proof (cases "length es = MAX_DIR_ENTRIES \<or> n \<in> fst ` set es")
    case True
    then obtain e where "insert_dir_entry (encode_dir es) n s DIR_CONTENT_MAX = Err e" using I by (meson that)
    then show ?thesis using that(1) [of fs e] dir inv dir_length [OF dir(3)]
      by (simp add: add_child_def fs_get [OF inv])
  next
    case False
    let ?es = "es @ [(n, s)]"
    have wf: "dir_wf ?es" using dir_wf_insert dir(3) n False by blast
    have a: "add_child fs p n s = rewrite_dir fs p (encode_dir ?es) DirectoryFull"
      using I dir False dir_length [OF dir(3)] by (simp add: add_child_def fs_get [OF inv])
    have snoc: "map_of ?es = (map_of es)(n \<mapsto> s)" by (rule map_of_snoc) (use False in blast)
    have d: "map_of es n = None" using False by (simp add: map_of_eq_None_iff)
    show ?thesis
      using inv dir(1,2) wf
    proof (cases rule: rewrite_dir_cases [where p = p and err = DirectoryFull])
      case (failed fs' e)
      then show ?thesis using that(1) a by simp
    next
      case (updated fs')
      have "view fs' = (view fs)(p \<mapsto> DirN ((map_of es)(n \<mapsto> s)))" using updated(3) unfolding snoc .
      then show ?thesis using that(2) [of fs' "map_of es"] a updated(1,2) dir(5) d by simp
    qed
  qed
qed (use that(1) [of fs] inv in \<open>auto simp: add_child_def fs_get [OF inv]\<close>)

lemma remove_child_cases:
  assumes inv: "fs_inv arena fs"
  obtains (failed) fs' e where "remove_child fs p n = (fs', Err e)" "fs_inv arena fs'" "view fs' = view fs"
    | (updated) fs' d c where "remove_child fs p n = (fs', Ok c)" "fs_inv arena fs'" "view fs p = Some (DirN d)" "d n = Some c"
        "view fs' = (view fs)(p \<mapsto> DirN (d(n := None)))"
  using inv
proof (cases rule: node_cases [where s = p])
  case (dir ob es)
  note I = remove_dir_entry_encode [OF dir(3), of n]
  show ?thesis
  proof (cases "position (\<lambda>x. fst x = n) es")
    case None
    then show ?thesis using that(1) [of fs] I dir inv dir_length [OF dir(3)]
      by (auto simp: remove_child_def fs_get [OF inv])
  next
    case (Some i)
    let ?es = "take i es @ drop (Suc i) es"
    have wf: "dir_wf ?es" using dir_wf_remove dir(3) by blast
    have dist: "distinct (map fst es)" using dir(3) by (simp add: dir_wf_def)
    note m = map_of_remove [OF dist Some]
    have a: "remove_child fs p n = (case rewrite_dir fs p (encode_dir ?es) Corrupt of
                       (fs', Inl e) \<Rightarrow> (fs', Err e)
                     | (fs', Inr _) \<Rightarrow> (fs', Ok (snd (es ! i))))"
      using I dir Some dir_length [OF dir(3)] by (simp add: remove_child_def fs_get [OF inv])
    show ?thesis
      using inv dir(1,2) wf
    proof (cases rule: rewrite_dir_cases [where p = p and err = Corrupt])
      case (failed fs' e)
      then show ?thesis using that(1) a by simp
    next
      case (updated fs')
      then show ?thesis using that(2) [of fs' _ "map_of es"] a dir(5) m by simp
    qed
  qed
qed (use that(1) [of fs] inv in \<open>auto simp: remove_child_def fs_get [OF inv]\<close>)

lemma insert_object_cases:
  assumes mem: "mem_inv arena (fs_heap fs) (fs_reg fs) (owned_blocks (ob_content ob))"
    and dirs: "\<forall>s q. objs fs s = Some q \<longrightarrow> dir_ok q" and ob: "ob_wf ob" "dir_ok ob"
  obtains (failed) fs' where "insert_object fs ob = (fs', False)" "fs_inv arena fs'" "view fs' = view fs"
    | (updated) fs' where "insert_object fs ob = (fs', True)" "fs_inv arena fs'" "view fs (ob_suid ob) = None"
        "view fs' = (view fs)(ob_suid ob \<mapsto> node_of ob)"
proof -
  obtain j r ok where i: "reg_insert (fs_journal fs) (fs_reg fs) ob = (j, r, ok)" by (metis prod_cases3)
  note E = reg_insert_effect [OF mem_inv_reg [OF mem] i]
  show ?thesis
  proof (cases ok)
    case True
    define fs' where "fs' = fs\<lparr>fs_journal := j, fs_reg := r\<rparr>"
    have m: "objs fs (ob_suid ob) = None" "objs fs' = (objs fs)(ob_suid ob \<mapsto> ob)" using E(2) True by (simp_all add: fs'_def)
    have "mem_inv arena (fs_heap fs') (fs_reg fs') {}"
      using mem_insert [OF mem ob(1) E(1)] m by (simp add: fs'_def)
    then have "fs_inv arena fs'" using dirs ob(2) m(2) by (auto simp: fs_inv_def)
    then show ?thesis using updated [of fs'] i True m view_upd [OF m(2)]
      by (simp add: insert_object_def fs'_def view_def)
  next
    case False
    define fs' where "fs' = fs\<lparr>fs_journal := j, fs_reg := r, fs_heap := drop_heap (fs_heap fs) (ob_content ob)\<rparr>"
    have r: "r = fs_reg fs" using E(3) False by simp
    have "mem_inv arena (fs_heap fs') (fs_reg fs') {}"
      using mem_drop(2) [OF mem ob_wf_content_wf [OF ob(1)]] by (simp add: fs'_def r)
    then have "fs_inv arena fs'" using dirs by (auto simp: fs_inv_def fs'_def r)
    then show ?thesis using failed [of fs'] i False view_same [of fs' fs]
      by (simp add: insert_object_def fs'_def r)
  qed
qed

lemma remove_object_cases:
  assumes inv: "fs_inv arena fs"
  obtains (failed) "fs_inv arena (remove_object fs s)" "view (remove_object fs s) = view fs"
      "view fs s = None \<or> snd (on_remove (fs_journal fs) s) = False"
    | (updated) "fs_inv arena (remove_object fs s)" "view (remove_object fs s) = (view fs)(s := None)"
      "snd (on_remove (fs_journal fs) s)"
proof -
  note mem = fs_inv_mem [OF inv]
  obtain j r x where i: "reg_remove (fs_journal fs) (fs_reg fs) s = (j, r, x)" by (metis prod_cases3)
  note E = reg_remove_effect [OF mem_inv_reg [OF mem] i]
  show ?thesis
  proof (cases x)
    case None
    then have "remove_object fs s = fs\<lparr>fs_journal := j, fs_reg := fs_reg fs\<rparr>"
      using i E(3) by (simp add: remove_object_def)
    then show ?thesis using failed inv E(3) None by (auto simp: view_def)
  next
    case (Some ob)
    define fs' where "fs' = fs\<lparr>fs_journal := j, fs_reg := r, fs_heap := drop_heap (fs_heap fs) (ob_content ob)\<rparr>"
    have f: "remove_object fs s = fs'" using i Some by (simp add: remove_object_def fs'_def)
    have m: "objs fs s = Some ob" "objs fs' = (objs fs)(s := None)" using E(2) Some by (simp_all add: fs'_def)
    have "content_wf (ob_content ob)" using mem_inv_ob [OF mem m(1)] by (rule ob_wf_content_wf)
    then have "mem_inv arena (fs_heap fs') (fs_reg fs') {}"
      using mem_drop(2) mem_remove [OF mem m(1) E(1)] m(2) by (simp add: fs'_def)
    then have "fs_inv arena fs'" using inv m(2) by (auto simp: fs_inv_def)
    then show ?thesis using updated f view_upd [OF m(2)] E(2) Some by simp
  qed
qed

lemma set_modified_effect:
  assumes inv: "fs_inv arena fs"
  shows "fs_inv arena (set_modified fs s now)" and "view (set_modified fs s now) = view fs"
proof -
  let ?f = "\<lambda>ob. ob\<lparr>ob_modified_at := now\<rparr>" and ?fs = "set_modified fs s now"
  note E = reg_update_effect [OF mem_inv_reg [OF fs_inv_mem [OF inv]], of ?f s]
  have m: "objs ?fs t = (if t = s then map_option ?f (objs fs s) else objs fs t)" for t
    using E(2) by (auto simp: set_modified_def split: option.splits)
  have c: "objs ?fs t = Some q \<Longrightarrow> \<exists>q'. objs fs t = Some q' \<and> ob_content q = ob_content q'
      \<and> ob_content_type q = ob_content_type q'" for t q
    by (auto simp: m split: if_splits)
  have "mem_inv arena (fs_heap ?fs) (fs_reg ?fs) {}"
    using mem_touch [OF fs_inv_mem [OF inv], of ?f s] by (simp add: set_modified_def ob_wf_def get_links_def)
  moreover have "dir_ok q" if "objs ?fs t = Some q" for t q
    using c [OF that] fs_inv_dir_ok [OF inv] by (auto simp: dir_ok_def bytes_of_def)
  ultimately show "fs_inv arena ?fs" by (simp add: fs_inv_def)
  have "node_of (?f q) = node_of q" for q by (simp add: node_of_def dir_view_def bytes_of_def)
  then show "view ?fs = view fs" by (auto simp: view_def m fun_eq_iff option.map_comp o_def)
qed

end
