(* ===== verification/Namespace_Ops.thy ===== *)
theory Namespace_Ops
  imports Namespace_View
begin

text \<open>
  What the public operations of the namespace do to the abstract view of the theory
  \<open>Namespace_View\<close>: creation, writing, removal, renaming and truncation, on every branch, and the
  invariant of every namespace that the operations can build.
\<close>

section \<open>Resolving a path through its parent\<close>

definition plain_path :: "u8 list \<Rightarrow> bool" where
  "plain_path path \<longleftrightarrow> length (path_components path) \<le> MAX_PATH_DEPTH \<and> take 2 path \<noteq> [SLASH, SLASH]"

lemma view_resolve_snoc:
  assumes sp: "split_parent path = Ok (parent, name)" and pl: "plain_path path"
  shows "view_resolve v path = and_then (view_resolve v parent) (\<lambda>p. view_lookup v p name)"
proof -
  obtain pre where pre: "path = pre @ SLASH # name" "name \<noteq> []" "length name \<le> MAX_COMPONENT_LEN" "path_ok path" "path_ok parent"
    using split_parent_Ok [OF sp] .
  have "path \<noteq> SLASH # SLASH # name" using pl by (auto simp: plain_path_def)
  note c = split_parent_components [OF sp this]
  have l: "length (path_components parent) < MAX_PATH_DEPTH" using pl c by (simp add: plain_path_def)
  have "visit_components (view_lookup v) (length (path_components parent)) p [name] = view_lookup v p name" for p
    using pre(2,3) l by (simp split: sum.splits)
  then show ?thesis
    unfolding view_resolve_def for_each_component_eq [OF pre(4)] for_each_component_eq [OF pre(5)] c visit_components_append
    by simp
qed

lemma resolve_mono:
  assumes "fs_inv arena fs" "fs_inv arena fs'" "view_le (view fs) (view fs')" "resolve fs path = Ok s"
  shows "resolve fs' path = Ok s"
  using assms view_resolve_mono by (simp add: resolve_view)

lemma mint_suid_effect:
  assumes "mint_suid fs env = (fs', s)" and "fs_inv arena fs"
  shows "fs_inv arena fs'" and "view fs' = view fs" and "fs_heap fs' = fs_heap fs" and "fs_reg fs' = fs_reg fs"
  using assms by (auto simp: mint_suid_def Let_def split: option.splits)

section \<open>Creating files and directories\<close>

lemma insert_and_link_cases:
  assumes mem: "mem_inv arena (fs_heap fs) (fs_reg fs) (owned_blocks (ob_content ob))"
    and dirs: "\<forall>s q. objs fs s = Some q \<longrightarrow> dir_ok q" and ob: "ob_wf ob" "dir_ok ob" and n: "name_ok n"
  defines "v \<equiv> (view fs)(ob_suid ob \<mapsto> node_of ob)"
  obtains (failed) fs' e where "insert_and_link fs p n ob = (fs', Err e)" "fs_inv arena fs'" "view fs' = view fs"
    | (orphan) fs' e where "insert_and_link fs p n ob = (fs', Err e)" "fs_inv arena fs'"
        "view fs (ob_suid ob) = None" "view fs' = v"
    | (linked) fs' d where "insert_and_link fs p n ob = (fs', Ok (ob_suid ob))" "fs_inv arena fs'"
        "view fs (ob_suid ob) = None" "v p = Some (DirN d)" "d n = None" "view fs' = v(p \<mapsto> DirN (d(n \<mapsto> ob_suid ob)))"
  using mem dirs ob
proof (cases rule: insert_object_cases)
  case (failed fs')
  then show ?thesis using that(1) by (simp add: insert_and_link_def)
next
  case (updated fs1)
  note u = this
  show ?thesis
    using u(2) n
  proof (cases rule: add_child_cases [where p = p and s = "ob_suid ob"])
    case (failed fs' e)
    then show ?thesis using that(2) u by (simp add: insert_and_link_def v_def)
  next
    case (updated fs' d)
    then show ?thesis using that(3) u by (simp add: insert_and_link_def v_def)
  qed
qed

text \<open>The view after a successful creation extends the view before it, and the path leads to the new object.\<close>

lemma created_view:
  assumes inv: "fs_inv arena fs" "fs_inv arena fs'" and new: "view fs s = None"
    and v: "v = (view fs)(s \<mapsto> x)" "v p = Some (DirN d)" "d n = None" "view fs' = v(p \<mapsto> DirN (d(n \<mapsto> s)))"
    and path: "split_parent path = Ok (parent, n)" "resolve fs parent = Ok p"
  shows "view_le (view fs) (view fs')" and "plain_path path \<Longrightarrow> resolve fs' path = Ok s"
proof -
  have "view_le (view fs) v" using view_le_fresh [where v = "view fs", OF new] v(1) by simp
  moreover have "view_le v (view fs')" using view_le_entry [where v = v and d = d and n = n and p = p, OF v(2,3)] v(4) by simp
  ultimately show le: "view_le (view fs) (view fs')" by (rule view_le_trans)
  have p: "view_resolve (view fs') parent = Ok p"
    using resolve_mono [OF inv le path(2)] resolve_view [OF inv(2)] by simp
  show "resolve fs' path = Ok s" if "plain_path path"
    unfolding resolve_view [OF inv(2)] view_resolve_snoc [OF path(1) that] p
    by (simp add: v(4) view_lookup.simps)
qed

text \<open>The cases of \<^verbatim>\<open>create_file\<close> and \<^verbatim>\<open>mkdir\<close>.\<close>

definition created ::
  "nat \<Rightarrow> 'd fs \<Rightarrow> u8 list \<Rightarrow> node \<Rightarrow> 'd fs \<Rightarrow> fs_error + suid \<Rightarrow> bool" where
  "created arena fs path x fs' r \<longleftrightarrow> fs_inv arena fs' \<and>
     (case r of
        Inr s \<Rightarrow> view fs s = None
          \<and> (\<exists>parent name p d. split_parent path = Ok (parent, name) \<and> resolve fs parent = Ok p
               \<and> ((view fs)(s \<mapsto> x)) p = Some (DirN d) \<and> d name = None
               \<and> view fs' = (view fs)(s \<mapsto> x, p \<mapsto> DirN (d(name \<mapsto> s))))
      | Inl e \<Rightarrow> view fs' = view fs \<or> (\<exists>s. view fs s = None \<and> view fs' = (view fs)(s \<mapsto> x)))"

lemma createdI:
  assumes mem: "mem_inv arena (fs_heap fs1) (fs_reg fs1) (owned_blocks (ob_content ob))"
    and fs1: "fs_inv arena fs" "objs fs1 = objs fs" and ob: "ob_wf ob" "dir_ok ob"
    and path: "split_parent path = Ok (parent, n)" "name_ok n" "resolve fs parent = Ok p"
    and r: "insert_and_link fs1 p n ob = (fs', r)"
  shows "created arena fs path (node_of ob) fs' r"
proof -
  have d: "\<forall>s q. objs fs1 s = Some q \<longrightarrow> dir_ok q" using fs1 by (simp add: fs_inv_def)
  have "view fs1 = view fs" using fs1(2) by (rule view_same)
  show ?thesis using mem d ob path(2)
  proof (cases rule: insert_and_link_cases [where p = p])
    case (orphan fs'' e)
    then show ?thesis using r \<open>view fs1 = view fs\<close> by (auto simp: created_def)
  next
    case (linked fs'' d)
    then show ?thesis using r \<open>view fs1 = view fs\<close> path by (auto simp: created_def)
  qed (use r \<open>view fs1 = view fs\<close> in \<open>auto simp: created_def\<close>)
qed

lemma created_same: "fs_inv arena fs' \<Longrightarrow> view fs' = view fs \<Longrightarrow> created arena fs path x fs' (Err e)"
  by (simp add: created_def)

lemma create_file_created:
  assumes inv: "fs_inv arena fs" and u: "utf8_valid path" and r: "create_file fs env path t content = (fs', r)"
  shows "created arena fs path (FileN (Some content)) fs' r"
proof (cases "split_parent path")
  case (Inl e)
  then show ?thesis using r inv by (auto simp: created_same create_file_def)
next
  case (Inr pn)
  then obtain parent n where sp: "split_parent path = Ok (parent, n)" by (cases pn) simp
  have n: "name_ok n" using split_parent_name_ok [OF sp u] by simp
  show ?thesis
  proof (cases "resolve fs parent")
    case (Inl e)
    then have "r = Err e" "fs' = fs" using r sp by (simp_all add: create_file_def)
    then show ?thesis using inv by (simp add: created_same)
  next
    case (Inr p)
    obtain fs0 s where m: "mint_suid fs env = (fs0, s)" by (metis prod.exhaust)
    note M = mint_suid_effect [OF m inv]
    obtain h c where b: "content_from_bytes (fs_heap fs0) content = (h, c)" by (metis prod.exhaust)
    note B = mem_from_bytes [OF fs_inv_mem [OF M(1)] b]
    show ?thesis
    proof (cases c)
      case None
      then have "fs' = fs0\<lparr>fs_heap := fs_heap fs0\<rparr>" "r = Err ContentTooLarge" using r sp Inr m b B(2) by (auto simp: create_file_def)
      then have "fs' = fs0" by simp
      then show ?thesis using \<open>r = _\<close> M by (simp add: created_same)
    next
      case (Some x)
      define ob where "ob = (ob_new s t 0)\<lparr>ob_content_type := Binary, ob_created_at := now_or_0 env,
                            ob_modified_at := now_or_0 env, ob_content := x\<rparr>"
      have x: "as_bytes x = Some content" "content_wf x" using content_from_bytes_Some b Some by blast+
      have ob: "ob_wf ob" "dir_ok ob" "node_of ob = FileN (Some content)" "ob_content ob = x" "ob_suid ob = s"
        using ob_wf_new(1) [of s t 0] x by (simp_all add: ob_def ob_wf_def get_links_def dir_ok_def node_of_def ob_new_def)
      have "mem_inv arena (fs_heap (fs0\<lparr>fs_heap := h\<rparr>)) (fs_reg (fs0\<lparr>fs_heap := h\<rparr>)) (owned_blocks (ob_content ob))"
        using B(1) Some ob by simp
      from createdI [OF this inv _ ob(1,2) sp n Inr] show ?thesis
        using r sp Inr m b Some M(4) ob(3) by (simp add: create_file_def ob_def Let_def)
    qed
  qed
qed

lemma mkdir_created:
  assumes inv: "fs_inv arena fs" and u: "utf8_valid path" and r: "mkdir fs env path = (fs', r)"
  shows "created arena fs path (DirN Map.empty) fs' r"
proof (cases "split_parent path")
  case (Inl e)
  then show ?thesis using r inv by (auto simp: created_same mkdir_def)
next
  case (Inr pn)
  then obtain parent n where sp: "split_parent path = Ok (parent, n)" by (cases pn) simp
  have n: "name_ok n" using split_parent_name_ok [OF sp u] by simp
  show ?thesis
  proof (cases "resolve fs parent")
    case (Inl e)
    then have "r = Err e" "fs' = fs" using r sp by (simp_all add: mkdir_def)
    then show ?thesis using inv by (simp add: created_same)
  next
    case (Inr p)
    obtain fs0 s where m: "mint_suid fs env = (fs0, s)" by (metis prod.exhaust)
    note M = mint_suid_effect [OF m inv]
    obtain c where c: "from_inline [0] = Some c" by (cases "from_inline [0]") (simp_all add: from_inline_None_iff)
    define ob where "ob = (ob_new s Public 0)\<lparr>ob_content_type := Structured, ob_created_at := now_or_0 env,
                            ob_modified_at := now_or_0 env, ob_content := c\<rparr>"
    have x: "as_bytes c = Some [0]" "content_wf c" "owned_blocks c = {}" using from_inline_bytes [OF c] by simp_all
    have w: "dir_wf []" "bytes_of ob = encode_dir []" using x(1) by (simp_all add: dir_wf_def ob_def bytes_of_def)
    have ob: "ob_wf ob" "dir_ok ob" "ob_content ob = c" "ob_content_type ob = Structured"
      using ob_wf_new(1) [of s Public 0] x w by (auto simp: ob_def ob_wf_def get_links_def dir_ok_def ob_new_def)
    have d: "node_of ob = DirN Map.empty" using node_of_dir [OF ob(4) w] by simp
    have "mem_inv arena (fs_heap fs0) (fs_reg fs0) (owned_blocks (ob_content ob))"
      using fs_inv_mem [OF M(1)] ob x by simp
    from createdI [OF this inv _ ob(1,2) sp n Inr] show ?thesis
      using r sp Inr m c M(4) d by (simp add: mkdir_def ob_def Let_def)
  qed
qed

section \<open>Writing and truncating\<close>

text \<open>An operation that replaces the bytes of the file at a path, or fails without an effect.\<close>

definition rewritten :: "nat \<Rightarrow> 'd fs \<Rightarrow> u8 list \<Rightarrow> (u8 list \<Rightarrow> u8 list) \<Rightarrow> 'd fs \<Rightarrow> fs_error + unit \<Rightarrow> bool" where
  "rewritten arena fs path f fs' r \<longleftrightarrow> fs_inv arena fs' \<and>
     (case r of
        Inr _ \<Rightarrow> (\<exists>s b. resolve fs path = Ok s \<and> view fs s = Some (FileN b)
                    \<and> view fs' = (view fs)(s \<mapsto> FileN (Some (f (case b of Some x \<Rightarrow> x | None \<Rightarrow> [])))))
      | Inl _ \<Rightarrow> view fs' = view fs)"

lemma rewritten_same: "fs_inv arena fs' \<Longrightarrow> view fs' = view fs \<Longrightarrow> rewritten arena fs path f fs' (Err e)"
  by (simp add: rewritten_def)

lemma read_view:
  assumes inv: "fs_inv arena fs" and "resolve fs path = Ok s" and "view fs s = Some (FileN b)"
  shows "read_file_into fs path k = (case b of Some x \<Rightarrow> Ok (take k x) | None \<Rightarrow> Err Corrupt)"
  using inv
proof (cases rule: node_cases [where s = s])
  case (plain ob)
  then show ?thesis using assms by (auto simp: read_file_into_def fs_get [OF inv] min_def split: option.splits)
qed (use assms in auto)

lemma readdir_view:
  assumes inv: "fs_inv arena fs" and "resolve fs path = Ok s" and "view fs s = Some (DirN d)"
  obtains es where "readdir fs path = Ok es" "map_of es = d" "distinct (map fst es)"
  using inv
proof (cases rule: node_cases [where s = s])
  case (dir ob es)
  then show ?thesis using that [of es] assms
    by (simp add: readdir_def fs_get [OF inv] dir_parse_encode all_entries_map dir_wf_def)
qed (use assms in auto)

lemma rewritten_read:
  assumes "fs_inv arena fs" and w: "rewritten arena fs path f fs' (Ok ())"
  shows "\<exists>b. read_file_into fs path k = (case b of Some x \<Rightarrow> Ok (take k x) | None \<Rightarrow> Err Corrupt)
     \<and> read_file_into fs' path k = Ok (take k (f (case b of Some x \<Rightarrow> x | None \<Rightarrow> [])))"
proof -
  obtain s b where s: "fs_inv arena fs'" "resolve fs path = Ok s" "view fs s = Some (FileN b)"
      "view fs' = (view fs)(s \<mapsto> FileN (Some (f (case b of Some x \<Rightarrow> x | None \<Rightarrow> []))))"
    using w by (auto simp: rewritten_def)
  have "view_le (view fs) (view fs')" using view_le_file [where v = "view fs" and x = b and s = s, OF s(3)] s(4) by simp
  then have r: "resolve fs' path = Ok s" using resolve_mono assms(1) s(1,2) by blast
  show ?thesis using read_view [OF assms(1) s(2,3)] read_view [OF s(1) r, of "Some (f (case b of Some x \<Rightarrow> x | None \<Rightarrow> []))"] s(4)
    by (intro exI [of _ b]) simp
qed

text \<open>Truncation keeps a prefix and pads with zeros.\<close>

definition resize :: "nat \<Rightarrow> u8 list \<Rightarrow> u8 list" where
  "resize k bs = take k bs @ replicate (k - length bs) 0"

lemma length_resize [simp]: "length (resize k bs) = k"
  by (simp add: resize_def)

text \<open>Truncation builds the content that \<^verbatim>\<open>from_bytes\<close> builds from the resized bytes.\<close>

lemma resize_padded: "k \<le> 256 \<Longrightarrow> take k (copy_into 0 (take (min (length b) k) b) (replicate 256 0)) = resize k b"
  by (cases "length b \<le> k") (simp_all add: resize_def copy_into_def min_def)

lemma truncate_eq_assign:
  assumes "resolve fs path = Ok s" and "reg_get (fs_reg fs) s = Some ob" and "ob_content_type ob \<noteq> Structured"
  shows "truncate fs env path k =
    (case assign_content fs s (resize k (bytes_of ob)) ContentTooLarge of
       (fs', Inl e) \<Rightarrow> (fs', Err e) | (fs', Inr _) \<Rightarrow> (set_modified fs' s (now_or_0 env), Ok ()))"
proof -
  have r: "take (min (length b) k) b @ replicate (k - min (length b) k) 0 = resize k b" for b
    by (simp add: resize_def min_def)
  consider "k \<le> 256" | "256 < k" "k \<le> MAX_FILE_CONTENT" | "MAX_FILE_CONTENT < k" by linarith
  then show ?thesis
  proof cases
    case 1
    then have "k \<le> MAX_FILE_CONTENT" by (simp add: MAX_FILE_CONTENT_def MAX_CONTENT_SIZE_def)
    with 1 assms show ?thesis
      by (simp add: truncate_def assign_content_def content_from_bytes_def resize_padded Let_def from_inline_None_iff
          split: option.splits)
  next
    case 2
    with assms show ?thesis
      by (auto simp: truncate_def assign_content_def content_from_bytes_def r Let_def split: prod.splits)
  next
    case 3
    then have "256 < k" by (simp add: MAX_FILE_CONTENT_def MAX_CONTENT_SIZE_def)
    with 3 assms show ?thesis by (simp add: truncate_def assign_content_def content_from_bytes_def)
  qed
qed

lemma assign_rewritten:
  assumes inv: "fs_inv arena fs" "fs_inv arena fs1" "objs fs1 = objs fs" and res: "resolve fs path = Ok s"
    and ob: "objs fs s = Some ob" "ob_content_type ob \<noteq> Structured"
    and r: "(case assign_content fs1 s (f (bytes_of ob)) ContentTooLarge of
       (fs', Inl e) \<Rightarrow> (fs', Err e) | (fs', Inr _) \<Rightarrow> (set_modified fs' s now, Ok ())) = (fs', r)"
  shows "rewritten arena fs path f fs' r"
proof -
  have v: "view fs1 = view fs" "objs fs1 s = Some ob" using inv(3) ob view_same by auto
  have p: "view fs s = Some (FileN (as_bytes (ob_content ob)))" using ob by (simp add: view_def node_of_def)
  have "ob_content_type ob = Structured \<longrightarrow> (\<exists>es. dir_wf es \<and> f (bytes_of ob) = encode_dir es)" using ob(2) by simp
  with inv(2) v(2) show ?thesis
  proof (cases rule: assign_content_cases [where s = s and d = "f (bytes_of ob)" and err = ContentTooLarge])
    case failed
    then show ?thesis using r inv v by (auto simp: rewritten_same)
  next
    case (updated fs2 c)
    have "view fs2 = (view fs)(s \<mapsto> FileN (Some (f (bytes_of ob))))"
      using view_upd [OF updated(4)] node_of_content [OF updated(3)] ob(2) v(1) by simp
    moreover have "fs' = set_modified fs2 s now" "r = Ok ()" using r updated(1) by simp_all
    ultimately show ?thesis using set_modified_effect [OF updated(2)] p res by (auto simp: rewritten_def bytes_of_def)
  qed
qed

lemma truncate_rewritten:
  assumes inv: "fs_inv arena fs" and r: "truncate fs env path k = (fs', r)"
  shows "rewritten arena fs path (resize k) fs' r"
proof (cases "resolve fs path")
  case (Inl e)
  then show ?thesis using r inv by (auto simp: rewritten_same truncate_def)
next
  case (Inr s)
  note res = this
  show ?thesis using inv
  proof (cases rule: node_cases [where s = s])
    case (plain ob)
    then show ?thesis
      using assign_rewritten [OF inv inv refl res plain(1,2)] r truncate_eq_assign [OF res _ plain(2)] fs_get [OF inv] by simp
  qed (use r res inv in \<open>auto simp: rewritten_same truncate_def fs_get [OF inv]\<close>)
qed

lemma write_file_rewritten:
  assumes inv: "fs_inv arena fs" and r: "write_file fs env path content = (fs', r)"
  shows "rewritten arena fs path (\<lambda>_. content) fs' r"
proof (cases "resolve fs path")
  case (Inl e)
  then show ?thesis using r inv by (auto simp: rewritten_same write_file_def)
next
  case (Inr s)
  note res = this
  show ?thesis using inv
  proof (cases rule: node_cases [where s = s])
    case (plain ob)
    obtain j ok where u: "on_update (fs_journal fs) ob content = (j, ok)" by (metis prod.exhaust)
    define fs1 where "fs1 = fs\<lparr>fs_journal := j\<rparr>"
    have i: "fs_inv arena fs1" "objs fs1 = objs fs" "view fs1 = view fs" using inv by (simp_all add: fs1_def)
    have w: "write_file fs env path content = (if ok then case assign_content fs1 s content ContentTooLarge of
           (fs', Inl e) \<Rightarrow> (fs', Err e) | (fs', Inr _) \<Rightarrow> (set_modified fs' s (now_or_0 env), Ok ())
         else (fs1, Err IoError))"
      using res plain u by (simp add: write_file_def fs_get [OF inv] fs1_def)
    show ?thesis
    proof (cases ok)
      case True
      then show ?thesis using w r by (intro assign_rewritten [OF inv i(1,2) res plain(1,2)]) simp
    qed (use w r i in \<open>auto simp: rewritten_same\<close>)
  qed (use r res inv in \<open>auto simp: rewritten_same write_file_def fs_get [OF inv]\<close>)
qed

section \<open>Removing and renaming\<close>

text \<open>A walk that succeeded can only fail with \<open>NotFound\<close> when lookups keep their answer or fail so.\<close>

lemma visit_shrink:
  assumes "visit_components f d st cs = Ok r" and "\<And>st c st'. f st c = Ok st' \<Longrightarrow> g st c = Ok st' \<or> g st c = Err e"
  shows "visit_components g d st cs = Ok r \<or> visit_components g d st cs = Err e"
  using assms(1)
proof (induction cs arbitrary: d st)
  case (Cons c cs)
  then obtain st' where f: "f st c = Ok st'" "visit_components f (d + 1) st' cs = Ok r" "c \<noteq> []" "length c \<le> MAX_COMPONENT_LEN"
      "d + 1 \<le> MAX_PATH_DEPTH"
    by (auto split: if_splits sum.splits)
  then show ?case using assms(2) [OF f(1)] Cons.IH [OF f(2)] by auto
qed simp

definition view_shrink :: "(suid \<rightharpoonup> node) \<Rightarrow> (suid \<rightharpoonup> node) \<Rightarrow> bool" where
  "view_shrink v w \<longleftrightarrow> (\<forall>p n c. view_lookup v p n = Ok c \<longrightarrow> view_lookup w p n = Ok c \<or> view_lookup w p n = Err NotFound)"

lemma view_resolve_shrink:
  assumes "view_shrink v w" and "view_resolve v path = Ok s"
  shows "view_resolve w path = Ok s \<or> view_resolve w path = Err NotFound"
proof -
  have sh: "visit_components (view_lookup v) d st cs = Ok r
      \<Longrightarrow> visit_components (view_lookup w) d st cs = Ok r \<or> visit_components (view_lookup w) d st cs = Err NotFound" for d st cs r
    by (erule visit_shrink) (use assms(1) in \<open>auto simp: view_shrink_def\<close>)
  show ?thesis using assms(2) sh
    by (auto simp: view_resolve_def for_each_component_def split: if_splits list.splits)
qed

lemma view_shrink_entry: "v p = Some (DirN d) \<Longrightarrow> view_shrink v (v(p \<mapsto> DirN (d(n := None))))"
  by (auto simp: view_shrink_def view_lookup.simps split: option.splits node.splits)

lemma view_shrink_object: "view_shrink v w \<Longrightarrow> view_shrink v (w(s := None))"
  by (auto simp: view_shrink_def view_lookup.simps)

text \<open>The test of the entry count that \<^verbatim>\<open>unlink\<close> makes refuses every directory that has an entry.\<close>

lemma unlink_empty:
  assumes inv: "fs_inv arena fs" and ob: "objs fs s = Some ob"
      "\<not> (ob_content_type ob = Structured \<and> bytes_of ob \<noteq> [] \<and> hd (bytes_of ob) > 0)"
    and "view fs s = Some (DirN m)"
  shows "m = Map.empty"
  using inv
proof (cases rule: node_cases [where s = s])
  case (dir q es)
  then have "hd (encode_dir es) = 0" using ob by (simp add: word_gt_0)
  moreover have l: "length es \<le> 64" using dir(3) by (simp add: dir_wf_def MAX_DIR_ENTRIES_def)
  ultimately have "unat (of_nat (length es) :: u8) = 0" by (simp add: encode_dir_def)
  then have "es = []" using l by simp
  then show ?thesis using dir assms(4) by simp
qed (use assms(4) in auto)

lemma unlink_cases:
  fixes fs :: "'d fs"
  assumes inv: "fs_inv arena fs"
  obtains (failed) fs' e where "unlink fs path = (fs', Err e)" "fs_inv arena fs'" "view fs' = view fs"
    | (removed) fs' parent n p d s fs1 where "unlink fs path = (fs', Ok ())" "fs_inv arena fs'"
        "split_parent path = Ok (parent, n)" "resolve fs parent = Ok p" "view fs p = Some (DirN d)" "d n = Some s"
        "view fs s \<noteq> None" "\<And>m. view fs s = Some (DirN m) \<Longrightarrow> m = Map.empty" "remove_child fs p n = (fs1, Ok s)"
        "view fs' = (if snd (on_remove (fs_journal fs1) s) then (view fs)(p \<mapsto> DirN (d(n := None)), s := None)
                     else (view fs)(p \<mapsto> DirN (d(n := None))))"
proof (cases "split_parent path")
  case (Inl e)
  then show ?thesis using that(1) inv by (auto simp: unlink_def)
next
  case (Inr pn)
  then obtain parent n where sp: "split_parent path = Ok (parent, n)" by (cases pn) simp
  show ?thesis
  proof (cases "resolve fs parent")
    case (Inl e)
    then show ?thesis using that(1) [of fs e] inv sp by (simp add: unlink_def)
  next
    case (Inr p)
    note res = this
    show ?thesis
    proof (cases "lookup_in_dir fs p n")
      case (Inl e)
      then show ?thesis using that(1) [of fs e] inv sp res by (simp add: unlink_def)
    next
      case (Inr s)
      have l: "view_lookup (view fs) p n = Ok s" using Inr lookup_in_dir_view [OF inv] by simp
      show ?thesis
      proof (cases "\<exists>ob. objs fs s = Some ob \<and> \<not> (ob_content_type ob = Structured \<and> bytes_of ob \<noteq> [] \<and> hd (bytes_of ob) > 0)")
        case False
        then have "\<exists>e. unlink fs path = (fs, Err e)"
          using sp res Inr by (cases "objs fs s") (auto simp: unlink_def fs_get [OF inv])
        then show ?thesis using that(1) inv by blast
      next
        case True
        then obtain ob where ob: "objs fs s = Some ob" "\<not> (ob_content_type ob = Structured \<and> bytes_of ob \<noteq> [] \<and> hd (bytes_of ob) > 0)" by blast
        have u: "unlink fs path = (case remove_child fs p n of (fs', Inl e) \<Rightarrow> (fs', Err e) | (fs', Inr _) \<Rightarrow> (remove_object fs' s, Ok ()))"
          using sp res Inr ob by (auto simp: unlink_def fs_get [OF inv])
        note emp = unlink_empty [OF inv ob]
        show ?thesis using inv
        proof (cases rule: remove_child_cases [where p = p and n = n])
          case (failed fs' e)
          then show ?thesis using that(1) u by simp
        next
          case (updated fs1 d c)
          have c: "c = s" using l updated(3,4) by (simp add: view_lookup.simps)
          have vs: "view fs s \<noteq> None" using ob by (simp add: view_def)
          then have v1: "view fs1 s \<noteq> None" using updated(5) by simp
          show ?thesis using updated(2)
          proof (cases rule: remove_object_cases [where s = s])
            case failed
            then show ?thesis using that(2) [of "remove_object fs1 s" parent n p d s fs1] u updated c sp res vs v1 emp by auto
          next
            case updated': updated
            then show ?thesis using that(2) [of "remove_object fs1 s" parent n p d s fs1] u updated c sp res vs emp by auto
          qed
        qed
      qed
    qed
  qed
qed

lemma rename_cases:
  assumes inv: "fs_inv arena fs" and u: "utf8_valid new_path"
  obtains (failed) fs' e where "rename fs env old_path new_path = (fs', Err e)" "fs_inv arena fs'" "view fs' = view fs"
    | (both) fs' e opp on npp nn op np s d fs1 fs2 e' where "rename fs env old_path new_path = (fs', Err e)" "fs_inv arena fs'"
        "split_parent old_path = Ok (opp, on)" "split_parent new_path = Ok (npp, nn)" "resolve fs opp = Ok op" "resolve fs npp = Ok np"
        "view_lookup (view fs) op on = Ok s" "view fs np = Some (DirN d)" "d nn = None" "view fs' = (view fs)(np \<mapsto> DirN (d(nn \<mapsto> s)))"
        "add_child fs np nn s = (fs1, Ok ())" "remove_child fs1 op on = (fs2, Err e)" "remove_child fs2 np nn = (fs', Err e')"
    | (moved) fs' opp on npp nn op np s d d' where "rename fs env old_path new_path = (fs', Ok ())" "fs_inv arena fs'"
        "split_parent old_path = Ok (opp, on)" "split_parent new_path = Ok (npp, nn)" "resolve fs opp = Ok op" "resolve fs npp = Ok np"
        "view_lookup (view fs) op on = Ok s" "view fs np = Some (DirN d)" "d nn = None"
        "((view fs)(np \<mapsto> DirN (d(nn \<mapsto> s)))) op = Some (DirN d')"
        "view fs' = (view fs)(np \<mapsto> DirN (d(nn \<mapsto> s)), op \<mapsto> DirN (d'(on := None)))"
proof (cases "\<exists>opp on npp nn op np s e. split_parent old_path = Ok (opp, on) \<and> split_parent new_path = Ok (npp, nn)
    \<and> resolve fs opp = Ok op \<and> resolve fs npp = Ok np \<and> lookup_in_dir fs np nn = Err e \<and> lookup_in_dir fs op on = Ok s")
  case False
  then have "\<exists>e. rename fs env old_path new_path = (fs, Err e)"
    by (auto simp: rename_def split: sum.split)
  then show ?thesis using that(1) inv by blast
next
  case True
  then obtain opp on npp nn op np s e where p: "split_parent old_path = Ok (opp, on)" "split_parent new_path = Ok (npp, nn)"
    "resolve fs opp = Ok op" "resolve fs npp = Ok np" "lookup_in_dir fs np nn = Err e" "lookup_in_dir fs op on = Ok s" by blast
  have n: "name_ok nn" using split_parent_name_ok [OF p(2) u] by simp
  have l: "view_lookup (view fs) op on = Ok s" using p(6) lookup_in_dir_view [OF inv] by simp
  have r: "rename fs env old_path new_path =
     (case add_child fs np nn s of
        (fs1, Inl e) \<Rightarrow> (fs1, Err e)
      | (fs1, Inr _) \<Rightarrow>
          (case remove_child fs1 op on of
             (fs2, Inl e) \<Rightarrow> (fst (remove_child fs2 np nn), Err e)
           | (fs2, Inr _) \<Rightarrow> (set_modified fs2 s (now_or_0 env), Ok ())))"
    using p by (simp add: rename_def)
  show ?thesis using inv n
  proof (cases rule: add_child_cases [where p = np and s = s])
    case (failed fs1 e1)
    then show ?thesis using that(1) r by simp
  next
    case (updated fs1 d)
    note a = this
    show ?thesis using a(2)
    proof (cases rule: remove_child_cases [where p = op and n = on])
      case (failed fs2 e2)
      note f = this
      show ?thesis using f(2)
      proof (cases rule: remove_child_cases [where p = np and n = nn])
        case (failed fs3 e3)
        then show ?thesis using that(2) [of fs3 e2, OF _ _ p(1-4) l a(3,4) _ a(1) f(1) failed(1)] r a f by simp
      next
        case (updated fs3 d3 c)
        have "d3 = d(nn \<mapsto> s)" using updated(3) f(3) a(5) by simp
        then have "d3(nn := None) = d" using a(4) by auto
        then have "view fs3 = view fs" using updated(5) f(3) a(3,5) by auto
        then show ?thesis using that(1) [of fs3 e2] r a(1) f(1) updated(1,2) by simp
      qed
    next
      case (updated fs2 d' c)
      note E = set_modified_effect [OF updated(2), of s "now_or_0 env"]
      show ?thesis using that(3) [OF _ E(1) p(1-4) l a(3,4), of d'] r a updated E(2) by simp
    qed
  qed
qed

section \<open>Reachable namespaces\<close>

definition ns_boot :: "nat \<Rightarrow> 'd journal option \<Rightarrow> 'd fs" where
  "ns_boot arena jr = fst (ns_init \<lparr>fs_heap = heap_init arena heap_boot, fs_journal = jr, fs_reg = reg_new, fs_counter = 1\<rparr>)"

inductive ns_step :: "'d fs \<Rightarrow> 'd fs \<Rightarrow> bool" where
  Mkdir: "utf8_valid path \<Longrightarrow> ns_step fs (fst (mkdir fs env path))"
| Create: "utf8_valid path \<Longrightarrow> ns_step fs (fst (create_file fs env path t content))"
| Write: "ns_step fs (fst (write_file fs env path content))"
| Unlink: "ns_step fs (fst (unlink fs path))"
| Rename: "utf8_valid new_path \<Longrightarrow> ns_step fs (fst (rename fs env old_path new_path))"
| Truncate: "ns_step fs (fst (truncate fs env path k))"

inductive ns_reach :: "nat \<Rightarrow> 'd fs \<Rightarrow> bool" for arena where
  Boot: "ns_reach arena (ns_boot arena jr)"
| Step: "ns_reach arena fs \<Longrightarrow> ns_step fs fs' \<Longrightarrow> ns_reach arena fs'"

lemma fs_inv_boot: "fs_inv arena (ns_boot arena jr)"
proof -
  define fs0 where "fs0 = \<lparr>fs_heap = heap_init arena heap_boot, fs_journal = jr, fs_reg = reg_new, fs_counter = (1 :: u64)\<rparr>"
  have m: "objs fs0 = Map.empty" "reg_inv (fs_reg fs0)" using reg_inv_new by (simp_all add: fs0_def)
  have mem: "mem_inv arena (fs_heap fs0) (fs_reg fs0) {}"
    using m heap_inv_init by (simp add: mem_inv_def) (simp add: fs0_def heap_init_def)
  obtain c where c: "from_inline [0] = Some c" by (cases "from_inline [0]") (simp_all add: from_inline_None_iff)
  define ob where "ob = (ob_new ROOT_SUID Public 0)\<lparr>ob_content_type := Structured, ob_content := c\<rparr>"
  have x: "as_bytes c = Some [0]" "content_wf c" "owned_blocks c = {}" using from_inline_bytes [OF c] by simp_all
  have w: "dir_wf []" "bytes_of ob = encode_dir []" using x(1) by (simp_all add: dir_wf_def ob_def bytes_of_def)
  have ob: "ob_wf ob" "dir_ok ob" "ob_content ob = c"
    using ob_wf_new(1) [of ROOT_SUID Public 0] x w by (auto simp: ob_def ob_wf_def get_links_def dir_ok_def ob_new_def)
  have e: "ns_boot arena jr = fst (insert_object fs0 ob)"
    using m reg_get_map [OF m(2)] c by (simp add: ns_boot_def ns_init_def fs0_def ob_def split: prod.split bool.split)
  have "mem_inv arena (fs_heap fs0) (fs_reg fs0) (owned_blocks (ob_content ob))" "\<forall>s q. objs fs0 s = Some q \<longrightarrow> dir_ok q"
    using mem ob(3) x(3) m(1) by simp_all
  then show ?thesis using ob(1,2) by (cases rule: insert_object_cases) (simp_all add: e)
qed

lemma fs_inv_step: "ns_step fs fs' \<Longrightarrow> fs_inv arena fs \<Longrightarrow> fs_inv arena fs'"
proof (induction rule: ns_step.induct)
  case (Mkdir path fs env)
  then show ?case using mkdir_created [of arena fs path env] by (metis created_def prod.collapse)
next
  case (Create path fs env t content)
  then show ?case using create_file_created [of arena fs path env t content] by (metis created_def prod.collapse)
next
  case (Write fs env path content)
  then show ?case using write_file_rewritten [of arena fs env path content] by (metis rewritten_def prod.collapse)
next
  case (Unlink fs path)
  then show ?case by (cases rule: unlink_cases [where path = path]) simp_all
next
  case (Rename new_path fs env old_path)
  from Rename(2,1) show ?case by (cases rule: rename_cases [where env = env and old_path = old_path]) simp_all
next
  case (Truncate fs env path k)
  then show ?case using truncate_rewritten [of arena fs env path k] by (metis rewritten_def prod.collapse)
qed

lemma fs_inv_reach: "ns_reach arena fs \<Longrightarrow> fs_inv arena fs"
  by (induction rule: ns_reach.induct) (auto intro: fs_inv_boot fs_inv_step)

section \<open>When creation succeeds\<close>

text \<open>Without a journal, with room in the registry and a directory that stays inline, creation cannot fail.\<close>

lemma journal_hook_None [simp]: "on_insert None ob = (None, True)" "on_update None ob b = (None, True)" "on_remove None s = (None, True)"
  by (simp_all add: on_insert_def on_update_def on_remove_def journal_hook_def)

lemma insert_object_ok:
  assumes inv: "reg_inv (fs_reg fs)" and "objs fs (ob_suid ob) = None" "rg_count (fs_reg fs) \<noteq> MAX_OBJECTS" and j: "fs_journal fs = None"
  obtains fs' where "insert_object fs ob = (fs', True)" "fs_journal fs' = None"
    "rg_count (fs_reg fs') = rg_count (fs_reg fs) + 1" "objs fs' = (objs fs)(ob_suid ob \<mapsto> ob)"
proof -
  obtain j' r ok where i: "reg_insert (fs_journal fs) (fs_reg fs) ob = (j', r, ok)" by (metis prod_cases3)
  note E = reg_insert_effect [OF inv i]
  have "ok" using E(3) assms by auto
  then show ?thesis using that [of "fs\<lparr>fs_journal := j', fs_reg := r\<rparr>"] i E(2) j by (simp add: insert_object_def)
qed

lemma add_child_ok:
  assumes inv: "fs_inv arena fs" and ob: "objs fs p = Some ob" "ob_content_type ob = Structured" and es: "dir_wf es" "bytes_of ob = encode_dir es"
    and n: "name_ok n" "n \<notin> fst ` set es" "length es < 5" and j: "fs_journal fs = None"
  shows "\<exists>fs'. add_child fs p n s = (fs', Ok ())"
proof -
  let ?es = "es @ [(n, s)]"
  have wf: "dir_wf ?es" using dir_wf_insert [OF es(1) n(1) _ n(2)] n(3) by (simp add: MAX_DIR_ENTRIES_def)
  have l: "length (encode_dir ?es) \<le> 256" using length_encode_dir [OF wf] n(3) by simp
  have "insert_dir_entry (encode_dir es) n s DIR_CONTENT_MAX = Ok (encode_dir ?es)"
    using insert_dir_entry_encode [OF es(1) n(1), of s] n(2,3) by (simp add: MAX_DIR_ENTRIES_def)
  then have a: "add_child fs p n s = assign_content (fs\<lparr>fs_journal := None\<rparr>) p (encode_dir ?es) DirectoryFull"
    using ob es dir_length [OF es(1)] j by (simp add: add_child_def rewrite_dir_def fs_get [OF inv])
  have "fs_inv arena (fs\<lparr>fs_journal := None\<rparr>)" "objs (fs\<lparr>fs_journal := None\<rparr>) p = Some ob"
    "ob_content_type ob = Structured \<longrightarrow> (\<exists>es'. dir_wf es' \<and> encode_dir ?es = encode_dir es')" using wf inv ob(1) by auto
  then show ?thesis
    by (cases rule: assign_content_cases [where s = p and d = "encode_dir ?es" and err = DirectoryFull]) (use a l in auto)
qed

lemma add_child_objs:
  assumes inv: "fs_inv arena fs" and "q \<noteq> p"
  shows "objs (fst (add_child fs p n s)) q = objs fs q"
proof -
  have a: "objs (fst (assign_content fs1 p d err)) q = objs fs1 q" if "reg_inv (fs_reg fs1)" for fs1 :: "'a fs" and d err
    using reg_update_effect(2) [OF that] \<open>q \<noteq> p\<close>
    by (auto simp: assign_content_def install_content_def split: prod.split option.split)
  have "reg_inv (fs_reg fs)" using mem_inv_reg [OF fs_inv_mem [OF inv]] .
  then show ?thesis
    by (auto simp: add_child_def rewrite_dir_def a split: option.split sum.split prod.split bool.split)
qed

lemma insert_and_link_ok:
  assumes mem: "mem_inv arena (fs_heap fs) (fs_reg fs) (owned_blocks (ob_content q))"
    and dirs: "\<forall>s q. objs fs s = Some q \<longrightarrow> dir_ok q" and q: "ob_wf q" "dir_ok q"
    and new: "objs fs (ob_suid q) = None" and room: "rg_count (fs_reg fs) \<noteq> MAX_OBJECTS" and j: "fs_journal fs = None"
    and ob: "objs fs p = Some ob" "ob_content_type ob = Structured" and es: "dir_wf es" "bytes_of ob = encode_dir es"
    and n: "name_ok n" "n \<notin> fst ` set es" "length es < 5"
  shows "\<exists>fs'. insert_and_link fs p n q = (fs', Ok (ob_suid q))"
proof -
  obtain fs1 where i: "insert_object fs q = (fs1, True)" "fs_journal fs1 = None" "objs fs1 = (objs fs)(ob_suid q \<mapsto> q)"
    using insert_object_ok [of fs q] mem_inv_reg [OF mem] new room j by blast
  have inv1: "fs_inv arena fs1" using mem dirs q i(1) by (cases rule: insert_object_cases) auto
  have "p \<noteq> ob_suid q" using new ob(1) by auto
  then have "objs fs1 p = Some ob" using i(3) ob(1) by simp
  from add_child_ok [OF inv1 this ob(2) es n i(2), of "ob_suid q"] i(1) show ?thesis by (auto simp: insert_and_link_def)
qed

lemma create_file_ok:
  assumes inv: "fs_inv arena fs" and j: "fs_journal fs = None" and path: "utf8_valid path" "split_parent path = Ok (parent, n)" "resolve fs parent = Ok p"
    and ob: "objs fs p = Some ob" "ob_content_type ob = Structured" and es: "dir_wf es" "bytes_of ob = encode_dir es"
    and n: "n \<notin> fst ` set es" "length es < 5"
    and new: "objs fs (snd (mint_suid fs env)) = None" and room: "rg_count (fs_reg fs) \<noteq> MAX_OBJECTS" and c: "length content \<le> 256"
  shows "\<exists>fs'. create_file fs env path t content = (fs', Ok (snd (mint_suid fs env)))"
proof -
  obtain fs0 s where m: "mint_suid fs env = (fs0, s)" by (metis prod.exhaust)
  note M = mint_suid_effect [OF m inv]
  have j0: "fs_journal fs0 = None" using m j by (auto simp: mint_suid_def Let_def split: option.splits)
  obtain x where x: "from_inline content = Some x" using c from_inline_None_iff [of content] by (cases "from_inline content") auto
  note X = from_inline_bytes [OF x]
  define q where "q = (ob_new s t 0)\<lparr>ob_content_type := Binary, ob_created_at := now_or_0 env,
                        ob_modified_at := now_or_0 env, ob_content := x\<rparr>"
  have q: "ob_wf q" "dir_ok q" "ob_suid q = s" "ob_content q = x"
    using ob_wf_new(1) [of s t 0] X by (simp_all add: q_def ob_wf_def get_links_def dir_ok_def ob_new_def)
  have "mem_inv arena (fs_heap fs0) (fs_reg fs0) (owned_blocks (ob_content q))" "\<forall>s q. objs fs0 s = Some q \<longrightarrow> dir_ok q"
    using M(1) X q(4) by (simp_all add: fs_inv_def)
  from insert_and_link_ok [OF this q(1,2) _ _ j0 _ ob(2) es split_parent_name_ok(1) [OF path(2,1)] n, of p]
  have "\<exists>fs'. insert_and_link fs0 p n q = (fs', Ok s)" using new room m M(4) q(3) ob(1) by simp
  moreover have "fs0\<lparr>fs_heap := fs_heap fs0\<rparr> = fs0" by simp
  ultimately show ?thesis using path m c x by (simp add: create_file_def content_from_bytes_def q_def Let_def)
qed

lemma mkdir_ok:
  assumes inv: "fs_inv arena fs" and j: "fs_journal fs = None" and path: "utf8_valid path" "split_parent path = Ok (parent, n)" "resolve fs parent = Ok p"
    and ob: "objs fs p = Some ob" "ob_content_type ob = Structured" and es: "dir_wf es" "bytes_of ob = encode_dir es"
    and n: "n \<notin> fst ` set es" "length es < 5"
    and new: "objs fs (snd (mint_suid fs env)) = None" and room: "rg_count (fs_reg fs) \<noteq> MAX_OBJECTS"
  shows "\<exists>fs'. mkdir fs env path = (fs', Ok (snd (mint_suid fs env)))"
proof -
  obtain fs0 s where m: "mint_suid fs env = (fs0, s)" by (metis prod.exhaust)
  note M = mint_suid_effect [OF m inv]
  have j0: "fs_journal fs0 = None" using m j by (auto simp: mint_suid_def Let_def split: option.splits)
  obtain x where x: "from_inline [0] = Some x" by (cases "from_inline [0]") (simp_all add: from_inline_None_iff)
  note X = from_inline_bytes [OF x]
  define q where "q = (ob_new s Public 0)\<lparr>ob_content_type := Structured, ob_created_at := now_or_0 env,
                        ob_modified_at := now_or_0 env, ob_content := x\<rparr>"
  have "dir_wf []" "bytes_of q = encode_dir []" using X by (simp_all add: dir_wf_def q_def bytes_of_def)
  then have q: "ob_wf q" "dir_ok q" "ob_suid q = s" "ob_content q = x"
    using ob_wf_new(1) [of s Public 0] X by (auto simp: q_def ob_wf_def get_links_def dir_ok_def ob_new_def)
  have "mem_inv arena (fs_heap fs0) (fs_reg fs0) (owned_blocks (ob_content q))" "\<forall>s q. objs fs0 s = Some q \<longrightarrow> dir_ok q"
    using M(1) X q(4) by (simp_all add: fs_inv_def)
  from insert_and_link_ok [OF this q(1,2) _ _ j0 _ ob(2) es split_parent_name_ok(1) [OF path(2,1)] n, of p]
  have "\<exists>fs'. insert_and_link fs0 p n q = (fs', Ok s)" using new room m M(4) q(3) ob(1) by simp
  then show ?thesis using path m x by (simp add: mkdir_def q_def Let_def)
qed

text \<open>The namespace after boot: an empty root directory.\<close>

lemma ns_boot_root:
  obtains ob where "objs (ns_boot arena (None :: unit journal option)) = [ROOT_SUID \<mapsto> ob]" "ob_content_type ob = Structured" "bytes_of ob = encode_dir []"
    "rg_count (fs_reg (ns_boot arena (None :: unit journal option))) = 1" "fs_journal (ns_boot arena (None :: unit journal option)) = None"
proof -
  define fs0 where "fs0 = \<lparr>fs_heap = heap_init arena heap_boot, fs_journal = (None :: unit journal option), fs_reg = reg_new, fs_counter = (1 :: u64)\<rparr>"
  have m: "objs fs0 = Map.empty" "reg_inv (fs_reg fs0)" "rg_count (fs_reg fs0) = 0" "fs_journal fs0 = None"
    using reg_inv_new by (simp_all add: fs0_def) (simp add: reg_new_def)
  obtain c where c: "from_inline [0] = Some c" by (cases "from_inline [0]") (simp_all add: from_inline_None_iff)
  define ob where "ob = (ob_new ROOT_SUID Public 0)\<lparr>ob_content_type := Structured, ob_content := c\<rparr>"
  have s: "ob_suid ob = ROOT_SUID" by (simp add: ob_def ob_new_def)
  obtain fs' where fs': "insert_object fs0 ob = (fs', True)" "fs_journal fs' = None" "rg_count (fs_reg fs') = 1" "objs fs' = [ROOT_SUID \<mapsto> ob]"
    using insert_object_ok [OF m(2), of ob] m s by (auto simp: MAX_OBJECTS_def)
  have "ns_boot arena (None :: unit journal option) = fs'"
    using m reg_get_map [OF m(2)] c fs'(1) by (simp add: ns_boot_def ns_init_def fs0_def ob_def)
  then show ?thesis using that [of ob] fs' from_inline_bytes [OF c] by (simp add: ob_def bytes_of_def)
qed

text \<open>Without a journal every helper leaves none.\<close>

lemma assign_content_journal: "fs_journal (fst (assign_content fs s d err)) = fs_journal fs"
  by (simp add: assign_content_def install_content_def split: prod.split option.split)

lemma rewrite_dir_journal: "fs_journal fs = None \<Longrightarrow> fs_journal (fst (rewrite_dir fs p d err)) = None"
  by (simp add: rewrite_dir_def assign_content_journal split: option.split)

lemma add_child_journal: "fs_journal fs = None \<Longrightarrow> fs_journal (fst (add_child fs p n s)) = None"
  by (simp add: add_child_def rewrite_dir_journal split: option.split sum.split)

lemma insert_object_journal:
  assumes "reg_inv (fs_reg fs)" and "fs_journal fs = None"
  shows "fs_journal (fst (insert_object fs ob)) = None"
proof -
  obtain j r ok where i: "reg_insert (fs_journal fs) (fs_reg fs) ob = (j, r, ok)" by (metis prod_cases3)
  have "j = None" using i assms(2) by (auto simp: reg_insert_def Let_def split: if_splits option.splits prod.splits bool.splits)
  then show ?thesis using i by (cases ok) (simp_all add: insert_object_def)
qed

lemma insert_and_link_journal:
  assumes "reg_inv (fs_reg fs)" and "fs_journal fs = None"
  shows "fs_journal (fst (insert_and_link fs p n ob)) = None"
proof -
  obtain fs1 ok where i: "insert_object fs ob = (fs1, ok)" by (metis prod.exhaust)
  have j: "fs_journal fs1 = None" using insert_object_journal [OF assms, of ob] i by simp
  obtain fs2 r where a: "add_child fs1 p n (ob_suid ob) = (fs2, r)" by (metis prod.exhaust)
  have "fs_journal fs2 = None" using add_child_journal [OF j, of p n "ob_suid ob"] a by simp
  then show ?thesis using i j a by (cases ok; cases r) (simp_all add: insert_and_link_def)
qed

lemma created_no_journal:
  assumes "fs_inv arena fs" and "fs_journal fs = None"
  shows "fs_journal (fst (create_file fs env path t content)) = None" and "fs_journal (fst (mkdir fs env path)) = None"
proof -
  obtain fs0 s where m: "mint_suid fs env = (fs0, s)" by (metis prod.exhaust)
  note M = mint_suid_effect [OF m assms(1)]
  have j: "fs_journal fs0 = None" using m assms(2) by (auto simp: mint_suid_def Let_def split: option.splits)
  have r: "reg_inv (fs_reg fs0)" using mem_inv_reg [OF fs_inv_mem [OF M(1)]] .
  show "fs_journal (fst (create_file fs env path t content)) = None"
    using m j r assms(2) by (simp add: create_file_def Let_def insert_and_link_journal split: sum.split prod.split option.split)
  show "fs_journal (fst (mkdir fs env path)) = None"
    using m j r assms(2) by (simp add: mkdir_def Let_def insert_and_link_journal split: sum.split prod.split option.split)
qed

lemma write_file_ok:
  assumes inv: "fs_inv arena fs" and "fs_journal fs = None" and "resolve fs path = Ok s" and "view fs s = Some (FileN b)" and "length d \<le> 256"
  shows "\<exists>fs'. write_file fs env path d = (fs', Ok ())"
  using inv
proof (cases rule: node_cases [where s = s])
  case (plain ob)
  have "fs_inv arena (fs\<lparr>fs_journal := None\<rparr>)" "objs (fs\<lparr>fs_journal := None\<rparr>) s = Some ob"
    "ob_content_type ob = Structured \<longrightarrow> (\<exists>es. dir_wf es \<and> d = encode_dir es)" using plain inv by simp_all
  then show ?thesis
    by (cases rule: assign_content_cases [where s = s and d = d and err = ContentTooLarge])
      (use assms plain in \<open>auto simp: write_file_def fs_get [OF inv]\<close>)
qed (use assms(4) in auto)

lemma truncate_ok:
  assumes inv: "fs_inv arena fs" and "resolve fs path = Ok s" and "view fs s = Some (FileN b)" and "k \<le> 256"
  shows "\<exists>fs'. truncate fs env path k = (fs', Ok ())"
  using inv
proof (cases rule: node_cases [where s = s])
  case (plain ob)
  have "ob_content_type ob = Structured \<longrightarrow> (\<exists>es. dir_wf es \<and> resize k (bytes_of ob) = encode_dir es)" using plain by simp
  with inv plain(1) show ?thesis
    by (cases rule: assign_content_cases [where s = s and d = "resize k (bytes_of ob)" and err = ContentTooLarge])
      (use assms plain in \<open>auto simp: truncate_eq_assign fs_get [OF inv]\<close>)
qed (use assms(3) in auto)

lemma remove_child_ok:
  assumes inv: "fs_inv arena fs" and j: "fs_journal fs = None" and ob: "objs fs p = Some ob" "ob_content_type ob = Structured"
    and es: "dir_wf es" "bytes_of ob = encode_dir es" "map_of es n = Some s" "length es < 6"
  shows "\<exists>fs'. remove_child fs p n = (fs', Ok s)"
proof -
  obtain i where i: "position (\<lambda>x. fst x = n) es = Some i"
    using es(3) by (cases "position (\<lambda>x. fst x = n) es") (use map_of_SomeD [OF es(3)] in \<open>auto simp: position_None_iff\<close>)
  let ?es = "take i es @ drop (Suc i) es"
  have wf: "dir_wf ?es" using dir_wf_remove es(1) by blast
  have s: "snd (es ! i) = s" using map_of_remove(2) [OF _ i] es(1,3) by (simp add: dir_wf_def)
  have "length ?es \<le> length es" by simp
  then have l: "length (encode_dir ?es) \<le> 256" using length_encode_dir [OF wf] es(4) by linarith
  have a: "remove_child fs p n = (case assign_content (fs\<lparr>fs_journal := None\<rparr>) p (encode_dir ?es) Corrupt of
      (fs', Inl e) \<Rightarrow> (fs', Err e) | (fs', Inr _) \<Rightarrow> (fs', Ok s))"
    using ob es dir_length [OF es(1)] j i s remove_dir_entry_encode [OF es(1), of n]
    by (simp add: remove_child_def rewrite_dir_def fs_get [OF inv])
  have "fs_inv arena (fs\<lparr>fs_journal := None\<rparr>)" "objs (fs\<lparr>fs_journal := None\<rparr>) p = Some ob"
    "ob_content_type ob = Structured \<longrightarrow> (\<exists>es'. dir_wf es' \<and> encode_dir ?es = encode_dir es')" using wf inv ob(1) by auto
  then show ?thesis
    by (cases rule: assign_content_cases [where s = p and d = "encode_dir ?es" and err = Corrupt]) (use a l in auto)
qed

lemma rename_ok:
  assumes inv: "fs_inv arena fs" and j: "fs_journal fs = None" and u: "utf8_valid new_path"
    and p: "split_parent old_path = Ok (opp, on)" "split_parent new_path = Ok (npp, nn)" "resolve fs opp = Ok op" "resolve fs npp = Ok np"
    and np: "objs fs np = Some nb" "ob_content_type nb = Structured" "dir_wf es" "bytes_of nb = encode_dir es" "nn \<notin> fst ` set es" "length es < 5"
    and op: "objs fs op = Some b" "ob_content_type b = Structured" "dir_wf es'" "bytes_of b = encode_dir es'" "map_of es' on = Some s" "length es' < 5"
    and ne: "op \<noteq> np"
  shows "\<exists>fs'. rename fs env old_path new_path = (fs', Ok ())"
proof -
  have n: "name_ok nn" using split_parent_name_ok [OF p(2) u] by simp
  have v: "view fs np = Some (DirN (map_of es))" "view fs op = Some (DirN (map_of es'))"
    using np op by (simp_all add: view_def node_of_dir)
  have l: "lookup_in_dir fs np nn = Err NotFound" "lookup_in_dir fs op on = Ok s"
    using v np(5) op(5) by (simp_all add: lookup_in_dir_view [OF inv] view_lookup.simps map_of_eq_None_iff [THEN iffD2])
  obtain fs1 where a: "add_child fs np nn s = (fs1, Ok ())"
    using add_child_ok [OF inv np(1-4) n np(5,6) j] by blast
  have j1: "fs_journal fs1 = None" using add_child_journal [OF j, of np nn s] a by simp
  from inv n show ?thesis
  proof (cases rule: add_child_cases [where p = np and s = s])
    case (updated fs1' d)
    then have i: "fs_inv arena fs1" "view fs1 op = Some (DirN (map_of es'))" using a v(2) ne by simp_all
    have o: "objs fs1 op = Some b" using add_child_objs [OF inv ne, of nn s] a op(1) by simp
    obtain fs2 where "remove_child fs1 op on = (fs2, Ok s)"
      using remove_child_ok [OF i(1) j1 o op(2-5)] op(6) by auto
    then show ?thesis using p l a by (simp add: rename_def)
  qed (use a in simp)
qed

text \<open>The table behind a directory of the view.\<close>

lemma dir_of_view:
  assumes inv: "fs_inv arena fs" and v: "view fs p = Some (DirN d)"
  obtains ob es where "objs fs p = Some ob" "ob_content_type ob = Structured" "dir_wf es" "bytes_of ob = encode_dir es"
    "map_of es = d" "length es = card (dom d)"
  using inv
proof (cases rule: node_cases [where s = p])
  case (dir ob es)
  then have "length es = card (fst ` set es)" using distinct_card [of "map fst es"] by (simp add: dir_wf_def)
  then show ?thesis using that [of ob es] dir v by (simp add: dom_map_of_conv_image_fst)
qed (use v in auto)

lemma unlink_ok:
  assumes inv: "fs_inv arena fs" and j: "fs_journal fs = None" and path: "split_parent path = Ok (parent, n)" "resolve fs parent = Ok p"
    and v: "view fs p = Some (DirN d)" "d n = Some s" "card (dom d) < 6" "view fs s = Some (FileN b)"
  shows "\<exists>fs'. unlink fs path = (fs', Ok ())"
proof -
  obtain ob es where o: "objs fs p = Some ob" "ob_content_type ob = Structured" "dir_wf es" "bytes_of ob = encode_dir es"
    "map_of es = d" "length es = card (dom d)" using dir_of_view [OF inv v(1)] .
  then obtain fs1 where r: "remove_child fs p n = (fs1, Ok s)"
    using remove_child_ok [OF inv j o(1-4), of n s] v by auto
  obtain q where q: "objs fs s = Some q" "ob_content_type q \<noteq> Structured"
    using v(4) by (auto simp: view_def node_of_def split: if_splits)
  have "lookup_in_dir fs p n = Ok s" using v by (simp add: lookup_in_dir_view [OF inv] view_lookup.simps)
  then show ?thesis using path r q by (simp add: unlink_def fs_get [OF inv])
qed

end
