(* ===== verification/Namespace_Correct.thy ===== *)
theory Namespace_Correct
  imports Namespace_Ops
begin

text \<open>
  The properties of the namespace: every reachable namespace is consistent, what is created can be
  found and read back, what is removed is gone, and what a rename does to the directory tree.
\<close>

section \<open>Witness states\<close>

definition env0 :: platform where
  "env0 = \<lparr>pl_random = Some (replicate 16 0), pl_clock = Some 5\<rparr>"

abbreviation boot0 :: "unit fs" where "boot0 \<equiv> ns_boot 4096 None"

abbreviation path_a :: "u8 list" where "path_a \<equiv> [0x2F, 0x61]"

definition suid0 :: suid where "suid0 = suid_new 0x1000000000000000 0"

lemma mint_env0: "snd (mint_suid fs env0) = suid0"
proof -
  have "snd (mint_suid fs env0) = (let buf = replicate 16 0; h = of_be_bytes (slice 0 8 buf); l = of_be_bytes (slice 8 8 buf)
       in suid_new ((h AND 0x0FFFFFFFFFFFFFFF) OR push_bit 60 1) l)"
    by (simp add: mint_suid_def env0_def Let_def)
  also have "\<dots> = suid0" by code_simp
  finally show ?thesis .
qed

lemma path_a_facts: "utf8_valid path_a" "split_parent path_a = Ok ([SLASH], [0x61])" "plain_path path_a"
proof -
  show "utf8_valid path_a" by code_simp
  show "split_parent path_a = Ok ([SLASH], [0x61])" by code_simp
  show "plain_path path_a" by code_simp
qed

lemma resolve_root: "resolve fs [SLASH] = Ok ROOT_SUID"
  by (simp add: resolve_def for_each_component_def MAX_PATH_LEN_def)

lemma boot0_create: "\<exists>fs'. create_file boot0 env0 path_a Public [1, 2, 3] = (fs', Ok suid0)"
proof -
  obtain ob where ob: "objs boot0 = [ROOT_SUID \<mapsto> ob]" "ob_content_type ob = Structured" "bytes_of ob = encode_dir []"
    "rg_count (fs_reg boot0) = 1" "fs_journal boot0 = None" by (rule ns_boot_root)
  have "suid0 \<noteq> ROOT_SUID" by code_simp
  then have "objs boot0 (snd (mint_suid boot0 env0)) = None" using ob(1) by (simp add: mint_env0)
  from create_file_ok [OF fs_inv_boot ob(5) path_a_facts(1,2) resolve_root _ ob(2) _ ob(3) _ _ this, of "[1, 2, 3]" Public]
  show ?thesis using ob by (simp add: mint_env0 dir_wf_def MAX_OBJECTS_def)
qed

definition fs_a :: "unit fs" where
  "fs_a = fst (create_file boot0 env0 path_a Public [1, 2, 3])"

lemma fs_a_facts:
  shows "create_file boot0 env0 path_a Public [1, 2, 3] = (fs_a, Ok suid0)" and "fs_inv 4096 fs_a" and "fs_journal fs_a = None"
    and "resolve fs_a path_a = Ok suid0" and "view fs_a suid0 = Some (FileN (Some [1, 2, 3]))"
proof -
  show c: "create_file boot0 env0 path_a Public [1, 2, 3] = (fs_a, Ok suid0)" using boot0_create by (auto simp: fs_a_def)
  have cr: "created 4096 boot0 path_a (FileN (Some [1, 2, 3])) fs_a (Ok suid0)"
    by (rule create_file_created [OF fs_inv_boot path_a_facts(1) c])
  then show i: "fs_inv 4096 fs_a" by (simp add: created_def)
  obtain d where d: "((view boot0)(suid0 \<mapsto> FileN (Some [1, 2, 3]))) ROOT_SUID = Some (DirN d)" "d [0x61] = None" "view boot0 suid0 = None"
    "view fs_a = (view boot0)(suid0 \<mapsto> FileN (Some [1, 2, 3]), ROOT_SUID \<mapsto> DirN (d([0x61] \<mapsto> suid0)))"
    using cr path_a_facts(2) resolve_root [of boot0] by (auto simp: created_def)
  show "resolve fs_a path_a = Ok suid0"
    using created_view(2) [OF fs_inv_boot i d(3) refl d(1,2,4) path_a_facts(2) resolve_root path_a_facts(3)] .
  have "suid0 \<noteq> ROOT_SUID" by code_simp
  then show "view fs_a suid0 = Some (FileN (Some [1, 2, 3]))" using d(4) by simp
  have "fs_journal boot0 = None" by (rule ns_boot_root)
  then show "fs_journal fs_a = None" using created_no_journal(1) [OF fs_inv_boot] by (simp add: fs_a_def)
qed

lemma boot0_view: "view boot0 = [ROOT_SUID \<mapsto> DirN Map.empty]"
proof -
  obtain ob where ob: "objs boot0 = [ROOT_SUID \<mapsto> ob]" "ob_content_type ob = Structured" "bytes_of ob = encode_dir []"
    by (rule ns_boot_root)
  then have "node_of ob = DirN Map.empty" using node_of_dir [OF ob(2) _ ob(3)] by (simp add: dir_wf_def)
  then show ?thesis using ob(1) by (auto simp: view_def fun_eq_iff)
qed

lemma fs_a_root: "view fs_a ROOT_SUID = Some (DirN [[0x61] \<mapsto> suid0])" "card (dom [[0x61 :: u8] \<mapsto> suid0]) = 1"
proof -
  have "created 4096 boot0 path_a (FileN (Some [1, 2, 3])) fs_a (Ok suid0)"
    by (rule create_file_created [OF fs_inv_boot path_a_facts(1) fs_a_facts(1)])
  moreover have "suid0 \<noteq> ROOT_SUID" by code_simp
  ultimately show "view fs_a ROOT_SUID = Some (DirN [[0x61] \<mapsto> suid0])"
    using path_a_facts(2) resolve_root [of boot0] by (auto simp: created_def boot0_view)
qed simp

definition fs_d :: "unit fs" where
  "fs_d = fst (mkdir boot0 env0 path_a)"

lemma fs_d_facts:
  shows "mkdir boot0 env0 path_a = (fs_d, Ok suid0)" and "fs_inv 4096 fs_d" and "fs_journal fs_d = None"
    and "resolve fs_d path_a = Ok suid0" and "view fs_d suid0 = Some (DirN Map.empty)"
    and "view fs_d ROOT_SUID = Some (DirN [[0x61] \<mapsto> suid0])" and "view fs_d = [suid0 \<mapsto> DirN Map.empty, ROOT_SUID \<mapsto> DirN [[0x61] \<mapsto> suid0]]"
proof -
  have ne: "suid0 \<noteq> ROOT_SUID" by code_simp
  obtain ob where ob: "objs boot0 = [ROOT_SUID \<mapsto> ob]" "ob_content_type ob = Structured" "bytes_of ob = encode_dir []"
    "rg_count (fs_reg boot0) = 1" "fs_journal boot0 = None" by (rule ns_boot_root)
  then have "objs boot0 (snd (mint_suid boot0 env0)) = None" using ne by (simp add: mint_env0)
  from mkdir_ok [OF fs_inv_boot ob(5) path_a_facts(1,2) resolve_root _ ob(2) _ ob(3) _ _ this]
  show c: "mkdir boot0 env0 path_a = (fs_d, Ok suid0)" using ob by (auto simp: mint_env0 dir_wf_def MAX_OBJECTS_def fs_d_def)
  have cr: "created 4096 boot0 path_a (DirN Map.empty) fs_d (Ok suid0)"
    by (rule mkdir_created [OF fs_inv_boot path_a_facts(1) c])
  then show i: "fs_inv 4096 fs_d" by (simp add: created_def)
  have d: "((view boot0)(suid0 \<mapsto> DirN Map.empty)) ROOT_SUID = Some (DirN Map.empty)" "view boot0 suid0 = None"
    "view fs_d = (view boot0)(suid0 \<mapsto> DirN Map.empty, ROOT_SUID \<mapsto> DirN [[0x61] \<mapsto> suid0])"
    using cr ne path_a_facts(2) resolve_root [of boot0] by (auto simp: created_def boot0_view)
  show "resolve fs_d path_a = Ok suid0"
    using created_view(2) [OF fs_inv_boot i d(2) refl d(1) _ d(3) path_a_facts(2) resolve_root path_a_facts(3)] by simp
  show "view fs_d suid0 = Some (DirN Map.empty)" "view fs_d ROOT_SUID = Some (DirN [[0x61] \<mapsto> suid0])" using d(3) ne by simp_all
  show "view fs_d = [suid0 \<mapsto> DirN Map.empty, ROOT_SUID \<mapsto> DirN [[0x61] \<mapsto> suid0]]" using d(3) ne by (auto simp: boot0_view)
  show "fs_journal fs_d = None" using created_no_journal(2) [OF fs_inv_boot ob(5)] by (simp add: fs_d_def)
qed

lemma fs_d_rename: "\<exists>fs'. rename fs_d env0 path_a [0x2F, 0x61, 0x2F, 0x62] = (fs', Ok ())"
proof -
  have p: "split_parent [0x2F, 0x61, 0x2F, 0x62] = Ok (path_a, [0x62])" by code_simp
  have u: "utf8_valid [0x2F, 0x61, 0x2F, 0x62]" by code_simp
  have ne: "ROOT_SUID \<noteq> suid0" by code_simp
  obtain nb es where n: "objs fs_d suid0 = Some nb" "ob_content_type nb = Structured" "dir_wf es" "bytes_of nb = encode_dir es"
    "map_of es = Map.empty" "length es = card (dom (Map.empty :: u8 list \<rightharpoonup> suid))" using dir_of_view [OF fs_d_facts(2,5)] .
  obtain b es' where o: "objs fs_d ROOT_SUID = Some b" "ob_content_type b = Structured" "dir_wf es'" "bytes_of b = encode_dir es'"
    "map_of es' = [[0x61] \<mapsto> suid0]" "length es' = card (dom [[0x61 :: u8] \<mapsto> suid0])" using dir_of_view [OF fs_d_facts(2,6)] .
  show ?thesis
    using rename_ok [OF fs_d_facts(2,3) u path_a_facts(2) p resolve_root fs_d_facts(4) n(1-4) _ _ o(1-4) _ _ ne] n(6) o(5,6) by simp
qed

section \<open>Consistency\<close>

lemma visit_errors:
  assumes "visit_components f d st cs = Err e" and "\<And>st c e. f st c = Err e \<Longrightarrow> e \<in> E"
  shows "e \<in> E \<union> {EmptyComponent, ComponentTooLong, TooDeep}"
  using assms(1)
proof (induction cs arbitrary: d st)
  case (Cons c cs)
  then show ?case using assms(2) [of st c] by (auto split: if_splits sum.splits)
qed simp

lemma resolve_errors:
  assumes inv: "fs_inv arena fs" and "resolve fs path = Err e"
  shows "e \<in> {NotFound, NotADirectory, EmptyComponent, ComponentTooLong, TooDeep, PathTooLong, NotAbsolute}"
proof -
  have l: "e \<in> {NotFound, NotADirectory}" if "lookup_in_dir fs p n = Err e" for p n e
    using that unfolding lookup_in_dir_view [OF inv] by (auto simp: view_lookup.simps split: option.splits node.splits)
  have "e \<in> {NotFound, NotADirectory} \<union> {EmptyComponent, ComponentTooLong, TooDeep}"
    if "visit_components (lookup_in_dir fs) d st cs = Err e" for d st cs
    using that l by (rule visit_errors)
  then show ?thesis using assms(2) by (auto simp: resolve_def for_each_component_def split: if_splits list.splits)
qed

text \<open>
  (C1) In every namespace reachable from boot by any sequence of directory creations, file
  creations, writes, removals, renames and truncations, with any journal and any answers of the
  random source and the clock: every directory holds a well-formed table of at most 64 distinct
  valid names; the heap blocks of any two objects are disjoint and dropping the content of any
  object succeeds and frees exactly its own block; and no path resolves to the error \<open>Corrupt\<close>.
\<close>

theorem namespace_always_consistent:
  assumes "ns_reach arena fs"
  shows "(\<forall>s ob. reg_get (fs_reg fs) s = Some ob \<longrightarrow>
             (ob_content_type ob = Structured \<longrightarrow> (\<exists>es. dir_wf es \<and> bytes_of ob = encode_dir es))
             \<and> (\<exists>h. content_drop (fs_heap fs) (ob_content ob) = Some h
                  \<and> dom (hp_used h) = dom (hp_used (fs_heap fs)) - owned_blocks (ob_content ob)))
    \<and> (\<forall>s s' ob ob'. reg_get (fs_reg fs) s = Some ob \<and> reg_get (fs_reg fs) s' = Some ob' \<and> s \<noteq> s'
         \<longrightarrow> owned_blocks (ob_content ob) \<inter> owned_blocks (ob_content ob') = {})
    \<and> (\<forall>path. resolve fs path \<noteq> Err Corrupt)"
proof (intro conjI allI impI)
  have inv: "fs_inv arena fs" using assms by (rule fs_inv_reach)
  note m = fs_inv_mem [OF inv]
  fix s ob assume o: "reg_get (fs_reg fs) s = Some ob"
  then have ob: "objs fs s = Some ob" by (simp add: fs_get [OF inv])
  show "\<exists>es. dir_wf es \<and> bytes_of ob = encode_dir es" if "ob_content_type ob = Structured"
    using fs_inv_dir_ok [OF inv ob] that by (simp add: dir_ok_def)
  have "owned_blocks (ob_content ob) \<subseteq> dom (hp_used (fs_heap fs))" using m ob by (auto simp: mem_inv_def)
  from content_drop_heap [OF mem_inv_heap [OF m] this ob_wf_content_wf [OF mem_inv_ob [OF m ob]]]
  show "\<exists>h. content_drop (fs_heap fs) (ob_content ob) = Some h
          \<and> dom (hp_used h) = dom (hp_used (fs_heap fs)) - owned_blocks (ob_content ob)" by metis
next
  have inv: "fs_inv arena fs" using assms by (rule fs_inv_reach)
  fix s s' ob ob' assume "reg_get (fs_reg fs) s = Some ob \<and> reg_get (fs_reg fs) s' = Some ob' \<and> s \<noteq> s'"
  then show "owned_blocks (ob_content ob) \<inter> owned_blocks (ob_content ob') = {}"
    using fs_inv_mem [OF inv] unfolding mem_inv_def fs_get [OF inv] by blast
next
  have inv: "fs_inv arena fs" using assms by (rule fs_inv_reach)
  show "resolve fs path \<noteq> Err Corrupt" for path using resolve_errors [OF inv] by blast
qed

theorem namespace_always_consistent_witness:
  "ns_reach 4096 fs_a \<and> resolve fs_a [0x2F, 0x62] \<noteq> Err Corrupt"
proof -
  have "ns_step boot0 fs_a" unfolding fs_a_def by (rule Create) (rule path_a_facts(1))
  then have r: "ns_reach 4096 fs_a" by (rule Step [OF Boot])
  from namespace_always_consistent [OF r] r show ?thesis by blast
qed

section \<open>Creation\<close>

text \<open>
  (C18) Creating a file. On success the identifier is new, the parent of the path is a directory that
  had no entry of that name, and the only changes are the new file object with exactly the given
  bytes and the new entry; every path that resolved before resolves to the same object; and if the path is a plain one, with at most 32
  components and not beginning with two slashes, it resolves to the new file and reads back the bytes. (The call also succeeds for
  a path that begins with two slashes, and for one of 33 components, which then does not resolve.) On an error the tree is unchanged, except
  that a file object with no name may remain.
\<close>

theorem create_file_correct:
  assumes "fs_inv arena fs" and "utf8_valid path" and "create_file fs env path t content = (fs', r)"
  shows "fs_inv arena fs'
    \<and> (case r of
         Inr s \<Rightarrow> view fs s = None
           \<and> (\<exists>parent name p d. split_parent path = Ok (parent, name) \<and> resolve fs parent = Ok p
                \<and> view fs p = Some (DirN d) \<and> d name = None
                \<and> view fs' = (view fs)(s \<mapsto> FileN (Some content), p \<mapsto> DirN (d(name \<mapsto> s))))
           \<and> (\<forall>q x. resolve fs q = Ok x \<longrightarrow> resolve fs' q = Ok x)
           \<and> (plain_path path \<longrightarrow> resolve fs' path = Ok s \<and> (\<forall>k. read_file_into fs' path k = Ok (take k content)))
       | Inl _ \<Rightarrow> view fs' = view fs \<or> (\<exists>s. view fs s = None \<and> view fs' = (view fs)(s \<mapsto> FileN (Some content))))"
proof -
  have cr: "created arena fs path (FileN (Some content)) fs' r" using assms by (rule create_file_created)
  then have inv': "fs_inv arena fs'" by (simp add: created_def)
  show ?thesis
  proof (cases r)
    case (Inr s)
    then obtain parent name p d where c: "view fs s = None" "split_parent path = Ok (parent, name)" "resolve fs parent = Ok p"
      "((view fs)(s \<mapsto> FileN (Some content))) p = Some (DirN d)" "d name = None"
      "view fs' = (view fs)(s \<mapsto> FileN (Some content), p \<mapsto> DirN (d(name \<mapsto> s)))"
      using cr by (auto simp: created_def)
    have p: "p \<noteq> s" "view fs p = Some (DirN d)" using c(4) by (auto split: if_splits)
    note V = created_view [OF assms(1) inv' c(1) refl c(4,5,6,2,3)]
    have v: "view fs' s = Some (FileN (Some content))" using c(6) p(1) by simp
    have q: "resolve fs' q = Ok x" if "resolve fs q = Ok x" for q x by (rule resolve_mono [OF assms(1) inv' V(1) that])
    have rd: "read_file_into fs' path k = Ok (take k content)" if "plain_path path" for k
      using read_view [OF inv' V(2) [OF that] v] by simp
    show ?thesis using Inr inv' c p V(2) q rd by auto
  qed (use cr inv' in \<open>auto simp: created_def\<close>)
qed

theorem create_file_correct_witness:
  "fs_inv 4096 boot0 \<and> utf8_valid path_a \<and> create_file boot0 env0 path_a Public [1, 2, 3] = (fs_a, Ok suid0)
   \<and> resolve fs_a path_a = Ok suid0 \<and> read_file_into fs_a path_a 2 = Ok [1, 2]"
  using create_file_correct [OF fs_inv_boot path_a_facts(1) fs_a_facts(1)] fs_a_facts(1) path_a_facts fs_inv_boot by simp

text \<open>
  Creating a directory, likewise: on success the new object is an empty directory, entered in a
  parent that had no such name, and the path resolves to it and lists as empty; on an error at most a
  nameless directory object is added.
\<close>

theorem mkdir_correct:
  assumes "fs_inv arena fs" and "utf8_valid path" and "mkdir fs env path = (fs', r)"
  shows "fs_inv arena fs'
    \<and> (case r of
         Inr s \<Rightarrow> view fs s = None
           \<and> (\<exists>parent name p d. split_parent path = Ok (parent, name) \<and> resolve fs parent = Ok p
                \<and> ((view fs)(s \<mapsto> DirN Map.empty)) p = Some (DirN d) \<and> d name = None
                \<and> view fs' = (view fs)(s \<mapsto> DirN Map.empty, p \<mapsto> DirN (d(name \<mapsto> s))))
           \<and> (\<forall>q x. resolve fs q = Ok x \<longrightarrow> resolve fs' q = Ok x)
           \<and> (plain_path path \<longrightarrow> resolve fs' path = Ok s)
       | Inl _ \<Rightarrow> view fs' = view fs \<or> (\<exists>s. view fs s = None \<and> view fs' = (view fs)(s \<mapsto> DirN Map.empty)))"
proof -
  have cr: "created arena fs path (DirN Map.empty) fs' r" using assms by (rule mkdir_created)
  then have inv': "fs_inv arena fs'" by (simp add: created_def)
  show ?thesis
  proof (cases r)
    case (Inr s)
    then obtain parent name p d where c: "view fs s = None" "split_parent path = Ok (parent, name)" "resolve fs parent = Ok p"
      "((view fs)(s \<mapsto> DirN Map.empty)) p = Some (DirN d)" "d name = None"
      "view fs' = (view fs)(s \<mapsto> DirN Map.empty, p \<mapsto> DirN (d(name \<mapsto> s)))"
      using cr by (auto simp: created_def)
    note V = created_view [OF assms(1) inv' c(1) refl c(4,5,6,2,3)]
    have q: "resolve fs' q = Ok x" if "resolve fs q = Ok x" for q x by (rule resolve_mono [OF assms(1) inv' V(1) that])
    show ?thesis unfolding Inr sum.case
      by (intro conjI exI [of _ parent] exI [of _ name] exI [of _ p] exI [of _ d]) (use inv' c V(2) q in auto)
  qed (use cr inv' in \<open>auto simp: created_def\<close>)
qed

theorem mkdir_correct_witness:
  "fs_inv 4096 boot0 \<and> utf8_valid path_a \<and> mkdir boot0 env0 path_a = (fs_d, Ok suid0) \<and> resolve fs_d path_a = Ok suid0"
  using mkdir_correct [OF fs_inv_boot path_a_facts(1) fs_d_facts(1)] fs_d_facts(1) path_a_facts fs_inv_boot by simp

section \<open>Writing\<close>

text \<open>
  (C31) Writing a file. On success the path named a file, its bytes are now exactly the given ones
  (the read-back says so for every buffer size) and nothing else of the tree changed; on an error,
  a full heap or a failed journal included, no file or directory changed.
\<close>

theorem write_file_correct:
  assumes "fs_inv arena fs" and "write_file fs env path content = (fs', r)"
  shows "fs_inv arena fs'
    \<and> (case r of
         Inr _ \<Rightarrow> (\<exists>s b. resolve fs path = Ok s \<and> view fs s = Some (FileN b)
                     \<and> view fs' = (view fs)(s \<mapsto> FileN (Some content)))
                \<and> (\<forall>k. read_file_into fs' path k = Ok (take k content))
       | Inl _ \<Rightarrow> view fs' = view fs)"
proof -
  have w: "rewritten arena fs path (\<lambda>_. content) fs' r" using assms by (rule write_file_rewritten)
  show ?thesis using w rewritten_read [OF assms(1), of path "\<lambda>_. content" fs']
    by (cases r) (auto simp: rewritten_def)
qed

theorem write_file_correct_witness:
  "\<exists>fs'. fs_inv 4096 fs_a \<and> write_file fs_a env0 path_a [9, 8] = (fs', Ok ()) \<and> read_file_into fs' path_a 10 = Ok [9, 8]"
proof -
  obtain fs' where w: "write_file fs_a env0 path_a [9, 8] = (fs', Ok ())"
    using write_file_ok [OF fs_a_facts(2,3,4,5), of "[9, 8]" env0] by auto
  from write_file_correct [OF fs_a_facts(2) w] fs_a_facts(2) w show ?thesis by auto
qed

text \<open>
  Truncating a file to \<open>k\<close> bytes. On success the file at the path now holds the first \<open>k\<close> of
  its bytes, padded with zeros if it was shorter, and nothing else changed; on an error nothing
  changed.
\<close>

theorem truncate_correct:
  assumes "fs_inv arena fs" and "truncate fs env path k = (fs', r)"
  shows "fs_inv arena fs'
    \<and> (case r of
         Inr _ \<Rightarrow> (\<exists>s b. resolve fs path = Ok s \<and> view fs s = Some (FileN b)
                     \<and> view fs' = (view fs)(s \<mapsto> FileN (Some (let bs = (case b of Some x \<Rightarrow> x | None \<Rightarrow> [])
                                                            in take k bs @ replicate (k - length bs) 0))))
       | Inl _ \<Rightarrow> view fs' = view fs)"
  using truncate_rewritten [OF assms] by (cases r) (auto simp: rewritten_def resize_def Let_def)

theorem truncate_correct_witness:
  "\<exists>fs' s. fs_inv 4096 fs_a \<and> truncate fs_a env0 path_a 5 = (fs', Ok ()) \<and> view fs' suid0 = Some (FileN (Some [1, 2, 3, 0, 0]))"
proof -
  obtain fs' where w: "truncate fs_a env0 path_a 5 = (fs', Ok ())"
    using truncate_ok [OF fs_a_facts(2,4,5), of 5 env0] by auto
  from truncate_correct [OF fs_a_facts(2) w] fs_a_facts(2,4,5) w show ?thesis
    by (auto simp: numeral_eq_Suc)
qed

section \<open>Removal and renaming\<close>

text \<open>
  (C29) Removing a name. On success the entry was there and named an object that, if a directory,
  was empty; the entry is gone from its directory, and the object with it exactly when the journal, as it is after the
  directory was rewritten, accepted the record of the removal; nothing else changed. Afterwards a plain path, with at most 32
  components and not beginning with two slashes, gives NotFound. On an error nothing changed.
\<close>

theorem unlink_correct:
  assumes "fs_inv arena fs" and "unlink fs path = (fs', r)"
  shows "fs_inv arena fs'
    \<and> (case r of
         Inr _ \<Rightarrow>
           (\<exists>parent n p d s fs1. split_parent path = Ok (parent, n) \<and> resolve fs parent = Ok p \<and> view fs p = Some (DirN d)
              \<and> d n = Some s \<and> (\<forall>m. view fs s = Some (DirN m) \<longrightarrow> m = Map.empty) \<and> remove_child fs p n = (fs1, Ok s)
              \<and> view fs' = (if snd (on_remove (fs_journal fs1) s) then (view fs)(p \<mapsto> DirN (d(n := None)), s := None)
                            else (view fs)(p \<mapsto> DirN (d(n := None)))))
           \<and> (plain_path path \<longrightarrow> resolve fs' path = Err NotFound)
       | Inl _ \<Rightarrow> view fs' = view fs)"
  using assms(1)
proof (cases rule: unlink_cases [where path = path])
  case (removed fs'' parent n p d s fs1)
  have fs': "fs'' = fs'" "r = Ok ()" using removed(1) assms(2) by simp_all
  have sh: "view_shrink (view fs) (view fs')"
    using removed(10) view_shrink_object view_shrink_entry [where v = "view fs" and p = p and d = d and n = n, OF removed(5)]
    unfolding fs'(1) by metis
  have res: "resolve fs' path = Err NotFound" if "plain_path path"
  proof -
    have "view_resolve (view fs') parent = Ok p \<or> view_resolve (view fs') parent = Err NotFound"
      using view_resolve_shrink [OF sh] removed(4) resolve_view [OF assms(1)] by simp
    moreover have "view_lookup (view fs') p n = Err NotFound" using removed(10) fs'(1) by (auto simp: view_lookup.simps)
    ultimately show ?thesis
      using view_resolve_snoc [OF removed(3) that, of "view fs'"] resolve_view [OF removed(2)] fs'(1) by auto
  qed
  show ?thesis unfolding fs'(2) sum.case
  proof (intro conjI impI)
    show "\<exists>parent n p d s fs1. split_parent path = Ok (parent, n) \<and> resolve fs parent = Ok p \<and> view fs p = Some (DirN d)
              \<and> d n = Some s \<and> (\<forall>m. view fs s = Some (DirN m) \<longrightarrow> m = Map.empty) \<and> remove_child fs p n = (fs1, Ok s)
              \<and> view fs' = (if snd (on_remove (fs_journal fs1) s) then (view fs)(p \<mapsto> DirN (d(n := None)), s := None)
                            else (view fs)(p \<mapsto> DirN (d(n := None))))"
      by (rule exI [of _ parent], rule exI [of _ n], rule exI [of _ p], rule exI [of _ d], rule exI [of _ s], rule exI [of _ fs1])
        (use removed(3-6,8-10) fs'(1) in blast)
  qed (use removed(2) fs' res in auto)
qed (use assms(2) in auto)

theorem unlink_correct_witness:
  "\<exists>fs'. fs_inv 4096 fs_a \<and> unlink fs_a path_a = (fs', Ok ()) \<and> resolve fs_a path_a = Ok suid0 \<and> resolve fs' path_a = Err NotFound"
proof -
  obtain fs' where u: "unlink fs_a path_a = (fs', Ok ())"
    using unlink_ok [OF fs_a_facts(2,3) path_a_facts(2) resolve_root fs_a_root(1) _ _ fs_a_facts(5)] by (auto simp: fs_a_root)
  from unlink_correct [OF fs_a_facts(2) u] fs_a_facts(2,4) path_a_facts(3) u show ?thesis by auto
qed

text \<open>
  (C30) Renaming. On success exactly one entry of the whole tree moved: looking up the new name in the
  new parent gives the object, looking up the old name in the old parent finds nothing, and every
  other lookup in every directory answers as before. No file's bytes changed. On an error the tree is
  unchanged, or the object of the old path has in addition the new name: then the new name was added, the removal of the old
  one failed with the error that is returned, and the removal of the new name that should undo the first step failed too.
\<close>

theorem rename_correct:
  assumes "fs_inv arena fs" and "utf8_valid new_path" and "rename fs env old_path new_path = (fs', r)"
  shows "fs_inv arena fs'
    \<and> (case r of
         Inr _ \<Rightarrow>
           (\<exists>opp on npp nn op np s. split_parent old_path = Ok (opp, on) \<and> split_parent new_path = Ok (npp, nn)
              \<and> resolve fs opp = Ok op \<and> resolve fs npp = Ok np
              \<and> lookup_in_dir fs op on = Ok s \<and> lookup_in_dir fs np nn = Err NotFound
              \<and> (\<forall>p n. lookup_in_dir fs' p n =
                    (if (p, n) = (np, nn) then Ok s else if (p, n) = (op, on) then Err NotFound else lookup_in_dir fs p n)))
           \<and> (\<forall>x b. view fs' x = Some (FileN b) \<longleftrightarrow> view fs x = Some (FileN b))
       | Inl e \<Rightarrow> view fs' = view fs
           \<or> (\<exists>opp on npp nn op np s d fs1 fs2 e'. split_parent old_path = Ok (opp, on) \<and> split_parent new_path = Ok (npp, nn)
                \<and> resolve fs opp = Ok op \<and> resolve fs npp = Ok np \<and> lookup_in_dir fs op on = Ok s
                \<and> view fs np = Some (DirN d) \<and> d nn = None \<and> view fs' = (view fs)(np \<mapsto> DirN (d(nn \<mapsto> s)))
                \<and> add_child fs np nn s = (fs1, Ok ()) \<and> remove_child fs1 op on = (fs2, Err e) \<and> remove_child fs2 np nn = (fs', Err e')))"
  using assms(1,2)
proof (cases rule: rename_cases [where env = env and old_path = old_path])
  case (both fs'' e opp on npp nn op np s d fs1 fs2 e')
  have fs': "fs'' = fs'" "r = Err e" using both(1) assms(3) by simp_all
  show ?thesis unfolding fs'(2) sum.case lookup_in_dir_view [OF assms(1)]
    using both(2-13) unfolding fs'(1) by blast
next
  case (moved fs'' opp on npp nn op np s d d')
  have fs': "fs'' = fs'" "r = Ok ()" using moved(1) assms(3) by simp_all
  have i': "fs_inv arena fs'" using moved(2) fs' by simp
  have ne: "(op, on) \<noteq> (np, nn)" using moved(7,8,9) by (auto simp: view_lookup.simps)
  have v': "view fs' = (view fs)(np \<mapsto> DirN (d(nn \<mapsto> s)), op \<mapsto> DirN (d'(on := None)))" using moved(11) fs' by simp
  have L: "view_lookup (view fs') p n =
      (if (p, n) = (np, nn) then Ok s else if (p, n) = (op, on) then Err NotFound else view_lookup (view fs) p n)" for p n
    using moved(8-10) ne by (auto simp: v' view_lookup.simps split: if_splits option.splits node.splits)
  have F: "view fs' x = Some (FileN b) \<longleftrightarrow> view fs x = Some (FileN b)" for x b
    using moved(8,10) by (auto simp: v' split: if_splits)
  have n: "view_lookup (view fs) np nn = Err NotFound" using moved(8,9) by (simp add: view_lookup.simps)
  show ?thesis
    unfolding fs'(2) sum.case lookup_in_dir_view [OF assms(1)] lookup_in_dir_view [OF i']
    using i' moved(3-7) n L F by blast
qed (use assms(3) in auto)

theorem rename_correct_witness:
  "\<exists>fs'. fs_inv 4096 fs_d \<and> rename fs_d env0 path_a [0x2F, 0x61, 0x2F, 0x62] = (fs', Ok ())
     \<and> lookup_in_dir fs_d ROOT_SUID [0x61] = Ok suid0 \<and> lookup_in_dir fs' ROOT_SUID [0x61] = Err NotFound
     \<and> lookup_in_dir fs' suid0 [0x62] = Ok suid0"
proof -
  obtain fs' where w: "rename fs_d env0 path_a [0x2F, 0x61, 0x2F, 0x62] = (fs', Ok ())" using fs_d_rename by blast
  have p: "split_parent [0x2F, 0x61, 0x2F, 0x62] = Ok (path_a, [0x62])" by code_simp
  have u: "utf8_valid [0x2F, 0x61, 0x2F, 0x62]" by code_simp
  have ne: "suid0 \<noteq> ROOT_SUID" by code_simp
  have l: "lookup_in_dir fs_d ROOT_SUID [0x61] = Ok suid0"
    using fs_d_facts(6) by (simp add: lookup_in_dir_view [OF fs_d_facts(2)] view_lookup.simps)
  from rename_correct [OF fs_d_facts(2) u w] show ?thesis
    using fs_d_facts(2,4) path_a_facts(2) resolve_root [of fs_d] p w l ne by auto
qed

text \<open>A walk that starts outside an object and finds it under no name outside it never comes to it.\<close>

lemma visit_avoids:
  assumes "visit_components f d st cs = Ok r" "st \<noteq> s" "\<And>p k c. p \<noteq> s \<Longrightarrow> f p k = Ok c \<Longrightarrow> c \<noteq> s \<and> g p k = Ok c"
  shows "r \<noteq> s \<and> visit_components g d st cs = Ok r"
  using assms(1,2)
proof (induction cs arbitrary: d st)
  case (Cons c cs)
  then obtain st' where f: "f st c = Ok st'" "visit_components f (d + 1) st' cs = Ok r" "c \<noteq> []" "length c \<le> MAX_COMPONENT_LEN"
      "d + 1 \<le> MAX_PATH_DEPTH"
    by (auto split: if_splits sum.splits)
  then show ?case using assms(3) [OF Cons.prems(2) f(1)] Cons.IH [OF f(2)] by auto
qed simp

lemma view_resolve_avoids:
  assumes "view_resolve v q = Ok x" "s \<noteq> ROOT_SUID" "\<And>p k c. p \<noteq> s \<Longrightarrow> view_lookup v p k = Ok c \<Longrightarrow> c \<noteq> s \<and> view_lookup w p k = Ok c"
  shows "x \<noteq> s \<and> view_resolve w q = Ok x"
proof -
  have "visit_components (view_lookup v) 0 ROOT_SUID cs = Ok x \<Longrightarrow> x \<noteq> s \<and> visit_components (view_lookup w) 0 ROOT_SUID cs = Ok x" for cs
    using visit_avoids [where s = s] assms(2,3) by metis
  then show ?thesis using assms(1,2) by (auto simp: view_resolve_def for_each_component_def split: if_splits list.splits)
qed

lemma visit_prefix: "visit_components f d st (cs @ cs') = Ok r \<Longrightarrow> \<exists>x. visit_components f d st cs = Ok x"
  by (induction cs arbitrary: d st) (auto split: if_splits sum.splits)

lemma view_resolve_prefix: "view_resolve v (path @ SLASH # rest) = Ok x \<Longrightarrow> path \<noteq> [] \<Longrightarrow> \<exists>y. view_resolve v path = Ok y"
  using visit_prefix [of "view_lookup v" 0 ROOT_SUID "split_slash (tl path)" "split_slash rest" x]
  by (cases path) (auto simp: view_resolve_def for_each_component_def split_slash_append split: if_splits)

lemma detach_parent:
  assumes "v' = v(s \<mapsto> DirN (d(n \<mapsto> s)), op \<mapsto> DirN (d'(on := None)))" "v s = Some (DirN d)" "v op = Some (DirN d')" "op \<noteq> s"
    "d n = None" "view_resolve v opp = Ok op"
  shows "view_resolve v' opp = Ok op \<or> view_resolve v' opp = Err NotFound"
proof -
  have "view_shrink v v'" using assms(2-5) by (auto simp: assms(1) view_shrink_def view_lookup.simps split: option.splits node.splits)
  then show ?thesis using view_resolve_shrink assms(6) by blast
qed

text \<open>
  (C39) Nothing stops a directory from being renamed into itself, and such a rename cuts it off with all it contains.
  Let the directory be another one than the root, and let it have only one name. When the rename succeeds, the
  directory is its own child and keeps its other entries, but no path resolves to it any more and no path that goes
  on from its old path resolves at all; every path that still resolves gave the same object before.
\<close>

theorem rename_into_itself_detaches:
  assumes "fs_inv arena fs" and "utf8_valid (path @ SLASH # n)" and "plain_path path"
    and "split_parent (path @ SLASH # n) = Ok (path, n)" and "rename fs env path (path @ SLASH # n) = (fs', Ok ())"
    and "resolve fs path = Ok s" "s \<noteq> ROOT_SUID"
    and "\<And>p k q m. lookup_in_dir fs p k = Ok s \<Longrightarrow> lookup_in_dir fs q m = Ok s \<Longrightarrow> p = q \<and> k = m"
  shows "lookup_in_dir fs' s n = Ok s \<and> (\<forall>k. k \<noteq> n \<longrightarrow> lookup_in_dir fs' s k = lookup_in_dir fs s k)
    \<and> (\<forall>q. resolve fs' q \<noteq> Ok s) \<and> (\<forall>rest x. resolve fs' (path @ SLASH # rest) \<noteq> Ok x) \<and> resolve fs' path = Err NotFound
    \<and> (\<forall>q x. resolve fs' q = Ok x \<longrightarrow> resolve fs q = Ok x)"
  using assms(1,2)
proof (cases rule: rename_cases [where env = env and old_path = path])
  case (moved fs'' opp on npp nn op np c d d')
  have fs': "fs'' = fs'" using moved(1) assms(5) by simp
  have i': "fs_inv arena fs'" using moved(2) fs' by simp
  note L = lookup_in_dir_view [OF assms(1)] lookup_in_dir_view [OF i'] resolve_view [OF assms(1)] resolve_view [OF i']
  have np: "npp = path" "nn = n" "np = s" using moved(4,6) assms(4,6) by simp_all
  have c: "c = s" using view_resolve_snoc [OF moved(3) assms(3), of "view fs"] moved(5,7) assms(6) by (simp add: L)
  have one: "view_lookup (view fs) p k = Ok s \<Longrightarrow> p = op \<and> k = on" for p k using assms(8) moved(7) unfolding L c by blast
  have op: "op \<noteq> s"
  proof
    assume "op = s"
    then have "x \<noteq> s \<and> view_lookup (view fs) p k = Ok x" if "p \<noteq> s" "view_lookup (view fs) p k = Ok x" for p k x
      using that one by blast
    then show False using view_resolve_avoids [OF assms(6) [unfolded L] assms(7)] by blast
  qed
  have v': "view fs' = (view fs)(s \<mapsto> DirN (d(n \<mapsto> s)), op \<mapsto> DirN (d'(on := None)))" using moved(11) fs' np c by simp
  have d: "view fs s = Some (DirN d)" "view fs op = Some (DirN d')" using moved(8,10) op np by auto
  have new: "view_lookup (view fs') s k = (if k = n then Ok s else view_lookup (view fs) s k)" for k
    using op d by (simp add: v' view_lookup.simps)
  have old: "x \<noteq> s \<and> view_lookup (view fs) p k = Ok x" if "p \<noteq> s" "view_lookup (view fs') p k = Ok x" for p k x
  proof -
    have l: "view_lookup (view fs') p k = (if p = op \<and> k = on then Err NotFound else view_lookup (view fs) p k)"
      using d(2) that(1) by (simp add: v' view_lookup.simps)
    then have "\<not> (p = op \<and> k = on)" "view_lookup (view fs) p k = Ok x" using that(2) by (auto split: if_splits)
    then show ?thesis using one [of p k] by blast
  qed
  have av: "x \<noteq> s \<and> view_resolve (view fs) q = Ok x" if "view_resolve (view fs') q = Ok x" for q x
    using view_resolve_avoids [OF that assms(7) old] .
  have sh: "view_resolve (view fs') opp = Ok op \<or> view_resolve (view fs') opp = Err NotFound"
    using detach_parent [OF v' d op] moved(5,9) np by (simp add: L)
  have "view_lookup (view fs') op on = Err NotFound" by (simp add: v' view_lookup.simps)
  then have g: "resolve fs' path = Err NotFound"
    using sh view_resolve_snoc [OF moved(3) assms(3), of "view fs'"] by (auto simp: L)
  have "path \<noteq> []" using g by (auto simp: L(4) view_resolve_def for_each_component_def)
  then have "view_resolve (view fs') (path @ SLASH # rest) \<noteq> Ok x" for rest x
    using view_resolve_prefix [of "view fs'" path rest x] g by (auto simp: L)
  moreover have "view_resolve (view fs') q \<noteq> Ok s" for q using av [of q s] by blast
  ultimately show ?thesis using new av g unfolding L by auto
qed (use assms(5) in auto)

text \<open>The directory \<^verbatim>\<open>/a\<close>, renamed to \<^verbatim>\<open>/a/b\<close>.\<close>

theorem rename_into_itself_detaches_witness:
  "\<exists>fs'. fs_inv 4096 fs_d \<and> resolve fs_d path_a = Ok suid0
     \<and> rename fs_d env0 path_a (path_a @ SLASH # [0x62]) = (fs', Ok ()) \<and> (\<forall>q. resolve fs' q \<noteq> Ok suid0)"
proof -
  obtain fs' where w: "rename fs_d env0 path_a (path_a @ SLASH # [0x62]) = (fs', Ok ())" using fs_d_rename by auto
  have p: "split_parent (path_a @ SLASH # [0x62]) = Ok (path_a, [0x62])" by code_simp
  have u: "utf8_valid (path_a @ SLASH # [0x62])" by code_simp
  have ne: "suid0 \<noteq> ROOT_SUID" by code_simp
  have one: "lookup_in_dir fs_d q k = Ok suid0 \<Longrightarrow> q = ROOT_SUID \<and> k = [0x61]" for q k
    using fs_d_facts(7) ne unfolding lookup_in_dir_view [OF fs_d_facts(2)]
    by (auto simp: view_lookup.simps split: option.splits node.splits if_splits)
  show ?thesis using rename_into_itself_detaches [OF fs_d_facts(2) u path_a_facts(3) p w fs_d_facts(4) ne] one fs_d_facts(2,4) w by blast
qed

end
