(* ===== verification/Snapshot.thy ===== *)
theory Snapshot
  imports Replay
begin

text \<open>
  Snapshots of the namespace: the packed serializer (\<^verbatim>\<open>mod serial\<close> of
  \<^verbatim>\<open>src/kernel-core/src/fs/paths.rs\<close>), the sector format they are stored in
  (\<^verbatim>\<open>src/kernel-core/src/storage/snapshot.rs\<close>) and \<^verbatim>\<open>Namespace::save\<close> and \<^verbatim>\<open>load\<close>, which combine
  the two over a heap buffer. The theory \<open>Snapshot_Correct\<close> proves the round trip.
\<close>

section \<open>The packed format\<close>

definition NS_MAGIC :: "u8 list" where "NS_MAGIC = [0x46, 0x53, 0x4E, 0x53]"
definition NS_VERSION :: u32 where "NS_VERSION = 2"
definition OBJ_HEADER :: nat where "OBJ_HEADER = 40"
definition MAX_QUEUE :: nat where "MAX_QUEUE = 256"

text \<open>The writes of one object record at \<^verbatim>\<open>cursor\<close>.\<close>

definition put_object :: "u8 list \<Rightarrow> nat \<Rightarrow> suid \<Rightarrow> semantic_object \<Rightarrow> u8 list" where
  "put_object buf cursor s ob =
     (let content = bytes_of ob;
          buf = copy_into cursor (be_bytes 8 (high s)) buf;
          buf = copy_into (cursor + 8) (be_bytes 8 (low s)) buf;
          buf = buf[cursor + 16 := tier_value (ob_tier ob)];
          buf = buf[cursor + 17 := content_type_value (ob_content_type ob)];
          buf = buf[cursor + 18 := 0];
          buf = buf[cursor + 19 := 0];
          buf = copy_into (cursor + 20) (le_bytes 8 (ob_created_at ob)) buf;
          buf = copy_into (cursor + 28) (le_bytes 8 (ob_modified_at ob)) buf;
          buf = copy_into (cursor + 36) (le_bytes 4 (of_nat (length content) :: u32)) buf
      in copy_into (cursor + 40) content buf)"

text \<open>
  The local variables of the breadth-first walk. The queue is the part \<^verbatim>\<open>queue[..tail]\<close> of its array
  and the visited set the part \<^verbatim>\<open>visited[..count]\<close>; both arrays have 256 entries, and since every
  visited object was taken from the queue, only the queue needs a check.
\<close>

record serializer =
  sr_buf :: "u8 list"
  sr_cursor :: nat
  sr_visited :: "suid list"
  sr_queue :: "suid list"
  sr_head :: nat

fun enqueue :: "(fs_error + u8 list \<times> suid) list \<Rightarrow> suid list \<Rightarrow> fs_error + suid list" where
  "enqueue [] q = Ok q"
| "enqueue (Inl e # items) q = Err e"
| "enqueue (Inr (n, child) # items) q =
     (if length q \<ge> MAX_QUEUE then Err DirectoryFull else enqueue items (q @ [child]))"

definition serialize_object :: "registry \<Rightarrow> suid \<Rightarrow> serializer \<Rightarrow> serializer \<times> (fs_error + unit)" where
  "serialize_object reg s st =
     (case reg_get reg s of
        None \<Rightarrow> (st, Err NotFound)
      | Some ob \<Rightarrow>
          (let content = bytes_of ob
           in if length content > MAX_FILE_CONTENT then (st, Err ContentTooLarge)
              else let record_len = OBJ_HEADER + length content
                   in if sr_cursor st + record_len > length (sr_buf st) then (st, Err ContentTooLarge)
                      else let st = st\<lparr>sr_buf := put_object (sr_buf st) (sr_cursor st) s ob,
                                       sr_cursor := sr_cursor st + record_len,
                                       sr_visited := sr_visited st @ [s]\<rparr>
                           in if ob_content_type ob = Structured \<and> content \<noteq> []
                              then (case and_then (dir_parse content) (\<lambda>items. enqueue items (sr_queue st)) of
                                      Inl e \<Rightarrow> (st, Err e)
                                    | Inr q \<Rightarrow> (st\<lparr>sr_queue := q\<rparr>, Ok ()))
                              else (st, Ok ())))"

lemma enqueue_length: "enqueue items q = Ok q' \<Longrightarrow> length q' \<le> max MAX_QUEUE (length q)"
proof (induction items q rule: enqueue.induct)
  case (3 n child items q)
  then show ?case by (fastforce split: if_splits)
qed auto

lemma serialize_object_head:
  assumes "serialize_object reg s st = (st', Ok ())"
  shows "sr_head st' = sr_head st" and "length (sr_queue st') \<le> max MAX_QUEUE (length (sr_queue st))"
  using assms enqueue_length unfolding serialize_object_def Let_def
  by (auto split: option.splits if_splits sum.splits)

function serialize_loop :: "registry \<Rightarrow> serializer \<Rightarrow> serializer \<times> (fs_error + unit)" where
  "serialize_loop reg st =
     (if sr_head st < length (sr_queue st)
      then let s = sr_queue st ! sr_head st;
               st1 = st\<lparr>sr_head := sr_head st + 1\<rparr>
           in if s \<in> set (sr_visited st1) then serialize_loop reg st1
              else (case serialize_object reg s st1 of
                      (st2, Inl e) \<Rightarrow> (st2, Err e)
                    | (st2, Inr _) \<Rightarrow> serialize_loop reg st2)
      else (st, Ok ()))"
  by pat_completeness auto
termination
proof (relation "measure (\<lambda>(reg, st). max MAX_QUEUE (length (sr_queue st)) - sr_head st)", goal_cases)
  case (3 reg st s st1 st2 r)
  then have "sr_head st2 = Suc (sr_head st)" "length (sr_queue st2) \<le> max MAX_QUEUE (length (sr_queue st))"
    using serialize_object_head [of reg s st1 st2] by simp_all
  with 3(1) show ?case by simp
qed auto

definition serialize_namespace :: "registry \<Rightarrow> u8 list \<Rightarrow> u8 list \<times> (fs_error + nat)" where
  "serialize_namespace reg buf =
     (if length buf < 12 then (buf, Err Corrupt)
      else let buf = copy_into 0 NS_MAGIC buf;
               buf = copy_into 4 (le_bytes 4 NS_VERSION) buf;
               buf = copy_into 8 (le_bytes 4 (0 :: u32)) buf
           in case serialize_loop reg
                     \<lparr>sr_buf = buf, sr_cursor = 12, sr_visited = [], sr_queue = [ROOT_SUID], sr_head = 0\<rparr> of
                (st, Inl e) \<Rightarrow> (sr_buf st, Err e)
              | (st, Inr _) \<Rightarrow>
                  (copy_into 8 (le_bytes 4 (of_nat (length (sr_visited st)) :: u32)) (sr_buf st), Ok (sr_cursor st)))"

section \<open>Reading it back\<close>

definition ctype_from_value :: "u8 \<Rightarrow> content_type option" where
  "ctype_from_value v =
     (if v = 0 then Some Binary else if v = 1 then Some Text else if v = 2 then Some Vector_Type
      else if v = 3 then Some Structured else if v = 4 then Some Reference else None)"

text \<open>The header fields and the content of the record at \<^verbatim>\<open>cursor\<close>, and the cursor after it.\<close>

definition get_object ::
  "u8 list \<Rightarrow> nat \<Rightarrow> fs_error + (suid \<times> security_tier \<times> content_type \<times> u64 \<times> u64 \<times> u8 list) \<times> nat" where
  "get_object buf cursor =
     (if cursor + OBJ_HEADER > length buf then Err Corrupt
      else let s = suid_new (of_be_bytes (slice cursor 8 buf)) (of_be_bytes (slice (cursor + 8) 8 buf));
               tier_raw = buf ! (cursor + 16);
               ctype_raw = buf ! (cursor + 17);
               created_at = of_le_bytes (slice (cursor + 20) 8 buf);
               modified_at = of_le_bytes (slice (cursor + 28) 8 buf);
               content_len = unat (of_le_bytes (slice (cursor + 36) 4 buf) :: u32);
               cursor = cursor + OBJ_HEADER
           in if cursor + content_len > length buf then Err Corrupt
              else case tier_from_value tier_raw of
                     None \<Rightarrow> Err Corrupt
                   | Some t \<Rightarrow>
                       (case ctype_from_value ctype_raw of
                          None \<Rightarrow> Err Corrupt
                        | Some ct \<Rightarrow>
                            Ok ((s, t, ct, created_at, modified_at, slice cursor content_len buf), cursor + content_len)))"

definition restamp :: "security_tier \<Rightarrow> content_type \<Rightarrow> u64 \<Rightarrow> u64 \<Rightarrow> semantic_object \<Rightarrow> semantic_object" where
  "restamp t ct created_at modified_at ob =
     ob\<lparr>ob_tier := t, ob_content_type := ct, ob_created_at := created_at, ob_modified_at := modified_at\<rparr>"

definition restore_object ::
  "'d fs \<Rightarrow> suid \<times> security_tier \<times> content_type \<times> u64 \<times> u64 \<times> u8 list \<Rightarrow> 'd fs \<times> (fs_error + unit)" where
  "restore_object fs x =
     (case x of (s, t, ct, created_at, modified_at, content) \<Rightarrow>
        if reg_get (fs_reg fs) s \<noteq> None
        then assign_content (fs\<lparr>fs_reg := reg_update (fs_reg fs) s (restamp t ct created_at modified_at)\<rparr>)
               s content ContentTooLarge
        else (case content_from_bytes (fs_heap fs) content of
                (h, None) \<Rightarrow> (fs\<lparr>fs_heap := h\<rparr>, Err ContentTooLarge)
              | (h, Some c) \<Rightarrow>
                  (case insert_object (fs\<lparr>fs_heap := h\<rparr>)
                          ((ob_new s t 0)\<lparr>ob_content_type := ct, ob_created_at := created_at,
                             ob_modified_at := modified_at, ob_content := c\<rparr>) of
                     (fs', True) \<Rightarrow> (fs', Ok ())
                   | (fs', False) \<Rightarrow> (fs', Err RegistryFull))))"

fun deserialize_loop :: "nat \<Rightarrow> u8 list \<Rightarrow> nat \<Rightarrow> 'd fs \<Rightarrow> 'd fs \<times> (fs_error + nat)" where
  "deserialize_loop 0 buf cursor fs = (fs, Ok cursor)"
| "deserialize_loop (Suc n) buf cursor fs =
     (case get_object buf cursor of
        Inl e \<Rightarrow> (fs, Err e)
      | Inr (x, cursor') \<Rightarrow>
          (case restore_object fs x of
             (fs', Inl e) \<Rightarrow> (fs', Err e)
           | (fs', Inr _) \<Rightarrow> deserialize_loop n buf cursor' fs'))"

definition deserialize_namespace :: "'d fs \<Rightarrow> u8 list \<Rightarrow> 'd fs \<times> (fs_error + nat)" where
  "deserialize_namespace fs buf =
     (if length buf < 12 then (fs, Err Corrupt)
      else if slice 0 4 buf \<noteq> NS_MAGIC then (fs, Err Corrupt)
      else if (of_le_bytes (slice 4 4 buf) :: u32) \<noteq> NS_VERSION then (fs, Err Corrupt)
      else deserialize_loop (unat (of_le_bytes (slice 8 4 buf) :: u32)) buf 12 fs)"

section \<open>Storage\<close>

datatype driver_error =
  DrvNotReady | DrvNotSupported | DrvInvalidParameter | DrvTimeout | DrvReadOnly | DrvOutOfBounds
| DrvIoError | DrvLinkDown | DrvBufferTooSmall | DrvNoBuffers | DrvWouldBlock | DrvClosed

text \<open>
  A device as \<^verbatim>\<open>snapshot.rs\<close> uses it: reading and writing one block, flushing, and its two
  properties. What a concrete device does is a parameter.
\<close>

record 'd disk =
  dk_state :: 'd
  dk_read :: "'d \<Rightarrow> u64 \<Rightarrow> driver_error + u8 list"
  dk_write :: "'d \<Rightarrow> u64 \<Rightarrow> u8 list \<Rightarrow> 'd \<times> (driver_error + unit)"
  dk_flush :: "'d \<Rightarrow> 'd \<times> (driver_error + unit)"
  dk_block_size :: nat
  dk_read_only :: bool

definition SECTOR_SIZE :: nat where "SECTOR_SIZE = 512"
definition SNAP_MAGIC :: u64 where "SNAP_MAGIC = 0x53656D4F535F4E41"
definition MAX_SNAPSHOT_BYTES :: nat where "MAX_SNAPSHOT_BYTES = 4 * 1024 * 1024"
definition PAYLOAD_SECTORS :: nat where "PAYLOAD_SECTORS = MAX_SNAPSHOT_BYTES div SECTOR_SIZE"

record snapshot_header =
  sh_magic :: u64
  sh_version :: u32
  sh_length :: u32
  sh_checksum :: u32

text \<open>The layout of the \<^verbatim>\<open>repr(C)\<close> struct, with its reserved word, on a little-endian machine.\<close>

definition header_bytes :: "snapshot_header \<Rightarrow> u8 list" where
  "header_bytes h = le_bytes 8 (sh_magic h) @ le_bytes 4 (sh_version h) @ le_bytes 4 (sh_length h)
     @ le_bytes 4 (sh_checksum h) @ le_bytes 4 (0 :: u32)"

definition read_header :: "u8 list \<Rightarrow> snapshot_header" where
  "read_header sec0 =
     \<lparr>sh_magic = of_le_bytes (slice 0 8 sec0), sh_version = of_le_bytes (slice 8 4 sec0),
      sh_length = of_le_bytes (slice 12 4 sec0), sh_checksum = of_le_bytes (slice 16 4 sec0)\<rparr>"

fun checksum :: "u8 list \<Rightarrow> u32 \<Rightarrow> u32" where
  "checksum [] acc = acc"
| "checksum (b # bs) acc = checksum bs (acc + ucast b)"

definition payload_sector :: "u8 list \<Rightarrow> nat \<Rightarrow> u8 list" where
  "payload_sector payload i =
     (let start = i * SECTOR_SIZE;
          stop = min (start + SECTOR_SIZE) (length payload);
          n = stop - start
      in slice start n payload @ replicate (SECTOR_SIZE - n) 0)"

definition write_block :: "'d disk \<Rightarrow> u64 \<Rightarrow> u8 list \<Rightarrow> 'd disk \<times> (driver_error + unit)" where
  "write_block dk lba buf =
     (let (d, r) = dk_write dk (dk_state dk) lba buf in (dk\<lparr>dk_state := d\<rparr>, r))"

fun write_payload :: "u8 list \<Rightarrow> nat list \<Rightarrow> 'd disk \<Rightarrow> 'd disk \<times> (driver_error + unit)" where
  "write_payload payload [] dk = (dk, Ok ())"
| "write_payload payload (i # is) dk =
     (case write_block dk (1 + of_nat i) (payload_sector payload i) of
        (dk', Inl e) \<Rightarrow> (dk', Err e)
      | (dk', Inr _) \<Rightarrow> write_payload payload is dk')"

definition save_snapshot :: "'d disk \<Rightarrow> u8 list \<Rightarrow> 'd disk \<times> (driver_error + unit)" where
  "save_snapshot dk payload =
     (if dk_read_only dk then (dk, Err DrvReadOnly)
      else if length payload > MAX_SNAPSHOT_BYTES then (dk, Err DrvInvalidParameter)
      else if dk_block_size dk \<noteq> SECTOR_SIZE then (dk, Err DrvNotSupported)
      else let header = \<lparr>sh_magic = SNAP_MAGIC, sh_version = 1, sh_length = of_nat (length payload),
                         sh_checksum = checksum payload 0\<rparr>;
               sec0 = copy_into 0 (header_bytes header) (replicate SECTOR_SIZE 0)
           in case write_block dk 0 sec0 of
                (dk1, Inl e) \<Rightarrow> (dk1, Err e)
              | (dk1, Inr _) \<Rightarrow>
                  (let total = (length payload + SECTOR_SIZE - 1) div SECTOR_SIZE
                   in if total > PAYLOAD_SECTORS then (dk1, Err DrvOutOfBounds)
                      else case write_payload payload [0..<total] dk1 of
                             (dk2, Inl e) \<Rightarrow> (dk2, Err e)
                           | (dk2, Inr _) \<Rightarrow>
                               (let (d, r) = dk_flush dk2 (dk_state dk2) in (dk2\<lparr>dk_state := d\<rparr>, r))))"

fun read_payload :: "'d disk \<Rightarrow> nat \<Rightarrow> nat list \<Rightarrow> u8 list \<Rightarrow> u8 list \<times> (driver_error + unit)" where
  "read_payload dk len [] out = (out, Ok ())"
| "read_payload dk len (i # is) out =
     (case dk_read dk (dk_state dk) (1 + of_nat i) of
        Inl e \<Rightarrow> (out, Err e)
      | Inr sec_buf \<Rightarrow>
          (let start = i * SECTOR_SIZE;
               stop = min (start + SECTOR_SIZE) len
           in read_payload dk len is (copy_into start (take (stop - start) sec_buf) out)))"

definition load_snapshot :: "'d disk \<Rightarrow> u8 list \<Rightarrow> u8 list \<times> (driver_error + nat)" where
  "load_snapshot dk out =
     (if dk_block_size dk \<noteq> SECTOR_SIZE then (out, Err DrvNotSupported)
      else case dk_read dk (dk_state dk) 0 of
             Inl e \<Rightarrow> (out, Err e)
           | Inr sec0 \<Rightarrow>
               (let header = read_header sec0
                in if sh_magic header \<noteq> SNAP_MAGIC then (out, Err DrvNotReady)
                   else let len = unat (sh_length header)
                        in if len > MAX_SNAPSHOT_BYTES \<or> len > length out then (out, Err DrvBufferTooSmall)
                           else case read_payload dk len [0..<(len + SECTOR_SIZE - 1) div SECTOR_SIZE] out of
                                  (out', Inl e) \<Rightarrow> (out', Err e)
                                | (out', Inr _) \<Rightarrow>
                                    (out', if checksum (take len out') 0 \<noteq> sh_checksum header
                                           then Err DrvIoError else Ok len)))"

section \<open>Save and load\<close>

text \<open>
  Both work in a heap buffer of \<open>MAX_SNAPSHOT_BYTES\<close>; \<open>scratch\<close> is what the block happens to hold,
  which is not initialised.
\<close>

definition ns_save :: "'e disk \<Rightarrow> u8 list \<Rightarrow> 'd fs \<Rightarrow> 'd fs \<times> 'e disk \<times> (fs_error + nat)" where
  "ns_save dk scratch fs =
     (let (h, p) = heap_allocate (fs_heap fs) MAX_SNAPSHOT_BYTES 8
      in if p = 0 then (fs\<lparr>fs_heap := h\<rparr>, dk, Err Corrupt)
         else let (dk', result) =
                    (case serialize_namespace (fs_reg fs) scratch of
                       (buf, Inr n) \<Rightarrow>
                         (case save_snapshot dk (take n buf) of
                            (dk', Inr _) \<Rightarrow> (dk', Ok n)
                          | (dk', Inl _) \<Rightarrow> (dk', Err Corrupt))
                     | (buf, Inl e) \<Rightarrow> (dk, Err e))
              in (fs\<lparr>fs_heap := free_buf h p\<rparr>, dk', result))"

definition ns_load :: "'e disk \<Rightarrow> u8 list \<Rightarrow> 'd fs \<Rightarrow> 'd fs \<times> (fs_error + nat)" where
  "ns_load dk scratch fs =
     (let (h, p) = heap_allocate (fs_heap fs) MAX_SNAPSHOT_BYTES 8
      in if p = 0 then (fs\<lparr>fs_heap := h\<rparr>, Err Corrupt)
         else let (fs1, result) =
                    (case load_snapshot dk scratch of
                       (buf, Inr n) \<Rightarrow>
                         (case deserialize_namespace (fs\<lparr>fs_heap := h\<rparr>) (take n buf) of
                            (fs', Inr _) \<Rightarrow> (fs', Ok n)
                          | (fs', Inl e) \<Rightarrow> (fs', Err e))
                     | (buf, Inl _) \<Rightarrow> (fs\<lparr>fs_heap := h\<rparr>, Err Corrupt))
              in (fs1\<lparr>fs_heap := free_buf (fs_heap fs1) p\<rparr>, result))"

end
