(* ===== verification/Snapshot_Correct.thy ===== *)
theory Snapshot_Correct
  imports Snapshot Replay_Correct Namespace_Correct
begin

text \<open>
  The namespace snapshot round trip: what \<^verbatim>\<open>serialize\<close> writes is the sequence of the records of
  exactly the objects reachable from the root, and \<^verbatim>\<open>deserialize\<close> puts them all back; the sector
  format returns the bytes that were saved; together, \<^verbatim>\<open>save\<close> followed by \<^verbatim>\<open>load\<close> restores every path.
\<close>

section \<open>One record\<close>

definition obj_record :: "suid \<Rightarrow> semantic_object \<Rightarrow> u8 list" where
  "obj_record s ob = be_bytes 8 (high s) @ be_bytes 8 (low s)
     @ [tier_value (ob_tier ob), content_type_value (ob_content_type ob), 0, 0]
     @ le_bytes 8 (ob_created_at ob) @ le_bytes 8 (ob_modified_at ob)
     @ le_bytes 4 (of_nat (length (bytes_of ob)) :: u32) @ bytes_of ob"

lemma length_obj_record [simp]: "length (obj_record s ob) = OBJ_HEADER + length (bytes_of ob)"
  by (simp add: obj_record_def OBJ_HEADER_def)

lemma put_object_record:
  assumes "cursor + OBJ_HEADER + length (bytes_of ob) \<le> length buf"
  shows "put_object buf cursor s ob = copy_into cursor (obj_record s ob) buf"
  using assms
  by (simp add: put_object_def obj_record_def Let_def OBJ_HEADER_def list_update_copy_into copy_into_append_at)

lemma suid_new_fields [simp]: "suid_new (high s) (low s) = s"
  by (cases s) (simp add: suid_new_def)

lemma ctype_value_round_trip [simp]: "ctype_from_value (content_type_value c) = Some c"
  by (cases c) (simp_all add: ctype_from_value_def)

lemma tier_value_round_trip: "tier_from_value (tier_value t) = Some t"
  by (cases t) (simp_all add: tier_from_value_def)

lemma get_object_record:
  assumes "length (bytes_of ob) < 2 ^ 32" and "c = length pre"
  shows "get_object (pre @ obj_record s ob @ post) c
    = Ok ((s, ob_tier ob, ob_content_type ob, ob_created_at ob, ob_modified_at ob, bytes_of ob),
          c + (OBJ_HEADER + length (bytes_of ob)))"
proof -
  let ?buf = "pre @ obj_record s ob @ post"
  have f: "slice c 8 ?buf = be_bytes 8 (high s)" "slice (c + 8) 8 ?buf = be_bytes 8 (low s)"
    "slice (c + 16) 1 ?buf = [tier_value (ob_tier ob)]" "slice (c + 17) 1 ?buf = [content_type_value (ob_content_type ob)]"
    "slice (c + 20) 8 ?buf = le_bytes 8 (ob_created_at ob)" "slice (c + 28) 8 ?buf = le_bytes 8 (ob_modified_at ob)"
    "slice (c + 36) 4 ?buf = le_bytes 4 (of_nat (length (bytes_of ob)) :: u32)"
    "slice (c + OBJ_HEADER) (length (bytes_of ob)) ?buf = bytes_of ob"
    using slice_within [of pre 0 8 "obj_record s ob" post]
    by (simp_all add: assms(2) slice_within obj_record_def slice_skip slice_head OBJ_HEADER_def slice_def)
  have n: "?buf ! (c + 16) = tier_value (ob_tier ob)" "?buf ! (c + 17) = content_type_value (ob_content_type ob)"
    using nth_slice_1 [OF f(3)] nth_slice_1 [OF f(4)] by simp_all
  have l: "unat (of_nat (length (bytes_of ob)) :: u32) = length (bytes_of ob)"
    using assms(1) by (simp add: unat_of_nat take_bit_nat_eq_self)
  show ?thesis
    unfolding get_object_def Let_def f n by (simp add: l tier_value_round_trip assms(2) f(8) [unfolded assms(2)])
qed

section \<open>The walk\<close>

definition kids :: "semantic_object \<Rightarrow> suid list" where
  "kids ob = (if ob_content_type ob = Structured then map snd (dir_view ob) else [])"

inductive below :: "registry \<Rightarrow> suid \<Rightarrow> bool" for reg where
  Root: "below reg ROOT_SUID"
| Child: "below reg s \<Longrightarrow> reg_get reg s = Some ob \<Longrightarrow> c \<in> set (kids ob) \<Longrightarrow> below reg c"

definition recs :: "registry \<Rightarrow> suid list \<Rightarrow> u8 list" where
  "recs reg vs = concat (map (\<lambda>s. obj_record s (the (reg_get reg s))) vs)"

lemma recs_simps [simp]:
  "recs reg [] = []" "recs reg (v # vs) = obj_record v (the (reg_get reg v)) @ recs reg vs"
  "recs reg (vs @ ws) = recs reg vs @ recs reg ws"
  by (simp_all add: recs_def)

lemma enqueue_Ok: "enqueue items q = Ok q' \<Longrightarrow> \<exists>es. items = map Ok es \<and> q' = q @ map snd es \<and> (length q' \<le> MAX_QUEUE \<or> es = [])"
proof (induction items q rule: enqueue.induct)
  case (3 n c items q)
  then obtain es where "items = map Ok es" "q' = (q @ [c]) @ map snd es" "length q' \<le> MAX_QUEUE \<or> es = []" "length q < MAX_QUEUE"
    by (fastforce split: if_splits)
  then show ?case by (intro exI [of _ "(n, c) # es"]) auto
qed auto

text \<open>Serializing one object writes its record and queues its children.\<close>

lemma serialize_object_Ok:
  assumes "serialize_object reg s st = (st', Ok ())" and "length (sr_queue st) \<le> MAX_QUEUE"
  obtains ob where "reg_get reg s = Some ob" "length (bytes_of ob) \<le> MAX_FILE_CONTENT"
    "sr_cursor st + length (obj_record s ob) \<le> length (sr_buf st)"
    "st' = st\<lparr>sr_buf := copy_into (sr_cursor st) (obj_record s ob) (sr_buf st),
              sr_cursor := sr_cursor st + length (obj_record s ob), sr_visited := sr_visited st @ [s],
              sr_queue := sr_queue st @ kids ob\<rparr>"
    "length (sr_queue st') \<le> MAX_QUEUE"
proof -
  obtain ob where ob: "reg_get reg s = Some ob" using assms by (cases "reg_get reg s") (auto simp: serialize_object_def)
  let ?st = "st\<lparr>sr_buf := put_object (sr_buf st) (sr_cursor st) s ob,
     sr_cursor := sr_cursor st + (OBJ_HEADER + length (bytes_of ob)), sr_visited := sr_visited st @ [s]\<rparr>"
  have l: "length (bytes_of ob) \<le> MAX_FILE_CONTENT" "sr_cursor st + (OBJ_HEADER + length (bytes_of ob)) \<le> length (sr_buf st)"
    using assms(1) by (auto simp: serialize_object_def ob Let_def split: if_splits)
  have s: "(if ob_content_type ob = Structured \<and> bytes_of ob \<noteq> []
            then (case and_then (dir_parse (bytes_of ob)) (\<lambda>items. enqueue items (sr_queue ?st)) of
                    Inl e \<Rightarrow> (?st, Err e) | Inr q \<Rightarrow> (?st\<lparr>sr_queue := q\<rparr>, Ok ()))
            else (?st, Ok ())) = (st', Ok ())"
    using assms(1) unfolding serialize_object_def ob Let_def option.case
    by (simp add: l [THEN leD] split del: if_split)
  have "st' = ?st\<lparr>sr_queue := sr_queue st @ kids ob\<rparr> \<and> length (sr_queue st') \<le> MAX_QUEUE"
  proof (cases "ob_content_type ob = Structured \<and> bytes_of ob \<noteq> []")
    case True
    then obtain items q where q: "dir_parse (bytes_of ob) = Ok items" "enqueue items (sr_queue st) = Ok q" "st' = ?st\<lparr>sr_queue := q\<rparr>"
      using s by (auto split: sum.splits)
    from enqueue_Ok [OF q(2)] obtain es where es: "items = map Ok es" "q = sr_queue st @ map snd es" "length q \<le> MAX_QUEUE \<or> es = []" by blast
    have "kids ob = map snd es" using True q(1) es(1) by (simp add: kids_def dir_view_def all_entries_map)
    then show ?thesis using q(3) es assms(2) by auto
  next
    case False
    then have "kids ob = []" by (auto simp: kids_def dir_view_def dir_parse_def)
    then show ?thesis using s False assms(2) by auto
  qed
  then show thesis using that [OF ob l(1)] l(2) put_object_record [of "sr_cursor st" ob "sr_buf st" s] by (auto simp: add.assoc)
qed

definition walk_inv :: "registry \<Rightarrow> u8 list \<Rightarrow> serializer \<Rightarrow> bool" where
  "walk_inv reg buf st \<longleftrightarrow> distinct (sr_visited st)
     \<and> (\<forall>s \<in> set (sr_visited st). below reg s \<and> (\<exists>ob. reg_get reg s = Some ob \<and> length (bytes_of ob) \<le> MAX_FILE_CONTENT
           \<and> set (kids ob) \<subseteq> set (sr_visited st) \<union> set (drop (sr_head st) (sr_queue st))))
     \<and> ROOT_SUID \<in> set (sr_visited st) \<union> set (drop (sr_head st) (sr_queue st)) \<and> (\<forall>s \<in> set (sr_queue st). below reg s)
     \<and> length (sr_visited st) \<le> sr_head st \<and> sr_head st \<le> length (sr_queue st) \<and> length (sr_queue st) \<le> MAX_QUEUE
     \<and> sr_cursor st = 12 + length (recs reg (sr_visited st)) \<and> sr_cursor st \<le> length buf
     \<and> sr_buf st = copy_into 12 (recs reg (sr_visited st)) buf"

lemma walk_inv_skip:
  assumes "walk_inv reg buf st" and "sr_head st < length (sr_queue st)" and "sr_queue st ! sr_head st \<in> set (sr_visited st)"
  shows "walk_inv reg buf (st\<lparr>sr_head := sr_head st + 1\<rparr>)"
proof -
  have "drop (sr_head st) (sr_queue st) = sr_queue st ! sr_head st # drop (Suc (sr_head st)) (sr_queue st)"
    using assms(2) by (simp add: Cons_nth_drop_Suc)
  then show ?thesis using assms unfolding walk_inv_def by fastforce
qed

lemma walk_inv_visit:
  assumes inv: "walk_inv reg buf st" and h: "sr_head st < length (sr_queue st)" and s: "s = sr_queue st ! sr_head st" "s \<notin> set (sr_visited st)"
    and step: "serialize_object reg s (st\<lparr>sr_head := sr_head st + 1\<rparr>) = (st', Ok ())"
  shows "walk_inv reg buf st'"
proof -
  have q: "length (sr_queue st) \<le> MAX_QUEUE" using inv by (simp add: walk_inv_def)
  obtain ob where ob: "reg_get reg s = Some ob" "length (bytes_of ob) \<le> MAX_FILE_CONTENT"
      "sr_cursor st + length (obj_record s ob) \<le> length (sr_buf st)"
    and st': "st' = st\<lparr>sr_head := sr_head st + 1, sr_buf := copy_into (sr_cursor st) (obj_record s ob) (sr_buf st),
       sr_cursor := sr_cursor st + length (obj_record s ob), sr_visited := sr_visited st @ [s], sr_queue := sr_queue st @ kids ob\<rparr>"
    and l: "length (sr_queue st') \<le> MAX_QUEUE"
    using serialize_object_Ok [OF step] q by auto
  have d: "drop (sr_head st) (sr_queue st) = s # drop (Suc (sr_head st)) (sr_queue st)"
    using h s by (simp add: Cons_nth_drop_Suc)
  have b: "sr_cursor st = 12 + length (recs reg (sr_visited st))" "sr_buf st = copy_into 12 (recs reg (sr_visited st)) buf" "sr_cursor st \<le> length buf"
    using inv by (simp_all add: walk_inv_def)
  have len: "length (sr_buf st) = length buf" using b by simp
  have buf: "sr_buf st' = copy_into 12 (recs reg (sr_visited st')) buf"
    using b ob(1,3) len by (simp add: st' copy_into_append_at)
  have cur: "sr_cursor st' = 12 + length (recs reg (sr_visited st'))" "sr_cursor st' \<le> length buf"
    using b(1) ob(1,3) len by (simp_all add: st')
  have below: "below reg s" using inv h s unfolding walk_inv_def by (metis nth_mem)
  have k: "\<forall>c \<in> set (kids ob). below reg c" using Child [OF below ob(1)] by blast
  have old: "\<forall>v \<in> set (sr_visited st). below reg v \<and> (\<exists>ob. reg_get reg v = Some ob \<and> length (bytes_of ob) \<le> MAX_FILE_CONTENT
      \<and> set (kids ob) \<subseteq> set (sr_visited st') \<union> set (drop (sr_head st') (sr_queue st')))"
  proof
    fix v assume "v \<in> set (sr_visited st)"
    then obtain ob' where "below reg v" "reg_get reg v = Some ob'" "length (bytes_of ob') \<le> MAX_FILE_CONTENT"
      "set (kids ob') \<subseteq> set (sr_visited st) \<union> set (drop (sr_head st) (sr_queue st))" using inv unfolding walk_inv_def by blast
    then show "below reg v \<and> (\<exists>ob. reg_get reg v = Some ob \<and> length (bytes_of ob) \<le> MAX_FILE_CONTENT
      \<and> set (kids ob) \<subseteq> set (sr_visited st') \<union> set (drop (sr_head st') (sr_queue st')))"
      using d h by (auto simp: st')
  qed
  have new: "set (kids ob) \<subseteq> set (sr_visited st') \<union> set (drop (sr_head st') (sr_queue st'))" using h by (auto simp: st')
  show ?thesis
    unfolding walk_inv_def
  proof (intro conjI)
    show "distinct (sr_visited st')" using inv s(2) by (simp add: st' walk_inv_def)
    show "\<forall>v \<in> set (sr_visited st'). below reg v \<and> (\<exists>ob. reg_get reg v = Some ob \<and> length (bytes_of ob) \<le> MAX_FILE_CONTENT
      \<and> set (kids ob) \<subseteq> set (sr_visited st') \<union> set (drop (sr_head st') (sr_queue st')))"
      using old new ob(1,2) below by (auto simp: st')
    show "ROOT_SUID \<in> set (sr_visited st') \<union> set (drop (sr_head st') (sr_queue st'))"
      using inv d h by (auto simp: st' walk_inv_def)
    show "\<forall>v \<in> set (sr_queue st'). below reg v" using inv k by (auto simp: st' walk_inv_def)
    show "length (sr_visited st') \<le> sr_head st'" using inv by (simp add: st' walk_inv_def)
    show "sr_head st' \<le> length (sr_queue st')" using h by (simp add: st')
  qed (use l buf cur in simp_all)
qed

lemma serialize_loop_Ok:
  "walk_inv reg buf st \<Longrightarrow> serialize_loop reg st = (st', Ok ()) \<Longrightarrow> walk_inv reg buf st' \<and> sr_head st' \<ge> length (sr_queue st')"
proof (induction reg st rule: serialize_loop.induct)
  case (1 reg st)
  show ?case
  proof (cases "sr_head st < length (sr_queue st)")
    case h: True
    let ?s = "sr_queue st ! sr_head st" and ?st = "st\<lparr>sr_head := sr_head st + 1\<rparr>"
    show ?thesis
    proof (cases "?s \<in> set (sr_visited st)")
      case True
      then have "serialize_loop reg ?st = (st', Ok ())" using "1.prems"(2) h by (subst (asm) serialize_loop.simps) (simp add: Let_def)
      with "1.IH"(1) [OF h refl refl] True walk_inv_skip [OF "1.prems"(1) h True] show ?thesis by simp
    next
      case False
      obtain st2 r where s: "serialize_object reg ?s ?st = (st2, r)" by (metis prod.exhaust)
      have "r = Ok ()" using "1.prems"(2) h False s by (subst (asm) serialize_loop.simps) (auto simp: Let_def split: sum.splits)
      moreover from this have "serialize_loop reg st2 = (st', Ok ())"
        using "1.prems"(2) h False s by (subst (asm) serialize_loop.simps) (simp add: Let_def)
      ultimately show ?thesis
        using "1.IH"(2) [OF h refl refl] False s walk_inv_visit [OF "1.prems"(1) h refl False] by simp
    qed
  next
    case False
    then have "st' = st" using "1.prems"(2) by (subst (asm) serialize_loop.simps) simp
    with False "1.prems"(1) show ?thesis by simp
  qed
qed

lemma walk_complete:
  assumes "walk_inv reg buf st" and "sr_head st \<ge> length (sr_queue st)"
  shows "set (sr_visited st) = {s. below reg s}"
proof -
  have "s \<in> set (sr_visited st)" if "below reg s" for s
    using that
  proof induction
    case Root
    then show ?case using assms by (simp add: walk_inv_def)
  next
    case (Child s ob c)
    then show ?case using assms unfolding walk_inv_def by fastforce
  qed
  then show ?thesis using assms(1) by (auto simp: walk_inv_def)
qed

definition ns_header :: "nat \<Rightarrow> u8 list" where
  "ns_header k = NS_MAGIC @ le_bytes 4 NS_VERSION @ le_bytes 4 (of_nat k :: u32)"

lemma length_ns_header [simp]: "length (ns_header k) = 12"
  by (simp add: ns_header_def NS_MAGIC_def)

text \<open>A snapshot holds exactly the records of the objects below the root.\<close>

lemma serialize_namespace_Ok:
  assumes "serialize_namespace reg buf = (buf', Ok n)"
  obtains vs where "distinct vs" "set vs = {s. below reg s}" "length vs \<le> MAX_QUEUE"
    "\<forall>s \<in> set vs. \<exists>ob. reg_get reg s = Some ob \<and> length (bytes_of ob) \<le> MAX_FILE_CONTENT"
    "n = 12 + length (recs reg vs)" "length buf' = length buf" "n \<le> length buf" "take n buf' = ns_header (length vs) @ recs reg vs"
proof -
  have l: "12 \<le> length buf" using assms by (auto simp: serialize_namespace_def split: if_splits)
  define buf0 where "buf0 = copy_into 0 (ns_header 0) buf"
  let ?st = "\<lparr>sr_buf = buf0, sr_cursor = 12, sr_visited = [], sr_queue = [ROOT_SUID], sr_head = 0\<rparr>"
  have b: "copy_into 8 (le_bytes 4 (0 :: u32)) (copy_into 4 (le_bytes 4 NS_VERSION) (copy_into 0 NS_MAGIC buf)) = buf0"
    using l by (simp add: buf0_def ns_header_def copy_into_append_at NS_MAGIC_def)
  have l0: "length buf0 = length buf" using l by (simp add: buf0_def)
  obtain st r where st: "serialize_loop reg ?st = (st, r)" by (metis prod.exhaust)
  have "r = Ok ()" "n = sr_cursor st" and buf': "buf' = copy_into 8 (le_bytes 4 (of_nat (length (sr_visited st)) :: u32)) (sr_buf st)"
    using assms l st unfolding serialize_namespace_def Let_def b by (auto split: sum.splits)
  have "walk_inv reg buf0 ?st" using l l0 Root by (simp add: walk_inv_def MAX_QUEUE_def copy_into_def)
  from serialize_loop_Ok [OF this] st \<open>r = Ok ()\<close> have w: "walk_inv reg buf0 st" and e: "length (sr_queue st) \<le> sr_head st" by auto
  let ?vs = "sr_visited st"
  have n: "n = 12 + length (recs reg ?vs)" "n \<le> length buf" and sb: "sr_buf st = copy_into 12 (recs reg ?vs) buf0"
    using w l0 \<open>n = sr_cursor st\<close> by (simp_all add: walk_inv_def)
  have "take n buf' = ns_header (length ?vs) @ recs reg ?vs"
  proof -
    have "sr_buf st = copy_into 0 (ns_header 0 @ recs reg ?vs) buf" using n by (simp add: sb buf0_def copy_into_append_at)
    also have "\<dots> = (NS_MAGIC @ le_bytes 4 NS_VERSION) @ le_bytes 4 (0 :: u32) @ recs reg ?vs @ drop n buf"
      by (simp add: copy_into_def ns_header_def n(1) NS_MAGIC_def)
    finally have e: "sr_buf st = (NS_MAGIC @ le_bytes 4 NS_VERSION) @ le_bytes 4 (0 :: u32) @ recs reg ?vs @ drop n buf" .
    have "buf' = (NS_MAGIC @ le_bytes 4 NS_VERSION) @ le_bytes 4 (of_nat (length ?vs) :: u32) @ recs reg ?vs @ drop n buf"
      unfolding buf' e by (rule copy_into_mid) (simp_all add: NS_MAGIC_def)
    then have "buf' = ns_header (length ?vs) @ recs reg ?vs @ drop n buf" by (simp add: ns_header_def)
    then show ?thesis by (simp add: n(1))
  qed
  moreover have "length buf' = length buf" using n l l0 by (simp add: buf' sb)
  moreover have "length ?vs \<le> MAX_QUEUE" "distinct ?vs"
    "\<forall>s \<in> set ?vs. \<exists>ob. reg_get reg s = Some ob \<and> length (bytes_of ob) \<le> MAX_FILE_CONTENT" using w by (auto simp: walk_inv_def)
  ultimately show thesis using that [of ?vs] walk_complete [OF w e] n by blast
qed

section \<open>Reading the records back\<close>

text \<open>The invariant while blocks \<open>X\<close> are in the hands of the running operation.\<close>

definition fs_held :: "nat \<Rightarrow> nat set \<Rightarrow> 'd fs \<Rightarrow> bool" where
  "fs_held arena X fs \<longleftrightarrow> mem_inv arena (fs_heap fs) (fs_reg fs) X \<and> (\<forall>s ob. objs fs s = Some ob \<longrightarrow> dir_ok ob)"

lemma fs_held_none: "fs_held arena {} fs = fs_inv arena fs"
  by (simp add: fs_held_def fs_inv_def)

lemma fs_held_get: "fs_held arena X fs \<Longrightarrow> reg_get (fs_reg fs) s = objs fs s"
  by (simp add: fs_held_def mem_inv_def reg_get_map)

lemma fs_held_upd:
  assumes "fs_held arena X fs" and "mem_inv arena (fs_heap fs') (fs_reg fs') X" and "objs fs' = (objs fs)(s \<mapsto> ob)" and "dir_ok ob"
  shows "fs_held arena X fs'"
  using assms by (auto simp: fs_held_def)

lemma assign_content_mem:
  assumes mem: "mem_inv arena (fs_heap fs) (fs_reg fs) X" and ob: "objs fs s = Some ob"
  obtains (failed) "assign_content fs s d err = (fs, Err err)" "content_refused (fs_heap fs) d"
    | (updated) fs' c where "assign_content fs s d err = (fs', Ok ())" "mem_inv arena (fs_heap fs') (fs_reg fs') X"
        "as_bytes c = Some d" "objs fs' = (objs fs)(s \<mapsto> ob\<lparr>ob_content := c\<rparr>)" "fs_journal fs' = fs_journal fs"
proof -
  obtain h c where r: "content_from_bytes (fs_heap fs) d = (h, c)" by (metis prod.exhaust)
  note M = mem_from_bytes_held [OF mem r]
  show ?thesis
  proof (cases c)
    case None
    then show ?thesis using failed r M(2) content_from_bytes_refused [of "fs_heap fs" d h] by (simp add: assign_content_def)
  next
    case (Some x)
    then have c: "as_bytes x = Some d" "content_wf x"
      using content_from_bytes_Some [of "fs_heap fs" d h x] r by simp_all
    have m: "mem_inv arena h (fs_reg fs) (X \<union> owned_blocks x)" "X \<inter> owned_blocks x = {}" using M(1,3) Some by simp_all
    have o: "owned_blocks x \<subseteq> X \<union> owned_blocks x" by blast
    note I = mem_install_held [OF m(1) o c(2) ob]
    have eq: "X \<union> owned_blocks x - owned_blocks x \<union> owned_blocks (ob_content ob) = X \<union> owned_blocks (ob_content ob)" using m(2) by blast
    have wf: "content_wf (ob_content ob)" using mem_inv_ob [OF mem ob] by (rule ob_wf_content_wf)
    have "X \<union> owned_blocks (ob_content ob) - owned_blocks (ob_content ob) = X" using I(3) by blast
    with mem_drop_held(2) [OF I(1) _ wf] have d: "mem_inv arena (drop_heap h (ob_content ob)) (reg_update (fs_reg fs) s (\<lambda>ob. ob\<lparr>ob_content := x\<rparr>)) X"
      unfolding eq by simp
    have "reg_get (fs_reg fs) s = Some ob" using ob reg_get_map [OF mem_inv_reg [OF mem]] by simp
    then have "assign_content fs s d err = (fs\<lparr>fs_heap := drop_heap h (ob_content ob),
        fs_reg := reg_update (fs_reg fs) s (\<lambda>ob. ob\<lparr>ob_content := x\<rparr>)\<rparr>, Ok ())"
      using r Some by (simp add: assign_content_def install_content_def)
    then show ?thesis using updated d c(1) I(2) by simp
  qed
qed

text \<open>What a snapshot keeps of an object.\<close>

definition same_data :: "semantic_object \<Rightarrow> semantic_object \<Rightarrow> bool" where
  "same_data ob ob' \<longleftrightarrow> ob_tier ob' = ob_tier ob \<and> ob_content_type ob' = ob_content_type ob
     \<and> ob_created_at ob' = ob_created_at ob \<and> ob_modified_at ob' = ob_modified_at ob
     \<and> as_bytes (ob_content ob') = Some (bytes_of ob)"

lemma same_data_bytes: "same_data ob ob' \<Longrightarrow> bytes_of ob' = bytes_of ob"
  by (simp add: same_data_def bytes_of_def)

lemma same_data_dir_ok: "same_data ob ob' \<Longrightarrow> dir_ok ob \<Longrightarrow> dir_ok ob'"
  using same_data_bytes [of ob ob'] by (simp add: dir_ok_def same_data_def)

abbreviation item_of :: "suid \<Rightarrow> semantic_object \<Rightarrow> suid \<times> security_tier \<times> content_type \<times> u64 \<times> u64 \<times> u8 list" where
  "item_of s ob \<equiv> (s, ob_tier ob, ob_content_type ob, ob_created_at ob, ob_modified_at ob, bytes_of ob)"

lemma restore_existing:
  assumes inv: "fs_held arena X fs" and ob: "dir_ok ob" and q: "objs fs s = Some q"
  obtains (failed) fs' where "restore_object fs (item_of s ob) = (fs', Err ContentTooLarge)" "content_refused (fs_heap fs') (bytes_of ob)"
    | (restored) fs' ob' where "restore_object fs (item_of s ob) = (fs', Ok ())" "fs_held arena X fs'" "fs_journal fs' = fs_journal fs"
        "same_data ob ob'" "objs fs' = (objs fs)(s \<mapsto> ob')"
proof -
  let ?f = "restamp (ob_tier ob) (ob_content_type ob) (ob_created_at ob) (ob_modified_at ob)"
  define fs1 where "fs1 = fs\<lparr>fs_reg := reg_update (fs_reg fs) s ?f\<rparr>"
  have mem: "mem_inv arena (fs_heap fs) (fs_reg fs) X" using inv by (simp add: fs_held_def)
  have f: "ob_suid (?f x) = ob_suid x \<and> ob_content (?f x) = ob_content x \<and> ob_wf (?f x) = ob_wf x" for x
    by (simp add: restamp_def ob_wf_def get_links_def)
  have m: "mem_inv arena (fs_heap fs1) (fs_reg fs1) X" using mem_touch [OF mem, of ?f s] f by (simp add: fs1_def)
  have o: "objs fs1 = (objs fs)(s \<mapsto> ?f q)" using reg_update_effect(2) [OF mem_inv_reg [OF mem], of ?f s] f q by (simp add: fs1_def)
  then have s: "objs fs1 s = Some (?f q)" by simp
  have r: "restore_object fs (item_of s ob) = assign_content fs1 s (bytes_of ob) ContentTooLarge"
    using q fs_held_get [OF inv] by (simp add: restore_object_def fs1_def)
  from m s show ?thesis
  proof (cases rule: assign_content_mem [where d = "bytes_of ob" and err = ContentTooLarge])
    case failed
    then show ?thesis using that(1) [of fs1] r by simp
  next
    case (updated fs' c)
    let ?ob = "(?f q)\<lparr>ob_content := c\<rparr>"
    have d: "same_data ob ?ob" using updated(3) by (simp add: same_data_def restamp_def)
    have o': "objs fs' = (objs fs)(s \<mapsto> ?ob)" using updated(4) o by simp
    have "fs_held arena X fs'" by (rule fs_held_upd [OF inv updated(2) o' same_data_dir_ok [OF d ob]])
    then show ?thesis using that(2) [of fs' ?ob] r updated d o' by (simp add: fs1_def)
  qed
qed

lemma restore_new:
  assumes inv: "fs_held arena X fs" and j: "fs_journal fs = None" and room: "card (dom (objs fs)) < MAX_OBJECTS"
    and ob: "dir_ok ob" and q: "objs fs s = None"
  obtains (failed) fs' where "restore_object fs (item_of s ob) = (fs', Err ContentTooLarge)" "content_refused (fs_heap fs') (bytes_of ob)"
    | (restored) fs' ob' where "restore_object fs (item_of s ob) = (fs', Ok ())" "fs_held arena X fs'" "fs_journal fs' = None"
        "same_data ob ob'" "objs fs' = (objs fs)(s \<mapsto> ob')"
proof -
  have mem: "mem_inv arena (fs_heap fs) (fs_reg fs) X" using inv by (simp add: fs_held_def)
  obtain h c where b: "content_from_bytes (fs_heap fs) (bytes_of ob) = (h, c)" by (metis prod.exhaust)
  note M = mem_from_bytes_held [OF mem b]
  show ?thesis
  proof (cases c)
    case None
    then show ?thesis using that(1) [of "fs\<lparr>fs_heap := h\<rparr>"] b q M(2) content_from_bytes_refused [of "fs_heap fs" "bytes_of ob" h] fs_held_get [OF inv]
      by (simp add: restore_object_def)
  next
    case (Some x)
    then have x: "as_bytes x = Some (bytes_of ob)" "content_wf x" using content_from_bytes_Some [of "fs_heap fs" _ h x] b by simp_all
    define ob' where "ob' = (ob_new s (ob_tier ob) 0)\<lparr>ob_content_type := ob_content_type ob, ob_created_at := ob_created_at ob,
        ob_modified_at := ob_modified_at ob, ob_content := x\<rparr>"
    define fs1 where "fs1 = fs\<lparr>fs_heap := h\<rparr>"
    have si: "ob_suid ob' = s" "ob_content ob' = x" by (simp_all add: ob_new_def ob'_def)
    have d: "same_data ob ob'" using x by (simp add: same_data_def ob_new_def ob'_def)
    have wf: "ob_wf ob'" using ob_wf_new(1) [of s "ob_tier ob" 0] x(2) by (simp add: ob_wf_def get_links_def ob'_def)
    have m: "mem_inv arena h (fs_reg fs) (X \<union> owned_blocks x)" "X \<inter> owned_blocks x = {}" using M(1,3) Some by simp_all
    have ri: "reg_inv (fs_reg fs1)" "objs fs1 (ob_suid ob') = None" "fs_journal fs1 = None" using mem_inv_reg [OF m(1)] q si j by (simp_all add: fs1_def)
    obtain j' r ok where i: "reg_insert (fs_journal fs1) (fs_reg fs1) ob' = (j', r, ok)" by (metis prod_cases3)
    note E = reg_insert_effect [OF ri(1) i]
    have ok: ok using E(3) ri reg_count_card [OF ri(1)] room by (auto simp: fs1_def)
    define fs' where "fs' = fs1\<lparr>fs_journal := j', fs_reg := r\<rparr>"
    have o: "objs fs' = (objs fs)(s \<mapsto> ob')" "fs_journal fs' = None" "insert_object fs1 ob' = (fs', True)"
      using E(2) ok si i ri(3) by (simp_all add: fs'_def fs1_def insert_object_def)
    have "owned_blocks (ob_content ob') \<subseteq> X \<union> owned_blocks x" using si by simp
    moreover have "X \<union> owned_blocks x - owned_blocks x = X" using m(2) by blast
    moreover have "reg_map r = (reg_map (fs_reg fs))(ob_suid ob' \<mapsto> ob')" "reg_map (fs_reg fs) (ob_suid ob') = None" using E(2) ok by (simp_all add: fs1_def)
    ultimately have "mem_inv arena (fs_heap fs') (fs_reg fs') X"
      using mem_insert_held [OF m(1) _ wf E(1)] si by (simp add: fs'_def fs1_def)
    from fs_held_upd [OF inv this o(1) same_data_dir_ok [OF d ob]]
    show ?thesis using that(2) [of fs' ob'] b Some q o d fs_held_get [OF inv] by (simp add: restore_object_def fs1_def ob'_def)
  qed
qed

lemma restore_object_cases:
  assumes "fs_held arena X fs" and "fs_journal fs = None" and "card (dom (objs fs)) < MAX_OBJECTS" and "dir_ok ob"
  obtains (failed) fs' where "restore_object fs (item_of s ob) = (fs', Err ContentTooLarge)" "content_refused (fs_heap fs') (bytes_of ob)"
    | (restored) fs' ob' where "restore_object fs (item_of s ob) = (fs', Ok ())" "fs_held arena X fs'" "fs_journal fs' = None"
        "same_data ob ob'" "objs fs' = (objs fs)(s \<mapsto> ob')"
proof (cases "objs fs s")
  case None
  from assms this show ?thesis by (rule restore_new) (use that in auto)
next
  case (Some q)
  from assms(1,4) this show ?thesis by (rule restore_existing) (use that assms(2) in auto)
qed

lemma deserialize_loop_records:
  assumes "fs_held arena X fs" and "fs_journal fs = None" and "card (dom (objs fs)) + length vs \<le> MAX_OBJECTS" and "distinct vs"
    and "\<forall>s \<in> set vs. \<exists>ob. reg_get reg s = Some ob \<and> length (bytes_of ob) \<le> MAX_FILE_CONTENT \<and> dir_ok ob"
    and "deserialize_loop (length vs) (pre @ recs reg vs) (length pre) fs = (fs', r)"
  shows "(r = Err ContentTooLarge \<and> (\<exists>s \<in> set vs. content_refused (fs_heap fs') (bytes_of (the (reg_get reg s)))))
    \<or> (r = Ok (length pre + length (recs reg vs)) \<and> fs_held arena X fs'
        \<and> (\<forall>s. s \<notin> set vs \<longrightarrow> objs fs' s = objs fs s)
        \<and> (\<forall>s \<in> set vs. \<exists>ob'. objs fs' s = Some ob' \<and> same_data (the (reg_get reg s)) ob'))"
  using assms
proof (induction vs arbitrary: pre fs)
  case (Cons v vs)
  obtain ob where ob: "reg_get reg v = Some ob" "length (bytes_of ob) \<le> MAX_FILE_CONTENT" "dir_ok ob" using Cons.prems(5) by auto
  have "length (bytes_of ob) < 2 ^ 32" using ob(2) by (simp add: MAX_FILE_CONTENT_def MAX_CONTENT_SIZE_def)
  then have g: "get_object (pre @ recs reg (v # vs)) (length pre) = Ok (item_of v ob, length (pre @ obj_record v ob))"
    using get_object_record [of ob "length pre" pre v "recs reg vs"] ob(1) by simp
  have room: "card (dom (objs fs)) < MAX_OBJECTS" using Cons.prems(3) by simp
  show ?case
    using Cons.prems(1,2) room ob(3)
  proof (cases rule: restore_object_cases [where s = v])
    case (failed fs1)
    then show ?thesis using Cons.prems(6) g ob(1) by (auto split: prod.splits)
  next
    case (restored fs1 ob')
    have e: "deserialize_loop (length vs) ((pre @ obj_record v ob) @ recs reg vs) (length (pre @ obj_record v ob)) fs1 = (fs', r)"
      using Cons.prems(6) g restored(1) ob(1) by simp
    have "card (dom (objs fs1)) \<le> Suc (card (dom (objs fs)))"
      using restored(5) reg_map_finite by (simp add: card_insert_if)
    then have "card (dom (objs fs1)) + length vs \<le> MAX_OBJECTS" using Cons.prems(3) by simp
    note IH = Cons.IH [OF restored(2,3) this _ _ e]
    have v: "v \<notin> set vs" "distinct vs" using Cons.prems(4) by simp_all
    have len: "length (pre @ obj_record v ob) + length (recs reg vs) = length pre + length (recs reg (v # vs))" using ob(1) by simp
    from IH [OF v(2)] Cons.prems(5) consider (refused) "r = Err ContentTooLarge" "\<exists>s \<in> set vs. content_refused (fs_heap fs') (bytes_of (the (reg_get reg s)))"
      | (finished) "r = Ok (length (pre @ obj_record v ob) + length (recs reg vs))" "fs_held arena X fs'" "\<forall>s. s \<notin> set vs \<longrightarrow> objs fs' s = objs fs1 s"
          "\<forall>s \<in> set vs. \<exists>ob'. objs fs' s = Some ob' \<and> same_data (the (reg_get reg s)) ob'" by auto
    then show ?thesis
    proof cases
      case refused
      then show ?thesis by auto
    next
      case finished
      have "objs fs' v = Some ob'" using finished(3) v(1) restored(5) by simp
      then have "\<forall>s \<in> set (v # vs). \<exists>ob'. objs fs' s = Some ob' \<and> same_data (the (reg_get reg s)) ob'" using finished(4) restored(4) ob(1) by auto
      moreover have "\<forall>s. s \<notin> set (v # vs) \<longrightarrow> objs fs' s = objs fs s" using finished(3) restored(5) by auto
      ultimately show ?thesis using finished(1,2) len by (intro disjI2) simp
    qed
  qed
qed simp

lemma deserialize_header:
  assumes "k \<le> MAX_QUEUE"
  shows "deserialize_namespace fs (ns_header k @ body) = deserialize_loop k (ns_header k @ body) 12 fs"
proof -
  have f: "slice 0 4 (ns_header k @ body) = NS_MAGIC" "slice 4 4 (ns_header k @ body) = le_bytes 4 NS_VERSION"
    "slice 8 4 (ns_header k @ body) = le_bytes 4 (of_nat k :: u32)"
    by (simp_all add: ns_header_def NS_MAGIC_def slice_def)
  have "unat (of_nat k :: u32) = k" using assms by (simp add: unat_of_nat take_bit_nat_eq_self MAX_QUEUE_def)
  then show ?thesis unfolding deserialize_namespace_def f by simp
qed

section \<open>Paths after a restore\<close>

lemma kids_view:
  assumes inv: "fs_inv arena fs" and "below (fs_reg fs) p" and "lookup_in_dir fs p n = Ok c"
  shows "below (fs_reg fs) c"
  using inv
proof (cases rule: node_cases [where s = p])
  case (dir ob es)
  have "view_lookup (view fs) p n = Ok c" using assms(3) lookup_in_dir_view [OF inv] by simp
  then have "map_of es n = Some c" using dir(5) by (auto simp: view_lookup.simps split: option.splits)
  then have "c \<in> set (kids ob)" using dir(2-4) map_of_SomeD
    by (force simp: kids_def dir_view_def dir_parse_encode all_entries_map)
  then show ?thesis using Child assms(2) dir(1) fs_get [OF inv] by metis
qed (use assms(3) lookup_in_dir_view [OF inv] in \<open>auto simp: view_lookup.simps\<close>)

lemma visit_cong_on:
  assumes "\<And>st c. P st \<Longrightarrow> f st c = g st c" and "\<And>st c st'. P st \<Longrightarrow> f st c = Ok st' \<Longrightarrow> P st'"
  shows "P st \<Longrightarrow> visit_components f d st cs = visit_components g d st cs"
proof (induction cs arbitrary: d st)
  case (Cons c cs)
  then show ?case using assms(1) [OF Cons.prems, of c] assms(2) [OF Cons.prems, of c] by (auto split: sum.split)
qed simp

lemma resolve_cong_below:
  assumes inv: "fs_inv arena fs" "fs_inv arena' fs'"
    and same: "\<And>s. below (fs_reg fs) s \<Longrightarrow> \<exists>ob ob'. objs fs s = Some ob \<and> objs fs' s = Some ob' \<and> same_data ob ob'"
  shows "resolve fs' path = resolve fs path"
proof -
  have l: "lookup_in_dir fs s n = lookup_in_dir fs' s n" if b: "below (fs_reg fs) s" for s n
  proof -
    obtain ob ob' where o: "objs fs s = Some ob" "objs fs' s = Some ob'" "same_data ob ob'" using same [OF b] by blast
    then have "bytes_of ob' = bytes_of ob" "ob_content_type ob' = ob_content_type ob" using same_data_bytes by (auto simp: same_data_def)
    then show ?thesis using o fs_get [OF inv(1)] fs_get [OF inv(2)] by (simp add: lookup_in_dir_def Let_def)
  qed
  have "visit_components (lookup_in_dir fs) d ROOT_SUID cs = visit_components (lookup_in_dir fs') d ROOT_SUID cs" for d cs
    by (rule visit_cong_on [where P = "below (fs_reg fs)"]) (use l kids_view [OF inv(1)] Root in auto)
  then show ?thesis by (simp add: resolve_def for_each_component_def split: list.split)
qed

lemma resolve_below:
  assumes inv: "fs_inv arena fs" and "resolve fs path = Ok s"
  shows "below (fs_reg fs) s"
proof -
  have "visit_components (lookup_in_dir fs) d p cs = Ok s \<Longrightarrow> below (fs_reg fs) p \<Longrightarrow> below (fs_reg fs) s" for d p cs
    by (induction cs arbitrary: d p) (auto split: if_splits sum.splits dest: kids_view [OF inv])
  then show ?thesis using assms(2) Root
    by (auto simp: resolve_def for_each_component_def split: if_splits list.splits)
qed

section \<open>The sectors\<close>

text \<open>
  What the snapshot code relies on in a device: blocks of 512 bytes that read as last written, a
  write that reports success writes that block and no other, and a flush changes no block.
\<close>

definition sector_disk :: "('d \<Rightarrow> u64 \<Rightarrow> u8 list) \<Rightarrow> 'd disk \<Rightarrow> bool" where
  "sector_disk blk dk \<longleftrightarrow> (\<forall>d lba. length (blk d lba) = 512) \<and> (\<forall>d lba. dk_read dk d lba = Ok (blk d lba))
     \<and> (\<forall>d lba buf d'. length buf = 512 \<and> dk_write dk d lba buf = (d', Ok ()) \<longrightarrow> blk d' = (blk d)(lba := buf))
     \<and> (\<forall>d d' r. dk_flush dk d = (d', r) \<longrightarrow> blk d' = blk d)"

lemma sector_disk_state [simp]: "sector_disk blk (dk\<lparr>dk_state := d\<rparr>) = sector_disk blk dk"
  by (simp add: sector_disk_def)

lemma length_payload_sector [simp]: "length (payload_sector payload i) = 512"
  by (simp add: payload_sector_def Let_def slice_def SECTOR_SIZE_def)

lemma lba_inj:
  assumes "i < 2 ^ 32" and "j < 2 ^ 32" and "1 + of_nat i = (1 + of_nat j :: u64)"
  shows "i = j"
proof -
  have "unat (of_nat i :: u64) = unat (of_nat j :: u64)" using assms(3) by simp
  then show ?thesis using assms(1,2) by (simp add: unat_of_nat take_bit_nat_eq_self)
qed

lemma lba_pos: "i < 2 ^ 32 \<Longrightarrow> 1 + of_nat i \<noteq> (0 :: u64)"
proof
  assume "i < 2 ^ 32" and z: "1 + of_nat i = (0 :: u64)"
  have "unat (1 + of_nat i :: u64) = Suc i" using \<open>i < 2 ^ 32\<close> by (simp add: unat_word_ariths unat_of_nat take_bit_nat_eq_self)
  then show False using z by simp
qed

lemma write_payload_Ok:
  assumes "sector_disk blk dk" and "\<forall>i \<in> set is. i < 2 ^ 32" and "distinct is" and "write_payload payload is dk = (dk', Ok ())"
  shows "\<exists>d. dk' = dk\<lparr>dk_state := d\<rparr> \<and> (\<forall>i \<in> set is. blk d (1 + of_nat i) = payload_sector payload i)
    \<and> (\<forall>lba. lba \<notin> (\<lambda>i. 1 + of_nat i) ` set is \<longrightarrow> blk d lba = blk (dk_state dk) lba)"
  using assms
proof (induction "is" arbitrary: dk)
  case Nil
  then show ?case by (intro exI [of _ "dk_state dk"]) simp
next
  case (Cons i "is")
  obtain d r where w: "dk_write dk (dk_state dk) (1 + of_nat i) (payload_sector payload i) = (d, r)" by (metis prod.exhaust)
  have r: "r = Ok ()" and e: "write_payload payload is (dk\<lparr>dk_state := d\<rparr>) = (dk', Ok ())"
    using Cons.prems(4) w by (auto simp: write_block_def split: sum.splits)
  have b: "blk d = (blk (dk_state dk))(1 + of_nat i := payload_sector payload i)"
    using Cons.prems(1) w r length_payload_sector unfolding sector_disk_def by blast
  obtain d' where d': "dk' = dk\<lparr>dk_state := d'\<rparr>" "\<forall>i \<in> set is. blk d' (1 + of_nat i) = payload_sector payload i"
    "\<forall>lba. lba \<notin> (\<lambda>i. 1 + of_nat i) ` set is \<longrightarrow> blk d' lba = blk d lba"
    using Cons.IH [of "dk\<lparr>dk_state := d\<rparr>"] Cons.prems(1-3) e by auto
  have "1 + of_nat i \<notin> (\<lambda>i. 1 + of_nat i :: u64) ` set is" 
  proof
    assume "1 + of_nat i \<in> (\<lambda>i. 1 + of_nat i :: u64) ` set is"
    then obtain j where "j \<in> set is" "1 + of_nat i = (1 + of_nat j :: u64)" by blast
    then show False using lba_inj [of i j] Cons.prems(2,3) by (metis distinct.simps(2) list.set_intros)
  qed
  then have "blk d' (1 + of_nat i) = payload_sector payload i" using d'(3) b by simp
  then show ?case using d' b by (intro exI [of _ d']) auto
qed

lemma take_payload_sector:
  "take (min (i * SECTOR_SIZE + SECTOR_SIZE) (length p) - i * SECTOR_SIZE) (payload_sector p i)
     = slice (i * SECTOR_SIZE) (min (i * SECTOR_SIZE + SECTOR_SIZE) (length p) - i * SECTOR_SIZE) p"
  by (simp add: payload_sector_def Let_def slice_def)

text \<open>Copying the next piece of a payload behind what has been read of it.\<close>

lemma copy_next_piece:
  assumes "k \<le> length p" and "length p \<le> length out" and "take k out = take k p" and "k + n \<le> length p"
  shows "take (k + n) (copy_into k (slice k n p) out) = take (k + n) p" and "length (copy_into k (slice k n p) out) = length out"
proof -
  have "take (k + n) (copy_into k (slice k n p) out) = take k out @ slice k n p" using assms by (simp add: copy_into_def slice_def)
  then show "take (k + n) (copy_into k (slice k n p) out) = take (k + n) p" using assms(3) by (simp add: slice_def take_add)
  show "length (copy_into k (slice k n p) out) = length out" using assms by simp
qed

lemma read_payload_sectors:
  assumes "sector_disk blk dk" and "\<forall>i \<in> {k..<m}. blk (dk_state dk) (1 + of_nat i) = payload_sector p i"
    and "m = (length p + SECTOR_SIZE - 1) div SECTOR_SIZE" and "k \<le> m"
    and "length p \<le> length out" and "take (min (k * SECTOR_SIZE) (length p)) out = take (min (k * SECTOR_SIZE) (length p)) p"
  shows "\<exists>out'. read_payload dk (length p) [k..<m] out = (out', Ok ()) \<and> take (length p) out' = p \<and> length out' = length out"
  using assms
proof (induction "m - k" arbitrary: k out)
  case 0
  then have "length p \<le> k * SECTOR_SIZE" by (simp add: SECTOR_SIZE_def)
  then show ?case using 0 by simp
next
  case (Suc x)
  then have k: "k < m" "[k..<m] = k # [Suc k..<m]" by (simp_all add: upt_conv_Cons)
  then have lt: "k * SECTOR_SIZE < length p" using Suc.prems(3) by (simp add: SECTOR_SIZE_def)
  let ?n = "min (k * SECTOR_SIZE + SECTOR_SIZE) (length p) - k * SECTOR_SIZE"
  let ?out = "copy_into (k * SECTOR_SIZE) (slice (k * SECTOR_SIZE) ?n p) out"
  have e: "k * SECTOR_SIZE + ?n = min (Suc k * SECTOR_SIZE) (length p)" using lt by (simp add: SECTOR_SIZE_def)
  have r: "read_payload dk (length p) [k..<m] out = read_payload dk (length p) [Suc k..<m] ?out"
    using Suc.prems(1,2) k take_payload_sector [of k p] by (simp add: sector_disk_def Let_def)
  have le: "k * SECTOR_SIZE \<le> length p" "k * SECTOR_SIZE + ?n \<le> length p" using lt by simp_all
  have pre: "take (k * SECTOR_SIZE) out = take (k * SECTOR_SIZE) p" using Suc.prems(6) lt by simp
  note C = copy_next_piece [OF le(1) Suc.prems(5) pre le(2)]
  have "\<exists>out'. read_payload dk (length p) [Suc k..<m] ?out = (out', Ok ()) \<and> take (length p) out' = p \<and> length out' = length ?out"
    by (rule Suc.hyps(1)) (use Suc.hyps(2) Suc.prems k C e in auto)
  then show ?case using r C(2) by simp
qed

lemma header_round_trip: "read_header (copy_into 0 (header_bytes h) (replicate SECTOR_SIZE 0)) = h"
  by (simp add: read_header_def header_bytes_def copy_into_def slice_def SECTOR_SIZE_def)

text \<open>The payload that was saved is the payload that is loaded.\<close>

lemma snapshot_save_load:
  assumes dk: "sector_disk blk dk" and save: "save_snapshot dk payload = (dk', Ok ())" and out: "length payload \<le> length out"
  shows "\<exists>out'. load_snapshot dk' out = (out', Ok (length payload)) \<and> take (length payload) out' = payload \<and> length out' = length out"
proof -
  define h where "h = \<lparr>sh_magic = SNAP_MAGIC, sh_version = 1, sh_length = of_nat (length payload), sh_checksum = checksum payload 0\<rparr>"
  define sec0 where "sec0 = copy_into 0 (header_bytes h) (replicate SECTOR_SIZE 0)"
  let ?m = "(length payload + SECTOR_SIZE - 1) div SECTOR_SIZE"
  have c: "\<not> dk_read_only dk" "length payload \<le> MAX_SNAPSHOT_BYTES" "dk_block_size dk = SECTOR_SIZE"
    using save by (auto simp: save_snapshot_def split: if_splits)
  obtain d0 r0 where w: "dk_write dk (dk_state dk) 0 sec0 = (d0, r0)" by (metis prod.exhaust)
  obtain dk2 r2 where p: "write_payload payload [0..<?m] (dk\<lparr>dk_state := d0\<rparr>) = (dk2, r2)" by (metis prod.exhaust)
  have r: "r0 = Ok ()" "r2 = Ok ()" and fl: "dk' = dk2\<lparr>dk_state := fst (dk_flush dk2 (dk_state dk2))\<rparr>"
    using save c w p unfolding save_snapshot_def h_def [symmetric] sec0_def [symmetric] Let_def write_block_def
    by (auto split: sum.splits if_splits prod.splits)
  have ls: "length sec0 = 512" by (simp add: sec0_def header_bytes_def SECTOR_SIZE_def)
  have b0: "blk d0 0 = sec0" using dk w r(1) ls unfolding sector_disk_def by (metis fun_upd_same)
  have m: "?m < 2 ^ 32" using c(2) by (simp add: MAX_SNAPSHOT_BYTES_def SECTOR_SIZE_def less_mult_imp_div_less)
  obtain d where d: "dk2 = dk\<lparr>dk_state := d\<rparr>" "\<forall>i \<in> set [0..<?m]. blk d (1 + of_nat i) = payload_sector payload i"
    "\<forall>lba. lba \<notin> (\<lambda>i. 1 + of_nat i) ` set [0..<?m] \<longrightarrow> blk d lba = blk d0 lba"
    using write_payload_Ok [of blk "dk\<lparr>dk_state := d0\<rparr>" "[0..<?m]" payload dk2] dk p r(2) m by auto
  have "(0 :: u64) \<notin> (\<lambda>i. 1 + of_nat i) ` set [0..<?m]" using lba_pos m by fastforce
  then have z: "blk d 0 = sec0" using d(3) b0 by simp
  have f: "blk (dk_state dk') = blk d" "sector_disk blk dk'" "dk_block_size dk' = SECTOR_SIZE"
    using dk d(1) fl c(3) unfolding sector_disk_def by (auto simp: prod_eq_iff)
  have "\<exists>out'. read_payload dk' (length payload) [0..<?m] out = (out', Ok ()) \<and> take (length payload) out' = payload \<and> length out' = length out"
    by (rule read_payload_sectors [OF f(2)]) (use d(2) f(1) out in auto)
  moreover have "dk_read dk' (dk_state dk') 0 = Ok sec0" using f z by (simp add: sector_disk_def)
  moreover have "read_header sec0 = h" unfolding sec0_def by (rule header_round_trip)
  moreover have "unat (sh_length h) = length payload"
    using c(2) by (simp add: h_def unat_of_nat take_bit_nat_eq_self MAX_SNAPSHOT_BYTES_def)
  ultimately show ?thesis using f(3) c(2) out by (auto simp: load_snapshot_def Let_def h_def)
qed

section \<open>Save and load\<close>

text \<open>A snapshot that is read into another registry: everything below the root is there again.\<close>

lemma deserialize_serialized:
  assumes inv: "fs_inv arena fs" and ser: "serialize_namespace (fs_reg fs) buf = (buf', Ok n)"
    and held: "fs_held arena' X fs2" and j: "fs_journal fs2 = None" and room: "card (dom (objs fs2)) + MAX_QUEUE \<le> MAX_OBJECTS"
    and des: "deserialize_namespace fs2 (take n buf') = (fs3, r)"
  shows "(r = Err ContentTooLarge \<and> (\<exists>s ob. below (fs_reg fs) s \<and> objs fs s = Some ob \<and> length (bytes_of ob) > 256
            \<and> snd (heap_allocate (fs_heap fs3) (length (bytes_of ob)) 8) = 0))
    \<or> (r = Ok n \<and> fs_held arena' X fs3 \<and> (\<forall>s. \<not> below (fs_reg fs) s \<longrightarrow> objs fs3 s = objs fs2 s)
        \<and> (\<forall>s. below (fs_reg fs) s \<longrightarrow> (\<exists>ob ob'. objs fs s = Some ob \<and> objs fs3 s = Some ob' \<and> same_data ob ob')))"
proof -
  obtain vs where vs: "distinct vs" "set vs = {s. below (fs_reg fs) s}" "length vs \<le> MAX_QUEUE"
      "\<forall>s \<in> set vs. \<exists>ob. reg_get (fs_reg fs) s = Some ob \<and> length (bytes_of ob) \<le> MAX_FILE_CONTENT"
    and n: "n = 12 + length (recs (fs_reg fs) vs)" and b: "take n buf' = ns_header (length vs) @ recs (fs_reg fs) vs"
    using serialize_namespace_Ok [OF ser] by metis
  have ok: "\<forall>s \<in> set vs. \<exists>ob. reg_get (fs_reg fs) s = Some ob \<and> length (bytes_of ob) \<le> MAX_FILE_CONTENT \<and> dir_ok ob"
    using vs(4) fs_inv_dir_ok [OF inv] fs_get [OF inv] by (metis (no_types, lifting))
  have room': "card (dom (objs fs2)) + length vs \<le> MAX_OBJECTS" using room vs(3) by simp
  have e: "deserialize_loop (length vs) (ns_header (length vs) @ recs (fs_reg fs) vs) (length (ns_header (length vs))) fs2 = (fs3, r)"
    using des deserialize_header [OF vs(3), of fs2 "recs (fs_reg fs) vs"] by (simp add: b)
  from deserialize_loop_records [OF held j room' vs(1) ok e] show ?thesis
  proof
    assume R: "r = Err ContentTooLarge \<and> (\<exists>s \<in> set vs. content_refused (fs_heap fs3) (bytes_of (the (reg_get (fs_reg fs) s))))"
    then obtain s where s: "s \<in> set vs" "content_refused (fs_heap fs3) (bytes_of (the (reg_get (fs_reg fs) s)))" by blast
    then obtain ob where ob: "reg_get (fs_reg fs) s = Some ob" "length (bytes_of ob) \<le> MAX_FILE_CONTENT" using ok by blast
    then have "below (fs_reg fs) s" "objs fs s = Some ob" "length (bytes_of ob) > 256" "snd (heap_allocate (fs_heap fs3) (length (bytes_of ob)) 8) = 0"
      using s vs(2) fs_get [OF inv] by (auto simp: content_refused_def)
    then show ?thesis using R by blast
  next
    assume R: "r = Ok (length (ns_header (length vs)) + length (recs (fs_reg fs) vs)) \<and> fs_held arena' X fs3
      \<and> (\<forall>s. s \<notin> set vs \<longrightarrow> objs fs3 s = objs fs2 s)
      \<and> (\<forall>s \<in> set vs. \<exists>ob'. objs fs3 s = Some ob' \<and> same_data (the (reg_get (fs_reg fs) s)) ob')"
    have "\<exists>ob ob'. objs fs s = Some ob \<and> objs fs3 s = Some ob' \<and> same_data ob ob'" if "below (fs_reg fs) s" for s
      using R ok vs(2) that fs_get [OF inv] by (metis mem_Collect_eq option.sel)
    then show ?thesis using R n vs(2) by (intro disjI2) simp
  qed
qed

lemma ns_save_Ok:
  assumes "ns_save dk scratch fs = (fs1, dk1, Ok n)"
  obtains buf where "serialize_namespace (fs_reg fs) scratch = (buf, Ok n)" "save_snapshot dk (take n buf) = (dk1, Ok ())"
  using assms by (auto simp: ns_save_def Let_def split: prod.splits if_splits sum.splits)

text \<open>Freeing the buffer leaves the objects alone.\<close>

lemma fs_held_free:
  assumes "fs_held arena {p} fs"
  shows "fs_inv arena (fs\<lparr>fs_heap := free_buf (fs_heap fs) p\<rparr>)"
  using assms mem_buf_free [of arena "fs_heap fs" "fs_reg fs" p "{}"] by (auto simp: fs_held_def fs_inv_def)

lemma ns_load_saved:
  assumes inv: "fs_inv arena fs" and dk: "sector_disk blk dk" and save: "ns_save dk scratch fs = (fs1, dk1, Ok n)"
    and inv2: "fs_inv arena' fs2" and j: "fs_journal fs2 = None" and room: "card (dom (objs fs2)) + MAX_QUEUE \<le> MAX_OBJECTS"
    and sc: "length scratch' = MAX_SNAPSHOT_BYTES" and load: "ns_load dk1 scratch' fs2 = (fs3, r)"
    and buf: "snd (heap_allocate (fs_heap fs2) MAX_SNAPSHOT_BYTES 8) \<noteq> 0"
  shows "(r = Err ContentTooLarge \<and> (\<exists>s ob out h. below (fs_reg fs) s \<and> objs fs s = Some ob \<and> length (bytes_of ob) > 256
            \<and> load_snapshot dk1 scratch' = (out, Ok n)
            \<and> h = fs_heap (fst (deserialize_namespace (fs2\<lparr>fs_heap := fst (heap_allocate (fs_heap fs2) MAX_SNAPSHOT_BYTES 8)\<rparr>) (take n out)))
            \<and> snd (heap_allocate h (length (bytes_of ob)) 8) = 0))
    \<or> (r = Ok n \<and> fs_inv arena' fs3 \<and> (\<forall>s. \<not> below (fs_reg fs) s \<longrightarrow> objs fs3 s = objs fs2 s)
        \<and> (\<forall>s. below (fs_reg fs) s \<longrightarrow> (\<exists>ob ob'. objs fs s = Some ob \<and> objs fs3 s = Some ob' \<and> same_data ob ob')))"
proof -
  obtain b where b: "serialize_namespace (fs_reg fs) scratch = (b, Ok n)" "save_snapshot dk (take n b) = (dk1, Ok ())"
    using ns_save_Ok [OF save] by blast
  have nb: "n \<le> length b" using serialize_namespace_Ok [OF b(1)] by metis
  then have lb: "length (take n b) = n" by simp
  have "length (take n b) \<le> MAX_SNAPSHOT_BYTES" using b(2) unfolding save_snapshot_def by (auto simp del: length_take split: if_splits)
  then obtain out where out: "load_snapshot dk1 scratch' = (out, Ok n)" "take n out = take n b"
    using snapshot_save_load [OF dk b(2), of scratch'] sc unfolding lb by auto
  obtain h p where a: "heap_allocate (fs_heap fs2) MAX_SNAPSHOT_BYTES 8 = (h, p)" by (metis prod.exhaust)
  then have p: "p \<noteq> 0" using buf by simp
  define fs2' where "fs2' = fs2\<lparr>fs_heap := h\<rparr>"
  have "mem_inv arena' h (fs_reg fs2) {p}"
    using mem_buf_alloc(1) [OF fs_inv_mem [OF inv2] _ a p] by (simp add: MAX_SNAPSHOT_BYTES_def)
  then have held: "fs_held arena' {p} fs2'" using inv2 by (simp add: fs_held_def fs_inv_def fs2'_def)
  obtain fs4 r4 where des: "deserialize_namespace fs2' (take n b) = (fs4, r4)" by (metis prod.exhaust)
  have l: "fs3 = fs4\<lparr>fs_heap := free_buf (fs_heap fs4) p\<rparr>" "r = (case r4 of Inr _ \<Rightarrow> Ok n | Inl e \<Rightarrow> Err e)"
    using load a p out des by (auto simp: ns_load_def fs2'_def Let_def split: sum.splits prod.splits)
  have "fs_journal fs2' = None" "card (dom (objs fs2')) + MAX_QUEUE \<le> MAX_OBJECTS" using j room by (simp_all add: fs2'_def)
  note S = deserialize_serialized [OF inv b(1) held this des]
  have "fs_heap fs4 = fs_heap (fst (deserialize_namespace (fs2\<lparr>fs_heap := fst (heap_allocate (fs_heap fs2) MAX_SNAPSHOT_BYTES 8)\<rparr>) (take n out)))"
    using des a out(2) by (simp add: fs2'_def)
  then show ?thesis using S fs_held_free [of arena' p fs4] l out(1) by (elim disjE) (auto simp: fs2'_def)
qed

section \<open>A disk in memory\<close>

definition ram_dk :: "(u64 \<Rightarrow> u8 list) disk" where
  "ram_dk = \<lparr>dk_state = (\<lambda>_. replicate 512 0), dk_read = (\<lambda>d lba. Ok (take 512 (d lba @ replicate 512 0))),
     dk_write = (\<lambda>d lba buf. (d(lba := buf), Ok ())), dk_flush = (\<lambda>d. (d, Ok ())),
     dk_block_size = SECTOR_SIZE, dk_read_only = False\<rparr>"

lemma ram_dk_sectors: "sector_disk (\<lambda>d lba. take 512 (d lba @ replicate 512 0)) ram_dk"
proof -
  let ?blk = "\<lambda>d lba. take 512 (d lba @ replicate 512 (0 :: u8))"
  have "?blk (d(lba := buf)) = (?blk d)(lba := buf)" if "length buf = 512" for d :: "u64 \<Rightarrow> u8 list" and lba buf
    using that by (auto simp only: fun_eq_iff fun_upd_apply take_append) simp
  moreover have "length (?blk d lba) = 512" for d :: "u64 \<Rightarrow> u8 list" and lba by (simp only: length_take length_append length_replicate)
  ultimately show ?thesis by (simp add: sector_disk_def ram_dk_def)
qed

lemma ram_write_payload: "\<exists>d. write_payload payload is (ram_dk\<lparr>dk_state := d0\<rparr>) = (ram_dk\<lparr>dk_state := d\<rparr>, Ok ())"
proof (induction "is" arbitrary: d0)
  case Nil
  show ?case by (intro exI [of _ d0]) simp
next
  case (Cons i "is")
  have "write_block (ram_dk\<lparr>dk_state := d0\<rparr>) (1 + of_nat i) (payload_sector payload i)
      = (ram_dk\<lparr>dk_state := d0(1 + of_nat i := payload_sector payload i)\<rparr>, Ok ())" by (simp add: write_block_def ram_dk_def)
  then show ?case using Cons.IH by simp
qed

lemma ram_save_ok:
  assumes "length payload \<le> MAX_SNAPSHOT_BYTES"
  shows "\<exists>dk'. save_snapshot ram_dk payload = (dk', Ok ())"
proof -
  have m: "(length payload + SECTOR_SIZE - 1) div SECTOR_SIZE \<le> PAYLOAD_SECTORS"
    using assms by (simp add: PAYLOAD_SECTORS_def MAX_SNAPSHOT_BYTES_def SECTOR_SIZE_def)
  have w: "write_block ram_dk lba buf = (ram_dk\<lparr>dk_state := (dk_state ram_dk)(lba := buf)\<rparr>, Ok ())" for lba buf
    by (simp add: write_block_def ram_dk_def)
  have c: "\<not> dk_read_only ram_dk" "dk_block_size ram_dk = SECTOR_SIZE" "dk_flush (ram_dk\<lparr>dk_state := d\<rparr>) d = (d, Ok ())" for d
    by (simp_all add: ram_dk_def)
  obtain d where "write_payload payload [0..<(length payload + SECTOR_SIZE - 1) div SECTOR_SIZE] (ram_dk\<lparr>dk_state := (dk_state ram_dk)
      (0 := copy_into 0 (header_bytes \<lparr>sh_magic = SNAP_MAGIC, sh_version = 1, sh_length = of_nat (length payload),
        sh_checksum = checksum payload 0\<rparr>) (replicate SECTOR_SIZE 0))\<rparr>) = (ram_dk\<lparr>dk_state := d\<rparr>, Ok ())"
    using ram_write_payload by blast
  then show ?thesis using assms m c by (simp add: save_snapshot_def w Let_def)
qed

text \<open>A freshly booted namespace is one record.\<close>

lemma boot_serializes:
  assumes "53 \<le> length buf"
  shows "\<exists>buf'. serialize_namespace (fs_reg (ns_boot arena (None :: unit journal option))) buf = (buf', Ok 53)"
proof -
  let ?fs = "ns_boot arena (None :: unit journal option)"
  obtain ob where ob: "objs ?fs = [ROOT_SUID \<mapsto> ob]" "ob_content_type ob = Structured" "bytes_of ob = encode_dir []" by (rule ns_boot_root)
  have g: "reg_get (fs_reg ?fs) ROOT_SUID = Some ob" using fs_get [OF fs_inv_boot [of arena "None :: unit journal option"]] ob(1) by simp
  have p: "dir_parse [0] = Ok []" by (simp add: dir_parse_def)
  let ?st = "\<lparr>sr_buf = copy_into 8 (le_bytes 4 (0 :: u32)) (copy_into 4 (le_bytes 4 NS_VERSION) (copy_into 0 NS_MAGIC buf)),
    sr_cursor = 12, sr_visited = [], sr_queue = [ROOT_SUID], sr_head = 0\<rparr>"
  have l: "length (sr_buf ?st) = length buf" using assms by (simp add: NS_MAGIC_def)
  have "\<exists>st. serialize_object (fs_reg ?fs) ROOT_SUID (?st\<lparr>sr_head := 1\<rparr>) = (st, Ok ())
      \<and> sr_cursor st = 53 \<and> sr_head st = 1 \<and> sr_queue st = [ROOT_SUID]"
    using l assms unfolding serialize_object_def g
    by (simp add: ob Let_def OBJ_HEADER_def MAX_FILE_CONTENT_def MAX_CONTENT_SIZE_def p)
  then obtain st where st: "serialize_object (fs_reg ?fs) ROOT_SUID (?st\<lparr>sr_head := 1\<rparr>) = (st, Ok ())" "sr_cursor st = 53"
    "sr_head st = 1" "sr_queue st = [ROOT_SUID]" by blast
  have "serialize_loop (fs_reg ?fs) st = (st, Ok ())" using st by (subst serialize_loop.simps) simp
  then have "serialize_loop (fs_reg ?fs) ?st = (st, Ok ())" using st(1) by (subst serialize_loop.simps) (simp add: Let_def)
  then show ?thesis using assms st(2) by (simp add: serialize_namespace_def Let_def)
qed

lemma ns_boot_heap: "fs_heap (ns_boot arena jr) = heap_init arena heap_boot"
proof -
  have "from_inline [0] = Some c \<Longrightarrow> owned_blocks c = {}" for c using from_inline_bytes by blast
  then have "from_inline [0] = Some c \<Longrightarrow> drop_heap h c = h" for c h
    by (cases c) (auto simp: drop_heap_def from_inline_def split: if_splits)
  then show ?thesis
    by (auto simp: ns_boot_def ns_init_def insert_object_def ob_new_def split: option.split prod.split bool.split)
qed

lemma boot_buffer: "snd (heap_allocate (fs_heap boot0) MAX_SNAPSHOT_BYTES 8) \<noteq> 0"
  by (simp add: ns_boot_heap heap_init_def heap_boot_def heap_allocate_def MAX_SNAPSHOT_BYTES_def HEAP_SIZE_def
      total_needed_def add_usize_def sub_usize_def HEADER_SIZE_def align_down_def is_power_of_two_def Let_def)

section \<open>The round trip\<close>

text \<open>
  (C9) Saving and loading the namespace. Save a namespace to a disk and load it into another one, for
  instance the one of the next boot: when the load succeeds, every path resolves to the same object
  or the same error as before, and every object a path names has its tier, type, times and bytes
  again, while objects outside the saved tree stay as they were and the namespace is consistent. The
  load can fail for one reason only: the heap, as it is when the load stops with its buffer still allocated, has no block for the
  content, of more than 256 bytes, of one of the saved objects. This holds for a disk whose reads never fail and whose successful writes
  change exactly their block, for a namespace without a journal that has at most 1024 - 256 objects before the load, and when
  the heap has room for the buffer of the load.
\<close>

theorem snapshot_restores_namespace:
  assumes "ns_reach arena fs" and "sector_disk blk dk" and "ns_save dk scratch fs = (fs1, dk1, Ok n)"
    and "ns_reach arena' fs2" and "fs_journal fs2 = None" and "card (dom (objs fs2)) + MAX_QUEUE \<le> MAX_OBJECTS"
    and "length scratch' = MAX_SNAPSHOT_BYTES" and "ns_load dk1 scratch' fs2 = (fs3, r)"
    and "snd (heap_allocate (fs_heap fs2) MAX_SNAPSHOT_BYTES 8) \<noteq> 0"
  shows "if r = Ok n
    then fs_inv arena' fs3 \<and> (\<forall>path. resolve fs3 path = resolve fs path)
      \<and> (\<forall>path s. resolve fs path = Ok s \<longrightarrow> (\<exists>ob ob'. objs fs s = Some ob \<and> objs fs3 s = Some ob' \<and> same_data ob ob'))
      \<and> (\<forall>s. \<not> below (fs_reg fs) s \<longrightarrow> objs fs3 s = objs fs2 s)
    else r = Err ContentTooLarge \<and> (\<exists>s ob out h. below (fs_reg fs) s \<and> objs fs s = Some ob \<and> length (bytes_of ob) > 256
      \<and> load_snapshot dk1 scratch' = (out, Ok n)
      \<and> h = fs_heap (fst (deserialize_namespace (fs2\<lparr>fs_heap := fst (heap_allocate (fs_heap fs2) MAX_SNAPSHOT_BYTES 8)\<rparr>) (take n out)))
      \<and> snd (heap_allocate h (length (bytes_of ob)) 8) = 0)"
proof -
  note inv = fs_inv_reach [OF assms(1)]
  from ns_load_saved [OF inv assms(2,3) fs_inv_reach [OF assms(4)] assms(5-9)] show ?thesis
  proof
    assume R: "r = Ok n \<and> fs_inv arena' fs3 \<and> (\<forall>s. \<not> below (fs_reg fs) s \<longrightarrow> objs fs3 s = objs fs2 s)
      \<and> (\<forall>s. below (fs_reg fs) s \<longrightarrow> (\<exists>ob ob'. objs fs s = Some ob \<and> objs fs3 s = Some ob' \<and> same_data ob ob'))"
    then have "resolve fs3 path = resolve fs path" for path using resolve_cong_below [OF inv, of arena' fs3] by blast
    then show ?thesis using R resolve_below [OF inv] by auto
  qed auto
qed

theorem snapshot_restores_namespace_witness:
  "\<exists>fs1 dk1 fs3 r. ns_save ram_dk (replicate MAX_SNAPSHOT_BYTES 0) boot0 = (fs1, dk1, Ok 53)
     \<and> ns_load dk1 (replicate MAX_SNAPSHOT_BYTES 0) boot0 = (fs3, r) \<and> r = Ok 53 \<and> resolve fs3 [SLASH] = Ok ROOT_SUID"
proof -
  let ?sc = "replicate MAX_SNAPSHOT_BYTES (0 :: u8)"
  obtain ob where ob: "objs boot0 = [ROOT_SUID \<mapsto> ob]" "bytes_of ob = encode_dir []" by (rule ns_boot_root)
  obtain buf where b: "serialize_namespace (fs_reg boot0) ?sc = (buf, Ok 53)"
    using boot_serializes [of ?sc 4096] by (auto simp: MAX_SNAPSHOT_BYTES_def)
  have "length (take 53 buf) \<le> MAX_SNAPSHOT_BYTES" by (simp add: MAX_SNAPSHOT_BYTES_def)
  then obtain dk1 where dk1: "save_snapshot ram_dk (take 53 buf) = (dk1, Ok ())" using ram_save_ok by blast
  obtain h p where a: "heap_allocate (fs_heap boot0) MAX_SNAPSHOT_BYTES 8 = (h, p)" by (metis prod.exhaust)
  have s: "ns_save ram_dk ?sc boot0 = (boot0\<lparr>fs_heap := free_buf h p\<rparr>, dk1, Ok 53)"
    using b dk1 a boot_buffer by (simp add: ns_save_def)
  obtain fs3 r where l: "ns_load dk1 ?sc boot0 = (fs3, r)" by (metis prod.exhaust)
  have boot: "ns_reach 4096 boot0" by (rule ns_reach.Boot)
  have j: "fs_journal boot0 = None" "card (dom (objs boot0)) + MAX_QUEUE \<le> MAX_OBJECTS"
    using ns_boot_root [of 4096] ob(1) by (auto simp: MAX_QUEUE_def MAX_OBJECTS_def)
  note T = snapshot_restores_namespace [OF boot ram_dk_sectors s boot j length_replicate l boot_buffer]
  have small: "length (bytes_of q) \<le> 256" if "objs boot0 t = Some q" for t q using that ob by (auto split: if_splits)
  have "r = Ok 53"
  proof (rule ccontr)
    assume "r \<noteq> Ok 53"
    with T obtain t q where "objs boot0 t = Some q" "length (bytes_of q) > 256" by auto
    then show False using small by fastforce
  qed
  moreover from this T have "resolve fs3 [SLASH] = resolve boot0 [SLASH]" by simp
  ultimately show ?thesis using s l resolve_root by metis
qed

end
