(* ===== verification/Users.thy ===== *)
theory Users
  imports Slot_Table Tiers
begin

text \<open>
  The user registry: \<^verbatim>\<open>src/kernel-core/src/security/users.rs\<close> with the identifiers and the
  error type of \<^verbatim>\<open>security/mod.rs\<close>. A name is the byte list of the \<^verbatim>\<open>&str\<close>. The theory
  shows that ids and names stay unique and the built-in accounts stay in place under every
  operation, when exactly an account can be created, and what the setuid rule allows.
\<close>

section \<open>Definitions\<close>

datatype security_error =
    PolicyNotFound | AccessDenied | InvalidPolicy | NotInitialized | InsufficientPrivilege
  | EvaluationError | MissingContext

fun to_error_code :: "security_error \<Rightarrow> int" where
  "to_error_code PolicyNotFound = -70"
| "to_error_code AccessDenied = -71"
| "to_error_code InvalidPolicy = -72"
| "to_error_code NotInitialized = -73"
| "to_error_code InsufficientPrivilege = -74"
| "to_error_code EvaluationError = -75"
| "to_error_code MissingContext = -76"

type_synonym user_id = u8
type_synonym group_id = u8

definition USER_SYSTEM :: user_id where "USER_SYSTEM = 0"
definition USER_ADMIN :: user_id where "USER_ADMIN = 1"
definition USER_GUEST :: user_id where "USER_GUEST = 254"
definition USER_NOBODY :: user_id where "USER_NOBODY = 255"

definition GROUP_SYSTEM :: group_id where "GROUP_SYSTEM = 0"
definition GROUP_ADMIN :: group_id where "GROUP_ADMIN = 1"
definition GROUP_GUEST :: group_id where "GROUP_GUEST = 254"
definition GROUP_NONE :: group_id where "GROUP_NONE = 255"

definition MAX_USERS :: nat where "MAX_USERS = 32"
definition MAX_USERNAME_LEN :: nat where "MAX_USERNAME_LEN = 31"
definition FIRST_DYNAMIC_USER :: user_id where "FIRST_DYNAMIC_USER = 10"
definition FIRST_RESERVED_HIGH :: user_id where "FIRST_RESERVED_HIGH = 250"

definition UF_ACTIVE :: u16 where "UF_ACTIVE = 1"
definition UF_SYSTEM :: u16 where "UF_SYSTEM = 2"
definition UF_LOCKED :: u16 where "UF_LOCKED = 4"

definition uf_is_active :: "u16 \<Rightarrow> bool" where "uf_is_active f \<longleftrightarrow> f AND UF_ACTIVE \<noteq> 0"
definition uf_is_system :: "u16 \<Rightarrow> bool" where "uf_is_system f \<longleftrightarrow> f AND UF_SYSTEM \<noteq> 0"
definition uf_is_locked :: "u16 \<Rightarrow> bool" where "uf_is_locked f \<longleftrightarrow> f AND UF_LOCKED \<noteq> 0"
definition uf_set :: "u16 \<Rightarrow> u16 \<Rightarrow> u16" where "uf_set f m = f OR m"
definition uf_clear :: "u16 \<Rightarrow> u16 \<Rightarrow> u16" where "uf_clear f m = f AND NOT m"

record user_account =
  ua_id :: user_id
  ua_group :: group_id
  ua_default_max_tier :: security_tier
  ua_password_hash :: "u8 list"
  ua_name_buf :: "u8 list"
  ua_name_len :: u8
  ua_flags :: u16

definition ua_empty :: user_account where
  "ua_empty = \<lparr>ua_id = USER_NOBODY, ua_group = GROUP_NONE, ua_default_max_tier = Public,
     ua_password_hash = replicate 32 0, ua_name_buf = replicate MAX_USERNAME_LEN 0, ua_name_len = 0,
     ua_flags = 0\<rparr>"

definition ua_new :: "user_id \<Rightarrow> u8 list \<Rightarrow> group_id \<Rightarrow> security_tier \<Rightarrow> bool \<Rightarrow> user_account" where
  "ua_new i name g t sys =
     (let n = min (length name) MAX_USERNAME_LEN;
          flags = UF_ACTIVE
      in ua_empty\<lparr>ua_id := i, ua_group := g, ua_default_max_tier := t,
           ua_name_buf := copy_into 0 (take n name) (ua_name_buf ua_empty),
           ua_name_len := of_nat n,
           ua_flags := if sys then uf_set flags UF_SYSTEM else flags\<rparr>)"

definition ua_name :: "user_account \<Rightarrow> u8 list" where
  "ua_name a = take (unat (ua_name_len a)) (ua_name_buf a)"

abbreviation ua_active :: "user_account \<Rightarrow> bool" where
  "ua_active a \<equiv> uf_is_active (ua_flags a)"

record user_registry =
  ur_accounts :: "user_account list"
  ur_initialized :: bool

definition ur_new :: user_registry where
  "ur_new = \<lparr>ur_accounts = replicate MAX_USERS ua_empty, ur_initialized = False\<rparr>"

text \<open>The names ``system'', ``admin'', ``guest'' and ``nobody'' in ASCII.\<close>

definition ur_init :: "user_registry \<Rightarrow> user_registry" where
  "ur_init r =
     (if ur_initialized r then r
      else \<lparr>ur_accounts = (ur_accounts r)
              [0 := ua_new USER_SYSTEM [115, 121, 115, 116, 101, 109] GROUP_SYSTEM Secret True,
               1 := ua_new USER_ADMIN [97, 100, 109, 105, 110] GROUP_ADMIN Secret True,
               2 := ua_new USER_GUEST [103, 117, 101, 115, 116] GROUP_GUEST Public True,
               3 := ua_new USER_NOBODY [110, 111, 98, 111, 100, 121] GROUP_NONE Public True],
            ur_initialized = True\<rparr>)"

definition ur_lookup :: "user_registry \<Rightarrow> user_id \<Rightarrow> user_account option" where
  "ur_lookup r i = List.find (\<lambda>a. ua_active a \<and> ua_id a = i) (ur_accounts r)"

text \<open>The caller of \<^verbatim>\<open>lookup_mut\<close> changes the account it is given with \<open>f\<close>.\<close>

definition ur_lookup_mut :: "user_registry \<Rightarrow> user_id \<Rightarrow> (user_account \<Rightarrow> user_account) \<Rightarrow> user_registry" where
  "ur_lookup_mut r i f =
     (case position (\<lambda>a. ua_active a \<and> ua_id a = i) (ur_accounts r) of
        Some k \<Rightarrow> r\<lparr>ur_accounts := (ur_accounts r)[k := f (ur_accounts r ! k)]\<rparr>
      | None \<Rightarrow> r)"

definition ur_lookup_by_name :: "user_registry \<Rightarrow> u8 list \<Rightarrow> user_account option" where
  "ur_lookup_by_name r name = List.find (\<lambda>a. ua_active a \<and> ua_name a = name) (ur_accounts r)"

text \<open>The search for a free id; \<open>None\<close> is the overflow branch of \<^verbatim>\<open>checked_add\<close>.\<close>

function free_candidate :: "user_registry \<Rightarrow> user_id \<Rightarrow> user_id option" where
  "free_candidate r candidate =
     (if candidate < FIRST_RESERVED_HIGH
      then if ur_lookup r candidate = None then Some candidate
           else if candidate = 255 then None
           else free_candidate r (candidate + 1)
      else Some candidate)"
  by pat_completeness auto
termination
proof (relation "measure (\<lambda>(r, c). 256 - unat c)")
  fix r :: user_registry and c :: user_id
  assume "c < FIRST_RESERVED_HIGH"
  then have "unat c < 250" by (simp add: FIRST_RESERVED_HIGH_def word_less_nat_alt)
  moreover from this have "unat (c + 1) = unat c + 1" by (simp add: unat_word_ariths)
  ultimately show "((r, c + 1), (r, c)) \<in> measure (\<lambda>(r, c). 256 - unat c)" by simp
qed simp

declare free_candidate.simps [simp del]

definition create_user ::
  "user_registry \<Rightarrow> u8 list \<Rightarrow> group_id \<Rightarrow> security_tier \<Rightarrow> user_registry \<times> (security_error + user_id)" where
  "create_user r name g t =
     (if name = [] \<or> length name > MAX_USERNAME_LEN then (r, Err InvalidPolicy)
      else if ur_lookup_by_name r name \<noteq> None then (r, Err InvalidPolicy)
      else case free_candidate r FIRST_DYNAMIC_USER of
             None \<Rightarrow> (r, Err InvalidPolicy)
           | Some candidate \<Rightarrow>
               (if candidate \<ge> FIRST_RESERVED_HIGH then (r, Err InvalidPolicy)
                else case position (\<lambda>a. \<not> ua_active a) (ur_accounts r) of
                       None \<Rightarrow> (r, Err InvalidPolicy)
                     | Some slot \<Rightarrow>
                         (r\<lparr>ur_accounts := (ur_accounts r)[slot := ua_new candidate name g t False]\<rparr>,
                          Ok candidate)))"

definition delete_user :: "user_registry \<Rightarrow> user_id \<Rightarrow> user_registry \<times> (security_error + unit)" where
  "delete_user r i =
     (case position (\<lambda>a. ua_active a \<and> ua_id a = i) (ur_accounts r) of
        None \<Rightarrow> (r, Err PolicyNotFound)
      | Some k \<Rightarrow>
          (if uf_is_system (ua_flags (ur_accounts r ! k)) then (r, Err InsufficientPrivilege)
           else (r\<lparr>ur_accounts := (ur_accounts r)[k := ua_empty]\<rparr>, Ok ())))"

definition ur_count :: "user_registry \<Rightarrow> nat" where
  "ur_count r = length (filter ua_active (ur_accounts r))"

definition ur_iter :: "user_registry \<Rightarrow> user_account list" where
  "ur_iter r = filter ua_active (ur_accounts r)"

definition is_privileged :: "user_id \<Rightarrow> bool" where
  "is_privileged i \<longleftrightarrow> i = USER_SYSTEM \<or> i = USER_ADMIN"

definition can_setuid_to :: "user_id \<Rightarrow> user_id \<Rightarrow> user_registry \<Rightarrow> bool" where
  "can_setuid_to requester target r =
     (if (case ur_lookup r target of Some a \<Rightarrow> uf_is_locked (ua_flags a) | None \<Rightarrow> True) then False
      else if requester = USER_SYSTEM then True
      else if requester = USER_ADMIN then target \<noteq> USER_SYSTEM
      else False)"

lemmas user_consts = USER_SYSTEM_def USER_ADMIN_def USER_GUEST_def USER_NOBODY_def
  GROUP_SYSTEM_def GROUP_ADMIN_def GROUP_GUEST_def GROUP_NONE_def MAX_USERS_def MAX_USERNAME_LEN_def
  FIRST_DYNAMIC_USER_def FIRST_RESERVED_HIGH_def UF_ACTIVE_def UF_SYSTEM_def UF_LOCKED_def

section \<open>Accounts\<close>

lemma ua_active_new [simp]: "ua_active (ua_new i name g t sys)"
  by (simp add: ua_new_def Let_def uf_is_active_def uf_set_def UF_ACTIVE_def UF_SYSTEM_def)

lemma ua_active_empty [simp]: "\<not> ua_active ua_empty"
  by (simp add: ua_empty_def uf_is_active_def)

lemma uf_is_system_new [simp]: "uf_is_system (ua_flags (ua_new i name g t sys)) = sys"
  by (simp add: ua_new_def Let_def uf_is_system_def uf_set_def UF_ACTIVE_def UF_SYSTEM_def)

lemma uf_is_locked_new [simp]: "\<not> uf_is_locked (ua_flags (ua_new i name g t sys))"
  by (simp add: ua_new_def Let_def uf_is_locked_def uf_set_def UF_ACTIVE_def UF_SYSTEM_def UF_LOCKED_def)

lemma ua_new_simps [simp]:
  "ua_id (ua_new i name g t sys) = i" "ua_group (ua_new i name g t sys) = g"
  "ua_default_max_tier (ua_new i name g t sys) = t"
  by (simp_all add: ua_new_def Let_def)

lemma ua_name_new [simp]:
  "length name \<le> MAX_USERNAME_LEN \<Longrightarrow> ua_name (ua_new i name g t sys) = name"
  by (simp add: ua_name_def ua_new_def Let_def ua_empty_def copy_into_def MAX_USERNAME_LEN_def
      unat_of_nat take_bit_nat_eq_self)

lemma lock_flags [simp]:
  "uf_is_active (uf_set f UF_LOCKED) = uf_is_active f" "uf_is_system (uf_set f UF_LOCKED) = uf_is_system f"
  "uf_is_active (uf_clear f UF_LOCKED) = uf_is_active f" "uf_is_system (uf_clear f UF_LOCKED) = uf_is_system f"
  by (simp_all add: uf_is_active_def uf_is_system_def uf_set_def uf_clear_def user_consts
      bit.conj_disj_distrib2 and.assoc)

interpretation ut: slot_table ua_active ua_id ua_empty
  by unfold_locales simp

interpretation un: slot_table ua_active ua_name ua_empty
  by unfold_locales simp

lemma ur_lookup_slot: "ur_lookup r i = slot_lookup ua_active ua_id (ur_accounts r) i"
  by (simp add: ur_lookup_def slot_lookup_def)

lemma ur_lookup_by_name_slot: "ur_lookup_by_name r n = slot_lookup ua_active ua_name (ur_accounts r) n"
  by (simp add: ur_lookup_by_name_def slot_lookup_def)

lemma ur_count_live: "ur_count r = live_count ua_active (ur_accounts r)"
  by (simp add: ur_count_def live_count_def)

section \<open>The invariant\<close>

definition builtin :: "user_registry \<Rightarrow> user_id \<Rightarrow> security_tier \<Rightarrow> bool" where
  "builtin r i t \<longleftrightarrow>
     (case ur_lookup r i of
        Some a \<Rightarrow> uf_is_system (ua_flags a) \<and> ua_default_max_tier a = t
      | None \<Rightarrow> False)"

definition dynamic_id_ok :: "user_account \<Rightarrow> bool" where
  "dynamic_id_ok a \<longleftrightarrow>
     (ua_active a \<and> \<not> uf_is_system (ua_flags a) \<longrightarrow> FIRST_DYNAMIC_USER \<le> ua_id a \<and> ua_id a < FIRST_RESERVED_HIGH)"

definition ur_inv :: "user_registry \<Rightarrow> bool" where
  "ur_inv r \<longleftrightarrow>
     length (ur_accounts r) = MAX_USERS
     \<and> slot_uniq ua_active ua_id (ur_accounts r) \<and> slot_uniq ua_active ua_name (ur_accounts r)
     \<and> builtin r USER_SYSTEM Secret \<and> builtin r USER_ADMIN Secret
     \<and> builtin r USER_GUEST Public \<and> builtin r USER_NOBODY Public
     \<and> (\<forall>a \<in> set (ur_accounts r). dynamic_id_ok a)"

lemma ball_update: "\<forall>a \<in> set xs. P a \<Longrightarrow> P v \<Longrightarrow> \<forall>a \<in> set (xs[k := v]). P a"
  using set_update_subset_insert [of xs k v] by blast

lemma ur_inv_cong:
  assumes "ur_inv r" and "length (ur_accounts r') = length (ur_accounts r)"
    and "slot_uniq ua_active ua_id (ur_accounts r')" "slot_uniq ua_active ua_name (ur_accounts r')"
    and "\<And>i t. builtin r i t \<Longrightarrow> builtin r' i t"
    and "\<forall>a \<in> set (ur_accounts r'). dynamic_id_ok a"
  shows "ur_inv r'"
  using assms unfolding ur_inv_def by metis

lemma uniq_prefix:
  assumes "distinct (map key b)"
  shows "slot_uniq ua_active key (b @ replicate n ua_empty)"
proof (unfold slot_uniq_def, intro allI impI)
  fix i j
  let ?xs = "b @ replicate n ua_empty"
  assume ij: "i < length ?xs" "j < length ?xs"
    and l: "ua_active (?xs ! i) \<and> ua_active (?xs ! j) \<and> key (?xs ! i) = key (?xs ! j)"
  have "k < length b" if "k < length ?xs" "ua_active (?xs ! k)" for k
    using that by (cases "k < length b") (auto simp: nth_append)
  with ij l have "i < length b" "j < length b" by blast+
  with l assms show "i = j" by (auto simp: nth_append distinct_conv_nth)
qed

lemma ur_inv_init: "ur_inv (ur_init ur_new)"
proof -
  let ?b = "[ua_new USER_SYSTEM [115, 121, 115, 116, 101, 109] GROUP_SYSTEM Secret True,
             ua_new USER_ADMIN [97, 100, 109, 105, 110] GROUP_ADMIN Secret True,
             ua_new USER_GUEST [103, 117, 101, 115, 116] GROUP_GUEST Public True,
             ua_new USER_NOBODY [110, 111, 98, 111, 100, 121] GROUP_NONE Public True]"
  have acc: "ur_accounts (ur_init ur_new) = ?b @ replicate 28 ua_empty"
    by (simp add: ur_init_def ur_new_def MAX_USERS_def numeral_eq_Suc)
  have lookup: "ur_lookup (ur_init ur_new) i = List.find (\<lambda>a. ua_id a = i) ?b" for i
  proof -
    have "List.find (\<lambda>a. ua_active a \<and> ua_id a = i) (replicate 28 ua_empty) = None"
      by (auto simp: find_None_iff)
    then show ?thesis by (simp add: ur_lookup_def acc)
  qed
  note uniq = uniq_prefix [of _ ?b 28]
  show ?thesis
    unfolding ur_inv_def acc builtin_def lookup using uniq [of ua_id] uniq [of ua_name]
    by (simp add: user_consts dynamic_id_ok_def)
qed

section \<open>Creating an account\<close>

lemma free_candidate_spec:
  assumes "c \<le> FIRST_RESERVED_HIGH"
  shows "\<exists>d. free_candidate r c = Some d \<and> c \<le> d \<and> d \<le> FIRST_RESERVED_HIGH
    \<and> (d < FIRST_RESERVED_HIGH \<longrightarrow> ur_lookup r d = None)
    \<and> (\<forall>x. c \<le> x \<and> x < d \<longrightarrow> ur_lookup r x \<noteq> None)"
  using assms
proof (induction r c rule: free_candidate.induct)
  case (1 r c)
  show ?case
  proof (cases "c < FIRST_RESERVED_HIGH \<and> ur_lookup r c \<noteq> None")
    case True
    then have u: "unat c < 250" by (simp add: FIRST_RESERVED_HIGH_def word_less_nat_alt)
    then have s: "unat (c + 1) = unat c + 1" by (simp add: unat_word_ariths)
    have n: "c \<noteq> 255" using u by auto
    have "c + 1 \<le> FIRST_RESERVED_HIGH" using u s by (simp add: FIRST_RESERVED_HIGH_def word_le_nat_alt)
    with 1 True n obtain d where d: "free_candidate r (c + 1) = Some d" "c + 1 \<le> d" "d \<le> FIRST_RESERVED_HIGH"
      "d < FIRST_RESERVED_HIGH \<longrightarrow> ur_lookup r d = None" "\<forall>x. c + 1 \<le> x \<and> x < d \<longrightarrow> ur_lookup r x \<noteq> None"
      by blast
    have "free_candidate r c = Some d" using True n d(1) by (subst free_candidate.simps) auto
    moreover have "c \<le> d" using d(2) s by (simp add: word_le_nat_alt)
    moreover have "ur_lookup r x \<noteq> None" if "c \<le> x" "x < d" for x
    proof (cases "x = c")
      case False
      then have "unat x \<noteq> unat c" by (simp add: word_unat_eq_iff)
      with that(1) have "c + 1 \<le> x" using s by (simp add: word_le_nat_alt)
      with d(5) that(2) show ?thesis by blast
    qed (use True in simp)
    ultimately show ?thesis using d(3,4) by blast
  next
    case False
    then have "free_candidate r c = Some c" by (subst free_candidate.simps) auto
    with False 1(2) show ?thesis by auto
  qed
qed

text \<open>Thirty-two accounts cannot use up the 240 dynamic ids.\<close>

lemma free_candidate_found:
  assumes "length (ur_accounts r) = MAX_USERS"
  shows "\<exists>d. free_candidate r FIRST_DYNAMIC_USER = Some d \<and> FIRST_DYNAMIC_USER \<le> d \<and> d < FIRST_RESERVED_HIGH
    \<and> ur_lookup r d = None"
proof -
  obtain d where d: "free_candidate r FIRST_DYNAMIC_USER = Some d" "FIRST_DYNAMIC_USER \<le> d" "d \<le> FIRST_RESERVED_HIGH"
    "d < FIRST_RESERVED_HIGH \<longrightarrow> ur_lookup r d = None"
    "\<forall>x. FIRST_DYNAMIC_USER \<le> x \<and> x < d \<longrightarrow> ur_lookup r x \<noteq> None"
    using free_candidate_spec [of FIRST_DYNAMIC_USER r] by (auto simp: user_consts)
  have "d \<noteq> FIRST_RESERVED_HIGH"
  proof
    assume full: "d = FIRST_RESERVED_HIGH"
    have "{10..<250} \<subseteq> (unat \<circ> ua_id) ` set (ur_accounts r)"
    proof
      fix n :: nat assume n: "n \<in> {10..<250}"
      then have u: "unat (of_nat n :: u8) = n" by (simp add: unat_of_nat take_bit_nat_eq_self)
      then have "FIRST_DYNAMIC_USER \<le> of_nat n" "of_nat n < d"
        using n full by (simp_all add: user_consts word_le_nat_alt word_less_nat_alt)
      with d(5) obtain a where "ur_lookup r (of_nat n) = Some a" by blast
      then have "a \<in> set (ur_accounts r)" "ua_id a = of_nat n"
        using ut.lookup_SomeD by (simp_all add: ur_lookup_slot)
      with u show "n \<in> (unat \<circ> ua_id) ` set (ur_accounts r)" by force
    qed
    then have "card {10..<250 :: nat} \<le> card ((unat \<circ> ua_id) ` set (ur_accounts r))"
      by (intro card_mono) simp_all
    also have "\<dots> \<le> length (ur_accounts r)"
      using card_image_le [of "set (ur_accounts r)" "unat \<circ> ua_id"] card_length [of "ur_accounts r"] by simp
    finally show False using assms by (simp add: MAX_USERS_def)
  qed
  with d show ?thesis by auto
qed

lemma create_user_Inl:
  assumes "ur_inv r" and "create_user r name g t = (r', Inl e)"
  shows "r' = r \<and> e = InvalidPolicy \<and>
    (name = [] \<or> length name > MAX_USERNAME_LEN \<or> ur_lookup_by_name r name \<noteq> None \<or> ur_count r = MAX_USERS)"
proof -
  have len: "length (ur_accounts r) = MAX_USERS" using assms(1) by (simp add: ur_inv_def)
  from free_candidate_found [OF len] obtain d where "free_candidate r FIRST_DYNAMIC_USER = Some d" "d < FIRST_RESERVED_HIGH" by blast
  then show ?thesis
    using assms(2) ut.all_live_iff_full [of "ur_accounts r"]
    by (auto simp: create_user_def ur_count_live len split: if_splits option.splits)
qed

lemma create_user_id:
  assumes "ur_inv r" and "create_user r name g t = (r', Inr i)"
  shows "0 < length name \<and> length name \<le> MAX_USERNAME_LEN \<and> ur_lookup_by_name r name = None
    \<and> FIRST_DYNAMIC_USER \<le> i \<and> i < FIRST_RESERVED_HIGH \<and> ur_lookup r i = None
    \<and> (\<exists>k. position (\<lambda>a. \<not> ua_active a) (ur_accounts r) = Some k
         \<and> r' = r\<lparr>ur_accounts := (ur_accounts r)[k := ua_new i name g t False]\<rparr>)"
proof -
  have "length (ur_accounts r) = MAX_USERS" using assms(1) by (simp add: ur_inv_def)
  from free_candidate_found [OF this] assms(2) show ?thesis
    by (auto simp: create_user_def split: if_splits option.splits)
qed

lemma create_user_Inr:
  assumes inv: "ur_inv r" and c: "create_user r name g t = (r', Inr i)"
  shows "0 < length name" "length name \<le> MAX_USERNAME_LEN" "ur_lookup_by_name r name = None" "ur_count r < MAX_USERS"
    "FIRST_DYNAMIC_USER \<le> i" "i < FIRST_RESERVED_HIGH" "ur_lookup r i = None" "ur_inv r'"
    "ur_lookup r' = (ur_lookup r)(i \<mapsto> ua_new i name g t False)"
    "ur_lookup_by_name r' = (ur_lookup_by_name r)(name \<mapsto> ua_new i name g t False)"
    "ur_count r' = ur_count r + 1"
proof -
  have len: "length (ur_accounts r) = MAX_USERS" and u: "slot_uniq ua_active ua_id (ur_accounts r)"
    "slot_uniq ua_active ua_name (ur_accounts r)" using inv by (simp_all add: ur_inv_def)
  let ?v = "ua_new i name g t False"
  obtain k where k: "position (\<lambda>a. \<not> ua_active a) (ur_accounts r) = Some k"
    and r': "r' = r\<lparr>ur_accounts := (ur_accounts r)[k := ?v]\<rparr>"
    and a: "length name \<le> MAX_USERNAME_LEN" "ur_lookup_by_name r name = None"
      "FIRST_DYNAMIC_USER \<le> i" "i < FIRST_RESERVED_HIGH" "ur_lookup r i = None"
    using create_user_id [OF inv c] by blast
  have kl: "k < length (ur_accounts r)" and dead: "\<not> ua_active (ur_accounts r ! k)" using position_SomeD [OF k] by simp_all
  have fresh: "ua_active x \<Longrightarrow> x \<in> set (ur_accounts r) \<Longrightarrow> ua_id x \<noteq> i \<and> ua_name x \<noteq> name" for x
    using a(2,5) by (auto simp: ur_lookup_slot ur_lookup_by_name_slot ut.lookup_None_iff un.lookup_None_iff)
  have u1: "slot_uniq ua_active ua_id ((ur_accounts r)[k := ?v])" "slot_uniq ua_active ua_name ((ur_accounts r)[k := ?v])"
    using fresh a(1) kl by (intro ut.uniq_put un.uniq_put u; simp)+
  show "ur_lookup r' = (ur_lookup r)(i \<mapsto> ?v)"
    using ut.lookup_put [OF u(1) kl, of ?v] fresh dead by (auto simp: fun_eq_iff ur_lookup_slot r')
  then have lk: "ur_lookup r' = (ur_lookup r)(i \<mapsto> ?v)" .
  show "ur_lookup_by_name r' = (ur_lookup_by_name r)(name \<mapsto> ?v)"
    using un.lookup_put [OF u(2) kl, of ?v] fresh dead a(1) by (auto simp: fun_eq_iff ur_lookup_by_name_slot r')
  show "ur_count r' = ur_count r + 1" using ut.live_count_put_free [OF kl dead, of ?v] by (simp add: ur_count_live r')
  show "ur_count r < MAX_USERS"
    using ut.all_live_iff_full [of "ur_accounts r"] ut.live_count_le [of "ur_accounts r"] k by (simp add: ur_count_live len)
  show "ur_inv r'"
  proof (rule ur_inv_cong [OF inv])
    show "builtin r' j s" if "builtin r j s" for j s using that a(5) by (auto simp: builtin_def lk split: option.splits)
    show "\<forall>x \<in> set (ur_accounts r'). dynamic_id_ok x"
      using ball_update [of "ur_accounts r" dynamic_id_ok ?v k] inv a(3,4) by (simp add: r' ur_inv_def dynamic_id_ok_def [of ?v])
  qed (use u1 in \<open>simp_all add: r'\<close>)
qed (use create_user_id [OF inv c] in simp_all)

section \<open>Deleting and locking\<close>

lemma delete_user_effect:
  assumes inv: "ur_inv r" and d: "delete_user r i = (r', res)"
  shows "res = (case ur_lookup r i of None \<Rightarrow> Err PolicyNotFound
      | Some a \<Rightarrow> if uf_is_system (ua_flags a) then Err InsufficientPrivilege else Ok ())"
    and "ur_lookup r' = (if res = Ok () then (ur_lookup r)(i := None) else ur_lookup r)"
    and "ur_inv r'"
proof -
  have u: "slot_uniq ua_active ua_id (ur_accounts r)" "slot_uniq ua_active ua_name (ur_accounts r)"
    using inv by (simp_all add: ur_inv_def)
  let ?p = "position (\<lambda>a. ua_active a \<and> ua_id a = i) (ur_accounts r)"
  have lk: "ur_lookup r i = map_option ((!) (ur_accounts r)) ?p" by (simp add: ur_lookup_slot ut.lookup_position)
  show res: "res = (case ur_lookup r i of None \<Rightarrow> Err PolicyNotFound
      | Some a \<Rightarrow> if uf_is_system (ua_flags a) then Err InsufficientPrivilege else Ok ())"
    using d by (auto simp: delete_user_def lk split: option.splits if_splits)
  have "ur_lookup r' = (if res = Ok () then (ur_lookup r)(i := None) else ur_lookup r) \<and> ur_inv r'"
  proof (cases "res = Ok ()")
    case True
    with d obtain k where k: "?p = Some k" "\<not> uf_is_system (ua_flags (ur_accounts r ! k))"
      "r' = r\<lparr>ur_accounts := (ur_accounts r)[k := ua_empty]\<rparr>"
      by (auto simp: delete_user_def split: option.splits if_splits)
    have kl: "k < length (ur_accounts r)" "ua_active (ur_accounts r ! k)" "ua_id (ur_accounts r ! k) = i"
      using position_SomeD [OF k(1)] by simp_all
    have L: "ur_lookup r' = (ur_lookup r)(i := None)"
      using ut.lookup_clear [OF u(1) kl(1,2) ua_active_empty] kl(3) by (auto simp: fun_eq_iff ur_lookup_slot k(3))
    have "ur_lookup r i = Some (ur_accounts r ! k)" using lk k(1) by simp
    then have b: "builtin r' j s" if "builtin r j s" for j s
      using that k(2) by (auto simp: builtin_def L split: option.splits)
    have "\<forall>x \<in> set (ur_accounts r'). dynamic_id_ok x"
      using ball_update [of "ur_accounts r" dynamic_id_ok ua_empty k] inv by (simp add: k(3) ur_inv_def dynamic_id_ok_def [of ua_empty])
    then have "ur_inv r'" using b u by (intro ur_inv_cong [OF inv]) (auto simp: k(3) ut.uniq_clear un.uniq_clear)
    with True L show ?thesis by simp
  next
    case False
    with d have "r' = r" by (auto simp: delete_user_def split: option.splits if_splits)
    with False inv show ?thesis by simp
  qed
  then show "ur_lookup r' = (if res = Ok () then (ur_lookup r)(i := None) else ur_lookup r)" "ur_inv r'" by simp_all
qed

text \<open>A change that keeps what the registry relies on: the account stays live, under its id and name, and keeps its kind and tier.\<close>

definition keeps_account :: "(user_account \<Rightarrow> user_account) \<Rightarrow> bool" where
  "keeps_account f \<longleftrightarrow> (\<forall>a. ua_id (f a) = ua_id a \<and> ua_name (f a) = ua_name a \<and> ua_active (f a) = ua_active a
     \<and> uf_is_system (ua_flags (f a)) = uf_is_system (ua_flags a) \<and> ua_default_max_tier (f a) = ua_default_max_tier a)"

definition lock_account :: "user_account \<Rightarrow> user_account" where
  "lock_account a = a\<lparr>ua_flags := uf_set (ua_flags a) UF_LOCKED\<rparr>"

definition unlock_account :: "user_account \<Rightarrow> user_account" where
  "unlock_account a = a\<lparr>ua_flags := uf_clear (ua_flags a) UF_LOCKED\<rparr>"

lemma keeps_lock: "keeps_account lock_account" "keeps_account unlock_account"
  by (simp_all add: keeps_account_def lock_account_def unlock_account_def ua_name_def)

lemma lookup_mut_effect:
  assumes inv: "ur_inv r" and f: "keeps_account f"
  shows "ur_lookup (ur_lookup_mut r i f) = (ur_lookup r)(i := map_option f (ur_lookup r i))"
    and "ur_inv (ur_lookup_mut r i f)"
proof -
  have u: "slot_uniq ua_active ua_id (ur_accounts r)" "slot_uniq ua_active ua_name (ur_accounts r)"
    using inv by (simp_all add: ur_inv_def)
  let ?p = "position (\<lambda>a. ua_active a \<and> ua_id a = i) (ur_accounts r)" and ?r = "ur_lookup_mut r i f"
  have lk: "ur_lookup r i = map_option ((!) (ur_accounts r)) ?p" by (simp add: ur_lookup_slot ut.lookup_position)
  have "ur_lookup ?r = (ur_lookup r)(i := map_option f (ur_lookup r i)) \<and> ur_inv ?r"
  proof (cases ?p)
    case None
    with lk inv show ?thesis by (auto simp: ur_lookup_mut_def)
  next
    case (Some k)
    let ?a = "ur_accounts r ! k"
    have kl: "k < length (ur_accounts r)" "ua_active ?a" "ua_id ?a = i" using position_SomeD [OF Some] by simp_all
    have fa: "ua_id (f ?a) = ua_id ?a" "ua_name (f ?a) = ua_name ?a" "ua_active (f ?a)"
      "uf_is_system (ua_flags (f ?a)) = uf_is_system (ua_flags ?a)" "ua_default_max_tier (f ?a) = ua_default_max_tier ?a"
      using f kl(2) by (auto simp: keeps_account_def)
    have r': "?r = r\<lparr>ur_accounts := (ur_accounts r)[k := f ?a]\<rparr>" using Some by (simp add: ur_lookup_mut_def)
    have other: "j < length (ur_accounts r) \<Longrightarrow> j \<noteq> k \<Longrightarrow> ua_active (ur_accounts r ! j) \<Longrightarrow>
        ua_id (ur_accounts r ! j) \<noteq> ua_id (f ?a) \<and> ua_name (ur_accounts r ! j) \<noteq> ua_name (f ?a)" for j
      using u kl fa unfolding slot_uniq_def by metis
    have L: "ur_lookup ?r = (ur_lookup r)(i \<mapsto> f ?a)"
      using ut.lookup_put [OF u(1) kl(1), of "f ?a"] other fa kl by (auto simp: fun_eq_iff ur_lookup_slot r')
    have U: "slot_uniq ua_active ua_id (ur_accounts ?r)" "slot_uniq ua_active ua_name (ur_accounts ?r)"
      unfolding r' using other kl(1) by (auto intro!: ut.uniq_put un.uniq_put u)
    have i: "ur_lookup r i = Some ?a" using lk Some by simp
    have "ur_inv ?r"
    proof (rule ur_inv_cong [OF inv _ U])
      show "builtin ?r j s" if "builtin r j s" for j s using that i fa by (auto simp: builtin_def L split: option.splits)
      have "dynamic_id_ok (f ?a)"
        using nth_mem [OF kl(1)] inv fa kl(2) unfolding ur_inv_def dynamic_id_ok_def by metis
      then show "\<forall>x \<in> set (ur_accounts ?r). dynamic_id_ok x"
        using ball_update [of "ur_accounts r" dynamic_id_ok "f ?a" k] inv by (simp add: r' ur_inv_def)
    qed (simp add: r')
    with L i show ?thesis by simp
  qed
  then show "ur_lookup ?r = (ur_lookup r)(i := map_option f (ur_lookup r i))" "ur_inv ?r" by simp_all
qed

section \<open>Properties\<close>

text \<open>The registries the kernel can have: initialised at boot, then changed by any calls.\<close>

inductive ur_reach :: "user_registry \<Rightarrow> bool" where
  boot: "ur_reach (ur_init ur_new)"
| init: "ur_reach r \<Longrightarrow> ur_reach (ur_init r)"
| create: "ur_reach r \<Longrightarrow> ur_reach (fst (create_user r name g t))"
| delete: "ur_reach r \<Longrightarrow> ur_reach (fst (delete_user r i))"
| lock: "ur_reach r \<Longrightarrow> ur_reach (ur_lookup_mut r i lock_account)"
| unlock: "ur_reach r \<Longrightarrow> ur_reach (ur_lookup_mut r i unlock_account)"

lemma ur_reach_inv: "ur_reach r \<Longrightarrow> ur_inv r \<and> ur_initialized r"
proof (induction rule: ur_reach.induct)
  case boot
  show ?case using ur_inv_init by (simp add: ur_init_def ur_new_def)
next
  case (init r)
  then show ?case by (simp add: ur_init_def)
next
  case (create r name g t)
  obtain r' res where c: "create_user r name g t = (r', res)" by (metis prod.exhaust)
  have "ur_initialized r' = ur_initialized r" using c by (auto simp: create_user_def split: if_splits option.splits)
  with c create show ?case using create_user_Inl [of r name g t r'] create_user_Inr(8) [of r name g t r'] by (cases res) auto
next
  case (delete r i)
  obtain r' res where d: "delete_user r i = (r', res)" by (metis prod.exhaust)
  have "ur_initialized r' = ur_initialized r" using d by (auto simp: delete_user_def split: if_splits option.splits)
  with d delete show ?case using delete_user_effect(3) [of r] by auto
next
  case (lock r i)
  then show ?case using lookup_mut_effect(2) [OF _ keeps_lock(1)] by (auto simp: ur_lookup_mut_def split: option.splits)
next
  case (unlock r i)
  then show ?case using lookup_mut_effect(2) [OF _ keeps_lock(2)] by (auto simp: ur_lookup_mut_def split: option.splits)
qed

text \<open>
  The user registry, whatever accounts are created, deleted, locked and unlocked: no two live
  accounts share an id or a name, the four built-in accounts are always there with their tiers, an
  attempt to delete one is refused and changes nothing, and every other account has an id in the
  dynamic range.
\<close>

theorem user_registry_invariant:
  assumes "ur_reach r"
  shows "(\<forall>a \<in> set (ur_iter r). ur_lookup r (ua_id a) = Some a \<and> ur_lookup_by_name r (ua_name a) = Some a)
    \<and> (\<forall>(i, t) \<in> {(USER_SYSTEM, Secret), (USER_ADMIN, Secret), (USER_GUEST, Public), (USER_NOBODY, Public)}.
         \<exists>a. ur_lookup r i = Some a \<and> ua_default_max_tier a = t \<and> delete_user r i = (r, Err InsufficientPrivilege))
    \<and> (\<forall>a \<in> set (ur_iter r). \<not> uf_is_system (ua_flags a) \<longrightarrow> 10 \<le> ua_id a \<and> ua_id a < 250)
    \<and> ur_count r \<le> MAX_USERS"
proof -
  have inv: "ur_inv r" using ur_reach_inv [OF assms] by blast
  then have u: "slot_uniq ua_active ua_id (ur_accounts r)" "slot_uniq ua_active ua_name (ur_accounts r)" by (simp_all add: ur_inv_def)
  have b: "\<exists>a. ur_lookup r i = Some a \<and> ua_default_max_tier a = t \<and> delete_user r i = (r, Err InsufficientPrivilege)"
    if "builtin r i t" for i t
  proof -
    obtain a where a: "ur_lookup r i = Some a" "uf_is_system (ua_flags a)" "ua_default_max_tier a = t"
      using \<open>builtin r i t\<close> by (auto simp: builtin_def split: option.splits)
    then obtain k where "position (\<lambda>a. ua_active a \<and> ua_id a = i) (ur_accounts r) = Some k" "a = ur_accounts r ! k"
      by (auto simp: ur_lookup_slot ut.lookup_position)
    with a show ?thesis by (simp add: delete_user_def)
  qed
  have "ur_lookup r (ua_id a) = Some a \<and> ur_lookup_by_name r (ua_name a) = Some a" if "a \<in> set (ur_iter r)" for a
    using that by (simp add: ur_iter_def ur_lookup_slot ur_lookup_by_name_slot ut.lookup_Some_iff [OF u(1)] un.lookup_Some_iff [OF u(2)])
  moreover have "ur_count r \<le> MAX_USERS" using inv ut.live_count_le [of "ur_accounts r"] by (simp add: ur_count_live ur_inv_def)
  ultimately show ?thesis using inv b by (auto simp: ur_inv_def dynamic_id_ok_def ur_iter_def FIRST_DYNAMIC_USER_def FIRST_RESERVED_HIGH_def)
qed

theorem user_registry_invariant_witness:
  "\<exists>r. ur_reach r \<and> r = fst (create_user (ur_init ur_new) [97] 10 Internal)
    \<and> ur_lookup r USER_SYSTEM \<noteq> None \<and> ur_count r \<le> MAX_USERS"
proof -
  let ?r = "fst (create_user (ur_init ur_new) [97] 10 Internal)"
  have r: "ur_reach ?r" by (intro ur_reach.intros)
  from user_registry_invariant [OF r] r show ?thesis by (intro exI [of _ ?r]) auto
qed

text \<open>
  create_user succeeds exactly when the name has 1 to 31 bytes, no live account carries it and
  one of the 32 slots is free: it then gives a fresh id between 10 and 249 to a new unprivileged
  account with that name, group and tier, and changes no other account. In every other case it
  answers InvalidPolicy and leaves the registry unchanged; the ids never run out before the slots.
\<close>

theorem create_user_correct:
  assumes "ur_reach r"
  shows "case create_user r name g t of
      (r', Inr i) \<Rightarrow> 0 < length name \<and> length name \<le> 31 \<and> ur_lookup_by_name r name = None \<and> ur_count r < 32
        \<and> 10 \<le> i \<and> i < 250 \<and> ur_lookup r i = None
        \<and> ur_lookup r' = (ur_lookup r)(i \<mapsto> ua_new i name g t False)
        \<and> ur_lookup_by_name r' name = Some (ua_new i name g t False) \<and> ur_count r' = ur_count r + 1
    | (r', Inl e) \<Rightarrow> r' = r \<and> e = InvalidPolicy
        \<and> (name = [] \<or> length name > 31 \<or> ur_lookup_by_name r name \<noteq> None \<or> ur_count r = 32)"
proof -
  have inv: "ur_inv r" using ur_reach_inv [OF assms] by blast
  show ?thesis
    using create_user_Inl [OF inv, of name g t] create_user_Inr [OF inv, of name g t]
    by (auto simp: MAX_USERS_def MAX_USERNAME_LEN_def FIRST_DYNAMIC_USER_def FIRST_RESERVED_HIGH_def split: sum.splits prod.splits)
qed

theorem create_user_correct_witness:
  "\<exists>r i. create_user (ur_init ur_new) [97] 10 Internal = (r, Inr i) \<and> ur_lookup r i = Some (ua_new i [97] 10 Internal False)"
proof -
  have n: "ur_lookup_by_name (ur_init ur_new) [97] = None"
    by (simp add: ur_lookup_by_name_def find_None_iff ur_init_def ur_new_def MAX_USERS_def numeral_eq_Suc MAX_USERNAME_LEN_def)
  have "ur_count (ur_init ur_new) < 32"
    by (simp add: ur_count_def ur_init_def ur_new_def MAX_USERS_def numeral_eq_Suc)
  with n create_user_correct [OF ur_reach.boot, of "[97]" 10 Internal] show ?thesis
    by (auto split: prod.splits sum.splits)
qed

end
