(* ===== verification/Policy.thy ===== *)
theory Policy
  imports Users Suid
begin

text \<open>
  Policy objects: \<^verbatim>\<open>src/kernel-core/src/security/policy.rs\<close> and the policy identifiers of
  \<^verbatim>\<open>security/mod.rs\<close>. The arrays of rules and conditions keep their fixed length with a count of the
  active ones. The serializer clears its output before it writes, so the model builds the header and
  the rule blocks with the zero bytes in place. The theory shows that a stored policy is read back,
  that the reader refuses what is malformed, and the owner encoded in a user policy identifier.
\<close>

section \<open>Definitions: data\<close>

definition MAX_RULES_PER_POLICY :: nat where "MAX_RULES_PER_POLICY = 16"
definition MAX_POLICY_SIZE :: nat where "MAX_POLICY_SIZE = 2048"

datatype policy_type = ObjectAccess | UserIsolation | TierEscalation | TimeBasedAccess | ContextDependent

datatype policy_target =
    AllObjects | ObjectsBySUID "suid list" nat | ObjectsByOwner user_id | ObjectsByTier security_tier
  | User user_id | Everyone | ObjectsByPattern u32

datatype rule_condition =
    Always | RequesterIs user_id | RequesterInGroup u16 | ObjectTierIs security_tier
  | ObjectOwnedBy user_id | TimeWindow u32 u32 | ContextHasFlag u32 | RequesterTierIs security_tier

datatype redaction_profile =
    Standard | Medical | Financial | NamesOnly | FullRedaction | NoRedaction | Custom u8

datatype policy_action =
    Allow security_tier | Deny | AllowWithRedaction redaction_profile | RequireEscalation
  | LogAndAllow security_tier | Continue

record policy_rule =
  pr_conditions :: "rule_condition list"
  pr_condition_count :: nat
  pr_action :: policy_action
  pr_rule_priority :: u16
  pr_flags :: u8

record policy_object =
  po_policy_type :: policy_type
  po_target :: policy_target
  po_rules :: "policy_rule list"
  po_rule_count :: nat
  po_priority :: u32
  po_owner :: user_id
  po_expires_at :: u64
  po_flags :: u16

definition PF_ENABLED :: u16 where "PF_ENABLED = 1"
definition PF_AUDITED :: u16 where "PF_AUDITED = 2"
definition PF_IMMUTABLE :: u16 where "PF_IMMUTABLE = 4"
definition PF_SYSTEM :: u16 where "PF_SYSTEM = 8"

definition pf_is_enabled :: "u16 \<Rightarrow> bool" where "pf_is_enabled f \<longleftrightarrow> f AND PF_ENABLED \<noteq> 0"
definition pf_is_audited :: "u16 \<Rightarrow> bool" where "pf_is_audited f \<longleftrightarrow> f AND PF_AUDITED \<noteq> 0"
definition pf_is_immutable :: "u16 \<Rightarrow> bool" where "pf_is_immutable f \<longleftrightarrow> f AND PF_IMMUTABLE \<noteq> 0"
definition pf_is_system :: "u16 \<Rightarrow> bool" where "pf_is_system f \<longleftrightarrow> f AND PF_SYSTEM \<noteq> 0"

definition RF_ENABLED :: u8 where "RF_ENABLED = 1"
definition RF_TERMINAL :: u8 where "RF_TERMINAL = 2"
definition RF_AUDIT :: u8 where "RF_AUDIT = 4"

definition rf_is_enabled :: "u8 \<Rightarrow> bool" where "rf_is_enabled f \<longleftrightarrow> f AND RF_ENABLED \<noteq> 0"
definition rf_is_terminal :: "u8 \<Rightarrow> bool" where "rf_is_terminal f \<longleftrightarrow> f AND RF_TERMINAL \<noteq> 0"
definition rf_should_audit :: "u8 \<Rightarrow> bool" where "rf_should_audit f \<longleftrightarrow> f AND RF_AUDIT \<noteq> 0"

section \<open>Definitions: policies and rules\<close>

definition rule_empty :: policy_rule where
  "rule_empty = \<lparr>pr_conditions = replicate 4 Always, pr_condition_count = 0, pr_action = Deny,
     pr_rule_priority = 0, pr_flags = 0\<rparr>"

definition rule_simple :: "rule_condition \<Rightarrow> policy_action \<Rightarrow> policy_rule" where
  "rule_simple c a = rule_empty\<lparr>pr_conditions := (pr_conditions rule_empty)[0 := c],
     pr_condition_count := 1, pr_action := a, pr_flags := RF_ENABLED\<rparr>"

definition add_condition :: "policy_rule \<Rightarrow> rule_condition \<Rightarrow> policy_rule \<times> (security_error + unit)" where
  "add_condition r c =
     (if pr_condition_count r \<ge> 4 then (r, Err InvalidPolicy)
      else (r\<lparr>pr_conditions := (pr_conditions r)[pr_condition_count r := c],
              pr_condition_count := pr_condition_count r + 1\<rparr>, Ok ()))"

definition rule_conditions :: "policy_rule \<Rightarrow> rule_condition list" where
  "rule_conditions r = take (pr_condition_count r) (pr_conditions r)"

definition policy_empty :: policy_object where
  "policy_empty = \<lparr>po_policy_type = ObjectAccess, po_target = Everyone,
     po_rules = replicate MAX_RULES_PER_POLICY rule_empty, po_rule_count = 0, po_priority = 0,
     po_owner = USER_NOBODY, po_expires_at = 0, po_flags = 0\<rparr>"

definition policy_new :: "policy_type \<Rightarrow> policy_target \<Rightarrow> user_id \<Rightarrow> u32 \<Rightarrow> policy_object" where
  "policy_new ty tgt own prio = policy_empty\<lparr>po_policy_type := ty, po_target := tgt, po_owner := own,
     po_priority := prio, po_flags := PF_ENABLED\<rparr>"

definition add_rule :: "policy_object \<Rightarrow> policy_rule \<Rightarrow> policy_object \<times> (security_error + unit)" where
  "add_rule p r =
     (if po_rule_count p \<ge> MAX_RULES_PER_POLICY then (p, Err InvalidPolicy)
      else (p\<lparr>po_rules := (po_rules p)[po_rule_count p := r], po_rule_count := po_rule_count p + 1\<rparr>, Ok ()))"

definition policy_rules :: "policy_object \<Rightarrow> policy_rule list" where
  "policy_rules p = take (po_rule_count p) (po_rules p)"

text \<open>\<open>now\<close> is \<^verbatim>\<open>platform::ticks()\<close>.\<close>

definition policy_is_active :: "u64 \<Rightarrow> policy_object \<Rightarrow> bool" where
  "policy_is_active now p \<longleftrightarrow> pf_is_enabled (po_flags p) \<and> (po_expires_at p = 0 \<or> po_expires_at p > now)"

definition can_modify :: "policy_object \<Rightarrow> user_id \<Rightarrow> bool" where
  "can_modify p u = (if pf_is_immutable (po_flags p) then False else u = po_owner p \<or> u = USER_ADMIN)"

section \<open>Definitions: the byte format\<close>

definition POLICY_HEADER :: nat where "POLICY_HEADER = 84"
definition POLICY_RULE :: nat where "POLICY_RULE = 60"

definition payload_u64 :: "u64 \<Rightarrow> u8 list" where
  "payload_u64 v = le_bytes 8 v"

definition payload_u64_2 :: "u32 \<Rightarrow> u32 \<Rightarrow> u8 list" where
  "payload_u64_2 a b = le_bytes 4 a @ le_bytes 4 b"

definition policy_tier_from_u8 :: "u8 \<Rightarrow> security_error + security_tier" where
  "policy_tier_from_u8 v =
     (if v = 0 then Ok Public else if v = 1 then Ok Internal else if v = 2 then Ok Sensitive
      else if v = 3 then Ok Secret else Err InvalidPolicy)"

fun redaction_to_u32 :: "redaction_profile \<Rightarrow> u32" where
  "redaction_to_u32 Standard = 0"
| "redaction_to_u32 Medical = 1"
| "redaction_to_u32 Financial = 2"
| "redaction_to_u32 NamesOnly = 3"
| "redaction_to_u32 FullRedaction = 4"
| "redaction_to_u32 NoRedaction = 5"
| "redaction_to_u32 (Custom i) = 0xFFFFFF00 OR ucast i"

definition redaction_from_u8 :: "u8 \<Rightarrow> security_error + redaction_profile" where
  "redaction_from_u8 v =
     (if v = 0 then Ok Standard else if v = 1 then Ok Medical else if v = 2 then Ok Financial
      else if v = 3 then Ok NamesOnly else if v = 4 then Ok FullRedaction else if v = 5 then Ok NoRedaction
      else if v = 255 then Ok (Custom 255) else Err InvalidPolicy)"

definition redaction_from_u32 :: "u32 \<Rightarrow> security_error + redaction_profile" where
  "redaction_from_u32 v =
     (if v AND 0xFFFFFF00 = 0xFFFFFF00 then Ok (Custom (ucast (v AND 0xFF)))
      else redaction_from_u8 (ucast v))"

fun policy_type_to_u8 :: "policy_type \<Rightarrow> u8" where
  "policy_type_to_u8 ObjectAccess = 0"
| "policy_type_to_u8 UserIsolation = 1"
| "policy_type_to_u8 TierEscalation = 2"
| "policy_type_to_u8 TimeBasedAccess = 3"
| "policy_type_to_u8 ContextDependent = 4"

definition policy_type_from_u8 :: "u8 \<Rightarrow> security_error + policy_type" where
  "policy_type_from_u8 v =
     (if v = 0 then Ok ObjectAccess else if v = 1 then Ok UserIsolation else if v = 2 then Ok TierEscalation
      else if v = 3 then Ok TimeBasedAccess else if v = 4 then Ok ContextDependent else Err InvalidPolicy)"

text \<open>Zero bytes up to a length.\<close>

definition pad :: "nat \<Rightarrow> u8 list \<Rightarrow> u8 list" where
  "pad n bs = bs @ replicate (n - length bs) 0"

definition suid_le :: "suid \<Rightarrow> u8 list" where
  "suid_le s = le_bytes 8 (high s) @ le_bytes 8 (low s)"

text \<open>Bytes 17 to 84 of the header.\<close>

fun target_bytes :: "policy_target \<Rightarrow> u8 list" where
  "target_bytes AllObjects = [0]"
| "target_bytes (ObjectsBySUID suids count) =
     (let n = min count 4 in [1, of_nat n] @ concat (map suid_le (take n suids)))"
| "target_bytes (ObjectsByOwner u) = [2, u]"
| "target_bytes (ObjectsByTier t) = [3, tier_value t]"
| "target_bytes (User u) = [4, u]"
| "target_bytes Everyone = [5]"
| "target_bytes (ObjectsByPattern i) = 6 # le_bytes 4 i"

fun action_code :: "policy_action \<Rightarrow> u8 \<times> u32" where
  "action_code (Allow t) = (0, ucast (tier_value t))"
| "action_code Deny = (1, 0)"
| "action_code (AllowWithRedaction p) = (2, redaction_to_u32 p)"
| "action_code RequireEscalation = (3, 0)"
| "action_code (LogAndAllow t) = (4, ucast (tier_value t))"
| "action_code Continue = (5, 0)"

fun condition_code :: "rule_condition \<Rightarrow> u8 \<times> u8 list" where
  "condition_code Always = (0, replicate 8 0)"
| "condition_code (RequesterIs u) = (1, payload_u64 (ucast u))"
| "condition_code (RequesterInGroup g) = (2, payload_u64 (ucast g))"
| "condition_code (ObjectTierIs t) = (3, payload_u64 (ucast (tier_value t)))"
| "condition_code (ObjectOwnedBy u) = (4, payload_u64 (ucast u))"
| "condition_code (TimeWindow a b) = (5, payload_u64_2 a b)"
| "condition_code (ContextHasFlag f) = (6, payload_u64 (ucast f))"
| "condition_code (RequesterTierIs t) = (7, payload_u64 (ucast (tier_value t)))"

definition condition_bytes :: "rule_condition \<Rightarrow> u8 list" where
  "condition_bytes c = pad 12 (fst (condition_code c) # snd (condition_code c))"

definition rule_bytes :: "policy_rule \<Rightarrow> u8 list" where
  "rule_bytes r =
     pad POLICY_RULE (of_nat (pr_condition_count r) # le_bytes 2 (pr_rule_priority r)
       @ fst (action_code (pr_action r)) # le_bytes 4 (snd (action_code (pr_action r)))
       @ pr_flags r # 0 # concat (map condition_bytes (take (min (pr_condition_count r) 4) (pr_conditions r))))"

definition header_bytes :: "policy_object \<Rightarrow> u8 list" where
  "header_bytes p =
     pad POLICY_HEADER (policy_type_to_u8 (po_policy_type p) # of_nat (po_rule_count p)
       # le_bytes 4 (po_priority p) @ po_owner p # le_bytes 2 (po_flags p) @ le_bytes 8 (po_expires_at p)
       @ target_bytes (po_target p))"

definition policy_serialize :: "policy_object \<Rightarrow> u8 list \<Rightarrow> u8 list \<times> (security_error + nat)" where
  "policy_serialize p out =
     (let need = POLICY_HEADER + POLICY_RULE * po_rule_count p
      in if length out < need then (out, Err InvalidPolicy)
         else (copy_into 0 (header_bytes p @ concat (map rule_bytes (policy_rules p))) out, Ok need))"

definition decode_target :: "u8 list \<Rightarrow> security_error + policy_target" where
  "decode_target data =
     (let tag = data ! 17
      in if tag = 0 then Ok AllObjects
         else if tag = 1
         then (let n = min (unat (data ! 18)) 4
               in Ok (ObjectsBySUID
                    (map (\<lambda>i. let b = 19 + i * 16
                              in suid_new (of_le_bytes (slice b 8 data)) (of_le_bytes (slice (b + 8) 8 data))) [0..<n]
                     @ replicate (4 - n) (suid_new 0 0)) n))
         else if tag = 2 then Ok (ObjectsByOwner (data ! 18))
         else if tag = 3 then and_then (policy_tier_from_u8 (data ! 18)) (\<lambda>t. Ok (ObjectsByTier t))
         else if tag = 4 then Ok (User (data ! 18))
         else if tag = 5 then Ok Everyone
         else if tag = 6 then Ok (ObjectsByPattern (of_le_bytes (slice 18 4 data)))
         else Err InvalidPolicy)"

definition decode_action :: "u8 \<Rightarrow> u32 \<Rightarrow> security_error + policy_action" where
  "decode_action tag payload =
     (if tag = 0 then and_then (policy_tier_from_u8 (ucast payload)) (\<lambda>t. Ok (Allow t))
      else if tag = 1 then Ok Deny
      else if tag = 2 then and_then (redaction_from_u32 payload) (\<lambda>p. Ok (AllowWithRedaction p))
      else if tag = 3 then Ok RequireEscalation
      else if tag = 4 then and_then (policy_tier_from_u8 (ucast payload)) (\<lambda>t. Ok (LogAndAllow t))
      else if tag = 5 then Ok Continue
      else Err InvalidPolicy)"

definition decode_condition :: "u8 \<Rightarrow> u8 list \<Rightarrow> security_error + rule_condition" where
  "decode_condition tag p8 =
     (let v = of_le_bytes p8 :: u64
      in if tag = 0 then Ok Always
         else if tag = 1 then Ok (RequesterIs (ucast v))
         else if tag = 2 then Ok (RequesterInGroup (ucast v))
         else if tag = 3 then and_then (policy_tier_from_u8 (ucast v)) (\<lambda>t. Ok (ObjectTierIs t))
         else if tag = 4 then Ok (ObjectOwnedBy (ucast v))
         else if tag = 5 then Ok (TimeWindow (of_le_bytes (slice 0 4 p8)) (of_le_bytes (slice 4 4 p8)))
         else if tag = 6 then Ok (ContextHasFlag (ucast v))
         else if tag = 7 then and_then (policy_tier_from_u8 (ucast v)) (\<lambda>t. Ok (RequesterTierIs t))
         else Err InvalidPolicy)"

fun decode_conditions :: "u8 list \<Rightarrow> nat \<Rightarrow> nat list \<Rightarrow> rule_condition list \<Rightarrow> security_error + rule_condition list" where
  "decode_conditions data base [] cs = Ok cs"
| "decode_conditions data base (ci # cis) cs =
     (let cb = base + 10 + ci * 12
      in and_then (decode_condition (data ! cb) (slice (cb + 1) 8 data))
           (\<lambda>c. decode_conditions data base cis (cs[ci := c])))"

definition decode_rule :: "u8 list \<Rightarrow> nat \<Rightarrow> security_error + policy_rule" where
  "decode_rule data base =
     (let cc = min (unat (data ! base)) 4
      in and_then (decode_action (data ! (base + 3)) (of_le_bytes (slice (base + 4) 4 data)))
           (\<lambda>a. and_then (decode_conditions data base [0..<cc] (pr_conditions rule_empty))
             (\<lambda>cs. Ok \<lparr>pr_conditions = cs, pr_condition_count = cc, pr_action = a,
                       pr_rule_priority = of_le_bytes (slice (base + 1) 2 data), pr_flags = data ! (base + 8)\<rparr>)))"

fun decode_rules :: "u8 list \<Rightarrow> nat list \<Rightarrow> policy_rule list \<Rightarrow> security_error + policy_rule list" where
  "decode_rules data [] rs = Ok rs"
| "decode_rules data (ri # ris) rs =
     and_then (decode_rule data (POLICY_HEADER + POLICY_RULE * ri)) (\<lambda>r. decode_rules data ris (rs[ri := r]))"

definition policy_deserialize :: "u8 list \<Rightarrow> security_error + policy_object" where
  "policy_deserialize data =
     (if length data < POLICY_HEADER then Err InvalidPolicy
      else let rule_count = unat (data ! 1)
           in if rule_count > MAX_RULES_PER_POLICY \<or> length data < POLICY_HEADER + POLICY_RULE * rule_count
              then Err InvalidPolicy
              else and_then (policy_type_from_u8 (data ! 0)) (\<lambda>ty.
                   and_then (decode_target data) (\<lambda>tgt.
                   and_then (decode_rules data [0..<rule_count] (po_rules policy_empty)) (\<lambda>rs.
                   Ok \<lparr>po_policy_type = ty, po_target = tgt, po_rules = rs, po_rule_count = rule_count,
                       po_priority = of_le_bytes (slice 2 4 data), po_owner = data ! 6,
                       po_expires_at = of_le_bytes (slice 9 8 data), po_flags = of_le_bytes (slice 7 2 data)\<rparr>))))"

section \<open>Definitions: policy identifiers\<close>

definition POLICY_BASE :: u64 where "POLICY_BASE = 0x7000000000000000"
definition SYSTEM_POLICY_BASE :: u64 where "SYSTEM_POLICY_BASE = 0x7000000000000000"
definition SYSTEM_POLICY_MASK :: u64 where "SYSTEM_POLICY_MASK = 0x7000FFFFFFFFFFFF"
definition USER_POLICY_BASE :: u64 where "USER_POLICY_BASE = 0x7100000000000000"
definition USER_POLICY_MASK :: u64 where "USER_POLICY_MASK = 0x71FFFFFFFFFFFFFF"

definition is_policy_suid :: "suid \<Rightarrow> bool" where
  "is_policy_suid s \<longleftrightarrow> high s \<ge> POLICY_BASE \<and> high s < 0x8000000000000000"

definition is_system_policy :: "suid \<Rightarrow> bool" where
  "is_system_policy s \<longleftrightarrow> high s \<ge> SYSTEM_POLICY_BASE \<and> high s \<le> SYSTEM_POLICY_MASK"

definition new_system_policy :: "u32 \<Rightarrow> suid" where
  "new_system_policy i = suid_new (SYSTEM_POLICY_BASE OR ucast i) 0"

definition new_user_policy :: "user_id \<Rightarrow> u32 \<Rightarrow> suid" where
  "new_user_policy u i = suid_new (USER_POLICY_BASE OR push_bit 32 (ucast u) OR ucast i) 0"

definition user_policy_owner :: "suid \<Rightarrow> user_id option" where
  "user_policy_owner s =
     (if high s \<ge> USER_POLICY_BASE \<and> high s \<le> USER_POLICY_MASK
      then Some (ucast (drop_bit 32 (high s) AND 0xFF)) else None)"

section \<open>Lemmas: codes\<close>

lemma length_pad [simp]: "length bs \<le> n \<Longrightarrow> length (pad n bs) = n"
  by (simp add: pad_def)

lemma nth_pad: "i < length bs \<Longrightarrow> pad n bs ! i = bs ! i"
  by (simp add: pad_def nth_append)

lemma slice_pad: "i + k \<le> length bs \<Longrightarrow> slice i k (pad n bs) = slice i k bs"
  by (simp add: pad_def slice_prefix)

lemma policy_tier_round_trip [simp]: "policy_tier_from_u8 (tier_value t) = Ok t"
  by (cases t) (simp_all add: policy_tier_from_u8_def)

lemma policy_type_round_trip [simp]: "policy_type_from_u8 (policy_type_to_u8 ty) = Ok ty"
  by (cases ty) (simp_all add: policy_type_from_u8_def)

lemma ucast_round_trip [simp]:
  "ucast (ucast u :: u64) = (u :: u8)" "ucast (ucast u :: u32) = (u :: u8)" "ucast (ucast g :: u64) = (g :: u16)"
  "ucast (ucast f :: u64) = (f :: u32)"
  by (intro bit_word_eqI; simp add: bit_simps)+

lemma redaction_custom: "(0xFFFFFF00 OR ucast i) AND 0xFFFFFF00 = (0xFFFFFF00 :: u32)"
  "ucast ((0xFFFFFF00 OR ucast i :: u32) AND 0xFF) = (i :: u8)"
proof -
  have a: "(0xFFFFFF00 :: u32) = push_bit 8 (mask 24)" by (simp add: push_bit_eq_mult mask_eq_exp_minus_1)
  have b: "(0xFF :: u32) = mask 8" by (simp add: mask_eq_exp_minus_1)
  show "(0xFFFFFF00 OR ucast i) AND 0xFFFFFF00 = (0xFFFFFF00 :: u32)"
    "ucast ((0xFFFFFF00 OR ucast i :: u32) AND 0xFF) = (i :: u8)"
    unfolding a b by (auto simp: bit_simps intro!: bit_word_eqI)
qed

lemma redaction_round_trip [simp]: "redaction_from_u32 (redaction_to_u32 p) = Ok p"
proof (cases p)
  case (Custom i)
  then show ?thesis using redaction_custom [of i] by (simp add: redaction_from_u32_def)
qed (simp_all add: redaction_from_u32_def redaction_from_u8_def)

lemma action_round_trip: "decode_action (fst (action_code a)) (snd (action_code a)) = Ok a"
  by (cases a) (simp_all add: decode_action_def)

lemma length_condition_code [simp]: "length (snd (condition_code c)) = 8"
  by (cases c) (simp_all add: payload_u64_def payload_u64_2_def)

lemma condition_round_trip: "decode_condition (fst (condition_code c)) (snd (condition_code c)) = Ok c"
proof (cases c)
  case (TimeWindow a b)
  then show ?thesis by (simp add: decode_condition_def payload_u64_2_def slice_def)
qed (simp_all add: decode_condition_def payload_u64_def Let_def)

lemma length_condition_bytes [simp]: "length (condition_bytes c) = 12"
  by (simp add: condition_bytes_def)

section \<open>Lemmas: rules\<close>

definition rule_wf :: "policy_rule \<Rightarrow> bool" where
  "rule_wf r \<longleftrightarrow> length (pr_conditions r) = 4 \<and> pr_condition_count r \<le> 4"

text \<open>A rule as the format keeps it: conditions past the count are \<open>Always\<close>.\<close>

definition canon_rule :: "policy_rule \<Rightarrow> policy_rule" where
  "canon_rule r = r\<lparr>pr_conditions := rule_conditions r @ replicate (4 - pr_condition_count r) Always\<rparr>"

lemma canon_rule_eq:
  "canon_rule r = \<lparr>pr_conditions = rule_conditions r @ replicate (4 - pr_condition_count r) Always,
     pr_condition_count = pr_condition_count r, pr_action = pr_action r, pr_rule_priority = pr_rule_priority r, pr_flags = pr_flags r\<rparr>"
  by (cases r) (simp add: canon_rule_def rule_conditions_def)

lemma rule_bytes_layout:
  assumes "rule_wf r"
  shows "length (rule_bytes r) = POLICY_RULE" and "rule_bytes r ! 0 = of_nat (pr_condition_count r)"
    and "slice 1 2 (rule_bytes r) = le_bytes 2 (pr_rule_priority r)" and "rule_bytes r ! 3 = fst (action_code (pr_action r))"
    and "slice 4 4 (rule_bytes r) = le_bytes 4 (snd (action_code (pr_action r)))" and "rule_bytes r ! 8 = pr_flags r"
    and "ci < pr_condition_count r \<Longrightarrow> slice (10 + ci * 12) 12 (rule_bytes r) = condition_bytes (pr_conditions r ! ci)"
proof -
  let ?cs = "map condition_bytes (take (min (pr_condition_count r) 4) (pr_conditions r))"
  let ?pre = "of_nat (pr_condition_count r) # le_bytes 2 (pr_rule_priority r)
       @ fst (action_code (pr_action r)) # le_bytes 4 (snd (action_code (pr_action r))) @ pr_flags r # [0]"
  have b: "rule_bytes r = pad POLICY_RULE (?pre @ concat ?cs)" by (simp add: rule_bytes_def)
  have l: "length (concat ?cs) = pr_condition_count r * 12" using assms length_concat_same [of ?cs 12] by (auto simp: rule_wf_def)
  have p: "length ?pre = 10" by simp
  show "length (rule_bytes r) = POLICY_RULE" unfolding b using l p assms by (intro length_pad) (simp add: rule_wf_def POLICY_RULE_def)
  have in_pre: "slice i n (rule_bytes r) = slice i n ?pre" if "i + n \<le> 10" for i n
  proof -
    have "slice i n (rule_bytes r) = slice i n (?pre @ concat ?cs)" unfolding b using that p by (intro slice_pad) simp
    also have "\<dots> = slice i n ?pre" using that p by (intro slice_prefix) simp
    finally show ?thesis .
  qed
  have nth_pre: "rule_bytes r ! i = ?pre ! i" if "i < 10" for i
  proof -
    have "rule_bytes r ! i = (?pre @ concat ?cs) ! i" unfolding b using that p by (intro nth_pad) simp
    also have "\<dots> = ?pre ! i" using that p by (intro nth_append_left) simp
    finally show ?thesis .
  qed
  show "rule_bytes r ! 0 = of_nat (pr_condition_count r)" "rule_bytes r ! 3 = fst (action_code (pr_action r))" "rule_bytes r ! 8 = pr_flags r"
    by (simp_all add: nth_pre nth_append)
  show "slice 1 2 (rule_bytes r) = le_bytes 2 (pr_rule_priority r)"
    "slice 4 4 (rule_bytes r) = le_bytes 4 (snd (action_code (pr_action r)))"
    by (simp_all add: in_pre) (simp_all add: slice_def)
  assume ci: "ci < pr_condition_count r"
  then have "slice (10 + ci * 12) 12 (rule_bytes r) = slice (length ?pre + ci * 12) 12 (?pre @ concat ?cs @ [])"
    unfolding b using l p by (subst slice_pad) simp_all
  also have "\<dots> = ?cs ! ci" using ci assms by (intro slice_concat_blocks) (auto simp: rule_wf_def)
  finally show "slice (10 + ci * 12) 12 (rule_bytes r) = condition_bytes (pr_conditions r ! ci)"
    using ci assms by (simp add: rule_wf_def)
qed

lemma decode_conditions_fill:
  "(\<And>ci. ci \<in> set cis \<Longrightarrow> decode_condition (data ! (base + 10 + ci * 12)) (slice (base + 10 + ci * 12 + 1) 8 data) = Ok (g ci)) \<Longrightarrow>
     decode_conditions data base cis cs = Ok (foldl (\<lambda>cs i. cs[i := g i]) cs cis)"
  by (induction cis arbitrary: cs) (simp_all add: Let_def)

lemma decode_rule_at:
  assumes wf: "rule_wf r" and blk: "slice base POLICY_RULE data = rule_bytes r" and len: "base + POLICY_RULE \<le> length data"
  shows "decode_rule data base = Ok (canon_rule r)"
proof -
  note L = rule_bytes_layout [OF wf]
  have nth: "data ! (base + k) = rule_bytes r ! k" if "k < 60" for k
    using nth_slice [OF len, of k] that blk by (simp add: POLICY_RULE_def)
  have sl: "slice (base + k) n data = slice k n (rule_bytes r)" if "k + n \<le> 60" for k n
    using slice_slice [of k n POLICY_RULE base data] that blk by (simp add: POLICY_RULE_def)
  let ?n = "pr_condition_count r"
  have n: "?n \<le> 4" "length (pr_conditions r) = 4" using wf by (simp_all add: rule_wf_def)
  have cond: "decode_condition (data ! (base + 10 + ci * 12)) (slice (base + 10 + ci * 12 + 1) 8 data) = Ok (pr_conditions r ! ci)"
    if "ci \<in> set [0..<?n]" for ci
  proof -
    let ?c = "pr_conditions r ! ci" and ?k = "10 + ci * 12"
    have ci: "ci < ?n" "ci * 12 \<le> 36" using that n by auto
    have c: "slice ?k 12 (rule_bytes r) = condition_bytes ?c" using L(7) ci(1) .
    have "data ! (base + ?k) = rule_bytes r ! ?k" using ci by (intro nth) simp
    also have "\<dots> = condition_bytes ?c ! 0" using nth_slice [of ?k 12 "rule_bytes r" 0] c L(1) ci by (simp add: POLICY_RULE_def)
    also have "\<dots> = fst (condition_code ?c)" by (simp add: condition_bytes_def nth_pad)
    finally have tag: "data ! (base + 10 + ci * 12) = fst (condition_code ?c)" by (simp add: add.assoc)
    have "slice (base + (?k + 1)) 8 data = slice (?k + 1) 8 (rule_bytes r)" using ci by (intro sl) simp
    also have "\<dots> = slice 1 8 (condition_bytes ?c)" using slice_slice [of 1 8 12 ?k "rule_bytes r"] c by simp
    also have "\<dots> = snd (condition_code ?c)" unfolding condition_bytes_def by (subst slice_pad) (simp_all add: slice_def)
    finally have "slice (base + 10 + ci * 12 + 1) 8 data = snd (condition_code ?c)" by (simp add: ac_simps)
    with tag show ?thesis by (simp add: condition_round_trip)
  qed
  have "map ((!) (pr_conditions r)) [0..<?n] = take ?n (pr_conditions r)" using n by (simp add: take_map [symmetric] map_nth min_def take_upt list_eq_iff_nth_eq)
  then have dc: "decode_conditions data base [0..<?n] (pr_conditions rule_empty) = Ok (rule_conditions r @ replicate (4 - ?n) Always)"
    using decode_conditions_fill [where cis = "[0..<?n]" and cs = "pr_conditions rule_empty", OF cond] foldl_update_upt [of ?n "pr_conditions rule_empty" "(!) (pr_conditions r)"] n
    by (simp add: rule_empty_def rule_conditions_def)
  have cc: "min (unat (data ! base)) 4 = ?n" using nth [of 0] L(2) n by (simp add: unat_of_nat take_bit_nat_eq_self)
  have "data ! (base + 3) = fst (action_code (pr_action r))" "of_le_bytes (slice (base + 4) 4 data) = snd (action_code (pr_action r))"
    "of_le_bytes (slice (base + 1) 2 data) = pr_rule_priority r" "data ! (base + 8) = pr_flags r"
    using nth [of 3] nth [of 8] sl [of 4 4] sl [of 1 2] L(3-6) by simp_all
  then show ?thesis using dc cc by (simp add: decode_rule_def action_round_trip canon_rule_eq Let_def)
qed

section \<open>Lemmas: the whole format\<close>

definition target_wf :: "policy_target \<Rightarrow> bool" where
  "target_wf tgt = (case tgt of ObjectsBySUID suids n \<Rightarrow> length suids = 4 \<and> n \<le> 4 | _ \<Rightarrow> True)"

definition policy_wf :: "policy_object \<Rightarrow> bool" where
  "policy_wf p \<longleftrightarrow> length (po_rules p) = MAX_RULES_PER_POLICY \<and> po_rule_count p \<le> MAX_RULES_PER_POLICY
     \<and> (\<forall>r \<in> set (policy_rules p). rule_wf r) \<and> target_wf (po_target p)"

fun canon_target :: "policy_target \<Rightarrow> policy_target" where
  "canon_target (ObjectsBySUID suids n) = ObjectsBySUID (take n suids @ replicate (4 - n) (suid_new 0 0)) n"
| "canon_target tgt = tgt"

text \<open>A policy as the format keeps it: what is past the counts is reset.\<close>

definition canon_policy :: "policy_object \<Rightarrow> policy_object" where
  "canon_policy p = p\<lparr>po_target := canon_target (po_target p),
     po_rules := map canon_rule (policy_rules p) @ replicate (MAX_RULES_PER_POLICY - po_rule_count p) rule_empty\<rparr>"

lemma canon_policy_eq:
  "canon_policy p = \<lparr>po_policy_type = po_policy_type p, po_target = canon_target (po_target p),
     po_rules = map canon_rule (policy_rules p) @ replicate (MAX_RULES_PER_POLICY - po_rule_count p) rule_empty,
     po_rule_count = po_rule_count p, po_priority = po_priority p, po_owner = po_owner p,
     po_expires_at = po_expires_at p, po_flags = po_flags p\<rparr>"
  by (cases p) (simp add: canon_policy_def policy_rules_def)

lemma length_suid_le [simp]: "length (suid_le s) = 16"
  by (simp add: suid_le_def)

lemma suid_le_slices: "slice 0 8 (suid_le s) = le_bytes 8 (high s)" "slice 8 8 (suid_le s) = le_bytes 8 (low s)"
  by (simp_all add: suid_le_def slice_def)

lemma length_target_bytes: "target_wf tgt \<Longrightarrow> length (target_bytes tgt) \<le> 66"
proof (cases tgt)
  case (ObjectsBySUID suids n)
  moreover assume "target_wf tgt"
  ultimately show ?thesis using length_concat_same [of "map suid_le (take n suids)" 16] by (simp add: target_wf_def Let_def)
qed simp_all

lemma header_layout:
  assumes "policy_wf p"
  shows "length (header_bytes p) = POLICY_HEADER" and "header_bytes p ! 0 = policy_type_to_u8 (po_policy_type p)"
    and "header_bytes p ! 1 = of_nat (po_rule_count p)" and "slice 2 4 (header_bytes p) = le_bytes 4 (po_priority p)"
    and "header_bytes p ! 6 = po_owner p" and "slice 7 2 (header_bytes p) = le_bytes 2 (po_flags p)"
    and "slice 9 8 (header_bytes p) = le_bytes 8 (po_expires_at p)"
    and "slice 17 67 (header_bytes p) = pad 67 (target_bytes (po_target p))"
proof -
  let ?pre = "policy_type_to_u8 (po_policy_type p) # of_nat (po_rule_count p)
       # le_bytes 4 (po_priority p) @ po_owner p # le_bytes 2 (po_flags p) @ le_bytes 8 (po_expires_at p)"
  have tl: "length (target_bytes (po_target p)) \<le> 66" using assms length_target_bytes by (simp add: policy_wf_def)
  have h: "header_bytes p = ?pre @ pad 67 (target_bytes (po_target p))"
    using tl by (simp add: header_bytes_def pad_def POLICY_HEADER_def)
  have pl: "length (pad 67 (target_bytes (po_target p))) = 67" using tl by simp
  show "length (header_bytes p) = POLICY_HEADER" unfolding h using pl by (simp add: POLICY_HEADER_def)
  show "header_bytes p ! 0 = policy_type_to_u8 (po_policy_type p)" "header_bytes p ! 1 = of_nat (po_rule_count p)"
    "header_bytes p ! 6 = po_owner p" unfolding h by (simp_all add: nth_append)
  show "slice 2 4 (header_bytes p) = le_bytes 4 (po_priority p)" "slice 7 2 (header_bytes p) = le_bytes 2 (po_flags p)"
    "slice 9 8 (header_bytes p) = le_bytes 8 (po_expires_at p)" unfolding h by (simp_all add: slice_def)
  show "slice 17 67 (header_bytes p) = pad 67 (target_bytes (po_target p))"
    unfolding h by (rule slice_exact [where post = "[]", simplified append_Nil2]) (simp_all add: pl)
qed

lemma decode_target_at:
  assumes "target_wf tgt" and "slice 17 67 data = pad 67 (target_bytes tgt)" and "84 \<le> length data"
  shows "decode_target data = Ok (canon_target tgt)"
proof -
  let ?b = "target_bytes tgt"
  have nth: "data ! (17 + k) = ?b ! k" if "k < length ?b" "k < 67" for k
    using nth_slice [of 17 67 data k] that assms(2,3) by (simp add: nth_pad)
  have sl: "slice (17 + k) n data = slice k n ?b" if "k + n \<le> length ?b" "k + n \<le> 67" for k n
    using slice_slice [of k n 67 17 data] that assms(2) by (simp add: slice_pad)
  have t0: "data ! 17 = ?b ! 0" using nth [of 0] by (cases tgt) (simp_all add: Let_def)
  show ?thesis
  proof (cases tgt)
    case (ObjectsBySUID suids n)
    have n: "n \<le> 4" "length suids = 4" using assms(1) ObjectsBySUID by (simp_all add: target_wf_def)
    let ?ss = "map suid_le (take n suids)"
    have b: "?b = [1, of_nat n] @ concat ?ss" using ObjectsBySUID n by (simp add: min_def)
    have lb: "length ?b = 2 + n * 16" unfolding b using length_concat_same [of ?ss 16] n by simp
    have cnt: "data ! 18 = of_nat n" using nth [of 1] lb by (simp add: b)
    have "slice (19 + i * 16) 8 data = le_bytes 8 (high (suids ! i)) \<and> slice (19 + i * 16 + 8) 8 data = le_bytes 8 (low (suids ! i))"
      if i: "i < n" for i
    proof -
      have "slice (19 + i * 16) 16 data = slice (2 + i * 16) 16 ?b" using sl [of "2 + i * 16" 16] lb i n by simp
      also have "\<dots> = ?ss ! i" using slice_concat_blocks [of ?ss 16 i "[1, of_nat n]" "[]"] i n by (simp add: b)
      finally have s: "slice (19 + i * 16) 16 data = suid_le (suids ! i)" using i n by simp
      show ?thesis using slice_slice [of 0 8 16 "19 + i * 16" data] slice_slice [of 8 8 16 "19 + i * 16" data]
        unfolding s suid_le_slices by simp
    qed
    then have "suid_new (of_le_bytes (slice (19 + i * 16) 8 data)) (of_le_bytes (slice (19 + i * 16 + 8) 8 data)) = suids ! i"
      if "i < n" for i using that by (simp add: suid_new_def)
    then have "map (\<lambda>i. suid_new (of_le_bytes (slice (19 + i * 16) 8 data)) (of_le_bytes (slice (19 + i * 16 + 8) 8 data))) [0..<n] = take n suids"
      using n by (intro nth_equalityI) simp_all
    then show ?thesis using t0 cnt n ObjectsBySUID
      by (simp add: decode_target_def Let_def unat_of_nat take_bit_nat_eq_self)
  next
    case (ObjectsByPattern i)
    then show ?thesis using t0 sl [of 1 4] by (simp add: decode_target_def slice_def)
  qed (use t0 nth [of 1] in \<open>simp_all add: decode_target_def\<close>)
qed

lemma decode_rules_fill:
  "(\<And>ri. ri \<in> set ris \<Longrightarrow> decode_rule data (POLICY_HEADER + POLICY_RULE * ri) = Ok (g ri)) \<Longrightarrow>
     decode_rules data ris rs = Ok (foldl (\<lambda>rs i. rs[i := g i]) rs ris)"
  by (induction ris arbitrary: rs) simp_all

lemma policy_bytes_decode:
  assumes wf: "policy_wf p"
  defines "data \<equiv> header_bytes p @ concat (map rule_bytes (policy_rules p))"
  shows "policy_deserialize data = Ok (canon_policy p)" and "length data = POLICY_HEADER + POLICY_RULE * po_rule_count p"
proof -
  note H = header_layout [OF wf]
  let ?n = "po_rule_count p" and ?rs = "map rule_bytes (policy_rules p)"
  have n: "?n \<le> 16" "length (po_rules p) = 16" "length (policy_rules p) = ?n"
    using wf by (simp_all add: policy_wf_def MAX_RULES_PER_POLICY_def policy_rules_def)
  have rl: "\<forall>x \<in> set ?rs. length x = POLICY_RULE" using wf rule_bytes_layout(1) by (auto simp: policy_wf_def)
  have "length (concat ?rs) = ?n * POLICY_RULE" using length_concat_same [OF rl] n by simp
  then show len: "length data = POLICY_HEADER + POLICY_RULE * ?n" using H(1) by (simp add: data_def mult.commute)
  have nth: "data ! k = header_bytes p ! k" if "k < 84" for k using that H(1) by (simp add: data_def POLICY_HEADER_def nth_append)
  have sl: "slice k m data = slice k m (header_bytes p)" if "k + m \<le> 84" for k m
    using that H(1) by (simp add: data_def POLICY_HEADER_def slice_prefix)
  have rule: "decode_rule data (POLICY_HEADER + POLICY_RULE * ri) = Ok (canon_rule (policy_rules p ! ri))" if "ri \<in> set [0..<?n]" for ri
  proof (rule decode_rule_at)
    have ri: "ri < ?n" using that by simp
    show "rule_wf (policy_rules p ! ri)" using wf ri n by (simp add: policy_wf_def)
    show "slice (POLICY_HEADER + POLICY_RULE * ri) POLICY_RULE data = rule_bytes (policy_rules p ! ri)"
      using slice_concat_blocks [OF rl, of ri "header_bytes p" "[]"] ri n H(1) by (simp add: data_def mult.commute)
    show "POLICY_HEADER + POLICY_RULE * ri + POLICY_RULE \<le> length data" using ri unfolding len by (simp add: POLICY_RULE_def)
  qed
  have m: "map (\<lambda>ri. canon_rule (policy_rules p ! ri)) [0..<?n] = map canon_rule (policy_rules p)"
    using n by (simp add: list_eq_iff_nth_eq)
  have "decode_rules data [0..<?n] (po_rules policy_empty)
      = Ok (map canon_rule (policy_rules p) @ replicate (MAX_RULES_PER_POLICY - ?n) rule_empty)"
    using decode_rules_fill [where ris = "[0..<?n]" and rs = "po_rules policy_empty", OF rule] n m
      foldl_update_upt [of ?n "po_rules policy_empty" "\<lambda>ri. canon_rule (policy_rules p ! ri)"]
    by (simp add: policy_empty_def MAX_RULES_PER_POLICY_def)
  moreover have "decode_target data = Ok (canon_target (po_target p))"
    using wf sl [of 17 67] H(8) len by (intro decode_target_at) (simp_all add: policy_wf_def POLICY_HEADER_def)
  moreover have "unat (data ! 1) = ?n" using nth [of 1] H(3) n by (simp add: unat_of_nat take_bit_nat_eq_self)
  ultimately show "policy_deserialize data = Ok (canon_policy p)"
    using nth [of 0] nth [of 6] sl [of 2 4] sl [of 7 2] sl [of 9 8] H(2-7) len n
    by (simp add: policy_deserialize_def canon_policy_eq MAX_RULES_PER_POLICY_def Let_def)
qed

text \<open>Policies built with the constructors are in this form already.\<close>

inductive built_rule :: "policy_rule \<Rightarrow> bool" where
  simple: "built_rule (rule_simple c a)"
| cond: "built_rule r \<Longrightarrow> built_rule (fst (add_condition r c))"
| flags: "built_rule r \<Longrightarrow> built_rule (r\<lparr>pr_flags := f, pr_rule_priority := q\<rparr>)"

inductive built_policy :: "policy_object \<Rightarrow> bool" where
  new: "canon_target tgt = tgt \<Longrightarrow> target_wf tgt \<Longrightarrow> built_policy (policy_new ty tgt own prio)"
| rule: "built_policy p \<Longrightarrow> built_rule r \<Longrightarrow> built_policy (fst (add_rule p r))"
| flags: "built_policy p \<Longrightarrow> built_policy (p\<lparr>po_flags := f, po_expires_at := e\<rparr>)"

lemma take_snoc_update: "n < length xs \<Longrightarrow> take (Suc n) (xs[n := x]) = take n xs @ [x]"
  by (simp add: take_Suc_conv_app_nth)

lemma canon_rule_iff:
  "canon_rule r = r \<longleftrightarrow> pr_conditions r = rule_conditions r @ replicate (4 - pr_condition_count r) Always"
  by (cases r) (auto simp: canon_rule_def rule_conditions_def)

lemma canon_policy_iff:
  "canon_policy p = p \<longleftrightarrow> canon_target (po_target p) = po_target p
     \<and> po_rules p = map canon_rule (policy_rules p) @ replicate (MAX_RULES_PER_POLICY - po_rule_count p) rule_empty"
  by (cases p) (auto simp: canon_policy_def policy_rules_def)

lemma built_rule_canon: "built_rule r \<Longrightarrow> rule_wf r \<and> canon_rule r = r"
proof (induction rule: built_rule.induct)
  case (simple c a)
  show ?case by (simp add: rule_simple_def rule_empty_def rule_wf_def canon_rule_def rule_conditions_def numeral_eq_Suc)
next
  case (cond r c)
  show ?case
  proof (cases "pr_condition_count r < 4")
    case True
    let ?n = "pr_condition_count r" and ?cs = "pr_conditions r"
    have cs: "?cs = take ?n ?cs @ replicate (4 - ?n) Always" and l: "length ?cs = 4"
      using cond.IH by (simp_all add: canon_rule_iff rule_conditions_def rule_wf_def)
    have "drop (Suc ?n) ?cs = replicate (4 - Suc ?n) Always"
      using arg_cong [OF cs, of "drop (Suc ?n)"] True l by simp
    then have "?cs[?n := c] = take (Suc ?n) (?cs[?n := c]) @ replicate (4 - Suc ?n) Always"
      using True l by (metis append_take_drop_id drop_update_cancel lessI)
    with True l show ?thesis by (simp add: add_condition_def rule_wf_def canon_rule_iff rule_conditions_def)
  qed (use cond.IH in \<open>simp add: add_condition_def\<close>)
next
  case (flags r f q)
  then show ?case by (simp add: rule_wf_def canon_rule_iff rule_conditions_def)
qed

lemma built_policy_canon: "built_policy p \<Longrightarrow> policy_wf p \<and> canon_policy p = p"
proof (induction rule: built_policy.induct)
  case (new tgt ty own prio)
  then show ?case by (simp add: policy_new_def policy_empty_def policy_wf_def canon_policy_def policy_rules_def)
next
  case (rule p r)
  show ?case
  proof (cases "po_rule_count p < MAX_RULES_PER_POLICY")
    case True
    let ?n = "po_rule_count p" and ?rs = "po_rules p" and ?m = "MAX_RULES_PER_POLICY"
    have r: "rule_wf r" "canon_rule r = r" using built_rule_canon [OF rule.hyps(2)] by simp_all
    have rs: "?rs = map canon_rule (take ?n ?rs) @ replicate (?m - ?n) rule_empty" and l: "length ?rs = ?m"
      and t: "canon_target (po_target p) = po_target p"
      using rule.IH by (simp_all add: canon_policy_iff policy_rules_def policy_wf_def)
    have tk: "map canon_rule (take ?n ?rs) = take ?n ?rs" using arg_cong [OF rs, of "take ?n"] True l by simp
    have dr: "drop (Suc ?n) ?rs = replicate (?m - Suc ?n) rule_empty" using arg_cong [OF rs, of "drop (Suc ?n)"] True l by simp
    have u: "take (Suc ?n) (?rs[?n := r]) = take ?n ?rs @ [r]" using True l by (simp add: take_snoc_update)
    have "?rs[?n := r] = take (Suc ?n) (?rs[?n := r]) @ drop (Suc ?n) ?rs" by (metis append_take_drop_id drop_update_cancel lessI)
    then have "?rs[?n := r] = map canon_rule (take (Suc ?n) (?rs[?n := r])) @ replicate (?m - Suc ?n) rule_empty"
      unfolding u dr using tk r(2) by simp
    then show ?thesis using True rule.IH r(1) t u
      by (simp add: add_rule_def policy_wf_def canon_policy_iff policy_rules_def)
  qed (use rule.IH in \<open>simp add: add_rule_def\<close>)
next
  case (flags p f e)
  then show ?case by (simp add: policy_wf_def canon_policy_iff policy_rules_def)
qed

section \<open>Lemmas: policy identifiers\<close>

lemma bases: "USER_POLICY_BASE = push_bit 56 0x71" "SYSTEM_POLICY_BASE = push_bit 60 7"
  by (simp_all add: USER_POLICY_BASE_def SYSTEM_POLICY_BASE_def push_bit_eq_mult)

lemma base_bits: "k < 56 \<Longrightarrow> \<not> bit USER_POLICY_BASE k"
  unfolding bases(1) bit_push_bit_iff by simp

lemma ff: "(0xFF :: u64) = mask 8"
  by (simp add: mask_eq_exp_minus_1)

lemma push_or_plus: "(\<And>k. k \<ge> n \<Longrightarrow> \<not> bit b k) \<Longrightarrow> push_bit n a OR b = push_bit n a + b" for a b :: u64
  by (subst disjunctive_add) (auto simp: bit_push_bit_iff)

lemma narrow_bits: "\<not> bit (ucast w :: u64) k" if "LENGTH('a) \<le> k" for w :: "'a::len word"
  using that by (auto simp: bit_simps dest: bit_imp_le_length)

lemma unat_widen:
  "unat (ucast i :: u64) = unat i" "unat (ucast u :: u64) = unat u" "unat i < 2 ^ 32" "unat u < 2 ^ 8"
  for i :: u32 and u :: u8
  using unsigned_less [of i, where 'a = nat] unsigned_less [of u, where 'a = nat]
  by (simp_all add: unsigned_ucast_eq take_bit_nat_eq_self)

lemma unat_shifted_user: "unat (push_bit 32 (ucast u) :: u64) = unat u * 2 ^ 32" for u :: u8
  using unat_widen(2,4) [of u] by (simp add: push_bit_eq_mult unat_word_ariths)

lemma user_policy_high:
  "unat (high (new_user_policy u i)) = 0x7100000000000000 + unat u * 2 ^ 32 + unat i"
proof -
  let ?u = "push_bit 32 (ucast u) :: u64" and ?i = "ucast i :: u64"
  have "?u OR ?i = ?u + ?i" by (rule push_or_plus) (simp add: narrow_bits)
  moreover have "push_bit 56 0x71 OR (?u OR ?i) = push_bit 56 0x71 + (?u OR ?i)"
    by (rule push_or_plus) (auto simp: bit_or_iff bit_push_bit_iff narrow_bits)
  ultimately have h: "high (new_user_policy u i) = 0x7100000000000000 + (?u + ?i)"
    by (simp add: new_user_policy_def suid_new_def bases or.assoc push_bit_eq_mult)
  have "unat (?u + ?i) = unat u * 2 ^ 32 + unat i"
    using unat_widen(1,3) [of i] unat_widen(2,4) [of u] unat_shifted_user [of u] by (simp add: unat_word_ariths)
  then show ?thesis unfolding h using unat_widen(3) [of i] unat_widen(4) [of u] by (simp add: unat_word_ariths)
qed

lemma system_policy_high: "unat (high (new_system_policy i)) = 0x7000000000000000 + unat i"
proof -
  have "push_bit 60 7 OR ucast i = push_bit 60 7 + (ucast i :: u64)" by (rule push_or_plus) (simp add: narrow_bits)
  then have h: "high (new_system_policy i) = 0x7000000000000000 + ucast i"
    by (simp add: new_system_policy_def suid_new_def bases push_bit_eq_mult)
  show ?thesis unfolding h using unat_widen(1,3) [of i] by (simp add: unat_word_ariths)
qed

lemma policy_suid_facts:
  "user_policy_owner (new_user_policy u i) = Some u \<and> user_policy_owner (new_system_policy k) = None
   \<and> is_system_policy (new_system_policy k) \<and> \<not> is_system_policy (new_user_policy u i)
   \<and> is_policy_suid (new_user_policy u i) \<and> is_policy_suid (new_system_policy k)
   \<and> (new_user_policy u i = new_user_policy u' i' \<longleftrightarrow> u = u' \<and> i = i')"
proof -
  have own: "ucast (drop_bit 32 (high (new_user_policy u i)) AND 0xFF) = u" for u i
  proof (rule bit_word_eqI)
    fix n assume "n < LENGTH(8)"
    then show "bit (ucast (drop_bit 32 (high (new_user_policy u i)) AND 0xFF) :: u8) n = bit u n"
      unfolding new_user_policy_def suid_new_def suid.select_convs ff
      using narrow_bits [of "32 + n" i] base_bits [of "32 + n"] by (simp add: bit_simps)
  qed
  have low: "ucast (high (new_user_policy u i)) = i" for u i
  proof (rule bit_word_eqI)
    fix n assume "n < LENGTH(32)"
    then show "bit (ucast (high (new_user_policy u i)) :: u32) n = bit i n"
      unfolding new_user_policy_def suid_new_def suid.select_convs using base_bits [of n] by (simp add: bit_simps)
  qed
  have "u = u' \<and> i = i'" if "new_user_policy u i = new_user_policy u' i'" using that own low by metis
  then show ?thesis using own user_policy_high [of u i] system_policy_high [of k] unat_widen(3) [of i] unat_widen(3) [of k] unat_widen(4) [of u]
    by (auto simp: user_policy_owner_def is_system_policy_def is_policy_suid_def POLICY_BASE_def SYSTEM_POLICY_BASE_def
        SYSTEM_POLICY_MASK_def USER_POLICY_BASE_def USER_POLICY_MASK_def word_le_nat_alt word_less_nat_alt)
qed

section \<open>Properties\<close>

text \<open>
  The policy format. Serialising a well-formed policy into a buffer that is large enough writes
  exactly the announced number of bytes and leaves the rest of the buffer alone; reading those bytes
  back gives the policy, with the unused rule, condition and identifier slots reset. A policy built
  with the constructors comes back unchanged. A buffer that is too small is refused and unchanged.
\<close>

theorem policy_round_trip:
  assumes "policy_wf p" and "policy_serialize p out = (out', res)"
  shows "if length out < 84 + 60 * po_rule_count p then out' = out \<and> res = Err InvalidPolicy
    else res = Ok (84 + 60 * po_rule_count p) \<and> length out' = length out
      \<and> drop (84 + 60 * po_rule_count p) out' = drop (84 + 60 * po_rule_count p) out
      \<and> policy_deserialize (take (84 + 60 * po_rule_count p) out') = Ok (canon_policy p)
      \<and> (built_policy p \<longrightarrow> policy_deserialize (take (84 + 60 * po_rule_count p) out') = Ok p)"
  using assms(2) policy_bytes_decode [OF assms(1)] built_policy_canon [of p]
  by (auto simp: policy_serialize_def copy_into_def POLICY_HEADER_def POLICY_RULE_def Let_def split: if_splits)

theorem policy_round_trip_witness:
  "\<exists>p out'. p = fst (add_rule (policy_new ObjectAccess Everyone 254 200) (rule_simple Always (Allow Public)))
     \<and> policy_serialize p (replicate 256 7) = (out', Ok 144) \<and> policy_deserialize (take 144 out') = Ok p"
proof -
  let ?p = "fst (add_rule (policy_new ObjectAccess Everyone 254 200) (rule_simple Always (Allow Public)))"
  have b: "built_policy ?p" by (intro built_policy.intros built_rule.intros) (simp_all add: target_wf_def)
  obtain out' res where s: "policy_serialize ?p (replicate 256 7) = (out', res)" by (metis prod.exhaust)
  have "po_rule_count ?p = 1" by (simp add: add_rule_def policy_new_def policy_empty_def MAX_RULES_PER_POLICY_def)
  with policy_round_trip [OF _ s] built_policy_canon [OF b] b s show ?thesis
    by (intro exI [of _ ?p] exI [of _ out']) (simp del: replicate.simps)
qed

text \<open>
  Policy identifiers. The owner is read back from the identifier of a user policy; the
  identifiers of two user policies are the same only for the same user and number; and a system
  policy is never taken for a policy of a user.
\<close>

theorem policy_suids_separate:
  "user_policy_owner (new_user_policy u i) = Some u \<and> user_policy_owner (new_system_policy k) = None
   \<and> is_system_policy (new_system_policy k) \<and> \<not> is_system_policy (new_user_policy u i)
   \<and> is_policy_suid (new_user_policy u i) \<and> is_policy_suid (new_system_policy k)
   \<and> (new_user_policy u i = new_user_policy u' i' \<longleftrightarrow> u = u' \<and> i = i')"
  by (rule policy_suid_facts)

end
