(* ===== verification/Policy_Eval.thy ===== *)
theory Policy_Eval
  imports Policy Registry "HOL-Library.Multiset"
begin

text \<open>
  Policy evaluation: \<^verbatim>\<open>src/kernel-core/src/security/evaluation.rs\<close>. The engine scans the registry for
  stored policies, sorts those that apply by priority and takes the first decision. The clock is an
  argument, audit messages are left out. The array of at most 32 matching policies is the list of its
  occupied part. The theory shows that the sort is a sort, and that the decision is that of a policy of
  highest priority among those that decide.
\<close>

section \<open>Definitions\<close>

definition MAX_POLICIES_PER_REQUEST :: nat where "MAX_POLICIES_PER_REQUEST = 32"

datatype request_type = DirectAccess | LLMContext | LLMStream | ObjectCreate | ObjectModify | Administrative

record request_context =
  rc_request_type :: request_type
  rc_flags :: u32
  rc_app_context :: u32

record evaluation_context =
  ec_requester_id :: user_id
  ec_requester_tier :: security_tier
  ec_target_suid :: suid
  ec_target_tier :: "security_tier option"
  ec_target_owner :: "user_id option"
  ec_context :: request_context
  ec_current_time :: u64

datatype policy_result =
    ResAllow security_tier | ResDeny | ResAllowWithRedaction redaction_profile | ResRequireEscalation | NoMatch

record policy_engine =
  pe_initialized :: bool
  pe_default_action :: policy_action

definition engine_new :: policy_engine where
  "engine_new = \<lparr>pe_initialized = False, pe_default_action = Allow Public\<rparr>"

definition engine_init :: "policy_engine \<Rightarrow> policy_engine" where
  "engine_init e = e\<lparr>pe_initialized := True, pe_default_action := Allow Public\<rparr>"

definition set_default_action :: "policy_action \<Rightarrow> policy_engine \<Rightarrow> policy_engine" where
  "set_default_action a e = e\<lparr>pe_default_action := a\<rparr>"

definition policy_matches :: "u64 \<Rightarrow> policy_object \<Rightarrow> evaluation_context \<Rightarrow> bool" where
  "policy_matches now p ctx =
     (if \<not> policy_is_active now p then False
      else case (po_policy_type p, rc_request_type (ec_context ctx)) of
             (ObjectAccess, DirectAccess) \<Rightarrow> True
           | (ObjectAccess, LLMContext) \<Rightarrow> True
           | (ObjectAccess, LLMStream) \<Rightarrow> True
           | (UserIsolation, _) \<Rightarrow> True
           | (TierEscalation, _) \<Rightarrow> True
           | (TimeBasedAccess, _) \<Rightarrow> True
           | (ContextDependent, _) \<Rightarrow> True
           | _ \<Rightarrow> False)"

fun target_matches :: "policy_target \<Rightarrow> evaluation_context \<Rightarrow> bool" where
  "target_matches AllObjects ctx = True"
| "target_matches Everyone ctx = True"
| "target_matches (User u) ctx = (u = ec_requester_id ctx)"
| "target_matches (ObjectsByOwner u) ctx = (case ec_target_owner ctx of Some w \<Rightarrow> w = u | None \<Rightarrow> False)"
| "target_matches (ObjectsByTier t) ctx = (case ec_target_tier ctx of Some w \<Rightarrow> w = t | None \<Rightarrow> False)"
| "target_matches (ObjectsBySUID suids n) ctx = (\<exists>s \<in> set (take n suids). s = ec_target_suid ctx)"
| "target_matches (ObjectsByPattern _) ctx = False"

fun condition_matches :: "rule_condition \<Rightarrow> evaluation_context \<Rightarrow> bool" where
  "condition_matches Always ctx = True"
| "condition_matches (RequesterIs u) ctx = (u = ec_requester_id ctx)"
| "condition_matches (RequesterTierIs t) ctx = (t = ec_requester_tier ctx)"
| "condition_matches (ObjectTierIs t) ctx = (case ec_target_tier ctx of Some w \<Rightarrow> w = t | None \<Rightarrow> False)"
| "condition_matches (ObjectOwnedBy u) ctx = (case ec_target_owner ctx of Some w \<Rightarrow> w = u | None \<Rightarrow> False)"
| "condition_matches (TimeWindow start_hour end_hour) ctx =
     (let current_hour = (ec_current_time ctx div 3600) mod 24
      in current_hour \<ge> ucast start_hour \<and> current_hour < ucast end_hour)"
| "condition_matches (ContextHasFlag m) ctx = (rc_flags (ec_context ctx) AND m \<noteq> 0)"
| "condition_matches (RequesterInGroup _) ctx = False"

definition rule_matches :: "policy_rule \<Rightarrow> evaluation_context \<Rightarrow> bool" where
  "rule_matches r ctx =
     (if pr_condition_count r = 0 then False else (\<forall>c \<in> set (rule_conditions r). condition_matches c ctx))"

fun apply_action :: "policy_action \<Rightarrow> policy_result" where
  "apply_action (Allow t) = ResAllow t"
| "apply_action Deny = ResDeny"
| "apply_action (AllowWithRedaction p) = ResAllowWithRedaction p"
| "apply_action RequireEscalation = ResRequireEscalation"
| "apply_action (LogAndAllow t) = ResAllow t"
| "apply_action Continue = NoMatch"

fun evaluate_rules :: "policy_rule list \<Rightarrow> evaluation_context \<Rightarrow> policy_result option" where
  "evaluate_rules [] ctx = None"
| "evaluate_rules (r # rs) ctx =
     (if \<not> rf_is_enabled (pr_flags r) then evaluate_rules rs ctx
      else if rule_matches r ctx
      then (let result = apply_action (pr_action r)
            in if rf_is_terminal (pr_flags r) then Some result
               else case pr_action r of Continue \<Rightarrow> evaluate_rules rs ctx | _ \<Rightarrow> Some result)
      else evaluate_rules rs ctx)"

definition evaluate_policy :: "policy_object \<Rightarrow> evaluation_context \<Rightarrow> policy_result option" where
  "evaluate_policy p ctx =
     (if \<not> target_matches (po_target p) ctx then None else evaluate_rules (policy_rules p) ctx)"

text \<open>The stored policy under an identifier, if there is one and its bytes are well formed.\<close>

definition stored_policy :: "registry \<Rightarrow> suid \<Rightarrow> policy_object option" where
  "stored_policy reg s =
     (case reg_get reg s of
        None \<Rightarrow> None
      | Some ob \<Rightarrow>
          (case as_bytes (ob_content ob) of
             None \<Rightarrow> None
           | Some bs \<Rightarrow> (case policy_deserialize bs of Inr p \<Rightarrow> Some p | Inl _ \<Rightarrow> None)))"

definition add_match ::
  "u64 \<Rightarrow> evaluation_context \<Rightarrow> registry \<Rightarrow> suid \<Rightarrow> policy_object list \<Rightarrow> policy_object list" where
  "add_match now ctx reg s acc =
     (case stored_policy reg s of
        Some p \<Rightarrow> (if policy_matches now p ctx \<and> length acc < MAX_POLICIES_PER_REQUEST then acc @ [p] else acc)
      | None \<Rightarrow> acc)"

fun scan_policies ::
  "u64 \<Rightarrow> evaluation_context \<Rightarrow> registry \<Rightarrow> nat list \<Rightarrow> policy_object list \<Rightarrow> policy_object list" where
  "scan_policies now ctx reg [] acc = acc"
| "scan_policies now ctx reg (i # is) acc =
     (let acc = add_match now ctx reg (new_system_policy (of_nat i)) acc;
          acc = (if ec_requester_id ctx \<noteq> USER_SYSTEM
                 then add_match now ctx reg (new_user_policy (ec_requester_id ctx) (of_nat i)) acc else acc)
      in scan_policies now ctx reg is acc)"

text \<open>The two nested loops of the sort.\<close>

fun sort_inner :: "nat \<Rightarrow> nat list \<Rightarrow> policy_object list \<Rightarrow> policy_object list" where
  "sort_inner i [] ps = ps"
| "sort_inner i (j # js) ps =
     sort_inner i js (if po_priority (ps ! j) > po_priority (ps ! i) then ps[i := ps ! j, j := ps ! i] else ps)"

fun sort_outer :: "nat list \<Rightarrow> policy_object list \<Rightarrow> policy_object list" where
  "sort_outer [] ps = ps"
| "sort_outer (i # is) ps = sort_outer is (sort_inner i [i + 1..<length ps] ps)"

definition sort_policies_by_priority :: "policy_object list \<Rightarrow> policy_object list" where
  "sort_policies_by_priority ps = sort_outer [0..<length ps] ps"

fun first_decision :: "policy_object list \<Rightarrow> evaluation_context \<Rightarrow> policy_result option" where
  "first_decision [] ctx = None"
| "first_decision (p # ps) ctx =
     (case evaluate_policy p ctx of Some r \<Rightarrow> Some r | None \<Rightarrow> first_decision ps ctx)"

definition evaluate :: "u64 \<Rightarrow> registry \<Rightarrow> policy_engine \<Rightarrow> evaluation_context \<Rightarrow> policy_result" where
  "evaluate now reg e ctx =
     (if \<not> pe_initialized e then ResDeny
      else case first_decision (sort_policies_by_priority (scan_policies now ctx reg [0..<1000] [])) ctx of
             Some r \<Rightarrow> r
           | None \<Rightarrow> apply_action (pe_default_action e))"

definition create_evaluation_context ::
  "u64 \<Rightarrow> registry \<Rightarrow> user_id \<Rightarrow> security_tier \<Rightarrow> suid \<Rightarrow> request_type \<Rightarrow> evaluation_context" where
  "create_evaluation_context now reg requester t target ty =
     (let (target_tier, target_owner) =
            (case reg_get reg target of
               Some ob \<Rightarrow> (Some (ob_tier ob), Some (ob_owner ob))
             | None \<Rightarrow> (None, None))
      in \<lparr>ec_requester_id = requester, ec_requester_tier = t, ec_target_suid = target,
          ec_target_tier = target_tier, ec_target_owner = target_owner,
          ec_context = \<lparr>rc_request_type = ty, rc_flags = 0, rc_app_context = 0\<rparr>,
          ec_current_time = now\<rparr>)"

section \<open>The sort\<close>

abbreviation outranks :: "policy_object \<Rightarrow> policy_object \<Rightarrow> bool" where
  "outranks p q \<equiv> po_priority q \<le> po_priority p"

lemma mset_swap': "i < length xs \<Longrightarrow> j < length xs \<Longrightarrow> mset (xs[i := xs ! j, j := xs ! i]) = mset xs"
  by (simp add: mset_swap)

lemma sort_inner_effect:
  assumes "i < a" "a \<le> length ps" "\<forall>m. i < m \<and> m < a \<longrightarrow> outranks (ps ! i) (ps ! m)"
  shows "length (sort_inner i [a..<length ps] ps) = length ps
    \<and> mset (sort_inner i [a..<length ps] ps) = mset ps
    \<and> take i (sort_inner i [a..<length ps] ps) = take i ps
    \<and> (\<forall>m. i < m \<and> m < length ps \<longrightarrow> outranks (sort_inner i [a..<length ps] ps ! i) (sort_inner i [a..<length ps] ps ! m))"
  using assms
proof (induction "length ps - a" arbitrary: a ps)
  case 0
  then show ?case by simp
next
  case (Suc d)
  then have a: "a < length ps" by simp
  let ?ps = "if po_priority (ps ! a) > po_priority (ps ! i) then ps[i := ps ! a, a := ps ! i] else ps"
  have step: "sort_inner i [a..<length ps] ps = sort_inner i [Suc a..<length ?ps] ?ps"
    using a by (simp add: upt_conv_Cons)
  have l: "length ?ps = length ps" by simp
  have inv: "outranks (?ps ! i) (?ps ! m)" if "i < m" "m < Suc a" for m
    using that Suc.prems a by (cases "m = a") (auto simp: nth_list_update intro: order.trans less_imp_le)
  have ms: "mset ?ps = mset ps" "take i ?ps = take i ps"
    using a Suc.prems(1) by (simp_all add: mset_swap)
  have "d = length ?ps - Suc a" using Suc.hyps(2) l by simp
  from Suc.hyps(1) [OF this] Suc.prems a inv ms show ?case unfolding step by (simp add: l)
qed

lemma sort_outer_effect:
  assumes "a \<le> length ps" "\<forall>k m. k < a \<and> k < m \<and> m < length ps \<longrightarrow> outranks (ps ! k) (ps ! m)"
  shows "mset (sort_outer [a..<length ps] ps) = mset ps
    \<and> (\<forall>k m. k < m \<and> m < length ps \<longrightarrow> outranks (sort_outer [a..<length ps] ps ! k) (sort_outer [a..<length ps] ps ! m))"
  using assms
proof (induction "length ps - a" arbitrary: a ps)
  case 0
  then show ?case by simp
next
  case (Suc d)
  then have a: "a < length ps" by simp
  let ?ps = "sort_inner a [a + 1..<length ps] ps"
  have step: "sort_outer [a..<length ps] ps = sort_outer [Suc a..<length ps] ?ps"
    using a by (simp add: upt_conv_Cons)
  have I: "length ?ps = length ps" "mset ?ps = mset ps" "take a ?ps = take a ps"
    "\<forall>m. a < m \<and> m < length ps \<longrightarrow> outranks (?ps ! a) (?ps ! m)"
  proof -
    have "\<forall>m. a < m \<and> m < a + 1 \<longrightarrow> outranks (ps ! a) (ps ! m)" by auto
    from sort_inner_effect [OF _ _ this] a show "length ?ps = length ps" "mset ?ps = mset ps" "take a ?ps = take a ps"
      "\<forall>m. a < m \<and> m < length ps \<longrightarrow> outranks (?ps ! a) (?ps ! m)" by simp_all
  qed
  have pre: "?ps ! k = ps ! k" if "k < a" for k using I(3) that by (metis nth_take)
  have suf: "set (drop a ?ps) = set (drop a ps)"
    using I(2,3) by (metis append_take_drop_id mset_append mset_eq_setD add_left_cancel)
  have "outranks (?ps ! k) (?ps ! m)" if "k < Suc a" "k < m" "m < length ?ps" for k m
  proof (cases "k = a")
    case True
    then show ?thesis using I(1,4) that by simp
  next
    case False
    then have k: "k < a" using that by simp
    show ?thesis
    proof (cases "m < a")
      case True
      then show ?thesis using pre k Suc.prems(2) that I(1) by simp
    next
      case False
      have "?ps ! m = drop a ?ps ! (m - a)" using False that by simp
      then have "?ps ! m \<in> set (drop a ?ps)" using False that by (metis diff_less_mono length_drop not_less nth_mem)
      then obtain m' where "m' < length (drop a ps)" "drop a ps ! m' = ?ps ! m"
        unfolding suf in_set_conv_nth by blast
      then have "a + m' < length ps" "?ps ! m = ps ! (a + m')" by simp_all
      then show ?thesis using Suc.prems(2) [rule_format, of k "a + m'"] k pre by simp
    qed
  qed
  then have IH: "mset (sort_outer [Suc a..<length ?ps] ?ps) = mset ?ps
      \<and> (\<forall>k m. k < m \<and> m < length ?ps \<longrightarrow> outranks (sort_outer [Suc a..<length ?ps] ?ps ! k) (sort_outer [Suc a..<length ?ps] ?ps ! m))"
    using Suc.hyps(2) I(1) a by (intro Suc.hyps(1)) auto
  then show ?case unfolding step I(1,2) .
qed

lemma sort_policies_effect:
  "mset (sort_policies_by_priority ps) = mset ps" "sorted_wrt outranks (sort_policies_by_priority ps)"
proof -
  have E: "mset (sort_policies_by_priority ps) = mset ps"
    "\<forall>k m. k < m \<and> m < length ps \<longrightarrow> outranks (sort_policies_by_priority ps ! k) (sort_policies_by_priority ps ! m)"
    using sort_outer_effect [of 0 ps] by (simp_all add: sort_policies_by_priority_def)
  then show "mset (sort_policies_by_priority ps) = mset ps" by blast
  have "length (sort_policies_by_priority ps) = length ps" using E(1) by (metis size_mset)
  with E(2) show "sorted_wrt outranks (sort_policies_by_priority ps)" by (simp add: sorted_wrt_iff_nth_less)
qed

lemma set_sort_policies [simp]: "set (sort_policies_by_priority ps) = set ps"
  using sort_policies_effect(1) by (metis set_mset_mset)

section \<open>Decisions\<close>

lemma first_decision_Some:
  assumes "first_decision ps ctx = Some r" "sorted_wrt outranks ps"
  shows "\<exists>p \<in> set ps. evaluate_policy p ctx = Some r
    \<and> (\<forall>q \<in> set ps. po_priority q > po_priority p \<longrightarrow> evaluate_policy q ctx = None)"
  using assms
proof (induction ps)
  case (Cons p ps)
  show ?case
  proof (cases "evaluate_policy p ctx")
    case None
    with Cons obtain p' where "p' \<in> set ps" "evaluate_policy p' ctx = Some r"
      "\<forall>q \<in> set ps. po_priority q > po_priority p' \<longrightarrow> evaluate_policy q ctx = None" by auto
    with None show ?thesis by auto
  next
    case (Some r')
    with Cons.prems show ?thesis by (auto simp: not_less [symmetric])
  qed
qed simp

lemma first_decision_None: "first_decision ps ctx = None \<longleftrightarrow> (\<forall>p \<in> set ps. evaluate_policy p ctx = None)"
  by (induction ps) (auto split: option.splits)

text \<open>The identifiers a scan looks at.\<close>

definition consulted :: "evaluation_context \<Rightarrow> nat set \<Rightarrow> suid set" where
  "consulted ctx I = (\<lambda>i. new_system_policy (of_nat i)) ` I
     \<union> (if ec_requester_id ctx = USER_SYSTEM then {} else (\<lambda>i. new_user_policy (ec_requester_id ctx) (of_nat i)) ` I)"

lemma add_match_cases:
  "add_match now ctx reg s acc = acc
   \<or> (\<exists>p. stored_policy reg s = Some p \<and> policy_matches now p ctx \<and> length acc < 32 \<and> add_match now ctx reg s acc = acc @ [p])"
  by (auto simp: add_match_def MAX_POLICIES_PER_REQUEST_def split: option.splits)

lemma scan_sound:
  assumes "p \<in> set (scan_policies now ctx reg is acc)"
  shows "p \<in> set acc \<or> policy_matches now p ctx \<and> (\<exists>s \<in> consulted ctx (set is). stored_policy reg s = Some p)"
  using assms
proof (induction "is" arbitrary: acc)
  case (Cons i "is")
  have c: "q \<in> set acc \<or> policy_matches now q ctx \<and> stored_policy reg s = Some q"
    if "q \<in> set (add_match now ctx reg s acc)" for q s acc
    using add_match_cases [of now ctx reg s acc] that by auto
  let ?a = "add_match now ctx reg (new_system_policy (of_nat i)) acc"
  let ?b = "if ec_requester_id ctx \<noteq> USER_SYSTEM then add_match now ctx reg (new_user_policy (ec_requester_id ctx) (of_nat i)) ?a else ?a"
  have "p \<in> set ?b \<or> policy_matches now p ctx \<and> (\<exists>s \<in> consulted ctx (set is). stored_policy reg s = Some p)"
    using Cons.IH [of ?b] Cons.prems by (simp add: Let_def)
  moreover have "p \<in> set acc \<or> policy_matches now p ctx \<and> (\<exists>s \<in> consulted ctx {i}. stored_policy reg s = Some p)" if "p \<in> set ?b"
    using that c [of p _ ?a] c [of p _ acc] by (auto simp: consulted_def split: if_splits)
  ultimately show ?case by (auto simp: consulted_def split: if_splits)
qed simp

lemma add_match_prefix: "\<exists>zs. add_match now ctx reg s acc = acc @ zs"
  using add_match_cases [of now ctx reg s acc] by auto

lemma scan_prefix: "\<exists>zs. scan_policies now ctx reg is acc = acc @ zs"
proof (induction "is" arbitrary: acc)
  case (Cons i "is")
  let ?a = "add_match now ctx reg (new_system_policy (of_nat i)) acc"
  let ?b = "if ec_requester_id ctx \<noteq> USER_SYSTEM then add_match now ctx reg (new_user_policy (ec_requester_id ctx) (of_nat i)) ?a else ?a"
  obtain xs where "?a = acc @ xs" using add_match_prefix by blast
  moreover obtain ys where "?b = ?a @ ys"
    using add_match_prefix [of now ctx reg "new_user_policy (ec_requester_id ctx) (of_nat i)" ?a]
    by (cases "ec_requester_id ctx = USER_SYSTEM") auto
  moreover obtain zs where "scan_policies now ctx reg is ?b = ?b @ zs" using Cons.IH by blast
  ultimately have "scan_policies now ctx reg is ?b = acc @ xs @ ys @ zs" by simp
  moreover have "scan_policies now ctx reg (i # is) acc = scan_policies now ctx reg is ?b" by (simp add: Let_def)
  ultimately show ?case by simp
qed simp

text \<open>As long as the table is not full, every policy that matches is in it.\<close>

lemma scan_complete:
  assumes "length (scan_policies now ctx reg is acc) < 32" "s \<in> consulted ctx (set is)"
    "stored_policy reg s = Some p" "policy_matches now p ctx"
  shows "p \<in> set (scan_policies now ctx reg is acc)"
  using assms(1,2)
proof (induction "is" arbitrary: acc)
  case (Cons i "is")
  let ?a = "add_match now ctx reg (new_system_policy (of_nat i)) acc"
  let ?b = "if ec_requester_id ctx \<noteq> USER_SYSTEM then add_match now ctx reg (new_user_policy (ec_requester_id ctx) (of_nat i)) ?a else ?a"
  have step: "scan_policies now ctx reg (i # is) acc = scan_policies now ctx reg is ?b" by (simp add: Let_def)
  obtain zs where zs: "scan_policies now ctx reg is ?b = ?b @ zs" using scan_prefix by blast
  have len: "length ?b < 32" using Cons.prems(1) unfolding step zs by simp
  obtain ys where ys: "?b = ?a @ ys"
  proof (cases "ec_requester_id ctx = USER_SYSTEM")
    case False
    then show ?thesis using that add_match_prefix [of now ctx reg "new_user_policy (ec_requester_id ctx) (of_nat i)" ?a] by auto
  qed (use that in simp)
  have la: "length ?a < 32" using len unfolding ys by simp
  have la0: "length acc < 32" using la add_match_prefix [of now ctx reg "new_system_policy (of_nat i)" acc] by auto
  have hit: "p \<in> set (add_match now ctx reg s acc)" if "length acc < 32" for acc
    using that assms(3,4) by (simp add: add_match_def MAX_POLICIES_PER_REQUEST_def)
  show ?case
  proof (cases "s \<in> consulted ctx (set is)")
    case True
    then show ?thesis unfolding step using Cons.IH [of ?b] Cons.prems(1) unfolding step by blast
  next
    case False
    then have "s = new_system_policy (of_nat i) \<or> ec_requester_id ctx \<noteq> USER_SYSTEM \<and> s = new_user_policy (ec_requester_id ctx) (of_nat i)"
      using Cons.prems(2) by (auto simp: consulted_def split: if_splits)
    then have "p \<in> set ?b"
    proof
      assume "s = new_system_policy (of_nat i)"
      then have "p \<in> set ?a" using hit [OF la0] by simp
      then show ?thesis unfolding ys by simp
    next
      assume "ec_requester_id ctx \<noteq> USER_SYSTEM \<and> s = new_user_policy (ec_requester_id ctx) (of_nat i)"
      then show ?thesis using hit [OF la] by simp
    qed
    then show ?thesis unfolding step zs by simp
  qed
qed (simp add: consulted_def split: if_splits)

section \<open>Properties\<close>

text \<open>
  The sort of the policy engine, a pair of nested loops that exchange entries, terminates with a
  permutation of the policies in which every policy has at least the priority of those after it.
\<close>

theorem sort_policies_correct:
  "mset (sort_policies_by_priority ps) = mset ps
   \<and> sorted_wrt (\<lambda>p q. po_priority q \<le> po_priority p) (sort_policies_by_priority ps)"
  using sort_policies_effect by blast

text \<open>
  (C27) Policy evaluation. An engine that is not initialised denies. Otherwise the answer is the
  decision of one of the applicable policies such that every applicable policy of higher priority is
  silent; when all are silent it is the default action. Applicable are only active policies stored
  under a system policy identifier or one of the requester's own user policy identifiers (numbers below
  1000), so no other user's policies have any influence; and unless 32 policies were found, none of
  them is missed.
\<close>

theorem evaluate_by_priority:
  assumes "scan_policies now ctx reg [0..<1000] [] = ps"
  shows "evaluate now reg e ctx =
      (if \<not> pe_initialized e then ResDeny
       else case first_decision (sort_policies_by_priority ps) ctx of
              Some r \<Rightarrow> r | None \<Rightarrow> apply_action (pe_default_action e))
    \<and> (\<forall>r. first_decision (sort_policies_by_priority ps) ctx = Some r \<longrightarrow>
         (\<exists>p \<in> set ps. evaluate_policy p ctx = Some r
            \<and> (\<forall>q \<in> set ps. po_priority q > po_priority p \<longrightarrow> evaluate_policy q ctx = None)))
    \<and> (first_decision (sort_policies_by_priority ps) ctx = None \<longleftrightarrow> (\<forall>p \<in> set ps. evaluate_policy p ctx = None))
    \<and> (\<forall>p \<in> set ps. policy_matches now p ctx
         \<and> (\<exists>s. stored_policy reg s = Some p \<and> (is_system_policy s \<or> user_policy_owner s = Some (ec_requester_id ctx))))
    \<and> (length ps < 32 \<longrightarrow> (\<forall>s \<in> consulted ctx {0..<1000}. \<forall>p. stored_policy reg s = Some p \<and> policy_matches now p ctx \<longrightarrow> p \<in> set ps))"
proof (intro conjI)
  show "\<forall>r. first_decision (sort_policies_by_priority ps) ctx = Some r \<longrightarrow>
         (\<exists>p \<in> set ps. evaluate_policy p ctx = Some r
            \<and> (\<forall>q \<in> set ps. po_priority q > po_priority p \<longrightarrow> evaluate_policy q ctx = None))"
    using first_decision_Some [OF _ sort_policies_effect(2) [of ps]] by simp
  have own: "is_system_policy s \<or> user_policy_owner s = Some (ec_requester_id ctx)" if "s \<in> consulted ctx I" for s I
    using that policy_suid_facts by (auto simp: consulted_def split: if_splits)
  show "\<forall>p \<in> set ps. policy_matches now p ctx
         \<and> (\<exists>s. stored_policy reg s = Some p \<and> (is_system_policy s \<or> user_policy_owner s = Some (ec_requester_id ctx)))"
    using scan_sound [of _ now ctx reg "[0..<1000]" "[]"] own assms by fastforce
  show "length ps < 32 \<longrightarrow> (\<forall>s \<in> consulted ctx {0..<1000}. \<forall>p. stored_policy reg s = Some p \<and> policy_matches now p ctx \<longrightarrow> p \<in> set ps)"
    using scan_complete [of now ctx reg "[0..<1000]" "[]"] assms by auto
qed (simp_all add: evaluate_def assms first_decision_None)

theorem evaluate_by_priority_witness:
  "\<exists>ctx. scan_policies 5 ctx reg_new [0..<1000] [] = []
     \<and> evaluate 5 reg_new (engine_init engine_new) ctx = ResAllow Public"
proof -
  let ?ctx = "create_evaluation_context 5 reg_new 10 Public (suid_new 1 2) DirectAccess"
  have "stored_policy reg_new s = None" for s
    using reg_get_map [OF reg_inv_new(1)] by (simp add: stored_policy_def reg_inv_new(2))
  then have "scan_policies 5 ?ctx reg_new is [] = []" for "is" by (induction "is") (simp_all add: add_match_def)
  then have s: "scan_policies 5 ?ctx reg_new [0..<1000] [] = []" .
  then show ?thesis using evaluate_by_priority [OF s, of "engine_init engine_new"]
    by (intro exI [of _ ?ctx]) (simp add: engine_init_def sort_policies_by_priority_def)
qed

end
