(* ===== verification/Proc_Caps.thy ===== *)
theory Proc_Caps
  imports Tiers
begin

text \<open>
  Process capabilities: \<^verbatim>\<open>src/kernel-core/src/process/capability.rs\<close>, a set of rights in a 64-bit
  word. The checks of the running process are in the theory \<open>Processes\<close>.
\<close>

section \<open>Definitions\<close>

datatype proc_capability =
  MemAlloc | MemFree | MemMap | MemDma | MemKernel
| ProcSpawn | ProcKill | ProcPriority | ProcDebug | ProcSetCap
| FileRead | FileWrite | FileExec | FileCreate | FileDelete | FileChmod | FileBypass
| DevConsole | DevBlock | DevFramebuffer | DevNetwork | DevAll
| SysReboot | SysTime | SysModule | SysMount | SysRawIo
| SemQuery | SemCreate | SemModify | SemDelete
| SemTierPublic | SemTierInternal | SemTierSensitive | SemTierSecret

text \<open>The discriminants.\<close>

fun cap_number :: "proc_capability \<Rightarrow> nat" where
  "cap_number MemAlloc = 0" | "cap_number MemFree = 1" | "cap_number MemMap = 2"
| "cap_number MemDma = 3" | "cap_number MemKernel = 4"
| "cap_number ProcSpawn = 8" | "cap_number ProcKill = 9" | "cap_number ProcPriority = 10"
| "cap_number ProcDebug = 11" | "cap_number ProcSetCap = 12"
| "cap_number FileRead = 16" | "cap_number FileWrite = 17" | "cap_number FileExec = 18"
| "cap_number FileCreate = 19" | "cap_number FileDelete = 20" | "cap_number FileChmod = 21"
| "cap_number FileBypass = 22"
| "cap_number DevConsole = 24" | "cap_number DevBlock = 25" | "cap_number DevFramebuffer = 26"
| "cap_number DevNetwork = 27" | "cap_number DevAll = 28"
| "cap_number SysReboot = 32" | "cap_number SysTime = 33" | "cap_number SysModule = 34"
| "cap_number SysMount = 35" | "cap_number SysRawIo = 36"
| "cap_number SemQuery = 40" | "cap_number SemCreate = 41" | "cap_number SemModify = 42"
| "cap_number SemDelete = 43"
| "cap_number SemTierPublic = 44" | "cap_number SemTierInternal = 45"
| "cap_number SemTierSensitive = 46" | "cap_number SemTierSecret = 47"

definition cap_bit :: "proc_capability \<Rightarrow> u64" where
  "cap_bit c = push_bit (cap_number c) 1"

definition category_mask :: "u32 \<Rightarrow> u64" where
  "category_mask category = push_bit (unat (category * 8)) 0xFF"

record proc_caps =
  pcs_bits :: u64

definition pcs_empty :: proc_caps where "pcs_empty = \<lparr>pcs_bits = 0\<rparr>"
definition pcs_all :: proc_caps where "pcs_all = \<lparr>pcs_bits = NOT 0\<rparr>"

definition pcs_has :: "proc_caps \<Rightarrow> proc_capability \<Rightarrow> bool" where
  "pcs_has s c \<longleftrightarrow> pcs_bits s AND push_bit (cap_number c) 1 \<noteq> 0"

definition pcs_add :: "proc_capability \<Rightarrow> proc_caps \<Rightarrow> proc_caps" where
  "pcs_add c s = s\<lparr>pcs_bits := pcs_bits s OR push_bit (cap_number c) 1\<rparr>"

definition pcs_remove :: "proc_capability \<Rightarrow> proc_caps \<Rightarrow> proc_caps" where
  "pcs_remove c s = s\<lparr>pcs_bits := pcs_bits s AND NOT (push_bit (cap_number c) 1)\<rparr>"

definition pcs_contains :: "proc_caps \<Rightarrow> proc_caps \<Rightarrow> bool" where
  "pcs_contains s other \<longleftrightarrow> pcs_bits s AND pcs_bits other = pcs_bits other"

definition pcs_intersect :: "proc_caps \<Rightarrow> proc_caps \<Rightarrow> proc_caps" where
  "pcs_intersect s other = \<lparr>pcs_bits = pcs_bits s AND pcs_bits other\<rparr>"

definition pcs_union :: "proc_caps \<Rightarrow> proc_caps \<Rightarrow> proc_caps" where
  "pcs_union s other = \<lparr>pcs_bits = pcs_bits s OR pcs_bits other\<rparr>"

definition pcs_from_bits :: "u64 \<Rightarrow> proc_caps" where
  "pcs_from_bits bits = \<lparr>pcs_bits = bits\<rparr>"

definition default_user :: proc_caps where
  "default_user = fold pcs_add
     [MemAlloc, MemFree, ProcSpawn, FileRead, FileWrite, FileExec, FileCreate, DevConsole, SemQuery, SemTierPublic]
     pcs_empty"

definition pcs_minimal :: proc_caps where
  "pcs_minimal = fold pcs_add [MemAlloc, MemFree, FileRead, DevConsole, SemQuery, SemTierPublic] pcs_empty"

definition inheritable :: proc_caps where
  "inheritable = pcs_from_bits
     (pcs_bits pcs_all AND NOT (cap_bit MemKernel) AND NOT (cap_bit ProcSetCap) AND NOT (cap_bit FileBypass)
        AND NOT (cap_bit DevAll) AND NOT (cap_bit SysRawIo) AND NOT (cap_bit SysModule))"

definition inherit :: "proc_caps \<Rightarrow> proc_caps" where
  "inherit s = pcs_intersect s inheritable"

text \<open>\<^verbatim>\<open>u64::count_ones\<close>.\<close>

definition pcs_count :: "proc_caps \<Rightarrow> nat" where
  "pcs_count s = length (filter (bit (pcs_bits s)) [0..<64])"

datatype cap_error = MissingCapability proc_capability | NotPermitted

section \<open>The bit set as a set\<close>

definition cap_set :: "proc_caps \<Rightarrow> proc_capability set" where
  "cap_set s = {c. pcs_has s c}"

definition dangerous :: "proc_capability set" where
  "dangerous = {MemKernel, ProcSetCap, FileBypass, DevAll, SysRawIo, SysModule}"

lemma cap_number_less [simp]: "cap_number c < 64"
  by (cases c) simp_all

lemma cap_number_inj [simp]: "cap_number a = cap_number b \<longleftrightarrow> a = b"
  by (cases a; simp; cases b; simp)

lemma and_single_bit: "w AND push_bit n 1 \<noteq> 0 \<longleftrightarrow> bit w n" for w :: u64
  using and_exp_eq_0_iff_not_bit [of w n] by (simp add: push_bit_of_1)

lemma has_iff_bit: "pcs_has s c \<longleftrightarrow> bit (pcs_bits s) (cap_number c)"
  by (simp only: pcs_has_def and_single_bit)

lemma bit_cap [simp]: "bit (2 ^ cap_number a :: u64) (cap_number b) \<longleftrightarrow> a = b"
  using cap_number_less [of b] by (auto simp: bit_exp_iff possible_bit_def)

lemma bit_cap_bit [simp]: "bit (cap_bit a) (cap_number b) \<longleftrightarrow> a = b"
  by (simp add: cap_bit_def)

lemma cap_set_ops:
  "cap_set pcs_empty = {}" "cap_set pcs_all = UNIV"
  "cap_set (pcs_add c s) = insert c (cap_set s)" "cap_set (pcs_remove c s) = cap_set s - {c}"
  "cap_set (pcs_intersect s t) = cap_set s \<inter> cap_set t" "cap_set (pcs_union s t) = cap_set s \<union> cap_set t"
  by (auto simp: cap_set_def has_iff_bit pcs_empty_def pcs_all_def pcs_add_def pcs_remove_def pcs_intersect_def
      pcs_union_def bit_or_iff bit_and_iff bit_not_iff)

lemma bit_not_cap: "bit (NOT (cap_bit a)) (cap_number c) \<longleftrightarrow> a \<noteq> c"
  using cap_number_less [of c] by (simp add: bit_not_iff)

lemma cap_set_inheritable: "cap_set inheritable = - dangerous"
proof -
  have "bit (pcs_bits pcs_all) (cap_number c)" for c by (simp add: pcs_all_def)
  then have "pcs_has inheritable c \<longleftrightarrow> c \<notin> dangerous" for c
    by (auto simp only: has_iff_bit inheritable_def pcs_from_bits_def proc_caps.simps bit_and_iff bit_not_cap dangerous_def insert_iff empty_iff)
  then show ?thesis by (auto simp: cap_set_def)
qed

lemma cap_set_inherit: "cap_set (inherit s) = cap_set s - dangerous"
  by (simp add: inherit_def cap_set_ops cap_set_inheritable Diff_eq)

lemma cap_set_minimal: "cap_set pcs_minimal = {MemAlloc, MemFree, FileRead, DevConsole, SemQuery, SemTierPublic}"
  by (auto simp: pcs_minimal_def cap_set_ops)

lemma cap_set_default_user:
  "cap_set default_user = {MemAlloc, MemFree, ProcSpawn, FileRead, FileWrite, FileExec, FileCreate, DevConsole, SemQuery, SemTierPublic}"
  by (auto simp: default_user_def cap_set_ops)

lemma contains_subset: "pcs_contains s t \<Longrightarrow> cap_set t \<subseteq> cap_set s"
  by (auto simp: pcs_contains_def cap_set_def has_iff_bit) (metis bit_and_iff)

end
