(* ===== verification/Scheduler.thy ===== *)
theory Scheduler
  imports Pipe
begin

text \<open>
  The platform-independent scheduler: \<^verbatim>\<open>src/kernel-core/src/scheduler/mod.rs\<close>. The static task
  table and the atomics are one record; the clock (\<^verbatim>\<open>platform::ticks()\<close>) and the pipe table are
  arguments of \<open>pick_next\<close>. Slots are natural numbers; an index past the table, where the Rust code
  panics, is the value \<open>None\<close>. The theory shows that exactly the current task runs, which
  blocked tasks a tick wakes, that the choice is round robin, and that a ready task is picked within
  sixteen ticks.
\<close>

section \<open>Definitions: tasks\<close>

definition MAX_TASKS :: nat where "MAX_TASKS = 16"
definition SCHEDULER_TICK_HZ :: u64 where "SCHEDULER_TICK_HZ = 62"
definition TASK_STACK_SIZE :: nat where "TASK_STACK_SIZE = 256 * 1024"

datatype task_state = TaskEmpty | Ready | Running | Blocked | Exited

datatype block_reason =
    NoReason | Sleep | PipeRead nat | PipeWrite nat | WaitChild | Futex u64 | JoinTask nat

record task_info =
  ti_id :: u64
  ti_state :: task_state
  ti_name :: string
  ti_run_count :: u64
  ti_max_tier :: u8
  ti_is_kernel :: bool
  ti_wake_at :: u64
  ti_block_reason :: block_reason
  ti_user_id :: u8
  ti_exit_code :: u64

definition ti_empty :: task_info where
  "ti_empty = \<lparr>ti_id = 0, ti_state = TaskEmpty, ti_name = '''', ti_run_count = 0, ti_max_tier = 0,
     ti_is_kernel = True, ti_wake_at = 0, ti_block_reason = NoReason, ti_user_id = 255,
     ti_exit_code = 0\<rparr>"

record scheduler =
  sc_tasks :: "task_info list"
  sc_current :: nat
  sc_next_id :: u64
  sc_switches :: u64
  sc_initialized :: bool

definition sched_boot :: scheduler where
  "sched_boot = \<lparr>sc_tasks = replicate MAX_TASKS ti_empty, sc_current = 0, sc_next_id = 1,
     sc_switches = 0, sc_initialized = False\<rparr>"

abbreviation st_of :: "scheduler \<Rightarrow> nat \<Rightarrow> task_state" where
  "st_of s i \<equiv> ti_state (sc_tasks s ! i)"

text \<open>A write to one field of slot \<open>i\<close>.\<close>

definition upd_task :: "nat \<Rightarrow> (task_info \<Rightarrow> task_info) \<Rightarrow> scheduler \<Rightarrow> scheduler" where
  "upd_task i f s = s\<lparr>sc_tasks := (sc_tasks s)[i := f (sc_tasks s ! i)]\<rparr>"

definition current_task :: "scheduler \<Rightarrow> task_info" where
  "current_task s = sc_tasks s ! sc_current s"

definition current_task_max_tier :: "scheduler \<Rightarrow> u8" where
  "current_task_max_tier s = ti_max_tier (current_task s)"

definition current_task_is_user :: "scheduler \<Rightarrow> bool" where
  "current_task_is_user s \<longleftrightarrow> \<not> ti_is_kernel (current_task s)"

definition current_user_id :: "scheduler \<Rightarrow> u8" where
  "current_user_id s = ti_user_id (current_task s)"

definition set_user_id :: "nat \<Rightarrow> u8 \<Rightarrow> scheduler \<Rightarrow> scheduler option" where
  "set_user_id slot uid s =
     (if slot < MAX_TASKS then Some (upd_task slot (\<lambda>t. t\<lparr>ti_user_id := uid\<rparr>) s) else None)"

definition set_current_user_id :: "u8 \<Rightarrow> scheduler \<Rightarrow> scheduler" where
  "set_current_user_id uid s = upd_task (sc_current s) (\<lambda>t. t\<lparr>ti_user_id := uid\<rparr>) s"

section \<open>Definitions: picking the next task\<close>

text \<open>The condition under which a blocked task wakes by itself.\<close>

definition should_wake :: "u64 \<Rightarrow> pipes \<Rightarrow> task_info list \<Rightarrow> task_info \<Rightarrow> bool" where
  "should_wake now ps ts t =
     (case ti_block_reason t of
        Sleep \<Rightarrow> ti_wake_at t > 0 \<and> now \<ge> ti_wake_at t
      | PipeRead p \<Rightarrow> has_data ps p
      | PipeWrite p \<Rightarrow> has_space ps p
      | JoinTask target \<Rightarrow> target < MAX_TASKS \<and> ti_state (ts ! target) = Exited
      | _ \<Rightarrow> False)"

definition wake :: "task_info \<Rightarrow> task_info" where
  "wake t = t\<lparr>ti_state := Ready, ti_wake_at := 0, ti_block_reason := NoReason\<rparr>"

fun wake_scan :: "u64 \<Rightarrow> pipes \<Rightarrow> nat list \<Rightarrow> task_info list \<Rightarrow> task_info list" where
  "wake_scan now ps [] ts = ts"
| "wake_scan now ps (i # is) ts =
     wake_scan now ps is
       (if ti_state (ts ! i) \<noteq> Blocked then ts
        else if should_wake now ps ts (ts ! i) then ts[i := wake (ts ! i)] else ts)"

text \<open>The round-robin search, at most \<open>k\<close> slots on.\<close>

fun next_ready :: "nat \<Rightarrow> nat \<Rightarrow> task_info list \<Rightarrow> nat" where
  "next_ready 0 nxt ts = nxt"
| "next_ready (Suc k) nxt ts =
     (let nxt = (nxt + 1) mod MAX_TASKS
      in if ti_state (ts ! nxt) = Ready then nxt else next_ready k nxt ts)"

text \<open>The first half of \<^verbatim>\<open>pick_next\<close>: wake who can be woken, then the current task gives up the processor.\<close>

definition after_wake :: "u64 \<Rightarrow> pipes \<Rightarrow> scheduler \<Rightarrow> scheduler" where
  "after_wake now ps s =
     (let s = s\<lparr>sc_tasks := wake_scan now ps [0..<MAX_TASKS] (sc_tasks s)\<rparr>
      in if st_of s (sc_current s) = Running
         then upd_task (sc_current s) (\<lambda>t. t\<lparr>ti_state := Ready\<rparr>) s else s)"

text \<open>The choice: the next ready slot, else the current one, else slot 0.\<close>

definition select_next :: "nat \<Rightarrow> task_info list \<Rightarrow> nat" where
  "select_next current ts =
     (let nxt = next_ready MAX_TASKS current ts
      in if ti_state (ts ! nxt) \<noteq> Ready
         then (if ti_state (ts ! current) = Ready then current else 0) else nxt)"

definition pick_next :: "u64 \<Rightarrow> pipes \<Rightarrow> scheduler \<Rightarrow> scheduler \<times> (nat \<times> nat) option" where
  "pick_next now ps s =
     (if \<not> sc_initialized s then (s, None)
      else
        let current = sc_current s;
            s = after_wake now ps s;
            nxt = select_next current (sc_tasks s)
        in if nxt = current \<and> st_of s current = Ready
           then (upd_task current (\<lambda>t. t\<lparr>ti_state := Running\<rparr>) s, None)
           else ((upd_task nxt (\<lambda>t. t\<lparr>ti_state := Running, ti_run_count := ti_run_count t + 1\<rparr>) s)
                   \<lparr>sc_current := nxt, sc_switches := sc_switches s + 1\<rparr>, Some (current, nxt)))"

section \<open>Definitions: slots\<close>

definition init_core :: "scheduler \<Rightarrow> scheduler" where
  "init_core s =
     s\<lparr>sc_tasks := (sc_tasks s)[0 := \<lparr>ti_id = 0, ti_state = Running, ti_name = ''kernel'',
         ti_run_count = 0, ti_max_tier = 3, ti_is_kernel = True, ti_wake_at = 0,
         ti_block_reason = NoReason, ti_user_id = 0, ti_exit_code = 0\<rparr>],
       sc_current := 0, sc_initialized := True\<rparr>"

definition reusable :: "task_info \<Rightarrow> bool" where
  "reusable t \<longleftrightarrow> ti_state t = Exited \<or> ti_state t = TaskEmpty"

text \<open>
  The slot allocated, and the slots handed to \<^verbatim>\<open>Platform::reap_slot\<close> (the platform frees the address
  space of the previous tenant).
\<close>

definition alloc_task_slot_with_user ::
  "string \<Rightarrow> u8 \<Rightarrow> bool \<Rightarrow> u8 \<Rightarrow> scheduler \<Rightarrow> scheduler \<times> nat option \<times> nat list" where
  "alloc_task_slot_with_user name max_tier is_kernel uid s =
     (case position reusable (drop 1 (sc_tasks s)) of
        None \<Rightarrow> (s, None, [])
      | Some k \<Rightarrow>
          let i = k + 1
          in (upd_task i (\<lambda>_. \<lparr>ti_id = sc_next_id s, ti_state = Blocked, ti_name = name,
                  ti_run_count = 0, ti_max_tier = max_tier, ti_is_kernel = is_kernel, ti_wake_at = 0,
                  ti_block_reason = NoReason, ti_user_id = uid, ti_exit_code = 0\<rparr>) s
                \<lparr>sc_next_id := sc_next_id s + 1\<rparr>,
              Some i, if st_of s i = Exited then [i] else []))"

definition alloc_task_slot ::
  "string \<Rightarrow> u8 \<Rightarrow> bool \<Rightarrow> scheduler \<Rightarrow> scheduler \<times> nat option \<times> nat list" where
  "alloc_task_slot name max_tier is_kernel s =
     alloc_task_slot_with_user name max_tier is_kernel (current_user_id s) s"

definition set_slot_user_id :: "nat \<Rightarrow> u8 \<Rightarrow> scheduler \<Rightarrow> scheduler" where
  "set_slot_user_id slot uid s =
     (if slot \<ge> MAX_TASKS then s else upd_task slot (\<lambda>t. t\<lparr>ti_user_id := uid\<rparr>) s)"

definition mark_ready :: "nat \<Rightarrow> scheduler \<Rightarrow> scheduler" where
  "mark_ready slot s =
     (if slot \<ge> MAX_TASKS then s
      else if st_of s slot = Blocked \<and> ti_block_reason (sc_tasks s ! slot) = NoReason
      then upd_task slot (\<lambda>t. t\<lparr>ti_state := Ready\<rparr>) s else s)"

definition sched_stats :: "scheduler \<Rightarrow> u64 \<times> nat" where
  "sched_stats s = (sc_switches s, sc_current s)"

definition get_task_state :: "nat \<Rightarrow> scheduler \<Rightarrow> task_state" where
  "get_task_state slot s = (if slot \<ge> MAX_TASKS then TaskEmpty else st_of s slot)"

definition task_name :: "nat \<Rightarrow> scheduler \<Rightarrow> string" where
  "task_name slot s = (if slot \<ge> MAX_TASKS then '''' else ti_name (sc_tasks s ! slot))"

definition task_run_count :: "nat \<Rightarrow> scheduler \<Rightarrow> u64" where
  "task_run_count slot s = (if slot \<ge> MAX_TASKS then 0 else ti_run_count (sc_tasks s ! slot))"

definition task_block_reason :: "nat \<Rightarrow> scheduler \<Rightarrow> block_reason" where
  "task_block_reason slot s =
     (if slot \<ge> MAX_TASKS then NoReason else ti_block_reason (sc_tasks s ! slot))"

definition task_exit_code :: "nat \<Rightarrow> scheduler \<Rightarrow> u64" where
  "task_exit_code slot s = (if slot \<ge> MAX_TASKS then 0 else ti_exit_code (sc_tasks s ! slot))"

section \<open>Definitions: blocking and waking\<close>

definition futex_block :: "u64 \<Rightarrow> scheduler \<Rightarrow> scheduler" where
  "futex_block addr s =
     upd_task (sc_current s) (\<lambda>t. t\<lparr>ti_state := Blocked, ti_block_reason := Futex addr, ti_wake_at := 0\<rparr>) s"

definition join_block :: "nat \<Rightarrow> scheduler \<Rightarrow> scheduler" where
  "join_block target s =
     upd_task (sc_current s) (\<lambda>t. t\<lparr>ti_state := Blocked, ti_block_reason := JoinTask target, ti_wake_at := 0\<rparr>) s"

definition set_current_exit_code :: "u64 \<Rightarrow> scheduler \<Rightarrow> scheduler" where
  "set_current_exit_code code s = upd_task (sc_current s) (\<lambda>t. t\<lparr>ti_exit_code := code\<rparr>) s"

text \<open>The loop of \<^verbatim>\<open>futex_wake\<close> over the slots \<open>is\<close>, with \<open>woken\<close> so far.\<close>

fun futex_scan :: "u64 \<Rightarrow> nat \<Rightarrow> nat list \<Rightarrow> nat \<Rightarrow> task_info list \<Rightarrow> task_info list \<times> nat" where
  "futex_scan addr limit [] woken ts = (ts, woken)"
| "futex_scan addr limit (i # is) woken ts =
     (if ti_state (ts ! i) \<noteq> Blocked then futex_scan addr limit is woken ts
      else if ti_block_reason (ts ! i) \<noteq> Futex addr then futex_scan addr limit is woken ts
      else let ts = ts[i := (ts ! i)\<lparr>ti_state := Ready, ti_block_reason := NoReason\<rparr>]
           in if woken + 1 \<ge> limit then (ts, woken + 1) else futex_scan addr limit is (woken + 1) ts)"

definition futex_wake :: "u64 \<Rightarrow> nat \<Rightarrow> scheduler \<Rightarrow> scheduler \<times> nat" where
  "futex_wake addr limit s =
     (if limit = 0 then (s, 0)
      else case futex_scan addr limit [0..<MAX_TASKS] 0 (sc_tasks s) of
             (ts, woken) \<Rightarrow> (s\<lparr>sc_tasks := ts\<rparr>, woken))"

section \<open>Definitions: the transitions of the system calls\<close>

text \<open>
  The writes to the task table made by the handlers of \<^verbatim>\<open>syscall/mod.rs\<close>: \<^verbatim>\<open>handle_sleep\<close>,
  the full-pipe branch of \<^verbatim>\<open>pipe_write_blocking\<close>, \<^verbatim>\<open>handle_exit\<close> (exit code, then the state)
  and the task half of \<^verbatim>\<open>handle_kill\<close>.
\<close>

definition sleep_until :: "u64 \<Rightarrow> scheduler \<Rightarrow> scheduler" where
  "sleep_until wake_at s =
     upd_task (sc_current s) (\<lambda>t. t\<lparr>ti_state := Blocked, ti_wake_at := wake_at, ti_block_reason := Sleep\<rparr>) s"

definition pipe_write_block :: "nat \<Rightarrow> scheduler \<Rightarrow> scheduler" where
  "pipe_write_block p s =
     upd_task (sc_current s) (\<lambda>t. t\<lparr>ti_state := Blocked, ti_block_reason := PipeWrite p\<rparr>) s"

definition exit_current :: "u64 \<Rightarrow> scheduler \<Rightarrow> scheduler" where
  "exit_current code s =
     (let s = set_current_exit_code code s
      in upd_task (sc_current s) (\<lambda>t. t\<lparr>ti_state := Exited\<rparr>) s)"

definition kill_task :: "nat \<Rightarrow> scheduler \<Rightarrow> scheduler option" where
  "kill_task slot s =
     (if slot < MAX_TASKS then Some (upd_task slot (\<lambda>t. t\<lparr>ti_state := Exited\<rparr>) s) else None)"

section \<open>The invariant\<close>

definition sched_inv :: "scheduler \<Rightarrow> bool" where
  "sched_inv s \<longleftrightarrow> length (sc_tasks s) = MAX_TASKS \<and> sc_current s < MAX_TASKS \<and> sc_initialized s
     \<and> (\<forall>i < MAX_TASKS. st_of s i = Running \<longrightarrow> i = sc_current s)"

text \<open>The tasks a tick may choose from: ready ones, the running one, and blocked ones that wake.\<close>

definition eligible :: "u64 \<Rightarrow> pipes \<Rightarrow> scheduler \<Rightarrow> nat \<Rightarrow> bool" where
  "eligible now ps s i \<longleftrightarrow> st_of s i = Ready \<or> (i = sc_current s \<and> st_of s i = Running)
     \<or> (st_of s i = Blocked \<and> should_wake now ps (sc_tasks s) (sc_tasks s ! i))"

lemma st_of_upd: "i < length (sc_tasks s) \<Longrightarrow>
  sc_tasks (upd_task k f s) ! i = (if i = k then f (sc_tasks s ! i) else sc_tasks s ! i)"
  by (simp add: upd_task_def)

lemma upd_task_simps [simp]:
  "length (sc_tasks (upd_task k f s)) = length (sc_tasks s)" "sc_current (upd_task k f s) = sc_current s"
  "sc_initialized (upd_task k f s) = sc_initialized s" "sc_next_id (upd_task k f s) = sc_next_id s"
  "sc_switches (upd_task k f s) = sc_switches s"
  by (simp_all add: upd_task_def)

lemma sched_inv_upd:
  assumes "sched_inv s" and "\<And>t. ti_state (f t) = Running \<Longrightarrow> ti_state t = Running \<or> k = sc_current s"
  shows "sched_inv (upd_task k f s)"
  using assms by (auto simp: sched_inv_def st_of_upd)

lemma sched_inv_init: "sched_inv (init_core sched_boot)"
  by (simp add: sched_inv_def init_core_def sched_boot_def MAX_TASKS_def nth_list_update ti_empty_def)

section \<open>The wake-up scan\<close>

lemma should_wake_cong:
  "(\<And>k. k < MAX_TASKS \<Longrightarrow> (ti_state (ts' ! k) = Exited) = (ti_state (ts ! k) = Exited)) \<Longrightarrow>
     should_wake now ps ts' t = should_wake now ps ts t"
  by (auto simp: should_wake_def split: block_reason.splits)

lemma wake_state [simp]: "ti_state (wake t) = Ready"
  by (simp add: wake_def)

lemma wake_scan_nth:
  assumes "distinct is" "\<forall>i \<in> set is. i < length ts" "length ts = MAX_TASKS"
  shows "length (wake_scan now ps is ts) = length ts \<and> (\<forall>j < length ts. wake_scan now ps is ts ! j =
    (if j \<in> set is \<and> ti_state (ts ! j) = Blocked \<and> should_wake now ps ts (ts ! j) then wake (ts ! j) else ts ! j))"
  using assms
proof (induction "is" arbitrary: ts)
  case (Cons i "is")
  let ?go = "ti_state (ts ! i) = Blocked \<and> should_wake now ps ts (ts ! i)"
  let ?ts = "if ?go then ts[i := wake (ts ! i)] else ts"
  have step: "wake_scan now ps (i # is) ts = wake_scan now ps is ?ts" by simp
  have same: "should_wake now ps ?ts u = should_wake now ps ts u" for u
    by (rule should_wake_cong) (use Cons.prems in \<open>auto simp: nth_list_update\<close>)
  have "length ?ts = length ts" by simp
  with Cons.IH [of ?ts] Cons.prems show ?case
    unfolding step same by (auto simp: nth_list_update)
qed simp

lemma wake_scan_all:
  assumes "length ts = MAX_TASKS" "j < MAX_TASKS"
  shows "length (wake_scan now ps [0..<MAX_TASKS] ts) = MAX_TASKS"
    and "wake_scan now ps [0..<MAX_TASKS] ts ! j =
      (if ti_state (ts ! j) = Blocked \<and> should_wake now ps ts (ts ! j) then wake (ts ! j) else ts ! j)"
  using wake_scan_nth [of "[0..<MAX_TASKS]" ts now ps] assms by simp_all

section \<open>Round robin\<close>

lemma next_ready_cases:
  assumes "n < MAX_TASKS"
  shows "(\<exists>d. 1 \<le> d \<and> d \<le> k \<and> next_ready k n ts = (n + d) mod MAX_TASKS
            \<and> ti_state (ts ! ((n + d) mod MAX_TASKS)) = Ready
            \<and> (\<forall>e. 1 \<le> e \<and> e < d \<longrightarrow> ti_state (ts ! ((n + e) mod MAX_TASKS)) \<noteq> Ready))
       \<or> (\<forall>e. 1 \<le> e \<and> e \<le> k \<longrightarrow> ti_state (ts ! ((n + e) mod MAX_TASKS)) \<noteq> Ready)
          \<and> next_ready k n ts = (n + k) mod MAX_TASKS"
  using assms
proof (induction k arbitrary: n)
  case (Suc k)
  let ?m = "(n + 1) mod MAX_TASKS"
  have shift: "(?m + d) mod MAX_TASKS = (n + Suc d) mod MAX_TASKS" for d by (simp add: mod_add_left_eq)
  show ?case
  proof (cases "ti_state (ts ! ?m) = Ready")
    case True
    then show ?thesis by (intro disjI1 exI [of _ 1]) (simp add: Let_def)
  next
    case False
    then have eq: "next_ready (Suc k) n ts = next_ready k ?m ts" by (simp add: Let_def)
    have ext: "ti_state (ts ! ((n + e) mod MAX_TASKS)) \<noteq> Ready"
      if "\<forall>e. 1 \<le> e \<and> e < b \<longrightarrow> ti_state (ts ! ((n + Suc e) mod MAX_TASKS)) \<noteq> Ready" "1 \<le> e" "e < Suc b" for b e
      using that False by (cases e; cases "e = 1") auto
    have "?m < MAX_TASKS" by (simp add: MAX_TASKS_def)
    from Suc.IH [OF this] show ?thesis
    proof (elim disjE exE conjE)
      fix d assume d: "1 \<le> d" "d \<le> k" "next_ready k ?m ts = (?m + d) mod MAX_TASKS"
        "ti_state (ts ! ((?m + d) mod MAX_TASKS)) = Ready"
        "\<forall>e. 1 \<le> e \<and> e < d \<longrightarrow> ti_state (ts ! ((?m + e) mod MAX_TASKS)) \<noteq> Ready"
      then show ?thesis unfolding shift eq using ext [of d]
        by (intro disjI1 exI [of _ "Suc d"]) auto
    next
      assume "\<forall>e. 1 \<le> e \<and> e \<le> k \<longrightarrow> ti_state (ts ! ((?m + e) mod MAX_TASKS)) \<noteq> Ready"
        "next_ready k ?m ts = (?m + k) mod MAX_TASKS"
      then show ?thesis unfolding shift eq using ext [of "Suc k"] by auto
    qed
  qed
qed simp

text \<open>Sixteen steps visit every slot.\<close>

lemma slot_at_distance:
  assumes "c < MAX_TASKS" "i < MAX_TASKS"
  obtains d where "1 \<le> d" "d \<le> MAX_TASKS" "(c + d) mod MAX_TASKS = i" "i \<noteq> c \<Longrightarrow> d < MAX_TASKS"
proof (cases "i > c")
  case True
  then show ?thesis using that [of "i - c"] assms by simp
next
  case False
  then have "(c + (MAX_TASKS + i - c)) mod MAX_TASKS = i" using assms by simp
  then show ?thesis using that [of "MAX_TASKS + i - c"] assms False by fastforce
qed

section \<open>What a tick does\<close>

lemma after_wake_effect:
  assumes "sched_inv s"
  shows "length (sc_tasks (after_wake now ps s)) = MAX_TASKS" "sc_current (after_wake now ps s) = sc_current s"
    "sc_switches (after_wake now ps s) = sc_switches s" "sc_initialized (after_wake now ps s)"
    "i < MAX_TASKS \<Longrightarrow> st_of (after_wake now ps s) i = (if eligible now ps s i then Ready else st_of s i)"
    "i < MAX_TASKS \<Longrightarrow> ti_user_id (sc_tasks (after_wake now ps s) ! i) = ti_user_id (sc_tasks s ! i)"
    "sched_inv (after_wake now ps s)"
proof -
  let ?t = "wake_scan now ps [0..<MAX_TASKS] (sc_tasks s)" and ?c = "sc_current s"
  have len: "length (sc_tasks s) = MAX_TASKS" and c: "?c < MAX_TASKS" and run: "\<And>i. i < MAX_TASKS \<Longrightarrow> st_of s i = Running \<Longrightarrow> i = ?c"
    using assms by (simp_all add: sched_inv_def)
  note L = wake_scan_all(1) [OF len c] and N = wake_scan_all(2) [OF len]
  have aw: "after_wake now ps s = (if ti_state (?t ! ?c) = Running
      then upd_task ?c (\<lambda>t. t\<lparr>ti_state := Ready\<rparr>) (s\<lparr>sc_tasks := ?t\<rparr>) else s\<lparr>sc_tasks := ?t\<rparr>)"
    by (simp add: after_wake_def Let_def)
  show "length (sc_tasks (after_wake now ps s)) = MAX_TASKS" "sc_current (after_wake now ps s) = sc_current s"
    "sc_switches (after_wake now ps s) = sc_switches s" "sc_initialized (after_wake now ps s)"
    using L assms by (simp_all add: aw sched_inv_def)
  have st: "sc_tasks (after_wake now ps s) ! i
      = (if i = ?c \<and> ti_state (?t ! i) = Running then (?t ! i)\<lparr>ti_state := Ready\<rparr> else ?t ! i)" if i: "i < MAX_TASKS" for i
    using i L by (auto simp: aw st_of_upd)
  have "ti_state (?t ! i) = (if st_of s i = Blocked \<and> should_wake now ps (sc_tasks s) (sc_tasks s ! i) then Ready else st_of s i)"
    if i: "i < MAX_TASKS" for i using N [OF i, of now ps] by simp
  then show el: "st_of (after_wake now ps s) i = (if eligible now ps s i then Ready else st_of s i)" if i: "i < MAX_TASKS" for i
    unfolding st [OF i] eligible_def using run [OF i] i by (cases "st_of s i") auto
  show "ti_user_id (sc_tasks (after_wake now ps s) ! i) = ti_user_id (sc_tasks s ! i)" if i: "i < MAX_TASKS"
    unfolding st [OF i] using N [OF i, of now ps] by (auto simp: wake_def)
  have "st_of (after_wake now ps s) i \<noteq> Running" if i: "i < MAX_TASKS" for i
    using el [OF i] run [OF i] by (auto simp: eligible_def)
  then show "sched_inv (after_wake now ps s)" using L assms by (auto simp: aw sched_inv_def)
qed

lemma pick_next_after_wake:
  fixes now :: u64 and ps :: pipes
  assumes "sched_inv s"
  defines "w \<equiv> after_wake now ps s" and "c \<equiv> sc_current s"
  shows "pick_next now ps s =
    (if select_next c (sc_tasks w) = c \<and> st_of w c = Ready then (upd_task c (\<lambda>t. t\<lparr>ti_state := Running\<rparr>) w, None)
     else ((upd_task (select_next c (sc_tasks w)) (\<lambda>t. t\<lparr>ti_state := Running, ti_run_count := ti_run_count t + 1\<rparr>) w)
             \<lparr>sc_current := select_next c (sc_tasks w), sc_switches := sc_switches s + 1\<rparr>, Some (c, select_next c (sc_tasks w))))"
proof -
  have i: "sc_initialized s" using assms(1) by (simp add: sched_inv_def)
  have "sc_switches w = sc_switches s" using after_wake_effect(3) [OF assms(1)] by (simp add: w_def)
  then show ?thesis unfolding pick_next_def Let_def w_def c_def using i by (simp only: simp_thms if_False)
qed

text \<open>The slot a tick chooses.\<close>

definition chosen :: "u64 \<Rightarrow> pipes \<Rightarrow> scheduler \<Rightarrow> nat \<Rightarrow> bool" where
  "chosen now ps s n \<longleftrightarrow>
     (\<exists>d. 1 \<le> d \<and> d \<le> MAX_TASKS \<and> n = (sc_current s + d) mod MAX_TASKS \<and> eligible now ps s n
        \<and> (\<forall>e. 1 \<le> e \<and> e < d \<longrightarrow> \<not> eligible now ps s ((sc_current s + e) mod MAX_TASKS)))
     \<or> (\<forall>i < MAX_TASKS. \<not> eligible now ps s i) \<and> n = 0"

lemma not_ready_iff:
  "sched_inv s \<Longrightarrow> i < MAX_TASKS \<Longrightarrow> st_of (after_wake now ps s) i = Ready \<longleftrightarrow> eligible now ps s i"
  using after_wake_effect(5) [of s i now ps] by (auto simp: eligible_def)

lemma chosen_next_ready:
  fixes now :: u64 and ps :: pipes
  assumes inv: "sched_inv s"
  defines "w \<equiv> after_wake now ps s" and "c \<equiv> sc_current s"
  shows "chosen now ps s (select_next c (sc_tasks w))"
proof -
  have c: "c < MAX_TASKS" using inv by (simp add: c_def sched_inv_def)
  have lt: "x mod MAX_TASKS < MAX_TASKS" for x by (simp add: MAX_TASKS_def)
  note R = not_ready_iff [OF inv lt, of now ps, folded w_def]
  from next_ready_cases [OF c, of MAX_TASKS "sc_tasks w"] show ?thesis
  proof (elim disjE exE conjE)
    fix d assume "1 \<le> d" "d \<le> MAX_TASKS" "next_ready MAX_TASKS c (sc_tasks w) = (c + d) mod MAX_TASKS"
      "st_of w ((c + d) mod MAX_TASKS) = Ready"
      "\<forall>e. 1 \<le> e \<and> e < d \<longrightarrow> st_of w ((c + e) mod MAX_TASKS) \<noteq> Ready"
    then show ?thesis unfolding R chosen_def c_def [symmetric] select_next_def Let_def by (auto simp: R)
  next
    assume none: "\<forall>e. 1 \<le> e \<and> e \<le> MAX_TASKS \<longrightarrow> st_of w ((c + e) mod MAX_TASKS) \<noteq> Ready"
    have no: "\<not> eligible now ps s i" if "i < MAX_TASKS" for i
      using none R by (rule_tac slot_at_distance [OF c that]) blast
    then have "st_of w i \<noteq> Ready" if "i < MAX_TASKS" for i
      using not_ready_iff [OF inv that] that by (simp add: w_def)
    moreover have "next_ready MAX_TASKS c (sc_tasks w) < MAX_TASKS"
      using next_ready_cases [OF c, of MAX_TASKS "sc_tasks w"] lt by metis
    ultimately show ?thesis using no c by (simp add: chosen_def select_next_def Let_def)
  qed
qed

lemma pick_next_spec:
  assumes inv: "sched_inv s" and p: "pick_next now ps s = (s', r)"
  shows "chosen now ps s (sc_current s')"
    and "sched_inv s'"
    and "\<forall>i < MAX_TASKS. st_of s' i = (if i = sc_current s' then Running else if eligible now ps s i then Ready else st_of s i)"
    and "r = (if sc_current s' = sc_current s \<and> eligible now ps s (sc_current s) then None
              else Some (sc_current s, sc_current s'))"
    and "\<forall>i < MAX_TASKS. ti_user_id (sc_tasks s' ! i) = ti_user_id (sc_tasks s ! i)"
proof -
  let ?w = "after_wake now ps s" and ?c = "sc_current s"
  define n where "n = select_next ?c (sc_tasks ?w)"
  note ch = chosen_next_ready [OF inv, of now ps, folded n_def]
  have nl: "n < MAX_TASKS" using ch by (auto simp: chosen_def MAX_TASKS_def)
  have cl: "?c < MAX_TASKS" using inv by (simp add: sched_inv_def)
  note W = after_wake_effect [OF inv]
  have el: "st_of ?w ?c = Ready \<longleftrightarrow> eligible now ps s ?c" using not_ready_iff [OF inv cl] .
  have "sc_current s' = n \<and> sched_inv s'
    \<and> (\<forall>i < MAX_TASKS. st_of s' i = (if i = n then Running else if eligible now ps s i then Ready else st_of s i))
    \<and> r = (if n = ?c \<and> eligible now ps s ?c then None else Some (?c, n))
    \<and> (\<forall>i < MAX_TASKS. ti_user_id (sc_tasks s' ! i) = ti_user_id (sc_tasks s ! i))"
  proof (cases "n = ?c \<and> st_of ?w ?c = Ready")
    case True
    then have e: "s' = upd_task ?c (\<lambda>t. t\<lparr>ti_state := Running\<rparr>) ?w" "r = None"
      using p pick_next_after_wake [OF inv, of now ps, folded n_def] by simp_all
    have "st_of s' i = (if i = ?c then Running else if eligible now ps s i then Ready else st_of s i)" if "i < MAX_TASKS" for i
      using that W(1,5) by (simp add: e st_of_upd)
    moreover have "ti_user_id (sc_tasks s' ! i) = ti_user_id (sc_tasks s ! i)" if "i < MAX_TASKS" for i
      using that W(1,6) by (simp add: e st_of_upd)
    moreover have "sched_inv s'" unfolding e(1) by (rule sched_inv_upd [OF W(7)]) (simp add: W(2))
    ultimately show ?thesis using True el W(2) e by simp
  next
    case False
    then have e: "s' = (upd_task n (\<lambda>t. t\<lparr>ti_state := Running, ti_run_count := ti_run_count t + 1\<rparr>) ?w)
             \<lparr>sc_current := n, sc_switches := sc_switches s + 1\<rparr>" "r = Some (?c, n)"
      using p pick_next_after_wake [OF inv, of now ps, folded n_def] by auto
    have st: "st_of s' i = (if i = n then Running else if eligible now ps s i then Ready else st_of s i)" if "i < MAX_TASKS" for i
      using that W(1,5) by (simp add: e st_of_upd)
    have el_run: "eligible now ps s i" if "st_of s i = Running" "i < MAX_TASKS" for i
      using that inv by (auto simp: eligible_def sched_inv_def)
    have "length (sc_tasks s') = MAX_TASKS" "sc_current s' = n" "sc_initialized s'" using W(1,4) by (simp_all add: e)
    moreover have "i = n" if "i < MAX_TASKS" "st_of s' i = Running" for i
      using st [OF that(1)] el_run [OF _ that(1)] that(2) by (auto split: if_splits)
    ultimately have "sched_inv s'" using nl by (simp add: sched_inv_def)
    moreover have "ti_user_id (sc_tasks s' ! i) = ti_user_id (sc_tasks s ! i)" if "i < MAX_TASKS" for i
      using that W(1,6) by (simp add: e st_of_upd)
    ultimately show ?thesis using False el st e by auto
  qed
  with ch show "chosen now ps s (sc_current s')" "sched_inv s'"
    "\<forall>i < MAX_TASKS. st_of s' i = (if i = sc_current s' then Running else if eligible now ps s i then Ready else st_of s i)"
    "r = (if sc_current s' = sc_current s \<and> eligible now ps s (sc_current s) then None else Some (sc_current s, sc_current s'))"
    "\<forall>i < MAX_TASKS. ti_user_id (sc_tasks s' ! i) = ti_user_id (sc_tasks s ! i)"
    by simp_all
qed

section \<open>Sequences of operations\<close>

datatype sched_op =
    Tick u64 pipes | Spawn string u8 bool u8 | MarkReady nat | SleepUntil u64 | BlockPipe nat
  | BlockFutex u64 | BlockJoin nat | WakeFutex u64 nat | ExitTask u64 | Kill nat | SetUid nat u8

text \<open>\<open>None\<close> is the panic of an index past the task table.\<close>

fun sched_exec :: "sched_op \<Rightarrow> scheduler \<Rightarrow> scheduler option" where
  "sched_exec (Tick now ps) s = Some (fst (pick_next now ps s))"
| "sched_exec (Spawn name tier k uid) s = Some (fst (alloc_task_slot_with_user name tier k uid s))"
| "sched_exec (MarkReady i) s = Some (mark_ready i s)"
| "sched_exec (SleepUntil w) s = Some (sleep_until w s)"
| "sched_exec (BlockPipe p) s = Some (pipe_write_block p s)"
| "sched_exec (BlockFutex a) s = Some (futex_block a s)"
| "sched_exec (BlockJoin i) s = Some (join_block i s)"
| "sched_exec (WakeFutex a n) s = Some (fst (futex_wake a n s))"
| "sched_exec (ExitTask c) s = Some (exit_current c s)"
| "sched_exec (Kill i) s = kill_task i s"
| "sched_exec (SetUid i u) s = set_user_id i u s"

fun sched_run :: "sched_op list \<Rightarrow> scheduler \<Rightarrow> scheduler option" where
  "sched_run [] s = Some s"
| "sched_run (op # ops) s = Option.bind (sched_exec op s) (sched_run ops)"

fun is_tick :: "sched_op \<Rightarrow> bool" where
  "is_tick (Tick _ _) = True"
| "is_tick _ = False"

lemmas block_defs = sleep_until_def pipe_write_block_def futex_block_def join_block_def exit_current_def
  set_current_exit_code_def kill_task_def set_user_id_def mark_ready_def

text \<open>The slots that wait on \<open>addr\<close>, in slot order.\<close>

definition waits_on :: "u64 \<Rightarrow> task_info \<Rightarrow> bool" where
  "waits_on addr t \<longleftrightarrow> ti_state t = Blocked \<and> ti_block_reason t = Futex addr"

definition waiters :: "u64 \<Rightarrow> scheduler \<Rightarrow> nat list" where
  "waiters addr s = filter (\<lambda>i. waits_on addr (sc_tasks s ! i)) [0..<MAX_TASKS]"

abbreviation release :: "task_info \<Rightarrow> task_info" where
  "release t \<equiv> t\<lparr>ti_state := Ready, ti_block_reason := NoReason\<rparr>"

lemma futex_scan_eq:
  fixes addr :: u64
  assumes "k < m" "distinct is" "\<forall>i \<in> set is. i < length ts"
  defines "ws \<equiv> take (m - k) (filter (\<lambda>i. waits_on addr (ts ! i)) is)"
  shows "\<exists>ts'. futex_scan addr m is k ts = (ts', k + length ws) \<and> length ts' = length ts
    \<and> (\<forall>j < length ts. ts' ! j = (if j \<in> set ws then release (ts ! j) else ts ! j))"
  using assms(1-3) unfolding ws_def
proof (induction "is" arbitrary: k ts)
  case (Cons i "is")
  let ?ts = "ts[i := release (ts ! i)]"
  show ?case
  proof (cases "waits_on addr (ts ! i)")
    case False
    then have "futex_scan addr m (i # is) k ts = futex_scan addr m is k ts" by (auto simp: waits_on_def)
    with False Cons show ?thesis by simp
  next
    case True
    have same: "filter (\<lambda>j. waits_on addr (?ts ! j)) is = filter (\<lambda>j. waits_on addr (ts ! j)) is"
    proof (rule filter_cong [OF refl])
      fix j assume "j \<in> set is"
      then have "j \<noteq> i" using Cons.prems(2) by auto
      then show "waits_on addr (?ts ! j) = waits_on addr (ts ! j)" by simp
    qed
    obtain d where d: "m - k = Suc d" using Cons.prems(1) by (metis Suc_diff_Suc)
    show ?thesis
    proof (cases "k + 1 \<ge> m")
      case last: True
      then have "d = 0" using d by simp
      then show ?thesis using True last Cons.prems d by (simp add: waits_on_def Let_def nth_list_update)
    next
      case False
      then have r: "futex_scan addr m (i # is) k ts = futex_scan addr m is (k + 1) ?ts"
        using True by (simp add: waits_on_def Let_def)
      have "m - (k + 1) = d" using d by simp
      with Cons.IH [of "k + 1" ?ts] Cons.prems False obtain ts' where
        "futex_scan addr m is (k + 1) ?ts = (ts', k + 1 + length (take d (filter (\<lambda>j. waits_on addr (ts ! j)) is)))"
        "length ts' = length ts"
        "\<forall>j < length ts. ts' ! j = (if j \<in> set (take d (filter (\<lambda>j. waits_on addr (ts ! j)) is)) then release (?ts ! j) else ?ts ! j)"
        unfolding same by auto
      then show ?thesis unfolding r using True d Cons.prems
        by (auto simp: nth_list_update dest: in_set_takeD)
    qed
  qed
qed simp

lemma futex_wake_eq:
  assumes "sched_inv s" and "futex_wake addr m s = (s', n)"
  shows "n = min m (length (waiters addr s))"
    and "\<exists>ts'. s' = s\<lparr>sc_tasks := ts'\<rparr> \<and> length ts' = MAX_TASKS"
    and "j < MAX_TASKS \<Longrightarrow> sc_tasks s' ! j = (if j \<in> set (take m (waiters addr s)) then release (sc_tasks s ! j) else sc_tasks s ! j)"
proof -
  have len: "length (sc_tasks s) = MAX_TASKS" using assms(1) by (simp add: sched_inv_def)
  have "n = min m (length (waiters addr s)) \<and> (\<exists>ts'. s' = s\<lparr>sc_tasks := ts'\<rparr> \<and> length ts' = MAX_TASKS \<and>
    (\<forall>j < MAX_TASKS. ts' ! j = (if j \<in> set (take m (waiters addr s)) then release (sc_tasks s ! j) else sc_tasks s ! j)))"
  proof (cases m)
    case 0
    then show ?thesis using assms(2) len by (auto simp: futex_wake_def intro!: exI [of _ "sc_tasks s"])
  next
    case (Suc d)
    then show ?thesis
      using assms(2) futex_scan_eq [of 0 m "[0..<MAX_TASKS]" "sc_tasks s" addr] len
      by (auto simp: futex_wake_def waiters_def min.commute)
  qed
  then show "n = min m (length (waiters addr s))" "\<exists>ts'. s' = s\<lparr>sc_tasks := ts'\<rparr> \<and> length ts' = MAX_TASKS"
    "j < MAX_TASKS \<Longrightarrow> sc_tasks s' ! j = (if j \<in> set (take m (waiters addr s)) then release (sc_tasks s ! j) else sc_tasks s ! j)"
    by auto
qed

lemma alloc_effect:
  assumes "sched_inv s" and "alloc_task_slot_with_user name tier k uid s = (s', r, reaped)"
  shows "case r of
      None \<Rightarrow> s' = s \<and> reaped = [] \<and> (\<forall>i. 1 \<le> i \<and> i < MAX_TASKS \<longrightarrow> \<not> reusable (sc_tasks s ! i))
    | Some i \<Rightarrow> 1 \<le> i \<and> i < MAX_TASKS \<and> reusable (sc_tasks s ! i) \<and> (\<forall>j. 1 \<le> j \<and> j < i \<longrightarrow> \<not> reusable (sc_tasks s ! j))
        \<and> reaped = (if st_of s i = Exited then [i] else [])
        \<and> s' = upd_task i (\<lambda>_. \<lparr>ti_id = sc_next_id s, ti_state = Blocked, ti_name = name,
                  ti_run_count = 0, ti_max_tier = tier, ti_is_kernel = k, ti_wake_at = 0,
                  ti_block_reason = NoReason, ti_user_id = uid, ti_exit_code = 0\<rparr>) s \<lparr>sc_next_id := sc_next_id s + 1\<rparr>"
proof -
  have len: "length (sc_tasks s) = MAX_TASKS" using assms(1) by (simp add: sched_inv_def)
  have nth: "drop 1 (sc_tasks s) ! j = sc_tasks s ! (j + 1)" if "j < length (drop 1 (sc_tasks s))" for j using that by simp
  show ?thesis
  proof (cases "position reusable (drop 1 (sc_tasks s))")
    case None
    then have "\<not> reusable (sc_tasks s ! i)" if "1 \<le> i" "i < MAX_TASKS" for i
      using that len nth [of "i - 1"] nth_mem [of "i - 1" "drop 1 (sc_tasks s)"] by (simp add: position_None_iff)
    with None assms(2) show ?thesis by (auto simp: alloc_task_slot_with_user_def)
  next
    case (Some p)
    have p: "p + 1 < MAX_TASKS" "reusable (sc_tasks s ! (p + 1))" "\<forall>j < p. \<not> reusable (sc_tasks s ! (j + 1))"
      using position_SomeD [OF Some] len by auto
    have "\<not> reusable (sc_tasks s ! j)" if "1 \<le> j" "j < p + 1" for j
      using p(3) [rule_format, of "j - 1"] that by simp
    with Some p assms(2) show ?thesis by (auto simp: alloc_task_slot_with_user_def Let_def)
  qed
qed

lemma sched_inv_next_id [simp]: "sched_inv (s\<lparr>sc_next_id := n\<rparr>) = sched_inv s"
  by (simp add: sched_inv_def)

lemma sched_exec_inv:
  assumes inv: "sched_inv s" and e: "sched_exec op s = Some s'"
  shows "sched_inv s'"
proof (cases op)
  case (Tick now ps)
  then show ?thesis using e pick_next_spec(2) [OF inv, of now ps] by (metis option.inject prod.collapse sched_exec.simps(1))
next
  case (Spawn name tier k uid)
  obtain s1 r reaped where a: "alloc_task_slot_with_user name tier k uid s = (s1, r, reaped)" by (metis prod.exhaust)
  from alloc_effect [OF inv a] have "sched_inv s1" by (cases r) (auto intro!: sched_inv_upd inv simp: inv)
  with Spawn e a show ?thesis by simp
next
  case (WakeFutex addr m)
  obtain n where w: "futex_wake addr m s = (s', n)" using WakeFutex e by (cases "futex_wake addr m s") simp
  obtain ts' where ts: "s' = s\<lparr>sc_tasks := ts'\<rparr>" "length ts' = MAX_TASKS" using futex_wake_eq(2) [OF inv w] by blast
  have "j = sc_current s" if "j < MAX_TASKS" "ti_state (ts' ! j) = Running" for j
    using futex_wake_eq(3) [OF inv w that(1)] that inv by (auto simp: ts sched_inv_def split: if_splits)
  then show ?thesis using inv ts by (simp add: sched_inv_def)
qed (use e inv in \<open>auto simp: block_defs Let_def intro!: sched_inv_upd split: if_splits\<close>)

lemma sched_run_inv: "sched_inv s \<Longrightarrow> sched_run ops s = Some s' \<Longrightarrow> sched_inv s'"
  by (induction ops arbitrary: s) (auto simp: bind_eq_Some_conv dest: sched_exec_inv)

text \<open>Only a tick takes a waiting ready task off the ready state, apart from a kill.\<close>

lemma ready_stays:
  assumes inv: "sched_inv s" and i: "i < MAX_TASKS" "i \<noteq> sc_current s" "st_of s i = Ready"
    and e: "sched_exec op s = Some s'" and op: "\<not> is_tick op" "op \<noteq> Kill i"
  shows "sc_current s' = sc_current s \<and> st_of s' i = Ready"
proof (cases op)
  case (Tick now ps)
  with op show ?thesis by simp
next
  case (Spawn name tier k uid)
  obtain s1 r reaped where a: "alloc_task_slot_with_user name tier k uid s = (s1, r, reaped)" by (metis prod.exhaust)
  from alloc_effect [OF inv a] Spawn e a i inv show ?thesis
    by (cases r) (auto simp: st_of_upd sched_inv_def reusable_def)
next
  case (WakeFutex addr m)
  obtain n where w: "futex_wake addr m s = (s', n)" using WakeFutex e by (cases "futex_wake addr m s") simp
  show ?thesis using futex_wake_eq(2) [OF inv w] futex_wake_eq(3) [OF inv w i(1)] i by (auto split: if_splits)
qed (use e i op inv in \<open>auto simp: block_defs Let_def st_of_upd sched_inv_def split: if_splits\<close>)

text \<open>How far slot \<open>i\<close> is from its turn.\<close>

definition turns :: "scheduler \<Rightarrow> nat \<Rightarrow> nat" where
  "turns s i = (if sc_current s < i then i - sc_current s else MAX_TASKS + i - sc_current s)"

lemma tick_progress:
  assumes inv: "sched_inv s" and i: "i < MAX_TASKS" "i \<noteq> sc_current s" "st_of s i = Ready"
    and p: "pick_next now ps s = (s', r)"
  shows "sc_current s' = i \<and> st_of s' i = Running
    \<or> sc_current s' \<noteq> i \<and> st_of s' i = Ready \<and> turns s' i < turns s i"
proof -
  note P = pick_next_spec [OF inv p]
  have el: "eligible now ps s i" using i by (simp add: eligible_def)
  then obtain d where d: "1 \<le> d" "d \<le> MAX_TASKS" "sc_current s' = (sc_current s + d) mod MAX_TASKS"
    "\<forall>e. 1 \<le> e \<and> e < d \<longrightarrow> \<not> eligible now ps s ((sc_current s + e) mod MAX_TASKS)"
    using P(1) i(1) by (auto simp: chosen_def)
  have c: "sc_current s < MAX_TASKS" using inv by (simp add: sched_inv_def)
  have t: "1 \<le> turns s i" "turns s i < MAX_TASKS" "(sc_current s + turns s i) mod MAX_TASKS = i"
    using c i by (auto simp: turns_def)
  have "d \<le> turns s i" using d(4) [rule_format, of "turns s i"] t el by (auto simp: not_less [symmetric])
  show ?thesis
  proof (cases "sc_current s' = i")
    case True
    with P(3) i(1) show ?thesis by simp
  next
    case False
    then have "d < turns s i" using \<open>d \<le> turns s i\<close> d(3) t(3) by (metis le_neq_implies_less)
    moreover from this have "(sc_current s + d) mod MAX_TASKS
        = (if sc_current s + d < MAX_TASKS then sc_current s + d else sc_current s + d - MAX_TASKS)"
      using c t(2) by (simp add: le_mod_geq)
    ultimately have "turns s' i < turns s i" using d(1,3) c i(1) False unfolding turns_def by (auto split: if_splits)
    with False P(3) i(1) el show ?thesis by simp
  qed
qed

lemma ready_runs:
  assumes "sched_inv s" "i < MAX_TASKS" "i \<noteq> sc_current s" "st_of s i = Ready"
    and "sched_run ops s = Some s'" "turns s i \<le> length (filter is_tick ops)" "Kill i \<notin> set ops"
  shows "\<exists>pre post s1. ops = pre @ post \<and> sched_run pre s = Some s1 \<and> sc_current s1 = i \<and> st_of s1 i = Running"
  using assms
proof (induction ops arbitrary: s)
  case Nil
  then have "sc_current s < MAX_TASKS" "turns s i = 0" by (simp_all add: sched_inv_def)
  then show ?case unfolding turns_def by (simp split: if_splits)
next
  case (Cons op ops)
  from Cons.prems(5) obtain s1 where s1: "sched_exec op s = Some s1" "sched_run ops s1 = Some s'"
    by (auto simp: bind_eq_Some_conv)
  have inv: "sched_inv s1" using sched_exec_inv [OF Cons.prems(1) s1(1)] .
  have found: ?case if "\<exists>pre post s2. ops = pre @ post \<and> sched_run pre s1 = Some s2 \<and> sc_current s2 = i \<and> st_of s2 i = Running"
  proof -
    from that obtain pre post s2 where "ops = pre @ post" "sched_run pre s1 = Some s2" "sc_current s2 = i" "st_of s2 i = Running" by blast
    then show ?thesis using s1(1) by (intro exI [of _ "op # pre"] exI [of _ post] exI [of _ s2]) simp
  qed
  show ?case
  proof (cases "is_tick op")
    case False
    then have "sc_current s1 = sc_current s \<and> st_of s1 i = Ready"
      using ready_stays [OF Cons.prems(1-4) s1(1)] Cons.prems(7) by auto
    then show ?thesis using Cons.prems inv s1 False by (intro found Cons.IH [of s1]) (auto simp: turns_def)
  next
    case True
    then obtain now ps where op: "op = Tick now ps" by (cases op) auto
    then obtain r where "pick_next now ps s = (s1, r)" using s1(1) by (cases "pick_next now ps s") simp
    from tick_progress [OF Cons.prems(1-4) this] show ?thesis
    proof
      assume "sc_current s1 = i \<and> st_of s1 i = Running"
      then show ?thesis using s1(1) by (intro exI [of _ "[op]"] exI [of _ ops] exI [of _ s1]) simp
    next
      assume "sc_current s1 \<noteq> i \<and> st_of s1 i = Ready \<and> turns s1 i < turns s i"
      then show ?thesis using Cons.prems inv s1 True by (intro found Cons.IH [of s1]) auto
    qed
  qed
qed

section \<open>Properties\<close>

text \<open>
  A tick, in any state the kernel can reach: it wakes exactly the blocked tasks whose condition
  holds (a sleep that is over, data or an end of file in the pipe, room in the pipe, an exited
  join target), puts the task that gives up the processor back in the queue, and chooses the first
  eligible slot in cyclic order after the current one, or slot 0 when there is none. Afterwards the
  chosen task and no other is running, and the answer names the switch, if there is one.
\<close>

theorem pick_next_round_robin:
  assumes "sched_run ops (init_core sched_boot) = Some s" and "pick_next now ps s = (s', r)"
  shows "chosen now ps s (sc_current s')
    \<and> (\<forall>i < 16. st_of s' i = (if i = sc_current s' then Running else if eligible now ps s i then Ready else st_of s i)
         \<and> (i \<noteq> sc_current s' \<longrightarrow> st_of s' i \<noteq> Running))
    \<and> r = (if sc_current s' = sc_current s \<and> eligible now ps s (sc_current s) then None
           else Some (sc_current s, sc_current s'))"
proof -
  have inv: "sched_inv s" using sched_run_inv [OF sched_inv_init assms(1)] .
  note P = pick_next_spec [OF inv assms(2)]
  have "st_of s' i \<noteq> Running" if "i < 16" "i \<noteq> sc_current s'" for i
    using P(2) that unfolding sched_inv_def MAX_TASKS_def by blast
  with P(1,3,4) show ?thesis unfolding MAX_TASKS_def by simp
qed

theorem pick_next_round_robin_witness:
  "\<exists>s s' r. sched_run [Spawn ''a'' 0 True 0, MarkReady 1] (init_core sched_boot) = Some s
     \<and> pick_next 1 [] s = (s', r) \<and> chosen 1 [] s (sc_current s')"
proof -
  obtain s where s: "sched_run [Spawn ''a'' 0 True 0, MarkReady 1] (init_core sched_boot) = Some s" by simp
  obtain s' r where "pick_next 1 [] s = (s', r)" by (metis prod.exhaust)
  with pick_next_round_robin [OF s this] s show ?thesis by blast
qed

text \<open>
  (C3) No starvation: a task that is ready while another one runs is running after at most fifteen
  ticks, whatever the other tasks do meanwhile (block, exit, spawn, wake each other), unless it is
  killed.
\<close>

theorem ready_task_runs:
  assumes "sched_run ops0 (init_core sched_boot) = Some s" and "i < 16" "i \<noteq> sc_current s" "st_of s i = Ready"
    and "sched_run ops s = Some s'" "15 \<le> length (filter is_tick ops)" "Kill i \<notin> set ops"
  shows "\<exists>pre post s1. ops = pre @ post \<and> sched_run pre s = Some s1 \<and> sc_current s1 = i \<and> st_of s1 i = Running"
proof (rule ready_runs [OF sched_run_inv [OF sched_inv_init assms(1)] _ assms(3-5) _ assms(7)])
  show "i < MAX_TASKS" using assms(2) by (simp add: MAX_TASKS_def)
  have "turns s i \<le> 15" using assms(2,3) by (auto simp: turns_def MAX_TASKS_def)
  with assms(6) show "turns s i \<le> length (filter is_tick ops)" by simp
qed

theorem ready_task_runs_witness:
  "\<exists>s. sched_run [Spawn ''a'' 0 True 0, MarkReady 1] (init_core sched_boot) = Some s \<and>
     (\<exists>pre post s1. replicate 15 (Tick 1 []) = pre @ post \<and> sched_run pre s = Some s1 \<and> sc_current s1 = 1 \<and> st_of s1 1 = Running)"
proof -
  let ?b = "init_core sched_boot"
  obtain s where s: "sched_run [Spawn ''a'' 0 True 0, MarkReady 1] ?b = Some s" by simp
  have st: "st_of s 1 = Ready" "sc_current s = 0"
    using s by (auto simp: alloc_task_slot_with_user_def init_core_def sched_boot_def MAX_TASKS_def ti_empty_def
        reusable_def mark_ready_def upd_task_def numeral_eq_Suc)
  have "\<exists>s'. sched_run (replicate n (Tick 1 [])) t = Some s'" for n t by (induction n arbitrary: t) simp_all
  then obtain s' where r: "sched_run (replicate 15 (Tick 1 [])) s = Some s'" by blast
  have "15 \<le> length (filter is_tick (replicate 15 (Tick 1 [])))" "Kill 1 \<notin> set (replicate 15 (Tick 1 []))"
    by (simp_all add: filter_replicate)
  from ready_task_runs [OF s _ _ st(1) r this] st(2) s show ?thesis by auto
qed

text \<open>
  futex_wake wakes the tasks blocked on the address in slot order, as many as asked for and as
  there are, returns their number, and changes no other task.
\<close>

theorem futex_wake_exact:
  assumes "sched_run ops (init_core sched_boot) = Some s" and "futex_wake addr m s = (s', n)"
  shows "n = min m (length (waiters addr s))
    \<and> (\<forall>i < 16. sc_tasks s' ! i = (if i \<in> set (take m (waiters addr s))
         then (sc_tasks s ! i)\<lparr>ti_state := Ready, ti_block_reason := NoReason\<rparr> else sc_tasks s ! i))"
  using futex_wake_eq [OF sched_run_inv [OF sched_inv_init assms(1)] assms(2)] by (simp add: MAX_TASKS_def)

theorem futex_wake_exact_witness:
  "\<exists>s s' n. sched_run [BlockFutex 64] (init_core sched_boot) = Some s \<and> futex_wake 64 1 s = (s', n)
     \<and> n = min 1 (length (waiters 64 s))"
proof -
  obtain s where s: "sched_run [BlockFutex 64] (init_core sched_boot) = Some s" by simp
  obtain s' n where "futex_wake 64 1 s = (s', n)" by (metis prod.exhaust)
  with futex_wake_exact [OF s this] s show ?thesis by blast
qed

text \<open>
  The fallback of the tick runs slot 0 whatever its state: when the kernel task sleeps and no
  other task is ready, the next tick runs it again before its time, although a sleep is said to last
  at least as long as asked for.
\<close>

theorem idle_kernel_task_not_asleep:
  assumes "sched_run [SleepUntil w] (init_core sched_boot) = Some s" and "now < w"
    and "pick_next now ps s = (s', r)"
  shows "st_of s 0 = Blocked \<and> sc_current s' = 0 \<and> st_of s' 0 = Running"
proof -
  have inv: "sched_inv s" using sched_run_inv [OF sched_inv_init assms(1)] .
  have s: "sc_current s = 0" "st_of s 0 = Blocked" "ti_block_reason (sc_tasks s ! 0) = Sleep" "ti_wake_at (sc_tasks s ! 0) = w"
    "\<And>i. 0 < i \<Longrightarrow> i < MAX_TASKS \<Longrightarrow> st_of s i = TaskEmpty"
    using assms(1) by (auto simp: sleep_until_def upd_task_def init_core_def sched_boot_def ti_empty_def MAX_TASKS_def)
  have "\<not> eligible now ps s i" if "i < MAX_TASKS" for i
    using s that assms(2) by (cases "i = 0") (auto simp: eligible_def should_wake_def)
  then have "sc_current s' = 0" using pick_next_spec(1) [OF inv assms(3)] by (auto simp: chosen_def MAX_TASKS_def)
  with s pick_next_spec(3) [OF inv assms(3)] show ?thesis by (simp add: MAX_TASKS_def)
qed

theorem idle_kernel_task_not_asleep_witness:
  "\<exists>s s' r. sched_run [SleepUntil 10] (init_core sched_boot) = Some s \<and> pick_next 1 [] s = (s', r) \<and> st_of s' 0 = Running"
proof -
  obtain s where s: "sched_run [SleepUntil 10] (init_core sched_boot) = Some s" by simp
  obtain s' r where p: "pick_next 1 [] s = (s', r)" by (metis prod.exhaust)
  have "(1 :: u64) < 10" by simp
  from idle_kernel_task_not_asleep [OF s this p] s p show ?thesis by blast
qed

end
