(* ===== verification/Syscalls.thy ===== *)
theory Syscalls
  imports Users Scheduler Paths
begin

text \<open>
  The system-call layer where it touches memory of the caller, identity and blocking:
  \<^verbatim>\<open>src/kernel-core/src/syscall/mod.rs\<close>, with the identity rule of
  \<^verbatim>\<open>process/mod.rs\<close> for spawned children. The address space of the caller is a map from addresses
  to bytes (mapping faults are outside the model); a handler takes and returns the parts of the
  kernel state it uses. \<^verbatim>\<open>platform::schedule()\<close> is a call of \<open>pick_next\<close>, whose clock and pipe
  table are arguments; log output is left out.
\<close>

section \<open>Definitions: pointers of the caller\<close>

type_synonym memory = "u64 \<Rightarrow> u8"

definition U64_MAX :: u64 where "U64_MAX = 0xFFFFFFFFFFFFFFFF"
definition USER_ADDR_LIMIT :: u64 where "USER_ADDR_LIMIT = 0x800000000000"
definition NET_WOULDBLOCK :: u64 where "NET_WOULDBLOCK = 0xFFFFFFFFFFFFFFFE"

definition checked_add :: "u64 \<Rightarrow> u64 \<Rightarrow> u64 option" where
  "checked_add a b = (if unat a + unat b < 2 ^ 64 then Some (a + b) else None)"

definition validate_user_ptr :: "u64 \<Rightarrow> u64 \<Rightarrow> bool" where
  "validate_user_ptr ptr len =
     (if ptr = 0 \<or> len = 0 then False
      else if ptr \<ge> USER_ADDR_LIMIT then False
      else case checked_add ptr len of Some e \<Rightarrow> e \<le> USER_ADDR_LIMIT | None \<Rightarrow> False)"

definition caller_needs_validation :: "scheduler \<Rightarrow> bool" where
  "caller_needs_validation sc = current_task_is_user sc"

definition mem_read :: "memory \<Rightarrow> u64 \<Rightarrow> nat \<Rightarrow> u8 list" where
  "mem_read mem ptr n = map (\<lambda>i. mem (ptr + of_nat i)) [0..<n]"

fun mem_write :: "memory \<Rightarrow> u64 \<Rightarrow> u8 list \<Rightarrow> memory" where
  "mem_write mem ptr [] = mem"
| "mem_write mem ptr (b # bs) = mem_write (mem(ptr := b)) (ptr + 1) bs"

text \<open>\<^verbatim>\<open>usize\<close> has 64 bits, so the cast check of the length always passes.\<close>

definition read_caller_slice :: "scheduler \<Rightarrow> memory \<Rightarrow> u64 \<Rightarrow> u64 \<Rightarrow> u8 list option" where
  "read_caller_slice sc mem ptr len =
     (if caller_needs_validation sc \<and> \<not> validate_user_ptr ptr len then None
      else if len = 0 then None
      else Some (mem_read mem ptr (unat len)))"

definition read_caller_str :: "scheduler \<Rightarrow> memory \<Rightarrow> u64 \<Rightarrow> u64 \<Rightarrow> u8 list option" where
  "read_caller_str sc mem ptr len =
     (case read_caller_slice sc mem ptr len of
        None \<Rightarrow> None
      | Some bs \<Rightarrow> (if utf8_valid bs then Some bs else None))"

definition write_to_caller :: "scheduler \<Rightarrow> memory \<Rightarrow> u64 \<Rightarrow> u8 list \<Rightarrow> memory \<times> bool" where
  "write_to_caller sc mem ptr data =
     (if caller_needs_validation sc \<and> \<not> validate_user_ptr ptr (of_nat (length data)) then (mem, False)
      else (mem_write mem ptr data, True))"

section \<open>Definitions: pipes\<close>

definition pipe_write_blocking ::
  "scheduler \<Rightarrow> pipes \<Rightarrow> memory \<Rightarrow> nat \<Rightarrow> u64 \<Rightarrow> u64 \<Rightarrow> scheduler \<times> pipes \<times> u64" where
  "pipe_write_blocking sc ps mem p buf_ptr buf_len =
     (let n = min (unat buf_len) 4096
      in if n = 0 then (sc, ps, 0)
         else case read_caller_slice sc mem buf_ptr (of_nat n) of
                None \<Rightarrow> (sc, ps, U64_MAX)
              | Some data \<Rightarrow>
                  (case pipe_write ps p data of
                     (ps', Some k) \<Rightarrow> (sc, ps', if k = 0 then U64_MAX else of_nat k)
                   | (ps', None) \<Rightarrow> (pipe_write_block p sc, ps', 0)))"

definition pipe_read_blocking ::
  "scheduler \<Rightarrow> pipes \<Rightarrow> memory \<Rightarrow> nat \<Rightarrow> u64 \<Rightarrow> u64 \<Rightarrow> pipes \<times> memory \<times> u64" where
  "pipe_read_blocking sc ps mem p buf_ptr buf_len =
     (let n = min (unat buf_len) 4096
      in case pipe_read ps p n of
           (ps', Some bs) \<Rightarrow>
             (if bs \<noteq> []
              then (case write_to_caller sc mem buf_ptr bs of
                      (mem', True) \<Rightarrow> (ps', mem', of_nat (length bs))
                    | (mem', False) \<Rightarrow> (ps', mem', U64_MAX))
              else (ps', mem, 0))
         | (ps', None) \<Rightarrow> (ps', mem, NET_WOULDBLOCK))"

section \<open>Definitions: blocking calls\<close>

definition handle_sleep :: "u64 \<Rightarrow> u64 \<Rightarrow> pipes \<Rightarrow> u64 \<Rightarrow> scheduler \<Rightarrow> scheduler \<times> u64" where
  "handle_sleep now now' ps ticks sc =
     (if ticks = 0 then (sc, 0)
      else (fst (pick_next now' ps (sleep_until (now + ticks) sc)), 0))"

definition handle_futex_wait ::
  "u64 \<Rightarrow> pipes \<Rightarrow> memory \<Rightarrow> u64 \<Rightarrow> u64 \<Rightarrow> scheduler \<Rightarrow> scheduler \<times> u64" where
  "handle_futex_wait now ps mem addr expected sc =
     (if addr = 0 \<or> addr AND 3 \<noteq> 0 then (sc, U64_MAX)
      else if caller_needs_validation sc \<and> \<not> validate_user_ptr addr 4 then (sc, U64_MAX)
      else if ucast (of_le_bytes (mem_read mem addr 4) :: u32) \<noteq> expected then (sc, 1)
      else (fst (pick_next now ps (futex_block addr sc)), 0))"

definition handle_futex_wake :: "u64 \<Rightarrow> u64 \<Rightarrow> scheduler \<Rightarrow> scheduler \<times> u64" where
  "handle_futex_wake addr max_count sc =
     (if addr = 0 then (sc, 0)
      else case futex_wake addr (unat max_count) sc of (sc', n) \<Rightarrow> (sc', of_nat n))"

text \<open>
  \<^verbatim>\<open>handle_thread_join\<close> up to the point where the caller gives up the processor: \<open>Inr\<close> is an answer
  given at once, \<open>Inl\<close> the state in which it waits. When it runs again it answers with
  \<open>task_exit_code\<close> of the slot.
\<close>

definition handle_thread_join ::
  "u64 \<Rightarrow> pipes \<Rightarrow> u64 \<Rightarrow> scheduler \<Rightarrow> scheduler + u64" where
  "handle_thread_join now ps tid sc =
     (let slot = unat tid
      in if slot \<ge> MAX_TASKS then Inr U64_MAX
         else if slot = sc_current sc then Inr U64_MAX
         else if get_task_state slot sc = Exited then Inr (task_exit_code slot sc)
         else if get_task_state slot sc = TaskEmpty then Inr U64_MAX
         else Inl (fst (pick_next now ps (join_block slot sc))))"

section \<open>Definitions: identity\<close>

definition handle_getuid :: "scheduler \<Rightarrow> u64" where
  "handle_getuid sc = ucast (current_user_id sc)"

definition handle_setuid :: "user_registry \<Rightarrow> u64 \<Rightarrow> scheduler \<Rightarrow> scheduler \<times> u64" where
  "handle_setuid reg uid sc =
     (if uid > 255 then (sc, U64_MAX)
      else let target = ucast uid :: u8;
               requester = current_user_id sc
           in if \<not> can_setuid_to requester target reg then (sc, U64_MAX)
              else (set_current_user_id target sc, 0))"

definition sys_tier_from_u8 :: "u8 \<Rightarrow> security_tier" where
  "sys_tier_from_u8 t =
     (if t = 0 then Public else if t = 1 then Internal else if t = 2 then Sensitive else Secret)"

definition handle_create_user ::
  "scheduler \<Rightarrow> memory \<Rightarrow> user_registry \<Rightarrow> u64 \<Rightarrow> u64 \<Rightarrow> u64 \<Rightarrow> u64 \<Rightarrow> user_registry \<times> u64" where
  "handle_create_user sc mem reg name_ptr name_len t grp =
     (let requester = current_user_id sc
      in if \<not> is_privileged requester then (reg, U64_MAX)
         else if name_len = 0 \<or> unat name_len > MAX_USERNAME_LEN then (reg, U64_MAX)
         else case read_caller_str sc mem name_ptr name_len of
                None \<Rightarrow> (reg, U64_MAX)
              | Some name \<Rightarrow>
                  (let new_tier = sys_tier_from_u8 (min (min (ucast t) (current_task_max_tier sc)) 3);
                       group_id = ucast (grp AND 0xFF)
                   in case create_user reg name group_id new_tier of
                        (reg', Inr uid) \<Rightarrow> (reg', ucast uid)
                      | (reg', Inl _) \<Rightarrow> (reg', U64_MAX)))"

text \<open>
  The task of a process spawned by system call. On x86-64 the platform allocates the slot, builds the
  register context (not modelled) and makes the task ready; \<^verbatim>\<open>process/mod.rs\<close> then sets its user.
\<close>

definition spawn_user_task_with_cr3 :: "string \<Rightarrow> u8 \<Rightarrow> scheduler \<Rightarrow> scheduler \<times> nat option" where
  "spawn_user_task_with_cr3 name max_tier sc =
     (case alloc_task_slot name max_tier False sc of
        (sc1, Some slot, _) \<Rightarrow> (mark_ready slot sc1, Some slot)
      | (sc1, None, _) \<Rightarrow> (sc1, None))"

definition child_uid :: "user_id \<Rightarrow> user_id" where
  "child_uid caller_uid = (if caller_uid = USER_SYSTEM \<or> caller_uid = USER_ADMIN then caller_uid else USER_GUEST)"

definition spawn_child :: "string \<Rightarrow> u8 \<Rightarrow> scheduler \<Rightarrow> scheduler \<times> nat option" where
  "spawn_child name max_tier sc =
     (case spawn_user_task_with_cr3 name max_tier sc of
        (sc1, Some slot) \<Rightarrow>
          (case set_user_id slot (child_uid (current_user_id sc1)) sc1 of
             Some sc2 \<Rightarrow> (sc2, Some slot)
           | None \<Rightarrow> (sc1, None))
      | (sc1, None) \<Rightarrow> (sc1, None))"

text \<open>
  The text record of \<^verbatim>\<open>SYS_LOOKUP_USER\<close>. A writer gets the buffer and the position; it writes what
  fits after the position and returns the new position.
\<close>

definition write_str :: "u8 list \<Rightarrow> u8 list \<times> nat \<Rightarrow> u8 list \<times> nat" where
  "write_str src = (\<lambda>(out, p). let n = min (length out - p) (length src) in (copy_into p (take n src) out, p + n))"

text \<open>The digits, last one first; \<open>k\<close> bounds the loop by the length of the scratch array.\<close>

fun dec_digits :: "nat \<Rightarrow> u64 \<Rightarrow> u8 list" where
  "dec_digits 0 v = []"
| "dec_digits (Suc k) v = (if v > 0 then (48 + ucast (v mod 10)) # dec_digits k (v div 10) else [])"

definition write_dec :: "u64 \<Rightarrow> u8 list \<times> nat \<Rightarrow> u8 list \<times> nat" where
  "write_dec n = write_str (if n = 0 then [48] else rev (dec_digits 20 n))"

fun hex_digits :: "nat \<Rightarrow> u64 \<Rightarrow> u8 list" where
  "hex_digits 0 v = []"
| "hex_digits (Suc k) v =
     (if v > 0
      then (let nibble = ucast (v AND 0xF) :: u8
            in if nibble < 10 then 48 + nibble else 97 + nibble - 10) # hex_digits k (drop_bit 4 v)
      else [])"

definition write_hex :: "u64 \<Rightarrow> u8 list \<times> nat \<Rightarrow> u8 list \<times> nat" where
  "write_hex n = write_str (if n = 0 then [48] else rev (hex_digits 16 n))"

text \<open>The labels \<^verbatim>\<open>uid=\<close>, \<^verbatim>\<open>name=\<close>, \<^verbatim>\<open>tier=\<close>, \<^verbatim>\<open>group=\<close> and \<^verbatim>\<open>flags=0x\<close> in ASCII.\<close>

definition format_user_record :: "user_account \<Rightarrow> u8 list \<Rightarrow> u8 list \<times> nat" where
  "format_user_record a out =
     (write_hex (ucast (ua_flags a)) \<circ> write_str [32, 102, 108, 97, 103, 115, 61, 48, 120]
      \<circ> write_dec (ucast (ua_group a)) \<circ> write_str [32, 103, 114, 111, 117, 112, 61]
      \<circ> write_dec (ucast (tier_value (ua_default_max_tier a))) \<circ> write_str [32, 116, 105, 101, 114, 61]
      \<circ> write_str (ua_name a) \<circ> write_str [32, 110, 97, 109, 101, 61]
      \<circ> write_dec (ucast (ua_id a)) \<circ> write_str [117, 105, 100, 61]) (out, 0)"

definition handle_lookup_user ::
  "scheduler \<Rightarrow> memory \<Rightarrow> user_registry \<Rightarrow> u64 \<Rightarrow> u64 \<Rightarrow> u64 \<Rightarrow> memory \<times> u64" where
  "handle_lookup_user sc mem reg uid out_ptr out_len =
     (if uid > 255 then (mem, U64_MAX)
      else case ur_lookup reg (ucast uid) of
             None \<Rightarrow> (mem, 0)
           | Some a \<Rightarrow>
               (case format_user_record a (replicate 96 0) of
                  (scratch, written) \<Rightarrow>
                    (if written > unat out_len then (mem, U64_MAX)
                     else case write_to_caller sc mem out_ptr (take written scratch) of
                            (mem', True) \<Rightarrow> (mem', of_nat written)
                          | (mem', False) \<Rightarrow> (mem', U64_MAX))))"

section \<open>Lemmas: pointers\<close>

lemma validate_user_ptr_iff:
  "validate_user_ptr ptr len \<longleftrightarrow> 0 < unat ptr \<and> 0 < unat len \<and> unat ptr + unat len \<le> 2 ^ 47"
proof -
  have z: "(x = 0) = (unat x = 0)" for x :: u64 by (simp add: unat_eq_0)
  have "unat (ptr + len) = unat ptr + unat len" if "unat ptr + unat len < 2 ^ 64"
    using that by (simp add: unat_word_ariths)
  then show ?thesis
    by (auto simp: validate_user_ptr_def checked_add_def USER_ADDR_LIMIT_def word_le_nat_alt z split: if_splits)
qed

text \<open>Two memories that agree on the user half.\<close>

definition same_user_half :: "memory \<Rightarrow> memory \<Rightarrow> bool" where
  "same_user_half m m' \<longleftrightarrow> (\<forall>a. a < USER_ADDR_LIMIT \<longrightarrow> m a = m' a)"

lemma user_addr:
  assumes "validate_user_ptr ptr len" "i < unat len"
  shows "ptr + of_nat i < USER_ADDR_LIMIT"
proof -
  have b: "unat ptr + unat len \<le> 2 ^ 47" using assms(1) by (simp add: validate_user_ptr_iff)
  then have "i < 2 ^ 64" using assms(2) by simp
  then have "unat (of_nat i :: u64) = i" by (simp add: unat_of_nat take_bit_nat_eq_self)
  then have "unat (ptr + of_nat i) = unat ptr + i" using b assms(2) by (simp add: unat_word_ariths)
  then show ?thesis using b assms(2) by (simp add: word_less_nat_alt USER_ADDR_LIMIT_def)
qed

lemma mem_read_user:
  assumes "validate_user_ptr ptr len" "same_user_half m m'" "n \<le> unat len"
  shows "mem_read m ptr n = mem_read m' ptr n"
  using assms user_addr by (auto simp: mem_read_def same_user_half_def)

lemma mem_write_other: "(\<And>i. i < length bs \<Longrightarrow> a \<noteq> ptr + of_nat i) \<Longrightarrow> mem_write m ptr bs a = m a"
proof (induction bs arbitrary: m ptr)
  case (Cons b bs)
  have "a \<noteq> ptr + 1 + of_nat i" if "i < length bs" for i
    using Cons.prems [of "Suc i"] that by (simp add: add.assoc)
  moreover have "a \<noteq> ptr" using Cons.prems [of 0] by simp
  ultimately show ?case using Cons.IH by simp
qed simp

lemma read_caller_slice_user:
  assumes "current_task_is_user sc" "same_user_half m m'"
  shows "read_caller_slice sc m ptr len = read_caller_slice sc m' ptr len"
  using assms mem_read_user [of ptr len m m' "unat len"]
  by (simp add: read_caller_slice_def caller_needs_validation_def)

lemma write_to_caller_user:
  assumes "current_task_is_user sc" "write_to_caller sc m ptr data = (m', ok)" "length data < 2 ^ 64"
  shows "USER_ADDR_LIMIT \<le> a \<Longrightarrow> m' a = m a"
proof -
  assume a: "USER_ADDR_LIMIT \<le> a"
  show "m' a = m a"
  proof (cases "validate_user_ptr ptr (of_nat (length data))")
    case True
    have "unat (of_nat (length data) :: u64) = length data" using assms(3) by (simp add: unat_of_nat take_bit_nat_eq_self)
    with user_addr [OF True] a have "a \<noteq> ptr + of_nat i" if "i < length data" for i using that by fastforce
    with assms True show ?thesis by (auto simp: write_to_caller_def mem_write_other)
  qed (use assms in \<open>auto simp: write_to_caller_def caller_needs_validation_def\<close>)
qed

lemma pipe_read_length:
  "pipe_read ps p n = (ps', Some bs) \<Longrightarrow> length bs \<le> n"
  by (auto simp: pipe_read_def ring_read_def read_loop_eq Let_def split: if_splits)

text \<open>A writer never leaves the buffer.\<close>

definition in_buffer :: "nat \<Rightarrow> u8 list \<times> nat \<Rightarrow> bool" where
  "in_buffer n b \<longleftrightarrow> length (fst b) = n \<and> snd b \<le> n"

lemma in_buffer_write:
  "in_buffer n b \<Longrightarrow> in_buffer n (write_str src b)" "in_buffer n b \<Longrightarrow> in_buffer n (write_dec v b)"
  "in_buffer n b \<Longrightarrow> in_buffer n (write_hex v b)"
  by (cases b; auto simp: in_buffer_def write_str_def write_dec_def write_hex_def Let_def)+

lemma format_user_record_length: "in_buffer (length out) (format_user_record a out)"
  unfolding format_user_record_def comp_def by (intro in_buffer_write) (simp add: in_buffer_def)

section \<open>Lemmas: identity\<close>

text \<open>The steps of the scheduler that neither create a task nor set a user.\<close>

fun plain_op :: "sched_op \<Rightarrow> bool" where
  "plain_op (Spawn _ _ _ _) = False"
| "plain_op (SetUid _ _) = False"
| "plain_op _ = True"

abbreviation uid_of :: "scheduler \<Rightarrow> nat \<Rightarrow> user_id" where
  "uid_of s i \<equiv> ti_user_id (sc_tasks s ! i)"

lemma nth_upd_inv:
  "sched_inv s \<Longrightarrow> i < MAX_TASKS \<Longrightarrow>
     sc_tasks (upd_task k f s) ! i = (if i = k then f (sc_tasks s ! i) else sc_tasks s ! i)"
  by (simp add: st_of_upd sched_inv_def)

lemma upd_uid_same [simp]:
  "(\<And>t. ti_user_id (f t) = ti_user_id t) \<Longrightarrow> uid_of (upd_task k f s) i = uid_of s i"
  by (cases "k < length (sc_tasks s)"; cases "i = k") (simp_all add: upd_task_def list_update_beyond)

lemma plain_op_uid:
  assumes inv: "sched_inv s" and op: "plain_op op" and e: "sched_exec op s = Some s'" and i: "i < MAX_TASKS"
  shows "uid_of s' i = uid_of s i"
proof (cases op)
  case (Tick now ps)
  then show ?thesis using e pick_next_spec(5) [OF inv, of now ps] i
    by (metis option.inject prod.collapse sched_exec.simps(1))
next
  case (WakeFutex addr m)
  obtain n where w: "futex_wake addr m s = (s', n)" using WakeFutex e by (cases "futex_wake addr m s") simp
  show ?thesis using futex_wake_eq(3) [OF inv w i] by simp
qed (use e op i inv in \<open>auto simp: block_defs Let_def split: if_splits\<close>)

lemma setuid_cases:
  "handle_setuid reg uid s = (s', r) \<Longrightarrow> s' = s \<or>
     (\<exists>u. can_setuid_to (uid_of s (sc_current s)) u reg \<and> s' = upd_task (sc_current s) (\<lambda>t. t\<lparr>ti_user_id := u\<rparr>) s)"
  by (auto simp: handle_setuid_def Let_def set_current_user_id_def current_user_id_def current_task_def split: if_splits)

lemma setuid_effect:
  assumes inv: "sched_inv s" and h: "handle_setuid reg uid s = (s', r)"
  shows "sched_inv s'"
    and "i < MAX_TASKS \<Longrightarrow> uid_of s' i = uid_of s i
      \<or> i = sc_current s \<and> can_setuid_to (uid_of s i) (uid_of s' i) reg"
  using setuid_cases [OF h] inv by (auto intro!: sched_inv_upd simp: nth_upd_inv split: if_splits)

lemma spawn_child_effect:
  assumes inv: "sched_inv s" and sp: "spawn_child name t s = (s', r)"
  shows "sched_inv s'" and "i < MAX_TASKS \<Longrightarrow> r \<noteq> Some i \<Longrightarrow> uid_of s' i = uid_of s i"
    and "r = Some j \<Longrightarrow> j < MAX_TASKS \<and> uid_of s' j = child_uid (uid_of s (sc_current s))"
proof -
  obtain s1 r1 reaped where a: "alloc_task_slot_with_user name t False (current_user_id s) s = (s1, r1, reaped)" by (metis prod.exhaust)
  note A = alloc_effect [OF inv a]
  have "sched_inv s' \<and> (i < MAX_TASKS \<and> r \<noteq> Some i \<longrightarrow> uid_of s' i = uid_of s i)
    \<and> (r = Some j \<longrightarrow> j < MAX_TASKS \<and> uid_of s' j = child_uid (uid_of s (sc_current s)))"
  proof (cases r1)
    case None
    then have "s' = s" "r = None" using A sp a by (simp_all add: spawn_child_def spawn_user_task_with_cr3_def alloc_task_slot_def)
    with inv show ?thesis by simp
  next
    case (Some k)
    let ?f = "\<lambda>_. \<lparr>ti_id = sc_next_id s, ti_state = Blocked, ti_name = name, ti_run_count = 0, ti_max_tier = t,
      ti_is_kernel = False, ti_wake_at = 0, ti_block_reason = NoReason, ti_user_id = current_user_id s, ti_exit_code = 0\<rparr>"
    have k: "k < MAX_TASKS" and s1: "s1 = (upd_task k ?f s)\<lparr>sc_next_id := sc_next_id s + 1\<rparr>" using A Some by simp_all
    define s2 where "s2 = mark_ready k s1"
    have inv2: "sched_inv s2" unfolding s2_def mark_ready_def s1 by (auto intro!: sched_inv_upd inv)
    have c: "sc_current s < MAX_TASKS" "sc_current s2 = sc_current s" using inv by (simp_all add: sched_inv_def s2_def s1 mark_ready_def)
    have nth2: "uid_of s2 i = (if i = k then current_user_id s else uid_of s i)" if "i < MAX_TASKS" for i
    proof -
      have "uid_of s2 i = uid_of s1 i" by (simp add: s2_def mark_ready_def)
      also have "uid_of s1 i = (if i = k then current_user_id s else uid_of s i)" using nth_upd_inv [OF inv that, of k ?f] by (simp add: s1)
      finally show ?thesis .
    qed
    have "current_user_id s2 = current_user_id s" using nth2 [OF c(1)] c(2) by (simp add: current_user_id_def current_task_def)
    then have s': "s' = upd_task k (\<lambda>t. t\<lparr>ti_user_id := child_uid (current_user_id s)\<rparr>) s2" "r = Some k"
      using sp a Some k by (simp_all add: spawn_child_def spawn_user_task_with_cr3_def alloc_task_slot_def set_user_id_def s2_def)
    have "sched_inv s'" unfolding s' by (rule sched_inv_upd [OF inv2]) simp
    moreover have "uid_of s' i = uid_of s i" if "i < MAX_TASKS" "r \<noteq> Some i"
      using that nth_upd_inv [OF inv2 that(1)] nth2 [OF that(1)] by (simp add: s')
    moreover have "uid_of s' k = child_uid (uid_of s (sc_current s))"
      using nth_upd_inv [OF inv2 k] by (simp add: s' current_user_id_def current_task_def)
    ultimately show ?thesis using k s'(2) by auto
  qed
  then show "sched_inv s'" "i < MAX_TASKS \<Longrightarrow> r \<noteq> Some i \<Longrightarrow> uid_of s' i = uid_of s i"
    "r = Some j \<Longrightarrow> j < MAX_TASKS \<and> uid_of s' j = child_uid (uid_of s (sc_current s))" by simp_all
qed

text \<open>
  \<open>lineage s0 T0 s T\<close>: the kernel went from \<open>s0\<close> to \<open>s\<close>, and \<open>T\<close> are the tasks of \<open>T0\<close> that are
  left and the tasks they and their children spawned. A task the kernel itself starts, with a user
  it chooses, is not in the lineage.
\<close>

inductive lineage :: "scheduler \<Rightarrow> nat set \<Rightarrow> scheduler \<Rightarrow> nat set \<Rightarrow> bool" for s0 T0 where
  start: "lineage s0 T0 s0 T0"
| setuid: "lineage s0 T0 s T \<Longrightarrow> handle_setuid reg uid s = (s', r) \<Longrightarrow> lineage s0 T0 s' T"
| child: "lineage s0 T0 s T \<Longrightarrow> spawn_child name t s = (s', Some j) \<Longrightarrow>
    lineage s0 T0 s' (if sc_current s \<in> T then insert j T else T - {j})"
| full: "lineage s0 T0 s T \<Longrightarrow> spawn_child name t s = (s', None) \<Longrightarrow> lineage s0 T0 s' T"
| kernel: "lineage s0 T0 s T \<Longrightarrow> alloc_task_slot_with_user name t k uid s = (s', Some j, reaped) \<Longrightarrow>
    lineage s0 T0 s' (T - {j})"
| sched: "lineage s0 T0 s T \<Longrightarrow> plain_op op \<Longrightarrow> sched_exec op s = Some s' \<Longrightarrow> lineage s0 T0 s' T"

lemma kernel_spawn_effect:
  assumes "sched_inv s" and a: "alloc_task_slot_with_user name t k uid s = (s', Some j, reaped)"
  shows "sched_inv s'" and "i < MAX_TASKS \<Longrightarrow> i \<noteq> j \<Longrightarrow> uid_of s' i = uid_of s i"
  using alloc_effect [OF assms] assms(1) by (auto intro!: sched_inv_upd simp: nth_upd_inv)

text \<open>A property of users that setuid and the spawn rule keep holds for a whole lineage.\<close>

lemma setuid_rule:
  "can_setuid_to u v reg \<Longrightarrow> u = USER_SYSTEM \<or> u = USER_ADMIN \<and> v \<noteq> USER_SYSTEM"
  by (auto simp: can_setuid_to_def split: if_splits)

lemma child_uid_cases: "child_uid u = u \<and> is_privileged u \<or> child_uid u = USER_GUEST"
  by (auto simp: child_uid_def is_privileged_def)

lemma guest_unprivileged: "\<not> is_privileged USER_GUEST" "USER_GUEST \<noteq> USER_SYSTEM" "is_privileged USER_SYSTEM" "is_privileged USER_ADMIN"
  by (simp_all add: is_privileged_def USER_SYSTEM_def USER_ADMIN_def USER_GUEST_def)

lemma lineage_keeps:
  assumes "lineage s0 T0 s T" and "sched_inv s0" "T0 \<subseteq> {..<MAX_TASKS}" "\<forall>i \<in> T0. P (uid_of s0 i)"
    and setuid: "\<And>u v reg. P u \<Longrightarrow> can_setuid_to u v reg \<Longrightarrow> P v" and child: "\<And>u. P u \<Longrightarrow> P (child_uid u)"
  shows "sched_inv s \<and> T \<subseteq> {..<MAX_TASKS} \<and> (\<forall>i \<in> T. P (uid_of s i))"
  using assms(1)
proof (induction rule: lineage.induct)
  case start
  with assms(2-4) show ?case by blast
next
  case (setuid s T reg uid s' r)
  then have inv: "sched_inv s" and T: "T \<subseteq> {..<MAX_TASKS}" "\<forall>i \<in> T. P (uid_of s i)" by simp_all
  have "P (uid_of s' i)" if "i \<in> T" for i
    using setuid_effect(2) [OF inv setuid.hyps(2), of i] T that assms(5) by (metis lessThan_iff subsetD)
  then show ?case using setuid_effect(1) [OF inv setuid.hyps(2)] T by blast
next
  case (child s T name t s' j)
  then have inv: "sched_inv s" and T: "T \<subseteq> {..<MAX_TASKS}" "\<forall>i \<in> T. P (uid_of s i)" by simp_all
  note E = spawn_child_effect [OF inv child.hyps(2)]
  have "P (uid_of s' i)" if "i \<in> T" "i \<noteq> j" for i using E(2) [of i] T that by auto
  moreover have "P (uid_of s' j)" if "sc_current s \<in> T" using E(3) [OF refl] T(2) assms(6) that by simp
  ultimately have "P (uid_of s' i)" if "i \<in> (if sc_current s \<in> T then insert j T else T - {j})" for i
    using that by (cases "i = j") (auto split: if_splits)
  then show ?case using E(1,3) T(1) by auto
next
  case (full s T name t s')
  then have inv: "sched_inv s" and T: "T \<subseteq> {..<MAX_TASKS}" "\<forall>i \<in> T. P (uid_of s i)" by simp_all
  note E = spawn_child_effect [OF inv full.hyps(2)]
  show ?case using E(1,2) T by auto
next
  case (kernel s T name t k uid s' j reaped)
  then have inv: "sched_inv s" and T: "T \<subseteq> {..<MAX_TASKS}" "\<forall>i \<in> T. P (uid_of s i)" by simp_all
  note E = kernel_spawn_effect [OF inv kernel.hyps(2)]
  have "P (uid_of s' i)" if "i \<in> T - {j}" for i using E(2) [of i] T that by auto
  then show ?case using E(1) T by auto
next
  case (sched s T op s')
  then have inv: "sched_inv s" and T: "T \<subseteq> {..<MAX_TASKS}" "\<forall>i \<in> T. P (uid_of s i)" by simp_all
  show ?case using plain_op_uid [OF inv sched.hyps(2,3)] sched_exec_inv [OF inv sched.hyps(3)] T by auto
qed

section \<open>Properties\<close>

text \<open>
  (C15) No escalation of privilege. Take any tasks of a running kernel, and follow them and everything
  they spawn through any schedule of set-user and spawn calls, with any user registry: if none of
  them acts as SYSTEM, none of them ever does; and if they all act as ordinary users, every one of
  them acts for one of the users they had at the start or as GUEST, so none ever becomes ADMIN.
\<close>

theorem no_privilege_escalation:
  assumes "sched_run ops (init_core sched_boot) = Some s0" and "T0 \<subseteq> {..<16}" and "lineage s0 T0 s T"
  shows "((\<forall>i \<in> T0. ti_user_id (sc_tasks s0 ! i) \<noteq> USER_SYSTEM) \<longrightarrow> (\<forall>i \<in> T. ti_user_id (sc_tasks s ! i) \<noteq> USER_SYSTEM))
    \<and> ((\<forall>i \<in> T0. \<not> is_privileged (ti_user_id (sc_tasks s0 ! i))) \<longrightarrow>
        (\<forall>i \<in> T. ti_user_id (sc_tasks s ! i) \<in> insert USER_GUEST ((\<lambda>i. ti_user_id (sc_tasks s0 ! i)) ` T0)))"
proof -
  have inv: "sched_inv s0" using sched_run_inv [OF sched_inv_init assms(1)] .
  have T0: "T0 \<subseteq> {..<MAX_TASKS}" using assms(2) by (simp add: MAX_TASKS_def)
  let ?U = "insert USER_GUEST ((\<lambda>i. ti_user_id (sc_tasks s0 ! i)) ` T0)"
  note K = lineage_keeps [OF assms(3) inv T0]
  have "(\<forall>i \<in> T0. ti_user_id (sc_tasks s0 ! i) \<noteq> USER_SYSTEM) \<longrightarrow> (\<forall>i \<in> T. ti_user_id (sc_tasks s ! i) \<noteq> USER_SYSTEM)"
    using K [of "\<lambda>u. u \<noteq> USER_SYSTEM"] setuid_rule child_uid_cases guest_unprivileged(2) by metis
  moreover have "(\<forall>i \<in> T0. \<not> is_privileged (ti_user_id (sc_tasks s0 ! i))) \<longrightarrow> (\<forall>i \<in> T. ti_user_id (sc_tasks s ! i) \<in> ?U)"
  proof
    assume u: "\<forall>i \<in> T0. \<not> is_privileged (ti_user_id (sc_tasks s0 ! i))"
    have "sched_inv s \<and> T \<subseteq> {..<MAX_TASKS} \<and> (\<forall>i \<in> T. uid_of s i \<in> ?U \<and> \<not> is_privileged (uid_of s i))"
    proof (rule K)
      show "v \<in> ?U \<and> \<not> is_privileged v" if "u \<in> ?U \<and> \<not> is_privileged u" "can_setuid_to u v reg" for u v reg
        using setuid_rule [OF that(2)] that(1) guest_unprivileged(3,4) by metis
      show "child_uid u \<in> ?U \<and> \<not> is_privileged (child_uid u)" if "u \<in> ?U \<and> \<not> is_privileged u" for u
        using child_uid_cases [of u] that guest_unprivileged(1) by (metis insertCI)
    qed (use u in blast)
    then show "\<forall>i \<in> T. ti_user_id (sc_tasks s ! i) \<in> ?U" by blast
  qed
  ultimately show ?thesis by blast
qed

theorem no_privilege_escalation_witness:
  "\<exists>s0 s T. sched_run [Spawn ''u'' 0 False 10, MarkReady 1, Tick 1 []] (init_core sched_boot) = Some s0
    \<and> lineage s0 {1} s T \<and> (\<forall>i \<in> T. ti_user_id (sc_tasks s ! i) \<in> {USER_GUEST, 10})"
proof -
  let ?ops = "[Spawn ''u'' 0 False 10, MarkReady 1, Tick 1 []]"
  obtain s0 where s0: "sched_run ?ops (init_core sched_boot) = Some s0" by simp
  have inv: "sched_inv (mark_ready 1 (fst (alloc_task_slot_with_user ''u'' 0 False 10 (init_core sched_boot))))"
    using sched_run_inv [OF sched_inv_init, of "[Spawn ''u'' 0 False 10, MarkReady 1]"] by simp
  have "uid_of s0 1 = 10"
    using s0 plain_op_uid [OF inv, of "Tick 1 []" s0 1]
    by (auto simp: alloc_task_slot_with_user_def init_core_def sched_boot_def MAX_TASKS_def ti_empty_def
        reusable_def mark_ready_def upd_task_def numeral_eq_Suc)
  moreover have "\<not> is_privileged 10" by (simp add: is_privileged_def USER_SYSTEM_def USER_ADMIN_def)
  moreover obtain s r where "handle_setuid (ur_init ur_new) 1 s0 = (s, r)" by (metis prod.exhaust)
  then have "lineage s0 {1} s {1}" by (rule lineage.setuid [OF lineage.start])
  moreover have "{1} \<subseteq> {..<16 :: nat}" by simp
  ultimately show ?thesis using no_privilege_escalation [OF s0, of "{1}" s "{1}"] s0 by auto
qed

text \<open>
  (C36) The calls of a user task stay in the user half of the address space. What they read is
  determined by the user half alone: two memories that agree below the limit give the same name, the
  same bytes for a pipe, the same decision of a futex wait. What they write is below the limit: a
  pipe read and a user lookup leave every address at or above it unchanged.
\<close>

theorem user_calls_stay_in_user_half:
  assumes "current_task_is_user sc"
  shows "(same_user_half m m' \<longrightarrow>
      handle_create_user sc m reg p n t g = handle_create_user sc m' reg p n t g
      \<and> pipe_write_blocking sc ps m k p n = pipe_write_blocking sc ps m' k p n
      \<and> handle_futex_wait now ps m p n sc = handle_futex_wait now ps m' p n sc)
    \<and> (USER_ADDR_LIMIT \<le> a \<longrightarrow>
      fst (snd (pipe_read_blocking sc ps m k p n)) a = m a \<and> fst (handle_lookup_user sc m reg u p n) a = m a)"
proof -
  have R: "handle_create_user sc m reg p n t g = handle_create_user sc m' reg p n t g
      \<and> pipe_write_blocking sc ps m k p n = pipe_write_blocking sc ps m' k p n
      \<and> handle_futex_wait now ps m p n sc = handle_futex_wait now ps m' p n sc" if s: "same_user_half m m'"
  proof (intro conjI)
    note r = read_caller_slice_user [OF assms s]
    show "handle_create_user sc m reg p n t g = handle_create_user sc m' reg p n t g"
      unfolding handle_create_user_def read_caller_str_def r ..
    show "pipe_write_blocking sc ps m k p n = pipe_write_blocking sc ps m' k p n"
      unfolding pipe_write_blocking_def r ..
    show "handle_futex_wait now ps m p n sc = handle_futex_wait now ps m' p n sc"
      using mem_read_user [OF _ s, of p 4 4] assms by (simp add: handle_futex_wait_def caller_needs_validation_def)
  qed
  have P: "fst (snd (pipe_read_blocking sc ps m k p n)) a = m a" if "USER_ADDR_LIMIT \<le> a"
  proof (cases "pipe_read ps k (min (unat n) 4096)")
    case (Pair ps' r)
    have "length bs < 2 ^ 64" if "r = Some bs" for bs using pipe_read_length [of ps k "min (unat n) 4096" ps' bs] Pair that by simp
    then show ?thesis using Pair write_to_caller_user [OF assms _ _ that, of m p]
      by (auto simp: pipe_read_blocking_def Let_def split: option.splits prod.splits bool.splits)
  qed
  have L: "fst (handle_lookup_user sc m reg u p n) a = m a" if "USER_ADDR_LIMIT \<le> a"
  proof (cases "ur_lookup reg (ucast u)")
    case (Some acc)
    obtain scratch w where fm: "format_user_record acc (replicate 96 0) = (scratch, w)" by (metis prod.exhaust)
    then have "length (take w scratch) < 2 ^ 64"
      using format_user_record_length [of "replicate 96 0" acc] by (simp add: in_buffer_def)
    then show ?thesis using Some fm write_to_caller_user [OF assms _ _ that, of m p "take w scratch"]
      by (auto simp: handle_lookup_user_def split: prod.splits bool.splits)
  qed (simp add: handle_lookup_user_def)
  from R P L show ?thesis by blast
qed

theorem user_calls_stay_in_user_half_witness:
  "\<exists>sc. current_task_is_user sc \<and> same_user_half (\<lambda>_. 0) (\<lambda>a. if a < USER_ADDR_LIMIT then 0 else 1)
     \<and> handle_futex_wait 0 [] (\<lambda>_. 0) 8 0 sc = handle_futex_wait 0 [] (\<lambda>a. if a < USER_ADDR_LIMIT then 0 else 1) 8 0 sc"
proof -
  let ?sc = "sched_boot\<lparr>sc_tasks := [ti_empty\<lparr>ti_is_kernel := False\<rparr>]\<rparr>"
  have u: "current_task_is_user ?sc" by (simp add: current_task_is_user_def current_task_def sched_boot_def)
  have h: "same_user_half (\<lambda>_. 0) (\<lambda>a. if a < USER_ADDR_LIMIT then 0 else 1)" by (simp add: same_user_half_def)
  show ?thesis using user_calls_stay_in_user_half [OF u] u h by blast
qed

end
