(* ===== verification/Processes.thy ===== *)
theory Processes
  imports Proc_Caps Suid Syscalls
begin

text \<open>
  Processes: \<^verbatim>\<open>src/kernel-core/src/process/mod.rs\<close>, the descriptor table and the environment block
  of a process, the process table, spawning, exit and wait. The process identifier that
  \<^verbatim>\<open>current_pid()\<close> reads is an argument. What the platform does for a new address space is outside
  the model; a blocking loop is modelled by its turns. The theory shows that descriptors are handed
  out lowest first, and that the environment block is a map.
\<close>

section \<open>Definitions: basic types\<close>

type_synonym pid = u32
type_synonym i32 = "32 word"

definition PID_KERNEL :: pid where "PID_KERNEL = 0"
definition PID_INIT :: pid where "PID_INIT = 1"

datatype process_state = Creating | PRunning | Waiting | Stopped | Zombie | Dead

record exit_status =
  es_code :: i32
  es_signaled :: bool
  es_signal :: u8

definition es_success :: exit_status where
  "es_success = \<lparr>es_code = 0, es_signaled = False, es_signal = 0\<rparr>"

definition es_failure :: "i32 \<Rightarrow> exit_status" where
  "es_failure code = \<lparr>es_code = code, es_signaled = False, es_signal = 0\<rparr>"

definition es_killed :: "u8 \<Rightarrow> exit_status" where
  "es_killed signal = \<lparr>es_code = 128 + ucast signal, es_signaled = True, es_signal = signal\<rparr>"

section \<open>Definitions: descriptor tables\<close>

datatype fd_entry =
    FdEmpty
  | FdConsole
  | FdPath suid u32 bool
  | FdRamfs u32
  | FdPipe (pipe_of: u32) (is_read_end: bool)
  | FdSysrootBlob u32 u64

definition MAX_FDS :: nat where "MAX_FDS = 64"

record fd_table =
  fd_entries :: "fd_entry list"
  fd_next :: nat

definition fds_new :: fd_table where
  "fds_new = \<lparr>fd_entries = replicate MAX_FDS FdEmpty, fd_next = 0\<rparr>"

definition with_stdio :: fd_table where
  "with_stdio = fds_new\<lparr>fd_entries := (fd_entries fds_new)[0 := FdConsole, 1 := FdConsole, 2 := FdConsole],
     fd_next := 3\<rparr>"

definition fd_alloc :: "fd_table \<Rightarrow> fd_entry \<Rightarrow> fd_table \<times> nat option" where
  "fd_alloc t e =
     (case List.find (\<lambda>i. fd_entries t ! i = FdEmpty) [fd_next t..<MAX_FDS] of
        Some i \<Rightarrow> (t\<lparr>fd_entries := (fd_entries t)[i := e], fd_next := i + 1\<rparr>, Some i)
      | None \<Rightarrow>
          (case List.find (\<lambda>i. fd_entries t ! i = FdEmpty) [0..<fd_next t] of
             Some i \<Rightarrow> (t\<lparr>fd_entries := (fd_entries t)[i := e]\<rparr>, Some i)
           | None \<Rightarrow> (t, None)))"

text \<open>The test \<^verbatim>\<open>fd >= 0 && (fd as usize) < MAX_FDS\<close>.\<close>

definition fd_index :: "i32 \<Rightarrow> nat option" where
  "fd_index fd = (if 0 \<le> sint fd \<and> nat (sint fd) < MAX_FDS then Some (nat (sint fd)) else None)"

definition fd_get :: "fd_table \<Rightarrow> i32 \<Rightarrow> fd_entry option" where
  "fd_get t fd =
     (case fd_index fd of
        Some i \<Rightarrow> (if fd_entries t ! i = FdEmpty then None else Some (fd_entries t ! i))
      | None \<Rightarrow> None)"

text \<open>A write through \<^verbatim>\<open>get_mut\<close>.\<close>

definition fd_modify :: "fd_table \<Rightarrow> i32 \<Rightarrow> (fd_entry \<Rightarrow> fd_entry) \<Rightarrow> fd_table \<times> bool" where
  "fd_modify t fd f =
     (case fd_index fd of
        Some i \<Rightarrow>
          (if fd_entries t ! i = FdEmpty then (t, False)
           else (t\<lparr>fd_entries := (fd_entries t)[i := f (fd_entries t ! i)]\<rparr>, True))
      | None \<Rightarrow> (t, False))"

definition fd_close :: "fd_table \<Rightarrow> i32 \<Rightarrow> fd_table \<times> bool" where
  "fd_close t fd =
     (case fd_index fd of
        Some i \<Rightarrow>
          (if fd_entries t ! i \<noteq> FdEmpty
           then (t\<lparr>fd_entries := (fd_entries t)[i := FdEmpty],
                   fd_next := if i < fd_next t then i else fd_next t\<rparr>, True)
           else (t, False))
      | None \<Rightarrow> (t, False))"

definition fd_dup :: "fd_table \<Rightarrow> i32 \<Rightarrow> fd_table \<times> nat option" where
  "fd_dup t old_fd = (case fd_get t old_fd of Some e \<Rightarrow> fd_alloc t e | None \<Rightarrow> (t, None))"

definition fd_dup2 :: "fd_table \<Rightarrow> i32 \<Rightarrow> i32 \<Rightarrow> fd_table \<times> nat option" where
  "fd_dup2 t old_fd new_fd =
     (case fd_index new_fd of
        None \<Rightarrow> (t, None)
      | Some i \<Rightarrow>
          (case fd_get t old_fd of
             Some e \<Rightarrow> (t\<lparr>fd_entries := (fd_entries t)[i := e]\<rparr>, Some i)
           | None \<Rightarrow> (t, None)))"

section \<open>Definitions: the process control block\<close>

text \<open>\<^verbatim>\<open>str::as_bytes\<close>.\<close>

definition str_bytes :: "string \<Rightarrow> u8 list" where
  "str_bytes s = map of_char s"

definition MAX_CHILDREN :: nat where "MAX_CHILDREN = 32"
definition ENV_BLOCK_SIZE :: nat where "ENV_BLOCK_SIZE = 512"

record process =
  pr_pid :: pid
  pr_parent :: "pid option"
  pr_children :: "pid option list"
  pr_child_count :: nat
  pr_task_id :: "nat option"
  pr_state :: process_state
  pr_exit_status :: exit_status
  pr_capabilities :: proc_caps
  pr_fds :: fd_table
  pr_name :: "u8 list"
  pr_name_len :: nat
  pr_cwd :: "u8 list"
  pr_cwd_len :: nat
  pr_env :: "u8 list"
  pr_env_len :: nat
  pr_entry_point :: u64
  pr_stack_ptr :: u64
  pr_brk :: u64

definition process_new :: "pid \<Rightarrow> pid option \<Rightarrow> u8 list \<Rightarrow> process" where
  "process_new p parent name =
     (let copy_len = min (length name) 31
      in \<lparr>pr_pid = p, pr_parent = parent, pr_children = replicate MAX_CHILDREN None, pr_child_count = 0,
          pr_task_id = None, pr_state = Creating, pr_exit_status = es_success,
          pr_capabilities = pcs_empty, pr_fds = with_stdio,
          pr_name = copy_into 0 (take copy_len name) (replicate 32 0), pr_name_len = copy_len,
          pr_cwd = (replicate 128 0)[0 := SLASH], pr_cwd_len = 1,
          pr_env = replicate ENV_BLOCK_SIZE 0, pr_env_len = 0,
          pr_entry_point = 0, pr_stack_ptr = 0, pr_brk = 0\<rparr>)"

definition process_kernel :: process where
  "process_kernel = (process_new PID_KERNEL None (str_bytes ''kernel''))\<lparr>pr_capabilities := pcs_all, pr_state := PRunning\<rparr>"

definition process_init :: process where
  "process_init = (process_new PID_INIT (Some PID_KERNEL) (str_bytes ''init''))\<lparr>pr_capabilities := default_user\<rparr>"

definition pr_add_child :: "process \<Rightarrow> pid \<Rightarrow> process \<times> bool" where
  "pr_add_child p child =
     (case position (\<lambda>c. c = None) (pr_children p) of
        Some i \<Rightarrow> (p\<lparr>pr_children := (pr_children p)[i := Some child], pr_child_count := pr_child_count p + 1\<rparr>, True)
      | None \<Rightarrow> (p, False))"

definition pr_remove_child :: "process \<Rightarrow> pid \<Rightarrow> process \<times> bool" where
  "pr_remove_child p child =
     (case position (\<lambda>c. c = Some child) (pr_children p) of
        Some i \<Rightarrow> (p\<lparr>pr_children := (pr_children p)[i := None], pr_child_count := pr_child_count p - 1\<rparr>, True)
      | None \<Rightarrow> (p, False))"

definition has_capability :: "process \<Rightarrow> proc_capability \<Rightarrow> bool" where
  "has_capability p c = pcs_has (pr_capabilities p) c"

definition cwd_str :: "process \<Rightarrow> u8 list" where
  "cwd_str p = take (pr_cwd_len p) (pr_cwd p)"

definition set_cwd :: "process \<Rightarrow> u8 list \<Rightarrow> process \<times> bool" where
  "set_cwd p path =
     (if \<not> (path \<noteq> [] \<and> hd path = SLASH) \<or> length path > length (pr_cwd p) then (p, False)
      else (p\<lparr>pr_cwd := copy_into 0 path (pr_cwd p), pr_cwd_len := length path\<rparr>, True))"

section \<open>Definitions: the environment block\<close>

definition EQUALS :: u8 where "EQUALS = 0x3D"

text \<open>\<^verbatim>\<open>while end < self.env_len && self.env[end] != 0 { end += 1 }\<close>\<close>

function entry_end :: "u8 list \<Rightarrow> nat \<Rightarrow> nat \<Rightarrow> nat" where
  "entry_end env env_len e =
     (if e < env_len \<and> env ! e \<noteq> 0 then entry_end env env_len (e + 1) else e)"
  by pat_completeness auto
termination
  by (relation "measure (\<lambda>(env, env_len, e). env_len - e)") auto

declare entry_end.simps [simp del]

lemma entry_end_ge: "e \<le> entry_end env env_len e"
proof (induction env env_len e rule: entry_end.induct)
  case (1 env env_len e)
  then show ?case by (subst entry_end.simps) (use Suc_leD in auto)
qed

function env_scan :: "u8 list \<Rightarrow> nat \<Rightarrow> u8 list \<Rightarrow> nat \<Rightarrow> u8 list option" where
  "env_scan env env_len key start =
     (if start < env_len
      then let e = entry_end env env_len start;
               entry = slice start (e - start) env
           in case position (\<lambda>b. b = EQUALS) entry of
                Some eq \<Rightarrow>
                  (if take eq entry = key then Some (drop (eq + 1) entry) else env_scan env env_len key (e + 1))
              | None \<Rightarrow> env_scan env env_len key (e + 1)
      else None)"
  by pat_completeness auto
termination
  by (relation "measure (\<lambda>(env, env_len, key, start). env_len - start)")
    (use entry_end_ge less_Suc_eq_le in \<open>auto intro: diff_less_mono2\<close>)

declare env_scan.simps [simp del]

definition env_get :: "process \<Rightarrow> u8 list \<Rightarrow> u8 list option" where
  "env_get p key = env_scan (pr_env p) (pr_env_len p) key 0"

text \<open>Step 1 of \<^verbatim>\<open>env_set\<close>: the block and its length without the first entry of that key.\<close>

function env_delete :: "u8 list \<Rightarrow> nat \<Rightarrow> u8 list \<Rightarrow> nat \<Rightarrow> u8 list \<times> nat" where
  "env_delete env env_len key start =
     (if start < env_len
      then let e = entry_end env env_len start;
               entry = slice start (e - start) env
           in if (case position (\<lambda>b. b = EQUALS) entry of Some eq \<Rightarrow> take eq entry = key | None \<Rightarrow> False)
              then let consumed = (if e < env_len then e - start + 1 else e - start);
                       tail_src_start = start + consumed;
                       tail_len = env_len - tail_src_start
                   in (copy_into start (slice tail_src_start tail_len env) env, env_len - consumed)
              else env_delete env env_len key (e + 1)
      else (env, env_len))"
  by pat_completeness auto
termination
  by (relation "measure (\<lambda>(env, env_len, key, start). env_len - start)")
    (use entry_end_ge less_Suc_eq_le in \<open>auto intro: diff_less_mono2\<close>)

declare env_delete.simps [simp del]

definition env_set :: "process \<Rightarrow> u8 list \<Rightarrow> u8 list \<Rightarrow> process \<times> bool" where
  "env_set p key value =
     (let (env, env_len) = env_delete (pr_env p) (pr_env_len p) key 0;
          p = p\<lparr>pr_env := env, pr_env_len := env_len\<rparr>;
          needed = length key + 1 + length value + 1
      in if env_len + needed > length env then (p, False)
         else let env = copy_into env_len key env;
                  env = env[env_len + length key := EQUALS];
                  env = copy_into (env_len + length key + 1) value env;
                  env = env[env_len + length key + 1 + length value := 0]
              in (p\<lparr>pr_env := env, pr_env_len := env_len + needed\<rparr>, True))"

definition inherit_env_cwd_from :: "process \<Rightarrow> process \<Rightarrow> process" where
  "inherit_env_cwd_from p parent =
     p\<lparr>pr_cwd := copy_into 0 (take (pr_cwd_len parent) (pr_cwd parent)) (pr_cwd p), pr_cwd_len := pr_cwd_len parent,
       pr_env := copy_into 0 (take (pr_env_len parent) (pr_env parent)) (pr_env p), pr_env_len := pr_env_len parent\<rparr>"

definition pr_exit :: "exit_status \<Rightarrow> process \<Rightarrow> process" where
  "pr_exit status p = p\<lparr>pr_exit_status := status, pr_state := Zombie\<rparr>"

definition pr_reap :: "process \<Rightarrow> process \<times> exit_status" where
  "pr_reap p = (p\<lparr>pr_state := Dead\<rparr>, pr_exit_status p)"

section \<open>Definitions: the process table\<close>

definition MAX_PROCESSES :: nat where "MAX_PROCESSES = 64"

record process_table =
  pt_processes :: "process option list"
  pt_count :: nat

definition pt_new :: process_table where
  "pt_new = \<lparr>pt_processes = replicate MAX_PROCESSES None, pt_count = 0\<rparr>"

definition pt_get :: "process_table \<Rightarrow> pid \<Rightarrow> process option" where
  "pt_get t p = (if unat p < MAX_PROCESSES then pt_processes t ! unat p else None)"

text \<open>A write through \<^verbatim>\<open>get_mut\<close>; nothing happens when there is no such process.\<close>

definition pt_modify :: "pid \<Rightarrow> (process \<Rightarrow> process) \<Rightarrow> process_table \<Rightarrow> process_table" where
  "pt_modify p f t =
     (case pt_get t p of
        Some q \<Rightarrow> t\<lparr>pt_processes := (pt_processes t)[unat p := Some (f q)]\<rparr>
      | None \<Rightarrow> t)"

definition pt_insert :: "process \<Rightarrow> process_table \<Rightarrow> process_table \<times> bool" where
  "pt_insert q t =
     (let idx = unat (pr_pid q)
      in if idx < MAX_PROCESSES \<and> pt_processes t ! idx = None
         then (t\<lparr>pt_processes := (pt_processes t)[idx := Some q], pt_count := pt_count t + 1\<rparr>, True)
         else (t, False))"

definition pt_remove :: "pid \<Rightarrow> process_table \<Rightarrow> process_table \<times> process option" where
  "pt_remove p t =
     (case pt_get t p of
        Some q \<Rightarrow> (t\<lparr>pt_processes := (pt_processes t)[unat p := None], pt_count := pt_count t - 1\<rparr>, Some q)
      | None \<Rightarrow> (t, None))"

definition alloc_pid :: "process_table \<Rightarrow> pid option" where
  "alloc_pid t = map_option of_nat (List.find (\<lambda>i. pt_processes t ! i = None) [2..<MAX_PROCESSES])"

definition pt_iter :: "process_table \<Rightarrow> process list" where
  "pt_iter t = List.map_filter id (pt_processes t)"

definition pt_iter_mut :: "(process \<Rightarrow> process) \<Rightarrow> process_table \<Rightarrow> process_table" where
  "pt_iter_mut f t = t\<lparr>pt_processes := map (map_option f) (pt_processes t)\<rparr>"

definition find_pid_by_task :: "process_table \<Rightarrow> nat \<Rightarrow> pid option" where
  "find_pid_by_task t slot = map_option pr_pid (List.find (\<lambda>p. pr_task_id p = Some slot) (pt_iter t))"

definition process_boot :: process_table where
  "process_boot = fst (pt_insert process_init (fst (pt_insert (process_kernel\<lparr>pr_task_id := Some 0\<rparr>) pt_new)))"

definition kernel_task_id :: "process_table \<Rightarrow> nat option" where
  "kernel_task_id t = Option.bind (pt_get t PID_KERNEL) pr_task_id"

definition set_kernel_task_id :: "nat option \<Rightarrow> process_table \<Rightarrow> process_table" where
  "set_kernel_task_id slot t = pt_modify PID_KERNEL (\<lambda>k. k\<lparr>pr_task_id := slot\<rparr>) t"

section \<open>Definitions: spawn\<close>

text \<open>The end of every spawn: insert the process, enter it among the children of the parent.\<close>

definition enter_process :: "pid \<Rightarrow> process \<Rightarrow> process_table \<Rightarrow> process_table" where
  "enter_process parent q t = pt_modify parent (\<lambda>p. fst (pr_add_child p (pr_pid q))) (fst (pt_insert q t))"

text \<open>Kernel-mode and user-mode spawn; a task slot that cannot be had ends the call before the table changes.\<close>

definition spawn_process :: "pid \<Rightarrow> string \<Rightarrow> process_table \<times> scheduler \<Rightarrow> (process_table \<times> scheduler) \<times> pid option" where
  "spawn_process cur name = (\<lambda>(t, sc).
     case alloc_pid t of
       None \<Rightarrow> ((t, sc), None)
     | Some p \<Rightarrow>
         (let q = process_new p (Some cur) (str_bytes name);
              q = (case pt_get t cur of Some parent \<Rightarrow> q\<lparr>pr_capabilities := inherit (pr_capabilities parent)\<rparr> | None \<Rightarrow> q)
          in case alloc_task_slot name (current_task_max_tier sc) True sc of
               (sc', None, _) \<Rightarrow> ((t, sc'), None)
             | (sc', Some slot, _) \<Rightarrow>
                 ((enter_process cur (q\<lparr>pr_task_id := Some slot, pr_state := PRunning\<rparr>) t, sc'), Some p)))"

definition spawn_user :: "pid \<Rightarrow> string \<Rightarrow> process_table \<times> scheduler \<Rightarrow> (process_table \<times> scheduler) \<times> pid option" where
  "spawn_user cur name = (\<lambda>(t, sc).
     case alloc_pid t of
       None \<Rightarrow> ((t, sc), None)
     | Some p \<Rightarrow>
         (let q = (process_new p (Some cur) (str_bytes name))\<lparr>pr_capabilities := pcs_minimal\<rparr>
          in case alloc_task_slot name (tier_value Public) False sc of
               (sc', None, _) \<Rightarrow> ((t, sc'), None)
             | (sc', Some slot, _) \<Rightarrow>
                 ((enter_process cur (q\<lparr>pr_task_id := Some slot, pr_state := PRunning\<rparr>) t, sc'), Some p)))"

section \<open>Definitions: exit and wait\<close>

fun reparent :: "pid list \<Rightarrow> process_table \<Rightarrow> process_table" where
  "reparent [] t = t"
| "reparent (c # cs) t =
     reparent cs (pt_modify PID_INIT (\<lambda>i. fst (pr_add_child i c)) (pt_modify c (\<lambda>p. p\<lparr>pr_parent := Some PID_INIT\<rparr>) t))"

definition wake_parent :: "pid option \<Rightarrow> process_table \<Rightarrow> process_table" where
  "wake_parent parent t =
     (case parent of
        Some p \<Rightarrow> pt_modify p (\<lambda>q. if pr_state q = Waiting then q\<lparr>pr_state := PRunning\<rparr> else q) t
      | None \<Rightarrow> t)"

text \<open>\<^verbatim>\<open>process::exit\<close> up to the loop that gives the processor away for good.\<close>

definition process_exit :: "pid \<Rightarrow> i32 \<Rightarrow> process_table \<Rightarrow> process_table" where
  "process_exit cur code t =
     (case pt_get t cur of
        None \<Rightarrow> t
      | Some p \<Rightarrow>
          (let t = pt_modify cur (pr_exit (es_failure code)) t;
               t = reparent (List.map_filter id (pr_children p)) t;
               parent = (case pt_get t cur of Some q \<Rightarrow> pr_parent q | None \<Rightarrow> None)
           in wake_parent parent t))"

datatype 'a wait_result = WaitNone | WaitBlocks | WaitDone 'a

text \<open>One turn of the loop of \<^verbatim>\<open>wait\<close>, with what follows it when the child is a zombie.\<close>

definition wait_turn :: "pid \<Rightarrow> pid \<Rightarrow> process_table \<Rightarrow> process_table \<times> exit_status wait_result" where
  "wait_turn cur child t =
     (case pt_get t child of
        None \<Rightarrow> (t, WaitNone)
      | Some c \<Rightarrow>
          (if pr_state c \<noteq> Zombie
           then (pt_modify cur (\<lambda>p. p\<lparr>pr_state := Waiting\<rparr>) t, WaitBlocks)
           else let (c', status) = pr_reap c;
                    t = pt_modify child (\<lambda>_. c') t;
                    t = pt_modify cur (\<lambda>p. (fst (pr_remove_child p child))\<lparr>pr_state := PRunning\<rparr>) t
                in (fst (pt_remove child t), WaitDone status)))"

definition process_wait :: "pid \<Rightarrow> pid \<Rightarrow> process_table \<Rightarrow> process_table \<times> exit_status wait_result" where
  "process_wait cur child t =
     (case pt_get t cur of
        None \<Rightarrow> (t, WaitNone)
      | Some p \<Rightarrow> (if Some child \<notin> set (pr_children p) then (t, WaitNone) else wait_turn cur child t))"

text \<open>One turn of the loop of \<^verbatim>\<open>waitpid_any\<close>.\<close>

definition waitpid_any_turn :: "pid \<Rightarrow> process_table \<Rightarrow> process_table \<times> (pid \<times> exit_status) wait_result" where
  "waitpid_any_turn cur t =
     (case pt_get t cur of
        None \<Rightarrow> (t, WaitNone)
      | Some p \<Rightarrow>
          (case List.find (\<lambda>c. case pt_get t c of Some q \<Rightarrow> pr_state q = Zombie | None \<Rightarrow> False)
                  (List.map_filter id (pr_children p)) of
             Some child \<Rightarrow>
               (case process_wait cur child t of
                  (t', WaitDone status) \<Rightarrow> (t', WaitDone (child, status))
                | (t', WaitNone) \<Rightarrow> (t', WaitNone)
                | (t', WaitBlocks) \<Rightarrow> (t', WaitBlocks))
           | None \<Rightarrow>
               (if pr_child_count p = 0 then (t, WaitNone)
                else (pt_modify cur (\<lambda>p. p\<lparr>pr_state := Waiting\<rparr>) t, WaitBlocks))))"

section \<open>Descriptors are handed out lowest first\<close>

definition fds_inv :: "fd_table \<Rightarrow> bool" where
  "fds_inv t \<longleftrightarrow> length (fd_entries t) = MAX_FDS \<and> fd_next t \<le> MAX_FDS \<and> (\<forall>i < fd_next t. fd_entries t ! i \<noteq> FdEmpty)"

lemma find_upt_Some:
  assumes "List.find P [a..<b] = Some i"
  shows "a \<le> i \<and> i < b \<and> P i \<and> (\<forall>j. a \<le> j \<and> j < i \<longrightarrow> \<not> P j)"
proof -
  obtain k where k: "k < b - a" "P (a + k)" "i = a + k" "\<forall>j < k. \<not> P (a + j)"
    using assms by (auto simp: find_Some_iff)
  have "\<not> P j" if "a \<le> j" "j < i" for j using k(3,4) that by (metis add_less_cancel_left le_add_diff_inverse)
  then show ?thesis using k by auto
qed

lemma find_upt_None: "List.find P [a..<b] = None \<longleftrightarrow> (\<forall>j. a \<le> j \<and> j < b \<longrightarrow> \<not> P j)"
  by (auto simp: find_None_iff)

lemma fd_alloc_cases:
  assumes inv: "fds_inv t"
  obtains (full) "fd_alloc t e = (t, None)" "FdEmpty \<notin> set (fd_entries t)"
    | (free) i where "fd_alloc t e = (t\<lparr>fd_entries := (fd_entries t)[i := e], fd_next := i + 1\<rparr>, Some i)"
        "i < MAX_FDS" "fd_entries t ! i = FdEmpty" "\<forall>j < i. fd_entries t ! j \<noteq> FdEmpty"
proof (cases "List.find (\<lambda>i. fd_entries t ! i = FdEmpty) [fd_next t..<MAX_FDS]")
  case None
  then have later: "\<forall>j. fd_next t \<le> j \<and> j < MAX_FDS \<longrightarrow> fd_entries t ! j \<noteq> FdEmpty" by (simp add: find_upt_None)
  have "List.find (\<lambda>i. fd_entries t ! i = FdEmpty) [0..<fd_next t] = None" using inv by (simp add: find_upt_None fds_inv_def)
  then have "fd_alloc t e = (t, None)" using None by (simp add: fd_alloc_def)
  moreover have "FdEmpty \<notin> set (fd_entries t)" 
  proof
    assume "FdEmpty \<in> set (fd_entries t)"
    then obtain j where "j < MAX_FDS" "fd_entries t ! j = FdEmpty" using inv by (auto simp: in_set_conv_nth fds_inv_def)
    then show False using later inv by (meson fds_inv_def not_le_imp_less)
  qed
  ultimately show ?thesis by (rule full)
next
  case (Some i)
  from find_upt_Some [OF this] inv have "\<forall>j < i. fd_entries t ! j \<noteq> FdEmpty" by (meson fds_inv_def not_le_imp_less)
  with Some find_upt_Some [OF Some] show ?thesis using free [of i] by (simp add: fd_alloc_def)
qed

lemma fd_alloc_inv:
  assumes inv: "fds_inv t" and e: "e \<noteq> FdEmpty"
  shows "fds_inv (fst (fd_alloc t e))"
  using inv
proof (cases rule: fd_alloc_cases [where e = e])
  case full
  then show ?thesis using inv by simp
next
  case (free i)
  then show ?thesis using inv e by (auto simp: fds_inv_def nth_list_update less_Suc_eq)
qed

lemma fd_close_inv: "fds_inv t \<Longrightarrow> fds_inv (fst (fd_close t fd))"
  by (auto simp: fd_close_def fds_inv_def nth_list_update split: option.splits)

lemma fd_get_Some: "fd_get t fd = Some e \<Longrightarrow> e \<noteq> FdEmpty"
  by (auto simp: fd_get_def split: option.splits if_splits)

lemma fds_inv_put: "fds_inv t \<Longrightarrow> e \<noteq> FdEmpty \<Longrightarrow> fds_inv (t\<lparr>fd_entries := (fd_entries t)[i := e]\<rparr>)"
proof -
  assume "fds_inv t" and "e \<noteq> FdEmpty"
  then have "(fd_entries t)[i := e] ! j \<noteq> FdEmpty" if "j < fd_next t" for j
    using that by (cases "j = i") (auto simp: fds_inv_def)
  with \<open>fds_inv t\<close> show ?thesis by (simp add: fds_inv_def)
qed

lemma fd_dup_inv: "fds_inv t \<Longrightarrow> fds_inv (fst (fd_dup t fd))"
  by (auto simp: fd_dup_def fd_alloc_inv split: option.splits dest: fd_get_Some)

lemma fd_dup2_inv: "fds_inv t \<Longrightarrow> fds_inv (fst (fd_dup2 t fd fd'))"
  by (auto simp: fd_dup2_def fds_inv_put split: option.splits dest: fd_get_Some)

lemma fds_inv_stdio: "fds_inv with_stdio"
  by (auto simp: fds_inv_def with_stdio_def fds_new_def MAX_FDS_def nth_list_update less_Suc_eq numeral_eq_Suc)

text \<open>The tables that the calls of a process can produce.\<close>

inductive fds_reach :: "fd_table \<Rightarrow> bool" where
  Stdio: "fds_reach with_stdio"
| Alloc: "fds_reach t \<Longrightarrow> e \<noteq> FdEmpty \<Longrightarrow> fds_reach (fst (fd_alloc t e))"
| Close: "fds_reach t \<Longrightarrow> fds_reach (fst (fd_close t fd))"
| Dup: "fds_reach t \<Longrightarrow> fds_reach (fst (fd_dup t fd))"
| Dup2: "fds_reach t \<Longrightarrow> fds_reach (fst (fd_dup2 t fd fd'))"
| Modify: "fds_reach t \<Longrightarrow> \<forall>e. f e = FdEmpty \<longrightarrow> e = FdEmpty \<Longrightarrow> fds_reach (fst (fd_modify t fd f))"

lemma fds_reach_inv: "fds_reach t \<Longrightarrow> fds_inv t"
proof (induction rule: fds_reach.induct)
  case (Modify t f fd)
  have "fds_inv (t\<lparr>fd_entries := (fd_entries t)[i := f (fd_entries t ! i)]\<rparr>)" if "fd_entries t ! i \<noteq> FdEmpty" for i
    using fds_inv_put [OF Modify.IH] Modify.hyps(2) that by blast
  then show ?case using Modify.IH by (auto simp: fd_modify_def split: option.splits)
qed (auto simp: fds_inv_stdio fd_alloc_inv fd_close_inv fd_dup_inv fd_dup2_inv)

lemma fd_index_eq: "fd_index fd = (if unat fd < MAX_FDS then Some (unat fd) else None)"
proof -
  have b: "- (2 ^ 31) \<le> sint fd" "sint fd < 2 ^ 31" using sint_ge [of fd] sint_lt [of fd] by simp_all
  have u: "uint fd = sint fd mod 2 ^ 32" using uint_sint [of fd] by (simp add: take_bit_eq_mod)
  have "sint fd < 0 \<and> uint fd \<ge> 2 ^ 31 \<or> 0 \<le> sint fd \<and> sint fd = uint fd"
  proof (cases "sint fd < 0")
    case True
    have "uint fd = (sint fd + 2 ^ 32) mod 2 ^ 32" using u by simp
    also have "\<dots> = sint fd + 2 ^ 32" using True b by (intro mod_pos_pos_trivial) auto
    finally show ?thesis using True b by simp
  next
    case False
    then show ?thesis using u b by (simp add: mod_pos_pos_trivial)
  qed
  then show ?thesis
  proof
    assume *: "sint fd < 0 \<and> uint fd \<ge> 2 ^ 31"
    then have "unat fd \<ge> 2 ^ 31" using nat_mono [of "2 ^ 31" "uint fd"] by simp
    then show ?thesis using * by (simp add: fd_index_def MAX_FDS_def)
  next
    assume "0 \<le> sint fd \<and> sint fd = uint fd"
    then show ?thesis by (simp add: fd_index_def)
  qed
qed

section \<open>The environment block is a map\<close>

definition env_entry :: "u8 list \<times> u8 list \<Rightarrow> u8 list" where
  "env_entry x = fst x @ EQUALS # snd x"

definition env_block :: "(u8 list \<times> u8 list) list \<Rightarrow> u8 list" where
  "env_block kvs = concat (map (\<lambda>x. env_entry x @ [0]) kvs)"

definition key_ok :: "u8 list \<Rightarrow> bool" where
  "key_ok k \<longleftrightarrow> 0 \<notin> set k \<and> EQUALS \<notin> set k"

definition kv_ok :: "u8 list \<times> u8 list \<Rightarrow> bool" where
  "kv_ok x \<longleftrightarrow> key_ok (fst x) \<and> 0 \<notin> set (snd x)"

lemma env_block_simps [simp]:
  "env_block [] = []" "env_block (x # xs) = env_entry x @ 0 # env_block xs" "env_block (xs @ ys) = env_block xs @ env_block ys"
  by (simp_all add: env_block_def)

lemma entry_no_nul: "kv_ok x \<Longrightarrow> 0 \<notin> set (env_entry x)"
  by (auto simp: kv_ok_def key_ok_def env_entry_def EQUALS_def)

lemma entry_end_at:
  assumes "0 \<notin> set xs" and "k = length pre" and "length pre + length xs < env_len"
  shows "entry_end (pre @ xs @ 0 # post) env_len k = k + length xs"
  using assms
proof (induction xs arbitrary: pre k)
  case Nil
  then show ?case by (subst entry_end.simps) simp
next
  case (Cons x xs)
  have "entry_end (pre @ (x # xs) @ 0 # post) env_len k = entry_end ((pre @ [x]) @ xs @ 0 # post) env_len (k + 1)"
    using Cons.prems by (subst entry_end.simps) simp
  also have "\<dots> = (k + 1) + length xs" by (rule Cons.IH) (use Cons.prems in auto)
  finally show ?case by simp
qed

lemma entry_split:
  assumes "kv_ok x"
  shows "position (\<lambda>b. b = EQUALS) (env_entry x) = Some (length (fst x))"
proof -
  have "fst x ! j \<noteq> EQUALS" if "j < length (fst x)" for j using assms nth_mem [OF that] by (auto simp: kv_ok_def key_ok_def)
  then show ?thesis by (simp add: position_Some_iff env_entry_def nth_append)
qed

text \<open>The entry that a scan finds at the start of a block.\<close>

lemma env_first:
  assumes "kv_ok x" and "env = pre @ env_block (x # kvs) @ post" and "n = length pre + length (env_block (x # kvs))"
  shows "length pre < n" and "entry_end env n (length pre) = length pre + length (env_entry x)"
    and "slice (length pre) (length (env_entry x)) env = env_entry x"
    and "take (length (fst x)) (env_entry x) = fst x" and "drop (length (fst x) + 1) (env_entry x) = snd x"
proof -
  show "length pre < n" using assms(3) by simp
  have "entry_end (pre @ env_entry x @ 0 # env_block kvs @ post) n (length pre) = length pre + length (env_entry x)"
    by (rule entry_end_at) (use entry_no_nul [OF assms(1)] assms(3) in auto)
  then show "entry_end env n (length pre) = length pre + length (env_entry x)" by (simp add: assms(2))
  show "slice (length pre) (length (env_entry x)) env = env_entry x" by (simp add: assms(2) slice_def)
  show "take (length (fst x)) (env_entry x) = fst x" "drop (length (fst x) + 1) (env_entry x) = snd x" by (simp_all add: env_entry_def)
qed

lemma env_scan_block:
  assumes "\<forall>x \<in> set kvs. kv_ok x" and "n = length pre + length (env_block kvs)"
  shows "env_scan (pre @ env_block kvs @ post) n key (length pre) = map_of kvs key"
  using assms
proof (induction kvs arbitrary: pre)
  case Nil
  then show ?case by (subst env_scan.simps) simp
next
  case (Cons x kvs)
  let ?env = "pre @ env_block (x # kvs) @ post"
  have x: "kv_ok x" using Cons.prems(1) by simp
  note F = env_first [OF x refl Cons.prems(2)]
  have "env_scan ((pre @ env_entry x @ [0]) @ env_block kvs @ post) n key (length (pre @ env_entry x @ [0])) = map_of kvs key"
    by (rule Cons.IH) (use Cons.prems in auto)
  then have "env_scan ?env n key (length pre + length (env_entry x) + 1) = map_of kvs key" by simp
  then show ?case using F entry_split [OF x] by (subst env_scan.simps) (auto simp: Let_def)
qed

lemma env_delete_block:
  assumes "\<forall>x \<in> set kvs. kv_ok x" and "n = length pre + length (env_block kvs)" and "distinct (map fst kvs)"
  shows "\<exists>post'. env_delete (pre @ env_block kvs @ post) n key (length pre)
      = (pre @ env_block (filter (\<lambda>x. fst x \<noteq> key) kvs) @ post', length pre + length (env_block (filter (\<lambda>x. fst x \<noteq> key) kvs)))
    \<and> length (env_block (filter (\<lambda>x. fst x \<noteq> key) kvs) @ post') = length (env_block kvs @ post)"
  using assms
proof (induction kvs arbitrary: pre)
  case Nil
  then show ?case by (subst env_delete.simps) simp
next
  case (Cons x kvs)
  let ?env = "pre @ env_block (x # kvs) @ post"
  have x: "kv_ok x" using Cons.prems(1) by simp
  note F = env_first [OF x refl Cons.prems(2)]
  show ?case
  proof (cases "fst x = key")
    case True
    then have f: "filter (\<lambda>y. fst y \<noteq> key) (x # kvs) = kvs" 
    proof -
      have "fst y \<noteq> key" if "y \<in> set kvs" for y
        using Cons.prems(3) True that by (metis distinct.simps(2) image_eqI list.set_map list.simps(9))
      then show ?thesis using True by (simp add: filter_id_conv)
    qed
    have e: "length pre + length (env_entry x) < n" using Cons.prems(2) by simp
    have "env_delete ?env n key (length pre)
        = (copy_into (length pre) (slice (length pre + length (env_entry x) + 1) (n - (length pre + length (env_entry x) + 1)) ?env) ?env,
           n - (length (env_entry x) + 1))"
      using F entry_split [OF x] True e by (subst env_delete.simps) (simp add: Let_def)
    moreover have "slice (length pre + length (env_entry x) + 1) (n - (length pre + length (env_entry x) + 1)) ?env = env_block kvs"
      using Cons.prems(2) by (simp add: slice_def)
    moreover have "copy_into (length pre) (env_block kvs) ?env = pre @ env_block kvs @ drop (length (env_block kvs)) (env_block (x # kvs) @ post)"
      by (simp add: copy_into_def)
    ultimately show ?thesis unfolding f using Cons.prems(2) by simp
  next
    case False
    have "\<exists>post'. env_delete ((pre @ env_entry x @ [0]) @ env_block kvs @ post) n key (length (pre @ env_entry x @ [0]))
      = ((pre @ env_entry x @ [0]) @ env_block (filter (\<lambda>x. fst x \<noteq> key) kvs) @ post', length (pre @ env_entry x @ [0]) + length (env_block (filter (\<lambda>x. fst x \<noteq> key) kvs)))
      \<and> length (env_block (filter (\<lambda>x. fst x \<noteq> key) kvs) @ post') = length (env_block kvs @ post)"
      by (rule Cons.IH) (use Cons.prems in auto)
    moreover have "env_delete ?env n key (length pre) = env_delete ?env n key (length pre + length (env_entry x) + 1)"
      using F entry_split [OF x] False by (subst env_delete.simps) (simp add: Let_def)
    ultimately show ?thesis using False by auto
  qed
qed

definition env_ok :: "process \<Rightarrow> (u8 list \<times> u8 list) list \<Rightarrow> bool" where
  "env_ok p kvs \<longleftrightarrow> length (pr_env p) = ENV_BLOCK_SIZE \<and> (\<exists>post. pr_env p = env_block kvs @ post)
     \<and> pr_env_len p = length (env_block kvs) \<and> (\<forall>x \<in> set kvs. kv_ok x) \<and> distinct (map fst kvs)"

lemma env_get_ok: "env_ok p kvs \<Longrightarrow> env_get p key = map_of kvs key"
  using env_scan_block [of kvs _ "[]"] by (auto simp: env_ok_def env_get_def)

lemma env_set_ok:
  assumes ok: "env_ok p kvs" and kv: "kv_ok (key, value)" and set: "env_set p key value = (p', r)"
  defines "kvs' \<equiv> filter (\<lambda>x. fst x \<noteq> key) kvs @ (if r then [(key, value)] else [])"
  shows "env_ok p' kvs'" and "r \<longleftrightarrow> length (env_block (filter (\<lambda>x. fst x \<noteq> key) kvs)) + length key + length value + 2 \<le> ENV_BLOCK_SIZE"
    and "p' = p\<lparr>pr_env := pr_env p', pr_env_len := pr_env_len p'\<rparr>"
proof -
  let ?f = "filter (\<lambda>x. fst x \<noteq> key) kvs"
  let ?b = "env_block ?f"
  obtain post where post: "pr_env p = env_block kvs @ post" using ok by (auto simp: env_ok_def)
  have len: "length (pr_env p) = ENV_BLOCK_SIZE" using ok by (simp add: env_ok_def)
  obtain post' where d: "env_delete (pr_env p) (pr_env_len p) key 0 = (?b @ post', length ?b)"
    and l: "length (?b @ post') = ENV_BLOCK_SIZE"
    using env_delete_block [of kvs "pr_env_len p" "[]" post key] ok post len by (auto simp: env_ok_def)
  define needed where "needed = length key + 1 + length value + 1"
  have r: "r \<longleftrightarrow> length ?b + needed \<le> ENV_BLOCK_SIZE"
    using set d l unfolding env_set_def Let_def needed_def by (auto split: if_splits)
  then show "r \<longleftrightarrow> length ?b + length key + length value + 2 \<le> ENV_BLOCK_SIZE" by (simp add: needed_def ac_simps)
  have p': "p' = (if r then p\<lparr>pr_env := ((copy_into (length ?b + length key + 1) value ((copy_into (length ?b) key (?b @ post'))[length ?b + length key := EQUALS]))
        [length ?b + length key + 1 + length value := 0]), pr_env_len := length ?b + needed\<rparr>
      else p\<lparr>pr_env := ?b @ post', pr_env_len := length ?b\<rparr>)"
    using set d l r unfolding env_set_def Let_def needed_def by (auto split: if_splits)
  then show "p' = p\<lparr>pr_env := pr_env p', pr_env_len := pr_env_len p'\<rparr>" by (simp split: if_split)
  have kv': "\<forall>x \<in> set kvs'. kv_ok x" "distinct (map fst kvs')"
    using ok kv by (auto simp: env_ok_def kvs'_def distinct_map_filter)
  show "env_ok p' kvs'"
  proof (cases r)
    case True
    then have fit: "length ?b + needed \<le> length (?b @ post')" using r l by simp
    have "(copy_into (length ?b + length key + 1) value ((copy_into (length ?b) key (?b @ post'))[length ?b + length key := EQUALS]))
        [length ?b + length key + 1 + length value := 0] = ?b @ key @ EQUALS # value @ 0 # drop needed post'"
    proof -
      have "length ?b + length key + 1 + length value < length (?b @ post')" using fit by (simp add: needed_def)
      then show ?thesis
        by (simp add: list_update_copy_into copy_into_append_at) (simp add: copy_into_def needed_def)
    qed
    then show ?thesis using kv' True p' l fit by (auto simp: env_ok_def kvs'_def env_entry_def needed_def)
  next
    case False
    then show ?thesis using kv' p' l by (auto simp: env_ok_def kvs'_def)
  qed
qed


lemma env_block_filter:
  "distinct (map fst kvs) \<Longrightarrow> length (env_block (filter (\<lambda>x. fst x \<noteq> key) kvs))
     + (case map_of kvs key of None \<Rightarrow> 0 | Some v \<Rightarrow> length key + length v + 2) = length (env_block kvs)"
proof (induction kvs)
  case (Cons x kvs)
  have none: "map_of kvs (fst x) = None" using Cons.prems by (simp add: map_of_eq_None_iff)
  show ?case using Cons none by (cases "fst x = key") (auto simp: env_entry_def split: option.splits)
qed simp

text \<open>Environments that calls of \<^verbatim>\<open>env_set\<close> produce from a new block.\<close>

inductive env_reach :: "process \<Rightarrow> bool" where
  New: "env_reach (process_new p parent name)"
| Set: "env_reach p \<Longrightarrow> kv_ok (key, value) \<Longrightarrow> env_reach (fst (env_set p key value))"

lemma env_reach_ok: "env_reach p \<Longrightarrow> \<exists>kvs. env_ok p kvs"
proof (induction rule: env_reach.induct)
  case (New p parent name)
  show ?case by (rule exI [of _ "[]"]) (simp add: env_ok_def process_new_def Let_def)
next
  case (Set p key v)
  then show ?case using env_set_ok(1) by (metis prod.collapse)
qed

section \<open>Properties\<close>

text \<open>
  A descriptor is the lowest free one. For every table that opening, closing and
  duplicating descriptors can produce, \<^verbatim>\<open>alloc\<close> hands out the lowest free number and changes nothing
  else, and it fails just when the table is full.
\<close>

theorem fd_alloc_lowest:
  assumes "fds_reach t" and "e \<noteq> FdEmpty" and "fd_alloc t e = (t', r)"
  shows "case r of
      Some i \<Rightarrow> fd_get t (of_nat i) = None \<and> i < MAX_FDS \<and> (\<forall>j < i. fd_get t (of_nat j) \<noteq> None)
        \<and> (\<forall>fd. fd_get t' fd = (if fd = of_nat i then Some e else fd_get t fd))
    | None \<Rightarrow> t' = t \<and> (\<forall>j < MAX_FDS. fd_get t (of_nat j) \<noteq> None)"
proof -
  have inv: "fds_inv t" using assms(1) by (rule fds_reach_inv)
  have u: "unat (of_nat j :: i32) = j" if "j < MAX_FDS" for j using that by (simp add: MAX_FDS_def unat_of_nat take_bit_nat_eq_self)
  have g: "fd_get t (of_nat j) = None \<longleftrightarrow> fd_entries t ! j = FdEmpty" if "j < MAX_FDS" for j
    using that by (simp add: fd_get_def fd_index_eq u)
  from inv show ?thesis
  proof (cases rule: fd_alloc_cases [where e = e])
    case full
    have "fd_entries t ! j \<noteq> FdEmpty" if "j < MAX_FDS" for j using full(2) inv nth_mem that by (metis fds_inv_def)
    then show ?thesis using full(1) assms(3) g by auto
  next
    case (free i)
    have "fd_get t' fd = (if fd = of_nat i then Some e else fd_get t fd)" for fd
      using free inv assms(2,3) u by (auto simp: fd_get_def fd_index_eq fds_inv_def nth_list_update word_unat_eq_iff)
    then show ?thesis using free assms(3) g by auto
  qed
qed

theorem fd_alloc_lowest_witness:
  "fd_alloc (fst (fd_close with_stdio 1)) (FdRamfs 7) = (with_stdio\<lparr>fd_entries := (fd_entries with_stdio)[1 := FdRamfs 7], fd_next := 2\<rparr>, Some 1)
     \<and> fd_get (fst (fd_alloc (fst (fd_close with_stdio 1)) (FdRamfs 7))) 1 = Some (FdRamfs 7)"
proof -
  let ?t = "fst (fd_close with_stdio 1)"
  have t: "fd_alloc ?t (FdRamfs 7) = (with_stdio\<lparr>fd_entries := (fd_entries with_stdio)[1 := FdRamfs 7], fd_next := 2\<rparr>, Some 1)"
    by (simp add: fd_close_def fd_index_eq fd_alloc_def with_stdio_def fds_new_def MAX_FDS_def upt_conv_Cons)
  have "fds_reach ?t" by (intro fds_reach.intros)
  from fd_alloc_lowest [OF this _ t] t show ?thesis by simp
qed

text \<open>
  The environment block is a map. After \<^verbatim>\<open>env_set\<close> every other variable reads as before
  and the variable reads as the value, when the block has room for it. When it has not, the call
  fails and the old value is gone.
\<close>

theorem env_set_correct:
  assumes "env_reach p" and "kv_ok (key, value)" and "env_set p key value = (p', r)"
  shows "(r \<longleftrightarrow> pr_env_len p + length key + length value + 2
        \<le> ENV_BLOCK_SIZE + (case env_get p key of None \<Rightarrow> 0 | Some v \<Rightarrow> length key + length v + 2))
    \<and> (\<forall>k. env_get p' k = (if k = key then (if r then Some value else None) else env_get p k))"
proof -
  obtain kvs where ok: "env_ok p kvs" using env_reach_ok [OF assms(1)] by blast
  note S = env_set_ok [OF ok assms(2,3)]
  have d: "distinct (map fst kvs)" "pr_env_len p = length (env_block kvs)" using ok by (simp_all add: env_ok_def)
  have "map_of (filter (\<lambda>x. fst x \<noteq> key) kvs) k = (if k = key then None else map_of kvs k)" for k
    by (induction kvs) auto
  then have "env_get p' k = (if k = key then (if r then Some value else None) else env_get p k)" for k
    using env_get_ok [OF S(1)] env_get_ok [OF ok] by (auto simp: map_add_def split: option.split)
  moreover have "r \<longleftrightarrow> pr_env_len p + length key + length value + 2
      \<le> ENV_BLOCK_SIZE + (case env_get p key of None \<Rightarrow> 0 | Some v \<Rightarrow> length key + length v + 2)"
    using S(2) env_block_filter [OF d(1), of key] d(2) env_get_ok [OF ok, of key] by (auto split: option.splits)
  ultimately show ?thesis by blast
qed

theorem env_set_correct_witness:
  "kv_ok (str_bytes ''PATH'', str_bytes ''/bin'')
    \<and> env_get (fst (env_set (process_new 2 None []) (str_bytes ''PATH'') (str_bytes ''/bin''))) (str_bytes ''PATH'') = Some (str_bytes ''/bin'')"
proof -
  let ?p = "process_new 2 None []" and ?k = "str_bytes ''PATH''" and ?v = "str_bytes ''/bin''"
  have kv: "kv_ok (?k, ?v)" by (simp add: kv_ok_def key_ok_def str_bytes_def EQUALS_def)
  have l: "pr_env_len ?p = 0" "length ?k = 4" "length ?v = 4" by (simp_all add: process_new_def Let_def str_bytes_def)
  obtain p' r where s: "env_set ?p ?k ?v = (p', r)" by fastforce
  show ?thesis using env_set_correct [OF env_reach.New kv s] s kv l by (simp add: ENV_BLOCK_SIZE_def)
qed

end
