(* ===== verification/Ramfs.thy ===== *)
theory Ramfs
  imports Prelude
begin

text \<open>
  The embedded read-only files: \<^verbatim>\<open>src/kernel-core/src/fs/ramfs.rs\<close>, a table of at most 32 files and
  a table of 16 open descriptors. A file's data is the byte list its pointer and size stand for. Names
  longer than the 32-byte array make \<^verbatim>\<open>name()\<close> panic, which is the value \<open>None\<close> of the functions
  that compare names.
\<close>

section \<open>Definitions: files\<close>

definition MAX_FILES :: nat where "MAX_FILES = 32"
definition MAX_FILENAME :: nat where "MAX_FILENAME = 32"

datatype file_type = RegularFile | DirectoryFile | ExecutableFile

record ramfs_file =
  rf_name :: "u8 list"
  rf_name_len :: nat
  rf_type :: file_type
  rf_data :: "u8 list"

definition rf_empty :: ramfs_file where
  "rf_empty = \<lparr>rf_name = replicate MAX_FILENAME 0, rf_name_len = 0, rf_type = RegularFile, rf_data = []\<rparr>"

definition rf_new :: "u8 list \<Rightarrow> file_type \<Rightarrow> u8 list \<Rightarrow> ramfs_file" where
  "rf_new name ty data =
     \<lparr>rf_name = copy_into 0 (take MAX_FILENAME name) (replicate MAX_FILENAME 0), rf_name_len = length name,
      rf_type = ty, rf_data = data\<rparr>"

definition rf_is_valid :: "ramfs_file \<Rightarrow> bool" where
  "rf_is_valid f \<longleftrightarrow> rf_name_len f > 0"

definition rf_name_str :: "ramfs_file \<Rightarrow> u8 list option" where
  "rf_name_str f = (if rf_name_len f \<le> length (rf_name f) then Some (take (rf_name_len f) (rf_name f)) else None)"

definition rf_size :: "ramfs_file \<Rightarrow> nat" where
  "rf_size f = length (rf_data f)"

definition rf_matches :: "ramfs_file \<Rightarrow> u8 list \<Rightarrow> bool option" where
  "rf_matches f name = map_option (\<lambda>n. n = name) (rf_name_str f)"

record ramfs =
  rfs_files :: "ramfs_file list"
  rfs_count :: nat

definition rfs_new :: ramfs where
  "rfs_new = \<lparr>rfs_files = replicate MAX_FILES rf_empty, rfs_count = 0\<rparr>"

definition add_file :: "ramfs_file \<Rightarrow> ramfs \<Rightarrow> ramfs \<times> bool" where
  "add_file f fs =
     (if rfs_count fs \<ge> MAX_FILES then (fs, False)
      else (fs\<lparr>rfs_files := (rfs_files fs)[rfs_count fs := f], rfs_count := rfs_count fs + 1\<rparr>, True))"

definition rfs_add :: "u8 list \<Rightarrow> file_type \<Rightarrow> u8 list \<Rightarrow> ramfs \<Rightarrow> ramfs \<times> bool" where
  "rfs_add name ty data fs = add_file (rf_new name ty data) fs"

text \<open>The search over the files from index \<open>i\<close> on; the outer \<open>None\<close> is the panic.\<close>

fun rfs_search :: "ramfs_file list \<Rightarrow> nat \<Rightarrow> u8 list \<Rightarrow> nat option option" where
  "rfs_search [] i name = Some None"
| "rfs_search (f # fs) i name =
     (case rf_matches f name of
        None \<Rightarrow> None
      | Some True \<Rightarrow> Some (Some i)
      | Some False \<Rightarrow> rfs_search fs (i + 1) name)"

definition rfs_iter :: "ramfs \<Rightarrow> ramfs_file list" where
  "rfs_iter fs = take (rfs_count fs) (rfs_files fs)"

definition rfs_position :: "ramfs \<Rightarrow> u8 list \<Rightarrow> nat option option" where
  "rfs_position fs name = rfs_search (rfs_iter fs) 0 name"

definition rfs_find :: "ramfs \<Rightarrow> u8 list \<Rightarrow> ramfs_file option option" where
  "rfs_find fs name = map_option (map_option ((!) (rfs_files fs))) (rfs_position fs name)"

definition rfs_get :: "ramfs \<Rightarrow> nat \<Rightarrow> ramfs_file option" where
  "rfs_get fs i = (if i < rfs_count fs then Some (rfs_files fs ! i) else None)"

definition rfs_len :: "ramfs \<Rightarrow> nat" where "rfs_len fs = rfs_count fs"
definition rfs_is_empty :: "ramfs \<Rightarrow> bool" where "rfs_is_empty fs \<longleftrightarrow> rfs_count fs = 0"

section \<open>Definitions: descriptors\<close>

definition RAMFS_MAX_FDS :: nat where "RAMFS_MAX_FDS = 16"

record file_descriptor =
  rd_file_index :: nat
  rd_position :: nat
  rd_in_use :: bool

definition rd_empty :: file_descriptor where
  "rd_empty = \<lparr>rd_file_index = 0, rd_position = 0, rd_in_use = False\<rparr>"

type_synonym ramfs_fds = "file_descriptor list"

definition rfd_new :: ramfs_fds where
  "rfd_new = replicate RAMFS_MAX_FDS rd_empty"

definition rfd_ok :: "ramfs_fds \<Rightarrow> nat \<Rightarrow> bool" where
  "rfd_ok t fd \<longleftrightarrow> fd < RAMFS_MAX_FDS \<and> rd_in_use (t ! fd)"

definition rfd_open :: "ramfs \<Rightarrow> u8 list \<Rightarrow> ramfs_fds \<Rightarrow> (ramfs_fds \<times> nat option) option" where
  "rfd_open fs name t =
     (case rfs_position fs name of
        None \<Rightarrow> None
      | Some None \<Rightarrow> Some (t, None)
      | Some (Some file_index) \<Rightarrow>
          (case List.find (\<lambda>fd. \<not> rd_in_use (t ! fd)) [3..<RAMFS_MAX_FDS] of
             Some fd \<Rightarrow> Some (t[fd := \<lparr>rd_file_index = file_index, rd_position = 0, rd_in_use = True\<rparr>], Some fd)
           | None \<Rightarrow> Some (t, None)))"

definition rfd_close :: "nat \<Rightarrow> ramfs_fds \<Rightarrow> ramfs_fds \<times> bool" where
  "rfd_close fd t = (if rfd_ok t fd then (t[fd := (t ! fd)\<lparr>rd_in_use := False\<rparr>], True) else (t, False))"

text \<open>The bytes put at the front of a buffer of \<open>buf_len\<close> bytes.\<close>

definition rfd_read :: "ramfs \<Rightarrow> nat \<Rightarrow> nat \<Rightarrow> ramfs_fds \<Rightarrow> ramfs_fds \<times> u8 list option" where
  "rfd_read fs fd buf_len t =
     (if \<not> rfd_ok t fd then (t, None)
      else case rfs_get fs (rd_file_index (t ! fd)) of
             None \<Rightarrow> (t, None)
           | Some f \<Rightarrow>
               (let pos = rd_position (t ! fd)
                in if pos \<ge> length (rf_data f) then (t, Some [])
                   else let to_read = min buf_len (length (rf_data f) - pos)
                        in (t[fd := (t ! fd)\<lparr>rd_position := pos + to_read\<rparr>], Some (slice pos to_read (rf_data f)))))"

definition rfd_size :: "ramfs \<Rightarrow> nat \<Rightarrow> ramfs_fds \<Rightarrow> nat option" where
  "rfd_size fs fd t = (if \<not> rfd_ok t fd then None else map_option rf_size (rfs_get fs (rd_file_index (t ! fd))))"

definition rfd_seek :: "nat \<Rightarrow> nat \<Rightarrow> ramfs_fds \<Rightarrow> ramfs_fds \<times> bool" where
  "rfd_seek fd pos t = (if rfd_ok t fd then (t[fd := (t ! fd)\<lparr>rd_position := pos\<rparr>], True) else (t, False))"

definition rfd_tell :: "nat \<Rightarrow> ramfs_fds \<Rightarrow> nat option" where
  "rfd_tell fd t = (if rfd_ok t fd then Some (rd_position (t ! fd)) else None)"

section \<open>Reading a file\<close>

definition rfs_inv :: "ramfs \<Rightarrow> bool" where
  "rfs_inv fs \<longleftrightarrow> length (rfs_files fs) = MAX_FILES \<and> rfs_count fs \<le> MAX_FILES
     \<and> (\<forall>f \<in> set (rfs_iter fs). rf_name_len f \<le> length (rf_name f))"

lemma rfs_inv_new: "rfs_inv rfs_new"
  by (simp add: rfs_inv_def rfs_new_def rfs_iter_def)

lemma rfs_iter_add:
  assumes "rfs_inv fs" and "rfs_count fs < MAX_FILES"
  shows "rfs_iter (fst (add_file f fs)) = rfs_iter fs @ [f]"
  using assms by (simp add: rfs_inv_def add_file_def rfs_iter_def take_Suc_conv_app_nth)

lemma rfs_inv_add: "rfs_inv fs \<Longrightarrow> length name \<le> MAX_FILENAME \<Longrightarrow> rfs_inv (fst (rfs_add name ty data fs))"
proof -
  assume inv: "rfs_inv fs" and n: "length name \<le> MAX_FILENAME"
  show ?thesis
  proof (cases "rfs_count fs < MAX_FILES")
    case True
    have "rf_name_len (rf_new name ty data) \<le> length (rf_name (rf_new name ty data))" using n by (simp add: rf_new_def)
    then show ?thesis using inv rfs_iter_add [OF inv True, of "rf_new name ty data"] True
      by (auto simp: rfs_inv_def rfs_add_def add_file_def)
  next
    case False
    then show ?thesis using inv by (simp add: rfs_add_def add_file_def)
  qed
qed

lemma rfs_search_names:
  assumes "\<forall>f \<in> set fs. rf_name_len f \<le> length (rf_name f)"
  shows "rfs_search fs i name = Some (map_option ((+) i) (position (\<lambda>f. take (rf_name_len f) (rf_name f) = name) fs))"
  using assms
proof (induction fs arbitrary: i)
  case (Cons f fs)
  then show ?case by (auto simp: rf_matches_def rf_name_str_def option.map_comp intro!: option.map_cong0)
qed simp

text \<open>A sequence of reads from one descriptor.\<close>

fun rfd_reads :: "ramfs \<Rightarrow> nat \<Rightarrow> nat list \<Rightarrow> ramfs_fds \<Rightarrow> ramfs_fds \<times> u8 list option" where
  "rfd_reads fs fd [] t = (t, Some [])"
| "rfd_reads fs fd (n # ns) t =
     (case rfd_read fs fd n t of
        (t', None) \<Rightarrow> (t', None)
      | (t', Some bs) \<Rightarrow>
          (case rfd_reads fs fd ns t' of (t'', None) \<Rightarrow> (t'', None) | (t'', Some cs) \<Rightarrow> (t'', Some (bs @ cs))))"

lemma slice_then: "slice a m xs @ slice (a + m) n xs = slice a (m + n) xs"
  by (simp add: slice_def take_add add.commute)

lemma rfd_reads_data:
  assumes "length t = RAMFS_MAX_FDS" and "rfd_ok t fd" and "rfs_get fs (rd_file_index (t ! fd)) = Some f"
  shows "rfd_reads fs fd ns t = (t[fd := (t ! fd)\<lparr>rd_position := max (rd_position (t ! fd)) (min (rd_position (t ! fd) + sum_list ns) (length (rf_data f)))\<rparr>],
     Some (slice (rd_position (t ! fd)) (sum_list ns) (rf_data f)))"
  using assms
proof (induction ns arbitrary: t)
  case Nil
  then show ?case by (simp add: slice_def max_def)
next
  case (Cons n ns)
  let ?d = "rf_data f" and ?p = "rd_position (t ! fd)"
  have fd: "fd < length t" using Cons.prems(1,2) by (simp add: rfd_ok_def)
  define m where "m = min n (length ?d - ?p)"
  define t' where "t' = t[fd := (t ! fd)\<lparr>rd_position := ?p + m\<rparr>]"
  have r: "rfd_read fs fd n t = (t', Some (slice ?p m ?d))"
  proof (cases "?p \<ge> length ?d")
    case True
    then have "m = 0" "t' = t" by (simp_all add: m_def t'_def)
    then show ?thesis using True Cons.prems by (simp add: rfd_read_def slice_def)
  next
    case False
    then show ?thesis using Cons.prems by (simp add: rfd_read_def m_def t'_def Let_def)
  qed
  have t': "length t' = RAMFS_MAX_FDS" "rfd_ok t' fd" "rfs_get fs (rd_file_index (t' ! fd)) = Some f" "rd_position (t' ! fd) = ?p + m"
    using Cons.prems fd by (simp_all add: t'_def rfd_ok_def)
  have "slice ?p m ?d @ slice (?p + m) (sum_list ns) ?d = slice ?p (n + sum_list ns) ?d"
  proof (cases "n \<le> length ?d - ?p")
    case True
    then show ?thesis by (simp add: m_def slice_then)
  next
    case False
    then have "m = length ?d - ?p" by (simp add: m_def)
    then show ?thesis using False by (simp add: slice_def)
  qed
  moreover have "max (?p + m) (min (?p + m + sum_list ns) (length ?d)) = max ?p (min (?p + (n + sum_list ns)) (length ?d))"
    by (simp add: m_def)
  moreover have "t'[fd := (t' ! fd)\<lparr>rd_position := x\<rparr>] = t[fd := (t ! fd)\<lparr>rd_position := x\<rparr>]" for x
    using fd by (simp add: t'_def)
  ultimately show ?case using Cons.IH [OF t'(1-3)] r t'(4) by simp
qed

text \<open>
  The embedded files. Opening a name finds the first file that was added under it and gives the
  lowest free descriptor from 3 on; reading it in pieces of any sizes returns the bytes of that file
  in order, up to its end and nothing after it, and leaves every other descriptor alone.
\<close>

theorem ramfs_read_returns_file:
  assumes "rfs_inv fs" and "length t = RAMFS_MAX_FDS" and "rfd_open fs name t = Some (t', Some fd)"
    and "rfd_reads fs fd ns t' = (t'', r)"
  shows "\<exists>i f. rfs_get fs i = Some f \<and> rf_name_str f = Some name \<and> (\<forall>j < i. rf_name_str (rfs_files fs ! j) \<noteq> Some name)
    \<and> 3 \<le> fd \<and> fd < RAMFS_MAX_FDS \<and> \<not> rfd_ok t fd \<and> (\<forall>k. 3 \<le> k \<and> k < fd \<longrightarrow> rfd_ok t k)
    \<and> r = Some (take (sum_list ns) (rf_data f)) \<and> (\<forall>k. k \<noteq> fd \<longrightarrow> t'' ! k = t ! k)"
proof -
  obtain i where p: "rfs_position fs name = Some (Some i)"
      and fd: "List.find (\<lambda>fd. \<not> rd_in_use (t ! fd)) [3..<RAMFS_MAX_FDS] = Some fd"
      and t': "t' = t[fd := \<lparr>rd_file_index = i, rd_position = 0, rd_in_use = True\<rparr>]"
    using assms(3) by (auto simp: rfd_open_def split: option.splits)
  have iter: "\<forall>f \<in> set (rfs_iter fs). rf_name_len f \<le> length (rf_name f)" using assms(1) by (simp add: rfs_inv_def)
  then have "position (\<lambda>f. take (rf_name_len f) (rf_name f) = name) (rfs_iter fs) = Some i"
    using p rfs_search_names by (auto simp: rfs_position_def)
  note P = position_SomeD [OF this]
  have i: "i < rfs_count fs" using P by (simp add: rfs_iter_def)
  define f where "f = rfs_files fs ! i"
  have it: "rfs_iter fs ! j = rfs_files fs ! j" if "j \<le> i" for j using that i by (simp add: rfs_iter_def)
  have ok: "rf_name_len (rfs_files fs ! j) \<le> length (rf_name (rfs_files fs ! j))" if "j \<le> i" for j
    using iter P that it [OF that] nth_mem [of j "rfs_iter fs"] by force
  have n: "rf_name_str f = Some name" using P it [of i] ok [of i] by (simp add: rf_name_str_def f_def)
  have lt: "\<forall>j < i. rf_name_str (rfs_files fs ! j) \<noteq> Some name" using P it ok by (auto simp: rf_name_str_def)
  obtain k where k: "k < RAMFS_MAX_FDS - 3" "fd = 3 + k" "\<not> rd_in_use (t ! fd)" "\<forall>j < k. rd_in_use (t ! (3 + j))"
    using fd by (auto simp: find_Some_iff)
  have used: "\<forall>j. 3 \<le> j \<and> j < fd \<longrightarrow> rfd_ok t j"
  proof (intro allI impI)
    fix j assume "3 \<le> j \<and> j < fd"
    then have "j - 3 < k" "3 + (j - 3) = j" "j < RAMFS_MAX_FDS" using k(1,2) by auto
    then show "rfd_ok t j" using k(4) by (metis rfd_ok_def)
  qed
  have fl: "fd < RAMFS_MAX_FDS" using k(1,2) by simp
  have g: "length t' = RAMFS_MAX_FDS" "rfd_ok t' fd" "rfs_get fs (rd_file_index (t' ! fd)) = Some f" "rd_position (t' ! fd) = 0"
    using assms(2) fl i by (simp_all add: t' rfd_ok_def rfs_get_def f_def)
  have "r = Some (take (sum_list ns) (rf_data f))" "\<forall>k. k \<noteq> fd \<longrightarrow> t'' ! k = t ! k"
    using rfd_reads_data [OF g(1-3), of ns] assms(4) g(4) by (auto simp: slice_def t')
  then show ?thesis using i n lt used k fl by (intro exI [of _ i] exI [of _ f]) (auto simp: rfs_get_def f_def rfd_ok_def)
qed

theorem ramfs_read_returns_file_witness:
  "\<exists>t' t''. rfd_open (fst (rfs_add [0x61] RegularFile [1, 2, 3] rfs_new)) [0x61] rfd_new = Some (t', Some 3)
     \<and> rfd_reads (fst (rfs_add [0x61] RegularFile [1, 2, 3] rfs_new)) 3 [2, 2] t' = (t'', Some [1, 2, 3])"
proof -
  let ?fs = "fst (rfs_add [0x61] RegularFile [1, 2, 3] rfs_new)"
  have inv: "rfs_inv ?fs" using rfs_inv_add [OF rfs_inv_new] by (simp add: MAX_FILENAME_def)
  have "rfs_iter ?fs = [rf_new [0x61] RegularFile [1, 2, 3]]"
    using rfs_iter_add [OF rfs_inv_new] by (simp add: rfs_add_def rfs_new_def MAX_FILES_def rfs_iter_def)
  then have pos: "rfs_position ?fs [0x61] = Some (Some 0)"
    by (simp add: rfs_position_def rf_matches_def rf_name_str_def rf_new_def copy_into_def MAX_FILENAME_def)
  obtain t' where t': "rfd_open ?fs [0x61] rfd_new = Some (t', Some 3)"
    using pos by (simp add: rfd_open_def rfd_new_def RAMFS_MAX_FDS_def rd_empty_def upt_conv_Cons)
  obtain t'' r where r: "rfd_reads ?fs 3 [2, 2] t' = (t'', r)" by (metis prod.exhaust)
  have l: "length rfd_new = RAMFS_MAX_FDS" by (simp add: rfd_new_def)
  have "rfs_get ?fs i = Some f \<Longrightarrow> rf_data f = [1, 2, 3]" for i f
    by (auto simp: rfs_get_def rfs_add_def add_file_def rfs_new_def MAX_FILES_def rf_new_def split: if_splits)
  then have "r = Some [1, 2, 3]" using ramfs_read_returns_file [OF inv l t' r] by auto
  then show ?thesis using t' r by blast
qed

end
