(* ===== verification/Descriptors.thy ===== *)
theory Descriptors
  imports Processes Ramfs
begin

text \<open>
  The system calls on descriptors and processes: \<^verbatim>\<open>SYS_PIPE\<close>, \<^verbatim>\<open>SYS_CLOSE\<close>, \<^verbatim>\<open>SYS_DUP\<close>,
  \<^verbatim>\<open>SYS_DUP2\<close>, \<^verbatim>\<open>SYS_EXIT\<close>, \<^verbatim>\<open>SYS_KILL\<close>, \<^verbatim>\<open>SYS_WAIT\<close>, \<^verbatim>\<open>SYS_WAITNB\<close> and the environment calls of
  \<^verbatim>\<open>src/kernel-core/src/syscall/mod.rs\<close>, with the part of \<^verbatim>\<open>spawn_from_elf_with_args\<close> that enters a
  loaded program into the process table. They tie together the process table, the scheduler and the
  pipes. The capability checks of \<^verbatim>\<open>src/kernel-core/src/process/capability.rs\<close>, which read the current
  process, are here too. The properties of the calls are in \<open>Refcounts\<close>, \<open>Descriptors_Correct\<close> and
  \<open>Cap_Confinement\<close>.
\<close>

section \<open>Definitions: the kernel state\<close>

record ksys =
  ks_procs :: process_table
  ks_sched :: scheduler
  ks_pipes :: pipes
  ks_ramfds :: "ramfs_fds option"
  ks_current_pid :: pid

definition ks_boot :: ksys where
  "ks_boot = \<lparr>ks_procs = process_boot, ks_sched = init_core sched_boot, ks_pipes = pipes_boot,
     ks_ramfds = Some rfd_new, ks_current_pid = 0\<rparr>"

definition pid_for_slot :: "ksys \<Rightarrow> nat \<Rightarrow> pid option" where
  "pid_for_slot ks slot = find_pid_by_task (ks_procs ks) slot"

text \<open>The process whose descriptors \<^verbatim>\<open>with_current_fds_mut\<close> hands to its closure.\<close>

definition fd_owner :: "ksys \<Rightarrow> pid" where
  "fd_owner ks = (case pid_for_slot ks (sc_current (ks_sched ks)) of Some p \<Rightarrow> p | None \<Rightarrow> PID_KERNEL)"

definition current_fds :: "ksys \<Rightarrow> fd_table option" where
  "current_fds ks = map_option pr_fds (pt_get (ks_procs ks) (fd_owner ks))"

definition set_current_fds :: "fd_table \<Rightarrow> ksys \<Rightarrow> ksys" where
  "set_current_fds t ks = ks\<lparr>ks_procs := pt_modify (fd_owner ks) (\<lambda>p. p\<lparr>pr_fds := t\<rparr>) (ks_procs ks)\<rparr>"

section \<open>Definitions: capability checks\<close>

text \<open>
  \<^verbatim>\<open>check\<close> asks for the process whose number is in \<^verbatim>\<open>CURRENT_PID\<close>, which no call changes after boot.
\<close>

definition cap_check :: "ksys \<Rightarrow> proc_capability \<Rightarrow> cap_error + unit" where
  "cap_check ks c =
     (case pt_get (ks_procs ks) (ks_current_pid ks) of
        Some p \<Rightarrow> (if has_capability p c then Ok () else Err (MissingCapability c))
      | None \<Rightarrow> Ok ())"

fun cap_check_all :: "ksys \<Rightarrow> proc_capability list \<Rightarrow> cap_error + unit" where
  "cap_check_all ks [] = Ok ()"
| "cap_check_all ks (c # cs) = and_then (cap_check ks c) (\<lambda>_. cap_check_all ks cs)"

fun tier_capability :: "security_tier \<Rightarrow> proc_capability" where
  "tier_capability Public = SemTierPublic"
| "tier_capability Internal = SemTierInternal"
| "tier_capability Sensitive = SemTierSensitive"
| "tier_capability Secret = SemTierSecret"

definition check_tier :: "ksys \<Rightarrow> security_tier \<Rightarrow> cap_error + unit" where
  "check_tier ks tr = cap_check ks (tier_capability tr)"

section \<open>Definitions: pipe references\<close>

text \<open>Giving up and adding the pipe reference of a descriptor; other descriptors have none.\<close>

fun pipe_release :: "fd_entry \<Rightarrow> pipes \<Rightarrow> pipes" where
  "pipe_release (FdPipe pipe_id rd) ps = (if rd then close_read_end ps (unat pipe_id) else close_write_end ps (unat pipe_id))"
| "pipe_release _ ps = ps"

fun pipe_retain :: "fd_entry \<Rightarrow> pipes \<Rightarrow> pipes" where
  "pipe_retain (FdPipe pipe_id rd) ps = (if rd then dup_read_end ps (unat pipe_id) else dup_write_end ps (unat pipe_id))"
| "pipe_retain _ ps = ps"

section \<open>Definitions: descriptors\<close>

definition handle_close :: "u64 \<Rightarrow> ksys \<Rightarrow> ksys \<times> u64" where
  "handle_close fd ks =
     (case current_fds ks of
        None \<Rightarrow> (ks, U64_MAX)
      | Some t \<Rightarrow>
          (case fd_get t (ucast fd) of
             Some (FdPipe pipe_id rd) \<Rightarrow>
               (set_current_fds (fst (fd_close t (ucast fd))) (ks\<lparr>ks_pipes := pipe_release (FdPipe pipe_id rd) (ks_pipes ks)\<rparr>), 0)
           | Some (FdRamfs h) \<Rightarrow>
               (set_current_fds (fst (fd_close t (ucast fd)))
                  (ks\<lparr>ks_ramfds := map_option (\<lambda>rt. fst (rfd_close (unat h) rt)) (ks_ramfds ks)\<rparr>), 0)
           | Some _ \<Rightarrow> (set_current_fds (fst (fd_close t (ucast fd))) ks, 0)
           | None \<Rightarrow> (ks, U64_MAX)))"

definition handle_pipe :: "u64 \<Rightarrow> memory \<Rightarrow> ksys \<Rightarrow> memory \<times> ksys \<times> u64" where
  "handle_pipe out_ptr mem ks =
     (if caller_needs_validation (ks_sched ks) \<and> \<not> validate_user_ptr out_ptr 16 then (mem, ks, U64_MAX)
      else case create_pipe (ks_pipes ks) of
             (ps, None) \<Rightarrow> (mem, ks\<lparr>ks_pipes := ps\<rparr>, U64_MAX)
           | (ps, Some pipe_id) \<Rightarrow>
               (let ks = ks\<lparr>ks_pipes := ps\<rparr>;
                    give_up = (\<lambda>ks. ks\<lparr>ks_pipes := close_write_end (close_read_end (ks_pipes ks) pipe_id) pipe_id\<rparr>)
                in case current_fds ks of
                     None \<Rightarrow> (mem, give_up ks, U64_MAX)
                   | Some t \<Rightarrow>
                       (case fd_alloc t (FdPipe (of_nat pipe_id) True) of
                          (t1, None) \<Rightarrow> (mem, give_up (set_current_fds t1 ks), U64_MAX)
                        | (t1, Some read_fd) \<Rightarrow>
                            (case fd_alloc t1 (FdPipe (of_nat pipe_id) False) of
                               (t2, None) \<Rightarrow>
                                 (mem, give_up (set_current_fds (fst (fd_close t2 (of_nat read_fd))) ks), U64_MAX)
                             | (t2, Some write_fd) \<Rightarrow>
                                 (let ks = set_current_fds t2 ks;
                                      (mem', ok) = write_to_caller (ks_sched ks) mem out_ptr
                                        (le_bytes 8 (of_nat read_fd :: u64) @ le_bytes 8 (of_nat write_fd :: u64))
                                  in (mem', ks, if ok then 0 else U64_MAX))))))"

definition handle_dup :: "u64 \<Rightarrow> ksys \<Rightarrow> ksys \<times> u64" where
  "handle_dup old_fd ks =
     (case current_fds ks of
        None \<Rightarrow> (ks, U64_MAX)
      | Some t \<Rightarrow>
          (case fd_dup t (ucast old_fd) of
             (t', None) \<Rightarrow> (set_current_fds t' ks, U64_MAX)
           | (t', Some new) \<Rightarrow>
               (let ks = set_current_fds t' ks
                in (case fd_get t' (of_nat new) of
                      Some e \<Rightarrow> ks\<lparr>ks_pipes := pipe_retain e (ks_pipes ks)\<rparr>
                    | None \<Rightarrow> ks, of_nat new))))"

definition handle_dup2 :: "u64 \<Rightarrow> u64 \<Rightarrow> ksys \<Rightarrow> ksys \<times> u64" where
  "handle_dup2 old_fd new_fd ks =
     (let new = unat new_fd
      in if new \<ge> MAX_FDS then (ks, U64_MAX)
         else case current_fds ks of
                None \<Rightarrow> (ks, U64_MAX)
              | Some t \<Rightarrow>
                  (let ks = (case fd_get t (of_nat new) of
                               Some e \<Rightarrow> ks\<lparr>ks_pipes := pipe_release e (ks_pipes ks)\<rparr> | None \<Rightarrow> ks)
                   in case fd_dup2 t (ucast old_fd) (of_nat new) of
                        (t', None) \<Rightarrow> (set_current_fds t' ks, U64_MAX)
                      | (t', Some n) \<Rightarrow>
                          (let ks = set_current_fds t' ks
                           in (case fd_get t' (of_nat new) of
                                 Some e \<Rightarrow> ks\<lparr>ks_pipes := pipe_retain e (ks_pipes ks)\<rparr>
                               | None \<Rightarrow> ks, of_nat n))))"

section \<open>Definitions: processes\<close>

text \<open>
  The last part of \<^verbatim>\<open>spawn_from_elf_with_args\<close>: the program has been loaded and its task has the
  slot. Loading, mapping and the user stack are the platform's; their results are arguments.
\<close>

definition adopt_process :: "string \<Rightarrow> nat \<Rightarrow> u64 \<Rightarrow> u64 \<Rightarrow> u64 \<Rightarrow> ksys \<Rightarrow> ksys \<times> pid option" where
  "adopt_process name slot entry rsp brk ks =
     (let parent_pid = ks_current_pid ks
      in case alloc_pid (ks_procs ks) of
           None \<Rightarrow> (ks, None)
         | Some p \<Rightarrow>
             (let q = (process_new p (Some parent_pid) (str_bytes name))\<lparr>pr_capabilities := pcs_minimal\<rparr>;
                  q = (case pt_get (ks_procs ks) parent_pid of
                         Some parent \<Rightarrow> q\<lparr>pr_cwd := pr_cwd parent, pr_cwd_len := pr_cwd_len parent,
                                          pr_env := pr_env parent, pr_env_len := pr_env_len parent\<rparr>
                       | None \<Rightarrow> q);
                  q = (case pt_get (ks_procs ks) (fd_owner ks) of
                         Some parent \<Rightarrow> q\<lparr>pr_fds := pr_fds parent\<rparr> | None \<Rightarrow> q);
                  ps = fold pipe_retain (fd_entries (pr_fds q)) (ks_pipes ks);
                  procs = pt_iter_mut (\<lambda>p. if pr_task_id p = Some slot then p\<lparr>pr_task_id := None\<rparr> else p) (ks_procs ks);
                  q = q\<lparr>pr_task_id := Some slot, pr_state := PRunning, pr_entry_point := entry,
                        pr_stack_ptr := rsp, pr_brk := brk\<rparr>
              in (ks\<lparr>ks_pipes := ps, ks_procs := enter_process parent_pid q procs\<rparr>, Some p)))"

definition spawn_from_elf :: "string \<Rightarrow> u8 \<Rightarrow> (u64 \<times> u64 \<times> u64) option \<Rightarrow> ksys \<Rightarrow> ksys \<times> pid option" where
  "spawn_from_elf name max_tier loaded ks =
     (case loaded of
        None \<Rightarrow> (ks, None)
      | Some (entry, rsp, brk) \<Rightarrow>
          (case spawn_child name max_tier (ks_sched ks) of
             (sc, None) \<Rightarrow> (ks\<lparr>ks_sched := sc\<rparr>, None)
           | (sc, Some slot) \<Rightarrow> adopt_process name slot entry rsp brk (ks\<lparr>ks_sched := sc\<rparr>)))"

definition release_pipe_fds :: "ksys \<Rightarrow> ksys" where
  "release_pipe_fds ks =
     (case pid_for_slot ks (sc_current (ks_sched ks)) of
        None \<Rightarrow> ks
      | Some p \<Rightarrow>
          (if p = PID_KERNEL then ks
           else case pt_get (ks_procs ks) p of
                  None \<Rightarrow> ks
                | Some q \<Rightarrow>
                    ks\<lparr>ks_pipes := fold pipe_release (fd_entries (pr_fds q)) (ks_pipes ks),
                       ks_procs := pt_modify p (\<lambda>q. q\<lparr>pr_fds := (pr_fds q)\<lparr>fd_entries :=
                         map (\<lambda>e. case e of FdPipe _ _ \<Rightarrow> FdEmpty | _ \<Rightarrow> e) (fd_entries (pr_fds q))\<rparr>\<rparr>) (ks_procs ks)\<rparr>))"

text \<open>\<^verbatim>\<open>handle_exit\<close> up to the call of the scheduler. Log lines and the terminal flags of the platform are left out.\<close>

definition exit_process :: "u64 \<Rightarrow> ksys \<Rightarrow> ksys" where
  "exit_process code ks =
     (let ks = release_pipe_fds ks;
          ks = ks\<lparr>ks_sched := exit_current code (ks_sched ks)\<rparr>
      in case pid_for_slot ks (sc_current (ks_sched ks)) of
           None \<Rightarrow> ks
         | Some p \<Rightarrow>
             (case pt_get (ks_procs ks) p of
                None \<Rightarrow> ks
              | Some q \<Rightarrow>
                  ks\<lparr>ks_procs := wake_parent (pr_parent q) (pt_modify p (pr_exit (es_failure (ucast code))) (ks_procs ks))\<rparr>))"

definition handle_exit :: "u64 \<Rightarrow> u64 \<Rightarrow> ksys \<Rightarrow> ksys \<times> u64" where
  "handle_exit now code ks =
     (let ks = exit_process code ks
      in (ks\<lparr>ks_sched := fst (pick_next now (ks_pipes ks) (ks_sched ks))\<rparr>, 0))"

text \<open>\<open>None\<close> is the panic of a slot past the task table.\<close>

definition handle_kill :: "u64 \<Rightarrow> ksys \<Rightarrow> (ksys \<times> u64) option" where
  "handle_kill p ks =
     (let target_pid = ucast p;
          caller_tier = current_task_max_tier (ks_sched ks)
      in case pt_get (ks_procs ks) target_pid of
           None \<Rightarrow> Some (ks, U64_MAX)
         | Some target \<Rightarrow>
             (if \<not> (pr_parent target = Some (ks_current_pid ks) \<or> caller_tier \<ge> 3) then Some (ks, U64_MAX)
              else let ks = ks\<lparr>ks_procs := pt_modify target_pid (pr_exit (es_killed 9)) (ks_procs ks)\<rparr>
                   in case pr_task_id target of
                        None \<Rightarrow> Some (ks, 0)
                      | Some slot \<Rightarrow> map_option (\<lambda>sc. (ks\<lparr>ks_sched := sc\<rparr>, 0)) (kill_task slot (ks_sched ks))))"

text \<open>
  \<^verbatim>\<open>handle_wait\<close> up to the point where it answers or gives the processor away; the caller is then
  blocked on the child's task, or waiting for a child.
\<close>

definition handle_wait :: "u64 \<Rightarrow> ksys \<Rightarrow> ksys \<times> u64 wait_result" where
  "handle_wait p ks =
     (if p = 0
      then (case waitpid_any_turn (ks_current_pid ks) (ks_procs ks) of
              (t, WaitDone (_, status)) \<Rightarrow> (ks\<lparr>ks_procs := t\<rparr>, WaitDone (scast (es_code status)))
            | (t, WaitNone) \<Rightarrow> (ks\<lparr>ks_procs := t\<rparr>, WaitDone U64_MAX)
            | (t, WaitBlocks) \<Rightarrow> (ks\<lparr>ks_procs := t\<rparr>, WaitBlocks))
      else let child_pid = ucast p;
               legacy = (case process_wait (ks_current_pid ks) child_pid (ks_procs ks) of
                  (t, WaitDone status) \<Rightarrow> (ks\<lparr>ks_procs := t\<rparr>, WaitDone (scast (es_code status)))
                | (t, WaitNone) \<Rightarrow> (ks\<lparr>ks_procs := t\<rparr>, WaitDone U64_MAX)
                | (t, WaitBlocks) \<Rightarrow> (ks\<lparr>ks_procs := t\<rparr>, WaitBlocks))
           in case Option.bind (pt_get (ks_procs ks) child_pid) pr_task_id of
                None \<Rightarrow> legacy
              | Some slot \<Rightarrow>
                  (if slot < MAX_TASKS \<and> slot \<noteq> sc_current (ks_sched ks)
                   then if get_task_state slot (ks_sched ks) = Exited
                        then (ks, WaitDone (task_exit_code slot (ks_sched ks)))
                        else if get_task_state slot (ks_sched ks) \<noteq> TaskEmpty
                             then (ks\<lparr>ks_sched := join_block slot (ks_sched ks)\<rparr>, WaitBlocks)
                             else legacy
                   else legacy))"

definition handle_waitnb :: "ksys \<Rightarrow> ksys \<times> u64" where
  "handle_waitnb ks =
     (case pt_get (ks_procs ks) (ks_current_pid ks) of
        None \<Rightarrow> (ks, U64_MAX)
      | Some p \<Rightarrow>
          (if pr_child_count p = 0 then (ks, U64_MAX)
           else case List.find (\<lambda>c. case pt_get (ks_procs ks) c of Some q \<Rightarrow> pr_state q = Zombie | None \<Rightarrow> False)
                       (List.map_filter id (pr_children p)) of
                  Some child \<Rightarrow>
                    (ks\<lparr>ks_procs := fst (process_wait (ks_current_pid ks) child (ks_procs ks))\<rparr>, ucast child)
                | None \<Rightarrow> (ks, 0)))"

section \<open>Definitions: working directory and environment\<close>

definition handle_get_cwd :: "u64 \<Rightarrow> u64 \<Rightarrow> memory \<Rightarrow> ksys \<Rightarrow> memory \<times> u64" where
  "handle_get_cwd buf_ptr buf_len mem ks =
     (let len_out = unat buf_len
      in if len_out = 0 \<or> len_out > 2 ^ 20 then (mem, U64_MAX)
         else case pt_get (ks_procs ks) (ks_current_pid ks) of
                None \<Rightarrow> (mem, U64_MAX)
              | Some p \<Rightarrow>
                  (if pr_cwd_len p > len_out then (mem, U64_MAX)
                   else case write_to_caller (ks_sched ks) mem buf_ptr (take (pr_cwd_len p) (pr_cwd p)) of
                          (mem', False) \<Rightarrow> (mem', U64_MAX)
                        | (mem', True) \<Rightarrow> (mem', of_nat (pr_cwd_len p))))"

definition handle_set_cwd :: "u64 \<Rightarrow> u64 \<Rightarrow> memory \<Rightarrow> ksys \<Rightarrow> ksys \<times> u64" where
  "handle_set_cwd path_ptr path_len mem ks =
     (if unat path_len = 0 \<or> unat path_len > 128 then (ks, U64_MAX)
      else case read_caller_str (ks_sched ks) mem path_ptr path_len of
             None \<Rightarrow> (ks, U64_MAX)
           | Some path \<Rightarrow>
               (case pt_get (ks_procs ks) (ks_current_pid ks) of
                  None \<Rightarrow> (ks, U64_MAX)
                | Some p \<Rightarrow>
                    (ks\<lparr>ks_procs := pt_modify (ks_current_pid ks) (\<lambda>p. fst (set_cwd p path)) (ks_procs ks)\<rparr>,
                     if snd (set_cwd p path) then 0 else U64_MAX)))"

definition handle_get_env :: "u64 \<Rightarrow> u64 \<Rightarrow> u64 \<Rightarrow> u64 \<Rightarrow> memory \<Rightarrow> ksys \<Rightarrow> memory \<times> u64" where
  "handle_get_env key_ptr key_len val_ptr val_len mem ks =
     (let klen = unat key_len; vlen_out = unat val_len
      in if klen = 0 \<or> klen > 64 \<or> vlen_out = 0 \<or> vlen_out > 1024 then (mem, U64_MAX)
         else case read_caller_str (ks_sched ks) mem key_ptr key_len of
                None \<Rightarrow> (mem, U64_MAX)
              | Some key \<Rightarrow>
                  (case pt_get (ks_procs ks) (ks_current_pid ks) of
                     None \<Rightarrow> (mem, U64_MAX)
                   | Some p \<Rightarrow>
                       (case env_get p key of
                          None \<Rightarrow> (mem, 0)
                        | Some v \<Rightarrow>
                            (if length v > vlen_out then (mem, U64_MAX)
                             else case write_to_caller (ks_sched ks) mem val_ptr v of
                                    (mem', False) \<Rightarrow> (mem', U64_MAX)
                                  | (mem', True) \<Rightarrow> (mem', of_nat (length v))))))"

definition handle_set_env :: "u64 \<Rightarrow> u64 \<Rightarrow> u64 \<Rightarrow> u64 \<Rightarrow> memory \<Rightarrow> ksys \<Rightarrow> ksys \<times> u64" where
  "handle_set_env key_ptr key_len val_ptr val_len mem ks =
     (let klen = unat key_len; vlen = unat val_len
      in if klen = 0 \<or> klen > 64 \<or> vlen > 1024 then (ks, U64_MAX)
         else case read_caller_str (ks_sched ks) mem key_ptr key_len of
                None \<Rightarrow> (ks, U64_MAX)
              | Some key \<Rightarrow>
                  (case (if vlen = 0 then Some [] else read_caller_str (ks_sched ks) mem val_ptr val_len) of
                     None \<Rightarrow> (ks, U64_MAX)
                   | Some v \<Rightarrow>
                       (case pt_get (ks_procs ks) (ks_current_pid ks) of
                          None \<Rightarrow> (ks, U64_MAX)
                        | Some p \<Rightarrow>
                            (ks\<lparr>ks_procs := pt_modify (ks_current_pid ks) (\<lambda>p. fst (env_set p key v)) (ks_procs ks)\<rparr>,
                             if snd (env_set p key v) then 0 else U64_MAX))))"

end
