(* ===== verification/Refcounts.thy ===== *)
theory Refcounts
  imports Descriptors
begin

text \<open>
  References to pipe ends: how many descriptors of the process table hold an end, what the operations
  of the table do to that number, and what it means that the counts of the pipes agree with it.
\<close>

section \<open>Descriptor tables\<close>

text \<open>What the counting needs of a table. (An exiting process loses its pipe ends without an update of the hint.)\<close>

definition fds_wf :: "fd_table \<Rightarrow> bool" where
  "fds_wf t \<longleftrightarrow> length (fd_entries t) = MAX_FDS \<and> fd_next t \<le> MAX_FDS"

lemma fd_alloc_wf_cases:
  assumes wf: "fds_wf t"
  obtains (full) "fd_alloc t e = (t, None)"
    | (free) i t' where "fd_alloc t e = (t', Some i)" "fd_entries t' = (fd_entries t)[i := e]" "fds_wf t'" "i < MAX_FDS" "fd_entries t ! i = FdEmpty"
proof (cases "List.find (\<lambda>i. fd_entries t ! i = FdEmpty) [fd_next t..<MAX_FDS]")
  case None
  show ?thesis
  proof (cases "List.find (\<lambda>i. fd_entries t ! i = FdEmpty) [0..<fd_next t]")
    case (Some i)
    with None find_upt_Some [OF Some] wf show ?thesis using free [of "t\<lparr>fd_entries := (fd_entries t)[i := e]\<rparr>" i] by (simp add: fd_alloc_def fds_wf_def)
  qed (use None full in \<open>simp add: fd_alloc_def\<close>)
next
  case (Some i)
  with find_upt_Some [OF Some] wf show ?thesis
    using free [of "t\<lparr>fd_entries := (fd_entries t)[i := e], fd_next := i + 1\<rparr>" i] by (simp add: fd_alloc_def fds_wf_def)
qed

lemma fd_alloc_wf: "fds_wf t \<Longrightarrow> fds_wf (fst (fd_alloc t e))"
  by (cases rule: fd_alloc_wf_cases [where t = t and e = e]) simp_all

lemma fd_close_wf: "fds_wf t \<Longrightarrow> fds_wf (fst (fd_close t fd))"
  by (auto simp: fd_close_def fds_wf_def split: option.splits)

lemma fds_wf_put: "fds_wf t \<Longrightarrow> fds_wf (t\<lparr>fd_entries := (fd_entries t)[i := e]\<rparr>)"
  by (simp add: fds_wf_def)

lemma fds_wf_stdio: "fds_wf with_stdio"
  by (simp add: fds_wf_def with_stdio_def fds_new_def MAX_FDS_def)

section \<open>Counting references\<close>

definition slot_refs :: "fd_entry \<Rightarrow> process option \<Rightarrow> nat" where
  "slot_refs e x = (case x of None \<Rightarrow> 0 | Some p \<Rightarrow> count_list (fd_entries (pr_fds p)) e)"

definition refs :: "process_table \<Rightarrow> fd_entry \<Rightarrow> nat" where
  "refs t e = (\<Sum>i < MAX_PROCESSES. slot_refs e (pt_processes t ! i))"

lemma count_list_le: "count_list xs x \<le> length xs"
  by (induction xs) auto

lemma count_list_update:
  "i < length xs \<Longrightarrow> count_list (xs[i := y]) e + (if xs ! i = e then 1 else 0) = count_list xs e + (if y = e then 1 else 0)"
  using length_filter_update [of i xs "(=) e" y] by (auto simp: count_list_eq_length_filter)

lemma count_list_pos: "i < length xs \<Longrightarrow> xs ! i = e \<Longrightarrow> 0 < count_list xs e"
  by (induction xs arbitrary: i) (auto simp: nth_Cons split: nat.splits)

text \<open>A process other than the kernel is a child of the kernel and has no dangerous capability.\<close>

definition confined :: "process \<Rightarrow> bool" where
  "confined q \<longleftrightarrow> (pr_pid q \<noteq> PID_KERNEL \<longrightarrow> pr_parent q = Some PID_KERNEL \<and> cap_set (pr_capabilities q) \<inter> dangerous = {})"

definition proc_ok :: "process \<Rightarrow> bool" where
  "proc_ok q \<longleftrightarrow> fds_wf (pr_fds q) \<and> confined q \<and> (\<forall>slot. pr_task_id q = Some slot \<longrightarrow> slot < MAX_TASKS)"

definition table_ok :: "process_table \<Rightarrow> bool" where
  "table_ok t \<longleftrightarrow> length (pt_processes t) = MAX_PROCESSES
     \<and> (\<forall>i q. i < MAX_PROCESSES \<and> pt_processes t ! i = Some q \<longrightarrow> unat (pr_pid q) = i \<and> proc_ok q)"

lemma table_ok_length: "table_ok t \<Longrightarrow> length (pt_processes t) = MAX_PROCESSES"
  by (simp add: table_ok_def)

lemma pt_get_Some:
  "table_ok t \<Longrightarrow> pt_get t p = Some q \<Longrightarrow> unat p < MAX_PROCESSES \<and> pt_processes t ! unat p = Some q \<and> pr_pid q = p \<and> proc_ok q"
  by (auto simp: pt_get_def table_ok_def word_unat_eq_iff split: if_splits)

lemma proc_ok_length: "proc_ok q \<Longrightarrow> length (fd_entries (pr_fds q)) = MAX_FDS"
  by (simp add: proc_ok_def fds_wf_def)

lemma sum_update:
  fixes f g :: "nat \<Rightarrow> nat"
  assumes "k < n" and "\<forall>i < n. i \<noteq> k \<longrightarrow> g i = f i"
  shows "sum g {..<n} + f k = sum f {..<n} + g k"
proof -
  have "sum g {..<n} = g k + sum g ({..<n} - {k})" "sum f {..<n} = f k + sum f ({..<n} - {k})"
    using assms(1) by (simp_all add: sum.remove)
  moreover have "sum g ({..<n} - {k}) = sum f ({..<n} - {k})" using assms(2) by (intro sum.cong) auto
  ultimately show ?thesis by simp
qed

lemma refs_put:
  assumes "table_ok t" and "k < MAX_PROCESSES" and "pt_processes t' = (pt_processes t)[k := x]"
  shows "refs t' e + slot_refs e (pt_processes t ! k) = refs t e + slot_refs e x"
  unfolding refs_def
  using sum_update [OF assms(2), of "\<lambda>i. slot_refs e (pt_processes t' ! i)" "\<lambda>i. slot_refs e (pt_processes t ! i)"] assms
  by (simp add: table_ok_def)

lemma refs_bound:
  assumes "table_ok t"
  shows "refs t e < 2 ^ 32"
proof -
  have "slot_refs e (pt_processes t ! i) \<le> MAX_FDS" if "i < MAX_PROCESSES" for i
    using assms that by (auto simp: slot_refs_def table_ok_def proc_ok_length split: option.split intro: order_trans [OF count_list_le])
  then have "refs t e \<le> (\<Sum>i < MAX_PROCESSES. MAX_FDS)" unfolding refs_def by (intro sum_mono) auto
  also have "\<dots> < 2 ^ 32" by (simp add: MAX_PROCESSES_def MAX_FDS_def)
  finally show ?thesis .
qed

lemma refs_ge:
  assumes "table_ok t" and "pt_get t p = Some q"
  shows "count_list (fd_entries (pr_fds q)) e \<le> refs t e"
proof -
  have "slot_refs e (pt_processes t ! unat p) \<le> refs t e"
    unfolding refs_def using pt_get_Some [OF assms] by (intro member_le_sum) auto
  then show ?thesis using pt_get_Some [OF assms] by (simp add: slot_refs_def)
qed

text \<open>What the operations of the table do to the references.\<close>

lemma table_ok_modify:
  assumes "table_ok t" and "\<And>q. pt_get t p = Some q \<Longrightarrow> pr_pid (f q) = pr_pid q \<and> proc_ok (f q)"
  shows "table_ok (pt_modify p f t)"
proof (cases "pt_get t p")
  case (Some q)
  note P = pt_get_Some [OF assms(1) Some]
  show ?thesis using assms(1) assms(2) [OF Some] P Some
    by (auto simp: table_ok_def pt_modify_def nth_list_update)
qed (simp add: pt_modify_def assms(1))

lemma refs_modify:
  assumes "table_ok t" and "pt_get t p = Some q"
  shows "refs (pt_modify p f t) e + count_list (fd_entries (pr_fds q)) e = refs t e + count_list (fd_entries (pr_fds (f q))) e"
  using refs_put [OF assms(1), of "unat p" "pt_modify p f t" "Some (f q)" e] pt_get_Some [OF assms] assms(2)
  by (simp add: pt_modify_def slot_refs_def)

lemma refs_modify_same:
  assumes "table_ok t" and "\<And>q. pt_get t p = Some q \<Longrightarrow> fd_entries (pr_fds (f q)) = fd_entries (pr_fds q)"
  shows "refs (pt_modify p f t) e = refs t e"
proof (cases "pt_get t p")
  case (Some q)
  then show ?thesis using refs_modify [OF assms(1) Some, of f e] assms(2) [OF Some] by simp
qed (simp add: pt_modify_def)

lemma pt_get_modify:
  assumes "table_ok t"
  shows "pt_get (pt_modify p f t) r = (if r = p then map_option f (pt_get t p) else pt_get t r)"
proof (cases "pt_get t p")
  case (Some q)
  then show ?thesis using pt_get_Some [OF assms Some] table_ok_length [OF assms]
    by (auto simp: pt_modify_def pt_get_def nth_list_update word_unat_eq_iff)
qed (auto simp: pt_modify_def)

lemma alloc_pid_Some:
  assumes "table_ok t" and "alloc_pid t = Some p"
  shows "2 \<le> unat p" and "unat p < MAX_PROCESSES" and "pt_get t p = None"
proof -
  obtain i where i: "List.find (\<lambda>i. pt_processes t ! i = None) [2..<MAX_PROCESSES] = Some i" "p = of_nat i"
    using assms(2) by (auto simp: alloc_pid_def)
  from find_upt_Some [OF i(1)] have "2 \<le> i" "i < MAX_PROCESSES" "pt_processes t ! i = None" by auto
  moreover from this have "unat p = i" using i(2) by (simp add: MAX_PROCESSES_def unat_of_nat take_bit_nat_eq_self)
  ultimately show "2 \<le> unat p" "unat p < MAX_PROCESSES" "pt_get t p = None" by (simp_all add: pt_get_def)
qed

lemma pt_insert_new:
  assumes "table_ok t" and "pt_get t (pr_pid q) = None" and "unat (pr_pid q) < MAX_PROCESSES" and "proc_ok q"
  defines "t' \<equiv> fst (pt_insert q t)"
  shows "table_ok t'" and "refs t' e = refs t e + count_list (fd_entries (pr_fds q)) e"
    and "pt_get t' r = (if r = pr_pid q then Some q else pt_get t r)"
proof -
  have n: "pt_processes t ! unat (pr_pid q) = None" using assms(2,3) by (simp add: pt_get_def)
  then have t': "t' = t\<lparr>pt_processes := (pt_processes t)[unat (pr_pid q) := Some q], pt_count := pt_count t + 1\<rparr>"
    using assms(3) by (simp add: t'_def pt_insert_def)
  show "table_ok t'" using assms(1,3,4) by (auto simp: t' table_ok_def nth_list_update)
  show "refs t' e = refs t e + count_list (fd_entries (pr_fds q)) e"
    using refs_put [OF assms(1,3), of t' "Some q" e] n by (simp add: t' slot_refs_def)
  show "pt_get t' r = (if r = pr_pid q then Some q else pt_get t r)"
    using assms(1,3) by (auto simp: t' pt_get_def table_ok_def nth_list_update word_unat_eq_iff)
qed

lemma pr_add_child_same: "pr_pid (fst (pr_add_child p c)) = pr_pid p \<and> pr_fds (fst (pr_add_child p c)) = pr_fds p
    \<and> pr_capabilities (fst (pr_add_child p c)) = pr_capabilities p \<and> pr_parent (fst (pr_add_child p c)) = pr_parent p"
  by (simp add: pr_add_child_def split: option.split)

lemma pr_remove_child_same: "pr_pid (fst (pr_remove_child p c)) = pr_pid p \<and> pr_fds (fst (pr_remove_child p c)) = pr_fds p
    \<and> pr_capabilities (fst (pr_remove_child p c)) = pr_capabilities p \<and> pr_parent (fst (pr_remove_child p c)) = pr_parent p"
  by (simp add: pr_remove_child_def split: option.split)

section \<open>Counts and references agree\<close>

text \<open>The count that a pipe keeps for one of its ends.\<close>

definition end_count :: "pipes \<Rightarrow> u32 \<Rightarrow> bool \<Rightarrow> nat" where
  "end_count ps i rd = (if rd then unat (readers (ps ! unat i)) else unat (writers (ps ! unat i)))"

text \<open>
  \<open>R\<close> says how many descriptors hold an end: a pipe in use has exactly that many references and at
  least one, and an inactive one has none.
\<close>

definition bal :: "pipes \<Rightarrow> (fd_entry \<Rightarrow> nat) \<Rightarrow> bool" where
  "bal ps R \<longleftrightarrow> length ps = MAX_PIPES
     \<and> (\<forall>i rd. if unat i < MAX_PIPES \<and> active (ps ! unat i) then R (FdPipe i rd) = end_count ps i rd else R (FdPipe i rd) = 0)
     \<and> (\<forall>i. unat i < MAX_PIPES \<and> active (ps ! unat i) \<longrightarrow> 0 < R (FdPipe i True) + R (FdPipe i False))"

lemma bal_held: "bal ps R \<Longrightarrow> 0 < R (FdPipe i rd) \<Longrightarrow> unat i < MAX_PIPES \<and> active (ps ! unat i) \<and> R (FdPipe i rd) = end_count ps i rd"
  unfolding bal_def by (metis less_numeral_extra(3))

lemma bal_cong:
  assumes "bal ps R" and "\<And>i rd. R' (FdPipe i rd) = R (FdPipe i rd)"
  shows "bal ps R'"
  using assms(1) unfolding bal_def assms(2) .

lemma bal_put:
  assumes b: "bal ps R" and i: "unat i < MAX_PIPES" "active (ps ! unat i)"
    and R': "\<And>j rd. j \<noteq> i \<Longrightarrow> R' (FdPipe j rd) = R (FdPipe j rd)"
    and p: "R' (FdPipe i True) = unat (readers p)" "R' (FdPipe i False) = unat (writers p)"
      "active p \<longleftrightarrow> readers p \<noteq> 0 \<or> writers p \<noteq> 0"
  shows "bal (ps[unat i := p]) R'"
proof -
  have l: "length ps = MAX_PIPES" using b by (simp add: bal_def)
  have z: "unat w = 0 \<longleftrightarrow> w = 0" for w :: u32 by (simp add: unat_eq_0)
  have "(if unat j < MAX_PIPES \<and> active (ps[unat i := p] ! unat j) then R' (FdPipe j rd) = end_count (ps[unat i := p]) j rd else R' (FdPipe j rd) = 0)
      \<and> (unat j < MAX_PIPES \<and> active (ps[unat i := p] ! unat j) \<longrightarrow> 0 < R' (FdPipe j True) + R' (FdPipe j False))" for j rd
  proof (cases "j = i")
    case True
    have "ps[unat i := p] ! unat i = p" using i l by simp
    then show ?thesis using True i p by (cases rd) (auto simp: end_count_def z unat_gt_0)
  next
    case False
    then have "ps[unat i := p] ! unat j = ps ! unat j" by (simp add: nth_list_update word_unat_eq_iff)
    then show ?thesis using b R' [OF False] by (auto simp: bal_def end_count_def split: if_splits)
  qed
  then show ?thesis using l unfolding bal_def by (metis length_list_update)
qed

lemma unat_dec: "w \<noteq> 0 \<Longrightarrow> unat (w - 1) = unat w - 1" for w :: u32
  by (simp add: unat_minus_one)

lemma bal_release:
  assumes b: "bal ps R" and h: "0 < R (FdPipe i rd)"
  shows "bal (pipe_release (FdPipe i rd) ps) (R(FdPipe i rd := R (FdPipe i rd) - 1))"
proof -
  note H = bal_held [OF b h]
  have cnt: "R (FdPipe i r) = end_count ps i r" for r using b H by (auto simp: bal_def)
  have pos: "unat w = 0 \<longleftrightarrow> w = 0" for w :: u32 by (simp add: unat_eq_0)
  let ?q = "ps ! unat i"
  define p where "p = (if rd then ?q\<lparr>readers := readers ?q - 1\<rparr> else ?q\<lparr>writers := writers ?q - 1\<rparr>)"
  define p' where "p' = (if readers p = 0 \<and> writers p = 0 then p\<lparr>active := False\<rparr> else p)"
  have nz: "if rd then readers ?q \<noteq> 0 else writers ?q \<noteq> 0" using h cnt [of rd] pos by (auto simp: end_count_def)
  have r: "pipe_release (FdPipe i rd) ps = ps[unat i := p']"
    using H nz by (auto simp: close_read_end_def close_write_end_def saturating_dec_def Let_def p_def p'_def)
  have u: "if rd then unat (readers p') = unat (readers ?q) - 1 \<and> writers p' = writers ?q
      else unat (writers p') = unat (writers ?q) - 1 \<and> readers p' = readers ?q"
    using nz unat_dec by (auto simp: p'_def p_def)
  have act: "active p' \<longleftrightarrow> readers p' \<noteq> 0 \<or> writers p' \<noteq> 0" using H by (auto simp: p'_def p_def)
  show ?thesis unfolding r
  proof (rule bal_put [OF b])
    show "(R(FdPipe i rd := R (FdPipe i rd) - 1)) (FdPipe i True) = unat (readers p')"
      using u cnt [of True] by (auto simp: end_count_def)
    show "(R(FdPipe i rd := R (FdPipe i rd) - 1)) (FdPipe i False) = unat (writers p')"
      using u cnt [of False] by (auto simp: end_count_def)
  qed (use H act in auto)
qed

lemma bal_retain:
  assumes b: "bal ps R" and h: "0 < R (FdPipe i rd)" and lim: "R (FdPipe i rd) + 1 < 2 ^ 32"
  shows "bal (pipe_retain (FdPipe i rd) ps) (R(FdPipe i rd := R (FdPipe i rd) + 1))"
proof -
  note H = bal_held [OF b h]
  have cnt: "R (FdPipe i r) = end_count ps i r" for r using b H by (auto simp: bal_def)
  let ?q = "ps ! unat i"
  define p where "p = (if rd then ?q\<lparr>readers := readers ?q + 1\<rparr> else ?q\<lparr>writers := writers ?q + 1\<rparr>)"
  have r: "pipe_retain (FdPipe i rd) ps = ps[unat i := p]" using H by (auto simp: dup_read_end_def dup_write_end_def p_def)
  have u: "if rd then unat (readers p) = unat (readers ?q) + 1 \<and> writers p = writers ?q
      else unat (writers p) = unat (writers ?q) + 1 \<and> readers p = readers ?q"
    using lim cnt [of rd] by (auto simp: p_def end_count_def unat_word_ariths)
  then have act: "active p \<longleftrightarrow> readers p \<noteq> 0 \<or> writers p \<noteq> 0"
    using H by (auto simp: p_def split: if_splits)
  show ?thesis unfolding r
  proof (rule bal_put [OF b])
    show "(R(FdPipe i rd := R (FdPipe i rd) + 1)) (FdPipe i True) = unat (readers p)"
      using u cnt [of True] by (auto simp: end_count_def split: if_splits)
    show "(R(FdPipe i rd := R (FdPipe i rd) + 1)) (FdPipe i False) = unat (writers p)"
      using u cnt [of False] by (auto simp: end_count_def split: if_splits)
  qed (use H act in auto)
qed

lemma bal_create:
  assumes b: "bal ps R" and c: "create_pipe ps = (ps', Some k)"
  shows "bal ps' (R(FdPipe (of_nat k) True := 1, FdPipe (of_nat k) False := 1))" and "unat (of_nat k :: u32) = k" and "k < MAX_PIPES"
    and "R (FdPipe (of_nat k) rd) = 0"
proof -
  have l: "length ps = MAX_PIPES" using b by (simp add: bal_def)
  have k: "position (\<lambda>p. \<not> active p) ps = Some k" and ps': "ps' = ps[k := pipe_empty\<lparr>readers := 1, writers := 1, active := True\<rparr>]"
    using c by (auto simp: create_pipe_def split: option.splits)
  from position_SomeD [OF k] l show kl: "k < MAX_PIPES" by simp
  then show u: "unat (of_nat k :: u32) = k" by (simp add: MAX_PIPES_def unat_of_nat take_bit_nat_eq_self)
  have na: "\<not> active (ps ! k)" using position_SomeD [OF k] by simp
  then show "R (FdPipe (of_nat k) rd) = 0" using b u by (auto simp: bal_def split: if_splits)
  let ?i = "of_nat k :: u32" and ?R = "R(FdPipe (of_nat k) True := 1, FdPipe (of_nat k) False := 1)"
  have "(if unat j < MAX_PIPES \<and> active (ps' ! unat j) then ?R (FdPipe j rd) = end_count ps' j rd else ?R (FdPipe j rd) = 0)
      \<and> (unat j < MAX_PIPES \<and> active (ps' ! unat j) \<longrightarrow> 0 < ?R (FdPipe j True) + ?R (FdPipe j False))" for j rd
  proof (cases "j = ?i")
    case True
    have "ps' ! k = pipe_empty\<lparr>readers := 1, writers := 1, active := True\<rparr>" using kl l by (simp add: ps')
    then show ?thesis using True u kl by (auto simp: end_count_def)
  next
    case False
    then have "unat j \<noteq> k" using u word_unat_eq_iff by metis
    then have "ps' ! unat j = ps ! unat j" by (simp add: ps')
    then show ?thesis using b False by (auto simp: bal_def end_count_def split: if_splits)
  qed
  moreover have "length ps' = MAX_PIPES" using l by (simp add: ps')
  ultimately show "bal ps' ?R" unfolding bal_def by metis
qed

section \<open>The interface between descriptors and pipes\<close>

text \<open>
  A store \<open>s\<close> of counted things: \<open>agrees s R\<close> says that the counts of \<open>s\<close> are the numbers of
  references that \<open>R\<close> gives. A reference may be added where one is held already, and given up. Whole
  descriptor tables follow entry by entry.
\<close>

locale counted_ends =
  fixes agrees :: "'s \<Rightarrow> ('e \<Rightarrow> nat) \<Rightarrow> bool" and counted :: "'e \<Rightarrow> bool"
    and retain :: "'e \<Rightarrow> 's \<Rightarrow> 's" and give_up :: "'e \<Rightarrow> 's \<Rightarrow> 's" and limit :: nat
  assumes agrees_cong: "agrees s R \<Longrightarrow> (\<And>e. counted e \<Longrightarrow> R' e = R e) \<Longrightarrow> agrees s R'"
    and retain_one: "agrees s R \<Longrightarrow> counted e \<Longrightarrow> 0 < R e \<Longrightarrow> R e + 1 < limit \<Longrightarrow> agrees (retain e s) (R(e := R e + 1))"
    and give_up_one: "agrees s R \<Longrightarrow> counted e \<Longrightarrow> 0 < R e \<Longrightarrow> agrees (give_up e s) (R(e := R e - 1))"
    and retain_other: "\<not> counted e \<Longrightarrow> retain e s = s"
    and give_up_other: "\<not> counted e \<Longrightarrow> give_up e s = s"
begin

lemma retain_all:
  assumes "agrees s R" and "\<And>e. counted e \<Longrightarrow> e \<in> set es \<Longrightarrow> 0 < R e" and "\<And>e. counted e \<Longrightarrow> R e + count_list es e < limit"
  shows "agrees (fold retain es s) (\<lambda>e. R e + count_list es e)"
  using assms
proof (induction es arbitrary: s R)
  case (Cons e es)
  show ?case
  proof (cases "counted e")
    case True
    let ?R = "R(e := R e + 1)"
    have eq: "?R x + count_list es x = R x + count_list (e # es) x" for x by simp
    have "R e + 1 < limit" using Cons.prems(3) [OF True] by simp
    then have b: "agrees (retain e s) ?R" using retain_one Cons.prems(1,2) True by simp
    have "agrees (fold retain es (retain e s)) (\<lambda>x. ?R x + count_list es x)"
    proof (rule Cons.IH [OF b])
      show "0 < ?R x" if "counted x" "x \<in> set es" for x using Cons.prems(2) that by simp
      show "?R x + count_list es x < limit" if "counted x" for x using Cons.prems(3) [OF that] unfolding eq .
    qed
    then show ?thesis by (simp only: eq fold_Cons comp_apply)
  next
    case False
    then have eq: "count_list (e # es) x = count_list es x" if "counted x" for x using that by auto
    have "agrees (fold retain es s) (\<lambda>x. R x + count_list es x)"
      by (rule Cons.IH [OF Cons.prems(1)]) (use Cons.prems(2,3) eq in \<open>metis list.set_intros(2)\<close>)+
    then show ?thesis unfolding fold_Cons comp_apply retain_other [OF False] by (rule agrees_cong) (use False in auto)
  qed
qed simp

lemma give_up_all:
  assumes "agrees s R" and "\<And>e. counted e \<Longrightarrow> count_list es e \<le> R e"
  shows "agrees (fold give_up es s) (\<lambda>e. R e - count_list es e)"
  using assms
proof (induction es arbitrary: s R)
  case (Cons e es)
  show ?case
  proof (cases "counted e")
    case True
    let ?R = "R(e := R e - 1)"
    have eq: "?R x - count_list es x = R x - count_list (e # es) x" for x by simp
    have "0 < R e" using Cons.prems(2) [OF True] by simp
    then have b: "agrees (give_up e s) ?R" using give_up_one Cons.prems(1) True by simp
    have "agrees (fold give_up es (give_up e s)) (\<lambda>x. ?R x - count_list es x)"
      by (rule Cons.IH [OF b]) (use Cons.prems(2) in \<open>force split: if_splits\<close>)
    then show ?thesis by (simp only: eq fold_Cons comp_apply)
  next
    case False
    then have eq: "count_list (e # es) x = count_list es x" if "counted x" for x using that by auto
    have "agrees (fold give_up es s) (\<lambda>x. R x - count_list es x)"
      by (rule Cons.IH [OF Cons.prems(1)]) (use Cons.prems(2) eq in metis)
    then show ?thesis unfolding fold_Cons comp_apply give_up_other [OF False] by (rule agrees_cong) (use False in auto)
  qed
qed simp

end

interpretation pipe_ends: counted_ends bal is_FdPipe pipe_retain pipe_release "2 ^ 32"
proof
  show "bal ps R'" if "bal ps R" "\<And>e. is_FdPipe e \<Longrightarrow> R' e = R e" for ps R R' using that bal_cong by simp
  show "bal (pipe_retain e ps) (R(e := R e + 1))" if "bal ps R" "is_FdPipe e" "0 < R e" "R e + 1 < 2 ^ 32" for ps R e
    using that bal_retain by (cases e) auto
  show "bal (pipe_release e ps) (R(e := R e - 1))" if "bal ps R" "is_FdPipe e" "0 < R e" for ps R e
    using that bal_release by (cases e) auto
  show "pipe_retain e ps = ps" "pipe_release e ps = ps" if "\<not> is_FdPipe e" for e ps using that by (cases e; simp)+
qed

end
