(* ===== verification/Descriptors_Correct.thy ===== *)
theory Descriptors_Correct
  imports Refcounts
begin

text \<open>
  Properties of the system calls on descriptors and processes: the invariant of the kernel state,
  that every call keeps it, and what follows for every reachable state. The counts of a pipe equal
  the descriptors held, and who may kill whom.
\<close>

section \<open>The invariant of the kernel state\<close>

definition ks_ok :: "ksys \<Rightarrow> bool" where
  "ks_ok ks \<longleftrightarrow> table_ok (ks_procs ks) \<and> bal (ks_pipes ks) (refs (ks_procs ks)) \<and> ks_current_pid ks = PID_KERNEL
     \<and> sched_inv (ks_sched ks)"

lemma ks_okD:
  "ks_ok ks \<Longrightarrow> table_ok (ks_procs ks)" "ks_ok ks \<Longrightarrow> bal (ks_pipes ks) (refs (ks_procs ks))"
  "ks_ok ks \<Longrightarrow> ks_current_pid ks = PID_KERNEL" "ks_ok ks \<Longrightarrow> sched_inv (ks_sched ks)"
  by (simp_all add: ks_ok_def)

lemma ks_ok_procs:
  assumes "ks_ok ks" and "table_ok t" and "\<And>i rd. refs t (FdPipe i rd) = refs (ks_procs ks) (FdPipe i rd)"
  shows "ks_ok (ks\<lparr>ks_procs := t\<rparr>)"
  using assms bal_cong [OF ks_okD(2) [OF assms(1)], of "refs t"] by (simp add: ks_ok_def)

text \<open>Changes of a process that leave its descriptors and what confines it alone.\<close>

definition harmless :: "(process \<Rightarrow> process) \<Rightarrow> bool" where
  "harmless f \<longleftrightarrow> (\<forall>q. pr_pid (f q) = pr_pid q \<and> pr_fds (f q) = pr_fds q \<and> pr_parent (f q) = pr_parent q
     \<and> pr_capabilities (f q) = pr_capabilities q \<and> pr_task_id (f q) \<in> {None, pr_task_id q})"

lemma harmless_ok: "harmless f \<Longrightarrow> proc_ok q \<Longrightarrow> proc_ok (f q)"
  unfolding harmless_def proc_ok_def confined_def by (metis insert_iff option.distinct(1) singletonD)

lemma harmless_table:
  assumes "table_ok t" and "harmless f"
  shows "table_ok (pt_modify p f t)" and "refs (pt_modify p f t) e = refs t e"
proof -
  show "table_ok (pt_modify p f t)"
    by (rule table_ok_modify [OF assms(1)]) (use assms pt_get_Some harmless_ok in \<open>auto simp: harmless_def\<close>)
  show "refs (pt_modify p f t) e = refs t e"
    by (rule refs_modify_same [OF assms(1)]) (use assms(2) in \<open>simp add: harmless_def\<close>)
qed

lemma harmless_ks: "ks_ok ks \<Longrightarrow> harmless f \<Longrightarrow> ks_ok (ks\<lparr>ks_procs := pt_modify p f (ks_procs ks)\<rparr>)"
  by (simp add: ks_ok_procs ks_okD(1) harmless_table)

lemma harmless_iter:
  assumes "table_ok t" and "harmless f"
  shows "table_ok (pt_iter_mut f t)" and "refs (pt_iter_mut f t) e = refs t e"
proof -
  have l: "length (pt_processes t) = MAX_PROCESSES" using assms(1) by (rule table_ok_length)
  have "unat (pr_pid q) = i \<and> proc_ok q" if "i < MAX_PROCESSES" "pt_processes (pt_iter_mut f t) ! i = Some q" for i q
    using that assms l harmless_ok [OF assms(2)] by (auto simp: table_ok_def pt_iter_mut_def harmless_def)
  moreover have "length (pt_processes (pt_iter_mut f t)) = MAX_PROCESSES" using l by (simp add: pt_iter_mut_def)
  ultimately show "table_ok (pt_iter_mut f t)" unfolding table_ok_def by blast
  show "refs (pt_iter_mut f t) e = refs t e" unfolding refs_def
    using l assms(2) by (intro sum.cong) (auto simp: pt_iter_mut_def slot_refs_def harmless_def split: option.split)
qed

lemma harmless_facts [simp]:
  "harmless (pr_exit st)" "harmless (\<lambda>p. p\<lparr>pr_state := s\<rparr>)" "harmless (\<lambda>p. fst (pr_add_child p c))"
  "harmless (\<lambda>p. (fst (pr_remove_child p c))\<lparr>pr_state := s\<rparr>)" "harmless (\<lambda>p. fst (set_cwd p path))" "harmless (\<lambda>p. fst (env_set p k v))"
  "harmless (\<lambda>q. if pr_state q = s then q\<lparr>pr_state := s'\<rparr> else q)"
  "harmless (\<lambda>p. if pr_task_id p = x then p\<lparr>pr_task_id := None\<rparr> else p)"
  by (auto simp: harmless_def pr_exit_def pr_add_child_def pr_remove_child_def set_cwd_def env_set_def Let_def split: option.split prod.split)

lemma wake_parent_ok:
  assumes "table_ok t"
  shows "table_ok (wake_parent x t)" and "refs (wake_parent x t) e = refs t e"
  by (cases x; use assms in \<open>simp add: wake_parent_def harmless_table\<close>)+

text \<open>A process enters the table.\<close>

lemma enter_process_ok:
  assumes "table_ok t" and "pt_get t (pr_pid q) = None" and "unat (pr_pid q) < MAX_PROCESSES" and "proc_ok q"
  shows "table_ok (enter_process p q t)" and "refs (enter_process p q t) e = refs t e + count_list (fd_entries (pr_fds q)) e"
  using pt_insert_new(1,2) [OF assms] by (simp_all add: enter_process_def harmless_table)


section \<open>Every call keeps the invariant\<close>

text \<open>The running process gets another descriptor table.\<close>

lemma current_fds_Some:
  assumes "ks_ok ks" and "current_fds ks = Some t"
  obtains q where "pt_get (ks_procs ks) (fd_owner ks) = Some q" "pr_fds q = t" "fds_wf t" "proc_ok q"
  using assms pt_get_Some [OF ks_okD(1) [OF assms(1)]] by (auto simp: current_fds_def proc_ok_def)

lemma fds_refs_ge: "ks_ok ks \<Longrightarrow> current_fds ks = Some t \<Longrightarrow> count_list (fd_entries t) e \<le> refs (ks_procs ks) e"
  using refs_ge ks_okD(1) by (auto simp: current_fds_def)

lemma set_current_fds_ok:
  assumes ks: "ks_ok ks" and t: "current_fds ks = Some t" and inv: "fds_wf t'"
  shows "table_ok (ks_procs (set_current_fds t' ks))"
    and "refs (ks_procs (set_current_fds t' ks)) e + count_list (fd_entries t) e = refs (ks_procs ks) e + count_list (fd_entries t') e"
proof -
  from current_fds_Some [OF ks t] obtain q where q: "pt_get (ks_procs ks) (fd_owner ks) = Some q" "pr_fds q = t" .
  show "table_ok (ks_procs (set_current_fds t' ks))" unfolding set_current_fds_def
    using table_ok_modify [OF ks_okD(1) [OF ks], of "fd_owner ks" "\<lambda>p. p\<lparr>pr_fds := t'\<rparr>"] pt_get_Some [OF ks_okD(1) [OF ks]] inv
    by (simp add: proc_ok_def confined_def)
  show "refs (ks_procs (set_current_fds t' ks)) e + count_list (fd_entries t) e = refs (ks_procs ks) e + count_list (fd_entries t') e"
    using refs_modify [OF ks_okD(1) [OF ks] q(1), of "\<lambda>p. p\<lparr>pr_fds := t'\<rparr>" e] q(2) by (simp add: set_current_fds_def)
qed

lemma set_current_fds_simps [simp]:
  "ks_pipes (set_current_fds t ks) = ks_pipes ks" "ks_sched (set_current_fds t ks) = ks_sched ks"
  "ks_current_pid (set_current_fds t ks) = ks_current_pid ks"
  by (simp_all add: set_current_fds_def)

lemma current_fds_pipes [simp]:
  "current_fds (ks\<lparr>ks_pipes := ps\<rparr>) = current_fds ks" "current_fds (ks\<lparr>ks_ramfds := rt\<rparr>) = current_fds ks"
  "set_current_fds t (ks\<lparr>ks_pipes := ps\<rparr>) = (set_current_fds t ks)\<lparr>ks_pipes := ps\<rparr>"
  by (simp_all add: current_fds_def set_current_fds_def fd_owner_def pid_for_slot_def)

text \<open>The table and the pipes change together: it is enough to keep the books of the pipes.\<close>

lemma ks_ok_fds:
  assumes ks: "ks_ok ks" and t: "current_fds ks = Some t" and inv: "fds_wf t'" and b: "bal ps R"
    and R: "\<And>i rd. R (FdPipe i rd) + count_list (fd_entries t) (FdPipe i rd)
        = refs (ks_procs ks) (FdPipe i rd) + count_list (fd_entries t') (FdPipe i rd)"
  shows "ks_ok ((set_current_fds t' ks)\<lparr>ks_pipes := ps\<rparr>)"
proof -
  have "refs (ks_procs (set_current_fds t' ks)) (FdPipe i rd) = R (FdPipe i rd)" for i rd
    using set_current_fds_ok(2) [OF ks t inv, of "FdPipe i rd"] R [of i rd] by linarith
  with bal_cong [OF b] have "bal ps (refs (ks_procs (set_current_fds t' ks)))" by blast
  then show ?thesis using set_current_fds_ok(1) [OF ks t inv] ks by (simp add: ks_ok_def)
qed

lemma ks_ok_fds_only:
  assumes "ks_ok ks" and "current_fds ks = Some t" and "fds_wf t'"
    and "\<And>i rd. count_list (fd_entries t') (FdPipe i rd) = count_list (fd_entries t) (FdPipe i rd)"
  shows "ks_ok (set_current_fds t' ks)"
proof -
  have "(set_current_fds t' ks)\<lparr>ks_pipes := ks_pipes ks\<rparr> = set_current_fds t' ks" by (cases ks) (simp add: set_current_fds_def)
  then show ?thesis using ks_ok_fds [OF assms(1-3) ks_okD(2) [OF assms(1)]] assms(4) by metis
qed

lemma fd_getD:
  assumes "fds_wf t" and "fd_get t fd = Some e"
  shows "unat fd < MAX_FDS" "fd_entries t ! unat fd = e" "unat fd < length (fd_entries t)" "e \<noteq> FdEmpty"
  using assms by (auto simp: fd_get_def fd_index_eq fds_wf_def split: option.splits if_splits)

text \<open>The books after the entry at one place of the table has been replaced.\<close>

lemma count_put:
  assumes "i < length es"
  shows "count_list (es[i := y]) e = count_list es e + (if y = e then 1 else 0) - (if es ! i = e then 1 else 0)"
    and "es ! i = e \<Longrightarrow> 0 < count_list es e"
  using count_list_update [OF assms, of y e] count_list_pos [OF assms] by auto

lemma books_release: "0 < c a \<Longrightarrow> c a \<le> R a \<Longrightarrow> (R(a := R a - 1)) x + c x = R x + (c x - (if a = x then 1 else 0))" for R c :: "'a \<Rightarrow> nat"
  by (cases "a = x") auto

lemma ks_ok_ramfds [simp]: "ks_ok (ks\<lparr>ks_ramfds := rt\<rparr>) = ks_ok ks"
  by (simp add: ks_ok_def)

lemma close_ok:
  assumes ks: "ks_ok ks"
  shows "ks_ok (fst (handle_close fd ks))"
proof (cases "current_fds ks")
  case (Some t)
  then have inv: "fds_wf t" using current_fds_Some [OF ks] by blast
  show ?thesis
  proof (cases "fd_get t (ucast fd)")
    case e: (Some e)
    let ?i = "unat (ucast fd :: i32)" and ?t = "fst (fd_close t (ucast fd))"
    note G = fd_getD [OF inv e]
    have t: "fd_entries ?t = (fd_entries t)[?i := FdEmpty]" using G by (simp add: fd_close_def fd_index_eq)
    note C = count_put [OF G(3)]
    have inv': "fds_wf ?t" using inv by (rule fd_close_wf)
    have pos: "0 < count_list (fd_entries t) e" using C(2) G(2) by blast
    have plain: "ks_ok (set_current_fds ?t ks')" if "ks_ok ks'" "current_fds ks' = Some t" "\<And>i rd. e \<noteq> FdPipe i rd" for ks'
      using that by (intro ks_ok_fds_only [OF that(1,2) inv']) (simp add: t C(1) G(2))
    show ?thesis
    proof (cases e)
      case (FdPipe i rd)
      let ?R = "refs (ks_procs ks)"
      have "0 < ?R (FdPipe i rd)" using fds_refs_ge [OF ks Some, of e] pos FdPipe by simp
      then have "bal (pipe_release e (ks_pipes ks)) (?R(FdPipe i rd := ?R (FdPipe i rd) - 1))"
        using bal_release [OF ks_okD(2) [OF ks]] FdPipe by simp
      then have "ks_ok ((set_current_fds ?t ks)\<lparr>ks_pipes := pipe_release e (ks_pipes ks)\<rparr>)"
      proof (rule ks_ok_fds [OF ks Some inv'])
        fix j r
        have "count_list (fd_entries ?t) (FdPipe j r) = count_list (fd_entries t) (FdPipe j r) - (if FdPipe i rd = FdPipe j r then 1 else 0)"
          using C(1) [of FdEmpty "FdPipe j r"] G(2) FdPipe unfolding t by simp
        moreover have "0 < count_list (fd_entries t) (FdPipe i rd)" using pos FdPipe by simp
        ultimately show "(?R(FdPipe i rd := ?R (FdPipe i rd) - 1)) (FdPipe j r) + count_list (fd_entries t) (FdPipe j r)
            = ?R (FdPipe j r) + count_list (fd_entries ?t) (FdPipe j r)"
          using books_release [of "count_list (fd_entries t)" "FdPipe i rd" ?R "FdPipe j r"] fds_refs_ge [OF ks Some, of "FdPipe i rd"] by metis
      qed
      then show ?thesis using Some e FdPipe by (simp add: handle_close_def)
    qed (use Some e plain [OF ks] plain ks G(4) in \<open>simp_all add: handle_close_def\<close>)
  qed (use Some ks in \<open>simp add: handle_close_def\<close>)
qed (use ks in \<open>simp add: handle_close_def\<close>)


lemma unat_fd: "k < MAX_FDS \<Longrightarrow> unat (of_nat k :: i32) = k"
  by (simp add: MAX_FDS_def unat_of_nat take_bit_nat_eq_self)

text \<open>The running process gets one more descriptor for an end that it holds.\<close>

lemma retain_ok:
  assumes ks: "ks_ok ks" and t: "current_fds ks = Some t" and inv: "fds_wf t'"
    and b: "bal ps R" and R: "\<And>x. x \<noteq> FdEmpty \<Longrightarrow> R x + count_list (fd_entries t) x + (if e = x then 1 else 0) = refs (ks_procs ks) x + count_list (fd_entries t') x"
    and e: "e \<noteq> FdEmpty" "0 < R e"
  shows "ks_ok ((set_current_fds t' ks)\<lparr>ks_pipes := pipe_retain e ps\<rparr>)"
proof (cases "\<exists>i rd. e = FdPipe i rd")
  case True
  then obtain i rd where p: "e = FdPipe i rd" by blast
  have "refs (ks_procs (set_current_fds t' ks)) e = R e + 1"
    using set_current_fds_ok(2) [OF ks t inv, of e] R [OF e(1)] by simp
  then have "R e + 1 < 2 ^ 32" using refs_bound [OF set_current_fds_ok(1) [OF ks t inv], of e] by simp
  then have b': "bal (pipe_retain e ps) (R(e := R e + 1))" using bal_retain [OF b] e(2) unfolding p by blast
  show ?thesis
  proof (rule ks_ok_fds [OF ks t inv b'])
    show "(R(e := R e + 1)) (FdPipe j r) + count_list (fd_entries t) (FdPipe j r)
        = refs (ks_procs ks) (FdPipe j r) + count_list (fd_entries t') (FdPipe j r)" for j r
      using R [of "FdPipe j r"] by (cases "e = FdPipe j r") auto
  qed
next
  case False
  then have "pipe_retain e ps = ps" by (cases e) auto
  moreover have "R (FdPipe j r) + count_list (fd_entries t) (FdPipe j r)
      = refs (ks_procs ks) (FdPipe j r) + count_list (fd_entries t') (FdPipe j r)" for j r
    using R [of "FdPipe j r"] False by auto
  ultimately show ?thesis using ks_ok_fds [OF ks t inv b] by simp
qed

lemma dup_ok:
  assumes ks: "ks_ok ks"
  shows "ks_ok (fst (handle_dup fd ks))"
proof (cases "current_fds ks")
  case (Some t)
  then have inv: "fds_wf t" using current_fds_Some [OF ks] by blast
  have same: "ks_ok (set_current_fds t ks)" by (rule ks_ok_fds_only [OF ks Some inv]) simp
  show ?thesis
  proof (cases "fd_get t (ucast fd)")
    case None
    then show ?thesis using Some same by (simp add: handle_dup_def fd_dup_def)
  next
    case e: (Some e)
    note G = fd_getD [OF inv e]
    from inv show ?thesis
    proof (cases rule: fd_alloc_wf_cases [where e = e])
      case full
      then show ?thesis using Some e same by (simp add: handle_dup_def fd_dup_def)
    next
      case (free n t')
      have n: "n < length (fd_entries t)" "unat (of_nat n :: i32) = n"
        using free(4) inv unat_fd by (simp_all add: fds_wf_def)
      have get: "fd_get t' (of_nat n) = Some e" using n free(2,4) G(4) by (simp add: fd_get_def fd_index_eq)
      have ks': "fst (handle_dup fd ks) = (set_current_fds t' ks)\<lparr>ks_pipes := pipe_retain e (ks_pipes ks)\<rparr>"
        using Some e free(1) get by (simp add: handle_dup_def fd_dup_def Let_def)
      have count: "count_list (fd_entries t') x = count_list (fd_entries t) x + (if e = x then 1 else 0)" if "x \<noteq> FdEmpty" for x
        using count_put(1) [OF n(1), of e x] free(2,5) that by simp
      show ?thesis unfolding ks'
        by (rule retain_ok [OF ks Some free(3) ks_okD(2) [OF ks]]) (use count G(4) fds_refs_ge [OF ks Some] count_put(2) [OF G(3) G(2)] in \<open>auto intro: less_le_trans\<close>)
    qed
  qed
qed (use ks in \<open>simp add: handle_dup_def\<close>)


text \<open>
  \<^verbatim>\<open>dup2\<close> of a descriptor that is open onto another place. (With a bad descriptor, or onto itself, the
  call gives up a reference that is still held.)
\<close>

definition dup2_sound :: "u64 \<Rightarrow> u64 \<Rightarrow> ksys \<Rightarrow> bool" where
  "dup2_sound old_fd new_fd ks \<longleftrightarrow>
     (\<forall>t. current_fds ks = Some t \<longrightarrow> fd_get t (ucast old_fd) \<noteq> None \<and> unat (ucast old_fd :: i32) \<noteq> unat new_fd)"

lemma bal_release_any:
  assumes b: "bal ps R" and d: "d = FdEmpty \<or> 0 < R d"
  shows "bal (case d of FdEmpty \<Rightarrow> ps | _ \<Rightarrow> pipe_release d ps) (R(d := R d - 1))"
proof (cases d)
  case (FdPipe i rd)
  then show ?thesis using bal_release [OF b] d by simp
qed (use b in \<open>auto elim!: bal_cong\<close>)

lemma dup2_ok:
  assumes ks: "ks_ok ks" and sound: "dup2_sound old_fd new_fd ks"
  shows "ks_ok (fst (handle_dup2 old_fd new_fd ks))"
proof (cases "unat new_fd < MAX_FDS \<and> current_fds ks \<noteq> None")
  case True
  then obtain t where t: "current_fds ks = Some t" and new: "unat new_fd < MAX_FDS" by blast
  then have inv: "fds_wf t" using current_fds_Some [OF ks] by blast
  obtain e where e: "fd_get t (ucast old_fd) = Some e" and ne: "unat (ucast old_fd :: i32) \<noteq> unat new_fd"
    using sound t by (auto simp: dup2_sound_def)
  note G = fd_getD [OF inv e]
  let ?n = "unat new_fd" and ?es = "fd_entries t" and ?R = "refs (ks_procs ks)"
  let ?d = "?es ! ?n" and ?t = "t\<lparr>fd_entries := (fd_entries t)[unat new_fd := e]\<rparr>"
  have n: "?n < length ?es" "unat (of_nat ?n :: i32) = ?n"
    using new inv unat_fd [OF new] by (simp_all add: fds_wf_def)
  note C = count_put [OF n(1)]
  have inv': "fds_wf ?t" using fds_wf_put [OF inv] .
  let ?ps = "case ?d of FdEmpty \<Rightarrow> ks_pipes ks | _ \<Rightarrow> pipe_release ?d (ks_pipes ks)"
  have get: "fd_get ?t (of_nat ?n) = Some e" using n new G(4) by (simp add: fd_get_def fd_index_eq)
  have old: "(case fd_get t (of_nat ?n) of Some e \<Rightarrow> ks\<lparr>ks_pipes := pipe_release e (ks_pipes ks)\<rparr> | None \<Rightarrow> ks) = ks\<lparr>ks_pipes := ?ps\<rparr>"
    using n new by (auto simp: fd_get_def fd_index_eq split: fd_entry.split)
  have ks': "fst (handle_dup2 old_fd new_fd ks) = (set_current_fds ?t ks)\<lparr>ks_pipes := pipe_retain e ?ps\<rparr>"
    unfolding handle_dup2_def Let_def t using new get e old n by (simp add: fd_dup2_def fd_index_eq)
  have pos: "0 < count_list ?es ?d" using C(2) by blast
  have b: "bal ?ps (?R(?d := ?R ?d - 1))"
    by (rule bal_release_any [OF ks_okD(2) [OF ks]]) (use pos fds_refs_ge [OF ks t, of ?d] in auto)
  have two: "0 < (?R(?d := ?R ?d - 1)) e"
    using count_put(2) [of "unat (ucast old_fd :: i32)" "?es[?n := FdEmpty]" e] C(1) [of FdEmpty e] G ne fds_refs_ge [OF ks t, of e]
    by (cases "?d = e") auto
  have books: "(?R(?d := ?R ?d - 1)) x + count_list ?es x + (if e = x then 1 else 0) = ?R x + count_list (fd_entries ?t) x" for x
    using C(1) [of e x] pos fds_refs_ge [OF ks t, of x] by (cases "?d = x") auto
  show ?thesis unfolding ks' by (rule retain_ok [OF ks t inv' b books G(4) two])
qed (use ks in \<open>auto simp: handle_dup2_def Let_def\<close>)


text \<open>A pipe that is created and given up again leaves the books as they were.\<close>

lemma bal_give_up:
  assumes b: "bal ps R" and c: "create_pipe ps = (ps', Some k)"
  shows "bal (close_write_end (close_read_end ps' k) k) R"
proof -
  note K = bal_create [OF b c]
  let ?r = "FdPipe (of_nat k) True" and ?w = "FdPipe (of_nat k) False" and ?R = "R(FdPipe (of_nat k) True := 1, FdPipe (of_nat k) False := 1)"
  have "bal (pipe_release ?r ps') (?R(?r := ?R ?r - 1))" by (rule bal_release [OF K(1)]) simp
  then have "bal (pipe_release ?w (pipe_release ?r ps')) ((?R(?r := ?R ?r - 1))(?w := (?R(?r := ?R ?r - 1)) ?w - 1))"
    by (rule bal_release) simp
  then have "bal (pipe_release ?w (pipe_release ?r ps')) R" by (rule bal_cong) (use K(4) in auto)
  then show ?thesis using K(2) by simp
qed

text \<open>The descriptor table after the two allocations of \<^verbatim>\<open>handle_pipe\<close>, whether they succeed or not.\<close>

lemma pipe_fds_count:
  assumes inv: "fds_wf t" and a: "fd_alloc t (FdPipe k True) = (t1, y)" and b: "fd_alloc t1 (FdPipe k False) = (t2, z)"
  shows "count_list (fd_entries (case y of None \<Rightarrow> t1 | Some i \<Rightarrow> (case z of None \<Rightarrow> fst (fd_close t2 (of_nat i)) | Some _ \<Rightarrow> t2))) (FdPipe j rd)
    = count_list (fd_entries t) (FdPipe j rd) + (if (y \<noteq> None \<and> z \<noteq> None) \<and> j = k then 1 else 0)"
  using inv
proof (cases rule: fd_alloc_wf_cases [where e = "FdPipe k True"])
  case full
  then show ?thesis using a by simp
next
  case (free i t')
  have t1: "fd_entries t1 = (fd_entries t)[i := FdPipe k True]" "y = Some i" using a free(1,2) by auto
  have inv1: "fds_wf t1" using fd_alloc_wf [OF inv, of "FdPipe k True"] a by simp
  have i: "i < length (fd_entries t)" using free(4) inv by (simp add: fds_wf_def)
  have c1: "count_list (fd_entries t1) (FdPipe j rd) = count_list (fd_entries t) (FdPipe j rd) + (if j = k \<and> rd then 1 else 0)"
    using count_put(1) [OF i, of "FdPipe k True" "FdPipe j rd"] free(5) by (auto simp: t1)
  from inv1 show ?thesis
  proof (cases rule: fd_alloc_wf_cases [where e = "FdPipe k False"])
    case full
    then have "fd_entries t2 = (fd_entries t)[i := FdPipe k True]" using b t1(1) by simp
    then have "fd_entries (fst (fd_close t2 (of_nat i))) = (fd_entries t)[i := FdEmpty]"
      using i free(4) by (simp add: fd_close_def fd_index_eq unat_fd)
    moreover have "(fd_entries t)[i := FdEmpty] = fd_entries t" using free(5) list_update_id [of "fd_entries t" i] by simp
    moreover have "z = None" using b full by simp
    ultimately show ?thesis using t1(2) by simp
  next
    case (free n t'')
    then have n: "n < length (fd_entries t1)" using inv1 by (simp add: fds_wf_def)
    have "count_list (fd_entries t2) (FdPipe j rd) = count_list (fd_entries t1) (FdPipe j rd) + (if j = k \<and> \<not> rd then 1 else 0)"
      using count_put(1) [OF n, of "FdPipe k False" "FdPipe j rd"] free b by auto
    moreover have "z \<noteq> None" using b free(1) by auto
    ultimately show ?thesis using c1 t1(2) by auto
  qed
qed

lemma ks_ok_pipes: "ks_ok ks \<Longrightarrow> bal ps (refs (ks_procs ks)) \<Longrightarrow> ks_ok (ks\<lparr>ks_pipes := ps\<rparr>)"
  by (simp add: ks_ok_def)

lemma pipe_ok:
  assumes ks: "ks_ok ks"
  shows "ks_ok (fst (snd (handle_pipe out_ptr mem ks)))"
proof (cases "caller_needs_validation (ks_sched ks) \<and> \<not> validate_user_ptr out_ptr 16")
  case ptr: False
  obtain ps x where c: "create_pipe (ks_pipes ks) = (ps, x)" by fastforce
  show ?thesis
  proof (cases x)
    case None
    then have "ps = ks_pipes ks" using c by (auto simp: create_pipe_def split: option.splits)
    then show ?thesis using ptr c None ks by (auto simp: handle_pipe_def)
  next
    case (Some k)
    note c = c [unfolded Some]
    note up = bal_give_up [OF ks_okD(2) [OF ks] c]
    note K = bal_create [OF ks_okD(2) [OF ks] c]
    let ?r = "FdPipe (of_nat k) True" and ?w = "FdPipe (of_nat k) False" and ?up = "close_write_end (close_read_end ps k) k"
    show ?thesis
    proof (cases "current_fds ks")
      case None
      then have "fst (snd (handle_pipe out_ptr mem ks)) = ks\<lparr>ks_pipes := ?up\<rparr>" using ptr c by (auto simp: handle_pipe_def Let_def)
      then show ?thesis using ks_ok_pipes [OF ks up] by simp
    next
      case t: (Some t)
      then have inv: "fds_wf t" using current_fds_Some [OF ks] by blast
      obtain t1 y where a: "fd_alloc t ?r = (t1, y)" by fastforce
      obtain t2 z where b: "fd_alloc t1 ?w = (t2, z)" by fastforce
      have inv1: "fds_wf t1" using fd_alloc_wf [OF inv, of ?r] a by simp
      have inv2: "fds_wf t2" using fd_alloc_wf [OF inv1, of ?w] b by simp
      let ?T = "case y of None \<Rightarrow> t1 | Some i \<Rightarrow> (case z of None \<Rightarrow> fst (fd_close t2 (of_nat i)) | Some _ \<Rightarrow> t2)"
      let ?P = "if y \<noteq> None \<and> z \<noteq> None then ps else ?up"
      have ks': "fst (snd (handle_pipe out_ptr mem ks)) = (set_current_fds ?T ks)\<lparr>ks_pipes := ?P\<rparr>"
        using ptr c t a b by (auto simp: handle_pipe_def Let_def split: option.split prod.split)
      have invT: "fds_wf ?T" using inv1 inv2 fd_close_wf by (simp split: option.split)
      have count: "count_list (fd_entries ?T) (FdPipe i rd)
          = count_list (fd_entries t) (FdPipe i rd) + (if (y \<noteq> None \<and> z \<noteq> None) \<and> i = of_nat k then 1 else 0)" for i rd
        using pipe_fds_count [OF inv a b] by simp
      show ?thesis
      proof (cases "y \<noteq> None \<and> z \<noteq> None")
        case True
        show ?thesis unfolding ks' by (rule ks_ok_fds [OF ks t invT, where R = "(refs (ks_procs ks))(?r := 1, ?w := 1)"])
            (use True K count in auto)
      next
        case False
        show ?thesis unfolding ks' by (rule ks_ok_fds [OF ks t invT, where R = "refs (ks_procs ks)"]) (use False up count in auto)
      qed
    qed
  qed
qed (use ks in \<open>simp add: handle_pipe_def\<close>)


text \<open>The calls on processes.\<close>

lemma new_process_ok:
  "fds_wf (pr_fds q) \<Longrightarrow> pr_parent q = Some PID_KERNEL \<Longrightarrow> cap_set (pr_capabilities q) \<inter> dangerous = {}
     \<Longrightarrow> pr_task_id q = Some slot \<Longrightarrow> slot < MAX_TASKS \<Longrightarrow> proc_ok q"
  by (simp add: proc_ok_def confined_def)

lemma process_new_simps [simp]:
  "pr_pid (process_new p x n) = p" "pr_parent (process_new p x n) = x" "pr_fds (process_new p x n) = with_stdio"
  "pr_capabilities (process_new p x n) = pcs_empty"
  by (simp_all add: process_new_def Let_def)

lemma minimal_safe: "cap_set pcs_minimal \<inter> dangerous = {}" "cap_set (inherit s) \<inter> dangerous = {}" "cap_set pcs_empty \<inter> dangerous = {}"
  by (auto simp: cap_set_minimal cap_set_inherit cap_set_ops dangerous_def)

lemma stdio_no_pipe: "FdPipe i rd \<notin> set (fd_entries with_stdio)" "count_list (fd_entries with_stdio) (FdPipe i rd) = 0"
proof -
  show "FdPipe i rd \<notin> set (fd_entries with_stdio)"
    by (auto simp: with_stdio_def fds_new_def dest!: set_update_subset_insert [THEN subsetD])
  then show "count_list (fd_entries with_stdio) (FdPipe i rd) = 0" by (simp add: count_list_0_iff)
qed

lemma adopt_ok:
  assumes ks: "ks_ok ks" and slot: "slot < MAX_TASKS"
  shows "ks_ok (fst (adopt_process name slot entry rsp brk ks))"
proof (cases "alloc_pid (ks_procs ks)")
  case (Some p)
  note T = ks_okD(1) [OF ks] and cur = ks_okD(3) [OF ks]
  note A = alloc_pid_Some [OF T Some]
  define fds where "fds = (case pt_get (ks_procs ks) (fd_owner ks) of Some parent \<Rightarrow> pr_fds parent | None \<Rightarrow> with_stdio)"
  define procs where "procs = pt_iter_mut (\<lambda>p. if pr_task_id p = Some slot then p\<lparr>pr_task_id := None\<rparr> else p) (ks_procs ks)"
  define q0 where "q0 = (process_new p (Some PID_KERNEL) (str_bytes name))\<lparr>pr_capabilities := pcs_minimal\<rparr>"
  define q1 where "q1 = (case pt_get (ks_procs ks) PID_KERNEL of Some parent \<Rightarrow> q0\<lparr>pr_cwd := pr_cwd parent, pr_cwd_len := pr_cwd_len parent,
      pr_env := pr_env parent, pr_env_len := pr_env_len parent\<rparr> | None \<Rightarrow> q0)"
  define q2 where "q2 = (case pt_get (ks_procs ks) (fd_owner ks) of Some parent \<Rightarrow> q1\<lparr>pr_fds := pr_fds parent\<rparr> | None \<Rightarrow> q1)"
  define q where "q = q2\<lparr>pr_task_id := Some slot, pr_state := PRunning, pr_entry_point := entry, pr_stack_ptr := rsp, pr_brk := brk\<rparr>"
  have q1: "pr_pid q1 = p" "pr_fds q1 = with_stdio" "pr_parent q1 = Some PID_KERNEL" "pr_capabilities q1 = pcs_minimal"
    by (simp_all add: q1_def q0_def split: option.split)
  have q2: "pr_pid q2 = p" "pr_fds q2 = fds" "pr_parent q2 = Some PID_KERNEL" "pr_capabilities q2 = pcs_minimal"
    using q1 by (simp_all add: q2_def fds_def split: option.split)
  have q: "fst (adopt_process name slot entry rsp brk ks)
        = ks\<lparr>ks_pipes := fold pipe_retain (fd_entries fds) (ks_pipes ks), ks_procs := enter_process PID_KERNEL q procs\<rparr>"
      "pr_pid q = p" "pr_fds q = fds" "pr_parent q = Some PID_KERNEL" "pr_capabilities q = pcs_minimal" "pr_task_id q = Some slot"
  proof -
    show "fst (adopt_process name slot entry rsp brk ks)
        = ks\<lparr>ks_pipes := fold pipe_retain (fd_entries fds) (ks_pipes ks), ks_procs := enter_process PID_KERNEL q procs\<rparr>"
      unfolding adopt_process_def Let_def cur Some option.case
      unfolding q0_def [symmetric] q1_def [symmetric] q2_def [symmetric] q_def [symmetric] procs_def [symmetric] q2(2) fst_conv ..
  qed (simp_all add: q_def q2)
  have inv: "fds_wf fds" using pt_get_Some [OF T] by (auto simp: fds_def proc_ok_def fds_wf_stdio split: option.split)
  have procs: "table_ok procs" "refs procs e = refs (ks_procs ks) e" for e unfolding procs_def using harmless_iter [OF T] by simp_all
  have "pt_get procs p = None" using A(3) T A(2) table_ok_length [OF T] by (simp add: procs_def pt_get_def pt_iter_mut_def)
  moreover have "proc_ok q" using new_process_ok [of q] q inv slot minimal_safe(1) by simp
  ultimately have E: "table_ok (enter_process PID_KERNEL q procs)"
      "refs (enter_process PID_KERNEL q procs) e = refs (ks_procs ks) e + count_list (fd_entries fds) e" for e
    using enter_process_ok [OF procs(1), of q] A(2) q(2,3) procs(2) by simp_all
  have "bal (fold pipe_retain (fd_entries fds) (ks_pipes ks)) (\<lambda>e. refs (ks_procs ks) e + count_list (fd_entries fds) e)"
  proof (rule pipe_ends.retain_all [OF ks_okD(2) [OF ks]])
    fix e
    show "refs (ks_procs ks) e + count_list (fd_entries fds) e < 2 ^ 32" using refs_bound [OF E(1), of e] E(2) by simp
    assume held: "e \<in> set (fd_entries fds)" "is_FdPipe e"
    then obtain parent where "pt_get (ks_procs ks) (fd_owner ks) = Some parent" "pr_fds parent = fds"
      using stdio_no_pipe(1) [of "pipe_of e" "is_read_end e"] by (auto simp: fds_def split: option.splits)
    with refs_ge [OF T this(1), of e] held show "0 < refs (ks_procs ks) e"
      by (metis count_list_0_iff gr_zeroI le_zero_eq)
  qed
  then have "bal (fold pipe_retain (fd_entries fds) (ks_pipes ks)) (refs (enter_process PID_KERNEL q procs))"
    by (rule bal_cong) (simp add: E(2))
  then show ?thesis unfolding q(1) using E(1) ks by (simp add: ks_ok_def)
qed (use ks in \<open>simp add: adopt_process_def\<close>)


lemma ks_ok_sched: "ks_ok ks \<Longrightarrow> sched_inv sc \<Longrightarrow> ks_ok (ks\<lparr>ks_sched := sc\<rparr>)"
  by (simp add: ks_ok_def)

lemma spawn_from_elf_ok:
  assumes ks: "ks_ok ks"
  shows "ks_ok (fst (spawn_from_elf name tier loaded ks))"
proof (cases loaded)
  case (Some l)
  obtain sc r where sp: "spawn_child name tier (ks_sched ks) = (sc, r)" by fastforce
  note S = spawn_child_effect [OF ks_okD(4) [OF ks] sp]
  have ks1: "ks_ok (ks\<lparr>ks_sched := sc\<rparr>)" using ks S(1) by (rule ks_ok_sched)
  show ?thesis using Some sp ks1 adopt_ok [OF ks1] S(3) by (cases l; cases r) (auto simp: spawn_from_elf_def)
qed (use ks in \<open>simp add: spawn_from_elf_def\<close>)

text \<open>The two older ways to spawn.\<close>

lemma enter_new_ok:
  assumes ks: "ks_ok ks" and p: "alloc_pid (ks_procs ks) = Some p" and slot: "slot < MAX_TASKS" and sc: "sched_inv sc"
    and q: "pr_pid q = p" "pr_parent q = Some PID_KERNEL" "pr_fds q = with_stdio" "cap_set (pr_capabilities q) \<inter> dangerous = {}" "pr_task_id q = Some slot"
  shows "ks_ok (ks\<lparr>ks_procs := enter_process PID_KERNEL q (ks_procs ks), ks_sched := sc\<rparr>)"
proof -
  note A = alloc_pid_Some [OF ks_okD(1) [OF ks] p]
  have "proc_ok q" using new_process_ok [of q slot] q slot fds_wf_stdio by simp
  note E = enter_process_ok [OF ks_okD(1) [OF ks], of q PID_KERNEL] 
  have "ks_ok (ks\<lparr>ks_procs := enter_process PID_KERNEL q (ks_procs ks)\<rparr>)"
    by (rule ks_ok_procs [OF ks]) (use E A \<open>proc_ok q\<close> q stdio_no_pipe(2) in simp_all)
  then show ?thesis using ks_ok_sched sc by simp
qed

lemma alloc_task_slot_ok:
  assumes "sched_inv sc" and "alloc_task_slot name tier k sc = (sc', r, reaped)"
  shows "sched_inv sc'" and "r = Some slot \<Longrightarrow> slot < MAX_TASKS"
proof -
  note A = alloc_effect [OF assms(1) assms(2) [unfolded alloc_task_slot_def]]
  show "sched_inv sc'" using A assms(1) by (cases r) (auto intro!: sched_inv_upd)
  show "slot < MAX_TASKS" if "r = Some slot" using A that by simp
qed

definition ks_spawned :: "ksys \<Rightarrow> (process_table \<times> scheduler) \<times> pid option \<Rightarrow> ksys" where
  "ks_spawned ks x = ks\<lparr>ks_procs := fst (fst x), ks_sched := snd (fst x)\<rparr>"

lemma spawn_ok:
  assumes ks: "ks_ok ks"
  shows "ks_ok (ks_spawned ks (spawn_process (ks_current_pid ks) name (ks_procs ks, ks_sched ks)))" (is ?kernel)
    and "ks_ok (ks_spawned ks (spawn_user (ks_current_pid ks) name (ks_procs ks, ks_sched ks)))" (is ?user)
proof -
  note cur = ks_okD(3) [OF ks]
  have same: "ks\<lparr>ks_procs := ks_procs ks\<rparr> = ks" by simp
  show ?kernel
  proof (cases "alloc_pid (ks_procs ks)")
    case (Some p)
    obtain sc r x where a: "alloc_task_slot name (current_task_max_tier (ks_sched ks)) True (ks_sched ks) = (sc, r, x)" by (metis prod.exhaust)
    note S = alloc_task_slot_ok [OF ks_okD(4) [OF ks] a]
    show ?thesis using Some a S ks ks_ok_sched enter_new_ok [OF ks Some _ S(1)] minimal_safe
      by (cases r) (simp_all add: spawn_process_def ks_spawned_def cur Let_def split: option.split)
  qed (use ks in \<open>simp add: spawn_process_def ks_spawned_def\<close>)
  show ?user
  proof (cases "alloc_pid (ks_procs ks)")
    case (Some p)
    obtain sc r x where a: "alloc_task_slot name (tier_value Public) False (ks_sched ks) = (sc, r, x)" by (metis prod.exhaust)
    note S = alloc_task_slot_ok [OF ks_okD(4) [OF ks] a]
    show ?thesis using Some a S ks ks_ok_sched enter_new_ok [OF ks Some _ S(1)] minimal_safe
      by (cases r) (simp_all add: spawn_user_def ks_spawned_def cur Let_def)
  qed (use ks in \<open>simp add: spawn_user_def ks_spawned_def\<close>)
qed


lemma release_pipe_fds_ok:
  assumes ks: "ks_ok ks"
  shows "ks_ok (release_pipe_fds ks)"
proof -
  have "ks_ok (ks\<lparr>ks_pipes := fold pipe_release (fd_entries (pr_fds q)) (ks_pipes ks), ks_procs := pt_modify p
      (\<lambda>q. q\<lparr>pr_fds := (pr_fds q)\<lparr>fd_entries := map (\<lambda>e. case e of FdPipe _ _ \<Rightarrow> FdEmpty | _ \<Rightarrow> e) (fd_entries (pr_fds q))\<rparr>\<rparr>) (ks_procs ks)\<rparr>)"
    if q: "pt_get (ks_procs ks) p = Some q" for p q
  proof -
    define f :: "process \<Rightarrow> process" where "f = (\<lambda>q. q\<lparr>pr_fds := (pr_fds q)\<lparr>fd_entries := map (\<lambda>e. case e of FdPipe _ _ \<Rightarrow> FdEmpty | _ \<Rightarrow> e) (fd_entries (pr_fds q))\<rparr>\<rparr>)"
    note T = ks_okD(1) [OF ks]
    let ?es = "fd_entries (pr_fds q)" and ?R = "refs (ks_procs ks)" and ?t = "pt_modify p f (ks_procs ks)"
    have t: "table_ok ?t" by (rule table_ok_modify [OF T]) (use pt_get_Some [OF T] in \<open>auto simp: f_def proc_ok_def fds_wf_def confined_def\<close>)
    have "FdPipe i rd \<notin> set (fd_entries (pr_fds (f q)))" for i rd by (auto simp: f_def split: fd_entry.splits)
    then have "refs ?t (FdPipe i rd) = ?R (FdPipe i rd) - count_list ?es (FdPipe i rd)" for i rd
      using refs_modify [OF T q, of f "FdPipe i rd"] by (simp add: count_list_0_iff)
    moreover have "bal (fold pipe_release ?es (ks_pipes ks)) (\<lambda>e. ?R e - count_list ?es e)"
      by (rule pipe_ends.give_up_all [OF ks_okD(2) [OF ks]]) (rule refs_ge [OF T q])
    ultimately have "bal (fold pipe_release ?es (ks_pipes ks)) (refs ?t)" by (simp add: bal_cong)
    then show ?thesis unfolding f_def [symmetric] using t ks by (simp add: ks_ok_def)
  qed
  then show ?thesis using ks by (auto simp: release_pipe_fds_def split: option.split)
qed

text \<open>Waiting removes a process; it must have no pipe end left.\<close>

definition reap_sound :: "ksys \<Rightarrow> bool" where
  "reap_sound ks \<longleftrightarrow> (\<forall>p q i rd. pt_get (ks_procs ks) p = Some q \<and> pr_state q = Zombie \<longrightarrow> FdPipe i rd \<notin> set (fd_entries (pr_fds q)))"

lemma exit_ok:
  assumes ks: "ks_ok ks"
  shows "ks_ok (fst (handle_exit now code ks))"
proof -
  have r: "ks_ok (release_pipe_fds ks)" using ks by (rule release_pipe_fds_ok)
  define ks1 where "ks1 = (release_pipe_fds ks)\<lparr>ks_sched := exit_current code (ks_sched (release_pipe_fds ks))\<rparr>"
  have ks1: "ks_ok ks1" unfolding ks1_def using r ks_okD(4) [OF r] sched_exec_inv [of _ "ExitTask code"] by (simp add: ks_ok_sched)
  have "ks_ok (ks1\<lparr>ks_procs := wake_parent x (pt_modify p (pr_exit st) (ks_procs ks1))\<rparr>)" for x p st
    using ks1 ks_okD(1) [OF ks1] by (intro ks_ok_procs) (simp_all add: harmless_table wake_parent_ok)
  then have e: "ks_ok (exit_process code ks)" using ks1
    by (auto simp: exit_process_def ks1_def [symmetric] Let_def split: option.split)
  show ?thesis unfolding handle_exit_def Let_def fst_conv
    by (rule ks_ok_sched [OF e]) (use sched_exec_inv [OF ks_okD(4) [OF e], of "Tick now (ks_pipes (exit_process code ks))"] in simp)
qed

lemma kill_ok:
  assumes ks: "ks_ok ks" and k: "handle_kill p ks = Some (ks', r)"
  shows "ks_ok ks'"
proof -
  have 1: "ks_ok (ks\<lparr>ks_procs := pt_modify q (pr_exit st) (ks_procs ks)\<rparr>)" for q st using ks by (simp add: harmless_ks)
  have "sched_inv sc" if "kill_task slot (ks_sched ks) = Some sc" for slot sc
    using sched_exec_inv [OF ks_okD(4) [OF ks], of "Scheduler.Kill slot"] that by simp
  then show ?thesis using k ks 1 ks_ok_sched [OF 1]
    by (auto simp: handle_kill_def Let_def split: option.splits if_splits)
qed

lemma wait_turn_ok:
  assumes T: "table_ok t" and clean: "\<And>q i rd. pt_get t child = Some q \<Longrightarrow> pr_state q = Zombie \<Longrightarrow> FdPipe i rd \<notin> set (fd_entries (pr_fds q))"
  shows "table_ok (fst (wait_turn cur child t)) \<and> refs (fst (wait_turn cur child t)) (FdPipe i rd) = refs t (FdPipe i rd)"
proof (cases "pt_get t child")
  case (Some c)
  show ?thesis
  proof (cases "pr_state c = Zombie")
    case True
    let ?f = "\<lambda>q. q\<lparr>pr_state := Dead\<rparr>" and ?g = "\<lambda>p. (fst (pr_remove_child p child))\<lparr>pr_state := PRunning\<rparr>"
    have reap: "pt_modify child (\<lambda>_. ?f c) t = pt_modify child ?f t" using Some by (simp add: pt_modify_def)
    define t1 where "t1 = pt_modify cur ?g (pt_modify child ?f t)"
    have t1: "table_ok t1" "refs t1 e = refs t e" for e unfolding t1_def using T by (simp_all add: harmless_table)
    have "pt_get (pt_modify child ?f t) child = Some (?f c)" using pt_get_modify [OF T, of child ?f child] Some by simp
    then have "pt_get t1 child = Some (if child = cur then ?g (?f c) else ?f c)"
      unfolding t1_def using pt_get_modify [OF harmless_table(1) [OF T harmless_facts(2)], of cur ?g child Dead child] by auto
    then obtain c' where c': "pt_get t1 child = Some c'" "pr_fds c' = pr_fds c" by (simp add: pr_remove_child_same)
    note P = pt_get_Some [OF t1(1) c'(1)]
    have e: "fst (wait_turn cur child t) = t1\<lparr>pt_processes := (pt_processes t1)[unat child := None], pt_count := pt_count t1 - 1\<rparr>"
      using Some True c' by (simp add: wait_turn_def pr_reap_def reap t1_def [symmetric] pt_remove_def)
    have "count_list (fd_entries (pr_fds c')) (FdPipe i rd) = 0" using clean [OF Some True] c'(2) by (simp add: count_list_0_iff)
    then have "refs (fst (wait_turn cur child t)) (FdPipe i rd) = refs t (FdPipe i rd)"
      using refs_put [OF t1(1), of "unat child" "fst (wait_turn cur child t)" None "FdPipe i rd"] P t1(2) e by (simp add: slot_refs_def)
    moreover have "table_ok (fst (wait_turn cur child t))" unfolding e using t1(1) P by (auto simp: table_ok_def nth_list_update)
    ultimately show ?thesis by blast
  qed (use Some T in \<open>simp add: wait_turn_def harmless_table\<close>)
qed (use T in \<open>simp add: wait_turn_def\<close>)


definition keeps_refs :: "process_table \<Rightarrow> process_table \<Rightarrow> bool" where
  "keeps_refs t t' \<longleftrightarrow> table_ok t' \<and> (\<forall>i rd. refs t' (FdPipe i rd) = refs t (FdPipe i rd))"

lemma keeps_refs_ok: "ks_ok ks \<Longrightarrow> keeps_refs (ks_procs ks) t \<Longrightarrow> ks_ok (ks\<lparr>ks_procs := t\<rparr>)"
  by (simp add: keeps_refs_def ks_ok_procs)

lemma process_wait_ok:
  assumes T: "table_ok t" and clean: "\<And>p q i rd. pt_get t p = Some q \<Longrightarrow> pr_state q = Zombie \<Longrightarrow> FdPipe i rd \<notin> set (fd_entries (pr_fds q))"
  shows "keeps_refs t (fst (process_wait cur child t))" and "keeps_refs t (fst (waitpid_any_turn cur t))"
proof -
  have w: "keeps_refs t (fst (wait_turn cur c t))" for c unfolding keeps_refs_def
    using wait_turn_ok [OF T, where child = c and cur = cur] clean by blast
  have same: "keeps_refs t t" using T by (simp add: keeps_refs_def)
  have p: "keeps_refs t (fst (process_wait cur c t))" for c
    using w same by (simp add: process_wait_def split: option.split)
  then show "keeps_refs t (fst (process_wait cur child t))" .
  have "keeps_refs t (pt_modify cur (\<lambda>p. p\<lparr>pr_state := Waiting\<rparr>) t)" using T by (simp add: keeps_refs_def harmless_table)
  moreover have "keeps_refs t t'" if "process_wait cur c t = (t', r)" for c t' r using p [of c] that by simp
  ultimately show "keeps_refs t (fst (waitpid_any_turn cur t))"
    using same by (auto simp: waitpid_any_turn_def split: option.split prod.split wait_result.split)
qed

lemma wait_ok:
  assumes ks: "ks_ok ks" and sound: "reap_sound ks"
  shows "ks_ok (fst (handle_wait p ks))" and "ks_ok (fst (handle_waitnb ks))"
proof -
  note W = process_wait_ok [OF ks_okD(1) [OF ks]]
  have clean: "\<And>p q i rd. pt_get (ks_procs ks) p = Some q \<Longrightarrow> pr_state q = Zombie \<Longrightarrow> FdPipe i rd \<notin> set (fd_entries (pr_fds q))"
    using sound by (simp add: reap_sound_def)
  have any: "ks_ok (ks\<lparr>ks_procs := t\<rparr>)" if "waitpid_any_turn cur (ks_procs ks) = (t, r)" for cur t r
    using keeps_refs_ok [OF ks W(2) [where cur = cur]] clean that by simp
  have one: "ks_ok (ks\<lparr>ks_procs := t\<rparr>)" if "process_wait cur c (ks_procs ks) = (t, r)" for cur c t r
    using keeps_refs_ok [OF ks W(1) [where cur = cur and child = c]] clean that by simp
  have join: "ks_ok (ks\<lparr>ks_sched := join_block slot (ks_sched ks)\<rparr>)" for slot
    using ks_ok_sched [OF ks] sched_exec_inv [OF ks_okD(4) [OF ks], of "BlockJoin slot"] by simp
  show "ks_ok (fst (handle_wait p ks))" using ks any one join
    by (auto simp: handle_wait_def Let_def split: option.split prod.split wait_result.split)
  have "ks_ok (ks\<lparr>ks_procs := fst (process_wait cur c (ks_procs ks))\<rparr>)" for cur c using one [of cur c] by (metis prod.collapse)
  then show "ks_ok (fst (handle_waitnb ks))" using ks by (auto simp: handle_waitnb_def split: option.split)
qed

lemma env_calls_ok:
  assumes "ks_ok ks"
  shows "ks_ok (fst (handle_set_cwd a b mem ks))" and "ks_ok (fst (handle_set_env a b c d mem ks))"
  using assms harmless_ks by (auto simp: handle_set_cwd_def handle_set_env_def Let_def split: option.split)

text \<open>Transfer of data moves no reference, and other descriptors are not counted.\<close>

lemma bal_data:
  assumes b: "bal ps R" and k: "k < MAX_PIPES" "active (ps ! k)"
    and p: "readers p = readers (ps ! k)" "writers p = writers (ps ! k)" "active p"
  shows "bal (ps[k := p]) R"
proof -
  let ?i = "of_nat k :: u32"
  have u: "unat ?i = k" using k(1) by (simp add: MAX_PIPES_def unat_of_nat take_bit_nat_eq_self)
  have R: "R (FdPipe ?i True) = unat (readers p)" "R (FdPipe ?i False) = unat (writers p)"
    using b k p u by (auto simp: bal_def end_count_def)
  moreover have "0 < R (FdPipe ?i True) + R (FdPipe ?i False)" using b k u unfolding bal_def by metis
  ultimately have "active p \<longleftrightarrow> readers p \<noteq> 0 \<or> writers p \<noteq> 0" using p(3) by auto
  then have "bal (ps[unat ?i := p]) R" using bal_put [OF b, of ?i R p] k R u by simp
  then show ?thesis by (simp only: u)
qed

lemma read_loop_ends: "readers (fst (read_loop n p)) = readers p \<and> writers (fst (read_loop n p)) = writers p \<and> active (fst (read_loop n p)) = active p"
  by (induction n arbitrary: p) (auto simp: Let_def case_prod_beta)

lemma data_ok:
  assumes "ks_ok ks"
  shows "ks_ok (ks\<lparr>ks_pipes := fst (pipe_read (ks_pipes ks) i n)\<rparr>)" and "ks_ok (ks\<lparr>ks_pipes := fst (pipe_write (ks_pipes ks) i xs)\<rparr>)"
proof -
  note b = ks_okD(2) [OF assms]
  have "bal (fst (pipe_read (ks_pipes ks) i n)) (refs (ks_procs ks))"
    using b bal_data [OF b, of i] read_loop_ends by (simp add: pipe_read_def ring_read_def Let_def case_prod_beta)
  then show "ks_ok (ks\<lparr>ks_pipes := fst (pipe_read (ks_pipes ks) i n)\<rparr>)" by (rule ks_ok_pipes [OF assms])
  have "bal (fst (pipe_write (ks_pipes ks) i xs)) (refs (ks_procs ks))"
    using b bal_data [OF b, of i] by (simp add: pipe_write_def ring_write_def Let_def case_prod_beta)
  then show "ks_ok (ks\<lparr>ks_pipes := fst (pipe_write (ks_pipes ks) i xs)\<rparr>)" by (rule ks_ok_pipes [OF assms])
qed

lemma open_ok:
  assumes ks: "ks_ok ks" and t: "current_fds ks = Some t" and e: "\<And>i rd. e \<noteq> FdPipe i rd"
  shows "ks_ok (set_current_fds (fst (fd_alloc t e)) ks)"
proof -
  have inv: "fds_wf t" using current_fds_Some [OF ks t] by blast
  then show ?thesis
  proof (cases rule: fd_alloc_wf_cases [where e = e])
    case full
    then show ?thesis using ks_ok_fds_only [OF ks t inv] by simp
  next
    case (free i t')
    then have "i < length (fd_entries t)" using inv by (simp add: fds_wf_def)
    then show ?thesis using free e count_put(1) [of i "fd_entries t" e] ks_ok_fds_only [OF ks t free(3)] by simp
  qed
qed


section \<open>Runs of the kernel\<close>

text \<open>
  The steps of the running system: the calls of this theory, a descriptor opened for something else
  than a pipe, data moved through a pipe, and any step of the scheduler.
\<close>

inductive ks_step :: "ksys \<Rightarrow> ksys \<Rightarrow> bool" where
  Close: "ks_step ks (fst (handle_close fd ks))"
| Pipe: "ks_step ks (fst (snd (handle_pipe out_ptr mem ks)))"
| Dup: "ks_step ks (fst (handle_dup fd ks))"
| Dup2: "dup2_sound old_fd new_fd ks \<Longrightarrow> ks_step ks (fst (handle_dup2 old_fd new_fd ks))"
| Open: "current_fds ks = Some t \<Longrightarrow> (\<And>i rd. e \<noteq> FdPipe i rd) \<Longrightarrow> ks_step ks (set_current_fds (fst (fd_alloc t e)) ks)"
| Read: "ks_step ks (ks\<lparr>ks_pipes := fst (pipe_read (ks_pipes ks) i n)\<rparr>)"
| Write: "ks_step ks (ks\<lparr>ks_pipes := fst (pipe_write (ks_pipes ks) i xs)\<rparr>)"
| SpawnElf: "ks_step ks (fst (spawn_from_elf name tier loaded ks))"
| SpawnKernel: "ks_step ks (ks_spawned ks (spawn_process (ks_current_pid ks) name (ks_procs ks, ks_sched ks)))"
| SpawnUser: "ks_step ks (ks_spawned ks (spawn_user (ks_current_pid ks) name (ks_procs ks, ks_sched ks)))"
| Exit: "ks_step ks (fst (handle_exit now code ks))"
| Kill: "handle_kill p ks = Some (ks', r) \<Longrightarrow> ks_step ks ks'"
| Wait: "reap_sound ks \<Longrightarrow> ks_step ks (fst (handle_wait p ks))"
| WaitNb: "reap_sound ks \<Longrightarrow> ks_step ks (fst (handle_waitnb ks))"
| SetCwd: "ks_step ks (fst (handle_set_cwd a b mem ks))"
| SetEnv: "ks_step ks (fst (handle_set_env a b c d mem ks))"
| Schedule: "sched_exec op (ks_sched ks) = Some sc \<Longrightarrow> ks_step ks (ks\<lparr>ks_sched := sc\<rparr>)"

inductive ks_reach :: "ksys \<Rightarrow> bool" where
  Boot: "ks_reach ks_boot"
| Step: "ks_reach ks \<Longrightarrow> ks_step ks ks' \<Longrightarrow> ks_reach ks'"

lemma ks_step_ok: "ks_step ks ks' \<Longrightarrow> ks_ok ks \<Longrightarrow> ks_ok ks'"
proof (induction rule: ks_step.induct)
  case (Schedule op ks sc)
  then show ?case using sched_exec_inv ks_okD(4) by (blast intro: ks_ok_sched)
qed (auto intro: close_ok pipe_ok dup_ok dup2_ok open_ok data_ok spawn_from_elf_ok spawn_ok exit_ok kill_ok wait_ok env_calls_ok)

lemma pt_new_ok: "table_ok pt_new" "refs pt_new e = 0" "pt_get pt_new p = None"
  by (auto simp: table_ok_def pt_new_def refs_def slot_refs_def pt_get_def)

lemma process_boot_ok: "table_ok process_boot" "refs process_boot (FdPipe i rd) = 0"
proof -
  let ?k = "process_kernel\<lparr>pr_task_id := Some 0\<rparr>"
  have k: "proc_ok ?k" "pr_pid ?k = 0" "pr_fds ?k = with_stdio"
    by (simp_all add: proc_ok_def confined_def process_kernel_def PID_KERNEL_def fds_wf_stdio MAX_TASKS_def)
  have i: "proc_ok process_init" "pr_pid process_init = 1" "pr_fds process_init = with_stdio"
    by (simp_all add: proc_ok_def confined_def process_init_def PID_KERNEL_def PID_INIT_def fds_wf_stdio cap_set_default_user dangerous_def process_new_def Let_def)
  define t where "t = fst (pt_insert ?k pt_new)"
  have t: "table_ok t" "refs t e = count_list (fd_entries with_stdio) e" "pt_get t 1 = None" for e
    using pt_insert_new [OF pt_new_ok(1), of ?k] k pt_new_ok(2,3) by (simp_all add: t_def MAX_PROCESSES_def)
  show "table_ok process_boot" "refs process_boot (FdPipe i rd) = 0"
    using pt_insert_new [OF t(1), of process_init] i t(2,3) stdio_no_pipe(2) by (simp_all add: process_boot_def t_def [symmetric] MAX_PROCESSES_def)
qed

lemma ks_boot_ok: "ks_ok ks_boot"
proof -
  have "\<not> active (pipes_boot ! unat i)" if "unat i < MAX_PIPES" for i :: u32 using that by (simp add: pipes_boot_def pipe_empty_def)
  then have "bal pipes_boot (refs process_boot)" by (auto simp: bal_def process_boot_ok pipes_boot_def)
  then show ?thesis by (simp add: ks_ok_def ks_boot_def process_boot_ok sched_inv_init PID_KERNEL_def)
qed

lemma ks_reach_ok: "ks_reach ks \<Longrightarrow> ks_ok ks"
  by (induction rule: ks_reach.induct) (auto intro: ks_boot_ok ks_step_ok)


section \<open>The first pipe after boot\<close>

lemma boot_fds: "fd_owner ks_boot = PID_KERNEL" "current_fds ks_boot = Some with_stdio" "pt_get (ks_procs ks_boot) 1 = Some process_init"
proof -
  have p: "pt_processes process_boot = Some (process_kernel\<lparr>pr_task_id := Some 0\<rparr>) # Some process_init # replicate 62 None"
    by (simp add: process_boot_def pt_insert_def pt_new_def Let_def process_kernel_def process_init_def PID_KERNEL_def PID_INIT_def MAX_PROCESSES_def numeral_eq_Suc)
  then show o: "fd_owner ks_boot = PID_KERNEL"
    by (simp add: fd_owner_def pid_for_slot_def ks_boot_def find_pid_by_task_def pt_iter_def List.map_filter_simps init_core_def sched_boot_def process_kernel_def)
  show "current_fds ks_boot = Some with_stdio" "pt_get (ks_procs ks_boot) 1 = Some process_init"
    using o p by (simp_all add: current_fds_def pt_get_def ks_boot_def PID_KERNEL_def MAX_PROCESSES_def process_kernel_def)
qed

lemma find_iter_view:
  "map_option pr_pid (List.find (\<lambda>p. pr_task_id p = Some slot) (List.map_filter id xs))
     = map_option snd (List.find (\<lambda>v. fst v = Some slot) (List.map_filter id (map (map_option (\<lambda>q. (pr_task_id q, pr_pid q))) xs)))"
  by (induction xs) (auto simp: List.map_filter_simps split: option.split)

lemma current_fds_set:
  assumes ok: "ks_ok ks" and t: "current_fds ks = Some t"
  shows "current_fds (set_current_fds t' ks) = Some t'"
proof -
  let ?f = "\<lambda>q. q\<lparr>pr_fds := t'\<rparr>" and ?v = "map (map_option (\<lambda>q. (pr_task_id q, pr_pid q)))"
  obtain q where q: "pt_get (ks_procs ks) (fd_owner ks) = Some q" using current_fds_Some [OF ok t] by blast
  note P = pt_get_Some [OF ks_okD(1) [OF ok] q]
  have "?v (pt_processes (pt_modify (fd_owner ks) ?f (ks_procs ks))) = ?v (pt_processes (ks_procs ks))"
    using P q table_ok_length [OF ks_okD(1) [OF ok]]
    by (simp add: pt_modify_def map_update list_update_same_conv)
  then have "find_pid_by_task (pt_modify (fd_owner ks) ?f (ks_procs ks)) slot = find_pid_by_task (ks_procs ks) slot" for slot
    by (simp add: find_pid_by_task_def pt_iter_def find_iter_view)
  then have "fd_owner (set_current_fds t' ks) = fd_owner ks" by (simp add: fd_owner_def pid_for_slot_def set_current_fds_def)
  then show ?thesis using pt_get_modify [OF ks_okD(1) [OF ok], of "fd_owner ks" ?f] q by (simp add: current_fds_def set_current_fds_def)
qed

definition ks_piped :: ksys where
  "ks_piped = fst (snd (handle_pipe 0 (\<lambda>_. 0) ks_boot))"

lemma ks_piped_reach: "ks_reach ks_piped"
  unfolding ks_piped_def by (rule ks_reach.Step [OF ks_reach.Boot ks_step.Pipe])

definition fds_piped :: fd_table where
  "fds_piped = \<lparr>fd_entries = [FdConsole, FdConsole, FdConsole, FdPipe 0 True, FdPipe 0 False] @ replicate 59 FdEmpty, fd_next = 5\<rparr>"

lemma ks_piped_pipe: "ks_pipes ks_piped ! 0 = pipe_empty\<lparr>readers := 1, writers := 1, active := True\<rparr>" "current_fds ks_piped = Some fds_piped"
proof -
  have c: "create_pipe (ks_pipes ks_boot) = (pipes_boot[0 := pipe_empty\<lparr>readers := 1, writers := 1, active := True\<rparr>], Some 0)"
  proof -
    have "position (\<lambda>p. \<not> active p) pipes_boot = Some 0" by (simp add: position_Some_iff pipes_boot_def pipe_empty_def MAX_PIPES_def)
    then show ?thesis by (simp add: create_pipe_def ks_boot_def)
  qed
  have stdio: "with_stdio = \<lparr>fd_entries = [FdConsole, FdConsole, FdConsole] @ replicate 61 FdEmpty, fd_next = 3\<rparr>"
    by (simp add: with_stdio_def fds_new_def MAX_FDS_def numeral_eq_Suc)
  have 1: "fd_alloc with_stdio (FdPipe 0 True) = (\<lparr>fd_entries = [FdConsole, FdConsole, FdConsole, FdPipe 0 True] @ replicate 60 FdEmpty, fd_next = 4\<rparr>, Some 3)"
    by (simp add: stdio fd_alloc_def MAX_FDS_def upt_conv_Cons numeral_eq_Suc)
  have 2: "fd_alloc \<lparr>fd_entries = [FdConsole, FdConsole, FdConsole, FdPipe 0 True] @ replicate 60 FdEmpty, fd_next = 4\<rparr> (FdPipe 0 False) = (fds_piped, Some 4)"
    by (simp add: fds_piped_def fd_alloc_def MAX_FDS_def upt_conv_Cons numeral_eq_Suc)
  have v: "\<not> caller_needs_validation (ks_sched ks_boot)"
    by (simp add: caller_needs_validation_def current_task_is_user_def current_task_def MAX_TASKS_def ks_boot_def init_core_def sched_boot_def)
  have e: "ks_piped = set_current_fds fds_piped (ks_boot\<lparr>ks_pipes := pipes_boot[0 := pipe_empty\<lparr>readers := 1, writers := 1, active := True\<rparr>]\<rparr>)"
    unfolding ks_piped_def handle_pipe_def Let_def using v c boot_fds(2) 1 2 by (simp add: case_prod_beta)
  show "ks_pipes ks_piped ! 0 = pipe_empty\<lparr>readers := 1, writers := 1, active := True\<rparr>" unfolding e by (simp add: pipes_boot_def MAX_PIPES_def)
  show "current_fds ks_piped = Some fds_piped" unfolding e using current_fds_set [OF ks_boot_ok boot_fds(2)] by simp
qed

section \<open>Properties\<close>

text \<open>
  (C6) Reference counts are exact as long as two misuses do not occur. Take any run of the calls on descriptors and processes in which
  \<^verbatim>\<open>dup2\<close> is called only with an open old descriptor and another new one, and in which waiting takes a process
  away only while no zombie has a pipe descriptor left (a process that exits has given them up, one that was killed has not). In every
  state of such a run, a pipe in use counts exactly the descriptors of all processes that name its read end and its write end,
  at least one of them exists, and no descriptor names a pipe that is not in use; so a reader of an
  empty pipe sees end of file just when no process holds a write end any more.
\<close>

theorem pipe_refcounts_exact:
  assumes "ks_reach ks" and "unat i < MAX_PIPES"
  defines "p \<equiv> ks_pipes ks ! unat i" and "held \<equiv> \<lambda>rd. refs (ks_procs ks) (FdPipe i rd)"
  shows "if active p
    then unat (readers p) = held True \<and> unat (writers p) = held False \<and> 0 < held True + held False
      \<and> (pipe_count p = 0 \<longrightarrow> (snd (pipe_read (ks_pipes ks) (unat i) n) = Some [] \<longleftrightarrow> held False = 0))
    else held True = 0 \<and> held False = 0"
proof -
  note b = ks_okD(2) [OF ks_reach_ok [OF assms(1)]]
  have 1: "if active p then unat (readers p) = held True \<and> unat (writers p) = held False \<and> 0 < held True + held False
      else held True = 0 \<and> held False = 0"
    using b assms(2) unfolding bal_def end_count_def p_def held_def by metis
  have "writers p = 0 \<longleftrightarrow> unat (writers p) = 0" by (simp add: unat_eq_0)
  then have "active p \<Longrightarrow> pipe_count p = 0 \<Longrightarrow> snd (pipe_read (ks_pipes ks) (unat i) n) = Some [] \<longleftrightarrow> unat (writers p) = 0"
    using assms(2) by (simp add: pipe_read_def p_def)
  with 1 show ?thesis by (auto split: if_splits)
qed

theorem pipe_refcounts_exact_witness:
  "ks_reach ks_piped \<and> active (ks_pipes ks_piped ! 0) \<and> refs (ks_procs ks_piped) (FdPipe 0 True) = 1 \<and> refs (ks_procs ks_piped) (FdPipe 0 False) = 1
     \<and> snd (pipe_read (ks_pipes ks_piped) 0 8) \<noteq> Some []"
  using pipe_refcounts_exact [OF ks_piped_reach, where i = 0 and n = 8] ks_piped_reach by (simp add: ks_piped_pipe MAX_PIPES_def pipe_empty_def)

text \<open>
  The permission check of kill never refuses. Every process other than the kernel has
  the kernel as parent and the running process always counts as the kernel, so in every such state a
  caller of any tier, related to the target or not, turns it into a zombie.
\<close>

theorem kill_never_refused:
  assumes "ks_reach ks" and "pt_get (ks_procs ks) (ucast p) = Some q" and "ucast p \<noteq> PID_KERNEL"
  shows "\<exists>ks'. handle_kill p ks = Some (ks', 0) \<and> map_option pr_state (pt_get (ks_procs ks') (ucast p)) = Some Zombie"
proof -
  note ok = ks_reach_ok [OF assms(1)]
  note P = pt_get_Some [OF ks_okD(1) [OF ok] assms(2)]
  have par: "pr_parent q = Some (ks_current_pid ks)" using P assms(3) ks_okD(3) [OF ok] by (simp add: proc_ok_def confined_def)
  let ?ks = "ks\<lparr>ks_procs := pt_modify (ucast p) (pr_exit (es_killed 9)) (ks_procs ks)\<rparr>"
  have z: "map_option pr_state (pt_get (ks_procs ?ks) (ucast p)) = Some Zombie"
    using pt_get_modify [OF ks_okD(1) [OF ok], of "ucast p"] assms(2) by (simp add: pr_exit_def)
  show ?thesis
  proof (cases "pr_task_id q")
    case None
    then have "handle_kill p ks = Some (?ks, 0)" using assms(2) par by (simp add: handle_kill_def Let_def)
    then show ?thesis using z by blast
  next
    case (Some slot)
    then have "slot < MAX_TASKS" using P by (simp add: proc_ok_def)
    then obtain sc where "kill_task slot (ks_sched ks) = Some sc" by (simp add: kill_task_def)
    then have "handle_kill p ks = Some (?ks\<lparr>ks_sched := sc\<rparr>, 0)" using assms(2) par Some by (simp add: handle_kill_def Let_def)
    then show ?thesis using z by (metis ksys.select_convs(1) ksys.surjective ksys.update_convs(2))
  qed
qed

theorem kill_never_refused_witness:
  "ks_reach ks_boot \<and> pt_get (ks_procs ks_boot) 1 = Some process_init \<and> (\<exists>ks'. handle_kill 1 ks_boot = Some (ks', 0) \<and> map_option pr_state (pt_get (ks_procs ks') 1) = Some Zombie)"
  using kill_never_refused [OF ks_reach.Boot, of 1 process_init] boot_fds(3) ks_reach.Boot by (simp add: PID_KERNEL_def)


text \<open>
  \<^verbatim>\<open>dup2\<close> of a descriptor that is not open fails, but not without an effect: the target
  descriptor stays open while the reference of the pipe end that it names is given up. The count is
  then one less than the descriptors held, and after the last one the pipe is inactive under an open
  descriptor.
\<close>

theorem dup2_bad_fd_gives_up_end:
  assumes "ks_reach ks" and "current_fds ks = Some t" and "unat new_fd < MAX_FDS"
    and "fd_get t (of_nat (unat new_fd)) = Some (FdPipe i rd)" and "fd_get t (ucast old_fd) = None"
    and "handle_dup2 old_fd new_fd ks = (ks', r)"
  shows "r = U64_MAX \<and> current_fds ks' = Some t \<and> end_count (ks_pipes ks') i rd + 1 = refs (ks_procs ks') (FdPipe i rd)"
proof -
  note ok = ks_reach_ok [OF assms(1)]
  from current_fds_Some [OF ok assms(2)] obtain q where q: "pt_get (ks_procs ks) (fd_owner ks) = Some q" "pr_fds q = t" and wf: "fds_wf t" .
  let ?e = "FdPipe i rd" and ?ps = "ks_pipes ks"
  have "\<exists>x. fd_index (of_nat (unat new_fd)) = Some x" using assms(4) by (auto simp: fd_get_def split: option.splits)
  then have ks': "ks' = (set_current_fds t ks)\<lparr>ks_pipes := pipe_release ?e ?ps\<rparr>" and r: "r = U64_MAX"
    using assms(2-6) by (auto simp: handle_dup2_def Let_def fd_dup2_def split: option.splits)
  have same: "pt_modify (fd_owner ks) (\<lambda>p. p\<lparr>pr_fds := t\<rparr>) (ks_procs ks) = ks_procs ks"
    using pt_get_Some [OF ks_okD(1) [OF ok] q(1)] q by (simp add: pt_modify_def list_update_same_conv table_ok_length [OF ks_okD(1) [OF ok]])
  then have procs: "ks_procs ks' = ks_procs ks" by (simp add: ks' set_current_fds_def)
  have fds: "current_fds ks' = Some t" using assms(2) same unfolding ks' set_current_fds_def same by simp
  have "0 < count_list (fd_entries t) ?e"
    by (rule count_put(2) [OF fd_getD(3) [OF wf assms(4)] fd_getD(2) [OF wf assms(4)]])
  then have h: "0 < refs (ks_procs ks) ?e" using fds_refs_ge [OF ok assms(2), of ?e] by simp
  note H = bal_held [OF ks_okD(2) [OF ok] h]
  have l: "length ?ps = MAX_PIPES" using ks_okD(2) [OF ok] by (simp add: bal_def)
  have nz: "(if rd then readers (?ps ! unat i) else writers (?ps ! unat i)) \<noteq> 0" using H h by (auto simp: end_count_def)
  have "end_count (pipe_release ?e ?ps) i rd = end_count ?ps i rd - 1"
    using H nz l by (simp add: close_read_end_def close_write_end_def end_count_def Let_def saturating_dec_def unat_dec split: if_splits)
  then have "end_count (pipe_release ?e ?ps) i rd + 1 = refs (ks_procs ks) ?e" using H h by linarith
  then show ?thesis using procs fds r by (simp add: ks')
qed

theorem dup2_bad_fd_gives_up_end_witness:
  "\<exists>ks'. handle_dup2 10 3 ks_piped = (ks', U64_MAX) \<and> current_fds ks' = Some fds_piped
     \<and> fd_get fds_piped 3 = Some (FdPipe 0 True) \<and> end_count (ks_pipes ks') 0 True + 1 = refs (ks_procs ks') (FdPipe 0 True)"
proof -
  have 3: "fd_get fds_piped 3 = Some (FdPipe 0 True)" and 10: "fd_get fds_piped 10 = None"
    by (simp_all add: fd_get_def fd_index_eq fds_piped_def MAX_FDS_def)
  obtain ks' r where k: "handle_dup2 10 3 ks_piped = (ks', r)" by fastforce
  show ?thesis using dup2_bad_fd_gives_up_end [OF ks_piped_reach ks_piped_pipe(2), of 3 0 True 10 ks' r] k 3 10 by (simp add: MAX_FDS_def)
qed

end
