(* ===== verification/Cap_Confinement.thy ===== *)
theory Cap_Confinement
  imports Descriptors_Correct
begin

text \<open>
  The capabilities of processes, \<^verbatim>\<open>src/kernel-core/src/process/capability.rs\<close>, over every run of the calls on
  descriptors and processes, the ones that spoil the counts of pipes included. The theory shows that the stored
  capabilities stay confined, and that the check of capabilities does not look at them.
\<close>

section \<open>All runs\<close>

inductive sys_step :: "ksys \<Rightarrow> ksys \<Rightarrow> bool" where
  Step: "ks_step ks ks' \<Longrightarrow> sys_step ks ks'"
| Dup2: "sys_step ks (fst (handle_dup2 old_fd new_fd ks))"
| Wait: "sys_step ks (fst (handle_wait p ks))"
| WaitNb: "sys_step ks (fst (handle_waitnb ks))"

inductive sys_reach :: "ksys \<Rightarrow> bool" where
  Boot: "sys_reach ks_boot"
| Next: "sys_reach ks \<Longrightarrow> sys_step ks ks' \<Longrightarrow> sys_reach ks'"

section \<open>The capabilities in the process table\<close>

definition slot_caps :: "nat \<Rightarrow> process \<Rightarrow> bool" where
  "slot_caps i q \<longleftrightarrow> (if i = 0 then cap_set (pr_capabilities q) = UNIV else cap_set (pr_capabilities q) \<inter> dangerous = {})"

definition caps_ok :: "process_table \<Rightarrow> bool" where
  "caps_ok t \<longleftrightarrow> length (pt_processes t) = MAX_PROCESSES
     \<and> (\<forall>i < MAX_PROCESSES. \<forall>q. pt_processes t ! i = Some q \<longrightarrow> slot_caps i q)"

named_theorems caps_keep

lemma slot_caps_cong: "pr_capabilities q' = pr_capabilities q \<Longrightarrow> slot_caps i q' = slot_caps i q"
  by (simp add: slot_caps_def)

lemma caps_ok_update:
  assumes "caps_ok t" "pt_processes t' = (pt_processes t)[i := x]" "\<And>q. x = Some q \<Longrightarrow> slot_caps i q"
  shows "caps_ok t'"
proof -
  have "slot_caps k q" if k: "k < MAX_PROCESSES" "pt_processes t' ! k = Some q" for k q
  proof (cases "k = i")
    case True
    then have "x = Some q" using k assms(1,2) by (simp add: caps_ok_def)
    then show ?thesis using assms(3) True by simp
  next
    case False
    then have "pt_processes t ! k = Some q" using k(2) assms(2) by simp
    then show ?thesis using assms(1) k(1) by (simp add: caps_ok_def)
  qed
  then show ?thesis using assms(1,2) by (simp add: caps_ok_def)
qed

lemma caps_modify [caps_keep]:
  assumes "caps_ok t" "\<And>q. pt_get t p = Some q \<Longrightarrow> pr_capabilities (f q) = pr_capabilities q"
  shows "caps_ok (pt_modify p f t)"
proof (cases "pt_get t p")
  case (Some q)
  then have "unat p < MAX_PROCESSES" "pt_processes t ! unat p = Some q" by (auto simp: pt_get_def split: if_splits)
  then have "slot_caps (unat p) (f q)" using assms Some slot_caps_cong by (metis caps_ok_def)
  then show ?thesis using Some caps_ok_update [OF assms(1), of "pt_modify p f t" "unat p" "Some (f q)"] by (simp add: pt_modify_def)
qed (use assms(1) in \<open>simp add: pt_modify_def\<close>)

lemma caps_remove [caps_keep]: "caps_ok t \<Longrightarrow> caps_ok (fst (pt_remove p t))"
  using caps_ok_update [of t "fst (pt_remove p t)" "unat p" None] by (auto simp: pt_remove_def split: option.split)

lemma caps_insert:
  "caps_ok t \<Longrightarrow> unat (pr_pid q) \<noteq> 0 \<Longrightarrow> cap_set (pr_capabilities q) \<inter> dangerous = {} \<Longrightarrow> caps_ok (fst (pt_insert q t))"
  using caps_ok_update [of t "fst (pt_insert q t)" "unat (pr_pid q)" "Some q"] by (auto simp: pt_insert_def Let_def slot_caps_def)

lemma caps_iter_mut [caps_keep]:
  assumes "caps_ok t" "\<And>q. pr_capabilities (f q) = pr_capabilities q"
  shows "caps_ok (pt_iter_mut f t)"
proof -
  have "slot_caps i q" if i: "i < MAX_PROCESSES" "pt_processes (pt_iter_mut f t) ! i = Some q" for i q
  proof -
    obtain q0 where q0: "pt_processes t ! i = Some q0" "q = f q0" using i assms(1) by (auto simp: pt_iter_mut_def caps_ok_def)
    then have "slot_caps i q0" using assms(1) i(1) by (simp add: caps_ok_def)
    then show ?thesis using slot_caps_cong [of q q0 i] assms(2) q0(2) by simp
  qed
  then show ?thesis using assms(1) by (simp add: caps_ok_def pt_iter_mut_def)
qed

lemma child_caps [simp]:
  "pr_capabilities (fst (pr_add_child p c)) = pr_capabilities p" "pr_capabilities (fst (pr_remove_child p c)) = pr_capabilities p"
  "pr_capabilities (pr_exit st p) = pr_capabilities p" "pr_capabilities (fst (pr_reap p)) = pr_capabilities p"
  "pr_capabilities (fst (set_cwd p path)) = pr_capabilities p" "pr_capabilities (fst (env_set p k v)) = pr_capabilities p"
  by (auto simp: pr_add_child_def pr_remove_child_def pr_exit_def pr_reap_def set_cwd_def env_set_def Let_def split: option.split prod.split)

lemma alloc_pid_nonzero: "alloc_pid t = Some p \<Longrightarrow> unat p \<noteq> 0"
proof -
  assume "alloc_pid t = Some p"
  then obtain i where i: "List.find (\<lambda>i. pt_processes t ! i = None) [2..<MAX_PROCESSES] = Some i" "p = of_nat i"
    by (auto simp: alloc_pid_def)
  then have "2 \<le> i" "i < MAX_PROCESSES" using find_upt_Some [OF i(1)] by simp_all
  then show ?thesis unfolding i(2) by (simp add: unat_of_nat take_bit_nat_eq_self MAX_PROCESSES_def)
qed

lemma caps_enter:
  assumes "caps_ok t" "unat (pr_pid q) \<noteq> 0" "cap_set (pr_capabilities q) \<inter> dangerous = {}"
  shows "caps_ok (enter_process parent q t)"
  unfolding enter_process_def by (rule caps_modify [OF caps_insert [OF assms]]) simp

lemma caps_fds [caps_keep]: "caps_ok (ks_procs ks) \<Longrightarrow> caps_ok (ks_procs (set_current_fds t ks))"
  unfolding set_current_fds_def by (simp add: caps_modify)

section \<open>Every call keeps them\<close>

lemma caps_descriptor_calls [caps_keep]:
  assumes "caps_ok (ks_procs ks)"
  shows "caps_ok (ks_procs (fst (handle_close fd ks)))" "caps_ok (ks_procs (fst (snd (handle_pipe out_ptr mem ks))))"
    "caps_ok (ks_procs (fst (handle_dup fd ks)))" "caps_ok (ks_procs (fst (handle_dup2 old_fd new_fd ks)))"
  using assms
  by (auto simp: handle_close_def handle_pipe_def handle_dup_def handle_dup2_def Let_def caps_keep
      split: option.split fd_entry.split prod.split)

lemma caps_spawn [caps_keep]:
  assumes "caps_ok t"
  shows "caps_ok (fst (fst (spawn_process cur name (t, sc))))" "caps_ok (fst (fst (spawn_user cur name (t, sc))))"
  using assms alloc_pid_nonzero by (simp_all add: spawn_process_def spawn_user_def Let_def caps_enter minimal_safe split: option.split prod.split)

lemma caps_adopt: "caps_ok (ks_procs ks) \<Longrightarrow> caps_ok (ks_procs (fst (adopt_process name slot entry rsp brk ks)))"
  using alloc_pid_nonzero by (simp add: adopt_process_def Let_def caps_enter caps_iter_mut minimal_safe split: option.split)

lemma caps_spawn_elf [caps_keep]: "caps_ok (ks_procs ks) \<Longrightarrow> caps_ok (ks_procs (fst (spawn_from_elf name tier loaded ks)))"
  by (auto simp: spawn_from_elf_def intro!: caps_adopt split: option.split prod.split)

lemma caps_exit [caps_keep]:
  assumes "caps_ok (ks_procs ks)"
  shows "caps_ok (ks_procs (fst (handle_exit now code ks)))"
proof -
  have r: "caps_ok (ks_procs (release_pipe_fds ks))" using assms by (auto simp: release_pipe_fds_def caps_modify split: option.split)
  have w: "caps_ok (wake_parent x t)" if "caps_ok t" for x t using that by (auto simp: wake_parent_def intro!: caps_modify split: option.split)
  have "caps_ok (ks_procs (exit_process code ks))"
    using r by (auto simp: exit_process_def Let_def intro!: w caps_modify split: option.split)
  then show ?thesis by (simp add: handle_exit_def Let_def)
qed

lemma caps_kill: "caps_ok (ks_procs ks) \<Longrightarrow> handle_kill p ks = Some (ks', r) \<Longrightarrow> caps_ok (ks_procs ks')"
  by (auto simp: handle_kill_def Let_def caps_modify split: option.splits if_splits)

lemma caps_wait_turn [caps_keep]: "caps_ok t \<Longrightarrow> caps_ok (fst (wait_turn cur child t))"
  by (auto simp: wait_turn_def Let_def case_prod_beta intro!: caps_remove caps_modify split: option.split)

lemma caps_process_wait [caps_keep]: "caps_ok t \<Longrightarrow> caps_ok (fst (process_wait cur child t))"
  by (auto simp: process_wait_def caps_wait_turn split: option.split)

lemma caps_any_turn [caps_keep]:
  assumes "caps_ok t"
  shows "caps_ok (fst (waitpid_any_turn cur t))"
proof -
  have "caps_ok t'" if "process_wait cur c t = (t', r)" for c t' r using caps_process_wait [OF assms, of cur c] that by simp
  then show ?thesis using assms by (simp add: waitpid_any_turn_def caps_modify split: option.split prod.split wait_result.split)
qed

lemma caps_wait_calls [caps_keep]:
  assumes "caps_ok (ks_procs ks)"
  shows "caps_ok (ks_procs (fst (handle_wait p ks)))" "caps_ok (ks_procs (fst (handle_waitnb ks)))"
proof -
  have w: "caps_ok t'" if "process_wait (ks_current_pid ks) c (ks_procs ks) = (t', r)" for c t' r
    using caps_process_wait [OF assms, of "ks_current_pid ks" c] that by simp
  have a: "caps_ok t'" if "waitpid_any_turn (ks_current_pid ks) (ks_procs ks) = (t', r)" for t' r
    using caps_any_turn [OF assms, of "ks_current_pid ks"] that by simp
  show "caps_ok (ks_procs (fst (handle_wait p ks)))"
    using assms w a by (simp add: handle_wait_def Let_def split: option.split prod.split wait_result.split)
  show "caps_ok (ks_procs (fst (handle_waitnb ks)))"
    using assms by (simp add: handle_waitnb_def caps_process_wait split: option.split)
qed

lemma caps_environment [caps_keep]:
  assumes "caps_ok (ks_procs ks)"
  shows "caps_ok (ks_procs (fst (handle_set_cwd a b mem ks)))" "caps_ok (ks_procs (fst (handle_set_env a b c d mem ks)))"
  using assms by (auto simp: handle_set_cwd_def handle_set_env_def Let_def caps_modify split: option.split)

lemma caps_step:
  assumes "caps_ok (ks_procs ks)" "sys_step ks ks'"
  shows "caps_ok (ks_procs ks')"
  using assms(2)
proof cases
  case Step
  then show ?thesis using assms(1) by cases (auto simp: caps_keep ks_spawned_def elim: caps_kill)
qed (use assms(1) in \<open>simp_all add: caps_keep\<close>)

lemma caps_boot: "caps_ok (ks_procs ks_boot)"
proof -
  have "caps_ok pt_new" by (simp add: caps_ok_def pt_new_def)
  then have "caps_ok (fst (pt_insert (process_kernel\<lparr>pr_task_id := Some 0\<rparr>) pt_new))"
    using caps_ok_update [of pt_new _ 0 "Some (process_kernel\<lparr>pr_task_id := Some 0\<rparr>)"]
    by (simp add: pt_insert_def Let_def process_kernel_def PID_KERNEL_def slot_caps_def cap_set_ops)
  then show ?thesis
    by (auto simp: ks_boot_def process_boot_def process_init_def PID_INIT_def cap_set_default_user dangerous_def intro!: caps_insert)
qed

lemma current_pid_calls [simp]:
  "ks_current_pid (fst (handle_close fd ks)) = ks_current_pid ks" "ks_current_pid (fst (snd (handle_pipe out_ptr mem ks))) = ks_current_pid ks"
  "ks_current_pid (fst (handle_dup fd ks)) = ks_current_pid ks" "ks_current_pid (fst (handle_dup2 old_fd new_fd ks)) = ks_current_pid ks"
  "ks_current_pid (fst (spawn_from_elf name tier loaded ks)) = ks_current_pid ks" "ks_current_pid (ks_spawned ks x) = ks_current_pid ks"
  "ks_current_pid (fst (handle_exit now code ks)) = ks_current_pid ks"
  "ks_current_pid (fst (handle_set_cwd a b mem ks)) = ks_current_pid ks" "ks_current_pid (fst (handle_set_env a b c d mem ks)) = ks_current_pid ks"
  by (auto simp: handle_close_def handle_pipe_def handle_dup_def handle_dup2_def spawn_from_elf_def adopt_process_def ks_spawned_def
      handle_exit_def exit_process_def release_pipe_fds_def handle_set_cwd_def handle_set_env_def Let_def
      split: option.split fd_entry.split prod.split)

lemma current_pid_wait [simp]:
  "ks_current_pid (fst (handle_wait p ks)) = ks_current_pid ks" "ks_current_pid (fst (handle_waitnb ks)) = ks_current_pid ks"
  by (auto simp: handle_wait_def handle_waitnb_def Let_def split: option.split prod.split wait_result.split)

lemma current_pid_kill: "handle_kill p ks = Some (ks', r) \<Longrightarrow> ks_current_pid ks' = ks_current_pid ks"
  by (auto simp: handle_kill_def Let_def split: option.splits if_splits)

lemma current_pid_step:
  assumes "sys_step ks ks'"
  shows "ks_current_pid ks' = ks_current_pid ks"
  using assms
proof cases
  case Step
  then show ?thesis by cases (auto elim: current_pid_kill)
qed simp_all

lemma sys_reach_caps:
  assumes "sys_reach ks"
  shows "caps_ok (ks_procs ks) \<and> ks_current_pid ks = PID_KERNEL"
  using assms
proof induction
  case Boot
  show ?case using caps_boot by (simp add: ks_boot_def PID_KERNEL_def)
next
  case (Next ks ks')
  then show ?case using caps_step current_pid_step by metis
qed

text \<open>
  (C23) Capabilities stay confined, and the check of capabilities does not see them. In every state that the calls on
  descriptors and processes can produce, in any order and with any arguments, a process other than the kernel has none of
  the capabilities to reach kernel memory, to hand out capabilities, to bypass file permissions, to use every device, to do raw
  I/O or to load modules. But \<open>check\<close> asks for the process number that was set at boot, the kernel's, whichever process
  runs: it grants every capability, and with it every tier.
\<close>

theorem capabilities_confined:
  assumes "sys_reach ks"
  shows "(\<forall>p q. pt_get (ks_procs ks) p = Some q \<and> p \<noteq> PID_KERNEL \<longrightarrow> cap_set (pr_capabilities q) \<inter> dangerous = {})
    \<and> (\<forall>c. cap_check ks c = Ok ()) \<and> (\<forall>cs. cap_check_all ks cs = Ok ()) \<and> (\<forall>t. check_tier ks t = Ok ())"
proof -
  note R = sys_reach_caps [OF assms]
  have s: "slot_caps (unat p) q" if "pt_get (ks_procs ks) p = Some q" for p q
    using R that by (auto simp: caps_ok_def pt_get_def split: if_splits)
  have c: "cap_check ks c = Ok ()" for c
  proof (cases "pt_get (ks_procs ks) PID_KERNEL")
    case (Some q)
    then have "cap_set (pr_capabilities q) = UNIV" using s [OF Some] by (simp add: slot_caps_def PID_KERNEL_def)
    then have "has_capability q c" by (auto simp: has_capability_def cap_set_def)
    then show ?thesis using Some R by (simp add: cap_check_def)
  qed (use R in \<open>simp add: cap_check_def\<close>)
  have "cap_set (pr_capabilities q) \<inter> dangerous = {}" if "pt_get (ks_procs ks) p = Some q" "p \<noteq> PID_KERNEL" for p q
    using s [OF that(1)] that(2) by (simp add: slot_caps_def PID_KERNEL_def unat_eq_0)
  moreover have "cap_check_all ks cs = Ok ()" for cs using c by (induction cs) simp_all
  ultimately show ?thesis using c unfolding check_tier_def by blast
qed

text \<open>The state after boot, and after a \<^verbatim>\<open>dup2\<close> with a bad descriptor in it: the first user process may not do raw I/O, the check says it may.\<close>

theorem capabilities_confined_witness:
  "pt_get (ks_procs ks_boot) 1 = Some process_init \<and> SysRawIo \<notin> cap_set (pr_capabilities process_init)
     \<and> cap_check (fst (handle_dup2 40 3 ks_boot)) SysRawIo = Ok ()"
proof -
  have r: "sys_reach (fst (handle_dup2 40 3 ks_boot))" by (rule sys_reach.Next [OF sys_reach.Boot sys_step.Dup2])
  have "(1 :: pid) \<noteq> PID_KERNEL" by (simp add: PID_KERNEL_def)
  then have "cap_set (pr_capabilities process_init) \<inter> dangerous = {}"
    using capabilities_confined [OF sys_reach.Boot] boot_fds(3) by blast
  moreover have "SysRawIo \<in> dangerous" by (simp add: dangerous_def)
  ultimately show ?thesis using capabilities_confined [OF r] boot_fds(3) by blast
qed

end
