(* ===== verification/Block_Stream.thy ===== *)
theory Block_Stream
  imports Prelude
begin

text \<open>
  Streaming over blocks, the interface that the hash functions and the message authentication code of
  \<^verbatim>\<open>src/kernel-core/src/crypto\<close> share: input arrives in pieces of any size, whole blocks are absorbed as
  soon as they can be, and the remainder is kept in a buffer. \<open>t\<close> is the number of bytes that must be
  at hand before a block of \<open>B\<close> bytes is absorbed: \<open>B\<close> itself, or one more when the last block has to be
  held back for the end.
\<close>

section \<open>Cutting a byte string into blocks\<close>

function blocks_of :: "nat \<Rightarrow> nat \<Rightarrow> 'a list \<Rightarrow> 'a list list" where
  "blocks_of B t xs = (if 0 < B \<and> B \<le> t \<and> t \<le> length xs then take B xs # blocks_of B t (drop B xs) else [])"
  by pat_completeness auto
termination
  by (relation "measure (\<lambda>(B, t, xs). length xs)") auto

function rest_of :: "nat \<Rightarrow> nat \<Rightarrow> 'a list \<Rightarrow> 'a list" where
  "rest_of B t xs = (if 0 < B \<and> B \<le> t \<and> t \<le> length xs then rest_of B t (drop B xs) else xs)"
  by pat_completeness auto
termination
  by (relation "measure (\<lambda>(B, t, xs). length xs)") auto

declare blocks_of.simps [simp del] rest_of.simps [simp del]

lemma cut_short [simp]: "length xs < t \<Longrightarrow> blocks_of B t xs = []" "length xs < t \<Longrightarrow> rest_of B t xs = xs"
  by (simp_all add: blocks_of.simps rest_of.simps)

lemma cut_long: "0 < B \<Longrightarrow> B \<le> t \<Longrightarrow> t \<le> length xs \<Longrightarrow> blocks_of B t xs = take B xs # blocks_of B t (drop B xs)"
  "0 < B \<Longrightarrow> B \<le> t \<Longrightarrow> t \<le> length xs \<Longrightarrow> rest_of B t xs = rest_of B t (drop B xs)"
  by (subst blocks_of.simps rest_of.simps; simp)+

lemma cut_block: "length b = B \<Longrightarrow> 0 < B \<Longrightarrow> B \<le> t \<Longrightarrow> t \<le> B + length xs \<Longrightarrow> blocks_of B t (b @ xs) = b # blocks_of B t xs"
  "length b = B \<Longrightarrow> 0 < B \<Longrightarrow> B \<le> t \<Longrightarrow> t \<le> B + length xs \<Longrightarrow> rest_of B t (b @ xs) = rest_of B t xs"
  by (simp_all add: cut_long)

lemma cut_else: "\<not> (0 < B \<and> B \<le> t \<and> t \<le> length xs) \<Longrightarrow> blocks_of B t xs = []"
  "\<not> (0 < B \<and> B \<le> t \<and> t \<le> length xs) \<Longrightarrow> rest_of B t xs = xs"
  by (auto simp: blocks_of.simps [of B t xs] rest_of.simps [of B t xs])

lemma cut_append:
  "blocks_of B t (xs @ ys) = blocks_of B t xs @ blocks_of B t (rest_of B t xs @ ys)" "rest_of B t (xs @ ys) = rest_of B t (rest_of B t xs @ ys)"
proof (induction B t xs rule: blocks_of.induct)
  case (1 B t xs)
  show "blocks_of B t (xs @ ys) = blocks_of B t xs @ blocks_of B t (rest_of B t xs @ ys)"
    using "1.IH"(1) by (cases "0 < B \<and> B \<le> t \<and> t \<le> length xs") (simp_all add: cut_long cut_else)
  show "rest_of B t (xs @ ys) = rest_of B t (rest_of B t xs @ ys)"
    using "1.IH"(2) by (cases "0 < B \<and> B \<le> t \<and> t \<le> length xs") (simp_all add: cut_long cut_else)
qed

lemma left_length: "0 < B \<Longrightarrow> B \<le> t \<Longrightarrow> length (rest_of B t xs) < t"
proof (induction B t xs rule: rest_of.induct)
  case (1 B t xs)
  then show ?case by (cases "t \<le> length xs") (simp_all add: cut_long cut_else)
qed

lemma cut_concat: "concat (blocks_of B t xs) @ rest_of B t xs = xs"
proof (induction B t xs rule: blocks_of.induct)
  case (1 B t xs)
  then show ?case by (cases "0 < B \<and> B \<le> t \<and> t \<le> length xs") (simp_all add: cut_long cut_else)
qed

lemma cut_block_length: "b \<in> set (blocks_of B t xs) \<Longrightarrow> length b = B"
proof (induction B t xs rule: blocks_of.induct)
  case (1 B t xs)
  then show ?case by (cases "0 < B \<and> B \<le> t \<and> t \<le> length xs") (auto simp: cut_long cut_else)
qed

lemma rest_length_mod: "0 < B \<Longrightarrow> length (rest_of B B xs) = length xs mod B"
proof (induction xs rule: length_induct)
  case (1 xs)
  then show ?case by (cases "B \<le> length xs") (simp_all add: cut_long cut_else le_mod_geq)
qed

section \<open>Streams\<close>

text \<open>
  \<open>acc\<close> is what has been absorbed, \<open>pend\<close> the bytes in the buffer. One \<open>upd\<close> absorbs the blocks of the
  buffer followed by the new bytes; so any way to blocks_of the input into pieces gives the same.
\<close>

locale block_stream =
  fixes B t :: nat and wf :: "'c \<Rightarrow> bool" and acc :: "'c \<Rightarrow> 's" and pend :: "'c \<Rightarrow> u8 list"
    and upd :: "'c \<Rightarrow> u8 list \<Rightarrow> 'c" and absorb :: "'s \<Rightarrow> u8 list \<Rightarrow> 's"
  assumes sizes: "0 < B" "B \<le> t"
    and pend_short: "wf c \<Longrightarrow> length (pend c) < t"
    and upd_wf: "wf c \<Longrightarrow> wf (upd c data)"
    and upd_acc: "wf c \<Longrightarrow> acc (upd c data) = foldl absorb (acc c) (blocks_of B t (pend c @ data))"
    and upd_pend: "wf c \<Longrightarrow> pend (upd c data) = rest_of B t (pend c @ data)"
begin

lemma stream:
  assumes "wf c"
  shows "wf (foldl upd c pieces)" and "acc (foldl upd c pieces) = foldl absorb (acc c) (blocks_of B t (pend c @ concat pieces))"
    and "pend (foldl upd c pieces) = rest_of B t (pend c @ concat pieces)"
  using assms
proof (induction pieces arbitrary: c)
  case Nil
  {
    case 1
    then show ?case by simp
  next
    case 2
    then show ?case using pend_short by simp
  next
    case 3
    then show ?case using pend_short by simp
  }
next
  case (Cons p pieces)
  {
    case 1
    then show ?case using Cons.IH(1) upd_wf by simp
  next
    case 2
    then show ?case using Cons.IH(2) [OF upd_wf [OF 2]] upd_acc [OF 2] upd_pend [OF 2]
      by (simp add: cut_append(1) [of B t "pend c @ p", simplified])
  next
    case 3
    then show ?case using Cons.IH(3) [OF upd_wf [OF 3]] upd_pend [OF 3]
      by (simp add: cut_append(2) [of B t "pend c @ p", simplified])
  }
qed

lemma pieces_irrelevant:
  "wf c \<Longrightarrow> concat ps = concat qs \<Longrightarrow> acc (foldl upd c ps) = acc (foldl upd c qs) \<and> pend (foldl upd c ps) = pend (foldl upd c qs)"
  by (simp add: stream)

end

end
