(* ===== verification/Poly1305.thy ===== *)
theory Poly1305
  imports Block_Stream
begin

text \<open>
  Poly1305: the message authentication code of \<^verbatim>\<open>src/kernel-core/src/crypto/poly1305.rs\<close>, with key and
  accumulator in five limbs of 26 bits held in 64-bit words. Arithmetic on the words is the
  wrapping one; that nothing wraps is part of the correctness proof in \<open>Poly1305_Correct\<close>.
\<close>

section \<open>Definitions\<close>

record poly1305 =
  po_r :: "u64 list"
  po_r5 :: "u64 list"
  po_h :: "u64 list"
  po_s :: "u32 list"
  po_buffer :: "u8 list"
  po_len :: nat

definition M26 :: u64 where "M26 = 0x3FFFFFF"

text \<open>\<^verbatim>\<open>u32::from_le_bytes\<close> of the four bytes at an offset.\<close>

definition word_at :: "nat \<Rightarrow> u8 list \<Rightarrow> u32" where
  "word_at off bs = of_le_bytes (slice off 4 bs)"

definition poly_new :: "u8 list \<Rightarrow> poly1305" where
  "poly_new key =
     (let r0 = word_at 0 key AND 0x0FFFFFFF;
          r1 = word_at 4 key AND 0x0FFFFFFC;
          r2 = word_at 8 key AND 0x0FFFFFFC;
          r3 = word_at 12 key AND 0x0FFFFFFC;
          lr0 = ucast (r0 AND 0x3FFFFFF) :: u64;
          lr1 = ucast ((drop_bit 26 r0 OR push_bit 6 r1) AND 0x3FFFFFF) :: u64;
          lr2 = ucast ((drop_bit 20 r1 OR push_bit 12 r2) AND 0x3FFFFFF) :: u64;
          lr3 = ucast ((drop_bit 14 r2 OR push_bit 18 r3) AND 0x3FFFFFF) :: u64;
          lr4 = ucast (drop_bit 8 r3 AND 0x3FFFFFF) :: u64
      in \<lparr>po_r = [lr0, lr1, lr2, lr3, lr4], po_r5 = [lr1 * 5, lr2 * 5, lr3 * 5, lr4 * 5],
          po_h = [0, 0, 0, 0, 0], po_s = [word_at 16 key, word_at 20 key, word_at 24 key, word_at 28 key],
          po_buffer = replicate 16 0, po_len = 0\<rparr>)"

text \<open>The three parts of \<^verbatim>\<open>absorb_block\<close>: add the block, multiply by \<open>r\<close>, propagate the carries.\<close>

definition add_block :: "u64 list \<Rightarrow> u8 list \<Rightarrow> u8 \<Rightarrow> u64 list" where
  "add_block h block pad_byte =
     (let m0 = word_at 0 block; m1 = word_at 4 block; m2 = word_at 8 block; m3 = word_at 12 block
      in [h ! 0 + ucast (m0 AND 0x3FFFFFF),
          h ! 1 + (ucast (drop_bit 26 m0 OR push_bit 6 m1) AND M26),
          h ! 2 + (ucast (drop_bit 20 m1 OR push_bit 12 m2) AND M26),
          h ! 3 + (ucast (drop_bit 14 m2 OR push_bit 18 m3) AND M26),
          h ! 4 + (ucast (drop_bit 8 m3) OR push_bit 24 (ucast pad_byte))])"

definition mul_r :: "u64 list \<Rightarrow> u64 list \<Rightarrow> u64 list \<Rightarrow> u64 list" where
  "mul_r r s h =
     [h ! 0 * r ! 0 + h ! 1 * s ! 3 + h ! 2 * s ! 2 + h ! 3 * s ! 1 + h ! 4 * s ! 0,
      h ! 0 * r ! 1 + h ! 1 * r ! 0 + h ! 2 * s ! 3 + h ! 3 * s ! 2 + h ! 4 * s ! 1,
      h ! 0 * r ! 2 + h ! 1 * r ! 1 + h ! 2 * r ! 0 + h ! 3 * s ! 3 + h ! 4 * s ! 2,
      h ! 0 * r ! 3 + h ! 1 * r ! 2 + h ! 2 * r ! 1 + h ! 3 * r ! 0 + h ! 4 * s ! 3,
      h ! 0 * r ! 4 + h ! 1 * r ! 3 + h ! 2 * r ! 2 + h ! 3 * r ! 1 + h ! 4 * r ! 0]"

definition carry_limbs :: "u64 list \<Rightarrow> u64 list" where
  "carry_limbs d =
     (let h0 = d ! 0 AND M26; c = drop_bit 26 (d ! 0);
          d1 = d ! 1 + c; h1 = d1 AND M26; c = drop_bit 26 d1;
          d2 = d ! 2 + c; h2 = d2 AND M26; c = drop_bit 26 d2;
          d3 = d ! 3 + c; h3 = d3 AND M26; c = drop_bit 26 d3;
          d4 = d ! 4 + c; h4 = d4 AND M26; c = drop_bit 26 d4;
          h0 = h0 + c * 5;
          h1 = h1 + drop_bit 26 h0;
          h0 = h0 AND M26
      in [h0, h1, h2, h3, h4])"

definition absorb_block :: "poly1305 \<Rightarrow> u8 list \<Rightarrow> u8 \<Rightarrow> poly1305" where
  "absorb_block p block pad_byte =
     p\<lparr>po_h := carry_limbs (mul_r (po_r p) (po_r5 p) (add_block (po_h p) block pad_byte))\<rparr>"

text \<open>\<^verbatim>\<open>update\<close>: fill a partial block, absorb whole blocks, keep the rest.\<close>

definition poly_top_up :: "poly1305 \<Rightarrow> u8 list \<Rightarrow> poly1305 \<times> u8 list" where
  "poly_top_up p data =
     (if po_len p > 0
      then let n = min (16 - po_len p) (length data);
               p = p\<lparr>po_buffer := copy_into (po_len p) (take n data) (po_buffer p), po_len := po_len p + n\<rparr>;
               p = (if po_len p = 16 then (absorb_block p (po_buffer p) 1)\<lparr>po_len := 0\<rparr> else p)
           in (p, drop n data)
      else (p, data))"

function poly_blocks :: "poly1305 \<Rightarrow> u8 list \<Rightarrow> poly1305 \<times> u8 list" where
  "poly_blocks p data =
     (if length data \<ge> 16 then poly_blocks (absorb_block p (take 16 data) 1) (drop 16 data) else (p, data))"
  by pat_completeness auto
termination
  by (relation "measure (\<lambda>(p, data). length data)") auto

declare poly_blocks.simps [simp del]

definition poly_update :: "poly1305 \<Rightarrow> u8 list \<Rightarrow> poly1305" where
  "poly_update p data =
     (let (p, data) = poly_top_up p data;
          (p, data) = poly_blocks p data
      in if data \<noteq> [] then p\<lparr>po_buffer := copy_into 0 data (po_buffer p), po_len := length data\<rparr> else p)"

text \<open>The parts of \<^verbatim>\<open>finalize\<close>: the last partial block, the carries, the strong reduction, the sum with \<open>s\<close>.\<close>

definition flush_partial :: "poly1305 \<Rightarrow> poly1305" where
  "flush_partial p =
     (if po_len p > 0
      then let buf = (po_buffer p)[po_len p := 1];
               buf = foldl (\<lambda>b i. b[i := 0]) buf [po_len p + 1..<16]
           in absorb_block (p\<lparr>po_buffer := buf\<rparr>) buf 0
      else p)"

definition final_carry :: "u64 list \<Rightarrow> u64 list" where
  "final_carry h =
     (let h0 = h ! 0;
          h1 = h ! 1 + drop_bit 26 h0; h0 = h0 AND M26;
          h2 = h ! 2 + drop_bit 26 h1; h1 = h1 AND M26;
          h3 = h ! 3 + drop_bit 26 h2; h2 = h2 AND M26;
          h4 = h ! 4 + drop_bit 26 h3; h3 = h3 AND M26;
          h0 = h0 + 5 * drop_bit 26 h4;
          h4 = h4 AND M26;
          h1 = h1 + drop_bit 26 h0; h0 = h0 AND M26
      in [h0, h1, h2, h3, h4])"

definition strong_reduce :: "u64 list \<Rightarrow> u64 list" where
  "strong_reduce h =
     (let g0 = h ! 0 + 5;
          g1 = h ! 1 + drop_bit 26 g0;
          g2 = h ! 2 + drop_bit 26 g1;
          g3 = h ! 3 + drop_bit 26 g2;
          g4 = h ! 4 + drop_bit 26 g3 - push_bit 26 1;
          g0 = g0 AND M26; g1 = g1 AND M26; g2 = g2 AND M26; g3 = g3 AND M26;
          m = drop_bit 63 g4 - 1
      in [(h ! 0 AND NOT m) OR (g0 AND m), (h ! 1 AND NOT m) OR (g1 AND m), (h ! 2 AND NOT m) OR (g2 AND m),
          (h ! 3 AND NOT m) OR (g3 AND m), (h ! 4 AND NOT m) OR (g4 AND m)])"

definition pack_limbs :: "u64 list \<Rightarrow> u32 list" where
  "pack_limbs h =
     [ucast (h ! 0 OR push_bit 26 (h ! 1)),
      ucast (drop_bit 6 (h ! 1) OR push_bit 20 (h ! 2)),
      ucast (drop_bit 12 (h ! 2) OR push_bit 14 (h ! 3)),
      ucast (drop_bit 18 (h ! 3) OR push_bit 8 (h ! 4))]"

definition add_s :: "u32 list \<Rightarrow> u32 list \<Rightarrow> u32 list" where
  "add_s h s =
     (let f = ucast (h ! 0) + ucast (s ! 0) :: u64; t0 = ucast f;
          f = ucast (h ! 1) + ucast (s ! 1) + drop_bit 32 f; t1 = ucast f;
          f = ucast (h ! 2) + ucast (s ! 2) + drop_bit 32 f; t2 = ucast f;
          f = ucast (h ! 3) + ucast (s ! 3) + drop_bit 32 f; t3 = ucast f
      in [t0, t1, t2, t3])"

definition poly_finalize :: "poly1305 \<Rightarrow> u8 list" where
  "poly_finalize p =
     (let p = flush_partial p
      in concat (map (le_bytes 4) (add_s (pack_limbs (strong_reduce (final_carry (po_h p)))) (po_s p))))"

definition poly1305_mac :: "u8 list \<Rightarrow> u8 list \<Rightarrow> u8 list" where
  "poly1305_mac key message = poly_finalize (poly_update (poly_new key) message)"

section \<open>The code as a stream of blocks\<close>

definition po_wf :: "poly1305 \<Rightarrow> bool" where
  "po_wf p \<longleftrightarrow> length (po_buffer p) = 16 \<and> po_len p < 16"

definition po_pend :: "poly1305 \<Rightarrow> u8 list" where
  "po_pend p = take (po_len p) (po_buffer p)"

definition po_acc :: "poly1305 \<Rightarrow> u64 list \<times> u64 list \<times> u32 list \<times> u64 list" where
  "po_acc p = (po_r p, po_r5 p, po_s p, po_h p)"

definition absorb_acc :: "u64 list \<times> u64 list \<times> u32 list \<times> u64 list \<Rightarrow> u8 list \<Rightarrow> u64 list \<times> u64 list \<times> u32 list \<times> u64 list" where
  "absorb_acc = (\<lambda>(r, r5, s, h) b. (r, r5, s, carry_limbs (mul_r r r5 (add_block h b 1))))"

lemma absorb_simps [simp]:
  "po_acc (absorb_block p b 1) = absorb_acc (po_acc p) b" "po_buffer (absorb_block p b x) = po_buffer p" "po_len (absorb_block p b x) = po_len p"
  "po_acc (p\<lparr>po_buffer := y\<rparr>) = po_acc p" "po_acc (p\<lparr>po_len := n\<rparr>) = po_acc p"
  by (simp_all add: absorb_block_def po_acc_def absorb_acc_def)

lemma poly_blocks_effect:
  "snd (poly_blocks p data) = rest_of 16 16 data \<and> po_acc (fst (poly_blocks p data)) = foldl absorb_acc (po_acc p) (blocks_of 16 16 data)
   \<and> po_buffer (fst (poly_blocks p data)) = po_buffer p \<and> po_len (fst (poly_blocks p data)) = po_len p"
proof (induction p data rule: poly_blocks.induct)
  case (1 p data)
  show ?case
  proof (cases "16 \<le> length data")
    case True
    then show ?thesis using 1 by (subst poly_blocks.simps) (simp add: cut_long poly_blocks.simps [of p data])
  qed (subst poly_blocks.simps, simp add: poly_blocks.simps [of p data])
qed

lemma poly_update_effect:
  assumes wf: "po_wf p"
  shows "po_wf (poly_update p data)" and "po_pend (poly_update p data) = rest_of 16 16 (po_pend p @ data)"
    and "po_acc (poly_update p data) = foldl absorb_acc (po_acc p) (blocks_of 16 16 (po_pend p @ data))"
proof -
  have len: "length (po_buffer p) = 16" "po_len p < 16" using wf by (simp_all add: po_wf_def)
  have pl: "length (po_pend p) = po_len p" using len by (simp add: po_pend_def)
  text \<open>Stashing what is left of \<open>d\<close> when the buffer is empty.\<close>
  have stash: "po_wf u \<and> po_pend u = rest_of 16 16 d \<and> po_acc u = foldl absorb_acc (po_acc g) (blocks_of 16 16 d)"
    if g: "length (po_buffer g) = 16" "po_len g = 0"
      and u: "u = (case poly_blocks g d of (g, d) \<Rightarrow> if d \<noteq> [] then g\<lparr>po_buffer := copy_into 0 d (po_buffer g), po_len := length d\<rparr> else g)"
    for g d u
    using g u poly_blocks_effect [of g d] left_length [of 16 16 d]
    by (auto simp: po_wf_def po_pend_def copy_into_def split: prod.splits)
  have "po_wf (poly_update p data) \<and> po_pend (poly_update p data) = rest_of 16 16 (po_pend p @ data)
    \<and> po_acc (poly_update p data) = foldl absorb_acc (po_acc p) (blocks_of 16 16 (po_pend p @ data))"
  proof (cases "po_len p = 0")
    case True
    then show ?thesis using stash [OF len(1) True, of "poly_update p data" data] by (simp add: poly_update_def poly_top_up_def po_pend_def)
  next
    case False
    show ?thesis
    proof (cases "16 \<le> po_len p + length data")
      case True
      define n where "n = 16 - po_len p"
      have n: "min (16 - po_len p) (length data) = n" "po_len p + n = 16" "n \<le> length data" using True len(2) by (auto simp: n_def)
      have buf: "copy_into (po_len p) (take n data) (po_buffer p) = po_pend p @ take n data" using n len by (simp add: copy_into_def po_pend_def)
      define g where "g = (absorb_block (p\<lparr>po_buffer := po_pend p @ take n data, po_len := 16\<rparr>) (po_pend p @ take n data) 1)\<lparr>po_len := 0\<rparr>"
      have top: "poly_top_up p data = (g, drop n data)" using False n buf by (simp add: poly_top_up_def Let_def g_def)
      have bl: "length (po_pend p @ take n data) = 16" using n pl by simp
      have "blocks_of 16 16 (po_pend p @ data) = (po_pend p @ take n data) # blocks_of 16 16 (drop n data)"
        "rest_of 16 16 (po_pend p @ data) = rest_of 16 16 (drop n data)"
        using cut_block [OF bl, of 16 "drop n data"] by simp_all
      then show ?thesis using stash [of g "poly_update p data" "drop n data"] bl top by (simp add: poly_update_def g_def)
    next
      case short: False
      have top: "poly_top_up p data = (p\<lparr>po_buffer := po_pend p @ data @ drop (po_len p + length data) (po_buffer p), po_len := po_len p + length data\<rparr>, [])"
        using False short by (simp add: poly_top_up_def Let_def copy_into_def po_pend_def)
      have "poly_blocks q [] = (q, [])" for q by (subst poly_blocks.simps) simp
      then show ?thesis using top short len pl by (simp add: poly_update_def po_wf_def po_pend_def)
    qed
  qed
  then show "po_wf (poly_update p data)" "po_pend (poly_update p data) = rest_of 16 16 (po_pend p @ data)"
    "po_acc (poly_update p data) = foldl absorb_acc (po_acc p) (blocks_of 16 16 (po_pend p @ data))" by simp_all
qed

interpretation poly: block_stream 16 16 po_wf po_acc po_pend poly_update absorb_acc
  by unfold_locales (simp_all add: poly_update_effect, simp add: po_wf_def po_pend_def)

end
