(* ===== verification/Poly1305_Correct.thy ===== *)
theory Poly1305_Correct
  imports Poly1305
begin

text \<open>
  Correctness of Poly1305: the five-limb arithmetic computes the polynomial of RFC 8439 over the integers
  modulo \<open>2 ^ 130 - 5\<close>. The words are read as natural numbers; every sum and product is shown to stay
  below \<open>2 ^ 64\<close>, so the wrapping operations of the model are the exact ones (and the unchecked \<open>+\<close> and
  \<open>*\<close> of the source cannot overflow).
\<close>

section \<open>Byte strings and words as numbers\<close>

primrec le_num :: "u8 list \<Rightarrow> nat" where
  "le_num [] = 0"
| "le_num (b # bs) = unat b + 256 * le_num bs"

primrec num_bytes :: "nat \<Rightarrow> nat \<Rightarrow> u8 list" where
  "num_bytes 0 x = []"
| "num_bytes (Suc n) x = of_nat x # num_bytes n (x div 256)"

lemma le_num_append: "le_num (xs @ ys) = le_num xs + 256 ^ length xs * le_num ys"
  by (induction xs) (simp_all add: algebra_simps)

lemma le_num_less: "le_num bs < 256 ^ length bs"
proof (induction bs)
  case (Cons b bs)
  have "unat b < 256" using unsigned_less [of b] by simp
  then show ?case using Cons by simp
qed simp

lemma num_bytes_le_num: "num_bytes (length bs) (le_num bs) = bs"
proof (induction bs)
  case (Cons b bs)
  have b: "unat b < 256" using unsigned_less [of b] by simp
  have "(of_nat (unat b + 256 * le_num bs) :: u8) = of_nat (unat b) + of_nat 256 * of_nat (le_num bs)" by (simp only: of_nat_add of_nat_mult)
  also have "(of_nat 256 :: u8) = 0" by simp
  finally have "(of_nat (unat b + 256 * le_num bs) :: u8) = b" by simp
  moreover have "(unat b + 256 * le_num bs) div 256 = le_num bs" using b by simp
  ultimately show ?case using Cons by simp
qed simp

lemma unat_or_disjoint:
  fixes a b :: "'a::len word"
  assumes "unat a < 2 ^ s" and "2 ^ s dvd unat b"
  shows "unat (a OR b) = unat a + unat b"
proof -
  have "\<not> bit (unat a) n \<or> \<not> bit (unat b) n" for n
  proof (cases "n < s")
    case True
    obtain c where "unat b = 2 ^ s * c" using assms(2) by blast
    then have "unat b = push_bit s c" by (simp add: push_bit_eq_mult mult.commute)
    then show ?thesis using True by (simp add: bit_push_bit_iff)
  next
    case False
    have "take_bit s (unat a) = unat a" using assms(1) by (simp add: take_bit_nat_eq_self)
    then show ?thesis using False by (metis bit_take_bit_iff)
  qed
  then have "unat a + unat b = unat a OR unat b" by (rule disjunctive_add)
  then show ?thesis by (simp add: unsigned_or_eq)
qed

lemma unat_shr: "unat (drop_bit n w) = unat w div 2 ^ n" for w :: "'a::len word"
  unfolding unat_drop_bit_eq by (rule drop_bit_eq_div)

lemma unat_shl: "unat (push_bit n w) = (2 ^ n * unat w) mod 2 ^ LENGTH('a)" for w :: "'a::len word"
  unfolding unsigned_push_bit_eq take_bit_eq_mod [of _ "push_bit n (unat w)"] by (simp only: push_bit_eq_mult mult.commute)

lemma unat_low: "unat (take_bit n w) = unat w mod 2 ^ n" for w :: "'a::len word"
  unfolding unsigned_take_bit_eq by (rule take_bit_eq_mod)

lemma unat_low26: "unat (w AND M26) = unat w mod 2 ^ 26"
proof -
  have "M26 = mask 26" by (simp add: M26_def mask_eq_exp_minus_1)
  then have "w AND M26 = take_bit 26 w" by (simp only: take_bit_eq_mask)
  then show ?thesis by (simp only: unat_low)
qed

lemma unat_low26_32: "unat (w AND 0x3FFFFFF) = unat w mod 2 ^ 26" for w :: u32
proof -
  have "(0x3FFFFFF :: u32) = mask 26" by (simp add: mask_eq_exp_minus_1)
  then have "w AND 0x3FFFFFF = take_bit 26 w" by (simp only: take_bit_eq_mask)
  then show ?thesis by (simp only: unat_low)
qed

lemma unat_ucast_wide: "LENGTH('a) \<le> LENGTH('b) \<Longrightarrow> unat (ucast w :: 'b::len word) = unat w" for w :: "'a::len word"
  by (simp add: unsigned_ucast_eq take_bit_nat_eq_self order.strict_trans2 [OF unsigned_less])

lemma unat_u64_of_u32 [simp]: "unat (ucast w :: u64) = unat w" for w :: u32
  by (simp add: unat_ucast_wide)

lemma unat_add64: "unat a + unat b < 2 ^ 64 \<Longrightarrow> unat (a + b) = unat a + unat b" for a b :: u64
  by (simp add: unat_word_ariths)

lemma unat_mult64: "unat a * unat b < 2 ^ 64 \<Longrightarrow> unat (a * b) = unat a * unat b" for a b :: u64
  by (simp add: unat_word_ariths)

lemma unat_of_le: "length bs \<le> 4 \<Longrightarrow> unat (of_le_bytes bs :: u32) = le_num bs"
proof (induction bs)
  case (Cons b bs)
  have "le_num bs < 256 ^ length bs" by (rule le_num_less)
  also have "\<dots> \<le> 256 ^ 3" using Cons.prems by (intro power_increasing) simp_all
  finally have l: "le_num bs < 2 ^ 24" by simp
  have s: "unat (push_bit 8 (of_le_bytes bs) :: u32) = 256 * le_num bs" using Cons l by (simp add: unat_shl)
  have c: "unat (ucast b :: u32) = unat b" by (simp add: unat_ucast_wide)
  have "unat (ucast b :: u32) < 2 ^ 8" using unsigned_less [of b] by (simp add: c)
  then have "unat (ucast b OR push_bit 8 (of_le_bytes bs) :: u32) = unat b + 256 * le_num bs"
    using unat_or_disjoint [of "ucast b :: u32" 8 "push_bit 8 (of_le_bytes bs)"] s c by simp
  then show ?case by simp
qed simp

lemma unat_word_at: "unat (word_at off bs) = le_num (take 4 (drop off bs))"
  by (simp add: word_at_def slice_def unat_of_le)

lemma le_num_take: "le_num (take (n + m) xs) = le_num (take n xs) + 256 ^ n * le_num (take m (drop n xs))"
proof (cases "n \<le> length xs")
  case True
  then show ?thesis by (simp add: take_add le_num_append)
qed simp

lemma le_num_16:
  "le_num (take 16 xs) = unat (word_at 0 xs) + 2 ^ 32 * unat (word_at 4 xs) + 2 ^ 64 * unat (word_at 8 xs) + 2 ^ 96 * unat (word_at 12 xs)"
  using le_num_take [of 4 4 xs] le_num_take [of 8 4 xs] le_num_take [of 12 4 xs] by (simp add: unat_word_at)

section \<open>Limbs\<close>

definition P1305 :: nat where "P1305 = 2 ^ 130 - 5"

definition limb_val :: "u64 list \<Rightarrow> nat" where
  "limb_val h = unat (h ! 0) + 2 ^ 26 * unat (h ! 1) + 2 ^ 52 * unat (h ! 2) + 2 ^ 78 * unat (h ! 3) + 2 ^ 104 * unat (h ! 4)"

definition limbs_below :: "nat \<Rightarrow> u64 list \<Rightarrow> bool" where
  "limbs_below n h \<longleftrightarrow> length h = 5 \<and> (\<forall>i < 5. unat (h ! i) < n)"

lemma limbs_below_iff: "limbs_below n h \<longleftrightarrow> length h = 5 \<and> unat (h ! 0) < n \<and> unat (h ! 1) < n \<and> unat (h ! 2) < n \<and> unat (h ! 3) < n \<and> unat (h ! 4) < n"
  by (auto simp: limbs_below_def less_Suc_eq numeral_eq_Suc)

lemma u32_less: "unat w < 2 ^ 32" for w :: u32
  using unsigned_less [of w, where 'a = nat] by simp

lemma limb_join:
  assumes "k + s = 32" "s \<le> 26"
  shows "unat (drop_bit k a OR push_bit s b :: u32) mod 2 ^ 26 = unat a div 2 ^ k + 2 ^ s * (unat b mod 2 ^ (26 - s))"
proof -
  let ?x = "unat a div 2 ^ k"
  have "unat a < 2 ^ s * 2 ^ k" using unsigned_less [of a] assms(1) by (simp add: power_add [symmetric] add.commute)
  then have x: "?x < 2 ^ s" by (simp add: less_mult_imp_div_less)
  have d: "(2::nat) ^ s dvd (2 ^ s * unat b) mod 2 ^ 32" using assms(1) le_imp_power_dvd [of s 32 "2::nat"] by (intro dvd_mod) simp_all
  have "unat (drop_bit k a OR push_bit s b) = ?x + (2 ^ s * unat b) mod 2 ^ 32"
    using unat_or_disjoint [of "drop_bit k a" s "push_bit s b"] x d by (simp only: unat_shr unat_shl) simp
  also have "\<dots> mod 2 ^ 26 = (?x + (2 ^ s * unat b) mod 2 ^ 32 mod 2 ^ 26) mod 2 ^ 26" by (simp only: mod_add_right_eq)
  also have "\<dots> = (?x + 2 ^ s * unat b) mod 2 ^ 26" using mod_mod_cancel [of "2 ^ 26" "2 ^ 32" "2 ^ s * unat b"] by (simp add: mod_add_right_eq)
  also have "\<dots> = (?x + 2 ^ s * unat b) mod (2 ^ s * 2 ^ (26 - s))" using assms(2) by (simp add: power_add [symmetric])
  also have "\<dots> = 2 ^ s * (unat b mod 2 ^ (26 - s)) + ?x"
    using x by (simp add: mod_mult2_eq)
  finally show ?thesis by simp
qed

lemma limbs_sum:
  "m0 mod 2 ^ 26 + 2 ^ 26 * (m0 div 2 ^ 26 + 2 ^ 6 * (m1 mod 2 ^ 20)) + 2 ^ 52 * (m1 div 2 ^ 20 + 2 ^ 12 * (m2 mod 2 ^ 14))
   + 2 ^ 78 * (m2 div 2 ^ 14 + 2 ^ 18 * (m3 mod 2 ^ 8)) + 2 ^ 104 * (m3 div 2 ^ 8)
   = m0 + 2 ^ 32 * m1 + 2 ^ 64 * m2 + 2 ^ 96 * m3" for m0 m1 m2 m3 :: nat
proof -
  have "r0 + 2 ^ 26 * (q0 + 2 ^ 6 * r1) + 2 ^ 52 * (q1 + 2 ^ 12 * r2) + 2 ^ 78 * (q2 + 2 ^ 18 * r3) + 2 ^ 104 * q3
    = (q0 * 2 ^ 26 + r0) + 2 ^ 32 * (q1 * 2 ^ 20 + r1) + 2 ^ 64 * (q2 * 2 ^ 14 + r2) + 2 ^ 96 * (q3 * 2 ^ 8 + r3)"
    for q0 r0 q1 r1 q2 r2 q3 r3 :: nat by (simp add: algebra_simps)
  from this [of "m0 mod 2 ^ 26" "m0 div 2 ^ 26" "m1 mod 2 ^ 20" "m1 div 2 ^ 20" "m2 mod 2 ^ 14" "m2 div 2 ^ 14" "m3 mod 2 ^ 8" "m3 div 2 ^ 8"]
  show ?thesis by (simp only: div_mult_mod_eq)
qed

lemma add_block_val:
  assumes h: "limbs_below (2 ^ 27) h" and pad: "unat pad \<le> 1"
  shows "limb_val (add_block h b pad) = limb_val h + le_num (take 16 b) + 2 ^ 128 * unat pad \<and> limbs_below (2 ^ 28) (add_block h b pad)"
proof -
  let ?m = "\<lambda>i. unat (word_at i b)"
  have m3: "?m 12 div 2 ^ 8 < 2 ^ 24" using u32_less [of "word_at 12 b"] by (simp add: less_mult_imp_div_less)
  have p: "unat (push_bit 24 (ucast pad :: u64)) = 2 ^ 24 * unat pad" using pad by (simp add: unat_shl unat_ucast_wide)
  have e: "unat (ucast (word_at 0 b AND 0x3FFFFFF) :: u64) = ?m 0 mod 2 ^ 26"
    "unat (ucast (drop_bit 26 (word_at 0 b) OR push_bit 6 (word_at 4 b)) AND M26) = ?m 0 div 2 ^ 26 + 2 ^ 6 * (?m 4 mod 2 ^ 20)"
    "unat (ucast (drop_bit 20 (word_at 4 b) OR push_bit 12 (word_at 8 b)) AND M26) = ?m 4 div 2 ^ 20 + 2 ^ 12 * (?m 8 mod 2 ^ 14)"
    "unat (ucast (drop_bit 14 (word_at 8 b) OR push_bit 18 (word_at 12 b)) AND M26) = ?m 8 div 2 ^ 14 + 2 ^ 18 * (?m 12 mod 2 ^ 8)"
    using limb_join [of 26 6 "word_at 0 b" "word_at 4 b"] limb_join [of 20 12 "word_at 4 b" "word_at 8 b"] limb_join [of 14 18 "word_at 8 b" "word_at 12 b"]
    by (simp_all only: unat_low26 unat_low26_32 unat_u64_of_u32) simp_all
  have e4: "unat (ucast (drop_bit 8 (word_at 12 b)) OR push_bit 24 (ucast pad) :: u64) = ?m 12 div 2 ^ 8 + 2 ^ 24 * unat pad"
    using unat_or_disjoint [of "ucast (drop_bit 8 (word_at 12 b)) :: u64" 24 "push_bit 24 (ucast pad)"] m3 p by (simp only: unat_u64_of_u32 unat_shr) simp
  have lt: "unat (x AND M26) < 2 ^ 26" for x by (simp add: unat_low26)
  have lt0: "unat (ucast (word_at 0 b AND 0x3FFFFFF) :: u64) < 2 ^ 26" unfolding e by simp
  have lt4: "unat (ucast (drop_bit 8 (word_at 12 b)) OR push_bit 24 (ucast pad) :: u64) < 2 ^ 26" using m3 pad by (simp add: e4)
  have plus: "unat (x + y) = unat x + unat y" "unat x + unat y < 2 ^ 28" if "unat x < 2 ^ 27" "unat y < 2 ^ 26" for x y :: u64
    using that by (auto intro: unat_add64)
  have n: "unat (h ! 0) < 2 ^ 27" "unat (h ! 1) < 2 ^ 27" "unat (h ! 2) < 2 ^ 27" "unat (h ! 3) < 2 ^ 27" "unat (h ! 4) < 2 ^ 27"
    using h by (simp_all add: limbs_below_iff)
  note sums = plus [OF n(1) lt0] plus [OF n(2) lt] plus [OF n(3) lt] plus [OF n(4) lt] plus [OF n(5) lt4]
  have b: "limbs_below (2 ^ 28) (add_block h b pad)" using sums by (simp add: limbs_below_iff add_block_def Let_def)
  have "limb_val (add_block h b pad) = limb_val h + (?m 0 mod 2 ^ 26 + 2 ^ 26 * (?m 0 div 2 ^ 26 + 2 ^ 6 * (?m 4 mod 2 ^ 20))
      + 2 ^ 52 * (?m 4 div 2 ^ 20 + 2 ^ 12 * (?m 8 mod 2 ^ 14)) + 2 ^ 78 * (?m 8 div 2 ^ 14 + 2 ^ 18 * (?m 12 mod 2 ^ 8)) + 2 ^ 104 * (?m 12 div 2 ^ 8))
      + 2 ^ 128 * unat pad"
    unfolding limb_val_def add_block_def Let_def by (simp add: sums [unfolded One_nat_def] e e4 unat_low26_32 algebra_simps)
  then show ?thesis using b by (simp only: limbs_sum le_num_16)
qed

section \<open>Multiplication and carries\<close>

lemma dot5:
  fixes a0 a1 a2 a3 a4 b0 b1 b2 b3 b4 :: u64
  assumes "unat a0 < 2 ^ 28" "unat a1 < 2 ^ 28" "unat a2 < 2 ^ 28" "unat a3 < 2 ^ 28" "unat a4 < 2 ^ 28"
    and "unat b0 < 5 * 2 ^ 26" "unat b1 < 5 * 2 ^ 26" "unat b2 < 5 * 2 ^ 26" "unat b3 < 5 * 2 ^ 26" "unat b4 < 5 * 2 ^ 26"
  shows "unat (a0 * b0 + a1 * b1 + a2 * b2 + a3 * b3 + a4 * b4)
      = unat a0 * unat b0 + unat a1 * unat b1 + unat a2 * unat b2 + unat a3 * unat b3 + unat a4 * unat b4"
    and "unat a0 * unat b0 + unat a1 * unat b1 + unat a2 * unat b2 + unat a3 * unat b3 + unat a4 * unat b4 < 2 ^ 59"
proof -
  have p: "unat a * unat b < 5 * 2 ^ 54" if "unat a < 2 ^ 28" "unat b < 5 * 2 ^ 26" for a b :: u64
    using mult_strict_mono [OF that] by simp
  note ps = p [OF assms(1,6)] p [OF assms(2,7)] p [OF assms(3,8)] p [OF assms(4,9)] p [OF assms(5,10)]
  then show lt: "unat a0 * unat b0 + unat a1 * unat b1 + unat a2 * unat b2 + unat a3 * unat b3 + unat a4 * unat b4 < 2 ^ 59" by simp
  then show "unat (a0 * b0 + a1 * b1 + a2 * b2 + a3 * b3 + a4 * b4)
      = unat a0 * unat b0 + unat a1 * unat b1 + unat a2 * unat b2 + unat a3 * unat b3 + unat a4 * unat b4"
    using ps by (simp add: unat_add64 unat_mult64)
qed

text \<open>The schoolbook product in base \<open>B\<close>, with the columns beyond the fifth folded back by \<open>B ^ 5 = p + 5\<close>.\<close>

lemma fold_product:
  fixes B p :: nat
  assumes "B ^ 5 = p + 5"
  shows "(h0 * r0 + h1 * (5 * r4) + h2 * (5 * r3) + h3 * (5 * r2) + h4 * (5 * r1))
    + B * (h0 * r1 + h1 * r0 + h2 * (5 * r4) + h3 * (5 * r3) + h4 * (5 * r2))
    + B ^ 2 * (h0 * r2 + h1 * r1 + h2 * r0 + h3 * (5 * r4) + h4 * (5 * r3))
    + B ^ 3 * (h0 * r3 + h1 * r2 + h2 * r1 + h3 * r0 + h4 * (5 * r4))
    + B ^ 4 * (h0 * r4 + h1 * r3 + h2 * r2 + h3 * r1 + h4 * r0)
    + p * (h1 * r4 + h2 * r3 + h3 * r2 + h4 * r1 + B * (h2 * r4 + h3 * r3 + h4 * r2) + B ^ 2 * (h3 * r4 + h4 * r3) + B ^ 3 * (h4 * r4))
    = (h0 + B * h1 + B ^ 2 * h2 + B ^ 3 * h3 + B ^ 4 * h4) * (r0 + B * r1 + B ^ 2 * r2 + B ^ 3 * r3 + B ^ 4 * r4)"
    (is "?d + p * ?q = ?rhs")
proof -
  have "?d + p * ?q = (h0 * r0) + B * (h0 * r1 + h1 * r0) + B ^ 2 * (h0 * r2 + h1 * r1 + h2 * r0)
      + B ^ 3 * (h0 * r3 + h1 * r2 + h2 * r1 + h3 * r0) + B ^ 4 * (h0 * r4 + h1 * r3 + h2 * r2 + h3 * r1 + h4 * r0) + (p + 5) * ?q"
    by (simp add: algebra_simps)
  also have "\<dots> = ?rhs" unfolding assms [symmetric] by (simp add: algebra_simps numeral_eq_Suc)
  finally show ?thesis .
qed

lemma limb_val_base: "limb_val h = unat (h ! 0) + 2 ^ 26 * unat (h ! 1) + (2 ^ 26) ^ 2 * unat (h ! 2) + (2 ^ 26) ^ 3 * unat (h ! 3) + (2 ^ 26) ^ 4 * unat (h ! 4)"
  by (simp add: limb_val_def)

lemma limb_val_list: "limb_val [a, b, c, d, e] = unat a + 2 ^ 26 * unat b + (2 ^ 26) ^ 2 * unat c + (2 ^ 26) ^ 3 * unat d + (2 ^ 26) ^ 4 * unat e"
  by (simp add: limb_val_def)

lemma P1305_base: "(2 ^ 26) ^ 5 = P1305 + 5"
  by (simp add: P1305_def)

definition fives :: "u64 list \<Rightarrow> u64 list \<Rightarrow> bool" where
  "fives s r \<longleftrightarrow> (\<forall>i < 4. unat (s ! i) = 5 * unat (r ! Suc i))"

lemma mul_r_val:
  assumes h: "limbs_below (2 ^ 28) h" and r: "limbs_below (2 ^ 26) r" and s: "fives s r"
  shows "limb_val (mul_r r s h) mod P1305 = (limb_val h * limb_val r) mod P1305 \<and> limbs_below (2 ^ 59) (mul_r r s h)"
proof -
  have s4: "unat (s ! 0) = 5 * unat (r ! 1)" "unat (s ! 1) = 5 * unat (r ! 2)" "unat (s ! 2) = 5 * unat (r ! 3)" "unat (s ! 3) = 5 * unat (r ! 4)"
    using s by (simp_all add: fives_def numeral_eq_Suc)
  have hb: "unat (h ! 0) < 2 ^ 28" "unat (h ! 1) < 2 ^ 28" "unat (h ! 2) < 2 ^ 28" "unat (h ! 3) < 2 ^ 28" "unat (h ! 4) < 2 ^ 28"
    using h by (simp_all add: limbs_below_iff)
  have rb: "unat (r ! 0) < 5 * 2 ^ 26" "unat (r ! 1) < 5 * 2 ^ 26" "unat (r ! 2) < 5 * 2 ^ 26" "unat (r ! 3) < 5 * 2 ^ 26" "unat (r ! 4) < 5 * 2 ^ 26"
    using r by (simp_all add: limbs_below_iff)
  have sb: "unat (s ! 0) < 5 * 2 ^ 26" "unat (s ! 1) < 5 * 2 ^ 26" "unat (s ! 2) < 5 * 2 ^ 26" "unat (s ! 3) < 5 * 2 ^ 26"
    using r by (simp_all add: limbs_below_iff s4 [unfolded One_nat_def])
  note d = dot5 [OF hb rb(1) sb(4,3,2,1)] dot5 [OF hb rb(2,1) sb(4,3,2)] dot5 [OF hb rb(3,2,1) sb(4,3)] dot5 [OF hb rb(4,3,2,1) sb(4)] dot5 [OF hb rb(5,4,3,2,1)]
  have lt: "limbs_below (2 ^ 59) (mul_r r s h)" unfolding limbs_below_iff mul_r_def using d by simp
  have "\<exists>q. limb_val (mul_r r s h) + P1305 * q = limb_val h * limb_val r"
    unfolding limb_val_base [of h] limb_val_base [of r] fold_product [OF P1305_base, symmetric] mul_r_def limb_val_list d(1,3,5,7,9) s4
    by (rule exI) (rule refl)
  then show ?thesis using lt by (metis mod_mult_self2)
qed

text \<open>Carries in base \<open>B\<close>, the last one folded back.\<close>

lemma fold_carries:
  fixes B p :: nat
  assumes "B ^ 5 = p + 5" and "x0 = h0 + B * c0" "x1 + c0 = h1 + B * c1" "x2 + c1 = h2 + B * c2" "x3 + c2 = h3 + B * c3" "x4 + c3 = h4 + B * c4"
    and "h0 + 5 * c4 = g0 + B * c5"
  shows "g0 + B * (h1 + c5) + B ^ 2 * h2 + B ^ 3 * h3 + B ^ 4 * h4 + p * c4 = x0 + B * x1 + B ^ 2 * x2 + B ^ 3 * x3 + B ^ 4 * x4"
proof -
  have "g0 + B * (h1 + c5) + B ^ 2 * h2 + B ^ 3 * h3 + B ^ 4 * h4 + p * c4 = h0 + B * h1 + B ^ 2 * h2 + B ^ 3 * h3 + B ^ 4 * h4 + (p + 5) * c4"
    using assms(7) by (simp add: algebra_simps)
  also have "\<dots> = h0 + B * h1 + B ^ 2 * h2 + B ^ 3 * h3 + B ^ 4 * (h4 + B * c4)" unfolding assms(1) [symmetric] by (simp add: algebra_simps numeral_eq_Suc)
  also have "\<dots> = h0 + B * h1 + B ^ 2 * h2 + B ^ 3 * (h3 + B * c3) + B ^ 4 * x4" unfolding assms(6) [symmetric] by (simp add: algebra_simps numeral_eq_Suc)
  also have "\<dots> = h0 + B * h1 + B ^ 2 * (h2 + B * c2) + B ^ 3 * x3 + B ^ 4 * x4" unfolding assms(5) [symmetric] by (simp add: algebra_simps numeral_eq_Suc)
  also have "\<dots> = h0 + B * (h1 + B * c1) + B ^ 2 * x2 + B ^ 3 * x3 + B ^ 4 * x4" unfolding assms(4) [symmetric] by (simp add: algebra_simps numeral_eq_Suc)
  also have "\<dots> = (h0 + B * c0) + B * x1 + B ^ 2 * x2 + B ^ 3 * x3 + B ^ 4 * x4" unfolding assms(3) [symmetric] by (simp add: algebra_simps)
  finally show ?thesis unfolding assms(2) .
qed

lemma carry_step: "x = x mod 2 ^ 26 + 2 ^ 26 * (x div 2 ^ 26)" for x :: nat
  by simp

text \<open>
  One pass of carries, in natural numbers. It keeps the value modulo \<open>p\<close>, and of the result only the second
  limb may exceed 26 bits, by little; a second pass leaves no excess at all.
\<close>

definition carried :: "nat \<Rightarrow> nat \<Rightarrow> nat \<Rightarrow> nat \<Rightarrow> nat \<Rightarrow> nat list" where
  "carried x0 x1 x2 x3 x4 =
     (let B = 2 ^ 26; y1 = x1 + x0 div B; y2 = x2 + y1 div B; y3 = x3 + y2 div B; y4 = x4 + y3 div B; z = x0 mod B + 5 * (y4 div B)
      in [z mod B, y1 mod B + z div B, y2 mod B, y3 mod B, y4 mod B])"

definition weakly_reduced :: "u64 list \<Rightarrow> bool" where
  "weakly_reduced h \<longleftrightarrow> limbs_below (2 ^ 26 + 2 ^ 12) h \<and> unat (h ! 0) < 2 ^ 26 \<and> unat (h ! 2) < 2 ^ 26 \<and> unat (h ! 3) < 2 ^ 26 \<and> unat (h ! 4) < 2 ^ 26"

lemma carry_limbs_nat:
  assumes d: "limbs_below (2 ^ 59) d"
  shows "map unat (carry_limbs d) = carried (unat (d ! 0)) (unat (d ! 1)) (unat (d ! 2)) (unat (d ! 3)) (unat (d ! 4))"
    and "weakly_reduced (carry_limbs d)"
proof -
  have db: "unat (d ! 0) < 2 ^ 59" "unat (d ! 1) < 2 ^ 59" "unat (d ! 2) < 2 ^ 59" "unat (d ! 3) < 2 ^ 59" "unat (d ! 4) < 2 ^ 59"
    using d by (simp_all add: limbs_below_iff)
  have plus: "unat (x + drop_bit 26 y) = unat x + unat y div 2 ^ 26" "unat (x + drop_bit 26 y) < 2 ^ 60" if "unat x < 2 ^ 59" "unat y < 2 ^ 60" for x y :: u64
  proof -
    have "unat y div 2 ^ 26 < 2 ^ 34" using that(2) by (simp add: less_mult_imp_div_less)
    then show "unat (x + drop_bit 26 y) = unat x + unat y div 2 ^ 26" "unat (x + drop_bit 26 y) < 2 ^ 60"
      using that(1) unat_add64 [of x "drop_bit 26 y"] by (simp_all add: unat_shr)
  qed
  define w1 where "w1 = d ! 1 + drop_bit 26 (d ! 0)"
  define w2 where "w2 = d ! 2 + drop_bit 26 w1"
  define w3 where "w3 = d ! 3 + drop_bit 26 w2"
  define w4 where "w4 = d ! 4 + drop_bit 26 w3"
  define v where "v = (d ! 0 AND M26) + drop_bit 26 w4 * 5"
  define u where "u = (w1 AND M26) + drop_bit 26 v"
  have d0: "unat (d ! 0) < 2 ^ 60" using db(1) by simp
  note w1 = plus [OF db(2) d0, folded w1_def]
  note w2 = plus [OF db(3) w1(2), folded w2_def]
  note w3 = plus [OF db(4) w2(2), folded w3_def]
  note w4 = plus [OF db(5) w3(2), folded w4_def]
  have c4: "unat w4 div 2 ^ 26 < 2 ^ 34" using w4(2) by (simp add: less_mult_imp_div_less)
  have m: "unat x mod 2 ^ 26 < 2 ^ 26" for x :: u64 by simp
  have five: "unat (drop_bit 26 w4 * 5) = 5 * (unat w4 div 2 ^ 26)" using c4 unat_mult64 [of "drop_bit 26 w4" 5] by (simp add: unat_shr)
  have v: "unat v = unat (d ! 0) mod 2 ^ 26 + 5 * (unat w4 div 2 ^ 26)" "unat v < 2 ^ 37"
    using five c4 m [of "d ! 0"] unat_add64 [of "d ! 0 AND M26" "drop_bit 26 w4 * 5"] by (simp_all add: v_def unat_low26)
  have c5: "unat v div 2 ^ 26 < 2 ^ 11" using v(2) by (simp add: less_mult_imp_div_less)
  then have c5': "unat v div 2 ^ 26 < 2 ^ 12" by simp
  have u: "unat u = unat w1 mod 2 ^ 26 + unat v div 2 ^ 26"
    using c5 m [of w1] unat_add64 [of "w1 AND M26" "drop_bit 26 v"] by (simp add: u_def unat_low26 unat_shr)
  have eq: "carry_limbs d = [v AND M26, u, w2 AND M26, w3 AND M26, w4 AND M26]"
    by (simp add: carry_limbs_def Let_def u_def v_def w4_def w3_def w2_def w1_def)
  have low: "unat (x AND M26) < 67108864" "unat (x AND M26) < 67112960" for x using m [of x] trans_less_add1 [OF m, of x "2 ^ 12"] by (simp_all add: unat_low26)
  show "map unat (carry_limbs d) = carried (unat (d ! 0)) (unat (d ! 1)) (unat (d ! 2)) (unat (d ! 3)) (unat (d ! 4))"
    unfolding eq carried_def Let_def list.map unat_low26 u v(1) w4(1) w3(1) w2(1) w1(1) by (rule refl)
  show "weakly_reduced (carry_limbs d)"
    using add_strict_mono [OF m c5', of w1] by (simp add: eq weakly_reduced_def limbs_below_iff low u)
qed

lemma limb_val_map: "length h = 5 \<Longrightarrow> map unat h = [a, b, c, d, e] \<Longrightarrow> limb_val h = a + 2 ^ 26 * b + (2 ^ 26) ^ 2 * c + (2 ^ 26) ^ 3 * d + (2 ^ 26) ^ 4 * e"
  by (auto simp: limb_val_list)

lemma carry_limbs_val:
  assumes d: "limbs_below (2 ^ 59) d"
  shows "limb_val (carry_limbs d) mod P1305 = limb_val d mod P1305"
proof -
  note eq = carry_limbs_nat(1) [OF d, unfolded carried_def Let_def]
  have len: "length (carry_limbs d) = 5" by (simp add: carry_limbs_def Let_def)
  have "\<exists>c. limb_val (carry_limbs d) + P1305 * c = limb_val d"
    unfolding limb_val_map [OF len eq] limb_val_base [of d] by (rule exI, rule fold_carries [OF P1305_base]; rule carry_step)
  then show ?thesis by (metis mod_mult_self2)
qed

lemma carried_tight:
  assumes "x0 < 2 ^ 26" "x1 < 2 ^ 26 + 2 ^ 12" "x2 < 2 ^ 26" "x3 < 2 ^ 26" "x4 < 2 ^ 26"
  shows "\<forall>y \<in> set (carried x0 x1 x2 x3 x4). y < 2 ^ 26"
proof -
  define y2 where "y2 = x2 + x1 div 2 ^ 26"
  define y3 where "y3 = x3 + y2 div 2 ^ 26"
  define y4 where "y4 = x4 + y3 div 2 ^ 26"
  define z where "z = x0 + 5 * (y4 div 2 ^ 26)"
  have eq: "carried x0 x1 x2 x3 x4 = [z mod 2 ^ 26, x1 mod 2 ^ 26 + z div 2 ^ 26, y2 mod 2 ^ 26, y3 mod 2 ^ 26, y4 mod 2 ^ 26]"
    using assms(1) by (simp add: carried_def Let_def y2_def y3_def y4_def z_def)
  have "x1 mod 2 ^ 26 + z div 2 ^ 26 < 2 ^ 26"
  proof (cases "y4 < 2 ^ 26")
    case True
    then show ?thesis using assms(1) by (simp add: z_def)
  next
    case False
    then have "y3 div 2 ^ 26 \<noteq> 0" using assms(5) by (auto simp: y4_def)
    then have "2 ^ 26 \<le> y3" by (simp add: div_eq_0_iff)
    then have "y2 div 2 ^ 26 \<noteq> 0" using assms(4) by (auto simp: y3_def)
    then have "2 ^ 26 \<le> y2" by (simp add: div_eq_0_iff)
    then have "x1 div 2 ^ 26 \<noteq> 0" using assms(3) by (auto simp: y2_def)
    then have x1: "x1 mod 2 ^ 26 < 2 ^ 12" using assms(2) by (simp add: div_eq_0_iff le_mod_geq)
    have "y2 < 2 * 2 ^ 26" "x1 < 2 * 2 ^ 26" using assms(2,3) by (simp_all add: y2_def less_mult_imp_div_less)
    then have "y3 < 2 * 2 ^ 26" using assms(4) less_mult_imp_div_less [of y2 2 "2 ^ 26"] by (simp add: y3_def)
    then have "y4 < 2 * 2 ^ 26" using assms(5) less_mult_imp_div_less [of y3 2 "2 ^ 26"] by (simp add: y4_def)
    then have "z < 2 * 2 ^ 26" using assms(1) less_mult_imp_div_less [of y4 2 "2 ^ 26"] by (simp add: z_def)
    then have "z div 2 ^ 26 < 2" by (rule less_mult_imp_div_less)
    then show ?thesis using x1 by simp
  qed
  then show ?thesis by (simp add: eq)
qed

lemma final_carry_eq: "final_carry h = carry_limbs h"
  by (simp add: final_carry_def carry_limbs_def Let_def mult.commute)

lemma final_carry_tight:
  assumes h: "weakly_reduced h"
  shows "limbs_below (2 ^ 26) (final_carry h)" and "limb_val (final_carry h) mod P1305 = limb_val h mod P1305"
proof -
  have b: "limbs_below (2 ^ 59) h" using h by (auto simp: weakly_reduced_def limbs_below_iff)
  show "limb_val (final_carry h) mod P1305 = limb_val h mod P1305" unfolding final_carry_eq by (rule carry_limbs_val [OF b])
  have hs: "unat (h ! 0) < 2 ^ 26" "unat (h ! 1) < 2 ^ 26 + 2 ^ 12" "unat (h ! 2) < 2 ^ 26" "unat (h ! 3) < 2 ^ 26" "unat (h ! 4) < 2 ^ 26"
    using h by (simp_all add: weakly_reduced_def limbs_below_iff)
  have "\<forall>y \<in> set (map unat (carry_limbs h)). y < 2 ^ 26" unfolding carry_limbs_nat(1) [OF b] by (rule carried_tight [OF hs])
  moreover have "length (carry_limbs h) = 5" by (simp add: carry_limbs_def Let_def)
  ultimately show "limbs_below (2 ^ 26) (final_carry h)" by (simp add: final_carry_eq limbs_below_def)
qed

section \<open>The tag\<close>

lemma carries_up:
  fixes B :: nat
  assumes "x0 + e = g0 + B * c0" "x1 + c0 = g1 + B * c1" "x2 + c1 = g2 + B * c2" "x3 + c2 = g3 + B * c3"
  shows "x0 + B * x1 + B ^ 2 * x2 + B ^ 3 * x3 + B ^ 4 * x4 + e = g0 + B * g1 + B ^ 2 * g2 + B ^ 3 * g3 + B ^ 4 * (x4 + c3)"
proof -
  have "g0 + B * g1 + B ^ 2 * g2 + B ^ 3 * g3 + B ^ 4 * (x4 + c3) = g0 + B * g1 + B ^ 2 * g2 + B ^ 3 * (g3 + B * c3) + B ^ 4 * x4"
    by (simp add: algebra_simps numeral_eq_Suc)
  also have "\<dots> = g0 + B * g1 + B ^ 2 * (g2 + B * c2) + B ^ 3 * x3 + B ^ 4 * x4" unfolding assms(4) [symmetric] by (simp add: algebra_simps numeral_eq_Suc)
  also have "\<dots> = g0 + B * (g1 + B * c1) + B ^ 2 * x2 + B ^ 3 * x3 + B ^ 4 * x4" unfolding assms(3) [symmetric] by (simp add: algebra_simps numeral_eq_Suc)
  also have "\<dots> = (g0 + B * c0) + B * x1 + B ^ 2 * x2 + B ^ 3 * x3 + B ^ 4 * x4" unfolding assms(2) [symmetric] by (simp add: algebra_simps)
  finally show ?thesis unfolding assms(1) [symmetric] by simp
qed

lemma limbs_bound: "limbs_below (2 ^ 26) h \<Longrightarrow> limb_val h < 2 ^ 130"
  by (simp add: limbs_below_iff limb_val_def)

lemma select_mask:
  assumes "unat g \<le> 2 ^ 26"
  shows "drop_bit 63 (g - push_bit 26 1) - 1 = (if unat g < 2 ^ 26 then 0 else - 1 :: u64)"
proof -
  have b: "unat (push_bit 26 1 :: u64) = 2 ^ 26" by simp
  show ?thesis
  proof (cases "unat g < 2 ^ 26")
    case True
    then have "unat (g - push_bit 26 1) = 2 ^ 64 + unat g - 2 ^ 26" using b by (simp add: unat_sub_if' word_less_nat_alt)
    then have "unat (drop_bit 63 (g - push_bit 26 1)) = 1" using True by (simp only: unat_shr) simp
    then have "drop_bit 63 (g - push_bit 26 1) = 1" by (simp only: word_unat_eq_iff unat_1)
    then show ?thesis using True by simp
  next
    case False
    then have "unat g = unat (push_bit 26 1 :: u64)" using assms b by simp
    then have "g = push_bit 26 1" by (simp only: word_unat_eq_iff)
    then show ?thesis using False by simp
  qed
qed

lemma strong_reduce_val:
  assumes h: "limbs_below (2 ^ 26) h"
  shows "limb_val (strong_reduce h) = limb_val h mod P1305 \<and> limbs_below (2 ^ 26) (strong_reduce h)"
proof -
  have hb: "unat (h ! 0) < 2 ^ 26" "unat (h ! 1) < 2 ^ 26" "unat (h ! 2) < 2 ^ 26" "unat (h ! 3) < 2 ^ 26" "unat (h ! 4) < 2 ^ 26" "length h = 5"
    using h by (simp_all add: limbs_below_iff)
  have plus: "unat (x + drop_bit 26 y) = unat x + unat y div 2 ^ 26" "unat (x + drop_bit 26 y) \<le> 2 ^ 26"
    if "unat x < 2 ^ 26" "unat y < 2 * 2 ^ 26" for x y :: u64
    using that less_mult_imp_div_less [of "unat y" 2 "2 ^ 26"] unat_add64 [of x "drop_bit 26 y"] by (simp_all add: unat_shr)
  define g0 where "g0 = h ! 0 + 5"
  define g1 where "g1 = h ! 1 + drop_bit 26 g0"
  define g2 where "g2 = h ! 2 + drop_bit 26 g1"
  define g3 where "g3 = h ! 3 + drop_bit 26 g2"
  define g4 where "g4 = h ! 4 + drop_bit 26 g3"
  have g0: "unat g0 = unat (h ! 0) + 5" "unat g0 < 2 * 2 ^ 26" using hb(1) unat_add64 [of "h ! 0" 5] by (simp_all add: g0_def)
  have lt: "x < 2 * 2 ^ 26" if "x \<le> 2 ^ 26" for x :: nat using that by simp
  note g1 = plus [OF hb(2) g0(2), folded g1_def]
  note g2 = plus [OF hb(3) lt [OF g1(2)], folded g2_def]
  note g3 = plus [OF hb(4) lt [OF g2(2)], folded g3_def]
  note g4 = plus [OF hb(5) lt [OF g3(2)], folded g4_def]
  have val: "limb_val h + 5 = unat g0 mod 2 ^ 26 + 2 ^ 26 * (unat g1 mod 2 ^ 26) + (2 ^ 26) ^ 2 * (unat g2 mod 2 ^ 26) + (2 ^ 26) ^ 3 * (unat g3 mod 2 ^ 26) + (2 ^ 26) ^ 4 * unat g4"
    unfolding limb_val_base g4(1) using g0(1) g1(1) g2(1) g3(1) carry_step [of "unat g0"] carry_step [of "unat g1"] carry_step [of "unat g2"] carry_step [of "unat g3"]
    by (intro carries_up) (simp_all only:)
  let ?m = "drop_bit 63 (g4 - push_bit 26 1) - 1"
  have eq: "strong_reduce h = [(h ! 0 AND NOT ?m) OR (g0 AND M26 AND ?m), (h ! 1 AND NOT ?m) OR (g1 AND M26 AND ?m), (h ! 2 AND NOT ?m) OR (g2 AND M26 AND ?m),
      (h ! 3 AND NOT ?m) OR (g3 AND M26 AND ?m), (h ! 4 AND NOT ?m) OR ((g4 - push_bit 26 1) AND ?m)]"
    by (simp add: strong_reduce_def Let_def g4_def g3_def g2_def g1_def g0_def and.assoc)
  show ?thesis
  proof (cases "unat g4 < 2 ^ 26")
    case True
    have "limb_val h + 5 < 2 ^ 130" unfolding val using True by simp
    then have "limb_val h mod P1305 = limb_val h" by (simp add: P1305_def)
    moreover have "strong_reduce h = [h ! 0, h ! 1, h ! 2, h ! 3, h ! 4]" unfolding eq select_mask [OF g4(2)] using True by simp
    ultimately show ?thesis using hb by (simp add: limb_val_def limbs_below_iff)
  next
    case False
    then have g4e: "unat g4 = 2 ^ 26" using g4(2) by simp
    then have "unat g4 = unat (push_bit 26 1 :: u64)" by simp
    then have g40: "g4 - push_bit 26 1 = 0" by (simp only: word_unat_eq_iff [symmetric] diff_self)
    have se: "strong_reduce h = [g0 AND M26, g1 AND M26, g2 AND M26, g3 AND M26, 0]" unfolding eq select_mask [OF g4(2)] g40 using False by simp
    have "limb_val h = limb_val (strong_reduce h) + P1305" using val g4e by (simp add: se limb_val_list unat_low26 P1305_def)
    moreover have "limb_val h < 2 * P1305" using limbs_bound [OF h] by (simp add: P1305_def)
    ultimately have "limb_val (strong_reduce h) = limb_val h mod P1305" by simp
    then show ?thesis by (simp add: se limbs_below_iff unat_low26)
  qed
qed

definition word_val :: "u32 list \<Rightarrow> nat" where
  "word_val w = unat (w ! 0) + 2 ^ 32 * unat (w ! 1) + 2 ^ 64 * unat (w ! 2) + 2 ^ 96 * unat (w ! 3)"

lemma unat_narrow: "unat (ucast w :: u32) = unat w mod 2 ^ 32" for w :: u64
proof -
  have "unat (ucast w :: u32) = take_bit 32 (unat w)" by (simp add: unsigned_ucast_eq)
  then show ?thesis by (simp only: take_bit_eq_mod)
qed

lemma word_join:
  assumes "k + s = 26" "unat a < 2 ^ 26" "unat b < 2 ^ 26"
  shows "unat (ucast (drop_bit k a OR push_bit s b :: u64) :: u32) = unat a div 2 ^ k + 2 ^ s * (unat b mod 2 ^ (32 - s))"
proof -
  let ?x = "unat a div 2 ^ k"
  have "unat a < 2 ^ s * 2 ^ k" using assms(1,2) by (simp add: power_add [symmetric] add.commute)
  then have x: "?x < 2 ^ s" by (simp add: less_mult_imp_div_less)
  have "(2::nat) ^ s \<le> 2 ^ 26" using assms(1) by (intro power_increasing) simp_all
  then have "2 ^ s * unat b < 2 ^ 26 * 2 ^ 26" using assms(3) by (intro mult_le_less_imp_less) simp_all
  then have b: "unat (push_bit s b) = 2 ^ s * unat b" by (simp add: unat_shl)
  have "unat (drop_bit k a OR push_bit s b) = ?x + 2 ^ s * unat b"
    using unat_or_disjoint [of "drop_bit k a" s "push_bit s b"] x by (simp only: unat_shr b) simp
  then have "unat (ucast (drop_bit k a OR push_bit s b :: u64) :: u32) = (?x + 2 ^ s * unat b) mod 2 ^ 32" by (simp only: unat_narrow)
  also have "\<dots> = (?x + 2 ^ s * unat b) mod (2 ^ s * 2 ^ (32 - s))" using assms(1) by (simp add: power_add [symmetric])
  also have "\<dots> = 2 ^ s * (unat b mod 2 ^ (32 - s)) + ?x" using x by (simp add: mod_mult2_eq)
  finally show ?thesis by simp
qed

lemma words_sum:
  "h0 + 2 ^ 26 * (h1 mod 2 ^ 6) + 2 ^ 32 * (h1 div 2 ^ 6 + 2 ^ 20 * (h2 mod 2 ^ 12)) + 2 ^ 64 * (h2 div 2 ^ 12 + 2 ^ 14 * (h3 mod 2 ^ 18))
   + 2 ^ 96 * (h3 div 2 ^ 18 + 2 ^ 8 * (h4 mod 2 ^ 24)) + 2 ^ 128 * (h4 div 2 ^ 24)
   = h0 + 2 ^ 26 * h1 + 2 ^ 52 * h2 + 2 ^ 78 * h3 + 2 ^ 104 * h4" for h0 h1 h2 h3 h4 :: nat
proof -
  have "h0 + 2 ^ 26 * r1 + 2 ^ 32 * (q1 + 2 ^ 20 * r2) + 2 ^ 64 * (q2 + 2 ^ 14 * r3) + 2 ^ 96 * (q3 + 2 ^ 8 * r4) + 2 ^ 128 * q4
    = h0 + 2 ^ 26 * (q1 * 2 ^ 6 + r1) + 2 ^ 52 * (q2 * 2 ^ 12 + r2) + 2 ^ 78 * (q3 * 2 ^ 18 + r3) + 2 ^ 104 * (q4 * 2 ^ 24 + r4)"
    for q1 r1 q2 r2 q3 r3 q4 r4 :: nat by (simp add: algebra_simps)
  from this [of "h1 mod 2 ^ 6" "h1 div 2 ^ 6" "h2 mod 2 ^ 12" "h2 div 2 ^ 12" "h3 mod 2 ^ 18" "h3 div 2 ^ 18" "h4 mod 2 ^ 24" "h4 div 2 ^ 24"]
  show ?thesis by (simp only: div_mult_mod_eq)
qed

lemma word_val_less: "word_val w < 2 ^ 128"
  using u32_less [of "w ! 0"] u32_less [of "w ! 1"] u32_less [of "w ! 2"] u32_less [of "w ! 3"] by (simp add: word_val_def)

lemma pack_limbs_val:
  assumes h: "limbs_below (2 ^ 26) h"
  shows "word_val (pack_limbs h) = limb_val h mod 2 ^ 128"
proof -
  have hb: "unat (h ! 0) < 2 ^ 26" "unat (h ! 1) < 2 ^ 26" "unat (h ! 2) < 2 ^ 26" "unat (h ! 3) < 2 ^ 26" "unat (h ! 4) < 2 ^ 26"
    using h by (simp_all add: limbs_below_iff)
  have "word_val (pack_limbs h) = unat (h ! 0) + 2 ^ 26 * (unat (h ! 1) mod 2 ^ 6) + 2 ^ 32 * (unat (h ! 1) div 2 ^ 6 + 2 ^ 20 * (unat (h ! 2) mod 2 ^ 12))
      + 2 ^ 64 * (unat (h ! 2) div 2 ^ 12 + 2 ^ 14 * (unat (h ! 3) mod 2 ^ 18)) + 2 ^ 96 * (unat (h ! 3) div 2 ^ 18 + 2 ^ 8 * (unat (h ! 4) mod 2 ^ 24))"
    using word_join [of 0 26 "h ! 0" "h ! 1"] word_join [of 6 20 "h ! 1" "h ! 2"] word_join [of 12 14 "h ! 2" "h ! 3"] word_join [of 18 8 "h ! 3" "h ! 4"] hb
    by (simp add: word_val_def pack_limbs_def)
  then have "word_val (pack_limbs h) + 2 ^ 128 * (unat (h ! 4) div 2 ^ 24) = limb_val h"
    using words_sum [of "unat (h ! 0)" "unat (h ! 1)" "unat (h ! 2)" "unat (h ! 3)" "unat (h ! 4)"] by (simp only: limb_val_def)
  then show ?thesis using word_val_less [of "pack_limbs h"] by (metis mod_less mod_mult_self2)
qed

lemma sum_carries:
  fixes B :: nat
  assumes "a0 + b0 = t0 + B * c0" "a1 + b1 + c0 = t1 + B * c1" "a2 + b2 + c1 = t2 + B * c2" "a3 + b3 + c2 = t3 + B * c3"
  shows "t0 + B * t1 + B ^ 2 * t2 + B ^ 3 * t3 + B ^ 4 * c3 = (a0 + B * a1 + B ^ 2 * a2 + B ^ 3 * a3) + (b0 + B * b1 + B ^ 2 * b2 + B ^ 3 * b3)"
proof -
  have "t0 + B * t1 + B ^ 2 * t2 + B ^ 3 * t3 + B ^ 4 * c3 = t0 + B * t1 + B ^ 2 * t2 + B ^ 3 * (t3 + B * c3)" by (simp add: algebra_simps numeral_eq_Suc)
  also have "\<dots> = t0 + B * t1 + B ^ 2 * (t2 + B * c2) + B ^ 3 * (a3 + b3)" unfolding assms(4) [symmetric] by (simp add: algebra_simps numeral_eq_Suc)
  also have "\<dots> = t0 + B * (t1 + B * c1) + B ^ 2 * (a2 + b2) + B ^ 3 * (a3 + b3)" unfolding assms(3) [symmetric] by (simp add: algebra_simps numeral_eq_Suc)
  also have "\<dots> = (t0 + B * c0) + B * (a1 + b1) + B ^ 2 * (a2 + b2) + B ^ 3 * (a3 + b3)" unfolding assms(2) [symmetric] by (simp add: algebra_simps)
  finally show ?thesis unfolding assms(1) [symmetric] by (simp add: algebra_simps)
qed

lemma carry_step_32: "x = x mod 2 ^ 32 + 2 ^ 32 * (x div 2 ^ 32)" for x :: nat
  by simp

lemma word_val_base: "word_val w = unat (w ! 0) + 2 ^ 32 * unat (w ! 1) + (2 ^ 32) ^ 2 * unat (w ! 2) + (2 ^ 32) ^ 3 * unat (w ! 3)"
  by (simp add: word_val_def)

lemma word_val_list: "word_val [a, b, c, d] = unat a + 2 ^ 32 * unat b + (2 ^ 32) ^ 2 * unat c + (2 ^ 32) ^ 3 * unat d"
  by (simp add: word_val_def)

lemma add_s_val: "word_val (add_s h s) = (word_val h + word_val s) mod 2 ^ 128"
proof -
  have plus: "unat (ucast a + ucast b + drop_bit 32 f) = unat a + unat b + unat f div 2 ^ 32" for a b :: u32 and f :: u64
  proof -
    have ab: "unat (ucast a + ucast b :: u64) = unat a + unat b" using u32_less [of a] u32_less [of b] unat_add64 [of "ucast a" "ucast b"] by simp
    have "unat f < 2 ^ 32 * 2 ^ 32" using unsigned_less [of f, where 'a = nat] by simp
    then have "unat f div 2 ^ 32 < 2 ^ 32" by (rule less_mult_imp_div_less)
    then show ?thesis using u32_less [of a] u32_less [of b] unat_add64 [of "ucast a + ucast b" "drop_bit 32 f"] by (simp add: unat_shr ab)
  qed
  define f0 where "f0 = (ucast (h ! 0) + ucast (s ! 0) :: u64)"
  define f1 where "f1 = ucast (h ! 1) + ucast (s ! 1) + drop_bit 32 f0"
  define f2 where "f2 = ucast (h ! 2) + ucast (s ! 2) + drop_bit 32 f1"
  define f3 where "f3 = ucast (h ! 3) + ucast (s ! 3) + drop_bit 32 f2"
  have f0: "unat f0 = unat (h ! 0) + unat (s ! 0)" using u32_less [of "h ! 0"] u32_less [of "s ! 0"] unat_add64 [of "ucast (h ! 0)" "ucast (s ! 0)"] by (simp add: f0_def)
  note f1 = plus [of "h ! 1" "s ! 1" f0, folded f1_def] and f2 = plus [of "h ! 2" "s ! 2" f1, folded f2_def] and f3 = plus [of "h ! 3" "s ! 3" f2, folded f3_def]
  have eq: "add_s h s = [ucast f0, ucast f1, ucast f2, ucast f3]" by (simp add: add_s_def Let_def f3_def f2_def f1_def f0_def)
  have "word_val (add_s h s) + (2 ^ 32) ^ 4 * (unat f3 div 2 ^ 32) = word_val h + word_val s"
    unfolding eq word_val_list unat_narrow word_val_base [of h] word_val_base [of s] using f0 f1 f2 f3 carry_step_32 [of "unat f0"] carry_step_32 [of "unat f1"] carry_step_32 [of "unat f2"] carry_step_32 [of "unat f3"]
    by (intro sum_carries) (simp_all only:)
  then have "word_val (add_s h s) + 2 ^ 128 * (unat f3 div 2 ^ 32) = word_val h + word_val s" by simp
  then show ?thesis using word_val_less [of "add_s h s"] by (metis mod_less mod_mult_self2)
qed

lemma le_num_le_bytes: "le_num (le_bytes 4 w) = unat w" for w :: u32
  using unat_of_le [of "le_bytes 4 w"] le_bytes_inverse [of 4 w] by simp

lemma words_bytes:
  assumes "length t = 4"
  shows "concat (map (le_bytes 4) t) = num_bytes 16 (word_val t)"
proof -
  obtain a b c d where t: "t = [a, b, c, d]" using assms by (auto simp: numeral_eq_Suc length_Suc_conv)
  have "le_num (concat (map (le_bytes 4) t)) = word_val t" by (simp add: t le_num_append le_num_le_bytes word_val_list)
  then show ?thesis using num_bytes_le_num [of "concat (map (le_bytes 4) t)"] by (simp add: t)
qed

section \<open>The key\<close>

text \<open>The clamp of RFC 8439, as one mask on the 128-bit number.\<close>

definition clamp :: "nat \<Rightarrow> nat" where
  "clamp r = r AND 0x0FFFFFFC0FFFFFFC0FFFFFFC0FFFFFFF"

lemma bit_plus_shifted: "a < 2 ^ n \<Longrightarrow> bit (a + 2 ^ n * b) m \<longleftrightarrow> (if m < n then bit a m else bit b (m - n))" for a b :: nat
proof -
  assume a: "a < 2 ^ n"
  then have ta: "take_bit n a = a" by (simp add: take_bit_nat_eq_self)
  have s: "2 ^ n * b = push_bit n b" by (simp add: push_bit_eq_mult mult.commute)
  have "bit (a + push_bit n b) m \<longleftrightarrow> bit a m \<or> bit (push_bit n b) m"
    by (rule bit_disjunctive_add_iff) (metis ta bit_take_bit_iff bit_push_bit_iff_nat not_less)
  then show ?thesis unfolding s by (metis ta bit_take_bit_iff bit_push_bit_iff_nat not_less)
qed

lemma and_split:
  fixes a b c d :: nat
  assumes "a < 2 ^ n" "c < 2 ^ n"
  shows "(a + 2 ^ n * b) AND (c + 2 ^ n * d) = (a AND c) + 2 ^ n * (b AND d)"
proof (rule bit_eqI)
  fix m
  have "take_bit n (a AND c) = (a AND c)" using assms by (simp add: take_bit_nat_eq_self)
  then have "(a AND c) < 2 ^ n" by (metis take_bit_nat_less_exp)
  then show "bit ((a + 2 ^ n * b) AND (c + 2 ^ n * d)) m = bit ((a AND c) + 2 ^ n * (b AND d)) m"
    using assms by (simp add: bit_plus_shifted bit_and_iff)
qed

lemma clamp_words:
  fixes m0 m1 m2 m3 :: u32
  shows "clamp (unat m0 + 2 ^ 32 * unat m1 + 2 ^ 64 * unat m2 + 2 ^ 96 * unat m3)
    = unat (m0 AND 0x0FFFFFFF) + 2 ^ 32 * unat (m1 AND 0x0FFFFFFC) + 2 ^ 64 * unat (m2 AND 0x0FFFFFFC) + 2 ^ 96 * unat (m3 AND 0x0FFFFFFC)"
proof -
  have split: "(unat m + 2 ^ 32 * x) AND (c + 2 ^ 32 * y) = (unat m AND c) + 2 ^ 32 * (x AND y)" if "c < 2 ^ 32" for m :: u32 and c x y :: nat
    by (rule and_split [OF u32_less that])
  have c: "(0x0FFFFFFF :: nat) < 2 ^ 32" "(0x0FFFFFFC :: nat) < 2 ^ 32" by simp_all
  have "unat m0 + 2 ^ 32 * unat m1 + 2 ^ 64 * unat m2 + 2 ^ 96 * unat m3 = unat m0 + 2 ^ 32 * (unat m1 + 2 ^ 32 * (unat m2 + 2 ^ 32 * unat m3))" by simp
  moreover have "(0x0FFFFFFC0FFFFFFC0FFFFFFC0FFFFFFF :: nat) = 0x0FFFFFFF + 2 ^ 32 * (0x0FFFFFFC + 2 ^ 32 * (0x0FFFFFFC + 2 ^ 32 * 0x0FFFFFFC))" by simp
  ultimately have "clamp (unat m0 + 2 ^ 32 * unat m1 + 2 ^ 64 * unat m2 + 2 ^ 96 * unat m3)
    = (unat m0 AND 0x0FFFFFFF) + 2 ^ 32 * ((unat m1 AND 0x0FFFFFFC) + 2 ^ 32 * ((unat m2 AND 0x0FFFFFFC) + 2 ^ 32 * (unat m3 AND 0x0FFFFFFC)))"
    unfolding clamp_def by (simp only: split c)
  moreover have "unat (w AND 0x0FFFFFFF) = (unat w AND 0x0FFFFFFF)" "unat (w AND 0x0FFFFFFC) = (unat w AND 0x0FFFFFFC)" for w :: u32
    by (simp_all add: unsigned_and_eq)
  ultimately show ?thesis by simp
qed

lemma poly_new_key:
  shows "limb_val (po_r (poly_new key)) = clamp (le_num (take 16 key))" and "limbs_below (2 ^ 26) (po_r (poly_new key))"
    and "fives (po_r5 (poly_new key)) (po_r (poly_new key))" and "word_val (po_s (poly_new key)) = le_num (take 16 (drop 16 key))"
proof -
  define r0 r1 r2 r3 where "r0 = word_at 0 key AND 0x0FFFFFFF" "r1 = word_at 4 key AND 0x0FFFFFFC" "r2 = word_at 8 key AND 0x0FFFFFFC" "r3 = word_at 12 key AND 0x0FFFFFFC"
  note rs = r0_r1_r2_r3_def
  let ?l0 = "ucast (r0 AND 0x3FFFFFF) :: u64" and ?l1 = "ucast ((drop_bit 26 r0 OR push_bit 6 r1) AND 0x3FFFFFF) :: u64"
  let ?l2 = "ucast ((drop_bit 20 r1 OR push_bit 12 r2) AND 0x3FFFFFF) :: u64" and ?l3 = "ucast ((drop_bit 14 r2 OR push_bit 18 r3) AND 0x3FFFFFF) :: u64"
  let ?l4 = "ucast (drop_bit 8 r3 AND 0x3FFFFFF) :: u64"
  have r: "po_r (poly_new key) = [?l0, ?l1, ?l2, ?l3, ?l4]" "po_r5 (poly_new key) = [?l1 * 5, ?l2 * 5, ?l3 * 5, ?l4 * 5]"
    by (simp_all add: poly_new_def Let_def rs)
  have "unat r3 div 2 ^ 8 < 2 ^ 24" using u32_less [of r3] by (simp add: less_mult_imp_div_less)
  then have l4: "unat ?l4 = unat r3 div 2 ^ 8" by (simp add: unat_low26_32 unat_shr)
  have l: "unat ?l0 = unat r0 mod 2 ^ 26" "unat ?l1 = unat r0 div 2 ^ 26 + 2 ^ 6 * (unat r1 mod 2 ^ 20)"
    "unat ?l2 = unat r1 div 2 ^ 20 + 2 ^ 12 * (unat r2 mod 2 ^ 14)" "unat ?l3 = unat r2 div 2 ^ 14 + 2 ^ 18 * (unat r3 mod 2 ^ 8)"
    using limb_join [of 26 6 r0 r1] limb_join [of 20 12 r1 r2] limb_join [of 14 18 r2 r3] by (simp_all only: unat_low26_32 unat_u64_of_u32) simp_all
  have "limb_val (po_r (poly_new key)) = unat r0 + 2 ^ 32 * unat r1 + 2 ^ 64 * unat r2 + 2 ^ 96 * unat r3"
    using limbs_sum [of "unat r0" "unat r1" "unat r2" "unat r3"] unfolding r limb_val_list l l4 by simp
  then show "limb_val (po_r (poly_new key)) = clamp (le_num (take 16 key))" by (simp only: rs le_num_16 clamp_words)
  have b: "unat (ucast (w AND 0x3FFFFFF) :: u64) < 2 ^ 26" for w :: u32 unfolding unat_u64_of_u32 unat_low26_32 by simp
  show "limbs_below (2 ^ 26) (po_r (poly_new key))" unfolding r limbs_below_iff using b by simp
  have f: "unat (ucast (w AND 0x3FFFFFF) * 5 :: u64) = 5 * unat (ucast (w AND 0x3FFFFFF) :: u64)" for w :: u32
    using b [of w] unat_mult64 [of "ucast (w AND 0x3FFFFFF)" 5] by simp
  show "fives (po_r5 (poly_new key)) (po_r (poly_new key))"
    unfolding fives_def r using f by (auto simp: less_Suc_eq numeral_eq_Suc)
  have "word_at i (drop 16 key) = word_at (16 + i) key" for i by (simp add: word_at_def slice_def add.commute)
  from this [of 0] this [of 4] this [of 8] this [of 12] show "word_val (po_s (poly_new key)) = le_num (take 16 (drop 16 key))"
    unfolding le_num_16 by (simp add: poly_new_def Let_def word_val_def)
qed

section \<open>The message\<close>

text \<open>
  The specification of RFC 8439: every block of at most 16 bytes, with a byte 1 after it, is a number
  in little-endian order; the blocks are evaluated as a polynomial in the clamped \<open>r\<close> modulo
  \<open>2 ^ 130 - 5\<close>, and \<open>s\<close> is added modulo \<open>2 ^ 128\<close>.
\<close>

definition poly_chunks :: "u8 list \<Rightarrow> u8 list list" where
  "poly_chunks msg = blocks_of 16 16 msg @ (if rest_of 16 16 msg = [] then [] else [rest_of 16 16 msg])"

definition poly_eval :: "nat \<Rightarrow> u8 list list \<Rightarrow> nat" where
  "poly_eval r = foldl (\<lambda>a c. (a + le_num (c @ [1])) * r mod P1305) 0"

definition poly_spec :: "u8 list \<Rightarrow> u8 list \<Rightarrow> u8 list" where
  "poly_spec key msg =
     (let r = clamp (le_num (take 16 key)); s = le_num (take 16 (drop 16 key))
      in num_bytes 16 ((poly_eval r (poly_chunks msg) + s) mod 2 ^ 128))"

definition absorbs :: "poly1305 \<Rightarrow> nat \<Rightarrow> nat \<Rightarrow> nat \<Rightarrow> bool" where
  "absorbs p r s a \<longleftrightarrow> limbs_below (2 ^ 26) (po_r p) \<and> fives (po_r5 p) (po_r p) \<and> weakly_reduced (po_h p)
     \<and> limb_val (po_r p) = r \<and> word_val (po_s p) = s \<and> limb_val (po_h p) mod P1305 = a mod P1305"

lemma absorb_block_val:
  assumes p: "absorbs p r s a" and pad: "unat pad \<le> 1"
  shows "absorbs (absorb_block p b pad) r s ((a + (le_num (take 16 b) + 2 ^ 128 * unat pad)) * r)"
proof -
  let ?x = "add_block (po_h p) b pad" and ?n = "le_num (take 16 b) + 2 ^ 128 * unat pad"
  have h: "limbs_below (2 ^ 27) (po_h p)" using p by (auto simp: absorbs_def weakly_reduced_def limbs_below_iff)
  note x = add_block_val [OF h pad, of b]
  have r: "limbs_below (2 ^ 26) (po_r p)" "fives (po_r5 p) (po_r p)" "limb_val (po_r p) = r" using p by (simp_all add: absorbs_def)
  note m = mul_r_val [OF conjunct2 [OF x] r(1,2)]
  note c = carry_limbs_val [OF conjunct2 [OF m]] carry_limbs_nat(2) [OF conjunct2 [OF m]]
  have a: "limb_val (po_h p) mod P1305 = a mod P1305" using p by (simp add: absorbs_def)
  have "limb_val ?x mod P1305 = (a + ?n) mod P1305" using x a by (metis add.assoc mod_add_left_eq)
  then have "limb_val ?x * r mod P1305 = (a + ?n) * r mod P1305" by (metis mod_mult_left_eq)
  then have "limb_val (carry_limbs (mul_r (po_r p) (po_r5 p) ?x)) mod P1305 = (a + ?n) * r mod P1305" using c(1) m r(3) by simp
  then show ?thesis using p c(2) by (simp add: absorbs_def absorb_block_def)
qed

lemma absorbs_mod: "absorbs p r s (a mod P1305) = absorbs p r s a"
  by (simp add: absorbs_def)

lemma absorbs_acc: "po_acc p = po_acc q \<Longrightarrow> absorbs p r s a = absorbs q r s a"
  by (simp add: absorbs_def po_acc_def)

text \<open>The accumulator after whole blocks.\<close>

lemma absorb_blocks_val:
  assumes "absorbs p r s a" and "\<forall>b \<in> set bs. length b = 16" and "po_acc q = foldl absorb_acc (po_acc p) bs"
  shows "absorbs q r s (foldl (\<lambda>a c. (a + le_num (c @ [1])) * r mod P1305) a bs)"
  using assms
proof (induction bs arbitrary: p a)
  case Nil
  then show ?case using absorbs_acc [of q p] by simp
next
  case (Cons b bs)
  have "le_num (b @ [1]) = le_num (take 16 b) + 2 ^ 128 * unat (1 :: u8)" using Cons.prems(2) by (simp add: le_num_append)
  then have "absorbs (absorb_block p b 1) r s ((a + le_num (b @ [1])) * r mod P1305)"
    using absorb_block_val [OF Cons.prems(1), of 1 b] by (simp add: absorbs_mod)
  then show ?case using Cons.IH Cons.prems(2,3) by simp
qed

lemma absorbs_new: "absorbs (poly_new key) (clamp (le_num (take 16 key))) (le_num (take 16 (drop 16 key))) 0"
proof -
  have "po_h (poly_new key) = [0, 0, 0, 0, 0]" by (simp add: poly_new_def Let_def)
  then show ?thesis using poly_new_key [of key] by (simp add: absorbs_def weakly_reduced_def limbs_below_iff limb_val_list)
qed

lemma le_num_zeros [simp]: "le_num (replicate n 0) = 0"
  by (induction n) simp_all

lemma foldl_fill: "k \<le> n \<Longrightarrow> n \<le> length b \<Longrightarrow> foldl (\<lambda>b i. b[i := v]) b [k..<n] = take k b @ replicate (n - k) v @ drop n b"
proof (induction n)
  case (Suc n)
  show ?case
  proof (cases "k = Suc n")
    case False
    then have "k \<le> n" using Suc.prems(1) by simp
    moreover have "drop n b = b ! n # drop (Suc n) b" using Suc.prems(2) by (simp add: Cons_nth_drop_Suc)
    ultimately show ?thesis using Suc by (simp add: list_update_append Suc_diff_le replicate_append_same [symmetric])
  qed simp
qed simp

lemma flush_partial_val:
  assumes p: "absorbs p r s a" and wf: "po_wf p"
  shows "absorbs (flush_partial p) r s (if po_pend p = [] then a else (a + le_num (po_pend p @ [1])) * r)"
proof (cases "po_len p = 0")
  case True
  then show ?thesis using p by (simp add: flush_partial_def po_pend_def)
next
  case False
  let ?n = "po_len p"
  have len: "length (po_buffer p) = 16" "?n < 16" using wf by (simp_all add: po_wf_def)
  have ne: "po_pend p \<noteq> []" using False len by (auto simp: po_pend_def)
  define buf where "buf = foldl (\<lambda>b i. b[i := 0]) ((po_buffer p)[?n := 1]) [?n + 1..<16]"
  have "buf = take (?n + 1) ((po_buffer p)[?n := 1]) @ replicate (16 - (?n + 1)) 0"
    using len by (simp add: buf_def foldl_fill)
  also have "take (?n + 1) ((po_buffer p)[?n := 1]) = po_pend p @ [1]" using len by (simp add: po_pend_def take_Suc_conv_app_nth)
  finally have "le_num (take 16 buf) = le_num (po_pend p @ [1])" using len by (simp add: le_num_append po_pend_def)
  moreover have "flush_partial p = absorb_block (p\<lparr>po_buffer := buf\<rparr>) buf 0" using False by (simp add: flush_partial_def buf_def Let_def)
  moreover have "absorbs (p\<lparr>po_buffer := buf\<rparr>) r s a" using p absorbs_acc [of "p\<lparr>po_buffer := buf\<rparr>" p] by simp
  ultimately show ?thesis using absorb_block_val [of "p\<lparr>po_buffer := buf\<rparr>" r s a 0 buf] ne by simp
qed

lemma poly_finalize_val:
  assumes "absorbs p r s a" and "po_wf p"
  shows "poly_finalize p = num_bytes 16 (((if po_pend p = [] then a else (a + le_num (po_pend p @ [1])) * r) mod P1305 + s) mod 2 ^ 128)"
proof -
  define q where "q = flush_partial p"
  let ?a = "if po_pend p = [] then a else (a + le_num (po_pend p @ [1])) * r"
  have q: "weakly_reduced (po_h q)" "limb_val (po_h q) mod P1305 = ?a mod P1305" "word_val (po_s q) = s"
    using flush_partial_val [OF assms] by (simp_all add: absorbs_def q_def)
  note f = final_carry_tight [OF q(1)]
  note g = strong_reduce_val [OF f(1)]
  let ?t = "add_s (pack_limbs (strong_reduce (final_carry (po_h q)))) (po_s q)"
  have "word_val ?t = (?a mod P1305 mod 2 ^ 128 + s) mod 2 ^ 128" using pack_limbs_val [OF conjunct2 [OF g]] conjunct1 [OF g] f(2) q(2,3) by (simp only: add_s_val)
  also have "\<dots> = (?a mod P1305 + s) mod 2 ^ 128" by (rule mod_add_left_eq)
  finally show ?thesis using words_bytes [of ?t] by (simp add: poly_finalize_def q_def add_s_def Let_def)
qed

lemma poly_stream: "poly_finalize (foldl poly_update (poly_new key) ps) = poly_spec key (concat ps)"
proof -
  let ?r = "clamp (le_num (take 16 key))" and ?s = "le_num (take 16 (drop 16 key))" and ?p = "foldl poly_update (poly_new key) ps" and ?m = "concat ps"
  have new: "po_wf (poly_new key)" "po_pend (poly_new key) = []" by (simp_all add: poly_new_def Let_def po_wf_def po_pend_def)
  note st = poly.stream [OF new(1), of ps, unfolded new(2) append_Nil]
  have "\<forall>b \<in> set (blocks_of 16 16 ?m). length b = 16" using cut_block_length by blast
  then have a: "absorbs ?p ?r ?s (poly_eval ?r (blocks_of 16 16 ?m))" unfolding poly_eval_def using absorb_blocks_val [OF absorbs_new] st(2) by blast
  have m: "poly_eval ?r xs mod P1305 = poly_eval ?r xs" for xs by (cases xs rule: rev_cases) (simp_all add: poly_eval_def)
  have "(if po_pend ?p = [] then poly_eval ?r (blocks_of 16 16 ?m) else (poly_eval ?r (blocks_of 16 16 ?m) + le_num (po_pend ?p @ [1])) * ?r) mod P1305 = poly_eval ?r (poly_chunks ?m)"
    using m [of "blocks_of 16 16 ?m"] by (simp add: st(3) poly_chunks_def) (simp add: poly_eval_def)
  then show ?thesis using poly_finalize_val [OF a st(1)] by (simp add: poly_spec_def Let_def)
qed

text \<open>
  (C5) The authenticator is exact. However the message arrives in pieces, the tag that \<open>update\<close> and
  \<open>finalize\<close> compute with carries, masks and wrapping words is the tag of RFC 8439: the sixteen bytes of
  the polynomial of the message blocks in the clamped key half modulo \<open>2 ^ 130 - 5\<close>, plus the other half
  modulo \<open>2 ^ 128\<close>; and the one-shot function gives the same.
\<close>

theorem poly1305_correct:
  "poly_finalize (foldl poly_update (poly_new key) pieces) = poly_spec key (concat pieces)
   \<and> poly1305_mac key (concat pieces) = poly_spec key (concat pieces)"
  using poly_stream [of key pieces] poly_stream [of key "[concat pieces]"] by (simp add: poly1305_mac_def)

end
