(* ===== verification/Crypto_Types.thy ===== *)
theory Crypto_Types
  imports Prelude
begin

text \<open>
  The types that the cryptographic code shares: \<^verbatim>\<open>src/kernel-core/src/crypto/mod.rs\<close>, keys, nonces,
  salts, errors and the comparison in constant time. Wiping a key from memory is writing zeros.
\<close>

section \<open>Definitions\<close>

definition KEY_SIZE :: nat where "KEY_SIZE = 32"
definition NONCE_SIZE :: nat where "NONCE_SIZE = 12"
definition TAG_SIZE :: nat where "TAG_SIZE = 16"
definition SALT_SIZE :: nat where "SALT_SIZE = 16"

record crypto_key =
  ck_bytes :: "u8 list"

definition key_from_bytes :: "u8 list \<Rightarrow> crypto_key" where
  "key_from_bytes bytes = \<lparr>ck_bytes = bytes\<rparr>"

definition key_zero :: crypto_key where
  "key_zero = \<lparr>ck_bytes = replicate KEY_SIZE 0\<rparr>"

definition key_zeroize :: "crypto_key \<Rightarrow> crypto_key" where
  "key_zeroize k = k\<lparr>ck_bytes := map (\<lambda>_. 0) (ck_bytes k)\<rparr>"

record nonce =
  nc_bytes :: "u8 list"

definition nonce_from_bytes :: "u8 list \<Rightarrow> nonce" where
  "nonce_from_bytes bytes = \<lparr>nc_bytes = bytes\<rparr>"

definition nonce_zero :: nonce where
  "nonce_zero = \<lparr>nc_bytes = replicate NONCE_SIZE 0\<rparr>"

text \<open>\<^verbatim>\<open>for byte in bytes.iter_mut().rev()\<close>: the bytes from the last one on.\<close>

fun increment_rev :: "u8 list \<Rightarrow> u8 list" where
  "increment_rev [] = []"
| "increment_rev (b # bs) = (if b + 1 \<noteq> 0 then (b + 1) # bs else (b + 1) # increment_rev bs)"

definition nonce_increment :: "nonce \<Rightarrow> nonce" where
  "nonce_increment n = n\<lparr>nc_bytes := rev (increment_rev (rev (nc_bytes n)))\<rparr>"

record salt =
  sl_bytes :: "u8 list"

definition salt_from_bytes :: "u8 list \<Rightarrow> salt" where
  "salt_from_bytes bytes = \<lparr>sl_bytes = bytes\<rparr>"

definition salt_zero :: salt where
  "salt_zero = \<lparr>sl_bytes = replicate SALT_SIZE 0\<rparr>"

definition xorshift :: "u64 \<Rightarrow> u64" where
  "xorshift s =
     (let s = s XOR push_bit 13 s;
          s = s XOR drop_bit 7 s
      in s XOR push_bit 17 s)"

fun salt_bytes :: "nat \<Rightarrow> u64 \<Rightarrow> u8 list" where
  "salt_bytes 0 state = []"
| "salt_bytes (Suc n) state = (let state = xorshift state in ucast state # salt_bytes n state)"

definition salt_generate :: "u64 \<Rightarrow> salt" where
  "salt_generate seed = \<lparr>sl_bytes = salt_bytes SALT_SIZE seed\<rparr>"

datatype crypto_error =
  InvalidKeyLength | InvalidNonceLength | AuthenticationFailed | BufferTooSmall
| KeyDerivationFailed | InvalidPassphrase | KeyNotInitialized

text \<open>The loop of \<^verbatim>\<open>ct_eq\<close> collects the differences.\<close>

definition ct_eq :: "u8 list \<Rightarrow> u8 list \<Rightarrow> bool" where
  "ct_eq a b = (if length a \<noteq> length b then False else foldl (\<lambda>diff i. diff OR (a ! i XOR b ! i)) 0 [0..<length a] = 0)"

section \<open>Lemmas\<close>

lemma or_eq_0: "x OR y = 0 \<longleftrightarrow> x = 0 \<and> y = 0" for x y :: "'a::len word"
  by (auto simp: bit_eq_iff bit_or_iff)

lemma xor_eq_0: "x XOR y = 0 \<longleftrightarrow> x = y" for x y :: "'a::len word"
  by (auto simp: bit_eq_iff bit_xor_iff)

lemma foldl_or_eq_0: "foldl (\<lambda>d i. d OR f i) d is = 0 \<longleftrightarrow> d = 0 \<and> (\<forall>i \<in> set is. f i = 0)" for d :: "'a::len word"
  by (induction "is" arbitrary: d) (auto simp: or_eq_0)

lemma ct_eq_iff: "ct_eq a b \<longleftrightarrow> a = b"
  by (cases "length a = length b") (auto simp: ct_eq_def foldl_or_eq_0 xor_eq_0 list_eq_iff_nth_eq [of a b])

lemma length_salt_bytes [simp]: "length (salt_bytes n s) = n"
  by (induction n arbitrary: s) (simp_all add: Let_def)

lemma length_increment_rev: "length (increment_rev bs) = length bs"
  by (induction bs) simp_all

end
