(* ===== verification/Chacha20.thy ===== *)
theory Chacha20
  imports Crypto_Types
begin

text \<open>
  ChaCha20: \<^verbatim>\<open>src/kernel-core/src/crypto/chacha20.rs\<close>. The theory shows which byte of the key stream
  every byte of the data is combined with, and that decryption inverts encryption.
\<close>

section \<open>Definitions\<close>

definition CHACHA_BLOCK :: nat where "CHACHA_BLOCK = 64"

definition CHACHA_CONSTANTS :: "u32 list" where
  "CHACHA_CONSTANTS = [0x61707865, 0x3320646e, 0x79622d32, 0x6b206574]"

record chacha20 =
  cc_state :: "u32 list"

definition chacha_new :: "crypto_key \<Rightarrow> nonce \<Rightarrow> u32 \<Rightarrow> chacha20" where
  "chacha_new key nonce counter =
     \<lparr>cc_state = CHACHA_CONSTANTS @ map (\<lambda>i. of_le_bytes (slice (4 * i) 4 (ck_bytes key))) [0..<8]
        @ [counter] @ map (\<lambda>i. of_le_bytes (slice (4 * i) 4 (nc_bytes nonce))) [0..<3]\<rparr>"

text \<open>\<^verbatim>\<open>u32::rotate_left\<close>.\<close>

definition rotl :: "u32 \<Rightarrow> nat \<Rightarrow> u32" where
  "rotl x n = word_rotl n x"

definition quarter_round :: "u32 list \<Rightarrow> nat \<Rightarrow> nat \<Rightarrow> nat \<Rightarrow> nat \<Rightarrow> u32 list" where
  "quarter_round s a b c d =
     (let s = s[a := s ! a + s ! b];
          s = s[d := s ! d XOR s ! a];
          s = s[d := rotl (s ! d) 16];
          s = s[c := s ! c + s ! d];
          s = s[b := s ! b XOR s ! c];
          s = s[b := rotl (s ! b) 12];
          s = s[a := s ! a + s ! b];
          s = s[d := s ! d XOR s ! a];
          s = s[d := rotl (s ! d) 8];
          s = s[c := s ! c + s ! d];
          s = s[b := s ! b XOR s ! c]
      in s[b := rotl (s ! b) 7])"

definition double_round :: "u32 list \<Rightarrow> u32 list" where
  "double_round s =
     (let s = quarter_round s 0 4 8 12;
          s = quarter_round s 1 5 9 13;
          s = quarter_round s 2 6 10 14;
          s = quarter_round s 3 7 11 15;
          s = quarter_round s 0 5 10 15;
          s = quarter_round s 1 6 11 12;
          s = quarter_round s 2 7 8 13
      in quarter_round s 3 4 9 14)"

definition chacha_block :: "chacha20 \<Rightarrow> u8 list" where
  "chacha_block c =
     (let working = (double_round ^^ 10) (cc_state c);
          working = map2 (+) working (cc_state c)
      in concat (map (le_bytes 4) working))"

definition increment_counter :: "chacha20 \<Rightarrow> chacha20" where
  "increment_counter c = c\<lparr>cc_state := (cc_state c)[12 := cc_state c ! 12 + 1]\<rparr>"

definition set_counter :: "u32 \<Rightarrow> chacha20 \<Rightarrow> chacha20" where
  "set_counter counter c = c\<lparr>cc_state := (cc_state c)[12 := counter]\<rparr>"

definition chacha_counter :: "chacha20 \<Rightarrow> u32" where
  "chacha_counter c = cc_state c ! 12"

text \<open>\<^verbatim>\<open>for i in 0..to_process { data[pos + i] ^= block[i] }\<close>\<close>

definition xor_at :: "nat \<Rightarrow> nat \<Rightarrow> u8 list \<Rightarrow> u8 list \<Rightarrow> u8 list" where
  "xor_at pos n block data = foldl (\<lambda>d i. d[pos + i := d ! (pos + i) XOR block ! i]) data [0..<n]"

lemma length_xor_at [simp]: "length (xor_at pos n block data) = length data"
  unfolding xor_at_def by (induction n) simp_all

function xor_loop :: "chacha20 \<Rightarrow> nat \<Rightarrow> u8 list \<Rightarrow> u8 list" where
  "xor_loop cipher pos data =
     (if pos < length data
      then let block = chacha_block cipher;
               to_process = min (length data - pos) CHACHA_BLOCK
           in xor_loop (increment_counter cipher) (pos + to_process) (xor_at pos to_process block data)
      else data)"
  by pat_completeness auto
termination
  by (relation "measure (\<lambda>(cipher, pos, data). length data - pos)") (auto simp: CHACHA_BLOCK_def)

declare xor_loop.simps [simp del]

definition chacha20_xor :: "crypto_key \<Rightarrow> nonce \<Rightarrow> u32 \<Rightarrow> u8 list \<Rightarrow> u8 list" where
  "chacha20_xor key nonce counter data = xor_loop (chacha_new key nonce counter) 0 data"

definition chacha_encrypt :: "crypto_key \<Rightarrow> nonce \<Rightarrow> u8 list \<Rightarrow> u8 list" where
  "chacha_encrypt key nonce data = chacha20_xor key nonce 1 data"

definition chacha_decrypt :: "crypto_key \<Rightarrow> nonce \<Rightarrow> u8 list \<Rightarrow> u8 list" where
  "chacha_decrypt key nonce data = chacha20_xor key nonce 1 data"

definition keystream :: "crypto_key \<Rightarrow> nonce \<Rightarrow> u32 \<Rightarrow> nat \<Rightarrow> u8 list" where
  "keystream key nonce counter len =
     (let block = chacha_block (chacha_new key nonce counter)
      in take len block @ map (\<lambda>_. 0) (drop len block))"

section \<open>The key stream\<close>

lemma length_let: "length e = n \<Longrightarrow> (\<And>s. length s = n \<Longrightarrow> length (g s) = n) \<Longrightarrow> length (Let e g) = n"
  by (simp add: Let_def)

lemma length_quarter_round [simp]: "length (quarter_round s a b c d) = length s"
  unfolding quarter_round_def by (intro length_let) simp_all

lemma length_double_rounds [simp]: "length ((double_round ^^ n) s) = length s"
proof (induction n)
  case (Suc n)
  have "length (double_round t) = length t" for t unfolding double_round_def by (intro length_let) simp_all
  with Suc show ?case by simp
qed simp

lemma length_chacha_block: "length (cc_state c) = 16 \<Longrightarrow> length (chacha_block c) = 64"
  by (simp add: chacha_block_def Let_def length_concat_same [where n = 4])

lemma length_chacha_new [simp]: "length (cc_state (chacha_new key nonce counter)) = 16"
  by (simp add: chacha_new_def CHACHA_CONSTANTS_def)

lemma increment_new: "increment_counter (chacha_new key nonce counter) = chacha_new key nonce (counter + 1)"
proof -
  have "length (CHACHA_CONSTANTS @ map (\<lambda>i. of_le_bytes (slice (4 * i) 4 (ck_bytes key)) :: u32) [0..<8]) = 12"
    by (simp add: CHACHA_CONSTANTS_def)
  then show ?thesis unfolding increment_counter_def chacha_new_def
    by (simp add: nth_append list_update_append)
qed

lemma nth_xor_at:
  "pos + n \<le> length data \<Longrightarrow> k < length data \<Longrightarrow>
     xor_at pos n block data ! k = (if pos \<le> k \<and> k < pos + n then data ! k XOR block ! (k - pos) else data ! k)"
proof (induction n)
  case (Suc n)
  have "xor_at pos (Suc n) block data = (xor_at pos n block data)[pos + n := xor_at pos n block data ! (pos + n) XOR block ! n]"
    by (simp add: xor_at_def)
  then show ?case using Suc by (auto simp: nth_list_update)
qed (auto simp: xor_at_def)

lemma length_xor_loop [simp]: "length (xor_loop c pos data) = length data"
  by (induction c pos data rule: xor_loop.induct) (subst xor_loop.simps, simp add: Let_def)

definition stream_byte :: "crypto_key \<Rightarrow> nonce \<Rightarrow> u32 \<Rightarrow> nat \<Rightarrow> u8" where
  "stream_byte key nonce counter i = chacha_block (chacha_new key nonce (counter + of_nat (i div 64))) ! (i mod 64)"

lemma block_index: "64 * b \<le> i \<Longrightarrow> i < 64 * b + 64 \<Longrightarrow> i div 64 = b \<and> i mod 64 = i - 64 * b" for b i :: nat
proof -
  assume "64 * b \<le> i" "i < 64 * b + 64"
  then have "i div 64 = b" by (intro div_nat_eqI) auto
  then show ?thesis using minus_mult_div_eq_mod [of i 64] by simp
qed

lemma nth_xor_loop:
  assumes "i < length data"
  shows "xor_loop (chacha_new key nonce (counter + of_nat b)) (64 * b) data ! i
    = (if 64 * b \<le> i then data ! i XOR stream_byte key nonce counter i else data ! i)"
  using assms
proof (induction "length data - 64 * b" arbitrary: b data rule: less_induct)
  case less
  let ?c = "chacha_new key nonce (counter + of_nat b)"
  show ?case
  proof (cases "64 * b < length data")
    case True
    define n where "n = min (length data - 64 * b) 64"
    let ?d = "xor_at (64 * b) n (chacha_block ?c) data"
    have step: "xor_loop ?c (64 * b) data = xor_loop (chacha_new key nonce (counter + of_nat (b + 1))) (64 * b + n) ?d"
      using True by (subst xor_loop.simps) (simp add: Let_def n_def increment_new CHACHA_BLOCK_def ac_simps)
    have d: "?d ! i = (if 64 * b \<le> i \<and> i < 64 * b + n then data ! i XOR chacha_block ?c ! (i - 64 * b) else data ! i)"
      using less.prems True by (intro nth_xor_at) (auto simp: n_def)
    show ?thesis
    proof (cases "n = 64")
      case n: True
      have "xor_loop (chacha_new key nonce (counter + of_nat (b + 1))) (64 * (b + 1)) ?d ! i
          = (if 64 * (b + 1) \<le> i then ?d ! i XOR stream_byte key nonce counter i else ?d ! i)"
        by (rule less.hyps) (use True less.prems in auto)
      then show ?thesis using step d n block_index [of b i] by (auto simp: stream_byte_def ac_simps)
    next
      case False
      then have n: "64 * b + n = length data" "n < 64" using True by (auto simp: n_def)
      have "xor_loop c' (length data) ?d = ?d" for c' by (subst xor_loop.simps) simp
      then show ?thesis using step d n less.prems block_index [of b i] by (auto simp: stream_byte_def)
    qed
  next
    case False
    then show ?thesis using less.prems by (subst xor_loop.simps) simp
  qed
qed

lemma length_chacha20_xor [simp]: "length (chacha20_xor key nonce counter data) = length data"
  by (simp add: chacha20_xor_def)

lemma nth_chacha20_xor: "i < length data \<Longrightarrow> chacha20_xor key nonce counter data ! i = data ! i XOR stream_byte key nonce counter i"
  using nth_xor_loop [of i data key nonce counter 0] by (simp add: chacha20_xor_def)

lemma chacha20_xor_inverse [simp]: "chacha20_xor key nonce counter (chacha20_xor key nonce counter data) = data"
  by (rule nth_equalityI) (simp_all add: nth_chacha20_xor xor.assoc)

section \<open>Properties\<close>

text \<open>
  ChaCha20 combines byte \<open>i\<close> of the data with byte \<open>i mod 64\<close> of the block whose counter is
  the first counter plus \<open>i div 64\<close>, for data of every length, and decryption gives the data back.
\<close>

theorem chacha20_correct:
  "(\<forall>i < length data. chacha20_xor key nonce counter data ! i
      = data ! i XOR chacha_block (chacha_new key nonce (counter + of_nat (i div 64))) ! (i mod 64))
   \<and> length (chacha20_xor key nonce counter data) = length data
   \<and> chacha_decrypt key nonce (chacha_encrypt key nonce data) = data"
  using nth_chacha20_xor by (auto simp: stream_byte_def chacha_decrypt_def chacha_encrypt_def)

theorem chacha20_correct_witness:
  "chacha20_xor key_zero nonce_zero 0 [0] ! 0 = chacha_block (chacha_new key_zero nonce_zero 0) ! 0"
  using chacha20_correct [of "[0]" key_zero nonce_zero 0] by simp

end
