(* ===== verification/Aead.thy ===== *)
theory Aead
  imports Poly1305_Correct Chacha20
begin

text \<open>
  ChaCha20-Poly1305: authenticated encryption, the second half of \<^verbatim>\<open>src/kernel-core/src/crypto/poly1305.rs\<close>.
  The output buffer and the tag are arguments that the functions write to, so they are returned beside the
  result. Wiping the one-time key at the end has no effect on what is returned.
\<close>

section \<open>Definitions\<close>

text \<open>The one-time key: the first half of the key stream block with counter 0.\<close>

definition poly_key :: "crypto_key \<Rightarrow> nonce \<Rightarrow> u8 list" where
  "poly_key key nonce = take 32 (chacha_block (chacha_new key nonce 0))"

text \<open>The zeros after a part whose length is not a multiple of 16.\<close>

definition update_pad16 :: "poly1305 \<Rightarrow> nat \<Rightarrow> poly1305" where
  "update_pad16 p n = (if n mod 16 \<noteq> 0 then poly_update p (take (16 - n mod 16) (replicate 16 0)) else p)"

definition lengths_block :: "nat \<Rightarrow> nat \<Rightarrow> u8 list" where
  "lengths_block aad_len ct_len =
     copy_into 8 (le_bytes 8 (of_nat ct_len :: u64)) (copy_into 0 (le_bytes 8 (of_nat aad_len :: u64)) (replicate 16 0))"

text \<open>The authentication that both functions contain.\<close>

definition aead_tag :: "crypto_key \<Rightarrow> nonce \<Rightarrow> u8 list \<Rightarrow> u8 list \<Rightarrow> u8 list" where
  "aead_tag key nonce aad ct =
     (let poly = poly_new (poly_key key nonce);
          poly = poly_update poly aad;
          poly = update_pad16 poly (length aad);
          poly = poly_update poly ct;
          poly = update_pad16 poly (length ct);
          poly = poly_update poly (lengths_block (length aad) (length ct))
      in poly_finalize poly)"

definition aead_encrypt ::
    "crypto_key \<Rightarrow> nonce \<Rightarrow> u8 list \<Rightarrow> u8 list \<Rightarrow> u8 list \<Rightarrow> u8 list \<Rightarrow> u8 list \<times> u8 list \<times> (crypto_error + unit)" where
  "aead_encrypt key nonce aad plaintext ciphertext tag =
     (if length ciphertext < length plaintext then (ciphertext, tag, Err BufferTooSmall)
      else let n = length plaintext;
               ciphertext = copy_into 0 plaintext ciphertext;
               ciphertext = copy_into 0 (chacha20_xor key nonce 1 (slice 0 n ciphertext)) ciphertext;
               tag = aead_tag key nonce aad (slice 0 n ciphertext)
           in (ciphertext, tag, Ok ()))"

definition aead_decrypt ::
    "crypto_key \<Rightarrow> nonce \<Rightarrow> u8 list \<Rightarrow> u8 list \<Rightarrow> u8 list \<Rightarrow> u8 list \<Rightarrow> u8 list \<times> (crypto_error + unit)" where
  "aead_decrypt key nonce aad ciphertext tag plaintext =
     (if length plaintext < length ciphertext then (plaintext, Err BufferTooSmall)
      else let expected = aead_tag key nonce aad ciphertext
           in if \<not> ct_eq expected tag then (plaintext, Err AuthenticationFailed)
              else let n = length ciphertext;
                       plaintext = copy_into 0 ciphertext plaintext;
                       plaintext = copy_into 0 (chacha20_xor key nonce 1 (slice 0 n plaintext)) plaintext
                   in (plaintext, Ok ()))"

section \<open>Lemmas\<close>

text \<open>The specification: the parts padded to blocks, and their lengths.\<close>

definition pad16 :: "u8 list \<Rightarrow> u8 list" where
  "pad16 xs = xs @ replicate ((16 - length xs mod 16) mod 16) 0"

definition aead_mac_data :: "u8 list \<Rightarrow> u8 list \<Rightarrow> u8 list" where
  "aead_mac_data aad ct = pad16 aad @ pad16 ct @ le_bytes 8 (of_nat (length aad) :: u64) @ le_bytes 8 (of_nat (length ct) :: u64)"

lemma update_pad16_eq:
  "\<exists>z. update_pad16 p n = foldl poly_update p z \<and> concat z = replicate ((16 - n mod 16) mod 16) 0"
proof (cases "n mod 16 = 0")
  case True
  then have "update_pad16 p n = foldl poly_update p []" by (simp add: update_pad16_def)
  then show ?thesis using True by (metis concat.simps(1) diff_zero mod_self replicate_0)
next
  case False
  then have "(16 - n mod 16) mod 16 = 16 - n mod 16" by simp
  then have "update_pad16 p n = foldl poly_update p [replicate (16 - n mod 16) 0] \<and> concat [replicate (16 - n mod 16) 0] = replicate ((16 - n mod 16) mod 16) (0 :: u8)"
    using False by (simp add: update_pad16_def)
  then show ?thesis by blast
qed

lemma lengths_block_eq: "lengths_block a c = le_bytes 8 (of_nat a :: u64) @ le_bytes 8 (of_nat c :: u64)"
  by (simp add: lengths_block_def copy_into_def)

lemma aead_tag_eq: "aead_tag key nonce aad ct = poly_spec (poly_key key nonce) (aead_mac_data aad ct)"
proof -
  define p1 where "p1 = poly_update (poly_new (poly_key key nonce)) aad"
  obtain z1 where z1: "update_pad16 p1 (length aad) = foldl poly_update p1 z1" "concat z1 = replicate ((16 - length aad mod 16) mod 16) 0"
    using update_pad16_eq by blast
  define p2 where "p2 = poly_update (foldl poly_update p1 z1) ct"
  obtain z2 where z2: "update_pad16 p2 (length ct) = foldl poly_update p2 z2" "concat z2 = replicate ((16 - length ct mod 16) mod 16) 0"
    using update_pad16_eq by blast
  let ?ps = "[aad] @ z1 @ [ct] @ z2 @ [lengths_block (length aad) (length ct)]"
  have "aead_tag key nonce aad ct = poly_finalize (foldl poly_update (poly_new (poly_key key nonce)) ?ps)"
    using z1(1) z2(1) by (simp add: aead_tag_def p1_def p2_def)
  also have "\<dots> = poly_spec (poly_key key nonce) (concat ?ps)" by (rule poly_stream)
  finally show ?thesis using z1(2) z2(2) by (simp add: aead_mac_data_def pad16_def lengths_block_eq)
qed

lemma aead_encrypt_eq:
  assumes "length plaintext \<le> length buf"
  shows "aead_encrypt key nonce aad plaintext buf tag
    = (let ct = chacha20_xor key nonce 1 plaintext in (ct @ drop (length plaintext) buf, poly_spec (poly_key key nonce) (aead_mac_data aad ct), Ok ()))"
  using assms by (simp add: aead_encrypt_def copy_into_def slice_def aead_tag_eq Let_def)

lemma aead_decrypt_eq:
  assumes "length ct \<le> length buf"
  shows "aead_decrypt key nonce aad ct tag buf
    = (if tag = poly_spec (poly_key key nonce) (aead_mac_data aad ct) then (chacha20_xor key nonce 1 ct @ drop (length ct) buf, Ok ())
       else (buf, Err AuthenticationFailed))"
  using assms by (auto simp: aead_decrypt_def copy_into_def slice_def aead_tag_eq ct_eq_iff Let_def)

section \<open>Properties\<close>

lemma chacha20_xor_eq_map:
  "chacha20_xor key nonce counter data
    = map (\<lambda>i. data ! i XOR chacha_block (chacha_new key nonce (counter + of_nat (i div 64))) ! (i mod 64)) [0..<length data]"
  by (rule nth_equalityI) (simp_all add: nth_chacha20_xor stream_byte_def)

text \<open>
  (C13) Authenticated encryption is sound and is the one of RFC 8439. Encryption puts into the front of the buffer the plaintext combined by
  exclusive or with the ChaCha20 key stream from block 1 on, leaves the rest of the buffer alone, and gives the Poly1305 tag, under the
  first half of block 0 as key, of the padded associated data, the padded ciphertext and their lengths.
  Decryption of that ciphertext with that tag gives the plaintext
  back; and decryption with any other tag is refused with AuthenticationFailed and releases no byte: the
  output buffer is as it was.
\<close>

theorem aead_round_trip:
  assumes "length plaintext \<le> length buf" and "length plaintext \<le> length out"
    and "aead_encrypt key nonce aad plaintext buf tag0 = (buf', tag, res)"
  shows "res = Ok ()
    \<and> buf' = map (\<lambda>i. plaintext ! i XOR chacha_block (chacha_new key nonce (1 + of_nat (i div 64))) ! (i mod 64)) [0..<length plaintext]
        @ drop (length plaintext) buf
    \<and> tag = poly_spec (take 32 (chacha_block (chacha_new key nonce 0))) (aead_mac_data aad (take (length plaintext) buf'))
    \<and> aead_decrypt key nonce aad (take (length plaintext) buf') tag out = (plaintext @ drop (length plaintext) out, Ok ())
    \<and> (\<forall>forged. forged \<noteq> tag \<longrightarrow> aead_decrypt key nonce aad (take (length plaintext) buf') forged out = (out, Err AuthenticationFailed))"
proof -
  define ct where "ct = chacha20_xor key nonce 1 plaintext"
  have ct: "length ct = length plaintext" "chacha20_xor key nonce 1 ct = plaintext" by (simp_all add: ct_def)
  have e: "buf' = ct @ drop (length plaintext) buf" "tag = poly_spec (poly_key key nonce) (aead_mac_data aad ct)" "res = Ok ()"
    using aead_encrypt_eq [OF assms(1), of key nonce aad tag0] assms(3) by (simp_all add: Let_def ct_def)
  have t: "take (length plaintext) buf' = ct" using ct(1) by (simp add: e(1))
  have d: "aead_decrypt key nonce aad ct tag out = (plaintext @ drop (length plaintext) out, Ok ())"
    "\<forall>forged. forged \<noteq> tag \<longrightarrow> aead_decrypt key nonce aad ct forged out = (out, Err AuthenticationFailed)"
    using aead_decrypt_eq [of ct out] assms(2) ct by (simp_all add: e(2))
  show ?thesis unfolding t using d e(1) [unfolded ct_def chacha20_xor_eq_map] e(2,3) by (simp only: poly_key_def simp_thms)
qed

theorem aead_round_trip_witness:
  "\<exists>buf tag. aead_encrypt key_zero nonce_zero [7] [1, 2, 3] [0, 0, 0, 9] [] = (buf, tag, Ok ()) \<and> drop 3 buf = [9]
     \<and> aead_decrypt key_zero nonce_zero [7] (take 3 buf) tag [0, 0, 0] = ([1, 2, 3], Ok ())"
proof -
  obtain b t r where e: "aead_encrypt key_zero nonce_zero [7] [1, 2, 3] [0, 0, 0, 9] [] = (b, t, r)" by (metis prod_cases3)
  have l: "length [1, 2, 3 :: u8] \<le> length [0, 0, 0, 9 :: u8]" "length [1, 2, 3 :: u8] \<le> length [0, 0, 0 :: u8]" by simp_all
  note T = aead_round_trip [OF l e]
  note f = T [THEN conjunct1] T [THEN conjunct2, THEN conjunct1] T [THEN conjunct2, THEN conjunct2, THEN conjunct2, THEN conjunct1]
  have "drop 3 b = [9]" by (simp add: f(2))
  then show ?thesis using e f(1,3) by (intro exI [of _ b] exI [of _ t]) (simp add: numeral_3_eq_3)
qed

text \<open>
  The tag is the one of RFC 8439: the Poly1305 tag, under the one-time key from ChaCha20 block 0, of
  the associated data and the ciphertext, each padded with zeros to a multiple of 16, and their lengths as
  64-bit numbers. A buffer that is too small is refused before anything is written.
\<close>

theorem aead_encrypt_correct:
  "aead_encrypt key nonce aad plaintext buf tag
     = (if length buf < length plaintext then (buf, tag, Err BufferTooSmall)
        else let ct = chacha20_xor key nonce 1 plaintext
             in (ct @ drop (length plaintext) buf, poly_spec (poly_key key nonce) (aead_mac_data aad ct), Ok ()))"
proof (cases "length buf < length plaintext")
  case True
  then show ?thesis by (simp add: aead_encrypt_def)
next
  case False
  then show ?thesis using aead_encrypt_eq [of plaintext buf key nonce aad tag] by simp
qed

end
