(* ===== verification/Sha256.thy ===== *)
theory Sha256
  imports Block_Stream
begin

text \<open>
  SHA-256 and HMAC: \<^verbatim>\<open>src/kernel-core/src/crypto/sha256.rs\<close>, the streaming hasher with its buffer and
  padding, and the message authentication code on top of it. The theory shows that hashing in
  pieces gives the hash of the padded message as the standard defines it, and the same for HMAC.
\<close>

section \<open>Definitions: the compression function\<close>

definition SHA_K :: "u32 list" where
  "SHA_K = concat
  [[0x428a2f98, 0x71374491, 0xb5c0fbcf, 0xe9b5dba5],
   [0x3956c25b, 0x59f111f1, 0x923f82a4, 0xab1c5ed5],
   [0xd807aa98, 0x12835b01, 0x243185be, 0x550c7dc3],
   [0x72be5d74, 0x80deb1fe, 0x9bdc06a7, 0xc19bf174],
   [0xe49b69c1, 0xefbe4786, 0x0fc19dc6, 0x240ca1cc],
   [0x2de92c6f, 0x4a7484aa, 0x5cb0a9dc, 0x76f988da],
   [0x983e5152, 0xa831c66d, 0xb00327c8, 0xbf597fc7],
   [0xc6e00bf3, 0xd5a79147, 0x06ca6351, 0x14292967],
   [0x27b70a85, 0x2e1b2138, 0x4d2c6dfc, 0x53380d13],
   [0x650a7354, 0x766a0abb, 0x81c2c92e, 0x92722c85],
   [0xa2bfe8a1, 0xa81a664b, 0xc24b8b70, 0xc76c51a3],
   [0xd192e819, 0xd6990624, 0xf40e3585, 0x106aa070],
   [0x19a4c116, 0x1e376c08, 0x2748774c, 0x34b0bcb5],
   [0x391c0cb3, 0x4ed8aa4a, 0x5b9cca4f, 0x682e6ff3],
   [0x748f82ee, 0x78a5636f, 0x84c87814, 0x8cc70208],
   [0x90befffa, 0xa4506ceb, 0xbef9a3f7, 0xc67178f2]]"

definition SHA_H0 :: "u32 list" where
  "SHA_H0 =
  [0x6a09e667, 0xbb67ae85, 0x3c6ef372, 0xa54ff53a,
   0x510e527f, 0x9b05688c, 0x1f83d9ab, 0x5be0cd19]"

definition SHA_BLOCK :: nat where "SHA_BLOCK = 64"
definition SHA_OUTPUT :: nat where "SHA_OUTPUT = 32"

text \<open>\<^verbatim>\<open>u32::rotate_right\<close>.\<close>

definition rotr :: "u32 \<Rightarrow> nat \<Rightarrow> u32" where
  "rotr x n = word_rotr n x"

definition sha_ch :: "u32 \<Rightarrow> u32 \<Rightarrow> u32 \<Rightarrow> u32" where
  "sha_ch x y z = (x AND y) XOR (NOT x AND z)"

definition sha_maj :: "u32 \<Rightarrow> u32 \<Rightarrow> u32 \<Rightarrow> u32" where
  "sha_maj x y z = (x AND y) XOR (x AND z) XOR (y AND z)"

definition sha_sigma0 :: "u32 \<Rightarrow> u32" where
  "sha_sigma0 x = rotr x 2 XOR rotr x 13 XOR rotr x 22"

definition sha_sigma1 :: "u32 \<Rightarrow> u32" where
  "sha_sigma1 x = rotr x 6 XOR rotr x 11 XOR rotr x 25"

definition sha_gamma0 :: "u32 \<Rightarrow> u32" where
  "sha_gamma0 x = rotr x 7 XOR rotr x 18 XOR drop_bit 3 x"

definition sha_gamma1 :: "u32 \<Rightarrow> u32" where
  "sha_gamma1 x = rotr x 17 XOR rotr x 19 XOR drop_bit 10 x"

text \<open>The message schedule: sixteen words of the block, then forty-eight more.\<close>

definition sha_words :: "u8 list \<Rightarrow> u32 list" where
  "sha_words block = foldl (\<lambda>w i. w[i := of_be_bytes (slice (i * 4) 4 block)]) (replicate 64 0) [0..<16]"

definition sha_schedule :: "u8 list \<Rightarrow> u32 list" where
  "sha_schedule block = foldl (\<lambda>w i. w[i := sha_gamma1 (w ! (i - 2)) + w ! (i - 7) + sha_gamma0 (w ! (i - 15)) + w ! (i - 16)])
     (sha_words block) [16..<64]"

record sha_vars =
  sv_a :: u32
  sv_b :: u32
  sv_c :: u32
  sv_d :: u32
  sv_e :: u32
  sv_f :: u32
  sv_g :: u32
  sv_h :: u32

definition sha_round :: "u32 list \<Rightarrow> sha_vars \<Rightarrow> nat \<Rightarrow> sha_vars" where
  "sha_round w v i =
     (let t1 = sv_h v + sha_sigma1 (sv_e v) + sha_ch (sv_e v) (sv_f v) (sv_g v) + SHA_K ! i + w ! i;
          t2 = sha_sigma0 (sv_a v) + sha_maj (sv_a v) (sv_b v) (sv_c v)
      in \<lparr>sv_a = t1 + t2, sv_b = sv_a v, sv_c = sv_b v, sv_d = sv_c v, sv_e = sv_d v + t1, sv_f = sv_e v, sv_g = sv_f v, sv_h = sv_g v\<rparr>)"

definition sha_compress :: "u32 list \<Rightarrow> u8 list \<Rightarrow> u32 list" where
  "sha_compress state block =
     (let v = foldl (sha_round (sha_schedule block))
            \<lparr>sv_a = state ! 0, sv_b = state ! 1, sv_c = state ! 2, sv_d = state ! 3,
             sv_e = state ! 4, sv_f = state ! 5, sv_g = state ! 6, sv_h = state ! 7\<rparr> [0..<64]
      in [state ! 0 + sv_a v, state ! 1 + sv_b v, state ! 2 + sv_c v, state ! 3 + sv_d v,
          state ! 4 + sv_e v, state ! 5 + sv_f v, state ! 6 + sv_g v, state ! 7 + sv_h v])"

section \<open>Definitions: the hasher\<close>

record sha256 =
  sh_state :: "u32 list"
  sh_bytes :: u64
  sh_buf :: "u8 list"
  sh_len :: nat

definition sha_new :: sha256 where
  "sha_new = \<lparr>sh_state = SHA_H0, sh_bytes = 0, sh_buf = replicate SHA_BLOCK 0, sh_len = 0\<rparr>"

text \<open>The part of \<^verbatim>\<open>update\<close> that fills a partial block, the loop over whole blocks, and the whole.\<close>

definition sha_top_up :: "sha256 \<Rightarrow> u8 list \<Rightarrow> sha256 \<times> u8 list" where
  "sha_top_up h data =
     (if sh_len h > 0
      then let n = min (SHA_BLOCK - sh_len h) (length data);
               h = h\<lparr>sh_buf := copy_into (sh_len h) (take n data) (sh_buf h), sh_len := sh_len h + n, sh_bytes := sh_bytes h + of_nat n\<rparr>;
               h = (if sh_len h = SHA_BLOCK then h\<lparr>sh_state := sha_compress (sh_state h) (sh_buf h), sh_len := 0\<rparr> else h)
           in (h, drop n data)
      else (h, data))"

function sha_blocks :: "sha256 \<Rightarrow> u8 list \<Rightarrow> sha256 \<times> u8 list" where
  "sha_blocks h data =
     (if length data \<ge> SHA_BLOCK
      then sha_blocks (h\<lparr>sh_state := sha_compress (sh_state h) (take SHA_BLOCK data), sh_bytes := sh_bytes h + of_nat SHA_BLOCK\<rparr>)
             (drop SHA_BLOCK data)
      else (h, data))"
  by pat_completeness auto
termination
  by (relation "measure (\<lambda>(h, data). length data)") (auto simp: SHA_BLOCK_def)

declare sha_blocks.simps [simp del]

definition sha_update :: "sha256 \<Rightarrow> u8 list \<Rightarrow> sha256" where
  "sha_update h data =
     (let (h, data) = sha_top_up h data;
          (h, data) = sha_blocks h data
      in if data \<noteq> []
         then h\<lparr>sh_buf := copy_into 0 data (sh_buf h), sh_len := length data, sh_bytes := sh_bytes h + of_nat (length data)\<rparr>
         else h)"

text \<open>\<^verbatim>\<open>for b in &mut buf[from..to] { *b = 0 }\<close>\<close>

definition zero_fill :: "nat \<Rightarrow> nat \<Rightarrow> u8 list \<Rightarrow> u8 list" where
  "zero_fill from till buf = copy_into from (replicate (till - from) 0) buf"

definition sha_finalize :: "sha256 \<Rightarrow> u8 list" where
  "sha_finalize h =
     (let bit_len = sh_bytes h * 8;
          h = h\<lparr>sh_buf := (sh_buf h)[sh_len h := 0x80], sh_len := sh_len h + 1\<rparr>;
          h = (if sh_len h > SHA_BLOCK - 8
               then let buf = zero_fill (sh_len h) SHA_BLOCK (sh_buf h)
                    in h\<lparr>sh_buf := buf, sh_state := sha_compress (sh_state h) buf, sh_len := 0\<rparr>
               else h);
          buf = zero_fill (sh_len h) (SHA_BLOCK - 8) (sh_buf h);
          buf = copy_into (SHA_BLOCK - 8) (be_bytes 8 bit_len) buf
      in concat (map (be_bytes 4) (sha_compress (sh_state h) buf)))"

definition sha_hash :: "u8 list \<Rightarrow> u8 list" where
  "sha_hash data = sha_finalize (sha_update sha_new data)"

section \<open>Definitions: HMAC\<close>

record hmac_sha256 =
  hm_inner :: sha256
  hm_outer_key :: "u8 list"

definition hmac_new :: "u8 list \<Rightarrow> hmac_sha256" where
  "hmac_new key =
     (let k = copy_into 0 (if length key > SHA_BLOCK then sha_hash key else key) (replicate SHA_BLOCK 0);
          inner_key = map2 (XOR) (replicate SHA_BLOCK 0x36) k;
          outer_key = map2 (XOR) (replicate SHA_BLOCK 0x5C) k
      in \<lparr>hm_inner = sha_update sha_new inner_key, hm_outer_key = outer_key\<rparr>)"

definition hmac_update :: "hmac_sha256 \<Rightarrow> u8 list \<Rightarrow> hmac_sha256" where
  "hmac_update h data = h\<lparr>hm_inner := sha_update (hm_inner h) data\<rparr>"

definition hmac_finalize :: "hmac_sha256 \<Rightarrow> u8 list" where
  "hmac_finalize h =
     (let inner_digest = sha_finalize (hm_inner h)
      in sha_finalize (sha_update (sha_update sha_new (hm_outer_key h)) inner_digest))"

definition hmac :: "u8 list \<Rightarrow> u8 list \<Rightarrow> u8 list" where
  "hmac key data = hmac_finalize (hmac_update (hmac_new key) data)"

section \<open>The hasher is a stream\<close>

definition sh_wf :: "sha256 \<Rightarrow> bool" where
  "sh_wf h \<longleftrightarrow> length (sh_buf h) = SHA_BLOCK \<and> sh_len h < SHA_BLOCK"

definition sh_pend :: "sha256 \<Rightarrow> u8 list" where
  "sh_pend h = take (sh_len h) (sh_buf h)"

lemma SHA_BLOCK_pos [simp]: "0 < SHA_BLOCK"
  by (simp add: SHA_BLOCK_def)

lemma sha_blocks_eq:
  "sha_blocks h data = (h\<lparr>sh_state := foldl sha_compress (sh_state h) (blocks_of SHA_BLOCK SHA_BLOCK data),
     sh_bytes := sh_bytes h + of_nat (length data - length (rest_of SHA_BLOCK SHA_BLOCK data))\<rparr>, rest_of SHA_BLOCK SHA_BLOCK data)"
proof (induction h data rule: sha_blocks.induct)
  case (1 h data)
  show ?case
  proof (cases "SHA_BLOCK \<le> length data")
    case True
    have "length (rest_of SHA_BLOCK SHA_BLOCK (drop SHA_BLOCK data)) \<le> length (drop SHA_BLOCK data)"
      by (simp add: rest_length_mod)
    then have "SHA_BLOCK + (length (drop SHA_BLOCK data) - length (rest_of SHA_BLOCK SHA_BLOCK (drop SHA_BLOCK data)))
        = length data - length (rest_of SHA_BLOCK SHA_BLOCK data)" using True by (simp add: cut_long)
    then have "of_nat SHA_BLOCK + of_nat (length (drop SHA_BLOCK data) - length (rest_of SHA_BLOCK SHA_BLOCK (drop SHA_BLOCK data)))
        = (of_nat (length data - length (rest_of SHA_BLOCK SHA_BLOCK data)) :: u64)" by (metis of_nat_add)
    then show ?thesis using 1 [OF True] True
      by (subst sha_blocks.simps) (simp add: cut_long add.assoc)
  next
    case False
    then show ?thesis by (subst sha_blocks.simps) simp
  qed
qed

lemma sha_update_effect:
  assumes wf: "sh_wf h"
  shows "sh_wf (sha_update h data)" and "sh_pend (sha_update h data) = rest_of SHA_BLOCK SHA_BLOCK (sh_pend h @ data)"
    and "sh_state (sha_update h data) = foldl sha_compress (sh_state h) (blocks_of SHA_BLOCK SHA_BLOCK (sh_pend h @ data))"
    and "sh_bytes (sha_update h data) = sh_bytes h + of_nat (length data)"
proof -
  define B where "B = SHA_BLOCK"
  have B: "0 < B" by (simp add: B_def)
  have len: "length (sh_buf h) = B" "sh_len h < B" using wf by (simp_all add: sh_wf_def B_def)
  let ?r = "rest_of B B"
  text \<open>Stashing what is left of \<open>d\<close> in a hasher whose buffer is empty.\<close>
  have stash: "sh_wf u \<and> sh_pend u = ?r d \<and> sh_state u = foldl sha_compress (sh_state g) (blocks_of B B d) \<and> sh_bytes u = sh_bytes g + of_nat (length d)"
    if g: "length (sh_buf g) = B" "sh_len g = 0"
      and u: "u = (case sha_blocks g d of (g, d) \<Rightarrow> if d \<noteq> [] then g\<lparr>sh_buf := copy_into 0 d (sh_buf g), sh_len := length d, sh_bytes := sh_bytes g + of_nat (length d)\<rparr> else g)"
    for g d u
  proof -
    have lt: "length (?r d) < B" using left_length [OF B, of B d] by simp
    have le: "length (?r d) \<le> length d" by (simp add: rest_length_mod B)
    have bytes: "of_nat (length d - length (?r d)) + of_nat (length (?r d)) = (of_nat (length d) :: u64)"
      using le by (metis le_add_diff_inverse2 of_nat_add)
    show ?thesis using u g lt B le bytes
      by (auto simp: sha_blocks_eq B_def [symmetric] sh_wf_def sh_pend_def copy_into_def add.assoc)
  qed
  have "sh_wf (sha_update h data) \<and> sh_pend (sha_update h data) = ?r (sh_pend h @ data)
    \<and> sh_state (sha_update h data) = foldl sha_compress (sh_state h) (blocks_of B B (sh_pend h @ data))
    \<and> sh_bytes (sha_update h data) = sh_bytes h + of_nat (length data)"
  proof (cases "sh_len h = 0")
    case True
    then show ?thesis using stash [OF len(1) True, of "sha_update h data" data]
      by (simp add: sha_update_def sha_top_up_def sh_pend_def)
  next
    case False
    have pl: "length (sh_pend h) = sh_len h" using len by (simp add: sh_pend_def)
    show ?thesis
    proof (cases "B \<le> sh_len h + length data")
      case True
      define n where "n = B - sh_len h"
      have n: "min (B - sh_len h) (length data) = n" "sh_len h + n = B" "n \<le> length data" using True len(2) by (auto simp: n_def)
      have buf: "copy_into (sh_len h) (take n data) (sh_buf h) = sh_pend h @ take n data"
        using n len by (simp add: copy_into_def sh_pend_def)
      define g where "g = h\<lparr>sh_buf := sh_pend h @ take n data, sh_len := 0, sh_bytes := sh_bytes h + of_nat n, sh_state := sha_compress (sh_state h) (sh_pend h @ take n data)\<rparr>"
      have top: "sha_top_up h data = (g, drop n data)"
        using False n buf by (simp add: sha_top_up_def B_def [symmetric] Let_def g_def)
      have bl: "length (sh_pend h @ take n data) = B" using n pl by simp
      have "blocks_of B B (sh_pend h @ data) = (sh_pend h @ take n data) # blocks_of B B (drop n data)" "?r (sh_pend h @ data) = ?r (drop n data)"
        using cut_block [OF bl B, of B "drop n data"] by simp_all
      moreover have "sh_bytes h + of_nat n + of_nat (length data - n) = sh_bytes h + (of_nat (length data) :: u64)"
        using n(3) by (metis add.assoc le_add_diff_inverse of_nat_add)
      ultimately show ?thesis using stash [of g "sha_update h data" "drop n data"] bl top
        by (simp add: sha_update_def g_def)
    next
      case short: False
      then have n: "min (B - sh_len h) (length data) = length data" by simp
      have buf: "copy_into (sh_len h) data (sh_buf h) = sh_pend h @ data @ drop (sh_len h + length data) (sh_buf h)"
        by (simp add: copy_into_def sh_pend_def)
      have top: "sha_top_up h data = (h\<lparr>sh_buf := sh_pend h @ data @ drop (sh_len h + length data) (sh_buf h), sh_len := sh_len h + length data, sh_bytes := sh_bytes h + of_nat (length data)\<rparr>, [])"
        using False n buf short by (simp add: sha_top_up_def B_def [symmetric] Let_def)
      show ?thesis using top short len pl B
        by (simp add: sha_update_def sha_blocks_eq B_def [symmetric] sh_wf_def sh_pend_def)
    qed
  qed
  then show "sh_wf (sha_update h data)" "sh_pend (sha_update h data) = rest_of SHA_BLOCK SHA_BLOCK (sh_pend h @ data)"
    "sh_state (sha_update h data) = foldl sha_compress (sh_state h) (blocks_of SHA_BLOCK SHA_BLOCK (sh_pend h @ data))"
    "sh_bytes (sha_update h data) = sh_bytes h + of_nat (length data)" by (simp_all add: B_def)
qed

interpretation sha: block_stream SHA_BLOCK SHA_BLOCK sh_wf sh_state sh_pend sha_update sha_compress
  by unfold_locales (simp_all add: sha_update_effect, simp add: sh_wf_def sh_pend_def)

section \<open>The standard\<close>

text \<open>
  Padding as the standard has it: a one bit, zeros, and the length in bits as a 64-bit number, so that
  the whole is a multiple of the block size.
\<close>

definition sha_pad :: "u8 list \<Rightarrow> u8 list" where
  "sha_pad msg = msg @ [0x80] @ replicate ((119 - length msg mod 64) mod 64) 0 @ be_bytes 8 (of_nat (8 * length msg) :: u64)"

definition sha256_spec :: "u8 list \<Rightarrow> u8 list" where
  "sha256_spec msg = concat (map (be_bytes 4) (foldl sha_compress SHA_H0 (blocks_of SHA_BLOCK SHA_BLOCK (sha_pad msg))))"

definition hmac_key :: "u8 list \<Rightarrow> u8 list" where
  "hmac_key key = (let k = (if length key > SHA_BLOCK then sha256_spec key else key) in k @ replicate (SHA_BLOCK - length k) 0)"

definition hmac_spec :: "u8 list \<Rightarrow> u8 list \<Rightarrow> u8 list" where
  "hmac_spec key msg =
     sha256_spec (map ((XOR) 0x5C) (hmac_key key) @ sha256_spec (map ((XOR) 0x36) (hmac_key key) @ msg))"

lemma sha_pad_length: "length (sha_pad msg) mod 64 = 0"
proof -
  define m where "m = length msg mod 64"
  have m: "m < 64" by (simp add: m_def)
  have "(119 - m) mod 64 = (if m \<le> 55 then 55 - m else 119 - m)" using m by (simp add: le_mod_geq)
  then have "(m + (9 + (119 - m) mod 64)) mod 64 = 0" using m by auto
  then have "(length msg + (9 + (119 - m) mod 64)) mod 64 = 0" unfolding m_def by (simp only: mod_add_left_eq)
  then show ?thesis by (simp add: sha_pad_def m_def ac_simps)
qed

lemma blocks_of_one: "length xs = SHA_BLOCK \<Longrightarrow> blocks_of SHA_BLOCK SHA_BLOCK xs = [xs]"
  using cut_block [of xs SHA_BLOCK SHA_BLOCK "[]"] by simp

lemma zero_fill_tail: "length a = k \<Longrightarrow> k \<le> n \<Longrightarrow> length (a @ b) = m \<Longrightarrow> n \<le> m \<Longrightarrow> zero_fill k n (a @ b) = a @ replicate (n - k) 0 @ drop (n - k) b"
  by (auto simp: zero_fill_def copy_into_def)

text \<open>The last block or two.\<close>

lemma sha_finalize_eq:
  assumes wf: "sh_wf h" and l: "sh_bytes h * 8 = bits"
  defines "p \<equiv> sh_pend h"
  shows "sha_finalize h = concat (map (be_bytes 4) (foldl sha_compress (sh_state h)
    (blocks_of SHA_BLOCK SHA_BLOCK (p @ [0x80] @ replicate ((119 - length p mod 64) mod 64) 0 @ be_bytes 8 bits))))"
proof -
  let ?k = "sh_len h" and ?S = "sh_state h" and ?buf = "sh_buf h"
  have len: "length ?buf = 64" "?k < 64" "length p = ?k" using wf by (simp_all add: sh_wf_def SHA_BLOCK_def p_def sh_pend_def)
  have set: "?buf[?k := 0x80] = (p @ [0x80]) @ drop (?k + 1) ?buf" using len by (simp add: p_def sh_pend_def upd_conv_take_nth_drop)
  show ?thesis
  proof (cases "?k + 1 > 56")
    case True
    have fill: "zero_fill (?k + 1) 64 (?buf[?k := 0x80]) = p @ [0x80] @ replicate (63 - ?k) 0"
      unfolding set using len by (subst zero_fill_tail [where m = 64]) auto
    have last: "copy_into 56 (be_bytes 8 bits) (zero_fill 0 56 (p @ [0x80] @ replicate (63 - ?k) 0)) = replicate 56 0 @ be_bytes 8 bits"
      using len by (simp add: zero_fill_def copy_into_def)
    have z: "(119 - length p mod 64) mod 64 = (63 - ?k) + 56" using True len by simp
    have "blocks_of SHA_BLOCK SHA_BLOCK ((p @ [0x80] @ replicate (63 - ?k) 0) @ replicate 56 0 @ be_bytes 8 bits)
        = [p @ [0x80] @ replicate (63 - ?k) 0, replicate 56 0 @ be_bytes 8 bits]"
      using len cut_block(1) [of "p @ [0x80] @ replicate (63 - ?k) 0" SHA_BLOCK SHA_BLOCK] blocks_of_one [of "replicate 56 0 @ be_bytes 8 bits"]
      by (simp add: SHA_BLOCK_def)
    then show ?thesis using True fill last l unfolding z replicate_add
      by (simp add: sha_finalize_def Let_def SHA_BLOCK_def)
  next
    case False
    have fill: "copy_into 56 (be_bytes 8 bits) (zero_fill (?k + 1) 56 (?buf[?k := 0x80])) = p @ [0x80] @ replicate (55 - ?k) 0 @ be_bytes 8 bits"
    proof -
      let ?a = "p @ [0x80] @ replicate (55 - ?k) 0" and ?b = "drop (55 - ?k) (drop (?k + 1) ?buf)"
      have "zero_fill (?k + 1) 56 (?buf[?k := 0x80]) = ?a @ ?b"
        unfolding set using len False by (subst zero_fill_tail [where m = 64]) auto
      moreover have "length ?a = 56" "length ?b = 8" using len False by simp_all
      ultimately show ?thesis using copy_into_mid [of ?a 56 ?b "be_bytes 8 bits" "[]"] by simp
    qed
    have z: "(119 - length p mod 64) mod 64 = 55 - ?k" using False len by (simp add: le_mod_geq)
    have "blocks_of SHA_BLOCK SHA_BLOCK (p @ [0x80] @ replicate (55 - ?k) 0 @ be_bytes 8 bits) = [p @ [0x80] @ replicate (55 - ?k) 0 @ be_bytes 8 bits]"
      using len False by (intro blocks_of_one) (simp add: SHA_BLOCK_def)
    then show ?thesis using False fill l unfolding z by (simp add: sha_finalize_def Let_def SHA_BLOCK_def)
  qed
qed

lemma sha_new_wf [simp]: "sh_wf sha_new" "sh_pend sha_new = []" "sh_state sha_new = SHA_H0" "sh_bytes sha_new = 0"
  by (simp_all add: sha_new_def sh_wf_def sh_pend_def)

lemma sha_bytes_total: "sh_wf h \<Longrightarrow> sh_bytes (foldl sha_update h ps) = sh_bytes h + of_nat (length (concat ps))"
  by (induction ps arbitrary: h) (simp_all add: sha_update_effect add.assoc)

lemma sha_stream: "sha_finalize (foldl sha_update sha_new ps) = sha256_spec (concat ps)"
proof -
  let ?h = "foldl sha_update sha_new ps" and ?m = "concat ps"
  note S = sha.stream [OF sha_new_wf(1), of ps, simplified]
  have bits: "sh_bytes ?h * 8 = of_nat (8 * length ?m)" using sha_bytes_total [OF sha_new_wf(1), of ps] by (simp add: mult.commute)
  have l: "length (sh_pend ?h) mod 64 = length ?m mod 64" using S(3) rest_length_mod [of SHA_BLOCK ?m] by (simp add: SHA_BLOCK_def)
  show ?thesis using sha_finalize_eq [OF S(1) bits] l S(2,3) unfolding sha256_spec_def sha_pad_def
    by (simp add: cut_append(1) [of SHA_BLOCK SHA_BLOCK ?m])
qed

lemma sha_hash_spec: "sha_hash data = sha256_spec data"
  using sha_stream [of "[data]"] by (simp add: sha_hash_def)

lemma sha256_spec_length [simp]: "length (sha256_spec m) = 32"
proof -
  have "length (foldl sha_compress S bs) = 8" if "length S = 8" for S bs
    using that by (induction bs arbitrary: S) (simp_all add: sha_compress_def Let_def)
  then show ?thesis by (simp add: sha256_spec_def length_concat_same [where n = 4] SHA_H0_def)
qed

lemma map2_replicate: "length ys = n \<Longrightarrow> map2 f (replicate n x) ys = map (f x) ys"
  by (induction n arbitrary: ys) (auto simp: length_Suc_conv)

lemma hmac_new_eq: "hmac_new key = \<lparr>hm_inner = sha_update sha_new (map ((XOR) 0x36) (hmac_key key)), hm_outer_key = map ((XOR) 0x5C) (hmac_key key)\<rparr>"
proof -
  have "copy_into 0 (if length key > SHA_BLOCK then sha_hash key else key) (replicate SHA_BLOCK 0) = hmac_key key"
    by (simp add: hmac_key_def copy_into_def sha_hash_spec)
  moreover have "length (hmac_key key) = SHA_BLOCK" by (auto simp: hmac_key_def Let_def SHA_BLOCK_def)
  ultimately show ?thesis by (simp add: hmac_new_def Let_def map2_replicate)
qed

lemma hmac_stream: "hmac_finalize (foldl hmac_update (hmac_new key) ps) = hmac_spec key (concat ps)"
proof -
  have "hm_inner (foldl hmac_update h ps) = foldl sha_update (hm_inner h) ps \<and> hm_outer_key (foldl hmac_update h ps) = hm_outer_key h" for h
    by (induction ps arbitrary: h) (simp_all add: hmac_update_def)
  then show ?thesis using sha_stream [of "map ((XOR) 0x36) (hmac_key key) # ps"] sha_stream [of "[map ((XOR) 0x5C) (hmac_key key), x]" for x]
    by (simp add: hmac_finalize_def hmac_new_eq hmac_spec_def)
qed

section \<open>Properties\<close>

text \<open>
  (C25) SHA-256 in pieces is SHA-256. However a message is cut into calls of \<^verbatim>\<open>update\<close>, the
  digest is the one that the standard defines: the compression function folded over the blocks of
  the padded message.
\<close>

theorem sha256_correct:
  "sha_finalize (foldl sha_update sha_new pieces) = sha256_spec (concat pieces)
   \<and> sha_hash data = sha256_spec data \<and> length (sha_pad data) mod 64 = 0"
  by (simp add: sha_stream sha_hash_spec sha_pad_length)

text \<open>
  HMAC in pieces is HMAC. However the message is cut into calls of \<^verbatim>\<open>update\<close>, the tag is
  the hash of the outer key and the hash of the inner key and the message.
\<close>

theorem hmac_correct:
  "hmac_finalize (foldl hmac_update (hmac_new key) pieces) = hmac_spec key (concat pieces) \<and> hmac key data = hmac_spec key data"
  using hmac_stream [of key "[data]"] by (simp add: hmac_stream hmac_def)

end
