(* ===== verification/Ascii.thy ===== *)
theory Ascii
  imports Prelude
begin

text \<open>
  Byte strings and the character classes of \<^verbatim>\<open>u8\<close> in the standard library, as far as the kernel uses
  them: literals such as \<^verbatim>\<open>b"pool:"\<close>, \<^verbatim>\<open>is_ascii_digit\<close>, \<^verbatim>\<open>is_ascii_uppercase\<close>, \<^verbatim>\<open>is_ascii_alphabetic\<close>
  and \<^verbatim>\<open>is_ascii_alphanumeric\<close>.
\<close>

definition ascii :: "string \<Rightarrow> u8 list" where
  "ascii s = map of_char s"

definition is_ascii_digit :: "u8 \<Rightarrow> bool" where
  "is_ascii_digit c = (0x30 \<le> c \<and> c \<le> 0x39)"

definition is_ascii_uppercase :: "u8 \<Rightarrow> bool" where
  "is_ascii_uppercase c = (0x41 \<le> c \<and> c \<le> 0x5A)"

definition is_ascii_lowercase :: "u8 \<Rightarrow> bool" where
  "is_ascii_lowercase c = (0x61 \<le> c \<and> c \<le> 0x7A)"

definition is_ascii_alphabetic :: "u8 \<Rightarrow> bool" where
  "is_ascii_alphabetic c = (is_ascii_uppercase c \<or> is_ascii_lowercase c)"

definition is_ascii_alphanumeric :: "u8 \<Rightarrow> bool" where
  "is_ascii_alphanumeric c = (is_ascii_alphabetic c \<or> is_ascii_digit c)"

lemmas char_class_defs = is_ascii_digit_def is_ascii_uppercase_def is_ascii_lowercase_def
  is_ascii_alphabetic_def is_ascii_alphanumeric_def

lemma length_ascii [simp]: "length (ascii s) = length s"
  by (simp add: ascii_def)

end
