(* ===== verification/Keys.thy ===== *)
theory Keys
  imports Hkdf Crypto_Types Tiers Ascii
begin

text \<open>
  Key management: \<^verbatim>\<open>src/kernel-core/src/crypto/master_key.rs\<close> and
  \<^verbatim>\<open>src/kernel-core/src/crypto/key_hierarchy.rs\<close>. The master key comes from a passphrase by PBKDF2, the
  keys of the four pools from the master key by HKDF. The statics of both files are one record; a
  passphrase is its bytes. Status output is left out.
\<close>

section \<open>Definitions: the master key\<close>

definition PBKDF2_ITERATIONS :: u32 where "PBKDF2_ITERATIONS = 100000"

record key_ring =
  kr_unlocked :: bool
  kr_master :: crypto_key
  kr_salt :: salt
  kr_pools_ready :: bool
  kr_pool_keys :: "crypto_key list"

definition key_ring_boot :: key_ring where
  "key_ring_boot = \<lparr>kr_unlocked = False, kr_master = key_zero, kr_salt = salt_zero, kr_pools_ready = False,
     kr_pool_keys = replicate 4 key_zero\<rparr>"

text \<open>The rounds after the first: hash again and collect.\<close>

primrec pbkdf2_rounds :: "nat \<Rightarrow> u8 list \<Rightarrow> u8 list \<Rightarrow> u8 list \<Rightarrow> u8 list" where
  "pbkdf2_rounds 0 password u result = result"
| "pbkdf2_rounds (Suc n) password u result =
     (let u = hmac password u in pbkdf2_rounds n password u (map2 (XOR) result u))"

definition pbkdf2_f :: "u8 list \<Rightarrow> u8 list \<Rightarrow> u32 \<Rightarrow> u32 \<Rightarrow> u8 list" where
  "pbkdf2_f password salt iterations block_num =
     (let salt_i = replicate 64 0;
          salt_len = min (length salt) 60;
          salt_i = copy_into 0 (take salt_len salt) salt_i;
          salt_i = copy_into salt_len (be_bytes 4 block_num) salt_i;
          u = hmac password (take (salt_len + 4) salt_i)
      in pbkdf2_rounds (unat iterations - 1) password u u)"

definition pbkdf2_sha256 :: "u8 list \<Rightarrow> u8 list \<Rightarrow> u32 \<Rightarrow> u8 list" where
  "pbkdf2_sha256 password salt iterations = copy_into 0 (pbkdf2_f password salt iterations 1) (replicate KEY_SIZE 0)"

record master_key =
  mk_key :: crypto_key
  mk_salt :: salt

definition mk_derive :: "u8 list \<Rightarrow> salt \<Rightarrow> crypto_error + master_key" where
  "mk_derive passphrase s =
     (if passphrase = [] then Err InvalidPassphrase
      else Ok \<lparr>mk_key = key_from_bytes (pbkdf2_sha256 passphrase (sl_bytes s) PBKDF2_ITERATIONS), mk_salt = s\<rparr>)"

definition mk_verify :: "u8 list \<Rightarrow> salt \<Rightarrow> crypto_key \<Rightarrow> bool" where
  "mk_verify passphrase s expected =
     (case mk_derive passphrase s of
        Inl _ \<Rightarrow> False
      | Inr derived \<Rightarrow> foldl (\<lambda>diff (a, b). diff OR (a XOR b)) 0 (zip (ck_bytes (mk_key derived)) (ck_bytes expected)) = 0)"

definition set_global :: "master_key \<Rightarrow> key_ring \<Rightarrow> key_ring" where
  "set_global m k = k\<lparr>kr_master := mk_key m, kr_salt := mk_salt m, kr_unlocked := True\<rparr>"

definition clear_global :: "key_ring \<Rightarrow> key_ring" where
  "clear_global k = k\<lparr>kr_unlocked := False, kr_master := key_zeroize (kr_master k), kr_salt := salt_zero\<rparr>"

definition global_key :: "key_ring \<Rightarrow> crypto_key option" where
  "global_key k = (if kr_unlocked k then Some (kr_master k) else None)"

definition global_salt :: "key_ring \<Rightarrow> salt option" where
  "global_salt k = (if kr_unlocked k then Some (kr_salt k) else None)"

definition unlock :: "u8 list \<Rightarrow> salt \<Rightarrow> key_ring \<Rightarrow> key_ring \<times> (crypto_error + unit)" where
  "unlock passphrase s k =
     (case mk_derive passphrase s of Inl e \<Rightarrow> (k, Err e) | Inr master \<Rightarrow> (set_global master k, Ok ()))"

definition lock :: "key_ring \<Rightarrow> key_ring" where
  "lock k = clear_global k"

definition is_unlocked :: "key_ring \<Rightarrow> bool" where
  "is_unlocked k = kr_unlocked k"

section \<open>Definitions: the pool keys\<close>

definition POOL_LABELS :: "u8 list list" where
  "POOL_LABELS = map ascii [''pool:public'', ''pool:internal'', ''pool:sensitive'', ''pool:secret'']"

definition HKDF_SALT :: "u8 list" where
  "HKDF_SALT = ascii ''SemanticOS-HKDF-Salt-v1''"

definition hkdf_sha256 :: "u8 list \<Rightarrow> u8 list \<Rightarrow> u8 list" where
  "hkdf_sha256 input_key info =
     (let prk = hmac HKDF_SALT input_key;
          expand_input = replicate 64 0;
          info_len = min (length info) 63;
          expand_input = copy_into 0 (take info_len info) expand_input;
          expand_input = expand_input[info_len := 1]
      in hmac prk (take (info_len + 1) expand_input))"

definition derive_pool_key :: "crypto_key \<Rightarrow> u8 list \<Rightarrow> crypto_key" where
  "derive_pool_key master label = key_from_bytes (hkdf_sha256 (ck_bytes master) label)"

definition kh_init :: "key_ring \<Rightarrow> key_ring \<times> (crypto_error + unit)" where
  "kh_init k =
     (case global_key k of
        None \<Rightarrow> (k, Err KeyNotInitialized)
      | Some master \<Rightarrow>
          (k\<lparr>kr_pool_keys := foldl (\<lambda>ks (i, label). ks[i := derive_pool_key master label]) (kr_pool_keys k) (enumerate 0 POOL_LABELS),
             kr_pools_ready := True\<rparr>, Ok ()))"

definition kh_clear :: "key_ring \<Rightarrow> key_ring" where
  "kh_clear k = k\<lparr>kr_pools_ready := False, kr_pool_keys := map key_zeroize (kr_pool_keys k)\<rparr>"

definition get_pool_key :: "key_ring \<Rightarrow> security_tier \<Rightarrow> crypto_error + crypto_key" where
  "get_pool_key k t =
     (if \<not> kr_pools_ready k then Err KeyNotInitialized
      else let index = unat (tier_value t)
           in if index \<ge> 4 then Err InvalidKeyLength else Ok (kr_pool_keys k ! index))"

text \<open>A SUID is a 128-bit number here.\<close>

definition derive_object_key :: "key_ring \<Rightarrow> security_tier \<Rightarrow> 128 word \<Rightarrow> crypto_error + crypto_key" where
  "derive_object_key k t suid =
     and_then (get_pool_key k t) (\<lambda>pool_key.
       let label = replicate 20 0;
           label = copy_into 0 (ascii ''obj:'') label;
           label = copy_into 4 (le_bytes 16 suid) label
       in Ok (key_from_bytes (hkdf_sha256 (ck_bytes pool_key) label)))"

definition derive_purpose_key :: "key_ring \<Rightarrow> u8 list \<Rightarrow> crypto_error + crypto_key" where
  "derive_purpose_key k purpose =
     and_then (ok_or (global_key k) KeyNotInitialized) (\<lambda>master. Ok (key_from_bytes (hkdf_sha256 (ck_bytes master) purpose)))"

definition rotate_pool_key :: "key_ring \<Rightarrow> security_tier \<Rightarrow> u8 list \<Rightarrow> crypto_error + crypto_key" where
  "rotate_pool_key k t context =
     and_then (ok_or (global_key k) KeyNotInitialized) (\<lambda>master.
       let label = replicate 48 0;
           base_label = POOL_LABELS ! unat (tier_value t);
           base_len = length base_label;
           label = copy_into 0 base_label label;
           label = label[base_len := of_char CHR '':''];
           ctx_len = min (length context) (48 - base_len - 1);
           label = copy_into (base_len + 1) (take ctx_len context) label
       in Ok (key_from_bytes (hkdf_sha256 (ck_bytes master) (take (base_len + 1 + ctx_len) label))))"

definition generate_session_key :: "key_ring \<Rightarrow> u64 \<Rightarrow> crypto_key" where
  "generate_session_key k seed =
     (let input = replicate 40 0;
          input = copy_into 0 (le_bytes 8 seed) input;
          input = copy_into 8 (ascii ''session:'') input;
          input = (case global_key k of None \<Rightarrow> input | Some master \<Rightarrow> copy_into 16 (take 24 (ck_bytes master)) input)
      in key_from_bytes (sha_hash input))"

section \<open>The standards\<close>

text \<open>PBKDF2 (RFC 8018), first block: the rounds \<open>U(1)\<close>, \<open>U(2)\<close>, ... and their sum.\<close>

primrec pbkdf2_U :: "u8 list \<Rightarrow> u8 list \<Rightarrow> nat \<Rightarrow> u8 list" where
  "pbkdf2_U password salt 0 = hmac_spec password (salt @ be_bytes 4 (1 :: u32))"
| "pbkdf2_U password salt (Suc i) = hmac_spec password (pbkdf2_U password salt i)"

definition pbkdf2_spec :: "u8 list \<Rightarrow> u8 list \<Rightarrow> nat \<Rightarrow> u8 list" where
  "pbkdf2_spec password salt c = map (\<lambda>j. foldl (XOR) 0 (map (\<lambda>i. pbkdf2_U password salt i ! j) [0..<c])) [0..<32]"

text \<open>One block of HKDF with the fixed salt.\<close>

definition hkdf_block :: "u8 list \<Rightarrow> u8 list \<Rightarrow> u8 list" where
  "hkdf_block ikm info = fst (hkdf_expand (hkdf_extract HKDF_SALT ikm) info (replicate 32 0))"

section \<open>Lemmas\<close>

lemma hmac_is_spec: "hmac key data = hmac_spec key data"
  using hmac_stream [of key "[data]"] by (simp add: hmac_def)

lemma length_pbkdf2_U [simp]: "length (pbkdf2_U p s i) = 32"
  by (cases i) simp_all

lemma length_pbkdf2_rounds [simp]: "length u = 32 \<Longrightarrow> length r = 32 \<Longrightarrow> length (pbkdf2_rounds n p u r) = 32"
  by (induction n arbitrary: u r) (simp_all add: Let_def hmac_is_spec)

lemma pbkdf2_rounds_nth:
  assumes "j < 32" "length r = 32"
  shows "pbkdf2_rounds n p (pbkdf2_U p s k) r ! j = foldl (XOR) (r ! j) (map (\<lambda>i. pbkdf2_U p s i ! j) [Suc k..<Suc k + n])"
  using assms(2)
proof (induction n arbitrary: k r)
  case (Suc n)
  let ?u = "pbkdf2_U p s (Suc k)"
  have u: "hmac p (pbkdf2_U p s k) = ?u" by (simp add: hmac_is_spec)
  have "pbkdf2_rounds (Suc n) p (pbkdf2_U p s k) r = pbkdf2_rounds n p ?u (map2 (XOR) r ?u)" by (simp only: pbkdf2_rounds.simps u Let_def)
  moreover have "[Suc k..<Suc k + Suc n] = Suc k # [Suc (Suc k)..<Suc (Suc k) + n]" by (simp add: upt_conv_Cons)
  moreover have "map2 (XOR) r ?u ! j = r ! j XOR ?u ! j" using assms(1) Suc.prems by (simp del: pbkdf2_U.simps)
  ultimately show ?case using Suc.IH [of "map2 (XOR) r ?u" "Suc k"] Suc.prems by (simp del: pbkdf2_U.simps)
qed simp

lemma pbkdf2_correct:
  assumes "length salt \<le> 60" and "0 < unat iterations"
  shows "pbkdf2_sha256 password salt iterations = pbkdf2_spec password salt (unat iterations)"
proof -
  define n where "n = unat iterations - 1"
  have c: "unat iterations = Suc n" using assms(2) by (simp add: n_def)
  let ?U = "pbkdf2_U password salt"
  have salt: "take (length salt + 4) (copy_into (length salt) (be_bytes 4 (1 :: u32)) (copy_into 0 salt (replicate 64 0))) = salt @ be_bytes 4 (1 :: u32)"
    using assms(1) by (simp add: copy_into_def)
  have "pbkdf2_f password salt iterations 1 = pbkdf2_rounds n password (?U 0) (?U 0)"
    using assms(1) salt by (simp add: pbkdf2_f_def Let_def n_def hmac_is_spec min_absorb1)
  then have e: "pbkdf2_sha256 password salt iterations = pbkdf2_rounds n password (?U 0) (?U 0)"
    by (simp add: pbkdf2_sha256_def copy_into_def KEY_SIZE_def del: pbkdf2_U.simps)
  show ?thesis
  proof (rule nth_equalityI)
    fix j assume "j < length (pbkdf2_sha256 password salt iterations)"
    then have j: "j < 32" by (simp add: e del: pbkdf2_U.simps)
    have "[0..<Suc n] = 0 # [Suc 0..<Suc 0 + n]" by (simp add: upt_conv_Cons)
    then show "pbkdf2_sha256 password salt iterations ! j = pbkdf2_spec password salt (unat iterations) ! j"
      using j pbkdf2_rounds_nth [OF j, of "?U 0" n password salt 0] by (simp add: e pbkdf2_spec_def c del: pbkdf2_U.simps upt_Suc)
  qed (simp add: e pbkdf2_spec_def del: pbkdf2_U.simps)
qed

lemma hkdf_sha256_eq: "hkdf_sha256 input_key info = hkdf_block input_key (take 63 info)"
proof -
  define i where "i = take 63 info"
  have i: "length i \<le> 63" "take (length i) info = i" "min (length info) 63 = length i" by (auto simp: i_def min_def)
  have "(copy_into 0 i (replicate 64 0))[length i := 1] = copy_into 0 (i @ [1]) (replicate 64 (0 :: u8))"
    using i(1) by (simp add: list_update_copy_into copy_into_append_at)
  moreover have "take (length i + 1) (copy_into 0 (i @ [1]) (replicate 64 0)) = i @ [1]" by (simp add: copy_into_def)
  ultimately have "take (length i + 1) ((copy_into 0 i (replicate 64 0))[length i := 1]) = i @ [1]" by simp
  then have "hkdf_sha256 input_key info = hmac_spec (hmac_spec HKDF_SALT input_key) (i @ [1])"
    unfolding hkdf_sha256_def Let_def i(2) i(3) by (simp add: hmac_is_spec)
  moreover have "hkdf_extract HKDF_SALT input_key = hmac_spec HKDF_SALT input_key"
    using hmac_stream [of HKDF_SALT "[input_key]"] by (simp add: hkdf_extract_def HKDF_SALT_def ascii_def)
  ultimately show ?thesis by (simp add: hkdf_block_def hkdf_expand_eq hkdf_stream_def i_def)
qed

definition tier_label :: "security_tier \<Rightarrow> u8 list" where
  "tier_label t = POOL_LABELS ! unat (tier_value t)"

lemma tier_label_simps [simp]: "tier_label Public = ascii ''pool:public''" "tier_label Internal = ascii ''pool:internal''"
  "tier_label Sensitive = ascii ''pool:sensitive''" "tier_label Secret = ascii ''pool:secret''"
  by (simp_all add: tier_label_def POOL_LABELS_def)

lemma length_tier_label: "length (tier_label t) \<le> 14"
  by (cases t) (simp_all add: ascii_def)

text \<open>The ring always has its four slots.\<close>

definition ring_ok :: "key_ring \<Rightarrow> bool" where
  "ring_ok k \<longleftrightarrow> length (kr_pool_keys k) = 4 \<and> (\<not> kr_unlocked k \<longrightarrow> set (ck_bytes (kr_master k)) \<subseteq> {0})
     \<and> (\<not> kr_pools_ready k \<longrightarrow> (\<forall>p \<in> set (kr_pool_keys k). set (ck_bytes p) \<subseteq> {0}))"

lemma set_zeroize [simp]: "set (ck_bytes (key_zeroize p)) \<subseteq> {0}"
  by (auto simp: key_zeroize_def)

lemma ring_ok_boot: "ring_ok key_ring_boot"
  by (auto simp: ring_ok_def key_ring_boot_def key_zero_def)

lemma kh_init_Ok:
  assumes "ring_ok k" and "kr_unlocked k"
  shows "kh_init k = (k\<lparr>kr_pool_keys := map (derive_pool_key (kr_master k)) POOL_LABELS, kr_pools_ready := True\<rparr>, Ok ())"
proof -
  obtain a b c d where p: "kr_pool_keys k = [a, b, c, d]" using assms(1) by (auto simp: ring_ok_def numeral_eq_Suc length_Suc_conv)
  show ?thesis using assms(2) by (simp add: kh_init_def global_key_def p POOL_LABELS_def)
qed

lemma ring_ok_step:
  assumes "ring_ok k"
  shows "ring_ok (fst (unlock pass s k))" and "ring_ok (lock k)" and "ring_ok (fst (kh_init k))" and "ring_ok (kh_clear k)"
proof -
  show "ring_ok (fst (unlock pass s k))" using assms by (auto simp: unlock_def set_global_def ring_ok_def split: sum.split)
  show "ring_ok (lock k)" using assms by (simp add: lock_def clear_global_def ring_ok_def)
  show "ring_ok (kh_clear k)" using assms by (simp add: kh_clear_def ring_ok_def)
  show "ring_ok (fst (kh_init k))"
  proof (cases "kr_unlocked k")
    case True
    then show ?thesis using assms kh_init_Ok [OF assms True] by (simp add: ring_ok_def POOL_LABELS_def)
  qed (simp add: kh_init_def global_key_def assms)
qed

lemma get_pool_key_derived:
  assumes "kr_pools_ready k" and "kr_pool_keys k = map (derive_pool_key master) POOL_LABELS"
  shows "get_pool_key k t = Ok (key_from_bytes (hkdf_block (ck_bytes master) (tier_label t)))"
proof -
  have "take 63 (tier_label t) = tier_label t" using length_tier_label [of t] by simp
  moreover have "unat (tier_value t) < 4" by (cases t) simp_all
  moreover have "length POOL_LABELS = 4" by (simp add: POOL_LABELS_def)
  ultimately show ?thesis using assms by (simp add: get_pool_key_def Let_def derive_pool_key_def hkdf_sha256_eq tier_label_def)
qed

text \<open>Without the master key nothing can be derived from it, and without pool keys nothing from them.\<close>

lemma locked_ring:
  assumes "\<not> kr_unlocked k" and "\<not> kr_pools_ready k"
  shows "get_pool_key k t = Err KeyNotInitialized" and "derive_object_key k t n = Err KeyNotInitialized"
    and "derive_purpose_key k p = Err KeyNotInitialized" and "rotate_pool_key k t c = Err KeyNotInitialized"
    and "kh_init k = (k, Err KeyNotInitialized)"
  using assms by (simp_all add: get_pool_key_def derive_object_key_def derive_purpose_key_def rotate_pool_key_def global_key_def kh_init_def)

lemma session_key_locked: "\<not> kr_unlocked k \<Longrightarrow> generate_session_key k seed = key_from_bytes (sha256_spec (le_bytes 8 seed @ ascii ''session:'' @ replicate 24 0))"
  by (simp add: generate_session_key_def global_key_def Let_def sha_hash_spec copy_into_def ascii_def)

section \<open>Properties\<close>

text \<open>
  (C26) Key derivation follows the standards. A passphrase and a salt of at most 60 bytes give the
  PBKDF2 key of the configured number of rounds, computed without the standard's list of blocks; and
  the simplified derivation of the key hierarchy is one block of RFC 5869 HKDF with the fixed salt,
  for labels of at most 63 bytes.
\<close>

theorem key_derivation_correct:
  assumes "passphrase \<noteq> []" and "length (sl_bytes s) \<le> 60" and "length info \<le> 63"
  shows "mk_derive passphrase s = Ok \<lparr>mk_key = key_from_bytes (pbkdf2_spec passphrase (sl_bytes s) 100000), mk_salt = s\<rparr>
    \<and> hkdf_sha256 key info = fst (hkdf_expand (hkdf_extract HKDF_SALT key) info (replicate 32 0))"
  using assms pbkdf2_correct [of "sl_bytes s" PBKDF2_ITERATIONS passphrase]
  by (simp add: mk_derive_def PBKDF2_ITERATIONS_def hkdf_sha256_eq hkdf_block_def)

theorem key_derivation_correct_witness:
  "mk_derive [1, 2] (salt_generate 5) = Ok \<lparr>mk_key = key_from_bytes (pbkdf2_spec [1, 2] (sl_bytes (salt_generate 5)) 100000), mk_salt = salt_generate 5\<rparr>"
  using key_derivation_correct [of "[1, 2]" "salt_generate 5" "[]"] by (simp add: salt_generate_def SALT_SIZE_def)

end
