(* ===== verification/Storage.thy ===== *)
theory Storage
  imports Aead Keys Crc32 Pools
begin

text \<open>
  Encrypted storage of the memory pools: \<^verbatim>\<open>src/kernel-core/src/storage/mod.rs\<close> and
  \<^verbatim>\<open>src/kernel-core/src/storage/persistence.rs\<close>. Structures that the code copies as raw memory
  (\<^verbatim>\<open>repr(C)\<close>) are written out byte by byte, little-endian; the four padding bytes inside
  \<^verbatim>\<open>PoolMetadata\<close>, whose value the language leaves open, are an argument.
\<close>

section \<open>Definitions: the storage format\<close>

definition STORAGE_MAGIC :: "u8 list" where "STORAGE_MAGIC = [0x53, 0x45, 0x4D, 0x4F]"
definition STORAGE_VERSION :: u32 where "STORAGE_VERSION = 1"
definition MAX_POOL_DATA_SIZE :: nat where "MAX_POOL_DATA_SIZE = 64 * 1024"
definition NUM_POOLS :: nat where "NUM_POOLS = 4"

record storage_header =
  hd_magic :: "u8 list"
  hd_version :: u32
  hd_salt :: "u8 list"
  hd_pool_table_offset :: u32
  hd_total_size :: u32
  hd_checksum :: u32
  hd_reserved :: "u8 list"

definition HEADER_SIZE :: nat where "HEADER_SIZE = 56"

definition header_bytes :: "storage_header \<Rightarrow> u8 list" where
  "header_bytes h = hd_magic h @ le_bytes 4 (hd_version h) @ hd_salt h @ le_bytes 4 (hd_pool_table_offset h)
     @ le_bytes 4 (hd_total_size h) @ le_bytes 4 (hd_checksum h) @ hd_reserved h"

definition read_header :: "u8 list \<Rightarrow> storage_header" where
  "read_header b = \<lparr>hd_magic = slice 0 4 b, hd_version = of_le_bytes (slice 4 4 b), hd_salt = slice 8 16 b,
     hd_pool_table_offset = of_le_bytes (slice 24 4 b), hd_total_size = of_le_bytes (slice 28 4 b),
     hd_checksum = of_le_bytes (slice 32 4 b), hd_reserved = slice 36 20 b\<rparr>"

text \<open>The bytes that are covered: all but the last four.\<close>

definition compute_checksum :: "storage_header \<Rightarrow> u32" where
  "compute_checksum h = NOT (foldl crc_bits_byte 0xFFFFFFFF (take (HEADER_SIZE - 4) (header_bytes h)))"

definition header_new :: "salt \<Rightarrow> u32 \<Rightarrow> u32 \<Rightarrow> storage_header" where
  "header_new s pool_table_offset total_size =
     (let header = \<lparr>hd_magic = STORAGE_MAGIC, hd_version = STORAGE_VERSION, hd_salt = sl_bytes s,
            hd_pool_table_offset = pool_table_offset, hd_total_size = total_size, hd_checksum = 0, hd_reserved = replicate 20 0\<rparr>
      in header\<lparr>hd_checksum := compute_checksum header\<rparr>)"

definition header_verify :: "storage_header \<Rightarrow> bool" where
  "header_verify h \<longleftrightarrow> hd_magic h = STORAGE_MAGIC \<and> hd_version h = STORAGE_VERSION \<and> hd_checksum h = compute_checksum h"

definition header_salt :: "storage_header \<Rightarrow> salt" where
  "header_salt h = salt_from_bytes (hd_salt h)"

record pool_entry =
  pe_tier :: u8
  pe_flags :: u8
  pe_reserved :: "u8 list"
  pe_data_offset :: u32
  pe_data_size :: u32
  pe_original_size :: u32
  pe_object_count :: u32
  pe_metadata :: "u8 list"

definition ENTRY_SIZE :: nat where "ENTRY_SIZE = 28"
definition TABLE_SIZE :: nat where "TABLE_SIZE = 112"
definition FLAG_ENCRYPTED :: u8 where "FLAG_ENCRYPTED = 0x01"
definition FLAG_COMPRESSED :: u8 where "FLAG_COMPRESSED = 0x02"
definition FLAG_SENSITIVE :: u8 where "FLAG_SENSITIVE = 0x04"

definition pool_entry_new :: "security_tier \<Rightarrow> u32 \<Rightarrow> u32 \<Rightarrow> u32 \<Rightarrow> pool_entry" where
  "pool_entry_new t data_offset data_size original_size =
     \<lparr>pe_tier = tier_value t, pe_flags = FLAG_ENCRYPTED OR (if tier_value t \<ge> 2 then FLAG_SENSITIVE else 0),
      pe_reserved = replicate 2 0, pe_data_offset = data_offset, pe_data_size = data_size,
      pe_original_size = original_size, pe_object_count = 0, pe_metadata = replicate 8 0\<rparr>"

definition is_encrypted :: "pool_entry \<Rightarrow> bool" where
  "is_encrypted e \<longleftrightarrow> pe_flags e AND FLAG_ENCRYPTED \<noteq> 0"

definition pool_entry_bytes :: "pool_entry \<Rightarrow> u8 list" where
  "pool_entry_bytes e = [pe_tier e, pe_flags e] @ pe_reserved e @ le_bytes 4 (pe_data_offset e) @ le_bytes 4 (pe_data_size e)
     @ le_bytes 4 (pe_original_size e) @ le_bytes 4 (pe_object_count e) @ pe_metadata e"

definition read_pool_entry :: "u8 list \<Rightarrow> pool_entry" where
  "read_pool_entry b = \<lparr>pe_tier = b ! 0, pe_flags = b ! 1, pe_reserved = slice 2 2 b, pe_data_offset = of_le_bytes (slice 4 4 b),
     pe_data_size = of_le_bytes (slice 8 4 b), pe_original_size = of_le_bytes (slice 12 4 b),
     pe_object_count = of_le_bytes (slice 16 4 b), pe_metadata = slice 20 8 b\<rparr>"

definition pool_table_new :: "pool_entry list" where
  "pool_table_new = replicate NUM_POOLS \<lparr>pe_tier = 0, pe_flags = 0, pe_reserved = replicate 2 0, pe_data_offset = 0,
     pe_data_size = 0, pe_original_size = 0, pe_object_count = 0, pe_metadata = replicate 8 0\<rparr>"

definition read_pool_table :: "u8 list \<Rightarrow> pool_entry list" where
  "read_pool_table b = map (\<lambda>i. read_pool_entry (slice (i * ENTRY_SIZE) ENTRY_SIZE b)) [0..<NUM_POOLS]"

record encrypted_pool_header =
  ep_nonce :: "u8 list"
  ep_tag :: "u8 list"

definition ENC_HEADER_SIZE :: nat where "ENC_HEADER_SIZE = 28"

definition enc_header_new :: "nonce \<Rightarrow> u8 list \<Rightarrow> encrypted_pool_header" where
  "enc_header_new n tag = \<lparr>ep_nonce = nc_bytes n, ep_tag = tag\<rparr>"

definition enc_header_nonce :: "encrypted_pool_header \<Rightarrow> nonce" where
  "enc_header_nonce h = nonce_from_bytes (ep_nonce h)"

definition enc_header_bytes :: "encrypted_pool_header \<Rightarrow> u8 list" where
  "enc_header_bytes h = ep_nonce h @ ep_tag h"

definition read_enc_header :: "u8 list \<Rightarrow> encrypted_pool_header" where
  "read_enc_header b = \<lparr>ep_nonce = slice 0 12 b, ep_tag = slice 12 16 b\<rparr>"

datatype storage_error =
  InvalidHeader | VersionMismatch | ChecksumFailed | PoolNotFound | EncryptionFailed | DecryptionFailed
| StAuthenticationFailed | StBufferTooSmall | StKeyNotInitialized | StIoError | StorageFull

text \<open>\<^verbatim>\<open>map_err\<close>\<close>

definition map_err :: "('e \<Rightarrow> 'f) \<Rightarrow> 'e + 'a \<Rightarrow> 'f + 'a" where
  "map_err f r = (case r of Inl e \<Rightarrow> Err (f e) | Inr x \<Rightarrow> Ok x)"

record storage_stats =
  ss_total_size :: nat
  ss_used_size :: nat
  ss_pool_count :: nat
  ss_object_count :: nat
  ss_encrypted_pools :: nat

definition storage_stats_empty :: storage_stats where
  "storage_stats_empty = \<lparr>ss_total_size = 0, ss_used_size = 0, ss_pool_count = 0, ss_object_count = 0, ss_encrypted_pools = 0\<rparr>"

section \<open>Definitions: serialization\<close>

record pool_metadata =
  pm_tier :: u8
  pm_frame_count :: u8
  pm_allocated_count :: u8
  pm_frame_size_4k :: u8
  pm_base_addr :: u64
  pm_allocation_bitmap :: u64
  pm_reserved :: "u8 list"

definition METADATA_SIZE :: nat where "METADATA_SIZE = 32"

definition from_pool :: "memory_pool \<Rightarrow> security_tier \<Rightarrow> pool_metadata" where
  "from_pool p t =
     (let (bitmap, allocated_count) =
            foldl (\<lambda>(bitmap, n) i. if is_frame_allocated p i then (bitmap OR push_bit i 1, n + 1) else (bitmap, n))
              (0, 0) [0..<min (frame_count p) 64]
      in \<lparr>pm_tier = tier_value t, pm_frame_count = of_nat (frame_count p), pm_allocated_count = allocated_count,
          pm_frame_size_4k = 1, pm_base_addr = mp_base p, pm_allocation_bitmap = bitmap, pm_reserved = replicate 8 0\<rparr>)"

definition metadata_bytes :: "u8 list \<Rightarrow> pool_metadata \<Rightarrow> u8 list" where
  "metadata_bytes padding m = [pm_tier m, pm_frame_count m, pm_allocated_count m, pm_frame_size_4k m] @ padding
     @ le_bytes 8 (pm_base_addr m) @ le_bytes 8 (pm_allocation_bitmap m) @ pm_reserved m"

definition read_metadata_bytes :: "u8 list \<Rightarrow> pool_metadata" where
  "read_metadata_bytes b = \<lparr>pm_tier = b ! 0, pm_frame_count = b ! 1, pm_allocated_count = b ! 2, pm_frame_size_4k = b ! 3,
     pm_base_addr = of_le_bytes (slice 8 8 b), pm_allocation_bitmap = of_le_bytes (slice 16 8 b), pm_reserved = slice 24 8 b\<rparr>"

record pool_serializer =
  se_buffer :: "u8 list"
  se_pos :: nat

definition ser_new :: pool_serializer where
  "ser_new = \<lparr>se_buffer = replicate MAX_POOL_DATA_SIZE 0, se_pos = 0\<rparr>"

definition ser_reset :: "pool_serializer \<Rightarrow> pool_serializer" where
  "ser_reset s = s\<lparr>se_pos := 0\<rparr>"

text \<open>\<^verbatim>\<open>write_bytes\<close>, and \<^verbatim>\<open>write_struct\<close> on the bytes of the structure.\<close>

definition write_bytes :: "pool_serializer \<Rightarrow> u8 list \<Rightarrow> pool_serializer \<times> (storage_error + unit)" where
  "write_bytes s data =
     (if se_pos s + length data > MAX_POOL_DATA_SIZE then (s, Err StBufferTooSmall)
      else (s\<lparr>se_buffer := copy_into (se_pos s) data (se_buffer s), se_pos := se_pos s + length data\<rparr>, Ok ()))"

fun write_frames :: "(u64 \<Rightarrow> u8) \<Rightarrow> memory_pool \<Rightarrow> nat list \<Rightarrow> pool_serializer \<Rightarrow> pool_serializer \<times> (storage_error + unit)" where
  "write_frames mem p [] s = (s, Ok ())"
| "write_frames mem p (i # is) s =
     (if is_frame_allocated p i
      then case write_bytes s (get_frame_data mem p i) of (s, Inl e) \<Rightarrow> (s, Err e) | (s, Inr _) \<Rightarrow> write_frames mem p is s
      else write_frames mem p is s)"

definition serialize_pool ::
    "(u64 \<Rightarrow> u8) \<Rightarrow> u8 list \<Rightarrow> memory_pool \<Rightarrow> security_tier \<Rightarrow> pool_serializer \<Rightarrow> pool_serializer \<times> (storage_error + nat)" where
  "serialize_pool mem padding p t s =
     (case write_bytes (ser_reset s) (metadata_bytes padding (from_pool p t)) of
        (s, Inl e) \<Rightarrow> (s, Err e)
      | (s, Inr _) \<Rightarrow>
          (case write_frames mem p [0..<frame_count p] s of
             (s, Inl e) \<Rightarrow> (s, Err e)
           | (s, Inr _) \<Rightarrow> (s, Ok (se_pos s))))"

definition ser_data :: "pool_serializer \<Rightarrow> u8 list" where
  "ser_data s = take (se_pos s) (se_buffer s)"

definition ser_len :: "pool_serializer \<Rightarrow> nat" where
  "ser_len s = se_pos s"

record pool_deserializer =
  de_data :: "u8 list"
  de_pos :: nat

definition de_new :: "u8 list \<Rightarrow> pool_deserializer" where
  "de_new data = \<lparr>de_data = data, de_pos = 0\<rparr>"

definition read_metadata :: "pool_deserializer \<Rightarrow> pool_deserializer \<times> (storage_error + pool_metadata)" where
  "read_metadata d =
     (if de_pos d + METADATA_SIZE > length (de_data d) then (d, Err StBufferTooSmall)
      else (d\<lparr>de_pos := de_pos d + METADATA_SIZE\<rparr>, Ok (read_metadata_bytes (slice (de_pos d) METADATA_SIZE (de_data d)))))"

definition read_frame :: "pool_deserializer \<Rightarrow> nat \<Rightarrow> pool_deserializer \<times> (storage_error + u8 list)" where
  "read_frame d sz =
     (if de_pos d + sz > length (de_data d) then (d, Err StBufferTooSmall)
      else (d\<lparr>de_pos := de_pos d + sz\<rparr>, Ok (slice (de_pos d) sz (de_data d))))"

definition de_remaining :: "pool_deserializer \<Rightarrow> nat" where
  "de_remaining d = length (de_data d) - de_pos d"

section \<open>Definitions: encryption of a pool\<close>

definition encrypt_pool :: "key_ring \<Rightarrow> security_tier \<Rightarrow> u8 list \<Rightarrow> nonce \<Rightarrow> u8 list \<Rightarrow> u8 list \<times> (storage_error + nat)" where
  "encrypt_pool k t plaintext n output =
     (case map_err (\<lambda>_. StKeyNotInitialized) (get_pool_key k t) of
        Inl e \<Rightarrow> (output, Err e)
      | Inr key \<Rightarrow>
          let total_size = ENC_HEADER_SIZE + length plaintext
          in if length output < total_size then (output, Err StBufferTooSmall)
             else case aead_encrypt key n [tier_value t] plaintext (drop ENC_HEADER_SIZE output) (replicate TAG_SIZE 0) of
                    (body, tag, Inl _) \<Rightarrow> (copy_into ENC_HEADER_SIZE body output, Err EncryptionFailed)
                  | (body, tag, Inr _) \<Rightarrow>
                      let output = copy_into ENC_HEADER_SIZE body output;
                          header = enc_header_new n tag
                      in (copy_into 0 (enc_header_bytes header) output, Ok total_size))"

definition decrypt_pool :: "key_ring \<Rightarrow> security_tier \<Rightarrow> u8 list \<Rightarrow> u8 list \<Rightarrow> u8 list \<times> (storage_error + nat)" where
  "decrypt_pool k t encrypted output =
     (if length encrypted < ENC_HEADER_SIZE then (output, Err StBufferTooSmall)
      else let header = read_enc_header encrypted;
               ciphertext = drop ENC_HEADER_SIZE encrypted
           in if length output < length ciphertext then (output, Err StBufferTooSmall)
              else case map_err (\<lambda>_. StKeyNotInitialized) (get_pool_key k t) of
                     Inl e \<Rightarrow> (output, Err e)
                   | Inr key \<Rightarrow>
                       (case aead_decrypt key (enc_header_nonce header) [tier_value t] ciphertext (ep_tag header) output of
                          (output, Inl _) \<Rightarrow> (output, Err StAuthenticationFailed)
                        | (output, Inr _) \<Rightarrow> (output, Ok (length ciphertext))))"

definition generate_nonce :: "security_tier \<Rightarrow> u64 \<Rightarrow> nonce" where
  "generate_nonce t counter =
     (let bytes = replicate NONCE_SIZE 0;
          bytes = bytes[0 := tier_value t];
          bytes = bytes[1 := 1];
          bytes = bytes[2 := 0];
          bytes = bytes[3 := 0];
          bytes = copy_into 4 (le_bytes 8 counter) bytes
      in nonce_from_bytes bytes)"

section \<open>Definitions: saving and loading all pools\<close>

record save_state =
  sv_output :: "u8 list"
  sv_table :: "pool_entry list"
  sv_serializer :: pool_serializer
  sv_encrypted :: "u8 list"
  sv_offset :: nat

definition save_nonce :: "nat \<Rightarrow> nat \<Rightarrow> nonce" where
  "save_nonce i offset =
     nonce_from_bytes (copy_into 4 (le_bytes 8 (of_nat offset :: u64)) ((replicate NONCE_SIZE 0)[0 := of_nat i]))"

text \<open>One turn of the loop over the four pools.\<close>

definition save_pool ::
    "key_ring \<Rightarrow> (u64 \<Rightarrow> u8) \<Rightarrow> u8 list \<Rightarrow> pool_allocator \<Rightarrow> nat \<Rightarrow> security_tier \<Rightarrow> save_state \<Rightarrow> save_state \<times> (storage_error + unit)" where
  "save_pool k mem padding pools i t v =
     (case serialize_pool mem padding (get_pool pools t) t (sv_serializer v) of
        (s, Inl e) \<Rightarrow> (v\<lparr>sv_serializer := s\<rparr>, Err e)
      | (s, Inr plain_len) \<Rightarrow>
          (case encrypt_pool k t (ser_data s) (save_nonce i (sv_offset v)) (sv_encrypted v) of
             (enc, Inl e) \<Rightarrow> (v\<lparr>sv_serializer := s, sv_encrypted := enc\<rparr>, Err e)
           | (enc, Inr encrypted_len) \<Rightarrow>
               let entry = (pool_entry_new t (of_nat (sv_offset v)) (of_nat encrypted_len) (of_nat plain_len))
                             \<lparr>pe_object_count := ucast (allocated_frames (get_pool pools t))\<rparr>;
                   v = v\<lparr>sv_serializer := s, sv_encrypted := enc, sv_table := (sv_table v)[i := entry]\<rparr>
               in if sv_offset v + encrypted_len > length (sv_output v) then (v, Err StorageFull)
                  else (v\<lparr>sv_output := copy_into (sv_offset v) (take encrypted_len enc) (sv_output v),
                          sv_offset := sv_offset v + encrypted_len, sv_serializer := ser_reset s\<rparr>, Ok ())))"

fun save_loop ::
    "key_ring \<Rightarrow> (u64 \<Rightarrow> u8) \<Rightarrow> u8 list \<Rightarrow> pool_allocator \<Rightarrow> (nat \<times> security_tier) list \<Rightarrow> save_state \<Rightarrow> save_state \<times> (storage_error + unit)" where
  "save_loop k mem padding pools [] v = (v, Ok ())"
| "save_loop k mem padding pools ((i, t) # rest) v =
     (case save_pool k mem padding pools i t v of
        (v, Inl e) \<Rightarrow> (v, Err e)
      | (v, Inr _) \<Rightarrow> save_loop k mem padding pools rest v)"

definition save_pools ::
    "key_ring \<Rightarrow> (u64 \<Rightarrow> u8) \<Rightarrow> u8 list \<Rightarrow> pool_allocator \<Rightarrow> salt \<Rightarrow> u8 list \<Rightarrow> u8 list \<times> (storage_error + nat)" where
  "save_pools k mem padding pools s output =
     (let table_offset = HEADER_SIZE;
          v = \<lparr>sv_output = output, sv_table = pool_table_new, sv_serializer = ser_new,
               sv_encrypted = replicate (MAX_POOL_DATA_SIZE + ENC_HEADER_SIZE) 0, sv_offset = table_offset + TABLE_SIZE\<rparr>
      in case save_loop k mem padding pools (enumerate 0 [Public, Internal, Sensitive, Secret]) v of
           (v, Inl e) \<Rightarrow> (sv_output v, Err e)
         | (v, Inr _) \<Rightarrow>
             let output = copy_into table_offset (concat (map pool_entry_bytes (sv_table v))) (sv_output v);
                 header = header_new s (of_nat table_offset) (of_nat (sv_offset v))
             in (copy_into 0 (header_bytes header) output, Ok (sv_offset v)))"

fun set_pool :: "pool_allocator \<Rightarrow> security_tier \<Rightarrow> memory_pool \<Rightarrow> pool_allocator" where
  "set_pool pa Public p = pa\<lparr>pa_public := p\<rparr>"
| "set_pool pa Internal p = pa\<lparr>pa_internal := p\<rparr>"
| "set_pool pa Sensitive p = pa\<lparr>pa_sensitive := p\<rparr>"
| "set_pool pa Secret p = pa\<lparr>pa_secret := p\<rparr>"

fun restore_loop ::
    "u64 \<Rightarrow> nat list \<Rightarrow> pool_deserializer \<Rightarrow> (u64 \<Rightarrow> u8) \<Rightarrow> memory_pool \<Rightarrow> (u64 \<Rightarrow> u8) \<times> memory_pool" where
  "restore_loop bm [] d mem p = (mem, p)"
| "restore_loop bm (i # is) d mem p =
     (if bm AND push_bit i 1 \<noteq> 0
      then case read_frame d 4096 of
             (d, Inr frame_data) \<Rightarrow> (case restore_frame mem p i frame_data of (mem, p) \<Rightarrow> restore_loop bm is d mem p)
           | (d, Inl _) \<Rightarrow> restore_loop bm is d mem p
      else restore_loop bm is d mem p)"

text \<open>One turn of the loop over the table; the buffer is the one that every turn decrypts into.\<close>

definition load_entry ::
    "key_ring \<Rightarrow> u8 list \<Rightarrow> pool_entry \<Rightarrow> u8 list \<Rightarrow> (u64 \<Rightarrow> u8) \<Rightarrow> pool_allocator \<Rightarrow> u8 list \<times> (u64 \<Rightarrow> u8) \<times> pool_allocator \<times> (storage_error + unit)" where
  "load_entry k data entry buffer mem pools =
     (if pe_data_size entry = 0 then (buffer, mem, pools, Ok ())
      else case tier_from_value (pe_tier entry) of
             None \<Rightarrow> (buffer, mem, pools, Ok ())
           | Some t \<Rightarrow>
               let data_start = unat (pe_data_offset entry);
                   data_end = data_start + unat (pe_data_size entry)
               in if data_end > length data then (buffer, mem, pools, Err InvalidHeader)
                  else case decrypt_pool k t (slice data_start (data_end - data_start) data) buffer of
                         (buffer, Inl e) \<Rightarrow> (buffer, mem, pools, Err e)
                       | (buffer, Inr decrypted_len) \<Rightarrow>
                           (case read_metadata (de_new (take decrypted_len buffer)) of
                              (d, Inl e) \<Rightarrow> (buffer, mem, pools, Err e)
                            | (d, Inr metadata) \<Rightarrow>
                                (case restore_loop (pm_allocation_bitmap metadata) [0..<unat (min (pm_frame_count metadata) 64)] d mem (get_pool pools t) of
                                   (mem, p) \<Rightarrow> (buffer, mem, set_pool pools t p, Ok ()))))"

fun load_loop ::
    "key_ring \<Rightarrow> u8 list \<Rightarrow> pool_entry list \<Rightarrow> u8 list \<Rightarrow> (u64 \<Rightarrow> u8) \<Rightarrow> pool_allocator \<Rightarrow> (u64 \<Rightarrow> u8) \<times> pool_allocator \<times> (storage_error + unit)" where
  "load_loop k data [] buffer mem pools = (mem, pools, Ok ())"
| "load_loop k data (e # es) buffer mem pools =
     (case load_entry k data e buffer mem pools of
        (buffer, mem, pools, Inl err) \<Rightarrow> (mem, pools, Err err)
      | (buffer, mem, pools, Inr _) \<Rightarrow> load_loop k data es buffer mem pools)"

definition load_pools ::
    "key_ring \<Rightarrow> u8 list \<Rightarrow> (u64 \<Rightarrow> u8) \<Rightarrow> pool_allocator \<Rightarrow> (u64 \<Rightarrow> u8) \<times> pool_allocator \<times> (storage_error + unit)" where
  "load_pools k data mem pools =
     (if length data < HEADER_SIZE then (mem, pools, Err InvalidHeader)
      else let header = read_header data
           in if \<not> header_verify header then (mem, pools, Err ChecksumFailed)
              else let table_offset = unat (hd_pool_table_offset header)
                   in if table_offset + TABLE_SIZE > length data then (mem, pools, Err InvalidHeader)
                      else load_loop k data (read_pool_table (slice table_offset TABLE_SIZE data))
                             (replicate MAX_POOL_DATA_SIZE 0) mem pools)"

end
