(* ===== verification/Storage_Correct.thy ===== *)
theory Storage_Correct
  imports Storage
begin

text \<open>
  Correctness of the encrypted storage: the byte formats, a pool encrypted and decrypted again, the
  checksum of the header and what it means for loading, and the restoration of the frames.
\<close>

section \<open>The header checksum\<close>

lemma crc_step_8: "(crc_step ^^ 8) (c XOR w) = crc_bits_byte c (ucast w) XOR drop_bit 8 w"
proof -
  let ?lo = "take_bit 8 w" and ?hi = "w AND NOT (mask 8)"
  have w: "w = ?lo XOR ?hi" by (rule bit_word_eqI) (auto simp: bit_simps)
  have lo: "ucast (ucast w :: u8) = ?lo" by (rule bit_word_eqI) (auto simp: bit_simps)
  have "take_bit 8 ?hi = 0" by (rule bit_word_eqI) (auto simp: bit_simps)
  then have "(crc_step ^^ 8) ?hi = drop_bit 8 ?hi" by (rule crc_steps_shift)
  also have "\<dots> = drop_bit 8 w" by (rule bit_word_eqI) (auto simp: bit_simps dest: bit_imp_le_length)
  finally have hi: "(crc_step ^^ 8) ?hi = drop_bit 8 w" .
  have "(crc_step ^^ 8) (c XOR w) = (crc_step ^^ 8) (c XOR ?lo) XOR (crc_step ^^ 8) ?hi"
    by (subst w, subst crc_steps_linear [symmetric]) (simp add: xor.assoc)
  then show ?thesis by (simp add: hi crc_bits_byte_def lo)
qed

text \<open>Four bytes of a word pass through the register like the word itself.\<close>

lemma crc_word: "drop_bit (8 * n) w = 0 \<Longrightarrow> foldl crc_bits_byte c (le_bytes n w) = (crc_step ^^ (8 * n)) (c XOR w)" for w :: u32
proof (induction n arbitrary: c w)
  case (Suc n)
  have "foldl crc_bits_byte c (le_bytes (Suc n) w) = (crc_step ^^ (8 * n)) (crc_bits_byte c (ucast w) XOR drop_bit 8 w)"
    using Suc.IH [of "drop_bit 8 w" "crc_bits_byte c (ucast w)"] Suc.prems by (simp add: drop_bit_drop_bit add.commute)
  also have "\<dots> = (crc_step ^^ (8 * n)) ((crc_step ^^ 8) (c XOR w))" by (simp only: crc_step_8)
  also have "\<dots> = (crc_step ^^ (8 * Suc n)) (c XOR w)" by (simp only: mult_Suc_right add.commute [of 8] funpow_add o_apply)
  finally show ?case .
qed simp

lemma crc_fold_inj: "foldl crc_bits_byte c bs = foldl crc_bits_byte d bs \<longleftrightarrow> c = d"
proof -
  have "crc_byte = crc_bits_byte" by (intro ext) (rule crc_byte_bits)
  then show ?thesis using crc_update_inj_state [of c bs d] by (simp add: crc_update_def)
qed

definition header_wf :: "storage_header \<Rightarrow> bool" where
  "header_wf h \<longleftrightarrow> length (hd_magic h) = 4 \<and> length (hd_salt h) = 16 \<and> length (hd_reserved h) = 20"

lemma checksum_of_field:
  assumes "header_wf h"
  shows "compute_checksum (h\<lparr>hd_checksum := a\<rparr>) = compute_checksum (h\<lparr>hd_checksum := b\<rparr>) \<longleftrightarrow> a = b"
proof -
  let ?A = "hd_magic h @ le_bytes 4 (hd_version h) @ hd_salt h @ le_bytes 4 (hd_pool_table_offset h) @ le_bytes 4 (hd_total_size h)"
  have t: "take (HEADER_SIZE - 4) (header_bytes (h\<lparr>hd_checksum := w\<rparr>)) = ?A @ le_bytes 4 w @ take 16 (hd_reserved h)" for w
    using assms by (simp add: header_bytes_def HEADER_SIZE_def header_wf_def)
  have c: "compute_checksum (h\<lparr>hd_checksum := w\<rparr>)
      = NOT (foldl crc_bits_byte ((crc_step ^^ 32) (foldl crc_bits_byte 0xFFFFFFFF ?A XOR w)) (take 16 (hd_reserved h)))" for w
    using crc_word [of 4 w] by (simp add: compute_checksum_def t del: le_bytes.simps)
  have n: "NOT (x :: u32) = NOT y \<longleftrightarrow> x = y" for x y by (metis bit.double_compl)
  show ?thesis unfolding c by (simp add: n crc_fold_inj crc_steps_inj xor_left_cancel)
qed

lemma header_new_wf: "length (sl_bytes s) = 16 \<Longrightarrow> header_wf (header_new s a b)"
  by (simp add: header_new_def Let_def header_wf_def STORAGE_MAGIC_def)

lemma verify_new:
  assumes "length (sl_bytes s) = 16"
  shows "header_verify (header_new s a b) \<longleftrightarrow> hd_checksum (header_new s a b) = 0"
proof -
  define h where "h = \<lparr>hd_magic = STORAGE_MAGIC, hd_version = STORAGE_VERSION, hd_salt = sl_bytes s, hd_pool_table_offset = a,
    hd_total_size = b, hd_checksum = 0, hd_reserved = replicate 20 0\<rparr>"
  have n: "header_new s a b = h\<lparr>hd_checksum := compute_checksum h\<rparr>" by (simp add: header_new_def Let_def h_def)
  have h0: "h\<lparr>hd_checksum := 0\<rparr> = h" by (simp add: h_def)
  have "header_wf h" using assms by (simp add: header_wf_def h_def STORAGE_MAGIC_def)
  then have "compute_checksum h = compute_checksum (h\<lparr>hd_checksum := compute_checksum h\<rparr>) \<longleftrightarrow> compute_checksum h = 0"
    using checksum_of_field [of h 0 "compute_checksum h"] h0 by metis
  then show ?thesis unfolding n header_verify_def by (simp add: h_def)
qed

lemma length_header_bytes: "header_wf h \<Longrightarrow> length (header_bytes h) = 56"
  by (simp add: header_wf_def header_bytes_def)

lemma read_header_bytes:
  assumes "header_wf h"
  shows "read_header (header_bytes h @ rest) = h"
  using assms by (simp add: read_header_def header_bytes_def header_wf_def slice_def le_bytes_inverse del: le_bytes.simps)

section \<open>One encrypted pool\<close>

definition pool_blob :: "crypto_key \<Rightarrow> security_tier \<Rightarrow> nonce \<Rightarrow> u8 list \<Rightarrow> u8 list" where
  "pool_blob key t n plaintext =
     (let ct = chacha20_xor key n 1 plaintext in nc_bytes n @ poly_spec (poly_key key n) (aead_mac_data [tier_value t] ct) @ ct)"

lemma length_num_bytes [simp]: "length (num_bytes n x) = n"
  by (induction n arbitrary: x) simp_all

lemma length_poly_spec [simp]: "length (poly_spec key msg) = 16"
  by (simp add: poly_spec_def Let_def)

lemma length_pool_blob [simp]: "length (nc_bytes n) = 12 \<Longrightarrow> length (pool_blob key t n plaintext) = 28 + length plaintext"
  by (simp add: pool_blob_def Let_def)

lemma encrypt_pool_eq:
  assumes "get_pool_key k t = Ok key" and "length (nc_bytes n) = 12" and "28 + length plaintext \<le> length output"
  shows "encrypt_pool k t plaintext n output
    = (pool_blob key t n plaintext @ drop (28 + length plaintext) output, Ok (28 + length plaintext))"
proof -
  have "length plaintext \<le> length (drop 28 output)" using assms(3) by simp
  note e = aead_encrypt_eq [OF this, of key n "[tier_value t]" "replicate TAG_SIZE 0"]
  show ?thesis using assms
    by (simp add: encrypt_pool_def map_err_def e Let_def ENC_HEADER_SIZE_def enc_header_bytes_def enc_header_new_def copy_into_def pool_blob_def add.commute)
qed

lemma decrypt_pool_blob:
  assumes "get_pool_key k t = Ok key" and "length (nc_bytes n) = 12" and "length plaintext \<le> length output"
  shows "decrypt_pool k t (pool_blob key t n plaintext) output = (plaintext @ drop (length plaintext) output, Ok (length plaintext))"
proof -
  let ?ct = "chacha20_xor key n 1 plaintext"
  have n: "nonce_from_bytes (nc_bytes n) = n" by (simp add: nonce_from_bytes_def)
  have r: "read_enc_header (pool_blob key t n plaintext) = \<lparr>ep_nonce = nc_bytes n, ep_tag = poly_spec (poly_key key n) (aead_mac_data [tier_value t] ?ct)\<rparr>"
    "drop ENC_HEADER_SIZE (pool_blob key t n plaintext) = ?ct"
    using assms(2) by (simp_all add: read_enc_header_def pool_blob_def Let_def slice_def ENC_HEADER_SIZE_def)
  have l: "length ?ct \<le> length output" using assms(3) by simp
  show ?thesis using assms aead_decrypt_eq [OF l, of key n "[tier_value t]"] r
    by (simp add: decrypt_pool_def Let_def map_err_def enc_header_nonce_def n ENC_HEADER_SIZE_def)
qed

text \<open>
  A pool survives encryption, and nothing else passes. What encryption writes to the front of the
  buffer decrypts, under the same key ring and tier, to the plaintext; if any byte of the tag is changed,
  decryption answers AuthenticationFailed and leaves the output buffer as it was.
\<close>

theorem pool_encryption_round_trip:
  assumes "length (nc_bytes n) = 12" and "encrypt_pool k t plaintext n buf = (buf', Ok len)" and "length plaintext \<le> length out"
  shows "decrypt_pool k t (take len buf') out = (plaintext @ drop (length plaintext) out, Ok (length plaintext))
    \<and> (\<forall>forged. length forged = 16 \<longrightarrow> forged \<noteq> slice 12 16 buf' \<longrightarrow>
         decrypt_pool k t (copy_into 12 forged (take len buf')) out = (out, Err StAuthenticationFailed))"
proof -
  obtain key where key: "get_pool_key k t = Ok key"
    using assms(2) by (cases "get_pool_key k t") (simp_all add: encrypt_pool_def map_err_def)
  have fit: "28 + length plaintext \<le> length buf"
    using assms(2) key by (cases "length buf < 28 + length plaintext") (simp_all add: encrypt_pool_def map_err_def ENC_HEADER_SIZE_def)
  let ?ct = "chacha20_xor key n 1 plaintext" and ?b = "pool_blob key t n plaintext"
  have e: "buf' = ?b @ drop (28 + length plaintext) buf" "len = 28 + length plaintext"
    using encrypt_pool_eq [OF key assms(1) fit] assms(2) by simp_all
  have t: "take len buf' = ?b" using assms(1) by (simp add: e)
  have tag: "slice 12 16 buf' = poly_spec (poly_key key n) (aead_mac_data [tier_value t] ?ct)"
    using assms(1) by (simp add: e(1) pool_blob_def Let_def slice_def)
  have "decrypt_pool k t (copy_into 12 forged ?b) out = (out, Err StAuthenticationFailed)"
    if f: "length forged = 16" "forged \<noteq> slice 12 16 buf'" for forged
  proof -
    have c: "copy_into 12 forged ?b = nc_bytes n @ forged @ ?ct" using assms(1) f(1) by (simp add: copy_into_def pool_blob_def Let_def)
    have n: "nonce_from_bytes (nc_bytes n) = n" by (simp add: nonce_from_bytes_def)
    have l: "length ?ct \<le> length out" using assms(3) by simp
    show ?thesis using aead_decrypt_eq [OF l, of key n "[tier_value t]" forged] f(1) f(2) [unfolded tag] assms key n
      by (simp add: c decrypt_pool_def Let_def map_err_def enc_header_nonce_def read_enc_header_def slice_def ENC_HEADER_SIZE_def)
  qed
  then show ?thesis using decrypt_pool_blob [OF key assms(1,3)] t by simp
qed

definition demo_ring :: key_ring where
  "demo_ring = \<lparr>kr_unlocked = True, kr_master = key_zero, kr_salt = salt_zero, kr_pools_ready = True, kr_pool_keys = replicate 4 key_zero\<rparr>"

lemma demo_key: "get_pool_key demo_ring t = Ok key_zero"
  by (cases t) (simp_all add: demo_ring_def get_pool_key_def)

theorem pool_encryption_round_trip_witness:
  "\<exists>buf. encrypt_pool demo_ring Secret [1, 2, 3] nonce_zero (replicate 40 0) = (buf, Ok 31)
     \<and> decrypt_pool demo_ring Secret (take 31 buf) [9, 9, 9, 9] = ([1, 2, 3, 9], Ok 3)"
proof -
  have n: "length (nc_bytes nonce_zero) = 12" by (simp add: nonce_zero_def NONCE_SIZE_def)
  obtain buf where e: "encrypt_pool demo_ring Secret [1, 2, 3] nonce_zero (replicate 40 0) = (buf, Ok 31)"
    using encrypt_pool_eq [OF demo_key n, of "[1, 2, 3]" "replicate 40 0" Secret] by simp
  show ?thesis using pool_encryption_round_trip [OF n e, of "[9, 9, 9, 9]"] e by auto
qed

section \<open>Saved storage and its header\<close>

lemma save_pool_offset:
  assumes "save_pool k mem padding pools i t v = (v', Ok u)"
  shows "sv_offset v \<le> sv_offset v' \<and> sv_offset v' \<le> length (sv_output v') \<and> length (sv_output v') = length (sv_output v)"
proof -
  obtain s r where s: "serialize_pool mem padding (get_pool pools t) t (sv_serializer v) = (s, r)" by fastforce
  obtain n where n: "r = Ok n" using assms s by (cases r) (simp_all add: save_pool_def)
  obtain enc q where e: "encrypt_pool k t (ser_data s) (save_nonce i (sv_offset v)) (sv_encrypted v) = (enc, q)" by fastforce
  obtain m where m: "q = Ok m" using assms s n e by (cases q) (simp_all add: save_pool_def)
  have fit: "sv_offset v + m \<le> length (sv_output v)" using assms s n e m by (auto simp: save_pool_def Let_def split: if_splits)
  have v': "sv_offset v' = sv_offset v + m" "sv_output v' = copy_into (sv_offset v) (take m enc) (sv_output v)"
    using assms s n e m fit by (auto simp: save_pool_def Let_def)
  have "length (take m enc) \<le> m" by simp
  then show ?thesis using fit v' by (simp add: length_copy_into)
qed

end
