(* ===== verification/Storage_Restore.thy ===== *)
theory Storage_Restore
  imports Storage_Correct
begin

text \<open>
  Saving and loading together: what \<open>save_pools\<close> lays out in the buffer, what \<open>load_pools\<close> reads from it,
  and that the frames of all four pools come back.
\<close>

section \<open>The image of a pool\<close>

definition live_frames :: "memory_pool \<Rightarrow> nat list" where
  "live_frames p = filter (is_frame_allocated p) [0..<frame_count p]"

definition pool_image :: "(u64 \<Rightarrow> u8) \<Rightarrow> u8 list \<Rightarrow> memory_pool \<Rightarrow> security_tier \<Rightarrow> u8 list" where
  "pool_image mem padding p t = metadata_bytes padding (from_pool p t) @ concat (map (get_frame_data mem p) (live_frames p))"

definition ser_wf :: "pool_serializer \<Rightarrow> bool" where
  "ser_wf s \<longleftrightarrow> length (se_buffer s) = MAX_POOL_DATA_SIZE \<and> se_pos s \<le> MAX_POOL_DATA_SIZE"

lemma length_frame [simp]: "length (get_frame_data mem p i) = 4096"
  by (simp add: get_frame_data_def)

lemma length_frames [simp]: "length (concat (map (get_frame_data mem p) is)) = 4096 * length is"
  by (induction "is") simp_all

lemma length_ser_data [simp]: "ser_wf s \<Longrightarrow> length (ser_data s) = se_pos s"
  by (simp add: ser_wf_def ser_data_def)

lemma write_bytes_Ok:
  assumes "ser_wf s" and "length (ser_data s @ data) \<le> MAX_POOL_DATA_SIZE"
  shows "\<exists>s'. write_bytes s data = (s', Ok ()) \<and> ser_wf s' \<and> ser_data s' = ser_data s @ data"
  using assms by (auto simp: write_bytes_def ser_wf_def ser_data_def copy_into_def)

lemma write_frames_Ok:
  assumes "ser_wf s" and "length (ser_data s) + 4096 * length (filter (is_frame_allocated p) is) \<le> MAX_POOL_DATA_SIZE"
  shows "\<exists>s'. write_frames mem p is s = (s', Ok ()) \<and> ser_wf s'
    \<and> ser_data s' = ser_data s @ concat (map (get_frame_data mem p) (filter (is_frame_allocated p) is))"
  using assms
proof (induction "is" arbitrary: s)
  case (Cons i "is")
  show ?case
  proof (cases "is_frame_allocated p i")
    case True
    obtain s' where s': "write_bytes s (get_frame_data mem p i) = (s', Ok ())" "ser_wf s'" "ser_data s' = ser_data s @ get_frame_data mem p i"
      using write_bytes_Ok [OF Cons.prems(1), of "get_frame_data mem p i"] Cons.prems True by auto
    have "length (ser_data s') + 4096 * length (filter (is_frame_allocated p) is) \<le> MAX_POOL_DATA_SIZE" using Cons.prems True s'(3) by simp
    from Cons.IH [OF s'(2) this] show ?thesis using True s' by auto
  next
    case False
    then show ?thesis using Cons by simp
  qed
qed simp

lemma length_metadata [simp]: "length padding = 4 \<Longrightarrow> length (metadata_bytes padding (from_pool p t)) = 32"
  by (simp add: metadata_bytes_def from_pool_def case_prod_beta Let_def)

lemma length_image [simp]: "length padding = 4 \<Longrightarrow> length (pool_image mem padding p t) = 32 + 4096 * length (live_frames p)"
  by (simp add: pool_image_def)

lemma serialize_pool_Ok:
  assumes s: "length (se_buffer s) = MAX_POOL_DATA_SIZE" and pad: "length padding = 4" and fit: "frame_count p \<le> 8"
  shows "\<exists>s'. serialize_pool mem padding p t s = (s', Ok (length (pool_image mem padding p t))) \<and> ser_wf s' \<and> ser_data s' = pool_image mem padding p t"
proof -
  let ?m = "metadata_bytes padding (from_pool p t)"
  have r: "ser_wf (ser_reset s)" "ser_data (ser_reset s) = []" using s by (simp_all add: ser_wf_def ser_reset_def ser_data_def)
  obtain s1 where s1: "write_bytes (ser_reset s) ?m = (s1, Ok ())" "ser_wf s1" "ser_data s1 = ?m"
    using write_bytes_Ok [OF r(1), of ?m] r(2) pad by (auto simp: MAX_POOL_DATA_SIZE_def)
  have "length (live_frames p) \<le> 8" using fit length_filter_le [of "is_frame_allocated p" "[0..<frame_count p]"] by (simp add: live_frames_def)
  then have "length (ser_data s1) + 4096 * length (filter (is_frame_allocated p) [0..<frame_count p]) \<le> MAX_POOL_DATA_SIZE"
    using s1(3) pad by (simp add: MAX_POOL_DATA_SIZE_def live_frames_def)
  from write_frames_Ok [OF s1(2) this, of mem] obtain s2 where s2: "write_frames mem p [0..<frame_count p] s1 = (s2, Ok ())" "ser_wf s2"
    "ser_data s2 = pool_image mem padding p t" using s1(3) by (auto simp: pool_image_def live_frames_def)
  have "se_pos s2 = length (pool_image mem padding p t)" using s2(2,3) length_ser_data by metis
  then show ?thesis using s1 s2 by (simp add: serialize_pool_def)
qed

text \<open>The bitmap in the metadata is the allocation bitmap.\<close>

lemma bitmap_fold:
  "bit (fst (foldl (\<lambda>(b, n) i. if is_frame_allocated p i then (b OR push_bit i 1, n + 1) else (b, n)) (b0, n0) is)) j
    \<longleftrightarrow> bit (b0 :: u64) j \<or> (j \<in> set is \<and> is_frame_allocated p j \<and> j < 64)"
proof (induction "is" arbitrary: b0 n0)
  case (Cons i "is")
  have "bit (push_bit i (1 :: u64)) j \<longleftrightarrow> j = i \<and> j < 64"
    by (auto simp: bit_push_bit_iff bit_1_iff simp del: push_bit_of_1 dest: bit_imp_le_length)
  then show ?case using Cons by (auto simp: bit_or_iff simp del: push_bit_of_1)
qed simp

lemma from_pool_facts:
  assumes "frame_count p \<le> 8"
  shows "bit (pm_allocation_bitmap (from_pool p t)) j \<longleftrightarrow> j < frame_count p \<and> is_frame_allocated p j"
    and "unat (min (pm_frame_count (from_pool p t)) 64) = frame_count p"
proof -
  show "bit (pm_allocation_bitmap (from_pool p t)) j \<longleftrightarrow> j < frame_count p \<and> is_frame_allocated p j"
    using assms bitmap_fold [of p 0 0 "[0..<min (frame_count p) 64]" j] by (auto simp: from_pool_def case_prod_beta Let_def min_def)
  have "unat (of_nat (frame_count p) :: u8) = frame_count p" using assms by (simp add: unat_of_nat take_bit_nat_eq_self)
  then show "unat (min (pm_frame_count (from_pool p t)) 64) = frame_count p"
    using assms by (simp add: from_pool_def case_prod_beta Let_def min_def word_le_nat_alt)
qed

lemma read_metadata_image:
  assumes "length padding = 4"
  shows "read_metadata (de_new (pool_image mem padding p t)) = (\<lparr>de_data = pool_image mem padding p t, de_pos = 32\<rparr>, Ok (from_pool p t))"
proof -
  let ?m = "from_pool p t"
  have "slice 0 32 (pool_image mem padding p t) = metadata_bytes padding ?m" using assms by (simp add: pool_image_def slice_def)
  moreover have "read_metadata_bytes (metadata_bytes padding ?m) = ?m"
    using assms by (simp add: read_metadata_bytes_def metadata_bytes_def slice_def le_bytes_inverse from_pool_def case_prod_beta Let_def del: le_bytes.simps)
  ultimately show ?thesis using assms by (simp add: read_metadata_def de_new_def METADATA_SIZE_def)
qed

section \<open>The layout of saved storage\<close>

definition saved_blob :: "key_ring \<Rightarrow> (u64 \<Rightarrow> u8) \<Rightarrow> u8 list \<Rightarrow> pool_allocator \<Rightarrow> nat \<Rightarrow> security_tier \<Rightarrow> nat \<Rightarrow> u8 list" where
  "saved_blob k mem padding pools i t off =
     pool_blob (kr_pool_keys k ! unat (tier_value t)) t (save_nonce i off) (pool_image mem padding (get_pool pools t) t)"

definition saved_entry :: "pool_allocator \<Rightarrow> security_tier \<Rightarrow> nat \<Rightarrow> nat \<Rightarrow> pool_entry" where
  "saved_entry pools t off len =
     (pool_entry_new t (of_nat off) (of_nat len) (of_nat (len - 28)))\<lparr>pe_object_count := ucast (allocated_frames (get_pool pools t))\<rparr>"

fun saved_parts :: "key_ring \<Rightarrow> (u64 \<Rightarrow> u8) \<Rightarrow> u8 list \<Rightarrow> pool_allocator \<Rightarrow> nat \<Rightarrow> security_tier list \<Rightarrow> nat \<Rightarrow> (pool_entry \<times> u8 list) list" where
  "saved_parts k mem padding pools i [] off = []"
| "saved_parts k mem padding pools i (t # ts) off =
     (let b = saved_blob k mem padding pools i t off
      in (saved_entry pools t off (length b), b) # saved_parts k mem padding pools (Suc i) ts (off + length b))"

lemma length_save_nonce [simp]: "length (nc_bytes (save_nonce i off)) = 12"
  by (simp add: save_nonce_def nonce_from_bytes_def NONCE_SIZE_def)

lemma length_saved_parts [simp]: "length (saved_parts k mem padding pools i ts off) = length ts"
  by (induction ts arbitrary: i off) (simp_all add: Let_def)

definition small_pools :: "pool_allocator \<Rightarrow> bool" where
  "small_pools pools \<longleftrightarrow> (\<forall>t. frame_count (get_pool pools t) \<le> 8)"

lemma get_pool_key_ready: "get_pool_key k t = (if kr_pools_ready k then Ok (kr_pool_keys k ! unat (tier_value t)) else Err KeyNotInitialized)"
  by (cases t) (simp_all add: get_pool_key_def)

definition save_wf :: "save_state \<Rightarrow> bool" where
  "save_wf v \<longleftrightarrow> length (se_buffer (sv_serializer v)) = MAX_POOL_DATA_SIZE \<and> length (sv_encrypted v) = MAX_POOL_DATA_SIZE + 28"

lemma image_fits: "length padding = 4 \<Longrightarrow> small_pools pools \<Longrightarrow> length (pool_image mem padding (get_pool pools t) t) \<le> MAX_POOL_DATA_SIZE"
proof -
  assume pad: "length padding = 4" and "small_pools pools"
  then have "frame_count (get_pool pools t) \<le> 8" by (simp add: small_pools_def)
  then have "length (live_frames (get_pool pools t)) \<le> 8"
    using length_filter_le [of "is_frame_allocated (get_pool pools t)" "[0..<frame_count (get_pool pools t)]"] by (simp add: live_frames_def)
  then show ?thesis using pad by (simp add: MAX_POOL_DATA_SIZE_def)
qed

lemma save_pool_eq:
  fixes mem :: "u64 \<Rightarrow> u8" and i :: nat and t :: security_tier
  assumes ok: "save_wf v" "kr_pools_ready k" "small_pools pools" "length padding = 4"
  defines "b \<equiv> saved_blob k mem padding pools i t (sv_offset v)"
  shows "(sv_offset v + length b \<le> length (sv_output v)
      \<and> (\<exists>v'. save_pool k mem padding pools i t v = (v', Ok ()) \<and> save_wf v' \<and> sv_output v' = copy_into (sv_offset v) b (sv_output v)
            \<and> sv_offset v' = sv_offset v + length b \<and> sv_table v' = (sv_table v)[i := saved_entry pools t (sv_offset v) (length b)]))
    \<or> (length (sv_output v) < sv_offset v + length b \<and> (\<exists>v'. save_pool k mem padding pools i t v = (v', Err StorageFull)))"
proof -
  let ?p = "get_pool pools t" and ?n = "save_nonce i (sv_offset v)" and ?key = "kr_pool_keys k ! unat (tier_value t)"
  let ?im = "pool_image mem padding ?p t"
  have fc: "frame_count ?p \<le> 8" using ok(3) by (simp add: small_pools_def)
  obtain s' where s': "serialize_pool mem padding ?p t (sv_serializer v) = (s', Ok (length ?im))" "ser_wf s'" "ser_data s' = ?im"
    using serialize_pool_Ok [OF _ ok(4) fc, of "sv_serializer v" mem t] ok(1) by (auto simp: save_wf_def)
  have key: "get_pool_key k t = Ok ?key" using ok(2) by (simp add: get_pool_key_ready)
  have "28 + length ?im \<le> length (sv_encrypted v)" using image_fits [OF ok(4,3), of mem t] ok(1) by (simp add: save_wf_def)
  note e = encrypt_pool_eq [OF key length_save_nonce this, of i "sv_offset v"]
  have b: "b = pool_blob ?key t ?n ?im" by (simp add: b_def saved_blob_def)
  have len: "length b = 28 + length ?im" by (simp add: b)
  have enc: "length (b @ drop (28 + length ?im) (sv_encrypted v)) = MAX_POOL_DATA_SIZE + 28"
    using image_fits [OF ok(4,3), of mem t] ok(1) len by (simp add: save_wf_def)
  have tk: "take (28 + length ?im) (b @ drop (28 + length ?im) (sv_encrypted v)) = b" using len by simp
  have ent: "(pool_entry_new t (of_nat (sv_offset v)) (of_nat (28 + length ?im)) (of_nat (length ?im)))\<lparr>pe_object_count := ucast (allocated_frames ?p)\<rparr>
    = saved_entry pools t (sv_offset v) (length b)" using len by (simp add: saved_entry_def)
  have r: "length (se_buffer (ser_reset s')) = MAX_POOL_DATA_SIZE" using s'(2) by (simp add: ser_wf_def ser_reset_def)
  show ?thesis
  proof (cases "sv_offset v + length b \<le> length (sv_output v)")
    case True
    then show ?thesis using s' e enc tk ent r len by (simp add: save_pool_def Let_def b [symmetric] save_wf_def)
  next
    case False
    then show ?thesis using s' e len by (simp add: save_pool_def Let_def b [symmetric])
  qed
qed

lemma copy_into_Nil [simp]: "copy_into off [] out = out"
  by (simp add: copy_into_def)

lemma save_loop_Ok:
  assumes "save_wf v" "kr_pools_ready k" "small_pools pools" "length padding = 4" and "i + length ts \<le> length (sv_table v)"
    and "save_loop k mem padding pools (enumerate i ts) v = (v', Ok u)"
  shows "(ts = [] \<or> sv_offset v + length (concat (map snd (saved_parts k mem padding pools i ts (sv_offset v)))) \<le> length (sv_output v))
    \<and> sv_output v' = copy_into (sv_offset v) (concat (map snd (saved_parts k mem padding pools i ts (sv_offset v)))) (sv_output v)
    \<and> sv_offset v' = sv_offset v + length (concat (map snd (saved_parts k mem padding pools i ts (sv_offset v))))
    \<and> sv_table v' = copy_into i (map fst (saved_parts k mem padding pools i ts (sv_offset v))) (sv_table v)"
  using assms(1,5,6)
proof (induction ts arbitrary: i v)
  case (Cons t ts)
  let ?b = "saved_blob k mem padding pools i t (sv_offset v)" and ?e = "saved_entry pools t (sv_offset v) (length (saved_blob k mem padding pools i t (sv_offset v)))"
  obtain w where w: "save_pool k mem padding pools i t v = (w, Ok ())" "save_loop k mem padding pools (enumerate (Suc i) ts) w = (v', Ok u)"
    using Cons.prems(3) by (auto split: prod.splits sum.splits)
  then have f: "sv_offset v + length ?b \<le> length (sv_output v)" "save_wf w" "sv_output w = copy_into (sv_offset v) ?b (sv_output v)"
    "sv_offset w = sv_offset v + length ?b" "sv_table w = (sv_table v)[i := ?e]"
    using save_pool_eq [OF Cons.prems(1) assms(2-4), of mem i t] by auto
  let ?ps = "saved_parts k mem padding pools (Suc i) ts (sv_offset v + length ?b)"
  have "Suc i + length ts \<le> length (sv_table w)" using Cons.prems(2) f(5) by simp
  note ih = Cons.IH [OF f(2) this w(2), unfolded f(4)]
  have tb: "sv_table w = copy_into i [?e] (sv_table v)" using Cons.prems(2) f(5) by (simp add: list_update_copy_into)
  have "sv_offset v + length ?b + length (concat (map snd ?ps)) \<le> length (sv_output v)"
    using ih f(1,3) by (cases ts) auto
  moreover from this have "copy_into (sv_offset v + length ?b) (concat (map snd ?ps)) (sv_output w) = copy_into (sv_offset v) (?b @ concat (map snd ?ps)) (sv_output v)"
    unfolding f(3) by (rule copy_into_append)
  moreover have "copy_into (Suc i) (map fst ?ps) (sv_table w) = copy_into i ([?e] @ map fst ?ps) (sv_table v)"
    unfolding tb using Cons.prems(2) by (intro copy_into_append_at) simp_all
  ultimately show ?case using ih by (simp add: Let_def)
qed simp

lemma save_loop_succeeds:
  assumes "kr_pools_ready k" "small_pools pools" "length padding = 4"
    and "save_wf v" "sv_offset v + length (concat (map snd (saved_parts k mem padding pools i ts (sv_offset v)))) \<le> length (sv_output v)"
  shows "\<exists>v'. save_loop k mem padding pools (enumerate i ts) v = (v', Ok ())"
  using assms(4,5)
proof (induction ts arbitrary: i v)
  case (Cons t ts)
  let ?b = "saved_blob k mem padding pools i t (sv_offset v)"
  have "sv_offset v + length ?b \<le> length (sv_output v)" using Cons.prems(2) by (simp add: Let_def)
  then obtain w where w: "save_pool k mem padding pools i t v = (w, Ok ())" "save_wf w" "sv_output w = copy_into (sv_offset v) ?b (sv_output v)" "sv_offset w = sv_offset v + length ?b"
    using save_pool_eq [OF Cons.prems(1) assms(1-3), of mem i t] by auto
  have "sv_offset w + length (concat (map snd (saved_parts k mem padding pools (Suc i) ts (sv_offset w)))) \<le> length (sv_output w)"
    using Cons.prems(2) w(3,4) by (simp add: Let_def)
  from Cons.IH [OF w(2) this] show ?case using w(1) by auto
qed simp

lemma saved_entry_bytes: "length (pool_entry_bytes (saved_entry pools t off len)) = 28"
  "read_pool_entry (pool_entry_bytes (saved_entry pools t off len)) = saved_entry pools t off len"
  by (simp_all add: pool_entry_bytes_def saved_entry_def pool_entry_new_def read_pool_entry_def slice_def le_bytes_inverse del: le_bytes.simps)

lemma read_saved_table:
  assumes "length ts = 4"
  shows "read_pool_table (concat (map (pool_entry_bytes \<circ> fst) (saved_parts k mem padding pools i ts off))) = map fst (saved_parts k mem padding pools i ts off)"
proof -
  obtain t0 t1 t2 t3 where ts: "ts = [t0, t1, t2, t3]" using assms by (auto simp: numeral_eq_Suc length_Suc_conv)
  have n: "[0..<NUM_POOLS] = [0, 1, 2, 3]" by (simp add: NUM_POOLS_def upt_rec)
  have "slice 0 28 (a @ b) = a" "length x = 28 \<Longrightarrow> slice 28 28 (x @ a @ b) = a" "length x = 28 \<Longrightarrow> length y = 28 \<Longrightarrow> slice 56 28 (x @ y @ a @ b) = a"
    "length x = 28 \<Longrightarrow> length y = 28 \<Longrightarrow> length z = 28 \<Longrightarrow> slice 84 28 (x @ y @ z @ a) = a" if "length a = 28" for a b x y z :: "u8 list"
    using that by (simp_all add: slice_def)
  then show ?thesis unfolding read_pool_table_def n by (simp add: ts Let_def ENTRY_SIZE_def saved_entry_bytes)
qed

abbreviation all_tiers :: "security_tier list" where
  "all_tiers \<equiv> [Public, Internal, Sensitive, Secret]"

lemma length_table_bytes: "length (concat (map (pool_entry_bytes \<circ> fst) (saved_parts k mem padding pools i ts off))) = 28 * length ts"
  by (induction ts arbitrary: i off) (simp_all add: Let_def saved_entry_bytes(1))

lemma save_pools_layout:
  assumes s: "save_pools k mem padding pools s out = (out', Ok n)" and k: "kr_pools_ready k" "small_pools pools" "length padding = 4" and salt: "length (sl_bytes s) = 16"
  defines "ps \<equiv> saved_parts k mem padding pools 0 all_tiers 168"
  shows "out' = header_bytes (header_new s 56 (of_nat n)) @ concat (map (pool_entry_bytes \<circ> fst) ps) @ concat (map snd ps) @ drop n out"
    and "n = 168 + length (concat (map snd ps))" and "n \<le> length out"
proof -
  let ?v = "\<lparr>sv_output = out, sv_table = pool_table_new, sv_serializer = ser_new, sv_encrypted = replicate (MAX_POOL_DATA_SIZE + ENC_HEADER_SIZE) 0,
    sv_offset = HEADER_SIZE + TABLE_SIZE\<rparr>"
  let ?body = "concat (map snd ps)"
  have wf: "save_wf ?v" by (simp add: save_wf_def ser_new_def ENC_HEADER_SIZE_def)
  obtain v' where v: "save_loop k mem padding pools (enumerate 0 all_tiers) ?v = (v', Ok ())"
    using s by (auto simp: save_pools_def Let_def simp del: save_loop.simps split: prod.splits sum.splits)
  have off: "sv_offset ?v = 168" by (simp add: HEADER_SIZE_def TABLE_SIZE_def)
  have l: "168 + length ?body \<le> length out" "sv_output v' = copy_into 168 ?body out" "sv_offset v' = 168 + length ?body" "sv_table v' = copy_into 0 (map fst ps) pool_table_new"
    using save_loop_Ok [OF wf k _ v] unfolding off ps_def by (auto simp: pool_table_new_def NUM_POOLS_def simp del: saved_parts.simps)
  have "length ps = 4" by (simp add: ps_def del: saved_parts.simps)
  then have tb: "sv_table v' = map fst ps" using l(4) by (simp add: copy_into_def pool_table_new_def NUM_POOLS_def)
  have out: "out' = copy_into 0 (header_bytes (header_new s 56 (of_nat n))) (copy_into 56 (concat (map (pool_entry_bytes \<circ> fst) ps)) (sv_output v'))"
    "n = sv_offset v'"
    using s v tb by (auto simp: save_pools_def Let_def HEADER_SIZE_def simp del: save_loop.simps)
  show n: "n = 168 + length ?body" "n \<le> length out" using out(2) l(1,3) by simp_all
  have h: "length (header_bytes (header_new s a b)) = 56" for a b using length_header_bytes [OF header_new_wf [OF salt]] .
  have t: "length (concat (map (pool_entry_bytes \<circ> fst) ps)) = 112" by (simp add: ps_def length_table_bytes del: saved_parts.simps)
  show "out' = header_bytes (header_new s 56 (of_nat n)) @ concat (map (pool_entry_bytes \<circ> fst) ps) @ ?body @ drop n out"
    unfolding out(1) l(2) using l(1) n by (simp add: copy_into_def h t)
qed

section \<open>Frames in memory\<close>

text \<open>The pools are runs of pages: the first page of each tier and how many there are.\<close>

fun first_page :: "security_tier \<Rightarrow> nat" where
  "first_page Public = 0x42000"
| "first_page Internal = 0x42001"
| "first_page Sensitive = 0x42002"
| "first_page Secret = 0x42004"

fun page_total :: "security_tier \<Rightarrow> nat" where
  "page_total Public = 1"
| "page_total Internal = 1"
| "page_total Sensitive = 2"
| "page_total Secret = 4"

lemma pool_pages:
  assumes "pa_inv pa"
  shows "frame_count (get_pool pa t) = page_total t" and "frame_addr (get_pool pa t) i = of_nat (4096 * (first_page t + i))"
proof -
  have f: "frame_count (get_pool pa t) = unat (mp_size (get_pool pa_new t)) div 4096" "mp_base (get_pool pa t) = mp_base (get_pool pa_new t)"
    using assms by (simp_all add: pa_inv_def mp_inv_def frame_count_def)
  show "frame_count (get_pool pa t) = page_total t" unfolding f(1) by (cases t) (simp_all add: pa_new_def mp_new_def pool_layout)
  have b: "mp_base (get_pool pa_new t) = of_nat (4096 * first_page t)" by (cases t) (simp_all add: pa_new_def mp_new_def pool_layout)
  have "of_nat (4096 * (first_page t + i)) = of_nat (4096 * first_page t) + of_nat i * (of_nat 4096 :: u64)"
    by (simp only: distrib_left of_nat_add of_nat_mult mult.commute [of _ "of_nat i"])
  then show "frame_addr (get_pool pa t) i = of_nat (4096 * (first_page t + i))" unfolding frame_addr_def f(2) b by simp
qed

lemma pa_inv_small: "pa_inv pa \<Longrightarrow> small_pools pa"
proof -
  assume "pa_inv pa"
  moreover have "page_total t \<le> 8" for t by (cases t) simp_all
  ultimately show ?thesis by (simp add: small_pools_def pool_pages(1))
qed

lemma unat_page: "q < 2 ^ 52 \<Longrightarrow> k < 4096 \<Longrightarrow> unat (of_nat (4096 * q + k) :: u64) = 4096 * q + k"
  by (simp add: unat_of_nat take_bit_nat_eq_self del: of_nat_add of_nat_mult)

lemma frame_page: "q < 2 ^ 52 \<Longrightarrow> k < 4096 \<Longrightarrow> unat (of_nat (4096 * q) + of_nat k :: u64) div 4096 = q"
  using unat_page [of q k] by simp

lemma page_of: "q < 2 ^ 52 \<Longrightarrow> unat (a - of_nat (4096 * q)) < 4096 \<longleftrightarrow> unat a div 4096 = q" for a :: u64
proof
  assume q: "q < 2 ^ 52" and d: "unat (a - of_nat (4096 * q)) < 4096"
  have "a = of_nat (4096 * q) + of_nat (unat (a - of_nat (4096 * q)))" by simp
  then show "unat a div 4096 = q" using frame_page [OF q d] by metis
next
  assume q: "unat a div 4096 = q"
  have "a = of_nat (4096 * q + unat a mod 4096)" unfolding q [symmetric] by (simp only: mult_div_mod_eq) simp
  then have "a - of_nat (4096 * q) = of_nat (unat a mod 4096)" by (simp only: of_nat_add) (simp add: algebra_simps)
  moreover have "unat (of_nat (unat a mod 4096) :: u64) = unat a mod 4096" using unat_page [of 0 "unat a mod 4096"] by simp
  ultimately show "unat (a - of_nat (4096 * q)) < 4096" by simp
qed

text \<open>Restoring one frame: the pool gains the frame, and no other page changes.\<close>

lemma restore_frame_effect:
  assumes "mp_inv p" and "i < frame_count p" and "length data = 4096" and "frame_addr p i = of_nat (4096 * q)" and "q < 2 ^ 52"
  shows "mp_inv (snd (restore_frame mem p i data)) \<and> mp_base (snd (restore_frame mem p i data)) = mp_base p
      \<and> mp_size (snd (restore_frame mem p i data)) = mp_size p \<and> mp_tier (snd (restore_frame mem p i data)) = mp_tier p
      \<and> (\<forall>j. is_frame_allocated (snd (restore_frame mem p i data)) j \<longleftrightarrow> j = i \<or> is_frame_allocated p j)"
    and "unat a div 4096 \<noteq> q \<Longrightarrow> fst (restore_frame mem p i data) a = mem a"
proof -
  let ?f = "mp_allocator p"
  have inv: "fa_inv ?f" "i < total_frames ?f" using assms(1,2) by (simp_all add: mp_inv_def frame_count_def)
  then have w: "i div 64 < length (bitmap ?f)" by (auto simp: fa_inv_def MAX_FRAMES_def)
  have al: "allocated (mark_frame_allocated ?f i) = insert i (allocated ?f)" "total_frames (mark_frame_allocated ?f i) = total_frames ?f"
    using w by (auto simp: mark_frame_allocated_def case_prod_beta mark_allocated_effect)
  have "fa_inv (mark_frame_allocated ?f i)"
  proof (cases "i \<in> allocated ?f")
    case True
    then show ?thesis using inv w by (auto simp: fa_inv_def mark_frame_allocated_def case_prod_beta mark_allocated_effect insert_absorb)
  next
    case False
    then show ?thesis using inv(2) w
      by (intro fa_inv_take [OF inv(1), of _ "{i}"]) (simp_all add: mark_frame_allocated_def case_prod_beta mark_allocated_effect)
  qed
  then show "mp_inv (snd (restore_frame mem p i data)) \<and> mp_base (snd (restore_frame mem p i data)) = mp_base p
      \<and> mp_size (snd (restore_frame mem p i data)) = mp_size p \<and> mp_tier (snd (restore_frame mem p i data)) = mp_tier p
      \<and> (\<forall>j. is_frame_allocated (snd (restore_frame mem p i data)) j \<longleftrightarrow> j = i \<or> is_frame_allocated p j)"
    using assms(1,2,3) al by (auto simp: restore_frame_def mp_inv_def is_frame_allocated_def allocated_def set_eq_iff)
  assume "unat a div 4096 \<noteq> q"
  then show "fst (restore_frame mem p i data) a = mem a" using assms(2-5) page_of [of q a] by (simp add: restore_frame_def)
qed

lemma frame_data_cong:
  assumes "frame_addr p i = of_nat (4096 * q)" and "q < 2 ^ 52" and "\<And>a. unat a div 4096 = q \<Longrightarrow> mem a = mem' a"
  shows "get_frame_data mem p i = get_frame_data mem' p i"
  using assms(3) frame_page [OF assms(2)] by (auto simp: get_frame_data_def assms(1))

lemma and_push_bit: "bm AND push_bit i 1 \<noteq> 0 \<longleftrightarrow> bit bm i" for bm :: u64
proof -
  have b: "bit (push_bit i (1 :: u64)) j \<longleftrightarrow> j = i \<and> i < 64" for j
    by (auto simp: bit_push_bit_iff bit_1_iff simp del: push_bit_of_1 dest: bit_imp_le_length)
  have "bit (bm AND push_bit i 1) j \<longleftrightarrow> j = i \<and> bit bm i" for j
    by (auto simp: bit_and_iff b simp del: push_bit_of_1 dest: bit_imp_le_length)
  then show ?thesis by (metis bit_0_eq bot_apply bot_bool_def bit_eqI)
qed

lemma restore_loop_effect:
  assumes "mp_inv p" and "\<And>i. frame_addr p i = of_nat (4096 * (q0 + i))" and "distinct is" and "\<forall>i \<in> set is. i < frame_count p \<and> q0 + i < 2 ^ 52"
    and "\<And>i. length (F i) = 4096" and "drop (de_pos d) (de_data d) = concat (map F (filter (bit bm) is))"
  shows "\<exists>mem' p'. restore_loop bm is d mem p = (mem', p') \<and> mp_inv p' \<and> mp_base p' = mp_base p \<and> mp_size p' = mp_size p \<and> mp_tier p' = mp_tier p
    \<and> (\<forall>j. is_frame_allocated p' j \<longleftrightarrow> is_frame_allocated p j \<or> (j \<in> set is \<and> bit bm j))
    \<and> (\<forall>i \<in> set is. bit bm i \<longrightarrow> get_frame_data mem' p i = F i)
    \<and> (\<forall>a. (\<forall>i \<in> set is. unat a div 4096 \<noteq> q0 + i) \<longrightarrow> mem' a = mem a)"
  using assms(1-4,6)
proof (induction "is" arbitrary: d mem p)
  case (Cons i "is")
  show ?case
  proof (cases "bit bm i")
    case True
    have dr: "drop (de_pos d) (de_data d) = F i @ concat (map F (filter (bit bm) is))" using Cons.prems(5) True by simp
    from arg_cong [OF this, of length] have len: "4096 \<le> length (de_data d) - de_pos d" using assms(5) by simp
    then have rf: "read_frame d 4096 = (d\<lparr>de_pos := de_pos d + 4096\<rparr>, Ok (F i))"
      using dr assms(5) by (simp add: read_frame_def slice_def)
    have d': "drop (de_pos (d\<lparr>de_pos := de_pos d + 4096\<rparr>)) (de_data (d\<lparr>de_pos := de_pos d + 4096\<rparr>)) = concat (map F (filter (bit bm) is))"
      using arg_cong [OF dr, of "drop 4096"] assms(5) by (simp add: add.commute)
    obtain m1 p1 where r: "restore_frame mem p i (F i) = (m1, p1)" by fastforce
    have i: "i < frame_count p" "q0 + i < 2 ^ 52" using Cons.prems(4) by auto
    note e = restore_frame_effect [OF Cons.prems(1) i(1) assms(5) [of i] Cons.prems(2) i(2), where mem = mem, unfolded r fst_conv snd_conv]
    have geo: "frame_addr p1 j = frame_addr p j" "frame_count p1 = frame_count p" for j
      using e(1) Cons.prems(1) by (simp_all add: frame_addr_def mp_inv_def frame_count_def)
    have "\<And>j. frame_addr p1 j = of_nat (4096 * (q0 + j))" "distinct is" "\<forall>i \<in> set is. i < frame_count p1 \<and> q0 + i < 2 ^ 52"
      using geo Cons.prems(2-4) by auto
    from Cons.IH [OF conjunct1 [OF e(1)] this d', of m1] obtain m2 p2 where
      ih: "restore_loop bm is (d\<lparr>de_pos := de_pos d + 4096\<rparr>) m1 p1 = (m2, p2)" "mp_inv p2" "mp_base p2 = mp_base p1" "mp_size p2 = mp_size p1" "mp_tier p2 = mp_tier p1"
        "\<forall>j. is_frame_allocated p2 j \<longleftrightarrow> is_frame_allocated p1 j \<or> (j \<in> set is \<and> bit bm j)" "\<forall>i \<in> set is. bit bm i \<longrightarrow> get_frame_data m2 p1 i = F i"
        "\<forall>a. (\<forall>i \<in> set is. unat a div 4096 \<noteq> q0 + i) \<longrightarrow> m2 a = m1 a" by blast
    have same: "get_frame_data m p1 j = get_frame_data m p j" for m j by (simp add: get_frame_data_def geo)
    have "get_frame_data m1 p i = F i" using get_restore_frame [OF assms(5) [of i] i(1), of mem] r by simp
    moreover have "m2 a = m1 a" if "unat a div 4096 = q0 + i" for a
    proof -
      have "\<forall>j \<in> set is. unat a div 4096 \<noteq> q0 + j" using that Cons.prems(3) by auto
      then show ?thesis using ih(8) by blast
    qed
    ultimately have "get_frame_data m2 p i = F i" using frame_data_cong [OF Cons.prems(2) i(2), of m2 m1] by auto
    then have "\<forall>j \<in> set (i # is). bit bm j \<longrightarrow> get_frame_data m2 p j = F j" using ih(7) same by auto
    moreover have "restore_loop bm (i # is) d mem p = (m2, p2)" using True rf r ih(1) by (simp add: and_push_bit del: push_bit_of_1)
    moreover have "\<forall>a. (\<forall>j \<in> set (i # is). unat a div 4096 \<noteq> q0 + j) \<longrightarrow> m2 a = mem a" using ih(8) e(2) by auto
    ultimately show ?thesis using ih(2-6) e(1) True by auto
  next
    case False
    have "\<forall>i \<in> set is. i < frame_count p \<and> q0 + i < 2 ^ 52" "distinct is" "drop (de_pos d) (de_data d) = concat (map F (filter (bit bm) is))" using Cons.prems(3-5) False by auto
    from Cons.IH [OF Cons.prems(1,2) this(2,1,3), of mem] show ?thesis using False by (auto simp: and_push_bit simp del: push_bit_of_1)
  qed
qed auto

section \<open>Loading what was saved\<close>

lemma load_entry_saved:
  fixes mem :: "u64 \<Rightarrow> u8" and i :: nat and t :: security_tier and off :: nat
  assumes k: "kr_pools_ready k" "small_pools pools" "length padding = 4"
  defines "b \<equiv> saved_blob k mem padding pools i t off" and "p0 \<equiv> get_pool pools t"
  assumes d: "slice off (length b) data = b" "off + length b \<le> length data" "off + length b < 2 ^ 32" "length buf = MAX_POOL_DATA_SIZE"
  shows "\<exists>buf'. length buf' = MAX_POOL_DATA_SIZE \<and> load_entry k data (saved_entry pools t off (length b)) buf m1 pools1
    = (case restore_loop (pm_allocation_bitmap (from_pool p0 t)) [0..<frame_count p0] \<lparr>de_data = pool_image mem padding p0 t, de_pos = 32\<rparr> m1 (get_pool pools1 t)
         of (m, p) \<Rightarrow> (buf', m, set_pool pools1 t p, Ok ()))"
proof -
  let ?im = "pool_image mem padding p0 t" and ?e = "saved_entry pools t off (length b)"
  have b: "b = pool_blob (kr_pool_keys k ! unat (tier_value t)) t (save_nonce i off) ?im" by (simp add: b_def saved_blob_def p0_def)
  have len: "length b = 28 + length ?im" by (simp add: b)
  have fc: "frame_count p0 \<le> 8" using k(2) by (simp add: small_pools_def p0_def)
  have fit: "length ?im \<le> length buf" using image_fits [OF k(3,2), of mem t] d(4) by (simp add: p0_def)
  have u: "unat (of_nat off :: u32) = off" "unat (of_nat (length b) :: u32) = length b" using d(3) by (simp_all add: unat_of_nat take_bit_nat_eq_self)
  have e: "unat (pe_data_offset ?e) = off" "unat (pe_data_size ?e) = length b" "pe_tier ?e = tier_value t"
    using u by (simp_all add: saved_entry_def pool_entry_new_def)
  have ne: "pe_data_size ?e \<noteq> 0" using e(2) len by (metis unat_0 add_is_0 zero_neq_numeral)
  have t: "tier_from_value (tier_value t) = Some t" by (cases t) (simp_all add: tier_from_value_def)
  have key: "get_pool_key k t = Ok (kr_pool_keys k ! unat (tier_value t))" using k(1) by (simp add: get_pool_key_ready)
  note dec = decrypt_pool_blob [OF key length_save_nonce fit, of i off, folded b]
  have tk: "take (length ?im) (?im @ drop (length ?im) buf) = ?im" by simp
  have "load_entry k data ?e buf m1 pools1
    = (case restore_loop (pm_allocation_bitmap (from_pool p0 t)) [0..<frame_count p0] \<lparr>de_data = ?im, de_pos = 32\<rparr> m1 (get_pool pools1 t)
         of (m, p) \<Rightarrow> (?im @ drop (length ?im) buf, m, set_pool pools1 t p, Ok ()))"
    unfolding load_entry_def e t Let_def using ne d(1,2) dec by (simp add: tk read_metadata_image [OF k(3)] from_pool_facts(2) [OF fc])
  moreover have "length (?im @ drop (length ?im) buf) = MAX_POOL_DATA_SIZE" using fit d(4) by simp
  ultimately show ?thesis by blast
qed

text \<open>The frames of a tier are back: allocated, with the bytes they had.\<close>

definition tier_restored :: "(u64 \<Rightarrow> u8) \<Rightarrow> pool_allocator \<Rightarrow> (u64 \<Rightarrow> u8) \<Rightarrow> pool_allocator \<Rightarrow> security_tier \<Rightarrow> bool" where
  "tier_restored mem pools m1 pools1 t \<longleftrightarrow>
     (\<forall>i < frame_count (get_pool pools t). is_frame_allocated (get_pool pools t) i \<longrightarrow>
        is_frame_allocated (get_pool pools1 t) i \<and> get_frame_data m1 (get_pool pools1 t) i = get_frame_data mem (get_pool pools t) i)"

lemma get_set_pool: "get_pool (set_pool pa t p) t' = (if t' = t then p else get_pool pa t')"
  by (cases t; cases t') simp_all

lemma pa_inv_set_pool:
  assumes "pa_inv pa" "mp_inv p" "mp_base p = mp_base (get_pool pa t)" "mp_size p = mp_size (get_pool pa t)" "mp_tier p = mp_tier (get_pool pa t)"
  shows "pa_inv (set_pool pa t p)"
  using assms by (auto simp: pa_inv_def get_set_pool)

lemma pages_apart: "t \<noteq> t' \<Longrightarrow> i < page_total t \<Longrightarrow> j < page_total t' \<Longrightarrow> first_page t + i \<noteq> first_page t' + j"
  by (cases t; cases t') simp_all

lemma page_small: "i < page_total t \<Longrightarrow> first_page t + i < 2 ^ 52"
  by (cases t) simp_all

lemma restore_tier:
  fixes t :: security_tier
  assumes inv: "pa_inv pools" "pa_inv pools1" and pad: "length padding = 4"
  defines "p0 \<equiv> get_pool pools t"
  assumes r: "restore_loop (pm_allocation_bitmap (from_pool p0 t)) [0..<frame_count p0] \<lparr>de_data = pool_image mem padding p0 t, de_pos = 32\<rparr> m1 (get_pool pools1 t) = (m2, p2)"
  shows "pa_inv (set_pool pools1 t p2) \<and> tier_restored mem pools m2 (set_pool pools1 t p2) t
    \<and> (\<forall>t'. t' \<noteq> t \<longrightarrow> tier_restored mem pools m1 pools1 t' \<longrightarrow> tier_restored mem pools m2 (set_pool pools1 t p2) t')"
proof -
  let ?bm = "pm_allocation_bitmap (from_pool p0 t)" and ?p1 = "get_pool pools1 t"
  have fc: "frame_count p0 = page_total t" "frame_count ?p1 = page_total t" using pool_pages(1) inv by (simp_all add: p0_def)
  have small: "frame_count p0 \<le> 8" using pa_inv_small [OF inv(1)] by (simp add: small_pools_def p0_def)
  note bits = from_pool_facts(1) [OF small, of t]
  have "filter (bit ?bm) [0..<frame_count p0] = live_frames p0" unfolding live_frames_def by (rule filter_cong) (auto simp: bits)
  then have dr: "drop 32 (pool_image mem padding p0 t) = concat (map (get_frame_data mem p0) (filter (bit ?bm) [0..<frame_count p0]))"
    using pad by (simp add: pool_image_def)
  have p1: "mp_inv ?p1" using inv(2) by (simp add: pa_inv_def)
  have rng: "\<forall>i \<in> set [0..<frame_count p0]. i < frame_count ?p1 \<and> first_page t + i < 2 ^ 52" using fc page_small by auto
  obtain e: "mp_inv p2" "mp_base p2 = mp_base ?p1" "mp_size p2 = mp_size ?p1" "mp_tier p2 = mp_tier ?p1"
    "\<forall>j. is_frame_allocated p2 j \<longleftrightarrow> is_frame_allocated ?p1 j \<or> (j \<in> set [0..<frame_count p0] \<and> bit ?bm j)"
    "\<forall>i \<in> set [0..<frame_count p0]. bit ?bm i \<longrightarrow> get_frame_data m2 ?p1 i = get_frame_data mem p0 i"
    "\<forall>a. (\<forall>i \<in> set [0..<frame_count p0]. unat a div 4096 \<noteq> first_page t + i) \<longrightarrow> m2 a = m1 a"
    using restore_loop_effect [OF p1 pool_pages(2) [OF inv(2)] distinct_upt rng, of "get_frame_data mem p0" "\<lparr>de_data = pool_image mem padding p0 t, de_pos = 32\<rparr>" ?bm m1] dr r
    by auto
  have pa: "pa_inv (set_pool pools1 t p2)" by (rule pa_inv_set_pool [OF inv(2) e(1-4)])
  have same: "get_frame_data m p2 i = get_frame_data m ?p1 i" for m i using e(2) by (simp add: get_frame_data_def frame_addr_def)
  have "tier_restored mem pools m2 (set_pool pools1 t p2) t" using e(5,6) bits by (auto simp: tier_restored_def get_set_pool same p0_def [symmetric])
  moreover have "tier_restored mem pools m2 (set_pool pools1 t p2) t'" if t': "t' \<noteq> t" "tier_restored mem pools m1 pools1 t'" for t'
  proof -
    have "get_frame_data m2 (get_pool pools1 t') i = get_frame_data m1 (get_pool pools1 t') i" if i: "i < page_total t'" for i
    proof (rule frame_data_cong [OF pool_pages(2) [OF inv(2)] page_small [OF i]])
      fix a :: u64 assume "unat a div 4096 = first_page t' + i"
      then show "m2 a = m1 a" using e(7) pages_apart [OF t'(1) i] fc(1) by simp
    qed
    then show ?thesis using t' pool_pages(1) [OF inv(1)] by (auto simp: tier_restored_def get_set_pool)
  qed
  ultimately show ?thesis using pa by blast
qed

lemma load_loop_saved:
  assumes k: "kr_pools_ready k" "pa_inv pools" "length padding = 4"
    and data: "data = pre @ concat (map snd (saved_parts k mem padding pools i ts off)) @ post" "length pre = off" "length data < 2 ^ 32"
    and cur: "pa_inv pools1" "length buf = MAX_POOL_DATA_SIZE" "\<forall>t \<in> T. tier_restored mem pools m1 pools1 t"
  shows "\<exists>m2 pools2. load_loop k data (map fst (saved_parts k mem padding pools i ts off)) buf m1 pools1 = (m2, pools2, Ok ())
    \<and> pa_inv pools2 \<and> (\<forall>t \<in> T \<union> set ts. tier_restored mem pools m2 pools2 t)"
  using data(1,2) cur
proof (induction ts arbitrary: i off pre buf m1 pools1 T)
  case (Cons t ts)
  let ?b = "saved_blob k mem padding pools i t off" and ?p0 = "get_pool pools t"
  let ?ps = "saved_parts k mem padding pools (Suc i) ts (off + length ?b)"
  have d: "data = pre @ ?b @ concat (map snd ?ps) @ post" using Cons.prems(1) by (simp add: Let_def)
  have b: "slice off (length ?b) data = ?b" "off + length ?b \<le> length data" "off + length ?b < 2 ^ 32"
    using d Cons.prems(2) data(3) by (simp_all add: slice_def)
  obtain m2 p2 where r: "restore_loop (pm_allocation_bitmap (from_pool ?p0 t)) [0..<frame_count ?p0] \<lparr>de_data = pool_image mem padding ?p0 t, de_pos = 32\<rparr> m1 (get_pool pools1 t) = (m2, p2)"
    by fastforce
  obtain buf' where l: "length buf' = MAX_POOL_DATA_SIZE" "load_entry k data (saved_entry pools t off (length ?b)) buf m1 pools1 = (buf', m2, set_pool pools1 t p2, Ok ())"
    using load_entry_saved [OF k(1) pa_inv_small [OF k(2)] k(3) b Cons.prems(4), of m1 pools1] r by auto
  note e = restore_tier [OF k(2) Cons.prems(3) k(3) r]
  have "\<forall>t' \<in> insert t T. tier_restored mem pools m2 (set_pool pools1 t p2) t'"
  proof
    fix t' assume "t' \<in> insert t T"
    then show "tier_restored mem pools m2 (set_pool pools1 t p2) t'" using e Cons.prems(5) by (cases "t' = t") auto
  qed
  from Cons.IH [of "pre @ ?b" "Suc i" "off + length ?b", OF _ _ conjunct1 [OF e] l(1) this]
  obtain m3 p3 where "load_loop k data (map fst ?ps) buf' m2 (set_pool pools1 t p2) = (m3, p3, Ok ())" "pa_inv p3" "\<forall>t' \<in> insert t T \<union> set ts. tier_restored mem pools m3 p3 t'"
    using d Cons.prems(2) by auto
  then show ?case using l(2) by (auto simp: Let_def)
qed auto

text \<open>
  (C4) Saved pools can be restored. When all four pools were saved and the header of the result passes
  its check, loading the buffer with the same keys succeeds, whatever the state of the pools it is
  loaded into: every frame that was allocated when the pools were saved is allocated again and holds
  the bytes it held, in every tier.
\<close>

theorem saved_pools_restored:
  assumes "pa_inv pools" and "pa_inv pools1" and "kr_pools_ready k" and "length padding = 4" and "length (sl_bytes s) = 16"
    and "length out < 2 ^ 32" and "save_pools k mem padding pools s out = (out', Ok n)" and "header_verify (read_header out')"
  shows "\<exists>m2 pools2. load_pools k out' m1 pools1 = (m2, pools2, Ok ()) \<and> pa_inv pools2 \<and> (\<forall>t. tier_restored mem pools m2 pools2 t)"
proof -
  define ps where "ps = saved_parts k mem padding pools 0 all_tiers 168"
  let ?h = "header_new s 56 (of_nat n)"
  note lay = save_pools_layout [OF assms(7,3) pa_inv_small [OF assms(1)] assms(4,5), folded ps_def]
  have hl: "length (header_bytes ?h) = 56" using length_header_bytes [OF header_new_wf [OF assms(5)]] .
  have tl: "length (concat (map (pool_entry_bytes \<circ> fst) ps)) = 112" using length_table_bytes [of k mem padding pools 0 all_tiers 168, folded ps_def] by simp
  have len: "length out' = length out" using lay hl tl by simp
  have rh: "read_header out' = ?h" unfolding lay(1) using read_header_bytes [OF header_new_wf [OF assms(5)]] by simp
  have "unat (hd_pool_table_offset ?h) = 56" by (simp add: header_new_def Let_def)
  moreover have "slice 56 112 out' = concat (map (pool_entry_bytes \<circ> fst) ps)" unfolding lay(1) using hl tl by (simp add: slice_def)
  moreover have "168 \<le> length out'" using lay(2,3) len by simp
  ultimately have l: "load_pools k out' m1 pools1 = load_loop k out' (map fst ps) (replicate MAX_POOL_DATA_SIZE 0) m1 pools1"
    using assms(8) read_saved_table [of all_tiers k mem padding pools 0 168, folded ps_def] unfolding load_pools_def HEADER_SIZE_def TABLE_SIZE_def Let_def rh by simp
  have "out' = (header_bytes ?h @ concat (map (pool_entry_bytes \<circ> fst) ps)) @ concat (map snd ps) @ drop n out" using lay(1) by simp
  from load_loop_saved [OF assms(3,1,4) this [unfolded ps_def] _ _ assms(2), folded ps_def, of "replicate MAX_POOL_DATA_SIZE 0" "{}" m1] hl tl len assms(6)
  obtain m2 pools2 where r: "load_loop k out' (map fst ps) (replicate MAX_POOL_DATA_SIZE 0) m1 pools1 = (m2, pools2, Ok ())" "pa_inv pools2"
    "\<forall>t \<in> {} \<union> set all_tiers. tier_restored mem pools m2 pools2 t" by auto
  have "t \<in> {} \<union> set all_tiers" for t by (cases t) simp_all
  then have "\<forall>t. tier_restored mem pools m2 pools2 t" using r(3) by blast
  then show ?thesis using l r(1,2) by simp
qed

lemma length_body:
  assumes "length padding = 4"
  shows "length (concat (map snd (saved_parts k mem padding pools i ts off))) = sum_list (map (\<lambda>t. 60 + 4096 * length (live_frames (get_pool pools t))) ts)"
  using assms by (induction ts arbitrary: i off) (simp_all add: Let_def saved_blob_def)

lemma save_pools_succeeds:
  assumes k: "kr_pools_ready k" "small_pools pools" "length padding = 4" and salt: "length (sl_bytes s) = 16"
    and fit: "168 + sum_list (map (\<lambda>t. 60 + 4096 * length (live_frames (get_pool pools t))) all_tiers) \<le> length out"
  shows "\<exists>out'. save_pools k mem padding pools s out = (out', Ok (168 + sum_list (map (\<lambda>t. 60 + 4096 * length (live_frames (get_pool pools t))) all_tiers)))"
proof -
  define v where "v = \<lparr>sv_output = out, sv_table = pool_table_new, sv_serializer = ser_new, sv_encrypted = replicate (MAX_POOL_DATA_SIZE + ENC_HEADER_SIZE) 0,
    sv_offset = HEADER_SIZE + TABLE_SIZE\<rparr>"
  have v: "save_wf v" "sv_offset v = 168" "sv_output v = out" by (simp_all add: v_def save_wf_def ser_new_def ENC_HEADER_SIZE_def HEADER_SIZE_def TABLE_SIZE_def)
  have "sv_offset v + length (concat (map snd (saved_parts k mem padding pools 0 all_tiers (sv_offset v)))) \<le> length (sv_output v)"
    unfolding length_body [OF k(3)] v(2,3) by (rule fit)
  from save_loop_succeeds [OF k v(1) this] obtain v' where "save_loop k mem padding pools (enumerate 0 all_tiers) v = (v', Ok ())" by blast
  then obtain out' n where o: "save_pools k mem padding pools s out = (out', Ok n)"
    unfolding save_pools_def Let_def v_def [symmetric] by (simp del: save_loop.simps enumerate_simps)
  then show ?thesis using save_pools_layout(2) [OF o k salt] unfolding length_body [OF k(3)] by simp
qed

text \<open>A salt for which the checksum of the saved pools is zero, so that their header passes its check.\<close>

definition demo_pools :: pool_allocator where
  "demo_pools = set_pool pa_new Secret (snd (restore_frame (\<lambda>_. 0) (get_pool pa_new Secret) 0 (replicate 4096 0)))"

definition demo_salt :: salt where
  "demo_salt = salt_from_bytes [0, 0, 0, 0, 0, 0, 0, 0, 0, 0, 0, 0, 24, 92, 74, 168]"

lemma fresh_pools: "\<not> is_frame_allocated (get_pool pa_new t) i"
  by (cases t) (simp_all add: is_frame_allocated_def pa_new_def mp_new_def is_allocated_bit fa_new_def Let_def)

lemma demo_frames: "pa_inv demo_pools" "is_frame_allocated (get_pool demo_pools t) i \<longleftrightarrow> t = Secret \<and> i = 0"
proof -
  have p: "mp_inv (get_pool pa_new Secret)" using pa_inv_new unfolding pa_inv_def by blast
  have "0 < frame_count (get_pool pa_new Secret)" "first_page Secret + 0 < 2 ^ 52" unfolding pool_pages(1) [OF pa_inv_new] by simp_all
  note e = restore_frame_effect(1) [OF p this(1) length_replicate pool_pages(2) [OF pa_inv_new] this(2), where mem = "\<lambda>_. 0"]
  show "pa_inv demo_pools" unfolding demo_pools_def using e by (intro pa_inv_set_pool [OF pa_inv_new]) blast+
  have "is_frame_allocated (snd (restore_frame (\<lambda>_. 0) (get_pool pa_new Secret) 0 (replicate 4096 0))) i \<longleftrightarrow> i = 0" using e fresh_pools by blast
  then show "is_frame_allocated (get_pool demo_pools t) i \<longleftrightarrow> t = Secret \<and> i = 0" unfolding demo_pools_def get_set_pool using fresh_pools by simp
qed

lemma demo_live: "live_frames (get_pool demo_pools t) = (if t = Secret then [0] else [])"
  unfolding live_frames_def pool_pages(1) [OF demo_frames(1)] demo_frames(2) by (cases t) (simp_all add: upt_rec)

lemma crc_bits_byte_steps: "crc_bits_byte c b = crc_step (crc_step (crc_step (crc_step (crc_step (crc_step (crc_step (crc_step (c XOR ucast b))))))))"
  unfolding crc_bits_byte_def by (simp only: eval_nat_numeral BitM.simps funpow.simps o_apply id_apply)

lemma demo_checksum: "hd_checksum (header_new demo_salt 56 4504) = 0"
proof -
  let ?h = "\<lparr>hd_magic = STORAGE_MAGIC, hd_version = STORAGE_VERSION, hd_salt = sl_bytes demo_salt, hd_pool_table_offset = 56, hd_total_size = 4504, hd_checksum = 0, hd_reserved = replicate 20 0\<rparr>"
  have "take (HEADER_SIZE - 4) (header_bytes ?h) = [0x53, 0x45, 0x4D, 0x4F, 1, 0, 0, 0, 0, 0, 0, 0, 0, 0, 0, 0, 0, 0, 0, 0, 24, 92, 74, 168, 56, 0, 0, 0, 0x98, 0x11, 0, 0,
      0, 0, 0, 0, 0, 0, 0, 0, 0, 0, 0, 0, 0, 0, 0, 0, 0, 0, 0, 0]"
    by code_simp
  moreover have "foldl crc_bits_byte 0xFFFFFFFF [0x53, 0x45, 0x4D, 0x4F, 1, 0, 0, 0, 0, 0, 0, 0, 0, 0, 0, 0, 0, 0, 0, 0, 24, 92, 74, 168, 56, 0, 0, 0, 0x98, 0x11, 0, 0,
      0, 0, 0, 0, 0, 0, 0, 0, 0, 0, 0, 0, 0, 0, 0, 0, 0, 0, 0, 0] = 0xFFFFFFFF"
    by (simp add: crc_bits_byte_steps crc_step_def)
  ultimately have "compute_checksum ?h = 0" unfolding compute_checksum_def by simp
  then show ?thesis by (simp add: header_new_def Let_def)
qed

theorem saved_pools_restored_witness:
  "\<exists>out' m2 pools2. save_pools demo_ring (\<lambda>_. 7) [0, 0, 0, 0] demo_pools demo_salt (replicate 5000 0) = (out', Ok 4504)
     \<and> load_pools demo_ring out' (\<lambda>_. 0) pa_new = (m2, pools2, Ok ())
     \<and> is_frame_allocated (get_pool pools2 Secret) 0 \<and> get_frame_data m2 (get_pool pools2 Secret) 0 = replicate 4096 7"
proof -
  have k: "kr_pools_ready demo_ring" "length [0, 0, 0, 0 :: u8] = 4" "length (sl_bytes demo_salt) = 16"
    by (simp_all add: demo_ring_def demo_salt_def salt_from_bytes_def)
  obtain out' where o: "save_pools demo_ring (\<lambda>_. 7) [0, 0, 0, 0] demo_pools demo_salt (replicate 5000 0) = (out', Ok 4504)"
    using save_pools_succeeds [OF k(1) pa_inv_small [OF demo_frames(1)] k(2,3), of "replicate 5000 0" "\<lambda>_. 7"] by (auto simp: demo_live [of Public, simplified] demo_live [of Internal, simplified] demo_live [of Sensitive, simplified] demo_live [of Secret, simplified])
  have "read_header out' = header_new demo_salt 56 4504"
    unfolding save_pools_layout(1) [OF o k(1) pa_inv_small [OF demo_frames(1)] k(2,3)] using read_header_bytes [OF header_new_wf [OF k(3)]] by simp
  then have v: "header_verify (read_header out')" using verify_new [OF k(3), of 56 4504] demo_checksum by simp
  obtain m2 pools2 where r: "load_pools demo_ring out' (\<lambda>_. 0) pa_new = (m2, pools2, Ok ())" "tier_restored (\<lambda>_. 7) demo_pools m2 pools2 Secret"
    using saved_pools_restored [OF demo_frames(1) pa_inv_new k(1,2,3) _ o v, of "\<lambda>_. 0"] by auto
  have "is_frame_allocated (get_pool demo_pools Secret) 0" "0 < frame_count (get_pool demo_pools Secret)"
    unfolding demo_frames(2) pool_pages(1) [OF demo_frames(1)] by simp_all
  then show ?thesis using o r by (auto simp: tier_restored_def get_frame_data_def map_replicate_const)
qed

end
