(* ===== verification/Boot.thy ===== *)
theory Boot
  imports Storage_Restore
begin

text \<open>
  The boot-time unlock flow: \<^verbatim>\<open>src/kernel-core/src/storage/boot.rs\<close>, a state machine over the storage
  header, the key ring and the passphrase. \<open>None\<close> stands for a panic (a slice out of range). Console
  output is left out; the counter of attempts wraps, as in a build without overflow checks.
\<close>

section \<open>Definitions\<close>

datatype boot_state = BootUnknown | BootFresh | BootLocked | BootUnlocked | BootFailed | BootCorrupted

record boot_context =
  bc_state :: boot_state
  bc_salt :: "salt option"
  bc_attempts :: u8
  bc_max_attempts :: u8

definition bc_new :: boot_context where
  "bc_new = \<lparr>bc_state = BootUnknown, bc_salt = None, bc_attempts = 0, bc_max_attempts = 3\<rparr>"

definition check_storage :: "boot_context \<Rightarrow> u8 list \<Rightarrow> (boot_context \<times> boot_state) option" where
  "check_storage ctx storage =
     (if length storage < HEADER_SIZE then Some (ctx\<lparr>bc_state := BootFresh\<rparr>, BootFresh)
      else let header = read_header storage
           in if \<not> header_verify header
              then if length storage < 64 then None
                   else if list_all (\<lambda>b. b = 0) (slice 0 64 storage) then Some (ctx\<lparr>bc_state := BootFresh\<rparr>, BootFresh)
                   else Some (ctx\<lparr>bc_state := BootCorrupted\<rparr>, BootCorrupted)
              else Some (ctx\<lparr>bc_salt := Some (header_salt header), bc_state := BootLocked\<rparr>, BootLocked))"

definition try_unlock :: "boot_context \<Rightarrow> u8 list \<Rightarrow> key_ring \<Rightarrow> boot_context \<times> key_ring \<times> (storage_error + unit)" where
  "try_unlock ctx passphrase k =
     (if bc_state ctx \<noteq> BootLocked \<and> bc_state ctx \<noteq> BootFailed then (ctx, k, Err InvalidHeader)
      else let ctx = ctx\<lparr>bc_attempts := bc_attempts ctx + 1\<rparr>
           in case bc_salt ctx of
                None \<Rightarrow> (ctx, k, Err InvalidHeader)
              | Some s \<Rightarrow>
                  (case unlock passphrase s k of
                     (k, Inr _) \<Rightarrow>
                       (case kh_init k of
                          (k, Inr _) \<Rightarrow> (ctx\<lparr>bc_state := BootUnlocked\<rparr>, k, Ok ())
                        | (k, Inl _) \<Rightarrow> (ctx\<lparr>bc_state := BootFailed\<rparr>, lock k, Err StKeyNotInitialized))
                   | (k, Inl _) \<Rightarrow> (ctx\<lparr>bc_state := BootFailed\<rparr>, k, Err DecryptionFailed)))"

definition init_fresh :: "boot_context \<Rightarrow> u8 list \<Rightarrow> u64 \<Rightarrow> key_ring \<Rightarrow> boot_context \<times> key_ring \<times> (storage_error + salt)" where
  "init_fresh ctx passphrase seed k =
     (if bc_state ctx \<noteq> BootFresh then (ctx, k, Err InvalidHeader)
      else let s = salt_generate seed;
               ctx = ctx\<lparr>bc_salt := Some s\<rparr>
           in case unlock passphrase s k of
                (k, Inl _) \<Rightarrow> (ctx, k, Err StKeyNotInitialized)
              | (k, Inr _) \<Rightarrow>
                  (case kh_init k of
                     (k, Inl _) \<Rightarrow> (ctx, k, Err StKeyNotInitialized)
                   | (k, Inr _) \<Rightarrow> (ctx\<lparr>bc_state := BootUnlocked\<rparr>, k, Ok s)))"

definition lock_system :: "boot_context \<Rightarrow> key_ring \<Rightarrow> boot_context \<times> key_ring" where
  "lock_system ctx k = (ctx\<lparr>bc_state := BootLocked\<rparr>, lock (kh_clear k))"

definition bc_is_unlocked :: "boot_context \<Rightarrow> key_ring \<Rightarrow> bool" where
  "bc_is_unlocked ctx k \<longleftrightarrow> bc_state ctx = BootUnlocked \<and> is_unlocked k"

definition remaining_attempts :: "boot_context \<Rightarrow> u8" where
  "remaining_attempts ctx = (if bc_attempts ctx \<le> bc_max_attempts ctx then bc_max_attempts ctx - bc_attempts ctx else 0)"

definition run_boot_sequence :: "u8 list \<Rightarrow> (storage_error + boot_context) option" where
  "run_boot_sequence storage =
     (case check_storage bc_new storage of
        None \<Rightarrow> None
      | Some (ctx, state) \<Rightarrow> Some (if state = BootCorrupted then Err ChecksumFailed else Ok ctx))"

definition demo_boot :: "u8 list \<Rightarrow> key_ring \<Rightarrow> key_ring \<times> (storage_error + unit)" where
  "demo_boot passphrase k =
     (case init_fresh (bc_new\<lparr>bc_state := BootFresh\<rparr>) passphrase 0x1234567887654321 k of
        (ctx, k, Inl e) \<Rightarrow> (k, Err e)
      | (ctx, k, Inr _) \<Rightarrow> (k, if kr_pools_ready k then Ok () else Err StKeyNotInitialized))"

section \<open>Lemmas\<close>

definition unlocked_ring :: "u8 list \<Rightarrow> salt \<Rightarrow> key_ring" where
  "unlocked_ring passphrase s =
     (let master = key_from_bytes (pbkdf2_spec passphrase (sl_bytes s) 100000)
      in \<lparr>kr_unlocked = True, kr_master = master, kr_salt = s, kr_pools_ready = True,
          kr_pool_keys = map (derive_pool_key master) POOL_LABELS\<rparr>)"

lemma derive_Ok:
  assumes "passphrase \<noteq> []" "length (sl_bytes s) = 16"
  shows "mk_derive passphrase s = Ok \<lparr>mk_key = key_from_bytes (pbkdf2_spec passphrase (sl_bytes s) 100000), mk_salt = s\<rparr>"
  using assms pbkdf2_correct [of "sl_bytes s" PBKDF2_ITERATIONS passphrase] by (simp add: mk_derive_def PBKDF2_ITERATIONS_def)

text \<open>The key ring after unlocking does not depend on what it was.\<close>

lemma unlock_init:
  assumes "ring_ok k" "passphrase \<noteq> []" "length (sl_bytes s) = 16"
  shows "kh_init (fst (unlock passphrase s k)) = (unlocked_ring passphrase s, Ok ())" and "snd (unlock passphrase s k) = Ok ()"
proof -
  have u: "unlock passphrase s k = (set_global \<lparr>mk_key = key_from_bytes (pbkdf2_spec passphrase (sl_bytes s) 100000), mk_salt = s\<rparr> k, Ok ())"
    by (simp add: unlock_def derive_Ok [OF assms(2,3)])
  then show "snd (unlock passphrase s k) = Ok ()" by simp
  have "ring_ok (fst (unlock passphrase s k))" by (rule ring_ok_step(1) [OF assms(1)])
  from kh_init_Ok [OF this] show "kh_init (fst (unlock passphrase s k)) = (unlocked_ring passphrase s, Ok ())"
    by (simp add: u set_global_def unlocked_ring_def Let_def)
qed

lemma try_unlock_eq:
  assumes "ring_ok k" "passphrase \<noteq> []" "length (sl_bytes s) = 16" and "bc_state ctx = BootLocked \<or> bc_state ctx = BootFailed" "bc_salt ctx = Some s"
  shows "try_unlock ctx passphrase k = (ctx\<lparr>bc_attempts := bc_attempts ctx + 1, bc_state := BootUnlocked\<rparr>, unlocked_ring passphrase s, Ok ())"
proof -
  obtain k' r where u: "unlock passphrase s k = (k', r)" by fastforce
  have "r = Ok ()" "kh_init k' = (unlocked_ring passphrase s, Ok ())" using unlock_init [OF assms(1-3)] u by simp_all
  then show ?thesis using assms(4,5) u by (auto simp: try_unlock_def Let_def)
qed

lemma unlocked_ring_keys:
  "get_pool_key (unlocked_ring passphrase s) t = Ok (key_from_bytes (hkdf_block (pbkdf2_spec passphrase (sl_bytes s) 100000) (tier_label t)))"
  using get_pool_key_derived [of "unlocked_ring passphrase s" "key_from_bytes (pbkdf2_spec passphrase (sl_bytes s) 100000)" t]
  by (simp add: unlocked_ring_def Let_def key_from_bytes_def)

lemma save_loop_offset:
  "save_loop k mem padding pools xs v = (v', Ok u) \<Longrightarrow> xs \<noteq> [] \<Longrightarrow> sv_offset v \<le> length (sv_output v') \<and> length (sv_output v') = length (sv_output v)"
proof (induction xs arbitrary: v)
  case (Cons x xs)
  obtain i t where x: "x = (i, t)" by fastforce
  obtain w where w: "save_pool k mem padding pools i t v = (w, Ok ())" "save_loop k mem padding pools xs w = (v', Ok u)"
    using Cons.prems(1) x by (auto split: prod.splits sum.splits)
  note o = save_pool_offset [OF w(1)]
  show ?case
  proof (cases "xs = []")
    case True
    then show ?thesis using o w(2) by simp
  next
    case False
    then show ?thesis using Cons.IH [OF w(2)] o by auto
  qed
qed simp

lemma saved_begins:
  assumes "save_pools k mem padding pools s out = (out', Ok n)" and "length (sl_bytes s) = 16"
  shows "\<exists>rest. out' = header_bytes (header_new s 56 (of_nat n)) @ rest \<and> 168 \<le> length out'"
proof -
  let ?v = "\<lparr>sv_output = out, sv_table = pool_table_new, sv_serializer = ser_new, sv_encrypted = replicate (MAX_POOL_DATA_SIZE + ENC_HEADER_SIZE) 0,
    sv_offset = HEADER_SIZE + TABLE_SIZE\<rparr>"
  obtain v' where v: "save_loop k mem padding pools (enumerate 0 [Public, Internal, Sensitive, Secret]) ?v = (v', Ok ())"
    using assms(1) by (auto simp: save_pools_def Let_def simp del: save_loop.simps split: prod.splits sum.splits)
  have l: "168 \<le> length (sv_output v')" using save_loop_offset [OF v] by (simp add: HEADER_SIZE_def TABLE_SIZE_def)
  let ?t = "concat (map pool_entry_bytes (sv_table v'))"
  have o: "out' = copy_into 0 (header_bytes (header_new s 56 (of_nat n))) (copy_into 56 ?t (sv_output v'))" "n = sv_offset v'"
    using assms(1) v by (auto simp: save_pools_def Let_def HEADER_SIZE_def simp del: save_loop.simps)
  have "length (copy_into 56 ?t (sv_output v')) \<ge> 168" using l by (simp add: copy_into_def)
  moreover have "length (header_bytes (header_new s 56 (of_nat n))) = 56" using length_header_bytes [OF header_new_wf [OF assms(2)]] .
  ultimately show ?thesis using o(1) by (auto simp: copy_into_def [of 0])
qed

section \<open>Properties\<close>

text \<open>
  (C10) No storage that the system writes is accepted again. The checksum of a header is computed over
  bytes that include the checksum field itself, zero when the header is made and filled in when it is
  verified; so unless the checksum happens to be zero, one chance in \<open>2 ^ 32\<close>, loading saved pools fails
  with ChecksumFailed, whatever the keys, and the boot check reports the storage as corrupted.
\<close>

theorem saved_storage_refused:
  assumes "length (sl_bytes s) = 16" and "save_pools k mem padding pools s out = (out', Ok n)"
    and "hd_checksum (header_new s 56 (of_nat n)) \<noteq> 0"
  shows "load_pools k' out' mem' pools' = (mem', pools', Err ChecksumFailed)
    \<and> check_storage ctx out' = Some (ctx\<lparr>bc_state := BootCorrupted\<rparr>, BootCorrupted) \<and> run_boot_sequence out' = Some (Err ChecksumFailed)"
proof -
  obtain rest where out: "out' = header_bytes (header_new s 56 (of_nat n)) @ rest" "168 \<le> length out'" using saved_begins [OF assms(2,1)] by blast
  have h: "read_header out' = header_new s 56 (of_nat n)" unfolding out(1) by (rule read_header_bytes [OF header_new_wf [OF assms(1)]])
  have v: "\<not> header_verify (read_header out')" unfolding h using verify_new [OF assms(1)] assms(3) by blast
  have "slice 0 64 out' ! 0 = 0x53" by (simp add: out(1) slice_def header_bytes_def header_new_def Let_def STORAGE_MAGIC_def)
  moreover have "slice 0 64 out' \<noteq> []" using out(2) by (cases out') (simp_all add: slice_def)
  ultimately have ne: "\<not> list_all (\<lambda>b. b = 0) (slice 0 64 out')" by (cases "slice 0 64 out'") auto
  have "check_storage ctx out' = Some (ctx\<lparr>bc_state := BootCorrupted\<rparr>, BootCorrupted)" for ctx using v ne out(2) by (simp add: check_storage_def HEADER_SIZE_def Let_def)
  then show ?thesis using v out(2) by (simp add: load_pools_def HEADER_SIZE_def Let_def run_boot_sequence_def)
qed

lemma zero_salt_checksum: "hd_checksum (header_new salt_zero 56 4504) = 0x9EA380BC"
proof -
  let ?h = "\<lparr>hd_magic = STORAGE_MAGIC, hd_version = STORAGE_VERSION, hd_salt = sl_bytes salt_zero, hd_pool_table_offset = 56, hd_total_size = 4504, hd_checksum = 0, hd_reserved = replicate 20 0\<rparr>"
  have "take (HEADER_SIZE - 4) (header_bytes ?h) = [0x53, 0x45, 0x4D, 0x4F, 1, 0, 0, 0, 0, 0, 0, 0, 0, 0, 0, 0, 0, 0, 0, 0, 0, 0, 0, 0, 56, 0, 0, 0, 0x98, 0x11, 0, 0,
      0, 0, 0, 0, 0, 0, 0, 0, 0, 0, 0, 0, 0, 0, 0, 0, 0, 0, 0, 0]"
    by code_simp
  moreover have "foldl crc_bits_byte 0xFFFFFFFF [0x53, 0x45, 0x4D, 0x4F, 1, 0, 0, 0, 0, 0, 0, 0, 0, 0, 0, 0, 0, 0, 0, 0, 0, 0, 0, 0, 56, 0, 0, 0, 0x98, 0x11, 0, 0,
      0, 0, 0, 0, 0, 0, 0, 0, 0, 0, 0, 0, 0, 0, 0, 0, 0, 0, 0, 0] = 0x615C7F43"
    by (simp add: crc_bits_byte_steps crc_step_def)
  ultimately have "compute_checksum ?h = 0x9EA380BC" unfolding compute_checksum_def by simp
  then show ?thesis by (simp add: header_new_def Let_def)
qed

theorem saved_storage_refused_witness:
  "\<exists>out'. save_pools demo_ring (\<lambda>_. 7) [0, 0, 0, 0] demo_pools salt_zero (replicate 5000 0) = (out', Ok 4504)
     \<and> load_pools demo_ring out' (\<lambda>_. 0) pa_new = (\<lambda>_. 0, pa_new, Err ChecksumFailed)"
proof -
  have k: "kr_pools_ready demo_ring" "length [0, 0, 0, 0 :: u8] = 4" "length (sl_bytes salt_zero) = 16"
    by (simp_all add: demo_ring_def salt_zero_def SALT_SIZE_def)
  obtain out' where o: "save_pools demo_ring (\<lambda>_. 7) [0, 0, 0, 0] demo_pools salt_zero (replicate 5000 0) = (out', Ok 4504)"
    using save_pools_succeeds [OF k(1) pa_inv_small [OF demo_frames(1)] k(2,3), of "replicate 5000 0" "\<lambda>_. 7"]
    by (auto simp: demo_live [of Public, simplified] demo_live [of Internal, simplified] demo_live [of Sensitive, simplified] demo_live [of Secret, simplified])
  show ?thesis using saved_storage_refused [OF k(3) o, of demo_ring "\<lambda>_. 0" pa_new] zero_salt_checksum o by auto
qed

text \<open>
  (C24) Unlocking derives the documented keys, from any non-empty passphrase. In a locked system (also one
  whose attempts have failed, however many they were) every non-empty passphrase is accepted: the state
  becomes Unlocked and the key of each pool is one block of HKDF, with the label of its tier, of the PBKDF2
  key of the passphrase. Nothing compares the passphrase with the one the storage was made with, and the
  maximum number of attempts is not enforced.
\<close>

theorem unlock_accepts_any_passphrase:
  assumes "ring_ok k" and "passphrase \<noteq> []" and "bc_salt ctx = Some s" and "length (sl_bytes s) = 16"
    and "bc_state ctx = BootLocked \<or> bc_state ctx = BootFailed" and "try_unlock ctx passphrase k = (ctx', k', r)"
  shows "r = Ok () \<and> bc_is_unlocked ctx' k' \<and> ring_ok k'
    \<and> (\<forall>t. get_pool_key k' t = Ok (key_from_bytes (hkdf_block (pbkdf2_spec passphrase (sl_bytes s) 100000) (tier_label t))))"
  using try_unlock_eq [OF assms(1,2,4,5,3)] assms(6) unlocked_ring_keys [of passphrase s]
  by (auto simp: bc_is_unlocked_def is_unlocked_def unlocked_ring_def Let_def ring_ok_def POOL_LABELS_def)

theorem unlock_accepts_any_passphrase_witness:
  "\<exists>ctx k. try_unlock \<lparr>bc_state = BootFailed, bc_salt = Some salt_zero, bc_attempts = 200, bc_max_attempts = 3\<rparr> [120] key_ring_boot = (ctx, k, Ok ())
     \<and> bc_is_unlocked ctx k"
proof -
  let ?c = "\<lparr>bc_state = BootFailed, bc_salt = Some salt_zero, bc_attempts = 200, bc_max_attempts = 3\<rparr>"
  obtain ctx k r where t: "try_unlock ?c [120] key_ring_boot = (ctx, k, r)" by (metis prod_cases3)
  show ?thesis using unlock_accepts_any_passphrase [OF ring_ok_boot _ _ _ _ t, of salt_zero] t by (auto simp: salt_zero_def SALT_SIZE_def)
qed

text \<open>
  Locking closes the storage. Whatever the key ring holds, after \<^verbatim>\<open>lock_system\<close> no key byte other
  than zero is left in it, no pool can be encrypted or decrypted, and no key can be derived.
\<close>

theorem lock_closes_storage:
  assumes "lock_system ctx k = (ctx', k')"
  shows "\<not> bc_is_unlocked ctx' k' \<and> set (ck_bytes (kr_master k')) \<subseteq> {0} \<and> (\<forall>p \<in> set (kr_pool_keys k'). set (ck_bytes p) \<subseteq> {0})
    \<and> snd (encrypt_pool k' t plaintext n buf) = Err StKeyNotInitialized \<and> (\<forall>len. snd (decrypt_pool k' t enc out) \<noteq> Ok len)
    \<and> derive_object_key k' t suid = Err KeyNotInitialized \<and> derive_purpose_key k' purpose = Err KeyNotInitialized
    \<and> rotate_pool_key k' t purpose = Err KeyNotInitialized \<and> snd (kh_init k') = Err KeyNotInitialized"
proof -
  have k': "\<not> kr_unlocked k'" "\<not> kr_pools_ready k'" "kr_master k' = key_zeroize (kr_master k)" "kr_pool_keys k' = map key_zeroize (kr_pool_keys k)" "bc_state ctx' = BootLocked"
    using assms by (auto simp: lock_system_def lock_def clear_global_def kh_clear_def)
  note l = locked_ring [OF k'(1,2)]
  have "snd (encrypt_pool k' t plaintext n buf) = Err StKeyNotInitialized" by (simp add: encrypt_pool_def map_err_def l(1))
  moreover have "snd (decrypt_pool k' t enc out) \<noteq> Ok len" for len by (simp add: decrypt_pool_def map_err_def l(1) Let_def)
  ultimately show ?thesis using l k' by (auto simp: bc_is_unlocked_def dest: subsetD [OF set_zeroize])
qed

theorem lock_closes_storage_witness: "\<not> bc_is_unlocked (fst (lock_system bc_new demo_ring)) (snd (lock_system bc_new demo_ring))"
  using lock_closes_storage [of bc_new demo_ring "fst (lock_system bc_new demo_ring)" "snd (lock_system bc_new demo_ring)"] by simp

text \<open>
  (C14) What was encrypted before locking can be read after unlocking. With a pool encrypted in an unlocked
  system, the system locked, and then unlocked with the same passphrase, the pool decrypts to what was
  encrypted.
\<close>

theorem unlock_reopens_pools:
  assumes "ring_ok k" and "passphrase \<noteq> []" and "bc_salt ctx = Some s" and "length (sl_bytes s) = 16" and "bc_state ctx = BootLocked"
    and "try_unlock ctx passphrase k = (ctx1, k1, r1)" and "length (nc_bytes n) = 12" and "encrypt_pool k1 t plaintext n buf = (buf', Ok len)"
    and "lock_system ctx1 k1 = (ctx2, k2)" and "try_unlock ctx2 passphrase k2 = (ctx3, k3, r3)" and "length plaintext \<le> length out"
  shows "r3 = Ok () \<and> decrypt_pool k3 t (take len buf') out = (plaintext @ drop (length plaintext) out, Ok (length plaintext))"
proof -
  let ?R = "unlocked_ring passphrase s"
  have u: "try_unlock ctx passphrase k = (ctx\<lparr>bc_attempts := bc_attempts ctx + 1, bc_state := BootUnlocked\<rparr>, ?R, Ok ())"
    using try_unlock_eq [OF assms(1,2,4) _ assms(3)] assms(5) by blast
  then have k1: "k1 = ?R" "ctx1 = ctx\<lparr>bc_attempts := bc_attempts ctx + 1, bc_state := BootUnlocked\<rparr>" using assms(6) by simp_all
  have "ring_ok ?R" by (simp add: ring_ok_def unlocked_ring_def Let_def POOL_LABELS_def)
  then have k2: "ring_ok k2" "bc_state ctx2 = BootLocked" "bc_salt ctx2 = Some s"
    using assms(3,9) k1 ring_ok_step(2) [OF ring_ok_step(4)] by (auto simp: lock_system_def)
  have k3: "k3 = ?R" "r3 = Ok ()" using try_unlock_eq [OF k2(1) assms(2,4) _ k2(3)] k2(2) assms(10) by auto
  note key = unlocked_ring_keys [of passphrase s t]
  have fit: "28 + length plaintext \<le> length buf"
    using assms(8) key k1(1) by (cases "length buf < 28 + length plaintext") (simp_all add: encrypt_pool_def map_err_def ENC_HEADER_SIZE_def)
  have "take len buf' = pool_blob (key_from_bytes (hkdf_block (pbkdf2_spec passphrase (sl_bytes s) 100000) (tier_label t))) t n plaintext"
    using encrypt_pool_eq [OF key assms(7) fit] assms(7,8) k1(1) by auto
  then show ?thesis using decrypt_pool_blob [OF key assms(7,11)] k3 by simp
qed

theorem unlock_reopens_pools_witness:
  "\<exists>k1 buf k3. encrypt_pool k1 Secret [1, 2] nonce_zero (replicate 32 0) = (buf, Ok 30)
     \<and> snd (snd (try_unlock \<lparr>bc_state = BootLocked, bc_salt = Some salt_zero, bc_attempts = 1, bc_max_attempts = 3\<rparr> [120] (snd (lock_system bc_new k1)))) = Ok ()
     \<and> decrypt_pool k3 Secret (take 30 buf) [0, 0] = ([1, 2], Ok 2)"
proof -
  let ?c = "\<lparr>bc_state = BootLocked, bc_salt = Some salt_zero, bc_attempts = 0, bc_max_attempts = 3\<rparr>"
  have n: "length (nc_bytes nonce_zero) = 12" and s: "length (sl_bytes salt_zero) = 16" by (simp_all add: nonce_zero_def NONCE_SIZE_def salt_zero_def SALT_SIZE_def)
  have t1: "try_unlock ?c [120] key_ring_boot = (?c\<lparr>bc_attempts := 1, bc_state := BootUnlocked\<rparr>, unlocked_ring [120] salt_zero, Ok ())"
    using try_unlock_eq [OF ring_ok_boot _ s, of "[120]" ?c] by simp
  obtain buf where e: "encrypt_pool (unlocked_ring [120] salt_zero) Secret [1, 2] nonce_zero (replicate 32 0) = (buf, Ok 30)"
    using encrypt_pool_eq [OF unlocked_ring_keys n, of "[1, 2]" "replicate 32 0" "[120]" salt_zero Secret] by simp
  let ?c2 = "?c\<lparr>bc_attempts := 1\<rparr>" and ?k2 = "lock (kh_clear (unlocked_ring [120] salt_zero))"
  have l: "lock_system (?c\<lparr>bc_attempts := 1, bc_state := BootUnlocked\<rparr>) (unlocked_ring [120] salt_zero) = (?c2, ?k2)" by (simp add: lock_system_def)
  obtain c3 k3 r3 where t3: "try_unlock ?c2 [120] ?k2 = (c3, k3, r3)" by (metis prod_cases3)
  have "r3 = Ok () \<and> decrypt_pool k3 Secret (take 30 buf) [0, 0] = ([1, 2], Ok 2)"
    using unlock_reopens_pools [OF ring_ok_boot _ _ s _ t1 n e l t3, of "[0, 0]"] by simp
  then show ?thesis using e t3 by (intro exI [of _ "unlocked_ring [120] salt_zero"] exI [of _ buf] exI [of _ k3]) (simp add: lock_system_def)
qed

end
