(* ===== verification/Redact.thy ===== *)
theory Redact
  imports Ascii
begin

text \<open>
  Redaction of personal data before text reaches the language model:
  \<^verbatim>\<open>src/kernel-core/src/llm/redact.rs\<close>. Seven matchers look for a pattern at the start of a byte string and
  answer its length; the loop of \<open>redact\<close> replaces what a matcher finds by a token and copies every
  other byte. The index loops of the matchers are recursions on the rest of the input that carry the
  index. The theory shows what the text is free of after redaction, for every input.
\<close>

section \<open>Definitions: tokens and characters\<close>

datatype redaction_level = Light | Standard_Level | Aggressive

fun level_value :: "redaction_level \<Rightarrow> u8" where
  "level_value Light = 0"
| "level_value Standard_Level = 1"
| "level_value Aggressive = 2"

text \<open>The last five tokens are literals of \<^verbatim>\<open>llm/context_redact.rs\<close>.\<close>

datatype token =
    EMAIL | PHONE | SSN | CARD_NO | IP | KEY | NAME | NUMBER | REDACTED | MRN | DOB | PATIENT | ACCOUNT | ROUTING

fun token_bytes :: "token \<Rightarrow> u8 list" where
  "token_bytes EMAIL = ascii ''[EMAIL]''"
| "token_bytes PHONE = ascii ''[PHONE]''"
| "token_bytes SSN = ascii ''[SSN]''"
| "token_bytes CARD_NO = ascii ''[CARD]''"
| "token_bytes IP = ascii ''[IP]''"
| "token_bytes KEY = ascii ''[KEY]''"
| "token_bytes NAME = ascii ''[NAME]''"
| "token_bytes NUMBER = ascii ''[NUM]''"
| "token_bytes REDACTED = ascii ''[REDACTED]''"
| "token_bytes MRN = ascii ''[MRN]''"
| "token_bytes DOB = ascii ''[DOB]''"
| "token_bytes PATIENT = ascii ''[PATIENT]''"
| "token_bytes ACCOUNT = ascii ''[ACCOUNT]''"
| "token_bytes ROUTING = ascii ''[ROUTING]''"

record redactor =
  rd_initialized :: bool
  rd_level :: redaction_level

definition redactor_new :: redactor where
  "redactor_new = \<lparr>rd_initialized = False, rd_level = Standard_Level\<rparr>"

definition redactor_init :: "redactor \<Rightarrow> redactor" where
  "redactor_init r = r\<lparr>rd_initialized := True\<rparr>"

definition set_level :: "redaction_level \<Rightarrow> redactor \<Rightarrow> redactor" where
  "set_level l r = r\<lparr>rd_level := l\<rparr>"

definition DASH :: u8 where "DASH = 0x2D"
definition SPACE :: u8 where "SPACE = 0x20"
definition DOT :: u8 where "DOT = 0x2E"
definition AT :: u8 where "AT = 0x40"

lemmas char_defs = DASH_def SPACE_def DOT_def AT_def

definition is_email_char :: "u8 \<Rightarrow> bool" where
  "is_email_char c = (is_ascii_alphanumeric c \<or> c = DOT \<or> c = DASH \<or> c = 0x5F \<or> c = 0x2B)"

section \<open>Definitions: the matchers\<close>

fun email_at :: "u8 list \<Rightarrow> nat \<Rightarrow> nat option" where
  "email_at [] i = None"
| "email_at (c # cs) i =
     (if c = AT then Some i else if \<not> is_email_char c then None else email_at cs (Suc i))"

fun email_domain :: "nat \<Rightarrow> u8 list \<Rightarrow> nat \<Rightarrow> bool \<Rightarrow> nat \<times> bool" where
  "email_domain at_pos [] i dot = (i, dot)"
| "email_domain at_pos (c # cs) i dot =
     (if is_email_char c then email_domain at_pos cs (Suc i) (dot \<or> c = DOT \<and> i > at_pos + 1) else (i, dot))"

definition match_email :: "u8 list \<Rightarrow> nat option" where
  "match_email input =
     (if length input < 5 then None
      else case email_at input 0 of
             None \<Rightarrow> None
           | Some at_pos \<Rightarrow>
               (if at_pos = 0 then None
                else let (i, dot) = email_domain at_pos (drop (at_pos + 1) input) (at_pos + 1) False
                     in if dot \<and> i > at_pos + 3 then Some i else None))"

definition match_ssn :: "u8 list \<Rightarrow> nat option" where
  "match_ssn input =
     (if length input < 11 then None
      else if list_all is_ascii_digit (slice 0 3 input) \<and> input ! 3 = DASH
              \<and> list_all is_ascii_digit (slice 4 2 input) \<and> input ! 6 = DASH
              \<and> list_all is_ascii_digit (slice 7 4 input)
      then Some 11 else None)"

fun card_scan :: "u8 list \<Rightarrow> nat \<Rightarrow> nat \<Rightarrow> nat \<times> nat" where
  "card_scan [] i digits = (i, digits)"
| "card_scan (c # cs) i digits =
     (if \<not> digits < 16 then (i, digits)
      else if is_ascii_digit c then card_scan cs (Suc i) (Suc digits)
      else if c = DASH \<or> c = SPACE then card_scan cs (Suc i) digits
      else (i, digits))"

definition match_credit_card :: "u8 list \<Rightarrow> nat option" where
  "match_credit_card input =
     (if length input < 13 then None
      else let (i, digits) = card_scan input 0 0 in if digits \<ge> 13 then Some i else None)"

fun phone_scan :: "u8 list \<Rightarrow> nat \<Rightarrow> nat \<Rightarrow> nat \<times> nat" where
  "phone_scan [] i digits = (i, digits)"
| "phone_scan (c # cs) i digits =
     (if \<not> i < 20 then (i, digits)
      else if is_ascii_digit c then phone_scan cs (Suc i) (Suc digits)
      else if c = DASH \<or> c = SPACE \<or> c = 0x28 \<or> c = 0x29 then phone_scan cs (Suc i) digits
      else (i, digits))"

definition match_phone :: "u8 list \<Rightarrow> nat option" where
  "match_phone input =
     (if length input < 7 then None
      else let i = (if input ! 0 = 0x2B then 1 else 0);
               (i, digits) = phone_scan (drop i input) i 0
           in if digits \<ge> 7 \<and> digits \<le> 15 then Some i else None)"

text \<open>\<open>None\<close> is the early return of the loop on a malformed octet.\<close>

fun ip_scan :: "u8 list \<Rightarrow> nat \<Rightarrow> nat \<Rightarrow> nat \<Rightarrow> (nat \<times> nat \<times> nat) option" where
  "ip_scan [] i octets current = Some (i, octets, current)"
| "ip_scan (c # cs) i octets current =
     (if \<not> octets < 4 then Some (i, octets, current)
      else if is_ascii_digit c
           then (if current + 1 > 3 then None else ip_scan cs (Suc i) octets (current + 1))
      else if c = DOT then (if current = 0 then None else ip_scan cs (Suc i) (Suc octets) 0)
      else Some (i, octets, current))"

definition match_ip :: "u8 list \<Rightarrow> nat option" where
  "match_ip input =
     (if length input < 7 then None
      else case ip_scan input 0 0 0 of
             None \<Rightarrow> None
           | Some (i, octets, current) \<Rightarrow>
               (let octets = (if current > 0 then octets + 1 else octets)
                in if octets = 4 then Some i else None))"

definition PREFIXES :: "u8 list list" where
  "PREFIXES = map ascii [''sk-'', ''pk-'', ''api_'', ''key_'', ''token_'', ''secret_'', ''AKIA'', ''Bearer '']"

definition is_key_char :: "u8 \<Rightarrow> bool" where
  "is_key_char c = (is_ascii_alphanumeric c \<or> c = DASH \<or> c = 0x5F)"

fun key_end :: "u8 list \<Rightarrow> nat \<Rightarrow> nat" where
  "key_end [] i = i"
| "key_end (c # cs) i = (if is_key_char c then key_end cs (Suc i) else i)"

fun match_prefixes :: "u8 list \<Rightarrow> u8 list list \<Rightarrow> nat option" where
  "match_prefixes input [] = None"
| "match_prefixes input (p # ps) =
     (if length input \<ge> length p \<and> take (length p) input = p
      then let i = key_end (drop (length p) input) (length p)
           in if i > length p + 8 then Some i else match_prefixes input ps
      else match_prefixes input ps)"

definition match_api_key :: "u8 list \<Rightarrow> nat option" where
  "match_api_key input = match_prefixes input PREFIXES"

fun digits_end :: "u8 list \<Rightarrow> nat \<Rightarrow> nat" where
  "digits_end [] i = i"
| "digits_end (c # cs) i = (if is_ascii_digit c then digits_end cs (Suc i) else i)"

definition match_long_number :: "u8 list \<Rightarrow> nat option" where
  "match_long_number input =
     (if \<not> is_ascii_digit (input ! 0) then None
      else let i = digits_end input 0 in if i \<ge> 6 then Some i else None)"

text \<open>\<^verbatim>\<open>if let Some(len) = m(input) { return Some((token, len)); }\<close>, else the rest.\<close>

fun or_else :: "'a option \<Rightarrow> 'a option \<Rightarrow> 'a option" where
  "or_else (Some x) y = Some x"
| "or_else None y = y"

definition matched :: "token \<Rightarrow> nat option \<Rightarrow> (token \<times> nat) option" where
  "matched t m = map_option (Pair t) m"

definition match_pattern :: "redactor \<Rightarrow> u8 list \<Rightarrow> (token \<times> nat) option" where
  "match_pattern r input =
     or_else (matched EMAIL (match_email input))
     (or_else (matched SSN (match_ssn input))
     (or_else (matched CARD_NO (match_credit_card input))
     (or_else (matched PHONE (match_phone input))
     (or_else (if level_value (rd_level r) \<ge> level_value Standard_Level
               then or_else (matched IP (match_ip input)) (matched KEY (match_api_key input)) else None)
     (if rd_level r = Aggressive then matched NUMBER (match_long_number input) else None)))))"

section \<open>Definitions: the loop\<close>

text \<open>
  \<open>replace_loop m input output out_pos\<close>: the while loop of \<open>redact\<close> on the rest of the input, with the
  matcher as an argument; \<^verbatim>\<open>llm/context_redact.rs\<close> has three more copies of it. It answers the buffer and
  the position after the last byte written.
\<close>

lemma token_bytes_nonempty [simp]: "token_bytes t \<noteq> []" "0 < length (token_bytes t)"
  by (cases t; simp add: ascii_def)+

function replace_loop ::
  "(u8 list \<Rightarrow> (token \<times> nat) option) \<Rightarrow> u8 list \<Rightarrow> u8 list \<Rightarrow> nat \<Rightarrow> u8 list \<times> nat" where
  "replace_loop m input output out_pos =
     (if input \<noteq> [] \<and> out_pos < length output
      then case m input of
             Some (t, skip) \<Rightarrow>
               (let copy_len = min (length (token_bytes t)) (length output - out_pos)
                in replace_loop m (drop skip input)
                     (copy_into out_pos (take copy_len (token_bytes t)) output) (out_pos + copy_len))
           | None \<Rightarrow> replace_loop m (tl input) (output[out_pos := hd input]) (Suc out_pos)
      else (output, out_pos))"
  by pat_completeness auto
termination
proof (relation "measure (\<lambda>(m, input, output, out_pos). length input + (length output - out_pos))")
  fix m and input out :: "u8 list" and out_pos skip copy_len and t and p :: "token \<times> nat"
  assume a: "input \<noteq> [] \<and> out_pos < length out" "copy_len = min (length (token_bytes t)) (length out - out_pos)"
  have "0 < copy_len" "copy_len \<le> length (token_bytes t)" "out_pos + copy_len \<le> length out" using a by auto
  then show "((m, drop skip input, copy_into out_pos (take copy_len (token_bytes t)) out, out_pos + copy_len),
      m, input, out, out_pos) \<in> measure (\<lambda>(m, input, out, out_pos). length input + (length out - out_pos))"
    by simp
qed auto

declare replace_loop.simps [simp del]

definition redact :: "redactor \<Rightarrow> u8 list \<Rightarrow> u8 list \<Rightarrow> u8 list \<times> nat" where
  "redact r input output =
     (if \<not> rd_initialized r \<or> input = [] then (output, 0)
      else replace_loop (match_pattern r) input output 0)"

section \<open>What the loop writes\<close>

text \<open>
  \<open>renders m xs w\<close>: \<open>w\<close> is what the loop may write for \<open>xs\<close>, with the end cut off where the buffer is full.
\<close>

inductive renders :: "(u8 list \<Rightarrow> (token \<times> nat) option) \<Rightarrow> u8 list \<Rightarrow> u8 list \<Rightarrow> bool" for m where
  stopped: "renders m xs []"
| copied: "m (x # xs) = None \<Longrightarrow> renders m xs w \<Longrightarrow> renders m (x # xs) (x # w)"
| replaced: "m xs = Some (t, skip) \<Longrightarrow> renders m (drop skip xs) w \<Longrightarrow> renders m xs (token_bytes t @ w)"
| cut: "m xs = Some (t, skip) \<Longrightarrow> renders m xs (take k (token_bytes t))"

definition written :: "nat \<Rightarrow> u8 list \<times> nat \<Rightarrow> u8 list" where
  "written out_pos r = drop out_pos (take (snd r) (fst r))"

lemma replace_loop_frame:
  assumes "replace_loop m xs out pos = (out', n)" "pos \<le> length out"
  shows "length out' = length out \<and> pos \<le> n \<and> n \<le> length out \<and> take pos out' = take pos out"
  using assms
proof (induction m xs out pos rule: replace_loop.induct)
  case (1 m xs out pos)
  show ?case
  proof (cases "xs \<noteq> [] \<and> pos < length out")
    case False
    then show ?thesis using 1(3,4) by (simp add: replace_loop.simps split: if_splits)
  next
    case go: True
    show ?thesis
    proof (cases "m xs")
      case None
      have "replace_loop m (tl xs) (out[pos := hd xs]) (Suc pos) = (out', n)"
        using 1(3) go None by (subst (asm) replace_loop.simps) simp
      note ih = 1(1) [OF go None this]
      have "take pos out' = take pos (take (Suc pos) out')" by (simp add: min_def)
      then show ?thesis using ih go by simp
    next
      case (Some q)
      obtain t skip where q: "q = (t, skip)" by force
      define k where "k = min (length (token_bytes t)) (length out - pos)"
      have r: "replace_loop m (drop skip xs) (copy_into pos (take k (token_bytes t)) out) (pos + k) = (out', n)"
        using 1(3) go Some q by (subst (asm) replace_loop.simps) (simp add: k_def Let_def)
      have k: "k \<le> length (token_bytes t)" "pos + k \<le> length out" using go by (auto simp: k_def)
      note ih = 1(2) [OF go Some q [symmetric] k_def r]
      have "take pos out' = take pos (take (pos + k) out')" by simp
      then show ?thesis using ih k go by (simp add: copy_into_def)
    qed
  qed
qed

lemma replace_loop_renders:
  assumes "pos \<le> length out"
  shows "renders m xs (written pos (replace_loop m xs out pos))"
  using assms
proof (induction m xs out pos rule: replace_loop.induct)
  case (1 m xs out pos)
  show ?case
  proof (cases "xs \<noteq> [] \<and> pos < length out")
    case False
    then show ?thesis by (auto simp: replace_loop.simps written_def intro: renders.stopped)
  next
    case go: True
    obtain x ys where xs: "xs = x # ys" using go by (cases xs) auto
    show ?thesis
    proof (cases "m xs")
      case None
      let ?r = "replace_loop m (tl xs) (out[pos := hd xs]) (Suc pos)"
      obtain out' n where r: "?r = (out', n)" by force
      have f: "length out' = length out" "Suc pos \<le> n" "n \<le> length out" "take (Suc pos) out' = take (Suc pos) (out[pos := hd xs])"
        using replace_loop_frame [OF r] go by auto
      have "take (Suc pos) out' ! pos = x" using f(4) go xs by simp
      then have "out' ! pos = x" by simp
      then have "written pos (out', n) = x # written (Suc pos) (out', n)"
        using f go by (simp add: written_def Cons_nth_drop_Suc [symmetric])
      then show ?thesis using 1(1) [OF go None] go None xs r
        by (subst replace_loop.simps) (auto intro: renders.copied)
    next
      case (Some q)
      obtain t skip where q: "q = (t, skip)" by force
      define k where "k = min (length (token_bytes t)) (length out - pos)"
      let ?r = "replace_loop m (drop skip xs) (copy_into pos (take k (token_bytes t)) out) (pos + k)"
      have k: "k \<le> length (token_bytes t)" "pos + k \<le> length out" using go by (auto simp: k_def)
      obtain out' n where r: "?r = (out', n)" by force
      have f: "length out' = length out" "pos + k \<le> n" "n \<le> length out"
        "take (pos + k) out' = take pos out @ take k (token_bytes t)"
        using replace_loop_frame [OF r] k by (auto simp: copy_into_def)
      have "take (pos + k) (take n out') = take (pos + k) out'" using f(2) by (simp add: min_def)
      then have "take k (written pos (out', n)) = take k (token_bytes t)"
        using f(4) k go by (simp add: written_def take_drop add.commute)
      moreover have "drop k (written pos (out', n)) = written (pos + k) (out', n)" by (simp add: written_def add.commute)
      ultimately have w: "written pos (out', n) = take k (token_bytes t) @ written (pos + k) (out', n)"
        by (metis append_take_drop_id)
      have step: "replace_loop m xs out pos = (out', n)"
        using go Some q r by (subst replace_loop.simps) (simp add: k_def Let_def)
      have rest: "renders m (drop skip xs) (written (pos + k) (out', n))"
        using 1(2) [OF go Some q [symmetric] k_def] k r by simp
      show ?thesis
      proof (cases "k = length (token_bytes t)")
        case True
        then show ?thesis using w step rest renders.replaced [OF Some [unfolded q] rest] by simp
      next
        case False
        then have "n = pos + k" using f k by (simp add: k_def min_def split: if_splits)
        then have "written (pos + k) (out', n) = []" by (simp add: written_def)
        then show ?thesis using w step renders.cut [of m xs t skip k] Some q by simp
      qed
    qed
  qed
qed

text \<open>Up to the first token what is written is the input.\<close>

lemma renders_run:
  "renders m xs w \<Longrightarrow> \<exists>u v w'. xs = u @ v \<and> w = u @ w' \<and> (w' = [] \<or> hd w' = 0x5B)"
proof (induction rule: renders.induct)
  case (copied x xs w)
  then obtain u v w' where "xs = u @ v" "w = u @ w'" "w' = [] \<or> hd w' = 0x5B" by blast
  then show ?case by (intro exI [of _ "x # u"] exI [of _ v] exI [of _ w']) simp
next
  case (replaced xs t skip w)
  have "hd (token_bytes t @ w) = 0x5B" by (cases t) (simp_all add: ascii_def)
  then show ?case by (metis append_Nil)
next
  case (cut xs t skip k)
  have "take k (token_bytes t) = [] \<or> hd (take k (token_bytes t)) = 0x5B" by (cases t; cases k) (simp_all add: ascii_def)
  then show ?case by (metis append_Nil)
qed (metis append_Nil)

section \<open>Patterns that do not survive\<close>

text \<open>
  The contract between a matcher and the loop: a match does not end because the text goes on
  differently after a token starts, and no match starts inside a token.
\<close>

locale pii_pattern =
  fixes pat :: "u8 list \<Rightarrow> nat option"
  assumes extend: "w = [] \<or> hd w = 0x5B \<Longrightarrow> pat (u @ w) \<noteq> None \<Longrightarrow> pat (u @ v) \<noteq> None"
    and inside: "p < length (token_bytes t) \<Longrightarrow> pat (drop p (token_bytes t) @ w) = None"
    and inside_cut: "pat (drop p (take k (token_bytes t))) = None"
begin

lemma nil [simp]: "pat [] = None"
  using inside_cut [of 0 0] by simp

lemma renders_clean:
  assumes "renders m xs w" "\<And>p. pat (drop p xs) \<noteq> None \<Longrightarrow> m (drop p xs) \<noteq> None"
  shows "pat (drop p w) = None"
  using assms
proof (induction arbitrary: p rule: renders.induct)
  case (copied x xs w)
  show ?case
  proof (cases p)
    case 0
    obtain u v w' where r: "xs = u @ v" "w = u @ w'" "w' = [] \<or> hd w' = 0x5B" using renders_run [OF copied(2)] by blast
    have "pat (x # xs) = None" using copied(4) [of 0] copied(1) by (cases "pat (x # xs)") auto
    then show ?thesis using extend [OF r(3), of "x # u" v] r 0 by (cases "pat (x # u @ w')") auto
  next
    case (Suc q)
    then show ?thesis using copied(3) [of q] copied(4) [of "Suc _"] by simp
  qed
next
  case (replaced xs t skip w)
  have "pat (drop q (drop skip xs)) \<noteq> None \<Longrightarrow> m (drop q (drop skip xs)) \<noteq> None" for q
    using replaced(4) [of "q + skip"] by simp
  then show ?case using replaced(3) [of "p - length (token_bytes t)"] inside [of p t w]
    by (cases "p < length (token_bytes t)") auto
qed (simp_all add: inside_cut)

end

subsection \<open>Numbers of persons and cards\<close>

lemma match_ssn_iff:
  "match_ssn x \<noteq> None \<longleftrightarrow> 11 \<le> length x \<and> (\<forall>i < 11. if i = 3 \<or> i = 6 then x ! i = DASH else is_ascii_digit (x ! i))"
proof (cases "11 \<le> length x")
  case True
  then have "slice 0 3 x = [x ! 0, x ! 1, x ! 2]" "slice 4 2 x = [x ! 4, x ! 5]" "slice 7 4 x = [x ! 7, x ! 8, x ! 9, x ! 10]"
    by (auto simp: slice_def list_eq_iff_nth_eq less_Suc_eq numeral_eq_Suc)
  moreover have "(\<forall>i < 11. P i) = (P 0 \<and> P 1 \<and> P 2 \<and> P 3 \<and> P 4 \<and> P 5 \<and> P 6 \<and> P 7 \<and> P 8 \<and> P 9 \<and> P 10)" for P :: "nat \<Rightarrow> bool"
    by (auto simp: numeral_eq_Suc All_less_Suc)
  ultimately show ?thesis using True by (auto simp: match_ssn_def)
qed (simp add: match_ssn_def)

lemma token_chars: "c \<in> set (token_bytes t) \<Longrightarrow> is_ascii_uppercase c \<or> c = 0x5B \<or> c = 0x5D"
  by (cases t) (auto simp: ascii_def is_ascii_uppercase_def)

lemma token_char_not:
  "c \<in> set (token_bytes t) \<Longrightarrow> \<not> is_ascii_digit c" "c \<in> set (token_bytes t) \<Longrightarrow> c \<noteq> DASH \<and> c \<noteq> SPACE \<and> c \<noteq> AT"
proof -
  assume "c \<in> set (token_bytes t)"
  then have c: "0x41 \<le> c" "c \<le> 0x5D" using token_chars [of c t] by (auto simp: is_ascii_uppercase_def elim: order_trans)
  then show "\<not> is_ascii_digit c" by (auto simp: is_ascii_digit_def word_le_nat_alt)
  show "c \<noteq> DASH \<and> c \<noteq> SPACE \<and> c \<noteq> AT" using c by (auto simp: char_defs word_le_nat_alt)
qed

lemma bracket_not [simp]: "\<not> is_ascii_digit 0x5B" "\<not> is_email_char 0x5B" "\<not> is_key_char 0x5B" "\<not> is_email_char 0x5D"
  by (simp_all add: char_class_defs is_email_char_def is_key_char_def char_defs)

lemma hd_drop_token:
  "p < length (token_bytes t) \<Longrightarrow> \<exists>c cs. drop p (token_bytes t) = c # cs \<and> c \<in> set (token_bytes t)"
  by (metis Cons_nth_drop_Suc nth_mem)

lemma drop_cut_token:
  "drop p (take k (token_bytes t)) = [] \<or> (\<exists>c cs. drop p (take k (token_bytes t)) = c # cs \<and> c \<in> set (token_bytes t))"
  by (metis in_set_dropD in_set_takeD list.set_intros(1) neq_Nil_conv)

text \<open>Patterns of a fixed length, with a condition on every byte.\<close>

locale fixed_pattern =
  fixes pat :: "u8 list \<Rightarrow> nat option" and n :: nat and Q :: "nat \<Rightarrow> u8 \<Rightarrow> bool"
  assumes pat_iff: "pat x \<noteq> None \<longleftrightarrow> n \<le> length x \<and> (\<forall>i < n. Q i (x ! i))"
    and positive: "0 < n"
    and bracket: "\<not> Q i 0x5B"
    and start: "c \<in> set (token_bytes t) \<Longrightarrow> \<not> Q 0 c"

sublocale fixed_pattern \<subseteq> pii_pattern pat
proof
  fix w u v :: "u8 list" assume w: "w = [] \<or> hd w = 0x5B" and m: "pat (u @ w) \<noteq> None"
  have n: "n \<le> length u"
  proof (rule ccontr)
    assume c: "\<not> n \<le> length u"
    then have "w \<noteq> []" using m unfolding pat_iff by auto
    then have "(u @ w) ! length u = 0x5B" using w by (auto simp: nth_append hd_conv_nth)
    then show False using m c bracket unfolding pat_iff by (metis not_le)
  qed
  then have "(u @ w) ! i = (u @ v) ! i" if "i < n" for i using that by (simp add: nth_append)
  then show "pat (u @ v) \<noteq> None" using m n unfolding pat_iff by (metis le_add1 le_trans length_append)
next
  fix p t w assume "p < length (token_bytes t)"
  then obtain c cs where "drop p (token_bytes t) = c # cs" "\<not> Q 0 c" using hd_drop_token start by metis
  then show "pat (drop p (token_bytes t) @ w) = None" using pat_iff [of "c # cs @ w"] positive by force
next
  fix p k t show "pat (drop p (take k (token_bytes t))) = None"
    using drop_cut_token [of p k t] start positive pat_iff [of "drop p (take k (token_bytes t))"] by force
qed

interpretation ssn: fixed_pattern match_ssn 11 "\<lambda>i c. if i = 3 \<or> i = 6 then c = DASH else is_ascii_digit c"
  by (unfold_locales, rule match_ssn_iff) (auto simp: DASH_def dest: token_char_not(1))

lemma card_scan_ge: "snd (card_scan v i d) \<ge> d"
  by (induction v i d rule: card_scan.induct) (auto intro: Suc_leD)

lemma card_scan_extend:
  "w = [] \<or> hd w = 0x5B \<Longrightarrow> snd (card_scan (u @ w) i d) \<le> snd (card_scan (u @ v) i d) \<and> snd (card_scan (u @ w) i d) \<le> d + length u"
proof (induction u arbitrary: i d)
  case Nil
  then have "card_scan w i d = (i, d)" by (cases w) (auto simp: char_defs)
  then show ?case by (simp add: card_scan_ge)
next
  case (Cons c u)
  then show ?case using Cons.IH [of "Suc i" d] Cons.IH [of "Suc i" "Suc d"] by (auto intro: le_SucI)
qed

lemma match_card_iff: "match_credit_card x \<noteq> None \<longleftrightarrow> 13 \<le> length x \<and> 13 \<le> snd (card_scan x 0 0)"
  by (auto simp: match_credit_card_def split: prod.splits)

interpretation card: pii_pattern match_credit_card
proof
  fix w u v :: "u8 list" assume "w = [] \<or> hd w = 0x5B" "match_credit_card (u @ w) \<noteq> None"
  then show "match_credit_card (u @ v) \<noteq> None"
    using card_scan_extend [of w u 0 0 v] unfolding match_card_iff by auto
next
  fix p t w assume "p < length (token_bytes t)"
  then obtain c cs where "drop p (token_bytes t) = c # cs" "c \<in> set (token_bytes t)" using hd_drop_token by metis
  then show "match_credit_card (drop p (token_bytes t) @ w) = None"
    using token_char_not [of c t] match_card_iff [of "c # cs @ w"] by auto
next
  fix p k t show "match_credit_card (drop p (take k (token_bytes t))) = None"
    using drop_cut_token [of p k t] token_char_not match_card_iff [of "drop p (take k (token_bytes t))"] by force
qed

subsection \<open>Mail addresses\<close>

lemma email_at_extend:
  "w = [] \<or> hd w = 0x5B \<Longrightarrow> email_at (u @ w) i = Some a \<Longrightarrow> email_at (u @ v) i = Some a \<and> i \<le> a \<and> a < i + length u"
proof (induction u arbitrary: i)
  case Nil
  then show ?case by (cases w) (auto simp: AT_def)
next
  case (Cons c u)
  then show ?case using Cons.IH [OF Cons.prems(1), of "Suc i"] by (cases "c = AT") (auto dest: Suc_leD split: if_splits)
qed

lemma email_domain_ge: "i \<le> fst (email_domain a v i d) \<and> (d \<longrightarrow> snd (email_domain a v i d))"
  by (induction a v i d rule: email_domain.induct) (auto intro: Suc_leD)

lemma email_domain_extend:
  "w = [] \<or> hd w = 0x5B \<Longrightarrow>
   fst (email_domain a (u @ w) i d) \<le> fst (email_domain a (u @ v) i d)
   \<and> (snd (email_domain a (u @ w) i d) \<longrightarrow> snd (email_domain a (u @ v) i d))
   \<and> fst (email_domain a (u @ w) i d) \<le> i + length u"
proof (induction u arbitrary: i d)
  case Nil
  then have "email_domain a w i d = (i, d)" by (cases w) auto
  then show ?case using email_domain_ge [of i a v d] by simp
next
  case (Cons c u)
  then show ?case using Cons.IH [OF Cons.prems, of "Suc i" "d \<or> c = DOT \<and> a + 1 < i"] by auto
qed

lemma match_email_iff:
  "match_email x \<noteq> None \<longleftrightarrow>
   5 \<le> length x \<and> (\<exists>a > 0. email_at x 0 = Some a \<and> snd (email_domain a (drop (a + 1) x) (a + 1) False)
     \<and> a + 3 < fst (email_domain a (drop (a + 1) x) (a + 1) False))"
  by (auto simp: match_email_def Let_def case_prod_beta split: option.splits)

lemma email_at_blocked: "AT \<notin> set s \<Longrightarrow> c \<in> set s \<Longrightarrow> \<not> is_email_char c \<Longrightarrow> email_at (s @ w) i = None"
  by (induction s arbitrary: i) auto

lemma email_at_absent: "AT \<notin> set s \<Longrightarrow> email_at s i = None"
  by (induction s arbitrary: i) auto

lemma last_token: "p < length (token_bytes t) \<Longrightarrow> 0x5D \<in> set (drop p (token_bytes t))"
proof -
  assume "p < length (token_bytes t)"
  then have "last (drop p (token_bytes t)) = last (token_bytes t)" "drop p (token_bytes t) \<noteq> []" by auto
  moreover have "last (token_bytes t) = 0x5D" by (cases t) (simp_all add: ascii_def)
  ultimately show ?thesis by (metis last_in_set)
qed

interpretation email: pii_pattern match_email
proof
  fix w u v :: "u8 list" assume w: "w = [] \<or> hd w = 0x5B" and m: "match_email (u @ w) \<noteq> None"
  then obtain a where a: "a > 0" "email_at (u @ w) 0 = Some a"
    "snd (email_domain a (drop (a + 1) (u @ w)) (a + 1) False)" "a + 3 < fst (email_domain a (drop (a + 1) (u @ w)) (a + 1) False)"
    unfolding match_email_iff by blast
  have e: "email_at (u @ v) 0 = Some a" "a < length u" using email_at_extend [OF w a(2)] by auto
  then have d: "drop (a + 1) (u @ z) = drop (a + 1) u @ z" for z by simp
  note x = email_domain_extend [OF w, of a "drop (a + 1) u" "a + 1" False v]
  have "a + 3 < a + 1 + length (drop (a + 1) u)" using x a(4) unfolding d by linarith
  then have "5 \<le> length u" using a(1) e(2) by simp
  then show "match_email (u @ v) \<noteq> None" unfolding match_email_iff using \<open>5 \<le> length u\<close> a(1,3,4) e(1) x unfolding d
    by (intro conjI exI [of _ a]) auto
next
  fix p t w assume p: "p < length (token_bytes t)"
  have "AT \<notin> set (drop p (token_bytes t))" using token_char_not(2) in_set_dropD by metis
  then have "email_at (drop p (token_bytes t) @ w) 0 = None" using last_token [OF p] email_at_blocked by simp
  then show "match_email (drop p (token_bytes t) @ w) = None" by (simp add: match_email_def)
next
  fix p k t
  have "AT \<notin> set (drop p (take k (token_bytes t)))" using token_char_not(2) in_set_dropD in_set_takeD by metis
  then show "match_email (drop p (take k (token_bytes t))) = None" by (simp add: match_email_def email_at_absent)
qed

subsection \<open>Keys\<close>

lemma key_end_ge: "i \<le> key_end v i"
  by (induction v i rule: key_end.induct) (auto intro: Suc_leD)

lemma key_end_extend: "w = [] \<or> hd w = 0x5B \<Longrightarrow> key_end (u @ w) i \<le> key_end (u @ v) i"
proof (induction u arbitrary: i)
  case Nil
  then have "key_end w i = i" by (cases w) auto
  then show ?case by (simp add: key_end_ge)
qed simp

lemma match_prefixes_iff:
  "match_prefixes x ps \<noteq> None \<longleftrightarrow>
   (\<exists>p \<in> set ps. length p \<le> length x \<and> take (length p) x = p \<and> key_end (drop (length p) x) (length p) > length p + 8)"
  by (induction ps) (auto simp: Let_def)

lemma prefixes_no_bracket: "p \<in> set PREFIXES \<Longrightarrow> 0x5B \<notin> set p"
  by (auto simp: PREFIXES_def ascii_def)

lemma prefix_start:
  assumes "q \<in> set PREFIXES"
  shows "3 \<le> length q \<and> (is_ascii_lowercase (q ! 0) \<or> q ! 0 = 0x41 \<and> q ! 1 = 0x4B \<or> q ! 0 = 0x42 \<and> is_ascii_lowercase (q ! 1))"
  using assms by (auto simp: PREFIXES_def ascii_def is_ascii_lowercase_def)

lemma token_not_lower: "c \<in> set (token_bytes t) \<Longrightarrow> \<not> is_ascii_lowercase c"
  using token_chars [of c t] by (auto simp: char_class_defs word_le_nat_alt)

lemma token_pairs: "successively (\<lambda>a b. \<not> (a = 0x41 \<and> b = 0x4B)) (token_bytes t)"
  by (cases t) (simp_all add: ascii_def)

lemma token_no_prefix: "p < length (token_bytes t) \<Longrightarrow> match_prefixes (drop p (token_bytes t) @ w) PREFIXES = None"
proof (rule ccontr)
  assume p: "p < length (token_bytes t)" and "match_prefixes (drop p (token_bytes t) @ w) PREFIXES \<noteq> None"
  then obtain q where q: "q \<in> set PREFIXES" "take (length q) (drop p (token_bytes t) @ w) = q" unfolding match_prefixes_iff by blast
  note start = prefix_start [OF q(1)]
  have nth: "q ! i = (drop p (token_bytes t) @ w) ! i" if "i < 3" for i
    using q(2) start that by (metis nth_take order_less_le_trans)
  then have c: "q ! 0 = token_bytes t ! p" using p by (simp add: nth_append)
  show False
  proof (cases "p + 1 < length (token_bytes t)")
    case True
    then have d: "q ! 1 = token_bytes t ! (p + 1)" using nth [of 1] by (simp add: nth_append less_diff_conv)
    have "\<not> (q ! 0 = 0x41 \<and> q ! 1 = 0x4B)" using token_pairs [of t] True c d by (simp add: successively_conv_nth)
    then show False using start c d True token_not_lower nth_mem p by metis
  next
    case False
    then have "p = length (token_bytes t) - 1" using p by simp
    then have "q ! 0 = last (token_bytes t)" using c by (simp add: last_conv_nth)
    then have "q ! 0 = 0x5D" by (cases t) (simp_all add: ascii_def)
    then show False using start by (simp add: is_ascii_lowercase_def)
  qed
qed

lemma token_cut_no_prefix: "match_prefixes (drop p (take k (token_bytes t))) PREFIXES = None"
proof (rule ccontr)
  assume "match_prefixes (drop p (take k (token_bytes t))) PREFIXES \<noteq> None"
  then obtain q where q: "q \<in> set PREFIXES" "length q \<le> length (drop p (take k (token_bytes t)))"
    "take (length q) (drop p (take k (token_bytes t))) = q"
    "length q + 8 < key_end (drop (length q) (drop p (take k (token_bytes t)))) (length q)" unfolding match_prefixes_iff by blast
  have p: "p < length (token_bytes t)" using q(2) prefix_start [OF q(1)] by (simp add: min_def split: if_splits)
  obtain w where w: "drop p (token_bytes t) = drop p (take k (token_bytes t)) @ w"
    using drop_append [of p "take k (token_bytes t)" "drop k (token_bytes t)"] by simp
  have "match_prefixes (drop p (token_bytes t) @ []) PREFIXES \<noteq> None"
    unfolding match_prefixes_iff append_Nil2
    using q key_end_extend [of "[]" "drop (length q) (drop p (take k (token_bytes t)))" "length q" w] unfolding w
    by (intro bexI [of _ q]) auto
  then show False using token_no_prefix [OF p, of "[]"] by simp
qed

interpretation api_key: pii_pattern match_api_key
proof
  fix w u v :: "u8 list" assume w: "w = [] \<or> hd w = 0x5B" and "match_api_key (u @ w) \<noteq> None"
  then obtain p where p: "p \<in> set PREFIXES" "length p \<le> length (u @ w)" "take (length p) (u @ w) = p"
    "key_end (drop (length p) (u @ w)) (length p) > length p + 8" unfolding match_api_key_def match_prefixes_iff by blast
  have "length p \<le> length u"
  proof (rule ccontr)
    assume c: "\<not> length p \<le> length u"
    then have "w \<noteq> []" using p(2) by auto
    then have "take (length p) (u @ w) ! length u = 0x5B" using w c by (auto simp: nth_append hd_conv_nth)
    then show False using p(1,3) c prefixes_no_bracket [of p] by (metis not_le nth_mem)
  qed
  then show "match_api_key (u @ v) \<noteq> None" unfolding match_api_key_def match_prefixes_iff
    using p key_end_extend [OF w, of "drop (length p) u" "length p" v] by (intro bexI [of _ p]) auto
qed (simp_all add: match_api_key_def token_no_prefix token_cut_no_prefix)

section \<open>The redactor\<close>

lemma or_else_None [simp]: "or_else a b = None \<longleftrightarrow> a = None \<and> b = None"
  by (cases a) auto

lemma matched_None [simp]: "matched t m = None \<longleftrightarrow> m = None"
  by (simp add: matched_def)

lemma match_pattern_covers:
  "match_email x \<noteq> None \<Longrightarrow> match_pattern r x \<noteq> None" "match_ssn x \<noteq> None \<Longrightarrow> match_pattern r x \<noteq> None"
  "match_credit_card x \<noteq> None \<Longrightarrow> match_pattern r x \<noteq> None"
  "rd_level r \<noteq> Light \<Longrightarrow> match_api_key x \<noteq> None \<Longrightarrow> match_pattern r x \<noteq> None"
  by (cases "rd_level r"; simp add: match_pattern_def)+

definition pii_free :: "u8 list \<Rightarrow> bool" where
  "pii_free w = (\<forall>p. match_email (drop p w) = None \<and> match_ssn (drop p w) = None \<and> match_credit_card (drop p w) = None)"

definition key_free :: "u8 list \<Rightarrow> bool" where
  "key_free w = (\<forall>p. match_api_key (drop p w) = None)"

lemma pii_free_Nil [simp]: "pii_free []" "key_free []"
  by (simp_all add: pii_free_def key_free_def)

lemma renders_pii_free:
  assumes "renders m xs w" "pii_free xs \<or> (\<exists>r. m = match_pattern r)"
  shows "pii_free w"
proof -
  have c: "match_email (drop p xs) \<noteq> None \<Longrightarrow> m (drop p xs) \<noteq> None" "match_ssn (drop p xs) \<noteq> None \<Longrightarrow> m (drop p xs) \<noteq> None"
    "match_credit_card (drop p xs) \<noteq> None \<Longrightarrow> m (drop p xs) \<noteq> None" for p
    using assms(2) match_pattern_covers(1-3) unfolding pii_free_def by metis+
  show ?thesis unfolding pii_free_def
    using email.renders_clean [OF assms(1) c(1)] ssn.renders_clean [OF assms(1) c(2)] card.renders_clean [OF assms(1) c(3)] by blast
qed

lemma renders_key_free:
  assumes "renders m xs w" "key_free xs \<or> (\<exists>r. m = match_pattern r \<and> rd_level r \<noteq> Light)"
  shows "key_free w"
proof -
  have c: "match_api_key (drop p xs) \<noteq> None \<Longrightarrow> m (drop p xs) \<noteq> None" for p
    using assms(2) match_pattern_covers(4) unfolding key_free_def by metis
  show ?thesis unfolding key_free_def using api_key.renders_clean [OF assms(1) c] by blast
qed

lemma redact_renders: "renders (match_pattern r) input (written 0 (redact r input out))"
  by (auto simp: redact_def written_def intro: replace_loop_renders [of 0, simplified written_def, simplified] renders.stopped)

lemma replace_loop_verbatim:
  assumes "\<And>p. p < length xs \<Longrightarrow> m (drop p xs) = None" "pos \<le> length out"
  shows "replace_loop m xs out pos = (copy_into pos (take (length out - pos) xs) out, min (pos + length xs) (length out))"
  using assms
proof (induction xs arbitrary: out pos)
  case Nil
  then show ?case by (simp add: replace_loop.simps copy_into_def)
next
  case (Cons x xs)
  show ?case
  proof (cases "pos < length out")
    case True
    have "m (drop p xs) = None" if "p < length xs" for p using Cons.prems(1) [of "Suc p"] that by simp
    then have "replace_loop m xs (out[pos := x]) (Suc pos)
        = (copy_into (Suc pos) (take (length out - Suc pos) xs) (out[pos := x]), min (Suc pos + length xs) (length out))"
      using Cons.IH [of "Suc pos" "out[pos := x]"] True by simp
    moreover have "copy_into (Suc pos) (take (length out - Suc pos) xs) (out[pos := x]) = copy_into pos (take (length out - pos) (x # xs)) out"
      using True by (simp add: copy_into_def take_Cons' take_Suc_conv_app_nth)
    ultimately show ?thesis using True Cons.prems(1) [of 0] by (simp add: replace_loop.simps [of m "x # xs"])
  next
    case False
    then show ?thesis using Cons.prems by (simp add: replace_loop.simps copy_into_def)
  qed
qed

text \<open>
  (C8) The redacted text contains no mail address, no social security number, no card number and, unless
  the level is light, no key: none of these matchers fires at any position of what \<open>redact\<close> leaves in the
  output, whatever the input is and wherever the buffer ends. Text in which nothing matches is copied as it is.
\<close>

theorem redact_removes_pii:
  "pii_free (written 0 (redact r input out))
   \<and> (rd_level r \<noteq> Light \<longrightarrow> key_free (written 0 (redact r input out)))
   \<and> (rd_initialized r \<and> (\<forall>p < length input. match_pattern r (drop p input) = None)
       \<longrightarrow> written 0 (redact r input out) = take (length out) input)"
proof (intro conjI impI)
  show "pii_free (written 0 (redact r input out))" using renders_pii_free [OF redact_renders] by blast
  show "key_free (written 0 (redact r input out))" if "rd_level r \<noteq> Light"
    using renders_key_free [OF redact_renders] that by blast
  show "written 0 (redact r input out) = take (length out) input"
    if "rd_initialized r \<and> (\<forall>p < length input. match_pattern r (drop p input) = None)"
    using that replace_loop_verbatim [of input "match_pattern r" 0 out]
    by (auto simp: redact_def written_def copy_into_def min_def)
qed

text \<open>A text with an address and a number, and a text with nothing to hide.\<close>

theorem redact_removes_pii_witness:
  "written 0 (redact (redactor_init redactor_new) (ascii ''to a1@b.com:123-45-6789'') (replicate 24 0)) = ascii ''to [EMAIL]:[SSN]''
   \<and> key_free (ascii ''to [EMAIL]:[SSN]'')
   \<and> written 0 (redact (redactor_init redactor_new) (ascii ''hello'') (replicate 4 0)) = ascii ''hell''"
proof -
  let ?r = "redactor_init redactor_new"
  have w: "written 0 (redact ?r (ascii ''to a1@b.com:123-45-6789'') (replicate 24 0)) = ascii ''to [EMAIL]:[SSN]''" by code_simp
  moreover have "key_free (ascii ''to [EMAIL]:[SSN]'')"
    using redact_removes_pii [of ?r "ascii ''to a1@b.com:123-45-6789''" "replicate 24 0"] unfolding w
    by (simp add: redactor_init_def redactor_new_def)
  moreover have "list_all (\<lambda>p. match_pattern ?r (drop p (ascii ''hello'')) = None) [0..<5]" by code_simp
  then have "\<forall>p < length (ascii ''hello''). match_pattern ?r (drop p (ascii ''hello'')) = None"
    by (auto simp: list_all_iff)
  then have "written 0 (redact ?r (ascii ''hello'') (replicate 4 0)) = ascii ''hell''"
    using redact_removes_pii [of ?r "ascii ''hello''" "replicate 4 0"] by (simp add: redactor_init_def redactor_new_def ascii_def)
  ultimately show ?thesis by blast
qed

text \<open>
  Telephone numbers are different: the matcher refuses more than 15 digits in 20 bytes, so a number that
  is followed closely by more digits is copied until the rest is short enough. A telephone number can also
  take the first digits of a social security number with it, and the rest of that number is copied.
\<close>

lemma phone_number_survives:
  "written 0 (redact (redactor_init redactor_new) (ascii ''(12345678)(12345678)(12345678)'') (replicate 64 0))
     = ascii ''(12345678)(1[PHONE]''
   \<and> match_phone (ascii ''(12345678)(1[PHONE]'') = Some 12"
  by code_simp

lemma number_partly_survives:
  "written 0 (redact (redactor_init redactor_new) (ascii ''(555)  1234567   123-45-6789'') (replicate 64 0))
     = ascii ''[PHONE]-45-6789''"
  by code_simp

end
