(* ===== verification/Context_Redact.thy ===== *)
theory Context_Redact
  imports Redact Policy_Eval
begin

text \<open>
  Redaction under the control of the policies: \<^verbatim>\<open>src/kernel-core/src/llm/context_redact.rs\<close>. The engine of
  \<open>Policy_Eval\<close> decides for a requester and an object, the decision selects a profile, and the profile
  selects the passes over the text. The clock and the registry are arguments, as for the engine; so
  is the scratch buffer \<^verbatim>\<open>PROFILE_TMP\<close>, whose old contents do not matter.
\<close>

section \<open>Definitions\<close>

definition MAX_ENTRY_SIZE :: nat where "MAX_ENTRY_SIZE = 4096"

record redaction_context =
  rx_requester_id :: user_id
  rx_requester_tier :: security_tier
  rx_target_suid :: suid
  rx_request_type :: request_type
  rx_context_flags :: u32
  rx_app_context :: u32

record context_redactor =
  cr_base_redactor :: redactor
  cr_initialized :: bool
  cr_default_profile :: redaction_profile

definition cr_new :: context_redactor where
  "cr_new = \<lparr>cr_base_redactor = redactor_new, cr_initialized = False, cr_default_profile = Standard\<rparr>"

definition cr_init :: "context_redactor \<Rightarrow> context_redactor" where
  "cr_init cr = cr\<lparr>cr_base_redactor := redactor_init (cr_base_redactor cr), cr_initialized := True\<rparr>"

definition set_default_profile :: "redaction_profile \<Rightarrow> context_redactor \<Rightarrow> context_redactor" where
  "set_default_profile p cr = cr\<lparr>cr_default_profile := p\<rparr>"

fun map_policy_result :: "policy_result \<Rightarrow> security_tier \<Rightarrow> redaction_profile \<Rightarrow> redaction_profile" where
  "map_policy_result (ResAllowWithRedaction p) requester_tier d = p"
| "map_policy_result (ResAllow t) requester_tier d = (if requester_tier = Secret then NoRedaction else Standard)"
| "map_policy_result ResDeny requester_tier d = FullRedaction"
| "map_policy_result _ requester_tier d = FullRedaction"

definition determine_redaction_profile ::
  "context_redactor \<Rightarrow> u64 \<Rightarrow> registry \<Rightarrow> policy_engine \<Rightarrow> redaction_context \<Rightarrow> redaction_profile" where
  "determine_redaction_profile cr now reg e ctx =
     (let eval_context = create_evaluation_context now reg (rx_requester_id ctx) (rx_requester_tier ctx)
                           (rx_target_suid ctx) (rx_request_type ctx)
      in map_policy_result (evaluate now reg e eval_context) (rx_requester_tier ctx) (cr_default_profile cr))"

text \<open>
  The loops after \<^verbatim>\<open>MRN\<close> and \<^verbatim>\<open>ACCT\<close>: \<open>start\<close> is the length of the prefix, \<open>limit\<close> the number of bytes
  after which the loop breaks.
\<close>

fun number_end :: "nat \<Rightarrow> nat \<Rightarrow> u8 list \<Rightarrow> nat \<Rightarrow> nat" where
  "number_end start limit [] e = e"
| "number_end start limit (c # cs) e =
     (if is_ascii_digit c \<or> c = DASH \<or> c = SPACE
      then (if Suc e - start > limit then Suc e else number_end start limit cs (Suc e))
      else e)"

definition match_mrn :: "u8 list \<Rightarrow> nat option" where
  "match_mrn content =
     (if length content \<ge> 7 \<and> take 3 content = ascii ''MRN''
      then let e = number_end 3 15 (drop 3 content) 3 in if e > 5 then Some e else None
      else None)"

definition is_date_pattern :: "u8 list \<Rightarrow> bool" where
  "is_date_pattern bytes =
     (if length bytes \<noteq> 10 then False
      else is_ascii_digit (bytes ! 0) \<and> is_ascii_digit (bytes ! 1) \<and> (bytes ! 2 = 0x2F \<or> bytes ! 2 = DASH)
         \<and> is_ascii_digit (bytes ! 3) \<and> is_ascii_digit (bytes ! 4) \<and> (bytes ! 5 = 0x2F \<or> bytes ! 5 = DASH)
         \<and> is_ascii_digit (bytes ! 6) \<and> is_ascii_digit (bytes ! 7) \<and> is_ascii_digit (bytes ! 8) \<and> is_ascii_digit (bytes ! 9))"

definition match_date :: "u8 list \<Rightarrow> nat option" where
  "match_date content = (if length content \<ge> 10 \<and> is_date_pattern (take 10 content) then Some 10 else None)"

definition match_patient :: "u8 list \<Rightarrow> nat option" where
  "match_patient content = (if length content \<ge> 8 \<and> take 7 content = ascii ''PATIENT'' then Some 7 else None)"

definition find_medical_pattern :: "u8 list \<Rightarrow> (token \<times> nat) option" where
  "find_medical_pattern content =
     or_else (matched MRN (match_mrn content))
     (or_else (matched DOB (match_date content)) (matched PATIENT (match_patient content)))"

definition match_account :: "u8 list \<Rightarrow> nat option" where
  "match_account content =
     (if length content \<ge> 8 \<and> take 4 content = ascii ''ACCT''
      then let e = number_end 4 20 (drop 4 content) 4 in if e > 6 then Some e else None
      else None)"

definition match_routing :: "u8 list \<Rightarrow> nat option" where
  "match_routing content =
     (if length content \<ge> 9 \<and> length (takeWhile is_ascii_digit (take 9 content)) = 9 then Some 9 else None)"

definition find_financial_pattern :: "u8 list \<Rightarrow> (token \<times> nat) option" where
  "find_financial_pattern content =
     or_else (matched ACCOUNT (match_account content)) (matched ROUTING (match_routing content))"

fun letters_end :: "u8 list \<Rightarrow> nat \<Rightarrow> nat" where
  "letters_end [] e = e"
| "letters_end (c # cs) e = (if is_ascii_alphabetic c then letters_end cs (Suc e) else e)"

definition find_name_pattern :: "u8 list \<Rightarrow> (token \<times> nat) option" where
  "find_name_pattern content =
     (if content = [] \<or> \<not> is_ascii_uppercase (content ! 0) then None
      else let e = letters_end (drop 1 content) 1
           in if e \<ge> 2 \<and> e \<le> 20 then Some (NAME, e) else None)"

definition apply_medical_redaction :: "context_redactor \<Rightarrow> u8 list \<Rightarrow> u8 list \<Rightarrow> u8 list \<Rightarrow> u8 list \<times> nat" where
  "apply_medical_redaction cr tmp content out =
     (let (tmp, base_len) = redact (cr_base_redactor cr) content tmp
      in replace_loop find_medical_pattern (take base_len tmp) out 0)"

definition apply_financial_redaction :: "context_redactor \<Rightarrow> u8 list \<Rightarrow> u8 list \<Rightarrow> u8 list \<Rightarrow> u8 list \<times> nat" where
  "apply_financial_redaction cr tmp content out =
     (let (tmp, base_len) = redact (cr_base_redactor cr) content tmp
      in replace_loop find_financial_pattern (take base_len tmp) out 0)"

definition apply_names_only_redaction :: "u8 list \<Rightarrow> u8 list \<Rightarrow> u8 list \<times> nat" where
  "apply_names_only_redaction content out = replace_loop find_name_pattern content out 0"

definition NOTICE :: "u8 list" where
  "NOTICE = ascii ''[CONTENT REDACTED - INSUFFICIENT PRIVILEGE]''"

definition apply_full_redaction :: "u8 list \<Rightarrow> u8 list \<times> nat" where
  "apply_full_redaction out =
     (let copy_len = min (length NOTICE) (length out) in (copy_into 0 (take copy_len NOTICE) out, copy_len))"

definition apply_custom_redaction :: "context_redactor \<Rightarrow> u8 list \<Rightarrow> u8 list \<Rightarrow> u8 \<Rightarrow> u8 list \<times> nat" where
  "apply_custom_redaction cr content out profile_id = redact (cr_base_redactor cr) content out"

fun apply_redaction_profile ::
  "context_redactor \<Rightarrow> u8 list \<Rightarrow> u8 list \<Rightarrow> redaction_profile \<Rightarrow> u8 list \<Rightarrow> u8 list \<times> nat" where
  "apply_redaction_profile cr tmp content NoRedaction out =
     (let copy_len = min (length content) (length out) in (copy_into 0 (take copy_len content) out, copy_len))"
| "apply_redaction_profile cr tmp content Standard out = redact (cr_base_redactor cr) content out"
| "apply_redaction_profile cr tmp content Medical out = apply_medical_redaction cr tmp content out"
| "apply_redaction_profile cr tmp content Financial out = apply_financial_redaction cr tmp content out"
| "apply_redaction_profile cr tmp content NamesOnly out = apply_names_only_redaction content out"
| "apply_redaction_profile cr tmp content FullRedaction out = apply_full_redaction out"
| "apply_redaction_profile cr tmp content (Custom profile_id) out = apply_custom_redaction cr content out profile_id"

definition redact_with_context ::
  "context_redactor \<Rightarrow> u64 \<Rightarrow> registry \<Rightarrow> policy_engine \<Rightarrow> u8 list \<Rightarrow> u8 list \<Rightarrow> redaction_context \<Rightarrow> u8 list
    \<Rightarrow> u8 list \<times> nat" where
  "redact_with_context cr now reg e tmp content ctx out =
     (if \<not> cr_initialized cr then (out, 0)
      else apply_redaction_profile cr tmp content (determine_redaction_profile cr now reg e ctx) out)"

section \<open>Dates and routing numbers\<close>

lemma match_date_iff:
  "match_date x \<noteq> None \<longleftrightarrow> 10 \<le> length x \<and> (\<forall>i < 10. if i = 2 \<or> i = 5 then x ! i = 0x2F \<or> x ! i = DASH else is_ascii_digit (x ! i))"
proof -
  have "(\<forall>i < 10. P i) = (P 0 \<and> P 1 \<and> P 2 \<and> P 3 \<and> P 4 \<and> P 5 \<and> P 6 \<and> P 7 \<and> P 8 \<and> P 9)" for P :: "nat \<Rightarrow> bool"
    by (auto simp: numeral_eq_Suc All_less_Suc)
  then show ?thesis by (auto simp: match_date_def is_date_pattern_def)
qed

interpretation date: fixed_pattern match_date 10 "\<lambda>i c. if i = 2 \<or> i = 5 then c = 0x2F \<or> c = DASH else is_ascii_digit c"
  by (unfold_locales, rule match_date_iff) (auto simp: DASH_def dest: token_char_not(1))

lemma match_routing_iff: "match_routing x \<noteq> None \<longleftrightarrow> 9 \<le> length x \<and> (\<forall>i < 9. is_ascii_digit (x ! i))"
proof (cases "9 \<le> length x")
  case True
  have "length (takeWhile is_ascii_digit (take 9 x)) = 9 \<longleftrightarrow> takeWhile is_ascii_digit (take 9 x) = take 9 x"
    using True by (metis length_take min_absorb2 takeWhile_eq_take take_all order_refl)
  also have "\<dots> \<longleftrightarrow> (\<forall>i < 9. is_ascii_digit (x ! i))"
    unfolding takeWhile_eq_all_conv using True by (auto simp: set_conv_nth)
  finally show ?thesis using True by (auto simp: match_routing_def)
qed (simp add: match_routing_def)

interpretation routing: fixed_pattern match_routing 9 "\<lambda>i c. is_ascii_digit c"
  by (unfold_locales, rule match_routing_iff) (auto dest: token_char_not(1))

section \<open>The profiles\<close>

definition date_free :: "u8 list \<Rightarrow> bool" where
  "date_free w = (\<forall>p. match_date (drop p w) = None)"

definition routing_free :: "u8 list \<Rightarrow> bool" where
  "routing_free w = (\<forall>p. match_routing (drop p w) = None)"

lemma redact_clean:
  "pii_free (written 0 (redact r content out))" "rd_level r \<noteq> Light \<Longrightarrow> key_free (written 0 (redact r content out))"
  using renders_pii_free [OF redact_renders] renders_key_free [OF redact_renders] by blast+

lemma second_pass_clean:
  assumes "rd_level r \<noteq> Light"
  shows "pii_free (written 0 (replace_loop m (written 0 (redact r content tmp)) out 0))"
    "key_free (written 0 (replace_loop m (written 0 (redact r content tmp)) out 0))"
  using renders_pii_free [OF replace_loop_renders] renders_key_free [OF replace_loop_renders] redact_clean [of r content tmp] assms
  by simp_all

lemma medical_eq:
  "apply_medical_redaction cr tmp content out
     = replace_loop find_medical_pattern (written 0 (redact (cr_base_redactor cr) content tmp)) out 0"
  "apply_financial_redaction cr tmp content out
     = replace_loop find_financial_pattern (written 0 (redact (cr_base_redactor cr) content tmp)) out 0"
  by (simp_all add: apply_medical_redaction_def apply_financial_redaction_def written_def case_prod_beta)

lemma medical_no_dates: "date_free (written 0 (replace_loop find_medical_pattern xs out 0))"
proof -
  have "match_date (drop p xs) \<noteq> None \<Longrightarrow> find_medical_pattern (drop p xs) \<noteq> None" for p by (simp add: find_medical_pattern_def)
  then show ?thesis unfolding date_free_def using date.renders_clean [OF replace_loop_renders] by blast
qed

lemma financial_no_routing: "routing_free (written 0 (replace_loop find_financial_pattern xs out 0))"
proof -
  have "match_routing (drop p xs) \<noteq> None \<Longrightarrow> find_financial_pattern (drop p xs) \<noteq> None" for p by (simp add: find_financial_pattern_def)
  then show ?thesis unfolding routing_free_def using routing.renders_clean [OF replace_loop_renders] by blast
qed

lemma written_copy [simp]: "written 0 (copy_into 0 (take (min (length xs) (length out)) xs) out, min (length xs) (length out)) = take (length out) xs"
  by (auto simp: written_def copy_into_def min_def)

lemma full_redaction_written [simp]: "written 0 (apply_full_redaction out) = take (length out) NOTICE"
  by (simp add: apply_full_redaction_def Let_def)

lemma profile_result:
  assumes "rd_level (cr_base_redactor cr) \<noteq> Light"
  shows "let w = written 0 (apply_redaction_profile cr tmp content p out)
    in case p of
         NoRedaction \<Rightarrow> w = take (length out) content
       | FullRedaction \<Rightarrow> w = take (length out) NOTICE
       | NamesOnly \<Rightarrow> renders find_name_pattern content w
       | Medical \<Rightarrow> pii_free w \<and> key_free w \<and> date_free w
       | Financial \<Rightarrow> pii_free w \<and> key_free w \<and> routing_free w
       | _ \<Rightarrow> pii_free w \<and> key_free w"
  using redact_clean(1) redact_clean(2) [OF assms] second_pass_clean [OF assms] medical_no_dates financial_no_routing
  by (cases p) (simp_all add: medical_eq apply_custom_redaction_def apply_names_only_redaction_def replace_loop_renders Let_def)

text \<open>
  (C17) What a requester receives of an object is what the policy decision allows. A refusal, a request for
  escalation and an engine without a decision give the fixed notice, which does not depend on the content. A plain
  permission gives the content itself only to a requester of the Secret tier and otherwise text free of
  addresses, numbers and keys. A decision with a profile gives the text of that profile: Medical also has
  no date, Financial no routing number.
\<close>

theorem redaction_follows_policy:
  assumes "cr_initialized cr" "rd_level (cr_base_redactor cr) \<noteq> Light"
  shows "let w = written 0 (redact_with_context cr now reg e tmp content ctx out);
      decision = evaluate now reg e (create_evaluation_context now reg (rx_requester_id ctx)
                   (rx_requester_tier ctx) (rx_target_suid ctx) (rx_request_type ctx))
    in case decision of
         ResAllow t \<Rightarrow> (if rx_requester_tier ctx = Secret then w = take (length out) content else pii_free w \<and> key_free w)
       | ResAllowWithRedaction p \<Rightarrow>
           (case p of
              NoRedaction \<Rightarrow> w = take (length out) content
            | FullRedaction \<Rightarrow> w = take (length out) NOTICE
            | NamesOnly \<Rightarrow> renders find_name_pattern content w
            | Medical \<Rightarrow> pii_free w \<and> key_free w \<and> date_free w
            | Financial \<Rightarrow> pii_free w \<and> key_free w \<and> routing_free w
            | _ \<Rightarrow> pii_free w \<and> key_free w)
       | _ \<Rightarrow> w = take (length out) NOTICE"
proof -
  define d where "d = evaluate now reg e (create_evaluation_context now reg (rx_requester_id ctx)
                   (rx_requester_tier ctx) (rx_target_suid ctx) (rx_request_type ctx))"
  have r: "redact_with_context cr now reg e tmp content ctx out
      = apply_redaction_profile cr tmp content (map_policy_result d (rx_requester_tier ctx) (cr_default_profile cr)) out"
    using assms(1) by (simp add: redact_with_context_def determine_redaction_profile_def d_def Let_def)
  show ?thesis unfolding d_def [symmetric] r
    using profile_result [OF assms(2), of tmp content "map_policy_result d (rx_requester_tier ctx) (cr_default_profile cr)" out]
    by (cases d; cases "rx_requester_tier ctx = Secret") (simp_all add: Let_def)
qed

text \<open>Without policies the engine allows: an ordinary requester gets redacted text.\<close>

lemma no_policies: "scan_policies now ctx reg_new is found = found"
proof -
  have "stored_policy reg_new s = None" for s
    using reg_get_map [OF reg_inv_new(1)] by (simp add: stored_policy_def reg_inv_new(2))
  then show ?thesis by (induction "is" arbitrary: found) (simp_all add: add_match_def)
qed

theorem redaction_follows_policy_witness:
  "pii_free (written 0 (redact_with_context (cr_init cr_new) 0 reg_new (engine_init engine_new) (replicate 16 0) (ascii ''a1@b.com'')
      \<lparr>rx_requester_id = 1, rx_requester_tier = Internal, rx_target_suid = \<lparr>high = 1, low = 2\<rparr>,
       rx_request_type = LLMContext, rx_context_flags = 0, rx_app_context = 0\<rparr> (replicate 8 0)))"
proof -
  have "evaluate 0 reg_new (engine_init engine_new) ctx = ResAllow Public" for ctx
    by (simp add: evaluate_def engine_init_def no_policies sort_policies_by_priority_def)
  then show ?thesis
    using redaction_follows_policy [of "cr_init cr_new" 0 reg_new "engine_init engine_new" "replicate 16 0" "ascii ''a1@b.com''"
        "\<lparr>rx_requester_id = 1, rx_requester_tier = Internal, rx_target_suid = \<lparr>high = 1, low = 2\<rparr>,
         rx_request_type = LLMContext, rx_context_flags = 0, rx_app_context = 0\<rparr>" "replicate 8 0"]
    by (simp add: cr_init_def cr_new_def redactor_new_def redactor_init_def Let_def)
qed

end
