(* ===== verification/Summarize.thy ===== *)
theory Summarize
  imports Ascii
begin

text \<open>
  Summaries of internal documents: \<^verbatim>\<open>src/kernel-core/src/llm/summarize.rs\<close>. The 512-byte buffer of a
  summary is a list of that length. The ratio of a summary, a statistic in floating point, is left out; the
  target length of the truncating strategy, a length times the target ratio in \<^verbatim>\<open>f32\<close>, is the argument
  \<open>scaled\<close>.
\<close>

section \<open>Definitions\<close>

definition MAX_SUMMARY_LEN :: nat where "MAX_SUMMARY_LEN = 512"

datatype summary_strategy = FirstSentences | Truncate | KeyPhrases

record summary =
  sm_content :: "u8 list"
  sm_len :: nat
  sm_strategy :: summary_strategy
  sm_original_len :: nat

definition summary_empty :: summary where
  "summary_empty = \<lparr>sm_content = replicate MAX_SUMMARY_LEN 0, sm_len = 0, sm_strategy = Truncate, sm_original_len = 0\<rparr>"

definition sm_as_bytes :: "summary \<Rightarrow> u8 list" where
  "sm_as_bytes s = take (sm_len s) (sm_content s)"

record summarizer =
  su_initialized :: bool
  su_strategy :: summary_strategy
  su_max_sentences :: nat

definition summarizer_new :: summarizer where
  "summarizer_new = \<lparr>su_initialized = False, su_strategy = FirstSentences, su_max_sentences = 3\<rparr>"

definition summarizer_init :: "summarizer \<Rightarrow> summarizer" where
  "summarizer_init s = s\<lparr>su_initialized := True\<rparr>"

definition set_strategy :: "summary_strategy \<Rightarrow> summarizer \<Rightarrow> summarizer" where
  "set_strategy st s = s\<lparr>su_strategy := st\<rparr>"

definition set_max_sentences :: "nat \<Rightarrow> summarizer \<Rightarrow> summarizer" where
  "set_max_sentences n s = s\<lparr>su_max_sentences := n\<rparr>"

definition SUMMARY_PREFIX :: "u8 list" where "SUMMARY_PREFIX = ascii ''[SUMMARY] ''"
definition KEY_PREFIX :: "u8 list" where "KEY_PREFIX = ascii ''[KEY PHRASES] ''"
definition ELLIPSIS :: "u8 list" where "ELLIPSIS = [0x2E, 0x2E, 0x2E]"

text \<open>A full stop, exclamation or question mark before white space or at the end; \<open>rest\<close> is what follows.\<close>

definition ends_sentence :: "u8 \<Rightarrow> u8 list \<Rightarrow> bool" where
  "ends_sentence c rest =
     ((c = 0x2E \<or> c = 0x21 \<or> c = 0x3F)
      \<and> (case rest of [] \<Rightarrow> True | n # _ \<Rightarrow> n = 0x20 \<or> n = 0x0A \<or> n = 0x0D))"

text \<open>The loop of \<open>summarize_first_sentences\<close>; it answers the rest of the input, the buffer and the position.\<close>

fun sentence_loop :: "nat \<Rightarrow> u8 list \<Rightarrow> nat \<Rightarrow> u8 list \<Rightarrow> nat \<Rightarrow> u8 list \<times> u8 list \<times> nat" where
  "sentence_loop max_sentences [] sentences buf out_pos = ([], buf, out_pos)"
| "sentence_loop max_sentences (c # cs) sentences buf out_pos =
     (if sentences < max_sentences \<and> out_pos < MAX_SUMMARY_LEN - 3
      then sentence_loop max_sentences cs (if ends_sentence c cs then Suc sentences else sentences)
             (buf[out_pos := c]) (Suc out_pos)
      else (c # cs, buf, out_pos))"

definition summarize_first_sentences :: "summarizer \<Rightarrow> u8 list \<Rightarrow> summary" where
  "summarize_first_sentences s content =
     (let prefix_len = min (length SUMMARY_PREFIX) MAX_SUMMARY_LEN;
          buf = copy_into 0 (take prefix_len SUMMARY_PREFIX) (replicate MAX_SUMMARY_LEN 0);
          (rest, buf, out_pos) = sentence_loop (su_max_sentences s) content 0 buf prefix_len;
          (buf, out_pos) =
            (if rest \<noteq> [] \<and> out_pos + 3 \<le> MAX_SUMMARY_LEN
             then (buf[out_pos := 0x2E, out_pos + 1 := 0x2E, out_pos + 2 := 0x2E], out_pos + 3)
             else (buf, out_pos))
      in \<lparr>sm_content = buf, sm_len = out_pos, sm_strategy = FirstSentences, sm_original_len = length content\<rparr>)"

fun word_end :: "u8 list \<Rightarrow> nat \<Rightarrow> nat" where
  "word_end content 0 = 0"
| "word_end content (Suc n) = (if content ! n \<noteq> 0x20 then word_end content n else Suc n)"

definition summarize_truncate :: "(nat \<Rightarrow> nat) \<Rightarrow> u8 list \<Rightarrow> summary" where
  "summarize_truncate scaled content =
     (let target_len = min (scaled (length content)) (MAX_SUMMARY_LEN - 20);
          buf = copy_into 0 SUMMARY_PREFIX (replicate MAX_SUMMARY_LEN 0);
          out_pos = length SUMMARY_PREFIX
      in if length content \<le> target_len
         then let copy_len = min (length content) (MAX_SUMMARY_LEN - out_pos)
              in \<lparr>sm_content = copy_into out_pos (take copy_len content) buf, sm_len = out_pos + copy_len,
                  sm_strategy = Truncate, sm_original_len = length content\<rparr>
         else let end_pos = word_end content target_len;
                  end_pos = (if end_pos = 0 then target_len else end_pos);
                  copy_len = min end_pos (MAX_SUMMARY_LEN - out_pos - 3);
                  buf = copy_into out_pos (take copy_len content) buf;
                  out_pos = out_pos + copy_len
              in \<lparr>sm_content = buf[out_pos := 0x2E, out_pos + 1 := 0x2E, out_pos + 2 := 0x2E],
                  sm_len = out_pos + 3, sm_strategy = Truncate, sm_original_len = length content\<rparr>)"

record phrase_state =
  ph_in_word :: bool
  ph_word_start :: nat
  ph_found :: nat
  ph_buf :: "u8 list"
  ph_out_pos :: nat

definition MAX_PHRASES :: nat where "MAX_PHRASES = 10"

definition is_word_char :: "u8 \<Rightarrow> bool" where
  "is_word_char c = (is_ascii_alphanumeric c \<or> c = 0x2D \<or> c = 0x27)"

definition add_phrase :: "u8 list \<Rightarrow> phrase_state \<Rightarrow> phrase_state" where
  "add_phrase word st =
     (let st = (if ph_found st > 0 \<and> ph_out_pos st + 2 < MAX_SUMMARY_LEN
                then st\<lparr>ph_buf := (ph_buf st)[ph_out_pos st := 0x2C, ph_out_pos st + 1 := 0x20],
                        ph_out_pos := ph_out_pos st + 2\<rparr>
                else st);
          copy_len = min (length word) (MAX_SUMMARY_LEN - ph_out_pos st)
      in if copy_len > 0
         then st\<lparr>ph_buf := copy_into (ph_out_pos st) (take copy_len word) (ph_buf st),
                 ph_out_pos := ph_out_pos st + copy_len, ph_found := ph_found st + 1\<rparr>
         else st)"

definition phrase_step :: "u8 list \<Rightarrow> nat \<Rightarrow> phrase_state \<Rightarrow> phrase_state" where
  "phrase_step content i st =
     (let c = content ! i
      in if is_word_char c \<and> \<not> ph_in_word st then st\<lparr>ph_word_start := i, ph_in_word := True\<rparr>
         else if \<not> is_word_char c \<and> ph_in_word st
         then let word = slice (ph_word_start st) (i - ph_word_start st) content;
                  incl = (length word \<ge> 6 \<or> (ph_word_start st > 0 \<and> is_ascii_uppercase (word ! 0))
                          \<or> list_ex is_ascii_digit word);
                  st = (if incl \<and> ph_found st < MAX_PHRASES then add_phrase word st else st)
              in st\<lparr>ph_in_word := False\<rparr>
         else st)"

definition summarize_key_phrases :: "u8 list \<Rightarrow> summary" where
  "summarize_key_phrases content =
     (let st = \<lparr>ph_in_word = False, ph_word_start = 0, ph_found = 0,
                ph_buf = copy_into 0 KEY_PREFIX (replicate MAX_SUMMARY_LEN 0), ph_out_pos = length KEY_PREFIX\<rparr>;
          st = fold (phrase_step content) [0..<length content] st
      in \<lparr>sm_content = ph_buf st, sm_len = ph_out_pos st, sm_strategy = KeyPhrases, sm_original_len = length content\<rparr>)"

definition summarize :: "(nat \<Rightarrow> nat) \<Rightarrow> summarizer \<Rightarrow> u8 list \<Rightarrow> summary" where
  "summarize scaled s content =
     (if \<not> su_initialized s \<or> content = [] then summary_empty
      else case su_strategy s of
             FirstSentences \<Rightarrow> summarize_first_sentences s content
           | Truncate \<Rightarrow> summarize_truncate scaled content
           | KeyPhrases \<Rightarrow> summarize_key_phrases content)"

section \<open>Every summary fits its buffer\<close>

definition summary_ok :: "summary \<Rightarrow> bool" where
  "summary_ok s = (length (sm_content s) = MAX_SUMMARY_LEN \<and> sm_len s \<le> MAX_SUMMARY_LEN)"

lemma prefix_lengths [simp]: "length SUMMARY_PREFIX = 10" "length KEY_PREFIX = 14"
  by (simp_all add: SUMMARY_PREFIX_def KEY_PREFIX_def)

text \<open>The number of sentences that end in the first \<open>m\<close> bytes of a text.\<close>

fun sentences_in :: "u8 list \<Rightarrow> nat \<Rightarrow> nat" where
  "sentences_in xs 0 = 0"
| "sentences_in [] (Suc m) = 0"
| "sentences_in (c # cs) (Suc m) = (if ends_sentence c cs then 1 else 0) + sentences_in cs m"

lemma sentence_loop_result:
  assumes "sentence_loop k xs n buf pos = (rest, buf', pos')" "length buf = MAX_SUMMARY_LEN" "pos \<le> MAX_SUMMARY_LEN - 3"
  shows "\<exists>m \<le> length xs. rest = drop m xs \<and> pos' = pos + m \<and> pos' \<le> MAX_SUMMARY_LEN - 3
    \<and> length buf' = MAX_SUMMARY_LEN \<and> take pos' buf' = take pos buf @ take m xs
    \<and> (\<forall>m' < m. n + sentences_in xs m' < k)
    \<and> (m = length xs \<or> n + sentences_in xs m \<ge> k \<or> pos' = MAX_SUMMARY_LEN - 3)"
  using assms
proof (induction k xs n buf pos rule: sentence_loop.induct)
  case (1 k n buf pos)
  then show ?case by simp
next
  case (2 k c cs n buf pos)
  show ?case
  proof (cases "n < k \<and> pos < MAX_SUMMARY_LEN - 3")
    case True
    define n' where "n' = (if ends_sentence c cs then Suc n else n)"
    have r: "sentence_loop k cs n' (buf[pos := c]) (Suc pos) = (rest, buf', pos')" using 2(2) True by (simp add: n'_def)
    then obtain m where m: "m \<le> length cs" "rest = drop m cs" "pos' = Suc pos + m" "pos' \<le> MAX_SUMMARY_LEN - 3"
      "length buf' = MAX_SUMMARY_LEN" "take pos' buf' = take (Suc pos) (buf[pos := c]) @ take m cs"
      "\<forall>m' < m. n' + sentences_in cs m' < k" "m = length cs \<or> n' + sentences_in cs m \<ge> k \<or> pos' = MAX_SUMMARY_LEN - 3"
      using 2(1) [OF True, folded n'_def, OF r] 2(3) True by auto
    have c: "n + sentences_in (c # cs) (Suc j) = n' + sentences_in cs j" for j by (simp add: n'_def)
    have "n + sentences_in (c # cs) m' < k" if "m' < Suc m" for m'
      using that m(7) True c by (cases m') (auto simp del: sentences_in.simps(3))
    moreover have "Suc m = length (c # cs) \<or> n + sentences_in (c # cs) (Suc m) \<ge> k \<or> pos' = MAX_SUMMARY_LEN - 3"
      using m(8) unfolding c by simp
    ultimately show ?thesis using m(1-6) True 2(3)
      by (intro exI [of _ "Suc m"]) (simp add: take_Suc_conv_app_nth del: sentences_in.simps(3))
  next
    case False
    then show ?thesis using 2(2-4) by (intro exI [of _ 0]) auto
  qed
qed

lemma take_three_dots:
  "pos + 3 \<le> length buf \<Longrightarrow> take (pos + 3) (buf[pos := 0x2E, Suc pos := 0x2E, Suc (Suc pos) := 0x2E]) = take pos buf @ ELLIPSIS"
  by (simp add: ELLIPSIS_def numeral_3_eq_3 take_Suc_conv_app_nth)

lemma first_sentences_bytes:
  "\<exists>m \<le> length content. m \<le> 499
     \<and> sm_as_bytes (summarize_first_sentences s content)
         = SUMMARY_PREFIX @ take m content @ (if m < length content then ELLIPSIS else [])
     \<and> (\<forall>m' < m. sentences_in content m' < su_max_sentences s)
     \<and> (m = length content \<or> sentences_in content m \<ge> su_max_sentences s \<or> m = 499)
     \<and> summary_ok (summarize_first_sentences s content)"
proof -
  let ?buf = "copy_into 0 SUMMARY_PREFIX (replicate MAX_SUMMARY_LEN 0)"
  obtain rest buf pos where l: "sentence_loop (su_max_sentences s) content 0 ?buf 10 = (rest, buf, pos)" by (metis prod_cases3)
  obtain m where m: "m \<le> length content" "rest = drop m content" "pos = 10 + m" "pos \<le> 509" "length buf = MAX_SUMMARY_LEN"
    "take pos buf = SUMMARY_PREFIX @ take m content" "\<forall>m' < m. sentences_in content m' < su_max_sentences s"
    "m = length content \<or> sentences_in content m \<ge> su_max_sentences s \<or> pos = 509"
    using sentence_loop_result [OF l] by (auto simp: MAX_SUMMARY_LEN_def copy_into_def)
  have b: "summarize_first_sentences s content = (if m < length content
      then \<lparr>sm_content = buf[pos := 0x2E, Suc pos := 0x2E, Suc (Suc pos) := 0x2E], sm_len = pos + 3,
            sm_strategy = FirstSentences, sm_original_len = length content\<rparr>
      else \<lparr>sm_content = buf, sm_len = pos, sm_strategy = FirstSentences, sm_original_len = length content\<rparr>)"
    using l m(1,2,4) by (simp add: summarize_first_sentences_def Let_def MAX_SUMMARY_LEN_def)
  have "summary_ok (summarize_first_sentences s content)" unfolding b using m(4,5) by (simp add: summary_ok_def MAX_SUMMARY_LEN_def)
  moreover have "sm_as_bytes (summarize_first_sentences s content)
      = SUMMARY_PREFIX @ take m content @ (if m < length content then ELLIPSIS else [])"
    unfolding b using m(4-6) take_three_dots [of pos buf] by (simp add: sm_as_bytes_def MAX_SUMMARY_LEN_def)
  ultimately show ?thesis using m by (intro exI [of _ m]) auto
qed

lemma add_phrase_ok:
  assumes "length (ph_buf st) = MAX_SUMMARY_LEN" "ph_out_pos st \<le> MAX_SUMMARY_LEN"
  shows "length (ph_buf (add_phrase w st)) = MAX_SUMMARY_LEN \<and> ph_out_pos (add_phrase w st) \<le> MAX_SUMMARY_LEN"
  using assms by (auto simp: add_phrase_def Let_def min_def)

lemma phrase_step_ok:
  assumes "length (ph_buf st) = MAX_SUMMARY_LEN" "ph_out_pos st \<le> MAX_SUMMARY_LEN"
  shows "length (ph_buf (phrase_step content i st)) = MAX_SUMMARY_LEN \<and> ph_out_pos (phrase_step content i st) \<le> MAX_SUMMARY_LEN"
  using assms add_phrase_ok [OF assms] by (simp add: phrase_step_def Let_def)

lemma summarize_truncate_ok: "summary_ok (summarize_truncate scaled content)"
proof -
  have "length (copy_into 10 (take k content) (copy_into 0 SUMMARY_PREFIX (replicate 512 0))) = 512" if "k \<le> 502" for k
    using that by (simp add: copy_into_def)
  then show ?thesis by (auto simp: summarize_truncate_def Let_def summary_ok_def MAX_SUMMARY_LEN_def)
qed

lemma summarize_key_phrases_ok: "summary_ok (summarize_key_phrases content)"
proof -
  have "length (ph_buf (fold (phrase_step content) is st)) = MAX_SUMMARY_LEN \<and> ph_out_pos (fold (phrase_step content) is st) \<le> MAX_SUMMARY_LEN"
    if "length (ph_buf st) = MAX_SUMMARY_LEN" "ph_out_pos st \<le> MAX_SUMMARY_LEN" for "is" st
    using that by (induction "is" arbitrary: st) (simp_all add: phrase_step_ok)
  then show ?thesis by (simp add: summarize_key_phrases_def Let_def summary_ok_def MAX_SUMMARY_LEN_def)
qed

text \<open>
  (C34) With the strategy of the kernel a summary is the mark, a beginning of the text, and an ellipsis exactly
  when something of the text is left out. The beginning is the shortest that reaches the given number of sentences; it is cut at
  499 bytes, and it is the whole text when that has fewer sentences. Every summary of every strategy fits its buffer.
\<close>

theorem summary_is_beginning:
  assumes "su_initialized s" "content \<noteq> []"
  shows "summary_ok (summarize scaled s content)
    \<and> (su_strategy s = FirstSentences \<longrightarrow>
        (\<exists>m \<le> length content. m \<le> 499
          \<and> sm_as_bytes (summarize scaled s content)
              = SUMMARY_PREFIX @ take m content @ (if m < length content then ELLIPSIS else [])
          \<and> (\<forall>m' < m. sentences_in content m' < su_max_sentences s)
          \<and> (m = length content \<or> sentences_in content m \<ge> su_max_sentences s \<or> m = 499)))"
  using assms first_sentences_bytes [of content s] summarize_truncate_ok summarize_key_phrases_ok
  by (cases "su_strategy s") (auto simp: summarize_def)

text \<open>A text of two sentences comes back whole behind the mark.\<close>

theorem summary_is_beginning_witness:
  "sm_as_bytes (summarize id (summarizer_init summarizer_new) (ascii ''Pay 5. Now.'')) = ascii ''[SUMMARY] Pay 5. Now.''
   \<and> summary_ok (summarize id (summarizer_init summarizer_new) (ascii ''Pay 5. Now.''))"
proof -
  have "sm_as_bytes (summarize id (summarizer_init summarizer_new) (ascii ''Pay 5. Now.'')) = ascii ''[SUMMARY] Pay 5. Now.''"
    by code_simp
  then show ?thesis using summary_is_beginning [of "summarizer_init summarizer_new" "ascii ''Pay 5. Now.''" id]
    by (simp add: summarizer_init_def ascii_def)
qed

end
