(* ===== verification/Llm_Context.thy ===== *)
theory Llm_Context
  imports Context_Redact Summarize
begin

text \<open>
  The context of a language-model request: \<^verbatim>\<open>src/kernel-core/src/llm/context_builder.rs\<close> and the error codes of
  \<^verbatim>\<open>src/kernel-core/src/llm/mod.rs\<close>. Each object goes in verbatim, summarised or redacted, according to its tier.
  A relevance score (\<^verbatim>\<open>f32\<close>) is only stored: it is its bit pattern. \<open>None\<close> is the panic of an index outside
  the result array.
\<close>

section \<open>Definitions\<close>

definition MAX_CONTEXT_ENTRIES :: nat where "MAX_CONTEXT_ENTRIES = 64"
definition MAX_CONTEXT_SIZE :: nat where "MAX_CONTEXT_SIZE = 32768"

datatype llm_error =
    NotInitialized | AccessDenied | ContextTooLarge | NoResults | ProviderUnavailable | PendingEscalation
  | InvalidRequest | InternalError

fun to_error_code :: "llm_error \<Rightarrow> int" where
  "to_error_code NotInitialized = -50"
| "to_error_code AccessDenied = -51"
| "to_error_code ContextTooLarge = -52"
| "to_error_code NoResults = -53"
| "to_error_code ProviderUnavailable = -54"
| "to_error_code PendingEscalation = -55"
| "to_error_code InvalidRequest = -56"
| "to_error_code InternalError = -57"

definition effective_llm_tier :: "security_tier \<Rightarrow> u8 \<Rightarrow> security_tier option" where
  "effective_llm_tier object_tier requester_max_tier =
     (if tier_value object_tier > requester_max_tier then None else Some object_tier)"

datatype content_processing = Verbatim | Summarized | Redacted | Excluded

record context_entry =
  ce_suid_high :: u64
  ce_suid_low :: u64
  ce_original_tier :: u8
  ce_processing :: content_processing
  ce_relevance :: u32
  ce_content :: "u8 list"
  ce_content_len :: nat

definition entry_empty :: context_entry where
  "entry_empty = \<lparr>ce_suid_high = 0, ce_suid_low = 0, ce_original_tier = 0, ce_processing = Excluded, ce_relevance = 0,
     ce_content = replicate MAX_ENTRY_SIZE 0, ce_content_len = 0\<rparr>"

definition entry_new :: "suid \<Rightarrow> security_tier \<Rightarrow> content_processing \<Rightarrow> u32 \<Rightarrow> u8 list \<Rightarrow> context_entry" where
  "entry_new s t processing relevance content =
     (let copy_len = min (length content) MAX_ENTRY_SIZE
      in entry_empty\<lparr>ce_suid_high := high s, ce_suid_low := low s, ce_original_tier := tier_value t,
           ce_processing := processing, ce_relevance := relevance,
           ce_content := copy_into 0 (take copy_len content) (ce_content entry_empty), ce_content_len := copy_len\<rparr>)"

definition entry_content :: "context_entry \<Rightarrow> u8 list" where
  "entry_content en = take (ce_content_len en) (ce_content en)"

definition has_content :: "context_entry \<Rightarrow> bool" where
  "has_content en = (ce_content_len en > 0)"

record llm_context =
  lc_entries :: "context_entry list"
  lc_count :: nat
  lc_total_size :: nat
  lc_requester_tier :: u8

definition context_new :: llm_context where
  "context_new = \<lparr>lc_entries = replicate MAX_CONTEXT_ENTRIES entry_empty, lc_count = 0, lc_total_size = 0, lc_requester_tier = 0\<rparr>"

definition add_entry :: "context_entry \<Rightarrow> llm_context \<Rightarrow> llm_context \<times> bool" where
  "add_entry en c =
     (if lc_count c \<ge> MAX_CONTEXT_ENTRIES then (c, False)
      else let new_size = lc_total_size c + ce_content_len en
           in if new_size > MAX_CONTEXT_SIZE then (c, False)
              else (c\<lparr>lc_entries := (lc_entries c)[lc_count c := en], lc_count := lc_count c + 1,
                      lc_total_size := new_size\<rparr>, True))"

definition context_get :: "llm_context \<Rightarrow> nat \<Rightarrow> context_entry option" where
  "context_get c i = (if i < lc_count c then Some (lc_entries c ! i) else None)"

definition context_iter :: "llm_context \<Rightarrow> context_entry list" where
  "context_iter c = take (lc_count c) (lc_entries c)"

record context_stats =
  cs_total_entries :: nat
  cs_total_size :: nat
  cs_verbatim_count :: nat
  cs_summarized_count :: nat
  cs_redacted_count :: nat
  cs_excluded_count :: nat

definition count_entry :: "context_entry \<Rightarrow> context_stats \<Rightarrow> context_stats" where
  "count_entry en st =
     (case ce_processing en of
        Verbatim \<Rightarrow> st\<lparr>cs_verbatim_count := cs_verbatim_count st + 1\<rparr>
      | Summarized \<Rightarrow> st\<lparr>cs_summarized_count := cs_summarized_count st + 1\<rparr>
      | Redacted \<Rightarrow> st\<lparr>cs_redacted_count := cs_redacted_count st + 1\<rparr>
      | Excluded \<Rightarrow> st\<lparr>cs_excluded_count := cs_excluded_count st + 1\<rparr>)"

definition context_statistics :: "llm_context \<Rightarrow> context_stats" where
  "context_statistics c =
     fold count_entry (context_iter c)
       \<lparr>cs_total_entries = lc_count c, cs_total_size = lc_total_size c, cs_verbatim_count = 0,
        cs_summarized_count = 0, cs_redacted_count = 0, cs_excluded_count = 0\<rparr>"

text \<open>The builder with the global redactor and summariser that it calls.\<close>

record context_builder =
  cb_initialized :: bool
  cb_redactor :: redactor
  cb_summarizer :: summarizer
  cb_scaled :: "nat \<Rightarrow> nat"

definition builder_init :: "context_builder \<Rightarrow> context_builder" where
  "builder_init b = b\<lparr>cb_initialized := True\<rparr>"

definition process_object :: "context_builder \<Rightarrow> semantic_object \<Rightarrow> u32 \<Rightarrow> llm_error + context_entry" where
  "process_object b ob relevance =
     (let content = (case as_bytes (ob_content ob) of Some bs \<Rightarrow> bs | None \<Rightarrow> []);
          en = entry_empty\<lparr>ce_suid_high := high (ob_suid ob), ce_suid_low := low (ob_suid ob),
                 ce_original_tier := tier_value (ob_tier ob), ce_relevance := relevance\<rparr>
      in case ob_tier ob of
           Public \<Rightarrow>
             (let copy_len = min (length content) MAX_ENTRY_SIZE
              in Inr (en\<lparr>ce_processing := Verbatim, ce_content := copy_into 0 (take copy_len content) (ce_content en),
                          ce_content_len := copy_len\<rparr>))
         | Internal \<Rightarrow>
             (let summary_bytes = sm_as_bytes (summarize (cb_scaled b) (cb_summarizer b) content);
                  copy_len = min (length summary_bytes) MAX_ENTRY_SIZE
              in Inr (en\<lparr>ce_processing := Summarized,
                          ce_content := copy_into 0 (take copy_len summary_bytes) (ce_content en), ce_content_len := copy_len\<rparr>))
         | Sensitive \<Rightarrow>
             (let (buf, redacted_len) = redact (cb_redactor b) content (ce_content en)
              in Inr (en\<lparr>ce_processing := Redacted, ce_content := buf, ce_content_len := redacted_len\<rparr>))
         | Secret \<Rightarrow> Inl AccessDenied)"

text \<open>
  The loop of both builders over identifiers with their scores; the flag says that it was left by
  \<^verbatim>\<open>break\<close>, because an entry did not fit.
\<close>

fun build_loop ::
  "context_builder \<Rightarrow> registry \<Rightarrow> u8 \<Rightarrow> (suid \<times> u32) list \<Rightarrow> llm_context \<Rightarrow> llm_error + llm_context \<times> bool" where
  "build_loop b reg requester_tier [] c = Inr (c, False)"
| "build_loop b reg requester_tier ((s, score) # rest) c =
     (case reg_get reg s of
        None \<Rightarrow> build_loop b reg requester_tier rest c
      | Some ob \<Rightarrow>
          (if tier_value (ob_tier ob) > requester_tier then build_loop b reg requester_tier rest c
           else case process_object b ob score of
                  Inl e \<Rightarrow> Inl e
                | Inr en \<Rightarrow>
                    (case add_entry en c of
                       (c', True) \<Rightarrow> build_loop b reg requester_tier rest c'
                     | (c', False) \<Rightarrow> Inr (c', True))))"

definition nonempty_context :: "llm_context \<Rightarrow> llm_error + llm_context" where
  "nonempty_context c = (if lc_count c = 0 then Inl NoResults else Inr c)"

definition build_from_search ::
  "context_builder \<Rightarrow> registry \<Rightarrow> (u64 \<times> u64 \<times> u32) list \<Rightarrow> nat \<Rightarrow> u8 \<Rightarrow> (llm_error + llm_context) option" where
  "build_from_search b reg results result_count requester_tier =
     (if \<not> cb_initialized b then Some (Inl NotInitialized)
      else case build_loop b reg requester_tier
                  (map (\<lambda>(h, l, score). (suid_new h l, score)) (take result_count results))
                  (context_new\<lparr>lc_requester_tier := requester_tier\<rparr>) of
             Inl e \<Rightarrow> Some (Inl e)
           | Inr (c, stopped) \<Rightarrow>
               (if \<not> stopped \<and> result_count > length results then None else Some (nonempty_context c)))"

definition F32_ONE :: u32 where "F32_ONE = 0x3F800000"

definition build_from_suids ::
  "context_builder \<Rightarrow> registry \<Rightarrow> (u64 \<times> u64) list \<Rightarrow> u8 \<Rightarrow> llm_error + llm_context" where
  "build_from_suids b reg suids requester_tier =
     (if \<not> cb_initialized b then Inl NotInitialized
      else and_then (build_loop b reg requester_tier (map (\<lambda>(h, l). (suid_new h l, F32_ONE)) suids)
                       (context_new\<lparr>lc_requester_tier := requester_tier\<rparr>))
             (\<lambda>(c, stopped). nonempty_context c))"

section \<open>What a context holds\<close>

text \<open>The text of an object as the model may see it.\<close>

definition object_bytes :: "semantic_object \<Rightarrow> u8 list" where
  "object_bytes ob = (case as_bytes (ob_content ob) of Some bs \<Rightarrow> bs | None \<Rightarrow> [])"

definition entry_of :: "context_builder \<Rightarrow> semantic_object \<Rightarrow> context_entry \<Rightarrow> bool" where
  "entry_of b ob en =
     (ce_suid_high en = high (ob_suid ob) \<and> ce_suid_low en = low (ob_suid ob) \<and> ce_original_tier en = tier_value (ob_tier ob)
      \<and> length (entry_content en) = ce_content_len en \<and> ce_content_len en \<le> MAX_ENTRY_SIZE
      \<and> (case ob_tier ob of
           Public \<Rightarrow> ce_processing en = Verbatim \<and> entry_content en = take MAX_ENTRY_SIZE (object_bytes ob)
         | Internal \<Rightarrow> ce_processing en = Summarized
             \<and> entry_content en = sm_as_bytes (summarize (cb_scaled b) (cb_summarizer b) (object_bytes ob))
         | Sensitive \<Rightarrow> ce_processing en = Redacted \<and> pii_free (entry_content en)
             \<and> entry_content en = written 0 (redact (cb_redactor b) (object_bytes ob) (replicate MAX_ENTRY_SIZE 0))
         | Secret \<Rightarrow> False))"

lemma summary_small: "length (sm_as_bytes (summarize scaled s content)) \<le> 512"
proof -
  have "summary_ok (summarize scaled s content)"
  proof (cases "su_initialized s \<and> content \<noteq> []")
    case True
    then show ?thesis using first_sentences_bytes [of content s] summarize_truncate_ok summarize_key_phrases_ok
      by (cases "su_strategy s") (auto simp: summarize_def)
  next
    case False
    then have "summarize scaled s content = summary_empty" by (auto simp: summarize_def)
    then show ?thesis by (simp add: summary_ok_def summary_empty_def)
  qed
  then show ?thesis by (simp add: summary_ok_def sm_as_bytes_def MAX_SUMMARY_LEN_def)
qed

lemma redact_frame:
  assumes "redact r input out = (out', n)"
  shows "length out' = length out \<and> n \<le> length out"
  using assms replace_loop_frame [of "match_pattern r" input out 0 out' n] by (auto simp: redact_def split: if_splits)

lemma process_object_entry:
  assumes "process_object b ob relevance = Inr en"
  shows "entry_of b ob en"
proof (cases "ob_tier ob")
  case Public
  then show ?thesis using assms
    by (auto simp: process_object_def Let_def entry_of_def entry_content_def entry_empty_def copy_into_def object_bytes_def min_def)
next
  case Internal
  note small = summary_small [of "cb_scaled b" "cb_summarizer b" "object_bytes ob"]
  show ?thesis using assms Internal small
    by (auto simp: process_object_def Let_def entry_of_def entry_content_def entry_empty_def copy_into_def MAX_ENTRY_SIZE_def
        object_bytes_def [symmetric] min_def)
next
  case Sensitive
  obtain buf n where r: "redact (cb_redactor b) (object_bytes ob) (replicate MAX_ENTRY_SIZE 0) = (buf, n)" by force
  then have "en = entry_empty\<lparr>ce_suid_high := high (ob_suid ob), ce_suid_low := low (ob_suid ob),
      ce_original_tier := tier_value Sensitive, ce_relevance := relevance, ce_processing := Redacted, ce_content := buf, ce_content_len := n\<rparr>"
    using assms Sensitive by (simp add: process_object_def Let_def entry_empty_def object_bytes_def [symmetric])
  then show ?thesis using redact_frame [OF r] Sensitive r redact_clean(1) [of "cb_redactor b" "object_bytes ob" "replicate MAX_ENTRY_SIZE 0"]
    by (simp add: entry_of_def entry_content_def written_def)
qed (use assms in \<open>simp add: process_object_def\<close>)

text \<open>The accounting of a context and the origin of its entries.\<close>

definition context_ok :: "context_builder \<Rightarrow> registry \<Rightarrow> u8 \<Rightarrow> suid set \<Rightarrow> llm_context \<Rightarrow> bool" where
  "context_ok b reg requester_tier keys c =
     (length (lc_entries c) = MAX_CONTEXT_ENTRIES \<and> lc_count c \<le> MAX_CONTEXT_ENTRIES
      \<and> lc_total_size c = sum_list (map ce_content_len (context_iter c)) \<and> lc_total_size c \<le> MAX_CONTEXT_SIZE
      \<and> lc_requester_tier c = requester_tier
      \<and> (\<forall>en \<in> set (context_iter c). \<exists>s \<in> keys. \<exists>ob. reg_get reg s = Some ob
           \<and> tier_value (ob_tier ob) \<le> requester_tier \<and> entry_of b ob en))"

lemma add_entry_ok:
  assumes "context_ok b reg t keys c" "s \<in> keys" "reg_get reg s = Some ob" "tier_value (ob_tier ob) \<le> t" "entry_of b ob en"
  shows "context_ok b reg t keys (fst (add_entry en c))"
proof -
  have "context_iter (c\<lparr>lc_entries := (lc_entries c)[lc_count c := en], lc_count := Suc (lc_count c), lc_total_size := n\<rparr>)
      = context_iter c @ [en]" if "lc_count c < length (lc_entries c)" for n
    using that by (simp add: context_iter_def take_Suc_conv_app_nth)
  then show ?thesis using assms by (auto simp: add_entry_def Let_def context_ok_def)
qed

lemma build_loop_ok:
  assumes "build_loop b reg t ks c = Inr (c', stopped)" "context_ok b reg t keys c" "fst ` set ks \<subseteq> keys"
  shows "context_ok b reg t keys c'"
  using assms
proof (induction b reg t ks c rule: build_loop.induct)
  case (2 b reg t s score rest c)
  show ?case
  proof (cases "reg_get reg s")
    case None
    then show ?thesis using 2(1) [OF None] 2(4-6) by simp
  next
    case (Some ob)
    show ?thesis
    proof (cases "tier_value (ob_tier ob) > t")
      case True
      then show ?thesis using 2(2) [OF Some True] Some 2(4-6) by simp
    next
      case False
      then obtain en where en: "process_object b ob score = Inr en" using 2(4) Some by (auto split: sum.splits)
      have ok: "context_ok b reg t keys (fst (add_entry en c))"
        using add_entry_ok [OF 2(5) _ Some _ process_object_entry [OF en]] False 2(6) by simp
      obtain c2 more where a: "add_entry en c = (c2, more)" by force
      show ?thesis
      proof (cases more)
        case True
        have "build_loop b reg t rest c2 = Inr (c', stopped)" using 2(4) Some False en a True by simp
        then show ?thesis using 2(3) [OF Some False en] ok 2(6) a True by simp
      next
        case f: False
        then show ?thesis using 2(4) Some False en a ok by simp
      qed
    qed
  qed
qed simp

lemma context_new_ok: "context_ok b reg t keys (context_new\<lparr>lc_requester_tier := t\<rparr>)"
  by (simp add: context_ok_def context_new_def context_iter_def)

text \<open>
  (C22) A context built for a requester holds only objects that were asked for, that exist and whose tier the
  requester may see; a public object is there verbatim (its first 4096 bytes), an internal one as its
  summary, a sensitive one redacted, and no entry comes from a secret object. The entries and their sizes
  are counted exactly and stay within the limits.
\<close>

theorem context_respects_tiers:
  assumes "build_from_suids b reg suids t = Inr c"
  shows "context_ok b reg t ((\<lambda>(h, l). suid_new h l) ` set suids) c \<and> 0 < lc_count c"
proof -
  have i: "cb_initialized b" using assms by (auto simp: build_from_suids_def split: if_splits)
  then obtain c' stopped where l: "build_loop b reg t (map (\<lambda>(h, l). (suid_new h l, F32_ONE)) suids) (context_new\<lparr>lc_requester_tier := t\<rparr>)
      = Inr (c', stopped)" and n: "nonempty_context c' = Inr c"
    using assms by (auto simp: build_from_suids_def)
  then have "c' = c" "0 < lc_count c" by (auto simp: nonempty_context_def split: if_splits)
  moreover have "fst ` set (map (\<lambda>(h, l). (suid_new h l, F32_ONE)) suids) \<subseteq> (\<lambda>(h, l). suid_new h l) ` set suids" by force
  ultimately show ?thesis using build_loop_ok [OF l context_new_ok] by blast
qed

lemma registry_of_one: "\<exists>r. reg_inv r \<and> reg_map r = [ob_suid ob \<mapsto> ob] \<and> reg_get r = [ob_suid ob \<mapsto> ob]"
proof -
  obtain jr r ok where r: "reg_insert (None :: unit journal option) reg_new ob = (jr, r, ok)" by (metis prod_cases3)
  note e = reg_insert_effect [OF reg_inv_new(1) r]
  have "rg_count reg_new \<noteq> MAX_OBJECTS" "on_insert (None :: unit journal option) ob = (None, True)"
    by (simp_all add: reg_new_def MAX_OBJECTS_def on_insert_def journal_hook_def)
  then have ok using e(3) reg_inv_new(2) by auto
  then have "reg_map r = [ob_suid ob \<mapsto> ob]" using e(2) reg_inv_new(2) by simp
  moreover have "reg_get r = reg_map r" using reg_get_map [OF e(1)] by (simp add: fun_eq_iff)
  ultimately show ?thesis using e(1) by metis
qed

text \<open>An internal object without content goes into the context of a requester of tier 1 as an empty summary.\<close>

theorem context_respects_tiers_witness:
  "\<exists>reg c. build_from_suids \<lparr>cb_initialized = True, cb_redactor = redactor_new, cb_summarizer = summarizer_new, cb_scaled = id\<rparr>
       reg [(1, 2)] 1 = Inr c
     \<and> context_ok \<lparr>cb_initialized = True, cb_redactor = redactor_new, cb_summarizer = summarizer_new, cb_scaled = id\<rparr>
         reg 1 {suid_new 1 2} c \<and> 0 < lc_count c"
proof -
  let ?b = "\<lparr>cb_initialized = True, cb_redactor = redactor_new, cb_summarizer = summarizer_new, cb_scaled = id\<rparr>"
  let ?ob = "ob_new (suid_new 1 2) Internal 0"
  obtain reg where g: "reg_get reg = [suid_new 1 2 \<mapsto> ?ob]" using registry_of_one [of ?ob] by (auto simp: ob_new_def)
  have "\<exists>c. build_from_suids ?b reg [(1, 2)] 1 = Inr c"
    by (simp add: build_from_suids_def g ob_new_def process_object_def summarize_def summarizer_new_def summary_empty_def
        sm_as_bytes_def add_entry_def context_new_def entry_empty_def nonempty_context_def MAX_CONTEXT_ENTRIES_def MAX_CONTEXT_SIZE_def Let_def)
  then obtain c where c: "build_from_suids ?b reg [(1, 2)] 1 = Inr c" by blast
  then show ?thesis using context_respects_tiers [OF c] by auto
qed

text \<open>
  A secret object that the requester may see is not left out, as the documentation says: it ends the whole
  request with an error.
\<close>

lemma secret_object_refuses_context:
  assumes "cb_initialized b" "reg_get reg (suid_new h l) = Some ob" "ob_tier ob = Secret" "3 \<le> t"
  shows "build_from_suids b reg ((h, l) # suids) t = Inl AccessDenied"
  using assms leD [OF assms(4)] by (simp add: build_from_suids_def process_object_def)

end
