(* ===== verification/Escalation.thy ===== *)
theory Escalation
  imports Llm_Context Slot_Table
begin

text \<open>
  Requests for a higher tier: \<^verbatim>\<open>src/kernel-core/src/llm/access_request.rs\<close>. A queue of 32 slots holds the
  requests with their state; a request is pending until it is approved, denied, cancelled or expired. The
  clock \<^verbatim>\<open>platform::ticks()\<close> is an argument. Request numbers and times are 64-bit words that wrap, as
  in a build without overflow checks.
\<close>

section \<open>Definitions\<close>

definition MAX_PENDING_REQUESTS :: nat where "MAX_PENDING_REQUESTS = 32"
definition MAX_JUSTIFICATION_LEN :: nat where "MAX_JUSTIFICATION_LEN = 256"

datatype request_status = Pending | Approved | Denied | Expired | Cancelled
datatype access_decision = Grant | DenyAccess | GrantRedacted | GrantSummary

record access_request =
  ar_id :: u64
  ar_requester_id :: u8
  ar_current_tier :: u8
  ar_requested_tier :: u8
  ar_target_suid_high :: u64
  ar_target_suid_low :: u64
  ar_is_specific :: bool
  ar_status :: request_status
  ar_justification :: "u8 list"
  ar_justification_len :: nat
  ar_created_at :: u64
  ar_decided_at :: u64
  ar_decision :: access_decision
  ar_grant_duration :: u64

definition request_empty :: access_request where
  "request_empty = \<lparr>ar_id = 0, ar_requester_id = 0, ar_current_tier = 0, ar_requested_tier = 0, ar_target_suid_high = 0,
     ar_target_suid_low = 0, ar_is_specific = False, ar_status = Pending,
     ar_justification = replicate MAX_JUSTIFICATION_LEN 0, ar_justification_len = 0, ar_created_at = 0,
     ar_decided_at = 0, ar_decision = DenyAccess, ar_grant_duration = 0\<rparr>"

definition set_justification :: "u8 list \<Rightarrow> access_request \<Rightarrow> access_request" where
  "set_justification justification r =
     (let just_len = min (length justification) MAX_JUSTIFICATION_LEN
      in r\<lparr>ar_justification := copy_into 0 (take just_len justification) (ar_justification r),
           ar_justification_len := just_len\<rparr>)"

definition for_object :: "u8 \<Rightarrow> u8 \<Rightarrow> u8 \<Rightarrow> suid \<Rightarrow> u8 list \<Rightarrow> access_request" where
  "for_object requester_id current_tier requested_tier s justification =
     set_justification justification
       (request_empty\<lparr>ar_requester_id := requester_id, ar_current_tier := current_tier, ar_requested_tier := requested_tier,
          ar_target_suid_high := high s, ar_target_suid_low := low s, ar_is_specific := True\<rparr>)"

definition for_tier :: "u8 \<Rightarrow> u8 \<Rightarrow> u8 \<Rightarrow> u8 list \<Rightarrow> access_request" where
  "for_tier requester_id current_tier requested_tier justification =
     set_justification justification
       (request_empty\<lparr>ar_requester_id := requester_id, ar_current_tier := current_tier, ar_requested_tier := requested_tier,
          ar_is_specific := False\<rparr>)"

definition justification :: "access_request \<Rightarrow> u8 list" where
  "justification r = take (ar_justification_len r) (ar_justification r)"

definition is_pending :: "access_request \<Rightarrow> bool" where
  "is_pending r = (ar_status r = Pending)"

definition is_granted :: "access_request \<Rightarrow> bool" where
  "is_granted r = (ar_status r = Approved \<and> (ar_decision r = Grant \<or> ar_decision r = GrantRedacted \<or> ar_decision r = GrantSummary))"

definition target_suid :: "access_request \<Rightarrow> suid option" where
  "target_suid r = (if ar_is_specific r then Some (suid_new (ar_target_suid_high r) (ar_target_suid_low r)) else None)"

record escalation_queue =
  eq_requests :: "access_request list"
  eq_count :: nat
  eq_next_id :: u64
  eq_initialized :: bool

definition queue_new :: escalation_queue where
  "queue_new = \<lparr>eq_requests = replicate MAX_PENDING_REQUESTS request_empty, eq_count = 0, eq_next_id = 1, eq_initialized = False\<rparr>"

definition queue_init :: "escalation_queue \<Rightarrow> escalation_queue" where
  "queue_init q = q\<lparr>eq_initialized := True\<rparr>"

definition find_free_slot :: "escalation_queue \<Rightarrow> nat option" where
  "find_free_slot q = position (\<lambda>r. ar_id r = 0) (eq_requests q)"

definition submit :: "u64 \<Rightarrow> access_request \<Rightarrow> escalation_queue \<Rightarrow> escalation_queue \<times> (llm_error + u64)" where
  "submit ticks request q =
     (if \<not> eq_initialized q then (q, Inl NotInitialized)
      else case find_free_slot q of
             None \<Rightarrow> (q, Inl InternalError)
           | Some slot \<Rightarrow>
               (let request = request\<lparr>ar_id := eq_next_id q, ar_created_at := ticks, ar_status := Pending\<rparr>
                in (q\<lparr>eq_requests := (eq_requests q)[slot := request], eq_count := eq_count q + 1,
                       eq_next_id := eq_next_id q + 1\<rparr>, Inr (ar_id request))))"

definition request_slot :: "u64 \<Rightarrow> escalation_queue \<Rightarrow> nat option" where
  "request_slot rid q = position (\<lambda>r. ar_id r = rid \<and> ar_id r \<noteq> 0) (eq_requests q)"

definition get_request :: "u64 \<Rightarrow> escalation_queue \<Rightarrow> access_request option" where
  "get_request rid q = map_option ((!) (eq_requests q)) (request_slot rid q)"

text \<open>\<^verbatim>\<open>get_mut\<close> and the checks and changes that the caller makes through the reference.\<close>

definition change_request ::
  "u64 \<Rightarrow> (access_request \<Rightarrow> llm_error + access_request) \<Rightarrow> escalation_queue \<Rightarrow> escalation_queue \<times> (llm_error + unit)" where
  "change_request rid f q =
     (case request_slot rid q of
        None \<Rightarrow> (q, Inl InvalidRequest)
      | Some i \<Rightarrow>
          (case f (eq_requests q ! i) of
             Inl e \<Rightarrow> (q, Inl e)
           | Inr r \<Rightarrow> (q\<lparr>eq_requests := (eq_requests q)[i := r]\<rparr>, Inr ())))"

definition approve :: "u64 \<Rightarrow> u64 \<Rightarrow> access_decision \<Rightarrow> u64 \<Rightarrow> escalation_queue \<Rightarrow> escalation_queue \<times> (llm_error + unit)" where
  "approve ticks rid decision duration q =
     change_request rid (\<lambda>r.
       if ar_status r \<noteq> Pending then Inl InvalidRequest
       else Inr (r\<lparr>ar_status := Approved, ar_decision := decision, ar_grant_duration := duration, ar_decided_at := ticks\<rparr>)) q"

definition deny :: "u64 \<Rightarrow> u64 \<Rightarrow> escalation_queue \<Rightarrow> escalation_queue \<times> (llm_error + unit)" where
  "deny ticks rid q =
     change_request rid (\<lambda>r.
       if ar_status r \<noteq> Pending then Inl InvalidRequest
       else Inr (r\<lparr>ar_status := Denied, ar_decision := DenyAccess, ar_decided_at := ticks\<rparr>)) q"

definition cancel :: "u64 \<Rightarrow> u64 \<Rightarrow> u8 \<Rightarrow> escalation_queue \<Rightarrow> escalation_queue \<times> (llm_error + unit)" where
  "cancel ticks rid requester_id q =
     change_request rid (\<lambda>r.
       if ar_requester_id r \<noteq> requester_id then Inl AccessDenied
       else if ar_status r \<noteq> Pending then Inl InvalidRequest
       else Inr (r\<lparr>ar_status := Cancelled, ar_decided_at := ticks\<rparr>)) q"

definition expire_old :: "u64 \<Rightarrow> u64 \<Rightarrow> escalation_queue \<Rightarrow> escalation_queue" where
  "expire_old now max_age_ticks q =
     q\<lparr>eq_requests := map (\<lambda>r.
          if ar_id r \<noteq> 0 \<and> ar_status r = Pending \<and> now - ar_created_at r > max_age_ticks
          then r\<lparr>ar_status := Expired, ar_decided_at := now\<rparr> else r) (eq_requests q)\<rparr>"

definition pending_for_requester :: "u8 \<Rightarrow> escalation_queue \<Rightarrow> access_request list" where
  "pending_for_requester requester_id q =
     filter (\<lambda>r. ar_id r \<noteq> 0 \<and> ar_status r = Pending \<and> ar_requester_id r = requester_id) (eq_requests q)"

definition all_pending :: "escalation_queue \<Rightarrow> access_request list" where
  "all_pending q = filter (\<lambda>r. ar_id r \<noteq> 0 \<and> ar_status r = Pending) (eq_requests q)"

definition finished :: "access_request \<Rightarrow> bool" where
  "finished r = (ar_id r \<noteq> 0 \<and> (ar_status r = Cancelled \<or> ar_status r = Expired \<or> ar_status r = Denied))"

definition cleanup :: "escalation_queue \<Rightarrow> escalation_queue" where
  "cleanup q =
     q\<lparr>eq_requests := map (\<lambda>r. if finished r then request_empty else r) (eq_requests q),
       eq_count := eq_count q - length (filter finished (eq_requests q))\<rparr>"

definition pending_count :: "escalation_queue \<Rightarrow> nat" where
  "pending_count q = length (filter (\<lambda>r. ar_id r \<noteq> 0 \<and> ar_status r = Pending) (eq_requests q))"

section \<open>Histories of the queue\<close>

inductive esc_step :: "escalation_queue \<Rightarrow> escalation_queue \<Rightarrow> bool" where
  esc_init: "esc_step q (queue_init q)"
| esc_submit: "esc_step q (fst (submit ticks request q))"
| esc_approve: "esc_step q (fst (approve ticks rid decision duration q))"
| esc_deny: "esc_step q (fst (deny ticks rid q))"
| esc_cancel: "esc_step q (fst (cancel ticks rid requester q))"
| esc_expire: "esc_step q (expire_old now max_age q)"
| esc_cleanup: "esc_step q (cleanup q)"

definition live_request :: "access_request \<Rightarrow> bool" where
  "live_request r = (ar_id r \<noteq> 0)"

definition queue_inv :: "escalation_queue \<Rightarrow> bool" where
  "queue_inv q =
     (length (eq_requests q) = MAX_PENDING_REQUESTS \<and> slot_uniq live_request ar_id (eq_requests q)
      \<and> eq_count q = live_count live_request (eq_requests q) \<and> eq_next_id q \<noteq> 0
      \<and> (\<forall>r \<in> set (eq_requests q). ar_id r < eq_next_id q))"

text \<open>\<open>decided r r'\<close>: \<open>r'\<close> is \<open>r\<close> with a final status.\<close>

definition decided :: "access_request \<Rightarrow> access_request \<Rightarrow> bool" where
  "decided r r' = (ar_status r' \<noteq> Pending
     \<and> (\<exists>st d g t. r' = r\<lparr>ar_status := st, ar_decision := d, ar_grant_duration := g, ar_decided_at := t\<rparr>))"

text \<open>What one step does to one slot.\<close>

definition slot_change :: "u64 \<Rightarrow> access_request \<Rightarrow> access_request \<Rightarrow> bool" where
  "slot_change next_id r r' =
     (r' = r \<or> (ar_id r = 0 \<and> ar_id r' = next_id \<and> ar_status r' = Pending)
      \<or> (ar_id r \<noteq> 0 \<and> ar_status r = Pending \<and> decided r r') \<or> (finished r \<and> r' = request_empty))"

interpretation esc_slots: slot_table live_request ar_id request_empty
  by unfold_locales (simp add: live_request_def request_empty_def)

lemma request_slot_Some:
  "request_slot rid q = Some i \<Longrightarrow> i < length (eq_requests q) \<and> ar_id (eq_requests q ! i) = rid \<and> rid \<noteq> 0"
  by (auto simp: request_slot_def dest: position_SomeD)

text \<open>\<open>decides q q'\<close>: one pending request of \<open>q\<close> has a final status in \<open>q'\<close>.\<close>

definition decides :: "escalation_queue \<Rightarrow> escalation_queue \<Rightarrow> bool" where
  "decides q q' = (\<exists>i r'. i < length (eq_requests q) \<and> ar_id (eq_requests q ! i) \<noteq> 0
     \<and> ar_status (eq_requests q ! i) = Pending \<and> decided (eq_requests q ! i) r' \<and> q' = q\<lparr>eq_requests := (eq_requests q)[i := r']\<rparr>)"

lemma change_request_decides:
  assumes "\<And>r r'. f r = Inr r' \<Longrightarrow> ar_status r = Pending \<and> decided r r'"
  shows "fst (change_request rid f q) = q \<or> decides q (fst (change_request rid f q))"
proof (cases "request_slot rid q")
  case (Some i)
  show ?thesis
  proof (cases "f (eq_requests q ! i)")
    case (Inr r')
    have "fst (change_request rid f q) = q\<lparr>eq_requests := (eq_requests q)[i := r']\<rparr>" by (simp add: change_request_def Some Inr)
    then show ?thesis unfolding decides_def using request_slot_Some [OF Some] assms [OF Inr]
      by (intro disjI2 exI [of _ i] exI [of _ r']) auto
  qed (simp add: change_request_def Some)
qed (simp add: change_request_def)

lemma decidedI: "r' = r\<lparr>ar_status := st, ar_decision := d, ar_grant_duration := g, ar_decided_at := t\<rparr> \<Longrightarrow> st \<noteq> Pending \<Longrightarrow> decided r r'"
  unfolding decided_def by auto

lemma decided_cases:
  "decided r (r\<lparr>ar_status := Approved, ar_decision := d, ar_grant_duration := g, ar_decided_at := t\<rparr>)"
  "decided r (r\<lparr>ar_status := Denied, ar_decision := d, ar_decided_at := t\<rparr>)"
  "decided r (r\<lparr>ar_status := Cancelled, ar_decided_at := t\<rparr>)" "decided r (r\<lparr>ar_status := Expired, ar_decided_at := t\<rparr>)"
  by (rule decidedI [where st = Approved and g = g and d = d and t = t],
      simp, simp, rule decidedI [where st = Denied and g = "ar_grant_duration r" and d = d and t = t], simp, simp,
      rule decidedI [where st = Cancelled and g = "ar_grant_duration r" and d = "ar_decision r" and t = t], simp, simp,
      rule decidedI [where st = Expired and g = "ar_grant_duration r" and d = "ar_decision r" and t = t], simp, simp)

lemma decision_steps:
  "fst (approve t rid d g q) = q \<or> decides q (fst (approve t rid d g q))"
  "fst (deny t rid q) = q \<or> decides q (fst (deny t rid q))"
  "fst (cancel t rid who q) = q \<or> decides q (fst (cancel t rid who q))"
  unfolding approve_def deny_def cancel_def
  by (rule change_request_decides, use decided_cases in \<open>force split: if_splits\<close>)+

lemma submit_slot:
  "fst (submit ticks request q) = q \<or> (\<exists>i r. i < length (eq_requests q) \<and> ar_id (eq_requests q ! i) = 0
     \<and> ar_id r = eq_next_id q \<and> ar_status r = Pending
     \<and> fst (submit ticks request q) = q\<lparr>eq_requests := (eq_requests q)[i := r], eq_count := eq_count q + 1, eq_next_id := eq_next_id q + 1\<rparr>)"
proof (cases "eq_initialized q")
  case init: True
  show ?thesis
  proof (cases "find_free_slot q")
    case (Some i)
    then show ?thesis using init position_SomeD [of "\<lambda>r. ar_id r = 0" "eq_requests q" i]
      by (intro disjI2 exI [of _ i] exI [of _ "request\<lparr>ar_id := eq_next_id q, ar_created_at := ticks, ar_status := Pending\<rparr>"])
         (simp add: submit_def find_free_slot_def)
  qed (simp add: submit_def init)
qed (simp add: submit_def)

lemma slot_change_put: "slot_change n (xs ! j) r \<Longrightarrow> i < length xs \<Longrightarrow> slot_change n (xs ! i) (xs[j := r] ! i)"
  by (cases "i = j") (auto simp: slot_change_def)

lemma decides_slot:
  assumes "decides q q'" "i < length (eq_requests q)"
  shows "slot_change n (eq_requests q ! i) (eq_requests q' ! i)"
proof -
  obtain j r' where j: "slot_change n (eq_requests q ! j) r'" "q' = q\<lparr>eq_requests := (eq_requests q)[j := r']\<rparr>"
    using assms(1) unfolding decides_def slot_change_def by blast
  then show ?thesis using slot_change_put [OF j(1) assms(2)] by simp
qed

lemma decides_frame: "decides q q' \<Longrightarrow> length (eq_requests q') = length (eq_requests q) \<and> eq_count q' = eq_count q \<and> eq_next_id q' = eq_next_id q"
  by (auto simp: decides_def)

lemma step_slot:
  assumes "esc_step q q'" "i < length (eq_requests q)"
  shows "slot_change (eq_next_id q) (eq_requests q ! i) (eq_requests q' ! i)"
  using assms(1)
proof cases
  case (esc_submit ticks request)
  show ?thesis
  proof (cases "q' = q")
    case False
    then obtain j r where "ar_id (eq_requests q ! j) = 0" "ar_id r = eq_next_id q" "ar_status r = Pending" "eq_requests q' = (eq_requests q)[j := r]"
      using submit_slot [of ticks request q] esc_submit by auto
    then show ?thesis using slot_change_put [of "eq_next_id q" "eq_requests q" j r i] assms(2) by (simp add: slot_change_def)
  qed (simp add: slot_change_def)
next
  case (esc_expire now max_age)
  then show ?thesis using assms(2) decided_cases(4) by (auto simp: slot_change_def expire_old_def)
next
  case (esc_approve t rid d g)
  then show ?thesis using decision_steps(1) [of t rid d g q] decides_slot [OF _ assms(2)] by (auto simp: slot_change_def)
next
  case (esc_deny t rid)
  then show ?thesis using decision_steps(2) [of t rid q] decides_slot [OF _ assms(2)] by (auto simp: slot_change_def)
next
  case (esc_cancel t rid who)
  then show ?thesis using decision_steps(3) [of t rid who q] decides_slot [OF _ assms(2)] by (auto simp: slot_change_def)
qed (use assms(2) in \<open>auto simp: slot_change_def queue_init_def cleanup_def\<close>)

lemma step_length: "esc_step q q' \<Longrightarrow> length (eq_requests q') = length (eq_requests q)"
proof (induction rule: esc_step.induct)
  case (esc_submit q ticks request)
  then show ?case using submit_slot [of ticks request q] by auto
next
  case (esc_approve q t rid d g)
  then show ?case using decision_steps(1) [of t rid d g q] decides_frame by auto
next
  case (esc_deny q t rid)
  then show ?case using decision_steps(2) [of t rid q] decides_frame by auto
next
  case (esc_cancel q t rid who)
  then show ?case using decision_steps(3) [of t rid who q] decides_frame by auto
qed (simp_all add: queue_init_def expire_old_def cleanup_def)

section \<open>The invariant\<close>

lemma decided_id: "decided r r' \<Longrightarrow> ar_id r' = ar_id r"
  by (auto simp: decided_def)

lemma slot_change_id: "slot_change n r r' \<Longrightarrow> ar_id r' = ar_id r \<or> (ar_id r = 0 \<and> ar_id r' = n) \<or> (finished r \<and> r' = request_empty)"
  by (auto simp: slot_change_def dest: decided_id)

lemma slot_change_id2: "slot_change n r r' \<Longrightarrow> ar_id r' \<noteq> 0 \<Longrightarrow> ar_id r' = ar_id r \<or> (ar_id r = 0 \<and> ar_id r' = n)"
  using slot_change_id [of n r r'] by (auto simp: request_empty_def)

lemma decides_uniq: "queue_inv q \<Longrightarrow> decides q q' \<Longrightarrow> slot_uniq live_request ar_id (eq_requests q')"
  by (auto simp: decides_def queue_inv_def slot_uniq_def nth_list_update live_request_def dest: decided_id split: if_splits)

lemma decides_count: "decides q q' \<Longrightarrow> live_count live_request (eq_requests q') = live_count live_request (eq_requests q)"
  unfolding decides_def using esc_slots.live_count_put_live [of _ "eq_requests q"] decided_id
  by (elim exE conjE) (simp add: live_request_def)

text \<open>Only a submission puts a new number in, and into one slot.\<close>

lemma step_uniq:
  assumes "queue_inv q" "esc_step q q'"
  shows "slot_uniq live_request ar_id (eq_requests q')"
  using assms(2)
proof cases
  case (esc_submit ticks request)
  show ?thesis
  proof (cases "q' = q")
    case False
    then obtain i r where r: "i < length (eq_requests q)" "ar_id r = eq_next_id q" "eq_requests q' = (eq_requests q)[i := r]"
      using submit_slot [of ticks request q] esc_submit by auto
    have "ar_id (eq_requests q ! j) \<noteq> ar_id r" if "j < length (eq_requests q)" for j
      using assms(1) that r(2) by (metis nth_mem order_less_irrefl queue_inv_def)
    then show ?thesis unfolding r(3) using esc_slots.uniq_put [OF _ r(1)] assms(1) by (simp add: queue_inv_def)
  qed (use assms(1) in \<open>simp add: queue_inv_def\<close>)
next
  case esc_cleanup
  then show ?thesis using assms(1) unfolding queue_inv_def slot_uniq_def
    by (auto simp: cleanup_def live_request_def request_empty_def)
next
  case (esc_expire now max_age)
  then show ?thesis using assms(1) unfolding queue_inv_def slot_uniq_def
    by (auto simp: expire_old_def live_request_def)
next
  case esc_init
  then show ?thesis using assms(1) by (simp add: queue_init_def queue_inv_def)
next
  case (esc_approve t rid d g)
  then show ?thesis using decision_steps(1) [of t rid d g q] decides_uniq [OF assms(1)] assms(1) by (auto simp: queue_inv_def)
next
  case (esc_deny t rid)
  then show ?thesis using decision_steps(2) [of t rid q] decides_uniq [OF assms(1)] assms(1) by (auto simp: queue_inv_def)
next
  case (esc_cancel t rid who)
  then show ?thesis using decision_steps(3) [of t rid who q] decides_uniq [OF assms(1)] assms(1) by (auto simp: queue_inv_def)
qed

lemma decides_bound:
  assumes "decides q q'" "\<forall>r \<in> set (eq_requests q). ar_id r < n"
  shows "\<forall>r \<in> set (eq_requests q'). ar_id r < n"
proof -
  obtain i r' where i: "i < length (eq_requests q)" "decided (eq_requests q ! i) r'" "eq_requests q' = (eq_requests q)[i := r']"
    using assms(1) by (auto simp: decides_def)
  then have "ar_id r' < n" using assms(2) decided_id [OF i(2)] by simp
  then show ?thesis using assms(2) set_update_subset_insert [of "eq_requests q" i r'] i(3) by auto
qed

lemma live_after_cleanup:
  "live_count live_request (map (\<lambda>r. if finished r then request_empty else r) rs) + length (filter finished rs) = live_count live_request rs"
  by (induction rs) (auto simp: live_request_def finished_def request_empty_def)

lemma live_after_map: "(\<And>r. ar_id (f r) = ar_id r) \<Longrightarrow> live_count live_request (map f rs) = live_count live_request rs"
  by (induction rs) (auto simp: live_request_def)

lemma step_inv:
  assumes "queue_inv q" "esc_step q q'" "eq_next_id q + 1 \<noteq> 0"
  shows "queue_inv q'"
proof -
  have less: "eq_next_id q < eq_next_id q + 1" using assms(3) unatSuc [of "eq_next_id q"] by (simp add: word_less_nat_alt add.commute)
  have c: "eq_count q' = live_count live_request (eq_requests q') \<and> eq_next_id q' \<noteq> 0 \<and> (\<forall>r \<in> set (eq_requests q'). ar_id r < eq_next_id q')"
    if "decides q q'"
    using assms(1) decides_count [OF that] decides_frame [OF that] decides_bound [OF that] by (simp add: queue_inv_def)
  have "eq_count q' = live_count live_request (eq_requests q') \<and> eq_next_id q' \<noteq> 0 \<and> (\<forall>r \<in> set (eq_requests q'). ar_id r < eq_next_id q')"
    using assms(2)
  proof cases
    case (esc_submit ticks request)
    show ?thesis
    proof (cases "q' = q")
      case False
      then obtain i r where r: "i < length (eq_requests q)" "ar_id (eq_requests q ! i) = 0" "ar_id r = eq_next_id q"
        "q' = q\<lparr>eq_requests := (eq_requests q)[i := r], eq_count := eq_count q + 1, eq_next_id := eq_next_id q + 1\<rparr>"
        using submit_slot [of ticks request q] esc_submit by auto
      have "live_count live_request ((eq_requests q)[i := r]) = Suc (live_count live_request (eq_requests q))"
        using r assms(1) by (intro esc_slots.live_count_put_free) (auto simp: live_request_def queue_inv_def)
      moreover have "ar_id x < eq_next_id q + 1" if "x \<in> set ((eq_requests q)[i := r])" for x
      proof -
        have "x = r \<or> x \<in> set (eq_requests q)" using that set_update_subset_insert [of "eq_requests q" i r] by blast
        then show ?thesis using assms(1) r(3) less less_trans unfolding queue_inv_def by metis
      qed
      ultimately show ?thesis using r(4) assms(1,3) by (simp add: queue_inv_def)
    qed (use assms(1) in \<open>simp add: queue_inv_def\<close>)
  next
    case esc_cleanup
    have "ar_id request_empty < eq_next_id q" using assms(1) by (simp add: queue_inv_def request_empty_def word_gt_0)
    then show ?thesis using esc_cleanup assms(1) live_after_cleanup [of "eq_requests q"] by (auto simp: queue_inv_def cleanup_def)
  next
    case (esc_expire now max_age)
    then show ?thesis using assms(1) by (auto simp: queue_inv_def expire_old_def live_after_map)
  next
    case (esc_approve t rid d g)
    then show ?thesis using decision_steps(1) [of t rid d g q] c assms(1) by (auto simp: queue_inv_def)
  next
    case (esc_deny t rid)
    then show ?thesis using decision_steps(2) [of t rid q] c assms(1) by (auto simp: queue_inv_def)
  next
    case (esc_cancel t rid who)
    then show ?thesis using decision_steps(3) [of t rid who q] c assms(1) by (auto simp: queue_inv_def)
  qed (use assms(1) in \<open>simp add: queue_init_def queue_inv_def\<close>)
  then show ?thesis using step_uniq [OF assms(1,2)] step_length [OF assms(2)] assms(1) by (simp add: queue_inv_def)
qed

lemma get_request_iff:
  "queue_inv q \<Longrightarrow> get_request rid q = Some r \<longleftrightarrow> r \<in> set (eq_requests q) \<and> ar_id r = rid \<and> rid \<noteq> 0"
proof -
  assume "queue_inv q"
  then have u: "slot_uniq live_request ar_id (eq_requests q)" by (simp add: queue_inv_def)
  have "(\<lambda>r. ar_id r = rid \<and> ar_id r \<noteq> 0) = (\<lambda>r. live_request r \<and> ar_id r = rid)" by (auto simp: live_request_def)
  then have "get_request rid q = slot_lookup live_request ar_id (eq_requests q) rid"
    unfolding get_request_def request_slot_def esc_slots.lookup_position by simp
  then show ?thesis using esc_slots.lookup_Some_iff [OF u] by (auto simp: live_request_def)
qed

text \<open>
  (C21) Every request is decided at most once. Any operation of the queue keeps its invariant (numbers are
  unique and below the next one, the count is exact); a number that was unknown becomes known only by a
  submission, with the next number and pending; a pending request stays as it is or gets a final status with all else but
  decision, duration and time unchanged; a request with a final status never changes, and only
  denied, cancelled and expired ones are ever removed.
\<close>

theorem escalation_decided_once:
  assumes "queue_inv q" "esc_step q q'" "eq_next_id q + 1 \<noteq> 0"
  shows "queue_inv q'
    \<and> (case get_request rid q of
         None \<Rightarrow> (\<forall>r. get_request rid q' = Some r \<longrightarrow> rid = eq_next_id q \<and> ar_status r = Pending)
       | Some r \<Rightarrow>
           (if ar_status r = Pending
            then get_request rid q' = Some r \<or> (\<exists>r'. get_request rid q' = Some r' \<and> decided r r')
            else get_request rid q' = Some r \<or> finished r \<and> get_request rid q' = None))"
proof -
  have inv: "queue_inv q'" by (rule step_inv [OF assms])
  note g = get_request_iff [OF assms(1)] get_request_iff [OF inv]
  have len: "length (eq_requests q') = length (eq_requests q)" by (rule step_length [OF assms(2)])
  note slot = step_slot [OF assms(2)]
  show ?thesis
  proof (cases "get_request rid q")
    case None
    have "rid = eq_next_id q \<and> ar_status r = Pending" if r: "get_request rid q' = Some r" for r
    proof -
      obtain i where i: "i < length (eq_requests q)" "eq_requests q' ! i = r" "ar_id r = rid" "rid \<noteq> 0"
        using r len unfolding g by (metis in_set_conv_nth)
      have "ar_id (eq_requests q ! i) \<noteq> rid" using None i g(1) [of rid "eq_requests q ! i"] by auto
      then show ?thesis using slot [OF i(1)] i by (auto simp: slot_change_def request_empty_def dest: decided_id)
    qed
    then show ?thesis using inv None by simp
  next
    case (Some r)
    then obtain i where i: "i < length (eq_requests q)" "eq_requests q ! i = r" "ar_id r = rid" "rid \<noteq> 0"
      unfolding g by (metis in_set_conv_nth)
    have gone: "get_request rid q' = None" if "eq_requests q' ! i = request_empty"
    proof (rule ccontr)
      assume "get_request rid q' \<noteq> None"
      then obtain j where j: "j < length (eq_requests q)" "ar_id (eq_requests q' ! j) = rid" using g(2) len by (metis in_set_conv_nth not_None_eq)
      then have "ar_id (eq_requests q ! j) = rid \<or> rid = eq_next_id q" using slot_change_id2 [OF slot [OF j(1)]] i(4) by auto
      moreover have "rid \<noteq> eq_next_id q" using assms(1) i(1-3) by (metis nth_mem order_less_irrefl queue_inv_def)
      ultimately have "j = i" using assms(1) i j by (auto simp: queue_inv_def slot_uniq_def live_request_def)
      then show False using that j(2) i(4) by (simp add: request_empty_def)
    qed
    have kept: "get_request rid q' = Some (eq_requests q' ! i)" if "ar_id (eq_requests q' ! i) = rid"
      using g(2) i len that by simp
    show ?thesis using slot [OF i(1)] i gone kept inv Some unfolding i(2) slot_change_def
      by (auto simp: finished_def dest: decided_id)
  qed
qed

lemma queue_inv_new: "queue_inv (queue_init queue_new)"
  by (simp add: queue_inv_def queue_init_def queue_new_def request_empty_def slot_uniq_def live_request_def live_count_def)

text \<open>The first request gets the number 1 and is pending.\<close>

theorem escalation_decided_once_witness:
  "queue_inv (fst (submit 9 (for_tier 2 0 1 []) (queue_init queue_new)))
   \<and> map_option ar_status (get_request 1 (fst (submit 9 (for_tier 2 0 1 []) (queue_init queue_new)))) = Some Pending"
proof -
  let ?q = "queue_init queue_new" and ?q' = "fst (submit 9 (for_tier 2 0 1 []) (queue_init queue_new))"
  have n: "eq_next_id ?q + 1 \<noteq> 0" by (simp add: queue_init_def queue_new_def)
  have "map_option ar_status (get_request 1 ?q') = Some Pending" by code_simp
  then show ?thesis using escalation_decided_once [OF queue_inv_new esc_submit [where ticks = 9 and request = "for_tier 2 0 1 []"] n] by blast
qed

section \<open>Approved requests\<close>

lemma approved_stays:
  assumes "esc_step\<^sup>*\<^sup>* q q'" "i < length (eq_requests q)" "ar_id (eq_requests q ! i) \<noteq> 0" "ar_status (eq_requests q ! i) = Approved"
  shows "eq_requests q' ! i = eq_requests q ! i \<and> length (eq_requests q') = length (eq_requests q)"
  using assms
proof (induction rule: rtranclp_induct)
  case (step q1 q2)
  then have "eq_requests q1 ! i = eq_requests q ! i" "length (eq_requests q1) = length (eq_requests q)" by auto
  then show ?case using step_slot [OF step(2), of i] step_length [OF step(2)] step(4-6) by (auto simp: slot_change_def finished_def)
qed simp

text \<open>
  An approved request holds its slot for ever: no sequence of operations changes or removes it, and when all
  slots hold approved requests, every later submission fails.
\<close>

theorem approved_requests_block_queue:
  assumes "esc_step\<^sup>*\<^sup>* q q'" "\<forall>r \<in> set (eq_requests q). ar_id r \<noteq> 0 \<and> ar_status r = Approved"
  shows "eq_requests q' = eq_requests q \<and> (\<exists>e. submit ticks request q' = (q', Inl e))"
proof (cases "eq_requests q = []")
  case True
  have "length (eq_requests q') = length (eq_requests q)"
    using assms(1) by (induction rule: rtranclp_induct) (simp_all add: step_length)
  then show ?thesis using True by (simp add: submit_def find_free_slot_def)
next
  case False
  have a: "eq_requests q' ! i = eq_requests q ! i \<and> length (eq_requests q') = length (eq_requests q)" if "i < length (eq_requests q)" for i
    using approved_stays [OF assms(1) that] assms(2) that by simp
  then have e: "eq_requests q' = eq_requests q" using False a [of 0] by (auto intro: nth_equalityI)
  then have "find_free_slot q' = None" using assms(2) by (simp add: find_free_slot_def position_None_iff)
  then show ?thesis using e by (simp add: submit_def)
qed

text \<open>A queue whose 32 slots are approved.\<close>

theorem approved_requests_block_queue_witness:
  "\<exists>e. snd (submit 7 request_empty (cleanup \<lparr>eq_requests = replicate 32 (request_empty\<lparr>ar_id := 5, ar_status := Approved\<rparr>),
      eq_count = 32, eq_next_id = 9, eq_initialized = True\<rparr>)) = Inl e"
proof -
  let ?q = "\<lparr>eq_requests = replicate 32 (request_empty\<lparr>ar_id := 5, ar_status := Approved\<rparr>), eq_count = 32, eq_next_id = 9, eq_initialized = True\<rparr>"
  have "\<exists>e. submit 7 request_empty (cleanup ?q) = (cleanup ?q, Inl e)"
    using approved_requests_block_queue [of ?q "cleanup ?q" 7 request_empty] esc_cleanup [of ?q] by auto
  then show ?thesis by auto
qed

end
