(* ===== verification/Sem_Syscalls.thy ===== *)
theory Sem_Syscalls
  imports Escalation Syscalls Namespace
begin

text \<open>
  The system calls on semantic objects (20 to 27) and on the services of the language model (51 to 54, 57 and
  58) of \<^verbatim>\<open>src/kernel-core/src/syscall/mod.rs\<close>. They join the scheduler (tier and user of the caller), the
  caller's memory, the registry with journal and heap, the policies, the redactors and the
  escalation queue. The vector search and the calls of the network provider are not modelled. The buffers
  that a handler keeps in statics are arguments. The theory shows that no
  call lets a caller see or change an object above its tier, and that the context call, which redacts text while
  it holds the lock of the registry, does not return once it meets an object with text.
\<close>

section \<open>Definitions: objects\<close>

definition handle_sem_create ::
  "scheduler \<Rightarrow> memory \<Rightarrow> u64 \<Rightarrow> u64 \<Rightarrow> u64 \<Rightarrow> u64 \<Rightarrow> 'd fs \<Rightarrow> 'd fs \<times> u64" where
  "handle_sem_create sc mem suid_high suid_low tier content_info fs =
     (let max_tier = current_task_max_tier sc;
          obj_tier = min (ucast tier :: u8) max_tier;
          s = suid_new suid_high suid_low;
          security_tier = sys_tier_from_u8 obj_tier;
          owner = current_user_id sc
      in if is_policy_suid s then (fs, U64_MAX)
         else let content_ptr = content_info AND 0xFFFFFFFF;
                  content_len = unat (drop_bit 32 content_info);
                  obj = (if content_ptr \<noteq> 0 \<and> content_len > 0 \<and> content_len \<le> 1024
                         then case read_caller_slice sc mem content_ptr (of_nat content_len) of
                                None \<Rightarrow> None
                              | Some data \<Rightarrow> ob_with_content s security_tier owner data
                         else Some (ob_new s security_tier owner))
              in case obj of
                   None \<Rightarrow> (fs, U64_MAX)
                 | Some ob \<Rightarrow> (case insert_object fs ob of (fs', ok) \<Rightarrow> (fs', if ok then 0 else U64_MAX)))"

definition handle_sem_read :: "scheduler \<Rightarrow> memory \<Rightarrow> registry \<Rightarrow> u64 \<Rightarrow> u64 \<Rightarrow> u64 \<Rightarrow> memory \<times> u64" where
  "handle_sem_read sc mem reg suid_high suid_low out_ptr =
     (let max_tier = current_task_max_tier sc
      in case reg_get reg (suid_new suid_high suid_low) of
           None \<Rightarrow> (mem, U64_MAX)
         | Some ob \<Rightarrow>
             (if tier_value (ob_tier ob) > max_tier then (mem, U64_MAX)
              else case as_bytes (ob_content ob) of
                     None \<Rightarrow> (mem, 0)
                   | Some data \<Rightarrow>
                       (if out_ptr \<noteq> 0 \<and> data \<noteq> []
                        then case write_to_caller sc mem out_ptr data of
                               (mem', ok) \<Rightarrow> (mem', if ok then of_nat (length data) else U64_MAX)
                        else (mem, of_nat (length data)))))"

definition handle_sem_write ::
  "scheduler \<Rightarrow> memory \<Rightarrow> u64 \<Rightarrow> u64 \<Rightarrow> u64 \<Rightarrow> u64 \<Rightarrow> 'd fs \<Rightarrow> 'd fs \<times> u64" where
  "handle_sem_write sc mem suid_high suid_low data_ptr data_len fs =
     (let max_tier = current_task_max_tier sc;
          s = suid_new suid_high suid_low
      in if unat data_len > 1024 then (fs, U64_MAX)
         else case reg_get (fs_reg fs) s of
                None \<Rightarrow> (fs, U64_MAX)
              | Some ob \<Rightarrow>
                  (if tier_value (ob_tier ob) > max_tier then (fs, U64_MAX)
                   else if is_immutable (ob_flags ob) then (fs, U64_MAX)
                   else case (if data_len = 0 then Some [] else read_caller_slice sc mem data_ptr data_len) of
                          None \<Rightarrow> (fs, U64_MAX)
                        | Some data \<Rightarrow>
                            (case content_from_bytes (fs_heap fs) data of
                               (h, Some c) \<Rightarrow> (install_content (fs\<lparr>fs_heap := h\<rparr>) s c, 0)
                             | (h, None) \<Rightarrow> (fs\<lparr>fs_heap := h\<rparr>, U64_MAX))))"

definition handle_sem_delete :: "scheduler \<Rightarrow> u64 \<Rightarrow> u64 \<Rightarrow> 'd fs \<Rightarrow> 'd fs \<times> u64" where
  "handle_sem_delete sc suid_high suid_low fs =
     (let max_tier = current_task_max_tier sc;
          s = suid_new suid_high suid_low
      in case reg_get (fs_reg fs) s of
           None \<Rightarrow> (fs, U64_MAX)
         | Some ob \<Rightarrow>
             (if tier_value (ob_tier ob) > max_tier then (fs, U64_MAX)
              else case reg_remove (fs_journal fs) (fs_reg fs) s of
                     (j, r, Some removed) \<Rightarrow>
                       (fs\<lparr>fs_journal := j, fs_reg := r, fs_heap := drop_heap (fs_heap fs) (ob_content removed)\<rparr>, 0)
                   | (j, r, None) \<Rightarrow> (fs\<lparr>fs_journal := j, fs_reg := r\<rparr>, U64_MAX)))"

definition handle_sem_link :: "scheduler \<Rightarrow> u64 \<Rightarrow> u64 \<Rightarrow> u64 \<Rightarrow> u64 \<Rightarrow> 'd fs \<Rightarrow> 'd fs \<times> u64" where
  "handle_sem_link sc src_high src_low dst_high dst_low fs =
     (let max_tier = current_task_max_tier sc;
          src = suid_new src_high src_low;
          dst = suid_new dst_high dst_low
      in case reg_get (fs_reg fs) src of
           None \<Rightarrow> (fs, U64_MAX)
         | Some ob \<Rightarrow>
             (if tier_value (ob_tier ob) > max_tier then (fs, U64_MAX)
              else (fs\<lparr>fs_reg := reg_update (fs_reg fs) src (\<lambda>ob. fst (add_link ob dst References))\<rparr>,
                    if snd (add_link ob dst References) then 0 else U64_MAX)))"

text \<open>The loop of the query: the bytes written so far, the number written and the number found.\<close>

definition query_step :: "u8 \<Rightarrow> nat \<Rightarrow> semantic_object \<Rightarrow> u8 list \<times> nat \<times> nat \<Rightarrow> u8 list \<times> nat \<times> nat" where
  "query_step tier_filter limit ob st =
     (case st of (out, n_out, n_found) \<Rightarrow>
        if tier_value (ob_tier ob) \<le> tier_filter
        then (if n_out < limit
              then let o1 = n_out * 16;
                       out = copy_into o1 (le_bytes 8 (high (ob_suid ob))) out;
                       out = copy_into (o1 + 8) (le_bytes 8 (low (ob_suid ob))) out
                   in (out, n_out + 1, n_found + 1)
              else (out, n_out, n_found + 1))
        else (out, n_out, n_found))"

definition handle_sem_query :: "scheduler \<Rightarrow> memory \<Rightarrow> registry \<Rightarrow> u64 \<Rightarrow> u64 \<Rightarrow> u64 \<Rightarrow> memory \<times> u64" where
  "handle_sem_query sc mem reg tier_filter out_ptr max_results =
     (let max_tier = current_task_max_tier sc;
          f = min (ucast tier_filter :: u8) max_tier;
          limit = min (unat max_results) 64;
          (out, n_out, n_found) = fold (query_step f limit) (reg_iter reg) (replicate (64 * 16) 0, 0, 0)
      in if n_out > 0
         then case write_to_caller sc mem out_ptr (take (n_out * 16) out) of
                (mem', ok) \<Rightarrow> (mem', if ok then of_nat n_found else U64_MAX)
         else (mem, of_nat n_found))"

definition handle_sem_meta :: "scheduler \<Rightarrow> memory \<Rightarrow> registry \<Rightarrow> u64 \<Rightarrow> u64 \<Rightarrow> u64 \<Rightarrow> memory \<times> u64" where
  "handle_sem_meta sc mem reg suid_high suid_low out_ptr =
     (let max_tier = current_task_max_tier sc
      in case reg_get reg (suid_new suid_high suid_low) of
           None \<Rightarrow> (mem, U64_MAX)
         | Some ob \<Rightarrow>
             (if tier_value (ob_tier ob) > max_tier then (mem, U64_MAX)
              else let link_count = length (filter (\<lambda>l. l \<noteq> None) (get_links ob));
                       out = le_bytes 8 (ucast (tier_value (ob_tier ob)) :: u64) @ le_bytes 8 (ucast (ob_owner ob) :: u64)
                         @ le_bytes 8 (of_nat (content_len (ob_content ob)) :: u64) @ le_bytes 8 (of_nat link_count :: u64)
                         @ le_bytes 8 (ucast (of_as_u32 (ob_flags ob)) :: u64)
                   in case write_to_caller sc mem out_ptr out of (mem', ok) \<Rightarrow> (mem', if ok then 0 else U64_MAX)))"

section \<open>Definitions: services of the language model\<close>

text \<open>What \<open>handle_llm_context\<close> reads besides the registry: clock, engine, redactor and the scratch of the profiles.\<close>

record llm_env =
  le_now :: u64
  le_engine :: policy_engine
  le_redactor :: context_redactor
  le_tmp :: "u8 list"

definition suid_pairs :: "nat \<Rightarrow> u8 list \<Rightarrow> suid list" where
  "suid_pairs n suid_bytes =
     map (\<lambda>i. suid_new (of_le_bytes (slice (i * 16) 8 suid_bytes)) (of_le_bytes (slice (i * 16 + 8) 8 suid_bytes))) [0..<n]"

text \<open>
  The body of the loop for an object that may be seen. \<open>None\<close> in the last component is an early return of
  \<^verbatim>\<open>u64::MAX\<close>; otherwise it is the total size and the offset.
\<close>

definition emit_entry ::
  "scheduler \<Rightarrow> u64 \<Rightarrow> nat \<Rightarrow> u8 list \<Rightarrow> memory \<Rightarrow> nat \<Rightarrow> nat \<Rightarrow> memory \<times> (nat \<times> nat) option" where
  "emit_entry sc out_ptr out_limit content mem total_size offset =
     (let entry_len = length content;
          total_size = total_size + (entry_len + 8)
      in if out_ptr \<noteq> 0 \<and> offset + entry_len + 8 \<le> out_limit
         then case checked_add out_ptr (of_nat offset) of
                None \<Rightarrow> (mem, None)
              | Some len_dst \<Rightarrow>
                  (case write_to_caller sc mem len_dst (le_bytes 8 (of_nat entry_len :: u64)) of
                     (mem, False) \<Rightarrow> (mem, None)
                   | (mem, True) \<Rightarrow>
                       (let offset = offset + 8
                        in case checked_add out_ptr (of_nat offset) of
                             None \<Rightarrow> (mem, None)
                           | Some content_dst \<Rightarrow>
                               (if entry_len > 0
                                then case write_to_caller sc mem content_dst content of
                                       (mem, False) \<Rightarrow> (mem, None)
                                     | (mem, True) \<Rightarrow> (mem, Some (total_size, offset + entry_len))
                                else (mem, Some (total_size, offset + entry_len)))))
         else (mem, Some (total_size, offset)))"

text \<open>
  The acquisition of the lock of \<^verbatim>\<open>src/kernel-core/src/sync.rs\<close>, for a lock that no other task holds: a locked
  one is then held by the calling task itself, and giving way to the other tasks does not unlock it. \<open>None\<close> is
  a call that does not return. The lock is not recursive.
\<close>

partial_function (option) mutex_lock :: "bool \<Rightarrow> bool option" where
  "mutex_lock locked = (if \<not> locked then Some True else mutex_lock locked)"

text \<open>
  Redaction as it is called, with the state of the registry's lock: \<^verbatim>\<open>create_evaluation_context\<close> takes the lock and
  gives it back, and so does \<^verbatim>\<open>evaluate\<close> after it.
\<close>

definition redact_locking ::
  "bool \<Rightarrow> context_redactor \<Rightarrow> u64 \<Rightarrow> registry \<Rightarrow> policy_engine \<Rightarrow> u8 list \<Rightarrow> u8 list \<Rightarrow> redaction_context \<Rightarrow> u8 list
    \<Rightarrow> (u8 list \<times> nat) option" where
  "redact_locking locked cr now reg e tmp content ctx out =
     (if \<not> cr_initialized cr then Some (redact_with_context cr now reg e tmp content ctx out)
      else case mutex_lock locked of
             None \<Rightarrow> None
           | Some _ \<Rightarrow> Some (redact_with_context cr now reg e tmp content ctx out))"

text \<open>The loop runs with the registry's lock in the state \<open>locked\<close>; \<open>None\<close> is a loop that does not end.\<close>

fun context_loop ::
  "scheduler \<Rightarrow> llm_env \<Rightarrow> bool \<Rightarrow> registry \<Rightarrow> redaction_context \<Rightarrow> u64 \<Rightarrow> nat \<Rightarrow> suid list \<Rightarrow> u8 list \<Rightarrow> memory \<Rightarrow> nat \<Rightarrow> nat
     \<Rightarrow> (memory \<times> (nat \<times> nat) option) option" where
  "context_loop sc env locked reg rctx out_ptr out_limit [] scratch mem total_size offset = Some (mem, Some (total_size, offset))"
| "context_loop sc env locked reg rctx out_ptr out_limit (s # suids) scratch mem total_size offset =
     (case reg_get reg s of
        None \<Rightarrow> context_loop sc env locked reg rctx out_ptr out_limit suids scratch mem total_size offset
      | Some ob \<Rightarrow>
          (let obj_tier = tier_value (ob_tier ob)
           in if obj_tier > current_task_max_tier sc \<or> obj_tier \<ge> 3
              then context_loop sc env locked reg rctx out_ptr out_limit suids scratch mem total_size offset
              else case as_bytes (ob_content ob) of
                     None \<Rightarrow> context_loop sc env locked reg rctx out_ptr out_limit suids scratch mem total_size offset
                   | Some bytes \<Rightarrow>
                       (case redact_locking locked (le_redactor env) (le_now env) reg (le_engine env) (le_tmp env) bytes
                               (rctx\<lparr>rx_target_suid := s\<rparr>) scratch of
                          None \<Rightarrow> None
                        | Some (scratch, len) \<Rightarrow>
                            (case emit_entry sc out_ptr out_limit (take len scratch) mem total_size offset of
                               (mem, None) \<Rightarrow> Some (mem, None)
                             | (mem, Some (total_size, offset)) \<Rightarrow>
                                 context_loop sc env locked reg rctx out_ptr out_limit suids scratch mem total_size offset))))"

definition OUT_CAP :: u64 where "OUT_CAP = 32768"

text \<open>The handler takes the registry's lock before the loop and holds it until it returns.\<close>

definition handle_llm_context ::
  "scheduler \<Rightarrow> llm_env \<Rightarrow> registry \<Rightarrow> u8 list \<Rightarrow> memory \<Rightarrow> u64 \<Rightarrow> u64 \<Rightarrow> u64 \<Rightarrow> (memory \<times> u64) option" where
  "handle_llm_context sc env reg scratch mem suid_pairs_ptr pair_count out_ptr =
     (let n = min (unat pair_count) 32;
          tier = current_task_max_tier sc
      in case (if n > 0 then read_caller_slice sc mem suid_pairs_ptr (of_nat (n * 16)) else Some []) of
           None \<Rightarrow> Some (mem, U64_MAX)
         | Some suid_bytes \<Rightarrow>
             (if out_ptr \<noteq> 0 \<and> caller_needs_validation sc \<and> \<not> validate_user_ptr out_ptr 1 then Some (mem, U64_MAX)
              else let out_limit = (if out_ptr = 0 then 0
                                    else if caller_needs_validation sc then unat (min OUT_CAP (USER_ADDR_LIMIT - out_ptr))
                                    else unat OUT_CAP);
                       rctx = \<lparr>rx_requester_id = current_user_id sc, rx_requester_tier = sys_tier_from_u8 tier,
                               rx_target_suid = suid_new 0 0, rx_request_type = LLMContext, rx_context_flags = 0,
                               rx_app_context = 0\<rparr>
                   in case mutex_lock False of
                        None \<Rightarrow> None
                      | Some locked \<Rightarrow>
                          (case context_loop sc env locked reg rctx out_ptr out_limit (suid_pairs n suid_bytes) scratch mem 0 0 of
                             None \<Rightarrow> None
                           | Some (mem, None) \<Rightarrow> Some (mem, U64_MAX)
                           | Some (mem, Some (total_size, offset)) \<Rightarrow> Some (mem, of_nat (if out_ptr = 0 then total_size else offset)))))"

definition handle_llm_redact ::
  "scheduler \<Rightarrow> redactor \<Rightarrow> u8 list \<Rightarrow> memory \<Rightarrow> u64 \<Rightarrow> u64 \<Rightarrow> u64 \<Rightarrow> memory \<times> u64" where
  "handle_llm_redact sc r scratch mem input_ptr input_len out_ptr =
     (if input_len = 0 \<or> unat input_len > 4096 then (mem, U64_MAX)
      else case read_caller_slice sc mem input_ptr input_len of
             None \<Rightarrow> (mem, U64_MAX)
           | Some input \<Rightarrow>
               (let (scratch, out_len) = redact r input scratch
                in if out_ptr \<noteq> 0 \<and> out_len > 0
                   then case write_to_caller sc mem out_ptr (take out_len scratch) of
                          (mem', ok) \<Rightarrow> (mem', if ok then of_nat out_len else U64_MAX)
                   else (mem, of_nat out_len)))"

definition handle_llm_summarize ::
  "scheduler \<Rightarrow> (nat \<Rightarrow> nat) \<Rightarrow> summarizer \<Rightarrow> memory \<Rightarrow> u64 \<Rightarrow> u64 \<Rightarrow> u64 \<Rightarrow> memory \<times> u64" where
  "handle_llm_summarize sc scaled su mem input_ptr input_len out_ptr =
     (if input_len = 0 \<or> unat input_len > 4096 then (mem, U64_MAX)
      else case read_caller_slice sc mem input_ptr input_len of
             None \<Rightarrow> (mem, U64_MAX)
           | Some input \<Rightarrow>
               (let data = sm_as_bytes (summarize scaled su input)
                in if out_ptr \<noteq> 0 \<and> data \<noteq> []
                   then case write_to_caller sc mem out_ptr data of
                          (mem', ok) \<Rightarrow> (mem', if ok then of_nat (length data) else U64_MAX)
                   else (mem, of_nat (length data))))"

definition NO_JUSTIFICATION :: "u8 list" where
  "NO_JUSTIFICATION = ascii ''No justification provided''"

definition handle_llm_access ::
  "scheduler \<Rightarrow> memory \<Rightarrow> u64 \<Rightarrow> u64 \<Rightarrow> u64 \<Rightarrow> u64 \<Rightarrow> u64 \<Rightarrow> escalation_queue \<Rightarrow> escalation_queue \<times> u64" where
  "handle_llm_access sc mem ticks requester_id current_tier requested_tier justification_info q =
     (let just_ptr = justification_info AND 0xFFFFFFFF;
          just_len = unat (drop_bit 32 justification_info)
      in case (if just_ptr \<noteq> 0 \<and> just_len > 0 \<and> just_len \<le> 256
               then read_caller_slice sc mem just_ptr (of_nat just_len) else Some NO_JUSTIFICATION) of
           None \<Rightarrow> (q, U64_MAX)
         | Some text \<Rightarrow>
             (case submit ticks (for_tier (ucast requester_id) (ucast current_tier) (ucast requested_tier) text) q of
                (q', Inr rid) \<Rightarrow> (q', rid)
              | (q', Inl _) \<Rightarrow> (q', U64_MAX)))"

text \<open>The check of \<open>handle_llm_set_policy\<close> on an existing policy, and on a new one.\<close>

definition may_set_policy :: "registry \<Rightarrow> suid \<Rightarrow> user_id \<Rightarrow> bool" where
  "may_set_policy reg s requester_id =
     (case reg_get reg s of
        Some existing \<Rightarrow>
          (case as_bytes (ob_content existing) of
             None \<Rightarrow> True
           | Some bs \<Rightarrow> (case policy_deserialize bs of Inr p \<Rightarrow> can_modify p requester_id | Inl _ \<Rightarrow> True))
      | None \<Rightarrow>
          (if is_system_policy s then requester_id = USER_ADMIN \<or> requester_id = USER_SYSTEM
           else case user_policy_owner s of
                  Some owner \<Rightarrow> owner = requester_id \<or> requester_id = USER_ADMIN
                | None \<Rightarrow> requester_id = USER_ADMIN \<or> requester_id = USER_SYSTEM))"

definition handle_llm_set_policy ::
  "scheduler \<Rightarrow> memory \<Rightarrow> u64 \<Rightarrow> u64 \<Rightarrow> u64 \<Rightarrow> u64 \<Rightarrow> u64 \<Rightarrow> 'd fs \<Rightarrow> 'd fs \<times> u64" where
  "handle_llm_set_policy sc mem now suid_high suid_low policy_data_ptr policy_data_len fs =
     (let s = suid_new suid_high suid_low; requester_id = current_user_id sc
      in if policy_data_len = 0 \<or> unat policy_data_len > MAX_POLICY_SIZE \<or> policy_data_ptr = 0 then (fs, U64_MAX - 1)
         else if \<not> is_policy_suid s then (fs, U64_MAX - 1)
         else case read_caller_slice sc mem policy_data_ptr policy_data_len of
                None \<Rightarrow> (fs, U64_MAX - 1)
              | Some caller_data \<Rightarrow>
                  (case policy_deserialize caller_data of
                     Inl _ \<Rightarrow> (fs, U64_MAX - 1)
                   | Inr policy \<Rightarrow>
                       (let policy = policy\<lparr>po_owner := requester_id\<rparr>
                        in case policy_serialize policy (replicate MAX_POLICY_SIZE 0) of
                             (canonical, Inl _) \<Rightarrow> (fs, U64_MAX - 1)
                           | (canonical, Inr len) \<Rightarrow>
                               (if \<not> may_set_policy (fs_reg fs) s requester_id then (fs, U64_MAX - 2)
                                else if \<not> policy_is_active now policy \<and> po_rule_count policy = 0 then (fs, U64_MAX - 1)
                                else case ob_with_content s Secret (po_owner policy) (take len canonical) of
                                       None \<Rightarrow> (fs, U64_MAX)
                                     | Some ob \<Rightarrow>
                                         (case insert_object fs ob of (fs', ok) \<Rightarrow> (fs', if ok then suid_high else U64_MAX))))))"

definition handle_llm_get_policy :: "scheduler \<Rightarrow> memory \<Rightarrow> registry \<Rightarrow> u64 \<Rightarrow> u64 \<Rightarrow> u64 \<Rightarrow> u64 \<Rightarrow> memory \<times> u64" where
  "handle_llm_get_policy sc mem reg suid_high suid_low out_ptr out_len =
     (let s = suid_new suid_high suid_low; requester_id = current_user_id sc
      in if out_len = 0 \<or> out_ptr = 0 then (mem, U64_MAX)
         else if \<not> is_policy_suid s then (mem, U64_MAX)
         else case reg_get reg s of
                None \<Rightarrow> (mem, 0)
              | Some ob \<Rightarrow>
                  (case as_bytes (ob_content ob) of
                     None \<Rightarrow> (mem, U64_MAX)
                   | Some policy_content \<Rightarrow>
                       (case policy_deserialize policy_content of
                          Inl _ \<Rightarrow> (mem, U64_MAX)
                        | Inr policy \<Rightarrow>
                            (let can_read = (if is_system_policy s then requester_id = USER_ADMIN \<or> requester_id = USER_SYSTEM
                                             else requester_id = po_owner policy \<or> requester_id = USER_ADMIN)
                             in if \<not> can_read then (mem, U64_MAX - 2)
                                else let copy_len = min (length policy_content) (unat out_len)
                                     in if copy_len > 0
                                        then case write_to_caller sc mem out_ptr (take copy_len policy_content) of
                                               (mem', ok) \<Rightarrow> (mem', if ok then of_nat copy_len else U64_MAX)
                                        else (mem, of_nat copy_len)))))"

section \<open>What a caller can see\<close>

text \<open>The objects that a caller of tier \<open>t\<close> may read, and those that may reach the language model for it.\<close>

definition seen :: "u8 \<Rightarrow> registry \<Rightarrow> suid \<Rightarrow> semantic_object option" where
  "seen t reg s = (case reg_get reg s of Some ob \<Rightarrow> (if tier_value (ob_tier ob) > t then None else Some ob) | None \<Rightarrow> None)"

definition llm_seen :: "u8 \<Rightarrow> registry \<Rightarrow> suid \<Rightarrow> semantic_object option" where
  "llm_seen t reg s =
     (case reg_get reg s of
        Some ob \<Rightarrow> (if tier_value (ob_tier ob) > t \<or> tier_value (ob_tier ob) \<ge> 3 then None else Some ob)
      | None \<Rightarrow> None)"

lemma mutex_lock_free: "mutex_lock False = Some True"
  by (simp add: mutex_lock.simps)

lemma mutex_lock_returns: "mutex_lock locked = Some b \<Longrightarrow> \<not> locked"
  by (erule mutex_lock.raw_induct [rotated]) (auto split: if_splits)

lemma mutex_lock_held: "mutex_lock True = None"
  using mutex_lock_returns [of True] by (cases "mutex_lock True") auto

text \<open>The objects with which the loop gets as far as the redactor.\<close>

definition has_text :: "u8 \<Rightarrow> registry \<Rightarrow> suid \<Rightarrow> bool" where
  "has_text t reg s = (case llm_seen t reg s of Some ob \<Rightarrow> as_bytes (ob_content ob) \<noteq> None | None \<Rightarrow> False)"

lemma context_loop_skips:
  "\<not> has_text (current_task_max_tier sc) reg s \<Longrightarrow>
   context_loop sc env locked reg rctx out_ptr out_limit (s # suids) scratch mem sz offset
   = context_loop sc env locked reg rctx out_ptr out_limit suids scratch mem sz offset"
  by (auto simp: has_text_def llm_seen_def Let_def split: option.splits if_splits)

lemma context_loop_stuck:
  assumes "cr_initialized (le_redactor env)" "has_text (current_task_max_tier sc) reg s"
  shows "context_loop sc env True reg rctx out_ptr out_limit (s # suids) scratch mem sz offset = None"
  using assms by (auto simp: has_text_def llm_seen_def Let_def redact_locking_def mutex_lock_held split: option.splits if_splits)

lemma context_loop_outcome:
  assumes "cr_initialized (le_redactor env)"
  shows "context_loop sc env True reg rctx out_ptr out_limit suids scratch mem sz offset
    = (if \<exists>s \<in> set suids. has_text (current_task_max_tier sc) reg s then None else Some (mem, Some (sz, offset)))"
proof (induction suids)
  case (Cons s suids)
  then show ?case using context_loop_skips context_loop_stuck [OF assms]
    by (cases "has_text (current_task_max_tier sc) reg s") (simp_all del: context_loop.simps)
qed simp

text \<open>
  (C7) The call that hands objects to the language model never hands over any of their text. Once the redactor is initialised, it
  answers \<^verbatim>\<open>u64::MAX\<close> when one of its pointers is refused; it never returns when one of the requested objects has
  content and is visible to the caller and not Secret, because it holds the lock of the registry that the
  policy evaluation takes again; and in every other case it answers zero and writes nothing, so that hidden
  objects have no influence on it.
\<close>

theorem llm_context_never_returns:
  assumes "cr_initialized (le_redactor env)"
  shows "handle_llm_context sc env reg scratch mem pairs_ptr n out_ptr =
    (let k = min (unat n) 32
     in case (if k > 0 then read_caller_slice sc mem pairs_ptr (of_nat (k * 16)) else Some []) of
          None \<Rightarrow> Some (mem, U64_MAX)
        | Some bs \<Rightarrow>
            (if out_ptr \<noteq> 0 \<and> caller_needs_validation sc \<and> \<not> validate_user_ptr out_ptr 1 then Some (mem, U64_MAX)
             else if \<exists>s \<in> set (suid_pairs k bs). \<exists>ob. reg_get reg s = Some ob \<and> tier_value (ob_tier ob) \<le> current_task_max_tier sc
                       \<and> ob_tier ob \<noteq> Secret \<and> as_bytes (ob_content ob) \<noteq> None
                  then None
                  else Some (mem, 0)))"
proof -
  have h: "has_text t reg s \<longleftrightarrow> (\<exists>ob. reg_get reg s = Some ob \<and> tier_value (ob_tier ob) \<le> t \<and> ob_tier ob \<noteq> Secret
      \<and> as_bytes (ob_content ob) \<noteq> None)" for t s
  proof -
    have t: "tier_value ty \<ge> 3 \<longleftrightarrow> ty = Secret" for ty by (cases ty) (simp_all add: word_le_nat_alt)
    show ?thesis by (cases "reg_get reg s") (auto simp: has_text_def llm_seen_def t)
  qed
  show ?thesis unfolding handle_llm_context_def Let_def mutex_lock_free option.case context_loop_outcome [OF assms] h
    by (auto split: option.split)
qed

text \<open>A public object of eight bytes, asked for by the boot task.\<close>

theorem llm_context_never_returns_witness:
  "\<exists>reg ob. reg_get reg (suid_new 0 0) = Some ob \<and> ob_tier ob = Public
     \<and> handle_llm_context sched_boot \<lparr>le_now = 0, le_engine = engine_init engine_new, le_redactor = cr_init cr_new, le_tmp = []\<rparr>
         reg [] (\<lambda>_. 0) 4096 1 8192 = None"
proof -
  obtain ob where o: "ob_with_content (suid_new 0 0) Public 3 (replicate 8 0) = Some ob" "as_bytes (ob_content ob) \<noteq> None"
    "ob_tier ob = Public" "ob_suid ob = suid_new 0 0"
    by (auto simp: ob_with_content_def from_inline_def ob_new_def)
  obtain reg where g: "reg_get reg = [suid_new 0 0 \<mapsto> ob]" using registry_of_one [of ob] o by auto
  have m: "suid_new 0 0 \<in> set (suid_pairs 1 (mem_read (\<lambda>_. 0) 4096 16))"
    by (simp add: suid_pairs_def mem_read_def slice_def map_replicate_const) (simp add: numeral_eq_Suc)
  have "\<not> caller_needs_validation sched_boot"
    by (simp add: caller_needs_validation_def current_task_is_user_def current_task_def sched_boot_def ti_empty_def MAX_TASKS_def)
  then show ?thesis
    using llm_context_never_returns [of "\<lparr>le_now = 0, le_engine = engine_init engine_new, le_redactor = cr_init cr_new, le_tmp = []\<rparr>"
        sched_boot reg "[]" "\<lambda>_. 0" 4096 1 8192] g o bexI [OF _ m]
    by (intro exI [of _ reg] exI [of _ ob]) (auto simp: cr_init_def read_caller_slice_def split: if_splits)
qed

section \<open>What a caller can change\<close>

definition out_of_reach :: "u8 \<Rightarrow> registry \<Rightarrow> registry \<Rightarrow> bool" where
  "out_of_reach t reg reg' =
     (\<forall>s ob. reg_get reg s = Some ob \<and> tier_value (ob_tier ob) > t \<longrightarrow> reg_get reg' s = Some ob)"

lemma out_of_reach_refl [simp]: "out_of_reach t reg reg"
  by (simp add: out_of_reach_def)

lemma insert_object_reach:
  assumes "reg_inv (fs_reg fs)" "insert_object fs ob = (fs', ok)"
  shows "out_of_reach t (fs_reg fs) (fs_reg fs') \<and> reg_inv (fs_reg fs')"
proof -
  obtain j r b where i: "reg_insert (fs_journal fs) (fs_reg fs) ob = (j, r, b)" by (metis prod_cases3)
  then have r: "fs_reg fs' = r" using assms(2) by (cases b) (auto simp: insert_object_def)
  note e = reg_insert_effect [OF assms(1) i]
  have "reg_get r s = Some x" if "reg_get (fs_reg fs) s = Some x" for s x
    using e that reg_get_map [OF assms(1)] reg_get_map [OF e(1)] by (cases b) (auto simp: fun_upd_def split: if_splits)
  then show ?thesis using e(1) by (simp add: out_of_reach_def r)
qed

lemma update_reach:
  assumes "reg_inv reg" "reg_get reg s = Some ob" "\<not> tier_value (ob_tier ob) > t" "\<And>ob. ob_suid (f ob) = ob_suid ob"
  shows "out_of_reach t reg (reg_update reg s f) \<and> reg_inv (reg_update reg s f) \<and> reg_get (reg_update reg s f) = (reg_get reg)(s \<mapsto> f ob)"
proof -
  have e: "reg_inv (reg_update reg s f)" "reg_map (reg_update reg s f) = (reg_map reg)(s \<mapsto> f ob)"
    using reg_update_effect [OF assms(1,4), of s] assms(2) reg_get_map [OF assms(1)] by auto
  have "reg_get reg = reg_map reg" "reg_get (reg_update reg s f) = reg_map (reg_update reg s f)"
    using reg_get_map [OF assms(1)] reg_get_map [OF e(1)] by (simp_all add: fun_eq_iff)
  then show ?thesis using e assms(2,3) by (auto simp: out_of_reach_def)
qed

lemma sem_write_reach:
  assumes "reg_inv (fs_reg fs)"
  shows "out_of_reach (current_task_max_tier sc) (fs_reg fs) (fs_reg (fst (handle_sem_write sc mem h l p n fs)))"
  using update_reach [OF assms, of "suid_new h l" _ "current_task_max_tier sc"]
  by (auto simp: handle_sem_write_def Let_def install_content_def split: option.splits prod.splits)

lemma sem_link_reach:
  assumes "reg_inv (fs_reg fs)"
  shows "out_of_reach (current_task_max_tier sc) (fs_reg fs) (fs_reg (fst (handle_sem_link sc h l h' l' fs)))"
  using update_reach [OF assms, of "suid_new h l" _ "current_task_max_tier sc" "\<lambda>ob. fst (add_link ob (suid_new h' l') References)"]
  by (auto simp: handle_sem_link_def Let_def add_link_def split: option.splits)

lemma sem_delete_reach:
  assumes "reg_inv (fs_reg fs)"
  shows "out_of_reach (current_task_max_tier sc) (fs_reg fs) (fs_reg (fst (handle_sem_delete sc h l fs)))"
proof (cases "reg_get (fs_reg fs) (suid_new h l)")
  case (Some ob)
  obtain j r x where r: "reg_remove (fs_journal fs) (fs_reg fs) (suid_new h l) = (j, r, x)" by (metis prod_cases3)
  note e = reg_remove_effect [OF assms r]
  have "out_of_reach (current_task_max_tier sc) (fs_reg fs) r" if "\<not> tier_value (ob_tier ob) > current_task_max_tier sc"
    using that Some e reg_get_map [OF assms] reg_get_map [OF e(1)] by (cases x) (auto simp: out_of_reach_def)
  then show ?thesis using Some r by (auto simp: handle_sem_delete_def split: option.splits)
qed (simp add: handle_sem_delete_def)

lemma sys_tier_le: "sys_tier_from_u8 (min a t) = ty \<Longrightarrow> tier_value ty \<le> t"
  by (auto simp: sys_tier_from_u8_def min_def word_le_nat_alt unat_eq_zero split: if_splits)
   (auto simp: word_less_nat_alt unat_arith_simps)

lemma sem_create_reach:
  assumes "reg_inv (fs_reg fs)"
  shows "out_of_reach t (fs_reg fs) (fs_reg (fst (handle_sem_create sc mem h l tier info fs)))"
  using insert_object_reach [OF assms]
  by (auto simp: handle_sem_create_def Let_def split: option.splits prod.splits if_splits)

lemma inserted_object:
  assumes "reg_inv (fs_reg fs)" "insert_object fs ob = (fs', ok)" "reg_get (fs_reg fs) s = None" "reg_get (fs_reg fs') s = Some x"
  shows "x = ob"
proof -
  obtain j r b where i: "reg_insert (fs_journal fs) (fs_reg fs) ob = (j, r, b)" by (metis prod_cases3)
  then have r: "fs_reg fs' = r" using assms(2) by (cases b) (auto simp: insert_object_def)
  note e = reg_insert_effect [OF assms(1) i]
  show ?thesis using e assms(3,4) reg_get_map [OF assms(1)] reg_get_map [OF e(1)] by (cases b) (auto simp: r split: if_splits)
qed

lemma sem_create_object:
  assumes "reg_inv (fs_reg fs)" "reg_get (fs_reg fs) s = None"
    "reg_get (fs_reg (fst (handle_sem_create sc mem h l tier info fs))) s = Some ob"
  shows "tier_value (ob_tier ob) \<le> current_task_max_tier sc \<and> ob_owner ob = current_user_id sc \<and> \<not> is_policy_suid (ob_suid ob)"
proof -
  let ?t = "sys_tier_from_u8 (min (ucast tier) (current_task_max_tier sc))"
  obtain x fs' ok where x: "insert_object fs x = (fs', ok)" "fst (handle_sem_create sc mem h l tier info fs) = fs'"
    "ob_tier x = ?t" "ob_owner x = current_user_id sc" "\<not> is_policy_suid (ob_suid x)"
    using assms(2,3)
    by (auto simp: handle_sem_create_def Let_def ob_with_content_def ob_new_def split: option.splits prod.splits if_splits)
  then have "ob = x" using inserted_object [OF assms(1) x(1) assms(2)] assms(3) by simp
  then show ?thesis using x sys_tier_le by simp
qed

text \<open>
  (C12) The calls on objects respect the tiers. Reading and the metadata call give a caller the same answer for two registries
  that agree on the objects up to its tier; creating, writing, deleting and linking leave every object
  above its tier as it is; an object that comes into being has at most the caller's tier, is owned by the
  caller's user and is not a policy.
\<close>

theorem sem_calls_respect_tiers:
  assumes "reg_inv (fs_reg fs)"
  shows "((\<forall>s. seen (current_task_max_tier sc) reg s = seen (current_task_max_tier sc) reg' s)
        \<longrightarrow> handle_sem_read sc mem reg h l p = handle_sem_read sc mem reg' h l p
          \<and> handle_sem_meta sc mem reg h l p = handle_sem_meta sc mem reg' h l p)
    \<and> out_of_reach (current_task_max_tier sc) (fs_reg fs) (fs_reg (fst (handle_sem_create sc mem h l tier info fs)))
    \<and> out_of_reach (current_task_max_tier sc) (fs_reg fs) (fs_reg (fst (handle_sem_write sc mem h l p n fs)))
    \<and> out_of_reach (current_task_max_tier sc) (fs_reg fs) (fs_reg (fst (handle_sem_delete sc h l fs)))
    \<and> out_of_reach (current_task_max_tier sc) (fs_reg fs) (fs_reg (fst (handle_sem_link sc h l h' l' fs)))
    \<and> (\<forall>s ob. reg_get (fs_reg fs) s = None
        \<and> reg_get (fs_reg (fst (handle_sem_create sc mem h l tier info fs))) s = Some ob
        \<longrightarrow> tier_value (ob_tier ob) \<le> current_task_max_tier sc \<and> ob_owner ob = current_user_id sc \<and> \<not> is_policy_suid (ob_suid ob))"
proof (intro conjI impI)
  assume "\<forall>s. seen (current_task_max_tier sc) reg s = seen (current_task_max_tier sc) reg' s"
  then have e: "seen (current_task_max_tier sc) reg (suid_new h l) = seen (current_task_max_tier sc) reg' (suid_new h l)" by blast
  show "handle_sem_read sc mem reg h l p = handle_sem_read sc mem reg' h l p"
    using e by (auto simp: handle_sem_read_def seen_def split: option.splits if_splits)
  show "handle_sem_meta sc mem reg h l p = handle_sem_meta sc mem reg' h l p"
    using e by (auto simp: handle_sem_meta_def seen_def split: option.splits if_splits)
next
  show "\<forall>s ob. reg_get (fs_reg fs) s = None
        \<and> reg_get (fs_reg (fst (handle_sem_create sc mem h l tier info fs))) s = Some ob
        \<longrightarrow> tier_value (ob_tier ob) \<le> current_task_max_tier sc \<and> ob_owner ob = current_user_id sc \<and> \<not> is_policy_suid (ob_suid ob)"
    by (intro allI impI, elim conjE) (rule sem_create_object [OF assms])
qed (rule sem_create_reach [OF assms] sem_write_reach [OF assms] sem_delete_reach [OF assms] sem_link_reach [OF assms])+

text \<open>At boot, in a file system with one secret object.\<close>

theorem sem_calls_respect_tiers_witness:
  "\<exists>fs :: unit fs. \<exists>ob. reg_inv (fs_reg fs) \<and> reg_get (fs_reg fs) (suid_new 7 7) = Some ob
     \<and> out_of_reach (current_task_max_tier sched_boot) (fs_reg fs) (fs_reg (fst (handle_sem_delete sched_boot 7 7 fs)))"
proof -
  let ?ob = "ob_new (suid_new 7 7) Secret 3"
  obtain reg where r: "reg_inv reg" "reg_get reg = [suid_new 7 7 \<mapsto> ?ob]" using registry_of_one [of ?ob] by (auto simp: ob_new_def)
  let ?fs = "\<lparr>fs_heap = heap_boot, fs_journal = None :: unit journal option, fs_reg = reg, fs_counter = 0\<rparr>"
  show ?thesis using sem_calls_respect_tiers [of ?fs sched_boot reg reg "\<lambda>_. 0" 7 7 0 0 0 0 0 0] r
    by (intro exI [of _ ?fs] exI [of _ ?ob]) auto
qed

section \<open>The query\<close>

lemma query_step_simps:
  "tier_value (ob_tier ob) \<le> f \<Longrightarrow> w < k \<Longrightarrow> query_step f k ob (out, w, c)
     = (copy_into (w * 16 + 8) (le_bytes 8 (low (ob_suid ob))) (copy_into (w * 16) (le_bytes 8 (high (ob_suid ob))) out), w + 1, c + 1)"
  "\<not> (tier_value (ob_tier ob) \<le> f \<and> w < k) \<Longrightarrow> query_step f k ob (out, w, c)
     = (out, w, if tier_value (ob_tier ob) \<le> f then c + 1 else c)"
  by (auto simp: query_step_def Let_def)

lemma query_fold:
  assumes "k \<le> 64" "w \<le> k" "length out = 1024"
    "fold (query_step f k) obs (out, w, c) = (out', w', c')"
  shows "length out' = 1024 \<and> w' = w + min (k - w) (length (filter (\<lambda>ob. tier_value (ob_tier ob) \<le> f) obs))
    \<and> c' = c + length (filter (\<lambda>ob. tier_value (ob_tier ob) \<le> f) obs)
    \<and> take (w' * 16) out' = take (w * 16) out
        @ concat (map (\<lambda>ob. suid_le (ob_suid ob)) (take (k - w) (filter (\<lambda>ob. tier_value (ob_tier ob) \<le> f) obs)))"
  using assms
proof (induction obs arbitrary: out w c)
  case (Cons ob obs)
  show ?case
  proof (cases "tier_value (ob_tier ob) \<le> f \<and> w < k")
    case True
    let ?out = "copy_into (w * 16 + 8) (le_bytes 8 (low (ob_suid ob))) (copy_into (w * 16) (le_bytes 8 (high (ob_suid ob))) out)"
    have b: "w * 16 + 16 \<le> length out" using True Cons.prems(1,3) by simp
    then have o: "length ?out = 1024" "take ((w + 1) * 16) ?out = take (w * 16) out @ suid_le (ob_suid ob)"
      using Cons.prems(3) by (simp_all add: copy_into_def suid_le_def)
    have "fold (query_step f k) obs (?out, w + 1, c + 1) = (out', w', c')"
      using Cons.prems(4) True by (simp only: fold_simps query_step_simps(1))
    note ih = Cons.IH [OF Cons.prems(1) _ o(1) this]
    have "k - w = Suc (k - Suc w)" using True by auto
    then show ?thesis using ih True o by auto
  next
    case False
    then have "fold (query_step f k) obs (out, w, if tier_value (ob_tier ob) \<le> f then c + 1 else c) = (out', w', c')"
      using Cons.prems(4) unfolding fold_simps query_step_simps(2) [OF False] by simp
    note ih = Cons.IH [OF Cons.prems(1-3) this]
    show ?thesis using ih False Cons.prems(2) by auto
  qed
qed simp

text \<open>
  The query answers the number of all objects at or below both the tier asked for and the tier of the caller, and
  writes the identifiers of the first of them, in table order and at most 64, sixteen bytes each; no
  identifier of any other object is written.
\<close>

theorem sem_query_exact:
  "handle_sem_query sc mem reg f p n =
     (let obs = filter (\<lambda>ob. tier_value (ob_tier ob) \<le> min (ucast f) (current_task_max_tier sc)) (reg_iter reg);
          k = min (unat n) 64
      in if obs = [] \<or> k = 0 then (mem, of_nat (length obs))
         else let (mem', ok) = write_to_caller sc mem p (concat (map (\<lambda>ob. suid_le (ob_suid ob)) (take k obs)))
              in (mem', if ok then of_nat (length obs) else U64_MAX))"
proof -
  define t where "t = min (ucast f) (current_task_max_tier sc)"
  define k where "k = min (unat n) 64"
  obtain out w c where q: "fold (query_step t k) (reg_iter reg) (replicate 1024 0, 0, 0) = (out, w, c)" by (metis prod_cases3)
  let ?obs = "filter (\<lambda>ob. tier_value (ob_tier ob) \<le> t) (reg_iter reg)"
  have r: "w = min k (length ?obs)" "c = length ?obs" "take (w * 16) out = concat (map (\<lambda>ob. suid_le (ob_suid ob)) (take k ?obs))"
    using query_fold [OF _ _ _ q] by (auto simp: k_def)
  have q': "fold (query_step t k) (reg_iter reg) (replicate (64 * 16) 0, 0, 0) = (out, w, c)" using q by simp
  have "handle_sem_query sc mem reg f p n =
      (if w > 0 then case write_to_caller sc mem p (take (w * 16) out) of (mem', ok) \<Rightarrow> (mem', if ok then of_nat c else U64_MAX)
       else (mem, of_nat c))"
    unfolding handle_sem_query_def Let_def t_def [symmetric] k_def [symmetric] q' by simp
  then show ?thesis unfolding t_def [symmetric] k_def [symmetric] Let_def r(2,3) using r(1) by simp
qed

section \<open>Policies and the generic calls\<close>

lemma set_policy_refused:
  assumes "stored_policy (fs_reg fs) (suid_new h l) = Some pol" "\<not> can_modify pol (current_user_id sc)"
  shows "handle_llm_set_policy sc mem now h l p n fs \<in> {(fs, U64_MAX - 1), (fs, U64_MAX - 2)}"
proof -
  have "\<not> may_set_policy (fs_reg fs) (suid_new h l) (current_user_id sc)"
    using assms by (auto simp: may_set_policy_def stored_policy_def split: option.splits sum.splits)
  then show ?thesis by (auto simp: handle_llm_set_policy_def Let_def split: option.split sum.split prod.split)
qed

text \<open>
  (C16) A stored policy is an ordinary object to the calls on objects. A task of the Secret tier whose user may not
  modify a stored policy, so that \<open>handle_llm_set_policy\<close> refuses it with whatever data and changes nothing,
  makes the policy disappear for the evaluation by writing zero bytes to its object.
\<close>

theorem policy_disabled_by_sem_write:
  assumes "reg_inv (fs_reg fs)" "reg_get (fs_reg fs) (suid_new h l) = Some ob" "ob_tier ob = Secret" "ob_flags ob = OF_NONE"
    "stored_policy (fs_reg fs) (suid_new h l) = Some pol" "\<not> can_modify pol (current_user_id sc)"
    "current_task_max_tier sc = 3"
  shows "(\<forall>mem now q n. handle_llm_set_policy sc mem now h l q n fs \<in> {(fs, U64_MAX - 1), (fs, U64_MAX - 2)})
    \<and> snd (handle_sem_write sc mem h l p 0 fs) = 0
    \<and> stored_policy (fs_reg (fst (handle_sem_write sc mem h l p 0 fs))) (suid_new h l) = None"
proof -
  obtain c where c: "from_inline [] = Some c" "as_bytes c = Some []" by (auto simp: from_inline_def)
  have w: "handle_sem_write sc mem h l p 0 fs = (install_content (fs\<lparr>fs_heap := fs_heap fs\<rparr>) (suid_new h l) c, 0)"
    using assms(2-4,7) c(1) by (simp add: handle_sem_write_def Let_def is_immutable_def OF_NONE_def content_from_bytes_def)
  have "reg_get (reg_update (fs_reg fs) (suid_new h l) (\<lambda>ob. ob\<lparr>ob_content := c\<rparr>)) (suid_new h l) = Some (ob\<lparr>ob_content := c\<rparr>)"
    using update_reach [OF assms(1,2), of 3 "\<lambda>ob. ob\<lparr>ob_content := c\<rparr>"] assms(3) by simp
  then show ?thesis using c(2) set_policy_refused [OF assms(5,6)] unfolding w
    by (simp add: install_content_def stored_policy_def policy_deserialize_def POLICY_HEADER_def)
qed

text \<open>The first system policy, owned by the administrator, and a task of tier 3 of the user 9.\<close>

theorem policy_disabled_by_sem_write_witness:
  "\<exists>(fs :: unit fs) sc pol. current_user_id sc = 9 \<and> po_owner pol = USER_ADMIN
     \<and> stored_policy (fs_reg fs) (suid_new 0x7000000000000000 0) = Some pol
     \<and> (\<forall>mem now q n. handle_llm_set_policy sc mem now 0x7000000000000000 0 q n fs \<in> {(fs, U64_MAX - 1), (fs, U64_MAX - 2)})
     \<and> snd (handle_sem_write sc (\<lambda>_. 0) 0x7000000000000000 0 0 0 fs) = 0
     \<and> stored_policy (fs_reg (fst (handle_sem_write sc (\<lambda>_. 0) 0x7000000000000000 0 0 0 fs))) (suid_new 0x7000000000000000 0) = None"
proof -
  let ?p = "fst (add_rule (policy_new ObjectAccess Everyone USER_ADMIN 200) (rule_simple Always Deny))"
  let ?data = "header_bytes ?p @ concat (map rule_bytes (policy_rules ?p))"
  have b: "built_policy ?p" by (intro built_policy.intros built_rule.intros) (simp_all add: target_wf_def)
  have o: "po_rule_count ?p = 1" "po_owner ?p = USER_ADMIN"
    by (simp_all add: add_rule_def policy_new_def policy_empty_def MAX_RULES_PER_POLICY_def)
  have d: "policy_deserialize ?data = Ok ?p" "length ?data = 144"
    using policy_bytes_decode [of ?p] built_policy_canon [OF b] o by (simp_all add: POLICY_HEADER_def POLICY_RULE_def)
  obtain c where c: "from_inline ?data = Some c" using d(2) from_inline_None_iff [of ?data] by (cases "from_inline ?data") auto
  let ?ob = "(ob_new (suid_new 0x7000000000000000 0) Secret USER_ADMIN)\<lparr>ob_content := c\<rparr>"
  obtain reg where r: "reg_inv reg" "reg_get reg = [suid_new 0x7000000000000000 0 \<mapsto> ?ob]"
    using registry_of_one [of ?ob] by (auto simp: ob_new_def)
  let ?fs = "\<lparr>fs_heap = heap_boot, fs_journal = None :: unit journal option, fs_reg = reg, fs_counter = 0\<rparr>"
  let ?sc = "upd_task (sc_current sched_boot) (\<lambda>t. t\<lparr>ti_user_id := 9, ti_max_tier := 3\<rparr>) sched_boot"
  have t: "current_task_max_tier ?sc = 3" "current_user_id ?sc = 9"
    by (simp_all add: current_task_max_tier_def current_user_id_def current_task_def upd_task_def sched_boot_def MAX_TASKS_def)
  have s: "stored_policy (fs_reg ?fs) (suid_new 0x7000000000000000 0) = Some ?p"
    using r(2) from_inline_bytes [OF c] d(1) by (simp add: stored_policy_def)
  have m: "\<not> can_modify ?p (current_user_id ?sc)" using o t by (simp add: can_modify_def USER_ADMIN_def)
  have g: "reg_get (fs_reg ?fs) (suid_new 0x7000000000000000 0) = Some ?ob" using r by simp
  show ?thesis using policy_disabled_by_sem_write [OF _ g _ _ s m t(1), of "\<lambda>_. 0" 0] r(1) s t o(2)
    by (intro exI [of _ ?fs] exI [of _ ?sc] exI [of _ ?p]) (simp add: ob_new_def)
qed

end
