(* ===== verification/Elf.thy ===== *)
theory Elf
  imports Syscalls Frames
begin

text \<open>
  The program loader: \<^verbatim>\<open>src/kernel-core/src/process/elf.rs\<close>. Addresses and sizes are 64-bit words, and a sum that
  overflows wraps, as in the release build of the kernel. A slice outside the file is a panic; a
  program header that is read outside the file through a raw pointer has no defined result. Log output and the generated demo programs other than
  the smallest are left out.
\<close>

section \<open>Definitions: the file format\<close>

datatype arch = X86_64 | AArch64

definition ELF_MAGIC :: "u8 list" where "ELF_MAGIC = [0x7F, 0x45, 0x4C, 0x46]"
definition ELFCLASS64 :: u8 where "ELFCLASS64 = 2"
definition ELFDATA2LSB :: u8 where "ELFDATA2LSB = 1"
definition EM_AARCH64 :: u16 where "EM_AARCH64 = 183"
definition EM_X86_64 :: u16 where "EM_X86_64 = 62"
definition ET_EXEC :: u16 where "ET_EXEC = 2"
definition ET_DYN :: u16 where "ET_DYN = 3"
definition PT_LOAD :: u32 where "PT_LOAD = 1"
definition PF_X :: u32 where "PF_X = 1"
definition PF_W :: u32 where "PF_W = 2"
definition PF_R :: u32 where "PF_R = 4"

fun EXPECTED_MACHINE :: "arch \<Rightarrow> u16" where
  "EXPECTED_MACHINE AArch64 = EM_AARCH64"
| "EXPECTED_MACHINE X86_64 = EM_X86_64"

record elf64_header =
  e_ident :: "u8 list"
  e_type :: u16
  e_machine :: u16
  e_version :: u32
  e_entry :: u64
  e_phoff :: u64
  e_shoff :: u64
  e_flags :: u32
  e_ehsize :: u16
  e_phentsize :: u16
  e_phnum :: u16
  e_shentsize :: u16
  e_shnum :: u16
  e_shstrndx :: u16

text \<open>The packed struct as it lies in the first 64 bytes.\<close>

definition read_header :: "u8 list \<Rightarrow> elf64_header" where
  "read_header d =
     \<lparr>e_ident = slice 0 16 d, e_type = of_le_bytes (slice 16 2 d), e_machine = of_le_bytes (slice 18 2 d),
      e_version = of_le_bytes (slice 20 4 d), e_entry = of_le_bytes (slice 24 8 d), e_phoff = of_le_bytes (slice 32 8 d),
      e_shoff = of_le_bytes (slice 40 8 d), e_flags = of_le_bytes (slice 48 4 d), e_ehsize = of_le_bytes (slice 52 2 d),
      e_phentsize = of_le_bytes (slice 54 2 d), e_phnum = of_le_bytes (slice 56 2 d),
      e_shentsize = of_le_bytes (slice 58 2 d), e_shnum = of_le_bytes (slice 60 2 d), e_shstrndx = of_le_bytes (slice 62 2 d)\<rparr>"

record elf64_phdr =
  p_type :: u32
  p_flags :: u32
  p_offset :: u64
  p_vaddr :: u64
  p_paddr :: u64
  p_filesz :: u64
  p_memsz :: u64
  p_align :: u64

definition read_phdr :: "u8 list \<Rightarrow> elf64_phdr" where
  "read_phdr d =
     \<lparr>p_type = of_le_bytes (slice 0 4 d), p_flags = of_le_bytes (slice 4 4 d), p_offset = of_le_bytes (slice 8 8 d),
      p_vaddr = of_le_bytes (slice 16 8 d), p_paddr = of_le_bytes (slice 24 8 d), p_filesz = of_le_bytes (slice 32 8 d),
      p_memsz = of_le_bytes (slice 40 8 d), p_align = of_le_bytes (slice 48 8 d)\<rparr>"

record elf_info =
  ei_entry :: u64
  ei_base :: u64
  ei_brk :: u64
  ei_stack_top :: u64
  ei_num_segments :: nat

datatype elf_error =
    BadMagic | WrongClass | WrongEndian | WrongMachine | UnsupportedType | TooSmall | BadProgramHeader
  | OverlapsKernel | OutOfMemory

definition PIE_BASE :: u64 where "PIE_BASE = 0x400000"
definition STACK_TOP :: u64 where "STACK_TOP = 0x7FFFFF0000"
definition KERNEL_SPACE :: u64 where "KERNEL_SPACE = 0xFFFF000000000000"

section \<open>Definitions: loading\<close>

datatype 'a run = Returns 'a | Panics | Undefined_Read

definition validate_header :: "arch \<Rightarrow> u8 list \<Rightarrow> elf_error + elf64_header" where
  "validate_header a data =
     (if length data < 64 then Inl TooSmall
      else let eh = read_header data
           in if slice 0 4 (e_ident eh) \<noteq> ELF_MAGIC then Inl BadMagic
              else if e_ident eh ! 4 \<noteq> ELFCLASS64 then Inl WrongClass
              else if e_ident eh ! 5 \<noteq> ELFDATA2LSB then Inl WrongEndian
              else if e_machine eh \<noteq> EXPECTED_MACHINE a then Inl WrongMachine
              else if e_type eh \<noteq> ET_EXEC \<and> e_type eh \<noteq> ET_DYN then Inl UnsupportedType
              else Inr eh)"

definition get_phdr :: "u8 list \<Rightarrow> elf64_header \<Rightarrow> nat \<Rightarrow> (elf_error + elf64_phdr) run" where
  "get_phdr data eh index =
     (let offset = e_phoff eh + of_nat index * ucast (e_phentsize eh);
          ende = offset + 56
      in if unat ende > length data then Returns (Inl BadProgramHeader)
         else if unat offset + 56 > length data then Undefined_Read
         else Returns (Inr (read_phdr (slice (unat offset) 56 data))))"

text \<open>The loop of \<open>load_elf\<close> over the indices that are left; it answers the highest address and the number of segments.\<close>

fun load_loop ::
  "u8 list \<Rightarrow> elf64_header \<Rightarrow> u64 \<Rightarrow> nat list \<Rightarrow> u64 \<Rightarrow> nat \<Rightarrow> (u64 \<times> nat) option run" where
  "load_loop data eh base [] max_addr num_segments = Returns (Some (max_addr, num_segments))"
| "load_loop data eh base (i # is) max_addr num_segments =
     (case get_phdr data eh i of
        Panics \<Rightarrow> Panics
      | Undefined_Read \<Rightarrow> Undefined_Read
      | Returns (Inl e) \<Rightarrow> Returns None
      | Returns (Inr phdr) \<Rightarrow>
          (if p_type phdr \<noteq> PT_LOAD then load_loop data eh base is max_addr num_segments
           else let vaddr = p_vaddr phdr + base
                in if vaddr \<ge> KERNEL_SPACE then Returns None
                   else if unat (p_offset phdr + p_filesz phdr) > length data then Returns None
                   else let end_addr = vaddr + p_memsz phdr
                        in load_loop data eh base is (if end_addr > max_addr then end_addr else max_addr) (num_segments + 1)))"

definition load_elf :: "arch \<Rightarrow> u8 list \<Rightarrow> elf_info option run" where
  "load_elf a data =
     (case validate_header a data of
        Inl e \<Rightarrow> Returns None
      | Inr eh \<Rightarrow>
          (let base = (if e_type eh = ET_DYN then PIE_BASE else 0)
           in case load_loop data eh base [0..<unat (e_phnum eh)] 0 0 of
                Panics \<Rightarrow> Panics
              | Undefined_Read \<Rightarrow> Undefined_Read
              | Returns None \<Rightarrow> Returns None
              | Returns (Some (max_addr, num_segments)) \<Rightarrow>
                  (if num_segments = 0 then Returns None
                   else Returns (Some \<lparr>ei_entry = e_entry eh + base, ei_base = base,
                          ei_brk = (max_addr + 0xFFF) AND NOT 0xFFF, ei_stack_top = STACK_TOP, ei_num_segments = num_segments\<rparr>))))"

text \<open>The body of \<open>load_segments\<close> for one segment: the copy, which panics on a slice outside the file, and the zeroes behind it.\<close>

definition load_segment :: "u8 list \<Rightarrow> u64 \<Rightarrow> elf64_phdr \<Rightarrow> memory \<Rightarrow> memory run" where
  "load_segment data base phdr mem =
     (let vaddr = p_vaddr phdr + base;
          start = unat (p_offset phdr);
          ende = unat (p_offset phdr + p_filesz phdr)
      in if p_filesz phdr > 0 \<and> (start > ende \<or> ende > length data) then Panics
         else let mem = (if p_filesz phdr > 0 then mem_write mem vaddr (slice start (ende - start) data) else mem)
              in Returns (if p_memsz phdr > p_filesz phdr
                          then mem_write mem (vaddr + p_filesz phdr) (replicate (unat (p_memsz phdr - p_filesz phdr)) 0)
                          else mem))"

fun segments_loop ::
  "u8 list \<Rightarrow> elf64_header \<Rightarrow> u64 \<Rightarrow> nat list \<Rightarrow> memory \<Rightarrow> (memory \<times> (elf_error + unit)) run" where
  "segments_loop data eh base [] mem = Returns (mem, Inr ())"
| "segments_loop data eh base (i # is) mem =
     (case get_phdr data eh i of
        Panics \<Rightarrow> Panics
      | Undefined_Read \<Rightarrow> Undefined_Read
      | Returns (Inl e) \<Rightarrow> Returns (mem, Inl e)
      | Returns (Inr phdr) \<Rightarrow>
          (if p_type phdr \<noteq> PT_LOAD then segments_loop data eh base is mem
           else case load_segment data base phdr mem of
                  Returns mem \<Rightarrow> segments_loop data eh base is mem
                | Panics \<Rightarrow> Panics
                | Undefined_Read \<Rightarrow> Undefined_Read))"

definition load_segments :: "arch \<Rightarrow> u8 list \<Rightarrow> elf_info \<Rightarrow> memory \<Rightarrow> (memory \<times> (elf_error + unit)) run" where
  "load_segments a data info mem =
     (case validate_header a data of
        Inl e \<Rightarrow> Returns (mem, Inl e)
      | Inr eh \<Rightarrow> segments_loop data eh (ei_base info) [0..<unat (e_phnum eh)] mem)"

fun flag_str :: "bool \<Rightarrow> bool \<Rightarrow> bool \<Rightarrow> string" where
  "flag_str True False False = ''R--''"
| "flag_str True True False = ''RW-''"
| "flag_str True False True = ''R-X''"
| "flag_str True True True = ''RWX''"
| "flag_str False False True = ''--X''"
| "flag_str False True False = ''-W-''"
| "flag_str False True True = ''-WX''"
| "flag_str False False False = ''---''"

definition flags_str :: "u32 \<Rightarrow> string" where
  "flags_str flags = flag_str (flags AND PF_R \<noteq> 0) (flags AND PF_W \<noteq> 0) (flags AND PF_X \<noteq> 0)"

text \<open>The smallest program: the stores into the buffer in the order of the source, and the code for each architecture.\<close>

fun exit_code_bytes :: "arch \<Rightarrow> u8 list" where
  "exit_code_bytes X86_64 = [0x31, 0xFF, 0xB8] @ le_bytes 4 (2 :: u32) @ [0x0F, 0x05]"
| "exit_code_bytes AArch64 = le_bytes 4 (0xd2800000 :: u32) @ le_bytes 4 (0xd2800048 :: u32) @ le_bytes 4 (0xd4000001 :: u32)"

definition create_test_elf :: "arch \<Rightarrow> u8 list" where
  "create_test_elf a =
     fold (\<lambda>(off, bs). copy_into off bs)
       [(0, ELF_MAGIC), (4, [ELFCLASS64]), (5, [ELFDATA2LSB]), (6, [1]),
        (16, le_bytes 2 ET_EXEC), (18, le_bytes 2 (EXPECTED_MACHINE a)), (20, le_bytes 4 (1 :: u32)),
        (24, le_bytes 8 (0x400078 :: u64)), (32, le_bytes 8 (64 :: u64)), (52, le_bytes 2 (64 :: u16)),
        (54, le_bytes 2 (56 :: u16)), (56, le_bytes 2 (1 :: u16)),
        (64, le_bytes 4 PT_LOAD), (68, le_bytes 4 (PF_R OR PF_X)), (72, le_bytes 8 (0 :: u64)),
        (80, le_bytes 8 (0x400000 :: u64)), (88, le_bytes 8 (0x400000 :: u64)), (96, le_bytes 8 (256 :: u64)),
        (104, le_bytes 8 (256 :: u64)), (112, le_bytes 8 (0x1000 :: u64)), (120, exit_code_bytes a)]
       (replicate 256 0)"

section \<open>Headers inside the file\<close>

text \<open>The offset of a program header and the header there, in exact arithmetic.\<close>

definition phdr_off :: "elf64_header \<Rightarrow> nat \<Rightarrow> nat" where
  "phdr_off eh i = unat (e_phoff eh) + i * unat (e_phentsize eh)"

definition phdr_at :: "u8 list \<Rightarrow> elf64_header \<Rightarrow> nat \<Rightarrow> elf64_phdr" where
  "phdr_at data eh i = read_phdr (slice (phdr_off eh i) 56 data)"

text \<open>The sizes and addresses in the file do not overflow 64 bits.\<close>

definition no_wrap :: "u8 list \<Rightarrow> elf64_header \<Rightarrow> u64 \<Rightarrow> bool" where
  "no_wrap data eh base =
     (phdr_off eh (unat (e_phnum eh)) + 56 < 2 ^ 64
      \<and> (\<forall>i < unat (e_phnum eh). p_type (phdr_at data eh i) = PT_LOAD
          \<longrightarrow> unat (p_offset (phdr_at data eh i)) + unat (p_filesz (phdr_at data eh i)) < 2 ^ 64
            \<and> unat (p_vaddr (phdr_at data eh i) + base) + unat (p_memsz (phdr_at data eh i)) + 0xFFF < 2 ^ 64
            \<and> unat (p_vaddr (phdr_at data eh i) + base) + unat (p_filesz (phdr_at data eh i)) < 2 ^ 64))"

lemma get_phdr_exact:
  assumes "phdr_off eh i + 56 < 2 ^ 64" "i < 2 ^ 16"
  shows "get_phdr data eh i = (if phdr_off eh i + 56 \<le> length data then Returns (Inr (phdr_at data eh i)) else Returns (Inl BadProgramHeader))"
proof -
  have i: "unat (of_nat i :: u64) = i" using assms(2) by (simp add: unat_of_nat take_bit_nat_eq_self)
  have "unat (ucast (e_phentsize eh) :: u64) = unat (e_phentsize eh)" using unsigned_less [of "e_phentsize eh", where 'a = nat] by (simp add: unsigned_ucast_eq take_bit_nat_eq_self)
  then have "unat (of_nat i * ucast (e_phentsize eh) :: u64) = i * unat (e_phentsize eh)"
    using assms(1) i by (simp add: unat_word_ariths phdr_off_def)
  then have o: "unat (e_phoff eh + of_nat i * ucast (e_phentsize eh)) = phdr_off eh i"
    using assms(1) by (simp add: unat_word_ariths phdr_off_def)
  then have "unat (e_phoff eh + of_nat i * ucast (e_phentsize eh) + 56) = phdr_off eh i + 56"
    using assms(1) by (simp add: unat_word_ariths)
  then show ?thesis using o by (simp add: get_phdr_def Let_def phdr_at_def)
qed

section \<open>What the loader accepts\<close>

definition loadable :: "u8 list \<Rightarrow> elf64_header \<Rightarrow> nat \<Rightarrow> bool" where
  "loadable data eh i = (p_type (phdr_at data eh i) = PT_LOAD)"

text \<open>A segment that passed the checks: it lies in the file, starts below the kernel and ends at or below \<open>lim\<close>.\<close>

definition segment_ok :: "u8 list \<Rightarrow> elf64_header \<Rightarrow> u64 \<Rightarrow> nat \<Rightarrow> nat \<Rightarrow> bool" where
  "segment_ok data eh base lim i =
     (unat (p_offset (phdr_at data eh i)) + unat (p_filesz (phdr_at data eh i)) \<le> length data
      \<and> p_vaddr (phdr_at data eh i) + base < KERNEL_SPACE
      \<and> unat (p_vaddr (phdr_at data eh i) + base) + unat (p_memsz (phdr_at data eh i)) \<le> lim)"

lemma segment_ok_mono: "segment_ok data eh base lim i \<Longrightarrow> lim \<le> lim' \<Longrightarrow> segment_ok data eh base lim' i"
  by (auto simp: segment_ok_def)

lemma phdr_off_mono: "i \<le> j \<Longrightarrow> phdr_off eh i \<le> phdr_off eh j"
  by (simp add: phdr_off_def)

lemma get_phdr_no_wrap:
  assumes "no_wrap data eh base" "i < unat (e_phnum eh)"
  shows "get_phdr data eh i = (if phdr_off eh i + 56 \<le> length data then Returns (Inr (phdr_at data eh i)) else Returns (Inl BadProgramHeader))"
proof (rule get_phdr_exact)
  show "phdr_off eh i + 56 < 2 ^ 64" using assms phdr_off_mono [of i "unat (e_phnum eh)" eh] by (simp add: no_wrap_def)
  show "i < 2 ^ 16" using assms(2) unsigned_less [of "e_phnum eh", where 'a = nat] by simp
qed

lemma load_loop_checks:
  assumes "no_wrap data eh base" "\<forall>i \<in> set is. i < unat (e_phnum eh)" "load_loop data eh base is m n = Returns (Some (m', n'))"
    "unat m + 0xFFF < 2 ^ 64"
  shows "unat m \<le> unat m' \<and> unat m' + 0xFFF < 2 ^ 64 \<and> n' = n + length (filter (loadable data eh) is)
    \<and> (\<forall>i \<in> set is. phdr_off eh i + 56 \<le> length data \<and> (loadable data eh i \<longrightarrow> segment_ok data eh base (unat m') i))"
  using assms(2-4)
proof (induction "is" arbitrary: m n)
  case (Cons i "is")
  have g: "get_phdr data eh i = Returns (Inr (phdr_at data eh i))" "phdr_off eh i + 56 \<le> length data"
    using get_phdr_no_wrap [OF assms(1), of i] Cons.prems(1,2) by (auto split: if_splits)
  let ?ph = "phdr_at data eh i"
  show ?case
  proof (cases "loadable data eh i")
    case False
    then show ?thesis using Cons.IH [of m n] Cons.prems g by (auto simp: loadable_def)
  next
    case True
    define ende where "ende = p_vaddr ?ph + base + p_memsz ?ph"
    have w: "unat (p_offset ?ph) + unat (p_filesz ?ph) < 2 ^ 64" "unat (p_vaddr ?ph + base) + unat (p_memsz ?ph) + 0xFFF < 2 ^ 64"
      using assms(1) Cons.prems(1) True by (auto simp: no_wrap_def loadable_def)
    then have e: "unat ende = unat (p_vaddr ?ph + base) + unat (p_memsz ?ph)" "unat (p_offset ?ph + p_filesz ?ph) = unat (p_offset ?ph) + unat (p_filesz ?ph)"
      by (simp_all add: ende_def unat_word_ariths)
    define m1 where "m1 = (if ende > m then ende else m)"
    have l: "load_loop data eh base is m1 (n + 1) = Returns (Some (m', n'))" "p_vaddr ?ph + base < KERNEL_SPACE"
      "unat (p_offset ?ph + p_filesz ?ph) \<le> length data"
      using Cons.prems(2) g(1) True by (auto simp: loadable_def Let_def ende_def [symmetric] m1_def split: if_splits)
    have m1: "unat m \<le> unat m1" "unat ende \<le> unat m1" "unat m1 + 0xFFF < 2 ^ 64"
      using Cons.prems(3) w(2) e(1) by (auto simp: m1_def word_less_nat_alt)
    note ih = Cons.IH [OF _ l(1) m1(3)]
    have "segment_ok data eh base (unat m1) i" using l e m1(2) by (simp add: segment_ok_def)
    then show ?thesis using ih m1(1) g(2) True Cons.prems(1) by (auto intro: segment_ok_mono)
  qed
qed auto

definition load_base :: "elf64_header \<Rightarrow> u64" where
  "load_base eh = (if e_type eh = ET_DYN then PIE_BASE else 0)"

lemma page_round_up:
  fixes m :: u64
  assumes "unat m + 0xFFF < 2 ^ 64"
  shows "unat m \<le> unat ((m + 0xFFF) AND NOT 0xFFF)" "unat ((m + 0xFFF) AND NOT 0xFFF) mod 4096 = 0"
proof -
  have "(0xFFF :: u64) = mask 12" by (simp add: mask_eq_exp_minus_1)
  then have u: "unat ((m + 0xFFF) AND NOT 0xFFF) = (unat m + 0xFFF) div 2 ^ 12 * 2 ^ 12"
    using assms and_not_mask_unat [of "m + 0xFFF" 12] by (simp add: unat_word_ariths)
  show "unat m \<le> unat ((m + 0xFFF) AND NOT 0xFFF)" "unat ((m + 0xFFF) AND NOT 0xFFF) mod 4096 = 0" unfolding u by simp_all
qed

lemma accepted_program:
  assumes "load_elf a data = Returns (Some info)" "no_wrap data (read_header data) (load_base (read_header data))"
  shows "let eh = read_header data
    in validate_header a data = Inr eh \<and> ei_base info = load_base eh \<and> ei_entry info = e_entry eh + load_base eh
     \<and> (\<forall>i < unat (e_phnum eh). phdr_off eh i + 56 \<le> length data
          \<and> (loadable data eh i \<longrightarrow> segment_ok data eh (load_base eh) (unat (ei_brk info)) i))
     \<and> unat (ei_brk info) mod 4096 = 0
     \<and> ei_num_segments info = length (filter (loadable data eh) [0..<unat (e_phnum eh)]) \<and> 0 < ei_num_segments info"
proof -
  define eh where "eh = read_header data"
  have v: "validate_header a data = Inr eh"
    using assms(1) unfolding load_elf_def eh_def by (auto simp: validate_header_def Let_def split: if_splits)
  obtain m n where l: "load_loop data eh (load_base eh) [0..<unat (e_phnum eh)] 0 0 = Returns (Some (m, n))" "n \<noteq> 0"
    "info = \<lparr>ei_entry = e_entry eh + load_base eh, ei_base = load_base eh, ei_brk = (m + 0xFFF) AND NOT 0xFFF,
      ei_stack_top = STACK_TOP, ei_num_segments = n\<rparr>"
    using assms(1) v unfolding load_elf_def
    by (auto simp: Let_def load_base_def split: run.splits option.splits if_splits)
  note c = load_loop_checks [OF assms(2) [folded eh_def] _ l(1)]
  have m: "unat m + 0xFFF < 2 ^ 64" using c by simp
  show ?thesis unfolding eh_def [symmetric] Let_def
    using v l(2,3) c page_round_up [OF m] by (auto intro: segment_ok_mono)
qed

text \<open>
  What the loader accepts is sound when the numbers in the file do not overflow: the magic, class, byte
  order, machine and type are right, every program header and the file part of every loadable segment
  lie inside the file, every segment starts below the kernel, the break is page aligned and not below the
  end of any segment, and the count of segments is exact and positive.
\<close>

theorem load_elf_checks:
  assumes "load_elf a data = Returns (Some info)" "no_wrap data (read_header data) (load_base (read_header data))"
  shows "let eh = read_header data
    in validate_header a data = Inr eh \<and> ei_base info = load_base eh \<and> ei_entry info = e_entry eh + load_base eh
     \<and> (\<forall>i < unat (e_phnum eh). phdr_off eh i + 56 \<le> length data
          \<and> (loadable data eh i \<longrightarrow> segment_ok data eh (load_base eh) (unat (ei_brk info)) i))
     \<and> unat (ei_brk info) mod 4096 = 0
     \<and> ei_num_segments info = length (filter (loadable data eh) [0..<unat (e_phnum eh)]) \<and> 0 < ei_num_segments info"
  by (rule accepted_program [OF assms])

section \<open>What the loader writes\<close>

lemma mem_write_range:
  assumes "unat p + length bs \<le> 2 ^ 64"
  shows "mem_write m p bs a = (if unat p \<le> unat a \<and> unat a < unat p + length bs then bs ! (unat a - unat p) else m a)"
  using assms
proof (induction bs arbitrary: m p)
  case (Cons b bs)
  show ?case
  proof (cases "bs = []")
    case True
    then show ?thesis by (auto simp: less_Suc_eq_le word_unat_eq_iff)
  next
    case False
    then have p: "unat (p + 1) = unat p + 1" using Cons.prems by (cases bs) (simp_all add: unat_word_ariths)
    have e: "(a = p) = (unat a = unat p)" by (rule word_unat_eq_iff)
    have l: "unat (p + 1) + length bs \<le> 2 ^ 64" using Cons.prems p by simp
    show ?thesis unfolding mem_write.simps Cons.IH [OF l] p fun_upd_apply e by (auto simp: nth_Cons')
  qed
qed auto

definition seg_start :: "u8 list \<Rightarrow> elf64_header \<Rightarrow> u64 \<Rightarrow> nat \<Rightarrow> nat" where
  "seg_start data eh base i = unat (p_vaddr (phdr_at data eh i) + base)"

definition covers :: "u8 list \<Rightarrow> elf64_header \<Rightarrow> u64 \<Rightarrow> nat \<Rightarrow> u64 \<Rightarrow> bool" where
  "covers data eh base i a =
     (seg_start data eh base i \<le> unat a
      \<and> unat a < seg_start data eh base i + max (unat (p_filesz (phdr_at data eh i))) (unat (p_memsz (phdr_at data eh i))))"

text \<open>The byte that a segment has at an address: from the file, or zero.\<close>

definition seg_byte :: "u8 list \<Rightarrow> elf64_header \<Rightarrow> u64 \<Rightarrow> nat \<Rightarrow> u64 \<Rightarrow> u8" where
  "seg_byte data eh base i a =
     (let k = unat a - seg_start data eh base i
      in if k < unat (p_filesz (phdr_at data eh i)) then data ! (unat (p_offset (phdr_at data eh i)) + k) else 0)"

lemma load_segment_effect:
  assumes "no_wrap data eh base" "i < unat (e_phnum eh)" "loadable data eh i" "segment_ok data eh base lim i"
  shows "\<exists>mem'. load_segment data base (phdr_at data eh i) mem = Returns mem'
    \<and> (\<forall>a. mem' a = (if covers data eh base i a then seg_byte data eh base i a else mem a))"
proof -
  define ph where "ph = phdr_at data eh i"
  define v fs ms off where "v = unat (p_vaddr ph + base)" and "fs = unat (p_filesz ph)" and "ms = unat (p_memsz ph)" and "off = unat (p_offset ph)"
  have w: "off + fs < 2 ^ 64" "v + ms + 0xFFF < 2 ^ 64" "v + fs < 2 ^ 64"
    using assms(1-3) by (auto simp: no_wrap_def loadable_def ph_def v_def fs_def ms_def off_def)
  have ok: "off + fs \<le> length data" using assms(4) by (simp add: segment_ok_def ph_def fs_def off_def)
  have e: "unat (p_offset ph + p_filesz ph) = off + fs" "unat (p_vaddr ph + base + p_filesz ph) = v + fs"
    "ms > fs \<Longrightarrow> unat (p_memsz ph - p_filesz ph) = ms - fs"
    using w by (simp_all add: unat_word_ariths off_def fs_def v_def ms_def unat_sub word_le_nat_alt)
  define m1 where "m1 = (if fs > 0 then mem_write mem (p_vaddr ph + base) (slice off fs data) else mem)"
  define m2 where "m2 = (if ms > fs then mem_write m1 (p_vaddr ph + base + p_filesz ph) (replicate (ms - fs) 0) else m1)"
  have r: "load_segment data base ph mem = Returns m2"
    using ok e by (simp add: load_segment_def Let_def m1_def m2_def word_less_nat_alt fs_def [symmetric] ms_def [symmetric] off_def [symmetric])
  have m1: "m1 a = (if v \<le> unat a \<and> unat a < v + fs then data ! (off + (unat a - v)) else mem a)" for a
    using mem_write_range [of "p_vaddr ph + base" "slice off fs data" mem a] w ok
    by (auto simp: m1_def v_def [symmetric] slice_def)
  have m2: "m2 a = (if v + fs \<le> unat a \<and> unat a < v + ms then 0 else m1 a)" for a
    using mem_write_range [of "p_vaddr ph + base + p_filesz ph" "replicate (ms - fs) 0" m1 a] w e(2)
    by (auto simp: m2_def)
  have "m2 a = (if covers data eh base i a then seg_byte data eh base i a else mem a)" for a
    unfolding m2 m1 covers_def seg_byte_def seg_start_def ph_def [symmetric] v_def [symmetric] fs_def [symmetric] ms_def [symmetric] off_def [symmetric]
    by (auto simp: Let_def)
  then show ?thesis using r unfolding ph_def by blast
qed

definition disjoint_segments :: "u8 list \<Rightarrow> elf64_header \<Rightarrow> u64 \<Rightarrow> nat set \<Rightarrow> bool" where
  "disjoint_segments data eh base I =
     (\<forall>i \<in> I. \<forall>j \<in> I. \<forall>a. i \<noteq> j \<and> loadable data eh i \<and> loadable data eh j \<and> covers data eh base i a \<longrightarrow> \<not> covers data eh base j a)"

lemma segments_loop_effect:
  assumes "no_wrap data eh base" "\<forall>i \<in> set is. i < unat (e_phnum eh) \<and> phdr_off eh i + 56 \<le> length data
      \<and> (loadable data eh i \<longrightarrow> segment_ok data eh base lim i)" "distinct is"
    "disjoint_segments data eh base (set is)"
  shows "\<exists>mem'. segments_loop data eh base is mem = Returns (mem', Inr ())
    \<and> (\<forall>a. (\<forall>i \<in> set is. loadable data eh i \<and> covers data eh base i a \<longrightarrow> mem' a = seg_byte data eh base i a)
        \<and> ((\<forall>i \<in> set is. loadable data eh i \<longrightarrow> \<not> covers data eh base i a) \<longrightarrow> mem' a = mem a))"
  using assms(2-4)
proof (induction "is" arbitrary: mem)
  case (Cons i "is")
  have g: "get_phdr data eh i = Returns (Inr (phdr_at data eh i))" using get_phdr_no_wrap [OF assms(1)] Cons.prems(1) by simp
  have pre: "\<forall>i \<in> set is. i < unat (e_phnum eh) \<and> phdr_off eh i + 56 \<le> length data
      \<and> (loadable data eh i \<longrightarrow> segment_ok data eh base lim i)" "distinct is"
    using Cons.prems(1,2) by simp_all
  have dis: "disjoint_segments data eh base (set is)"
    using Cons.prems(3) unfolding disjoint_segments_def by (meson list.set_intros(2))
  note ih = Cons.IH [OF pre dis]
  show ?case
  proof (cases "loadable data eh i")
    case False
    obtain mem' where "segments_loop data eh base is mem = Returns (mem', Inr ())"
      "\<forall>a. (\<forall>i \<in> set is. loadable data eh i \<and> covers data eh base i a \<longrightarrow> mem' a = seg_byte data eh base i a)
        \<and> ((\<forall>i \<in> set is. loadable data eh i \<longrightarrow> \<not> covers data eh base i a) \<longrightarrow> mem' a = mem a)"
      using ih by blast
    then show ?thesis using False g by (auto simp: loadable_def)
  next
    case True
    obtain m1 where m1: "load_segment data base (phdr_at data eh i) mem = Returns m1"
      "\<And>a. m1 a = (if covers data eh base i a then seg_byte data eh base i a else mem a)"
      using load_segment_effect [OF assms(1) _ True, of lim mem] Cons.prems(1) True by auto
    obtain mem' where m2: "segments_loop data eh base is m1 = Returns (mem', Inr ())"
      "\<And>a i. i \<in> set is \<Longrightarrow> loadable data eh i \<Longrightarrow> covers data eh base i a \<Longrightarrow> mem' a = seg_byte data eh base i a"
      "\<And>a. (\<forall>i \<in> set is. loadable data eh i \<longrightarrow> \<not> covers data eh base i a) \<Longrightarrow> mem' a = m1 a"
      using ih [of m1] by blast
    have "mem' a = seg_byte data eh base i a" if "covers data eh base i a" for a
    proof -
      have "\<not> covers data eh base j a" if "j \<in> set is" "loadable data eh j" for j
        using Cons.prems(2,3) that \<open>covers data eh base i a\<close> True unfolding disjoint_segments_def by (metis distinct.simps(2) list.set_intros)
      then show ?thesis using m2(3) [of a] m1(2) [of a] that by simp
    qed
    moreover have "mem' a = mem a" if "\<forall>j \<in> set (i # is). loadable data eh j \<longrightarrow> \<not> covers data eh base j a" for a
      using m2(3) [of a] m1(2) [of a] that True by simp
    ultimately show ?thesis using g m1(1) m2(1,2) True by (intro exI [of _ mem']) (auto simp: loadable_def)
  qed
qed simp

text \<open>
  (C11) Loading an accepted program puts it where its headers say: for a file whose numbers do not overflow and
  whose segments do not overlap, \<open>load_segments\<close> returns without an error, every byte of every loadable
  segment holds its byte of the file or, behind the file part, zero, and no other byte of memory changes.
\<close>

theorem load_segments_correct:
  assumes "load_elf a data = Returns (Some info)" "eh = read_header data" "no_wrap data eh (load_base eh)"
    "disjoint_segments data eh (load_base eh) {..<unat (e_phnum eh)}"
  shows "\<exists>mem'. load_segments a data info mem = Returns (mem', Inr ())
    \<and> (\<forall>addr. (\<forall>i < unat (e_phnum eh). loadable data eh i \<and> covers data eh (load_base eh) i addr
            \<longrightarrow> mem' addr = seg_byte data eh (load_base eh) i addr)
        \<and> ((\<forall>i < unat (e_phnum eh). loadable data eh i \<longrightarrow> \<not> covers data eh (load_base eh) i addr) \<longrightarrow> mem' addr = mem addr))"
proof -
  have c: "validate_header a data = Inr eh" "ei_base info = load_base eh"
    "\<forall>i < unat (e_phnum eh). phdr_off eh i + 56 \<le> length data \<and> (loadable data eh i \<longrightarrow> segment_ok data eh (load_base eh) (unat (ei_brk info)) i)"
    using accepted_program [OF assms(1) assms(3) [unfolded assms(2)], unfolded Let_def, folded assms(2)] by blast+
  have "\<forall>i \<in> set [0..<unat (e_phnum eh)]. i < unat (e_phnum eh) \<and> phdr_off eh i + 56 \<le> length data
      \<and> (loadable data eh i \<longrightarrow> segment_ok data eh (load_base eh) (unat (ei_brk info)) i)" using c(3) by simp
  moreover have "set [0..<unat (e_phnum eh)] = {..<unat (e_phnum eh)}" by auto
  then have "disjoint_segments data eh (load_base eh) (set [0..<unat (e_phnum eh)])" using assms(4) by metis
  ultimately obtain mem' where m: "segments_loop data eh (load_base eh) [0..<unat (e_phnum eh)] mem = Returns (mem', Inr ())"
    "\<forall>addr. (\<forall>i \<in> set [0..<unat (e_phnum eh)]. loadable data eh i \<and> covers data eh (load_base eh) i addr \<longrightarrow> mem' addr = seg_byte data eh (load_base eh) i addr)
        \<and> ((\<forall>i \<in> set [0..<unat (e_phnum eh)]. loadable data eh i \<longrightarrow> \<not> covers data eh (load_base eh) i addr) \<longrightarrow> mem' addr = mem addr)"
    using segments_loop_effect [OF assms(3), of "[0..<unat (e_phnum eh)]" "unat (ei_brk info)" mem] by auto
  then show ?thesis using c(1,2) by (intro exI [of _ mem']) (simp add: load_segments_def)
qed

section \<open>The smallest program\<close>

lemma test_elf_bytes:
  "create_test_elf X86_64 =
    [127, 69, 76, 70, 2, 1, 1, 0, 0, 0, 0, 0, 0, 0, 0, 0, 2, 0, 62, 0, 1, 0, 0, 0, 120, 0, 64, 0, 0, 0, 0, 0, 64, 0,
    0, 0, 0, 0, 0, 0, 0, 0, 0, 0, 0, 0, 0, 0, 0, 0, 0, 0, 64, 0, 56, 0, 1, 0, 0, 0, 0, 0, 0, 0, 1, 0, 0, 0, 5, 0, 0,
    0, 0, 0, 0, 0, 0, 0, 0, 0, 0, 0, 64, 0, 0, 0, 0, 0, 0, 0, 64, 0, 0, 0, 0, 0, 0, 1, 0, 0, 0, 0, 0, 0, 0, 1, 0, 0,
    0, 0, 0, 0, 0, 16, 0, 0, 0, 0, 0, 0, 49, 255, 184, 2, 0, 0, 0, 15, 5] @ replicate 127 0"
  by code_simp

lemmas header_fields = read_header_def read_phdr_def slice_def phdr_off_def phdr_at_def load_base_def ET_DYN_def

lemma test_elf_accepted:
  "load_elf X86_64 (create_test_elf X86_64) = Returns (Some \<lparr>ei_entry = 0x400078, ei_base = 0, ei_brk = 0x401000,
     ei_stack_top = STACK_TOP, ei_num_segments = 1\<rparr>)"
  unfolding test_elf_bytes by code_simp

lemma test_elf_headers:
  "unat (e_phnum (read_header (create_test_elf X86_64))) = 1" "load_base (read_header (create_test_elf X86_64)) = 0"
  "phdr_off (read_header (create_test_elf X86_64)) 1 = 120"
  "phdr_at (create_test_elf X86_64) (read_header (create_test_elf X86_64)) 0
     = \<lparr>p_type = 1, p_flags = 5, p_offset = 0, p_vaddr = 0x400000, p_paddr = 0x400000, p_filesz = 256, p_memsz = 256, p_align = 0x1000\<rparr>"
  unfolding test_elf_bytes by (simp_all add: header_fields)

lemma test_elf_no_wrap:
  "no_wrap (create_test_elf X86_64) (read_header (create_test_elf X86_64)) (load_base (read_header (create_test_elf X86_64)))"
  unfolding no_wrap_def test_elf_headers by (simp add: test_elf_headers)

text \<open>The test program of the kernel is accepted.\<close>

theorem load_elf_checks_witness:
  "load_elf X86_64 (create_test_elf X86_64) = Returns (Some \<lparr>ei_entry = 0x400078, ei_base = 0, ei_brk = 0x401000,
     ei_stack_top = STACK_TOP, ei_num_segments = 1\<rparr>)
   \<and> validate_header X86_64 (create_test_elf X86_64) = Inr (read_header (create_test_elf X86_64))"
  using load_elf_checks [OF test_elf_accepted test_elf_no_wrap] test_elf_accepted unfolding Let_def by blast

text \<open>Its first byte is at its load address.\<close>

theorem load_segments_correct_witness:
  "\<exists>mem'. load_segments X86_64 (create_test_elf X86_64) \<lparr>ei_entry = 0x400078, ei_base = 0, ei_brk = 0x401000,
     ei_stack_top = STACK_TOP, ei_num_segments = 1\<rparr> (\<lambda>_. 9) = Returns (mem', Inr ()) \<and> mem' 0x400000 = 0x7F \<and> mem' 0x400100 = 9"
proof -
  let ?d = "create_test_elf X86_64" and ?h = "read_header (create_test_elf X86_64)"
  have dis: "disjoint_segments ?d ?h (load_base ?h) {..<unat (e_phnum ?h)}" by (simp add: disjoint_segments_def test_elf_headers(1))
  obtain mem' where m: "load_segments X86_64 ?d \<lparr>ei_entry = 0x400078, ei_base = 0, ei_brk = 0x401000,
      ei_stack_top = STACK_TOP, ei_num_segments = 1\<rparr> (\<lambda>_. 9) = Returns (mem', Inr ())"
    "\<forall>addr. (\<forall>i < unat (e_phnum ?h). loadable ?d ?h i \<and> covers ?d ?h (load_base ?h) i addr \<longrightarrow> mem' addr = seg_byte ?d ?h (load_base ?h) i addr)
        \<and> ((\<forall>i < unat (e_phnum ?h). loadable ?d ?h i \<longrightarrow> \<not> covers ?d ?h (load_base ?h) i addr) \<longrightarrow> mem' addr = 9)"
    using load_segments_correct [OF test_elf_accepted refl test_elf_no_wrap dis, where mem = "\<lambda>_. 9"] by blast
  have c: "loadable ?d ?h 0" "covers ?d ?h (load_base ?h) 0 0x400000" "\<not> covers ?d ?h (load_base ?h) 0 0x400100"
    by (simp_all add: loadable_def covers_def seg_start_def test_elf_headers PT_LOAD_def)
  have "?d ! 0 = 0x7F" by (simp add: test_elf_bytes)
  then have "seg_byte ?d ?h (load_base ?h) 0 0x400000 = 0x7F" by (simp add: seg_byte_def seg_start_def test_elf_headers)
  then show ?thesis using m(1) spec [OF m(2), of "0x400000"] spec [OF m(2), of "0x400100"] c by (auto simp: test_elf_headers(1))
qed

section \<open>Where the checks are too weak\<close>

text \<open>A file that consists of a header and one program header; the fields that matter are arguments.\<close>

definition one_segment_elf :: "u64 \<Rightarrow> u64 \<Rightarrow> u64 \<Rightarrow> u8 list" where
  "one_segment_elf phoff vaddr memsz =
     fold (\<lambda>(off, bs). copy_into off bs)
       [(32, le_bytes 8 phoff), (80, le_bytes 8 vaddr), (96, le_bytes 8 (0 :: u64)), (104, le_bytes 8 memsz)]
       (create_test_elf X86_64)"

lemma kernel_elf_bytes:
  "one_segment_elf 64 0xFFFEFFFFFFFFF000 0x1008 =
    [127, 69, 76, 70, 2, 1, 1, 0, 0, 0, 0, 0, 0, 0, 0, 0, 2, 0, 62, 0, 1, 0, 0, 0, 120, 0, 64, 0, 0, 0, 0, 0, 64, 0,
    0, 0, 0, 0, 0, 0, 0, 0, 0, 0, 0, 0, 0, 0, 0, 0, 0, 0, 64, 0, 56, 0, 1, 0, 0, 0, 0, 0, 0, 0, 1, 0, 0, 0, 5, 0, 0,
    0, 0, 0, 0, 0, 0, 0, 0, 0, 0, 240, 255, 255, 255, 255, 254, 255, 0, 0, 64, 0, 0, 0, 0, 0, 0, 0, 0, 0, 0, 0, 0, 0,
    8, 16, 0, 0, 0, 0, 0, 0, 0, 16, 0, 0, 0, 0, 0, 0, 49, 255, 184, 2, 0, 0, 0, 15, 5] @ replicate 127 0"
  unfolding one_segment_elf_def test_elf_bytes by code_simp

lemma kernel_elf_headers:
  "unat (e_phnum (read_header (one_segment_elf 64 0xFFFEFFFFFFFFF000 0x1008))) = 1"
  "load_base (read_header (one_segment_elf 64 0xFFFEFFFFFFFFF000 0x1008)) = 0"
  "phdr_off (read_header (one_segment_elf 64 0xFFFEFFFFFFFFF000 0x1008)) 1 = 120"
  "phdr_at (one_segment_elf 64 0xFFFEFFFFFFFFF000 0x1008) (read_header (one_segment_elf 64 0xFFFEFFFFFFFFF000 0x1008)) 0
     = \<lparr>p_type = 1, p_flags = 5, p_offset = 0, p_vaddr = 0xFFFEFFFFFFFFF000, p_paddr = 0x400000, p_filesz = 0, p_memsz = 0x1008, p_align = 0x1000\<rparr>"
  unfolding kernel_elf_bytes by (simp_all add: header_fields)

lemma wrapping_elf_bytes:
  "one_segment_elf 0xFFFFFFFFFFFFFFF0 0x400000 256 =
    [127, 69, 76, 70, 2, 1, 1, 0, 0, 0, 0, 0, 0, 0, 0, 0, 2, 0, 62, 0, 1, 0, 0, 0, 120, 0, 64, 0, 0, 0, 0, 0, 240,
    255, 255, 255, 255, 255, 255, 255, 0, 0, 0, 0, 0, 0, 0, 0, 0, 0, 0, 0, 64, 0, 56, 0, 1, 0, 0, 0, 0, 0, 0, 0, 1, 0,
    0, 0, 5, 0, 0, 0, 0, 0, 0, 0, 0, 0, 0, 0, 0, 0, 64, 0, 0, 0, 0, 0, 0, 0, 64, 0, 0, 0, 0, 0, 0, 0, 0, 0, 0, 0, 0,
    0, 0, 1, 0, 0, 0, 0, 0, 0, 0, 16, 0, 0, 0, 0, 0, 0, 49, 255, 184, 2, 0, 0, 0, 15, 5] @ replicate 127 0"
  unfolding one_segment_elf_def test_elf_bytes by code_simp

lemma wrapping_elf_headers:
  "validate_header X86_64 (one_segment_elf 0xFFFFFFFFFFFFFFF0 0x400000 256) = Inr (read_header (one_segment_elf 0xFFFFFFFFFFFFFFF0 0x400000 256))"
  "e_phoff (read_header (one_segment_elf 0xFFFFFFFFFFFFFFF0 0x400000 256)) = 0xFFFFFFFFFFFFFFF0"
  "e_phnum (read_header (one_segment_elf 0xFFFFFFFFFFFFFFF0 0x400000 256)) = 1"
  "length (one_segment_elf 0xFFFFFFFFFFFFFFF0 0x400000 256) = 256"
  unfolding wrapping_elf_bytes by code_simp+

lemma kernel_elf_no_wrap:
  "no_wrap (one_segment_elf 64 0xFFFEFFFFFFFFF000 0x1008) (read_header (one_segment_elf 64 0xFFFEFFFFFFFFF000 0x1008)) 0"
  unfolding no_wrap_def kernel_elf_headers by (simp add: kernel_elf_headers)

lemma accepted_single_segment:
  assumes "load_elf a data = Returns (Some info)" "load_base (read_header data) = base" "unat (e_phnum (read_header data)) = 1"
    "no_wrap data (read_header data) base"
  shows "\<exists>mem'. load_segments a data info mem = Returns (mem', Inr ())
    \<and> (\<forall>addr. loadable data (read_header data) 0 \<and> covers data (read_header data) base 0 addr
         \<longrightarrow> mem' addr = seg_byte data (read_header data) base 0 addr)"
proof -
  define eh where "eh = read_header data"
  have c: "validate_header a data = Inr eh" "ei_base info = base"
    "phdr_off eh 0 + 56 \<le> length data \<and> (loadable data eh 0 \<longrightarrow> segment_ok data eh base (unat (ei_brk info)) 0)"
    using accepted_program [OF assms(1)] assms(2-4) by (simp_all add: Let_def eh_def)
  have "disjoint_segments data eh base (set [0])" by (simp add: disjoint_segments_def)
  then obtain mem' where "segments_loop data eh base [0] mem = Returns (mem', Inr ())"
    "\<forall>addr. loadable data eh 0 \<and> covers data eh base 0 addr \<longrightarrow> mem' addr = seg_byte data eh base 0 addr"
    using segments_loop_effect [OF assms(4) [folded eh_def], of "[0]" "unat (ei_brk info)" mem] c(3) assms(3) by (auto simp: eh_def [symmetric])
  moreover have "[0..<unat (e_phnum eh)] = [0]" using assms(3) by (simp add: eh_def)
  ultimately show ?thesis using c(1,2) unfolding eh_def [symmetric] by (intro exI [of _ mem']) (simp add: load_segments_def del: segments_loop.simps)
qed

text \<open>
  The loader does not keep programs out of the kernel, as its error \<open>OverlapsKernel\<close> says: a segment that starts
  one page below the kernel space and reaches into it is accepted, and loading it writes to kernel
  addresses. And it does not keep its own reads inside the file: with a header table at the end of the address space
  the sum in the bounds check wraps, and the program header is read outside the file.
\<close>

theorem elf_checks_too_weak:
  "(\<exists>info mem'. load_elf X86_64 (one_segment_elf 64 0xFFFEFFFFFFFFF000 0x1008) = Returns (Some info)
      \<and> load_segments X86_64 (one_segment_elf 64 0xFFFEFFFFFFFFF000 0x1008) info (\<lambda>_. 9) = Returns (mem', Inr ())
      \<and> mem' (KERNEL_SPACE + 7) = 0)
   \<and> load_elf X86_64 (one_segment_elf 0xFFFFFFFFFFFFFFF0 0x400000 256) = Undefined_Read"
proof
  let ?d = "one_segment_elf 64 0xFFFEFFFFFFFFF000 0x1008" and ?h = "read_header (one_segment_elf 64 0xFFFEFFFFFFFFF000 0x1008)"
  let ?i = "\<lparr>ei_entry = 0x400078, ei_base = 0, ei_brk = 0xFFFF000000001000, ei_stack_top = STACK_TOP, ei_num_segments = 1\<rparr>"
  have a: "load_elf X86_64 ?d = Returns (Some ?i)" unfolding kernel_elf_bytes by code_simp
  obtain mem' where m: "load_segments X86_64 ?d ?i (\<lambda>_. 9) = Returns (mem', Inr ())"
    "\<And>addr. covers ?d ?h 0 0 addr \<Longrightarrow> mem' addr = seg_byte ?d ?h 0 0 addr"
    using accepted_single_segment [OF a _ _ kernel_elf_no_wrap, where mem = "\<lambda>_. 9"] kernel_elf_headers
    by (auto simp: loadable_def PT_LOAD_def)
  have "covers ?d ?h 0 0 (KERNEL_SPACE + 7)" "seg_byte ?d ?h 0 0 (KERNEL_SPACE + 7) = 0"
    by (simp_all add: covers_def seg_byte_def seg_start_def kernel_elf_headers KERNEL_SPACE_def)
  then show "\<exists>info mem'. load_elf X86_64 ?d = Returns (Some info)
      \<and> load_segments X86_64 ?d info (\<lambda>_. 9) = Returns (mem', Inr ()) \<and> mem' (KERNEL_SPACE + 7) = 0"
    by (intro exI conjI) (rule a, rule m(1), simp only: m(2))
  show "load_elf X86_64 (one_segment_elf 0xFFFFFFFFFFFFFFF0 0x400000 256) = Undefined_Read"
    by (simp add: load_elf_def wrapping_elf_headers get_phdr_def Let_def)
qed

end
