(* ===== verification/Crockford.thy ===== *)
theory Crockford
  imports Ascii
begin

text \<open>
  Base 32 with the alphabet of Crockford: \<^verbatim>\<open>src/kernel-core/src/crypto/crockford.rs\<close>. The codec shifts bytes
  through a 32-bit register and takes five bits at a time, or the other way round; the register drops its upper
  bits silently, and the counter of pending bits (a \<^verbatim>\<open>u8\<close>, at most 12) is a natural number. The specification is
  that both directions regroup one sequence of bits.
\<close>

section \<open>Definitions\<close>

definition ALPHABET :: "u8 list" where
  "ALPHABET = ascii ''0123456789ABCDEFGHJKMNPQRSTVWXYZ''"

definition encoded_len :: "nat \<Rightarrow> nat" where
  "encoded_len data_len = (data_len * 8 + 4) div 5"

definition decoded_max_len :: "nat \<Rightarrow> nat" where
  "decoded_max_len enc_len = (enc_len * 5) div 8"

text \<open>The inner loop of the encoder.\<close>

function emit_digits :: "u32 \<Rightarrow> nat \<Rightarrow> u8 list \<Rightarrow> nat \<Rightarrow> nat \<times> u8 list \<times> nat" where
  "emit_digits bits bits_left out idx =
     (if bits_left \<ge> 5
      then let bits_left = bits_left - 5;
               val = unat (drop_bit bits_left bits AND 0x1F)
           in emit_digits bits bits_left (out[idx := ALPHABET ! val]) (idx + 1)
      else (bits_left, out, idx))"
  by pat_completeness auto
termination by (relation "measure (\<lambda>(_, l, _, _). l)") auto

declare emit_digits.simps [simp del]

fun encode_loop :: "u8 list \<Rightarrow> u32 \<Rightarrow> nat \<Rightarrow> u8 list \<Rightarrow> nat \<Rightarrow> u32 \<times> nat \<times> u8 list \<times> nat" where
  "encode_loop [] bits bits_left out idx = (bits, bits_left, out, idx)"
| "encode_loop (b # data) bits bits_left out idx =
     (let bits = push_bit 8 bits OR ucast b;
          (bits_left, out, idx) = emit_digits bits (bits_left + 8) out idx
      in encode_loop data bits bits_left out idx)"

definition encode_into :: "u8 list \<Rightarrow> u8 list \<Rightarrow> u8 list \<times> nat option" where
  "encode_into data out =
     (if length out < encoded_len (length data) then (out, None)
      else let (bits, bits_left, out, idx) = encode_loop data 0 0 out 0
           in if bits_left > 0
              then let val = unat (push_bit (5 - bits_left) bits AND 0x1F)
                   in (out[idx := ALPHABET ! val], Some (idx + 1))
              else (out, Some idx))"

text \<open>The arms of the match, in its order: the bytes of the characters (\<^verbatim>\<open>b'0' | b'O' | b'o'\<close>, and so on) and their value.\<close>

definition DECODE_TABLE :: "(u8 list \<times> u8) list" where
  "DECODE_TABLE =
     [([0x30, 0x4F, 0x6F], 0), ([0x31, 0x49, 0x69, 0x4C, 0x6C], 1), ([0x32], 2), ([0x33], 3), ([0x34], 4),
      ([0x35], 5), ([0x36], 6), ([0x37], 7), ([0x38], 8), ([0x39], 9), ([0x41, 0x61], 10), ([0x42, 0x62], 11),
      ([0x43, 0x63], 12), ([0x44, 0x64], 13), ([0x45, 0x65], 14), ([0x46, 0x66], 15), ([0x47, 0x67], 16),
      ([0x48, 0x68], 17), ([0x4A, 0x6A], 18), ([0x4B, 0x6B], 19), ([0x4D, 0x6D], 20), ([0x4E, 0x6E], 21),
      ([0x50, 0x70], 22), ([0x51, 0x71], 23), ([0x52, 0x72], 24), ([0x53, 0x73], 25), ([0x54, 0x74], 26),
      ([0x56, 0x76], 27), ([0x57, 0x77], 28), ([0x58, 0x78], 29), ([0x59, 0x79], 30), ([0x5A, 0x7A], 31)]"

definition decode_char :: "u8 \<Rightarrow> u8 option" where
  "decode_char c = map_option snd (List.find (\<lambda>(cs, v). c \<in> set cs) DECODE_TABLE)"

definition HYPHEN :: u8 where "HYPHEN = 0x2D"

fun decode_loop :: "u8 list \<Rightarrow> u32 \<Rightarrow> nat \<Rightarrow> u8 list \<Rightarrow> nat \<Rightarrow> u8 list \<times> (u32 \<times> nat \<times> nat) option" where
  "decode_loop [] bits bits_left out idx = (out, Some (bits, bits_left, idx))"
| "decode_loop (c # input) bits bits_left out idx =
     (if c = HYPHEN then decode_loop input bits bits_left out idx
      else case decode_char c of
             None \<Rightarrow> (out, None)
           | Some val \<Rightarrow>
               (let bits = push_bit 5 bits OR ucast val;
                    bits_left = bits_left + 5
                in if bits_left \<ge> 8
                   then let bits_left = bits_left - 8
                        in if idx \<ge> length out then (out, None)
                           else decode_loop input bits bits_left (out[idx := ucast (drop_bit bits_left bits AND 0xFF)]) (idx + 1)
                   else decode_loop input bits bits_left out idx))"

definition decode_into :: "u8 list \<Rightarrow> u8 list \<Rightarrow> u8 list \<times> nat option" where
  "decode_into input out =
     (case decode_loop input 0 0 out 0 of
        (out, None) \<Rightarrow> (out, None)
      | (out, Some (bits, bits_left, idx)) \<Rightarrow>
          (if bits_left > 0 \<and> bits AND (push_bit bits_left 1 - 1) \<noteq> 0 then (out, None) else (out, Some idx)))"

section \<open>Sequences of bits\<close>

text \<open>The lowest \<open>n\<close> bits, the highest of them first.\<close>

definition low :: "nat \<Rightarrow> 'a::semiring_bit_operations \<Rightarrow> bool list" where
  "low n w = map (\<lambda>i. bit w (n - 1 - i)) [0..<n]"

lemma length_low [simp]: "length (low n w) = n"
  by (simp add: low_def)

lemma low_0 [simp]: "low 0 w = []"
  by (simp add: low_def)

lemma nth_low [simp]: "i < n \<Longrightarrow> low n w ! i = bit w (n - 1 - i)"
  by (simp add: low_def)

lemma low_eq_iff: "low n v = low n w \<longleftrightarrow> (\<forall>i < n. bit v i = bit w i)"
proof
  assume e: "low n v = low n w"
  show "\<forall>i < n. bit v i = bit w i"
  proof (intro allI impI)
    fix i
    assume "i < n"
    then show "bit v i = bit w i" using arg_cong [OF e, of "\<lambda>l. l ! (n - 1 - i)"] by simp
  qed
qed (simp add: low_def)

lemma low_append: "low (m + k) w = low m (drop_bit k w) @ low k w"
proof (rule nth_equalityI)
  fix i
  assume "i < length (low (m + k) w)"
  then show "low (m + k) w ! i = (low m (drop_bit k w) @ low k w) ! i"
    by (auto simp: nth_append bit_drop_bit_eq add.commute Suc_diff_le intro!: arg_cong [of _ _ "bit w"])
qed simp

lemma low_shift:
  fixes bits :: u32 and v :: "'a::len word"
  assumes "m + k \<le> 32" "\<forall>i \<ge> k. \<not> bit v i"
  shows "low (m + k) (push_bit k bits OR ucast v) = low m bits @ low k v"
proof -
  have "low m (drop_bit k (push_bit k bits OR ucast v)) = low m bits"
    using assms by (auto simp: low_eq_iff bit_simps)
  moreover have "low k (push_bit k bits OR ucast v) = low k v"
  proof (rule nth_equalityI)
    fix i
    assume "i < length (low k (push_bit k bits OR ucast v))"
    then show "low k (push_bit k bits OR ucast v) ! i = low k v ! i" using assms(1)
      by (auto simp: bit_simps dest: bit_imp_le_length)
  qed simp
  ultimately show ?thesis by (simp add: low_append)
qed

definition bits_of :: "u8 list \<Rightarrow> bool list" where
  "bits_of bs = concat (map (low 8) bs)"

lemma bits_of_simps [simp]: "bits_of [] = []" "bits_of (b # bs) = low 8 b @ bits_of bs" "bits_of (bs @ bs') = bits_of bs @ bits_of bs'"
  by (simp_all add: bits_of_def)

lemma length_bits_of [simp]: "length (bits_of bs) = 8 * length bs"
  by (induction bs) simp_all

lemma low_8_inject [simp]: "low 8 a = low 8 b \<longleftrightarrow> a = b" for a b :: u8
  by (auto simp: low_eq_iff intro!: bit_word_eqI)

lemma bits_of_inject: "bits_of a @ xs = bits_of b @ ys \<Longrightarrow> length a = length b \<Longrightarrow> a = b \<and> xs = ys"
  by (induction a b rule: list_induct2') auto

text \<open>The bits of a sequence of five-bit digits.\<close>

definition digit_bits :: "nat list \<Rightarrow> bool list" where
  "digit_bits ds = concat (map (low 5) ds)"

lemma digit_bits_simps [simp]: "digit_bits [] = []" "digit_bits (d # ds) = low 5 d @ digit_bits ds"
  "digit_bits (ds @ ds') = digit_bits ds @ digit_bits ds'"
  by (simp_all add: digit_bits_def)

lemma length_digit_bits [simp]: "length (digit_bits ds) = 5 * length ds"
  by (induction ds) simp_all

lemma low_5_unat:
  fixes w :: "'a::len word"
  assumes "5 \<le> LENGTH('a)"
  shows "low 5 (unat w) = low 5 w"
  by (rule nth_equalityI) (simp_all add: bit_unsigned_iff)

lemma mask_5: "unat (w AND 0x1F) < 32" "low 5 (unat (w AND 0x1F)) = low 5 w" for w :: u32
proof -
  have m: "(0x1F :: u32) = mask 5" by (simp add: mask_eq_exp_minus_1)
  show "unat (w AND 0x1F) < 32" using unat_and_mask_less [of w 5] unfolding m by simp
  show "low 5 (unat (w AND 0x1F)) = low 5 w" unfolding m by (simp add: low_5_unat low_eq_iff bit_simps)
qed

section \<open>The encoder\<close>

definition letters :: "nat list \<Rightarrow> u8 list" where
  "letters ds = map ((!) ALPHABET) ds"

lemma letters_simps [simp]: "letters [] = []" "letters (d # ds) = ALPHABET ! d # letters ds" "letters (ds @ ds') = letters ds @ letters ds'"
  "length (letters ds) = length ds"
  by (simp_all add: letters_def)

lemma write_next: "length xs = i \<Longrightarrow> i < length out \<Longrightarrow> (xs @ drop i out)[i := c] = xs @ c # drop (Suc i) out"
  by (simp add: list_update_append Cons_nth_drop_Suc [symmetric])

lemma emit_digits_correct:
  assumes "length xs = i" "i + l div 5 \<le> length out"
  shows "\<exists>ds. length ds = l div 5 \<and> (\<forall>d \<in> set ds. d < 32) \<and> digit_bits ds @ low (l mod 5) bits = low l bits
    \<and> emit_digits bits l (xs @ drop i out) i = (l mod 5, xs @ letters ds @ drop (i + l div 5) out, i + l div 5)"
  using assms
proof (induction l arbitrary: xs i rule: less_induct)
  case (less l)
  show ?case
  proof (cases "l \<ge> 5")
    case True
    then obtain k where l: "l = 5 + k" using le_Suc_ex by blast
    have q: "l div 5 = Suc (k div 5)" "l mod 5 = k mod 5" by (simp_all add: l)
    define d where "d = unat (drop_bit k bits AND 0x1F)"
    have d: "d < 32" "low 5 d @ low k bits = low l bits"
      unfolding d_def l low_append [of 5 k] by (simp_all add: mask_5)
    have w: "(xs @ drop i out)[i := ALPHABET ! d] = (xs @ [ALPHABET ! d]) @ drop (Suc i) out"
      using less.prems l by (subst write_next) auto
    obtain ds where ds: "length ds = k div 5" "\<forall>d \<in> set ds. d < 32" "digit_bits ds @ low (k mod 5) bits = low k bits"
      "emit_digits bits k ((xs @ [ALPHABET ! d]) @ drop (Suc i) out) (Suc i)
        = (k mod 5, (xs @ [ALPHABET ! d]) @ letters ds @ drop (Suc i + k div 5) out, Suc i + k div 5)"
      using less.IH [of k "xs @ [ALPHABET ! d]" "Suc i"] less.prems q by (auto simp: l)
    have "emit_digits bits l (xs @ drop i out) i = emit_digits bits k ((xs @ [ALPHABET ! d]) @ drop (Suc i) out) (Suc i)"
      by (subst emit_digits.simps) (simp add: l d_def [symmetric] w)
    then show ?thesis using ds d q by (intro exI [of _ "d # ds"]) auto
  next
    case False
    then show ?thesis by (intro exI [of _ "[]"]) (simp add: emit_digits.simps)
  qed
qed

lemma no_high_bits: "i \<ge> 8 \<Longrightarrow> \<not> bit b i" for b :: u8
  by (auto dest: bit_imp_le_length)

lemma encode_loop_correct:
  assumes "length xs = i" "l < 5" "i + (l + 8 * length data) div 5 \<le> length out"
  shows "\<exists>ds bits'. length ds = (l + 8 * length data) div 5 \<and> (\<forall>d \<in> set ds. d < 32)
    \<and> digit_bits ds @ low ((l + 8 * length data) mod 5) bits' = low l bits @ bits_of data
    \<and> encode_loop data bits l (xs @ drop i out) i
        = (bits', (l + 8 * length data) mod 5, xs @ letters ds @ drop (i + length ds) out, i + length ds)"
  using assms
proof (induction data arbitrary: xs i l bits)
  case Nil
  then show ?case by (intro exI [of _ "[]"] exI [of _ bits]) simp
next
  case (Cons b data)
  define reg where "reg = push_bit 8 bits OR ucast b"
  have low: "low (l + 8) reg = low l bits @ low 8 b"
    unfolding reg_def using Cons.prems(2) no_high_bits by (intro low_shift) auto
  let ?l = "l + 8"
  have n: "(l + 8 * length (b # data)) = ?l + 8 * length data" by simp
  have split: "(?l + 8 * length data) div 5 = ?l div 5 + (?l mod 5 + 8 * length data) div 5"
    "(?l + 8 * length data) mod 5 = (?l mod 5 + 8 * length data) mod 5" by presburger+
  obtain e where e: "length e = ?l div 5" "\<forall>d \<in> set e. d < 32" "digit_bits e @ low (?l mod 5) reg = low ?l reg"
    "emit_digits reg ?l (xs @ drop i out) i = (?l mod 5, xs @ letters e @ drop (i + ?l div 5) out, i + ?l div 5)"
    using emit_digits_correct [of xs i ?l out reg] Cons.prems unfolding n split by auto
  have len: "length (xs @ letters e) = i + ?l div 5" using Cons.prems(1) e(1) by simp
  obtain ds bits' where ds: "length ds = (?l mod 5 + 8 * length data) div 5" "\<forall>d \<in> set ds. d < 32"
    "digit_bits ds @ low ((?l mod 5 + 8 * length data) mod 5) bits' = low (?l mod 5) reg @ bits_of data"
    "encode_loop data reg (?l mod 5) ((xs @ letters e) @ drop (i + ?l div 5) out) (i + ?l div 5)
      = (bits', (?l mod 5 + 8 * length data) mod 5, (xs @ letters e) @ letters ds @ drop (i + ?l div 5 + length ds) out, i + ?l div 5 + length ds)"
    using Cons.IH [OF len, of "?l mod 5" reg] Cons.prems(3) unfolding n split by auto
  have "encode_loop (b # data) bits l (xs @ drop i out) i
      = encode_loop data reg (?l mod 5) ((xs @ letters e) @ drop (i + ?l div 5) out) (i + ?l div 5)"
    by (simp add: reg_def [symmetric] e(4) Let_def)
  then show ?case unfolding n split
    using e ds low by (intro exI [of _ "e @ ds"] exI [of _ bits']) (auto simp: add.assoc)
qed

lemma last_digit:
  fixes bits :: u32
  assumes "0 < l" "l < 5"
  shows "unat (push_bit (5 - l) bits AND 0x1F) < 32" "low 5 (unat (push_bit (5 - l) bits AND 0x1F)) = low l bits @ replicate (5 - l) False"
proof -
  show "unat (push_bit (5 - l) bits AND 0x1F) < 32" by (rule mask_5)
  have "low (l + (5 - l)) (push_bit (5 - l) bits) = low l bits @ replicate (5 - l) False"
    unfolding low_append using assms by (auto simp: low_eq_iff bit_simps intro!: nth_equalityI)
  then show "low 5 (unat (push_bit (5 - l) bits AND 0x1F)) = low l bits @ replicate (5 - l) False" using assms by (simp add: mask_5)
qed

lemma encode_into_digits:
  assumes "encoded_len (length data) \<le> length out"
  shows "\<exists>ds. length ds = encoded_len (length data) \<and> (\<forall>d \<in> set ds. d < 32)
    \<and> digit_bits ds = bits_of data @ replicate (5 * encoded_len (length data) - 8 * length data) False
    \<and> encode_into data out = (letters ds @ drop (length ds) out, Some (length ds))"
proof -
  let ?n = "8 * length data"
  have en: "encoded_len (length data) = ?n div 5 + (if ?n mod 5 = 0 then 0 else 1)"
    unfolding encoded_len_def by presburger
  obtain ds bits where ds: "length ds = ?n div 5" "\<forall>d \<in> set ds. d < 32" "digit_bits ds @ low (?n mod 5) bits = bits_of data"
    "encode_loop data 0 0 out 0 = (bits, ?n mod 5, letters ds @ drop (length ds) out, length ds)"
    using encode_loop_correct [of "[]" 0 0 data out 0] assms unfolding en by (auto split: if_splits)
  show ?thesis
  proof (cases "?n mod 5 = 0")
    case True
    then show ?thesis using ds assms en by (intro exI [of _ ds]) (auto simp: encode_into_def)
  next
    case False
    define d where "d = unat (push_bit (5 - ?n mod 5) bits AND 0x1F)"
    have d: "d < 32" "low 5 d = low (?n mod 5) bits @ replicate (5 - ?n mod 5) False"
      unfolding d_def using False by (intro last_digit; simp)+
    have w: "(letters ds @ drop (length ds) out)[length ds := ALPHABET ! d] = letters ds @ ALPHABET ! d # drop (Suc (length ds)) out"
      using assms en False ds(1) by (intro write_next) simp_all
    have r: "5 - ?n mod 5 = 5 * encoded_len (length data) - ?n" unfolding en using False by (simp, presburger)
    have "encode_into data out = (letters (ds @ [d]) @ drop (length (ds @ [d])) out, Some (length (ds @ [d])))"
      using False assms ds(4) by (simp add: encode_into_def d_def [symmetric] w not_less)
    moreover have "digit_bits (ds @ [d]) = bits_of data @ replicate (5 * encoded_len (length data) - ?n) False"
      unfolding r [symmetric] using d(2) by (simp add: ds(3) [symmetric])
    moreover have "length (ds @ [d]) = encoded_len (length data)" "\<forall>e \<in> set (ds @ [d]). e < 32" using ds(1,2) d(1) en False by auto
    ultimately show ?thesis by blast
  qed
qed

section \<open>The decoder\<close>

text \<open>The digits of a text without its hyphens; nothing when a character has no value.\<close>

fun digits_of :: "u8 list \<Rightarrow> nat list option" where
  "digits_of [] = Some []"
| "digits_of (c # cs) =
     (if c = HYPHEN then digits_of cs
      else case decode_char c of
             None \<Rightarrow> None
           | Some v \<Rightarrow> map_option ((#) (unat v)) (digits_of cs))"

lemma decode_char_less: "decode_char c = Some v \<Longrightarrow> unat v < 32"
  unfolding decode_char_def DECODE_TABLE_def by (auto split: if_splits)

lemma small_digit_bits: "unat v < 32 \<Longrightarrow> 5 \<le> i \<Longrightarrow> \<not> bit v i" for v :: u8
proof -
  assume v: "unat v < 32" and i: "5 \<le> i"
  have "take_bit 5 v = v" using v by (intro word_unat_eq_iff [THEN iffD2]) (simp add: unsigned_take_bit_eq take_bit_nat_eq_self)
  then show "\<not> bit v i" using i by (metis bit_take_bit_iff not_less)
qed

lemma low_byte: "low 8 (ucast (drop_bit l bits AND 0xFF) :: u8) = low 8 (drop_bit l bits)" for bits :: u32
proof -
  have m: "(0xFF :: u32) = mask 8" by (simp add: mask_eq_exp_minus_1)
  show ?thesis unfolding m by (intro nth_equalityI) (auto simp: bit_simps)
qed

lemma decode_loop_invalid: "digits_of cs = None \<Longrightarrow> snd (decode_loop cs bits l out i) = None"
  by (induction cs arbitrary: bits l out i) (auto simp: Let_def split: if_splits option.splits)

lemma decode_loop_too_small:
  assumes "digits_of cs = Some ds" "l < 8" "i \<le> length out" "length out < i + (l + 5 * length ds) div 8"
  shows "snd (decode_loop cs bits l out i) = None"
  using assms
proof (induction cs arbitrary: bits l out i ds)
  case (Cons c cs)
  show ?case
  proof (cases "c = HYPHEN")
    case False
    then obtain v ds' where v: "decode_char c = Some v" "digits_of cs = Some ds'" "ds = unat v # ds'"
      using Cons.prems(1) by (auto split: option.splits)
    have q: "l + 5 * length ds = l + 5 + 5 * length ds'" by (simp add: v(3))
    show ?thesis
    proof (cases "l + 5 \<ge> 8")
      case True
      then have "(l + 5 * length ds) div 8 = Suc ((l + 5 - 8 + 5 * length ds') div 8)" unfolding q by (simp add: le_div_geq)
      then show ?thesis using Cons.IH [OF v(2), of "l + 5 - 8" "Suc i"] Cons.prems v False True
        by (cases "i < length out") (simp_all add: Let_def)
    next
      case small: False
      show ?thesis using Cons.IH [OF v(2), of "l + 5" i] Cons.prems(2-4) small v(1) False unfolding q by (simp add: Let_def)
    qed
  qed (use Cons in simp)
qed simp

lemma decode_loop_valid:
  assumes "digits_of cs = Some ds" "length xs = i" "l < 8" "i + (l + 5 * length ds) div 8 \<le> length out"
  shows "\<exists>bs bits'. length bs = (l + 5 * length ds) div 8
    \<and> bits_of bs @ low ((l + 5 * length ds) mod 8) bits' = low l bits @ digit_bits ds
    \<and> decode_loop cs bits l (xs @ drop i out) i
        = (xs @ bs @ drop (i + length bs) out, Some (bits', (l + 5 * length ds) mod 8, i + length bs))"
  using assms
proof (induction cs arbitrary: bits l xs i ds)
  case (Cons c cs)
  show ?case
  proof (cases "c = HYPHEN")
    case False
    then obtain v ds' where v: "decode_char c = Some v" "digits_of cs = Some ds'" "ds = unat v # ds'"
      using Cons.prems(1) by (auto split: option.splits)
    define reg where "reg = push_bit 5 bits OR ucast v"
    have low: "low (l + 5) reg = low l bits @ low 5 (unat v)"
      unfolding reg_def using Cons.prems(3) small_digit_bits [OF decode_char_less [OF v(1)]]
      by (subst low_shift) (auto simp: low_5_unat)
    have q: "l + 5 * length ds = l + 5 + 5 * length ds'" by (simp add: v(3))
    show ?thesis
    proof (cases "l + 5 \<ge> 8")
      case small: False
      have "decode_loop (c # cs) bits l (xs @ drop i out) i = decode_loop cs reg (l + 5) (xs @ drop i out) i"
        using False small v(1) by (simp add: reg_def Let_def)
      then show ?thesis using Cons.IH [OF v(2) Cons.prems(2), of "l + 5" reg] Cons.prems(4) small low unfolding q by (simp add: v(3))
    next
      case True
      then obtain k where l: "l + 5 = 8 + k" using le_Suc_ex by blast
      have k: "l + 5 - 8 = k" "k < 8" using l Cons.prems(3) by simp_all
      define y where "y = k + 5 * length ds'"
      have "l + 5 * length ds = 8 + y" unfolding q l y_def by simp
      then have n: "(l + 5 * length ds) div 8 = Suc ((k + 5 * length ds') div 8)" "(l + 5 * length ds) mod 8 = (k + 5 * length ds') mod 8"
        unfolding y_def [symmetric] by simp_all
      define b :: u8 where "b = ucast (drop_bit k reg AND 0xFF)"
      have b: "low 8 b @ low k reg = low l bits @ low 5 (unat v)"
        unfolding b_def low [symmetric] l low_append low_byte by simp
      have "i < length out" using Cons.prems(4) n by simp
      from write_next [OF Cons.prems(2) this] have w: "(xs @ drop i out)[i := b] = (xs @ [b]) @ drop (Suc i) out" by simp
      have step: "decode_loop (c # cs) bits l (xs @ drop i out) i = decode_loop cs reg k ((xs @ [b]) @ drop (Suc i) out) (Suc i)"
        unfolding w [symmetric] using False True v(1) Cons.prems(2,4) n by (simp add: reg_def [symmetric] b_def [symmetric] k(1) Let_def)
      obtain bs bits' where bs: "length bs = (k + 5 * length ds') div 8"
        "bits_of bs @ low ((k + 5 * length ds') mod 8) bits' = low k reg @ digit_bits ds'"
        "decode_loop cs reg k ((xs @ [b]) @ drop (Suc i) out) (Suc i)
          = ((xs @ [b]) @ bs @ drop (Suc i + length bs) out, Some (bits', (k + 5 * length ds') mod 8, Suc i + length bs))"
        using Cons.IH [OF v(2), of "xs @ [b]" "Suc i" k reg] Cons.prems(2,4) k(2) n by auto
      have "bits_of (b # bs) @ low ((k + 5 * length ds') mod 8) bits' = low l bits @ digit_bits ds"
        using bs(2) b by (simp add: v(3))
      then show ?thesis unfolding step n bs(3) using bs(1) by (intro exI [of _ "b # bs"] exI [of _ bits']) simp
    qed
  qed (use Cons in simp)
qed simp

lemma leftover_zero:
  fixes bits :: u32
  assumes "m < 8"
  shows "bits AND (push_bit m 1 - 1) = 0 \<longleftrightarrow> low m bits = replicate m False"
proof -
  have "push_bit m (1 :: u32) - 1 = mask m" using assms by (simp add: mask_eq_exp_minus_1 push_bit_eq_mult)
  then have "bits AND (push_bit m 1 - 1) = 0 \<longleftrightarrow> take_bit m bits = 0" by (simp add: take_bit_eq_mask)
  also have "\<dots> \<longleftrightarrow> (\<forall>i < m. \<not> bit bits i)"
  proof
    assume "take_bit m bits = 0"
    then show "\<forall>i < m. \<not> bit bits i" by (metis bit_take_bit_iff bit_0_eq bot_apply bot_bool_def)
  qed (auto intro!: bit_word_eqI simp: bit_take_bit_iff)
  also have "\<dots> \<longleftrightarrow> low m bits = low m (0 :: u32)" by (simp add: low_eq_iff)
  also have "low m (0 :: u32) = replicate m False" by (intro nth_equalityI) simp_all
  finally show ?thesis .
qed

lemma decode_into_exact:
  "decode_into cs out = (out', Some n) \<longleftrightarrow>
     (\<exists>ds bs. digits_of cs = Some ds \<and> length bs = n \<and> n \<le> length out \<and> out' = bs @ drop n out
        \<and> n = 5 * length ds div 8 \<and> digit_bits ds = bits_of bs @ replicate (5 * length ds mod 8) False)"
proof (cases "digits_of cs")
  case None
  then show ?thesis using decode_loop_invalid [of cs 0 0 out 0] by (auto simp: decode_into_def split: prod.splits option.splits)
next
  case (Some ds)
  let ?n = "5 * length ds div 8" and ?m = "5 * length ds mod 8"
  show ?thesis
  proof (cases "?n \<le> length out")
    case False
    then show ?thesis using decode_loop_too_small [OF Some, of 0 0 out 0] Some by (auto simp: decode_into_def split: prod.splits option.splits)
  next
    case True
    obtain bs bits where b: "length bs = ?n" "bits_of bs @ low ?m bits = digit_bits ds"
      "decode_loop cs 0 0 out 0 = (bs @ drop (length bs) out, Some (bits, ?m, length bs))"
      using decode_loop_valid [OF Some, of "[]" 0 0 out 0] True by auto
    have l: "bits AND (push_bit ?m 1 - 1) = 0 \<longleftrightarrow> low ?m bits = replicate ?m False" by (rule leftover_zero) simp
    have d: "decode_into cs out = (if low ?m bits = replicate ?m False then (bs @ drop ?n out, Some ?n) else (bs @ drop ?n out, None))"
      unfolding decode_into_def b(3) using l b(1) by auto
    have "bs' = bs \<and> low ?m bits = replicate ?m False" if "digit_bits ds = bits_of bs' @ replicate ?m False" "length bs' = ?n" for bs'
      using bits_of_inject [of bs' "replicate ?m False" bs "low ?m bits"] that b(1,2) by simp
    then show ?thesis using Some True b(1) d b(2) [symmetric] by (auto split: if_splits)
  qed
qed

section \<open>Round trip\<close>

lemma alphabet_bytes:
  "ALPHABET = [48, 49, 50, 51, 52, 53, 54, 55, 56, 57, 65, 66, 67, 68, 69, 70, 71, 72, 74, 75,
     77, 78, 80, 81, 82, 83, 84, 86, 87, 88, 89, 90]"
  by (simp add: ALPHABET_def ascii_def)

lemma decode_alphabet_list: "map decode_char ALPHABET = map (Some \<circ> of_nat) [0..<32]"
  unfolding alphabet_bytes by code_simp

lemma length_ALPHABET: "length ALPHABET = 32"
  by (simp add: ALPHABET_def)

lemma hyphen_not_in_alphabet: "HYPHEN \<notin> set ALPHABET"
  by (simp add: alphabet_bytes HYPHEN_def)

lemma decode_alphabet:
  assumes "d < 32"
  shows "decode_char (ALPHABET ! d) = Some (of_nat d) \<and> ALPHABET ! d \<noteq> HYPHEN"
proof -
  note l = length_ALPHABET
  have "decode_char (ALPHABET ! d) = map decode_char ALPHABET ! d" using assms l by simp
  also have "\<dots> = Some (of_nat d)" unfolding decode_alphabet_list using assms by simp
  finally show ?thesis using hyphen_not_in_alphabet assms l by (metis nth_mem)
qed

lemma digits_of_letters: "\<forall>d \<in> set ds. d < 32 \<Longrightarrow> digits_of (letters ds) = Some ds"
proof (induction ds)
  case (Cons d ds)
  have "unat (of_nat d :: u8) = d" using Cons.prems by (simp add: unat_of_nat take_bit_nat_eq_self)
  then show ?case using Cons decode_alphabet [of d] by simp
qed simp

lemma encoded_len_pad: "5 * encoded_len n div 8 = n" "5 * encoded_len n mod 8 = 5 * encoded_len n - 8 * n"
proof -
  have e: "8 * n \<le> 5 * encoded_len n" "5 * encoded_len n < 8 * n + 8" unfolding encoded_len_def by simp_all
  show d: "5 * encoded_len n div 8 = n" using e by (intro div_nat_eqI) simp_all
  show "5 * encoded_len n mod 8 = 5 * encoded_len n - 8 * n" using minus_mult_div_eq_mod [of "5 * encoded_len n" 8] d by simp
qed

text \<open>
  Encoding and decoding are inverse: for every byte string and every buffer that is large enough, the encoder
  writes exactly \<open>encoded_len\<close> letters of the alphabet and nothing else, and every text with the same digits as
  these letters, so with hyphens, lower case or the look-alikes of 0 and 1, is decoded to the original bytes.
\<close>

theorem crockford_round_trip:
  assumes "encoded_len (length data) \<le> length out" "encode_into data out = (out', r)"
  shows "r = Some (encoded_len (length data)) \<and> drop (encoded_len (length data)) out' = drop (encoded_len (length data)) out
    \<and> set (take (encoded_len (length data)) out') \<subseteq> set ALPHABET
    \<and> (\<forall>s buf. digits_of s = digits_of (take (encoded_len (length data)) out') \<and> length data \<le> length buf
          \<longrightarrow> decode_into s buf = (data @ drop (length data) buf, Some (length data)))"
proof -
  obtain ds where ds: "length ds = encoded_len (length data)" "\<forall>d \<in> set ds. d < 32"
    "digit_bits ds = bits_of data @ replicate (5 * encoded_len (length data) - 8 * length data) False"
    "out' = letters ds @ drop (length ds) out" "r = Some (length ds)"
    using encode_into_digits [OF assms(1)] assms(2) by auto
  have "set (letters ds) \<subseteq> set ALPHABET" using ds(2) by (auto simp: letters_def length_ALPHABET)
  moreover have "decode_into s buf = (data @ drop (length data) buf, Some (length data))"
    if "digits_of s = Some ds" "length data \<le> length buf" for s buf
    unfolding decode_into_exact using that ds(1,3) encoded_len_pad [of "length data"] by (intro exI [of _ ds] exI [of _ data]) simp
  ultimately show ?thesis using ds(1,4,5) digits_of_letters [OF ds(2)] by auto
qed

text \<open>The text of the unit test, written by hand in lower case with hyphens.\<close>

theorem crockford_round_trip_witness:
  "decode_into (ascii ''csq-py-rk1e8'') (replicate 7 0) = (ascii ''foobar'' @ [0], Some 6)"
proof -
  have e: "encode_into (ascii ''foobar'') (replicate 10 0) = (ascii ''CSQPYRK1E8'', Some 10)" by code_simp
  have "digits_of (ascii ''csq-py-rk1e8'') = digits_of (ascii ''CSQPYRK1E8'')" by code_simp
  then show ?thesis using crockford_round_trip [OF _ e] by (simp add: encoded_len_def ascii_def)
qed

end
