(* ===== verification/Crc16.thy ===== *)
theory Crc16
  imports Prelude
begin

text \<open>
  The checksum of the pairing code: \<^verbatim>\<open>src/kernel-core/src/crypto/crc16.rs\<close>. A code word is a message with its
  checksum appended; it is shown that two code words never differ in one byte or in two neighbouring bytes only.
\<close>

section \<open>Definitions\<close>

text \<open>One turn of the inner loop, one byte, and the whole function.\<close>

definition crc16_step :: "u16 \<Rightarrow> u16" where
  "crc16_step crc = (if crc AND 0x8000 \<noteq> 0 then push_bit 1 crc XOR 0x1021 else push_bit 1 crc)"

definition crc16_byte :: "u16 \<Rightarrow> u8 \<Rightarrow> u16" where
  "crc16_byte crc b = (crc16_step ^^ 8) (crc XOR push_bit 8 (ucast b))"

definition crc16_ccitt :: "u8 list \<Rightarrow> u16" where
  "crc16_ccitt data = foldl crc16_byte 0xFFFF data"

section \<open>Linearity\<close>

lemma high_bit: "crc AND 0x8000 \<noteq> 0 \<longleftrightarrow> bit crc 15" for crc :: u16
proof -
  have m: "(0x8000 :: u16) = 2 ^ 15" by simp
  show ?thesis unfolding m by (simp only: and_exp_eq_0_iff_not_bit not_not)
qed

lemma push_bit_xor16: "push_bit n (a XOR b) = push_bit n a XOR push_bit n b" for a b :: u16
  by (rule push_bit_xor)

lemma crc16_step_linear: "crc16_step (a XOR b) = crc16_step a XOR crc16_step b"
proof -
  have s: "crc16_step c = push_bit 1 c XOR (if bit c 15 then 0x1021 else 0)" for c unfolding crc16_step_def high_bit by simp
  show ?thesis unfolding s push_bit_xor16 bit_xor_iff by (cases "bit a 15"; cases "bit b 15") (simp_all add: ac_simps)
qed

lemma crc16_steps_linear: "(crc16_step ^^ n) (a XOR b) = (crc16_step ^^ n) a XOR (crc16_step ^^ n) b"
  by (induction n) (simp_all add: crc16_step_linear)

text \<open>The bit that is shifted out of the top comes back as the lowest bit of the result.\<close>

lemma bit_crc16_step_0: "bit (crc16_step c) 0 = bit c 15"
proof -
  have "\<not> bit (push_bit 1 c) 0" unfolding bit_push_bit_iff by simp
  then show ?thesis unfolding crc16_step_def high_bit by (simp add: bit_xor_iff del: push_bit_of_1)
qed

lemma crc16_step_shift: "\<not> bit c 15 \<Longrightarrow> crc16_step c = push_bit 1 c"
  unfolding crc16_step_def high_bit by simp

lemma crc16_steps_shift:
  assumes "\<forall>i < n. \<not> bit ((crc16_step ^^ n) c) i" "n \<le> 15"
  shows "(crc16_step ^^ n) c = push_bit n c \<and> (\<forall>i < n. \<not> bit c (15 - i))"
  using assms
proof (induction n)
  case (Suc n)
  define r where "r = (crc16_step ^^ n) c"
  have s: "\<forall>i < Suc n. \<not> bit (crc16_step r) i" using Suc.prems(1) by (simp add: r_def)
  then have t: "\<not> bit r 15" using bit_crc16_step_0 [of r] by blast
  have "\<not> bit r i" if "i < n" for i
  proof -
    have "bit (push_bit 1 r) (Suc i) = bit r i" using that Suc.prems(2) unfolding bit_push_bit_iff by simp
    then show ?thesis using s that unfolding crc16_step_shift [OF t] by auto
  qed
  then have ih: "r = push_bit n c" "\<forall>i < n. \<not> bit c (15 - i)" using Suc.IH Suc.prems(2) by (simp_all add: r_def)
  have "bit r 15 = bit c (15 - n)" unfolding ih(1) bit_push_bit_iff using Suc.prems(2) by simp
  then have "\<forall>i < Suc n. \<not> bit c (15 - i)" using ih(2) t less_Suc_eq by auto
  moreover have "(crc16_step ^^ Suc n) c = push_bit (Suc n) c"
    using crc16_step_shift [OF t] ih(1) by (simp add: r_def [symmetric] push_bit_push_bit)
  ultimately show ?case by blast
qed simp

lemma crc16_steps_zero: "(crc16_step ^^ n) c = 0 \<longleftrightarrow> c = 0"
proof (induction n)
  case (Suc n)
  have "crc16_step r = 0 \<longleftrightarrow> r = 0" for r
  proof
    assume z: "crc16_step r = 0"
    then have t: "\<not> bit r 15" using bit_crc16_step_0 [of r] by simp
    have p: "push_bit 1 r = 0" using z crc16_step_shift [OF t] by simp
    have "\<not> bit r i" if "i < 16" for i
    proof (cases "i = 15")
      case False
      then have "bit (push_bit 1 r) (Suc i) = bit r i" using that unfolding bit_push_bit_iff by simp
      then show ?thesis unfolding p by simp
    qed (use t in simp)
    then show "r = 0" by (intro bit_word_eqI) simp
  qed (simp add: crc16_step_def)
  then show ?case using Suc by simp
qed simp

lemma crc16_low_byte:
  assumes "\<forall>i < 8. \<not> bit ((crc16_step ^^ 8) (push_bit 8 (ucast x))) i"
  shows "x = (0 :: u8)"
proof (rule bit_word_eqI)
  fix i
  assume i: "i < LENGTH(8)"
  have "\<not> bit (push_bit 8 (ucast x) :: u16) (15 - (7 - i))"
    by (rule crc16_steps_shift [OF assms, THEN conjunct2, rule_format]) simp_all
  then show "bit x i = bit (0 :: u8) i" using i unfolding bit_push_bit_iff bit_ucast_iff by (simp add: Suc_diff_le)
qed

section \<open>Errors in two neighbouring bytes\<close>

lemma crc16_byte_xor: "crc16_byte c a XOR crc16_byte d b = (crc16_step ^^ 8) ((c XOR d) XOR push_bit 8 (ucast (a XOR b)))"
proof -
  have "(ucast (a XOR b) :: u16) = ucast a XOR ucast b" by (intro bit_word_eqI) (simp add: bit_simps)
  then show ?thesis unfolding crc16_byte_def crc16_steps_linear [symmetric] by (simp add: push_bit_xor ac_simps)
qed

lemma ucast_zero16: "push_bit 8 (ucast x :: u16) = 0 \<longleftrightarrow> x = (0 :: u8)"
proof
  assume z: "push_bit 8 (ucast x :: u16) = 0"
  show "x = 0"
  proof (rule bit_word_eqI)
    fix i
    assume i: "i < LENGTH(8)"
    have "bit (push_bit 8 (ucast x :: u16)) (8 + i) = bit x i" unfolding bit_push_bit_iff bit_ucast_iff using i by simp
    then show "bit x i = bit (0 :: u8) i" unfolding z by simp
  qed
qed simp

lemma xor_eq_zero_iff: "a XOR b = 0 \<longleftrightarrow> a = b" for a b :: "'a::len word"
  by (metis bit.xor_self xor.assoc xor.right_neutral)

lemma crc16_byte_inject: "crc16_byte c a = crc16_byte c b \<longleftrightarrow> a = b" "crc16_byte c a = crc16_byte d a \<longleftrightarrow> c = d"
  unfolding xor_eq_zero_iff [of "crc16_byte c a", symmetric] crc16_byte_xor crc16_steps_zero
  by (simp_all add: ucast_zero16 xor_eq_zero_iff)

lemma crc16_pair_inject:
  "crc16_byte (crc16_byte c a) b = crc16_byte (crc16_byte c a') b' \<longleftrightarrow> a = a' \<and> b = b'"
proof
  assume "crc16_byte (crc16_byte c a) b = crc16_byte (crc16_byte c a') b'"
  then have "(crc16_byte c a XOR crc16_byte c a') XOR push_bit 8 (ucast (b XOR b')) = 0"
    unfolding xor_eq_zero_iff [of "crc16_byte (crc16_byte c a) b", symmetric] crc16_byte_xor crc16_steps_zero .
  then have e: "(crc16_step ^^ 8) (push_bit 8 (ucast (a XOR a'))) = push_bit 8 (ucast (b XOR b'))"
    unfolding xor_eq_zero_iff crc16_byte_xor by simp
  have "\<forall>i < 8. \<not> bit ((crc16_step ^^ 8) (push_bit 8 (ucast (a XOR a')))) i" unfolding e bit_push_bit_iff by simp
  then have "a = a'" using crc16_low_byte xor_eq_zero_iff by blast
  moreover from this have "push_bit 8 (ucast (b XOR b') :: u16) = 0" using e crc16_steps_zero [of 8 0] by simp
  then have "b = b'" unfolding ucast_zero16 xor_eq_zero_iff .
  ultimately show "a = a' \<and> b = b'" ..
qed simp

lemma foldl_crc16_inject: "foldl crc16_byte c xs = foldl crc16_byte d xs \<longleftrightarrow> c = d"
  by (induction xs arbitrary: c d) (simp_all add: crc16_byte_inject)

lemma crc16_detects_pair: "crc16_ccitt (xs @ [a, b] @ ys) = crc16_ccitt (xs @ [a', b'] @ ys) \<longleftrightarrow> a = a' \<and> b = b'"
  by (simp add: crc16_ccitt_def foldl_crc16_inject crc16_pair_inject)

lemma crc16_detects_byte: "crc16_ccitt (xs @ a # ys) = crc16_ccitt (xs @ a' # ys) \<longleftrightarrow> a = a'"
  by (simp add: crc16_ccitt_def foldl_crc16_inject crc16_byte_inject)

lemma crc16_adjacent:
  assumes "length bs = length bs'" "\<forall>j < length bs. j \<noteq> q \<and> j \<noteq> Suc q \<longrightarrow> bs ! j = bs' ! j" "crc16_ccitt bs = crc16_ccitt bs'"
  shows "bs = bs'"
proof -
  have e: "take q bs = take q bs'" "drop (Suc (Suc q)) bs = drop (Suc (Suc q)) bs'" using assms(1,2) by (auto intro!: nth_equalityI)
  consider "Suc (Suc q) \<le> length bs" | "Suc q = length bs" | "length bs \<le> q" by linarith
  then show ?thesis
  proof cases
    case 1
    have split: "xs = take q xs @ [xs ! q, xs ! Suc q] @ drop (Suc (Suc q)) xs" if "Suc (Suc q) \<le> length xs" for xs :: "u8 list"
      using that by (simp add: Cons_nth_drop_Suc)
    then show ?thesis
      using split [of bs] split [of bs'] 1 assms(1,3) e crc16_detects_pair [of "take q bs" "bs ! q" "bs ! Suc q" "drop (Suc (Suc q)) bs" "bs' ! q" "bs' ! Suc q"]
      by metis
  next
    case 2
    have split: "xs = take q xs @ xs ! q # []" if "Suc q = length xs" for xs :: "u8 list"
      using that by (metis id_take_nth_drop lessI drop_all order_refl)
    then show ?thesis
      using split [of bs] split [of bs'] 2 assms(1,3) e(1) crc16_detects_byte [of "take q bs" "bs ! q" "[]" "bs' ! q"] by metis
  next
    case 3
    then show ?thesis using e(1) assms(1) by simp
  qed
qed

text \<open>
  The checksum detects every error that is confined to two neighbouring bytes, wherever they are and however
  long the message is: two messages of the same length that agree outside them and have the same checksum are equal.
\<close>

theorem crc16_detects_adjacent_bytes:
  assumes "length bs = length bs'" "\<forall>j < length bs. j \<noteq> q \<and> j \<noteq> Suc q \<longrightarrow> bs ! j = bs' ! j"
  shows "crc16_ccitt bs = crc16_ccitt bs' \<longleftrightarrow> bs = bs'"
  using crc16_adjacent [OF assms] by blast

text \<open>Two messages that differ in their last two bytes.\<close>

theorem crc16_detects_adjacent_bytes_witness: "crc16_ccitt [1, 2, 3] \<noteq> crc16_ccitt [1, 5, 6]"
proof -
  have "\<forall>j < length [1 :: u8, 2, 3]. j \<noteq> 1 \<and> j \<noteq> Suc 1 \<longrightarrow> [1 :: u8, 2, 3] ! j = [1, 5, 6] ! j" by (auto simp: less_Suc_eq)
  then show ?thesis using crc16_detects_adjacent_bytes [of "[1, 2, 3]" "[1, 5, 6]" 1] by simp
qed

section \<open>Code words\<close>

lemma crc16_shift_out:
  assumes "\<forall>i < 8. \<not> bit c (8 + i)"
  shows "(crc16_step ^^ n) c = push_bit n c \<or> 8 < n"
proof (induction n)
  case (Suc n)
  show ?case
  proof (cases "n < 8")
    case True
    have "bit (push_bit n c) 15 = bit c (8 + (7 - n))" unfolding bit_push_bit_iff using True by simp
    moreover have "\<not> bit c (8 + (7 - n))" by (rule assms [rule_format]) simp
    ultimately have "\<not> bit (push_bit n c) 15" by simp
    then show ?thesis using Suc True crc16_step_shift [of "push_bit n c"] by (simp add: push_bit_push_bit)
  qed simp
qed simp

lemma crc16_residue: "crc16_ccitt (data @ be_bytes 2 (crc16_ccitt data)) = 0"
proof -
  define c where "c = crc16_ccitt data"
  have be: "be_bytes 2 c = [ucast (drop_bit 8 c), ucast c]" by (simp add: be_bytes_def numeral_2_eq_2)
  let ?h = "c XOR push_bit 8 (ucast (ucast (drop_bit 8 c) :: u8))"
  have h: "?h = take_bit 8 c" by (intro bit_word_eqI) (auto simp: bit_simps)
  have "\<forall>i < 8. \<not> bit ?h (8 + i)" unfolding h bit_take_bit_iff by simp
  then have "crc16_byte c (ucast (drop_bit 8 c)) = push_bit 8 (take_bit 8 c)"
    unfolding crc16_byte_def h using crc16_shift_out [of "take_bit 8 c" 8] h by simp
  moreover have "push_bit 8 (take_bit 8 c) = push_bit 8 (ucast (ucast c :: u8))" by (intro bit_word_eqI) (auto simp: bit_simps)
  ultimately have "crc16_byte (crc16_byte c (ucast (drop_bit 8 c))) (ucast c) = 0"
    unfolding crc16_byte_def [of "push_bit 8 _"] crc16_steps_zero [of 8] by (simp add: crc16_byte_def crc16_steps_zero)
  then show ?thesis unfolding c_def [symmetric] be by (simp add: crc16_ccitt_def c_def)
qed

lemma crc16_residue_iff: "crc16_ccitt (data @ [h, l]) = 0 \<longleftrightarrow> [h, l] = be_bytes 2 (crc16_ccitt data)"
proof -
  define c where "c = crc16_ccitt data"
  have be: "be_bytes 2 c = [ucast (drop_bit 8 c), ucast c]" by (simp add: be_bytes_def numeral_2_eq_2)
  have "crc16_ccitt (data @ [h, l] @ []) = crc16_ccitt (data @ [ucast (drop_bit 8 c), ucast c] @ []) \<longleftrightarrow> [h, l] = be_bytes 2 c"
    unfolding crc16_ccitt_def be by (simp add: crc16_pair_inject)
  then show ?thesis using crc16_residue [of data] by (simp add: c_def [symmetric] be)
qed

end
