(* ===== verification/Pairing.thy ===== *)
theory Pairing
  imports Crockford Crc16 Crypto_Types Hkdf
begin

text \<open>
  Pairing with the companion application: \<^verbatim>\<open>src/kernel-core/src/pairing.rs\<close>. The pairing code (a record, its
  checksum, base 32), the confirmation of a session, the frames on the wire and the stored record of a paired
  device. The derivation of a session, which needs the elliptic curve, is left out. A write
  outside a buffer of the caller is a panic, the result \<open>None\<close>.
\<close>

section \<open>Definitions\<close>

definition VERSION :: u8 where "VERSION = 0x01"
definition MAGIC :: "u8 list" where "MAGIC = [0x53, 0x50]"
definition NONCE_LEN :: nat where "NONCE_LEN = 16"
definition PAYLOAD_LEN :: nat where "PAYLOAD_LEN = 59"

datatype pair_error = BadChar | BadLength | BadPairMagic | BadVersion | BadCrc

record pairing_payload =
  pp_version :: u8
  pp_phone_pub :: "u8 list"
  pp_ip :: "u8 list"
  pp_port :: u16
  pp_nonce_p :: "u8 list"

definition payload_to_bytes :: "pairing_payload \<Rightarrow> u8 list" where
  "payload_to_bytes p =
     (let b = replicate PAYLOAD_LEN 0;
          b = copy_into 0 MAGIC b;
          b = b[2 := pp_version p];
          b = copy_into 3 (pp_phone_pub p) b;
          b = copy_into 35 (pp_ip p) b;
          b = copy_into 39 (be_bytes 2 (pp_port p)) b;
          b = copy_into 41 (pp_nonce_p p) b;
          crc = crc16_ccitt (slice 0 57 b)
      in copy_into 57 (be_bytes 2 crc) b)"

definition payload_from_bytes :: "u8 list \<Rightarrow> pair_error + pairing_payload" where
  "payload_from_bytes b =
     (if length b \<noteq> PAYLOAD_LEN then Err BadLength
      else if slice 0 2 b \<noteq> MAGIC then Err BadPairMagic
      else if b ! 2 \<noteq> VERSION then Err BadVersion
      else if of_be_bytes [b ! 57, b ! 58] \<noteq> crc16_ccitt (slice 0 57 b) then Err BadCrc
      else Ok \<lparr>pp_version = b ! 2, pp_phone_pub = slice 3 32 b, pp_ip = slice 35 4 b,
               pp_port = of_be_bytes [b ! 39, b ! 40], pp_nonce_p = slice 41 16 b\<rparr>)"

definition encode_payload :: "pairing_payload \<Rightarrow> u8 list \<Rightarrow> u8 list \<times> nat" where
  "encode_payload p out = (case encode_into (payload_to_bytes p) out of (out, Some n) \<Rightarrow> (out, n) | (out, None) \<Rightarrow> (out, 0))"

definition decode_payload :: "u8 list \<Rightarrow> pair_error + pairing_payload" where
  "decode_payload s =
     (case decode_into s (replicate (PAYLOAD_LEN + 2) 0) of
        (raw, None) \<Rightarrow> Err BadChar
      | (raw, Some n) \<Rightarrow> payload_from_bytes (take n raw))"

definition confirm_mac :: "u8 list \<Rightarrow> u8 list \<Rightarrow> bool \<Rightarrow> u8 list" where
  "confirm_mac session_key th from_sem =
     hmac session_key ((if from_sem then ascii ''confirm-sem'' else ascii ''confirm-phone'') @ th)"

definition verify_confirm :: "u8 list \<Rightarrow> u8 list \<Rightarrow> bool \<Rightarrow> u8 list \<Rightarrow> bool" where
  "verify_confirm session_key th from_sem body =
     (if length body \<noteq> 32 then False else ct_eq (confirm_mac session_key th from_sem) body)"

definition HEX :: "u8 list" where "HEX = ascii ''0123456789abcdef''"

definition pairing_id :: "u8 list \<Rightarrow> u8 list \<Rightarrow> u8 list \<Rightarrow> (u8 list \<times> nat) option" where
  "pairing_id phone_pub sem_pub out =
     (if length out < 16 then None
      else let h = sha_hash (ascii ''semos-pair-id'' @ phone_pub @ sem_pub)
           in Some (foldl (\<lambda>out i. out[i * 2 := HEX ! unat (drop_bit 4 (h ! i)), i * 2 + 1 := HEX ! unat (h ! i AND 0xF)]) out [0..<8], 16))"

definition FRAME_HELLO :: u8 where "FRAME_HELLO = 0x01"
definition FRAME_ACK :: u8 where "FRAME_ACK = 0x02"
definition FRAME_CONFIRM :: u8 where "FRAME_CONFIRM = 0x03"
definition FRAME_ABORT :: u8 where "FRAME_ABORT = 0xFF"
definition FRAME_HEADER_LEN :: nat where "FRAME_HEADER_LEN = 3"
definition MAX_FRAME_BODY :: nat where "MAX_FRAME_BODY = 125"

definition build_hello :: "u8 list \<Rightarrow> u8 list \<Rightarrow> u8 list \<Rightarrow> (u8 list \<times> nat) option" where
  "build_hello sem_pub nonce_s out =
     (let body_len = 1 + 32 + NONCE_LEN;
          total = FRAME_HEADER_LEN + body_len
      in if length out < total then None
         else let out = copy_into 0 (be_bytes 2 (of_nat (body_len + 1) :: u16)) out;
                  out = out[2 := FRAME_HELLO, 3 := VERSION];
                  out = copy_into 4 sem_pub out;
                  out = copy_into 36 nonce_s out
              in Some (out, total))"

definition build_confirm :: "u8 list \<Rightarrow> u8 list \<Rightarrow> (u8 list \<times> nat) option" where
  "build_confirm mac out =
     (if length out < 35 then None
      else let out = copy_into 0 (be_bytes 2 (33 :: u16)) out;
               out = out[2 := FRAME_CONFIRM];
               out = copy_into 3 mac out
           in Some (out, FRAME_HEADER_LEN + 32))"

definition parse_frame_header :: "u8 list \<Rightarrow> (u8 \<times> nat) option" where
  "parse_frame_header hdr =
     (if length hdr < FRAME_HEADER_LEN then None
      else let len = unat (of_be_bytes [hdr ! 0, hdr ! 1] :: u16)
           in if len = 0 \<or> len - 1 > MAX_FRAME_BODY then None else Some (hdr ! 2, len - 1))"

definition RECORD_LEN :: nat where "RECORD_LEN = 49"
definition RECORD_MAGIC :: "u8 list" where "RECORD_MAGIC = [0x50, 0x52]"

record pair_record =
  pr_phone_pub :: "u8 list"
  pr_ip :: "u8 list"
  pr_port :: u16
  pr_created_at :: u64

definition record_to_bytes :: "pair_record \<Rightarrow> u8 list" where
  "record_to_bytes r =
     (let b = replicate RECORD_LEN 0;
          b = copy_into 0 RECORD_MAGIC b;
          b = b[2 := VERSION];
          b = copy_into 3 (pr_phone_pub r) b;
          b = copy_into 35 (pr_ip r) b;
          b = copy_into 39 (be_bytes 2 (pr_port r)) b
      in copy_into 41 (be_bytes 8 (pr_created_at r)) b)"

definition record_from_bytes :: "u8 list \<Rightarrow> pair_record option" where
  "record_from_bytes b =
     (if length b \<noteq> RECORD_LEN \<or> slice 0 2 b \<noteq> RECORD_MAGIC \<or> b ! 2 \<noteq> VERSION then None
      else Some \<lparr>pr_phone_pub = slice 3 32 b, pr_ip = slice 35 4 b, pr_port = of_be_bytes [b ! 39, b ! 40],
                 pr_created_at = of_be_bytes (slice 41 8 b)\<rparr>)"

section \<open>The layout of the records\<close>

text \<open>The arrays of the structs have their sizes.\<close>

definition wf_payload :: "pairing_payload \<Rightarrow> bool" where
  "wf_payload p = (length (pp_phone_pub p) = 32 \<and> length (pp_ip p) = 4 \<and> length (pp_nonce_p p) = 16)"

definition wf_record :: "pair_record \<Rightarrow> bool" where
  "wf_record r = (length (pr_phone_pub r) = 32 \<and> length (pr_ip r) = 4)"

lemma two_bytes: "[xs ! i, xs ! Suc i] = slice i 2 xs" if "Suc i < length xs"
  using that by (simp add: slice_def Cons_nth_drop_Suc [symmetric] numeral_2_eq_2)

lemma replicate_first: "(replicate (Suc n) x)[0 := y] = y # replicate n x"
  by simp

definition payload_body :: "pairing_payload \<Rightarrow> u8 list" where
  "payload_body p = MAGIC @ [pp_version p] @ pp_phone_pub p @ pp_ip p @ be_bytes 2 (pp_port p) @ pp_nonce_p p"

lemma payload_bytes:
  assumes "wf_payload p"
  shows "payload_to_bytes p = payload_body p @ be_bytes 2 (crc16_ccitt (payload_body p))" "length (payload_body p) = 57"
proof -
  define b where "b = copy_into 41 (pp_nonce_p p) (copy_into 39 (be_bytes 2 (pp_port p)) (copy_into 35 (pp_ip p)
     (copy_into 3 (pp_phone_pub p) ((copy_into 0 MAGIC (replicate 59 0))[2 := pp_version p]))))"
  show l: "length (payload_body p) = 57" using assms by (simp add: payload_body_def wf_payload_def MAGIC_def)
  have "(copy_into 0 MAGIC (replicate 59 0))[2 := pp_version p] = MAGIC @ [pp_version p] @ replicate 56 0"
    using replicate_first [of 56 "0 :: u8"] by (simp add: copy_into_def MAGIC_def)
  then have "b = payload_body p @ replicate 2 0" using assms
    by (simp add: b_def payload_body_def wf_payload_def MAGIC_def copy_into_def)
  then have "slice 0 57 b = payload_body p" "copy_into 57 (be_bytes 2 c) b = payload_body p @ be_bytes 2 c" for c :: u16
    using l by (simp_all add: slice_def copy_into_def)
  then show "payload_to_bytes p = payload_body p @ be_bytes 2 (crc16_ccitt (payload_body p))"
    by (simp add: payload_to_bytes_def PAYLOAD_LEN_def b_def [symmetric] Let_def)
qed

lemma payload_accepted:
  assumes "length body = 57"
  shows "payload_from_bytes (body @ [h, l]) = Ok p \<longleftrightarrow>
    slice 0 2 body = MAGIC \<and> body ! 2 = VERSION \<and> [h, l] = be_bytes 2 (crc16_ccitt body)
    \<and> p = \<lparr>pp_version = VERSION, pp_phone_pub = slice 3 32 body, pp_ip = slice 35 4 body,
           pp_port = of_be_bytes (slice 39 2 body), pp_nonce_p = slice 41 16 body\<rparr>"
proof -
  let ?b = "body @ [h, l]"
  have s: "slice 0 2 ?b = slice 0 2 body" "slice 3 32 ?b = slice 3 32 body" "slice 35 4 ?b = slice 35 4 body"
    "slice 41 16 ?b = slice 41 16 body" "slice 0 57 ?b = body" "[?b ! 39, ?b ! 40] = slice 39 2 body" "?b ! 2 = body ! 2"
    "[?b ! 57, ?b ! 58] = [h, l]"
    using assms two_bytes [of 39 body] by (simp_all add: slice_prefix nth_append slice_def)
  have "(of_be_bytes [h, l] :: u16) = c \<longleftrightarrow> [h, l] = be_bytes 2 c" for c
    using be_bytes_of_be [of "[h, l]" 2, where 'a = 16] by auto
  then show ?thesis unfolding payload_from_bytes_def s using assms by (auto simp: PAYLOAD_LEN_def)
qed

lemma payload_round_trip:
  assumes "wf_payload p" "pp_version p = VERSION"
  shows "payload_from_bytes (payload_to_bytes p) = Ok p"
proof -
  note b = payload_bytes [OF assms(1)]
  obtain h l where hl: "be_bytes 2 (crc16_ccitt (payload_body p)) = [h, l]"
    by (auto simp: be_bytes_def numeral_2_eq_2)
  show ?thesis unfolding b(1) hl payload_accepted [OF b(2)]
    using assms hl by (cases p) (simp add: payload_body_def wf_payload_def MAGIC_def slice_def)
qed

section \<open>The pairing code\<close>

lemma decode_payload_OkD:
  assumes "decode_payload s = Ok p"
  shows "\<exists>ds bs. digits_of s = Some ds \<and> length bs = 59 \<and> 5 * length ds div 8 = 59
    \<and> digit_bits ds = bits_of bs @ replicate (5 * length ds mod 8) False \<and> payload_from_bytes bs = Ok p"
proof -
  obtain raw n where d: "decode_into s (replicate (PAYLOAD_LEN + 2) 0) = (raw, Some n)" "payload_from_bytes (take n raw) = Ok p"
    using assms by (auto simp: decode_payload_def split: prod.splits option.splits)
  obtain ds bs where b: "digits_of s = Some ds" "length bs = n" "raw = bs @ drop n (replicate (PAYLOAD_LEN + 2) 0)" "n = 5 * length ds div 8"
    "digit_bits ds = bits_of bs @ replicate (5 * length ds mod 8) False"
    using d(1) unfolding decode_into_exact by blast
  have "payload_from_bytes bs = Ok p" using d(2) b(2,3) by simp
  moreover from this have "length bs = 59" by (auto simp: payload_from_bytes_def PAYLOAD_LEN_def split: if_splits)
  ultimately show ?thesis using b by metis
qed

lemma code_of_payload:
  assumes "wf_payload p" "pp_version p = VERSION" "95 \<le> length out"
  shows "\<exists>ds. length ds = 95 \<and> (\<forall>d \<in> set ds. d < 32) \<and> encode_payload p out = (letters ds @ drop 95 out, 95)
    \<and> (\<forall>s. digits_of s = Some ds \<longrightarrow> decode_payload s = Ok p)"
proof -
  have l: "length (payload_to_bytes p) = 59" using payload_bytes [OF assms(1)] by simp
  then have e: "encoded_len (length (payload_to_bytes p)) = 95" by (simp add: encoded_len_def)
  obtain ds where ds: "length ds = 95" "\<forall>d \<in> set ds. d < 32" "digit_bits ds = bits_of (payload_to_bytes p) @ replicate 3 False"
    "encode_into (payload_to_bytes p) out = (letters ds @ drop 95 out, Some 95)"
    using encode_into_digits [of "payload_to_bytes p" out] assms(3) l e by auto
  have "decode_payload s = Ok p" if "digits_of s = Some ds" for s
  proof -
    have "decode_into s (replicate (PAYLOAD_LEN + 2) 0) = (payload_to_bytes p @ drop 59 (replicate (PAYLOAD_LEN + 2) 0), Some 59)"
      unfolding decode_into_exact using that ds(1,3) l by (intro exI [of _ ds] exI [of _ "payload_to_bytes p"]) (simp add: PAYLOAD_LEN_def)
    then show ?thesis using payload_round_trip [OF assms(1,2)] l by (simp add: decode_payload_def)
  qed
  then show ?thesis using ds(1,2,4) by (intro exI [of _ ds]) (simp add: encode_payload_def)
qed

text \<open>
  The pairing code carries its payload: for every payload of this version and every buffer of at least 95
  bytes, the code has 95 characters, and typing it with any hyphens, in either case and with the look-alikes of 0 and 1
  gives the payload back.
\<close>

theorem pairing_code_round_trip:
  assumes "wf_payload p" "pp_version p = VERSION" "95 \<le> length out" "encode_payload p out = (out', n)"
  shows "n = 95 \<and> (\<forall>s. digits_of s = digits_of (take 95 out') \<longrightarrow> decode_payload s = Ok p)"
  using code_of_payload [OF assms(1-3)] assms(4) digits_of_letters by auto

text \<open>The payload of the unit test of the checksum.\<close>

definition test_payload :: pairing_payload where
  "test_payload = \<lparr>pp_version = VERSION, pp_phone_pub = replicate 32 0, pp_ip = [192, 168, 1, 42], pp_port = 8080,
     pp_nonce_p = map of_nat [0..<16]\<rparr>"

lemma test_payload_wf: "wf_payload test_payload" "pp_version test_payload = VERSION"
  by (simp_all add: wf_payload_def test_payload_def)

theorem pairing_code_round_trip_witness:
  "decode_payload (take 95 (fst (encode_payload test_payload (replicate 96 0)))) = Ok test_payload
   \<and> snd (encode_payload test_payload (replicate 96 0)) = 95"
  using pairing_code_round_trip [OF test_payload_wf, of "replicate 96 0" "fst (encode_payload test_payload (replicate 96 0))"
      "snd (encode_payload test_payload (replicate 96 0))"] by simp

text \<open>The bytes of a payload in the bits of its code.\<close>

lemma byte_of_bits:
  assumes "xs = bits_of bs @ ys" "j < length bs"
  shows "low 8 (bs ! j) = slice (8 * j) 8 xs"
  using slice_concat_blocks [of "map (low 8) bs" 8 j "[]" ys] assms by (simp add: bits_of_def mult.commute)

lemma slice_outside:
  assumes "length v = length v'" "o1 + n \<le> length u \<or> length u + length v \<le> o1"
  shows "slice o1 n (u @ v @ w) = slice o1 n (u @ v' @ w)"
  using assms by (auto simp: slice_def)

lemma digits_of_append:
  "digits_of (xs @ ys) = (case digits_of xs of None \<Rightarrow> None | Some ds \<Rightarrow> map_option ((@) ds) (digits_of ys))"
  by (cases "digits_of ys"; induction xs) (auto split: option.splits)

lemma low_5_inject: "low 5 (unat v) = low 5 (unat v') \<Longrightarrow> unat v < 32 \<Longrightarrow> unat v' < 32 \<Longrightarrow> v = v'" for v v' :: u8
proof -
  assume e: "low 5 (unat v) = low 5 (unat v')" and l: "unat v < 32" "unat v' < 32"
  have "bit v i = bit v' i" for i
    using e l small_digit_bits [of v i] small_digit_bits [of v' i]
    by (cases "i < 5") (auto simp: low_5_unat low_eq_iff)
  then show "v = v'" by (intro bit_word_eqI)
qed

lemma code_residue:
  assumes "payload_from_bytes bs = Ok p" "length bs = 59"
  shows "crc16_ccitt bs = 0"
proof -
  define t where "t = drop 57 bs"
  have "length t = Suc (Suc 0)" using assms(2) by (simp add: t_def)
  then obtain h l where "t = [h, l]" by (auto simp: length_Suc_conv)
  then have hl: "bs = take 57 bs @ [h, l]" unfolding t_def by (metis append_take_drop_id)
  have "length (take 57 bs) = 57" using assms(2) by simp
  then have "[h, l] = be_bytes 2 (crc16_ccitt (take 57 bs))" using assms(1) payload_accepted [of "take 57 bs" h l p] hl by auto
  then show ?thesis using crc16_residue_iff [of "take 57 bs" h l] hl by simp
qed

lemma one_digit_changed:
  assumes "digit_bits (as @ d # es) = bits_of bs @ ys" "digit_bits (as @ d' # es) = bits_of bs' @ ys'"
    "length bs = length bs'" "j < length bs" "j \<noteq> 5 * length as div 8" "j \<noteq> Suc (5 * length as div 8)"
  shows "bs ! j = bs' ! j"
proof -
  define a where "a = 5 * length as"
  have "8 * (a div 8) \<le> a" "a < 8 * (a div 8) + 8" by simp_all
  then have "8 * j + 8 \<le> a \<or> a + 5 \<le> 8 * j" using assms(5,6) unfolding a_def [symmetric] by linarith
  then have "slice (8 * j) 8 (digit_bits as @ low 5 d @ digit_bits es) = slice (8 * j) 8 (digit_bits as @ low 5 d' @ digit_bits es)"
    by (intro slice_outside) (simp_all add: a_def)
  then have "low 8 (bs ! j) = low 8 (bs' ! j)"
    using byte_of_bits [OF assms(1,4)] byte_of_bits [OF assms(2), of j] assms(3,4) by simp
  then show ?thesis by simp
qed

text \<open>
  (C33) Every slip in one character of a pairing code is detected: if a code is accepted, then the same text with one
  character replaced by one that does not stand for the same digit is refused, wherever the character is. The
  checksum of 16 bits covers what a digit of five bits can touch, at most two neighbouring bytes.
\<close>

theorem pairing_typo_detected:
  assumes "decode_payload (xs @ c # ys) = Ok p" "c \<noteq> HYPHEN" "c' \<noteq> HYPHEN" "decode_char c' \<noteq> decode_char c"
  shows "\<exists>e. decode_payload (xs @ c' # ys) = Err e"
proof (rule ccontr)
  assume "\<nexists>e. decode_payload (xs @ c' # ys) = Err e"
  then obtain p' where p': "decode_payload (xs @ c' # ys) = Ok p'" by (metis sum.exhaust)
  obtain ds bs where 1: "digits_of (xs @ c # ys) = Some ds" "length bs = 59" "digit_bits ds = bits_of bs @ replicate (5 * length ds mod 8) False"
    "payload_from_bytes bs = Ok p" using decode_payload_OkD [OF assms(1)] by blast
  obtain ds' bs' where 2: "digits_of (xs @ c' # ys) = Some ds'" "length bs' = 59" "digit_bits ds' = bits_of bs' @ replicate (5 * length ds' mod 8) False"
    "payload_from_bytes bs' = Ok p'" using decode_payload_OkD [OF p'] by blast
  obtain as es v where v: "decode_char c = Some v" "digits_of xs = Some as" "digits_of ys = Some es" "ds = as @ unat v # es"
    using 1(1) assms(2) by (auto simp: digits_of_append split: option.splits)
  obtain v' where v': "decode_char c' = Some v'" "ds' = as @ unat v' # es"
    using 2(1) assms(3) v(2,3) by (auto simp: digits_of_append split: option.splits)
  have "\<forall>j < length bs. j \<noteq> 5 * length as div 8 \<and> j \<noteq> Suc (5 * length as div 8) \<longrightarrow> bs ! j = bs' ! j"
    using one_digit_changed [OF 1(3) [unfolded v(4)] 2(3) [unfolded v'(2)]] 1(2) 2(2) by simp
  moreover have "crc16_ccitt bs = crc16_ccitt bs'" using code_residue 1(2,4) 2(2,4) by simp
  ultimately have "bs = bs'" using crc16_adjacent 1(2) 2(2) by metis
  moreover have "length ds = length ds'" by (simp add: v(4) v'(2))
  ultimately have "digit_bits ds = digit_bits ds'" using 1(3) 2(3) by metis
  then have "low 5 (unat v) = low 5 (unat v')" by (simp add: v(4) v'(2))
  then show False using low_5_inject decode_char_less v(1) v'(1) assms(4) by metis
qed

text \<open>The code of the test payload with another first letter.\<close>

theorem pairing_typo_detected_witness:
  "\<exists>c c' ys. decode_payload (c # ys) = Ok test_payload \<and> c' \<in> set ALPHABET \<and> (\<exists>e. decode_payload (c' # ys) = Err e)"
proof -
  obtain ds where ds: "length ds = 95" "\<forall>d \<in> set ds. d < 32" "\<forall>s. digits_of s = Some ds \<longrightarrow> decode_payload s = Ok test_payload"
    using code_of_payload [OF test_payload_wf, of "replicate 95 0"] by auto
  obtain d es where de: "ds = d # es" "d < 32" using ds(1,2) by (cases ds) auto
  have ok: "decode_payload ([] @ ALPHABET ! d # letters es) = Ok test_payload"
    using ds(2,3) digits_of_letters [of ds] de(1) by simp
  define d' :: nat where "d' = (if d = 0 then 1 else 0)"
  have d': "d' < 32" by (simp add: d'_def)
  have "unat (of_nat d :: u8) = d" using de(2) by (simp add: unat_of_nat take_bit_nat_eq_self)
  then have "(of_nat d' :: u8) \<noteq> of_nat d" by (auto simp: d'_def)
  then have "decode_char (ALPHABET ! d') \<noteq> decode_char (ALPHABET ! d)" using decode_alphabet de(2) d' by simp
  then have "\<exists>e. decode_payload ([] @ ALPHABET ! d' # letters es) = Err e"
    using pairing_typo_detected [OF ok] decode_alphabet de(2) d' by blast
  moreover have "ALPHABET ! d' \<in> set ALPHABET" using d' by (intro nth_mem) (simp add: length_ALPHABET)
  ultimately show ?thesis using ok by (metis append_Nil)
qed

section \<open>Confirmation, frames and stored records\<close>

lemma record_bytes:
  assumes "wf_record r"
  shows "record_to_bytes r = RECORD_MAGIC @ [VERSION] @ pr_phone_pub r @ pr_ip r @ be_bytes 2 (pr_port r) @ be_bytes 8 (pr_created_at r)"
proof -
  have "(copy_into 0 RECORD_MAGIC (replicate 49 0))[2 := VERSION] = RECORD_MAGIC @ [VERSION] @ replicate 46 0"
    using replicate_first [of 46 "0 :: u8"] by (simp add: copy_into_def RECORD_MAGIC_def)
  then show ?thesis using assms by (simp add: record_to_bytes_def RECORD_LEN_def wf_record_def RECORD_MAGIC_def copy_into_def Let_def)
qed

interpretation stored_record: byte_codec record_to_bytes record_from_bytes wf_record
proof unfold_locales
  fix r
  assume wf: "wf_record r"
  let ?b = "record_to_bytes r"
  note b = record_bytes [OF wf]
  have l: "length ?b = 49" using wf by (simp add: b wf_record_def RECORD_MAGIC_def)
  have p: "[?b ! 39, ?b ! 40] = be_bytes 2 (pr_port r)"
    using two_bytes [of 39 ?b] l wf by (simp add: b wf_record_def RECORD_MAGIC_def slice_def)
  have "slice 0 2 ?b = RECORD_MAGIC" "?b ! 2 = VERSION" "slice 3 32 ?b = pr_phone_pub r" "slice 35 4 ?b = pr_ip r"
    "slice 41 8 ?b = be_bytes 8 (pr_created_at r)" using wf by (simp_all add: b wf_record_def RECORD_MAGIC_def slice_def)
  then show "record_from_bytes ?b = Some r" using l p by (cases r) (simp add: record_from_bytes_def RECORD_LEN_def)
qed

lemma length_confirm_mac: "length (confirm_mac k th f) = 32"
  using hmac_stream [of k "[m]" for m] by (simp add: confirm_mac_def hmac_def)

lemma frame_header: "unat (of_be_bytes [h, l] :: u16) = Suc n \<Longrightarrow> n \<le> 125 \<Longrightarrow> parse_frame_header (h # l # t # body) = Some (t, n)"
  by (simp add: parse_frame_header_def FRAME_HEADER_LEN_def MAX_FRAME_BODY_def)

lemma hello_frame:
  assumes "length sem_pub = 32" "length nonce_s = 16" "52 \<le> length out"
  shows "build_hello sem_pub nonce_s out = Some ([0, 50, FRAME_HELLO, VERSION] @ sem_pub @ nonce_s @ drop 52 out, 52)"
proof -
  obtain a b c d rest where o: "out = a # b # c # d # rest" "48 \<le> length rest"
    using assms(3) by (cases out; cases "tl out"; cases "tl (tl out)"; cases "tl (tl (tl out))") auto
  have "be_bytes 2 (50 :: u16) = [0, 50]" by code_simp
  then show ?thesis using assms o
    by (simp add: build_hello_def NONCE_LEN_def FRAME_HEADER_LEN_def copy_into_def Let_def numeral_eq_Suc)
qed

lemma confirm_frame:
  assumes "length mac = 32" "35 \<le> length out"
  shows "build_confirm mac out = Some ([0, 33, FRAME_CONFIRM] @ mac @ drop 35 out, 35)"
proof -
  obtain a b c rest where o: "out = a # b # c # rest" "32 \<le> length rest"
    using assms(2) by (cases out; cases "tl out"; cases "tl (tl out)") auto
  have "be_bytes 2 (33 :: u16) = [0, 33]" by code_simp
  then show ?thesis using assms o
    by (simp add: build_confirm_def FRAME_HEADER_LEN_def copy_into_def Let_def numeral_eq_Suc)
qed

lemma verify_confirm_iff: "verify_confirm k th d body \<longleftrightarrow> body = confirm_mac k th d"
  using length_confirm_mac [of k th d] by (auto simp: verify_confirm_def ct_eq_iff)

text \<open>
  What one side of the protocol writes the other reads: the header of a HELLO and of a CONFIRM frame is parsed to
  its type and the exact length of its body, the body of a CONFIRM frame is accepted exactly when it is the code
  for that key, transcript and direction, and a stored record of a device is read back as it was.
\<close>

theorem pairing_messages_agree:
  assumes "length sem_pub = 32" "length nonce_s = 16" "wf_record r" "52 \<le> length out"
  shows "(\<exists>f. build_hello sem_pub nonce_s out = Some (f, 52) \<and> parse_frame_header f = Some (FRAME_HELLO, 49)
        \<and> slice 3 49 f = VERSION # sem_pub @ nonce_s)
    \<and> (\<exists>f. build_confirm (confirm_mac k th d) out = Some (f, 35) \<and> parse_frame_header f = Some (FRAME_CONFIRM, 32)
        \<and> verify_confirm k th d (slice 3 32 f))
    \<and> (verify_confirm k th d body \<longleftrightarrow> body = confirm_mac k th d)
    \<and> record_from_bytes (record_to_bytes r) = Some r"
proof (intro conjI)
  have "unat (of_be_bytes [0, 50] :: u16) = Suc 49" "unat (of_be_bytes [0, 33] :: u16) = Suc 32" by code_simp+
  note h = this [THEN frame_header]
  show "\<exists>f. build_hello sem_pub nonce_s out = Some (f, 52) \<and> parse_frame_header f = Some (FRAME_HELLO, 49)
      \<and> slice 3 49 f = VERSION # sem_pub @ nonce_s"
    using hello_frame [OF assms(1,2,4)] h(1) assms(1,2) by (simp add: slice_def)
  show "\<exists>f. build_confirm (confirm_mac k th d) out = Some (f, 35) \<and> parse_frame_header f = Some (FRAME_CONFIRM, 32)
      \<and> verify_confirm k th d (slice 3 32 f)"
    using confirm_frame [OF length_confirm_mac, of out k th d] h(2) assms(4) by (simp add: slice_def verify_confirm_iff length_confirm_mac)
  show "verify_confirm k th d body \<longleftrightarrow> body = confirm_mac k th d" by (rule verify_confirm_iff)
  show "record_from_bytes (record_to_bytes r) = Some r" by (rule stored_record.dec_enc [OF assms(3)])
qed

text \<open>A record and a frame of zeros.\<close>

theorem pairing_messages_agree_witness:
  "record_from_bytes (record_to_bytes \<lparr>pr_phone_pub = replicate 32 7, pr_ip = [10, 0, 0, 1], pr_port = 80, pr_created_at = 5\<rparr>)
     = Some \<lparr>pr_phone_pub = replicate 32 7, pr_ip = [10, 0, 0, 1], pr_port = 80, pr_created_at = 5\<rparr>
   \<and> (\<exists>f. build_hello (replicate 32 1) (replicate 16 2) (replicate 64 0) = Some (f, 52) \<and> parse_frame_header f = Some (FRAME_HELLO, 49))"
proof -
  let ?r = "\<lparr>pr_phone_pub = replicate 32 7, pr_ip = [10, 0, 0, 1], pr_port = 80, pr_created_at = 5\<rparr>"
  have "wf_record ?r" by (simp add: wf_record_def)
  then show ?thesis
    using pairing_messages_agree [where sem_pub = "replicate 32 1" and nonce_s = "replicate 16 2" and r = ?r and out = "replicate 64 0"
        and k = "[]" and th = "[]" and d = True and body = "[]"]
    by auto
qed

end
