(* ===== verification/Spec2Isabelle.thy ===== *)
theory Spec2Isabelle
  imports Pipe Secure_Alloc Durability Namespace_Correct Snapshot_Correct Policy_Eval Cap_Confinement Boot
    Sem_Syscalls Elf Pairing
begin

text \<open>
  \<^bold>\<open>Verification of the SemOS kernel core\<close>

  SemOS keeps all persistent data as semantic objects, each with a 128-bit identifier and a security
  tier, and builds a path namespace, processes and system calls on top of them. This development
  models the architecture-independent kernel \<^verbatim>\<open>src/kernel-core/src\<close> and proves the properties that
  make its parts correct. Every theory opens with the source file that it models; definitions keep
  the names of the source, with a prefix where a name would clash.

  \<^bold>\<open>Parts and theories\<close>

  \<^item> Identifiers, tiers and rights. \<open>Suid\<close> (\<^verbatim>\<open>semantic/suid.rs\<close>), \<open>Tiers\<close> (the tiers of
    \<^verbatim>\<open>memory/pools.rs\<close>), \<open>Sem_Caps\<close> (\<^verbatim>\<open>semantic/capability.rs\<close>, the table of rights on objects),
    \<open>Proc_Caps\<close> (\<^verbatim>\<open>process/capability.rs\<close>, the rights of a process).
  \<^item> Memory. \<open>Frames\<close> (\<^verbatim>\<open>memory/frames.rs\<close>, the bitmap of page frames), \<open>Pools\<close> (\<^verbatim>\<open>memory/pools.rs\<close>, one
    pool of frames per tier), \<open>Secure_Alloc\<close> (\<^verbatim>\<open>memory/secure_alloc.rs\<close>, allocation checked against the
    tier of the caller), \<open>Heap\<close> (\<^verbatim>\<open>memory/heap.rs\<close>, the first-fit kernel heap).
  \<^item> Objects and persistence. \<open>Objects\<close> (\<^verbatim>\<open>semantic/object.rs\<close>), \<open>Crc32\<close> and \<open>Journal\<close> with \<open>Replay\<close>
    (\<^verbatim>\<open>semantic/journal.rs\<close>: append on every change, replay at mount), \<open>Registry\<close>
    (\<^verbatim>\<open>semantic/registry.rs\<close>, the chained hash table of all objects, which calls the journal).
  \<^item> The path namespace. \<open>Paths\<close> (path syntax and the packed directory format of \<^verbatim>\<open>fs/paths.rs\<close>),
    \<open>Namespace\<close> (its operations over registry, journal and heap), \<open>Snapshot\<close> (\<^verbatim>\<open>mod serial\<close> of the same
    file and \<^verbatim>\<open>storage/snapshot.rs\<close>), \<open>Ramfs\<close> (\<^verbatim>\<open>fs/ramfs.rs\<close>).
  \<^item> Users and policies. \<open>Users\<close> (\<^verbatim>\<open>security/users.rs\<close>), \<open>Policy\<close> (\<^verbatim>\<open>security/policy.rs\<close>), \<open>Policy_Eval\<close>
    (\<^verbatim>\<open>security/evaluation.rs\<close>, which reads policies from the registry).
  \<^item> Tasks and processes. \<open>Pipe\<close> (\<^verbatim>\<open>ipc/pipe.rs\<close>), \<open>Scheduler\<close> (\<^verbatim>\<open>scheduler/mod.rs\<close>, which asks the pipes
    when a blocked task can go on), \<open>Processes\<close> (\<^verbatim>\<open>process/mod.rs\<close>).
  \<^item> System calls. \<open>Syscalls\<close> (pointer validation, copies, identity, pipe and futex calls of
    \<^verbatim>\<open>syscall/mod.rs\<close>) and \<open>Descriptors\<close> (descriptor, process and environment calls, with the state of
    process table, scheduler and pipes in one record, and the capability checks), \<open>Sem_Syscalls\<close> (the calls on semantic objects and on
    the services of the language model).
  \<^item> Programs. \<open>Elf\<close> (\<^verbatim>\<open>process/elf.rs\<close>: the checks of a program file and the copy of its segments).
  \<^item> Cryptography and keys. \<open>Sha256\<close> with HMAC, \<open>Hkdf\<close>, \<open>Crypto_Types\<close>, \<open>Chacha20\<close>, \<open>Poly1305\<close>, \<open>Aead\<close>
    (\<^verbatim>\<open>crypto/\<close>, at the width of the machine words), \<open>Keys\<close> (\<^verbatim>\<open>crypto/master_key.rs\<close> and
    \<^verbatim>\<open>crypto/key_hierarchy.rs\<close>).
  \<^item> Encrypted storage and boot. \<open>Storage\<close> (\<^verbatim>\<open>storage/mod.rs\<close>, \<^verbatim>\<open>storage/persistence.rs\<close>: the memory pools
    saved under the keys of their tiers), \<open>Boot\<close> (\<^verbatim>\<open>storage/boot.rs\<close>: unlocking).
  \<^item> Services of the language model. \<open>Ascii\<close> (classes of bytes), \<open>Redact\<close> (\<^verbatim>\<open>llm/redact.rs\<close>), \<open>Context_Redact\<close>
    (\<^verbatim>\<open>llm/context_redact.rs\<close>, which asks the policy engine for a profile), \<open>Summarize\<close>
    (\<^verbatim>\<open>llm/summarize.rs\<close>), \<open>Llm_Context\<close> (\<^verbatim>\<open>llm/context_builder.rs\<close>, which uses both), \<open>Escalation\<close>
    (\<^verbatim>\<open>llm/access_request.rs\<close>).
  \<^item> Pairing. \<open>Crockford\<close> (\<^verbatim>\<open>crypto/crockford.rs\<close>, base 32), \<open>Crc16\<close> (\<^verbatim>\<open>crypto/crc16.rs\<close>), \<open>Pairing\<close>
    (\<^verbatim>\<open>pairing.rs\<close>: the code shown to the user, the messages and the stored record, over both).

  \<open>Prelude\<close> holds what all parts share: results and their sequencing, byte encodings of words,
  slices and copies, searches in lists, and the locale \<open>byte_codec\<close>.

  \<^bold>\<open>How code becomes definitions\<close>

  A struct is a record, an enum a datatype, an integer a word of its width, a \<^verbatim>\<open>Result\<close> a sum with the
  error on the left, an \<^verbatim>\<open>Option\<close> an option. Methods that change their receiver return the new value.
  Global tables (registry, heap, scheduler, process table) are passed as state; the kernel runs
  their operations with interrupts off or under a lock, so a history of the system is a sequence of
  operations. Fixed-size arrays are lists of that length, and where the code would panic on an
  index the result is \<open>None\<close>. Loops are recursive functions with a termination proof. Two loops
  may run forever and are partial functions with the value \<open>None\<close> for a run that does not end: the replay
  loop of the journal, for which \<open>Durability\<close> proves that a mount returns on every device whose
  superblock gives an area that ends \<open>2^24\<close> sectors before \<open>2^64\<close>, and the acquisition of a kernel mutex. The walk along a
  chain of the registry takes as fuel one more than the entries of the table, and \<open>Registry\<close> proves that this is enough for every
  chain of a consistent table. Blocking calls are modelled up to
  the point where they give the processor away. The block device, the clock, the random source and
  what the platform answers are arguments, and so is the one number that the code computes in floating
  point (the target length of a truncating summary). Unchecked sums wrap, as in the release build.

  \<^bold>\<open>Interfaces\<close>

  Where one part relies on another the contract is a locale, interpreted on the model of the code:
  \<open>byte_codec\<close> (encodings of identifiers, tiers, superblocks and directories), \<open>byte_queue\<close> (the ring of a
  pipe), \<open>frame_provider\<close> (the bitmap below the pools), \<open>block_heap\<close> (the kernel heap),
  \<open>slot_table\<close> (tables of fixed slots: object rights, allocation records, registry entries, user
  accounts, escalation requests), \<open>object_store\<close> (the registry below the namespace), \<open>counted_ends\<close> (the
  reference counts of pipes below the descriptors), \<open>block_stream\<close> (a streaming interface over blocks, for the
  hash and the authenticator), \<open>pii_pattern\<close> and its special case \<open>fixed_pattern\<close> (a matcher whose matches do
  not survive redaction: social security and card numbers, addresses, keys, dates, routing numbers).

  \<^bold>\<open>What is proved\<close>

  \<^item> Namespace: every sequence of operations keeps the tree of directories, the registry, the heap and
    the journal consistent; create, write, unlink and rename have their exact effect on every path of plain
    components (\<open>Namespace_View\<close>, \<open>Namespace_Ops\<close>, \<open>Namespace_Correct\<close>); a saved snapshot loads back to the same
    tree with the same content (\<open>Snapshot_Correct\<close>).
  \<^item> Persistence: mounting the device after any history of updates and removals, of which the journal accepted
    each, gives back the objects as they were, except for content over 256 bytes that the heap refuses at the
    moment of its record; mount returns (\<open>Replay_Correct\<close>, \<open>Durability\<close>).
  \<^item> Registry: insert and remove refine a finite map. Heap: blocks handed out are aligned, inside the
    arena and disjoint; freeing restores the free list. Frames are never given out twice. The tier check
    of allocation cannot be bypassed. Delegation of rights never adds rights.
  \<^item> Scheduler: a tick chooses the next eligible slot in round-robin order, and a ready task runs after
    at most as many ticks as there are slots. Pipes deliver bytes in order, and a reader or writer that blocks
    is exactly one that the scheduler will not wake.
  \<^item> System calls: user pointers stay in the user half of the address space; no call gives a task the
    identity of a more privileged user. Pipe reference counts equal the descriptors held in every
    state reached without a \<^verbatim>\<open>dup2\<close> of a closed descriptor or onto itself and without reaping a process that
    still holds pipes (\<open>Refcounts\<close>, \<open>Descriptors_Correct\<close>). Over all runs the stored capabilities of
    processes stay confined, but every capability check passes (\<open>Cap_Confinement\<close>). Descriptors are handed out lowest first, and the environment block is a map.
  \<^item> Object calls: no call changes an object above the tier of its caller. The context call never returns
    when a requested object that the caller may see has text; otherwise it writes nothing and answers 0 or an error.
  \<^item> Language model: redacted text has no social security number, card number, mail address or key of the
    covered forms, whatever the input; the profile applied is the one the policies give; summaries fit
    their buffer, and with the strategy of the kernel they are the shortest beginning of the text that has the
    wanted number of sentences; a context holds only entries whose treatment fits
    the tier; an escalation request is decided once, and decisions stay.
  \<^item> Loader: what is accepted lies inside the file and below the kernel when no sum wraps, and the memory image
    is exactly the one the headers describe.
  \<^item> Cryptography: the streaming hash equals the one-shot definition over padded blocks, the limb
    arithmetic of Poly1305 equals the polynomial modulo \<open>2^130 - 5\<close>, encryption is the key stream added to
    the text with the tag of RFC 8439, decryption inverts it and a changed tag is refused, key derivation is HKDF. Saved pools are restored frame by frame.
  \<^item> Encodings round-trip: directories, objects, policies, snapshots. The table-driven CRC equals the
    bitwise one and detects every error in one byte.
  \<^item> Pairing: a code decodes to the payload it was made from, with hyphens and either case, and one mistyped
    letter is refused; messages and stored records read back.
  \<^item> Some theorems state what the code does where it does not do what it means to: rename into a
    directory's own subtree, the pool that frees nothing, the heap request that wraps, \<^verbatim>\<open>dup2\<close> of a closed
    descriptor, the permission check of kill, the storage header whose checksum never verifies, the
    unlock that accepts every passphrase, the policy that a write to its object disables, the queue that
    approved requests fill, the overflow in the checks of the loader, the context call that waits for a lock it
    holds, and the capability check that always looks at the kernel.

  \<^bold>\<open>Not modelled\<close>

  Architecture code (\<^verbatim>\<open>src/kernel-x86_64\<close>, \<^verbatim>\<open>src/kernel-aarch64\<close>: assembly, page tables, interrupts,
  drivers), networking and TLS (state on top of third-party crates) with the elliptic curves they use,
  the providers and transports of the language model (network), floating-point vector search, the
  derivation of a pairing session, the FAT reader, logging and console output, the user programs with their
  vendored compiler sources, and the companion application. Locks and interrupt masking are not
  modelled, since operations are atomic, except for the lock of the registry in the context call, the one place where
  a modelled operation takes a lock that it holds.
\<close>

end
